(* ===== verification/Py_Prelude.thy ===== *)
theory Py_Prelude
  imports Complex_Main "HOL-Library.AList" "HOL-Library.Multiset" "HOL-Library.Product_Lexorder"
begin

text \<open>
  Shared vocabulary of the development: the Python exceptions the modelled code raises,
  results that may be exceptions, insertion-ordered dictionaries, the string methods the code
  calls, decimal numerals, \<open>max\<close> with a key, and the locales for components that are driven by a
  sequence of operations (an invariant kept by every operation; an abstract specification
  simulated by every operation).
\<close>

section \<open>Exceptions and results\<close>

datatype py_exn =
    IndexError
  | KeyError string
  | ValueError string
  | TypeError string
  | OtherError string

type_synonym 'a res = "py_exn + 'a"

definition bindR :: "'e + 'a \<Rightarrow> ('a \<Rightarrow> 'e + 'b) \<Rightarrow> 'e + 'b" where
  "bindR r f = (case r of Inl e \<Rightarrow> Inl e | Inr x \<Rightarrow> f x)"

lemma bindR_simps [simp]: "bindR (Inl e) f = Inl e" "bindR (Inr x) f = f x"
  by (simp_all add: bindR_def)

lemma bindR_Inr_iff: "bindR r f = Inr y \<longleftrightarrow> (\<exists>x. r = Inr x \<and> f x = Inr y)"
  by (cases r) auto

lemma bindR_Inl_iff: "bindR r f = Inl e \<longleftrightarrow> r = Inl e \<or> (\<exists>x. r = Inr x \<and> f x = Inl e)"
  by (cases r) auto

definition py_index :: "'a list \<Rightarrow> nat \<Rightarrow> 'a res" where
  \<comment> \<open>\<open>xs[i]\<close> with a non-negative index\<close>
  "py_index xs i = (if i < length xs then Inr (xs ! i) else Inl IndexError)"

lemma py_index_in [simp]: "i < length xs \<Longrightarrow> py_index xs i = Inr (xs ! i)"
  by (simp add: py_index_def)

fun first_error :: "('e + 'a) list \<Rightarrow> 'e + 'a list" where
  \<comment> \<open>\<open>list(executor.map(...))\<close>: results in order, the first failure is raised\<close>
  "first_error [] = Inr []"
| "first_error (r # rs) = bindR r (\<lambda>x. bindR (first_error rs) (\<lambda>xs. Inr (x # xs)))"

definition mean_of :: "real list \<Rightarrow> real res" where
  \<comment> \<open>\<open>sum(xs) / len(xs)\<close>\<close>
  "mean_of xs = (if xs = [] then Inl (OtherError ''ZeroDivisionError'') else Inr (sum_list xs / real (length xs)))"

lemma first_error_Inr: "first_error rs = Inr xs \<longleftrightarrow> rs = map Inr xs"
proof (induction rs arbitrary: xs)
  case (Cons r rs)
  then show ?case by (cases r; cases xs) (auto simp: bindR_Inr_iff)
qed auto

lemma first_error_Inl: "first_error (map Inr xs @ Inl e # rest) = Inl e"
  by (induction xs) auto

lemma mean_of_Inr: "xs \<noteq> [] \<Longrightarrow> mean_of xs = Inr (sum_list xs / real (length xs))"
  by (simp add: mean_of_def)

lemma mean_unit:
  fixes xs :: "real list"
  assumes "xs \<noteq> []" and "list_all (\<lambda>x. 0 \<le> x \<and> x \<le> 1) xs"
  shows "0 \<le> sum_list xs / real (length xs) \<and> sum_list xs / real (length xs) \<le> 1"
proof -
  have "0 \<le> sum_list xs \<and> sum_list xs \<le> real (length xs)"
    using assms(2) by (induction xs) auto
  with assms(1) show ?thesis by (simp add: field_simps)
qed

section \<open>Dictionaries\<close>

text \<open>
  A Python \<open>dict\<close> iterates in insertion order, and assigning to a present key keeps its
  position. Both are what \<open>AList.update\<close> does on an association list with distinct keys.
\<close>

type_synonym ('k, 'v) pydict = "('k \<times> 'v) list"

definition dict_ok :: "('k, 'v) pydict \<Rightarrow> bool" where
  "dict_ok d \<longleftrightarrow> distinct (map fst d)"

abbreviation dget :: "('k, 'v) pydict \<Rightarrow> 'k \<Rightarrow> 'v option" where
  "dget d k \<equiv> map_of d k"

abbreviation dset :: "'k \<Rightarrow> 'v \<Rightarrow> ('k, 'v) pydict \<Rightarrow> ('k, 'v) pydict" where
  "dset \<equiv> AList.update"

abbreviation ddel :: "'k \<Rightarrow> ('k, 'v) pydict \<Rightarrow> ('k, 'v) pydict" where
  "ddel \<equiv> AList.delete"

abbreviation dkeys :: "('k, 'v) pydict \<Rightarrow> 'k list" where
  "dkeys d \<equiv> map fst d"

definition dupdate :: "('k, 'v) pydict \<Rightarrow> ('k, 'v) pydict \<Rightarrow> ('k, 'v) pydict" where
  \<comment> \<open>\<open>d.update(e)\<close>\<close>
  "dupdate d e = foldl (\<lambda>m (k, v). dset k v m) d e"

lemma dget_dset [simp]: "dget (dset k v d) k' = (if k' = k then Some v else dget d k')"
  by (simp add: update_conv')

lemma dget_ddel [simp]: "dget (ddel k d) k' = (if k' = k then None else dget d k')"
  by (simp add: delete_conv')

lemma dict_ok_Nil [simp]: "dict_ok []"
  by (simp add: dict_ok_def)

lemma dict_ok_dset [simp]: "dict_ok d \<Longrightarrow> dict_ok (dset k v d)"
  by (simp add: dict_ok_def distinct_update)

lemma dict_ok_ddel [simp]: "dict_ok d \<Longrightarrow> dict_ok (ddel k d)"
  by (simp add: dict_ok_def distinct_delete)

lemma dict_ok_dupdate [simp]: "dict_ok d \<Longrightarrow> dict_ok (dupdate d e)"
  unfolding dupdate_def by (induction e arbitrary: d) auto

lemma dget_dupdate:
  "dict_ok e \<Longrightarrow> dget (dupdate d e) k = (case dget e k of None \<Rightarrow> dget d k | Some v \<Rightarrow> Some v)"
proof (induction e arbitrary: d)
  case Nil
  then show ?case by (simp add: dupdate_def)
next
  case (Cons p e)
  obtain a b where p: "p = (a, b)" by (cases p)
  from Cons.prems p have "dict_ok e" and a: "dget e a = None"
    by (auto simp: dict_ok_def map_of_eq_None_iff)
  have "dupdate d (p # e) = dupdate (dset a b d) e"
    by (simp add: dupdate_def p)
  with Cons.IH [OF \<open>dict_ok e\<close>] a p show ?case
    by (auto split: option.splits)
qed

lemma dupdate_Nil [simp]: "dupdate d [] = d"
  by (simp add: dupdate_def)

lemma length_ddel: "dict_ok d \<Longrightarrow> length (ddel k d) = length d - (if dget d k = None then 0 else 1)"
proof -
  assume ok: "dict_ok d"
  have "length (ddel k d) = length (removeAll k (map fst d))"
    by (metis delete_keys length_map)
  also have "\<dots> = length (remove1 k (map fst d))"
    using ok by (simp add: dict_ok_def distinct_remove1_removeAll)
  also have "\<dots> = length d - (if dget d k = None then 0 else 1)"
    by (auto simp: length_remove1 map_of_eq_None_iff)
  finally show ?thesis .
qed

lemma ddel_Nil_iff: "ddel k d = [] \<longleftrightarrow> (\<forall>p \<in> set d. fst p = k)"
  by (auto simp: AList.delete_eq filter_empty_conv)

lemma dget_Nil_iff: "(\<forall>k. dget d k = None) \<longleftrightarrow> d = []"
  by (cases d) auto

lemma count_list_distinct: "distinct xs \<Longrightarrow> count_list xs x = (if x \<in> set xs then 1 else 0)"
  by (induction xs) auto

lemma dset_fresh: "dget d k = None \<Longrightarrow> dset k v d = d @ [(k, v)]"
  by (induction d) (auto split: if_splits)

lemma dset_present: "dget d k \<noteq> None \<Longrightarrow> map fst (dset k v d) = map fst d"
  by (induction d) (auto split: if_splits)

lemma ddel_filter: "ddel k d = filter (\<lambda>p. fst p \<noteq> k) d"
  by (auto simp: AList.delete_eq intro!: filter_cong)

section \<open>Dictionaries of dictionaries\<close>

text \<open>
  Several registries map a conversation to a dictionary of entries and drop the outer key with the
  last entry: \<open>nput\<close> is \<open>d.setdefault(c, {})[k] = v\<close>, and \<open>nstore\<close> writes an inner dictionary back or
  drops the key.
\<close>

type_synonym ('c, 'k, 'v) nested = "('c, ('k, 'v) pydict) pydict"

definition nentries :: "('c, 'k, 'v) nested \<Rightarrow> 'c \<Rightarrow> ('k, 'v) pydict" where
  "nentries d c = (case dget d c of None \<Rightarrow> [] | Some e \<Rightarrow> e)"

definition nput :: "'c \<Rightarrow> 'k \<Rightarrow> 'v \<Rightarrow> ('c, 'k, 'v) nested \<Rightarrow> ('c, 'k, 'v) nested" where
  "nput c k v d = dset c (dset k v (nentries d c)) d"

definition nstore :: "'c \<Rightarrow> ('k, 'v) pydict \<Rightarrow> ('c, 'k, 'v) nested \<Rightarrow> ('c, 'k, 'v) nested" where
  "nstore c e d = (if e = [] then ddel c d else dset c e d)"

definition nested_ok :: "('c, 'k, 'v) nested \<Rightarrow> bool" where
  "nested_ok d \<longleftrightarrow> dict_ok d \<and> (\<forall>c e. dget d c = Some e \<longrightarrow> dict_ok e \<and> e \<noteq> [])"

lemma nested_ok_Nil [simp]: "nested_ok []"
  by (simp add: nested_ok_def)

lemma nentries_Nil [simp]: "nentries [] c = []"
  by (simp add: nentries_def)

lemma nentries_nput [simp]: "nentries (nput c k v d) c' = (if c' = c then dset k v (nentries d c) else nentries d c')"
  by (simp add: nput_def nentries_def)

lemma nentries_nstore [simp]: "nentries (nstore c e d) c' = (if c' = c then e else nentries d c')"
  by (simp add: nstore_def nentries_def)

lemma nested_ok_entries: "nested_ok d \<Longrightarrow> dict_ok (nentries d c)"
  by (auto simp: nested_ok_def nentries_def split: option.split)

lemma nested_ok_dget: "nested_ok d \<Longrightarrow> dget d c = (if nentries d c = [] then None else Some (nentries d c))"
  by (auto simp: nested_ok_def nentries_def split: option.splits)

lemma dset_nonempty [simp]: "dset k v d \<noteq> []"
  by (cases d) (auto split: prod.split)

lemma nested_ok_nput [simp]: "nested_ok d \<Longrightarrow> nested_ok (nput c k v d)"
  using nested_ok_entries [of d c] by (auto simp: nested_ok_def nput_def)

lemma nested_ok_nstore [simp]: "nested_ok d \<Longrightarrow> dict_ok e \<Longrightarrow> nested_ok (nstore c e d)"
  by (auto simp: nested_ok_def nstore_def)

section \<open>\<open>max\<close> with a key\<close>

fun max_key_from :: "('a \<Rightarrow> 'b::linorder) \<Rightarrow> 'a \<Rightarrow> 'a list \<Rightarrow> 'a" where
  "max_key_from key b [] = b"
| "max_key_from key b (x # xs) = max_key_from key (if key b < key x then x else b) xs"

fun py_max :: "('a \<Rightarrow> 'b::linorder) \<Rightarrow> 'a list \<Rightarrow> 'a res" where
  \<comment> \<open>\<open>max(xs, key=key)\<close>: the first element with the greatest key\<close>
  "py_max key [] = Inl (ValueError ''max() arg is an empty sequence'')"
| "py_max key (x # xs) = Inr (max_key_from key x xs)"

lemma max_key_from_ge:
  "key b \<le> key (max_key_from key b xs) \<and> (\<forall>x \<in> set xs. key x \<le> key (max_key_from key b xs))"
proof (induction xs arbitrary: b)
  case (Cons x xs)
  show ?case
  proof (cases "key b < key x")
    case True
    with Cons.IH [of x] show ?thesis
      using order.strict_implies_order order.trans by auto
  next
    case False
    with Cons.IH [of b] have "key x \<le> key b" and "key b \<le> key (max_key_from key b xs)"
      by auto
    then have "key x \<le> key (max_key_from key b xs)" by (rule order.trans)
    with False Cons.IH [of b] show ?thesis by simp
  qed
qed simp

lemma max_key_from_in: "max_key_from key b xs \<in> insert b (set xs)"
  by (induction key b xs rule: max_key_from.induct) auto

lemma py_max_Inr: "py_max key xs = Inr y \<Longrightarrow> y \<in> set xs \<and> (\<forall>x \<in> set xs. key x \<le> key y)"
  by (cases xs) (use max_key_from_in max_key_from_ge in fastforce)+

lemma py_max_total: "xs \<noteq> [] \<Longrightarrow> \<exists>y. py_max key xs = Inr y"
  by (cases xs) auto

section \<open>Characters and string methods\<close>

text \<open>
  Strings are lists of characters with code points below 256; the methods below are Python's on
  that range.
\<close>

definition py_space :: "char \<Rightarrow> bool" where
  "py_space c \<longleftrightarrow> (let n = of_char c :: nat in
     n \<in> {9, 10, 11, 12, 13, 28, 29, 30, 31, 32, 133, 160})"

definition lstrip :: "string \<Rightarrow> string" where
  "lstrip = dropWhile py_space"

definition rstrip :: "string \<Rightarrow> string" where
  "rstrip s = rev (dropWhile py_space (rev s))"

definition strip :: "string \<Rightarrow> string" where
  "strip s = rstrip (lstrip s)"

definition starts_with :: "string \<Rightarrow> string \<Rightarrow> bool" where
  \<comment> \<open>\<open>s.startswith(p)\<close>\<close>
  "starts_with s p \<longleftrightarrow> take (length p) s = p"

definition ends_with :: "string \<Rightarrow> string \<Rightarrow> bool" where
  \<comment> \<open>\<open>s.endswith(p)\<close>\<close>
  "ends_with s p \<longleftrightarrow> length p \<le> length s \<and> drop (length s - length p) s = p"

definition lower_char :: "char \<Rightarrow> char" where
  \<comment> \<open>\<open>c.lower()\<close>: ASCII letters and the Latin-1 capitals\<close>
  "lower_char c = (let n = of_char c :: nat in
     if (65 \<le> n \<and> n \<le> 90) \<or> (192 \<le> n \<and> n \<le> 222 \<and> n \<noteq> 215) then char_of (n + 32) else c)"

definition lower :: "string \<Rightarrow> string" where
  "lower = map lower_char"

fun join :: "string \<Rightarrow> string list \<Rightarrow> string" where
  \<comment> \<open>\<open>sep.join(parts)\<close>\<close>
  "join sep [] = []"
| "join sep [x] = x"
| "join sep (x # y # xs) = x @ sep @ join sep (y # xs)"

definition contains :: "string \<Rightarrow> string \<Rightarrow> bool" where
  \<comment> \<open>\<open>p in s\<close>\<close>
  "contains s p \<longleftrightarrow> list_ex (\<lambda>i. starts_with (drop i s) p) [0..<Suc (length s)]"

function (sequential) replace_all :: "string \<Rightarrow> string \<Rightarrow> string \<Rightarrow> string" where
  \<comment> \<open>\<open>s.replace(old, new)\<close> for a non-empty \<open>old\<close>\<close>
  "replace_all old new [] = []"
| "replace_all old new (c # cs) =
     (if old \<noteq> [] \<and> starts_with (c # cs) old then new @ replace_all old new (drop (length old - 1) cs)
      else c # replace_all old new cs)"
  by pat_completeness auto
termination
  by (relation "measure (\<lambda>(old, new, s). length s)") auto

fun split_on :: "char \<Rightarrow> string \<Rightarrow> string list" where
  \<comment> \<open>\<open>s.split(c)\<close>\<close>
  "split_on c [] = [[]]"
| "split_on c (x # xs) =
     (if x = c then [] # split_on c xs
      else case split_on c xs of [] \<Rightarrow> [[x]] | w # ws \<Rightarrow> (x # w) # ws)"

definition is_line_end :: "char \<Rightarrow> bool" where
  "is_line_end c \<longleftrightarrow> (of_char c :: nat) \<in> {10, 11, 12, 13, 28, 29, 30, 133}"

fun lines_from :: "string \<Rightarrow> string \<Rightarrow> string list" where
  \<comment> \<open>\<open>cur\<close> is the open line, reversed\<close>
  "lines_from cur [] = (if cur = [] then [] else [rev cur])"
| "lines_from cur (c # cs) =
     (if c = CHR 0x0D then
        (case cs of
           d # ds \<Rightarrow> if d = CHR 0x0A then rev cur # lines_from [] ds else rev cur # lines_from [] cs
         | [] \<Rightarrow> [rev cur])
      else if is_line_end c then rev cur # lines_from [] cs
      else lines_from (c # cur) cs)"

definition splitlines :: "string \<Rightarrow> string list" where
  "splitlines = lines_from []"

definition one_line :: "string \<Rightarrow> bool" where
  \<comment> \<open>no line end inside, no white space around\<close>
  "one_line s \<longleftrightarrow> list_all (\<lambda>c. \<not> is_line_end c) s \<and> strip s = s"

lemma starts_with_append [simp]: "starts_with (p @ s) p"
  by (simp add: starts_with_def)

lemma starts_with_iff: "starts_with s p \<longleftrightarrow> (\<exists>t. s = p @ t)"
  by (metis append_eq_conv_conj append_take_drop_id starts_with_def)

lemma ends_with_append [simp]: "ends_with (s @ p) p"
  by (simp add: ends_with_def)

lemma ends_with_iff: "ends_with s p \<longleftrightarrow> (\<exists>t. s = t @ p)"
proof
  assume "ends_with s p"
  then have "s = take (length s - length p) s @ p"
    by (metis append_take_drop_id ends_with_def)
  then show "\<exists>t. s = t @ p" by blast
qed auto

lemma rstrip_dropWhile: "rstrip s = [] \<longleftrightarrow> list_all py_space s"
  by (simp add: rstrip_def list_all_iff)

lemma length_lower [simp]: "length (lower s) = length s"
  by (simp add: lower_def)

lemma lstrip_idem [simp]: "lstrip (lstrip s) = lstrip s"
  by (simp add: lstrip_def dropWhile_idem)

lemma split_on_no_sep: "c \<notin> set w \<Longrightarrow> split_on c w = [w]"
  by (induction w) auto

lemma split_on_nonempty [simp]: "split_on c s \<noteq> []"
  by (cases s) (auto split: list.splits)

lemma split_on_append: "c \<notin> set w \<Longrightarrow> split_on c (w @ c # s) = w # split_on c s"
  by (induction w) auto

lemma split_on_join:
  "ws \<noteq> [] \<Longrightarrow> list_all (\<lambda>w. c \<notin> set w) ws \<Longrightarrow> split_on c (join [c] ws) = ws"
proof (induction "[c]" ws rule: join.induct)
  case (3 x y xs)
  then show ?case by (simp add: split_on_append)
qed (auto simp: split_on_no_sep)

lemma length_lstrip: "length (lstrip s) \<le> length s"
  by (simp add: lstrip_def length_dropWhile_le)

lemma length_rstrip: "length (rstrip s) \<le> length s"
  using length_dropWhile_le [of py_space "rev s"] by (simp add: rstrip_def)

lemma lstrip_id: "s = [] \<or> \<not> py_space (hd s) \<Longrightarrow> lstrip s = s"
  by (cases s) (auto simp: lstrip_def)

lemma rstrip_id: "s = [] \<or> \<not> py_space (last s) \<Longrightarrow> rstrip s = s"
  by (cases s rule: rev_cases) (auto simp: rstrip_def)

lemma strip_id_iff: "strip s = s \<longleftrightarrow> s = [] \<or> (\<not> py_space (hd s) \<and> \<not> py_space (last s))"
proof
  assume eq: "strip s = s"
  have len: "length (lstrip s) = length s" using eq length_lstrip [of s] length_rstrip [of "lstrip s"] by (simp add: strip_def)
  have hd: "s = [] \<or> \<not> py_space (hd s)"
  proof (cases s)
    case (Cons c cs)
    have "\<not> py_space c"
    proof
      assume "py_space c"
      then have "length (lstrip s) \<le> length cs" using length_dropWhile_le [of py_space cs] Cons by (simp add: lstrip_def)
      with len Cons show False by simp
    qed
    with Cons show ?thesis by simp
  qed simp
  then have r: "rstrip s = s" using eq lstrip_id by (simp add: strip_def)
  have "s = [] \<or> \<not> py_space (last s)"
  proof (cases s rule: rev_cases)
    case (snoc ys y)
    have "\<not> py_space y"
    proof
      assume "py_space y"
      then have "length (rstrip s) \<le> length ys" using length_dropWhile_le [of py_space "rev ys"] snoc by (simp add: rstrip_def)
      with r snoc show False by simp
    qed
    with snoc show ?thesis by simp
  qed simp
  with hd show "s = [] \<or> (\<not> py_space (hd s) \<and> \<not> py_space (last s))" by blast
next
  assume e: "s = [] \<or> (\<not> py_space (hd s) \<and> \<not> py_space (last s))"
  have "lstrip s = s" by (rule lstrip_id) (use e in blast)
  moreover have "rstrip s = s" by (rule rstrip_id) (use e in blast)
  ultimately show "strip s = s" by (simp only: strip_def)
qed

lemma contains_iff: "contains s p \<longleftrightarrow> (\<exists>a b. s = a @ p @ b)"
proof
  assume "contains s p"
  then obtain i where "starts_with (drop i s) p" unfolding contains_def list_ex_iff by blast
  then have "s = take i s @ p @ drop (length p) (drop i s)"
    by (metis append_take_drop_id starts_with_def)
  then show "\<exists>a b. s = a @ p @ b" by blast
next
  assume "\<exists>a b. s = a @ p @ b"
  then obtain a b where s: "s = a @ p @ b" by blast
  then have "starts_with (drop (length a) s) p" "length a \<in> set [0..<Suc (length s)]" by auto
  then show "contains s p" unfolding contains_def list_ex_iff by blast
qed

lemma replace_all_none: "\<not> contains s old \<Longrightarrow> replace_all old new s = s"
proof (induction s)
  case (Cons c cs)
  have "\<not> starts_with (c # cs) old"
  proof
    assume "starts_with (c # cs) old"
    then have "contains (c # cs) old" unfolding starts_with_iff contains_iff by (metis append_Nil)
    with Cons.prems show False by simp
  qed
  moreover have "\<not> contains cs old" using Cons.prems unfolding contains_iff by (metis append_Cons)
  ultimately show ?case using Cons.IH by simp
qed simp

lemma replace_all_whole: "old \<noteq> [] \<Longrightarrow> replace_all old new (old @ s) = new @ replace_all old new s"
proof -
  assume "old \<noteq> []"
  then obtain c cs where old: "old = c # cs" by (cases old) auto
  have "starts_with (c # cs @ s) old" by (simp add: starts_with_def old)
  moreover have "drop (length old - 1) (cs @ s) = s" by (simp add: old)
  ultimately show ?thesis by (simp add: old)
qed

lemma lines_from_plain: "list_all (\<lambda>c. \<not> is_line_end c) l \<Longrightarrow> lines_from cur (l @ CHR 0x0A # s) = rev (rev l @ cur) # lines_from [] s"
proof (induction l arbitrary: cur)
  case (Cons c l)
  then have "c \<noteq> CHR 0x0D" by (auto simp: is_line_end_def)
  with Cons show ?case by simp
qed (simp add: is_line_end_def)

lemma splitlines_line:
  "list_all (\<lambda>c. \<not> is_line_end c) l \<Longrightarrow> splitlines (l @ CHR 0x0A # s) = l # splitlines s"
  using lines_from_plain [of l "[]" s] by (simp add: splitlines_def)

lemma splitlines_Nil [simp]: "splitlines [] = []"
  by (simp add: splitlines_def)

lemma lines_from_plain_set:
  "list_all (\<lambda>c. \<not> is_line_end c) cur \<Longrightarrow> l \<in> set (lines_from cur s) \<Longrightarrow> list_all (\<lambda>c. \<not> is_line_end c) l"
proof (induction cur s rule: lines_from.induct)
  case (1 cur)
  then show ?case by (simp split: if_splits)
next
  case (2 cur c cs)
  show ?case
  proof (cases "c = CHR 0x0D")
    case True
    show ?thesis
    proof (cases cs)
      case Nil
      with 2 True show ?thesis by simp
    next
      case (Cons d ds)
      have plain: "list_all (\<lambda>c. \<not> is_line_end c) (rev cur)" using 2(5) by (simp add: list_all_iff)
      show ?thesis
      proof (cases "d = CHR 0x0A")
        case nl: True
        have "l = rev cur \<or> l \<in> set (lines_from [] ds)" using 2(6) True Cons nl by simp
        with 2(1) [OF True Cons nl] plain show ?thesis by auto
      next
        case nl: False
        have "l = rev cur \<or> l \<in> set (lines_from [] cs)"
        proof -
          have "lines_from cur (c # cs) = rev cur # lines_from [] cs"
            by (subst lines_from.simps(2)) (simp only: True nl Cons list.case if_True if_False refl)
          with 2(6) show ?thesis by simp
        qed
        with 2(2) [OF True Cons nl] plain show ?thesis by auto
      qed
    qed
  next
    case False
    then show ?thesis
      using 2(3) [OF False] 2(4) [OF False] 2(5,6) by (cases "is_line_end c") auto
  qed
qed

lemma splitlines_plain: "l \<in> set (splitlines s) \<Longrightarrow> list_all (\<lambda>c. \<not> is_line_end c) l"
  unfolding splitlines_def by (rule lines_from_plain_set) simp_all

lemma splitlines_lines:
  "list_all (list_all (\<lambda>c. \<not> is_line_end c)) ls \<Longrightarrow> splitlines (concat (map (\<lambda>l. l @ [CHR 0x0A]) ls)) = ls"
proof (induction ls)
  case Nil
  then show ?case by (simp add: splitlines_def)
next
  case (Cons l ls)
  then show ?case using splitlines_line [of l "concat (map (\<lambda>l. l @ [CHR 0x0A]) ls)"] by simp
qed

section \<open>Decimal numerals\<close>

fun show_nat :: "nat \<Rightarrow> string" where
  \<comment> \<open>\<open>str(n)\<close>\<close>
  "show_nat n = (if n < 10 then [char_of (48 + n)]
                 else show_nat (n div 10) @ [char_of (48 + n mod 10)])"

declare show_nat.simps [simp del]

definition is_digit :: "char \<Rightarrow> bool" where
  "is_digit c \<longleftrightarrow> 48 \<le> (of_char c :: nat) \<and> (of_char c :: nat) \<le> 57"

definition digit_val :: "char \<Rightarrow> nat" where
  "digit_val c = (of_char c :: nat) - 48"

definition read_nat :: "string \<Rightarrow> nat" where
  "read_nat s = foldl (\<lambda>n c. 10 * n + digit_val c) 0 s"

lemma digit_char: "d < 10 \<Longrightarrow> is_digit (char_of (48 + d :: nat)) \<and> digit_val (char_of (48 + d :: nat)) = d"
  by (simp add: is_digit_def digit_val_def)

lemma show_nat_digits: "\<forall>c \<in> set (show_nat n). is_digit c"
proof (induction n rule: show_nat.induct)
  case (1 n)
  show ?case
    using 1 digit_char [of n] digit_char [of "n mod 10"] by (subst show_nat.simps) auto
qed

lemma show_nat_nonempty [simp]: "show_nat n \<noteq> []"
  by (subst show_nat.simps) simp

lemma read_show_nat: "read_nat (show_nat n) = n"
proof (induction n rule: show_nat.induct)
  case (1 n)
  show ?case
  proof (cases "n < 10")
    case True
    then show ?thesis
      using digit_char [of n] by (subst show_nat.simps) (simp add: read_nat_def)
  next
    case False
    with 1 have "read_nat (show_nat (n div 10)) = n div 10" by simp
    with False digit_char [of "n mod 10"] show ?thesis
      by (subst show_nat.simps) (simp add: read_nat_def)
  qed
qed

lemma show_nat_inj [simp]: "show_nat m = show_nat n \<longleftrightarrow> m = n"
  by (metis read_show_nat)

section \<open>Textual representations\<close>

definition hex_digit :: "nat \<Rightarrow> char" where
  "hex_digit d = (if d < 10 then char_of (48 + d) else char_of (87 + d))"

definition repr_char :: "char \<Rightarrow> char \<Rightarrow> string" where
  "repr_char q c =
     (let n = of_char c :: nat
      in if c = q \<or> n = 92 then [CHR 0x5C, c]
         else if n = 10 then [CHR 0x5C, CHR ''n'']
         else if n = 13 then [CHR 0x5C, CHR ''r'']
         else if n = 9 then [CHR 0x5C, CHR ''t'']
         else if n < 32 \<or> (127 \<le> n \<and> n \<le> 160) \<or> n = 173
           then [CHR 0x5C, CHR ''x'', hex_digit (n div 16), hex_digit (n mod 16)]
         else [c])"

definition py_repr :: "string \<Rightarrow> string" where
  \<comment> \<open>\<open>repr(s)\<close>: double quotes only when the text has single quotes and no double ones\<close>
  "py_repr s =
     (let q = (if CHR 0x27 \<in> set s \<and> CHR 0x22 \<notin> set s then CHR 0x22 else CHR 0x27)
      in [q] @ concat (map (repr_char q) s) @ [q])"

definition exn_text :: "py_exn \<Rightarrow> string" where
  \<comment> \<open>\<open>str(exc)\<close>\<close>
  "exn_text e =
     (case e of IndexError \<Rightarrow> ''list index out of range'' | KeyError k \<Rightarrow> py_repr k
      | ValueError s \<Rightarrow> s | TypeError s \<Rightarrow> s | OtherError s \<Rightarrow> s)"

definition read_exponent :: "string \<Rightarrow> int option" where
  "read_exponent s =
     (let (sg, ds) = (case s of [] \<Rightarrow> (1, []) | c # r \<Rightarrow>
            if c = CHR ''-'' then (-1, r) else if c = CHR ''+'' then (1, r) else (1, s))
      in if ds \<noteq> [] \<and> list_all is_digit ds then Some (sg * int (read_nat ds)) else None)"

definition read_float :: "string \<Rightarrow> real option" where
  \<comment> \<open>\<open>float(s)\<close> on decimal literals; infinities, NaN and underscores are not represented\<close>
  "read_float str =
     (let s = strip str;
          (sg, u) = (case s of [] \<Rightarrow> (1, []) | c # r \<Rightarrow>
            if c = CHR ''-'' then (-1, r) else if c = CHR ''+'' then (1, r) else (1, s));
          ip = takeWhile is_digit u; r1 = dropWhile is_digit u;
          (fp, r2) = (case r1 of [] \<Rightarrow> ([], []) | c # r \<Rightarrow>
            if c = CHR ''.'' then (takeWhile is_digit r, dropWhile is_digit r) else ([], r1));
          mantissa = real (read_nat (ip @ fp)) / 10 ^ length fp
      in if ip @ fp = [] then None
         else case r2 of
                [] \<Rightarrow> Some (sg * mantissa)
              | c # r \<Rightarrow>
                  if c = CHR ''e'' \<or> c = CHR ''E''
                  then map_option (\<lambda>x. sg * mantissa * (10 powi x)) (read_exponent r)
                  else None)"

section \<open>Components driven by a sequence of operations\<close>

text \<open>
  Every stateful component below is a state and a set of operations that clients call in some
  order. A component promises an invariant that each operation keeps; the locale lifts it to
  every sequence of operations. A component with an abstract specification promises in addition
  that each operation commutes with the abstraction.
\<close>

locale op_machine =
  fixes step :: "'s \<Rightarrow> 'o \<Rightarrow> 's"
    and inv :: "'s \<Rightarrow> bool"
    and init :: 's
  assumes inv_init: "inv init"
    and inv_step: "inv s \<Longrightarrow> inv (step s o')"
begin

lemma inv_foldl: "inv s \<Longrightarrow> inv (foldl step s ops)"
  by (induction ops arbitrary: s) (auto intro: inv_step)

lemma inv_run: "inv (foldl step init ops)"
  by (rule inv_foldl) (rule inv_init)

end

locale op_refinement = op_machine step inv init
  for step :: "'s \<Rightarrow> 'o \<Rightarrow> 's" and inv :: "'s \<Rightarrow> bool" and init :: 's +
  fixes abs :: "'s \<Rightarrow> 'a"
    and spec :: "'a \<Rightarrow> 'o \<Rightarrow> 'a"
  assumes sim_step: "inv s \<Longrightarrow> abs (step s o') = spec (abs s) o'"
begin

lemma sim_foldl: "inv s \<Longrightarrow> abs (foldl step s ops) = foldl spec (abs s) ops"
proof (induction ops arbitrary: s)
  case (Cons a ops)
  then show ?case using sim_step [of s a] inv_step [of s a] by simp
qed simp

lemma sim_run: "abs (foldl step init ops) = foldl spec (abs init) ops"
  by (rule sim_foldl) (rule inv_init)

end

end
