(* ===== verification/Py_Values.thy ===== *)
theory Py_Values
  imports Py_Prelude
begin

text \<open>
  Dynamic Python values, as they come out of JSON and YAML: their truth value, the conversions
  \<open>str\<close>, \<open>int\<close>, \<open>float\<close>, \<open>list\<close> and \<open>dict\<close>, and addition. Dictionary keys are strings. Lists and
  dictionaries are values: sharing of one mutable object is not represented.
\<close>

section \<open>Dynamic values\<close>

datatype pyval =
    PNone
  | PBool bool
  | PInt int
  | PFloat real
  | PStr string
  | PList "pyval list"
  | PDict "(string \<times> pyval) list"

fun type_name :: "pyval \<Rightarrow> string" where
  "type_name PNone = ''NoneType''"
| "type_name (PBool _) = ''bool''"
| "type_name (PInt _) = ''int''"
| "type_name (PFloat _) = ''float''"
| "type_name (PStr _) = ''str''"
| "type_name (PList _) = ''list''"
| "type_name (PDict _) = ''dict''"

fun int_of_pyval :: "pyval \<Rightarrow> int option" where
  \<comment> \<open>the integers of Python, booleans among them\<close>
  "int_of_pyval (PBool b) = Some (if b then 1 else 0)"
| "int_of_pyval (PInt i) = Some i"
| "int_of_pyval _ = None"

fun real_of_pyval :: "pyval \<Rightarrow> real option" where
  "real_of_pyval (PFloat r) = Some r"
| "real_of_pyval v = map_option real_of_int (int_of_pyval v)"

definition py_add :: "pyval \<Rightarrow> pyval \<Rightarrow> pyval res" where
  \<comment> \<open>\<open>x + y\<close>\<close>
  "py_add x y =
     (case (x, y) of
        (PStr s, PStr t) \<Rightarrow> Inr (PStr (s @ t))
      | (PList s, PList t) \<Rightarrow> Inr (PList (s @ t))
      | _ \<Rightarrow>
         (case (int_of_pyval x, int_of_pyval y) of
            (Some i, Some j) \<Rightarrow> Inr (PInt (i + j))
          | _ \<Rightarrow>
             (case (real_of_pyval x, real_of_pyval y) of
                (Some r, Some s) \<Rightarrow> Inr (PFloat (r + s))
              | _ \<Rightarrow> Inl (TypeError ''unsupported operand type(s) for +''))))"

section \<open>Conversions\<close>

fun py_float :: "pyval \<Rightarrow> real option" where
  \<comment> \<open>\<open>float(value)\<close>, \<open>None\<close> where it raises \<open>TypeError\<close> or \<open>ValueError\<close>\<close>
  "py_float (PStr s) = read_float s"
| "py_float v = real_of_pyval v"

fun py_truth :: "pyval \<Rightarrow> bool" where
  \<comment> \<open>\<open>bool(v)\<close>\<close>
  "py_truth PNone = False"
| "py_truth (PBool b) = b"
| "py_truth (PInt i) = (i \<noteq> 0)"
| "py_truth (PFloat r) = (r \<noteq> 0)"
| "py_truth (PStr s) = (s \<noteq> [])"
| "py_truth (PList xs) = (xs \<noteq> [])"
| "py_truth (PDict d) = (d \<noteq> [])"

definition show_int :: "int \<Rightarrow> string" where
  "show_int i = (if i < 0 then CHR ''-'' # show_nat (nat (- i)) else show_nat (nat i))"

definition read_int :: "string \<Rightarrow> int option" where
  \<comment> \<open>\<open>int(s)\<close> without underscores\<close>
  "read_int str =
     (let s = strip str;
          (sg, ds) = (case s of [] \<Rightarrow> (1, []) | c # r \<Rightarrow>
            if c = CHR ''-'' then (-1, r) else if c = CHR ''+'' then (1, r) else (1, s))
      in if ds \<noteq> [] \<and> list_all is_digit ds then Some (sg * int (read_nat ds)) else None)"

fun py_str :: "(pyval \<Rightarrow> string) \<Rightarrow> pyval \<Rightarrow> string" where
  \<comment> \<open>\<open>str(v)\<close>; \<open>other\<close> writes floats and containers, whose text needs binary floats\<close>
  "py_str other PNone = ''None''"
| "py_str other (PBool b) = (if b then ''True'' else ''False'')"
| "py_str other (PInt i) = show_int i"
| "py_str other (PStr s) = s"
| "py_str other v = other v"

definition trunc :: "real \<Rightarrow> int" where
  "trunc r = (if r < 0 then \<lceil>r\<rceil> else \<lfloor>r\<rfloor>)"

fun py_int :: "pyval \<Rightarrow> int res" where
  \<comment> \<open>\<open>int(v)\<close>\<close>
  "py_int (PFloat r) = Inr (trunc r)"
| "py_int (PStr s) = (case read_int s of Some i \<Rightarrow> Inr i | None \<Rightarrow> Inl (ValueError ''invalid literal for int()''))"
| "py_int v = (case int_of_pyval v of Some i \<Rightarrow> Inr i | None \<Rightarrow> Inl (TypeError ''int() argument''))"

definition py_list :: "pyval \<Rightarrow> pyval list res" where
  \<comment> \<open>\<open>list(v)\<close>\<close>
  "py_list v =
     (case v of
        PList xs \<Rightarrow> Inr xs
      | PStr s \<Rightarrow> Inr (map (\<lambda>c. PStr [c]) s)
      | PDict d \<Rightarrow> Inr (map (\<lambda>p. PStr (fst p)) d)
      | _ \<Rightarrow> Inl (TypeError ''object is not iterable''))"

end
