(* ===== verification/Policy_Types.thy ===== *)
theory Policy_Types
  imports Py_Values
begin

text \<open>
  The data of the policy subsystem: the guardrails part of
  \<^verbatim>\<open>codify/spec/types.py\<close> (phases, actions, state updates, selectors, label and policy
  specifications) and the values exchanged with policies of \<^verbatim>\<open>codify/policies/types.py\<close>, with
  the model-fallback loop of \<open>PolicyLLMClient\<close>. Lists and dictionaries are values: sharing of one
  mutable list between a snapshot and the live state is not represented.
\<close>

section \<open>Specifications\<close>

datatype phase = REQUEST | TOOL_CALL | TOOL_RESULT | RESPONSE | LLM_REQUEST | LLM_RESPONSE

fun phase_value :: "phase \<Rightarrow> string" where
  "phase_value REQUEST = ''request''"
| "phase_value TOOL_CALL = ''tool_call''"
| "phase_value TOOL_RESULT = ''tool_result''"
| "phase_value RESPONSE = ''response''"
| "phase_value LLM_REQUEST = ''llm_request''"
| "phase_value LLM_RESPONSE = ''llm_response''"

datatype policy_action = ALLOW | ASK | DENY

text \<open>Actions are ordered by how strict they are: a composition decides the strictest action of its answers.\<close>

fun strictness :: "policy_action \<Rightarrow> nat" where
  "strictness ALLOW = 0"
| "strictness ASK = 1"
| "strictness DENY = 2"

instantiation policy_action :: linorder
begin

definition less_eq_policy_action :: "policy_action \<Rightarrow> policy_action \<Rightarrow> bool" where
  "less_eq_policy_action a b \<longleftrightarrow> strictness a \<le> strictness b"

definition less_policy_action :: "policy_action \<Rightarrow> policy_action \<Rightarrow> bool" where
  "less_policy_action a b \<longleftrightarrow> strictness a < strictness b"

instance
proof
  fix a b :: policy_action
  show "a \<le> b \<Longrightarrow> b \<le> a \<Longrightarrow> a = b"
    by (cases a; cases b) (simp_all add: less_eq_policy_action_def)
qed (auto simp: less_eq_policy_action_def less_policy_action_def)

end

definition strictest :: "policy_action list \<Rightarrow> policy_action" where
  "strictest acts = foldr max acts ALLOW"

lemma ALLOW_least [simp]: "ALLOW \<le> a"
  by (simp add: less_eq_policy_action_def)

lemma DENY_greatest [simp]: "a \<le> DENY"
  by (cases a) (simp_all add: less_eq_policy_action_def)

lemma max_action_simps [simp]: "max ALLOW a = a" "max a ALLOW = a" "max DENY a = DENY" "max a DENY = DENY"
  by (simp_all add: max_def order_class.order_eq_iff)

lemma strictest_simps [simp]: "strictest [] = ALLOW" "strictest (a # acts) = max a (strictest acts)"
  by (simp_all add: strictest_def)

lemma strictest_append: "strictest (xs @ ys) = max (strictest xs) (strictest ys)"
  by (induction xs) (simp_all add: max.assoc)

lemma strictest_DENY: "strictest acts = DENY \<longleftrightarrow> DENY \<in> set acts"
proof (induction acts)
  case (Cons a acts)
  then show ?case by (cases a; cases "strictest acts") (auto simp: max_def less_eq_policy_action_def)
qed simp

lemma strictest_ALLOW: "strictest acts = ALLOW \<longleftrightarrow> set acts \<subseteq> {ALLOW}"
proof (induction acts)
  case (Cons a acts)
  then show ?case by (cases a; cases "strictest acts") (auto simp: max_def less_eq_policy_action_def)
qed simp

datatype state_update_action = SET | INCREMENT | DELETE | APPEND

record state_update =
  su_key :: string
  su_action :: state_update_action
  su_value :: pyval

record phase_selector =
  sel_phase :: phase
  sel_tool_name :: "string option"

record label_def =
  ld_initial :: "string option"
  ld_values :: "string list option"

datatype expected = One string | AnyOf "string list"

type_synonym condition = "(string, expected) pydict"
type_synonym labels = "(string, string) pydict"
type_synonym state = "(string, pyval) pydict"
type_synonym usage = "(string, real) pydict"

record policy_spec =
  ps_name :: string
  ps_on :: "phase_selector list option"
  ps_condition :: "condition option"
  ps_ask_timeout :: "int option"
  ps_set_labels :: "string list option"

text \<open>
  \<open>set_labels\<close> is the field of \<open>FunctionPolicySpec\<close>; \<open>None\<close> also stands for a specification without
  the field, as \<open>getattr(spec, "set_labels", None)\<close> reads it.
\<close>

section \<open>Evaluation contexts and results\<close>

record 'c evaluation_context =
  cx_phase :: phase
  cx_content :: pyval
  cx_tool_name :: "string option"
  cx_actor :: "(string, string) pydict option"
  cx_request_data :: "pyval option"
  cx_session_state :: "state option"
  cx_usage :: "usage option"
  cx_subtree_usage :: "usage option"
  cx_user_daily_cost :: "(string, pyval) pydict option"
  cx_model :: "string option"
  cx_harness :: "string option"
  cx_labels :: "labels option"
  cx_llm_client :: "'c option"

definition matches :: "phase_selector \<Rightarrow> 'c evaluation_context \<Rightarrow> bool" where
  "matches sel ctx \<longleftrightarrow>
     (if cx_phase ctx \<noteq> sel_phase sel then False
      else case sel_tool_name sel of None \<Rightarrow> True | Some t \<Rightarrow> cx_tool_name ctx = Some t)"

record policy_result =
  r_action :: policy_action
  r_reason :: "string option"
  r_set_labels :: "labels option"
  r_deciding_policies :: "string list option"
  r_data :: "pyval option"
  r_state_updates :: "state_update list option"

definition deciding_policy :: "policy_result \<Rightarrow> string option" where
  "deciding_policy r =
     (case r_deciding_policies r of Some (p # _) \<Rightarrow> Some p | _ \<Rightarrow> None)"

record elicitation_request =
  er_message :: string
  er_phase :: string
  er_policy_names :: "string list"
  er_content_preview :: string
  er_requested_schema :: "(string \<times> pyval) list"

definition policy_name :: "elicitation_request \<Rightarrow> string" where
  "policy_name e = (case er_policy_names e of [] \<Rightarrow> [] | p # _ \<Rightarrow> p)"

section \<open>The model client of policies\<close>

record llm_client =
  lc_model :: string
  lc_connection :: "(string, string) pydict option"
  lc_request_timeout :: int
  lc_fallback_models :: "string list"

record llm_call =
  call_model :: string
  call_connection :: "(string, string) pydict option"
  call_timeout :: "int option"

fun try_models :: "(nat \<Rightarrow> llm_call \<Rightarrow> 'r res) \<Rightarrow> (string \<Rightarrow> llm_call) \<Rightarrow> string list \<Rightarrow> nat \<Rightarrow> py_exn option \<Rightarrow>
    'r res \<times> string list" where
  \<comment> \<open>\<open>send i\<close> answers the \<open>i\<close>-th request; the models tried are returned as well\<close>
  "try_models send request [] i last_exc =
     ((case last_exc of Some e \<Rightarrow> Inl e | None \<Rightarrow> Inl (OtherError ''AssertionError'')), [])"
| "try_models send request (m # ms) i last_exc =
     (case send i (request m) of
        Inr r \<Rightarrow> (Inr r, [m])
      | Inl e \<Rightarrow> apsnd (Cons m) (try_models send request ms (Suc i) (Some e)))"

definition llm_create ::
  "llm_client \<Rightarrow> (nat \<Rightarrow> llm_call \<Rightarrow> 'r res) \<Rightarrow> string option \<Rightarrow> (string, string) pydict option option \<Rightarrow>
   int option option \<Rightarrow> 'r res \<times> string list" where
  \<comment> \<open>the three options are the \<open>model\<close>, \<open>connection_params\<close> and \<open>timeout\<close> keyword arguments, \<open>None\<close> when absent\<close>
  "llm_create cl send model_kw connection_kw timeout_kw =
     (let connection = (case connection_kw of Some c \<Rightarrow> c | None \<Rightarrow> lc_connection cl);
          timeout = (case timeout_kw of Some t \<Rightarrow> t | None \<Rightarrow> Some (lc_request_timeout cl));
          request = (\<lambda>m. \<lparr>call_model = m, call_connection = connection, call_timeout = timeout\<rparr>)
      in case model_kw of
           Some m \<Rightarrow> (send 0 (request m), [m])
         | None \<Rightarrow> try_models send request (lc_model cl # lc_fallback_models cl) 0 None)"

section \<open>Lemmas\<close>

lemma py_add_ints [simp]: "py_add (PInt i) (PInt j) = Inr (PInt (i + j))"
  by (simp add: py_add_def)

lemma py_add_lists [simp]: "py_add (PList xs) (PList ys) = Inr (PList (xs @ ys))"
  by (simp add: py_add_def)

lemma try_models_closed:
  fixes send :: "nat \<Rightarrow> llm_call \<Rightarrow> 'r res" and request :: "string \<Rightarrow> llm_call"
  defines "out \<equiv> \<lambda>ms i k. send (i + k) (request (ms ! k))"
  shows "(fst (try_models send request ms i last_exc) = Inr r \<longleftrightarrow>
      (\<exists>k < length ms. out ms i k = Inr r \<and> (\<forall>j<k. \<exists>e. out ms i j = Inl e))) \<and>
    snd (try_models send request ms i last_exc) = take (length (snd (try_models send request ms i last_exc))) ms"
proof (induction ms arbitrary: i last_exc)
  case Nil
  then show ?case by (simp split: option.split)
next
  case (Cons m ms)
  show ?case
  proof (cases "send i (request m)")
    case (Inl e)
    have "(\<exists>k < length (m # ms). out (m # ms) i k = Inr r \<and> (\<forall>j<k. \<exists>e. out (m # ms) i j = Inl e)) \<longleftrightarrow>
        (\<exists>k < length ms. out ms (Suc i) k = Inr r \<and> (\<forall>j<k. \<exists>e. out ms (Suc i) j = Inl e))"
      using Inl unfolding out_def by (auto simp: Ex_less_Suc2 All_less_Suc2)
    with Cons.IH [of "Suc i" "Some e"] Inl show ?thesis by simp
  next
    case (Inr r')
    then show ?thesis unfolding out_def by (auto simp: Ex_less_Suc2 All_less_Suc2)
  qed
qed

lemma try_models_all_fail:
  assumes "ms \<noteq> []" and "fst (try_models send request ms i last_exc) = Inl e"
  shows "send (i + (length ms - 1)) (request (last ms)) = Inl e \<and> snd (try_models send request ms i last_exc) = ms"
  using assms
proof (induction ms arbitrary: i last_exc)
  case (Cons m ms)
  show ?case
  proof (cases ms)
    case Nil
    with Cons.prems show ?thesis by (auto split: sum.splits)
  next
    case (Cons m' ms')
    with Cons.prems Cons.IH [of "Suc i" "Some (projl (send i (request m)))"] show ?thesis
      by (auto split: sum.splits)
  qed
qed simp

section \<open>Properties\<close>

text \<open>
  a policy's model call without an explicit model walks the configured model and its fallbacks
  in order: a response comes from the first model that answers, every earlier one having failed;
  when none answers, all were tried and the last one's error is raised. Every request carries the
  client's connection and timeout.
\<close>

theorem llm_client_falls_back_in_order:
  fixes send :: "nat \<Rightarrow> llm_call \<Rightarrow> 'r res" and cl :: llm_client
  assumes "models = lc_model cl # lc_fallback_models cl"
    and "out = (\<lambda>i. send i \<lparr>call_model = models ! i, call_connection = lc_connection cl, call_timeout = Some (lc_request_timeout cl)\<rparr>)"
  shows "(\<forall>r. fst (llm_create cl send None None None) = Inr r \<longleftrightarrow>
      (\<exists>k < length models. out k = Inr r \<and> (\<forall>j<k. \<exists>e. out j = Inl e))) \<and>
    (\<forall>e. fst (llm_create cl send None None None) = Inl e \<longrightarrow>
      out (length models - 1) = Inl e \<and> snd (llm_create cl send None None None) = models)"
proof -
  let ?req = "\<lambda>m. \<lparr>call_model = m, call_connection = lc_connection cl, call_timeout = Some (lc_request_timeout cl)\<rparr>"
  have run: "llm_create cl send None None None = try_models send ?req models 0 None"
    by (simp add: llm_create_def assms(1) Let_def del: try_models.simps)
  have "last models = models ! (length models - 1)" by (simp add: assms(1) last_conv_nth)
  then show ?thesis
    using try_models_closed [of send ?req models 0 None] try_models_all_fail [of models send ?req 0 None]
    by (auto simp: run assms)
qed

theorem llm_client_falls_back_in_order_witness:
  "fst (llm_create \<lparr>lc_model = ''m'', lc_connection = None, lc_request_timeout = 9, lc_fallback_models = [''f'']\<rparr>
     (\<lambda>i c. if call_model c = ''f'' then Inr (call_timeout c) else Inl IndexError) None None None) = Inr (Some 9)"
  by (rule llm_client_falls_back_in_order [OF refl refl, THEN conjunct1, THEN spec, THEN iffD2])
    (intro exI [of _ "Suc 0"] conjI allI impI; simp)

end
