(* ===== verification/Inflight_Text.thy ===== *)
theory Inflight_Text
  imports Policy_Types
begin

text \<open>
  The index of the assistant text that is streaming, \<^verbatim>\<open>codify/runtime/inflight_text.py\<close>: the
  text of the current response of a conversation, the native messages that stream under an identifier
  of their own, the identifiers that are committed already and the fingerprints of committed texts
  whose chunks are still to come. The lock makes every operation one step. \<open>fp\<close> is the fingerprint of a
  text (SHA-256 in the code), \<open>now\<close> the monotonic clock at the step.
\<close>

section \<open>Definitions\<close>

type_synonym event = "(string, pyval) pydict"

definition terminal_event_types :: "string list" where
  "terminal_event_types =
     [''response.completed'', ''response.failed'', ''response.cancelled'', ''response.incomplete'']"

definition terminal_status_values :: "string list" where
  "terminal_status_values = [''idle'', ''failed'']"

record turn =
  tn_response_id :: "string option"
  tn_response :: "event option"
  tn_parts :: "string list"

record native_message =
  nm_parts :: "string list"
  nm_last_index :: int
  nm_final_seen :: bool

record inflight =
  fx_turns :: "(string, turn) pydict"
  fx_native :: "(string, string, native_message) nested"
  fx_retired :: "(string, string, unit) nested"
  fx_committed :: "(string, string, real list) nested"

definition no_inflight :: inflight where
  "no_inflight = \<lparr>fx_turns = [], fx_native = [], fx_retired = [], fx_committed = []\<rparr>"

definition new_turn :: turn where
  "new_turn = \<lparr>tn_response_id = None, tn_response = None, tn_parts = []\<rparr>"

definition new_message :: native_message where
  "new_message = \<lparr>nm_parts = [], nm_last_index = -1, nm_final_seen = False\<rparr>"

definition max_retired :: nat where "max_retired = 256"

definition max_committed :: nat where "max_committed = 256"

definition committed_ttl :: real where "committed_ttl = 10"

fun output_text :: "pyval \<Rightarrow> string option" where
  "output_text (PDict b) =
     (if dget b ''type'' = Some (PStr ''output_text'')
      then (case dget b ''text'' of Some (PStr t) \<Rightarrow> Some t | _ \<Rightarrow> None) else None)"
| "output_text _ = None"

definition committed_message_text :: "event \<Rightarrow> string option" where
  "committed_message_text item =
     (case dget item ''content'' of
        Some (PList content) \<Rightarrow>
          let parts = List.map_filter output_text content in if parts = [] then None else Some (concat parts)
      | _ \<Rightarrow> None)"

fun evict_oldest :: "nat \<Rightarrow> 'a list \<Rightarrow> 'a list" where
  \<comment> \<open>\<open>while len(d) > cap: del d[next(iter(d))]\<close>\<close>
  "evict_oldest cap [] = []"
| "evict_oldest cap (x # xs) = (if cap < length (x # xs) then evict_oldest cap xs else x # xs)"

definition retire_native_message :: "string \<Rightarrow> string \<Rightarrow> inflight \<Rightarrow> inflight" where
  "retire_native_message conv mid s =
     s\<lparr>fx_native := (case dget (fx_native s) conv of
                       None \<Rightarrow> fx_native s
                     | Some messages \<Rightarrow> nstore conv (ddel mid messages) (fx_native s)),
       fx_retired := dset conv (evict_oldest max_retired (dset mid () (nentries (fx_retired s) conv))) (fx_retired s)\<rparr>"

definition is_codex_message_id :: "string \<Rightarrow> bool" where
  "is_codex_message_id mid = starts_with mid ''codex:''"

definition match_committed_native_message :: "(string \<Rightarrow> string) \<Rightarrow> string \<Rightarrow> string \<Rightarrow> inflight \<Rightarrow> string option" where
  "match_committed_native_message fp conv fingerprint s =
     map_option fst
       (List.find (\<lambda>(mid, m). (nm_final_seen m \<or> is_codex_message_id mid) \<and> fp (concat (nm_parts m)) = fingerprint)
          (nentries (fx_native s) conv))"

definition consume_committed_fingerprint ::
  "(string \<Rightarrow> string) \<Rightarrow> real \<Rightarrow> string \<Rightarrow> string list \<Rightarrow> inflight \<Rightarrow> bool \<times> inflight" where
  "consume_committed_fingerprint fp now conv parts s =
     (let committed = nentries (fx_committed s) conv; fingerprint = fp (concat parts)
      in case dget committed fingerprint of
           None \<Rightarrow> (False, s)
         | Some timestamps \<Rightarrow>
             if timestamps = [] then (False, s)
             else let fresh = filter (\<lambda>ts. now - committed_ttl \<le> ts) timestamps;
                      matched = (fresh \<noteq> []);
                      rest = (if matched then tl fresh else fresh);
                      left = (if rest \<noteq> [] then dset fingerprint rest committed else ddel fingerprint committed)
                  in (matched, s\<lparr>fx_committed := nstore conv left (fx_committed s)\<rparr>))"

definition buffer_committed_fingerprint :: "real \<Rightarrow> string \<Rightarrow> string \<Rightarrow> inflight \<Rightarrow> inflight" where
  "buffer_committed_fingerprint now conv fingerprint s =
     (let committed = nentries (fx_committed s) conv;
          timestamps = (case dget committed fingerprint of None \<Rightarrow> [] | Some ts \<Rightarrow> ts)
      in s\<lparr>fx_committed :=
             dset conv (evict_oldest max_committed (dset fingerprint (timestamps @ [now]) committed)) (fx_committed s)\<rparr>)"

section \<open>Publishing\<close>

definition str_of :: "event \<Rightarrow> string \<Rightarrow> string option" where
  \<comment> \<open>the value of a key when it is a string\<close>
  "str_of ev k = (case dget ev k of Some (PStr t) \<Rightarrow> Some t | _ \<Rightarrow> None)"

definition dict_of :: "event \<Rightarrow> string \<Rightarrow> event option" where
  "dict_of ev k = (case dget ev k of Some (PDict d) \<Rightarrow> Some d | _ \<Rightarrow> None)"

definition response_id_of :: "event \<Rightarrow> (string \<times> event) option" where
  \<comment> \<open>the response of a lifecycle event with its identifier, a non-empty string\<close>
  "response_id_of ev =
     (case dict_of ev ''response'' of
        None \<Rightarrow> None
      | Some response \<Rightarrow>
          (case str_of response ''id'' of None \<Rightarrow> None | Some i \<Rightarrow> if i = [] then None else Some (i, response)))"

definition publish_lifecycle :: "string \<Rightarrow> event \<Rightarrow> inflight \<Rightarrow> inflight" where
  "publish_lifecycle conv ev s =
     (case response_id_of ev of
        None \<Rightarrow> s
      | Some (response_id, response) \<Rightarrow>
          let fresh = \<lparr>tn_response_id = Some response_id, tn_response = Some response, tn_parts = []\<rparr>;
              entry = (case dget (fx_turns s) conv of
                         None \<Rightarrow> fresh
                       | Some e \<Rightarrow> if tn_response_id e \<noteq> Some response_id then fresh else e\<lparr>tn_response := Some response\<rparr>)
          in s\<lparr>fx_turns := dset conv entry (fx_turns s)\<rparr>)"

definition event_final :: "event \<Rightarrow> bool" where
  "event_final ev = (case dget ev ''final'' of None \<Rightarrow> False | Some v \<Rightarrow> py_truth v)"

definition event_index :: "event \<Rightarrow> int option" where
  \<comment> \<open>an integer that is not a boolean\<close>
  "event_index ev = (case dget ev ''index'' of Some (PInt i) \<Rightarrow> Some i | _ \<Rightarrow> None)"

definition accept_chunk :: "string \<Rightarrow> event \<Rightarrow> native_message \<Rightarrow> native_message option" where
  \<comment> \<open>\<open>None\<close>: the index is not above the last one\<close>
  "accept_chunk delta ev m =
     (let stale = (case event_index ev of Some i \<Rightarrow> i \<le> nm_last_index m | None \<Rightarrow> False)
      in if stale then None
         else Some \<lparr>nm_parts = (if delta = [] then nm_parts m else nm_parts m @ [delta]),
                    nm_last_index = (case event_index ev of Some i \<Rightarrow> i | None \<Rightarrow> nm_last_index m),
                    nm_final_seen = (nm_final_seen m \<or> event_final ev)\<rparr>)"

definition settle_chunk ::
  "(string \<Rightarrow> string) \<Rightarrow> real \<Rightarrow> string \<Rightarrow> string \<Rightarrow> native_message \<Rightarrow> event \<Rightarrow> inflight \<Rightarrow> bool \<times> inflight" where
  \<comment> \<open>after a chunk was added: a final one may complete a message that is committed already\<close>
  "settle_chunk fp now conv mid m ev s =
     (if event_final ev
      then let r = consume_committed_fingerprint fp now conv (nm_parts m) s
           in if fst r then (True, retire_native_message conv mid (snd r)) else (False, snd r)
      else (False, s))"

definition publish_native ::
  "(string \<Rightarrow> string) \<Rightarrow> real \<Rightarrow> string \<Rightarrow> string \<Rightarrow> string \<Rightarrow> event \<Rightarrow> inflight \<Rightarrow> bool \<times> inflight" where
  "publish_native fp now conv mid delta ev s =
     (if mid \<in> set (dkeys (nentries (fx_retired s) conv)) then (True, s)
      else let found = dget (nentries (fx_native s) conv) mid
           in if found = None \<and> delta = [] \<and> \<not> event_final ev then (False, s)
              else let m0 = (case found of None \<Rightarrow> new_message | Some m \<Rightarrow> m)
                   in case accept_chunk delta ev m0 of
                        None \<Rightarrow> (False, s\<lparr>fx_native := nput conv mid m0 (fx_native s)\<rparr>)
                      | Some m \<Rightarrow> settle_chunk fp now conv mid m ev (s\<lparr>fx_native := nput conv mid m (fx_native s)\<rparr>))"

definition publish_delta :: "string \<Rightarrow> string \<Rightarrow> inflight \<Rightarrow> inflight" where
  "publish_delta conv delta s =
     (if delta = [] then s
      else let entry = (case dget (fx_turns s) conv of None \<Rightarrow> new_turn | Some e \<Rightarrow> e)
           in s\<lparr>fx_turns := dset conv (entry\<lparr>tn_parts := tn_parts entry @ [delta]\<rparr>) (fx_turns s)\<rparr>)"

definition committed_text :: "event \<Rightarrow> string option" where
  \<comment> \<open>the text of a message that is committed with this event\<close>
  "committed_text ev =
     (case dict_of ev ''item'' of
        None \<Rightarrow> None
      | Some item \<Rightarrow> if str_of item ''type'' = Some ''message'' then committed_message_text item else None)"

definition publish_done :: "(string \<Rightarrow> string) \<Rightarrow> real \<Rightarrow> string \<Rightarrow> event \<Rightarrow> inflight \<Rightarrow> inflight" where
  "publish_done fp now conv ev s =
     (case committed_text ev of
        None \<Rightarrow> s
      | Some t \<Rightarrow>
          (case match_committed_native_message fp conv (fp t) s of
             Some mid \<Rightarrow> retire_native_message conv mid s
           | None \<Rightarrow> buffer_committed_fingerprint now conv (fp t) s))"

definition discard :: "string \<Rightarrow> inflight \<Rightarrow> inflight" where
  "discard conv s =
     s\<lparr>fx_turns := ddel conv (fx_turns s), fx_native := ddel conv (fx_native s),
       fx_retired := ddel conv (fx_retired s), fx_committed := ddel conv (fx_committed s)\<rparr>"

definition message_id_of :: "event \<Rightarrow> string option" where
  "message_id_of ev = (case str_of ev ''message_id'' of None \<Rightarrow> None | Some mid \<Rightarrow> if mid = [] then None else Some mid)"

definition record_typed :: "(string \<Rightarrow> string) \<Rightarrow> real \<Rightarrow> string \<Rightarrow> string \<Rightarrow> event \<Rightarrow> inflight \<Rightarrow> bool \<times> inflight" where
  "record_typed fp now conv ty ev s =
     (if ty = ''response.created'' \<or> ty = ''response.in_progress'' then (False, publish_lifecycle conv ev s)
      else if ty = ''response.output_text.delta''
      then (case str_of ev ''delta'' of
              None \<Rightarrow> (False, s)
            | Some delta \<Rightarrow>
                (case message_id_of ev of
                   Some mid \<Rightarrow> publish_native fp now conv mid delta ev s
                 | None \<Rightarrow> (False, publish_delta conv delta s)))
      else if ty = ''response.output_item.done'' then (False, publish_done fp now conv ev s)
      else if ty \<in> set terminal_event_types then (False, discard conv s)
      else if ty = ''session.status''
      then (case str_of ev ''status'' of
              None \<Rightarrow> (False, s)
            | Some st \<Rightarrow>
                if st \<in> set terminal_status_values then (False, s\<lparr>fx_turns := ddel conv (fx_turns s)\<rparr>) else (False, s))
      else (False, s))"

definition record_text :: "(string \<Rightarrow> string) \<Rightarrow> real \<Rightarrow> string \<Rightarrow> event \<Rightarrow> inflight \<Rightarrow> bool \<times> inflight" where
  \<comment> \<open>\<open>record_publish\<close>: whether the event is withheld from the live stream; its type is a string\<close>
  "record_text fp now conv ev s =
     (case str_of ev ''type'' of None \<Rightarrow> (False, s) | Some ty \<Rightarrow> record_typed fp now conv ty ev s)"

section \<open>Replaying\<close>

definition delta_event :: "string \<Rightarrow> event" where
  "delta_event t = [(''type'', PStr ''response.output_text.delta''), (''delta'', PStr t)]"

definition native_event :: "string \<Rightarrow> native_message \<Rightarrow> event" where
  "native_event mid m =
     delta_event (concat (nm_parts m)) @ [(''message_id'', PStr mid), (''index'', PInt (nm_last_index m))]"

definition created_event :: "event \<Rightarrow> event" where
  "created_event response = [(''type'', PStr ''response.created''), (''response'', PDict response)]"

definition native_events :: "inflight \<Rightarrow> string \<Rightarrow> event list" where
  "native_events s conv =
     map (\<lambda>(mid, m). native_event mid m) (filter (\<lambda>(mid, m). concat (nm_parts m) \<noteq> []) (nentries (fx_native s) conv))"

definition snapshot_text :: "inflight \<Rightarrow> string \<Rightarrow> event list" where
  "snapshot_text s conv =
     (if native_events s conv \<noteq> [] then native_events s conv
      else case dget (fx_turns s) conv of
             None \<Rightarrow> []
           | Some entry \<Rightarrow>
               if concat (tn_parts entry) = [] then []
               else (case tn_response entry of None \<Rightarrow> [] | Some r \<Rightarrow> [created_event r]) @ [delta_event (concat (tn_parts entry))])"

definition reset_text :: "string \<Rightarrow> inflight \<Rightarrow> inflight" where
  "reset_text conv s =
     (case dget (fx_turns s) conv of
        None \<Rightarrow> s
      | Some entry \<Rightarrow> s\<lparr>fx_turns := dset conv (entry\<lparr>tn_parts := []\<rparr>) (fx_turns s)\<rparr>)"

definition reset_inflight :: "inflight \<Rightarrow> inflight" where
  "reset_inflight s = no_inflight"

section \<open>The invariant of the index\<close>

datatype text_op =
    TextEvent real string event
  | Discard string
  | ResetText string
  | ResetAll

fun text_step :: "(string \<Rightarrow> string) \<Rightarrow> inflight \<Rightarrow> text_op \<Rightarrow> inflight" where
  "text_step fp s (TextEvent now conv ev) = snd (record_text fp now conv ev s)"
| "text_step fp s (Discard conv) = discard conv s"
| "text_step fp s (ResetText conv) = reset_text conv s"
| "text_step fp s ResetAll = reset_inflight s"

definition streaming_ids :: "inflight \<Rightarrow> string \<Rightarrow> string set" where
  "streaming_ids s conv = set (dkeys (nentries (fx_native s) conv))"

definition retired_ids :: "inflight \<Rightarrow> string \<Rightarrow> string list" where
  "retired_ids s conv = dkeys (nentries (fx_retired s) conv)"

definition inflight_ok :: "inflight \<Rightarrow> bool" where
  "inflight_ok s \<longleftrightarrow> dict_ok (fx_turns s) \<and> nested_ok (fx_native s) \<and> nested_ok (fx_retired s) \<and> nested_ok (fx_committed s)
     \<and> (\<forall>c. streaming_ids s c \<inter> set (retired_ids s c) = {})
     \<and> (\<forall>c. length (retired_ids s c) \<le> max_retired \<and> length (nentries (fx_committed s) c) \<le> max_committed)
     \<and> (\<forall>c f. dget (nentries (fx_committed s) c) f \<noteq> Some [])"

lemma evict_oldest_drop: "evict_oldest cap d = drop (length d - cap) d"
  by (induction cap d rule: evict_oldest.induct) (auto simp: Suc_diff_le)

lemma length_evict_oldest: "length (evict_oldest cap d) \<le> cap"
  by (simp add: evict_oldest_drop)

lemma evict_oldest_small: "length d \<le> cap \<Longrightarrow> evict_oldest cap d = d"
  by (simp add: evict_oldest_drop)

lemma set_evict_oldest: "set (evict_oldest cap d) \<subseteq> set d"
  by (simp add: evict_oldest_drop set_drop_subset)

lemma dict_ok_evict_oldest [simp]: "dict_ok d \<Longrightarrow> dict_ok (evict_oldest cap d)"
  by (simp add: dict_ok_def evict_oldest_drop flip: drop_map)

lemma evict_oldest_nonempty: "0 < cap \<Longrightarrow> d \<noteq> [] \<Longrightarrow> evict_oldest cap d \<noteq> []"
  by (cases "length d \<le> cap") (auto simp: evict_oldest_drop)

lemma dget_evict_oldest: "dict_ok d \<Longrightarrow> dget (evict_oldest cap d) k = Some v \<Longrightarrow> dget d k = Some v"
  using set_evict_oldest [of cap d] dict_ok_evict_oldest [of d cap]
  by (auto simp: dict_ok_def dest: map_of_SomeD intro: map_of_is_SomeI)

lemma dkeys_dset: "set (dkeys (dset k v d)) = insert k (set (dkeys d))"
  by (induction d) auto

lemma length_dset: "length (dset k v d) = (if dget d k = None then Suc (length d) else length d)"
  by (induction d) auto

lemma nentries_dset [simp]: "nentries (dset c e d) c' = (if c' = c then e else nentries d c')"
  by (simp add: nentries_def)

lemma nentries_ddel [simp]: "nentries (ddel c d) c' = (if c' = c then [] else nentries d c')"
  by (simp add: nentries_def)

lemma nested_ok_dset [simp]: "nested_ok d \<Longrightarrow> dict_ok e \<Longrightarrow> e \<noteq> [] \<Longrightarrow> nested_ok (dset c e d)"
  by (auto simp: nested_ok_def)

lemma nested_ok_ddel [simp]: "nested_ok d \<Longrightarrow> nested_ok (ddel c d)"
  by (auto simp: nested_ok_def)

lemma inflight_okD:
  assumes "inflight_ok s"
  shows "dict_ok (fx_turns s)" "nested_ok (fx_native s)" "nested_ok (fx_retired s)" "nested_ok (fx_committed s)"
    "streaming_ids s c \<inter> set (retired_ids s c) = {}" "length (nentries (fx_retired s) c) \<le> max_retired"
    "length (nentries (fx_committed s) c) \<le> max_committed" "dget (nentries (fx_committed s) c) f \<noteq> Some []"
    "dict_ok (nentries (fx_native s) c)" "dict_ok (nentries (fx_retired s) c)" "dict_ok (nentries (fx_committed s) c)"
  using assms by (auto simp: inflight_ok_def retired_ids_def intro: nested_ok_entries)

lemma inflight_ok_turns: "inflight_ok s \<Longrightarrow> dict_ok t \<Longrightarrow> inflight_ok (s\<lparr>fx_turns := t\<rparr>)"
  by (simp add: inflight_ok_def streaming_ids_def retired_ids_def)

lemma streaming_ids_turns [simp]: "streaming_ids (s\<lparr>fx_turns := t\<rparr>) c = streaming_ids s c"
  by (simp add: streaming_ids_def)

lemma nentries_retire [simp]:
  "nentries (fx_native (retire_native_message conv mid s)) c =
     (if c = conv then ddel mid (nentries (fx_native s) conv) else nentries (fx_native s) c)"
  "nentries (fx_retired (retire_native_message conv mid s)) c =
     (if c = conv then evict_oldest max_retired (dset mid () (nentries (fx_retired s) conv)) else nentries (fx_retired s) c)"
  "fx_committed (retire_native_message conv mid s) = fx_committed s"
  "fx_turns (retire_native_message conv mid s) = fx_turns s"
proof -
  show "nentries (fx_native (retire_native_message conv mid s)) c =
     (if c = conv then ddel mid (nentries (fx_native s) conv) else nentries (fx_native s) c)"
    by (cases "dget (fx_native s) conv") (simp_all add: retire_native_message_def, simp_all add: nentries_def)
  show "nentries (fx_retired (retire_native_message conv mid s)) c =
     (if c = conv then evict_oldest max_retired (dset mid () (nentries (fx_retired s) conv)) else nentries (fx_retired s) c)"
    by (simp add: retire_native_message_def)
qed (simp_all add: retire_native_message_def)

lemma nested_ok_retire:
  assumes "nested_ok (fx_native s)"
  shows "nested_ok (fx_native (retire_native_message conv mid s))"
proof (cases "dget (fx_native s) conv")
  case (Some messages)
  then have "dict_ok messages" using assms by (simp add: nested_ok_def)
  then show ?thesis using assms Some by (simp add: retire_native_message_def)
qed (use assms in \<open>simp add: retire_native_message_def\<close>)

lemma inflight_ok_retire:
  assumes ok: "inflight_ok s"
  shows "inflight_ok (retire_native_message conv mid s)"
proof -
  note facts = inflight_okD [OF ok]
  have "dset mid () (nentries (fx_retired s) conv) \<noteq> []" by simp
  then have ne: "evict_oldest max_retired (dset mid () (nentries (fx_retired s) conv)) \<noteq> []"
    by (intro evict_oldest_nonempty) (simp_all add: max_retired_def)
  have retired: "nested_ok (fx_retired (retire_native_message conv mid s))"
    unfolding retire_native_message_def using facts ne by simp
  have disj: "streaming_ids (retire_native_message conv mid s) c \<inter> set (retired_ids (retire_native_message conv mid s) c) = {}" for c
  proof (cases "c = conv")
    case True
    have "set (evict_oldest max_retired (dset mid () (nentries (fx_retired s) conv)))
        \<subseteq> set (dset mid () (nentries (fx_retired s) conv))" by (rule set_evict_oldest)
    then have "set (dkeys (evict_oldest max_retired (dset mid () (nentries (fx_retired s) conv))))
        \<subseteq> set (dkeys (dset mid () (nentries (fx_retired s) conv)))" by (auto simp only: set_map)
    also have "\<dots> = insert mid (set (retired_ids s conv))" unfolding retired_ids_def by (rule dkeys_dset)
    finally have "set (dkeys (evict_oldest max_retired (dset mid () (nentries (fx_retired s) conv)))) \<subseteq> insert mid (set (retired_ids s conv))" .
    moreover have "set (dkeys (ddel mid (nentries (fx_native s) conv))) = streaming_ids s conv - {mid}"
      by (auto simp: streaming_ids_def ddel_filter)
    ultimately show ?thesis
      using facts(5) [of conv] True facts(2) by (auto simp: streaming_ids_def retired_ids_def)
  next
    case False
    then show ?thesis using facts(5) [of c] facts(2) by (simp add: streaming_ids_def retired_ids_def)
  qed
  show ?thesis
    unfolding inflight_ok_def using facts retired disj nested_ok_retire [OF facts(2)]
    by (auto simp: retired_ids_def length_evict_oldest)
qed


lemma consume_frame [simp]:
  "fx_native (snd (consume_committed_fingerprint fp now conv parts s)) = fx_native s"
  "fx_retired (snd (consume_committed_fingerprint fp now conv parts s)) = fx_retired s"
  "fx_turns (snd (consume_committed_fingerprint fp now conv parts s)) = fx_turns s"
  by (simp_all add: consume_committed_fingerprint_def Let_def split: option.split)

lemma inflight_ok_committed:
  assumes "inflight_ok s" and "nested_ok d" and "\<And>c. length (nentries d c) \<le> max_committed"
    and "\<And>c f. dget (nentries d c) f \<noteq> Some []"
  shows "inflight_ok (s\<lparr>fx_committed := d\<rparr>)"
  using assms unfolding inflight_ok_def streaming_ids_def retired_ids_def by simp

lemma inflight_ok_consume:
  assumes ok: "inflight_ok s"
  shows "inflight_ok (snd (consume_committed_fingerprint fp now conv parts s))"
proof (cases "dget (nentries (fx_committed s) conv) (fp (concat parts))")
  case None
  then show ?thesis using ok by (simp add: consume_committed_fingerprint_def)
next
  case (Some timestamps)
  define committed where "committed = nentries (fx_committed s) conv"
  define fresh where "fresh = filter (\<lambda>ts. now - committed_ttl \<le> ts) timestamps"
  define rest where "rest = (if fresh \<noteq> [] then tl fresh else fresh)"
  define left where "left = (if rest \<noteq> [] then dset (fp (concat parts)) rest committed else ddel (fp (concat parts)) committed)"
  note facts = inflight_okD [OF ok]
  have "dict_ok committed" "length committed \<le> max_committed" using facts by (simp_all add: committed_def)
  moreover have "length left \<le> length committed"
    using Some by (auto simp: left_def committed_def length_ddel facts length_dset)
  moreover have "dget left f \<noteq> Some []" for f
    using facts(8) [of conv] by (auto simp: left_def committed_def)
  ultimately have "inflight_ok (s\<lparr>fx_committed := nstore conv left (fx_committed s)\<rparr>)"
    by (intro inflight_ok_committed) (auto simp: ok facts left_def)
  moreover have "timestamps \<noteq> []" using Some facts(8) by auto
  then have "snd (consume_committed_fingerprint fp now conv parts s) = s\<lparr>fx_committed := nstore conv left (fx_committed s)\<rparr>"
    unfolding consume_committed_fingerprint_def left_def rest_def fresh_def committed_def Let_def using Some by simp
  ultimately show ?thesis by simp
qed

lemma inflight_ok_buffer:
  assumes ok: "inflight_ok s"
  shows "inflight_ok (buffer_committed_fingerprint now conv fingerprint s)"
proof -
  note facts = inflight_okD [OF ok]
  define d where "d = dset fingerprint ((case dget (nentries (fx_committed s) conv) fingerprint of None \<Rightarrow> [] | Some ts \<Rightarrow> ts) @ [now])
      (nentries (fx_committed s) conv)"
  have d: "dict_ok d" "d \<noteq> []" "\<And>f. dget d f \<noteq> Some []" using facts by (auto simp: d_def)
  have "inflight_ok (s\<lparr>fx_committed := dset conv (evict_oldest max_committed d) (fx_committed s)\<rparr>)"
  proof (rule inflight_ok_committed [OF ok])
    show "nested_ok (dset conv (evict_oldest max_committed d) (fx_committed s))"
      using facts d by (intro nested_ok_dset evict_oldest_nonempty dict_ok_evict_oldest) (simp_all add: max_committed_def)
  qed (use facts d in \<open>auto simp: length_evict_oldest dest: dget_evict_oldest\<close>)
  then show ?thesis by (simp add: buffer_committed_fingerprint_def Let_def d_def)
qed

lemma inflight_ok_native:
  assumes ok: "inflight_ok s" and "mid \<notin> set (retired_ids s conv)"
  shows "inflight_ok (s\<lparr>fx_native := nput conv mid m (fx_native s)\<rparr>)"
proof -
  note facts = inflight_okD [OF ok]
  have "set (dkeys (dset mid m (nentries (fx_native s) conv))) \<inter> set (retired_ids s conv) = {}"
    unfolding dkeys_dset using facts(5) [of conv] assms(2) by (auto simp: streaming_ids_def)
  then have "streaming_ids (s\<lparr>fx_native := nput conv mid m (fx_native s)\<rparr>) c \<inter> set (retired_ids s c) = {}" for c
    using facts(5) [of c] by (auto simp: streaming_ids_def)
  then show ?thesis using ok by (simp add: inflight_ok_def retired_ids_def)
qed

lemma inflight_ok_settle:
  "inflight_ok s \<Longrightarrow> inflight_ok (snd (settle_chunk fp now conv mid m ev s))"
  by (simp add: settle_chunk_def Let_def inflight_ok_consume inflight_ok_retire)

lemma inflight_ok_publish_native:
  assumes ok: "inflight_ok s"
  shows "inflight_ok (snd (publish_native fp now conv mid delta ev s))"
proof (cases "mid \<in> set (retired_ids s conv)")
  case False
  then have put: "inflight_ok (s\<lparr>fx_native := nput conv mid m (fx_native s)\<rparr>)" for m
    by (rule inflight_ok_native [OF ok])
  show ?thesis
    using False by (simp add: publish_native_def retired_ids_def Let_def ok put inflight_ok_settle split: option.split)
qed (use ok in \<open>simp add: publish_native_def retired_ids_def\<close>)

lemma inflight_ok_discard: "inflight_ok s \<Longrightarrow> inflight_ok (discard conv s)"
  by (auto simp: inflight_ok_def discard_def streaming_ids_def retired_ids_def)

lemma inflight_ok_publish_lifecycle: "inflight_ok s \<Longrightarrow> inflight_ok (publish_lifecycle conv ev s)"
  using inflight_okD(1) [of s]
  by (simp add: publish_lifecycle_def Let_def inflight_ok_turns split: option.split prod.split)

lemma inflight_ok_publish_delta: "inflight_ok s \<Longrightarrow> inflight_ok (publish_delta conv delta s)"
  using inflight_okD(1) [of s] by (simp add: publish_delta_def Let_def inflight_ok_turns)

lemma inflight_ok_publish_done: "inflight_ok s \<Longrightarrow> inflight_ok (publish_done fp now conv ev s)"
  by (simp add: publish_done_def inflight_ok_retire inflight_ok_buffer split: option.split)

lemma inflight_ok_record_text:
  assumes ok: "inflight_ok s"
  shows "inflight_ok (snd (record_text fp now conv ev s))"
proof -
  have "inflight_ok (snd (record_typed fp now conv ty ev s))" for ty
    using inflight_okD(1) [OF ok]
    by (simp add: record_typed_def ok inflight_ok_publish_native inflight_ok_discard inflight_ok_publish_lifecycle
        inflight_ok_publish_delta inflight_ok_publish_done inflight_ok_turns split: option.split)
  then show ?thesis by (simp add: record_text_def ok split: option.split)
qed

lemma inflight_ok_none: "inflight_ok no_inflight"
  by (simp add: inflight_ok_def no_inflight_def streaming_ids_def retired_ids_def)

lemma inflight_ok_step: "inflight_ok s \<Longrightarrow> inflight_ok (text_step fp s op)"
  using inflight_okD(1) [of s]
  by (cases op) (simp_all add: inflight_ok_record_text inflight_ok_discard reset_text_def reset_inflight_def
      inflight_ok_none inflight_ok_turns split: option.split)

interpretation texts: op_machine "text_step fp" inflight_ok no_inflight for fp
  by unfold_locales (rule inflight_ok_none, erule inflight_ok_step)

section \<open>A committed message and its last chunk\<close>

definition is_chunk :: "event \<Rightarrow> string \<Rightarrow> string \<Rightarrow> bool" where
  \<comment> \<open>a chunk of a native message: its identifier and its text\<close>
  "is_chunk ev mid delta \<longleftrightarrow> str_of ev ''type'' = Some ''response.output_text.delta''
     \<and> str_of ev ''delta'' = Some delta \<and> message_id_of ev = Some mid"

definition is_commit :: "event \<Rightarrow> string \<Rightarrow> bool" where
  \<comment> \<open>the event that commits a message with this text\<close>
  "is_commit ev t \<longleftrightarrow> str_of ev ''type'' = Some ''response.output_item.done'' \<and> committed_text ev = Some t"

definition index_view ::
  "inflight \<Rightarrow> (string, turn) pydict \<times> (string \<Rightarrow> (string, native_message) pydict) \<times> (string \<Rightarrow> (string, unit) pydict)
     \<times> (string \<Rightarrow> (string, real list) pydict)" where
  "index_view s = (fx_turns s, nentries (fx_native s), nentries (fx_retired s), nentries (fx_committed s))"

lemma record_text_chunk:
  "is_chunk ev mid delta \<Longrightarrow> record_text fp now conv ev s = publish_native fp now conv mid delta ev s"
  by (simp add: record_text_def record_typed_def is_chunk_def)

lemma record_text_commit:
  "is_commit ev t \<Longrightarrow> record_text fp now conv ev s =
     (False, case match_committed_native_message fp conv (fp t) s of
               Some mid \<Rightarrow> retire_native_message conv mid s
             | None \<Rightarrow> buffer_committed_fingerprint now conv (fp t) s)"
  by (simp add: record_text_def record_typed_def is_commit_def publish_done_def)

lemma find_dset:
  assumes "List.find P es = None" and "P (k, v)"
  shows "List.find P (dset k v es) = Some (k, v)"
  using assms by (induction es) (auto simp: find_None_iff split: if_splits)

lemma ddel_dset_same [simp]: "ddel k (dset k v d) = ddel k d"
  by (induction d) (auto simp: ddel_filter)

lemma ddel_absent: "dget d k = None \<Longrightarrow> ddel k d = d"
  by (auto simp: ddel_filter map_of_eq_None_iff filter_id_conv)

lemma retired_after_retire: "mid \<in> set (retired_ids (retire_native_message conv mid s) conv)" if "inflight_ok s"
proof -
  let ?d = "dset mid () (nentries (fx_retired s) conv)"
  have "length ?d \<le> Suc max_retired"
    using inflight_okD(6) [OF that, of conv] by (simp add: length_dset)
  then have "length ?d - max_retired \<le> 1" by simp
  show ?thesis
  proof (cases "length ?d \<le> max_retired")
    case True
    then show ?thesis
      using dkeys_dset [of mid "()" "nentries (fx_retired s) conv"] unfolding retired_ids_def by (simp only: nentries_retire evict_oldest_small if_True) simp
  next
    case False
    with inflight_okD(6) [OF that, of conv] have new: "dget (nentries (fx_retired s) conv) mid = None"
      by (simp add: length_dset split: if_splits)
    moreover have "nentries (fx_retired s) conv \<noteq> []" using False by (auto simp: max_retired_def)
    ultimately have "(mid, ()) \<in> set (evict_oldest max_retired ?d)"
      using False inflight_okD(6) [OF that, of conv]
      by (simp add: evict_oldest_drop dset_fresh length_dset) (simp add: max_retired_def)
    then show ?thesis unfolding retired_ids_def by (force simp: nentries_retire)
  qed
qed

lemma commit_after_chunk:
  assumes new: "m = the (accept_chunk delta chunk old)" and acc: "accept_chunk delta chunk old \<noteq> None"
    and old: "old = (case dget (nentries (fx_native s) conv) mid of None \<Rightarrow> new_message | Some m \<Rightarrow> m)"
    and chunk: "is_chunk chunk mid delta" "event_final chunk" and commit: "is_commit commit (concat (nm_parts m))"
    and open_id: "mid \<notin> set (retired_ids s conv)"
    and nomatch: "match_committed_native_message fp conv (fp (concat (nm_parts m))) s = None"
    and nobuffer: "dget (nentries (fx_committed s) conv) (fp (concat (nm_parts m))) = None"
  shows "record_text fp now conv chunk s = (False, s\<lparr>fx_native := nput conv mid m (fx_native s)\<rparr>)"
    and "record_text fp now' conv commit (s\<lparr>fx_native := nput conv mid m (fx_native s)\<rparr>) =
           (False, retire_native_message conv mid (s\<lparr>fx_native := nput conv mid m (fx_native s)\<rparr>))"
proof -
  have m: "accept_chunk delta chunk old = Some m" using new acc by auto
  then have final: "nm_final_seen m" using chunk by (auto simp: accept_chunk_def Let_def split: if_splits)
  show "record_text fp now conv chunk s = (False, s\<lparr>fx_native := nput conv mid m (fx_native s)\<rparr>)"
    using open_id chunk m nobuffer
    by (simp add: record_text_chunk publish_native_def retired_ids_def Let_def settle_chunk_def
        consume_committed_fingerprint_def flip: old)
  have "List.find (\<lambda>(i, x). (nm_final_seen x \<or> is_codex_message_id i) \<and> fp (concat (nm_parts x)) = fp (concat (nm_parts m)))
      (dset mid m (nentries (fx_native s) conv)) = Some (mid, m)"
    using nomatch final by (intro find_dset) (simp_all add: match_committed_native_message_def)
  then show "record_text fp now' conv commit (s\<lparr>fx_native := nput conv mid m (fx_native s)\<rparr>) =
      (False, retire_native_message conv mid (s\<lparr>fx_native := nput conv mid m (fx_native s)\<rparr>))"
    using commit by (simp add: record_text_commit match_committed_native_message_def)
qed


lemma chunk_after_commit:
  assumes ok: "inflight_ok s" and new: "m = the (accept_chunk delta chunk old)" and acc: "accept_chunk delta chunk old \<noteq> None"
    and old: "old = (case dget (nentries (fx_native s) conv) mid of None \<Rightarrow> new_message | Some m \<Rightarrow> m)"
    and chunk: "is_chunk chunk mid delta" "event_final chunk" and commit: "is_commit commit (concat (nm_parts m))"
    and open_id: "mid \<notin> set (retired_ids s conv)"
    and nomatch: "match_committed_native_message fp conv (fp (concat (nm_parts m))) s = None"
    and nobuffer: "dget (nentries (fx_committed s) conv) (fp (concat (nm_parts m))) = None"
    and room: "length (nentries (fx_committed s) conv) < max_committed" and soon: "now' \<le> now + committed_ttl"
    and sb_def: "sb = buffer_committed_fingerprint now conv (fp (concat (nm_parts m))) s"
  shows "record_text fp now conv commit s = (False, sb)"
    and "record_text fp now' conv chunk sb =
           (True, retire_native_message conv mid
              (s\<lparr>fx_native := nput conv mid m (fx_native s),
                 fx_committed := nstore conv (nentries (fx_committed s) conv) (fx_committed sb)\<rparr>))"
proof -
  have m: "accept_chunk delta chunk old = Some m" using new acc by auto
  show "record_text fp now conv commit s = (False, sb)"
    using commit nomatch by (simp add: record_text_commit sb_def)
  let ?f = "fp (concat (nm_parts m))"
  have buffered: "nentries (fx_committed sb) conv = dset ?f [now] (nentries (fx_committed s) conv)"
    unfolding sb_def buffer_committed_fingerprint_def Let_def
    using nobuffer room by (simp add: evict_oldest_small length_dset)
  have frame: "fx_native sb = fx_native s" "fx_retired sb = fx_retired s" "fx_turns sb = fx_turns s"
    by (simp_all add: sb_def buffer_committed_fingerprint_def Let_def)
  have consumed: "consume_committed_fingerprint fp now' conv (nm_parts m) (sb\<lparr>fx_native := nput conv mid m (fx_native s)\<rparr>) =
      (True, s\<lparr>fx_native := nput conv mid m (fx_native s),
        fx_committed := nstore conv (nentries (fx_committed s) conv) (fx_committed sb)\<rparr>)"
    using buffered soon frame nobuffer
    by (simp add: consume_committed_fingerprint_def Let_def ddel_absent)
  show "record_text fp now' conv chunk sb =
      (True, retire_native_message conv mid
         (s\<lparr>fx_native := nput conv mid m (fx_native s),
            fx_committed := nstore conv (nentries (fx_committed s) conv) (fx_committed sb)\<rparr>))"
    using open_id chunk m consumed frame
    by (simp add: record_text_chunk publish_native_def retired_ids_def Let_def settle_chunk_def flip: old)
qed


text \<open>
  The commit of a native message and its last chunk race: whichever arrives first, the index ends
  in the same state. The message does not stream any more, its identifier is retired, every other
  message is as before, and the chunk that came late is withheld from the live stream while the chunk
  that came first was delivered. This holds when no other complete message has the same text, the
  buffer of committed texts has room, and the chunk comes at most ten seconds after the commit.
\<close>
theorem commit_and_last_chunk_commute:
  assumes "inflight_ok s"
    and "old = (case dget (nentries (fx_native s) conv) mid of None \<Rightarrow> new_message | Some m \<Rightarrow> m)"
    and "accept_chunk delta chunk old = Some m"
    and "is_chunk chunk mid delta" "event_final chunk" "is_commit commit (concat (nm_parts m))"
    and "mid \<notin> set (retired_ids s conv)"
    and "match_committed_native_message fp conv (fp (concat (nm_parts m))) s = None"
    and "dget (nentries (fx_committed s) conv) (fp (concat (nm_parts m))) = None"
    and "length (nentries (fx_committed s) conv) < max_committed"
    and "t2 \<le> t1 + committed_ttl"
  shows "\<exists>sa sb. record_text fp t1 conv chunk s = (False, sa) \<and> record_text fp t1 conv commit s = (False, sb)
      \<and> fst (record_text fp t2 conv commit sa) = False \<and> fst (record_text fp t2 conv chunk sb) = True
      \<and> index_view (snd (record_text fp t2 conv commit sa)) = index_view (snd (record_text fp t2 conv chunk sb))
      \<and> mid \<in> set (retired_ids (snd (record_text fp t2 conv chunk sb)) conv)
      \<and> nentries (fx_native (snd (record_text fp t2 conv chunk sb))) conv = ddel mid (nentries (fx_native s) conv)
      \<and> nentries (fx_committed (snd (record_text fp t2 conv chunk sb))) conv = nentries (fx_committed s) conv"
proof -
  define sa where "sa = s\<lparr>fx_native := nput conv mid m (fx_native s)\<rparr>"
  define sb where "sb = buffer_committed_fingerprint t1 conv (fp (concat (nm_parts m))) s"
  define sb' where "sb' = s\<lparr>fx_native := nput conv mid m (fx_native s),
      fx_committed := nstore conv (nentries (fx_committed s) conv) (fx_committed sb)\<rparr>"
  have acc: "m = the (accept_chunk delta chunk old)" "accept_chunk delta chunk old \<noteq> None" using assms(3) by simp_all
  note A = commit_after_chunk [OF acc assms(2, 4-9), of t1, folded sa_def]
  note A' = commit_after_chunk(2) [OF acc assms(2, 4-9), of t2, folded sa_def]
  note B = chunk_after_commit [OF assms(1) acc assms(2, 4-11) sb_def, folded sb'_def]
  have sa: "fx_native sa = fx_native sb'" "fx_retired sa = fx_retired sb'" "fx_turns sa = fx_turns sb'"
    by (simp_all add: sa_def sb'_def)
  have committed: "nentries (fx_committed sb') = nentries (fx_committed s)"
    by (rule ext) (simp add: sb'_def sb_def buffer_committed_fingerprint_def Let_def)
  then have "index_view (retire_native_message conv mid sa) = index_view (retire_native_message conv mid sb')"
    by (simp add: index_view_def sa fun_eq_iff) (simp add: sa_def)
  moreover have "inflight_ok sa" unfolding sa_def by (rule inflight_ok_native [OF assms(1, 7)])
  then have "mid \<in> set (retired_ids (retire_native_message conv mid sa) conv)" by (rule retired_after_retire)
  then have "mid \<in> set (retired_ids (retire_native_message conv mid sb') conv)" by (simp add: retired_ids_def sa)
  moreover have "nentries (fx_native (retire_native_message conv mid sb')) conv = ddel mid (nentries (fx_native s) conv)"
    by (simp add: sb'_def)
  ultimately show ?thesis using A(1) A' B committed by (intro exI [of _ sa] exI [of _ sb]) simp
qed

definition ex_chunk :: event where
  "ex_chunk = [(''type'', PStr ''response.output_text.delta''), (''delta'', PStr ''Done''), (''message_id'', PStr ''m1''),
     (''index'', PInt 0), (''final'', PBool True)]"

definition ex_commit :: event where
  "ex_commit = [(''type'', PStr ''response.output_item.done''),
     (''item'', PDict [(''type'', PStr ''message''),
        (''content'', PList [PDict [(''type'', PStr ''output_text''), (''text'', PStr ''Done'')]])])]"

lemma ex_chunk_commit:
  "is_chunk ex_chunk ''m1'' ''Done''" "event_final ex_chunk" "is_commit ex_commit ''Done''"
  "accept_chunk ''Done'' ex_chunk new_message = Some \<lparr>nm_parts = [''Done''], nm_last_index = 0, nm_final_seen = True\<rparr>"
  by (code_simp | rule refl)+

theorem commit_and_last_chunk_commute_witness:
  "\<exists>sa sb. record_text id 0 ''c'' ex_chunk no_inflight = (False, sa) \<and> record_text id 0 ''c'' ex_commit no_inflight = (False, sb)
      \<and> fst (record_text id 5 ''c'' ex_commit sa) = False \<and> fst (record_text id 5 ''c'' ex_chunk sb) = True
      \<and> index_view (snd (record_text id 5 ''c'' ex_commit sa)) = index_view (snd (record_text id 5 ''c'' ex_chunk sb))
      \<and> ''m1'' \<in> set (retired_ids (snd (record_text id 5 ''c'' ex_chunk sb)) ''c'')
      \<and> nentries (fx_native (snd (record_text id 5 ''c'' ex_chunk sb))) ''c'' = ddel ''m1'' (nentries (fx_native no_inflight) ''c'')
      \<and> nentries (fx_committed (snd (record_text id 5 ''c'' ex_chunk sb))) ''c'' = nentries (fx_committed no_inflight) ''c''"
  by (rule commit_and_last_chunk_commute [where old = new_message and delta = "''Done''"
        and m = "\<lparr>nm_parts = [''Done''], nm_last_index = 0, nm_final_seen = True\<rparr>"])
     (simp_all add: ex_chunk_commit inflight_ok_none, simp_all add: no_inflight_def retired_ids_def max_committed_def
        committed_ttl_def match_committed_native_message_def)

section \<open>Retired messages\<close>

definition commits_or_finishes :: "string \<Rightarrow> text_op \<Rightarrow> bool" where
  \<comment> \<open>the operations that may retire a message of the conversation\<close>
  "commits_or_finishes c op \<longleftrightarrow>
     (case op of TextEvent now conv ev \<Rightarrow> conv = c \<and>
        (str_of ev ''type'' = Some ''response.output_item.done'' \<or> event_final ev) | _ \<Rightarrow> False)"

definition ends_turn :: "string \<Rightarrow> text_op \<Rightarrow> bool" where
  \<comment> \<open>the operations that forget what is retired\<close>
  "ends_turn c op \<longleftrightarrow>
     (case op of
        TextEvent now conv ev \<Rightarrow> conv = c \<and> (\<exists>ty \<in> set terminal_event_types. str_of ev ''type'' = Some ty)
      | Discard conv \<Rightarrow> conv = c
      | ResetText conv \<Rightarrow> False
      | ResetAll \<Rightarrow> True)"

definition retired_for :: "string \<Rightarrow> string list \<Rightarrow> nat" where
  \<comment> \<open>how many messages were retired after this one\<close>
  "retired_for mid ids = length (takeWhile (\<lambda>i. i \<noteq> mid) (rev ids))"


lemma evict_oldest_map: "map f (evict_oldest cap d) = evict_oldest cap (map f d)"
  by (simp add: evict_oldest_drop drop_map)

lemma dkeys_dset_list: "dkeys (dset k v d) = (if k \<in> set (dkeys d) then dkeys d else dkeys d @ [k])"
  by (induction d) auto

lemma retired_ids_retire:
  "retired_ids (retire_native_message conv x s) c =
     (if c = conv then evict_oldest max_retired (if x \<in> set (retired_ids s c) then retired_ids s c else retired_ids s c @ [x])
      else retired_ids s c)"
  unfolding retired_ids_def nentries_retire by (simp add: evict_oldest_map dkeys_dset_list del: set_map)

lemma retired_ids_same [simp]:
  "retired_ids (s\<lparr>fx_turns := t\<rparr>) c = retired_ids s c"
  "retired_ids (s\<lparr>fx_native := n\<rparr>) c = retired_ids s c"
  "retired_ids (snd (consume_committed_fingerprint fp now conv parts s)) c = retired_ids s c"
  "retired_ids (buffer_committed_fingerprint now conv f s) c = retired_ids s c"
  by (simp_all add: retired_ids_def buffer_committed_fingerprint_def Let_def)

definition retires_one :: "string \<Rightarrow> inflight \<Rightarrow> inflight \<Rightarrow> bool" where
  "retires_one c s s' \<longleftrightarrow> (\<exists>x. retired_ids s' c =
     evict_oldest max_retired (if x \<in> set (retired_ids s c) then retired_ids s c else retired_ids s c @ [x]))"

lemma publish_native_retired:
  "retired_ids (snd (publish_native fp now conv mid delta ev s)) c = retired_ids s c
     \<or> conv = c \<and> event_final ev \<and> retires_one c s (snd (publish_native fp now conv mid delta ev s))"
  by (simp add: publish_native_def settle_chunk_def Let_def retires_one_def retired_ids_retire split: option.split) blast

lemma publish_done_retired:
  "retired_ids (publish_done fp now conv ev s) c = retired_ids s c \<or> conv = c \<and> retires_one c s (publish_done fp now conv ev s)"
  by (simp add: publish_done_def retires_one_def retired_ids_retire split: option.split) blast

definition only_turn :: "string \<Rightarrow> inflight \<Rightarrow> (string, turn) pydict \<Rightarrow> bool" where
  \<comment> \<open>turns that differ from those of the index for this conversation only\<close>
  "only_turn conv s t \<longleftrightarrow> (\<forall>c. c \<noteq> conv \<longrightarrow> dget t c = dget (fx_turns s) c)"

lemma only_turnI [simp]:
  "only_turn conv s (fx_turns s)" "only_turn conv s (dset conv e (fx_turns s))" "only_turn conv s (ddel conv (fx_turns s))"
  by (simp_all add: only_turn_def)

lemma publish_lifecycle_turns: "\<exists>t. publish_lifecycle conv ev s = s\<lparr>fx_turns := t\<rparr> \<and> only_turn conv s t"
proof (cases "response_id_of ev")
  case None
  then show ?thesis by (intro exI [of _ "fx_turns s"]) (simp add: publish_lifecycle_def)
next
  case (Some p)
  then show ?thesis by (cases p) (simp add: publish_lifecycle_def Let_def, rule exI, rule conjI, rule refl, simp)
qed

lemma publish_delta_turns: "\<exists>t. publish_delta conv delta s = s\<lparr>fx_turns := t\<rparr> \<and> only_turn conv s t"
proof (cases "delta = []")
  case True
  then show ?thesis by (intro exI [of _ "fx_turns s"]) (simp add: publish_delta_def)
qed (simp add: publish_delta_def Let_def, rule exI, rule conjI, rule refl, simp)

lemma event_kinds:
  obtains (lifecycle) "ty = ''response.created'' \<or> ty = ''response.in_progress''" | (delta) "ty = ''response.output_text.delta''"
  | (commit) "ty = ''response.output_item.done''" | (ends) "ty \<in> set terminal_event_types" | (status) "ty = ''session.status''"
  | (other) "ty \<noteq> ''response.created''" "ty \<noteq> ''response.in_progress''" "ty \<noteq> ''response.output_text.delta''"
      "ty \<noteq> ''response.output_item.done''" "ty \<notin> set terminal_event_types" "ty \<noteq> ''session.status''"
  by blast

lemma record_text_cases:
  \<comment> \<open>what an event does to the index\<close>
  obtains (turns) t where "record_text fp now conv ev s = (False, s\<lparr>fx_turns := t\<rparr>)" and "only_turn conv s t"
      and "\<nexists>mid delta. is_chunk ev mid delta" and "str_of ev ''type'' \<notin> Some ` set terminal_event_types"
  | (chunk) mid delta where "is_chunk ev mid delta" and "record_text fp now conv ev s = publish_native fp now conv mid delta ev s"
  | (commit) "str_of ev ''type'' = Some ''response.output_item.done''"
      and "record_text fp now conv ev s = (False, publish_done fp now conv ev s)"
  | (ends) ty where "str_of ev ''type'' = Some ty" and "ty \<in> set terminal_event_types"
      and "record_text fp now conv ev s = (False, discard conv s)"
proof -
  have same: "s = s\<lparr>fx_turns := fx_turns s\<rparr>" by simp
  obtain t1 where t1: "publish_lifecycle conv ev s = s\<lparr>fx_turns := t1\<rparr>" "only_turn conv s t1" using publish_lifecycle_turns by blast
  show ?thesis
  proof (cases "str_of ev ''type''")
    case None
    then show ?thesis by (intro turns [of "fx_turns s"]) (auto simp: record_text_def record_typed_def is_chunk_def terminal_event_types_def split: option.split)
  next
    case (Some ty)
    then have eq: "record_text fp now conv ev s = record_typed fp now conv ty ev s" by (simp add: record_text_def)
    show ?thesis
    proof (cases rule: event_kinds [of ty])
      case lifecycle
      then show ?thesis using Some eq t1 by (intro turns [of t1]) (auto simp: record_text_def record_typed_def is_chunk_def terminal_event_types_def split: option.split)
    next
      case delta
      note ty = this
      from this have eq2: "record_typed fp now conv ty ev s =
          (case str_of ev ''delta'' of None \<Rightarrow> (False, s) | Some delta \<Rightarrow>
             (case message_id_of ev of Some mid \<Rightarrow> publish_native fp now conv mid delta ev s | None \<Rightarrow> (False, publish_delta conv delta s)))"
        by (simp add: record_typed_def)
      show ?thesis
      proof (cases "str_of ev ''delta''")
        case None
        then show ?thesis using Some ty eq eq2 by (intro turns [of "fx_turns s"]) (auto simp: record_text_def record_typed_def is_chunk_def terminal_event_types_def split: option.split)
      next
        case delta: (Some delta)
        obtain t2 where t2: "publish_delta conv delta s = s\<lparr>fx_turns := t2\<rparr>" "only_turn conv s t2" using publish_delta_turns by blast
        show ?thesis
        proof (cases "message_id_of ev")
          case None
          then show ?thesis using Some ty eq eq2 delta t2 by (intro turns [of t2]) (auto simp: record_text_def record_typed_def is_chunk_def terminal_event_types_def split: option.split)
        next
          case mid: (Some mid)
          show ?thesis by (rule that(2) [of mid delta]) (use eq eq2 delta mid Some ty in \<open>simp_all add: is_chunk_def\<close>)
        qed
      qed
    next
      case commit
      then show ?thesis using eq Some by (intro that(3)) (simp_all add: record_typed_def)
    next
      case ends
      then have "record_typed fp now conv ty ev s = (False, discard conv s)"
        by (auto simp: record_typed_def terminal_event_types_def)
      then show ?thesis using eq Some ends by (intro that(4)) simp_all
    next
      case status
      then have "record_typed fp now conv ty ev s =
          (False, s\<lparr>fx_turns := (case str_of ev ''status'' of None \<Rightarrow> fx_turns s
             | Some st \<Rightarrow> if st \<in> set terminal_status_values then ddel conv (fx_turns s) else fx_turns s)\<rparr>)"
        by (simp add: record_typed_def terminal_event_types_def split: option.split)
      then show ?thesis using Some eq status by (intro turns) (auto simp: record_text_def record_typed_def is_chunk_def terminal_event_types_def split: option.split)
    next
      case other
      then show ?thesis using Some eq by (intro turns [of "fx_turns s"]) (auto simp: record_text_def record_typed_def is_chunk_def terminal_event_types_def split: option.split)
    qed
  qed
qed

lemma retired_step:
  assumes "\<not> ends_turn c op"
  shows "retired_ids (text_step fp s op) c = retired_ids s c
    \<or> commits_or_finishes c op \<and> retires_one c s (text_step fp s op)"
proof (cases op)
  case (TextEvent now conv ev)
  show ?thesis
  proof (cases rule: record_text_cases [of fp now conv ev s])
    case (chunk mid delta)
    then show ?thesis using publish_native_retired [of fp now conv mid delta ev s c]
      by (auto simp: TextEvent commits_or_finishes_def)
  next
    case commit
    then show ?thesis using publish_done_retired [of fp now conv ev s c]
      by (auto simp: TextEvent commits_or_finishes_def)
  next
    case (ends ty)
    then have "conv \<noteq> c" using assms by (auto simp: ends_turn_def TextEvent)
    then show ?thesis using ends by (simp add: TextEvent discard_def retired_ids_def)
  qed (simp add: TextEvent)
next
  case (ResetText conv)
  then show ?thesis by (simp add: reset_text_def split: option.split)
qed (use assms in \<open>auto simp: ends_turn_def discard_def retired_ids_def reset_inflight_def\<close>)


lemma retired_for_append:
  assumes "mid \<in> set ids" and "retired_for mid ids < cap - 1"
  shows "mid \<in> set (evict_oldest cap (if x \<in> set ids then ids else ids @ [x]))
    \<and> retired_for mid (evict_oldest cap (if x \<in> set ids then ids else ids @ [x])) \<le> Suc (retired_for mid ids)"
proof -
  obtain zs where zs: "rev ids = takeWhile (\<lambda>i. i \<noteq> mid) (rev ids) @ mid # zs"
  proof -
    have "mid \<in> set (rev ids)" using assms(1) by simp
    then obtain ys zs where "rev ids = ys @ mid # zs" "mid \<notin> set ys" by (meson split_list_first)
    then have "takeWhile (\<lambda>i. i \<noteq> mid) (rev ids) = ys" by (metis (mono_tags, lifting) takeWhile_append2 takeWhile.simps(2) append.right_neutral)
    with \<open>rev ids = ys @ mid # zs\<close> that show ?thesis by blast
  qed
  define ws where "ws = rev (takeWhile (\<lambda>i. i \<noteq> mid) (rev ids))"
  have ids: "ids = rev zs @ mid # ws" using arg_cong [OF zs, of rev] by (simp add: ws_def)
  have fresh: "mid \<notin> set ws" by (auto simp: ws_def dest: set_takeWhileD)
  have len: "length ws < cap - 1" using assms(2) by (simp add: retired_for_def ws_def)
  have keep: "\<exists>us. evict_oldest cap (vs @ mid # us') = us @ mid # us'" if "length us' < cap" for vs us'
  proof -
    have "length (vs @ mid # us') - cap \<le> length vs" using that by simp
    then show ?thesis by (auto simp: evict_oldest_drop)
  qed
  have age: "retired_for mid (us @ mid # us') = length us'" if "mid \<notin> set us'" for us us'
  proof -
    have "takeWhile (\<lambda>i. i \<noteq> mid) (rev us' @ mid # rev us) = rev us'"
      using that by (subst takeWhile_append2) auto
    then show ?thesis by (simp add: retired_for_def)
  qed
  show ?thesis
  proof (cases "x \<in> set ids")
    case True
    have "length ws < cap" using len by simp
    then obtain us where "evict_oldest cap ids = us @ mid # ws" using keep unfolding ids by blast
    then show ?thesis using True age [OF fresh] ids by simp
  next
    case False
    then have fresh': "mid \<notin> set (ws @ [x])" using fresh assms(1) by auto
    have "length (ws @ [x]) < cap" using len by simp
    then obtain us where "evict_oldest cap (rev zs @ mid # (ws @ [x])) = us @ mid # (ws @ [x])" using keep by blast
    then have "evict_oldest cap (ids @ [x]) = us @ mid # (ws @ [x])" by (simp add: ids)
    moreover have "retired_for mid ids = length ws" unfolding ids by (rule age [OF fresh])
    ultimately show ?thesis using False age [OF fresh', of us] by simp
  qed
qed

lemma retired_run:
  assumes "mid \<in> set (retired_ids s c)"
    and "\<not> list_ex (ends_turn c) ops"
    and "retired_for mid (retired_ids s c) + length (filter (commits_or_finishes c) ops) < max_retired"
  shows "mid \<in> set (retired_ids (foldl (text_step fp) s ops) c)"
  using assms
proof (induction ops arbitrary: s)
  case (Cons op ops)
  have run: "foldl (text_step fp) s (op # ops) = foldl (text_step fp) (text_step fp s op) ops" by simp
  have "\<not> ends_turn c op" using Cons.prems(2) by simp
  from retired_step [OF this, of fp s] show ?case
  proof (elim disjE conjE)
    assume "retired_ids (text_step fp s op) c = retired_ids s c"
    then show ?case unfolding run using Cons.prems by (intro Cons.IH) (auto split: if_splits)
  next
    assume one: "commits_or_finishes c op" and "retires_one c s (text_step fp s op)"
    then obtain x where x: "retired_ids (text_step fp s op) c =
        evict_oldest max_retired (if x \<in> set (retired_ids s c) then retired_ids s c else retired_ids s c @ [x])"
      by (auto simp: retires_one_def)
    have "retired_for mid (retired_ids s c) < max_retired - 1" using Cons.prems(3) one by simp
    from retired_for_append [OF Cons.prems(1) this, of x] x
    have "mid \<in> set (retired_ids (text_step fp s op) c)"
      "retired_for mid (retired_ids (text_step fp s op) c) \<le> Suc (retired_for mid (retired_ids s c))"
      by (simp_all only:)
    then show ?case unfolding run using Cons.prems one by (intro Cons.IH) auto
  qed
qed simp

text \<open>
  A chunk of a native message is withheld from the live stream, and leaves the index as it is, once
  the message is retired: as long as the turn does not end, and fewer than 256 further messages can
  have been retired, no late chunk brings a committed message back.
\<close>
theorem late_chunks_stay_withheld:
  assumes "mid \<in> set (retired_ids s c)"
    and "\<not> list_ex (ends_turn c) ops"
    and "retired_for mid (retired_ids s c) + length (filter (commits_or_finishes c) ops) < max_retired"
    and "is_chunk ev mid delta"
  shows "record_text fp now c ev (foldl (text_step fp) s ops) = (True, foldl (text_step fp) s ops)"
  using retired_run [OF assms(1-3), of fp] assms(4)
  by (simp add: record_text_chunk publish_native_def retired_ids_def)


definition ex_retired :: inflight where
  "ex_retired = retire_native_message ''c'' ''m1'' no_inflight"

lemma ex_retired_ids: "retired_ids ex_retired ''c'' = [''m1'']"
  by (simp add: ex_retired_def retired_ids_retire) (simp add: no_inflight_def retired_ids_def max_retired_def)

theorem late_chunks_stay_withheld_witness:
  "record_text id 1 ''c'' ex_chunk (foldl (text_step id) ex_retired [TextEvent 0 ''c'' ex_commit])
     = (True, foldl (text_step id) ex_retired [TextEvent 0 ''c'' ex_commit])"
proof (rule late_chunks_stay_withheld)
  show "\<not> list_ex (ends_turn ''c'') [TextEvent 0 ''c'' ex_commit]"
    using ex_chunk_commit(3) by (simp add: ends_turn_def is_commit_def terminal_event_types_def)
  show "retired_for ''m1'' (retired_ids ex_retired ''c'') + length (filter (commits_or_finishes ''c'') [TextEvent 0 ''c'' ex_commit]) < max_retired"
    by (simp add: ex_retired_ids retired_for_def max_retired_def)
qed (simp_all add: ex_retired_ids, rule ex_chunk_commit)

section \<open>The text that is replayed\<close>

definition delta_text :: "event \<Rightarrow> string" where
  \<comment> \<open>the response-scoped text that an event carries\<close>
  "delta_text ev =
     (if str_of ev ''type'' = Some ''response.output_text.delta'' \<and> message_id_of ev = None
      then (case str_of ev ''delta'' of None \<Rightarrow> [] | Some t \<Rightarrow> t) else [])"

definition announced :: "event \<Rightarrow> (string \<times> event) option" where
  \<comment> \<open>the response that an event announces\<close>
  "announced ev =
     (if str_of ev ''type'' \<in> {Some ''response.created'', Some ''response.in_progress''} then response_id_of ev else None)"

definition ends_text :: "event \<Rightarrow> bool" where
  \<comment> \<open>the end of a response, or of the turn\<close>
  "ends_text ev \<longleftrightarrow> str_of ev ''type'' \<in> Some ` set terminal_event_types
     \<or> str_of ev ''type'' = Some ''session.status'' \<and> str_of ev ''status'' \<in> Some ` set terminal_status_values"

definition texts_of :: "string \<Rightarrow> text_op list \<Rightarrow> string list" where
  \<comment> \<open>the texts that are published on a conversation\<close>
  "texts_of c ops = map (\<lambda>op. case op of TextEvent now conv ev \<Rightarrow> if conv = c then delta_text ev else [] | _ \<Rightarrow> []) ops"

definition announcements :: "string \<Rightarrow> text_op list \<Rightarrow> event list" where
  \<comment> \<open>the responses that are announced on a conversation\<close>
  "announcements c ops = List.map_filter
     (\<lambda>op. case op of TextEvent now conv ev \<Rightarrow> if conv = c then map_option snd (announced ev) else None | _ \<Rightarrow> None) ops"

definition same_response :: "string \<Rightarrow> string \<Rightarrow> text_op \<Rightarrow> bool" where
  \<comment> \<open>after the operation the conversation is still in this response\<close>
  "same_response c i op \<longleftrightarrow>
     (case op of
        TextEvent now conv ev \<Rightarrow>
          conv = c \<longrightarrow> \<not> ends_text ev \<and> (case announced ev of None \<Rightarrow> True | Some (j, r) \<Rightarrow> j = i)
      | Discard conv \<Rightarrow> conv \<noteq> c
      | ResetText conv \<Rightarrow> conv \<noteq> c
      | ResetAll \<Rightarrow> False)"

lemma response_id_ofD:
  "response_id_of ev = Some (i, r) \<Longrightarrow> i \<noteq> [] \<and> str_of r ''id'' = Some i"
  by (auto simp: response_id_of_def split: option.splits if_splits)

lemma publish_native_turns [simp]: "fx_turns (snd (publish_native fp now conv mid delta ev s)) = fx_turns s"
  by (simp add: publish_native_def settle_chunk_def Let_def split: option.split)

lemma publish_done_turns [simp]: "fx_turns (publish_done fp now conv ev s) = fx_turns s"
  by (simp add: publish_done_def buffer_committed_fingerprint_def Let_def split: option.split)

lemma record_text_other:
  assumes "conv \<noteq> c"
  shows "dget (fx_turns (snd (record_text fp now conv ev s))) c = dget (fx_turns s) c"
proof (cases rule: record_text_cases [of fp now conv ev s])
  case (turns t)
  then show ?thesis using assms by (simp add: only_turn_def)
next
  case (ends ty)
  then show ?thesis using assms by (simp add: discard_def)
qed simp_all

definition holds_text :: "string \<Rightarrow> string \<Rightarrow> event \<Rightarrow> string \<Rightarrow> inflight \<Rightarrow> bool" where
  \<comment> \<open>the index holds this response, with this text\<close>
  "holds_text c i r t s \<longleftrightarrow>
     (\<exists>e. dget (fx_turns s) c = Some e \<and> tn_response_id e = Some i \<and> tn_response e = Some r \<and> concat (tn_parts e) = t)"

lemma holds_text_turns: "fx_turns s' = fx_turns s \<Longrightarrow> holds_text c i r t s' = holds_text c i r t s"
  by (simp add: holds_text_def)

lemma holds_text_event:
  assumes held: "holds_text c i r t s" and goes_on: "\<not> ends_text ev"
    and same: "case announced ev of None \<Rightarrow> True | Some (j, r') \<Rightarrow> j = i"
  shows "holds_text c i (case announced ev of None \<Rightarrow> r | Some (j, r') \<Rightarrow> r') (t @ delta_text ev) (snd (record_text fp now c ev s))"
proof (cases "str_of ev ''type''")
  case None
  then show ?thesis using held by (simp add: record_text_def announced_def delta_text_def)
next
  case (Some ty)
  obtain e where e: "dget (fx_turns s) c = Some e" "tn_response_id e = Some i" "tn_response e = Some r" "concat (tn_parts e) = t"
    using held by (auto simp: holds_text_def)
  have eq: "record_text fp now c ev s = record_typed fp now c ty ev s" by (simp add: record_text_def Some)
  show ?thesis
  proof (cases rule: event_kinds [of ty])
    case lifecycle
    then have "record_typed fp now c ty ev s = (False, publish_lifecycle c ev s)" "delta_text ev = []" "announced ev = response_id_of ev"
      using Some by (auto simp: record_typed_def delta_text_def announced_def)
    then show ?thesis
      using e same unfolding eq by (cases "response_id_of ev") (auto simp: publish_lifecycle_def holds_text_def)
  next
    case delta
    then have "announced ev = None" using Some by (simp add: announced_def)
    moreover have "holds_text c i r (t @ delta_text ev) (snd (record_typed fp now c ty ev s))"
      using delta Some e
      by (cases "str_of ev ''delta''"; cases "message_id_of ev")
         (simp_all add: record_typed_def delta_text_def holds_text_def publish_delta_def)
    ultimately show ?thesis by (simp add: eq)
  next
    case commit
    then show ?thesis using held Some eq
      by (simp add: record_typed_def announced_def delta_text_def holds_text_turns [OF publish_done_turns])
  next
    case ends
    then show ?thesis using goes_on Some by (simp add: ends_text_def)
  next
    case status
    then have "snd (record_typed fp now c ty ev s) = s"
      using goes_on Some by (auto simp: record_typed_def ends_text_def terminal_event_types_def split: option.split)
    then show ?thesis using held Some status by (simp add: eq announced_def delta_text_def)
  next
    case other
    then show ?thesis using held Some by (simp add: eq record_typed_def announced_def delta_text_def)
  qed
qed

lemma holds_text_step:
  assumes held: "holds_text c i r t s" and same: "same_response c i op"
  shows "holds_text c i (last (r # announcements c [op])) (t @ concat (texts_of c [op])) (text_step fp s op)"
proof (cases op)
  case (TextEvent now conv ev)
  show ?thesis
  proof (cases "conv = c")
    case True
    then have "\<not> ends_text ev" "case announced ev of None \<Rightarrow> True | Some (j, r') \<Rightarrow> j = i"
      using same TextEvent by (auto simp: same_response_def)
    from holds_text_event [OF held this, of fp now] show ?thesis
      using True TextEvent by (cases "announced ev") (auto simp: announcements_def List.map_filter_def texts_of_def)
  next
    case False
    then show ?thesis
      using held TextEvent by (simp add: announcements_def List.map_filter_def texts_of_def holds_text_def record_text_other)
  qed
qed (use held same in \<open>simp_all add: same_response_def announcements_def List.map_filter_def texts_of_def holds_text_def
      discard_def reset_text_def split: option.split\<close>)

lemma announcements_Cons: "announcements c (op # ops) = announcements c [op] @ announcements c ops"
  by (simp add: announcements_def List.map_filter_def split: text_op.split)

lemma texts_of_Cons: "texts_of c (op # ops) = texts_of c [op] @ texts_of c ops"
  by (simp add: texts_of_def)

lemma last_announcement: "last (last (r # xs) # ys) = last (r # xs @ ys)"
  by (cases ys) simp_all

lemma holds_text_run:
  "holds_text c i r t s \<Longrightarrow> list_all (same_response c i) ops
   \<Longrightarrow> holds_text c i (last (r # announcements c ops)) (t @ concat (texts_of c ops)) (foldl (text_step fp) s ops)"
proof (induction ops arbitrary: r t s)
  case (Cons op ops)
  have "same_response c i op" "list_all (same_response c i) ops" using Cons.prems(2) by simp_all
  from Cons.IH [OF holds_text_step [OF Cons.prems(1) this(1)] this(2)] show ?case
    by (simp only: announcements_Cons [of c op ops] texts_of_Cons [of c op ops] last_announcement concat_append append_assoc foldl_Cons)
qed (simp add: announcements_def List.map_filter_def texts_of_def)

lemma announcement_starts:
  assumes "announced ev = Some (i, r)" and "map_option tn_response_id (dget (fx_turns s) c) \<noteq> Some (Some i)"
  shows "holds_text c i r [] (snd (record_text fp now c ev s))"
proof -
  have "response_id_of ev = Some (i, r)" and ty: "str_of ev ''type'' = Some ''response.created'' \<or> str_of ev ''type'' = Some ''response.in_progress''"
    using assms(1) by (auto simp: announced_def split: if_splits)
  moreover from ty have "record_text fp now c ev s = (False, publish_lifecycle c ev s)"
    by (auto simp: record_text_def record_typed_def)
  ultimately show ?thesis
    using assms(2) by (cases "dget (fx_turns s) c") (auto simp: publish_lifecycle_def holds_text_def)
qed

lemma response_text:
  assumes "announced announcement = Some (i, r)"
    and "map_option tn_response_id (dget (fx_turns (foldl (text_step fp) s before)) c) \<noteq> Some (Some i)"
    and "list_all (same_response c i) since"
  shows "holds_text c i (last (r # announcements c since)) (concat (texts_of c since))
    (foldl (text_step fp) s (before @ TextEvent now c announcement # since))"
  using holds_text_run [OF announcement_starts [OF assms(1,2), where now = now and fp = fp] assms(3), where fp = fp] by simp

lemma snapshot_held:
  "holds_text c i r t s \<Longrightarrow> native_events s c = [] \<Longrightarrow>
   snapshot_text s c = (if t = [] then [] else [created_event r, delta_event t])"
  by (auto simp: holds_text_def snapshot_text_def)

text \<open>
  C32: What is replayed to a client that connects in the middle of a response is the text of that
  response. Let a response be announced while the index is not on it already, and let no end of the
  response or of the turn, no other response and no teardown or reset of the conversation follow, among
  any other operations on this and on other conversations. Then the replay is the latest announcement of
  the response and one delta with all the texts that were published for it since the announcement,
  in order and each once, whatever was in flight before; it is empty while there is no such text. When a
  native message is in flight, which has an identifier of its own, only the native messages are replayed
  and the text of the response is left out.
\<close>
theorem replay_is_the_text_of_the_response:
  assumes "announced announcement = Some (i, r)"
    and "map_option tn_response_id (dget (fx_turns (foldl (text_step fp) no_inflight before)) c) \<noteq> Some (Some i)"
    and "list_all (same_response c i) since"
    and "s = foldl (text_step fp) no_inflight (before @ TextEvent now c announcement # since)"
  shows "snapshot_text s c =
    (if native_events s c \<noteq> [] then native_events s c
     else if concat (texts_of c since) = [] then []
     else [created_event (last (r # announcements c since)), delta_event (concat (texts_of c since))])"
proof (cases "native_events s c = []")
  case True
  from snapshot_held [OF response_text [OF assms(1-3), where now = now, folded assms(4)] True] show ?thesis using True by simp
qed (simp add: snapshot_text_def)

definition ex_turn_created :: event where
  "ex_turn_created = [(''type'', PStr ''response.created''), (''response'', PDict [(''id'', PStr ''r1'')])]"

definition ex_turn_again :: event where
  "ex_turn_again = [(''type'', PStr ''response.in_progress''), (''response'', PDict [(''id'', PStr ''r1''), (''model'', PStr ''m'')])]"

definition ex_since :: "text_op list" where
  "ex_since = [TextEvent 1 ''c'' (delta_event ''Hel''), TextEvent 2 ''d'' (delta_event ''no''), TextEvent 3 ''c'' ex_turn_again,
     TextEvent 4 ''c'' (delta_event ''lo''), Discard ''d'']"

theorem replay_is_the_text_of_the_response_witness:
  "snapshot_text (foldl (text_step id) no_inflight
       ([TextEvent 0 ''c'' (delta_event ''old'')] @ TextEvent 0 ''c'' ex_turn_created # ex_since)) ''c''
     = [created_event [(''id'', PStr ''r1''), (''model'', PStr ''m'')], delta_event ''Hello'']"
proof -
  let ?s = "foldl (text_step id) no_inflight ([TextEvent 0 ''c'' (delta_event ''old'')] @ TextEvent 0 ''c'' ex_turn_created # ex_since)"
  have "announced ex_turn_created = Some (''r1'', [(''id'', PStr ''r1'')])" by code_simp
  moreover have "map_option tn_response_id
      (dget (fx_turns (foldl (text_step id) no_inflight [TextEvent 0 ''c'' (delta_event ''old'')])) ''c'') \<noteq> Some (Some ''r1'')"
    by code_simp
  moreover have "list_all (same_response ''c'' ''r1'') ex_since" by code_simp
  ultimately have "snapshot_text ?s ''c'' =
      (if native_events ?s ''c'' \<noteq> [] then native_events ?s ''c''
       else if concat (texts_of ''c'' ex_since) = [] then []
       else [created_event (last ([(''id'', PStr ''r1'')] # announcements ''c'' ex_since)), delta_event (concat (texts_of ''c'' ex_since))])"
    by (rule replay_is_the_text_of_the_response) (rule refl)
  moreover have "native_events ?s ''c'' = []" by code_simp
  moreover have "concat (texts_of ''c'' ex_since) = ''Hello''" by code_simp
  moreover have "last ([(''id'', PStr ''r1'')] # announcements ''c'' ex_since) = [(''id'', PStr ''r1''), (''model'', PStr ''m'')]"
    by code_simp
  ultimately show ?thesis by simp
qed

end
