(* ===== verification/Pending_Elicitations.thy ===== *)
theory Pending_Elicitations
  imports Policy_Types
begin

text \<open>
  The index of unanswered elicitations, \<^verbatim>\<open>codify/runtime/pending_elicitations.py\<close>: recording from
  published events, resolution, counts, snapshots, lookup and the projection for peeks. The two
  module-level callbacks are flags (installed or not) and a log of what they were called with.
\<close>

section \<open>Definitions\<close>

type_synonym event = "(string, pyval) pydict"

datatype notice = Count string nat | Observed string event

record elicitations =
  pe_pending :: "(string, string, event) nested"
  pe_hook :: bool
  pe_observer :: bool
  pe_log :: "notice list"

definition notify_count_hook :: "string \<Rightarrow> nat \<Rightarrow> elicitations \<Rightarrow> elicitations" where
  "notify_count_hook conv n s = (if pe_hook s then s\<lparr>pe_log := pe_log s @ [Count conv n]\<rparr> else s)"

definition notify_observer :: "string \<Rightarrow> event \<Rightarrow> elicitations \<Rightarrow> elicitations" where
  "notify_observer conv ev s = (if pe_observer s then s\<lparr>pe_log := pe_log s @ [Observed conv ev]\<rparr> else s)"

definition resolve :: "string \<Rightarrow> string \<Rightarrow> elicitations \<Rightarrow> elicitations" where
  "resolve conv elicitation_id s =
     (case dget (pe_pending s) conv of
        None \<Rightarrow> s
      | Some ids \<Rightarrow>
          let removed = (dget ids elicitation_id \<noteq> None);
              ids' = ddel elicitation_id ids;
              s' = s\<lparr>pe_pending := nstore conv ids' (pe_pending s)\<rparr>
          in if removed then notify_count_hook conv (length ids') s' else s')"

fun usable_id :: "pyval option \<Rightarrow> string option" where
  \<comment> \<open>a non-empty string identifier\<close>
  "usable_id (Some (PStr i)) = (if i = [] then None else Some i)"
| "usable_id _ = None"

definition record_publish :: "string \<Rightarrow> event \<Rightarrow> elicitations \<Rightarrow> elicitations" where
  "record_publish conv ev s =
     (if dget ev ''type'' = Some (PStr ''response.elicitation_request'') then
        (case usable_id (dget ev ''elicitation_id'') of
           None \<Rightarrow> s
         | Some i \<Rightarrow>
             let s1 = s\<lparr>pe_pending := nput conv i ev (pe_pending s)\<rparr>;
                 n = length (nentries (pe_pending s1) conv)
             in notify_observer conv ev (notify_count_hook conv n s1))
      else if dget ev ''type'' = Some (PStr ''response.elicitation_resolved'') then
        (case usable_id (dget ev ''elicitation_id'') of
           None \<Rightarrow> s
         | Some i \<Rightarrow> notify_observer conv ev (resolve conv i s))
      else s)"

definition count_for :: "elicitations \<Rightarrow> string \<Rightarrow> nat" where
  "count_for s conv = (case dget (pe_pending s) conv of None \<Rightarrow> 0 | Some ids \<Rightarrow> length ids)"

definition counts_for :: "elicitations \<Rightarrow> string list \<Rightarrow> (string, nat) pydict" where
  "counts_for s convs =
     foldl (\<lambda>d conv. dset conv (case dget (pe_pending s) conv of None \<Rightarrow> 0 | Some ids \<Rightarrow> length ids) d) [] convs"

definition pending_session_ids :: "elicitations \<Rightarrow> string list" where
  "pending_session_ids s = dkeys (pe_pending s)"

definition snapshot_for :: "elicitations \<Rightarrow> string \<Rightarrow> event list" where
  "snapshot_for s conv = (case dget (pe_pending s) conv of None \<Rightarrow> [] | Some ids \<Rightarrow> map snd ids)"

definition get_or_none :: "event \<Rightarrow> string \<Rightarrow> pyval" where
  \<comment> \<open>\<open>d.get(key)\<close>\<close>
  "get_or_none d k = (case dget d k of None \<Rightarrow> PNone | Some v \<Rightarrow> v)"

definition project_for_peek :: "event \<Rightarrow> event" where
  "project_for_peek ev =
     (let params = (case get_or_none ev ''params'' of PDict p \<Rightarrow> p | _ \<Rightarrow> []);
          item = [(''type'', PStr ''pending_elicitation''), (''elicitation_id'', get_or_none ev ''elicitation_id''),
                  (''prompt'', get_or_none params ''message'')]
      in case get_or_none params ''requestedSchema'' of
           PDict schema \<Rightarrow>
             (case get_or_none schema ''properties'' of
                PDict properties \<Rightarrow>
                  if properties = [] then item else item @ [(''fields'', PList (map (PStr \<circ> fst) properties))]
              | _ \<Rightarrow> item)
         | _ \<Rightarrow> item)"

fun lookup_in :: "(string, string, event) nested \<Rightarrow> string \<Rightarrow> (string \<times> event) option" where
  "lookup_in [] i = None"
| "lookup_in ((conv, ids) # rest) i =
     (case dget ids i of Some ev \<Rightarrow> Some (conv, ev) | None \<Rightarrow> lookup_in rest i)"

definition lookup_elicitation :: "elicitations \<Rightarrow> string \<Rightarrow> (string \<times> event) option" where
  "lookup_elicitation s i = lookup_in (pe_pending s) i"

definition reset_for_tests :: "elicitations \<Rightarrow> elicitations" where
  "reset_for_tests s = s\<lparr>pe_pending := [], pe_observer := False\<rparr>"

section \<open>Histories\<close>

datatype elicitation_op =
    Publish string event
  | ResolveId string string
  | SetObserver bool

fun elicitation_step :: "elicitations \<Rightarrow> elicitation_op \<Rightarrow> elicitations" where
  "elicitation_step s (Publish conv ev) = record_publish conv ev s"
| "elicitation_step s (ResolveId conv i) = resolve conv i s"
| "elicitation_step s (SetObserver b) = s\<lparr>pe_observer := b\<rparr>"

fun last_count :: "string \<Rightarrow> notice list \<Rightarrow> nat \<Rightarrow> nat" where
  \<comment> \<open>the count last pushed for a conversation\<close>
  "last_count conv [] n = n"
| "last_count conv (Count c m # ns) n = last_count conv ns (if c = conv then m else n)"
| "last_count conv (Observed c ev # ns) n = last_count conv ns n"

definition hooked_inv :: "elicitations \<Rightarrow> bool" where
  "hooked_inv s \<longleftrightarrow> nested_ok (pe_pending s) \<and> pe_hook s \<and>
     (\<forall>conv. last_count conv (pe_log s) 0 = length (nentries (pe_pending s) conv))"

lemma last_count_append: "last_count conv (xs @ ys) n = last_count conv ys (last_count conv xs n)"
  by (induction conv xs n rule: last_count.induct) auto

lemma notify_fields [simp]:
  "pe_pending (notify_count_hook conv n s) = pe_pending s" "pe_hook (notify_count_hook conv n s) = pe_hook s"
  "pe_pending (notify_observer conv ev s) = pe_pending s" "pe_hook (notify_observer conv ev s) = pe_hook s"
  "last_count c (pe_log (notify_observer conv ev s)) 0 = last_count c (pe_log s) 0"
  by (simp_all add: notify_count_hook_def notify_observer_def last_count_append)

lemma last_count_notify:
  "pe_hook s \<Longrightarrow> last_count c (pe_log (notify_count_hook conv n s)) 0 = (if c = conv then n else last_count c (pe_log s) 0)"
  by (simp add: notify_count_hook_def last_count_append)

lemma hooked_resolve: "hooked_inv s \<Longrightarrow> hooked_inv (resolve conv i s)"
proof -
  assume inv: "hooked_inv s"
  show ?thesis
  proof (cases "dget (pe_pending s) conv")
    case None
    with inv show ?thesis by (simp add: resolve_def)
  next
    case (Some ids)
    have ok: "dict_ok ids" "nentries (pe_pending s) conv = ids"
      using inv Some nested_ok_entries [of "pe_pending s" conv] by (simp_all add: hooked_inv_def nentries_def)
    let ?s = "s\<lparr>pe_pending := nstore conv (ddel i ids) (pe_pending s)\<rparr>"
    show ?thesis
    proof (cases "dget ids i")
      case None
      then have "ddel i ids = ids" by (auto simp: ddel_filter filter_id_conv map_of_eq_None_iff)
      with inv Some None ok show ?thesis by (auto simp: resolve_def hooked_inv_def Let_def)
    next
      case (Some ev)
      have "hooked_inv (notify_count_hook conv (length (ddel i ids)) ?s)"
        using inv ok by (simp add: hooked_inv_def last_count_notify)
      with \<open>dget (pe_pending s) conv = Some ids\<close> Some show ?thesis by (simp add: resolve_def Let_def)
    qed
  qed
qed

lemma hooked_step: "hooked_inv s \<Longrightarrow> hooked_inv (elicitation_step s op)"
proof (cases op)
  case (Publish conv ev)
  assume inv: "hooked_inv s"
  have obs: "hooked_inv (notify_observer conv ev s')" if "hooked_inv s'" for s'
    using that by (simp add: hooked_inv_def)
  have "hooked_inv (notify_count_hook conv (length (nentries (nput conv i ev (pe_pending s)) conv))
      (s\<lparr>pe_pending := nput conv i ev (pe_pending s)\<rparr>))" for i
    using inv by (simp add: hooked_inv_def last_count_notify)
  with inv Publish obs hooked_resolve [OF inv] show ?thesis
    by (auto simp: record_publish_def Let_def split: option.split)
next
  case (ResolveId conv i)
  assume "hooked_inv s"
  with ResolveId show ?thesis by (simp add: hooked_resolve)
next
  case (SetObserver b)
  assume "hooked_inv s"
  with SetObserver show ?thesis by (simp add: hooked_inv_def)
qed

definition quiet :: "bool \<Rightarrow> elicitations" where
  "quiet hook = \<lparr>pe_pending = [], pe_hook = hook, pe_observer = False, pe_log = []\<rparr>"

interpretation hooked: op_machine elicitation_step hooked_inv "quiet True"
proof unfold_locales
  show "hooked_inv (quiet True)" by (simp add: quiet_def hooked_inv_def)
qed (rule hooked_step)

section \<open>The outstanding prompts\<close>

fun replay :: "(string \<Rightarrow> (string, event) pydict) \<Rightarrow> elicitation_op \<Rightarrow> string \<Rightarrow> (string, event) pydict" where
  \<comment> \<open>the specification: a request is added (or replaced) under its identifier, a resolution removes it\<close>
  "replay f (Publish conv ev) =
     (case usable_id (dget ev ''elicitation_id'') of
        None \<Rightarrow> f
      | Some i \<Rightarrow>
          if dget ev ''type'' = Some (PStr ''response.elicitation_request'') then f(conv := dset i ev (f conv))
          else if dget ev ''type'' = Some (PStr ''response.elicitation_resolved'') then f(conv := ddel i (f conv))
          else f)"
| "replay f (ResolveId conv i) = f(conv := ddel i (f conv))"
| "replay f (SetObserver b) = f"

definition outstanding :: "elicitations \<Rightarrow> string \<Rightarrow> (string, event) pydict" where
  "outstanding s = nentries (pe_pending s)"

definition index_ok :: "elicitations \<Rightarrow> bool" where
  "index_ok s \<longleftrightarrow> nested_ok (pe_pending s)"

lemma outstanding_resolve:
  assumes "index_ok s"
  shows "index_ok (resolve conv i s) \<and> outstanding (resolve conv i s) = (outstanding s)(conv := ddel i (outstanding s conv))"
proof (cases "dget (pe_pending s) conv")
  case None
  then have "nentries (pe_pending s) conv = []" by (simp add: nentries_def)
  with None assms show ?thesis by (auto simp: resolve_def outstanding_def fun_eq_iff)
next
  case (Some ids)
  have ids: "nentries (pe_pending s) conv = ids" "dict_ok ids"
    using Some assms nested_ok_entries [of "pe_pending s" conv] by (simp_all add: index_ok_def nentries_def)
  have "pe_pending (resolve conv i s) = nstore conv (ddel i ids) (pe_pending s)"
    using Some by (simp add: resolve_def Let_def)
  with ids assms show ?thesis by (auto simp: outstanding_def index_ok_def)
qed

lemma outstanding_step:
  assumes "index_ok s"
  shows "index_ok (elicitation_step s op) \<and> outstanding (elicitation_step s op) = replay (outstanding s) op"
proof (cases op)
  case (Publish conv ev)
  have obs: "outstanding (notify_observer c e s') = outstanding s'" "index_ok (notify_observer c e s') = index_ok s'"
    "outstanding (notify_count_hook c n s') = outstanding s'" "index_ok (notify_count_hook c n s') = index_ok s'" for c e n s'
    by (simp_all add: outstanding_def index_ok_def)
  have put: "index_ok (s\<lparr>pe_pending := nput conv i ev (pe_pending s)\<rparr>)"
    "outstanding (s\<lparr>pe_pending := nput conv i ev (pe_pending s)\<rparr>) = (outstanding s)(conv := dset i ev (outstanding s conv))" for i
    using assms by (auto simp: index_ok_def outstanding_def)
  show ?thesis
    using assms Publish obs put outstanding_resolve [OF assms]
    by (auto simp: record_publish_def Let_def split: option.split)
qed (use assms outstanding_resolve [OF assms] in \<open>auto simp: outstanding_def index_ok_def\<close>)

interpretation prompts: op_refinement elicitation_step index_ok "quiet hook" outstanding replay
  for hook
  by unfold_locales (use outstanding_step in \<open>auto simp: quiet_def index_ok_def\<close>)

lemma lookup_in_Some: "lookup_in d i = Some (c, ev) \<Longrightarrow> \<exists>ids. (c, ids) \<in> set d \<and> dget ids i = Some ev"
  by (induction d i rule: lookup_in.induct) (auto split: option.splits)

lemma lookup_in_None: "lookup_in d i = None \<longleftrightarrow> (\<forall>(c, ids) \<in> set d. dget ids i = None)"
  by (induction d i rule: lookup_in.induct) (auto split: option.splits)

lemma lookup_outstanding:
  assumes "index_ok s"
  shows "lookup_elicitation s i = Some (c, ev) \<Longrightarrow> dget (outstanding s c) i = Some ev"
    and "lookup_elicitation s i = None \<longleftrightarrow> (\<forall>c. dget (outstanding s c) i = None)"
proof -
  have ok: "dict_ok (pe_pending s)" using assms by (simp add: index_ok_def nested_ok_def)
  then have mem: "(c, ids) \<in> set (pe_pending s) \<longleftrightarrow> dget (pe_pending s) c = Some ids" for c ids
    by (simp add: dict_ok_def)
  show "dget (outstanding s c) i = Some ev" if "lookup_elicitation s i = Some (c, ev)"
    using lookup_in_Some [OF that [unfolded lookup_elicitation_def]] mem by (auto simp: outstanding_def nentries_def)
  show "lookup_elicitation s i = None \<longleftrightarrow> (\<forall>c. dget (outstanding s c) i = None)"
    unfolding lookup_elicitation_def lookup_in_None outstanding_def nentries_def
    by (force simp: mem split: option.split)
qed

section \<open>Properties\<close>

text \<open>
  the badge never drifts: with the count hook installed, after every history of published
  events and direct resolutions (repeats, unknown identifiers and malformed events included) the
  count last pushed for a conversation is its current count, zero when none was ever pushed.
\<close>

theorem pushed_count_is_current:
  assumes "s = foldl elicitation_step (quiet True) ops"
  shows "last_count conv (pe_log s) 0 = count_for s conv"
proof -
  have "hooked_inv s" unfolding assms by (rule hooked.inv_run)
  then show ?thesis by (simp add: hooked_inv_def count_for_def nentries_def split: option.splits)
qed

theorem pushed_count_is_current_witness:
  "last_count ''c'' (pe_log (foldl elicitation_step (quiet True)
     [Publish ''c'' [(''type'', PStr ''response.elicitation_request''), (''elicitation_id'', PStr ''e'')],
      Publish ''c'' [(''type'', PStr ''response.elicitation_request''), (''elicitation_id'', PStr ''f'')],
      ResolveId ''c'' ''e'', ResolveId ''c'' ''e'']))  0 = 1"
  by (subst pushed_count_is_current [OF refl])
    (simp add: quiet_def record_publish_def notify_count_hook_def notify_observer_def resolve_def nput_def nstore_def
      nentries_def count_for_def Let_def)

text \<open>
  the index holds exactly the requested and not yet resolved prompts, per conversation and in
  order of their first request; snapshots, counts and the list of waiting sessions read that, and a
  lookup by identifier finds a prompt if and only if one is outstanding somewhere.
\<close>

theorem index_holds_outstanding_prompts:
  assumes "s = foldl elicitation_step (quiet hook) ops" and "f = foldl replay (\<lambda>c. []) ops"
  shows "snapshot_for s conv = map snd (f conv) \<and> count_for s conv = length (f conv) \<and>
    (conv \<in> set (pending_session_ids s) \<longleftrightarrow> f conv \<noteq> []) \<and>
    (lookup_elicitation s i = None \<longleftrightarrow> (\<forall>c. dget (f c) i = None)) \<and>
    (\<forall>c ev. lookup_elicitation s i = Some (c, ev) \<longrightarrow> dget (f c) i = Some ev)"
proof -
  have ok: "index_ok s" unfolding assms(1) by (rule prompts.inv_run)
  have "outstanding (quiet hook) = (\<lambda>c. [])" by (simp add: outstanding_def quiet_def fun_eq_iff)
  with prompts.sim_run [of hook ops] have f: "outstanding s = f" by (simp add: assms)
  have "dget (pe_pending s) conv = (if f conv = [] then None else Some (f conv))"
    using nested_ok_dget [of "pe_pending s" conv] ok f by (auto simp: index_ok_def outstanding_def)
  moreover have "conv \<in> set (pending_session_ids s) \<longleftrightarrow> dget (pe_pending s) conv \<noteq> None"
    by (simp add: pending_session_ids_def map_of_eq_None_iff)
  ultimately show ?thesis
    using lookup_outstanding [OF ok, of i] unfolding f by (auto simp: snapshot_for_def count_for_def)
qed

theorem index_holds_outstanding_prompts_witness:
  "count_for (foldl elicitation_step (quiet False)
     [Publish ''c'' [(''type'', PStr ''response.elicitation_request''), (''elicitation_id'', PStr ''e'')]]) ''c'' = 1"
  using index_holds_outstanding_prompts [OF refl refl, of False
      "[Publish ''c'' [(''type'', PStr ''response.elicitation_request''), (''elicitation_id'', PStr ''e'')]]" "''c''" "''e''"]
  by simp

end
