(* ===== verification/Session_Stream.thy ===== *)
theory Session_Stream
  imports Inflight_Text Pending_Elicitations "HOL-Library.Sublist"
begin

text \<open>
  The live event stream of a conversation, \<^verbatim>\<open>codify/runtime/session_stream.py\<close>: publishing
  updates the index of the text in flight and the index of unanswered prompts and fans the event out to
  the subscribers; a subscriber owns a bounded queue and is replayed the text in flight when it
  connects. Publishing only posts callbacks to the event loop, the callbacks fill the queues, and the
  subscribers take from them: three kinds of steps that interleave freely.
\<close>

section \<open>Definitions\<close>

definition max_queued :: nat where "max_queued = 1024"

datatype item = Ev event | Done | Overflow

datatype yielded = Sent event | Heartbeat

datatype sub_phase =
    Replaying    \<comment> \<open>the events read at the connection are yielded\<close>
  | Hooking      \<comment> \<open>\<open>on_subscribed\<close> is awaited\<close>
  | Live
  | Finished     \<comment> \<open>the stream was closed\<close>
  | Overflowed   \<comment> \<open>\<open>SubscriberOverflowError\<close>\<close>
  | Left         \<comment> \<open>the client went away\<close>

record subscriber =
  sb_conv :: string
  sb_queue :: "item list"
  sb_ready :: "event list"
  sb_hook :: bool
  sb_beats :: bool
  sb_phase :: sub_phase
  sb_yielded :: "yielded list"

record stream =
  st_text :: inflight
  st_prompts :: elicitations
  st_registry :: "(string, nat list) pydict"
  st_callbacks :: "(nat \<times> item) list"
  st_subs :: "(nat, subscriber) pydict"

definition subscribers_of :: "stream \<Rightarrow> string \<Rightarrow> nat list" where
  "subscribers_of st conv = (case dget (st_registry st) conv of None \<Rightarrow> [] | Some ks \<Rightarrow> ks)"

definition enqueue_or_overflow :: "item list \<Rightarrow> item \<Rightarrow> item list" where
  "enqueue_or_overflow q x = (if length q < max_queued then q @ [x] else [Overflow])"

definition update_indexes :: "(string \<Rightarrow> string) \<Rightarrow> real \<Rightarrow> string \<Rightarrow> event \<Rightarrow> stream \<Rightarrow> bool \<times> stream" where
  \<comment> \<open>the first half of \<open>publish\<close>\<close>
  "update_indexes fp now conv ev st =
     (let r = record_text fp now conv ev (st_text st)
      in (fst r, st\<lparr>st_text := snd r, st_prompts := record_publish conv ev (st_prompts st)\<rparr>))"

definition fan_out :: "string \<Rightarrow> item \<Rightarrow> stream \<Rightarrow> stream" where
  "fan_out conv x st = st\<lparr>st_callbacks := st_callbacks st @ map (\<lambda>k. (k, x)) (subscribers_of st conv)\<rparr>"

definition publish :: "(string \<Rightarrow> string) \<Rightarrow> real \<Rightarrow> string \<Rightarrow> event \<Rightarrow> stream \<Rightarrow> stream" where
  "publish fp now conv ev st =
     (let r = update_indexes fp now conv ev st in if fst r then snd r else fan_out conv (Ev ev) (snd r))"

definition close_stream :: "string \<Rightarrow> stream \<Rightarrow> stream" where
  "close_stream conv st = fan_out conv Done st"

definition update_sub :: "nat \<Rightarrow> (subscriber \<Rightarrow> subscriber) \<Rightarrow> stream \<Rightarrow> stream" where
  "update_sub k f st = (case dget (st_subs st) k of None \<Rightarrow> st | Some s \<Rightarrow> st\<lparr>st_subs := dset k (f s) (st_subs st)\<rparr>)"

definition enqueue :: "item \<Rightarrow> subscriber \<Rightarrow> subscriber" where
  "enqueue x s = s\<lparr>sb_queue := enqueue_or_overflow (sb_queue s) x\<rparr>"

definition shutdown_all :: "stream \<Rightarrow> stream" where
  "shutdown_all st = foldl (\<lambda>st k. update_sub k (enqueue Done) st) st (concat (map snd (st_registry st)))"

definition subscribe :: "nat \<Rightarrow> string \<Rightarrow> event option \<Rightarrow> bool \<Rightarrow> bool \<Rightarrow> stream \<Rightarrow> stream" where
  \<comment> \<open>up to the first \<open>yield\<close>: the slot is registered and the text in flight is read\<close>
  "subscribe k conv ready_event hook beats st =
     st\<lparr>st_registry := dset conv (subscribers_of st conv @ [k]) (st_registry st),
        st_subs := dset k
          \<lparr>sb_conv = conv, sb_queue = [],
           sb_ready = (case ready_event of None \<Rightarrow> [] | Some e \<Rightarrow> [e]) @ snapshot_text (st_text st) conv,
           sb_hook = hook, sb_beats = beats, sb_phase = Replaying, sb_yielded = []\<rparr> (st_subs st)\<rparr>"

definition unregister :: "nat \<Rightarrow> string \<Rightarrow> stream \<Rightarrow> stream" where
  "unregister k conv st =
     (case dget (st_registry st) conv of
        None \<Rightarrow> st
      | Some ks \<Rightarrow>
          let left = filter (\<lambda>j. j \<noteq> k) ks
          in st\<lparr>st_registry := (if left = [] then ddel conv (st_registry st) else dset conv left (st_registry st))\<rparr>)"

definition yield_event :: "event \<Rightarrow> subscriber \<Rightarrow> subscriber" where
  "yield_event e s = s\<lparr>sb_yielded := sb_yielded s @ [Sent e]\<rparr>"

definition end_with :: "sub_phase \<Rightarrow> nat \<Rightarrow> subscriber \<Rightarrow> stream \<Rightarrow> stream" where
  \<comment> \<open>the generator returns, raises or is cancelled; its \<open>finally\<close> block frees the slot, the queue is
      garbage from then on\<close>
  "end_with ph k s st = unregister k (sb_conv s) (update_sub k (\<lambda>s. s\<lparr>sb_phase := ph\<rparr>) st)"

definition take_item :: "nat \<Rightarrow> subscriber \<Rightarrow> stream \<Rightarrow> stream" where
  "take_item k s st =
     (case sb_queue s of
        [] \<Rightarrow> if sb_beats s then update_sub k (\<lambda>s. s\<lparr>sb_yielded := sb_yielded s @ [Heartbeat]\<rparr>) st else st
      | Ev e # q \<Rightarrow> update_sub k (\<lambda>s. (yield_event e s)\<lparr>sb_queue := q\<rparr>) st
      | Done # q \<Rightarrow> end_with Finished k s st
      | Overflow # q \<Rightarrow> end_with Overflowed k s st)"

definition resume :: "nat \<Rightarrow> stream \<Rightarrow> stream" where
  \<comment> \<open>the subscriber runs on to its next \<open>yield\<close> or \<open>await\<close>\<close>
  "resume k st =
     (case dget (st_subs st) k of
        None \<Rightarrow> st
      | Some s \<Rightarrow>
          (case sb_phase s of
             Replaying \<Rightarrow>
               (case sb_ready s of
                  e # es \<Rightarrow> update_sub k (\<lambda>s. (yield_event e s)\<lparr>sb_ready := es\<rparr>) st
                | [] \<Rightarrow> update_sub k (\<lambda>s. s\<lparr>sb_phase := if sb_hook s then Hooking else Live\<rparr>) st)
           | Live \<Rightarrow>
               (case sb_ready s of
                  e # es \<Rightarrow> update_sub k (\<lambda>s. (yield_event e s)\<lparr>sb_ready := es\<rparr>) st
                | [] \<Rightarrow> take_item k s st)
           | _ \<Rightarrow> st))"

definition hook_returns :: "nat \<Rightarrow> event list \<Rightarrow> stream \<Rightarrow> stream" where
  \<comment> \<open>the events of \<open>on_subscribed\<close>, none when it failed\<close>
  "hook_returns k evs st =
     (case dget (st_subs st) k of
        None \<Rightarrow> st
      | Some s \<Rightarrow> if sb_phase s = Hooking then update_sub k (\<lambda>s. s\<lparr>sb_phase := Live, sb_ready := evs\<rparr>) st else st)"

definition running :: "sub_phase \<Rightarrow> bool" where
  "running ph \<longleftrightarrow> ph \<in> {Replaying, Hooking, Live}"

definition leave :: "nat \<Rightarrow> stream \<Rightarrow> stream" where
  "leave k st =
     (case dget (st_subs st) k of
        None \<Rightarrow> st
      | Some s \<Rightarrow> if running (sb_phase s) then end_with Left k s st else st)"

fun take_callback :: "nat \<Rightarrow> (nat \<times> item) list \<Rightarrow> (item \<times> (nat \<times> item) list) option" where
  \<comment> \<open>the first callback for a subscriber\<close>
  "take_callback k [] = None"
| "take_callback k ((j, x) # cs) = (if j = k then Some (x, cs) else map_option (\<lambda>(y, ds). (y, (j, x) # ds)) (take_callback k cs))"

definition run_callback :: "nat \<Rightarrow> stream \<Rightarrow> stream" where
  "run_callback k st =
     (case take_callback k (st_callbacks st) of
        None \<Rightarrow> st
      | Some (x, cs) \<Rightarrow> update_sub k (enqueue x) (st\<lparr>st_callbacks := cs\<rparr>))"

datatype stream_op =
    Post real string event
  | DiscardText string
  | ClearText string
  | Close string
  | ShutdownAll
  | Subscribe nat string "event option" bool bool
  | Advance nat
  | HookReturns nat "event list"
  | Leave nat
  | RunCallback nat

fun hub_step :: "(string \<Rightarrow> string) \<Rightarrow> stream \<Rightarrow> stream_op \<Rightarrow> stream" where
  "hub_step fp st (Post now conv ev) = publish fp now conv ev st"
| "hub_step fp st (DiscardText conv) = st\<lparr>st_text := discard conv (st_text st)\<rparr>"
| "hub_step fp st (ClearText conv) = st\<lparr>st_text := reset_text conv (st_text st)\<rparr>"
| "hub_step fp st (Close conv) = close_stream conv st"
| "hub_step fp st ShutdownAll = shutdown_all st"
| "hub_step fp st (Subscribe k conv ready_event hook beats) =
     (if dget (st_subs st) k = None then subscribe k conv ready_event hook beats st else st)"
| "hub_step fp st (Advance k) = resume k st"
| "hub_step fp st (HookReturns k evs) = hook_returns k evs st"
| "hub_step fp st (Leave k) = leave k st"
| "hub_step fp st (RunCallback k) = run_callback k st"

section \<open>What a subscriber sees\<close>

definition sent_events :: "yielded list \<Rightarrow> event list" where
  "sent_events ys = List.map_filter (\<lambda>y. case y of Sent e \<Rightarrow> Some e | Heartbeat \<Rightarrow> None) ys"

definition queued_events :: "item list \<Rightarrow> event list" where
  "queued_events q = List.map_filter (\<lambda>x. case x of Ev e \<Rightarrow> Some e | _ \<Rightarrow> None) q"

definition callbacks_for :: "nat \<Rightarrow> stream \<Rightarrow> item list" where
  "callbacks_for k st = map snd (filter (\<lambda>c. fst c = k) (st_callbacks st))"

definition sent_to :: "nat \<Rightarrow> stream \<Rightarrow> event list" where
  "sent_to k st = (case dget (st_subs st) k of None \<Rightarrow> [] | Some s \<Rightarrow> sent_events (sb_yielded s))"

definition posted :: "(string \<Rightarrow> string) \<Rightarrow> string \<Rightarrow> stream \<Rightarrow> stream_op \<Rightarrow> event list" where
  \<comment> \<open>the event published on a conversation in this step, unless it is withheld\<close>
  "posted fp conv st op =
     (case op of
        Post now c ev \<Rightarrow> if c = conv \<and> \<not> fst (record_text fp now c ev (st_text st)) then [ev] else []
      | _ \<Rightarrow> [])"

definition hooked :: "nat \<Rightarrow> stream \<Rightarrow> stream_op \<Rightarrow> event list" where
  \<comment> \<open>the events the subscriber's hook returns in this step\<close>
  "hooked k st op =
     (case op of
        HookReturns j evs \<Rightarrow> if j = k \<and> map_option sb_phase (dget (st_subs st) k) = Some Hooking then evs else []
      | _ \<Rightarrow> [])"

fun broadcast :: "(string \<Rightarrow> string) \<Rightarrow> string \<Rightarrow> stream \<Rightarrow> stream_op list \<Rightarrow> event list" where
  "broadcast fp conv st [] = []"
| "broadcast fp conv st (op # ops) = posted fp conv st op @ broadcast fp conv (hub_step fp st op) ops"

fun hook_events :: "(string \<Rightarrow> string) \<Rightarrow> nat \<Rightarrow> stream \<Rightarrow> stream_op list \<Rightarrow> event list" where
  "hook_events fp k st [] = []"
| "hook_events fp k st (op # ops) = hooked k st op @ hook_events fp k (hub_step fp st op) ops"

definition subscribed :: "stream \<Rightarrow> bool" where
  \<comment> \<open>a slot is registered exactly while its subscriber runs, once, under its conversation\<close>
  "subscribed st \<longleftrightarrow>
     (\<forall>conv k. count_list (subscribers_of st conv) k =
        (case dget (st_subs st) k of None \<Rightarrow> 0 | Some s \<Rightarrow> if sb_conv s = conv \<and> running (sb_phase s) then 1 else 0))"

lemma sent_events_simps [simp]:
  "sent_events [] = []" "sent_events (Sent e # ys) = e # sent_events ys" "sent_events (Heartbeat # ys) = sent_events ys"
  "sent_events (ys @ zs) = sent_events ys @ sent_events zs"
  by (simp_all add: sent_events_def List.map_filter_def)

lemma queued_events_simps [simp]:
  "queued_events [] = []" "queued_events (Ev e # q) = e # queued_events q" "queued_events (Done # q) = queued_events q"
  "queued_events (Overflow # q) = queued_events q" "queued_events (q @ q') = queued_events q @ queued_events q'"
  by (simp_all add: queued_events_def List.map_filter_def)

lemma update_sub_frame [simp]:
  "st_text (update_sub k f st) = st_text st" "st_prompts (update_sub k f st) = st_prompts st"
  "st_registry (update_sub k f st) = st_registry st" "st_callbacks (update_sub k f st) = st_callbacks st"
  "dget (st_subs (update_sub k f st)) j = (if j = k then map_option f (dget (st_subs st) k) else dget (st_subs st) j)"
  by (simp_all add: update_sub_def split: option.split)

lemma unregister_frame [simp]:
  "st_text (unregister k conv st) = st_text st" "st_prompts (unregister k conv st) = st_prompts st"
  "st_subs (unregister k conv st) = st_subs st" "st_callbacks (unregister k conv st) = st_callbacks st"
  by (simp_all add: unregister_def Let_def split: option.split)

lemma subscribers_of_unregister [simp]:
  "subscribers_of (unregister k conv st) c = (if c = conv then filter (\<lambda>j. j \<noteq> k) (subscribers_of st c) else subscribers_of st c)"
  by (auto simp: unregister_def subscribers_of_def Let_def split: option.split)

lemma subscribers_of_frame [simp]:
  "subscribers_of (update_sub k f st) c = subscribers_of st c"
  "subscribers_of (st\<lparr>st_callbacks := cs\<rparr>) c = subscribers_of st c"
  "subscribers_of (st\<lparr>st_text := t\<rparr>) c = subscribers_of st c"
  "subscribers_of (st\<lparr>st_text := t, st_prompts := p\<rparr>) c = subscribers_of st c"
  by (simp_all add: subscribers_of_def)

definition sub_sees :: "event list \<Rightarrow> event list \<Rightarrow> event list \<Rightarrow> item list \<Rightarrow> subscriber \<Rightarrow> bool" where
  \<comment> \<open>\<open>R\<close> is read at the connection, \<open>hs\<close> comes from the hook, \<open>bs\<close> is broadcast since, \<open>cs\<close> are the
      callbacks still to run\<close>
  "sub_sees R hs bs cs s \<longleftrightarrow>
     (Overflow \<in> set (sb_queue s) \<longrightarrow> hd (sb_queue s) = Overflow)
     \<and> (case sb_phase s of
          Replaying \<Rightarrow> hs = [] \<and> sent_events (sb_yielded s) @ sb_ready s = R
            \<and> (Overflow \<in> set (sb_queue s) \<or> queued_events (sb_queue s @ cs) = bs)
        | Hooking \<Rightarrow> hs = [] \<and> sb_ready s = [] \<and> sent_events (sb_yielded s) = R
            \<and> (Overflow \<in> set (sb_queue s) \<or> queued_events (sb_queue s @ cs) = bs)
        | Live \<Rightarrow> prefix (sent_events (sb_yielded s) @ sb_ready s) (R @ hs @ bs)
            \<and> (Overflow \<in> set (sb_queue s)
               \<or> sent_events (sb_yielded s) @ sb_ready s @ queued_events (sb_queue s @ cs) = R @ hs @ bs)
        | _ \<Rightarrow> prefix (sent_events (sb_yielded s)) (R @ hs @ bs))"

definition sees :: "nat \<Rightarrow> string \<Rightarrow> event list \<Rightarrow> event list \<Rightarrow> event list \<Rightarrow> stream \<Rightarrow> bool" where
  "sees k conv R hs bs st \<longleftrightarrow> (\<exists>s. dget (st_subs st) k = Some s \<and> sb_conv s = conv \<and> sub_sees R hs bs (callbacks_for k st) s)"

definition stream_ok :: "stream \<Rightarrow> bool" where
  "stream_ok st \<longleftrightarrow> subscribed st \<and> Overflow \<notin> snd ` set (st_callbacks st)
     \<and> (\<forall>j \<in> fst ` set (st_callbacks st). dget (st_subs st) j \<noteq> None)
     \<and> (\<forall>k s. dget (st_subs st) k = Some s \<longrightarrow> length (sb_queue s) \<le> max_queued)"

lemma length_enqueue: "length (enqueue_or_overflow q x) \<le> max_queued"
  by (simp add: enqueue_or_overflow_def max_queued_def)

lemma sub_sees_enqueue:
  assumes "sub_sees R hs bs (x # cs) s" and "x \<noteq> Overflow"
  shows "sub_sees R hs bs cs (enqueue x s)"
proof (cases "length (sb_queue s) < max_queued")
  case True
  then show ?thesis using assms
    by (cases "sb_queue s"; cases "sb_phase s") (auto simp: sub_sees_def enqueue_def enqueue_or_overflow_def)
next
  case False
  then show ?thesis using assms by (auto simp: sub_sees_def enqueue_def enqueue_or_overflow_def split: sub_phase.splits)
qed

lemma sub_sees_Done: "sub_sees R hs bs (cs @ [Done]) s = sub_sees R hs bs cs s" "sub_sees R hs bs (Done # cs) s = sub_sees R hs bs cs s"
  by (cases "sb_phase s"; simp add: sub_sees_def)+

lemma sub_sees_post:
  assumes "sub_sees R hs bs cs s"
  shows "sub_sees R hs (bs @ [e]) (if running (sb_phase s) then cs @ [Ev e] else cs) s"
proof -
  have longer: "prefix p (R @ hs @ bs @ [e])" if "prefix p (R @ hs @ bs)" for p
    using prefix_prefix [OF that, of "[e]"] by simp
  have equal: "p @ [e] = R @ hs @ bs @ [e]" if "p = R @ hs @ bs" for p using that by simp
  show ?thesis
    using assms longer equal [of "sent_events (sb_yielded s) @ sb_ready s @ queued_events (sb_queue s @ cs)"]
    by (cases "sb_phase s") (auto simp: sub_sees_def running_def)
qed

lemma sub_sees_prefix:
  assumes "sub_sees R hs bs cs s"
  shows "prefix (sent_events (sb_yielded s)) (R @ hs @ bs)"
proof (cases "sb_phase s")
  case Replaying
  then have "prefix (sent_events (sb_yielded s)) R" using assms by (auto simp: sub_sees_def)
  then show ?thesis by (rule prefix_prefix)
next
  case Hooking
  then have "prefix (sent_events (sb_yielded s)) R" using assms by (auto simp: sub_sees_def)
  then show ?thesis by (rule prefix_prefix)
next
  case Live
  then have "prefix (sent_events (sb_yielded s) @ sb_ready s) (R @ hs @ bs)" using assms by (auto simp: sub_sees_def)
  then show ?thesis by (rule append_prefixD)
qed (use assms in \<open>auto simp: sub_sees_def\<close>)

lemma sub_sees_replay:
  assumes "sub_sees R hs bs cs s" and "sb_ready s = e # es" and "sb_phase s = Replaying \<or> sb_phase s = Live"
  shows "sub_sees R hs bs cs ((yield_event e s)\<lparr>sb_ready := es\<rparr>)"
  using assms by (auto simp: sub_sees_def yield_event_def)

lemma sub_sees_go_on:
  assumes "sub_sees R hs bs cs s" and "sb_ready s = []" and "sb_phase s = Replaying"
  shows "sub_sees R hs bs cs (s\<lparr>sb_phase := if sb_hook s then Hooking else Live\<rparr>)"
  using assms by (auto simp: sub_sees_def)

lemma sub_sees_hook:
  assumes "sub_sees R hs bs cs s" and "sb_phase s = Hooking"
  shows "sub_sees R (hs @ evs) bs cs (s\<lparr>sb_phase := Live, sb_ready := evs\<rparr>)"
  using assms by (auto simp: sub_sees_def)

lemma sub_sees_event:
  assumes "sub_sees R hs bs cs s" and "sb_phase s = Live" and "sb_ready s = []" and "sb_queue s = Ev e # q"
  shows "sub_sees R hs bs cs ((yield_event e s)\<lparr>sb_queue := q\<rparr>)"
  using assms by (auto simp: sub_sees_def yield_event_def prefix_def)

lemma sub_sees_end:
  assumes "sub_sees R hs bs cs s" and "sb_phase s = Live \<or> running (sb_phase s) \<and> ph = Left" and "\<not> running ph"
  shows "sub_sees R hs bs cs (s\<lparr>sb_phase := ph\<rparr>)"
proof -
  have "prefix (sent_events (sb_yielded s)) (R @ hs @ bs)"
    using assms by (auto simp: sub_sees_def running_def prefix_def split: sub_phase.splits)
  then show ?thesis using assms(1,3) by (auto simp: sub_sees_def running_def split: sub_phase.splits)
qed


section \<open>Every step keeps the view of a subscriber\<close>

lemma callbacks_for_fan_out:
  "callbacks_for k (fan_out conv x st) = callbacks_for k st @ replicate (count_list (subscribers_of st conv) k) x"
proof -
  have "map snd (filter (\<lambda>c. fst c = k) (map (\<lambda>j. (j, x)) ks)) = replicate (count_list ks k) x" for ks
    by (induction ks) auto
  then show ?thesis by (simp add: callbacks_for_def fan_out_def)
qed

lemma callbacks_for_frame [simp]:
  "callbacks_for k (update_sub j f st) = callbacks_for k st"
  "callbacks_for k (unregister j conv st) = callbacks_for k st"
  "callbacks_for k (st\<lparr>st_text := t\<rparr>) = callbacks_for k st"
  "callbacks_for k (st\<lparr>st_text := t, st_prompts := p\<rparr>) = callbacks_for k st"
  by (simp_all add: callbacks_for_def)

lemma fan_out_frame [simp]:
  "st_subs (fan_out conv x st) = st_subs st" "subscribers_of (fan_out conv x st) c = subscribers_of st c"
  "st_text (fan_out conv x st) = st_text st"
  by (simp_all add: fan_out_def)

lemma update_indexes_simps [simp]:
  "fst (update_indexes fp now conv ev st) = fst (record_text fp now conv ev (st_text st))"
  "st_text (snd (update_indexes fp now conv ev st)) = snd (record_text fp now conv ev (st_text st))"
  "st_subs (snd (update_indexes fp now conv ev st)) = st_subs st"
  "st_callbacks (snd (update_indexes fp now conv ev st)) = st_callbacks st"
  "subscribers_of (snd (update_indexes fp now conv ev st)) c = subscribers_of st c"
  "callbacks_for k (snd (update_indexes fp now conv ev st)) = callbacks_for k st"
  by (simp_all add: update_indexes_def Let_def)

lemma take_callback_spec:
  "take_callback k cbs = Some (x, cs) \<Longrightarrow>
     map snd (filter (\<lambda>c. fst c = k) cbs) = x # map snd (filter (\<lambda>c. fst c = k) cs)
     \<and> (\<forall>j. j \<noteq> k \<longrightarrow> filter (\<lambda>c. fst c = j) cs = filter (\<lambda>c. fst c = j) cbs) \<and> set cs \<subseteq> set cbs \<and> (k, x) \<in> set cbs"
  by (induction k cbs arbitrary: cs rule: take_callback.induct) (auto split: if_splits)

lemma registered_subs:
  assumes "subscribed st" and "st_registry st' = st_registry st"
    and "\<And>k. map_option (\<lambda>s. (sb_conv s, running (sb_phase s))) (dget (st_subs st') k)
           = map_option (\<lambda>s. (sb_conv s, running (sb_phase s))) (dget (st_subs st) k)"
  shows "subscribed st'"
  unfolding subscribed_def
proof (intro allI)
  fix conv k
  have "count_list (subscribers_of st' conv) k = count_list (subscribers_of st conv) k"
    using assms(2) by (simp add: subscribers_of_def)
  also have "\<dots> = (case dget (st_subs st) k of None \<Rightarrow> 0 | Some s \<Rightarrow> if sb_conv s = conv \<and> running (sb_phase s) then 1 else 0)"
    using assms(1) by (simp add: subscribed_def)
  also have "\<dots> = (case dget (st_subs st') k of None \<Rightarrow> 0 | Some s \<Rightarrow> if sb_conv s = conv \<and> running (sb_phase s) then 1 else 0)"
    using assms(3) [of k] by (auto split: option.splits)
  finally show "count_list (subscribers_of st' conv) k =
      (case dget (st_subs st') k of None \<Rightarrow> 0 | Some s \<Rightarrow> if sb_conv s = conv \<and> running (sb_phase s) then 1 else 0)" .
qed

lemma stream_ok_update:
  assumes "stream_ok st" and "dget (st_subs st) k = Some s"
    and "sb_conv (f s) = sb_conv s" "running (sb_phase (f s)) = running (sb_phase s)" "length (sb_queue (f s)) \<le> max_queued"
  shows "stream_ok (update_sub k f st)"
proof -
  have "subscribed (update_sub k f st)"
    by (rule registered_subs [of st]) (use assms in \<open>auto simp: stream_ok_def\<close>)
  then show ?thesis using assms by (auto simp: stream_ok_def split: if_splits)
qed

lemma stream_ok_end:
  assumes "stream_ok st" and "dget (st_subs st) k = Some s" and "running (sb_phase s)" and "\<not> running ph"
  shows "stream_ok (unregister k (sb_conv s) (update_sub k (\<lambda>s. s\<lparr>sb_phase := ph\<rparr>) st))"
proof -
  have count: "count_list (subscribers_of st conv) j = (case dget (st_subs st) j of None \<Rightarrow> 0
      | Some s \<Rightarrow> if sb_conv s = conv \<and> running (sb_phase s) then 1 else 0)" for conv j
    using assms(1) by (simp add: stream_ok_def subscribed_def)
  have filter_count: "count_list (filter (\<lambda>i. i \<noteq> k) ks) j = (if j = k then 0 else count_list ks j)" for ks :: "nat list" and j
    by (induction ks) auto
  have "subscribed (unregister k (sb_conv s) (update_sub k (\<lambda>s. s\<lparr>sb_phase := ph\<rparr>) st))"
    unfolding subscribed_def using count assms(2-4) by (auto simp: filter_count split: option.splits)
  then show ?thesis using assms(1,2) by (auto simp: stream_ok_def split: if_splits)
qed


lemma seesI: "dget (st_subs st) k = Some s \<Longrightarrow> sb_conv s = conv \<Longrightarrow> sub_sees R hs bs (callbacks_for k st) s \<Longrightarrow> sees k conv R hs bs st"
  by (simp add: sees_def)

lemma sees_update_other: "j \<noteq> k \<Longrightarrow> sees k conv R hs bs (update_sub j f st) = sees k conv R hs bs st"
  by (simp add: sees_def)

lemma sees_update:
  assumes "sees k conv R hs bs st" and "dget (st_subs st) k = Some s" and "sb_conv (f s) = sb_conv s"
    and "sub_sees R hs bs (callbacks_for k st) s \<Longrightarrow> sub_sees R hs' bs (callbacks_for k st) (f s)"
  shows "sees k conv R hs' bs (update_sub k f st)"
  using assms by (auto simp: sees_def)

lemma sees_unregister [simp]: "sees k conv R hs bs (unregister j c st) = sees k conv R hs bs st"
  by (simp add: sees_def)

lemma fan_out_ok:
  assumes ok: "stream_ok st" and "x \<noteq> Overflow"
  shows "stream_ok (fan_out conv x st)"
proof -
  have "dget (st_subs st) j \<noteq> None" if "j \<in> set (subscribers_of st conv)" for j
  proof
    assume "dget (st_subs st) j = None"
    then have "count_list (subscribers_of st conv) j = 0" using ok by (simp add: stream_ok_def subscribed_def)
    then show False using that by (simp add: count_list_0_iff)
  qed
  then show ?thesis using assms unfolding stream_ok_def subscribed_def by (auto simp: fan_out_def)
qed

lemma update_indexes_ok: "stream_ok st \<Longrightarrow> stream_ok (snd (update_indexes fp now conv ev st))"
  unfolding stream_ok_def subscribed_def by simp

lemma registered_count:
  "stream_ok st \<Longrightarrow> dget (st_subs st) k = Some s \<Longrightarrow>
     count_list (subscribers_of st conv) k = (if sb_conv s = conv \<and> running (sb_phase s) then 1 else 0)"
  by (simp add: stream_ok_def subscribed_def)

lemma update_sub_ok:
  assumes "stream_ok st" and "\<And>s. sb_conv (f s) = sb_conv s \<and> running (sb_phase (f s)) = running (sb_phase s)
      \<and> length (sb_queue (f s)) \<le> max max_queued (length (sb_queue s))"
  shows "stream_ok (update_sub k f st)"
proof (cases "dget (st_subs st) k")
  case None
  then show ?thesis using assms(1) by (simp add: update_sub_def)
next
  case (Some s)
  moreover have "length (sb_queue s) \<le> max_queued" using assms(1) Some by (simp add: stream_ok_def)
  ultimately show ?thesis using assms(2) [of s] by (intro stream_ok_update [OF assms(1) Some]) simp_all
qed

lemma publish_ok: "stream_ok st \<Longrightarrow> stream_ok (publish fp now c ev st)"
  by (simp add: publish_def Let_def update_indexes_ok fan_out_ok)

lemma enqueue_ok: "stream_ok st \<Longrightarrow> stream_ok (update_sub k (enqueue x) st)"
  by (rule update_sub_ok) (simp_all add: enqueue_def enqueue_or_overflow_def max_queued_def)

lemma shutdown_ok: "stream_ok st \<Longrightarrow> stream_ok (shutdown_all st)"
proof -
  assume ok: "stream_ok st"
  have "stream_ok (foldl (\<lambda>st j. update_sub j (enqueue Done) st) st js)" for js
    using ok by (induction js arbitrary: st) (simp_all add: enqueue_ok)
  then show ?thesis by (simp add: shutdown_all_def)
qed

lemma callback_ok:
  assumes ok: "stream_ok st"
  shows "stream_ok (run_callback j st)"
proof (cases "take_callback j (st_callbacks st)")
  case (Some p)
  obtain x cs where p: "p = (x, cs)" by (cases p)
  have sub: "set cs \<subseteq> set (st_callbacks st)" using take_callback_spec [OF Some [unfolded p]] by simp
  have "subscribed (st\<lparr>st_callbacks := cs\<rparr>)" by (rule registered_subs [of st]) (use ok in \<open>auto simp: stream_ok_def\<close>)
  moreover have "Overflow \<notin> snd ` set cs" using ok sub unfolding stream_ok_def by blast
  moreover have "\<forall>j \<in> fst ` set cs. dget (st_subs st) j \<noteq> None" using ok sub unfolding stream_ok_def by blast
  ultimately have "stream_ok (st\<lparr>st_callbacks := cs\<rparr>)" using ok by (simp add: stream_ok_def)
  then show ?thesis by (simp add: run_callback_def Some p enqueue_ok)
qed (use ok in \<open>simp add: run_callback_def\<close>)

lemma end_ok:
  "stream_ok st \<Longrightarrow> dget (st_subs st) j = Some t \<Longrightarrow> running (sb_phase t) \<Longrightarrow> \<not> running ph \<Longrightarrow> stream_ok (end_with ph j t st)"
  unfolding end_with_def by (rule stream_ok_end)

lemma take_item_ok:
  assumes ok: "stream_ok st" and t: "dget (st_subs st) j = Some t" and "sb_phase t = Live"
  shows "stream_ok (take_item j t st)"
proof (cases "sb_queue t")
  case Nil
  have "stream_ok (update_sub j (\<lambda>s. s\<lparr>sb_yielded := sb_yielded s @ [Heartbeat]\<rparr>) st)" by (rule update_sub_ok [OF ok]) simp
  then show ?thesis using ok Nil by (simp add: take_item_def)
next
  case (Cons x q)
  then have "length q \<le> max_queued" using ok t unfolding stream_ok_def by fastforce
  then have "stream_ok (update_sub j (\<lambda>s. (yield_event e s)\<lparr>sb_queue := q\<rparr>) st)" for e
    by (intro update_sub_ok [OF ok]) (simp add: yield_event_def)
  then show ?thesis
    using Cons end_ok [OF ok t, of Finished] end_ok [OF ok t, of Overflowed] assms(3)
    by (cases x) (simp_all add: take_item_def running_def)
qed

lemma advance_ok:
  assumes ok: "stream_ok st"
  shows "stream_ok (resume j st)"
proof (cases "dget (st_subs st) j")
  case (Some t)
  have replay: "stream_ok (update_sub j (\<lambda>s. (yield_event e s)\<lparr>sb_ready := es\<rparr>) st)" for e es
    by (rule update_sub_ok [OF ok]) (simp add: yield_event_def)
  have "stream_ok (update_sub j (\<lambda>s. s\<lparr>sb_phase := if sb_hook s then Hooking else Live\<rparr>) st)" if "sb_phase t = Replaying"
    by (rule stream_ok_update [OF ok Some]) (use ok Some that in \<open>auto simp: stream_ok_def running_def\<close>)
  then show ?thesis
    using Some ok replay take_item_ok [OF ok Some] by (cases "sb_phase t"; cases "sb_ready t") (simp_all add: resume_def)
qed (use ok in \<open>simp add: resume_def\<close>)

lemma hook_ok:
  assumes ok: "stream_ok st"
  shows "stream_ok (hook_returns j evs st)"
proof (cases "dget (st_subs st) j")
  case (Some t)
  have "stream_ok (update_sub j (\<lambda>s. s\<lparr>sb_phase := Live, sb_ready := evs\<rparr>) st)" if "sb_phase t = Hooking"
    by (rule stream_ok_update [OF ok Some]) (use ok Some that in \<open>auto simp: stream_ok_def running_def\<close>)
  then show ?thesis using ok Some by (simp add: hook_returns_def)
qed (use ok in \<open>simp add: hook_returns_def\<close>)

lemma leave_ok: "stream_ok st \<Longrightarrow> stream_ok (leave j st)"
  using end_ok [of st j _ Left] by (simp add: leave_def running_def split: option.split)

lemma subscribe_ok:
  assumes ok: "stream_ok st" and fresh: "dget (st_subs st) j = None"
  shows "stream_ok (subscribe j c ready_event hook beats st)"
proof -
  have "count_list (subscribers_of st conv) k = (case dget (st_subs st) k of None \<Rightarrow> 0
      | Some s \<Rightarrow> if sb_conv s = conv \<and> running (sb_phase s) then 1 else 0)" for conv k
    using ok by (simp add: stream_ok_def subscribed_def)
  then have "subscribed (subscribe j c ready_event hook beats st)"
    unfolding subscribed_def using fresh
    by (auto simp: subscribe_def subscribers_of_def running_def split: option.splits)
  then show ?thesis using ok by (auto simp: stream_ok_def subscribe_def split: if_splits)
qed

lemma step_ok: "stream_ok st \<Longrightarrow> stream_ok (hub_step fp st op)"
  by (cases op) (simp_all add: publish_ok close_stream_def fan_out_ok shutdown_ok subscribe_ok advance_ok hook_ok leave_ok
      callback_ok, simp_all add: stream_ok_def subscribed_def)

lemma publish_sees:
  assumes "stream_ok st" and "sees k conv R hs bs st"
  shows "sees k conv R hs (bs @ posted fp conv st (Post now c ev)) (publish fp now c ev st)"
proof -
  obtain s where s: "dget (st_subs st) k = Some s" "sb_conv s = conv" "sub_sees R hs bs (callbacks_for k st) s"
    using assms(2) by (auto simp: sees_def)
  have count: "count_list (subscribers_of st c) k = (if conv = c \<and> running (sb_phase s) then 1 else 0)"
    using registered_count [OF assms(1) s(1), of c] s(2) by simp
  show ?thesis
  proof (cases "fst (record_text fp now c ev (st_text st))")
    case True
    then show ?thesis using s update_indexes_ok [OF assms(1)] by (auto simp: publish_def Let_def posted_def intro: seesI)
  next
    case False
    show ?thesis
    proof (cases "c = conv")
      case True
      then show ?thesis
        using False s count sub_sees_post [OF s(3), of ev] fan_out_ok [OF update_indexes_ok [OF assms(1)]]
        by (auto simp: publish_def Let_def posted_def callbacks_for_fan_out intro!: seesI split: if_splits)
    next
      case other: False
      then show ?thesis
        using False s count fan_out_ok [OF update_indexes_ok [OF assms(1)]]
        by (auto simp: publish_def Let_def posted_def callbacks_for_fan_out intro!: seesI)
    qed
  qed
qed

lemma close_sees:
  assumes "stream_ok st" and "sees k conv R hs bs st"
  shows "sees k conv R hs bs (close_stream c st)"
proof -
  obtain s where s: "dget (st_subs st) k = Some s" "sb_conv s = conv" "sub_sees R hs bs (callbacks_for k st) s"
    using assms(2) by (auto simp: sees_def)
  then show ?thesis
    using registered_count [OF assms(1) s(1), of c]
    by (auto simp: close_stream_def callbacks_for_fan_out sub_sees_Done intro!: seesI split: if_splits)
qed

lemma update_sees:
  assumes view: "sees k conv R hs bs st" and t: "dget (st_subs st) j = Some t"
    and "sb_conv (f t) = sb_conv t"
    and "j = k \<Longrightarrow> sub_sees R hs bs (callbacks_for k st) t \<Longrightarrow> sub_sees R (hs @ evs) bs (callbacks_for k st) (f t)"
    and "j \<noteq> k \<Longrightarrow> evs = []"
  shows "sees k conv R (hs @ evs) bs (update_sub j f st)"
proof (cases "j = k")
  case True
  then show ?thesis using assms(3,4) sees_update [OF view t [unfolded True], of f "hs @ evs"] by simp
next
  case False
  then show ?thesis using assms(5) view by (simp add: sees_update_other)
qed

lemmas update_sees0 = update_sees [where evs = "[]", simplified]

lemma enqueue_Done_sees:
  assumes "sees k conv R hs bs st"
  shows "sees k conv R hs bs (update_sub j (enqueue Done) st)"
proof (cases "dget (st_subs st) j")
  case (Some t)
  show ?thesis
    by (rule update_sees0 [OF assms Some])
       (auto simp: enqueue_def sub_sees_Done intro!: sub_sees_enqueue [unfolded enqueue_def])
qed (use assms in \<open>simp add: update_sub_def\<close>)

lemma shutdown_sees:
  assumes "sees k conv R hs bs st"
  shows "sees k conv R hs bs (shutdown_all st)"
proof -
  have "sees k conv R hs bs (foldl (\<lambda>st j. update_sub j (enqueue Done) st) st js)" for js
    using assms by (induction js arbitrary: st) (simp_all add: enqueue_Done_sees)
  then show ?thesis by (simp add: shutdown_all_def)
qed

lemma callback_sees:
  assumes ok: "stream_ok st" and "sees k conv R hs bs st"
  shows "sees k conv R hs bs (run_callback j st)"
proof (cases "take_callback j (st_callbacks st)")
  case None
  then show ?thesis using assms by (simp add: run_callback_def)
next
  case (Some p)
  obtain x cs where p: "p = (x, cs)" by (cases p)
  let ?st = "st\<lparr>st_callbacks := cs\<rparr>"
  note spec = take_callback_spec [OF Some [unfolded p]]
  have "x \<in> snd ` set (st_callbacks st)" using spec by force
  then have x: "x \<noteq> Overflow" using ok unfolding stream_ok_def by metis
  obtain s where s: "dget (st_subs st) k = Some s" "sb_conv s = conv" "sub_sees R hs bs (callbacks_for k st) s"
    using assms(2) by (auto simp: sees_def)
  have "sees k conv R hs bs (update_sub j (enqueue x) ?st)"
  proof (cases "j = k")
    case True
    have "callbacks_for k st = x # callbacks_for k ?st" using spec True by (simp add: callbacks_for_def)
    then have "sub_sees R hs bs (callbacks_for k ?st) (enqueue x s)" using s(3) x sub_sees_enqueue by simp
    then show ?thesis using s by (intro seesI [of _ _ "enqueue x s"]) (simp_all add: True enqueue_def)
  next
    case False
    have "callbacks_for k ?st = callbacks_for k st" using spec False by (simp add: callbacks_for_def)
    then show ?thesis using s False by (intro seesI [of _ _ s]) simp_all
  qed
  then show ?thesis by (simp add: run_callback_def Some p)
qed

lemma end_sees:
  assumes "sees k conv R hs bs st" and t: "dget (st_subs st) j = Some t"
    and ph: "sb_phase t = Live \<or> running (sb_phase t) \<and> ph = Left" "\<not> running ph"
  shows "sees k conv R hs bs (end_with ph j t st)"
proof -
  have "sees k conv R hs bs (update_sub j (\<lambda>s. s\<lparr>sb_phase := ph\<rparr>) st)"
    by (rule update_sees0 [OF assms(1) t]) (use ph sub_sees_end in auto)
  then show ?thesis by (simp add: end_with_def)
qed

lemma replay_sees:
  assumes "sees k conv R hs bs st" and t: "dget (st_subs st) j = Some t"
    and "sb_ready t = e # es" "sb_phase t = Replaying \<or> sb_phase t = Live"
  shows "sees k conv R hs bs (update_sub j (\<lambda>s. (yield_event e s)\<lparr>sb_ready := es\<rparr>) st)"
  by (rule update_sees0 [OF assms(1) t]) (use sub_sees_replay [OF _ assms(3,4)] in \<open>simp_all add: yield_event_def\<close>)

lemma take_item_sees:
  assumes view: "sees k conv R hs bs st" and t: "dget (st_subs st) j = Some t"
    and live: "sb_phase t = Live" "sb_ready t = []"
  shows "sees k conv R hs bs (take_item j t st)"
proof (cases "sb_queue t")
  case Nil
  have "sees k conv R hs bs (update_sub j (\<lambda>s. s\<lparr>sb_yielded := sb_yielded s @ [Heartbeat]\<rparr>) st)"
    by (rule update_sees0 [OF view t]) (use live in \<open>simp_all add: sub_sees_def\<close>)
  then show ?thesis using Nil view by (simp add: take_item_def)
next
  case (Cons x q)
  show ?thesis
  proof (cases x)
    case (Ev e)
    have "sees k conv R hs bs (update_sub j (\<lambda>s. (yield_event e s)\<lparr>sb_queue := q\<rparr>) st)"
      by (rule update_sees0 [OF view t]) (use Cons sub_sees_event [OF _ live] Ev in \<open>simp_all add: yield_event_def\<close>)
    then show ?thesis using Cons Ev by (simp add: take_item_def)
  qed (use Cons end_sees [OF view t, of Finished] end_sees [OF view t, of Overflowed] live in \<open>simp_all add: take_item_def running_def\<close>)
qed

lemma advance_sees:
  assumes view: "sees k conv R hs bs st"
  shows "sees k conv R hs bs (resume j st)"
proof (cases "dget (st_subs st) j")
  case (Some t)
  have go_on: "sees k conv R hs bs (update_sub j (\<lambda>s. s\<lparr>sb_phase := if sb_hook s then Hooking else Live\<rparr>) st)"
    if "sb_ready t = []" "sb_phase t = Replaying"
    by (rule update_sees0 [OF view Some]) (use sub_sees_go_on [OF _ that] in simp_all)
  show ?thesis
    using Some view go_on replay_sees [OF view Some] take_item_sees [OF view Some]
    by (cases "sb_phase t"; cases "sb_ready t") (simp_all add: resume_def)
qed (use view in \<open>simp add: resume_def\<close>)

lemma hook_sees:
  assumes view: "sees k conv R hs bs st"
  shows "sees k conv R (hs @ hooked k st (HookReturns j evs)) bs (hook_returns j evs st)"
proof (cases "map_option sb_phase (dget (st_subs st) j) = Some Hooking")
  case True
  then obtain t where t: "dget (st_subs st) j = Some t" "sb_phase t = Hooking" by auto
  have "sees k conv R (hs @ (if j = k then evs else [])) bs (update_sub j (\<lambda>s. s\<lparr>sb_phase := Live, sb_ready := evs\<rparr>) st)"
    by (rule update_sees [OF view t(1)]) (use t(2) sub_sees_hook in simp_all)
  then show ?thesis using t by (cases "j = k") (simp_all add: hook_returns_def hooked_def)
next
  case False
  then have "hook_returns j evs st = st" by (auto simp: hook_returns_def split: option.splits)
  then show ?thesis using False assms by (auto simp: hooked_def)
qed

lemma leave_sees:
  assumes view: "sees k conv R hs bs st"
  shows "sees k conv R hs bs (leave j st)"
proof (cases "dget (st_subs st) j")
  case (Some t)
  then show ?thesis using end_sees [OF view Some, of Left] view by (simp add: leave_def running_def)
qed (use view in \<open>simp add: leave_def\<close>)

lemma subscribe_sees:
  assumes "sees k conv R hs bs st" and "dget (st_subs st) j = None"
  shows "sees k conv R hs bs (subscribe j c ready_event hook beats st)"
  using assms by (auto simp: sees_def subscribe_def callbacks_for_def)

lemma step_sees:
  assumes ok: "stream_ok st" and view: "sees k conv R hs bs st"
  shows "sees k conv R (hs @ hooked k st op) (bs @ posted fp conv st op) (hub_step fp st op)"
proof (cases op)
  case (Post now c ev)
  then show ?thesis using publish_sees [OF assms, of fp now c ev] by (simp add: hooked_def)
next
  case (Subscribe j c ready_event hook beats)
  then show ?thesis using view subscribe_sees [OF view, of j] by (simp add: hooked_def posted_def)
next
  case (HookReturns j evs)
  then show ?thesis using hook_sees [OF view, of j evs] by (simp add: posted_def)
qed (use view close_sees [OF assms] shutdown_sees [OF view] advance_sees [OF view] leave_sees [OF view] callback_sees [OF assms]
    in \<open>simp_all add: hooked_def posted_def, simp_all add: sees_def\<close>)

lemma run_sees:
  assumes "stream_ok st" and "sees k conv R hs bs st"
  shows "sees k conv R (hs @ hook_events fp k st ops) (bs @ broadcast fp conv st ops) (foldl (hub_step fp) st ops)"
  using assms
proof (induction ops arbitrary: st hs bs)
  case (Cons op ops)
  from Cons.IH [OF step_ok [OF Cons.prems(1)] step_sees [OF Cons.prems, where fp = fp and op = op]] show ?case by simp
qed simp

section \<open>Properties\<close>

definition no_stream :: stream where
  "no_stream = \<lparr>st_text = no_inflight, st_prompts = quiet False, st_registry = [], st_callbacks = [], st_subs = []\<rparr>"

lemma no_stream_ok: "stream_ok no_stream"
  by (simp add: stream_ok_def subscribed_def no_stream_def subscribers_of_def)

interpretation streams: op_machine "hub_step fp" stream_ok no_stream for fp
  by unfold_locales (rule no_stream_ok, erule step_ok)

lemma subscribed_sees:
  assumes "stream_ok st" and "dget (st_subs st) k = None"
  shows "sees k conv ((case ready_event of None \<Rightarrow> [] | Some e \<Rightarrow> [e]) @ snapshot_text (st_text st) conv) [] []
    (hub_step fp st (Subscribe k conv ready_event hook beats))"
proof -
  have "callbacks_for k st = []"
    using assms by (auto simp: callbacks_for_def filter_empty_conv stream_ok_def)
  then show ?thesis using assms by (auto simp: sees_def subscribe_def sub_sees_def callbacks_for_def)
qed

text \<open>
  C30: A subscriber gets exactly the stream. Whatever publications, closings, other subscribers and
  event-loop steps interleave, what it has been sent is a prefix of: the ready event, the text in
  flight at the moment it subscribed, the events of its hook, and every event published on its
  conversation since then that is not withheld, each once and in order. While it runs and its queue has
  not overflowed, the events it still has to read are exactly the rest.
\<close>
theorem subscriber_gets_exactly_the_stream:
  assumes "st = foldl (hub_step fp) no_stream before"
    and "dget (st_subs st) k = None"
    and "st1 = hub_step fp st (Subscribe k conv ready_event hook beats)"
    and "st2 = foldl (hub_step fp) st1 ops"
    and "whole = (case ready_event of None \<Rightarrow> [] | Some e \<Rightarrow> [e]) @ snapshot_text (st_text st) conv
           @ hook_events fp k st1 ops @ broadcast fp conv st1 ops"
  shows "\<exists>s. dget (st_subs st2) k = Some s
    \<and> prefix (sent_events (sb_yielded s)) whole
    \<and> length (sb_queue s) \<le> max_queued
    \<and> (sb_phase s = Live \<longrightarrow> Overflow \<in> set (sb_queue s)
         \<or> whole = sent_events (sb_yielded s) @ sb_ready s @ queued_events (sb_queue s @ callbacks_for k st2))"
proof -
  have ok: "stream_ok st" unfolding assms(1) by (rule streams.inv_run)
  have ok1: "stream_ok st1" unfolding assms(3) by (rule step_ok [OF ok])
  have ok2: "stream_ok st2" unfolding assms(4) using ok1 by (rule streams.inv_foldl)
  have "sees k conv ((case ready_event of None \<Rightarrow> [] | Some e \<Rightarrow> [e]) @ snapshot_text (st_text st) conv) [] [] st1"
    unfolding assms(3) by (rule subscribed_sees [OF ok assms(2)])
  from run_sees [OF ok1 this, where fp = fp and ops = ops]
  have "sees k conv ((case ready_event of None \<Rightarrow> [] | Some e \<Rightarrow> [e]) @ snapshot_text (st_text st) conv)
      (hook_events fp k st1 ops) (broadcast fp conv st1 ops) st2"
    by (simp add: assms(4))
  then obtain s where s: "dget (st_subs st2) k = Some s"
    "sub_sees ((case ready_event of None \<Rightarrow> [] | Some e \<Rightarrow> [e]) @ snapshot_text (st_text st) conv)
      (hook_events fp k st1 ops) (broadcast fp conv st1 ops) (callbacks_for k st2) s"
    by (auto simp: sees_def)
  then have "prefix (sent_events (sb_yielded s)) whole"
    unfolding assms(5) using sub_sees_prefix by fastforce
  moreover have "sb_phase s = Live \<longrightarrow> Overflow \<in> set (sb_queue s)
      \<or> whole = sent_events (sb_yielded s) @ sb_ready s @ queued_events (sb_queue s @ callbacks_for k st2)"
    using s(2) unfolding assms(5) by (auto simp: sub_sees_def)
  moreover have "length (sb_queue s) \<le> max_queued" using ok2 s(1) by (simp add: stream_ok_def)
  ultimately show ?thesis using s(1) by blast
qed


theorem subscriber_gets_exactly_the_stream_witness:
  "\<exists>s. dget (st_subs (foldl (hub_step id) (hub_step id no_stream (Subscribe 1 ''c'' None False False))
         [Post 0 ''c'' (delta_event ''a''), RunCallback 1, Advance 1, Advance 1])) 1 = Some s
    \<and> prefix (sent_events (sb_yielded s)) [delta_event ''a'']
    \<and> length (sb_queue s) \<le> max_queued
    \<and> (sb_phase s = Live \<longrightarrow> Overflow \<in> set (sb_queue s)
         \<or> [delta_event ''a''] = sent_events (sb_yielded s) @ sb_ready s @ queued_events (sb_queue s @
             callbacks_for 1 (foldl (hub_step id) (hub_step id no_stream (Subscribe 1 ''c'' None False False))
               [Post 0 ''c'' (delta_event ''a''), RunCallback 1, Advance 1, Advance 1])))"
proof (rule subscriber_gets_exactly_the_stream [where st = no_stream and before = "[]" and ready_event = None and hook = False and beats = False])
  show "[delta_event ''a''] = (case None of None \<Rightarrow> [] | Some e \<Rightarrow> [e]) @ snapshot_text (st_text no_stream) ''c''
      @ hook_events id 1 (hub_step id no_stream (Subscribe 1 ''c'' None False False))
          [Post 0 ''c'' (delta_event ''a''), RunCallback 1, Advance 1, Advance 1]
      @ broadcast id ''c'' (hub_step id no_stream (Subscribe 1 ''c'' None False False))
          [Post 0 ''c'' (delta_event ''a''), RunCallback 1, Advance 1, Advance 1]"
    by code_simp
qed (rule refl | simp add: no_stream_def)+


section \<open>The text that a subscriber gets\<close>

definition text_ops :: "stream_op \<Rightarrow> text_op list" where
  "text_ops op =
     (case op of
        Post now c ev \<Rightarrow> [TextEvent now c ev] | DiscardText c \<Rightarrow> [Discard c] | ClearText c \<Rightarrow> [ResetText c] | _ \<Rightarrow> [])"

definition all_text :: "event list \<Rightarrow> string" where
  \<comment> \<open>the response-scoped text that a list of events carries\<close>
  "all_text evs = concat (map delta_text evs)"

definition published_text :: "string \<Rightarrow> stream_op list \<Rightarrow> string" where
  \<comment> \<open>the response-scoped text that is published on a conversation\<close>
  "published_text conv ops =
     concat (map (\<lambda>op. case op of Post now c ev \<Rightarrow> if c = conv then delta_text ev else [] | _ \<Rightarrow> []) ops)"

lemma update_sub_text_foldl: "st_text (foldl (\<lambda>st j. update_sub j f st) st js) = st_text st"
  by (induction js arbitrary: st) simp_all

lemma end_with_text [simp]: "st_text (end_with ph k s st) = st_text st"
  by (simp add: end_with_def)

lemma take_item_text [simp]: "st_text (take_item k s st) = st_text st"
  by (simp add: take_item_def split: list.split item.split)

lemma step_text: "st_text (hub_step fp st op) = foldl (text_step fp) (st_text st) (text_ops op)"
proof (cases op)
  case (Post now c ev)
  then show ?thesis by (simp add: text_ops_def publish_def Let_def)
next
  case (Advance k)
  then show ?thesis by (simp add: text_ops_def resume_def split: option.split sub_phase.split list.split)
qed (simp_all add: text_ops_def close_stream_def shutdown_all_def update_sub_text_foldl subscribe_def hook_returns_def leave_def
      run_callback_def split: option.split)

lemma run_text: "st_text (foldl (hub_step fp) st ops) = foldl (text_step fp) (st_text st) (concat (map text_ops ops))"
  by (induction ops arbitrary: st) (simp_all add: step_text)

lemma withheld_is_chunk: "fst (record_text fp now c ev s) \<Longrightarrow> \<exists>mid delta. is_chunk ev mid delta"
  by (cases rule: record_text_cases [of fp now c ev s]) auto

lemma posted_text: "all_text (posted fp conv st op) = published_text conv [op]"
proof (cases op)
  case (Post now c ev)
  show ?thesis
  proof (cases "fst (record_text fp now c ev (st_text st))")
    case True
    then obtain mid delta where "is_chunk ev mid delta" using withheld_is_chunk by blast
    then show ?thesis by (simp add: Post posted_def published_text_def all_text_def delta_text_def is_chunk_def)
  qed (simp add: Post posted_def published_text_def all_text_def)
qed (simp_all add: posted_def published_text_def all_text_def)

lemma broadcast_text: "all_text (broadcast fp conv st ops) = published_text conv ops"
proof (induction ops arbitrary: st)
  case (Cons op ops)
  have "published_text conv (op # ops) = published_text conv [op] @ published_text conv ops"
    by (simp add: published_text_def)
  then show ?case using Cons.IH posted_text [of fp conv st op] by (simp add: all_text_def)
qed (simp add: all_text_def published_text_def)

lemma texts_of_published: "concat (texts_of conv (concat (map text_ops ops))) = published_text conv ops"
  by (induction ops) (simp_all add: texts_of_def published_text_def text_ops_def split: stream_op.split)

lemma all_text_snapshot:
  "holds_text c i r t s \<Longrightarrow> native_events s c = [] \<Longrightarrow> all_text (snapshot_text s c) = t"
  by (simp add: snapshot_held all_text_def delta_text_def created_event_def delta_event_def str_of_def message_id_of_def)


definition ex_since_ops :: "stream_op list" where
  "ex_since_ops = [Post 1 ''c'' (delta_event ''Hel'')]"

definition ex_later :: "stream_op list" where
  "ex_later = [Post 2 ''c'' (delta_event ''lo''), Advance 7, RunCallback 7, Advance 7, Advance 7, Advance 7]"

definition ex_subscribe :: stream where
  "ex_subscribe = foldl (hub_step id) no_stream ([] @ Post 0 ''c'' ex_turn_created # ex_since_ops)"

definition ex_end :: stream where
  "ex_end = foldl (hub_step id) (hub_step id ex_subscribe (Subscribe 7 ''c'' None False False)) ex_later"


text \<open>
  Publishing is not one step for a subscriber on another thread. When a client subscribes between the
  update of the indexes and the fan-out of \<open>publish\<close>, which hold different locks, the text of that event
  is both in the replayed text and in the live events, and the client gets it twice.
\<close>
theorem publishing_off_the_loop_repeats_text:
  "all_text (sent_to k
       (foldl (hub_step fp)
         (fan_out conv (Ev (delta_event (x # xs)))
            (hub_step fp (snd (update_indexes fp 0 conv (delta_event (x # xs)) no_stream)) (Subscribe k conv None False beats)))
         [Advance k, Advance k, RunCallback k, Advance k]))
     = (x # xs) @ (x # xs)"
proof -
  have rec: "record_text fp 0 conv (delta_event (x # xs)) no_inflight
      = (False, no_inflight\<lparr>fx_turns := [(conv, new_turn\<lparr>tn_parts := [x # xs]\<rparr>)]\<rparr>)"
    by (simp add: record_text_def record_typed_def delta_event_def str_of_def message_id_of_def publish_delta_def
        no_inflight_def new_turn_def)
  have snap: "snapshot_text (no_inflight\<lparr>fx_turns := [(conv, new_turn\<lparr>tn_parts := [x # xs]\<rparr>)]\<rparr>) conv = [delta_event (x # xs)]"
    by (simp add: snapshot_text_def native_events_def no_inflight_def new_turn_def)
  have one: "delta_text (delta_event (x # xs)) = x # xs"
    by (simp add: delta_text_def delta_event_def str_of_def message_id_of_def)
  show ?thesis
    by (simp add: update_indexes_def Let_def rec no_stream_def subscribe_def snap fan_out_def subscribers_of_def resume_def
        update_sub_def yield_event_def run_callback_def enqueue_def enqueue_or_overflow_def max_queued_def take_item_def
        sent_to_def all_text_def one)
qed

end
