(* ===== verification/Scheduler.thy ===== *)
theory Scheduler
  imports Py_Prelude
begin

text \<open>
  Recurring tasks: the validation of recurrence rules of \<^verbatim>\<open>codify/server/scheduled/rrule.py\<close>
  and the timers of \<^verbatim>\<open>codify/server/scheduled/scheduler.py\<close>. Times are epoch seconds. The recurrence
  rules themselves (\<^verbatim>\<open>dateutil\<close>) and the time zones are parameters. Each stretch of code between two
  awaits is one step, with one reading of the clock; timers, their coroutines and the calls of the
  scheduler interleave freely.
\<close>

section \<open>Recurrence rules\<close>

record rule_lib =
  rl_occurrences :: "string \<Rightarrow> (nat \<Rightarrow> real option) option"  \<comment> \<open>\<open>rrulestr\<close> at the fixed anchor; \<open>None\<close>: malformed\<close>
  rl_after :: "string \<Rightarrow> string \<Rightarrow> real \<Rightarrow> real \<Rightarrow> real option"  \<comment> \<open>\<open>rrule.after\<close> for a rule, zone, anchor and instant\<close>
  rl_midnight :: "string \<Rightarrow> real \<Rightarrow> real"  \<comment> \<open>midnight of the local day\<close>
  rl_zone :: "string \<Rightarrow> bool"  \<comment> \<open>the zone is known\<close>

definition MIN_INTERVAL_SECONDS :: real where "MIN_INTERVAL_SECONDS = 60 * 60"

definition interval_window :: real where "interval_window = 25 * 60 * 60"

definition max_sample_occurrences :: nat where "max_sample_occurrences = 2000"

datatype rrule_error = Malformed | NeverFires | FiresOnce | TooOften

definition get_next_fire_time :: "rule_lib \<Rightarrow> string \<Rightarrow> real \<Rightarrow> string \<Rightarrow> real option" where
  "get_next_fire_time lib rule now tz = rl_after lib rule tz (rl_midnight lib tz now) now"

definition tighter :: "real option \<Rightarrow> real \<Rightarrow> real option" where
  \<comment> \<open>\<open>min(min_gap, gap)\<close>, \<open>None\<close> being infinity\<close>
  "tighter g d = Some (case g of None \<Rightarrow> d | Some x \<Rightarrow> min x d)"

fun sample_gaps :: "(nat \<Rightarrow> real option) \<Rightarrow> nat \<Rightarrow> nat \<Rightarrow> real \<Rightarrow> real \<Rightarrow> real option \<Rightarrow> nat \<times> real option" where
  \<comment> \<open>the rest of the loop after \<open>n\<close> occurrences; \<open>fuel\<close> is above the cap on occurrences\<close>
  "sample_gaps occ 0 n prev window_end gap = (n, gap)"
| "sample_gaps occ (Suc fuel) n prev window_end gap =
     (case occ n of
        None \<Rightarrow> (n, gap)
      | Some t \<Rightarrow>
          if window_end \<le> t \<or> max_sample_occurrences \<le> Suc n then (Suc n, tighter gap (t - prev))
          else sample_gaps occ fuel (Suc n) t window_end (tighter gap (t - prev)))"

definition validate_rrule :: "rule_lib \<Rightarrow> string \<Rightarrow> rrule_error + string" where
  "validate_rrule lib rule =
     (case rl_occurrences lib rule of
        None \<Rightarrow> Inl Malformed
      | Some occ \<Rightarrow>
          (case occ 0 of
             None \<Rightarrow> Inl NeverFires
           | Some t0 \<Rightarrow>
               (case sample_gaps occ max_sample_occurrences 1 t0 (t0 + interval_window) None of
                  (n, gap) \<Rightarrow>
                    if n = 1 then Inl FiresOnce
                    else (case gap of
                            Some g \<Rightarrow> if g < MIN_INTERVAL_SECONDS then Inl TooOften else Inr rule
                          | None \<Rightarrow> Inr rule))))"

section \<open>Jobs and timers\<close>

definition MISFIRE_GRACE_TIME_S :: real where "MISFIRE_GRACE_TIME_S = 30"

definition max_timer_delay :: real where "max_timer_delay = 24 * 24 * 60 * 60"

definition due_tolerance :: real where "due_tolerance = 1"

record task =
  tk_id :: string
  tk_workspace :: int
  tk_rrule :: string
  tk_timezone :: string
  tk_state :: string

record sched_job =
  jb_task :: string
  jb_workspace :: int
  jb_rule :: string
  jb_tz :: string
  jb_next :: "real option"
  jb_timer :: "nat option"
  jb_capped :: bool
  jb_running :: bool

datatype coroutine =
    Woken nat              \<comment> \<open>\<open>_fire_and_rearm\<close> of a job, scheduled by its timer and not begun\<close>
  | Firing nat bool real   \<comment> \<open>awaiting \<open>on_fire\<close>: the job, whether it re-arms after, and the time it was due\<close>

record scheduler =
  sc_jobs :: "(int \<times> string, nat) pydict"
  sc_heap :: "nat \<Rightarrow> sched_job option"
  sc_timers :: "(nat, real \<times> nat) pydict"   \<comment> \<open>handle, when it is due and the job it wakes\<close>
  sc_coros :: "(nat, coroutine) pydict"
  sc_fresh :: nat
  sc_started :: bool
  sc_fired :: "(nat \<times> bool \<times> real) list"   \<comment> \<open>the calls of \<open>on_fire\<close>: job, whether its timer fired, and when it was due\<close>

definition resolve_tz :: "rule_lib \<Rightarrow> string \<Rightarrow> string" where
  "resolve_tz lib name = (if name \<noteq> [] \<and> rl_zone lib name then name else ''UTC'')"

definition cancel_timer :: "nat option \<Rightarrow> scheduler \<Rightarrow> scheduler" where
  "cancel_timer h s = (case h of None \<Rightarrow> s | Some i \<Rightarrow> s\<lparr>sc_timers := ddel i (sc_timers s)\<rparr>)"

definition update_job :: "nat \<Rightarrow> (sched_job \<Rightarrow> sched_job) \<Rightarrow> scheduler \<Rightarrow> scheduler" where
  "update_job j f s = s\<lparr>sc_heap := (sc_heap s)(j := map_option f (sc_heap s j))\<rparr>"

definition arm :: "rule_lib \<Rightarrow> real \<Rightarrow> nat \<Rightarrow> scheduler \<Rightarrow> scheduler" where
  "arm lib now j s =
     (case sc_heap s j of
        None \<Rightarrow> s
      | Some b \<Rightarrow>
          (case get_next_fire_time lib (jb_rule b) now (jb_tz b) of
             None \<Rightarrow> update_job j (\<lambda>b. b\<lparr>jb_next := None, jb_timer := None\<rparr>) s
           | Some next_run \<Rightarrow>
               let delay = max 0 (next_run - now);
                   capped = (max_timer_delay < delay);
                   due = now + (if capped then max_timer_delay else delay);
                   h = sc_fresh s
               in (update_job j (\<lambda>b. b\<lparr>jb_next := Some next_run, jb_capped := capped, jb_timer := Some h\<rparr>) s)
                    \<lparr>sc_timers := dset h (due, j) (sc_timers s), sc_fresh := Suc h\<rparr>))"

fun remove_jobs :: "string \<Rightarrow> ((int \<times> string) \<times> nat) list \<Rightarrow> scheduler \<Rightarrow> scheduler" where
  \<comment> \<open>the loop of \<open>remove\<close> over a copy of the jobs\<close>
  "remove_jobs tid [] s = s"
| "remove_jobs tid ((key, j) # rest) s =
     remove_jobs tid rest
       (if map_option jb_task (sc_heap s j) = Some tid
        then cancel_timer (case sc_heap s j of None \<Rightarrow> None | Some b \<Rightarrow> jb_timer b) (s\<lparr>sc_jobs := ddel key (sc_jobs s)\<rparr>)
        else s)"

definition remove_task :: "string \<Rightarrow> scheduler \<Rightarrow> scheduler" where
  "remove_task tid s = remove_jobs tid (sc_jobs s) s"

definition register :: "rule_lib \<Rightarrow> real \<Rightarrow> task \<Rightarrow> scheduler \<Rightarrow> rrule_error + scheduler" where
  "register lib now t s =
     (case validate_rrule lib (tk_rrule t) of
        Inl e \<Rightarrow> Inl e
      | Inr rule \<Rightarrow>
          let s1 = remove_task (tk_id t) s;
              j = sc_fresh s1;
              b = \<lparr>jb_task = tk_id t, jb_workspace = tk_workspace t, jb_rule = rule, jb_tz = resolve_tz lib (tk_timezone t),
                   jb_next = None, jb_timer = None, jb_capped = False, jb_running = False\<rparr>;
              s2 = s1\<lparr>sc_heap := (sc_heap s1)(j \<mapsto> b), sc_jobs := dset (tk_workspace t, tk_id t) j (sc_jobs s1), sc_fresh := Suc j\<rparr>
          in Inr (arm lib now j s2))"

definition try_register :: "rule_lib \<Rightarrow> real \<Rightarrow> task \<Rightarrow> scheduler \<Rightarrow> scheduler" where
  \<comment> \<open>an invalid rule is logged\<close>
  "try_register lib now t s = (case register lib now t s of Inl _ \<Rightarrow> s | Inr s' \<Rightarrow> s')"

definition start :: "rule_lib \<Rightarrow> real \<Rightarrow> task list \<Rightarrow> scheduler \<Rightarrow> scheduler" where
  "start lib now active s =
     (if sc_started s then s else (foldl (\<lambda>s t. try_register lib now t s) s active)\<lparr>sc_started := True\<rparr>)"

definition stop :: "scheduler \<Rightarrow> scheduler" where
  "stop s = (foldl (\<lambda>s (key, j). cancel_timer (case sc_heap s j of None \<Rightarrow> None | Some b \<Rightarrow> jb_timer b) s) s (sc_jobs s))
     \<lparr>sc_jobs := [], sc_started := False\<rparr>"

definition add_task :: "rule_lib \<Rightarrow> real \<Rightarrow> task \<Rightarrow> scheduler \<Rightarrow> scheduler" where
  "add_task lib now t s = (if tk_state t \<noteq> ''active'' then s else try_register lib now t s)"

definition update_task :: "rule_lib \<Rightarrow> real \<Rightarrow> task \<Rightarrow> scheduler \<Rightarrow> scheduler" where
  "update_task lib now t s = add_task lib now t (remove_task (tk_id t) s)"

definition find_job :: "string \<Rightarrow> scheduler \<Rightarrow> nat option" where
  "find_job tid s = map_option snd (List.find (\<lambda>(key, j). map_option jb_task (sc_heap s j) = Some tid) (sc_jobs s))"

definition next_run_at :: "string \<Rightarrow> scheduler \<Rightarrow> real option" where
  "next_run_at tid s = (case find_job tid s of None \<Rightarrow> None | Some j \<Rightarrow> (case sc_heap s j of None \<Rightarrow> None | Some b \<Rightarrow> jb_next b))"

definition job_count :: "scheduler \<Rightarrow> nat" where
  "job_count s = length (sc_jobs s)"

section \<open>Firing\<close>

definition fire_job :: "real \<Rightarrow> nat \<Rightarrow> bool \<Rightarrow> real \<Rightarrow> scheduler \<Rightarrow> (scheduler \<times> nat) option" where
  \<comment> \<open>\<open>_fire_job\<close> up to the await of \<open>on_fire\<close>, with the coroutine that awaits it; \<open>None\<close>: the tick is skipped\<close>
  "fire_job now j rearms scheduled s =
     (case sc_heap s j of
        None \<Rightarrow> None
      | Some b \<Rightarrow>
          if jb_running b then None
          else if MISFIRE_GRACE_TIME_S < now - scheduled then None
          else let c = sc_fresh s
               in Some ((update_job j (\<lambda>b. b\<lparr>jb_running := True\<rparr>) s)
                    \<lparr>sc_coros := dset c (Firing j rearms scheduled) (sc_coros s), sc_fresh := Suc c,
                     sc_fired := sc_fired s @ [(j, rearms, scheduled)]\<rparr>, c))"

definition rearm :: "rule_lib \<Rightarrow> real \<Rightarrow> nat \<Rightarrow> scheduler \<Rightarrow> scheduler" where
  \<comment> \<open>the \<open>finally\<close> block: only a job that is still registered is armed again\<close>
  "rearm lib now j s =
     (case sc_heap s j of
        None \<Rightarrow> s
      | Some b \<Rightarrow> if dget (sc_jobs s) (jb_workspace b, jb_task b) = Some j then arm lib now j s else s)"

definition early_wake :: "real \<Rightarrow> sched_job \<Rightarrow> bool" where
  "early_wake now b \<longleftrightarrow> jb_capped b \<and> (case jb_next b of None \<Rightarrow> False | Some t \<Rightarrow> due_tolerance < t - now)"

definition begin_coroutine :: "rule_lib \<Rightarrow> real \<Rightarrow> nat \<Rightarrow> scheduler \<Rightarrow> scheduler" where
  \<comment> \<open>\<open>_fire_and_rearm\<close> up to its first await\<close>
  "begin_coroutine lib now c s =
     (case dget (sc_coros s) c of
        Some (Woken j) \<Rightarrow>
          let s1 = s\<lparr>sc_coros := ddel c (sc_coros s)\<rparr>
          in (case sc_heap s1 j of
                None \<Rightarrow> s1
              | Some b \<Rightarrow>
                  (case jb_next b of
                     None \<Rightarrow> rearm lib now j s1
                   | Some scheduled \<Rightarrow>
                       if early_wake now b then rearm lib now j s1
                       else (case fire_job now j True scheduled s1 of
                               None \<Rightarrow> rearm lib now j s1
                             | Some (s2, _) \<Rightarrow> s2)))
      | _ \<Rightarrow> s)"

definition finish_coroutine :: "rule_lib \<Rightarrow> real \<Rightarrow> nat \<Rightarrow> scheduler \<Rightarrow> scheduler" where
  \<comment> \<open>\<open>on_fire\<close> returned or raised\<close>
  "finish_coroutine lib now c s =
     (case dget (sc_coros s) c of
        Some (Firing j rearms scheduled) \<Rightarrow>
          let s1 = update_job j (\<lambda>b. b\<lparr>jb_running := False\<rparr>) (s\<lparr>sc_coros := ddel c (sc_coros s)\<rparr>)
          in if rearms then rearm lib now j s1 else s1
      | _ \<Rightarrow> s)"

definition fire :: "real \<Rightarrow> string \<Rightarrow> scheduler \<Rightarrow> scheduler" where
  \<comment> \<open>a manual fire, which does not touch the timer\<close>
  "fire now tid s =
     (case find_job tid s of
        None \<Rightarrow> s
      | Some j \<Rightarrow> (case fire_job now j False now s of None \<Rightarrow> s | Some (s', _) \<Rightarrow> s'))"

definition tick :: "nat \<Rightarrow> scheduler \<Rightarrow> scheduler" where
  \<comment> \<open>the event loop runs a timer: its coroutine is scheduled\<close>
  "tick h s =
     (case dget (sc_timers s) h of
        None \<Rightarrow> s
      | Some (due, j) \<Rightarrow>
          let c = sc_fresh s
          in s\<lparr>sc_timers := ddel h (sc_timers s), sc_coros := dset c (Woken j) (sc_coros s), sc_fresh := Suc c\<rparr>)"

datatype sched_op =
    Start real "task list"
  | Stop
  | Add real task
  | Update real task
  | Remove string
  | Fire real string
  | Tick nat
  | Begin real nat
  | Finish real nat

fun sched_step :: "rule_lib \<Rightarrow> scheduler \<Rightarrow> sched_op \<Rightarrow> scheduler" where
  "sched_step lib s (Start now active) = start lib now active s"
| "sched_step lib s Stop = stop s"
| "sched_step lib s (Add now t) = add_task lib now t s"
| "sched_step lib s (Update now t) = update_task lib now t s"
| "sched_step lib s (Remove tid) = remove_task tid s"
| "sched_step lib s (Fire now tid) = fire now tid s"
| "sched_step lib s (Tick h) = tick h s"
| "sched_step lib s (Begin now c) = begin_coroutine lib now c s"
| "sched_step lib s (Finish now c) = finish_coroutine lib now c s"

definition no_jobs :: scheduler where
  "no_jobs = \<lparr>sc_jobs = [], sc_heap = (\<lambda>_. None), sc_timers = [], sc_coros = [], sc_fresh = 0, sc_started = False, sc_fired = []\<rparr>"

section \<open>The invariant of the scheduler\<close>

definition job_known :: "scheduler \<Rightarrow> nat \<Rightarrow> bool" where
  "job_known s j \<longleftrightarrow> (\<exists>key. dget (sc_jobs s) key = Some j)"

definition armed :: "scheduler \<Rightarrow> nat \<Rightarrow> bool" where
  "armed s j \<longleftrightarrow> (\<exists>h due. dget (sc_timers s) h = Some (due, j))"

fun of_timer :: "nat \<Rightarrow> coroutine \<Rightarrow> bool" where
  \<comment> \<open>a run of \<open>_fire_and_rearm\<close> of the job\<close>
  "of_timer j (Woken i) \<longleftrightarrow> i = j"
| "of_timer j (Firing i rearms t) \<longleftrightarrow> i = j \<and> rearms"

fun firing :: "nat \<Rightarrow> coroutine \<Rightarrow> bool" where
  "firing j (Woken i) \<longleftrightarrow> False"
| "firing j (Firing i rearms t) \<longleftrightarrow> i = j"

definition in_flight :: "scheduler \<Rightarrow> nat \<Rightarrow> bool" where
  "in_flight s j \<longleftrightarrow> (\<exists>c x. dget (sc_coros s) c = Some x \<and> of_timer j x)"

definition ident :: "scheduler \<Rightarrow> nat \<Rightarrow> (int \<times> string) option" where
  "ident s j = map_option (\<lambda>b. (jb_workspace b, jb_task b)) (sc_heap s j)"

definition timer_of :: "scheduler \<Rightarrow> nat \<Rightarrow> nat option" where
  "timer_of s j = (case sc_heap s j of None \<Rightarrow> None | Some b \<Rightarrow> jb_timer b)"

definition is_running :: "scheduler \<Rightarrow> nat \<Rightarrow> bool" where
  "is_running s j \<longleftrightarrow> (case sc_heap s j of None \<Rightarrow> False | Some b \<Rightarrow> jb_running b)"

definition exhausted :: "scheduler \<Rightarrow> nat \<Rightarrow> bool" where
  "exhausted s j \<longleftrightarrow> (case sc_heap s j of None \<Rightarrow> False | Some b \<Rightarrow> jb_next b = None)"

lemmas views = ident_def timer_of_def is_running_def exhausted_def

definition jobs_ok :: "scheduler \<Rightarrow> bool" where
  "jobs_ok s \<longleftrightarrow> dict_ok (sc_jobs s)
     \<and> (\<forall>key j. dget (sc_jobs s) key = Some j \<longrightarrow> ident s j = Some key)
     \<and> (\<forall>key j key' j'. dget (sc_jobs s) key = Some j \<longrightarrow> dget (sc_jobs s) key' = Some j' \<longrightarrow> snd key = snd key' \<longrightarrow> key = key')"

definition timers_ok :: "nat set \<Rightarrow> scheduler \<Rightarrow> bool" where
  \<comment> \<open>a timer belongs to a registered job that holds its handle and has no run of its coroutine; the jobs in
      \<open>D\<close> have neither\<close>
  "timers_ok D s \<longleftrightarrow>
     (\<forall>h due j. dget (sc_timers s) h = Some (due, j) \<longrightarrow>
        job_known s j \<and> j \<notin> D \<and> timer_of s j = Some h \<and> \<not> in_flight s j)
     \<and> (\<forall>j j' h. timer_of s j = Some h \<longrightarrow> timer_of s j' = Some h \<longrightarrow> j = j')"

definition coros_ok :: "nat set \<Rightarrow> scheduler \<Rightarrow> bool" where
  "coros_ok D s \<longleftrightarrow>
     (\<forall>c x j. dget (sc_coros s) c = Some x \<longrightarrow> of_timer j x \<longrightarrow> ident s j \<noteq> None \<and> j \<notin> D)
     \<and> (\<forall>c c' x x' j. dget (sc_coros s) c = Some x \<longrightarrow> dget (sc_coros s) c' = Some x' \<longrightarrow> of_timer j x \<longrightarrow> of_timer j x' \<longrightarrow> c = c')"

definition running_ok :: "scheduler \<Rightarrow> bool" where
  \<comment> \<open>a job is marked as running exactly while one call of \<open>on_fire\<close> is awaited for it\<close>
  "running_ok s \<longleftrightarrow>
     (\<forall>j. is_running s j \<longleftrightarrow> (\<exists>c x. dget (sc_coros s) c = Some x \<and> firing j x))
     \<and> (\<forall>c c' x x' j. dget (sc_coros s) c = Some x \<longrightarrow> dget (sc_coros s) c' = Some x' \<longrightarrow> firing j x \<longrightarrow> firing j x' \<longrightarrow> c = c')"

definition never_lost :: "nat set \<Rightarrow> scheduler \<Rightarrow> bool" where
  "never_lost D s \<longleftrightarrow> (\<forall>j. job_known s j \<longrightarrow> j \<in> D \<or> armed s j \<or> in_flight s j \<or> exhausted s j)"

definition fresh_ok :: "scheduler \<Rightarrow> bool" where
  "fresh_ok s \<longleftrightarrow> (\<forall>j. ident s j \<noteq> None \<longrightarrow> j < sc_fresh s) \<and> (\<forall>j h. timer_of s j = Some h \<longrightarrow> h < sc_fresh s)
     \<and> (\<forall>h x. dget (sc_timers s) h = Some x \<longrightarrow> h < sc_fresh s) \<and> (\<forall>c x. dget (sc_coros s) c = Some x \<longrightarrow> c < sc_fresh s)"

definition sched_inv :: "nat set \<Rightarrow> scheduler \<Rightarrow> bool" where
  "sched_inv D s \<longleftrightarrow> jobs_ok s \<and> timers_ok D s \<and> coros_ok D s \<and> running_ok s \<and> never_lost D s \<and> fresh_ok s"

lemma sched_inv_parts:
  assumes "sched_inv D s"
  shows "jobs_ok s" "timers_ok D s" "coros_ok D s" "running_ok s" "never_lost D s" "fresh_ok s"
  using assms by (simp_all add: sched_inv_def)

lemma update_job_simps [simp]:
  "sc_jobs (update_job j f s) = sc_jobs s" "sc_timers (update_job j f s) = sc_timers s" "sc_coros (update_job j f s) = sc_coros s"
  "sc_fresh (update_job j f s) = sc_fresh s" "sc_heap (update_job j f s) i = (if i = j then map_option f (sc_heap s j) else sc_heap s i)"
  "sc_fired (update_job j f s) = sc_fired s"
  by (simp_all add: update_job_def)

lemma sched_inv_init: "sched_inv {} no_jobs"
  by (simp add: sched_inv_def jobs_ok_def timers_ok_def coros_ok_def running_ok_def never_lost_def fresh_ok_def views
      job_known_def in_flight_def no_jobs_def)

text \<open>Each part of the invariant reads some of the state only.\<close>

lemma jobs_ok_frame: "jobs_ok s \<Longrightarrow> sc_jobs s' = sc_jobs s \<Longrightarrow> ident s' = ident s \<Longrightarrow> jobs_ok s'"
  by (simp add: jobs_ok_def)

lemma registered_frame: "sc_jobs s' = sc_jobs s \<Longrightarrow> job_known s' = job_known s"
  by (simp add: job_known_def fun_eq_iff)

lemma in_flight_frame: "sc_coros s' = sc_coros s \<Longrightarrow> in_flight s' = in_flight s"
  by (simp add: in_flight_def fun_eq_iff)

lemma armed_frame: "sc_timers s' = sc_timers s \<Longrightarrow> armed s' = armed s"
  by (simp add: armed_def fun_eq_iff)

lemma coros_ok_frame: "coros_ok D s \<Longrightarrow> sc_coros s' = sc_coros s \<Longrightarrow> ident s' = ident s \<Longrightarrow> D' \<subseteq> D \<Longrightarrow> coros_ok D' s'"
  by (auto simp: coros_ok_def)

lemma running_ok_frame: "running_ok s \<Longrightarrow> sc_coros s' = sc_coros s \<Longrightarrow> is_running s' = is_running s \<Longrightarrow> running_ok s'"
  by (simp add: running_ok_def)

lemma views_update_job:
  "(\<And>b. (jb_workspace (f b), jb_task (f b)) = (jb_workspace b, jb_task b)) \<Longrightarrow> ident (update_job j f s) = ident s"
  "(\<And>b. jb_running (f b) = jb_running b) \<Longrightarrow> is_running (update_job j f s) = is_running s"
  "(\<And>b. jb_timer (f b) = jb_timer b) \<Longrightarrow> timer_of (update_job j f s) = timer_of s"
  "(\<And>b. jb_next (f b) = jb_next b) \<Longrightarrow> exhausted (update_job j f s) = exhausted s"
  by (auto simp: views fun_eq_iff option.map_comp comp_def split: option.split)

lemma views_frame:
  "sc_heap s' = sc_heap s \<Longrightarrow> ident s' = ident s" "sc_heap s' = sc_heap s \<Longrightarrow> is_running s' = is_running s"
  "sc_heap s' = sc_heap s \<Longrightarrow> timer_of s' = timer_of s" "sc_heap s' = sc_heap s \<Longrightarrow> exhausted s' = exhausted s"
  by (simp_all add: views fun_eq_iff)


section \<open>Every operation keeps the invariant\<close>

lemma jobs_okD: "jobs_ok s \<Longrightarrow> dget (sc_jobs s) key = Some j \<Longrightarrow> ident s j = Some key"
  unfolding jobs_ok_def by blast

lemma jobs_ok_task:
  "jobs_ok s \<Longrightarrow> dget (sc_jobs s) k = Some i \<Longrightarrow> dget (sc_jobs s) k' = Some i' \<Longrightarrow> snd k = snd k' \<Longrightarrow> k = k'"
  unfolding jobs_ok_def by blast

lemma fresh_okD:
  assumes "fresh_ok s"
  shows "ident s j = Some key \<Longrightarrow> j < sc_fresh s" "timer_of s j = Some h \<Longrightarrow> h < sc_fresh s"
    "dget (sc_timers s) h = Some x \<Longrightarrow> h < sc_fresh s" "dget (sc_coros s) c = Some y \<Longrightarrow> c < sc_fresh s"
  using assms unfolding fresh_ok_def by blast+

lemma timers_okD:
  assumes "timers_ok D s"
  shows "dget (sc_timers s) h = Some (due, j) \<Longrightarrow> job_known s j" "dget (sc_timers s) h = Some (due, j) \<Longrightarrow> j \<notin> D"
    "dget (sc_timers s) h = Some (due, j) \<Longrightarrow> timer_of s j = Some h" "dget (sc_timers s) h = Some (due, j) \<Longrightarrow> \<not> in_flight s j"
    "timer_of s j = Some h \<Longrightarrow> timer_of s j' = Some h \<Longrightarrow> j = j'"
  using assms unfolding timers_ok_def by blast+

lemma coros_okD:
  assumes "coros_ok D s"
  shows "dget (sc_coros s) c = Some x \<Longrightarrow> of_timer j x \<Longrightarrow> ident s j \<noteq> None"
    "dget (sc_coros s) c = Some x \<Longrightarrow> of_timer j x \<Longrightarrow> j \<notin> D"
    "dget (sc_coros s) c = Some x \<Longrightarrow> dget (sc_coros s) c' = Some x' \<Longrightarrow> of_timer j x \<Longrightarrow> of_timer j x' \<Longrightarrow> c = c'"
  using assms unfolding coros_ok_def by blast+

lemma registered_ident: "jobs_ok s \<Longrightarrow> ident s j = Some key \<Longrightarrow> job_known s j \<longleftrightarrow> dget (sc_jobs s) key = Some j"
  unfolding job_known_def by (metis jobs_okD option.inject)

lemma registered_alive: "jobs_ok s \<Longrightarrow> job_known s j \<Longrightarrow> ident s j \<noteq> None"
  unfolding job_known_def by (metis jobs_okD option.distinct(1))

lemma arm_cases:
  assumes "sc_heap s j = Some b"
  obtains (never) "arm lib now j s = update_job j (\<lambda>b. b\<lparr>jb_next := None, jb_timer := None\<rparr>) s"
  | (timer) t capped due where "get_next_fire_time lib (jb_rule b) now (jb_tz b) = Some t"
      and "capped \<longleftrightarrow> max_timer_delay < max 0 (t - now)"
      and "due = now + (if capped then max_timer_delay else max 0 (t - now))"
      and "arm lib now j s = (update_job j (\<lambda>b. b\<lparr>jb_next := Some t, jb_capped := capped, jb_timer := Some (sc_fresh s)\<rparr>) s)
             \<lparr>sc_timers := dset (sc_fresh s) (due, j) (sc_timers s), sc_fresh := Suc (sc_fresh s)\<rparr>"
proof (cases "get_next_fire_time lib (jb_rule b) now (jb_tz b)")
  case None
  then show ?thesis using assms by (intro never) (simp add: arm_def)
next
  case (Some t)
  then show ?thesis using assms by (intro timer [OF Some refl refl]) (simp add: arm_def Let_def)
qed

lemma arm_never_inv:
  assumes inv: "sched_inv {j} s" and b: "sc_heap s j = Some b"
  shows "sched_inv {} (update_job j (\<lambda>b. b\<lparr>jb_next := None, jb_timer := None\<rparr>) s)" (is "sched_inv {} ?s'")
proof -
  note parts = sched_inv_parts [OF inv]
  have ident: "ident ?s' = ident s" and running: "is_running ?s' = is_running s" by (simp_all add: views_update_job)
  have timer_of: "timer_of ?s' i = (if i = j then None else timer_of s i)" for i by (simp add: timer_of_def b)
  have exhausted: "exhausted ?s' i \<longleftrightarrow> i = j \<or> exhausted s i" for i by (simp add: exhausted_def b)
  have frames: "job_known ?s' = job_known s" "in_flight ?s' = in_flight s" "armed ?s' = armed s"
    by (rule registered_frame in_flight_frame armed_frame; simp)+
  have "timers_ok {} ?s'" using parts(2) by (auto simp: timers_ok_def frames timer_of)
  moreover have "never_lost {} ?s'" using parts(5) by (auto simp: never_lost_def frames exhausted)
  moreover have "fresh_ok ?s'" using parts(6) by (auto simp: fresh_ok_def timer_of ident)
  ultimately show ?thesis
    using jobs_ok_frame [OF parts(1) _ ident] coros_ok_frame [OF parts(3) _ ident, of "{}"] running_ok_frame [OF parts(4) _ running]
    by (simp add: sched_inv_def)
qed

lemma arm_timer_inv:
  assumes inv: "sched_inv {j} s" and b: "sc_heap s j = Some b" and reg: "job_known s j"
  shows "sched_inv {} ((update_job j (\<lambda>b. b\<lparr>jb_next := Some t, jb_capped := capped, jb_timer := Some (sc_fresh s)\<rparr>) s)
      \<lparr>sc_timers := dset (sc_fresh s) (due, j) (sc_timers s), sc_fresh := Suc (sc_fresh s)\<rparr>)" (is "sched_inv {} ?s'")
proof -
  let ?u = "update_job j (\<lambda>b. b\<lparr>jb_next := Some t, jb_capped := capped, jb_timer := Some (sc_fresh s)\<rparr>) s"
  note parts = sched_inv_parts [OF inv]
  have heap: "sc_heap ?s' = sc_heap ?u" by simp
  have ident: "ident ?s' = ident s" and running: "is_running ?s' = is_running s"
    using views_frame(1,2) [OF heap] by (simp_all add: views_update_job)
  have timer_of: "timer_of ?s' i = (if i = j then Some (sc_fresh s) else timer_of s i)" for i by (simp add: timer_of_def b)
  have exhausted: "i \<noteq> j \<Longrightarrow> exhausted ?s' i = exhausted s i" for i by (simp add: exhausted_def)
  have frames: "job_known ?s' = job_known s" "in_flight ?s' = in_flight s"
    by (rule registered_frame in_flight_frame; simp)+
  have armed_j: "armed ?s' j" by (auto simp: armed_def intro: exI [of _ "sc_fresh s"])
  have armed: "armed ?s' i" if arm: "armed s i" for i
  proof -
    obtain h x where h: "dget (sc_timers s) h = Some (x, i)" using arm by (auto simp: armed_def)
    then have "h \<noteq> sc_fresh s" using fresh_okD(3) [OF parts(6) h] by simp
    then show ?thesis using h by (auto simp: armed_def intro!: exI [of _ h])
  qed
  have idle: "\<not> in_flight s j" using parts(3) by (auto simp: coros_ok_def in_flight_def)
  have old: "timer_of s i \<noteq> Some (sc_fresh s)" for i using parts(6) by (auto simp: fresh_ok_def)
  have "timers_ok {} ?s'"
    unfolding timers_ok_def
  proof (intro conjI allI impI)
    fix h due' i
    assume h: "dget (sc_timers ?s') h = Some (due', i)"
    show "job_known ?s' i" "i \<notin> {}" "timer_of ?s' i = Some h" "\<not> in_flight ?s' i"
      using h reg idle parts(2) by (auto simp: frames timer_of timers_ok_def split: if_splits)
  next
    fix i i' h
    assume "timer_of ?s' i = Some h" "timer_of ?s' i' = Some h"
    then show "i = i'" using parts(2) old by (auto simp: timer_of timers_ok_def split: if_splits)
  qed
  moreover have "never_lost {} ?s'"
    unfolding never_lost_def
  proof (intro allI impI)
    fix i
    assume "job_known ?s' i"
    then have "i = j \<or> armed s i \<or> in_flight s i \<or> exhausted s i" using parts(5) by (auto simp: never_lost_def frames)
    then show "i \<in> {} \<or> armed ?s' i \<or> in_flight ?s' i \<or> exhausted ?s' i"
      using armed_j armed [of i] exhausted [of i] frames(2) by metis
  qed
  moreover have "fresh_ok ?s'"
    using parts(6) by (auto simp: fresh_ok_def timer_of ident less_Suc_eq split: if_splits)
  ultimately show ?thesis
    using jobs_ok_frame [OF parts(1) _ ident] coros_ok_frame [OF parts(3) _ ident, of "{}"] running_ok_frame [OF parts(4) _ running]
    by (simp add: sched_inv_def)
qed

lemma arm_inv:
  assumes inv: "sched_inv {j} s" and reg: "job_known s j"
  shows "sched_inv {} (arm lib now j s)"
proof -
  have "ident s j \<noteq> None" using sched_inv_parts(1) [OF inv] reg by (rule registered_alive)
  then obtain b where b: "sc_heap s j = Some b" by (auto simp: ident_def)
  show ?thesis
    by (cases rule: arm_cases [OF b, of lib now]) (simp_all add: arm_never_inv [OF inv b] arm_timer_inv [OF inv b reg])
qed

lemma not_registered_inv:
  assumes "sched_inv {j} s" and "\<not> job_known s j"
  shows "sched_inv {} s"
  using assms by (auto simp: sched_inv_def timers_ok_def coros_ok_def never_lost_def)

lemma rearm_inv:
  assumes inv: "sched_inv {j} s" and "ident s j \<noteq> None"
  shows "sched_inv {} (rearm lib now j s)"
proof -
  obtain b where b: "sc_heap s j = Some b" using assms(2) by (auto simp: ident_def)
  have "job_known s j \<longleftrightarrow> dget (sc_jobs s) (jb_workspace b, jb_task b) = Some j"
    by (rule registered_ident [OF sched_inv_parts(1) [OF inv]]) (simp add: ident_def b)
  then show ?thesis using arm_inv [OF inv] not_registered_inv [OF inv] b by (auto simp: rearm_def)
qed


section \<open>Removing and registering\<close>

lemma cancel_simps [simp]:
  "sc_jobs (cancel_timer h s) = sc_jobs s" "sc_coros (cancel_timer h s) = sc_coros s" "sc_heap (cancel_timer h s) = sc_heap s"
  "sc_fresh (cancel_timer h s) = sc_fresh s" "sc_fired (cancel_timer h s) = sc_fired s"
  "dget (sc_timers (cancel_timer h s)) i = (if h = Some i then None else dget (sc_timers s) i)"
  by (auto simp: cancel_timer_def split: option.split)

lemma remove_one_inv:
  assumes inv: "sched_inv {} s" and key: "dget (sc_jobs s) key = Some j"
  shows "sched_inv {} (cancel_timer (timer_of s j) (s\<lparr>sc_jobs := ddel key (sc_jobs s)\<rparr>))" (is "sched_inv {} ?s'")
proof -
  note parts = sched_inv_parts [OF inv]
  have heap: "sc_heap ?s' = sc_heap s" by simp
  note views = views_frame [OF heap]
  have registered: "job_known ?s' i \<longleftrightarrow> job_known s i \<and> i \<noteq> j" for i
  proof -
    have "job_known ?s' i \<longleftrightarrow> (\<exists>k. k \<noteq> key \<and> dget (sc_jobs s) k = Some i)" by (auto simp: job_known_def)
    also have "\<dots> \<longleftrightarrow> job_known s i \<and> i \<noteq> j"
    proof
      assume "\<exists>k. k \<noteq> key \<and> dget (sc_jobs s) k = Some i"
      then obtain k where k: "k \<noteq> key" "dget (sc_jobs s) k = Some i" by blast
      then have "i \<noteq> j" using jobs_okD [OF parts(1) k(2)] jobs_okD [OF parts(1) key] by auto
      then show "job_known s i \<and> i \<noteq> j" using k(2) unfolding job_known_def by blast
    next
      assume "job_known s i \<and> i \<noteq> j"
      then obtain k where "dget (sc_jobs s) k = Some i" "i \<noteq> j" unfolding job_known_def by blast
      then show "\<exists>k. k \<noteq> key \<and> dget (sc_jobs s) k = Some i" using key by (intro exI [of _ k]) auto
    qed
    finally show ?thesis .
  qed
  have flight: "in_flight ?s' = in_flight s" by (rule in_flight_frame) simp
  have "jobs_ok ?s'"
    unfolding jobs_ok_def
  proof (intro conjI allI impI)
    show "dict_ok (sc_jobs ?s')" using parts(1) by (simp add: jobs_ok_def)
  next
    fix k i
    assume "dget (sc_jobs ?s') k = Some i"
    then show "ident ?s' i = Some k" using jobs_okD [OF parts(1), of k i] by (simp add: views split: if_splits)
  next
    fix k i k' i'
    assume "dget (sc_jobs ?s') k = Some i" "dget (sc_jobs ?s') k' = Some i'" and same: "snd k = snd k'"
    then have "dget (sc_jobs s) k = Some i" "dget (sc_jobs s) k' = Some i'" by (simp_all split: if_splits)
    then show "k = k'" using same by (rule jobs_ok_task [OF parts(1)])
  qed
  moreover have "timers_ok {} ?s'"
    unfolding timers_ok_def
  proof (intro conjI allI impI)
    fix h due i
    assume "dget (sc_timers ?s') h = Some (due, i)"
    then have h: "dget (sc_timers s) h = Some (due, i)" "timer_of s j \<noteq> Some h" by (simp_all split: if_splits)
    then have "job_known s i" "timer_of s i = Some h" "\<not> in_flight s i" using parts(2) by (simp_all add: timers_ok_def)
    then show "job_known ?s' i" "i \<notin> {}" "timer_of ?s' i = Some h" "\<not> in_flight ?s' i"
      using h(2) by (auto simp: registered views flight)
  next
    fix i i' h
    assume "timer_of ?s' i = Some h" "timer_of ?s' i' = Some h"
    then show "i = i'" using parts(2) by (simp add: timers_ok_def views)
  qed
  moreover have "never_lost {} ?s'"
    unfolding never_lost_def
  proof (intro allI impI)
    fix i
    assume "job_known ?s' i"
    then have i: "job_known s i" "i \<noteq> j" by (simp_all add: registered)
    have "armed ?s' i" if arm: "armed s i"
    proof -
      obtain h due where h: "dget (sc_timers s) h = Some (due, i)" using arm by (auto simp: armed_def)
      then have "timer_of s i = Some h" using parts(2) by (simp add: timers_ok_def)
      then have "timer_of s j \<noteq> Some h" using parts(2) i(2) by (auto simp: timers_ok_def)
      then show ?thesis using h by (auto simp: armed_def)
    qed
    then show "i \<in> {} \<or> armed ?s' i \<or> in_flight ?s' i \<or> exhausted ?s' i"
      using parts(5) i by (auto simp: never_lost_def flight views)
  qed
  moreover have "fresh_ok ?s'" using parts(6) by (auto simp: fresh_ok_def views split: if_splits)
  ultimately show ?thesis
    using coros_ok_frame [OF parts(3), of ?s'] running_ok_frame [OF parts(4), of ?s'] by (simp add: sched_inv_def views)
qed


lemma timer_of_eq: "(case sc_heap s j of None \<Rightarrow> None | Some b \<Rightarrow> jb_timer b) = timer_of s j"
  by (simp add: timer_of_def)

lemma task_of_key:
  "jobs_ok s \<Longrightarrow> dget (sc_jobs s) key = Some j \<Longrightarrow> map_option jb_task (sc_heap s j) = Some (snd key)"
  using jobs_okD [of s key j] by (auto simp: ident_def)

lemma remove_jobs_inv:
  assumes "sched_inv {} s" and "distinct (map fst L)" and "\<And>key j. (key, j) \<in> set L \<Longrightarrow> dget (sc_jobs s) key = Some j"
  shows "sched_inv {} (remove_jobs tid L s) \<and> sc_heap (remove_jobs tid L s) = sc_heap s
    \<and> sc_coros (remove_jobs tid L s) = sc_coros s \<and> sc_fresh (remove_jobs tid L s) = sc_fresh s
    \<and> sc_fired (remove_jobs tid L s) = sc_fired s
    \<and> (\<forall>key. dget (sc_jobs (remove_jobs tid L s)) key = (if snd key = tid \<and> key \<in> fst ` set L then None else dget (sc_jobs s) key))"
  using assms
proof (induction L arbitrary: s)
  case (Cons p L)
  obtain key j where p: "p = (key, j)" by (cases p)
  have key: "dget (sc_jobs s) key = Some j" using Cons.prems(3) p by simp
  have task: "map_option jb_task (sc_heap s j) = Some tid \<longleftrightarrow> snd key = tid"
    using task_of_key [OF sched_inv_parts(1) [OF Cons.prems(1)] key] by auto
  let ?s = "if snd key = tid then cancel_timer (timer_of s j) (s\<lparr>sc_jobs := ddel key (sc_jobs s)\<rparr>) else s"
  have eq: "remove_jobs tid (p # L) s = remove_jobs tid L ?s" unfolding p remove_jobs.simps task timer_of_eq ..
  have inv: "sched_inv {} ?s" using Cons.prems(1) remove_one_inv [OF Cons.prems(1) key] by simp
  have jobs: "dget (sc_jobs ?s) k = (if snd key = tid \<and> k = key then None else dget (sc_jobs s) k)" for k by simp
  have "key \<notin> fst ` set L" "distinct (map fst L)" using Cons.prems(2) p by simp_all
  moreover have "dget (sc_jobs ?s) k = Some i" if "(k, i) \<in> set L" for k i
    using that Cons.prems(3) [of k i] p jobs \<open>key \<notin> fst ` set L\<close> by force
  ultimately show ?case
    using Cons.IH [OF inv] unfolding eq jobs by (auto simp: p)
qed simp

lemma remove_task_inv:
  assumes inv: "sched_inv {} s"
  shows "sched_inv {} (remove_task tid s)" and "sc_heap (remove_task tid s) = sc_heap s"
    and "sc_coros (remove_task tid s) = sc_coros s" and "sc_fired (remove_task tid s) = sc_fired s"
    and "sc_fresh (remove_task tid s) = sc_fresh s"
    and "dget (sc_jobs (remove_task tid s)) key = (if snd key = tid then None else dget (sc_jobs s) key)"
proof -
  have "dict_ok (sc_jobs s)" using sched_inv_parts(1) [OF inv] by (simp add: jobs_ok_def)
  then have "distinct (map fst (sc_jobs s))" and "\<And>key j. (key, j) \<in> set (sc_jobs s) \<Longrightarrow> dget (sc_jobs s) key = Some j"
    by (simp_all add: dict_ok_def)
  from remove_jobs_inv [OF inv this] show "sched_inv {} (remove_task tid s)" and "sc_heap (remove_task tid s) = sc_heap s"
    and "sc_coros (remove_task tid s) = sc_coros s" and "sc_fired (remove_task tid s) = sc_fired s"
    and "sc_fresh (remove_task tid s) = sc_fresh s"
    and "dget (sc_jobs (remove_task tid s)) key = (if snd key = tid then None else dget (sc_jobs s) key)"
    by (auto simp: remove_task_def map_of_eq_None_iff [symmetric] simp del: split_paired_All)
qed

lemma new_job_inv:
  assumes inv: "sched_inv {} s" and free: "\<And>key. snd key = jb_task b \<Longrightarrow> dget (sc_jobs s) key = None"
    and b: "jb_timer b = None" "\<not> jb_running b"
    and s': "s' = s\<lparr>sc_heap := (sc_heap s)(sc_fresh s \<mapsto> b),
      sc_jobs := dset (jb_workspace b, jb_task b) (sc_fresh s) (sc_jobs s), sc_fresh := Suc (sc_fresh s)\<rparr>"
  shows "sched_inv {sc_fresh s} s'" and "job_known s' (sc_fresh s)"
proof -
  let ?j = "sc_fresh s"
  note parts = sched_inv_parts [OF inv]
  have new: "ident s ?j = None" using fresh_okD(1) [OF parts(6), of ?j] by (cases "ident s ?j") auto
  have ident: "ident s' i = (if i = ?j then Some (jb_workspace b, jb_task b) else ident s i)" for i by (simp add: ident_def s')
  have jobs: "dget (sc_jobs s') k = (if k = (jb_workspace b, jb_task b) then Some ?j else dget (sc_jobs s) k)" for k
    by (simp add: s')
  have timer_of: "timer_of s' i = (if i = ?j then None else timer_of s i)" for i by (simp add: timer_of_def b s')
  have running: "is_running s' = is_running s" using new by (auto simp: is_running_def ident_def b fun_eq_iff s')
  have exhausted: "i \<noteq> ?j \<Longrightarrow> exhausted s' i = exhausted s i" for i by (simp add: exhausted_def s')
  have flight: "in_flight s' = in_flight s" and armed: "armed s' = armed s"
    by (rule in_flight_frame armed_frame; simp add: s')+
  have unreg: "\<not> job_known s ?j" using registered_alive [OF parts(1)] new by blast
  have old_key: "dget (sc_jobs s) (jb_workspace b, jb_task b) = None" using free by simp
  have reg: "job_known s' i \<longleftrightarrow> i = ?j \<or> job_known s i" for i
    using old_key by (auto simp: job_known_def s') (metis option.distinct(1))+
  show "job_known s' (sc_fresh s)" by (simp add: reg)
  have idle: "\<not> in_flight s ?j" using coros_okD(1) [OF parts(3)] new unfolding in_flight_def by blast
  have "jobs_ok s'"
    unfolding jobs_ok_def
  proof (intro conjI allI impI)
    show "dict_ok (sc_jobs s')" using parts(1) by (simp add: jobs_ok_def s')
  next
    fix k i
    assume "dget (sc_jobs s') k = Some i"
    then show "ident s' i = Some k"
      using jobs_okD [OF parts(1), of k i] new by (auto simp: ident jobs split: if_splits)
  next
    fix k i k' i'
    assume k: "dget (sc_jobs s') k = Some i" "dget (sc_jobs s') k' = Some i'" "snd k = snd k'"
    show "k = k'"
    proof (cases "snd k = jb_task b")
      case True
      then show ?thesis using k free [of k] free [of k'] by (simp add: s' split: if_splits)
    next
      case False
      then have "dget (sc_jobs s) k = Some i" "dget (sc_jobs s) k' = Some i'" using k by (auto simp: s' split: if_splits)
      then show ?thesis using k(3) by (rule jobs_ok_task [OF parts(1)])
    qed
  qed
  moreover have "timers_ok {?j} s'"
    unfolding timers_ok_def
  proof (intro conjI allI impI)
    fix h due i
    assume "dget (sc_timers s') h = Some (due, i)"
    then have h: "dget (sc_timers s) h = Some (due, i)" by (simp add: s')
    note facts = timers_okD(1,3,4) [OF parts(2) h]
    then have "i \<noteq> ?j" using unreg by auto
    then show "job_known s' i" "i \<notin> {?j}" "timer_of s' i = Some h" "\<not> in_flight s' i"
      using facts by (simp_all add: reg timer_of flight)
  next
    fix i i' h
    assume "timer_of s' i = Some h" "timer_of s' i' = Some h"
    then show "i = i'" using timers_okD(5) [OF parts(2), of i h i'] by (simp add: timer_of split: if_splits)
  qed
  moreover have "coros_ok {?j} s'" using parts(3) idle unfolding coros_ok_def ident in_flight_def by (auto simp: s')
  moreover have "running_ok s'" by (rule running_ok_frame [OF parts(4) _ running]) (simp add: s')
  moreover have "never_lost {?j} s'" using parts(5) exhausted by (auto simp: never_lost_def reg flight armed)
  moreover have "fresh_ok s'"
    unfolding fresh_ok_def ident timer_of using fresh_okD [OF parts(6)] by (auto simp: less_Suc_eq s')
  ultimately show "sched_inv {?j} s'" by (simp add: sched_inv_def)
qed


lemma register_inv:
  assumes inv: "sched_inv {} s" and reg: "register lib now t s = Inr s'"
  shows "sched_inv {} s'"
proof -
  let ?s1 = "remove_task (tk_id t) s"
  note removed = remove_task_inv [OF inv, of "tk_id t"]
  obtain rule where rule: "validate_rrule lib (tk_rrule t) = Inr rule"
    using reg by (cases "validate_rrule lib (tk_rrule t)") (simp_all add: register_def)
  define b where "b = \<lparr>jb_task = tk_id t, jb_workspace = tk_workspace t, jb_rule = rule, jb_tz = resolve_tz lib (tk_timezone t),
      jb_next = None, jb_timer = None, jb_capped = False, jb_running = False\<rparr>"
  define s2 where "s2 = ?s1\<lparr>sc_heap := (sc_heap ?s1)(sc_fresh ?s1 \<mapsto> b),
      sc_jobs := dset (jb_workspace b, jb_task b) (sc_fresh ?s1) (sc_jobs ?s1), sc_fresh := Suc (sc_fresh ?s1)\<rparr>"
  have s': "s' = arm lib now (sc_fresh ?s1) s2"
    using reg rule by (simp add: register_def Let_def s2_def b_def)
  have free: "dget (sc_jobs ?s1) key = None" if "snd key = jb_task b" for key
    using removed(6) [of key] that by (simp add: b_def)
  have "sched_inv {sc_fresh ?s1} s2" "job_known s2 (sc_fresh ?s1)"
    by (rule new_job_inv [OF removed(1) free _ _ s2_def]; simp add: b_def)+
  then show ?thesis unfolding s' by (rule arm_inv)
qed

lemma try_register_inv: "sched_inv {} s \<Longrightarrow> sched_inv {} (try_register lib now t s)"
  using register_inv by (simp add: try_register_def split: sum.split)

lemma frame_inv:
  assumes "sched_inv D s" and "sc_jobs s' = sc_jobs s" "sc_heap s' = sc_heap s" "sc_timers s' = sc_timers s"
    "sc_coros s' = sc_coros s" "sc_fresh s' = sc_fresh s"
  shows "sched_inv D s'"
  using assms views_frame [OF assms(3)] registered_frame [OF assms(2)] in_flight_frame [OF assms(5)] armed_frame [OF assms(4)]
  by (simp add: sched_inv_def jobs_ok_def timers_ok_def coros_ok_def running_ok_def never_lost_def fresh_ok_def)

lemma start_inv: "sched_inv {} s \<Longrightarrow> sched_inv {} (start lib now active s)"
proof -
  assume inv: "sched_inv {} s"
  have "sched_inv {} (foldl (\<lambda>s t. try_register lib now t s) s active)"
    using inv by (induction active arbitrary: s) (simp_all add: try_register_inv)
  then have "sched_inv {} ((foldl (\<lambda>s t. try_register lib now t s) s active)\<lparr>sc_started := True\<rparr>)" by (rule frame_inv) simp_all
  then show ?thesis using inv by (simp add: start_def)
qed

lemma stop_inv:
  assumes inv: "sched_inv {} s"
  shows "sched_inv {} (stop s)"
proof -
  note parts = sched_inv_parts [OF inv]
  let ?f = "\<lambda>s (key :: int \<times> string, j). cancel_timer (case sc_heap s j of None \<Rightarrow> None | Some b \<Rightarrow> jb_timer b) s"
  have fold: "sc_heap (foldl ?f s L) = sc_heap s \<and> sc_coros (foldl ?f s L) = sc_coros s \<and> sc_fresh (foldl ?f s L) = sc_fresh s
      \<and> (\<forall>h x. dget (sc_timers (foldl ?f s L)) h = Some x \<longrightarrow>
           dget (sc_timers s) h = Some x \<and> (\<forall>(key, j) \<in> set L. timer_of s j \<noteq> Some h))" for L s
  proof (induction L arbitrary: s)
    case (Cons p L)
    obtain key j where p: "p = (key, j)" by (cases p)
    let ?s = "cancel_timer (timer_of s j) s"
    have eq: "foldl ?f s (p # L) = foldl ?f ?s L" by (simp add: p timer_of_eq)
    have "dget (sc_timers s) h = Some x \<and> (\<forall>(key, j) \<in> set (p # L). timer_of s j \<noteq> Some h)"
      if "dget (sc_timers (foldl ?f ?s L)) h = Some x" for h x
    proof -
      from Cons.IH [of ?s] that
      have "dget (sc_timers ?s) h = Some x" "\<forall>(key, j) \<in> set L. timer_of ?s j \<noteq> Some h" by blast+
      moreover have "timer_of ?s = timer_of s" by (rule views_frame(3)) simp
      ultimately show ?thesis by (auto simp: p split: if_splits)
    qed
    then show ?case unfolding eq using Cons.IH [of ?s] by simp
  qed simp
  have heap: "sc_heap (stop s) = sc_heap s" and coros: "sc_coros (stop s) = sc_coros s" and fresh: "sc_fresh (stop s) = sc_fresh s"
    using fold [of s "sc_jobs s"] by (simp_all add: stop_def)
  have no_timer: "dget (sc_timers (stop s)) h = None" for h
  proof (rule ccontr)
    assume "dget (sc_timers (stop s)) h \<noteq> None"
    then obtain due j where h: "dget (sc_timers (foldl ?f s (sc_jobs s))) h = Some (due, j)" by (auto simp: stop_def)
    then have "dget (sc_timers s) h = Some (due, j)" "\<forall>(key, j) \<in> set (sc_jobs s). timer_of s j \<noteq> Some h"
      using fold [of s "sc_jobs s"] by blast+
    moreover from this(1) obtain key where "dget (sc_jobs s) key = Some j" "timer_of s j = Some h"
      using timers_okD(1,3) [OF parts(2)] unfolding job_known_def by blast
    ultimately show False by (auto dest: map_of_SomeD)
  qed
  have unreg: "\<not> job_known (stop s) j" for j by (simp add: job_known_def stop_def)
  note views = views_frame [OF heap]
  have "jobs_ok (stop s)" by (simp add: jobs_ok_def stop_def)
  moreover have "timers_ok {} (stop s)" using parts(2) by (simp add: timers_ok_def no_timer views)
  moreover have "never_lost {} (stop s)" by (simp add: never_lost_def unreg)
  moreover have "fresh_ok (stop s)" using parts(6) by (simp add: fresh_ok_def views no_timer coros fresh)
  ultimately show ?thesis
    using coros_ok_frame [OF parts(3) coros] running_ok_frame [OF parts(4) coros] by (simp add: sched_inv_def views)
qed

section \<open>Firing keeps the invariant\<close>

lemma in_flight_insert:
  assumes "dget (sc_coros s) c = None" and "\<And>d. dget (sc_coros s') d = (if d = c then Some y else dget (sc_coros s) d)"
  shows "in_flight s' i \<longleftrightarrow> of_timer i y \<or> in_flight s i"
proof
  assume "in_flight s' i"
  then show "of_timer i y \<or> in_flight s i" unfolding in_flight_def assms(2) by (auto split: if_splits)
next
  assume "of_timer i y \<or> in_flight s i"
  then show "in_flight s' i"
  proof
    assume "of_timer i y"
    then show ?thesis unfolding in_flight_def assms(2) by (intro exI [of _ c]) auto
  next
    assume "in_flight s i"
    then obtain d x where "dget (sc_coros s) d = Some x" "of_timer i x" unfolding in_flight_def by blast
    then show ?thesis using assms(1) unfolding in_flight_def assms(2) by (intro exI [of _ d]) auto
  qed
qed

lemma tick_inv:
  assumes inv: "sched_inv {} s"
  shows "sched_inv {} (tick h s)"
proof (cases "dget (sc_timers s) h")
  case (Some x)
  obtain due j where x: "x = (due, j)" by (cases x)
  note parts = sched_inv_parts [OF inv]
  note timer = timers_okD(1,3,4) [OF parts(2) Some [unfolded x]]
  let ?c = "sc_fresh s"
  let ?s' = "tick h s"
  have eq: "?s' = s\<lparr>sc_timers := ddel h (sc_timers s), sc_coros := dset ?c (Woken j) (sc_coros s), sc_fresh := Suc ?c\<rparr>"
    using Some by (simp add: tick_def x Let_def)
  have comps: "dget (sc_timers ?s') i = (if i = h then None else dget (sc_timers s) i)"
    "dget (sc_coros ?s') d = (if d = ?c then Some (Woken j) else dget (sc_coros s) d)" "sc_fresh ?s' = Suc ?c" for i d
    by (simp_all add: eq)
  have heap: "sc_heap ?s' = sc_heap s" and jobs: "sc_jobs ?s' = sc_jobs s" by (simp_all add: eq)
  note views = views_frame [OF heap] registered_frame [OF jobs]
  have unused: "dget (sc_coros s) ?c = None" using fresh_okD(4) [OF parts(6)] by (metis less_irrefl option.exhaust)
  have flight: "in_flight ?s' i \<longleftrightarrow> i = j \<or> in_flight s i" for i
    using in_flight_insert [OF unused, of ?s' "Woken j" i] comps(2) by auto
  have alive: "ident s j \<noteq> None" using registered_alive [OF parts(1) timer(1)] .
  have "timers_ok {} ?s'"
    unfolding timers_ok_def
  proof (intro conjI allI impI)
    fix i due' k
    assume "dget (sc_timers ?s') i = Some (due', k)"
    then have i: "i \<noteq> h" "dget (sc_timers s) i = Some (due', k)" by (simp_all add: comps split: if_splits)
    note facts = timers_okD(1,3,4) [OF parts(2) i(2)]
    then have "k \<noteq> j" using timer(2) i(1) by auto
    then show "job_known ?s' k" "k \<notin> {}" "timer_of ?s' k = Some i" "\<not> in_flight ?s' k" using facts by (simp_all add: views flight)
  next
    fix i i' k
    assume "timer_of ?s' i = Some k" "timer_of ?s' i' = Some k"
    then show "i = i'" using timers_okD(5) [OF parts(2)] by (simp add: views)
  qed
  moreover have "coros_ok {} ?s'"
    unfolding coros_ok_def
  proof (intro conjI allI impI)
    fix d x i
    assume "dget (sc_coros ?s') d = Some x" "of_timer i x"
    then show "ident ?s' i \<noteq> None" "i \<notin> {}" using coros_okD(1) [OF parts(3)] alive by (auto simp: comps views split: if_splits)
  next
    fix d d' x x' i
    assume "dget (sc_coros ?s') d = Some x" "dget (sc_coros ?s') d' = Some x'" "of_timer i x" "of_timer i x'"
    moreover have "\<not> of_timer j y" if "dget (sc_coros s) e = Some y" for e y
      using that timer(3) unfolding in_flight_def by blast
    ultimately show "d = d'" using coros_okD(3) [OF parts(3)] unfolding comps by (auto split: if_splits)
  qed
  moreover have "running_ok ?s'"
  proof -
    have eq: "dget (sc_coros ?s') d = Some x \<and> firing i x \<longleftrightarrow> dget (sc_coros s) d = Some x \<and> firing i x" for d x i
      using unused by (auto simp: comps)
    have "is_running ?s' i \<longleftrightarrow> (\<exists>d x. dget (sc_coros ?s') d = Some x \<and> firing i x)" for i
      unfolding eq views using parts(4) by (simp add: running_ok_def)
    moreover have "d = d'" if "dget (sc_coros ?s') d = Some x" "dget (sc_coros ?s') d' = Some x'" "firing i x" "firing i x'" for d d' x x' i
      using parts(4) that eq [of d x i] eq [of d' x' i] unfolding running_ok_def by blast
    ultimately show ?thesis unfolding running_ok_def by blast
  qed
  moreover have "never_lost {} ?s'"
    unfolding never_lost_def
  proof (intro allI impI)
    fix i
    assume "job_known ?s' i"
    then have "armed s i \<or> in_flight s i \<or> exhausted s i" using parts(5) by (simp add: never_lost_def views)
    moreover have "armed ?s' i \<or> i = j" if "armed s i"
    proof -
      obtain k due' where k: "dget (sc_timers s) k = Some (due', i)" using \<open>armed s i\<close> by (auto simp: armed_def)
      then show ?thesis using Some by (cases "k = h") (auto simp: armed_def comps x)
    qed
    ultimately show "i \<in> {} \<or> armed ?s' i \<or> in_flight ?s' i \<or> exhausted ?s' i" by (auto simp: flight views)
  qed
  moreover have "fresh_ok ?s'"
    unfolding fresh_ok_def views comps using fresh_okD [OF parts(6)] by (auto simp: less_Suc_eq)
  ultimately show ?thesis using jobs_ok_frame [OF parts(1) jobs] by (simp add: sched_inv_def views)
qed (use inv in \<open>simp add: tick_def\<close>)


lemma add_coroutine_inv:
  \<comment> \<open>a coroutine begins to await \<open>on_fire\<close>\<close>
  assumes inv: "sched_inv {i. of_timer i x} s" and x: "firing j x" and idle: "\<not> is_running s j" and alive: "ident s j \<noteq> None"
    and same: "sc_jobs s' = sc_jobs s" "sc_timers s' = sc_timers s" "sc_fresh s' = Suc (sc_fresh s)"
      "ident s' = ident s" "timer_of s' = timer_of s" "exhausted s' = exhausted s"
    and running: "\<And>i. is_running s' i \<longleftrightarrow> i = j \<or> is_running s i"
    and coros: "\<And>d. dget (sc_coros s') d = (if d = sc_fresh s then Some x else dget (sc_coros s) d)"
  shows "sched_inv {} s'"
proof -
  note parts = sched_inv_parts [OF inv]
  have unused: "dget (sc_coros s) (sc_fresh s) = None" using fresh_okD(4) [OF parts(6)] by (metis less_irrefl option.exhaust)
  have one: "firing i x \<longleftrightarrow> i = j" for i using x by (cases x) auto
  have mine: "of_timer i x \<Longrightarrow> i = j" for i using x by (cases x) auto
  note flight = in_flight_insert [OF unused, of s', OF coros]
  note frames = registered_frame [OF same(1)] armed_frame [OF same(2)]
  have none: "\<not> of_timer i y" if "dget (sc_coros s) d = Some y" "of_timer i x" for d i y
    using coros_okD(2) [OF parts(3) that(1)] that(2) by blast
  have no_fire: "\<not> firing j y" if "dget (sc_coros s) d = Some y" for d y
    using that idle parts(4) unfolding running_ok_def by blast
  have "timers_ok {} s'"
    unfolding timers_ok_def same
  proof (intro conjI allI impI)
    fix h due i
    assume h: "dget (sc_timers s) h = Some (due, i)"
    note facts = timers_okD(1-4) [OF parts(2) h]
    then show "job_known s' i" "i \<notin> {}" "timer_of s i = Some h" "\<not> in_flight s' i" by (simp_all add: frames flight)
  next
    fix i i' h
    assume "timer_of s i = Some h" "timer_of s i' = Some h"
    then show "i = i'" by (rule timers_okD(5) [OF parts(2)])
  qed
  moreover have "coros_ok {} s'"
    unfolding coros_ok_def
  proof (intro conjI allI impI)
    fix d y i
    assume "dget (sc_coros s') d = Some y" "of_timer i y"
    then show "ident s' i \<noteq> None" "i \<notin> {}"
      using coros_okD(1) [OF parts(3)] alive mine by (auto simp: coros same split: if_splits)
  next
    fix d d' y y' i
    assume "dget (sc_coros s') d = Some y" "dget (sc_coros s') d' = Some y'" "of_timer i y" "of_timer i y'"
    then show "d = d'" using coros_okD(3) [OF parts(3)] none unfolding coros by (auto split: if_splits)
  qed
  moreover have "running_ok s'"
    unfolding running_ok_def
  proof (intro conjI allI impI)
    fix i
    have "is_running s' i \<longleftrightarrow> i = j \<or> (\<exists>d y. dget (sc_coros s) d = Some y \<and> firing i y)"
      using parts(4) by (simp add: running running_ok_def)
    also have "\<dots> \<longleftrightarrow> (\<exists>d y. dget (sc_coros s') d = Some y \<and> firing i y)"
      unfolding coros using unused one by (metis (no_types, lifting) option.distinct(1) option.inject)
    finally show "is_running s' i \<longleftrightarrow> (\<exists>d y. dget (sc_coros s') d = Some y \<and> firing i y)" .
  next
    fix d d' y y' i
    assume "dget (sc_coros s') d = Some y" "dget (sc_coros s') d' = Some y'" "firing i y" "firing i y'"
    then show "d = d'" using parts(4) no_fire one unfolding running_ok_def coros by (auto split: if_splits)
  qed
  moreover have "never_lost {} s'"
    using parts(5) by (auto simp: never_lost_def frames flight same)
  moreover have "fresh_ok s'"
    unfolding fresh_ok_def same coros using fresh_okD [OF parts(6)] by (auto simp: less_Suc_eq)
  ultimately show ?thesis using jobs_ok_frame [OF parts(1) same(1,4)] by (simp add: sched_inv_def)
qed

lemma drop_coroutine_inv:
  \<comment> \<open>a coroutine ends; the job of a timer's coroutine is left without a timer\<close>
  assumes inv: "sched_inv {} s" and c: "dget (sc_coros s) c = Some x"
    and same: "sc_jobs s' = sc_jobs s" "sc_timers s' = sc_timers s" "sc_fresh s' = sc_fresh s"
      "ident s' = ident s" "timer_of s' = timer_of s" "exhausted s' = exhausted s"
    and running: "\<And>i. is_running s' i \<longleftrightarrow> is_running s i \<and> \<not> firing i x"
    and coros: "\<And>d. dget (sc_coros s') d = (if d = c then None else dget (sc_coros s) d)"
  shows "sched_inv {i. of_timer i x} s'"
proof -
  note parts = sched_inv_parts [OF inv]
  have flight: "in_flight s' i \<longleftrightarrow> in_flight s i \<and> \<not> of_timer i x" for i
  proof -
    have "in_flight s' i \<longleftrightarrow> (\<exists>d y. d \<noteq> c \<and> dget (sc_coros s) d = Some y \<and> of_timer i y)" unfolding in_flight_def coros by auto
    also have "\<dots> \<longleftrightarrow> in_flight s i \<and> \<not> of_timer i x"
      unfolding in_flight_def using coros_okD(3) [OF parts(3)] c by (metis option.inject)
    finally show ?thesis .
  qed
  note frames = registered_frame [OF same(1)] armed_frame [OF same(2)]
  have "timers_ok {i. of_timer i x} s'"
    unfolding timers_ok_def same
  proof (intro conjI allI impI)
    fix h due i
    assume h: "dget (sc_timers s) h = Some (due, i)"
    note facts = timers_okD(1,3,4) [OF parts(2) h]
    moreover have "\<not> of_timer i x" using facts(3) c unfolding in_flight_def by blast
    ultimately show "job_known s' i" "i \<notin> {i. of_timer i x}" "timer_of s i = Some h" "\<not> in_flight s' i"
      by (simp_all add: frames flight)
  next
    fix i i' h
    assume "timer_of s i = Some h" "timer_of s i' = Some h"
    then show "i = i'" by (rule timers_okD(5) [OF parts(2)])
  qed
  moreover have "coros_ok {i. of_timer i x} s'"
    unfolding coros_ok_def
  proof (intro conjI allI impI)
    fix d y i
    assume "dget (sc_coros s') d = Some y" and i: "of_timer i y"
    then have d: "d \<noteq> c" "dget (sc_coros s) d = Some y" by (simp_all add: coros split: if_splits)
    show "ident s' i \<noteq> None" using coros_okD(1) [OF parts(3) d(2) i] by (simp add: same)
    show "i \<notin> {i. of_timer i x}" using coros_okD(3) [OF parts(3) d(2) c i] d(1) by auto
  next
    fix d d' y y' i
    assume "dget (sc_coros s') d = Some y" "dget (sc_coros s') d' = Some y'" "of_timer i y" "of_timer i y'"
    then show "d = d'" using coros_okD(3) [OF parts(3)] unfolding coros by (auto split: if_splits)
  qed
  moreover have "running_ok s'"
    unfolding running_ok_def
  proof (intro conjI allI impI)
    fix i
    have "is_running s' i \<longleftrightarrow> (\<exists>d y. dget (sc_coros s) d = Some y \<and> firing i y) \<and> \<not> firing i x"
      using parts(4) by (simp add: running running_ok_def)
    also have "\<dots> \<longleftrightarrow> (\<exists>d y. d \<noteq> c \<and> dget (sc_coros s) d = Some y \<and> firing i y)"
      using parts(4) c unfolding running_ok_def by (metis option.inject)
    also have "\<dots> \<longleftrightarrow> (\<exists>d y. dget (sc_coros s') d = Some y \<and> firing i y)" unfolding coros by auto
    finally show "is_running s' i \<longleftrightarrow> (\<exists>d y. dget (sc_coros s') d = Some y \<and> firing i y)" .
  next
    fix d d' y y' i
    assume "dget (sc_coros s') d = Some y" "dget (sc_coros s') d' = Some y'" "firing i y" "firing i y'"
    then show "d = d'" using parts(4) unfolding running_ok_def coros by (auto split: if_splits)
  qed
  moreover have "never_lost {i. of_timer i x} s'"
    using parts(5) by (auto simp: never_lost_def frames flight same)
  moreover have "fresh_ok s'"
    unfolding fresh_ok_def same coros using fresh_okD [OF parts(6)] by auto
  ultimately show ?thesis using jobs_ok_frame [OF parts(1) same(1,4)] by (simp add: sched_inv_def)
qed


lemma fire_job_cases:
  assumes "fire_job now j rearms t s = Some (s', c)"
  shows "s' = (update_job j (\<lambda>b. b\<lparr>jb_running := True\<rparr>) s)\<lparr>sc_coros := dset (sc_fresh s) (Firing j rearms t) (sc_coros s),
      sc_fresh := Suc (sc_fresh s), sc_fired := sc_fired s @ [(j, rearms, t)]\<rparr>"
    and "\<not> is_running s j" and "ident s j \<noteq> None" and "now - t \<le> MISFIRE_GRACE_TIME_S"
  using assms by (auto simp: fire_job_def is_running_def ident_def Let_def split: option.splits if_splits)

lemma fire_job_inv:
  assumes inv: "sched_inv {i. i = j \<and> rearms} s" and fire: "fire_job now j rearms t s = Some (s', c)"
  shows "sched_inv {} s'"
proof -
  note new = fire_job_cases [OF fire]
  let ?u = "update_job j (\<lambda>b. b\<lparr>jb_running := True\<rparr>) s"
  have heap: "sc_heap s' = sc_heap ?u" by (simp add: new(1))
  have D: "{i. of_timer i (Firing j rearms t)} = {i. i = j \<and> rearms}" by auto
  show ?thesis
  proof (rule add_coroutine_inv [where x = "Firing j rearms t" and j = j and s = s])
    show "ident s' = ident s" "timer_of s' = timer_of s" "exhausted s' = exhausted s"
      using views_frame [OF heap] by (simp_all add: views_update_job)
    show "is_running s' i \<longleftrightarrow> i = j \<or> is_running s i" for i
      using new(3) heap by (auto simp: is_running_def ident_def split: option.split)
    show "dget (sc_coros s') d = (if d = sc_fresh s then Some (Firing j rearms t) else dget (sc_coros s) d)" for d
      by (simp add: new(1))
  qed (use inv new in \<open>simp_all only: D firing.simps\<close>, simp_all add: new(1))
qed

lemma fire_inv:
  assumes inv: "sched_inv {} s"
  shows "sched_inv {} (fire now tid s)"
proof -
  have "sched_inv {} s'" if "fire_job now j False now s = Some (s', c)" for j s' c
    using fire_job_inv [OF _ that] inv by simp
  then show ?thesis using inv by (auto simp: fire_def split: option.split)
qed

lemma begin_inv:
  assumes inv: "sched_inv {} s"
  shows "sched_inv {} (begin_coroutine lib now c s)"
proof (cases "\<exists>j. dget (sc_coros s) c = Some (Woken j)")
  case True
  then obtain j where c: "dget (sc_coros s) c = Some (Woken j)" by blast
  let ?s1 = "s\<lparr>sc_coros := ddel c (sc_coros s)\<rparr>"
  have views: "ident ?s1 = ident s" "timer_of ?s1 = timer_of s" "exhausted ?s1 = exhausted s" "is_running ?s1 = is_running s"
    by (rule views_frame; simp)+
  have "sched_inv {i. of_timer i (Woken j)} ?s1"
    by (rule drop_coroutine_inv [OF inv c]) (simp_all add: views)
  then have inv1: "sched_inv {j} ?s1" by simp
  have alive: "ident ?s1 j \<noteq> None" using coros_okD(1) [OF sched_inv_parts(3) [OF inv] c] views by simp
  then obtain b where b: "sc_heap s j = Some b" by (auto simp: ident_def)
  note rearmed = rearm_inv [OF inv1 alive, of lib now]
  have fired: "sched_inv {} s2" if "fire_job now j True t ?s1 = Some (s2, d)" for t s2 d
    by (rule fire_job_inv [OF _ that]) (use inv1 in simp)
  show ?thesis
    using rearmed fired c b by (auto simp: begin_coroutine_def Let_def split: option.split)
next
  case False
  then have "begin_coroutine lib now c s = s" by (auto simp: begin_coroutine_def split: option.split coroutine.split)
  then show ?thesis using inv by simp
qed

lemma finish_inv:
  assumes inv: "sched_inv {} s"
  shows "sched_inv {} (finish_coroutine lib now c s)"
proof (cases "\<exists>j r t. dget (sc_coros s) c = Some (Firing j r t)")
  case True
  then obtain j r t where c: "dget (sc_coros s) c = Some (Firing j r t)" by blast
  let ?s0 = "s\<lparr>sc_coros := ddel c (sc_coros s)\<rparr>"
  let ?s1 = "update_job j (\<lambda>b. b\<lparr>jb_running := False\<rparr>) ?s0"
  have views0: "ident ?s0 = ident s" "timer_of ?s0 = timer_of s" "exhausted ?s0 = exhausted s" "is_running ?s0 = is_running s"
    by (rule views_frame; simp)+
  have views: "ident ?s1 = ident s" "timer_of ?s1 = timer_of s" "exhausted ?s1 = exhausted s"
    using views0 by (simp_all add: views_update_job)
  have "sched_inv {i. of_timer i (Firing j r t)} ?s1"
  proof (rule drop_coroutine_inv [OF inv c])
    show "is_running ?s1 i \<longleftrightarrow> is_running s i \<and> \<not> firing i (Firing j r t)" for i
      by (auto simp: is_running_def split: option.split)
  qed (simp_all add: views)
  moreover have "is_running s j" using sched_inv_parts(4) [OF inv] c unfolding running_ok_def by (metis firing.simps(2))
  then have alive: "ident ?s1 j \<noteq> None" unfolding views by (auto simp: is_running_def ident_def split: option.splits)
  ultimately have "sched_inv {} (if r then rearm lib now j ?s1 else ?s1)"
    using rearm_inv [OF _ alive, of lib now] by (cases r) simp_all
  then show ?thesis using c by (simp add: finish_coroutine_def Let_def)
next
  case False
  then have "finish_coroutine lib now c s = s" by (auto simp: finish_coroutine_def split: option.split coroutine.split)
  then show ?thesis using inv by simp
qed

lemma add_task_inv: "sched_inv {} s \<Longrightarrow> sched_inv {} (add_task lib now t s)"
  by (simp add: add_task_def try_register_inv)

lemma sched_step_inv: "sched_inv {} s \<Longrightarrow> sched_inv {} (sched_step lib s op)"
  by (cases op) (simp_all add: start_inv stop_inv add_task_inv update_task_def remove_task_inv(1) fire_inv tick_inv begin_inv finish_inv)

interpretation scheds: op_machine "sched_step lib" "sched_inv {}" no_jobs for lib
  by unfold_locales (rule sched_inv_init, erule sched_step_inv)


section \<open>Properties of the scheduler\<close>

text \<open>
  C33: No task is lost and none has two timers. After any interleaving of calls, timers and coroutines, a
  registered job has a timer, or a run of its timer's coroutine is in flight, or its rule has no further
  occurrence; it never has a timer and such a run at once, nor two timers; timers belong to registered
  jobs only; a task has one job; and \<open>on_fire\<close> is never awaited twice at once for a job.
\<close>
theorem every_task_keeps_one_timer:
  assumes "s = foldl (sched_step lib) no_jobs ops"
  shows "(job_known s j \<longrightarrow> armed s j \<or> in_flight s j \<or> exhausted s j)
    \<and> (armed s j \<longrightarrow> job_known s j \<and> \<not> in_flight s j)
    \<and> (dget (sc_timers s) h = Some (due, j) \<and> dget (sc_timers s) h' = Some (due', j) \<longrightarrow> h = h')
    \<and> (dget (sc_jobs s) key = Some i \<and> dget (sc_jobs s) key' = Some i' \<and> snd key = snd key' \<longrightarrow> key = key' \<and> i = i')
    \<and> (dget (sc_coros s) c = Some (Firing j r t) \<and> dget (sc_coros s) c' = Some (Firing j r' t') \<longrightarrow> c = c')"
proof (intro conjI)
  have inv: "sched_inv {} s" unfolding assms by (rule scheds.inv_run)
  note parts = sched_inv_parts [OF inv]
  show "job_known s j \<longrightarrow> armed s j \<or> in_flight s j \<or> exhausted s j" using parts(5) by (auto simp: never_lost_def)
  show "armed s j \<longrightarrow> job_known s j \<and> \<not> in_flight s j"
    using timers_okD(1,4) [OF parts(2)] unfolding armed_def by blast
  show "dget (sc_timers s) h = Some (due, j) \<and> dget (sc_timers s) h' = Some (due', j) \<longrightarrow> h = h'"
    using timers_okD(3) [OF parts(2)] by (metis option.inject)
  show "dget (sc_jobs s) key = Some i \<and> dget (sc_jobs s) key' = Some i' \<and> snd key = snd key' \<longrightarrow> key = key' \<and> i = i'"
    using jobs_ok_task [OF parts(1)] by (metis option.inject)
  show "dget (sc_coros s) c = Some (Firing j r t) \<and> dget (sc_coros s) c' = Some (Firing j r' t') \<longrightarrow> c = c'"
    using parts(4) unfolding running_ok_def by (metis firing.simps(2))
qed

section \<open>Sampling a rule\<close>

lemma sample_gaps_le:
  "sample_gaps occ fuel n prev wend (Some x) = (n', gap') \<Longrightarrow> \<exists>g. gap' = Some g \<and> g \<le> x"
proof (induction fuel arbitrary: n prev x)
  case (Suc fuel)
  then show ?case
  proof (cases "occ n")
    case (Some t)
    show ?thesis
    proof (cases "wend \<le> t \<or> max_sample_occurrences \<le> Suc n")
      case False
      then have "sample_gaps occ fuel (Suc n) t wend (Some (min x (t - prev))) = (n', gap')"
        using Suc.prems Some by (simp add: tighter_def)
      from Suc.IH [OF this] show ?thesis by auto
    qed (use Suc.prems Some in \<open>auto simp: tighter_def\<close>)
  qed auto
qed auto

lemma sample_gaps_sees:
  assumes "sample_gaps occ fuel n prev wend gap = (n', gap')"
    and "n \<le> i" "i < max_sample_occurrences" "max_sample_occurrences \<le> n + fuel"
    and "if i = n then p = prev else occ (i - 1) = Some p" and "occ i = Some t"
    and "\<And>k. n \<le> k \<Longrightarrow> k < i \<Longrightarrow> \<exists>tk. occ k = Some tk \<and> tk < wend"
  shows "\<exists>g. gap' = Some g \<and> g \<le> t - p"
  using assms
proof (induction fuel arbitrary: n prev gap)
  case (Suc fuel)
  obtain tn where tn: "occ n = Some tn"
    using Suc.prems(2,6) Suc.prems(7) [of n] by (cases "i = n") auto
  show ?case
  proof (cases "i = n")
    case True
    then have "t = tn" "p = prev" using Suc.prems(5,6) tn by simp_all
    show ?thesis
    proof (cases "wend \<le> tn \<or> max_sample_occurrences \<le> Suc n")
      case stop: True
      then have "gap' = tighter gap (tn - prev)" using Suc.prems(1) tn by simp
      then show ?thesis using \<open>t = tn\<close> \<open>p = prev\<close> by (auto simp: tighter_def split: option.split)
    next
      case False
      then have "sample_gaps occ fuel (Suc n) tn wend (tighter gap (tn - prev)) = (n', gap')" using Suc.prems(1) tn by simp
      moreover obtain x where "tighter gap (tn - prev) = Some x" "x \<le> tn - prev" by (auto simp: tighter_def split: option.split)
      ultimately show ?thesis using sample_gaps_le [of occ fuel "Suc n" tn wend x] \<open>t = tn\<close> \<open>p = prev\<close> by force
    qed
  next
    case False
    then have "Suc n \<le> i" using Suc.prems(2) by simp
    have "tn < wend" using Suc.prems(7) [of n] False Suc.prems(2) tn by auto
    moreover have "Suc n < max_sample_occurrences" using \<open>Suc n \<le> i\<close> Suc.prems(3) by simp
    ultimately have "sample_gaps occ fuel (Suc n) tn wend (tighter gap (tn - prev)) = (n', gap')" using Suc.prems(1) tn by simp
    then show ?thesis
      by (rule Suc.IH) (use Suc.prems False \<open>Suc n \<le> i\<close> tn in \<open>auto simp: Suc_le_eq split: if_splits\<close>)
  qed
qed simp

lemma sample_gaps_real:
  assumes "sample_gaps occ fuel n prev wend gap = (n', Some g)"
  shows "gap = Some g \<or> (\<exists>i p t. n \<le> i \<and> (if i = n then p = prev else occ (i - 1) = Some p \<and> p < wend \<and> i < max_sample_occurrences)
    \<and> occ i = Some t \<and> g = t - p)"
  using assms
proof (induction fuel arbitrary: n prev gap)
  case (Suc fuel)
  show ?case
  proof (cases "occ n")
    case None
    then show ?thesis using Suc.prems by simp
  next
    case (Some t)
    have now: "tighter gap (t - prev) = Some g \<Longrightarrow> ?thesis"
      using Some by (auto simp: tighter_def min_def split: option.splits if_splits)
    show ?thesis
    proof (cases "wend \<le> t \<or> max_sample_occurrences \<le> Suc n")
      case True
      then show ?thesis using now Suc.prems Some by simp
    next
      case False
      then have "sample_gaps occ fuel (Suc n) t wend (tighter gap (t - prev)) = (n', Some g)" using Suc.prems Some by simp
      from Suc.IH [OF this] show ?thesis
      proof
        assume "\<exists>i p ta. Suc n \<le> i \<and> (if i = Suc n then p = t else occ (i - 1) = Some p \<and> p < wend \<and> i < max_sample_occurrences)
          \<and> occ i = Some ta \<and> g = ta - p"
        then obtain i p ta where i: "Suc n \<le> i" "if i = Suc n then p = t else occ (i - 1) = Some p \<and> p < wend \<and> i < max_sample_occurrences"
          "occ i = Some ta" "g = ta - p" by blast
        then have "occ (i - 1) = Some p \<and> p < wend \<and> i < max_sample_occurrences" using Some False by (auto split: if_splits)
        then show ?thesis using i by (intro disjI2 exI [of _ i] exI [of _ p] exI [of _ ta]) auto
      qed (rule now)
    qed
  qed
qed simp

lemma sample_gaps_count: "sample_gaps occ fuel n prev wend gap = (n', gap') \<Longrightarrow> n \<le> n'"
proof (induction fuel arbitrary: n prev gap)
  case (Suc fuel)
  show ?case
  proof (cases "occ n")
    case (Some t)
    show ?thesis
    proof (cases "wend \<le> t \<or> max_sample_occurrences \<le> Suc n")
      case False
      then have "sample_gaps occ fuel (Suc n) t wend (tighter gap (t - prev)) = (n', gap')" using Suc.prems Some by simp
      from Suc.IH [OF this] show ?thesis by simp
    qed (use Suc.prems Some in auto)
  qed (use Suc.prems in simp)
qed simp

text \<open>
  A rule with occurrences at \<open>f 0 \<le> f 1 \<le> \<dots>\<close> is accepted exactly when, among the first 2000
  occurrences, none that lies within 25 hours of the first is followed by another in less than an hour.
\<close>
theorem rule_is_accepted_iff_sparse_at_the_start:
  assumes "rl_occurrences lib rule = Some (\<lambda>n. Some (f n))" and "\<And>i. f i \<le> f (Suc i)"
  shows "validate_rrule lib rule = Inr rule \<longleftrightarrow>
    (\<forall>i. Suc i < max_sample_occurrences \<and> f i < f 0 + interval_window \<longrightarrow> MIN_INTERVAL_SECONDS \<le> f (Suc i) - f i)"
proof -
  let ?occ = "\<lambda>n. Some (f n)"
  obtain n gap where run: "sample_gaps ?occ max_sample_occurrences 1 (f 0) (f 0 + interval_window) None = (n, gap)"
    by (meson surj_pair)
  have mono: "f i \<le> f j" if "i \<le> j" for i j using assms(2) that by (rule lift_Suc_mono_le)
  have sees: "\<exists>g. gap = Some g \<and> g \<le> f (Suc i) - f i" if "Suc i < max_sample_occurrences" "f i < f 0 + interval_window" for i
  proof (rule sample_gaps_sees [OF run, of "Suc i"])
    show "\<exists>tk. Some (f k) = Some tk \<and> tk < f 0 + interval_window" if "1 \<le> k" "k < Suc i" for k
      using mono [of k i] that \<open>f i < f 0 + interval_window\<close> by auto
  qed (use that in auto)
  have first: "f 0 < f 0 + interval_window" "Suc 0 < max_sample_occurrences" by (simp_all add: interval_window_def max_sample_occurrences_def)
  then obtain g where g: "gap = Some g" using sees [of 0] by auto
  have real: "\<exists>i. Suc i < max_sample_occurrences \<and> f i < f 0 + interval_window \<and> g = f (Suc i) - f i"
  proof -
    from sample_gaps_real [OF run [unfolded g]]
    obtain i p where i: "1 \<le> i" "if i = 1 then p = f 0 else Some (f (i - 1)) = Some p \<and> p < f 0 + interval_window \<and> i < max_sample_occurrences"
      "g = f i - p" by auto
    then show ?thesis using first by (intro exI [of _ "i - 1"]) (auto split: if_splits)
  qed
  have count: "n \<noteq> 1"
  proof
    assume "n = 1"
    have "max_sample_occurrences = Suc (max_sample_occurrences - 1)" by (simp add: max_sample_occurrences_def)
    then obtain fuel where fuel: "max_sample_occurrences = Suc fuel" by blast
    show False using run \<open>n = 1\<close> unfolding fuel by (auto split: if_splits dest!: sample_gaps_count)
  qed
  have "validate_rrule lib rule = Inr rule \<longleftrightarrow> MIN_INTERVAL_SECONDS \<le> g"
    using assms(1) run g count by (auto simp: validate_rrule_def)
  also have "\<dots> \<longleftrightarrow> (\<forall>i. Suc i < max_sample_occurrences \<and> f i < f 0 + interval_window \<longrightarrow> MIN_INTERVAL_SECONDS \<le> f (Suc i) - f i)"
    using sees g real by force
  finally show ?thesis .
qed


definition ex_hourly :: rule_lib where
  "ex_hourly = \<lparr>rl_occurrences = (\<lambda>_. Some (\<lambda>n. Some (real n * 3600))), rl_after = (\<lambda>_ _ _ now. Some (now + 1)),
     rl_midnight = (\<lambda>_ now. now), rl_zone = (\<lambda>_. True)\<rparr>"

theorem rule_is_accepted_iff_sparse_at_the_start_witness:
  "validate_rrule ex_hourly ''FREQ=HOURLY'' = Inr ''FREQ=HOURLY''"
proof -
  have "validate_rrule ex_hourly ''FREQ=HOURLY'' = Inr ''FREQ=HOURLY'' \<longleftrightarrow>
      (\<forall>i. Suc i < max_sample_occurrences \<and> real i * 3600 < real 0 * 3600 + interval_window \<longrightarrow>
         MIN_INTERVAL_SECONDS \<le> real (Suc i) * 3600 - real i * 3600)"
    by (rule rule_is_accepted_iff_sparse_at_the_start [where f = "\<lambda>n. real n * 3600"]) (simp_all add: ex_hourly_def)
  then show ?thesis by (simp add: MIN_INTERVAL_SECONDS_def algebra_simps)
qed

lemma sample_gaps_stops:
  assumes "occ 1 = Some second" and "first + interval_window \<le> second"
  shows "sample_gaps occ max_sample_occurrences 1 first (first + interval_window) None = (2, Some (second - first))"
proof -
  have "max_sample_occurrences = Suc (max_sample_occurrences - 1)" by (simp add: max_sample_occurrences_def)
  then obtain fuel where fuel: "max_sample_occurrences = Suc fuel" by blast
  show ?thesis using assms unfolding fuel by (simp add: tighter_def)
qed

text \<open>
  The interval check looks at one day only. When the second occurrence of a rule comes more than 25
  hours after the first, the rule is accepted, however tightly its later occurrences follow each other.
\<close>
theorem isolated_first_occurrence_hides_the_rest:
  assumes "rl_occurrences lib rule = Some occ" and "occ 0 = Some first" and "occ 1 = Some second" and "first + interval_window \<le> second"
  shows "validate_rrule lib rule = Inr rule"
proof -
  have "\<not> second - first < MIN_INTERVAL_SECONDS" using assms(4) by (simp add: interval_window_def MIN_INTERVAL_SECONDS_def)
  then show ?thesis using assms sample_gaps_stops [of occ second first] by (simp add: validate_rrule_def)
qed

definition ex_bursts :: rule_lib where
  \<comment> \<open>the first and the fifth of a month at nine o'clock, on the fifth every minute\<close>
  "ex_bursts = ex_hourly\<lparr>rl_occurrences := (\<lambda>_. Some (\<lambda>n. Some (if n = 0 then 0 else 345600 + 60 * real n)))\<rparr>"

theorem isolated_first_occurrence_hides_the_rest_witness:
  "validate_rrule ex_bursts ''FREQ=MONTHLY;BYMONTHDAY=1,5'' = Inr ''FREQ=MONTHLY;BYMONTHDAY=1,5''"
  by (rule isolated_first_occurrence_hides_the_rest [where first = 0 and second = 345660
        and occ = "\<lambda>n. Some (if n = 0 then 0 else 345600 + 60 * real n)"])
     (simp_all add: ex_bursts_def interval_window_def)

section \<open>Occurrences fire once and in order\<close>

definition fired_times :: "scheduler \<Rightarrow> nat \<Rightarrow> real list" where
  \<comment> \<open>the occurrences for which a job's timer called \<open>on_fire\<close>\<close>
  "fired_times s j = map (\<lambda>(i, r, t). t) (filter (\<lambda>(i, r, t). i = j \<and> r) (sc_fired s))"

definition woken :: "scheduler \<Rightarrow> nat \<Rightarrow> bool" where
  "woken s j \<longleftrightarrow> (\<exists>c. dget (sc_coros s) c = Some (Woken j))"

definition next_of :: "scheduler \<Rightarrow> nat \<Rightarrow> real option" where
  "next_of s j = (case sc_heap s j of None \<Rightarrow> None | Some b \<Rightarrow> jb_next b)"

definition in_order :: "real \<Rightarrow> scheduler \<Rightarrow> bool" where
  "in_order T s \<longleftrightarrow>
     (\<forall>j. sorted_wrt (<) (fired_times s j) \<and> (\<forall>u \<in> set (fired_times s j). u \<le> T))
     \<and> (\<forall>j t u. (armed s j \<or> woken s j) \<longrightarrow> next_of s j = Some t \<longrightarrow> u \<in> set (fired_times s j) \<longrightarrow> u < t)"

fun stamp :: "sched_op \<Rightarrow> real option" where
  "stamp (Start now active) = Some now"
| "stamp (Add now t) = Some now"
| "stamp (Update now t) = Some now"
| "stamp (Fire now tid) = Some now"
| "stamp (Begin now c) = Some now"
| "stamp (Finish now c) = Some now"
| "stamp _ = None"

definition on_time :: "scheduler \<Rightarrow> sched_op \<Rightarrow> bool" where
  \<comment> \<open>a timer does not wake its job before the occurrence, except in the middle of a long delay\<close>
  "on_time s op \<longleftrightarrow>
     (case op of
        Begin now c \<Rightarrow>
          (case dget (sc_coros s) c of
             Some (Woken j) \<Rightarrow>
               (case sc_heap s j of
                  None \<Rightarrow> True
                | Some b \<Rightarrow> early_wake now b \<or> (case jb_next b of None \<Rightarrow> True | Some t \<Rightarrow> t \<le> now))
           | _ \<Rightarrow> True)
      | _ \<Rightarrow> True)"

fun timely :: "rule_lib \<Rightarrow> real \<Rightarrow> scheduler \<Rightarrow> sched_op list \<Rightarrow> bool" where
  \<comment> \<open>the clock does not go back and timers are on time\<close>
  "timely lib T s [] \<longleftrightarrow> True"
| "timely lib T s (op # ops) \<longleftrightarrow>
     (case stamp op of
        None \<Rightarrow> timely lib T (sched_step lib s op) ops
      | Some now \<Rightarrow> T \<le> now \<and> on_time s op \<and> timely lib now (sched_step lib s op) ops)"

definition strict_lib :: "rule_lib \<Rightarrow> bool" where
  \<comment> \<open>\<open>rrule.after\<close> with \<open>inc=False\<close>: strictly later\<close>
  "strict_lib lib \<longleftrightarrow> (\<forall>rule tz anchor now t. rl_after lib rule tz anchor now = Some t \<longrightarrow> now < t)"

lemma in_order_later: "in_order T s \<Longrightarrow> T \<le> T' \<Longrightarrow> in_order T' s"
  unfolding in_order_def by (meson order_trans)

lemma in_orderD:
  assumes "in_order T s"
  shows "sorted_wrt (<) (fired_times s j)" "u \<in> set (fired_times s j) \<Longrightarrow> u \<le> T"
    "armed s j \<or> woken s j \<Longrightarrow> next_of s j = Some t \<Longrightarrow> u \<in> set (fired_times s j) \<Longrightarrow> u < t"
  using assms unfolding in_order_def by blast+

lemma in_order_fewer:
  \<comment> \<open>no call of \<open>on_fire\<close>, and a job with a timer keeps it and its occurrence or waits for a later instant\<close>
  assumes ord: "in_order T s" and fired: "\<And>j. fired_times s' j = fired_times s j"
    and waits: "\<And>j t. armed s' j \<or> woken s' j \<Longrightarrow> next_of s' j = Some t \<Longrightarrow>
      (armed s j \<or> woken s j) \<and> next_of s j = Some t \<or> T < t"
  shows "in_order T s'"
  unfolding in_order_def fired
proof (intro conjI allI impI ballI)
  fix j u
  show "sorted_wrt (<) (fired_times s j)" by (rule in_orderD(1) [OF ord])
  show "u \<le> T" if "u \<in> set (fired_times s j)" using in_orderD(2) [OF ord that] .
next
  fix j t u
  assume "armed s' j \<or> woken s' j" "next_of s' j = Some t" and u: "u \<in> set (fired_times s j)"
  from waits [OF this(1,2)] show "u < t"
    using in_orderD(2) [OF ord u] in_orderD(3) [OF ord _ _ u] by force
qed

lemma arm_in_order:
  assumes ord: "in_order T s" and "T \<le> now" and strict: "strict_lib lib"
  shows "in_order now (arm lib now j s)"
proof (cases "sc_heap s j")
  case None
  then show ?thesis using in_order_later [OF ord assms(2)] by (simp add: arm_def)
next
  case (Some b)
  show ?thesis
  proof (rule in_order_fewer [OF in_order_later [OF ord assms(2)]])
    show "fired_times (arm lib now j s) i = fired_times s i" for i
      by (cases rule: arm_cases [OF Some, of lib now]; simp add: fired_times_def)
  next
    fix i t
    assume wait: "armed (arm lib now j s) i \<or> woken (arm lib now j s) i" and nxt: "next_of (arm lib now j s) i = Some t"
    from Some show "(armed s i \<or> woken s i) \<and> next_of s i = Some t \<or> now < t"
    proof (cases rule: arm_cases [where lib = lib and now = now])
      case never
      then show ?thesis using wait nxt by (auto simp: armed_def woken_def next_of_def Some split: if_splits)
    next
      case (timer t' capped due)
      have "now < t'" using timer(1) strict by (simp add: strict_lib_def get_next_fire_time_def)
      then show ?thesis using wait nxt timer(4) by (auto simp: armed_def woken_def next_of_def Some split: if_splits)
    qed
  qed
qed

lemma rearm_in_order:
  assumes "in_order T s" and "T \<le> now" and "strict_lib lib"
  shows "in_order now (rearm lib now j s)"
  using arm_in_order [OF assms] in_order_later [OF assms(1,2)] by (simp add: rearm_def split: option.split)

lemma cancel_in_order: "in_order T s \<Longrightarrow> in_order T (cancel_timer h s)"
  by (erule in_order_fewer) (auto simp: fired_times_def armed_def woken_def next_of_def split: if_splits)

lemma jobs_in_order: "in_order T s \<Longrightarrow> in_order T (s\<lparr>sc_jobs := d\<rparr>)"
  by (erule in_order_fewer) (auto simp: fired_times_def armed_def woken_def next_of_def)

lemma remove_jobs_in_order: "in_order T s \<Longrightarrow> in_order T (remove_jobs tid d s)"
  by (induction tid d s rule: remove_jobs.induct) (simp_all add: cancel_in_order jobs_in_order)

lemma remove_task_in_order: "in_order T s \<Longrightarrow> in_order T (remove_task tid s)"
  by (simp add: remove_task_def remove_jobs_in_order)

lemma stop_in_order:
  assumes "in_order T s"
  shows "in_order T (stop s)"
proof -
  have "in_order T (foldl (\<lambda>s (key, j). cancel_timer (case sc_heap s j of None \<Rightarrow> None | Some b \<Rightarrow> jb_timer b) s) s d)" for d
    using assms by (induction d arbitrary: s) (auto intro: cancel_in_order)
  then have "in_order T (foldl (\<lambda>s (key, j). cancel_timer (case sc_heap s j of None \<Rightarrow> None | Some b \<Rightarrow> jb_timer b) s) s (sc_jobs s))" .
  then show ?thesis
    unfolding stop_def by (rule in_order_fewer) (auto simp: fired_times_def armed_def woken_def next_of_def)
qed

lemma register_in_order:
  assumes ord: "in_order T s" and "T \<le> now" and "strict_lib lib"
  shows "in_order now (try_register lib now t s)"
proof (cases "validate_rrule lib (tk_rrule t)")
  case (Inl e)
  then show ?thesis using in_order_later [OF assms(1,2)] by (simp add: try_register_def register_def)
next
  case (Inr rule)
  have "in_order T ((remove_task (tk_id t) s)\<lparr>sc_heap := (sc_heap (remove_task (tk_id t) s))(j \<mapsto> b), sc_jobs := d, sc_fresh := n\<rparr>)"
    if "jb_next b = None" for j b d n
    by (rule in_order_fewer [OF remove_task_in_order [OF ord]])
       (auto simp: fired_times_def armed_def woken_def next_of_def that split: if_splits)
  then show ?thesis
    using Inr by (simp add: try_register_def register_def Let_def arm_in_order [OF _ assms(2,3)])
qed

lemma start_in_order:
  assumes "in_order T s" and "T \<le> now" and "strict_lib lib"
  shows "in_order now (start lib now active s)"
proof -
  have "in_order now (foldl (\<lambda>s t. try_register lib now t s) s active)"
    using in_order_later [OF assms(1,2)]
    by (induction active arbitrary: s) (simp_all add: register_in_order [OF _ order_refl assms(3)])
  then have "in_order now ((foldl (\<lambda>s t. try_register lib now t s) s active)\<lparr>sc_started := True\<rparr>)"
    by (rule in_order_fewer) (auto simp: fired_times_def armed_def woken_def next_of_def)
  then show ?thesis using in_order_later [OF assms(1,2)] by (simp add: start_def)
qed

lemma tick_in_order:
  assumes ord: "in_order T s"
  shows "in_order T (tick h s)"
proof (cases "dget (sc_timers s) h")
  case (Some x)
  obtain due j where x: "x = (due, j)" by fastforce
  have armed: "armed s j" using Some x unfolding armed_def by blast
  show ?thesis
  proof (rule in_order_fewer [OF ord])
    fix i t
    assume "armed (tick h s) i \<or> woken (tick h s) i" and nxt: "next_of (tick h s) i = Some t"
    then have "armed s i \<or> woken s i \<or> i = j"
      using Some x by (auto simp: tick_def Let_def armed_def woken_def split: if_splits)
    then have "armed s i \<or> woken s i" using armed by blast
    then show "(armed s i \<or> woken s i) \<and> next_of s i = Some t \<or> T < t" using nxt Some x by (simp add: tick_def Let_def next_of_def)
  qed (simp add: tick_def Let_def fired_times_def Some x)
qed (use ord in \<open>simp add: tick_def\<close>)

lemma finish_in_order:
  assumes ord: "in_order T s" and "T \<le> now" and "strict_lib lib"
  shows "in_order now (finish_coroutine lib now c s)"
proof (cases "\<exists>j r t. dget (sc_coros s) c = Some (Firing j r t)")
  case True
  then obtain j r t where c: "dget (sc_coros s) c = Some (Firing j r t)" by blast
  let ?s = "update_job j (\<lambda>b. b\<lparr>jb_running := False\<rparr>) (s\<lparr>sc_coros := ddel c (sc_coros s)\<rparr>)"
  have "in_order T ?s"
    by (rule in_order_fewer [OF ord])
       (auto simp: fired_times_def armed_def woken_def next_of_def split: if_splits option.splits)
  then show ?thesis
    using c rearm_in_order [OF _ assms(2,3)] in_order_later [OF _ assms(2)] by (simp add: finish_coroutine_def Let_def)
next
  case False
  then have "finish_coroutine lib now c s = s" by (auto simp: finish_coroutine_def split: option.split coroutine.split)
  then show ?thesis using in_order_later [OF ord assms(2)] by simp
qed

lemma fire_in_order:
  assumes ord: "in_order T s"
  shows "in_order T (fire now tid s)"
proof -
  have "in_order T s'" if "fire_job now j False now s = Some (s', c)" for j s' c
    unfolding fire_job_cases(1) [OF that]
    by (rule in_order_fewer [OF ord]) (auto simp: fired_times_def armed_def woken_def next_of_def split: if_splits option.splits)
  then show ?thesis using ord by (auto simp: fire_def split: option.split)
qed

lemma fire_job_in_order:
  assumes ord: "in_order T s" and "T \<le> now" and fire: "fire_job now j True t s = Some (s', c)"
    and above: "\<And>u. u \<in> set (fired_times s j) \<Longrightarrow> u < t" and "t \<le> now" and idle: "\<not> armed s j" "\<not> woken s j"
  shows "in_order now s'"
proof -
  note new = fire_job_cases(1) [OF fire]
  have times: "fired_times s' i = fired_times s i @ (if i = j then [t] else [])" for i by (simp add: fired_times_def new)
  have same: "armed s' i = armed s i" "next_of s' i = next_of s i" for i
    by (simp_all add: armed_def next_of_def new split: option.split)
  have woken: "woken s' i \<Longrightarrow> woken s i" for i by (auto simp: woken_def new split: if_splits)
  show ?thesis
    unfolding in_order_def
  proof (intro conjI allI impI ballI)
    fix i u
    show "sorted_wrt (<) (fired_times s' i)" using in_orderD(1) [OF ord] above by (simp add: times sorted_wrt_append)
    show "u \<le> now" if "u \<in> set (fired_times s' i)"
      using that in_orderD(2) [OF ord, of u i] assms(2,5) by (auto simp: times split: if_splits)
  next
    fix i n u
    assume i: "armed s' i \<or> woken s' i" "next_of s' i = Some n" and u: "u \<in> set (fired_times s' i)"
    then have wait: "armed s i \<or> woken s i" using woken by (auto simp: same)
    then have "i \<noteq> j" using idle by blast
    then show "u < n" using in_orderD(3) [OF ord wait, of n u] i(2) u by (simp add: same times)
  qed
qed

lemma begin_in_order:
  assumes inv: "sched_inv {} s" and ord: "in_order T s" and later: "T \<le> now" and strict: "strict_lib lib"
    and time: "on_time s (Begin now c)"
  shows "in_order now (begin_coroutine lib now c s)"
proof (cases "\<exists>j. dget (sc_coros s) c = Some (Woken j)")
  case True
  then obtain j where c: "dget (sc_coros s) c = Some (Woken j)" by blast
  let ?s = "s\<lparr>sc_coros := ddel c (sc_coros s)\<rparr>"
  note parts = sched_inv_parts [OF inv]
  have ord1: "in_order T ?s"
    by (rule in_order_fewer [OF ord]) (auto simp: fired_times_def armed_def woken_def next_of_def split: if_splits)
  have woken: "woken s j" using c unfolding woken_def by blast
  have "in_flight s j" using c unfolding in_flight_def by force
  then have "\<not> armed s j" using timers_okD(4) [OF parts(2)] unfolding armed_def by blast
  moreover have "\<not> (d \<noteq> c \<and> dget (sc_coros s) d = Some (Woken j))" for d
    using coros_okD(3) [OF parts(3) _ c, of d "Woken j" j] by auto
  ultimately have idle: "\<not> armed ?s j" "\<not> woken ?s j" by (auto simp: armed_def woken_def)
  note rearmed = rearm_in_order [OF ord1 later strict, of j]
  show ?thesis
  proof (cases "sc_heap s j")
    case None
    then show ?thesis using c in_order_later [OF ord1 later] by (simp add: begin_coroutine_def Let_def)
  next
    case (Some b)
    have fired: "in_order now s'"
      if nxt: "jb_next b = Some t" and "\<not> early_wake now b" and fire: "fire_job now j True t ?s = Some (s', d)" for t s' d
    proof (rule fire_job_in_order [OF ord1 later fire])
      show "t \<le> now" using time c Some that by (simp add: on_time_def)
      show "u < t" if "u \<in> set (fired_times ?s j)" for u
        using in_orderD(3) [OF ord, of j t u] that woken Some nxt by (simp add: next_of_def fired_times_def)
    qed (use idle in simp_all)
    show ?thesis using rearmed fired c Some by (auto simp: begin_coroutine_def Let_def split: option.split)
  qed
next
  case False
  then have "begin_coroutine lib now c s = s" by (auto simp: begin_coroutine_def split: option.split coroutine.split)
  then show ?thesis using in_order_later [OF ord later] by simp
qed

lemma sched_step_in_order:
  assumes inv: "sched_inv {} s" and ord: "in_order T s" and strict: "strict_lib lib" and time: "on_time s op"
    and later: "case stamp op of None \<Rightarrow> T' = T | Some now \<Rightarrow> T \<le> now \<and> T' = now"
  shows "in_order T' (sched_step lib s op)"
proof (cases op)
  case (Update now t)
  then have "T \<le> now" "T' = now" using later by simp_all
  then show ?thesis
    using remove_task_in_order [OF ord, of "tk_id t"] register_in_order [OF _ _ strict, of T _ now t] in_order_later [of T _ now] Update
    by (simp add: update_task_def add_task_def)
next
  case (Begin now c)
  then show ?thesis using later time begin_in_order [OF inv ord _ strict, of now c] by simp
qed (use later ord in \<open>auto simp: add_task_def intro: start_in_order [OF _ _ strict] register_in_order [OF _ _ strict]
      finish_in_order [OF _ _ strict] fire_in_order tick_in_order stop_in_order remove_task_in_order in_order_later\<close>)

lemma timely_in_order:
  assumes "sched_inv {} s" and "in_order T s" and "strict_lib lib" and "timely lib T s ops"
  shows "\<exists>T'. in_order T' (foldl (sched_step lib) s ops)"
  using assms
proof (induction ops arbitrary: s T)
  case (Cons op ops)
  show ?case
  proof (cases "stamp op")
    case None
    then have "on_time s op" by (cases op) (simp_all add: on_time_def)
    then have "in_order T (sched_step lib s op)" using None Cons.prems by (intro sched_step_in_order) simp_all
    then show ?thesis using Cons.IH [OF sched_step_inv [OF Cons.prems(1)]] Cons.prems(3,4) None by simp
  next
    case (Some now)
    then have "in_order now (sched_step lib s op)"
      using Cons.prems by (intro sched_step_in_order [of s T]) simp_all
    then show ?thesis using Cons.IH [OF sched_step_inv [OF Cons.prems(1)]] Cons.prems(3,4) Some by simp
  qed
qed auto

text \<open>
  C34: When the clock does not go back and no timer is ahead of its occurrence, the occurrences for which a
  job's timer calls \<open>on_fire\<close> are strictly increasing, through any interleaving with calls, removals, manual
  fires and restarts: an occurrence fires at most once, and none fires after a later one.
\<close>
theorem occurrences_fire_once_and_in_order:
  assumes "strict_lib lib" and "timely lib T no_jobs ops"
  shows "sorted_wrt (<) (fired_times (foldl (sched_step lib) no_jobs ops) j)"
proof -
  have "in_order T no_jobs" by (simp add: in_order_def fired_times_def armed_def woken_def no_jobs_def)
  from timely_in_order [OF sched_inv_init this assms] show ?thesis by (auto dest: in_orderD(1))
qed

definition ex_lib :: "(real \<Rightarrow> real) \<Rightarrow> rule_lib" where
  "ex_lib after = \<lparr>rl_occurrences = (\<lambda>_. Some (\<lambda>n. Some (real n * 100000))), rl_after = (\<lambda>_ _ _ now. Some (after now)),
     rl_midnight = (\<lambda>_ now. now), rl_zone = (\<lambda>_. True)\<rparr>"

lemma ex_lib_simps [simp]:
  "validate_rrule (ex_lib after) rule = Inr rule" "get_next_fire_time (ex_lib after) rule now tz = Some (after now)"
  "resolve_tz (ex_lib after) ''UTC'' = ''UTC''"
proof -
  have "sample_gaps (\<lambda>n. Some (real n * 100000)) max_sample_occurrences 1 0 (0 + interval_window) None = (2, Some (1 * 100000 - 0))"
    using sample_gaps_stops [of "\<lambda>n. Some (real n * 100000)" "1 * 100000" 0] by (simp add: interval_window_def)
  then show "validate_rrule (ex_lib after) rule = Inr rule"
    by (simp add: validate_rrule_def ex_lib_def MIN_INTERVAL_SECONDS_def)
qed (simp_all add: get_next_fire_time_def resolve_tz_def ex_lib_def)

definition ex_task :: task where
  "ex_task = \<lparr>tk_id = ''r'', tk_workspace = 1, tk_rrule = ''FREQ=WEEKLY'', tk_timezone = ''UTC'', tk_state = ''active''\<rparr>"

definition ex_schedule :: "sched_op list" where
  \<comment> \<open>the first occurrence fires, the task fires by hand, and the second occurrence fires\<close>
  "ex_schedule = [Start 0 [ex_task], Tick 1, Begin 1 2, Finish 2 3, Fire 2 ''r'', Finish 3 5, Tick 4, Begin 3 6]"

lemmas sched_evals = start_def try_register_def register_def remove_task_def arm_def update_job_def
  cancel_timer_def tick_def begin_coroutine_def finish_coroutine_def fire_def fire_job_def find_job_def
  rearm_def early_wake_def fired_times_def no_jobs_def ex_task_def
  max_timer_delay_def MISFIRE_GRACE_TIME_S_def due_tolerance_def

lemma ex_schedule_timely: "timely (ex_lib (\<lambda>now. now + 1)) 0 no_jobs ex_schedule"
  unfolding ex_schedule_def
  by (simp add: sched_evals on_time_def Let_def)

theorem occurrences_fire_once_and_in_order_witness:
  "sorted_wrt (<) (fired_times (foldl (sched_step (ex_lib (\<lambda>now. now + 1))) no_jobs ex_schedule) 0)
    \<and> fired_times (foldl (sched_step (ex_lib (\<lambda>now. now + 1))) no_jobs ex_schedule) 0 = [1, 3]"
proof
  show "sorted_wrt (<) (fired_times (foldl (sched_step (ex_lib (\<lambda>now. now + 1))) no_jobs ex_schedule) 0)"
    by (rule occurrences_fire_once_and_in_order [OF _ ex_schedule_timely]) (simp add: strict_lib_def ex_lib_def)
  show "fired_times (foldl (sched_step (ex_lib (\<lambda>now. now + 1))) no_jobs ex_schedule) 0 = [1, 3]"
    by (simp add: ex_schedule_def sched_evals Let_def)
qed

definition ex_monthly :: rule_lib where
  \<comment> \<open>the next occurrence is twenty-four days and half a second away, the one after it in another month\<close>
  "ex_monthly = ex_lib (\<lambda>now. if now < 2073600.5 then 2073600.5 else 4665600.5)"

text \<open>
  A long delay is cut to 24 days, and a timer that wakes up to one second before its occurrence counts
  as due. A task whose next occurrence is 24 days and half a second away fires half a second early and is
  then armed for the very same occurrence: every timer is on time, and \<open>on_fire\<close> is called twice for it.
\<close>
theorem one_occurrence_can_fire_twice:
  "dget (sc_timers (foldl (sched_step ex_monthly) no_jobs [Start 0 [ex_task]])) 1 = Some (2073600, 0)
    \<and> dget (sc_timers (foldl (sched_step ex_monthly) no_jobs [Start 0 [ex_task], Tick 1, Begin 2073600 2, Finish 2073600 3])) 4
        = Some (2073600.5, 0)
    \<and> sc_fired (foldl (sched_step ex_monthly) no_jobs
        [Start 0 [ex_task], Tick 1, Begin 2073600 2, Finish 2073600 3, Tick 4, Begin 2073600.5 5])
      = [(0, True, 2073600.5), (0, True, 2073600.5)]"
  by (intro conjI) (simp_all add: ex_monthly_def sched_evals Let_def)

theorem every_task_keeps_one_timer_witness:
  "job_known (foldl (sched_step ex_monthly) no_jobs [Start 0 [ex_task]]) 0
    \<and> armed (foldl (sched_step ex_monthly) no_jobs [Start 0 [ex_task]]) 0
    \<and> \<not> in_flight (foldl (sched_step ex_monthly) no_jobs [Start 0 [ex_task]]) 0"
proof -
  let ?s = "foldl (sched_step ex_monthly) no_jobs [Start 0 [ex_task]]"
  have armed: "armed ?s 0"
    by (simp add: armed_def ex_monthly_def sched_evals Let_def)
  then show ?thesis
    using every_task_keeps_one_timer [where s = ?s and lib = ex_monthly and ops = "[Start 0 [ex_task]]" and j = 0] by blast
qed

end
