(* ===== verification/Policy_Engine.thy ===== *)
theory Policy_Engine
  imports Policy_Types
begin

text \<open>
  The policy engine of \<^verbatim>\<open>codify/runtime/policies/engine.py\<close>: composition of the policies of an
  agent into one decision, label and state writes with their write-through to the conversation
  store, usage accounting with the pricing of \<^verbatim>\<open>codify/llms/context_window.py\<close>. A policy is a
  specification and a private state; its \<open>evaluate\<close> is an arbitrary function \<open>run\<close> that may fail,
  \<open>reset\<close> is its \<open>reset_turn\<close>. The store holds the rows the engine touches; \<open>day\<close> is the current
  UTC day. An operation that may raise returns its outcome together with the engine it leaves.
\<close>

section \<open>The conversation store\<close>

record conv_row =
  cv_state :: state
  cv_usage :: usage

record store =
  st_convs :: "(string, conv_row) pydict"
  st_labels :: "(string, labels) pydict"
  st_owners :: "(string, string) pydict"
  st_ask_approved :: "(string \<times> string, real) pydict"

definition stored_labels :: "store \<Rightarrow> string \<Rightarrow> labels" where
  "stored_labels st conv = (case dget (st_labels st) conv of None \<Rightarrow> [] | Some l \<Rightarrow> l)"

definition set_labels :: "string \<Rightarrow> labels \<Rightarrow> store \<Rightarrow> store" where
  "set_labels conv updates st =
     (if updates = [] then st
      else st\<lparr>st_labels := dset conv (dupdate (stored_labels st conv) updates) (st_labels st)\<rparr>)"

definition set_session_state :: "string \<Rightarrow> state \<Rightarrow> store \<Rightarrow> store" where
  \<comment> \<open>an \<open>UPDATE\<close>: nothing happens when the row is absent\<close>
  "set_session_state conv s st =
     (case dget (st_convs st) conv of
        None \<Rightarrow> st
      | Some row \<Rightarrow> st\<lparr>st_convs := dset conv (row\<lparr>cv_state := s\<rparr>) (st_convs st)\<rparr>)"

definition set_session_usage :: "string \<Rightarrow> usage \<Rightarrow> store \<Rightarrow> store" where
  "set_session_usage conv u st =
     (case dget (st_convs st) conv of
        None \<Rightarrow> st
      | Some row \<Rightarrow> st\<lparr>st_convs := dset conv (row\<lparr>cv_usage := u\<rparr>) (st_convs st)\<rparr>)"

definition set_daily_ask_approved :: "string \<Rightarrow> string \<Rightarrow> real \<Rightarrow> store \<Rightarrow> store" where
  "set_daily_ask_approved user day approved st =
     st\<lparr>st_ask_approved := dset (user, day) approved (st_ask_approved st)\<rparr>"

section \<open>Pricing\<close>

record model_pricing =
  input_per_token :: real
  output_per_token :: real
  cache_read_per_token :: "real option"
  cache_write_per_token :: "real option"

definition usage_or_zero :: "usage \<Rightarrow> string \<Rightarrow> real" where
  \<comment> \<open>\<open>usage.get(key) or 0\<close>\<close>
  "usage_or_zero u k = (case dget u k of None \<Rightarrow> 0 | Some v \<Rightarrow> v)"

definition compute_llm_cost :: "usage \<Rightarrow> model_pricing \<Rightarrow> real" where
  "compute_llm_cost u p =
     (let cache_read_rate = (case cache_read_per_token p of Some r \<Rightarrow> r | None \<Rightarrow> input_per_token p * (10 / 100));
          cache_write_rate = (case cache_write_per_token p of Some r \<Rightarrow> r | None \<Rightarrow> input_per_token p * (125 / 100))
      in usage_or_zero u ''input_tokens'' * input_per_token p
         + usage_or_zero u ''output_tokens'' * output_per_token p
         + usage_or_zero u ''cache_read_input_tokens'' * cache_read_rate
         + usage_or_zero u ''cache_creation_input_tokens'' * cache_write_rate)"

section \<open>The engine\<close>

record 'p policy =
  pol_spec :: policy_spec
  pol_state :: 'p

record ('p, 'c) engine =
  e_policies :: "'p policy list"
  e_label_defs :: "(string, label_def) pydict"
  e_ask_timeout :: int
  e_conversation_id :: string
  e_root_conversation_id :: string
  e_labels :: labels
  e_session_state :: state
  e_usage :: usage
  e_subtree_usage :: "usage option"
  e_user_daily_cost :: "(string, pyval) pydict option"
  e_token_pricing :: "model_pricing option"
  e_model :: "string option"
  e_store :: store
  e_llm_client :: "'c option"

definition setdefault :: "string \<Rightarrow> real \<Rightarrow> usage \<Rightarrow> usage" where
  "setdefault k v u = (case dget u k of None \<Rightarrow> dset k v u | Some _ \<Rightarrow> u)"

definition make_engine ::
  "'p policy list \<Rightarrow> (string, label_def) pydict \<Rightarrow> int \<Rightarrow> string \<Rightarrow> labels \<Rightarrow> state option \<Rightarrow> usage option \<Rightarrow>
   usage option \<Rightarrow> (string, pyval) pydict option \<Rightarrow> model_pricing option \<Rightarrow> string option \<Rightarrow> store \<Rightarrow>
   string option \<Rightarrow> 'c option \<Rightarrow> ('p, 'c) engine" where
  "make_engine policies label_defs ask_timeout conv initial_labels initial_state initial_usage initial_subtree
     daily pricing model st root_id client =
     \<lparr>e_policies = policies, e_label_defs = label_defs, e_ask_timeout = ask_timeout,
      e_conversation_id = conv,
      e_root_conversation_id = (case root_id of None \<Rightarrow> conv | Some r \<Rightarrow> if r = [] then conv else r),
      e_labels = initial_labels,
      e_session_state = (case initial_state of None \<Rightarrow> [] | Some s \<Rightarrow> s),
      e_usage = setdefault ''cache_creation_input_tokens'' 0 (setdefault ''cache_read_input_tokens'' 0
        (let zero = [(''input_tokens'', 0), (''output_tokens'', 0), (''total_tokens'', 0),
                     (''cache_read_input_tokens'', 0), (''cache_creation_input_tokens'', 0), (''total_cost_usd'', 0)]
         in case initial_usage of None \<Rightarrow> zero | Some u \<Rightarrow> if u = [] then zero else u)),
      e_subtree_usage = initial_subtree, e_user_daily_cost = daily, e_token_pricing = pricing,
      e_model = model, e_store = st, e_llm_client = client\<rparr>"

section \<open>State updates\<close>

definition apply_one :: "state \<Rightarrow> state_update \<Rightarrow> state res" where
  "apply_one s op =
     (case su_action op of
        SET \<Rightarrow> Inr (dset (su_key op) (su_value op) s)
      | INCREMENT \<Rightarrow>
          bindR (py_add (case dget s (su_key op) of None \<Rightarrow> PInt 0 | Some v \<Rightarrow> v) (su_value op)) (\<lambda>v.
            Inr (dset (su_key op) v s))
      | DELETE \<Rightarrow> Inr (ddel (su_key op) s)
      | APPEND \<Rightarrow>
          (case dget s (su_key op) of
             None \<Rightarrow> Inr (dset (su_key op) (PList [su_value op]) s)
           | Some existing \<Rightarrow>
               (case existing of
                  PNone \<Rightarrow> Inr (dset (su_key op) (PList [su_value op]) s)
                | PList xs \<Rightarrow> Inr (dset (su_key op) (PList (xs @ [su_value op])) s)
                | _ \<Rightarrow> Inl (TypeError (''APPEND on key '' @ py_repr (su_key op) @ '': expected list, got '' @ type_name existing)))))"

fun apply_ops :: "state_update list \<Rightarrow> state \<Rightarrow> unit res \<times> state" where
  "apply_ops [] s = (Inr (), s)"
| "apply_ops (op # ops) s =
     (case apply_one s op of Inl e \<Rightarrow> (Inl e, s) | Inr s' \<Rightarrow> apply_ops ops s')"

definition USER_DAILY_ASK_APPROVED_STATE_KEY :: string where
  "USER_DAILY_ASK_APPROVED_STATE_KEY = ''_policy_user_daily_ask_approved_usd''"

definition SESSION_COST_ASK_APPROVED_STATE_KEY :: string where
  "SESSION_COST_ASK_APPROVED_STATE_KEY = ''_policy_cost_ask_approved_usd''"

definition SESSION_COST_UNPRICED_APPROVED_KEY :: string where
  "SESSION_COST_UNPRICED_APPROVED_KEY = ''_policy_cost_unpriced_approved''"

definition record_user_daily_ask_approved :: "string \<Rightarrow> pyval \<Rightarrow> ('p, 'c) engine \<Rightarrow> ('p, 'c) engine" where
  "record_user_daily_ask_approved day value eng =
     (if value = PNone then eng
      else case py_float value of
             None \<Rightarrow> eng
           | Some approved \<Rightarrow>
               (case dget (st_owners (e_store eng)) (e_conversation_id eng) of
                  None \<Rightarrow> eng
                | Some owner \<Rightarrow>
                    eng\<lparr>e_store := set_daily_ask_approved owner day approved (e_store eng),
                        e_user_daily_cost := map_option (dset ''ask_approved_usd'' (PFloat approved)) (e_user_daily_cost eng)\<rparr>))"

definition record_root_cost_ask_approved :: "state_update \<Rightarrow> ('p, 'c) engine \<Rightarrow> unit res \<times> ('p, 'c) engine" where
  "record_root_cost_ask_approved op eng =
     (let root_state = (case dget (st_convs (e_store eng)) (e_root_conversation_id eng) of
                          None \<Rightarrow> [] | Some row \<Rightarrow> cv_state row)
      in case apply_one root_state op of
           Inl e \<Rightarrow> (Inl e, eng)
         | Inr root_state' \<Rightarrow>
             let eng' = eng\<lparr>e_store := set_session_state (e_root_conversation_id eng) root_state' (e_store eng)\<rparr>
             in case apply_one (e_session_state eng') op of
                  Inl e \<Rightarrow> (Inl e, eng')
                | Inr s \<Rightarrow> (Inr (), eng'\<lparr>e_session_state := s\<rparr>))"

fun route_updates :: "string \<Rightarrow> state_update list \<Rightarrow> state_update list \<Rightarrow> ('p, 'c) engine \<Rightarrow>
    state_update list res \<times> ('p, 'c) engine" where
  \<comment> \<open>the first loop: reserved keys leave this conversation, the rest is collected\<close>
  "route_updates day [] session_ops eng = (Inr session_ops, eng)"
| "route_updates day (op # ops) session_ops eng =
     (if su_key op = USER_DAILY_ASK_APPROVED_STATE_KEY then
        route_updates day ops session_ops (record_user_daily_ask_approved day (su_value op) eng)
      else if su_key op \<in> {SESSION_COST_ASK_APPROVED_STATE_KEY, SESSION_COST_UNPRICED_APPROVED_KEY}
              \<and> e_root_conversation_id eng \<noteq> e_conversation_id eng then
        (case record_root_cost_ask_approved op eng of
           (Inl e, eng') \<Rightarrow> (Inl e, eng')
         | (Inr _, eng') \<Rightarrow> route_updates day ops session_ops eng')
      else route_updates day ops (session_ops @ [op]) eng)"

definition apply_state_updates :: "string \<Rightarrow> state_update list \<Rightarrow> ('p, 'c) engine \<Rightarrow> unit res \<times> ('p, 'c) engine" where
  "apply_state_updates day updates eng =
     (if updates = [] then (Inr (), eng)
      else case route_updates day updates [] eng of
             (Inl e, eng') \<Rightarrow> (Inl e, eng')
           | (Inr session_ops, eng') \<Rightarrow>
               if session_ops = [] then (Inr (), eng')
               else case apply_ops session_ops (e_session_state eng') of
                      (Inl e, s) \<Rightarrow> (Inl e, eng'\<lparr>e_session_state := s\<rparr>)
                    | (Inr _, s) \<Rightarrow>
                        (Inr (), eng'\<lparr>e_session_state := s,
                          e_store := set_session_state (e_conversation_id eng') s (e_store eng')\<rparr>))"

section \<open>Label writes\<close>

definition schema_valid :: "(string, label_def) pydict \<Rightarrow> string \<Rightarrow> string \<Rightarrow> bool" where
  "schema_valid defs key v =
     (case dget defs key of
        None \<Rightarrow> True
      | Some ldef \<Rightarrow> (case ld_values ldef of None \<Rightarrow> True | Some vs \<Rightarrow> v \<in> set vs))"

definition filter_schema_valid :: "(string, label_def) pydict \<Rightarrow> labels \<Rightarrow> labels" where
  "filter_schema_valid defs updates = filter (\<lambda>(key, v). schema_valid defs key v) updates"

definition apply_label_writes :: "labels \<Rightarrow> ('p, 'c) engine \<Rightarrow> ('p, 'c) engine" where
  "apply_label_writes updates eng =
     (if updates = [] then eng
      else let filtered = filter_schema_valid (e_label_defs eng) updates
           in if filtered = [] then eng
              else eng\<lparr>e_store := set_labels (e_conversation_id eng) filtered (e_store eng),
                       e_labels := dupdate (e_labels eng) filtered\<rparr>)"

definition filter_writable_labels :: "labels option \<Rightarrow> policy_spec \<Rightarrow> labels option" where
  "filter_writable_labels ls spec =
     (case ls of
        None \<Rightarrow> None
      | Some l \<Rightarrow>
          if l = [] then None
          else case ps_set_labels spec of
                 None \<Rightarrow> Some l
               | Some whitelist \<Rightarrow> Some (filter (\<lambda>(k, v). k \<in> set whitelist) l))"

section \<open>Composition\<close>

fun expected_matches :: "expected \<Rightarrow> string \<Rightarrow> bool" where
  "expected_matches (One v) actual = (actual = v)"
| "expected_matches (AnyOf vs) actual = (actual \<in> set vs)"

fun condition_matches :: "condition \<Rightarrow> labels \<Rightarrow> bool" where
  "condition_matches [] ls = True"
| "condition_matches ((key, ex) # rest) ls =
     (case dget ls key of
        None \<Rightarrow> False
      | Some actual \<Rightarrow> if \<not> expected_matches ex actual then False else condition_matches rest ls)"

definition should_fire :: "labels \<Rightarrow> policy_spec \<Rightarrow> 'c evaluation_context \<Rightarrow> bool" where
  "should_fire ls spec ctx =
     (if (case ps_on spec of None \<Rightarrow> False | Some sels \<Rightarrow> \<not> list_ex (\<lambda>sel. matches sel ctx) sels) then False
      else if (case ps_condition spec of None \<Rightarrow> False | Some c \<Rightarrow> \<not> condition_matches c ls) then False
      else True)"

record engine_context =
  ec_labels :: labels
  ec_conversation_id :: string
  ec_session_state :: state

definition context_of :: "('p, 'c) engine \<Rightarrow> engine_context" where
  "context_of eng = \<lparr>ec_labels = e_labels eng, ec_conversation_id = e_conversation_id eng,
     ec_session_state = e_session_state eng\<rparr>"

definition inject :: "('p, 'c) engine \<Rightarrow> 'c evaluation_context \<Rightarrow> 'c evaluation_context" where
  \<comment> \<open>the seven \<open>_inject_\<close> methods in the order of their calls\<close>
  "inject eng ctx0 =
     (let ctx1 = ctx0\<lparr>cx_session_state := Some (e_session_state eng)\<rparr>;
          ctx2 = ctx1\<lparr>cx_usage := Some (e_usage eng)\<rparr>;
          ctx3 = (case e_subtree_usage eng of None \<Rightarrow> ctx2 | Some u \<Rightarrow> ctx2\<lparr>cx_subtree_usage := Some u\<rparr>);
          ctx4 = (case e_user_daily_cost eng of None \<Rightarrow> ctx3 | Some c \<Rightarrow> ctx3\<lparr>cx_user_daily_cost := Some c\<rparr>);
          ctx5 = (case cx_model ctx4 of Some _ \<Rightarrow> ctx4 | None \<Rightarrow> ctx4\<lparr>cx_model := e_model eng\<rparr>);
          ctx6 = ctx5\<lparr>cx_labels := Some (e_labels eng)\<rparr>
      in ctx6\<lparr>cx_llm_client := e_llm_client eng\<rparr>)"

type_synonym ('p, 'c) policy_run =
  "'p \<Rightarrow> 'c evaluation_context \<Rightarrow> engine_context \<Rightarrow> policy_result res \<times> 'p"

definition dispatch_policy :: "('p, 'c) policy_run \<Rightarrow> 'p policy \<Rightarrow> 'c evaluation_context \<Rightarrow> engine_context \<Rightarrow>
    policy_result \<times> 'p policy" where
  "dispatch_policy run p ctx ec =
     (let (out, ps) = run (pol_state p) ctx ec; p' = p\<lparr>pol_state := ps\<rparr>
      in case out of
           Inr r \<Rightarrow> (r, p')
         | Inl e \<Rightarrow>
             (\<lparr>r_action = DENY, r_reason = Some (''policy '' @ py_repr (ps_name (pol_spec p)) @ '' failed: '' @ exn_text e),
               r_set_labels = None, r_deciding_policies = None, r_data = None, r_state_updates = None\<rparr>, p'))"

record 'c composing =
  k_ctx :: "'c evaluation_context"
  k_labels :: labels
  k_state :: "state_update list"
  k_reasons :: "string list"
  k_askers :: "string list"
  k_data :: "pyval option"

definition gather :: "policy_spec \<Rightarrow> policy_result \<Rightarrow> 'c composing \<Rightarrow> 'c composing" where
  \<comment> \<open>the writes a result contributes, before its action is looked at\<close>
  "gather spec r k =
     k\<lparr>k_labels := (case filter_writable_labels (r_set_labels r) spec of None \<Rightarrow> k_labels k | Some l \<Rightarrow> dupdate (k_labels k) l),
       k_state := k_state k @ (case r_state_updates r of None \<Rightarrow> [] | Some us \<Rightarrow> us)\<rparr>"

definition advance :: "policy_spec \<Rightarrow> policy_result \<Rightarrow> 'c composing \<Rightarrow> 'c composing" where
  \<comment> \<open>the rest of the loop body for a result that does not deny\<close>
  "advance spec r k =
     (let k1 = (case r_data r of
                  None \<Rightarrow> k
                | Some d \<Rightarrow> k\<lparr>k_data := Some d, k_ctx := (k_ctx k)\<lparr>cx_content := d\<rparr>\<rparr>)
      in if r_action r = ASK
         then k1\<lparr>k_reasons := k_reasons k1 @
                  [ps_name spec @ '': '' @ (case r_reason r of None \<Rightarrow> ''approval required''
                                            | Some s \<Rightarrow> if s = [] then ''approval required'' else s)],
                 k_askers := k_askers k1 @ [ps_name spec]\<rparr>
         else k1)"

fun compose :: "('p, 'c) policy_run \<Rightarrow> labels \<Rightarrow> engine_context \<Rightarrow> 'p policy list \<Rightarrow> 'c composing \<Rightarrow>
    (string \<times> string option) option \<times> 'c composing \<times> 'p policy list" where
  \<comment> \<open>the loop over the policies: the denial that stopped it if any, what was gathered, the policies after it\<close>
  "compose run ls ec [] k = (None, k, [])"
| "compose run ls ec (p # ps) k =
     (if \<not> should_fire ls (pol_spec p) (k_ctx k) then
        (case compose run ls ec ps k of (d, k', ps') \<Rightarrow> (d, k', p # ps'))
      else
        (case dispatch_policy run p (k_ctx k) ec of
           (r, p') \<Rightarrow>
             let k1 = gather (pol_spec p) r k
             in if r_action r = DENY then (Some (ps_name (pol_spec p), r_reason r), k1, p' # ps)
                else (case compose run ls ec ps (advance (pol_spec p) r k1) of (d, k', ps') \<Rightarrow> (d, k', p' # ps'))))"

definition some_if :: "'a list \<Rightarrow> 'a list option" where
  \<comment> \<open>\<open>list(xs) if xs else None\<close>\<close>
  "some_if xs = (if xs = [] then None else Some xs)"

definition compose_deny :: "string \<Rightarrow> bool \<Rightarrow> string \<Rightarrow> string option \<Rightarrow> labels \<Rightarrow> state_update list \<Rightarrow> ('p, 'c) engine \<Rightarrow>
    policy_result res \<times> ('p, 'c) engine" where
  "compose_deny day read_only name reason accumulated accumulated_state eng =
     (let r = \<lparr>r_action = DENY, r_reason = reason, r_set_labels = some_if accumulated,
               r_deciding_policies = Some [name], r_data = None, r_state_updates = some_if accumulated_state\<rparr>
      in if read_only then (Inr r, eng)
         else case apply_state_updates day accumulated_state eng of
                (Inl e, eng') \<Rightarrow> (Inl e, eng')
              | (Inr _, eng') \<Rightarrow> (Inr r, apply_label_writes accumulated eng'))"

definition evaluate_composed :: "string \<Rightarrow> ('p, 'c) policy_run \<Rightarrow> bool \<Rightarrow> 'c evaluation_context \<Rightarrow> ('p, 'c) engine \<Rightarrow>
    policy_result res \<times> ('p, 'c) engine" where
  "evaluate_composed day run read_only ctx eng =
     (let start = \<lparr>k_ctx = inject eng ctx, k_labels = [], k_state = [], k_reasons = [], k_askers = [], k_data = None\<rparr>
      in case compose run (e_labels eng) (context_of eng) (e_policies eng) start of
           (denied, k, policies') \<Rightarrow>
             let eng' = eng\<lparr>e_policies := policies'\<rparr>
             in case denied of
                  Some (name, reason) \<Rightarrow> compose_deny day read_only name reason (k_labels k) (k_state k) eng'
                | None \<Rightarrow>
                    if k_reasons k \<noteq> [] then
                      (Inr \<lparr>r_action = ASK, r_reason = Some (join ''; '' (k_reasons k)), r_set_labels = some_if (k_labels k),
                            r_deciding_policies = Some (k_askers k), r_data = k_data k,
                            r_state_updates = some_if (k_state k)\<rparr>, eng')
                    else
                      let allowed = \<lparr>r_action = ALLOW, r_reason = None, r_set_labels = some_if (k_labels k),
                                     r_deciding_policies = None, r_data = k_data k, r_state_updates = some_if (k_state k)\<rparr>
                      in if read_only then (Inr allowed, eng')
                         else case apply_state_updates day (k_state k) (apply_label_writes (k_labels k) eng') of
                                (Inl e, eng'') \<Rightarrow> (Inl e, eng'')
                              | (Inr _, eng'') \<Rightarrow> (Inr allowed, eng''))"

section \<open>Usage, lookup and turns\<close>

fun add_counts :: "(string \<times> real) list \<Rightarrow> usage \<Rightarrow> unit res \<times> usage" where
  \<comment> \<open>a sequence of \<open>usage[key] += delta\<close>\<close>
  "add_counts [] u = (Inr (), u)"
| "add_counts ((k, d) # rest) u =
     (case dget u k of None \<Rightarrow> (Inl (KeyError k), u) | Some v \<Rightarrow> add_counts rest (dset k (v + d) u))"

record token_counts =
  tc_input :: nat
  tc_output :: nat
  tc_total :: nat
  tc_cache_read :: nat
  tc_cache_creation :: nat

definition token_deltas :: "token_counts \<Rightarrow> (string \<times> real) list" where
  "token_deltas t =
     [(''input_tokens'', real (tc_input t)), (''output_tokens'', real (tc_output t)), (''total_tokens'', real (tc_total t)),
      (''cache_read_input_tokens'', real (tc_cache_read t)), (''cache_creation_input_tokens'', real (tc_cache_creation t))]"

definition delta_usage :: "token_counts \<Rightarrow> usage" where
  "delta_usage t =
     [(''input_tokens'', real (tc_input t)), (''output_tokens'', real (tc_output t)),
      (''cache_read_input_tokens'', real (tc_cache_read t)), (''cache_creation_input_tokens'', real (tc_cache_creation t))]"

definition record_usage :: "token_counts \<Rightarrow> ('p, 'c) engine \<Rightarrow> unit res \<times> ('p, 'c) engine" where
  "record_usage t eng =
     (let delta_cost = (case e_token_pricing eng of None \<Rightarrow> 0 | Some p \<Rightarrow> compute_llm_cost (delta_usage t) p);
          priced = (case e_token_pricing eng of None \<Rightarrow> [] | Some _ \<Rightarrow> [(''total_cost_usd'', delta_cost)])
      in case add_counts (token_deltas t @ priced) (e_usage eng) of
           (Inl e, u) \<Rightarrow> (Inl e, eng\<lparr>e_usage := u\<rparr>)
         | (Inr _, u) \<Rightarrow>
             let eng' = eng\<lparr>e_usage := u\<rparr>
             in case e_subtree_usage eng of
                  None \<Rightarrow> (Inr (), eng'\<lparr>e_store := set_session_usage (e_conversation_id eng) u (e_store eng)\<rparr>)
                | Some su \<Rightarrow>
                    (case add_counts (token_deltas t @ [(''total_cost_usd'', delta_cost)]) su of
                       (Inl e, su') \<Rightarrow> (Inl e, eng'\<lparr>e_subtree_usage := Some su'\<rparr>)
                     | (Inr _, su') \<Rightarrow>
                         (Inr (), eng'\<lparr>e_subtree_usage := Some su',
                           e_store := set_session_usage (e_conversation_id eng) u (e_store eng)\<rparr>)))"

fun spec_for :: "'p policy list \<Rightarrow> string option \<Rightarrow> policy_spec option" where
  "spec_for ps None = None"
| "spec_for [] (Some name) = None"
| "spec_for (p # ps) (Some name) = (if ps_name (pol_spec p) = name then Some (pol_spec p) else spec_for ps (Some name))"

definition reset_turn :: "('p \<Rightarrow> 'p) \<Rightarrow> ('p, 'c) engine \<Rightarrow> ('p, 'c) engine" where
  "reset_turn reset eng = eng\<lparr>e_policies := map (\<lambda>p. p\<lparr>pol_state := reset (pol_state p)\<rparr>) (e_policies eng)\<rparr>"

section \<open>The trace of a composition\<close>

text \<open>
  \<open>fired\<close> lists the results of the policies that fire, in order and up to the first denial, each
  seeing the content its predecessors left. The composed decision is a function of that trace.
\<close>

definition next_ctx :: "policy_result \<Rightarrow> 'c evaluation_context \<Rightarrow> 'c evaluation_context" where
  "next_ctx r ctx = (case r_data r of None \<Rightarrow> ctx | Some d \<Rightarrow> ctx\<lparr>cx_content := d\<rparr>)"

fun fired :: "('p, 'c) policy_run \<Rightarrow> labels \<Rightarrow> engine_context \<Rightarrow> 'p policy list \<Rightarrow> 'c evaluation_context \<Rightarrow>
    (policy_spec \<times> policy_result) list" where
  "fired run ls ec [] ctx = []"
| "fired run ls ec (p # ps) ctx =
     (if should_fire ls (pol_spec p) ctx then
        let r = fst (dispatch_policy run p ctx ec)
        in (pol_spec p, r) # (if r_action r = DENY then [] else fired run ls ec ps (next_ctx r ctx))
      else fired run ls ec ps ctx)"

fun denial :: "(policy_spec \<times> policy_result) list \<Rightarrow> (string \<times> string option) option" where
  "denial [] = None"
| "denial ((spec, r) # tr) = (if r_action r = DENY then Some (ps_name spec, r_reason r) else denial tr)"

definition writable :: "policy_spec \<times> policy_result \<Rightarrow> labels" where
  "writable sr = (case filter_writable_labels (r_set_labels (snd sr)) (fst sr) of None \<Rightarrow> [] | Some l \<Rightarrow> l)"

definition all_labels :: "(policy_spec \<times> policy_result) list \<Rightarrow> labels" where
  "all_labels tr = foldl dupdate [] (map writable tr)"

definition updates_of :: "policy_result \<Rightarrow> state_update list" where
  "updates_of r = (case r_state_updates r of None \<Rightarrow> [] | Some us \<Rightarrow> us)"

definition all_updates :: "(policy_spec \<times> policy_result) list \<Rightarrow> state_update list" where
  "all_updates tr = concat (map (updates_of \<circ> snd) tr)"

definition asks :: "(policy_spec \<times> policy_result) list \<Rightarrow> (policy_spec \<times> policy_result) list" where
  "asks tr = filter (\<lambda>sr. r_action (snd sr) = ASK) tr"

definition ask_reason :: "policy_spec \<times> policy_result \<Rightarrow> string" where
  "ask_reason sr = ps_name (fst sr) @ '': '' @
     (case r_reason (snd sr) of None \<Rightarrow> ''approval required'' | Some t \<Rightarrow> if t = [] then ''approval required'' else t)"

fun last_data :: "pyval option \<Rightarrow> (policy_spec \<times> policy_result) list \<Rightarrow> pyval option" where
  "last_data d [] = d"
| "last_data d ((s, r) # tr) = last_data (case r_data r of None \<Rightarrow> d | Some x \<Rightarrow> Some x) tr"

lemma gather_fields [simp]:
  "k_ctx (gather spec r k) = k_ctx k" "k_reasons (gather spec r k) = k_reasons k"
  "k_askers (gather spec r k) = k_askers k" "k_data (gather spec r k) = k_data k"
  "k_labels (gather spec r k) = dupdate (k_labels k) (writable (spec, r))"
  "k_state (gather spec r k) = k_state k @ updates_of r"
  by (auto simp: gather_def writable_def updates_of_def split: option.split)

lemma advance_fields [simp]:
  "k_labels (advance spec r k) = k_labels k" "k_state (advance spec r k) = k_state k"
  "k_ctx (advance spec r k) = next_ctx r (k_ctx k)"
  "k_data (advance spec r k) = (case r_data r of None \<Rightarrow> k_data k | Some x \<Rightarrow> Some x)"
  "k_reasons (advance spec r k) = k_reasons k @ (if r_action r = ASK then [ask_reason (spec, r)] else [])"
  "k_askers (advance spec r k) = k_askers k @ (if r_action r = ASK then [ps_name spec] else [])"
  by (auto simp: advance_def next_ctx_def ask_reason_def Let_def split: option.split)

lemma compose_fired:
  assumes "compose run ls ec ps k = (d, k', ps')" and "tr = fired run ls ec ps (k_ctx k)"
  shows "d = denial tr \<and> k_labels k' = foldl dupdate (k_labels k) (map writable tr) \<and>
    k_state k' = k_state k @ all_updates tr \<and>
    (d = None \<longrightarrow> k_reasons k' = k_reasons k @ map ask_reason (asks tr) \<and>
      k_askers k' = k_askers k @ map (ps_name \<circ> fst) (asks tr) \<and> k_data k' = last_data (k_data k) tr)"
  using assms
proof (induction ps arbitrary: k tr d k' ps')
  case Nil
  then show ?case by (auto simp: all_updates_def asks_def)
next
  case (Cons p ps)
  show ?case
  proof (cases "should_fire ls (pol_spec p) (k_ctx k)")
    case False
    with Cons.prems obtain ps'' where "compose run ls ec ps k = (d, k', ps'')" by (auto split: prod.splits)
    from Cons.IH [OF this] False Cons.prems(2) show ?thesis by simp
  next
    case True
    obtain r p' where rp: "dispatch_policy run p (k_ctx k) ec = (r, p')" by (cases "dispatch_policy run p (k_ctx k) ec")
    show ?thesis
    proof (cases "r_action r = DENY")
      case deny: True
      with True rp Cons.prems show ?thesis by (auto simp: all_updates_def asks_def Let_def)
    next
      case False
      let ?k = "advance (pol_spec p) r (gather (pol_spec p) r k)"
      let ?tr = "fired run ls ec ps (next_ctx r (k_ctx k))"
      from True rp False Cons.prems(1) obtain ps'' where "compose run ls ec ps ?k = (d, k', ps'')"
        by (auto simp: Let_def split: prod.splits)
      from Cons.IH [OF this refl] have IH: "d = denial ?tr \<and>
          k_labels k' = foldl dupdate (dupdate (k_labels k) (writable (pol_spec p, r))) (map writable ?tr) \<and>
          k_state k' = (k_state k @ updates_of r) @ all_updates ?tr \<and>
          (d = None \<longrightarrow> k_reasons k' = k_reasons ?k @ map ask_reason (asks ?tr) \<and>
            k_askers k' = k_askers ?k @ map (ps_name \<circ> fst) (asks ?tr) \<and> k_data k' = last_data (k_data ?k) ?tr)"
        by simp
      moreover have "tr = (pol_spec p, r) # ?tr" using True rp False Cons.prems(2) by (simp add: Let_def)
      ultimately show ?thesis using False by (auto simp: all_updates_def asks_def cong: option.case_cong)
    qed
  qed
qed

definition decide :: "string \<Rightarrow> bool \<Rightarrow> (policy_spec \<times> policy_result) list \<Rightarrow> ('p, 'c) engine \<Rightarrow>
    policy_result res \<times> ('p, 'c) engine" where
  \<comment> \<open>the specification: the decision and its effects as a function of the trace\<close>
  "decide day read_only tr eng =
     (case denial tr of
        Some (name, reason) \<Rightarrow> compose_deny day read_only name reason (all_labels tr) (all_updates tr) eng
      | None \<Rightarrow>
          let r = \<lparr>r_action = if asks tr \<noteq> [] then ASK else ALLOW,
                   r_reason = if asks tr \<noteq> [] then Some (join ''; '' (map ask_reason (asks tr))) else None,
                   r_set_labels = some_if (all_labels tr),
                   r_deciding_policies = if asks tr \<noteq> [] then Some (map (ps_name \<circ> fst) (asks tr)) else None,
                   r_data = last_data None tr, r_state_updates = some_if (all_updates tr)\<rparr>
          in if read_only \<or> asks tr \<noteq> [] then (Inr r, eng)
             else case apply_state_updates day (all_updates tr) (apply_label_writes (all_labels tr) eng) of
                    (Inl e, eng'') \<Rightarrow> (Inl e, eng'')
                  | (Inr _, eng'') \<Rightarrow> (Inr r, eng''))"

lemma evaluate_fired:
  fixes eng :: "('p, 'c) engine"
  assumes "tr = fired run (e_labels eng) (context_of eng) (e_policies eng) (inject eng ctx)"
  obtains policies' where "evaluate_composed day run read_only ctx eng = decide day read_only tr (eng\<lparr>e_policies := policies'\<rparr>)"
proof -
  let ?k = "\<lparr>k_ctx = inject eng ctx, k_labels = [], k_state = [], k_reasons = [], k_askers = [], k_data = None\<rparr>"
  obtain d k ps where run: "compose run (e_labels eng) (context_of eng) (e_policies eng) ?k = (d, k, ps)"
    by (cases "compose run (e_labels eng) (context_of eng) (e_policies eng) ?k")
  have k: "d = denial tr" "k_labels k = all_labels tr" "k_state k = all_updates tr"
    "d = None \<Longrightarrow> k_reasons k = map ask_reason (asks tr) \<and> k_askers k = map (ps_name \<circ> fst) (asks tr) \<and> k_data k = last_data None tr"
    using compose_fired [OF run, of tr] assms by (auto simp: all_labels_def)
  have "evaluate_composed day run read_only ctx eng = decide day read_only tr (eng\<lparr>e_policies := ps\<rparr>)"
  proof (cases "denial tr")
    case None
    with k(4) have "k_reasons k = map ask_reason (asks tr)" "k_askers k = map (ps_name \<circ> fst) (asks tr)" "k_data k = last_data None tr"
      by (simp_all add: k(1))
    then show ?thesis
      using None by (simp add: evaluate_composed_def decide_def Let_def run k(1-3))
  next
    case (Some nr)
    then show ?thesis by (cases nr) (simp add: evaluate_composed_def decide_def Let_def run k(1-3))
  qed
  with that show ?thesis by blast
qed

lemma denial_iff: "denial tr \<noteq> None \<longleftrightarrow> (\<exists>sr \<in> set tr. r_action (snd sr) = DENY)"
  by (induction tr rule: denial.induct) auto

lemma denial_Some:
  "denial tr = Some d \<Longrightarrow> \<exists>spec r. (spec, r) \<in> set tr \<and> r_action r = DENY \<and> d = (ps_name spec, r_reason r)"
  by (induction tr rule: denial.induct) (auto split: if_splits)

lemma fired_denial_last:
  "(spec, r) \<in> set (fired run ls ec ps ctx) \<Longrightarrow> r_action r = DENY \<Longrightarrow> last (fired run ls ec ps ctx) = (spec, r)"
proof (induction ps arbitrary: ctx)
  case (Cons p ps)
  then show ?case by (auto simp: Let_def split: if_splits)
qed simp

lemma compose_deny_result:
  "fst (compose_deny day read_only name reason ls us eng) = Inr r \<Longrightarrow>
   r = \<lparr>r_action = DENY, r_reason = reason, r_set_labels = some_if ls, r_deciding_policies = Some [name], r_data = None,
        r_state_updates = some_if us\<rparr>"
  by (auto simp: compose_deny_def Let_def split: if_splits prod.splits sum.splits)

lemma should_fire_cong:
  assumes "cx_phase ctx' = cx_phase ctx" and "cx_tool_name ctx' = cx_tool_name ctx"
  shows "should_fire ls spec ctx' = should_fire ls spec ctx"
proof -
  have eq: "(\<lambda>sel. matches sel ctx') = (\<lambda>sel. matches sel ctx)"
    using assms by (simp add: matches_def fun_eq_iff split: option.split)
  show ?thesis unfolding should_fire_def eq ..
qed

lemma should_fire_next [simp]: "should_fire ls spec (next_ctx r ctx) = should_fire ls spec ctx"
  by (rule should_fire_cong) (simp_all add: next_ctx_def split: option.split)

lemma should_fire_inject [simp]: "should_fire ls spec (inject eng ctx) = should_fire ls spec ctx"
  by (rule should_fire_cong) (simp_all add: inject_def Let_def split: option.split)

lemma condition_matches_iff:
  "condition_matches c ls \<longleftrightarrow> (\<forall>(k, ex) \<in> set c. \<exists>v. dget ls k = Some v \<and> expected_matches ex v)"
  by (induction c ls rule: condition_matches.induct) (auto split: option.splits)

section \<open>What the operations keep\<close>

lemma record_user_daily_fields [simp]:
  "e_labels (record_user_daily_ask_approved day v eng) = e_labels eng"
  "e_label_defs (record_user_daily_ask_approved day v eng) = e_label_defs eng"
  "e_conversation_id (record_user_daily_ask_approved day v eng) = e_conversation_id eng"
  "e_root_conversation_id (record_user_daily_ask_approved day v eng) = e_root_conversation_id eng"
  "e_session_state (record_user_daily_ask_approved day v eng) = e_session_state eng"
  "st_labels (e_store (record_user_daily_ask_approved day v eng)) = st_labels (e_store eng)"
  "st_convs (e_store (record_user_daily_ask_approved day v eng)) = st_convs (e_store eng)"
  by (auto simp: record_user_daily_ask_approved_def set_daily_ask_approved_def split: option.split)

lemma set_session_state_fields [simp]:
  "st_labels (set_session_state conv s st) = st_labels st" "st_owners (set_session_state conv s st) = st_owners st"
  by (auto simp: set_session_state_def split: option.split)

lemma set_session_usage_fields [simp]: "st_labels (set_session_usage conv u st) = st_labels st"
  by (auto simp: set_session_usage_def split: option.split)

lemma record_root_fields:
  assumes "record_root_cost_ask_approved op eng = (out, eng')"
  shows "e_labels eng' = e_labels eng \<and> e_label_defs eng' = e_label_defs eng \<and>
    e_conversation_id eng' = e_conversation_id eng \<and> e_root_conversation_id eng' = e_root_conversation_id eng \<and>
    st_labels (e_store eng') = st_labels (e_store eng)"
  using assms by (auto simp: record_root_cost_ask_approved_def Let_def split: sum.splits)

lemma route_updates_fields:
  assumes "route_updates day ops acc eng = (out, eng')"
  shows "e_labels eng' = e_labels eng \<and> e_label_defs eng' = e_label_defs eng \<and>
    e_conversation_id eng' = e_conversation_id eng \<and> e_root_conversation_id eng' = e_root_conversation_id eng \<and>
    st_labels (e_store eng') = st_labels (e_store eng)"
  using assms
proof (induction day ops acc eng arbitrary: out eng' rule: route_updates.induct)
  case (2 day op ops acc eng)
  show ?case
  proof (cases "su_key op = USER_DAILY_ASK_APPROVED_STATE_KEY")
    case True
    with 2(4) have "route_updates day ops acc (record_user_daily_ask_approved day (su_value op) eng) = (out, eng')" by simp
    with 2(1) [OF True] show ?thesis by simp
  next
    case daily: False
    show ?thesis
    proof (cases "su_key op \<in> {SESSION_COST_ASK_APPROVED_STATE_KEY, SESSION_COST_UNPRICED_APPROVED_KEY}
              \<and> e_root_conversation_id eng \<noteq> e_conversation_id eng")
      case True
      obtain o1 e1 where r: "record_root_cost_ask_approved op eng = (o1, e1)" by fastforce
      show ?thesis
      proof (cases o1)
        case (Inl e)
        with record_root_fields [OF r] True daily r 2(4) show ?thesis by simp
      next
        case (Inr u)
        with True daily r 2(4) have "route_updates day ops acc e1 = (out, eng')" by simp
        with 2(2) [OF daily True r [symmetric]] Inr record_root_fields [OF r] show ?thesis by simp
      qed
    next
      case False
      have "route_updates day ops (acc @ [op]) eng = (out, eng')"
        using 2(4) unfolding route_updates.simps if_not_P [OF daily] if_not_P [OF False] .
      with 2(3) [OF daily False] show ?thesis by simp
    qed
  qed
qed auto

lemma apply_state_updates_fields:
  assumes "apply_state_updates day us eng = (out, eng')"
  shows "e_labels eng' = e_labels eng \<and> e_label_defs eng' = e_label_defs eng \<and>
    e_conversation_id eng' = e_conversation_id eng \<and> e_root_conversation_id eng' = e_root_conversation_id eng \<and>
    st_labels (e_store eng') = st_labels (e_store eng)"
proof -
  obtain o1 e1 where r: "route_updates day us [] eng = (o1, e1)" by fastforce
  obtain o2 s where a: "apply_ops (projr o1) (e_session_state e1) = (o2, s)" by fastforce
  from route_updates_fields [OF r] assms r a show ?thesis
    by (cases o1; cases o2) (auto simp: apply_state_updates_def split: if_splits)
qed

lemma record_usage_fields:
  assumes "record_usage t eng = (out, eng')"
  shows "e_labels eng' = e_labels eng \<and> e_label_defs eng' = e_label_defs eng \<and>
    e_conversation_id eng' = e_conversation_id eng \<and> e_session_state eng' = e_session_state eng \<and>
    e_policies eng' = e_policies eng \<and> st_labels (e_store eng') = st_labels (e_store eng)"
  using assms by (auto simp: record_usage_def Let_def split: prod.splits sum.splits option.splits)

section \<open>Label writes and their invariant\<close>

lemma dupdate_Cons: "dupdate d ((k, v) # e) = dupdate (dset k v d) e"
  by (simp add: dupdate_def)

lemma dupdate_cong: "dget d = dget d' \<Longrightarrow> dget (dupdate d e) = dget (dupdate d' e)"
proof (induction e arbitrary: d d')
  case (Cons p e)
  have "dget (dset (fst p) (snd p) d) = dget (dset (fst p) (snd p) d')"
    using Cons.prems by (simp add: fun_eq_iff)
  from Cons.IH [OF this] show ?case by (cases p) (simp add: dupdate_Cons)
qed simp

lemma dget_dupdate_source: "dget (dupdate d e) k = Some v \<Longrightarrow> dget d k = Some v \<or> (k, v) \<in> set e"
proof (induction e arbitrary: d)
  case (Cons p e)
  then show ?case by (cases p) (fastforce simp: dupdate_Cons split: if_splits)
qed simp

lemma set_filter_schema_valid [simp]:
  "(k, v) \<in> set (filter_schema_valid defs updates) \<longleftrightarrow> (k, v) \<in> set updates \<and> schema_valid defs k v"
  by (auto simp: filter_schema_valid_def)

lemma apply_label_writes_fields [simp]:
  "e_label_defs (apply_label_writes ls eng) = e_label_defs eng"
  "e_conversation_id (apply_label_writes ls eng) = e_conversation_id eng"
  "e_root_conversation_id (apply_label_writes ls eng) = e_root_conversation_id eng"
  "e_session_state (apply_label_writes ls eng) = e_session_state eng"
  "e_usage (apply_label_writes ls eng) = e_usage eng"
  "st_convs (e_store (apply_label_writes ls eng)) = st_convs (e_store eng)"
  by (simp_all add: apply_label_writes_def Let_def set_labels_def)

lemma apply_label_writes_labels:
  "e_labels (apply_label_writes ls eng) = dupdate (e_labels eng) (filter_schema_valid (e_label_defs eng) ls)"
  by (simp add: apply_label_writes_def Let_def filter_schema_valid_def)

lemma apply_label_writes_stored:
  "stored_labels (e_store (apply_label_writes ls eng)) (e_conversation_id eng) =
   dupdate (stored_labels (e_store eng) (e_conversation_id eng)) (filter_schema_valid (e_label_defs eng) ls)"
  by (simp add: apply_label_writes_def Let_def filter_schema_valid_def set_labels_def stored_labels_def split: option.split)

datatype 'c engine_op =
    WriteLabels labels
  | UpdateState "state_update list"
  | Evaluate bool "'c evaluation_context"
  | RecordUsage token_counts
  | ResetTurn

fun engine_step :: "string \<Rightarrow> ('p, 'c) policy_run \<Rightarrow> ('p \<Rightarrow> 'p) \<Rightarrow> ('p, 'c) engine \<Rightarrow> 'c engine_op \<Rightarrow> ('p, 'c) engine" where
  "engine_step day run reset eng (WriteLabels ls) = apply_label_writes ls eng"
| "engine_step day run reset eng (UpdateState us) = snd (apply_state_updates day us eng)"
| "engine_step day run reset eng (Evaluate ro ctx) = snd (evaluate_composed day run ro ctx eng)"
| "engine_step day run reset eng (RecordUsage t) = snd (record_usage t eng)"
| "engine_step day run reset eng ResetTurn = reset_turn reset eng"

definition labels_inv :: "(string, label_def) pydict \<Rightarrow> string \<Rightarrow> labels \<Rightarrow> ('p, 'c) engine \<Rightarrow> bool" where
  \<comment> \<open>the cache is the stored row, and whatever was written since \<open>l0\<close> satisfies the schema\<close>
  "labels_inv defs conv l0 eng \<longleftrightarrow>
     e_label_defs eng = defs \<and> e_conversation_id eng = conv \<and>
     dget (e_labels eng) = dget (stored_labels (e_store eng) conv) \<and>
     (\<forall>k v. dget (e_labels eng) k = Some v \<longrightarrow> dget l0 k = Some v \<or> schema_valid defs k v)"

lemma schema_validD: "schema_valid defs k v \<Longrightarrow> dget defs k = Some ldef \<Longrightarrow> ld_values ldef = Some vs \<Longrightarrow> v \<in> set vs"
  by (simp add: schema_valid_def)

lemma labels_inv_write: "labels_inv defs conv l0 eng \<Longrightarrow> labels_inv defs conv l0 (apply_label_writes ls eng)"
  unfolding labels_inv_def
  by (auto simp: apply_label_writes_labels apply_label_writes_stored intro: dupdate_cong dest!: dget_dupdate_source)

lemma labels_inv_other:
  assumes "labels_inv defs conv l0 eng" and "e_labels eng' = e_labels eng" and "e_label_defs eng' = e_label_defs eng"
    and "e_conversation_id eng' = e_conversation_id eng" and "st_labels (e_store eng') = st_labels (e_store eng)"
  shows "labels_inv defs conv l0 eng'"
  using assms by (simp add: labels_inv_def stored_labels_def)

lemma labels_inv_updates: "labels_inv defs conv l0 eng \<Longrightarrow> labels_inv defs conv l0 (snd (apply_state_updates day us eng))"
  by (cases "apply_state_updates day us eng") (use apply_state_updates_fields in \<open>force elim: labels_inv_other\<close>)

lemma labels_inv_decide:
  assumes "labels_inv defs conv l0 eng"
  shows "labels_inv defs conv l0 (snd (decide day read_only tr eng))"
proof (cases "denial tr")
  case None
  have "labels_inv defs conv l0 (snd (apply_state_updates day (all_updates tr) (apply_label_writes (all_labels tr) eng)))"
    by (intro labels_inv_updates labels_inv_write assms)
  with None assms show ?thesis by (auto simp: decide_def Let_def split: prod.splits sum.splits)
next
  case (Some nr)
  have "labels_inv defs conv l0 (snd (apply_state_updates day (all_updates tr) eng))"
    by (intro labels_inv_updates assms)
  with Some assms show ?thesis
    by (auto simp: decide_def compose_deny_def Let_def split: prod.splits sum.splits intro: labels_inv_write)
qed

lemma labels_inv_step:
  assumes "labels_inv defs conv l0 eng"
  shows "labels_inv defs conv l0 (engine_step day run reset eng op)"
proof (cases op)
  case (Evaluate ro ctx)
  obtain ps where "evaluate_composed day run ro ctx eng =
      decide day ro (fired run (e_labels eng) (context_of eng) (e_policies eng) (inject eng ctx)) (eng\<lparr>e_policies := ps\<rparr>)"
    using evaluate_fired [OF refl] by blast
  moreover have "labels_inv defs conv l0 (eng\<lparr>e_policies := ps\<rparr>)"
    using assms by (rule labels_inv_other) simp_all
  ultimately show ?thesis using Evaluate by (simp add: labels_inv_decide)
next
  case (RecordUsage t)
  then show ?thesis using assms record_usage_fields [of t eng "fst (record_usage t eng)" "snd (record_usage t eng)"]
    by (auto elim: labels_inv_other)
next
  case ResetTurn
  then show ?thesis using assms by (auto simp: reset_turn_def elim: labels_inv_other)
qed (use assms in \<open>auto intro: labels_inv_write labels_inv_updates\<close>)

lemma labels_inv_init:
  "labels_inv defs conv (stored_labels st conv)
     (make_engine ps defs timeout conv (stored_labels st conv) s0 u0 su0 daily pricing model st root_id client)"
  by (simp add: labels_inv_def make_engine_def)

interpretation engine_labels: op_machine "engine_step day run reset" "labels_inv defs conv (stored_labels st conv)"
    "make_engine ps defs timeout conv (stored_labels st conv) s0 u0 su0 daily pricing model st root_id client"
  for day :: string and run :: "('p, 'c) policy_run" and reset and defs and conv and st and ps and timeout and s0 and u0
    and su0 and daily and pricing and model and root_id and client
  by unfold_locales (rule labels_inv_init, rule labels_inv_step)

section \<open>Usage accounting\<close>

lemma add_counts_present:
  assumes "distinct (map fst ds)" and "list_all (\<lambda>kd. dget u (fst kd) \<noteq> None) ds"
  shows "fst (add_counts ds u) = Inr () \<and>
    (\<forall>k. dget (snd (add_counts ds u)) k =
       map_option (\<lambda>v. v + (case map_of ds k of None \<Rightarrow> 0 | Some d \<Rightarrow> d)) (dget u k))"
  using assms
proof (induction ds arbitrary: u)
  case Nil
  then show ?case by (simp add: option.map_ident)
next
  case (Cons kd ds)
  obtain k d where kd: "kd = (k, d)" by (cases kd)
  from Cons.prems kd obtain v where v: "dget u k = Some v" by auto
  have k: "map_of ds k = None" using Cons.prems(1) kd by (simp add: map_of_eq_None_iff)
  have "list_all (\<lambda>kd. dget (dset k (v + d) u) (fst kd) \<noteq> None) ds" using Cons.prems(2) by (auto simp: list_all_iff)
  with Cons.IH [of "dset k (v + d) u"] Cons.prems(1) v k show ?case by (simp add: kd)
qed

definition usage_keys :: "string list" where
  "usage_keys = [''input_tokens'', ''output_tokens'', ''total_tokens'', ''cache_read_input_tokens'',
     ''cache_creation_input_tokens'', ''total_cost_usd'']"

definition usage_ready :: "usage \<Rightarrow> bool" where
  "usage_ready u \<longleftrightarrow> list_all (\<lambda>k. dget u k \<noteq> None) usage_keys"

definition cost_of :: "model_pricing option \<Rightarrow> token_counts \<Rightarrow> real" where
  "cost_of pricing t = (case pricing of None \<Rightarrow> 0 | Some p \<Rightarrow> compute_llm_cost (delta_usage t) p)"

definition usage_delta :: "model_pricing option \<Rightarrow> token_counts \<Rightarrow> string \<Rightarrow> real" where
  "usage_delta pricing t k =
     (case map_of (token_deltas t @ [(''total_cost_usd'', cost_of pricing t)]) k of None \<Rightarrow> 0 | Some d \<Rightarrow> d)"

definition usage_inv :: "model_pricing option \<Rightarrow> ('p, 'c) engine \<Rightarrow> bool" where
  "usage_inv pricing eng \<longleftrightarrow> e_token_pricing eng = pricing \<and> usage_ready (e_usage eng) \<and>
     (case e_subtree_usage eng of None \<Rightarrow> True | Some u \<Rightarrow> usage_ready u)"

lemma add_counts_deltas:
  assumes "usage_ready u"
  shows "fst (add_counts (token_deltas t @ [(''total_cost_usd'', cost_of pricing t)]) u) = Inr ()"
    "dget (snd (add_counts (token_deltas t @ [(''total_cost_usd'', cost_of pricing t)]) u)) k =
       map_option (\<lambda>v. v + usage_delta pricing t k) (dget u k)"
  using add_counts_present [of "token_deltas t @ [(''total_cost_usd'', cost_of pricing t)]" u] assms
  by (simp_all add: usage_delta_def usage_ready_def usage_keys_def token_deltas_def)

lemma add_counts_unpriced:
  assumes "usage_ready u"
  shows "fst (add_counts (token_deltas t) u) = Inr ()"
    "dget (snd (add_counts (token_deltas t) u)) k = map_option (\<lambda>v. v + usage_delta None t k) (dget u k)"
  using add_counts_present [of "token_deltas t" u] assms
  by (simp_all add: usage_delta_def cost_of_def usage_ready_def usage_keys_def token_deltas_def)

definition own_deltas :: "model_pricing option \<Rightarrow> token_counts \<Rightarrow> (string \<times> real) list" where
  "own_deltas pricing t = token_deltas t @ (case pricing of None \<Rightarrow> [] | Some p \<Rightarrow> [(''total_cost_usd'', cost_of pricing t)])"

lemma add_counts_own:
  assumes "usage_ready u"
  shows "fst (add_counts (own_deltas pricing t) u) = Inr ()"
    "dget (snd (add_counts (own_deltas pricing t) u)) k = map_option (\<lambda>v. v + usage_delta pricing t k) (dget u k)"
  using add_counts_deltas [OF assms, of t pricing] add_counts_unpriced [OF assms, of t]
  by (cases pricing; simp add: own_deltas_def)+

lemma usage_ready_moved:
  assumes "usage_ready u" and "\<And>k. dget u' k = map_option (f k) (dget u k)"
  shows "usage_ready u'"
  using assms by (simp add: usage_ready_def)

lemma record_usage_ok:
  assumes "usage_inv pricing eng"
  shows "fst (record_usage t eng) = Inr () \<and> usage_inv pricing (snd (record_usage t eng)) \<and>
    (\<forall>k. dget (e_usage (snd (record_usage t eng))) k = map_option (\<lambda>v. v + usage_delta pricing t k) (dget (e_usage eng) k)) \<and>
    e_store (snd (record_usage t eng)) = set_session_usage (e_conversation_id eng) (e_usage (snd (record_usage t eng))) (e_store eng)"
proof -
  let ?a = "add_counts (own_deltas pricing t) (e_usage eng)"
  have p: "e_token_pricing eng = pricing" and u: "usage_ready (e_usage eng)" using assms by (simp_all add: usage_inv_def)
  obtain u' where a: "?a = (Inr (), u')" using add_counts_own(1) [OF u, of pricing t] by (cases ?a) auto
  have u': "dget u' k = map_option (\<lambda>v. v + usage_delta pricing t k) (dget (e_usage eng) k)" for k
    using add_counts_own(2) [OF u, of pricing t k] a by simp
  have ready: "usage_ready u'" by (rule usage_ready_moved [OF u u'])
  have own: "token_deltas t @ (case pricing of None \<Rightarrow> [] | Some p \<Rightarrow> [(''total_cost_usd'', compute_llm_cost (delta_usage t) p)]) =
      own_deltas pricing t"
    by (simp add: own_deltas_def cost_of_def split: option.split)
  have cost: "(case pricing of None \<Rightarrow> 0 | Some p \<Rightarrow> compute_llm_cost (delta_usage t) p) = cost_of pricing t"
    by (simp add: cost_of_def)
  have priced: "(case pricing of None \<Rightarrow> [] | Some x \<Rightarrow> [(''total_cost_usd'', cost_of pricing t)]) =
      (case pricing of None \<Rightarrow> [] | Some p \<Rightarrow> [(''total_cost_usd'', compute_llm_cost (delta_usage t) p)])"
    by (simp add: cost_of_def split: option.split)
  show ?thesis
  proof (cases "e_subtree_usage eng")
    case None
    have "record_usage t eng = (Inr (), eng\<lparr>e_usage := u', e_store := set_session_usage (e_conversation_id eng) u' (e_store eng)\<rparr>)"
      unfolding record_usage_def Let_def p cost priced own a by (simp add: None)
    then show ?thesis using u' ready p None by (simp add: usage_inv_def)
  next
    case (Some su)
    let ?b = "add_counts (token_deltas t @ [(''total_cost_usd'', cost_of pricing t)]) su"
    have su: "usage_ready su" using assms Some by (simp add: usage_inv_def)
    obtain su' where b: "?b = (Inr (), su')" using add_counts_deltas(1) [OF su, of t pricing] by (cases ?b) auto
    have "usage_ready su'" using add_counts_deltas(2) [OF su, of t pricing] b by (auto intro: usage_ready_moved [OF su])
    moreover have "record_usage t eng = (Inr (), eng\<lparr>e_usage := u', e_subtree_usage := Some su',
        e_store := set_session_usage (e_conversation_id eng) u' (e_store eng)\<rparr>)"
      unfolding record_usage_def Let_def p cost priced own a by (simp add: Some b)
    ultimately show ?thesis using u' ready p by (simp add: usage_inv_def)
  qed
qed

interpretation engine_usage: op_refinement "\<lambda>eng t. snd (record_usage t eng)" "usage_inv pricing"
    "make_engine [] [] 0 [] [] None None None None pricing None \<lparr>st_convs = [], st_labels = [], st_owners = [], st_ask_approved = []\<rparr> None None"
    "\<lambda>eng. dget (e_usage eng)" "\<lambda>f t k. map_option (\<lambda>v. v + usage_delta pricing t k) (f k)"
  for pricing
proof unfold_locales
  show "usage_inv pricing (make_engine [] [] 0 [] [] None None None None pricing None
      \<lparr>st_convs = [], st_labels = [], st_owners = [], st_ask_approved = []\<rparr> None None)"
    by (simp add: usage_inv_def make_engine_def usage_ready_def usage_keys_def setdefault_def)
qed (use record_usage_ok in \<open>auto simp: fun_eq_iff\<close>)

section \<open>Facts about the decision\<close>

lemma decide_result:
  assumes "decide day read_only tr eng = (Inr r, eng')"
  shows "(denial tr \<noteq> None \<and> r_action r = DENY \<and> r_deciding_policies r = Some [fst (the (denial tr))] \<and>
      r_reason r = snd (the (denial tr)) \<or>
    denial tr = None \<and> asks tr \<noteq> [] \<and> r_action r = ASK \<and> r_deciding_policies r = Some (map (ps_name \<circ> fst) (asks tr)) \<and>
      r_reason r = Some (join ''; '' (map ask_reason (asks tr))) \<and> r_data r = last_data None tr \<or>
    denial tr = None \<and> asks tr = [] \<and> r_action r = ALLOW \<and> r_reason r = None \<and> r_data r = last_data None tr) \<and>
    r_set_labels r = some_if (all_labels tr) \<and> r_state_updates r = some_if (all_updates tr)"
proof (cases "denial tr")
  case None
  with assms show ?thesis
    by (cases "asks tr = []") (auto simp: decide_def Let_def split: if_splits prod.splits sum.splits)
next
  case (Some nr)
  with assms show ?thesis
    using compose_deny_result [of day read_only "fst nr" "snd nr" "all_labels tr" "all_updates tr" eng r]
    by (auto simp: decide_def split: prod.splits)
qed

lemma decide_quiet:
  assumes "decide day read_only tr eng = (Inr r, eng')" and "read_only \<or> r_action r = ASK"
  shows "eng' = eng"
proof (cases "denial tr")
  case None
  with assms show ?thesis by (auto simp: decide_def Let_def split: if_splits prod.splits sum.splits)
next
  case (Some nr)
  with assms decide_result [OF assms(1)] show ?thesis
    by (auto simp: decide_def compose_deny_def Let_def split: if_splits prod.splits sum.splits)
qed

lemma decide_read_only_returns: "\<exists>r. decide day True tr eng = (Inr r, eng)"
  by (auto simp: decide_def compose_deny_def Let_def split: option.split)

definition blocks :: "('p, 'c) policy_run \<Rightarrow> engine_context \<Rightarrow> 'p policy \<Rightarrow> bool" where
  \<comment> \<open>the policy denies or raises whatever context it is shown\<close>
  "blocks run ec p \<longleftrightarrow> (\<forall>c. case fst (run (pol_state p) c ec) of Inl e \<Rightarrow> True | Inr r \<Rightarrow> r_action r = DENY)"

lemma fired_denies:
  assumes "p \<in> set ps" and "should_fire ls (pol_spec p) ctx" and "blocks run ec p"
  shows "\<exists>sr \<in> set (fired run ls ec ps ctx). r_action (snd sr) = DENY"
  using assms(1,2)
proof (induction ps arbitrary: ctx)
  case (Cons q ps)
  show ?case
  proof (cases "q = p")
    case True
    have "r_action (fst (dispatch_policy run p ctx ec)) = DENY"
      using assms(3) [unfolded blocks_def, rule_format, of ctx]
      by (auto simp: dispatch_policy_def split: prod.splits sum.splits)
    with True Cons.prems(2) show ?thesis by (simp add: Let_def)
  next
    case False
    with Cons.prems have "p \<in> set ps" by simp
    with Cons.IH [OF this Cons.prems(2)]
      Cons.IH [OF this, of "next_ctx (fst (dispatch_policy run q ctx ec)) ctx"] Cons.prems(2)
    show ?thesis by (auto simp: Let_def)
  qed
qed simp

lemma asks_iff: "asks tr \<noteq> [] \<longleftrightarrow> (\<exists>sr \<in> set tr. r_action (snd sr) = ASK)"
  by (auto simp: asks_def filter_empty_conv)

lemma denial_last:
  assumes "tr = fired run ls ec ps ctx" and "denial tr = Some d"
  shows "d = (ps_name (fst (last tr)), r_reason (snd (last tr)))"
  using denial_Some [OF assms(2)] fired_denial_last assms(1) by fastforce

section \<open>Properties\<close>

definition plain_spec :: "string \<Rightarrow> policy_spec" where
  "plain_spec name = \<lparr>ps_name = name, ps_on = None, ps_condition = None, ps_ask_timeout = None, ps_set_labels = None\<rparr>"

definition ex_store :: store where
  "ex_store = \<lparr>st_convs = [(''s'', \<lparr>cv_state = [], cv_usage = []\<rparr>), (''root'', \<lparr>cv_state = [], cv_usage = []\<rparr>)],
     st_labels = [], st_owners = [], st_ask_approved = []\<rparr>"

definition ex_engine :: "policy_result res list \<Rightarrow> string \<Rightarrow> (policy_result res, unit) engine" where
  \<comment> \<open>an engine on the conversation \<open>s\<close> whose policies \<open>a\<close>, \<open>aa\<close>, ... answer a fixed result each\<close>
  "ex_engine outs r =
     make_engine (map (\<lambda>i. \<lparr>pol_spec = plain_spec (replicate (Suc i) CHR ''a''), pol_state = outs ! i\<rparr>) [0..<length outs])
       [] 60 ''s'' [] None None None None None None ex_store (Some r) None"

definition fixed_run :: "(policy_result res, unit) policy_run" where
  "fixed_run out ctx ec = (out, out)"

definition ex_ctx :: "unit evaluation_context" where
  "ex_ctx = \<lparr>cx_phase = TOOL_CALL, cx_content = PNone, cx_tool_name = Some ''t'', cx_actor = None, cx_request_data = None,
     cx_session_state = None, cx_usage = None, cx_subtree_usage = None, cx_user_daily_cost = None, cx_model = None,
     cx_harness = None, cx_labels = None, cx_llm_client = None\<rparr>"

definition bare_result :: "policy_action \<Rightarrow> policy_result" where
  "bare_result a = \<lparr>r_action = a, r_reason = None, r_set_labels = None, r_deciding_policies = None, r_data = None,
     r_state_updates = None\<rparr>"

lemmas ex_simps = ex_engine_def ex_store_def fixed_run_def ex_ctx_def bare_result_def plain_spec_def make_engine_def upt_rec

text \<open>
  C6: the composed decision is the most restrictive one of the policies that fired: DENY if any of
  them denied (reported with that policy's name and reason), otherwise ASK if any asked (reported
  with every asking policy in order), otherwise ALLOW; its writes are the whitelisted label writes
  and the state updates of all of them, and its data the last transformation.
\<close>

theorem composed_decision_is_most_restrictive:
  assumes "evaluate_composed day run read_only ctx eng = (Inr r, eng')"
    and "tr = fired run (e_labels eng) (context_of eng) (e_policies eng) (inject eng ctx)"
  shows "r_action r = (if \<exists>sr \<in> set tr. r_action (snd sr) = DENY then DENY
                       else if \<exists>sr \<in> set tr. r_action (snd sr) = ASK then ASK else ALLOW) \<and>
    (r_action r = DENY \<longrightarrow> r_deciding_policies r = Some [ps_name (fst (last tr))] \<and> r_reason r = r_reason (snd (last tr))) \<and>
    (r_action r = ASK \<longrightarrow> r_deciding_policies r = Some (map (ps_name \<circ> fst) (asks tr)) \<and>
      r_reason r = Some (join ''; '' (map ask_reason (asks tr)))) \<and>
    (r_action r \<noteq> DENY \<longrightarrow> r_data r = last_data None tr) \<and>
    r_set_labels r = some_if (all_labels tr) \<and> r_state_updates r = some_if (all_updates tr)"
proof -
  obtain ps where "decide day read_only tr (eng\<lparr>e_policies := ps\<rparr>) = (Inr r, eng')"
    using evaluate_fired [OF assms(2)] assms(1) by metis
  note res = decide_result [OF this]
  show ?thesis
  proof (cases "denial tr")
    case None
    with res show ?thesis using denial_iff [of tr] asks_iff [of tr] by auto
  next
    case (Some d)
    with res denial_last [OF assms(2) Some] show ?thesis using denial_iff [of tr] by auto
  qed
qed

theorem composed_decision_is_most_restrictive_witness:
  "\<exists>r eng'. evaluate_composed ''d'' fixed_run False ex_ctx (ex_engine [Inr (bare_result ALLOW), Inl IndexError] ''s'') = (Inr r, eng') \<and>
     r_action r = DENY \<and> r_deciding_policies r = Some [''aa'']"
proof -
  let ?eng = "ex_engine [Inr (bare_result ALLOW), Inl IndexError] ''s''"
  have tr: "map (\<lambda>sr. (ps_name (fst sr), r_action (snd sr)))
      (fired fixed_run (e_labels ?eng) (context_of ?eng) (e_policies ?eng) (inject ?eng ex_ctx)) = [(''a'', ALLOW), (''aa'', DENY)]"
    by (simp add: ex_simps should_fire_def dispatch_policy_def Let_def)
  obtain r eng' where run: "evaluate_composed ''d'' fixed_run False ex_ctx ?eng = (Inr r, eng')"
    by (simp add: ex_simps should_fire_def dispatch_policy_def Let_def evaluate_composed_def gather_def filter_writable_labels_def
        advance_def compose_deny_def apply_state_updates_def)
  from composed_decision_is_most_restrictive [OF run refl] tr run show ?thesis
    by (auto simp: map_eq_Cons_conv)
qed

text \<open>
  the engine fails closed: if a policy that fires denies or raises whatever content it is shown,
  no evaluation returns ALLOW or ASK, whatever the other policies answer and whatever they rewrite.
\<close>

theorem failing_policy_denies:
  fixes eng :: "('p, 'c) engine"
  assumes "p \<in> set (e_policies eng)" and "should_fire (e_labels eng) (pol_spec p) ctx"
    and "blocks run (context_of eng) p" and "evaluate_composed day run read_only ctx eng = (Inr r, eng')"
  shows "r_action r = DENY"
proof -
  let ?tr = "fired run (e_labels eng) (context_of eng) (e_policies eng) (inject eng ctx)"
  have denied: "denial ?tr \<noteq> None"
    unfolding denial_iff by (rule fired_denies [OF assms(1) _ assms(3)]) (simp add: assms(2))
  obtain ps where run: "decide day read_only ?tr (eng\<lparr>e_policies := ps\<rparr>) = (Inr r, eng')"
    using evaluate_fired [OF refl] assms(4) by metis
  from decide_result [OF run] denied show ?thesis by blast
qed

theorem failing_policy_denies_witness:
  "\<exists>r eng'. evaluate_composed ''d'' fixed_run True ex_ctx (ex_engine [Inr (bare_result ASK), Inl IndexError] ''s'') = (Inr r, eng') \<and>
     r_action r = DENY"
proof -
  let ?eng = "ex_engine [Inr (bare_result ASK), Inl IndexError] ''s''"
  let ?p = "\<lparr>pol_spec = plain_spec ''aa'', pol_state = Inl IndexError\<rparr>"
  have p: "?p \<in> set (e_policies ?eng)" "should_fire (e_labels ?eng) (pol_spec ?p) ex_ctx" "blocks fixed_run (context_of ?eng) ?p"
    by (simp_all add: ex_simps should_fire_def blocks_def)
  obtain r eng' where run: "evaluate_composed ''d'' fixed_run True ex_ctx ?eng = (Inr r, eng')"
    using evaluate_fired [OF refl] decide_read_only_returns by metis
  from failing_policy_denies [OF p run] run show ?thesis by blast
qed

text \<open>
  an evaluation for a read-only caller always returns and changes nothing but the policies' own
  state; an evaluation that asks for approval commits none of the collected writes either.
\<close>

theorem read_only_and_ask_commit_nothing:
  assumes "evaluate_composed day run read_only ctx eng = (out, eng')" and "read_only \<or> (\<exists>r. out = Inr r \<and> r_action r = ASK)"
  shows "eng' = eng\<lparr>e_policies := e_policies eng'\<rparr> \<and> (\<exists>r. out = Inr r)"
proof -
  let ?tr = "fired run (e_labels eng) (context_of eng) (e_policies eng) (inject eng ctx)"
  obtain ps where run: "decide day read_only ?tr (eng\<lparr>e_policies := ps\<rparr>) = (out, eng')"
    using evaluate_fired [OF refl] assms(1) by metis
  with assms(2) decide_read_only_returns [of day ?tr "eng\<lparr>e_policies := ps\<rparr>"] obtain r where "out = Inr r" by auto
  with run assms(2) decide_quiet [of day read_only ?tr "eng\<lparr>e_policies := ps\<rparr>" r eng'] show ?thesis by auto
qed

theorem read_only_and_ask_commit_nothing_witness:
  "\<exists>out eng'. evaluate_composed ''d'' fixed_run True ex_ctx (ex_engine [Inr (bare_result ALLOW)] ''s'') = (out, eng') \<and>
     e_store eng' = ex_store"
proof -
  let ?eng = "ex_engine [Inr (bare_result ALLOW)] ''s''"
  obtain out eng' where run: "evaluate_composed ''d'' fixed_run True ex_ctx ?eng = (out, eng')" by fastforce
  from read_only_and_ask_commit_nothing [OF run] have "eng' = ?eng\<lparr>e_policies := e_policies eng'\<rparr>" by simp
  then have "e_store eng' = e_store (?eng\<lparr>e_policies := e_policies eng'\<rparr>)" by (rule arg_cong)
  then show ?thesis using run by (auto simp: ex_engine_def make_engine_def)
qed

text \<open>
  C27: the label cache never drifts from the stored row, and no write ever puts a value outside a
  key's declared list into it: this holds after every sequence of label writes, state updates,
  evaluations, usage reports and turn resets on an engine built from the stored labels, also when
  some of them raise.
\<close>

theorem labels_stay_coherent_and_valid:
  fixes st :: store and run :: "('p, 'c) policy_run"
  assumes "eng = foldl (engine_step day run reset)
      (make_engine ps defs timeout conv (stored_labels st conv) s0 u0 su0 daily pricing model st root_id client) ops"
  shows "dget (e_labels eng) = dget (stored_labels (e_store eng) conv) \<and>
    (\<forall>k v ldef vs. dget (e_labels eng) k = Some v \<and> dget defs k = Some ldef \<and> ld_values ldef = Some vs \<longrightarrow>
       v \<in> set vs \<or> dget (stored_labels st conv) k = Some v)"
proof -
  have "labels_inv defs conv (stored_labels st conv) eng"
    unfolding assms by (rule engine_labels.inv_run)
  then show ?thesis unfolding labels_inv_def using schema_validD by metis
qed

theorem labels_stay_coherent_and_valid_witness:
  "dget (e_labels (foldl (engine_step ''d'' fixed_run id) (make_engine [] [(''k'', \<lparr>ld_initial = None, ld_values = Some [''x'']\<rparr>)]
     60 ''s'' (stored_labels ex_store ''s'') None None None None None None ex_store None None) [WriteLabels [(''k'', ''y'')]])) ''k'' \<noteq> Some ''y''"
proof
  assume "dget (e_labels (foldl (engine_step ''d'' fixed_run id) (make_engine [] [(''k'', \<lparr>ld_initial = None, ld_values = Some [''x'']\<rparr>)]
     60 ''s'' (stored_labels ex_store ''s'') None None None None None None ex_store None None) [WriteLabels [(''k'', ''y'')]])) ''k'' = Some ''y''"
  with labels_stay_coherent_and_valid [OF refl, THEN conjunct2, rule_format, of "''d''" fixed_run id "[]"
      "[(''k'', \<lparr>ld_initial = None, ld_values = Some [''x'']\<rparr>)]" 60 "''s''" ex_store None None None None None None None None
      "[WriteLabels [(''k'', ''y'')]]" "''k''" "''y''" "\<lparr>ld_initial = None, ld_values = Some [''x'']\<rparr>" "[''x'']"]
  show False by (simp add: stored_labels_def ex_store_def)
qed

text \<open>
  a denial commits everything gathered before it: the label writes and the state updates of the
  policies that asked for approval are applied as well, although nobody approved anything. (In the
  example, a budget checkpoint asks, a later policy denies, and the checkpoint is recorded as
  approved in the session and in the store.)
\<close>

theorem denial_commits_unapproved_asks:
  assumes "evaluate_composed day run False ctx eng = (Inr r, eng')" and "r_action r = DENY"
    and "tr = fired run (e_labels eng) (context_of eng) (e_policies eng) (inject eng ctx)"
  shows "(\<forall>spec a us. (spec, a) \<in> set tr \<and> r_action a = ASK \<and> r_state_updates a = Some us \<longrightarrow> set us \<subseteq> set (all_updates tr)) \<and>
    e_labels eng' = dupdate (e_labels eng) (filter_schema_valid (e_label_defs eng) (all_labels tr)) \<and>
    (\<exists>eng0 eng1. eng0 = eng\<lparr>e_policies := e_policies eng0\<rparr> \<and> apply_state_updates day (all_updates tr) eng0 = (Inr (), eng1) \<and>
      e_session_state eng' = e_session_state eng1 \<and> st_convs (e_store eng') = st_convs (e_store eng1))"
proof (intro conjI)
  show "\<forall>spec a us. (spec, a) \<in> set tr \<and> r_action a = ASK \<and> r_state_updates a = Some us \<longrightarrow> set us \<subseteq> set (all_updates tr)"
    by (force simp: all_updates_def updates_of_def)
  obtain ps where run: "decide day False tr (eng\<lparr>e_policies := ps\<rparr>) = (Inr r, eng')"
    using evaluate_fired [OF assms(3)] assms(1) by metis
  with decide_result [OF run] assms(2) obtain name reason where d: "denial tr = Some (name, reason)" by fastforce
  obtain out eng1 where a: "apply_state_updates day (all_updates tr) (eng\<lparr>e_policies := ps\<rparr>) = (out, eng1)" by fastforce
  with run d have e: "out = Inr ()" "eng' = apply_label_writes (all_labels tr) eng1"
    by (auto simp: decide_def compose_deny_def Let_def split: sum.splits)
  from apply_state_updates_fields [OF a] show "e_labels eng' = dupdate (e_labels eng) (filter_schema_valid (e_label_defs eng) (all_labels tr))"
    by (simp add: e(2) apply_label_writes_labels)
  show "\<exists>eng0 eng1. eng0 = eng\<lparr>e_policies := e_policies eng0\<rparr> \<and> apply_state_updates day (all_updates tr) eng0 = (Inr (), eng1) \<and>
      e_session_state eng' = e_session_state eng1 \<and> st_convs (e_store eng') = st_convs (e_store eng1)"
    by (rule exI [of _ "eng\<lparr>e_policies := ps\<rparr>"], rule exI [of _ eng1]) (simp add: a e)
qed

definition ex_budget_ask :: policy_result where
  "ex_budget_ask = (bare_result ASK)\<lparr>r_state_updates :=
     Some [\<lparr>su_key = SESSION_COST_ASK_APPROVED_STATE_KEY, su_action = SET, su_value = PInt 5\<rparr>]\<rparr>"

theorem denial_commits_unapproved_asks_witness:
  "\<exists>r eng'. evaluate_composed ''d'' fixed_run False ex_ctx (ex_engine [Inr ex_budget_ask, Inr (bare_result DENY)] ''s'') = (Inr r, eng') \<and>
     r_action r = DENY \<and> dget (e_session_state eng') SESSION_COST_ASK_APPROVED_STATE_KEY = Some (PInt 5) \<and>
     st_convs (e_store eng') \<noteq> st_convs ex_store"
proof -
  let ?eng = "ex_engine [Inr ex_budget_ask, Inr (bare_result DENY)] ''s''"
  let ?op = "\<lparr>su_key = SESSION_COST_ASK_APPROVED_STATE_KEY, su_action = SET, su_value = PInt 5\<rparr>"
  have keys: "SESSION_COST_ASK_APPROVED_STATE_KEY \<noteq> USER_DAILY_ASK_APPROVED_STATE_KEY"
    by (simp add: SESSION_COST_ASK_APPROVED_STATE_KEY_def USER_DAILY_ASK_APPROVED_STATE_KEY_def)
  have ups: "all_updates (fired fixed_run (e_labels ?eng) (context_of ?eng) (e_policies ?eng) (inject ?eng ex_ctx)) = [?op]"
    by (simp add: ex_simps ex_budget_ask_def should_fire_def dispatch_policy_def Let_def all_updates_def updates_of_def next_ctx_def)
  have applied: "apply_state_updates ''d'' [?op] (?eng\<lparr>e_policies := ps\<rparr>) = (Inr (), eng1) \<Longrightarrow>
      dget (e_session_state eng1) SESSION_COST_ASK_APPROVED_STATE_KEY = Some (PInt 5) \<and> st_convs (e_store eng1) \<noteq> st_convs ex_store"
    for ps and eng1 :: "(policy_result res, unit) engine"
    by (auto simp: apply_state_updates_def keys ex_simps apply_one_def set_session_state_def)
  obtain r eng' where run: "evaluate_composed ''d'' fixed_run False ex_ctx ?eng = (Inr r, eng')" "r_action r = DENY"
    by (simp add: ex_simps ex_budget_ask_def should_fire_def dispatch_policy_def Let_def evaluate_composed_def gather_def
        filter_writable_labels_def advance_def compose_deny_def apply_state_updates_def keys apply_one_def)
  from denial_commits_unapproved_asks [OF run refl, THEN conjunct2, THEN conjunct2, unfolded ups] obtain eng0 eng1 where
    "eng0 = ?eng\<lparr>e_policies := e_policies eng0\<rparr>" "apply_state_updates ''d'' [?op] eng0 = (Inr (), eng1)"
    "e_session_state eng' = e_session_state eng1" "st_convs (e_store eng') = st_convs (e_store eng1)" by blast
  with applied [of "e_policies eng0" eng1] run show ?thesis by simp
qed

text \<open>
  in a sub-agent's session an approved budget checkpoint lands on the root of the spawn tree:
  the root's stored state and the sub-agent's live state hold it, no other stored row changes, the
  sub-agent's own row included.
\<close>

theorem budget_approval_lands_on_the_root:
  assumes "e_root_conversation_id eng \<noteq> e_conversation_id eng"
    and "dget (st_convs (e_store eng)) (e_root_conversation_id eng) = Some row"
    and "su_key op \<in> {SESSION_COST_ASK_APPROVED_STATE_KEY, SESSION_COST_UNPRICED_APPROVED_KEY}" and "su_action op = SET"
  shows "\<exists>eng' row'. apply_state_updates day [op] eng = (Inr (), eng') \<and>
    dget (e_session_state eng') (su_key op) = Some (su_value op) \<and>
    dget (st_convs (e_store eng')) (e_root_conversation_id eng) = Some row' \<and>
    dget (cv_state row') (su_key op) = Some (su_value op) \<and> cv_usage row' = cv_usage row \<and>
    (\<forall>conv. conv \<noteq> e_root_conversation_id eng \<longrightarrow> dget (st_convs (e_store eng')) conv = dget (st_convs (e_store eng)) conv)"
proof -
  have "su_key op \<noteq> USER_DAILY_ASK_APPROVED_STATE_KEY"
    using assms(3) by (auto simp: USER_DAILY_ASK_APPROVED_STATE_KEY_def SESSION_COST_ASK_APPROVED_STATE_KEY_def
        SESSION_COST_UNPRICED_APPROVED_KEY_def)
  with assms show ?thesis
    by (simp add: apply_state_updates_def record_root_cost_ask_approved_def apply_one_def set_session_state_def Let_def)
qed

theorem budget_approval_lands_on_the_root_witness:
  "\<exists>eng'. apply_state_updates ''d'' [\<lparr>su_key = SESSION_COST_ASK_APPROVED_STATE_KEY, su_action = SET, su_value = PInt 5\<rparr>]
     (ex_engine [] ''root'') = (Inr (), eng') \<and> dget (e_session_state eng') SESSION_COST_ASK_APPROVED_STATE_KEY = Some (PInt 5)"
proof -
  have "e_root_conversation_id (ex_engine [] ''root'') \<noteq> e_conversation_id (ex_engine [] ''root'')"
    "dget (st_convs (e_store (ex_engine [] ''root''))) (e_root_conversation_id (ex_engine [] ''root'')) = Some \<lparr>cv_state = [], cv_usage = []\<rparr>"
    by (simp_all add: ex_simps)
  from budget_approval_lands_on_the_root [OF this, of "\<lparr>su_key = SESSION_COST_ASK_APPROVED_STATE_KEY, su_action = SET, su_value = PInt 5\<rparr>" "''d''"]
  show ?thesis by auto
qed

text \<open>
  usage accounting is exact over any sequence of model calls: every counter of the session grows
  by the sum of the reported counts, the cost by the sum of the priced calls (and not at all without
  a price), and no report fails once the counters exist.
\<close>

theorem usage_totals_add_up:
  assumes "usage_inv pricing eng"
  shows "dget (e_usage (foldl (\<lambda>eng t. snd (record_usage t eng)) eng ts)) k =
      map_option (\<lambda>v. v + (\<Sum>t \<leftarrow> ts. usage_delta pricing t k)) (dget (e_usage eng) k) \<and>
    fst (record_usage t (foldl (\<lambda>eng t. snd (record_usage t eng)) eng ts)) = Inr ()"
proof
  have "dget (e_usage (foldl (\<lambda>eng t. snd (record_usage t eng)) eng ts)) =
      foldl (\<lambda>f t k. map_option (\<lambda>v. v + usage_delta pricing t k) (f k)) (dget (e_usage eng)) ts"
    by (rule engine_usage.sim_foldl [OF assms])
  moreover have "foldl (\<lambda>f t k. map_option (\<lambda>v. v + usage_delta pricing t k) (f k)) f ts k =
      map_option (\<lambda>v. v + (\<Sum>t \<leftarrow> ts. usage_delta pricing t k)) (f k)" for f
    by (induction ts arbitrary: f) (auto simp: option.map_comp comp_def add.assoc option.map_ident)
  ultimately show "dget (e_usage (foldl (\<lambda>eng t. snd (record_usage t eng)) eng ts)) k =
      map_option (\<lambda>v. v + (\<Sum>t \<leftarrow> ts. usage_delta pricing t k)) (dget (e_usage eng) k)" by simp
  show "fst (record_usage t (foldl (\<lambda>eng t. snd (record_usage t eng)) eng ts)) = Inr ()"
    using record_usage_ok [OF engine_usage.inv_foldl [OF assms]] by blast
qed

theorem usage_totals_add_up_witness:
  "dget (e_usage (foldl (\<lambda>eng t. snd (record_usage t eng)) (ex_engine [] ''s'')
     [\<lparr>tc_input = 3, tc_output = 4, tc_total = 7, tc_cache_read = 0, tc_cache_creation = 0\<rparr>,
      \<lparr>tc_input = 5, tc_output = 0, tc_total = 5, tc_cache_read = 1, tc_cache_creation = 0\<rparr>])) ''input_tokens'' = Some 8"
proof -
  have "usage_inv None (ex_engine [] ''s'')"
    by (simp add: ex_simps usage_inv_def usage_ready_def usage_keys_def setdefault_def)
  moreover have "dget (e_usage (ex_engine [] ''s'')) ''input_tokens'' = Some 0"
    by (simp add: ex_simps setdefault_def)
  ultimately show ?thesis
    by (subst usage_totals_add_up [THEN conjunct1]) (simp_all add: usage_delta_def token_deltas_def)
qed

end
