(* ===== verification/Approval.thy ===== *)
theory Approval
  imports Policy_Engine
begin

text \<open>
  The approval gate of \<^verbatim>\<open>codify/runtime/policies/approval.py\<close>: an ASK decision is published as an
  elicitation, the caller parks until a verdict or a timeout, and the collected writes are applied
  on acceptance only. What \<open>json.loads\<close> makes of a verdict is an argument (\<open>None\<close> when it raises);
  the values handed to \<open>json.dumps\<close> are the dynamic values themselves.
\<close>

section \<open>Definitions\<close>

definition truncate_text :: "string \<Rightarrow> nat \<Rightarrow> string" where
  "truncate_text s limit = (if length s \<le> limit then s else take limit s @ '' [truncated]'')"

definition resolve_elicitation_mode :: "string option \<Rightarrow> string" where
  \<comment> \<open>the argument is the environment variable \<open>CODIFY_ELICITATION_MODE\<close>\<close>
  "resolve_elicitation_mode env =
     (let raw = strip (lower (case env of None \<Rightarrow> ''url'' | Some v \<Rightarrow> v))
      in if raw \<in> {''url'', ''form''} then raw else ''url'')"

definition build_elicitation_request_event :: "string \<Rightarrow> string \<Rightarrow> elicitation_request \<Rightarrow> string option \<Rightarrow> pyval" where
  \<comment> \<open>the first argument is the module's \<open>_ELICITATION_MODE\<close>\<close>
  "build_elicitation_request_event elicitation_mode elicitation_id e session_id =
     (let (mode, url) = (case session_id of
            Some sid \<Rightarrow> if elicitation_mode = ''url'' then (''url'', Some (''/approve/'' @ sid @ ''/'' @ elicitation_id)) else (''form'', None)
          | None \<Rightarrow> (''form'', None));
          params = [(''mode'', PStr mode), (''message'', PStr (er_message e)),
                    (''requestedSchema'', PDict (er_requested_schema e)), (''phase'', PStr (er_phase e)),
                    (''policy_name'', PStr (policy_name e)), (''content_preview'', PStr (er_content_preview e))]
                   @ (if 1 < length (er_policy_names e) then [(''policy_names'', PList (map PStr (er_policy_names e)))] else [])
                   @ (case url of None \<Rightarrow> [] | Some u \<Rightarrow> [(''url'', PStr u)])
      in PDict [(''type'', PStr ''response.elicitation_request''), (''elicitation_id'', PStr elicitation_id),
                (''method'', PStr ''elicitation/create''), (''params'', PDict params)])"

definition build_elicitation_params :: "elicitation_request \<Rightarrow> pyval" where
  "build_elicitation_params e =
     PDict [(''mode'', PStr ''form''), (''message'', PStr (er_message e)), (''requestedSchema'', PDict (er_requested_schema e)),
            (''phase'', PStr (er_phase e)), (''policy_name'', PStr (policy_name e)),
            (''content_preview'', PStr (er_content_preview e))]"

definition resolve_ask_timeout :: "('p, 'c) engine \<Rightarrow> policy_result \<Rightarrow> int" where
  "resolve_ask_timeout eng r =
     (case spec_for (e_policies eng) (deciding_policy r) of
        None \<Rightarrow> e_ask_timeout eng
      | Some spec \<Rightarrow> (case ps_ask_timeout spec of None \<Rightarrow> e_ask_timeout eng | Some t \<Rightarrow> t))"

definition action_is :: "string \<Rightarrow> (string \<Rightarrow> pyval option) \<Rightarrow> string option \<Rightarrow> bool" where
  \<comment> \<open>the common body of the two verdict readers\<close>
  "action_is act loads raw =
     (case raw of
        None \<Rightarrow> False
      | Some text \<Rightarrow>
          (case loads text of
             Some (PDict d) \<Rightarrow> dget d ''action'' = Some (PStr act)
           | _ \<Rightarrow> False))"

definition is_explicit_decline :: "(string \<Rightarrow> pyval option) \<Rightarrow> string option \<Rightarrow> bool" where
  "is_explicit_decline = action_is ''decline''"

definition parse_verdict :: "(string \<Rightarrow> pyval option) \<Rightarrow> string option \<Rightarrow> bool" where
  "parse_verdict = action_is ''accept''"

datatype parked = TimedOut | Verdict "string option"

datatype gate_outcome =
    Returned bool
  | Declined string "string option"
  | Raised py_exn

record elicitation_log =
  el_registered :: "(string \<times> string \<times> pyval) list"
  el_emitted :: "pyval list"
  el_parked :: "(string \<times> int) list"

definition commit_writes :: "string \<Rightarrow> policy_result \<Rightarrow> ('p, 'c) engine \<Rightarrow> unit res \<times> ('p, 'c) engine" where
  \<comment> \<open>the writes of an approved decision\<close>
  "commit_writes day r eng =
     (let eng1 = (case r_set_labels r of None \<Rightarrow> eng | Some ls \<Rightarrow> if ls = [] then eng else apply_label_writes ls eng)
      in case r_state_updates r of
           None \<Rightarrow> (Inr (), eng1)
         | Some us \<Rightarrow> if us = [] then (Inr (), eng1) else apply_state_updates day us eng1)"

definition gate :: "string \<Rightarrow> (string \<Rightarrow> pyval option) \<Rightarrow> policy_result \<Rightarrow> parked \<Rightarrow> ('p, 'c) engine \<Rightarrow>
    gate_outcome \<times> ('p, 'c) engine" where
  \<comment> \<open>what follows the wait for a verdict\<close>
  "gate day loads r verdict eng =
     (case verdict of
        TimedOut \<Rightarrow> (Returned False, eng)
      | Verdict raw \<Rightarrow>
          if is_explicit_decline loads raw then
            (Declined (case r_reason r of None \<Rightarrow> [] | Some m \<Rightarrow> m) (deciding_policy r), eng)
          else if parse_verdict loads raw then
            (case commit_writes day r eng of (Inl exn, eng') \<Rightarrow> (Raised exn, eng') | (Inr _, eng') \<Rightarrow> (Returned True, eng'))
          else (Returned False, eng))"

definition await_elicitation ::
  "string \<Rightarrow> (string \<Rightarrow> pyval option) \<Rightarrow> string \<Rightarrow> string \<Rightarrow> string \<Rightarrow> policy_result \<Rightarrow> phase \<Rightarrow> string \<Rightarrow>
   (string \<Rightarrow> int \<Rightarrow> parked) \<Rightarrow> ('p, 'c) engine \<Rightarrow> gate_outcome \<times> elicitation_log \<times> ('p, 'c) engine" where
  \<comment> \<open>\<open>token\<close> is the random part of the identifier, \<open>park\<close> the caller's wait for a verdict\<close>
  "await_elicitation day loads mode token task_id r ph content_preview park eng =
     (let elicitation_id = ''elicit_'' @ token;
          e = \<lparr>er_message = (case r_reason r of None \<Rightarrow> [] | Some m \<Rightarrow> m), er_phase = phase_value ph,
               er_policy_names = (case r_deciding_policies r of None \<Rightarrow> [[]] | Some ps \<Rightarrow> if ps = [] then [[]] else ps),
               er_content_preview = truncate_text content_preview 1024, er_requested_schema = []\<rparr>;
          effective_timeout = resolve_ask_timeout eng r;
          log = \<lparr>el_registered = [(elicitation_id, task_id, build_elicitation_params e)],
                 el_emitted = [build_elicitation_request_event mode elicitation_id e None],
                 el_parked = [(elicitation_id, effective_timeout)]\<rparr>
      in case gate day loads r (park elicitation_id effective_timeout) eng of
           (out, eng') \<Rightarrow> (out, log, eng'))"

section \<open>Lemmas\<close>

lemma accept_not_decline: "parse_verdict loads raw \<Longrightarrow> \<not> is_explicit_decline loads raw"
  by (auto simp: parse_verdict_def is_explicit_decline_def action_is_def split: option.splits pyval.splits)

lemma parse_verdict_iff:
  "parse_verdict loads raw \<longleftrightarrow> (\<exists>text d. raw = Some text \<and> loads text = Some (PDict d) \<and> dget d ''action'' = Some (PStr ''accept''))"
  by (auto simp: parse_verdict_def action_is_def split: option.splits pyval.splits)

lemma commit_writes_composed:
  assumes "r_set_labels r = some_if ls" and "r_state_updates r = some_if us"
  shows "commit_writes day r eng = apply_state_updates day us (apply_label_writes ls eng)"
  using assms by (auto simp: commit_writes_def some_if_def apply_label_writes_def apply_state_updates_def)

lemma commit_writes_of:
  "commit_writes day r eng = apply_state_updates day (case r_state_updates r of None \<Rightarrow> [] | Some us \<Rightarrow> us)
     (apply_label_writes (case r_set_labels r of None \<Rightarrow> [] | Some ls \<Rightarrow> ls) eng)"
  by (simp add: commit_writes_def Let_def apply_label_writes_def apply_state_updates_def split: option.split)

lemma await_gate:
  fixes park :: "string \<Rightarrow> int \<Rightarrow> parked"
  shows "fst (await_elicitation day loads mode token task_id r ph preview park eng) =
      fst (gate day loads r (park (''elicit_'' @ token) (resolve_ask_timeout eng r)) eng)"
    "snd (snd (await_elicitation day loads mode token task_id r ph preview park eng)) =
      snd (gate day loads r (park (''elicit_'' @ token) (resolve_ask_timeout eng r)) eng)"
  by (simp_all add: await_elicitation_def Let_def split: prod.split)

lemma gate_accepted:
  assumes "parse_verdict loads raw"
  shows "gate day loads r (Verdict raw) eng =
    (case commit_writes day r eng of (Inl exn, eng') \<Rightarrow> (Raised exn, eng') | (Inr _, eng') \<Rightarrow> (Returned True, eng'))"
  using assms accept_not_decline [OF assms] by (simp add: gate_def)

lemma gate_refused:
  assumes "\<And>raw. verdict = Verdict raw \<Longrightarrow> \<not> parse_verdict loads raw"
  shows "snd (gate day loads r verdict eng) = eng \<and> (fst (gate day loads r verdict eng) = Returned False \<or>
    (\<exists>why who. fst (gate day loads r verdict eng) = Declined why who))"
  using assms by (cases verdict) (auto simp: gate_def)

section \<open>Properties\<close>

text \<open>
  C7: the approval gate opens exactly on an explicit acceptance. When the parked verdict arrived
  in time and is a JSON object whose action is \<open>accept\<close>, the decision's label writes and then its state
  updates are applied, each once, and the gate returns \<open>True\<close> with exactly their effect on the engine and
  its store, or raises the exception a state update raised. In every other case (a timeout, a decline, a
  cancel, an unreadable answer) neither labels nor state nor store change, and the gate returns
  \<open>False\<close> or raises the decline.
\<close>

theorem gate_opens_only_on_acceptance:
  assumes "await_elicitation day loads mode token task_id r ph preview park eng = (out, elog, eng')"
    and "verdict = park (''elicit_'' @ token) (resolve_ask_timeout eng r)"
    and "ls = (case r_set_labels r of None \<Rightarrow> [] | Some ls \<Rightarrow> ls)" and "us = (case r_state_updates r of None \<Rightarrow> [] | Some us \<Rightarrow> us)"
  shows "if \<exists>text d. verdict = Verdict (Some text) \<and> loads text = Some (PDict d) \<and> dget d ''action'' = Some (PStr ''accept'')
    then (case apply_state_updates day us (apply_label_writes ls eng) of
            (Inl exn, eng1) \<Rightarrow> out = Raised exn \<and> eng' = eng1
          | (Inr _, eng1) \<Rightarrow> out = Returned True \<and> eng' = eng1)
    else eng' = eng \<and> (out = Returned False \<or> (\<exists>why who. out = Declined why who))"
proof -
  have g: "out = fst (gate day loads r verdict eng)" "eng' = snd (gate day loads r verdict eng)"
    using await_gate [of day loads mode token task_id r ph preview park eng] assms(1,2) by simp_all
  have writes: "commit_writes day r eng = apply_state_updates day us (apply_label_writes ls eng)"
    unfolding assms(3,4) by (rule commit_writes_of)
  show ?thesis
  proof (cases "\<exists>raw. verdict = Verdict raw \<and> parse_verdict loads raw")
    case True
    then obtain raw where raw: "verdict = Verdict raw" "parse_verdict loads raw" by blast
    then have "\<exists>text d. verdict = Verdict (Some text) \<and> loads text = Some (PDict d) \<and> dget d ''action'' = Some (PStr ''accept'')"
      by (simp add: parse_verdict_iff)
    note acc = this
    obtain res eng1 where c: "apply_state_updates day us (apply_label_writes ls eng) = (res, eng1)" by (metis surj_pair)
    have "gate day loads r verdict eng = (case res of Inl exn \<Rightarrow> (Raised exn, eng1) | Inr _ \<Rightarrow> (Returned True, eng1))"
      using gate_accepted [OF raw(2), of day r eng] raw(1) writes c by (simp split: sum.split)
    with g show ?thesis unfolding if_P [OF acc] c by (cases res) simp_all
  next
    case False
    then have no: "\<nexists>text d. verdict = Verdict (Some text) \<and> loads text = Some (PDict d) \<and> dget d ''action'' = Some (PStr ''accept'')"
      by (auto simp: parse_verdict_iff)
    have "\<And>raw. verdict = Verdict raw \<Longrightarrow> \<not> parse_verdict loads raw" using False by blast
    from gate_refused [where day = day and r = r and eng = eng, OF this] g show ?thesis unfolding if_not_P [OF no] by simp
  qed
qed

definition ex_loads :: "string \<Rightarrow> pyval option" where
  "ex_loads text = Some (PDict [(''action'', PStr text)])"

definition ex_mark :: policy_result where
  \<comment> \<open>a question whose approval records a value\<close>
  "ex_mark = (bare_result ASK)\<lparr>r_state_updates := Some [\<lparr>su_key = ''n'', su_action = INCREMENT, su_value = PInt 5\<rparr>]\<rparr>"

theorem gate_opens_only_on_acceptance_witness:
  "(\<exists>elog eng'. await_elicitation ''d'' ex_loads ''url'' ''0'' ''t'' ex_mark TOOL_CALL ''c'' (\<lambda>i t. Verdict (Some ''accept''))
     (ex_engine [] ''s'') = (Returned True, elog, eng') \<and> dget (e_session_state eng') ''n'' = Some (PInt 5)) \<and>
   (\<exists>out elog eng'. await_elicitation ''d'' ex_loads ''url'' ''0'' ''t'' ex_mark TOOL_CALL ''c'' (\<lambda>i t. Verdict (Some ''cancel''))
     (ex_engine [] ''s'') = (out, elog, eng') \<and> eng' = ex_engine [] ''s'')"
proof -
  let ?ask = "\<lambda>tx. await_elicitation ''d'' ex_loads ''url'' ''0'' ''t'' ex_mark TOOL_CALL ''c'' (\<lambda>i t. Verdict (Some tx)) (ex_engine [] ''s'')"
  have mark: "r_state_updates ex_mark = Some [\<lparr>su_key = ''n'', su_action = INCREMENT, su_value = PInt 5\<rparr>]" "r_set_labels ex_mark = None"
    by (simp_all add: ex_mark_def bare_result_def)
  have gated: "if tx = ''accept''
      then (case apply_state_updates ''d'' [\<lparr>su_key = ''n'', su_action = INCREMENT, su_value = PInt 5\<rparr>] (apply_label_writes [] (ex_engine [] ''s'')) of
              (Inl exn, eng1) \<Rightarrow> out = Raised exn \<and> eng' = eng1 | (Inr _, eng1) \<Rightarrow> out = Returned True \<and> eng' = eng1)
      else eng' = ex_engine [] ''s'' \<and> (out = Returned False \<or> (\<exists>why who. out = Declined why who))"
    if "?ask tx = (out, elog, eng')" for tx out elog eng'
    using gate_opens_only_on_acceptance [OF that refl refl refl] unfolding mark option.case by (simp add: ex_loads_def)
  have keys: "''n'' \<noteq> USER_DAILY_ASK_APPROVED_STATE_KEY" "''n'' \<noteq> SESSION_COST_ASK_APPROVED_STATE_KEY" "''n'' \<noteq> SESSION_COST_UNPRICED_APPROVED_KEY"
    by code_simp+
  obtain out elog eng' where acc: "?ask ''accept'' = (out, elog, eng')" by (metis surj_pair)
  obtain out2 elog2 eng2 where cancel: "?ask ''cancel'' = (out2, elog2, eng2)" by (metis surj_pair)
  have "out = Returned True \<and> dget (e_session_state eng') ''n'' = Some (PInt 5)"
    using gated [OF acc] by (simp add: apply_state_updates_def apply_label_writes_def keys apply_one_def ex_simps)
  moreover have "eng2 = ex_engine [] ''s''" using gated [OF cancel] by simp
  ultimately show ?thesis using acc cancel by blast
qed

text \<open>
  an approved ASK ends where an ALLOW would have: after acceptance the engine is the one the
  composition would have left had nobody asked, labels first, then the state updates in order, and an
  update that raises surfaces in the same way.
\<close>

theorem approved_ask_commits_like_allow:
  assumes "evaluate_composed day run read_only ctx eng0 = (Inr r, eng)" and "r_action r = ASK"
    and "tr = fired run (e_labels eng0) (context_of eng0) (e_policies eng0) (inject eng0 ctx)"
    and "park (''elicit_'' @ token) (resolve_ask_timeout eng r) = Verdict (Some reply)"
    and "loads reply = Some (PDict d)" and "dget d ''action'' = Some (PStr ''accept'')"
  shows "\<exists>elog. await_elicitation day loads mode token task_id r ph preview park eng =
      (case apply_state_updates day (all_updates tr) (apply_label_writes (all_labels tr) eng) of
         (Inl e, eng') \<Rightarrow> (Raised e, elog, eng')
       | (Inr _, eng') \<Rightarrow> (Returned True, elog, eng'))"
proof -
  obtain ps where "decide day read_only tr (eng0\<lparr>e_policies := ps\<rparr>) = (Inr r, eng)"
    using evaluate_fired [OF assms(3)] assms(1) by metis
  from decide_result [OF this] have writes: "commit_writes day r eng =
      apply_state_updates day (all_updates tr) (apply_label_writes (all_labels tr) eng)"
    by (intro commit_writes_composed) simp_all
  have ok: "parse_verdict loads (Some reply)" using assms(5,6) by (simp add: parse_verdict_iff)
  obtain out elog eng' where run: "await_elicitation day loads mode token task_id r ph preview park eng = (out, elog, eng')"
    by (metis surj_pair)
  have "(out, eng') = gate day loads r (Verdict (Some reply)) eng"
    using await_gate [of day loads mode token task_id r ph preview park eng] unfolding run assms(4) by simp
  then show ?thesis by (auto simp: run gate_accepted [OF ok] writes split: prod.splits sum.splits)
qed

theorem approved_ask_commits_like_allow_witness:
  "\<exists>r eng. evaluate_composed ''d'' fixed_run False ex_ctx (ex_engine [Inr ex_budget_ask] ''s'') = (Inr r, eng) \<and>
     fst (await_elicitation ''d'' ex_loads ''url'' ''0'' ''t'' r TOOL_CALL ''c'' (\<lambda>i t. Verdict (Some ''accept'')) eng) = Returned True"
proof -
  let ?eng = "ex_engine [Inr ex_budget_ask] ''s''"
  let ?op = "\<lparr>su_key = SESSION_COST_ASK_APPROVED_STATE_KEY, su_action = SET, su_value = PInt 5\<rparr>"
  have keys: "SESSION_COST_ASK_APPROVED_STATE_KEY \<noteq> USER_DAILY_ASK_APPROVED_STATE_KEY"
    by (simp add: SESSION_COST_ASK_APPROVED_STATE_KEY_def USER_DAILY_ASK_APPROVED_STATE_KEY_def)
  have tr: "all_updates (fired fixed_run (e_labels ?eng) (context_of ?eng) (e_policies ?eng) (inject ?eng ex_ctx)) = [?op]"
      "all_labels (fired fixed_run (e_labels ?eng) (context_of ?eng) (e_policies ?eng) (inject ?eng ex_ctx)) = []"
    by (simp_all add: ex_simps ex_budget_ask_def should_fire_def dispatch_policy_def Let_def all_updates_def updates_of_def
        next_ctx_def all_labels_def writable_def filter_writable_labels_def)
  obtain r eng where run: "evaluate_composed ''d'' fixed_run False ex_ctx ?eng = (Inr r, eng)" "r_action r = ASK"
    and eng: "e_root_conversation_id eng = ''s''" "e_conversation_id eng = ''s''"
    by (simp add: ex_simps ex_budget_ask_def should_fire_def dispatch_policy_def Let_def evaluate_composed_def gather_def
        filter_writable_labels_def advance_def)
  obtain eng2 where "apply_state_updates ''d'' [?op] (apply_label_writes [] eng) = (Inr (), eng2)"
    by (simp add: apply_state_updates_def keys eng apply_one_def apply_label_writes_def)
  with approved_ask_commits_like_allow [OF run refl, where park = "\<lambda>i t. Verdict (Some ''accept'')" and token = "''0''"
      and reply = "''accept''" and loads = ex_loads and d = "[(''action'', PStr ''accept'')]" and mode = "''url''"
      and task_id = "''t''" and ph = TOOL_CALL and preview = "''c''"] run
  show ?thesis by (auto simp: ex_loads_def tr split: prod.splits sum.splits)
qed

end
