(* ===== verification/Function_Policy.thy ===== *)
theory Function_Policy
  imports Approval
begin

text \<open>
  Policies given by a callable, \<^verbatim>\<open>codify/policies/function.py\<close>, and the typed contracts of
  \<^verbatim>\<open>codify/policies/schema.py\<close>: the event a callable receives, what it may return, and how that is
  read as a decision. A policy of the engine is the name of its specification with its callable, an
  arbitrary function of the event that may fail. \<open>other\<close> is the text of values whose \<open>str\<close> needs binary
  floats. Reasons and label values that are not strings are outside the model.
\<close>

section \<open>Events\<close>

record event_context =
  vc_actor :: "(string, string) pydict"
  vc_usage :: usage
  vc_user_daily_cost :: "(string, pyval) pydict"
  vc_model :: "string option"
  vc_harness :: "string option"
  vc_labels :: labels
  vc_subtree_usage :: usage

record 'c policy_event =
  ev_type :: string
  ev_target :: "string option"
  ev_data :: pyval
  ev_context :: event_context
  ev_session_state :: state
  ev_llm_client :: "'c option"
  ev_request_data :: "pyval option"

definition or_empty :: "'a list option \<Rightarrow> 'a list" where
  \<comment> \<open>\<open>dict(d) if d else {}\<close>\<close>
  "or_empty d = (case d of None \<Rightarrow> [] | Some x \<Rightarrow> x)"

definition build_event :: "'c evaluation_context \<Rightarrow> 'c policy_event" where
  "build_event ctx =
     \<lparr>ev_type = phase_value (cx_phase ctx), ev_target = cx_tool_name ctx, ev_data = cx_content ctx,
      ev_context =
        \<lparr>vc_actor = or_empty (cx_actor ctx), vc_usage = or_empty (cx_usage ctx),
         vc_user_daily_cost = or_empty (cx_user_daily_cost ctx), vc_model = cx_model ctx, vc_harness = cx_harness ctx,
         vc_labels = or_empty (cx_labels ctx), vc_subtree_usage = or_empty (cx_subtree_usage ctx)\<rparr>,
      ev_session_state = or_empty (cx_session_state ctx), ev_llm_client = cx_llm_client ctx,
      ev_request_data = cx_request_data ctx\<rparr>"

fun block_string :: "pyval \<Rightarrow> string option" where
  \<comment> \<open>the text of a content block\<close>
  "block_string (PDict d) = (case dget d ''text'' of Some (PStr t) \<Rightarrow> Some t | _ \<Rightarrow> None)"
| "block_string _ = None"

fun request_user_text :: "pyval \<Rightarrow> string" where
  "request_user_text (PDict d) = (case dget d ''user_content'' of Some (PStr t) \<Rightarrow> t | _ \<Rightarrow> [])"
| "request_user_text (PStr t) = t"
| "request_user_text (PList xs) = join [CHR 0x0A] (filter (\<lambda>p. p \<noteq> []) (List.map_filter block_string xs))"
| "request_user_text _ = []"

fun attachment_dict :: "pyval \<Rightarrow> (string, pyval) pydict option" where
  "attachment_dict (PDict d) = Some d"
| "attachment_dict _ = None"

fun request_attachments :: "pyval \<Rightarrow> (string, pyval) pydict list" where
  "request_attachments (PDict d) =
     (case dget d ''attachments'' of Some (PList xs) \<Rightarrow> List.map_filter attachment_dict xs | _ \<Rightarrow> [])"
| "request_attachments _ = []"

section \<open>Decisions\<close>

datatype raw =
    RawNone
  | RawResult policy_result
  | RawDict "(string, pyval) pydict"
  | RawObject pyval pyval pyval pyval   \<comment> \<open>an object with \<open>action\<close>, \<open>reason\<close>, \<open>set_labels\<close> and \<open>state_updates\<close>\<close>
  | RawOther string                     \<comment> \<open>anything else, by the name of its type\<close>

definition policy_action_of :: "string \<Rightarrow> policy_action option" where
  "policy_action_of s =
     (if s = ''allow'' then Some ALLOW else if s = ''ask'' then Some ASK else if s = ''deny'' then Some DENY else None)"

definition state_update_action_of :: "string \<Rightarrow> state_update_action option" where
  "state_update_action_of s =
     (if s = ''set'' then Some SET else if s = ''increment'' then Some INCREMENT
      else if s = ''delete'' then Some DELETE else if s = ''append'' then Some APPEND else None)"

definition present :: "pyval option \<Rightarrow> pyval option" where
  \<comment> \<open>\<open>d.get(key)\<close>, with \<open>None\<close> for an absent key\<close>
  "present v = (case v of Some PNone \<Rightarrow> None | _ \<Rightarrow> v)"

definition coerce_entry :: "(pyval \<Rightarrow> string) \<Rightarrow> string \<Rightarrow> pyval \<Rightarrow> state_update res" where
  "coerce_entry other name v =
     (case v of
        PDict d \<Rightarrow>
          (case (present (dget d ''key''), present (dget d ''action'')) of
             (Some key, Some act) \<Rightarrow>
               (case state_update_action_of (lower (py_str other act)) of
                  None \<Rightarrow> Inl (ValueError (''FunctionPolicy '' @ py_repr name @ '': invalid state_updates action''))
                | Some a \<Rightarrow>
                    (case key of
                       PStr k \<Rightarrow> Inr \<lparr>su_key = k, su_action = a,
                                     su_value = (case dget d ''value'' of None \<Rightarrow> PNone | Some x \<Rightarrow> x)\<rparr>
                     | _ \<Rightarrow> Inl (OtherError ''a key that is not a string'')))
           | _ \<Rightarrow> Inl (ValueError (''FunctionPolicy '' @ py_repr name @
                    '': state_updates entry missing required 'key' or 'action' field'')))
      | _ \<Rightarrow> Inl (TypeError (''FunctionPolicy '' @ py_repr name @ '': state_updates entry must be a dict, got '' @ type_name v)))"

fun coerce_entries :: "(pyval \<Rightarrow> string) \<Rightarrow> string \<Rightarrow> pyval list \<Rightarrow> state_update list res" where
  "coerce_entries other name [] = Inr []"
| "coerce_entries other name (v # vs) =
     bindR (coerce_entry other name v) (\<lambda>u. bindR (coerce_entries other name vs) (\<lambda>us. Inr (u # us)))"

definition coerce_state_updates :: "(pyval \<Rightarrow> string) \<Rightarrow> string \<Rightarrow> pyval option \<Rightarrow> state_update list option res" where
  "coerce_state_updates other name raw =
     (case present raw of
        None \<Rightarrow> Inr None
      | Some (PDict d) \<Rightarrow> Inr (Some (map (\<lambda>(k, v). \<lparr>su_key = k, su_action = SET, su_value = v\<rparr>) d))
      | Some (PList entries) \<Rightarrow> bindR (coerce_entries other name entries) (\<lambda>us. Inr (if us = [] then None else Some us))
      | Some _ \<Rightarrow> Inr None)"

definition as_string :: "pyval option \<Rightarrow> string option" where
  "as_string v = (case v of Some (PStr s) \<Rightarrow> Some s | _ \<Rightarrow> None)"

definition as_labels :: "pyval option \<Rightarrow> labels option" where
  \<comment> \<open>\<open>dict(v) if isinstance(v, dict) else None\<close>\<close>
  "as_labels v =
     (case v of
        Some (PDict d) \<Rightarrow> Some (List.map_filter (\<lambda>(k, x). case x of PStr s \<Rightarrow> Some (k, s) | _ \<Rightarrow> None) d)
      | _ \<Rightarrow> None)"

definition policy_result_from_dict :: "(pyval \<Rightarrow> string) \<Rightarrow> string \<Rightarrow> (string, pyval) pydict \<Rightarrow> policy_result res" where
  "policy_result_from_dict other name raw =
     (case present (dget raw ''result'') of
        None \<Rightarrow> Inl (ValueError (''FunctionPolicy '' @ py_repr name @ '' dict return missing 'result' key''))
      | Some v \<Rightarrow>
          (case policy_action_of (lower (py_str other v)) of
             None \<Rightarrow> Inl (ValueError (''FunctionPolicy '' @ py_repr name @ '' returned invalid decision result''))
           | Some act \<Rightarrow>
               bindR (coerce_state_updates other name (dget raw ''state_updates'')) (\<lambda>updates.
                 Inr \<lparr>r_action = act, r_reason = as_string (dget raw ''reason''), r_set_labels = as_labels (dget raw ''set_labels''),
                      r_deciding_policies = None, r_data = present (dget raw ''data''), r_state_updates = updates\<rparr>)))"

definition allowed :: policy_result where
  "allowed = \<lparr>r_action = ALLOW, r_reason = None, r_set_labels = None, r_deciding_policies = None, r_data = None,
     r_state_updates = None\<rparr>"

definition coerce_to_policy_result :: "(pyval \<Rightarrow> string) \<Rightarrow> string \<Rightarrow> raw \<Rightarrow> policy_result res" where
  "coerce_to_policy_result other name raw =
     (case raw of
        RawNone \<Rightarrow> Inr allowed
      | RawResult r \<Rightarrow> Inr r
      | RawDict d \<Rightarrow> policy_result_from_dict other name d
      | RawObject act reason ls updates \<Rightarrow>
          (case policy_action_of (lower (py_str other act)) of
             None \<Rightarrow> Inl (ValueError (''FunctionPolicy '' @ py_repr name @ '' returned invalid action''))
           | Some a \<Rightarrow>
               bindR (coerce_state_updates other name (Some updates)) (\<lambda>us.
                 Inr \<lparr>r_action = a, r_reason = as_string (Some reason), r_set_labels = as_labels (Some ls),
                      r_deciding_policies = None, r_data = None, r_state_updates = us\<rparr>))
      | RawOther t \<Rightarrow> Inl (TypeError (''FunctionPolicy '' @ py_repr name @ '' returned unsupported type '' @ t)))"

section \<open>The policy\<close>

type_synonym 'c callable = "'c policy_event \<Rightarrow> raw res"

type_synonym 'c function_policy = "string \<times> 'c callable"

definition evaluate_function :: "(pyval \<Rightarrow> string) \<Rightarrow> ('c function_policy, 'c) policy_run" where
  "evaluate_function other p ctx ec =
     (bindR (snd p (build_event ctx)) (coerce_to_policy_result other (fst p)), p)"

definition make_fixed_action_callable ::
  "string \<Rightarrow> string option \<Rightarrow> labels option \<Rightarrow> string list option \<Rightarrow> string list option \<Rightarrow> 'c callable" where
  "make_fixed_action_callable act reason ls on_phases on_tools ev =
     (if on_phases \<noteq> None \<and> on_phases \<noteq> Some [] \<and> ev_type ev \<notin> set (or_empty on_phases) then Inr RawNone
      else if on_tools \<noteq> None \<and> on_tools \<noteq> Some [] \<and>
           (case ev_target ev of None \<Rightarrow> True | Some t \<Rightarrow> t \<notin> set (or_empty on_tools)) then Inr RawNone
      else Inr (RawDict ([(''result'', PStr act), (''reason'', case reason of None \<Rightarrow> PNone | Some r \<Rightarrow> PStr r)] @
             (if or_empty ls = [] then [] else [(''set_labels'', PDict (map (\<lambda>(k, v). (k, PStr v)) (or_empty ls)))]))))"

section \<open>The responses of the policies in this library\<close>

definition allow_response :: raw where
  "allow_response = RawDict [(''result'', PStr ''ALLOW'')]"

definition entry_value :: "string \<Rightarrow> string \<Rightarrow> pyval \<Rightarrow> pyval" where
  "entry_value key act v = PDict [(''key'', PStr key), (''action'', PStr act), (''value'', v)]"

lemma action_words:
  "lower ''ALLOW'' = ''allow''" "lower ''DENY'' = ''deny''" "lower ''ASK'' = ''ask''" "lower ''set'' = ''set''"
  "lower ''increment'' = ''increment''"
  by code_simp+

lemma coerce_entry_value [simp]:
  "coerce_entry other name (entry_value k ''set'' v) = Inr \<lparr>su_key = k, su_action = SET, su_value = v\<rparr>"
  "coerce_entry other name (entry_value k ''increment'' v) = Inr \<lparr>su_key = k, su_action = INCREMENT, su_value = v\<rparr>"
  by (simp_all add: coerce_entry_def entry_value_def present_def action_words state_update_action_of_def)

lemma coerce_allow [simp]: "coerce_to_policy_result other name allow_response = Inr allowed"
  by (simp add: coerce_to_policy_result_def allow_response_def policy_result_from_dict_def present_def action_words
      policy_action_of_def coerce_state_updates_def as_string_def as_labels_def allowed_def)

lemma coerce_none [simp]: "coerce_to_policy_result other name RawNone = Inr allowed"
  by (simp add: coerce_to_policy_result_def)

definition verdict :: "policy_action \<Rightarrow> string option \<Rightarrow> state_update list \<Rightarrow> policy_result" where
  \<comment> \<open>what a response with these parts is read as\<close>
  "verdict act reason us = \<lparr>r_action = act, r_reason = reason, r_set_labels = None, r_deciding_policies = None, r_data = None,
     r_state_updates = (if us = [] then None else Some us)\<rparr>"

lemma allowed_verdict: "allowed = verdict ALLOW None []"
  by (simp add: allowed_def verdict_def)

lemma verdict_fields [simp]:
  "r_action (verdict act reason us) = act" "r_reason (verdict act reason us) = reason" "r_set_labels (verdict act reason us) = None"
  "r_data (verdict act reason us) = None" "updates_of (verdict act reason us) = us"
  by (simp_all add: verdict_def updates_of_def)

lemma coerce_response:
  assumes "policy_action_of (lower w) = Some act" and "coerce_entries other name es = Inr us"
  shows "coerce_to_policy_result other name (RawDict [(''result'', PStr w), (''reason'', PStr r)]) = Inr (verdict act (Some r) [])"
    and "coerce_to_policy_result other name (RawDict [(''result'', PStr w), (''reason'', PStr r), (''state_updates'', PList es)])
      = Inr (verdict act (Some r) us)"
    and "coerce_to_policy_result other name (RawDict [(''result'', PStr w), (''state_updates'', PList es)]) = Inr (verdict act None us)"
  using assms
  by (simp_all add: coerce_to_policy_result_def policy_result_from_dict_def present_def coerce_state_updates_def as_string_def
      as_labels_def verdict_def)

lemma policy_actions [simp]:
  "policy_action_of (lower ''ALLOW'') = Some ALLOW" "policy_action_of (lower ''DENY'') = Some DENY"
  "policy_action_of (lower ''ASK'') = Some ASK"
  by (simp_all add: action_words policy_action_of_def)

section \<open>Malformed decisions\<close>

definition well_formed :: "(pyval \<Rightarrow> string) \<Rightarrow> string \<Rightarrow> raw res \<Rightarrow> bool" where
  "well_formed other name out \<longleftrightarrow> (\<exists>raw r. out = Inr raw \<and> coerce_to_policy_result other name raw = Inr r)"

lemma dispatch_function:
  "fst (dispatch_policy (evaluate_function other) p ctx ec) =
     (case bindR (snd (pol_state p) (build_event ctx)) (coerce_to_policy_result other (fst (pol_state p))) of
        Inr r \<Rightarrow> r
      | Inl e \<Rightarrow> verdict DENY (Some (''policy '' @ py_repr (ps_name (pol_spec p)) @ '' failed: '' @ exn_text e)) [])"
  by (simp add: dispatch_policy_def evaluate_function_def verdict_def split: sum.split)

end
