(* ===== verification/Policy_Session.thy ===== *)
theory Policy_Session
  imports Function_Policy
begin

text \<open>
  An engine of function policies over a session: what the composition of
  \<^verbatim>\<open>codify/runtime/policies/engine.py\<close> guarantees about one policy in it, how its state updates reach the
  session state, and what a session is, a sequence of attempts, each of them evaluated and, when the
  decision asks, settled by the approval gate.
\<close>

section \<open>One policy of a composition\<close>

definition answers :: "('p, 'c) policy_run \<Rightarrow> engine_context \<Rightarrow> 'c evaluation_context \<Rightarrow> 'p policy \<Rightarrow> policy_spec \<times> policy_result \<Rightarrow> bool" where
  \<comment> \<open>the pair is an answer of the policy, for some content of the event\<close>
  "answers run ec ctx q sr \<longleftrightarrow> (\<exists>d. sr = (pol_spec q, fst (dispatch_policy run q (ctx\<lparr>cx_content := d\<rparr>) ec)))"

definition answer :: "('p, 'c) policy_run \<Rightarrow> engine_context \<Rightarrow> 'c evaluation_context \<Rightarrow> 'p policy \<Rightarrow> pyval \<Rightarrow> policy_spec \<times> policy_result" where
  \<comment> \<open>its answer when the event has a content\<close>
  "answer run ec ctx q d = (pol_spec q, fst (dispatch_policy run q (ctx\<lparr>cx_content := d\<rparr>) ec))"

definition changes_content :: "('p, 'c) policy_run \<Rightarrow> engine_context \<Rightarrow> 'c evaluation_context \<Rightarrow> 'p policy \<Rightarrow> bool" where
  \<comment> \<open>the policy may replace the content\<close>
  "changes_content run ec ctx q \<longleftrightarrow> (\<exists>d. r_data (snd (answer run ec ctx q d)) \<noteq> None)"

lemma answer_answers: "answers run ec ctx q (answer run ec ctx q d)"
  by (auto simp: answers_def answer_def)

lemma answersI: "answers run ec ctx q (pol_spec q, fst (dispatch_policy run q (ctx\<lparr>cx_content := d\<rparr>) ec))"
  unfolding answers_def by blast

lemma next_content: "\<exists>d. next_ctx r (ctx\<lparr>cx_content := dd\<rparr>) = ctx\<lparr>cx_content := d\<rparr>"
  by (cases "r_data r") (auto simp: next_ctx_def)

lemma should_fire_content [simp]: "should_fire ls spec (ctx\<lparr>cx_content := d\<rparr>) = should_fire ls spec ctx"
  by (rule should_fire_cong) simp_all

lemma fired_answers: "sr \<in> set (fired run ls ec ps (ctx\<lparr>cx_content := dd\<rparr>)) \<Longrightarrow> \<exists>q \<in> set ps. answers run ec ctx q sr"
proof (induction ps arbitrary: dd)
  case (Cons q ps)
  let ?r = "fst (dispatch_policy run q (ctx\<lparr>cx_content := dd\<rparr>) ec)"
  obtain d1 where d1: "next_ctx ?r (ctx\<lparr>cx_content := dd\<rparr>) = ctx\<lparr>cx_content := d1\<rparr>" using next_content by blast
  from Cons.prems consider "sr = (pol_spec q, ?r)" | d where "sr \<in> set (fired run ls ec ps (ctx\<lparr>cx_content := d\<rparr>))"
    by (auto simp: Let_def d1 split: if_splits)
  then show ?case
  proof cases
    case 1
    then show ?thesis using answersI [of run ec ctx q dd] by simp
  next
    case 2
    from Cons.IH [OF this] show ?thesis by simp
  qed
qed simp

lemma fired_split_at:
  "\<exists>before mid later. fired run ls ec (qs @ p # ps) (ctx\<lparr>cx_content := dd\<rparr>) = before @ mid @ later
    \<and> (mid = [] \<or> should_fire ls (pol_spec p) ctx \<and>
        (\<exists>d. mid = [answer run ec ctx p d] \<and> (d = dd \<or> (\<exists>q \<in> set qs. changes_content run ec ctx q))))
    \<and> (\<forall>x \<in> set before. \<exists>q \<in> set qs. answers run ec ctx q x) \<and> (\<forall>x \<in> set later. \<exists>q \<in> set ps. answers run ec ctx q x)
    \<and> (denial (fired run ls ec (qs @ p # ps) (ctx\<lparr>cx_content := dd\<rparr>)) = None \<and> should_fire ls (pol_spec p) ctx \<longrightarrow> mid \<noteq> [])"
proof (induction qs arbitrary: dd)
  case Nil
  let ?r = "fst (dispatch_policy run p (ctx\<lparr>cx_content := dd\<rparr>) ec)"
  show ?case
  proof (cases "should_fire ls (pol_spec p) ctx")
    case False
    then have step: "fired run ls ec ([] @ p # ps) (ctx\<lparr>cx_content := dd\<rparr>) = [] @ [] @ fired run ls ec ps (ctx\<lparr>cx_content := dd\<rparr>)" by simp
    show ?thesis unfolding step using False fired_answers by (metis (no_types, lifting) empty_iff list.set(1))
  next
    case True
    obtain d1 where d1: "next_ctx ?r (ctx\<lparr>cx_content := dd\<rparr>) = ctx\<lparr>cx_content := d1\<rparr>" using next_content by blast
    let ?later = "if r_action ?r = DENY then [] else fired run ls ec ps (ctx\<lparr>cx_content := d1\<rparr>)"
    have step: "fired run ls ec ([] @ p # ps) (ctx\<lparr>cx_content := dd\<rparr>) = [] @ [answer run ec ctx p dd] @ ?later"
      using True d1 by (simp add: Let_def answer_def)
    have "\<exists>q \<in> set ps. answers run ec ctx q x" if "x \<in> set ?later" for x
    proof -
      from that have "x \<in> set (fired run ls ec ps (ctx\<lparr>cx_content := d1\<rparr>))" by (simp split: if_splits)
      then show ?thesis by (rule fired_answers)
    qed
    then show ?thesis
      unfolding step using True
      by (intro exI [of _ "[]"] exI [of _ "[answer run ec ctx p dd]"] exI [of _ ?later]) auto
  qed
next
  case (Cons q qs)
  let ?r = "fst (dispatch_policy run q (ctx\<lparr>cx_content := dd\<rparr>) ec)"
  show ?case
  proof (cases "should_fire ls (pol_spec q) ctx")
    case False
    then have step: "fired run ls ec ((q # qs) @ p # ps) (ctx\<lparr>cx_content := dd\<rparr>) = fired run ls ec (qs @ p # ps) (ctx\<lparr>cx_content := dd\<rparr>)"
      by simp
    obtain before mid later where IH:
      "fired run ls ec (qs @ p # ps) (ctx\<lparr>cx_content := dd\<rparr>) = before @ mid @ later"
      "mid = [] \<or> should_fire ls (pol_spec p) ctx \<and>
        (\<exists>d. mid = [answer run ec ctx p d] \<and> (d = dd \<or> (\<exists>q \<in> set qs. changes_content run ec ctx q)))"
      "\<forall>x \<in> set before. \<exists>q \<in> set qs. answers run ec ctx q x" "\<forall>x \<in> set later. \<exists>q \<in> set ps. answers run ec ctx q x"
      "denial (fired run ls ec (qs @ p # ps) (ctx\<lparr>cx_content := dd\<rparr>)) = None \<and> should_fire ls (pol_spec p) ctx \<longrightarrow> mid \<noteq> []"
      using Cons.IH [of dd] by blast
    show ?thesis
      unfolding step IH(1) using IH(2-5) by (intro exI [of _ before] exI [of _ mid] exI [of _ later]) (auto simp: IH(1))
  next
    case True
    obtain d1 where d1: "next_ctx ?r (ctx\<lparr>cx_content := dd\<rparr>) = ctx\<lparr>cx_content := d1\<rparr>" "changes_content run ec ctx q \<or> d1 = dd"
    proof (cases "r_data ?r")
      case None
      then show ?thesis by (intro that [of dd]) (simp_all add: next_ctx_def)
    next
      case (Some d)
      then show ?thesis by (intro that [of d]) (auto simp: next_ctx_def changes_content_def answer_def)
    qed
    have first: "\<exists>q' \<in> set (q # qs). answers run ec ctx q' (pol_spec q, ?r)" using answersI [of run ec ctx q dd] by simp
    show ?thesis
    proof (cases "r_action ?r = DENY")
      case deny: True
      then have step: "fired run ls ec ((q # qs) @ p # ps) (ctx\<lparr>cx_content := dd\<rparr>) = [(pol_spec q, ?r)] @ [] @ []"
        using True by (simp add: Let_def)
      show ?thesis
        unfolding step using deny first by (intro exI [of _ "[(pol_spec q, ?r)]"] exI [of _ "[]"]) auto
    next
      case no: False
      then have step: "fired run ls ec ((q # qs) @ p # ps) (ctx\<lparr>cx_content := dd\<rparr>) =
          (pol_spec q, ?r) # fired run ls ec (qs @ p # ps) (ctx\<lparr>cx_content := d1\<rparr>)"
        using True d1(1) by (simp add: Let_def)
      obtain before mid later where IH:
        "fired run ls ec (qs @ p # ps) (ctx\<lparr>cx_content := d1\<rparr>) = before @ mid @ later"
        "mid = [] \<or> should_fire ls (pol_spec p) ctx \<and>
          (\<exists>d. mid = [answer run ec ctx p d] \<and> (d = d1 \<or> (\<exists>q \<in> set qs. changes_content run ec ctx q)))"
        "\<forall>x \<in> set before. \<exists>q \<in> set qs. answers run ec ctx q x" "\<forall>x \<in> set later. \<exists>q \<in> set ps. answers run ec ctx q x"
        "denial (fired run ls ec (qs @ p # ps) (ctx\<lparr>cx_content := d1\<rparr>)) = None \<and> should_fire ls (pol_spec p) ctx \<longrightarrow> mid \<noteq> []"
        using Cons.IH [of d1] by blast
      have rest: "denial ((pol_spec q, ?r) # fired run ls ec (qs @ p # ps) (ctx\<lparr>cx_content := d1\<rparr>)) = None \<and> should_fire ls (pol_spec p) ctx
          \<longrightarrow> mid \<noteq> []" using IH(5) no by simp
      have middle: "mid = [] \<or> should_fire ls (pol_spec p) ctx \<and>
          (\<exists>d. mid = [answer run ec ctx p d] \<and> (d = dd \<or> (\<exists>q' \<in> set (q # qs). changes_content run ec ctx q')))"
        using IH(2) d1(2) by auto
      show ?thesis
        unfolding step
      proof (intro exI conjI)
        show "(pol_spec q, ?r) # fired run ls ec (qs @ p # ps) (ctx\<lparr>cx_content := d1\<rparr>) = ((pol_spec q, ?r) # before) @ mid @ later"
          using IH(1) by simp
        show "\<forall>x \<in> set ((pol_spec q, ?r) # before). \<exists>q' \<in> set (q # qs). answers run ec ctx q' x"
        proof
          fix x
          assume "x \<in> set ((pol_spec q, ?r) # before)"
          then consider "x = (pol_spec q, ?r)" | "x \<in> set before" by (metis set_ConsD)
          then show "\<exists>q' \<in> set (q # qs). answers run ec ctx q' x"
          proof cases
            case 1
            show ?thesis unfolding 1 by (rule first)
          next
            case 2
            with IH(3) obtain q' where "q' \<in> set qs" "answers run ec ctx q' x" by (meson bspec)
            then show ?thesis by (intro bexI [of _ q']) simp_all
          qed
        qed
      qed (rule middle IH(4) rest)+
    qed
  qed
qed

lemma fired_split:
  \<comment> \<open>the answers of the policies before it, at most one of its own, and those of the policies after it\<close>
  obtains before mid later where "fired run ls ec (qs @ p # ps) ctx = before @ mid @ later"
    "mid = [] \<or> should_fire ls (pol_spec p) ctx \<and>
      (\<exists>d. mid = [answer run ec ctx p d] \<and> (d = cx_content ctx \<or> (\<exists>q \<in> set qs. changes_content run ec ctx q)))"
    "\<forall>x \<in> set before. \<exists>q \<in> set qs. answers run ec ctx q x" "\<forall>x \<in> set later. \<exists>q \<in> set ps. answers run ec ctx q x"
    "denial (fired run ls ec (qs @ p # ps) ctx) = None \<and> should_fire ls (pol_spec p) ctx \<longrightarrow> mid \<noteq> []"
proof -
  have same: "ctx\<lparr>cx_content := cx_content ctx\<rparr> = ctx" by simp
  show ?thesis using fired_split_at [where dd = "cx_content ctx" and ctx = ctx] that unfolding same by blast
qed

lemma decide_denied: "denial tr \<noteq> None \<Longrightarrow> fst (decide day read_only tr eng) = Inr r \<Longrightarrow> r_action r = DENY"
  by (cases "denial tr") (auto simp: decide_def dest!: compose_deny_result)

lemma asks_empty: "asks tr = [] \<longleftrightarrow> (\<forall>sr \<in> set tr. r_action (snd sr) \<noteq> ASK)"
  by (auto simp: asks_def filter_empty_conv)

lemma decide_strictest:
  \<comment> \<open>the decision is the strictest of the answers\<close>
  assumes "fst (decide day read_only tr eng) = Inr r"
  shows "r_action r = strictest (map (\<lambda>sr. r_action (snd sr)) tr)"
proof (cases "denial tr")
  case (Some d)
  have "\<exists>sr \<in> set tr. r_action (snd sr) = DENY" using denial_iff [of tr] Some by auto
  then have "DENY \<in> set (map (\<lambda>sr. r_action (snd sr)) tr)" by force
  then have "strictest (map (\<lambda>sr. r_action (snd sr)) tr) = DENY" by (simp only: strictest_DENY)
  then show ?thesis using decide_denied [OF _ assms] Some by simp
next
  case None
  have no_deny: "DENY \<notin> set (map (\<lambda>sr. r_action (snd sr)) tr)" using denial_iff [of tr] None by auto
  have "r_action r = (if asks tr = [] then ALLOW else ASK)"
    using assms None by (auto simp: decide_def Let_def split: if_splits prod.splits sum.splits)
  moreover have "strictest (map (\<lambda>sr. r_action (snd sr)) tr) = (if asks tr = [] then ALLOW else ASK)"
  proof (cases "strictest (map (\<lambda>sr. r_action (snd sr)) tr)")
    case ALLOW
    then show ?thesis using strictest_ALLOW [of "map (\<lambda>sr. r_action (snd sr)) tr"] by (auto simp: asks_empty)
  next
    case ASK
    then have "\<not> set (map (\<lambda>sr. r_action (snd sr)) tr) \<subseteq> {ALLOW}" by (simp only: strictest_ALLOW [symmetric]) simp
    then obtain sr where "sr \<in> set tr" "r_action (snd sr) \<noteq> ALLOW" by auto
    then have "asks tr \<noteq> []" using no_deny unfolding asks_empty by (cases "r_action (snd sr)") force+
    then show ?thesis using ASK by simp
  next
    case DENY
    then show ?thesis using no_deny by (simp only: strictest_DENY)
  qed
  ultimately show ?thesis by simp
qed

section \<open>The value of a key of the session state\<close>

definition key_after :: "state_update \<Rightarrow> pyval option \<Rightarrow> pyval option res" where
  \<comment> \<open>what an update makes of the value of its key\<close>
  "key_after u v =
     bindR (apply_one (case v of None \<Rightarrow> [] | Some x \<Rightarrow> [(su_key u, x)]) u) (\<lambda>s. Inr (dget s (su_key u)))"

fun key_afters :: "state_update list \<Rightarrow> pyval option \<Rightarrow> pyval option res" where
  "key_afters [] v = Inr v"
| "key_afters (u # us) v = bindR (key_after u v) (key_afters us)"

abbreviation on_key :: "string \<Rightarrow> state_update list \<Rightarrow> state_update list" where
  "on_key K \<equiv> filter (\<lambda>u. su_key u = K)"

lemma apply_one_key:
  assumes "apply_one s u = Inr s'"
  shows "if su_key u = K then key_after u (dget s K) = Inr (dget s' K) else dget s' K = dget s K"
  using assms
  by (cases "dget s (su_key u)") (auto simp: apply_one_def key_after_def bindR_Inr_iff split: state_update_action.splits pyval.splits)

lemma key_afters_append: "key_afters (us @ vs) v = bindR (key_afters us v) (key_afters vs)"
  by (induction us v rule: key_afters.induct) (auto simp: bindR_def split: sum.splits)

lemma apply_ops_key:
  assumes "apply_ops us s = (out, s')"
  shows "\<exists>n. (out = Inr () \<longrightarrow> n = length us) \<and> key_afters (on_key K (take n us)) (dget s K) = Inr (dget s' K)"
  using assms
proof (induction us s rule: apply_ops.induct)
  case (2 u us s)
  show ?case
  proof (cases "apply_one s u")
    case (Inl e)
    then show ?thesis using 2(2) by (intro exI [of _ 0]) auto
  next
    case (Inr s1)
    then obtain n where n: "out = Inr () \<longrightarrow> n = length us" "key_afters (on_key K (take n us)) (dget s1 K) = Inr (dget s' K)"
      using 2(1) [OF Inr] 2(2) by auto
    show ?thesis
      using n apply_one_key [OF Inr, of K] by (intro exI [of _ "Suc n"]) (auto split: if_splits)
  qed
qed auto

lemma filter_take: "\<exists>m. filter P (take n xs) = take m (filter P xs) \<and> (n = length xs \<longrightarrow> m = length (filter P xs))"
proof (induction xs arbitrary: n)
  case (Cons x xs)
  show ?case
  proof (cases n)
    case (Suc k)
    from Cons.IH [of k] obtain m where "filter P (take k xs) = take m (filter P xs)" "k = length xs \<longrightarrow> m = length (filter P xs)" by blast
    then show ?thesis using Suc by (intro exI [of _ "if P x then Suc m else m"]) auto
  qed (intro exI [of _ 0], simp)
qed simp

definition reserved :: "('p, 'c) engine \<Rightarrow> string \<Rightarrow> bool" where
  \<comment> \<open>the keys whose updates leave the conversation\<close>
  "reserved eng K \<longleftrightarrow> K = USER_DAILY_ASK_APPROVED_STATE_KEY \<or>
     K \<in> {SESSION_COST_ASK_APPROVED_STATE_KEY, SESSION_COST_UNPRICED_APPROVED_KEY} \<and> e_root_conversation_id eng \<noteq> e_conversation_id eng"

lemma reserved_cong:
  "e_root_conversation_id eng' = e_root_conversation_id eng \<Longrightarrow> e_conversation_id eng' = e_conversation_id eng \<Longrightarrow>
   reserved eng' K = reserved eng K"
  by (simp add: reserved_def)

lemma record_root_key:
  assumes "record_root_cost_ask_approved op eng = (out, eng')" and "su_key op \<noteq> K"
  shows "dget (e_session_state eng') K = dget (e_session_state eng) K \<and> e_policies eng' = e_policies eng"
  using assms apply_one_key [of "e_session_state eng" op _ K]
  by (auto simp: record_root_cost_ask_approved_def Let_def split: sum.splits if_splits)

lemma record_daily_policies [simp]: "e_policies (record_user_daily_ask_approved day v eng) = e_policies eng"
  by (auto simp: record_user_daily_ask_approved_def split: option.split)

lemma route_updates_key:
  assumes "route_updates day us acc eng = (out, eng')" and "\<not> reserved eng K"
  shows "dget (e_session_state eng') K = dget (e_session_state eng) K \<and> e_policies eng' = e_policies eng
    \<and> (\<forall>ops. out = Inr ops \<longrightarrow> on_key K ops = on_key K (acc @ us))"
  using assms
proof (induction day us acc eng arbitrary: out eng' rule: route_updates.induct)
  case (2 day op ops acc eng)
  show ?case
  proof (cases "su_key op = USER_DAILY_ASK_APPROVED_STATE_KEY")
    case True
    let ?eng = "record_user_daily_ask_approved day (su_value op) eng"
    have "route_updates day ops acc ?eng = (out, eng')" using 2(4) True by simp
    moreover have "\<not> reserved ?eng K" using 2(5) by (simp add: reserved_def)
    ultimately show ?thesis using 2(1) [OF True] True 2(5) by (auto simp: reserved_def)
  next
    case daily: False
    show ?thesis
    proof (cases "su_key op \<in> {SESSION_COST_ASK_APPROVED_STATE_KEY, SESSION_COST_UNPRICED_APPROVED_KEY}
              \<and> e_root_conversation_id eng \<noteq> e_conversation_id eng")
      case True
      then have K: "su_key op \<noteq> K" using 2(5) by (auto simp: reserved_def)
      obtain o1 e1 where r: "record_root_cost_ask_approved op eng = (o1, e1)" by fastforce
      note root = record_root_key [OF r K]
      show ?thesis
      proof (cases o1)
        case (Inl e)
        with root True daily r 2(4) show ?thesis by auto
      next
        case (Inr u)
        with True daily r 2(4) have "route_updates day ops acc e1 = (out, eng')" by simp
        moreover have "\<not> reserved e1 K" using 2(5) record_root_fields [OF r] by (simp add: reserved_def)
        ultimately show ?thesis using 2(2) [OF daily True r [symmetric]] Inr root K by auto
      qed
    next
      case False
      have "route_updates day ops (acc @ [op]) eng = (out, eng')"
        using 2(4) unfolding route_updates.simps if_not_P [OF daily] if_not_P [OF False] .
      with 2(3) [OF daily False] 2(5) show ?thesis by auto
    qed
  qed
qed auto

lemma apply_state_updates_key:
  assumes "apply_state_updates day us eng = (out, eng')" and "\<not> reserved eng K"
  shows "e_policies eng' = e_policies eng
    \<and> (\<exists>n. (out = Inr () \<longrightarrow> n = length (on_key K us))
        \<and> key_afters (take n (on_key K us)) (dget (e_session_state eng) K) = Inr (dget (e_session_state eng') K))"
proof (cases "us = []")
  case True
  then show ?thesis using assms(1) by (intro conjI exI [of _ 0]) (auto simp: apply_state_updates_def)
next
  case us: False
  obtain o1 e1 where r: "route_updates day us [] eng = (o1, e1)" by fastforce
  note routed = route_updates_key [OF r assms(2)]
  show ?thesis
  proof (cases o1)
    case (Inl e)
    then show ?thesis using us r routed assms(1) by (intro conjI exI [of _ 0]) (auto simp: apply_state_updates_def)
  next
    case (Inr ops)
    obtain o2 s where a: "apply_ops ops (e_session_state e1) = (o2, s)" by fastforce
    from apply_ops_key [OF a, of K] obtain n where n: "o2 = Inr () \<longrightarrow> n = length ops"
      "key_afters (on_key K (take n ops)) (dget (e_session_state e1) K) = Inr (dget s K)" by blast
    obtain m where m: "on_key K (take n ops) = take m (on_key K ops)" "n = length ops \<longrightarrow> m = length (on_key K ops)"
      using filter_take [of "\<lambda>u. su_key u = K" n ops] by blast
    have keep: "on_key K ops = on_key K us" using routed Inr by simp
    have "e_policies eng' = e_policies eng" using us r routed assms(1) Inr a
      by (auto simp: apply_state_updates_def split: if_splits sum.splits)
    moreover have "out = Inr () \<longrightarrow> o2 = Inr ()" "e_session_state eng' = s"
      using us r assms(1) Inr a by (auto simp: apply_state_updates_def split: if_splits sum.splits)
    ultimately show ?thesis using n m keep routed by (intro conjI exI [of _ m]) auto
  qed
qed

section \<open>A session\<close>

lemma compose_function:
  "compose (evaluate_function other) ls ec ps k = (d, k', ps') \<Longrightarrow> ps' = ps"
proof (induction ps arbitrary: k d k' ps')
  case (Cons p ps)
  have same: "snd (dispatch_policy (evaluate_function other) p (k_ctx k) ec) = p"
    by (simp add: dispatch_policy_def evaluate_function_def split: sum.split)
  obtain r p' where r: "dispatch_policy (evaluate_function other) p (k_ctx k) ec = (r, p')" by fastforce
  obtain d1 k1 ps1 where one: "compose (evaluate_function other) ls ec ps k = (d1, k1, ps1)" by (metis prod_cases3)
  obtain d2 k2 ps2 where two: "compose (evaluate_function other) ls ec ps (advance (pol_spec p) r (gather (pol_spec p) r k)) = (d2, k2, ps2)"
    by (metis prod_cases3)
  show ?case
    using Cons.prems Cons.IH [OF one] Cons.IH [OF two] same r one two by (auto simp: Let_def split: if_splits)
qed simp

lemma evaluate_function_fired:
  "evaluate_composed day (evaluate_function other) read_only ctx eng =
     decide day read_only (fired (evaluate_function other) (e_labels eng) (context_of eng) (e_policies eng) (inject eng ctx)) eng"
proof -
  let ?k = "\<lparr>k_ctx = inject eng ctx, k_labels = [], k_state = [], k_reasons = [], k_askers = [], k_data = None\<rparr>"
  obtain d k ps where run: "compose (evaluate_function other) (e_labels eng) (context_of eng) (e_policies eng) ?k = (d, k, ps)"
    by (metis prod_cases3)
  let ?tr = "fired (evaluate_function other) (e_labels eng) (context_of eng) (e_policies eng) (inject eng ctx)"
  have k: "d = denial ?tr" "k_labels k = all_labels ?tr" "k_state k = all_updates ?tr"
    "d = None \<Longrightarrow> k_reasons k = map ask_reason (asks ?tr) \<and> k_askers k = map (ps_name \<circ> fst) (asks ?tr) \<and> k_data k = last_data None ?tr"
    using compose_fired [OF run, of ?tr] by (auto simp: all_labels_def)
  show ?thesis
  proof (cases "denial ?tr")
    case None
    then show ?thesis
      using k(4) compose_function [OF run] by (simp add: evaluate_composed_def decide_def Let_def run k(1-3))
  next
    case (Some nr)
    then show ?thesis
      using compose_function [OF run] by (cases nr) (simp add: evaluate_composed_def decide_def Let_def run k(1-3))
  qed
qed

definition attempt ::
  "string \<Rightarrow> (pyval \<Rightarrow> string) \<Rightarrow> (string \<Rightarrow> pyval option) \<Rightarrow> 'c evaluation_context \<times> parked \<Rightarrow> ('c function_policy, 'c) engine \<Rightarrow>
   bool \<times> ('c function_policy, 'c) engine" where
  \<comment> \<open>an action is evaluated, an ASK waits for the verdict; whether the action goes ahead\<close>
  "attempt day other loads act eng =
     (case evaluate_composed day (evaluate_function other) False (fst act) eng of
        (Inl e, eng') \<Rightarrow> (False, eng')
      | (Inr r, eng') \<Rightarrow>
          (case r_action r of
             ALLOW \<Rightarrow> (True, eng')
           | DENY \<Rightarrow> (False, eng')
           | ASK \<Rightarrow> (case gate day loads r (snd act) eng' of (out, eng'') \<Rightarrow> (out = Returned True, eng''))))"

fun attempts ::
  "string \<Rightarrow> (pyval \<Rightarrow> string) \<Rightarrow> (string \<Rightarrow> pyval option) \<Rightarrow> ('c evaluation_context \<times> parked) list \<Rightarrow> ('c function_policy, 'c) engine \<Rightarrow>
   bool list \<times> ('c function_policy, 'c) engine" where
  "attempts day other loads [] eng = ([], eng)"
| "attempts day other loads (act # acts) eng =
     (case attempt day other loads act eng of
        (ok, eng') \<Rightarrow> (case attempts day other loads acts eng' of (oks, eng'') \<Rightarrow> (ok # oks, eng'')))"

lemma on_key_all_updates: "(\<And>sr. sr \<in> set tr \<Longrightarrow> on_key K (updates_of (snd sr)) = []) \<Longrightarrow> on_key K (all_updates tr) = []"
  by (induction tr) (auto simp: all_updates_def)

definition leaves_key :: "string \<Rightarrow> (pyval \<Rightarrow> string) \<Rightarrow> 'c function_policy policy \<Rightarrow> bool" where
  \<comment> \<open>the policy never writes the key\<close>
  "leaves_key K other q \<longleftrightarrow>
     (\<forall>ev raw r u. snd (pol_state q) ev = Inr raw \<longrightarrow> coerce_to_policy_result other (fst (pol_state q)) raw = Inr r \<longrightarrow>
        u \<in> set (updates_of r) \<longrightarrow> su_key u \<noteq> K)"

lemma leaves_key_answers:
  assumes "leaves_key K other q" and "answers (evaluate_function other) ec ctx q sr"
  shows "on_key K (updates_of (snd sr)) = []"
proof -
  obtain d where sr: "snd sr = fst (dispatch_policy (evaluate_function other) q (ctx\<lparr>cx_content := d\<rparr>) ec)"
    using assms(2) by (auto simp: answers_def)
  have "su_key u \<noteq> K" if "u \<in> set (updates_of (snd sr))" for u
  proof (cases "snd (pol_state q) (build_event (ctx\<lparr>cx_content := d\<rparr>))")
    case (Inl e)
    then show ?thesis using that by (simp add: sr dispatch_function)
  next
    case (Inr raw)
    show ?thesis
    proof (cases "coerce_to_policy_result other (fst (pol_state q)) raw")
      case (Inl e)
      then show ?thesis using that Inr by (simp add: sr dispatch_function)
    next
      case r: (Inr r)
      then show ?thesis using that Inr assms(1) unfolding leaves_key_def sr dispatch_function by fastforce
    qed
  qed
  then show ?thesis by (simp add: filter_empty_conv)
qed

definition may_see :: "('p, 'c) policy_run \<Rightarrow> engine_context \<Rightarrow> 'c evaluation_context \<Rightarrow> 'p policy list \<Rightarrow> pyval \<Rightarrow> bool" where
  \<comment> \<open>the content a policy may see after the policies \<open>qs\<close>: the original, unless one of them replaces it\<close>
  "may_see run ec ctx qs d \<longleftrightarrow> d = cx_content ctx \<or> (\<exists>q \<in> set qs. changes_content run ec ctx q)"

lemma trace_key:
  \<comment> \<open>the updates of a key that only one policy writes are those of its answer\<close>
  assumes "\<And>q. q \<in> set qs \<union> set ps \<Longrightarrow> leaves_key K other q"
  obtains us where "on_key K (all_updates (fired (evaluate_function other) ls ec (qs @ p # ps) ctx)) = on_key K us"
    "us = [] \<or> should_fire ls (pol_spec p) ctx \<and>
      (\<exists>d. may_see (evaluate_function other) ec ctx qs d \<and> us = updates_of (snd (answer (evaluate_function other) ec ctx p d)))"
    "denial (fired (evaluate_function other) ls ec (qs @ p # ps) ctx) = None \<and> should_fire ls (pol_spec p) ctx \<longrightarrow>
      (\<exists>d. may_see (evaluate_function other) ec ctx qs d \<and> us = updates_of (snd (answer (evaluate_function other) ec ctx p d)) \<and>
         r_action (snd (answer (evaluate_function other) ec ctx p d)) \<noteq> DENY \<and>
         (asks (fired (evaluate_function other) ls ec (qs @ p # ps) ctx) = [] \<longrightarrow>
            r_action (snd (answer (evaluate_function other) ec ctx p d)) = ALLOW))"
proof -
  let ?tr = "fired (evaluate_function other) ls ec (qs @ p # ps) ctx" and ?answer = "answer (evaluate_function other) ec ctx p"
  obtain before mid later where split: "?tr = before @ mid @ later"
    "mid = [] \<or> should_fire ls (pol_spec p) ctx \<and>
      (\<exists>d. mid = [?answer d] \<and> (d = cx_content ctx \<or> (\<exists>q \<in> set qs. changes_content (evaluate_function other) ec ctx q)))"
    "\<forall>x \<in> set before. \<exists>q \<in> set qs. answers (evaluate_function other) ec ctx q x"
    "\<forall>x \<in> set later. \<exists>q \<in> set ps. answers (evaluate_function other) ec ctx q x"
    "denial ?tr = None \<and> should_fire ls (pol_spec p) ctx \<longrightarrow> mid \<noteq> []"
    by (rule fired_split)
  have "on_key K (all_updates before) = []" "on_key K (all_updates later) = []"
    using split(3,4) assms leaves_key_answers by (intro on_key_all_updates; blast)+
  then have key: "on_key K (all_updates (before @ mid @ later)) = on_key K (all_updates mid)"
    by (simp add: all_updates_def)
  show ?thesis
  proof (cases "mid = []")
    case True
    have no: "\<not> (denial ?tr = None \<and> should_fire ls (pol_spec p) ctx)" using split(5) True by blast
    have "on_key K (all_updates ?tr) = on_key K []" using key True unfolding split(1) by (simp add: all_updates_def)
    then show ?thesis by (rule that [of "[]"]) (use no in blast)+
  next
    case False
    then obtain d where mid: "mid = [?answer d]" "may_see (evaluate_function other) ec ctx qs d" "should_fire ls (pol_spec p) ctx"
      using split(2) unfolding may_see_def by blast
    have us: "all_updates mid = updates_of (snd (?answer d))" by (simp add: mid(1) all_updates_def)
    have action: "r_action (snd (?answer d)) \<noteq> DENY" if "denial ?tr = None"
      using that denial_iff [of ?tr] split(1) mid(1) by auto
    have allow: "r_action (snd (?answer d)) = ALLOW" if "denial ?tr = None" "asks ?tr = []"
      using action [OF that(1)] that(2) unfolding split(1) mid(1)
      by (cases "r_action (snd (?answer d))") (auto simp: asks_def filter_empty_conv)
    have "on_key K (all_updates ?tr) = on_key K (updates_of (snd (?answer d)))" using key us unfolding split(1) by simp
    then show ?thesis by (rule that) (use mid(2,3) action allow in blast)+
  qed
qed

lemma apply_label_writes_policies [simp]: "e_policies (apply_label_writes ls eng) = e_policies eng"
  by (simp add: apply_label_writes_def Let_def)

lemma some_if_parts [simp]: "(case some_if xs of None \<Rightarrow> a | Some ys \<Rightarrow> if ys = [] then a else f ys) = (if xs = [] then a else f xs)"
  by (simp add: some_if_def)

definition accepted :: "(string \<Rightarrow> pyval option) \<Rightarrow> parked \<Rightarrow> bool" where
  "accepted loads v \<longleftrightarrow> (case v of TimedOut \<Rightarrow> False | Verdict raw \<Rightarrow> parse_verdict loads raw)"

lemma attempt_commits:
  \<comment> \<open>an attempt changes the session state by the updates of its trace, all of them when it goes ahead\<close>
  assumes "attempt day other loads act eng = (ok, eng')"
    and tr: "tr = fired (evaluate_function other) (e_labels eng) (context_of eng) (e_policies eng) (inject eng (fst act))"
  obtains (kept) "\<not> ok" "eng' = eng"
  | (written) out eng1 ls ls' where "apply_state_updates day (all_updates tr) (apply_label_writes ls eng) = (out, eng1)"
      and "eng' = apply_label_writes ls' eng1" and "ok \<longrightarrow> out = Inr () \<and> denial tr = None \<and> (asks tr = [] \<or> accepted loads (snd act))"
      and "denial tr = None \<longrightarrow> asks tr = [] \<or> accepted loads (snd act)"
proof -
  note eval = evaluate_function_fired [of day other False "fst act" eng, folded tr]
  show ?thesis
  proof (cases "denial tr")
    case (Some nr)
    obtain out eng1 where run: "apply_state_updates day (all_updates tr) eng = (out, eng1)" by fastforce
    have "\<not> ok \<and> (eng' = eng1 \<or> eng' = apply_label_writes (all_labels tr) eng1)"
      using assms(1) Some run
      by (cases nr; cases out) (auto simp: attempt_def eval decide_def compose_deny_def Let_def)
    moreover have "apply_label_writes [] e = e" for e :: "('a function_policy, 'a) engine" by (simp add: apply_label_writes_def)
    ultimately show ?thesis using run Some by (metis written [of "[]"] option.distinct(1))
  next
    case None
    let ?eng = "apply_label_writes (all_labels tr) eng"
    obtain out eng1 where run: "apply_state_updates day (all_updates tr) ?eng = (out, eng1)" by fastforce
    have same: "apply_label_writes [] eng1 = eng1" by (simp add: apply_label_writes_def)
    show ?thesis
    proof (cases "asks tr = []")
      case True
      have "eng' = eng1 \<and> (ok \<longrightarrow> out = Inr ())"
        using assms(1) None True run by (cases out) (auto simp: attempt_def eval decide_def)
      then show ?thesis using run None same True by (metis written)
    next
      case False
      define r where "r = \<lparr>r_action = ASK, r_reason = Some (join ''; '' (map ask_reason (asks tr))),
        r_set_labels = some_if (all_labels tr), r_deciding_policies = Some (map (ps_name \<circ> fst) (asks tr)),
        r_data = last_data None tr, r_state_updates = some_if (all_updates tr)\<rparr>"
      have gate: "attempt day other loads act eng = (case gate day loads r (snd act) eng of (out, eng'') \<Rightarrow> (out = Returned True, eng''))"
        using None False by (simp add: attempt_def eval decide_def r_def)
      have commit: "commit_writes day r eng = (out, eng1)"
        unfolding run [symmetric] by (rule commit_writes_composed) (simp_all add: r_def)
      have "\<not> ok \<and> eng' = eng \<or> eng' = eng1 \<and> accepted loads (snd act) \<and> (ok \<longrightarrow> out = Inr ())"
        using assms(1) unfolding gate
        by (cases out; cases "snd act") (auto simp: gate_def commit accepted_def split: if_splits)
      then show ?thesis using run None same kept by (metis written)
    qed
  qed
qed

lemma attempt_reserved:
  assumes "attempt day other loads act eng = (ok, eng')"
  shows "reserved eng' K = reserved eng K"
  using assms refl
proof (cases rule: attempt_commits)
  case (written out eng1 ls ls')
  then show ?thesis using apply_state_updates_fields [OF written(1)] by (intro reserved_cong) simp_all
qed simp

lemma inject_content [simp]: "cx_content (inject eng ctx) = cx_content ctx"
  by (simp add: inject_def Let_def split: option.split)

lemma attempt_key:
  fixes other :: "pyval \<Rightarrow> string" and eng :: "('c function_policy, 'c) engine"
  defines "run \<equiv> evaluate_function other"
  assumes eng: "e_policies eng = qs @ p # ps" and others: "\<And>q. q \<in> set qs \<union> set ps \<Longrightarrow> leaves_key K other q"
    and K: "\<not> reserved eng K" and att: "attempt day other loads act eng = (ok, eng')"
    and ctx: "ctx = inject eng (fst act)" and ec: "ec = context_of eng"
  obtains us n where "e_policies eng' = e_policies eng"
    "us = [] \<or> should_fire (e_labels eng) (pol_spec p) (fst act) \<and>
       (\<exists>d. may_see run ec ctx qs d \<and> us = updates_of (snd (answer run ec ctx p d)))"
    "key_afters (take n (on_key K us)) (dget (e_session_state eng) K) = Inr (dget (e_session_state eng') K)"
    "ok \<longrightarrow> n = length (on_key K us)"
    "ok \<longrightarrow> should_fire (e_labels eng) (pol_spec p) (fst act) \<longrightarrow>
       (\<exists>d. may_see run ec ctx qs d \<and> us = updates_of (snd (answer run ec ctx p d)) \<and> r_action (snd (answer run ec ctx p d)) \<noteq> DENY \<and>
         (\<not> accepted loads (snd act) \<longrightarrow> r_action (snd (answer run ec ctx p d)) = ALLOW))"
proof -
  let ?tr = "fired run (e_labels eng) ec (e_policies eng) ctx"
  obtain us where us: "on_key K (all_updates ?tr) = on_key K us"
    "us = [] \<or> should_fire (e_labels eng) (pol_spec p) ctx \<and>
      (\<exists>d. may_see run ec ctx qs d \<and> us = updates_of (snd (answer run ec ctx p d)))"
    "denial ?tr = None \<and> should_fire (e_labels eng) (pol_spec p) ctx \<longrightarrow>
      (\<exists>d. may_see run ec ctx qs d \<and> us = updates_of (snd (answer run ec ctx p d)) \<and> r_action (snd (answer run ec ctx p d)) \<noteq> DENY \<and>
         (asks ?tr = [] \<longrightarrow> r_action (snd (answer run ec ctx p d)) = ALLOW))"
    unfolding eng run_def by (rule trace_key [OF others])
  have fire: "should_fire (e_labels eng) (pol_spec p) ctx = should_fire (e_labels eng) (pol_spec p) (fst act)" by (simp add: ctx)
  have tr: "?tr = fired (evaluate_function other) (e_labels eng) (context_of eng) (e_policies eng) (inject eng (fst act))"
    by (simp add: run_def ctx ec)
  from att tr show ?thesis
  proof (cases rule: attempt_commits)
    case kept
    show ?thesis by (rule that [of "[]" 0]) (use kept in simp_all)
  next
    case (written out eng1 ls ls')
    have "\<not> reserved (apply_label_writes ls eng) K" using K by (simp add: reserved_def)
    from apply_state_updates_key [OF written(1) this] obtain n where n: "e_policies eng1 = e_policies eng"
      "out = Inr () \<longrightarrow> n = length (on_key K (all_updates ?tr))"
      "key_afters (take n (on_key K (all_updates ?tr))) (dget (e_session_state eng) K) = Inr (dget (e_session_state eng1) K)"
      by auto
    show ?thesis
    proof (rule that [of us n])
      show "ok \<longrightarrow> should_fire (e_labels eng) (pol_spec p) (fst act) \<longrightarrow>
         (\<exists>d. may_see run ec ctx qs d \<and> us = updates_of (snd (answer run ec ctx p d)) \<and> r_action (snd (answer run ec ctx p d)) \<noteq> DENY \<and>
         (\<not> accepted loads (snd act) \<longrightarrow> r_action (snd (answer run ec ctx p d)) = ALLOW))"
        using us(3) written(3) unfolding fire tr by blast
    qed (use written(2,3) n us(1,2) in \<open>simp_all add: fire\<close>)
  qed
qed

definition never_denies :: "(pyval \<Rightarrow> string) \<Rightarrow> 'c function_policy policy \<Rightarrow> bool" where
  \<comment> \<open>the policy neither denies nor fails\<close>
  "never_denies other q \<longleftrightarrow>
     (\<forall>ev. case bindR (snd (pol_state q) ev) (coerce_to_policy_result other (fst (pol_state q))) of Inl e \<Rightarrow> False | Inr r \<Rightarrow> r_action r \<noteq> DENY)"

lemma never_denies_answers:
  "never_denies other q \<Longrightarrow> answers (evaluate_function other) ec ctx q sr \<Longrightarrow> r_action (snd sr) \<noteq> DENY"
  unfolding never_denies_def answers_def dispatch_function by (auto split: sum.splits)

lemma attempt_unaccepted:
  \<comment> \<open>a key a policy writes only when it asks keeps its value when nobody accepts and no later policy denies\<close>
  fixes other :: "pyval \<Rightarrow> string" and eng :: "('c function_policy, 'c) engine"
  defines "run \<equiv> evaluate_function other"
  assumes eng: "e_policies eng = qs @ p # ps" and others: "\<And>q. q \<in> set qs \<union> set ps \<Longrightarrow> leaves_key K other q"
    and K: "\<not> reserved eng K" and att: "attempt day other loads act eng = (ok, eng')" and no: "\<not> accepted loads (snd act)"
    and asking: "\<And>d. on_key K (updates_of (snd (answer run (context_of eng) (inject eng (fst act)) p d))) = [] \<or>
      r_action (snd (answer run (context_of eng) (inject eng (fst act)) p d)) = ASK"
    and later: "\<And>q. q \<in> set ps \<Longrightarrow> never_denies other q"
  shows "dget (e_session_state eng') K = dget (e_session_state eng) K"
proof -
  let ?ec = "context_of eng" and ?ctx = "inject eng (fst act)"
  define tr where "tr = fired (evaluate_function other) (e_labels eng) ?ec (e_policies eng) ?ctx"
  from att tr_def show ?thesis
  proof (cases rule: attempt_commits)
    case (written out eng1 ls ls')
    obtain before mid after where split: "tr = before @ mid @ after" "mid = [] \<or> (\<exists>d. mid = [answer run ?ec ?ctx p d])"
      "\<forall>x \<in> set before. \<exists>q \<in> set qs. answers run ?ec ?ctx q x" "\<forall>x \<in> set after. \<exists>q \<in> set ps. answers run ?ec ?ctx q x"
      unfolding tr_def eng run_def by (rule fired_split [where run = "evaluate_function other" and ls = "e_labels eng" and ec = ?ec and qs = qs and p = p
          and ps = ps and ctx = ?ctx]) blast
    have "on_key K (all_updates before) = []" "on_key K (all_updates after) = []"
      using split(3,4) others leaves_key_answers unfolding run_def by (intro on_key_all_updates; blast)+
    then have key: "on_key K (all_updates tr) = on_key K (all_updates mid)" by (simp add: split(1) all_updates_def)
    have "on_key K (all_updates mid) = []"
    proof (rule ccontr)
      assume written_to: "on_key K (all_updates mid) \<noteq> []"
      then obtain d where mid: "mid = [answer run ?ec ?ctx p d]" using split(2) by (auto simp: all_updates_def)
      with written_to asking [of d] have ask: "r_action (snd (answer run ?ec ?ctx p d)) = ASK" by (auto simp: all_updates_def)
      then have "asks tr \<noteq> []" by (simp add: asks_empty split(1) mid)
      with written(4) no obtain x where x: "x \<in> set tr" "r_action (snd x) = DENY" using denial_iff [of tr] by blast
      then have "last tr = x" using fired_denial_last [of "fst x" "snd x"] unfolding tr_def by simp
      then have "x = answer run ?ec ?ctx p d \<or> x \<in> set after"
        unfolding split(1) mid using last_in_set [of "[answer run ?ec ?ctx p d] @ after"] by auto
      with x(2) ask split(4) later never_denies_answers show False unfolding run_def by fastforce
    qed
    moreover have "\<not> reserved (apply_label_writes ls eng) K" using K by (simp add: reserved_def)
    from apply_state_updates_key [OF written(1) this] obtain n where
      "key_afters (take n (on_key K (all_updates tr))) (dget (e_session_state eng) K) = Inr (dget (e_session_state eng1) K)" by auto
    ultimately show ?thesis using written(2) key by simp
  qed simp
qed

lemma fired_denies_seen:
  assumes "should_fire ls (pol_spec p) ctx" and "\<And>d. may_see run ec ctx qs d \<Longrightarrow> r_action (snd (answer run ec ctx p d)) = DENY"
  shows "denial (fired run ls ec (qs @ p # ps) ctx) \<noteq> None"
proof
  let ?tr = "fired run ls ec (qs @ p # ps) ctx"
  assume none: "denial ?tr = None"
  obtain before mid later where split: "?tr = before @ mid @ later"
    "mid = [] \<or> should_fire ls (pol_spec p) ctx \<and>
      (\<exists>d. mid = [answer run ec ctx p d] \<and> (d = cx_content ctx \<or> (\<exists>q \<in> set qs. changes_content run ec ctx q)))"
    "denial ?tr = None \<and> should_fire ls (pol_spec p) ctx \<longrightarrow> mid \<noteq> []"
    by (rule fired_split)
  then obtain d where "mid = [answer run ec ctx p d]" "may_see run ec ctx qs d" using none assms(1) unfolding may_see_def by blast
  then have "answer run ec ctx p d \<in> set ?tr" "r_action (snd (answer run ec ctx p d)) = DENY" using split(1) assms(2) by auto
  then show False using none denial_iff [of ?tr] by blast
qed

lemma evaluate_denied:
  \<comment> \<open>a policy that denies the action whatever the policies before it make of the content denies the composition\<close>
  assumes "e_policies eng = qs @ p # ps" and "should_fire (e_labels eng) (pol_spec p) ctx"
    and "\<And>d. may_see (evaluate_function other) (context_of eng) (inject eng ctx) qs d \<Longrightarrow>
      r_action (snd (answer (evaluate_function other) (context_of eng) (inject eng ctx) p d)) = DENY"
    and "fst (evaluate_composed day (evaluate_function other) read_only ctx eng) = Inr r"
  shows "r_action r = DENY"
proof -
  have "denial (fired (evaluate_function other) (e_labels eng) (context_of eng) (e_policies eng) (inject eng ctx)) \<noteq> None"
    unfolding assms(1) using assms(2,3) by (intro fired_denies_seen) simp_all
  then show ?thesis using assms(4) decide_denied unfolding evaluate_function_fired by blast
qed

text \<open>What a policy of the engine is given.\<close>

lemma injected_event [simp]:
  "ev_type (build_event (inject eng ctx\<lparr>cx_content := d\<rparr>)) = phase_value (cx_phase ctx)"
  "ev_data (build_event (inject eng ctx\<lparr>cx_content := d\<rparr>)) = d"
  "ev_session_state (build_event (inject eng ctx\<lparr>cx_content := d\<rparr>)) = e_session_state eng"
  "vc_usage (ev_context (build_event (inject eng ctx\<lparr>cx_content := d\<rparr>))) = e_usage eng"
  "vc_actor (ev_context (build_event (inject eng ctx\<lparr>cx_content := d\<rparr>))) = or_empty (cx_actor ctx)"
  "vc_model (ev_context (build_event (inject eng ctx\<lparr>cx_content := d\<rparr>))) = (case cx_model ctx of None \<Rightarrow> e_model eng | Some m \<Rightarrow> Some m)"
  by (simp_all add: build_event_def inject_def Let_def or_empty_def split: option.split)

lemma phase_value_eq [simp]:
  "phase_value x = ''tool_call'' \<longleftrightarrow> x = TOOL_CALL" "phase_value x = ''tool_result'' \<longleftrightarrow> x = TOOL_RESULT"
  "phase_value x = ''request'' \<longleftrightarrow> x = REQUEST" "phase_value x = ''llm_request'' \<longleftrightarrow> x = LLM_REQUEST"
  by (cases x; simp)+

lemma answer_result:
  "snd (answer (evaluate_function other) ec ctx p d) =
     (case bindR (snd (pol_state p) (build_event (ctx\<lparr>cx_content := d\<rparr>))) (coerce_to_policy_result other (fst (pol_state p))) of
        Inr r \<Rightarrow> r
      | Inl e \<Rightarrow> verdict DENY (Some (''policy '' @ py_repr (ps_name (pol_spec p)) @ '' failed: '' @ exn_text e)) [])"
  by (simp add: answer_def dispatch_function)

definition unconditional :: "policy_spec \<Rightarrow> bool" where
  \<comment> \<open>the policy has no selectors and no condition\<close>
  "unconditional spec \<longleftrightarrow> ps_on spec = None \<and> ps_condition spec = None"

lemma unconditional_fires [simp]: "unconditional spec \<Longrightarrow> should_fire ls spec ctx"
  by (simp add: unconditional_def should_fire_def)

end
