(* ===== verification/Egress_Rules.thy ===== *)
theory Egress_Rules
  imports Py_Prelude
begin

text \<open>
  The egress rules of \<^verbatim>\<open>codify/inner/egress/rules.py\<close>: parsing of \<open>METHODS host/path\<close> rules, host
  and path matching, the default-deny checks. A compiled path pattern is the list of the regex
  pieces the code emits; matching it is what \<open>re.match\<close> does on their concatenation, with \<open>.\<close>
  excluding the newline and \<open>$\<close> accepting one final newline. Error messages are abbreviated.
\<close>

section \<open>Hosts\<close>

definition dns_char :: "char \<Rightarrow> bool" where
  "dns_char c \<longleftrightarrow> (let n = of_char c :: nat in
     (65 \<le> n \<and> n \<le> 90) \<or> (97 \<le> n \<and> n \<le> 122) \<or> (48 \<le> n \<and> n \<le> 57) \<or> n = 46 \<or> n = 45)"

definition is_dns_safe_host :: "string \<Rightarrow> bool" where
  "is_dns_safe_host host \<longleftrightarrow> host \<noteq> [] \<and> list_all dns_char host"

definition upper_char :: "char \<Rightarrow> char" where
  "upper_char c = (let n = of_char c :: nat in
     if (97 \<le> n \<and> n \<le> 122) \<or> (224 \<le> n \<and> n \<le> 254 \<and> n \<noteq> 247) then char_of (n - 32) else c)"

definition upper :: "string \<Rightarrow> string" where
  "upper = map upper_char"

record egress_rule =
  methods :: "string list"
  host_pattern :: string
  path_pattern :: string

definition method_matches :: "egress_rule \<Rightarrow> string \<Rightarrow> bool" where
  "method_matches r method = (if ''*'' \<in> set (methods r) then True else upper method \<in> set (methods r))"

definition host_matches :: "egress_rule \<Rightarrow> string \<Rightarrow> bool" where
  "host_matches r host0 =
     (if \<not> is_dns_safe_host host0 then False
      else let host = lower host0; pattern = lower (host_pattern r)
           in if starts_with pattern ''*.'' then ends_with host (drop 1 pattern) \<or> host = drop 2 pattern
              else host = pattern)"

section \<open>Path patterns\<close>

datatype piece =
    AnyPath \<comment> \<open>\<open>.*\<close>\<close>
  | AnySegment \<comment> \<open>\<open>[^/]*\<close>\<close>
  | OneChar \<comment> \<open>\<open>[^/]\<close>\<close>
  | Lit char

fun glob_pieces :: "string \<Rightarrow> piece list" where
  "glob_pieces [] = []"
| "glob_pieces (c # cs) =
     (if c = CHR ''*'' then
        (case cs of
           d # ds \<Rightarrow>
             if d = CHR ''*'' then
               AnyPath # (case ds of e # es \<Rightarrow> if e = CHR ''/'' then glob_pieces es else glob_pieces ds | [] \<Rightarrow> [])
             else AnySegment # glob_pieces cs
         | [] \<Rightarrow> [AnySegment])
      else if c = CHR ''?'' then OneChar # glob_pieces cs
      else Lit c # glob_pieces cs)"

function (sequential) match_pieces :: "piece list \<Rightarrow> string \<Rightarrow> bool" where
  "match_pieces [] s \<longleftrightarrow> s = [] \<or> s = [CHR 0x0A]"
| "match_pieces (Lit c # ps) s \<longleftrightarrow> (case s of x # xs \<Rightarrow> x = c \<and> match_pieces ps xs | [] \<Rightarrow> False)"
| "match_pieces (OneChar # ps) s \<longleftrightarrow> (case s of x # xs \<Rightarrow> x \<noteq> CHR ''/'' \<and> match_pieces ps xs | [] \<Rightarrow> False)"
| "match_pieces (AnySegment # ps) s \<longleftrightarrow>
     match_pieces ps s \<or> (case s of x # xs \<Rightarrow> x \<noteq> CHR ''/'' \<and> match_pieces (AnySegment # ps) xs | [] \<Rightarrow> False)"
| "match_pieces (AnyPath # ps) s \<longleftrightarrow>
     match_pieces ps s \<or> (case s of x # xs \<Rightarrow> x \<noteq> CHR 0x0A \<and> match_pieces (AnyPath # ps) xs | [] \<Rightarrow> False)"
  by pat_completeness auto
termination by (relation "measure (\<lambda>(ps, s). length ps + length s)") auto

type_synonym glob_cache = "(string, piece list) pydict"

definition glob_to_regex :: "glob_cache \<Rightarrow> string \<Rightarrow> piece list \<times> glob_cache" where
  \<comment> \<open>the module-level cache is threaded explicitly\<close>
  "glob_to_regex cache pattern =
     (case dget cache pattern of
        Some regex \<Rightarrow> (regex, cache)
      | None \<Rightarrow> let regex = glob_pieces pattern in (regex, dset pattern regex cache))"

definition glob_match :: "string \<Rightarrow> string \<Rightarrow> bool" where
  "glob_match pattern s = match_pieces (glob_pieces pattern) s"

definition path_matches :: "egress_rule \<Rightarrow> string \<Rightarrow> bool" where
  "path_matches r path = glob_match (path_pattern r) (if starts_with path ''/'' then path else ''/'' @ path)"

definition rule_matches :: "egress_rule \<Rightarrow> string \<Rightarrow> string \<Rightarrow> string \<Rightarrow> bool" where
  "rule_matches r method host path =
     (if \<not> method_matches r method then False
      else if \<not> host_matches r host then False
      else path_matches r path)"

section \<open>Parsing\<close>

definition valid_methods :: "string list" where
  "valid_methods = [''GET'', ''HEAD'', ''POST'', ''PUT'', ''DELETE'', ''PATCH'', ''OPTIONS'', ''TRACE'', ''*'']"

definition split_first_blank :: "string \<Rightarrow> string list" where
  \<comment> \<open>\<open>s.split(None, 1)\<close>\<close>
  "split_first_blank s0 =
     (let s = lstrip s0; w = takeWhile (\<lambda>c. \<not> py_space c) s; rest = lstrip (dropWhile (\<lambda>c. \<not> py_space c) s)
      in if w = [] then [] else if rest = [] then [w] else [w, rest])"

definition parse_rule :: "string \<Rightarrow> egress_rule res" where
  "parse_rule rule_str0 =
     (let rule_str = strip rule_str0
      in if rule_str = [] then Inl (ValueError ''Empty egress rule'')
         else case split_first_blank rule_str of
           [methods_str, url_part] \<Rightarrow>
             (let method_parts = map strip (split_on (CHR '','') methods_str);
                  ms = map upper method_parts;
                  host = takeWhile (\<lambda>c. c \<noteq> CHR ''/'') url_part;
                  rest = dropWhile (\<lambda>c. c \<noteq> CHR ''/'') url_part;
                  path = (if rest = [] then ''/**'' else rest)
              in if list_ex (\<lambda>m. m = []) method_parts then Inl (ValueError ''Empty HTTP method in rule'')
                 else if ms = [] then Inl (ValueError ''No methods specified in rule'')
                 else if list_ex (\<lambda>m. m \<notin> set valid_methods) ms then Inl (ValueError ''Invalid HTTP method(s) in rule'')
                 else if host = [] then Inl (ValueError ''Empty host in rule'')
                 else Inr \<lparr>methods = remdups ms, host_pattern = host,
                           path_pattern = (if starts_with path ''/'' then path else ''/'' @ path)\<rparr>)
         | _ \<Rightarrow> Inl (ValueError ''Egress rule must be METHODS host/path''))"

fun parse_rules :: "string list \<Rightarrow> egress_rule list res" where
  "parse_rules [] = Inr []"
| "parse_rules (s # ss) = bindR (parse_rule s) (\<lambda>r. bindR (parse_rules ss) (\<lambda>rs. Inr (r # rs)))"

definition check_request :: "egress_rule list \<Rightarrow> string \<Rightarrow> string \<Rightarrow> string \<Rightarrow> bool" where
  "check_request rules method host path = list_ex (\<lambda>r. rule_matches r method host path) rules"

definition check_host :: "egress_rule list \<Rightarrow> string \<Rightarrow> bool" where
  "check_host rules host = list_ex (\<lambda>r. host_matches r host) rules"

section \<open>The language of a pattern\<close>

text \<open>
  The declarative reading of a compiled pattern: \<open>produces ps s\<close> holds when \<open>s\<close> splits into the
  pieces in order. The matcher decides it, up to the final newline that \<open>$\<close> tolerates.
\<close>

inductive produces :: "piece list \<Rightarrow> string \<Rightarrow> bool" where
  produces_Nil: "produces [] []"
| produces_Lit: "produces ps s \<Longrightarrow> produces (Lit c # ps) (c # s)"
| produces_OneChar: "produces ps s \<Longrightarrow> x \<noteq> CHR ''/'' \<Longrightarrow> produces (OneChar # ps) (x # s)"
| produces_AnySegment: "produces ps s \<Longrightarrow> CHR ''/'' \<notin> set w \<Longrightarrow> produces (AnySegment # ps) (w @ s)"
| produces_AnyPath: "produces ps s \<Longrightarrow> CHR 0x0A \<notin> set w \<Longrightarrow> produces (AnyPath # ps) (w @ s)"

inductive_simps produces_simps [simp]:
  "produces [] s" "produces (Lit c # ps) s" "produces (OneChar # ps) s"

inductive_cases produces_AnySegmentE: "produces (AnySegment # ps) s"
inductive_cases produces_AnyPathE: "produces (AnyPath # ps) s"

lemma split_prefix_Cons:
  "(\<exists>w t. x # xs = w @ t \<and> c \<notin> set w \<and> P t) \<longleftrightarrow> P (x # xs) \<or> x \<noteq> c \<and> (\<exists>w t. xs = w @ t \<and> c \<notin> set w \<and> P t)"
  (is "?l \<longleftrightarrow> ?r")
proof
  assume ?l
  then obtain w t where w: "x # xs = w @ t" "c \<notin> set w" "P t" by blast
  then show ?r using w by (cases w) auto
next
  assume ?r
  then show ?l
  proof
    assume "P (x # xs)"
    then have "x # xs = [] @ (x # xs) \<and> c \<notin> set [] \<and> P (x # xs)" by simp
    then show ?l by blast
  next
    assume "x \<noteq> c \<and> (\<exists>w t. xs = w @ t \<and> c \<notin> set w \<and> P t)"
    then obtain w t where "x \<noteq> c" "xs = w @ t" "c \<notin> set w" "P t" by blast
    then show ?l by (intro exI [of _ "x # w"] exI [of _ t]) simp
  qed
qed

lemma match_AnySegment:
  "match_pieces (AnySegment # ps) s \<longleftrightarrow> (\<exists>w t. s = w @ t \<and> CHR ''/'' \<notin> set w \<and> match_pieces ps t)"
proof (induction s)
  case (Cons x xs)
  show ?case unfolding split_prefix_Cons using Cons.IH by simp
qed simp

lemma match_AnyPath:
  "match_pieces (AnyPath # ps) s \<longleftrightarrow> (\<exists>w t. s = w @ t \<and> CHR 0x0A \<notin> set w \<and> match_pieces ps t)"
proof (induction s)
  case (Cons x xs)
  show ?case unfolding split_prefix_Cons using Cons.IH by simp
qed simp

lemma produces_AnySegment_iff:
  "produces (AnySegment # ps) s \<longleftrightarrow> (\<exists>w t. s = w @ t \<and> CHR ''/'' \<notin> set w \<and> produces ps t)"
  by (rule iffI, erule produces_AnySegmentE) (blast intro: produces_AnySegment)+

lemma produces_AnyPath_iff:
  "produces (AnyPath # ps) s \<longleftrightarrow> (\<exists>w t. s = w @ t \<and> CHR 0x0A \<notin> set w \<and> produces ps t)"
  by (rule iffI, erule produces_AnyPathE) (blast intro: produces_AnyPath)+

definition tolerated :: "piece list \<Rightarrow> string \<Rightarrow> bool" where
  \<comment> \<open>\<open>$\<close> matches at the end and before a final newline\<close>
  "tolerated ps s \<longleftrightarrow> produces ps s \<or> (\<exists>t. s = t @ [CHR 0x0A] \<and> produces ps t)"

lemma tolerated_wild:
  assumes "\<And>s. produces (q # ps) s \<longleftrightarrow> (\<exists>w t. s = w @ t \<and> c \<notin> set w \<and> produces ps t)"
  shows "tolerated (q # ps) s \<longleftrightarrow> (\<exists>w t. s = w @ t \<and> c \<notin> set w \<and> tolerated ps t)"
proof
  assume "tolerated (q # ps) s"
  then consider w t where "s = w @ t" "c \<notin> set w" "produces ps t"
    | w t where "s = (w @ t) @ [CHR 0x0A]" "c \<notin> set w" "produces ps t"
    unfolding tolerated_def assms by blast
  then show "\<exists>w t. s = w @ t \<and> c \<notin> set w \<and> tolerated ps t"
  proof cases
    case 1
    then show ?thesis by (auto simp: tolerated_def)
  next
    case 2
    then show ?thesis by (intro exI [of _ w] exI [of _ "t @ [CHR 0x0A]"]) (simp add: tolerated_def)
  qed
next
  assume "\<exists>w t. s = w @ t \<and> c \<notin> set w \<and> tolerated ps t"
  then obtain w t where w: "s = w @ t" "c \<notin> set w" "tolerated ps t" by blast
  then consider "produces ps t" | u where "t = u @ [CHR 0x0A]" "produces ps u" unfolding tolerated_def by blast
  then show "tolerated (q # ps) s"
  proof cases
    case 1
    with w show ?thesis unfolding tolerated_def assms by blast
  next
    case 2
    then have "s = (w @ u) @ [CHR 0x0A]" using w by simp
    with w 2 show ?thesis unfolding tolerated_def assms by blast
  qed
qed

lemma match_produces: "match_pieces ps s \<longleftrightarrow> tolerated ps s"
proof (induction ps arbitrary: s)
  case Nil
  show ?case by (auto simp: tolerated_def)
next
  case (Cons q ps)
  show ?case
  proof (cases q)
    case AnyPath
    then show ?thesis using tolerated_wild [OF produces_AnyPath_iff] by (simp only: match_AnyPath Cons.IH)
  next
    case AnySegment
    then show ?thesis using tolerated_wild [OF produces_AnySegment_iff] by (simp only: match_AnySegment Cons.IH)
  next
    case OneChar
    then show ?thesis by (cases s) (auto simp: Cons.IH tolerated_def Cons_eq_append_conv)
  next
    case (Lit c)
    then show ?thesis by (cases s) (auto simp: Cons.IH tolerated_def Cons_eq_append_conv)
  qed
qed

section \<open>Compiled patterns\<close>

lemma dot_newline: "(CHR ''/'' :: char) \<noteq> CHR 0x0A"
  by simp

lemma glob_pieces_literal [simp]:
  "c \<notin> {CHR ''*'', CHR ''?''} \<Longrightarrow> glob_pieces (c # cs) = Lit c # glob_pieces cs"
  by simp

lemma glob_pieces_append_literal:
  "list_all (\<lambda>c. c \<noteq> CHR ''*'' \<and> c \<noteq> CHR ''?'') p \<Longrightarrow> glob_pieces (p @ q) = map Lit p @ glob_pieces q"
  by (induction p) auto

definition slashes :: "string \<Rightarrow> nat" where
  "slashes s = length (filter (\<lambda>c. c = CHR ''/'') s)"

definition literal_slashes :: "piece list \<Rightarrow> nat" where
  "literal_slashes ps = length (filter (\<lambda>p. p = Lit CHR ''/'') ps)"

lemma produces_slashes:
  assumes "produces ps s" and "AnyPath \<notin> set ps"
  shows "slashes s = literal_slashes ps"
  using assms
proof (induction rule: produces.induct)
  case (produces_AnySegment ps s w)
  have "filter (\<lambda>c. c = CHR ''/'') w = []" using produces_AnySegment.hyps(2) by (auto simp: filter_empty_conv)
  with produces_AnySegment show ?case by (simp add: slashes_def literal_slashes_def)
qed (auto simp: slashes_def literal_slashes_def)

lemma match_slashes:
  assumes "match_pieces ps s" and "AnyPath \<notin> set ps"
  shows "slashes s = literal_slashes ps"
  using assms produces_slashes [of ps]
  by (auto simp: match_produces tolerated_def slashes_def)

fun single_stars :: "string \<Rightarrow> bool" where
  \<comment> \<open>no two adjacent stars\<close>
  "single_stars (c # d # cs) \<longleftrightarrow> \<not> (c = CHR ''*'' \<and> d = CHR ''*'') \<and> single_stars (d # cs)"
| "single_stars cs \<longleftrightarrow> True"

lemma single_stars_pieces:
  "single_stars cs \<Longrightarrow> AnyPath \<notin> set (glob_pieces cs) \<and> literal_slashes (glob_pieces cs) = slashes cs"
proof (induction cs rule: single_stars.induct)
  case (1 c d cs)
  then show ?case by (auto simp: literal_slashes_def slashes_def split: if_splits)
qed (auto simp: literal_slashes_def slashes_def)

lemma produces_literal: "produces (map Lit p) s \<longleftrightarrow> s = p"
  by (induction p arbitrary: s) (auto split: list.splits)

lemma produces_append: "produces ps s \<Longrightarrow> produces qs t \<Longrightarrow> produces (ps @ qs) (s @ t)"
proof (induction rule: produces.induct)
  case (produces_AnySegment ps s w)
  then show ?case using produces.produces_AnySegment [of "ps @ qs" "s @ t" w] by simp
next
  case (produces_AnyPath ps s w)
  then show ?case using produces.produces_AnyPath [of "ps @ qs" "s @ t" w] by simp
qed auto

definition cache_coherent :: "glob_cache \<Rightarrow> bool" where
  "cache_coherent c \<longleftrightarrow> (\<forall>p ps. dget c p = Some ps \<longrightarrow> ps = glob_pieces p)"

interpretation glob_cache: op_machine "\<lambda>c p. snd (glob_to_regex c p)" cache_coherent "[]"
  by unfold_locales (auto simp: cache_coherent_def glob_to_regex_def Let_def split: option.splits)

lemma cached_regex: "fst (glob_to_regex (foldl (\<lambda>c p. snd (glob_to_regex c p)) [] ops) p) = glob_pieces p"
  using glob_cache.inv_run [of ops] by (auto simp: cache_coherent_def glob_to_regex_def Let_def split: option.splits)

section \<open>Parsing\<close>

lemma join_words:
  "ws \<noteq> [] \<Longrightarrow> list_all (\<lambda>w. w \<noteq> [] \<and> list_all P w) ws \<Longrightarrow> P c \<Longrightarrow> list_all P (join [c] ws) \<and> join [c] ws \<noteq> []"
  by (induction "[c]" ws rule: join.induct) auto

definition format_rule :: "egress_rule \<Rightarrow> string" where
  "format_rule r = join '','' (methods r) @ '' '' @ host_pattern r @ path_pattern r"

definition rule_ok :: "egress_rule \<Rightarrow> bool" where
  \<comment> \<open>what the parser guarantees\<close>
  "rule_ok r \<longleftrightarrow> methods r \<noteq> [] \<and> distinct (methods r) \<and> set (methods r) \<subseteq> set valid_methods \<and>
     host_pattern r \<noteq> [] \<and> CHR ''/'' \<notin> set (host_pattern r) \<and> \<not> py_space (hd (host_pattern r)) \<and>
     starts_with (path_pattern r) ''/'' \<and> \<not> py_space (last (path_pattern r))"

lemma valid_method_facts:
  "m \<in> set valid_methods \<Longrightarrow> m \<noteq> [] \<and> CHR '','' \<notin> set m \<and> list_all (\<lambda>c. \<not> py_space c) m \<and> upper m = m"
  by (auto simp: valid_methods_def py_space_def upper_def upper_char_def)

lemma strip_id: "\<not> py_space (hd s) \<Longrightarrow> \<not> py_space (last s) \<Longrightarrow> strip s = s"
  by (simp add: strip_def lstrip_id rstrip_id)

lemma strip_word: "list_all (\<lambda>c. \<not> py_space c) s \<Longrightarrow> strip s = s"
  by (cases "s = []") (auto simp: strip_def lstrip_id rstrip_id list_all_iff)

lemma strip_ends: "strip s \<noteq> [] \<Longrightarrow> \<not> py_space (hd (strip s)) \<and> \<not> py_space (last (strip s))"
proof -
  assume ne: "strip s \<noteq> []"
  let ?l = "lstrip s"
  have hd: "?l = [] \<or> \<not> py_space (hd ?l)" unfolding lstrip_def using hd_dropWhile by blast
  obtain t where t: "?l = strip s @ t"
    unfolding strip_def rstrip_def by (metis rev_append rev_rev_ident takeWhile_dropWhile_id)
  have "last (strip s) = hd (dropWhile py_space (rev ?l))"
    using ne by (simp add: strip_def rstrip_def last_rev)
  moreover have "dropWhile py_space (rev ?l) \<noteq> []" using ne by (simp add: strip_def rstrip_def)
  ultimately have "\<not> py_space (last (strip s))" using hd_dropWhile by metis
  moreover have "hd (strip s) = hd ?l" using t ne by simp
  ultimately show ?thesis using hd t ne by auto
qed

lemma last_dropWhile: "dropWhile P s \<noteq> [] \<Longrightarrow> last (dropWhile P s) = last s"
  by (metis last_append takeWhile_dropWhile_id)

lemma parse_rule_ok:
  assumes "parse_rule s = Inr r"
  shows "rule_ok r"
proof -
  let ?s = "strip s"
  from assms have ne: "?s \<noteq> []" by (auto simp: parse_rule_def Let_def split: if_splits)
  from assms ne obtain ms url where parts: "split_first_blank ?s = [ms, url]"
    by (auto simp: parse_rule_def Let_def split: list.splits)
  let ?M = "map upper (map strip (split_on CHR '','' ms))"
  let ?h = "takeWhile (\<lambda>c. c \<noteq> CHR ''/'') url" and ?rest = "dropWhile (\<lambda>c. c \<noteq> CHR ''/'') url"
  let ?p = "if ?rest = [] then ''/**'' else ?rest"
  from parts have url: "url = lstrip (dropWhile (\<lambda>c. \<not> py_space c) (lstrip ?s))" "url \<noteq> []"
    by (auto simp: split_first_blank_def Let_def split: if_splits)
  have p: "starts_with ?p ''/''"
    using hd_dropWhile [of "\<lambda>c. c \<noteq> CHR ''/''" url] by (cases ?rest) (auto simp: starts_with_def)
  from assms ne parts p have r: "r = \<lparr>methods = remdups ?M, host_pattern = ?h, path_pattern = ?p\<rparr>"
    "?M \<noteq> []" "set ?M \<subseteq> set valid_methods" "?h \<noteq> []"
    by (auto simp: parse_rule_def Let_def list_ex_iff split: if_splits)
  have "url = lstrip (dropWhile (\<lambda>c. \<not> py_space c) ?s)" using url(1) strip_ends [OF ne] by (simp add: lstrip_id)
  then have "last url = last ?s"
    using url(2) last_dropWhile [of py_space] last_dropWhile [of "\<lambda>c. \<not> py_space c" ?s]
    unfolding lstrip_def by (metis dropWhile.simps(1))
  then have "\<not> py_space (last ?rest)" if "?rest \<noteq> []"
    using that strip_ends [OF ne] by (simp add: last_dropWhile)
  then have "\<not> py_space (last ?p)" by (simp add: py_space_def)
  moreover have "\<not> py_space (hd ?h)"
  proof -
    have "hd ?h = hd url" using r(4) by (cases url) (auto split: if_splits)
    moreover have "\<not> py_space (hd url)" using url hd_dropWhile [of py_space] unfolding lstrip_def by blast
    ultimately show ?thesis by simp
  qed
  moreover have "CHR ''/'' \<notin> set ?h" by (auto dest: set_takeWhileD)
  ultimately show ?thesis using r p by (simp add: rule_ok_def)
qed

lemma parse_format_rule:
  assumes "rule_ok r"
  shows "parse_rule (format_rule r) = Inr r"
proof -
  let ?M = "join '','' (methods r)" and ?H = "host_pattern r" and ?P = "path_pattern r"
  have ok: "methods r \<noteq> []" "distinct (methods r)" "set (methods r) \<subseteq> set valid_methods" "?H \<noteq> []" "CHR ''/'' \<notin> set ?H"
    "\<not> py_space (hd ?H)" "starts_with ?P ''/''" "\<not> py_space (last ?P)"
    using assms by (simp_all add: rule_ok_def)
  obtain q where P: "?P = CHR ''/'' # q" using ok(7) by (auto simp: starts_with_iff)
  have words: "m \<noteq> [] \<and> CHR '','' \<notin> set m \<and> list_all (\<lambda>c. \<not> py_space c) m \<and> upper m = m" if "m \<in> set (methods r)" for m
    using that ok(3) valid_method_facts by blast
  have M: "list_all (\<lambda>c. \<not> py_space c) ?M \<and> ?M \<noteq> []"
    using ok(1) words by (intro join_words) (auto simp: list_all_iff py_space_def)
  have strip: "strip (format_rule r) = format_rule r"
  proof (rule strip_id)
    show "\<not> py_space (hd (format_rule r))" using M by (cases ?M) (auto simp: format_rule_def)
    show "\<not> py_space (last (format_rule r))" using ok(8) P by (simp add: format_rule_def)
  qed
  have space: "py_space CHR '' ''" by (simp add: py_space_def)
  have "takeWhile (\<lambda>c. \<not> py_space c) (format_rule r) = ?M" "dropWhile (\<lambda>c. \<not> py_space c) (format_rule r) = '' '' @ ?H @ ?P"
    using M space by (simp_all add: format_rule_def list_all_iff)
  moreover have "lstrip (format_rule r) = format_rule r"
    using M by (cases ?M) (auto simp: format_rule_def lstrip_def)
  moreover have "lstrip ('' '' @ ?H @ ?P) = ?H @ ?P" using ok(4,6) space by (cases ?H) (auto simp: lstrip_def)
  ultimately have parts: "split_first_blank (format_rule r) = [?M, ?H @ ?P]"
    using M ok(4) by (simp add: split_first_blank_def)
  have split: "split_on CHR '','' ?M = methods r" using ok(1) words by (intro split_on_join) (auto simp: list_all_iff)
  have "map strip (methods r) = methods r" "map upper (methods r) = methods r"
    using words strip_word by (auto intro!: map_idI)
  moreover have "takeWhile (\<lambda>c. c \<noteq> CHR ''/'') (?H @ ?P) = ?H" "dropWhile (\<lambda>c. c \<noteq> CHR ''/'') (?H @ ?P) = ?P"
    using ok(5) P by (auto simp: takeWhile_append dropWhile_append)
  moreover have "format_rule r \<noteq> []" using ok(4) by (simp add: format_rule_def)
  moreover have "\<not> list_ex (\<lambda>m. m = []) (methods r)" "\<not> list_ex (\<lambda>m. m \<notin> set valid_methods) (methods r)"
    using words ok(3) by (auto simp: list_ex_iff)
  ultimately show ?thesis
    using ok P by (simp add: parse_rule_def strip parts split Let_def distinct_remdups_id)
qed

lemma parse_rules_ok: "parse_rules ss = Inr rs \<Longrightarrow> list_all rule_ok rs \<and> length rs = length ss"
  by (induction ss arbitrary: rs) (auto simp: bindR_Inr_iff parse_rule_ok)

lemma ends_with_dot: "ends_with h (CHR ''.'' # d) \<longleftrightarrow> (\<exists>sub. h = sub @ ''.'' @ d)"
  by (auto simp: ends_with_iff)

section \<open>Properties\<close>

definition dns_alphabet :: string where
  "dns_alphabet = ''ABCDEFGHIJKLMNOPQRSTUVWXYZabcdefghijklmnopqrstuvwxyz0123456789.-''"

lemma dns_codes: "map of_char dns_alphabet = [65..<91] @ [97..<123] @ [48..<58] @ [46, 45 :: nat]"
  by code_simp

lemma char_code_member: "c \<in> set xs \<longleftrightarrow> (of_char c :: nat) \<in> set (map of_char xs)"
  by (induction xs) auto

lemma dns_char_alphabet: "dns_char c \<longleftrightarrow> c \<in> set dns_alphabet"
  unfolding char_code_member dns_codes dns_char_def Let_def set_append set_upt by auto

lemma host_matches_domain:
  "host_matches r host \<longleftrightarrow> host \<noteq> [] \<and> set host \<subseteq> set dns_alphabet \<and>
     (let pattern = lower (host_pattern r)
      in if starts_with pattern ''*.'' then lower host = drop 2 pattern \<or> (\<exists>sub. lower host = sub @ ''.'' @ drop 2 pattern)
         else lower host = pattern)"
proof -
  have safe: "is_dns_safe_host host \<longleftrightarrow> host \<noteq> [] \<and> set host \<subseteq> set dns_alphabet"
    by (auto simp: is_dns_safe_host_def list_all_iff dns_char_alphabet)
  show ?thesis
  proof (cases "starts_with (lower (host_pattern r)) ''*.''")
    case True
    then obtain d where "lower (host_pattern r) = CHR ''*'' # CHR ''.'' # d" by (auto simp: starts_with_iff)
    then show ?thesis by (auto simp: host_matches_def Let_def ends_with_dot starts_with_def safe)
  next
    case False
    then show ?thesis by (auto simp: host_matches_def Let_def safe)
  qed
qed

text \<open>
  C36: the egress rules admit exactly the hosts they name. A host passes when it is not empty, is
  made of ASCII letters, digits, dots and hyphens only (so nothing that carries a NUL, a percent sign,
  white space, a newline or an authority delimiter), and some rule names it, compared without case: an
  exact rule its own host, a wildcard rule \<open>*.d\<close> the domain \<open>d\<close> and the names ending in a dot and
  \<open>d\<close>, never \<open>evild\<close>.
\<close>

theorem host_rule_admits_exactly_its_domain:
  "check_host rules host \<longleftrightarrow>
     host \<noteq> [] \<and> set host \<subseteq> set ''ABCDEFGHIJKLMNOPQRSTUVWXYZabcdefghijklmnopqrstuvwxyz0123456789.-'' \<and>
     (\<exists>r \<in> set rules.
        let pattern = lower (host_pattern r)
        in if starts_with pattern ''*.'' then lower host = drop 2 pattern \<or> (\<exists>sub. lower host = sub @ ''.'' @ drop 2 pattern)
           else lower host = pattern)"
  unfolding check_host_def list_ex_iff host_matches_domain dns_alphabet_def by blast

text \<open>
  the parser accepts only well-formed rules (known methods without repetition, a non-empty host
  without a slash, a path that starts with one) and reads back what such a rule prints.
\<close>

theorem parsed_rules_round_trip:
  assumes "parse_rule s = Inr r"
  shows "rule_ok r \<and> parse_rule (format_rule r) = Inr r"
  using parse_rule_ok [OF assms] parse_format_rule by blast

theorem parsed_rules_round_trip_witness:
  "rule_ok \<lparr>methods = [''GET'', ''POST''], host_pattern = ''h.co'', path_pattern = ''/**''\<rparr>"
proof -
  have "parse_rule '' get,POST,Get  h.co'' = Inr \<lparr>methods = [''POST'', ''GET''], host_pattern = ''h.co'', path_pattern = ''/**''\<rparr>"
    by code_simp
  from parsed_rules_round_trip [OF this] show ?thesis by (auto simp: rule_ok_def)
qed

text \<open>
  a single star stays within one segment: a path admitted by a pattern without \<open>**\<close> has exactly
  as many slashes as the pattern.
\<close>

theorem single_star_never_crosses_a_slash:
  assumes "single_stars (path_pattern r)" and "path_matches r path" and "starts_with path ''/''"
  shows "slashes path = slashes (path_pattern r)"
  using assms single_stars_pieces [OF assms(1)] match_slashes [of "glob_pieces (path_pattern r)" path]
  by (simp add: path_matches_def glob_match_def)

theorem single_star_never_crosses_a_slash_witness:
  "slashes ''/repos/org/x'' = slashes ''/repos/*/x''"
proof -
  have "single_stars (path_pattern \<lparr>methods = [''*''], host_pattern = ''h'', path_pattern = ''/repos/*/x''\<rparr>)"
    "path_matches \<lparr>methods = [''*''], host_pattern = ''h'', path_pattern = ''/repos/*/x''\<rparr> ''/repos/org/x''"
    "starts_with ''/repos/org/x'' ''/''"
    by code_simp+
  from single_star_never_crosses_a_slash [OF this] show ?thesis by simp
qed

text \<open>
  a double star before a slash swallows that slash, so \<open>p**/q\<close> admits any text between \<open>p\<close> and
  \<open>q\<close>, not only whole segments: \<open>/a/**/b\<close> admits \<open>/a/xb\<close>.
\<close>

theorem double_star_slash_ignores_the_boundary:
  assumes "list_all (\<lambda>c. c \<noteq> CHR ''*'' \<and> c \<noteq> CHR ''?'') p" and "list_all (\<lambda>c. c \<noteq> CHR ''*'' \<and> c \<noteq> CHR ''?'') q"
  shows "glob_match (p @ ''**/'' @ q) s \<longleftrightarrow> (\<exists>w. (s = p @ w @ q \<or> s = p @ w @ q @ [CHR 0x0A]) \<and> CHR 0x0A \<notin> set w)"
proof -
  have "glob_pieces (p @ ''**/'' @ q) = map Lit p @ AnyPath # map Lit q"
    using glob_pieces_append_literal [OF assms(1), of "''**/'' @ q"] glob_pieces_append_literal [OF assms(2), of "[]"] by simp
  moreover have "produces (map Lit p @ AnyPath # map Lit q) t \<longleftrightarrow> (\<exists>w. t = p @ w @ q \<and> CHR 0x0A \<notin> set w)" for t
  proof (induction p arbitrary: t)
    case Nil
    then show ?case by (auto simp: produces_AnyPath_iff produces_literal)
  qed auto
  ultimately show ?thesis by (auto simp: glob_match_def match_produces tolerated_def)
qed

theorem double_star_slash_ignores_the_boundary_witness:
  "glob_match ''/a/**/b'' ''/a/xb''"
proof -
  have "list_all (\<lambda>c. c \<noteq> CHR ''*'' \<and> c \<noteq> CHR ''?'') ''/a/''" "list_all (\<lambda>c. c \<noteq> CHR ''*'' \<and> c \<noteq> CHR ''?'') ''b''" by simp_all
  from double_star_slash_ignores_the_boundary [OF this, of "''/a/xb''"] show ?thesis by simp
qed

end
