(* ===== verification/Builtin_Safety.thy ===== *)
theory Builtin_Safety
  imports Policy_Session Egress_Rules
begin

text \<open>
  The safety policies of \<^verbatim>\<open>codify/policies/builtins/safety.py\<close> and the risk score of
  \<^verbatim>\<open>codify/policies/builtins/risk_score.py\<close>: each policy is a callable of the event. The hash of a call,
  the regular expressions for personal data, \<open>json.loads\<close> and the \<open>repr\<close> and \<open>str\<close> of values that are not
  strings are arguments. Characters above 255 are written in UTF-8.
\<close>

section \<open>Responses\<close>

definition deny_response :: "string \<Rightarrow> raw" where
  "deny_response reason = RawDict [(''result'', PStr ''DENY''), (''reason'', PStr reason)]"

definition ask_response :: "string \<Rightarrow> raw" where
  "ask_response reason = RawDict [(''result'', PStr ''ASK''), (''reason'', PStr reason)]"

definition counter_value :: "pyval option \<Rightarrow> int res" where
  \<comment> \<open>\<open>int(v) if isinstance(v, int | float | str) else 0\<close>, 0 for an absent key\<close>
  "counter_value v =
     (case v of
        None \<Rightarrow> Inr 0
      | Some x \<Rightarrow> (case x of PNone \<Rightarrow> Inr 0 | PList _ \<Rightarrow> Inr 0 | PDict _ \<Rightarrow> Inr 0 | _ \<Rightarrow> py_int x))"

definition increment :: "string \<Rightarrow> int \<Rightarrow> raw" where
  "increment key points = RawDict [(''result'', PStr ''ALLOW''), (''state_updates'', PList [entry_value key ''increment'' (PInt points)])]"

section \<open>Limits and loops\<close>

definition tool_call_count_key :: string where "tool_call_count_key = ''_policy_tool_call_count''"

definition max_tool_calls_per_session :: "int \<Rightarrow> 'c callable" where
  "max_tool_calls_per_session limit ev =
     (if ev_type ev \<noteq> ''tool_call'' then Inr allow_response
      else bindR (counter_value (dget (ev_session_state ev) tool_call_count_key)) (\<lambda>n.
        if limit \<le> n then Inr (deny_response (''Exceeded '' @ show_int limit @ '' tool calls this session''))
        else Inr (increment tool_call_count_key 1)))"

definition loop_state_key :: string where "loop_state_key = ''_policy_loop_recent_hashes''"

fun string_items :: "pyval option \<Rightarrow> string list" where
  "string_items (Some (PList xs)) = List.map_filter (\<lambda>x. case x of PStr s \<Rightarrow> Some s | _ \<Rightarrow> None) xs"
| "string_items _ = []"

definition last_n :: "nat \<Rightarrow> 'a list \<Rightarrow> 'a list" where
  \<comment> \<open>\<open>xs[-n:]\<close> for a positive \<open>n\<close>\<close>
  "last_n n xs = drop (length xs - n) xs"

definition detect_loop :: "(pyval \<Rightarrow> string) \<Rightarrow> (pyval \<Rightarrow> pyval \<Rightarrow> string) \<Rightarrow> int \<Rightarrow> int \<Rightarrow> 'c callable" where
  \<comment> \<open>\<open>hash\<close> is \<open>_args_hash\<close> of the tool and its arguments\<close>
  "detect_loop other hash window threshold ev =
     (let window = max 1 window; threshold = max 1 threshold
      in if ev_type ev \<noteq> ''tool_call'' then Inr allow_response
         else case ev_data ev of
           PDict data \<Rightarrow>
             (let tool_name = (case dget data ''name'' of None \<Rightarrow> PStr [] | Some v \<Rightarrow> v);
                  arguments = (case dget data ''arguments'' of None \<Rightarrow> PDict [] | Some v \<Rightarrow> v);
                  h = hash tool_name arguments;
                  recent = last_n (nat window) (string_items (dget (ev_session_state ev) loop_state_key) @ [h]);
                  seen = count_list recent h;
                  updates = (''state_updates'', PList [entry_value loop_state_key ''set'' (PList (map PStr recent))])
              in if threshold \<le> int seen
                 then Inr (RawDict [(''result'', PStr ''ASK''),
                        (''reason'', PStr (''The agent appears stuck in a retry loop '' @ [CHR 0xE2, CHR 0x80, CHR 0x94] @ '' tool '' @
                           [CHR 0x27] @ py_str other tool_name @ [CHR 0x27] @ '' called with identical arguments '' @ show_nat seen @ '' times in the last '' @
                           show_nat (length recent) @ '' calls.'')), updates])
                 else Inr (RawDict [(''result'', PStr ''ALLOW''), updates]))
         | _ \<Rightarrow> Inr allow_response)"

section \<open>Approvals\<close>

definition all_os_tools :: "string list" where
  "all_os_tools =
     [''sys_os_read'', ''sys_os_write'', ''sys_os_edit'', ''sys_os_shell'',
      ''Bash'', ''Read'', ''Write'', ''Edit'', ''Glob'', ''Grep'', ''Shell'', ''read'', ''bash'', ''write'', ''edit'',
      ''terminal'', ''execute_code'', ''read_file'', ''write_file'', ''search_files'',
      ''developer__shell'', ''developer__write'', ''developer__edit'', ''developer__text_editor'', ''developer__read_image'',
      ''developer__tree'', ''grep'', ''glob'']"

definition get_str :: "(string, pyval) pydict \<Rightarrow> string \<Rightarrow> pyval" where
  \<comment> \<open>\<open>d.get(key, "")\<close>\<close>
  "get_str d k = (case dget d k of None \<Rightarrow> PStr [] | Some v \<Rightarrow> v)"

definition tool_preview :: "string \<Rightarrow> (string, pyval) pydict \<Rightarrow> pyval res" where
  "tool_preview tool args =
     (if tool \<in> {''sys_os_shell'', ''Bash'', ''bash'', ''Shell'', ''terminal'', ''developer__shell''} then Inr (get_str args ''command'')
      else if tool \<in> {''Grep'', ''Glob'', ''search_files'', ''grep'', ''glob''} then Inr (get_str args ''pattern'')
      else if tool = ''execute_code'' then
        (case get_str args ''code'' of
           PStr s \<Rightarrow> Inr (PStr (take 80 s))
         | PList xs \<Rightarrow> Inr (PList (take 80 xs))
         | v \<Rightarrow> Inl (TypeError (''object is not subscriptable: '' @ type_name v)))
      else (case dget args ''path'' of
              Some v \<Rightarrow> if py_truth v then Inr v else Inr (get_str args ''file_path'')
            | None \<Rightarrow> Inr (get_str args ''file_path'')))"

definition ask_on_os_tools :: "(pyval \<Rightarrow> string) \<Rightarrow> 'c callable" where
  \<comment> \<open>\<open>rep\<close> is \<open>repr\<close>\<close>
  "ask_on_os_tools rep ev =
     (if ev_type ev \<noteq> ''tool_call'' then Inr allow_response
      else case ev_data ev of
        PDict data \<Rightarrow>
          (case get_str data ''name'' of
             PStr tool \<Rightarrow>
               if tool \<in> set all_os_tools
               then bindR (case dget data ''arguments'' of
                             None \<Rightarrow> tool_preview tool []
                           | Some (PDict args) \<Rightarrow> tool_preview tool args
                           | Some _ \<Rightarrow> Inr (PStr [])) (\<lambda>preview.
                      Inr (ask_response (''Agent wants to call '' @ tool @ ''('' @ rep preview @ ''). Approve?'')))
               else Inr allow_response
           | PList _ \<Rightarrow> Inl (TypeError ''unhashable type: list'')
           | PDict _ \<Rightarrow> Inl (TypeError ''unhashable type: dict'')
           | _ \<Rightarrow> Inr allow_response)
      | _ \<Rightarrow> Inr allow_response)"

definition ask_on_add_policy :: "(pyval \<Rightarrow> string) \<Rightarrow> 'c callable" where
  "ask_on_add_policy other ev =
     (if ev_type ev \<noteq> ''tool_call'' then Inr allow_response
      else case ev_data ev of
        PDict data \<Rightarrow>
          (if dget data ''name'' \<noteq> Some (PStr ''sys_add_policy'') then Inr allow_response
           else
             (let preview = (case dget data ''arguments'' of
                    Some (PDict args) \<Rightarrow>
                      (let policy = get_str args ''name''; handler = get_str args ''handler''
                       in if py_truth handler then py_str other policy @ '' ('' @ py_str other handler @ '')'' else py_str other policy)
                  | _ \<Rightarrow> [])
              in Inr (ask_response (''Agent wants to add policy: '' @ preview @ ''. Approve?''))))
      | _ \<Rightarrow> Inr allow_response)"

section \<open>Skills\<close>

definition blocked_name :: "string list \<Rightarrow> pyval option \<Rightarrow> string option res" where
  \<comment> \<open>\<open>skill_name and skill_name.lower() in blocked_lower\<close>, with the name\<close>
  "blocked_name blocked v =
     (case v of
        None \<Rightarrow> Inr None
      | Some x \<Rightarrow>
          if \<not> py_truth x then Inr None
          else case x of
                 PStr s \<Rightarrow> Inr (if lower s \<in> set (map lower blocked) then Some s else None)
               | _ \<Rightarrow> Inl (OtherError ([CHR 0x27] @ type_name x @ [CHR 0x27] @ '' object has no attribute 'lower'')))"

definition skill_response :: "string option \<Rightarrow> raw" where
  "skill_response v =
     (case v of None \<Rightarrow> allow_response | Some s \<Rightarrow> deny_response (''Skill '' @ [CHR 0x27] @ s @ [CHR 0x27] @ '' is blocked by policy''))"

definition slash_command :: "string \<Rightarrow> string" where
  \<comment> \<open>the first word after the slash\<close>
  "slash_command t = takeWhile (\<lambda>c. \<not> py_space c) (lstrip (drop 1 t))"

definition block_skills :: "string list \<Rightarrow> 'c callable" where
  "block_skills blocked ev =
     (if ev_type ev = ''tool_call'' then
        (case ev_data ev of
           PDict data \<Rightarrow>
             (case dget data ''arguments'' of
                Some (PDict args) \<Rightarrow>
                  (case get_str data ''name'' of
                     PStr tool \<Rightarrow>
                       if tool \<in> {''load_skill'', ''read_skill_file''} then
                         bindR (blocked_name blocked (dget args (if tool = ''load_skill'' then ''name'' else ''skill_name''))) (\<lambda>r.
                           Inr (skill_response r))
                       else if tool = ''Skill'' then bindR (blocked_name blocked (dget args ''skill'')) (\<lambda>r. Inr (skill_response r))
                       else Inr allow_response
                   | PList _ \<Rightarrow> Inl (TypeError ''unhashable type: list'')
                   | PDict _ \<Rightarrow> Inl (TypeError ''unhashable type: dict'')
                   | _ \<Rightarrow> Inr allow_response)
              | _ \<Rightarrow> Inr allow_response)
         | _ \<Rightarrow> Inr allow_response)
      else if ev_type ev = ''request'' then
        (let t = request_user_text (ev_data ev)
         in if starts_with t ''/'' \<and> lower (slash_command t) \<in> set (map lower blocked)
            then Inr (skill_response (Some (slash_command t))) else Inr allow_response)
      else Inr allow_response)"

section \<open>Sandboxes\<close>

definition sandbox_override_keys :: "string list" where
  "sandbox_override_keys =
     [''type'', ''read_paths'', ''write_paths'', ''write_files'', ''allow_network'', ''cwd_allow_hidden'', ''env_passthrough'',
      ''egress_rules'', ''egress_allow_private_destinations'', ''cwd_hidden_scan_max_entries'', ''cwd_hidden_scan_overflow'']"

definition sandbox_override ::
  "string \<Rightarrow> bool \<Rightarrow> string list option \<Rightarrow> string list option \<Rightarrow> string list option \<Rightarrow> (string, pyval) pydict" where
  "sandbox_override sandbox_type allow_network write_paths read_paths env_passthrough =
     [(''type'', PStr sandbox_type), (''allow_network'', PBool allow_network)]
     @ (case write_paths of None \<Rightarrow> [] | Some ps \<Rightarrow> [(''write_paths'', PList (map PStr ps))])
     @ (case read_paths of None \<Rightarrow> [] | Some ps \<Rightarrow> [(''read_paths'', PList (map PStr ps))])
     @ (case env_passthrough of None \<Rightarrow> [] | Some ps \<Rightarrow> [(''env_passthrough'', PList (map PStr ps))])"

definition forced_sandbox :: "(string, pyval) pydict \<Rightarrow> (string, pyval) pydict \<Rightarrow> (string, pyval) pydict" where
  "forced_sandbox override current = filter (\<lambda>(k, v). k \<in> set sandbox_override_keys) (dupdate current override)"

definition enforce_sandbox :: "(string, pyval) pydict \<Rightarrow> 'c callable" where
  "enforce_sandbox override ev =
     (if ev_type ev \<noteq> ''tool_call'' then Inr allow_response
      else case ev_data ev of
        PDict data \<Rightarrow>
          (if get_str data ''name'' \<noteq> PStr ''sys_agent_start'' then Inr allow_response
           else
             (let args = (case dget data ''arguments'' of Some (PDict d) \<Rightarrow> d | _ \<Rightarrow> []);
                  current = (case dget args ''sandbox'' of Some (PDict d) \<Rightarrow> d | _ \<Rightarrow> [])
              in Inr (RawDict [(''result'', PStr ''ALLOW''),
                   (''data'', PDict [(''name'', PStr ''sys_agent_start''),
                      (''arguments'', PDict (dset ''sandbox'' (PDict (forced_sandbox override current)) args))])])))
      | _ \<Rightarrow> Inr allow_response)"

section \<open>Personal data\<close>

definition pii_categories :: "string list" where
  "pii_categories = [''ssn'', ''credit_card'', ''email'', ''phone'']"

definition pii_label :: "string \<Rightarrow> string" where
  "pii_label c =
     (if c = ''ssn'' then ''Social Security Number (US)'' else if c = ''credit_card'' then ''Credit Card Number''
      else if c = ''email'' then ''Email Address'' else if c = ''phone'' then ''Phone Number'' else c)"

definition pii_selected :: "string list option \<Rightarrow> string list" where
  "pii_selected types =
     (case types of
        None \<Rightarrow> pii_categories
      | Some ts \<Rightarrow> if ts = [] then pii_categories else filter (\<lambda>c. c \<in> set ts) pii_categories)"

fun scan_text :: "(string \<Rightarrow> string \<Rightarrow> string option) \<Rightarrow> string list \<Rightarrow> string \<Rightarrow> (string \<times> string) option" where
  \<comment> \<open>\<open>search c t\<close> is the match of the pattern of a category; the category found with its match\<close>
  "scan_text search [] t = None"
| "scan_text search (c # cs) t = (case search c t of Some m \<Rightarrow> Some (c, m) | None \<Rightarrow> scan_text search cs t)"

definition pii_response :: "string \<Rightarrow> (string \<times> string) option \<Rightarrow> raw" where
  "pii_response act found =
     (case found of
        None \<Rightarrow> allow_response
      | Some (c, m) \<Rightarrow>
          (let reason = ''PII detected ('' @ pii_label c @ ''): '' @ [CHR 0x27] @ take 20 m @ ''...'' @ [CHR 0x27]
           in if act = ''ASK'' then ask_response reason else deny_response reason))"

fun first_found :: "(string \<times> string) option list \<Rightarrow> (string \<times> string) option" where
  "first_found [] = None"
| "first_found (r # rs) = (case r of Some x \<Rightarrow> Some x | None \<Rightarrow> first_found rs)"

definition scanned_texts :: "'c policy_event \<Rightarrow> string list" where
  \<comment> \<open>the texts that are searched, in order\<close>
  "scanned_texts ev =
     (if ev_type ev = ''request'' then
        request_user_text (ev_data ev) #
        List.map_filter (\<lambda>a. case get_str a ''text'' of PStr t \<Rightarrow> if t = [] then None else Some t | _ \<Rightarrow> None) (request_attachments (ev_data ev))
      else if ev_type ev = ''llm_request'' then
        (case ev_data ev of
           PDict data \<Rightarrow>
             List.map_filter (\<lambda>f. case get_str data f of PStr t \<Rightarrow> if t = [] then None else Some t | _ \<Rightarrow> None)
               [''system_prompt_preview'', ''last_user_message'']
         | _ \<Rightarrow> [])
      else [])"

definition deny_pii_in_llm_request :: "(string \<Rightarrow> string \<Rightarrow> string option) \<Rightarrow> string list option \<Rightarrow> string \<Rightarrow> 'c callable" where
  "deny_pii_in_llm_request search types act ev =
     Inr (pii_response act (first_found (map (scan_text search (pii_selected types)) (scanned_texts ev))))"

section \<open>The risk score\<close>

record risk_cfg =
  rc_threshold :: int
  rc_tool_points :: "(string, int) pydict"
  rc_sensitive_labels :: "(string, int) pydict"
  rc_guarded_tools :: "string list"
  rc_escalate_action :: string
  rc_initial_scores :: "(string, int) pydict"
  rc_state_key :: string
  rc_label_keys :: "string list"
  rc_reason :: string

definition tool_matches :: "string \<Rightarrow> string \<Rightarrow> bool" where
  "tool_matches raw_tool name \<longleftrightarrow> raw_tool = name \<or> ends_with raw_tool (''__'' @ name)"

definition points_for_tool :: "string \<Rightarrow> (string, int) pydict \<Rightarrow> int" where
  "points_for_tool raw_tool points = sum_list (map snd (filter (\<lambda>(name, n). tool_matches raw_tool name) points))"

definition is_guarded :: "string \<Rightarrow> string list \<Rightarrow> bool" where
  "is_guarded raw_tool guarded \<longleftrightarrow> list_ex (tool_matches raw_tool) guarded"

definition parse_result_payload :: "(string \<Rightarrow> pyval option) \<Rightarrow> pyval \<Rightarrow> pyval" where
  "parse_result_payload loads data =
     (let inner = (case data of PDict d \<Rightarrow> (case dget d ''result'' of Some v \<Rightarrow> v | None \<Rightarrow> data) | _ \<Rightarrow> data)
      in case inner of PStr t \<Rightarrow> (case loads t of Some v \<Rightarrow> v | None \<Rightarrow> inner) | _ \<Rightarrow> inner)"

fun collect_labels :: "string list \<Rightarrow> nat \<Rightarrow> pyval \<Rightarrow> string list" where
  "collect_labels keys 0 payload = []"
| "collect_labels keys (Suc n) (PDict d) =
     concat (map (\<lambda>(k, v).
       (case v of PStr t \<Rightarrow> if k \<in> set keys \<and> strip t \<noteq> [] then [lower (strip t)] else [] | _ \<Rightarrow> []) @ collect_labels keys n v) d)"
| "collect_labels keys (Suc n) (PList xs) = concat (map (collect_labels keys n) xs)"
| "collect_labels keys (Suc n) _ = []"

definition max_result_scan_depth :: nat where "max_result_scan_depth = 20"

definition current_score :: "risk_cfg \<Rightarrow> 'c policy_event \<Rightarrow> int res" where
  "current_score cfg ev =
     bindR (counter_value (dget (ev_session_state ev) (rc_state_key cfg))) (\<lambda>accumulated.
       let run_as = (case dget (vc_actor (ev_context ev)) ''run_as'' of None \<Rightarrow> [] | Some u \<Rightarrow> u);
           actor_offset = (case dget (rc_initial_scores cfg) run_as of None \<Rightarrow> 0 | Some n \<Rightarrow> n)
       in Inr (actor_offset + accumulated))"

definition escalation :: "risk_cfg \<Rightarrow> int \<Rightarrow> string \<Rightarrow> raw" where
  "escalation cfg score tool =
     RawDict [(''result'', PStr (rc_escalate_action cfg)),
              (''reason'', PStr (rc_reason cfg @ '' Session risk score '' @ show_int score @ '' '' @ [CHR 0xE2, CHR 0x89, CHR 0xA5] @
                 '' threshold '' @ show_int (rc_threshold cfg) @ ''; '' @ tool @ '' requires review.''))]"

definition accrue :: "risk_cfg \<Rightarrow> string \<Rightarrow> raw" where
  "accrue cfg tool =
     (let points = points_for_tool tool (rc_tool_points cfg) in if 0 < points then increment (rc_state_key cfg) points else RawNone)"

definition decide_tool_call :: "risk_cfg \<Rightarrow> 'c callable" where
  "decide_tool_call cfg ev =
     (case ev_data ev of
        PDict data \<Rightarrow>
          (let v = get_str data ''name''
           in if \<not> py_truth v then Inr RawNone
              else case v of
                PStr tool \<Rightarrow>
                  if is_guarded tool (rc_guarded_tools cfg)
                  then bindR (current_score cfg ev) (\<lambda>score.
                         Inr (if rc_threshold cfg \<le> score then escalation cfg score tool else accrue cfg tool))
                  else Inr (accrue cfg tool)
              | _ \<Rightarrow> if rc_guarded_tools cfg = [] \<and> rc_tool_points cfg = [] then Inr RawNone
                     else Inl (OtherError ([CHR 0x27] @ type_name v @ [CHR 0x27] @ '' object has no attribute 'endswith'')))
      | _ \<Rightarrow> Inr RawNone)"

definition decide_tool_result :: "(string \<Rightarrow> pyval option) \<Rightarrow> risk_cfg \<Rightarrow> 'c callable" where
  "decide_tool_result loads cfg ev =
     (if rc_sensitive_labels cfg = [] then Inr RawNone
      else
        (let labels = collect_labels (rc_label_keys cfg) max_result_scan_depth (parse_result_payload loads (ev_data ev));
             matched = List.map_filter (dget (rc_sensitive_labels cfg)) labels
         in Inr (if matched = [] then RawNone else increment (rc_state_key cfg) (Max (set matched)))))"

definition default_label_keys :: "string list" where
  "default_label_keys = [''label_classification'', ''classification'', ''sensitivity'', ''sensitivity_label'', ''dlp_label'']"

definition make_risk_cfg ::
  "int \<Rightarrow> (string, int) pydict \<Rightarrow> (string, int) pydict \<Rightarrow> string list \<Rightarrow> string \<Rightarrow> (string, int) pydict \<Rightarrow> string \<Rightarrow>
   string list option \<Rightarrow> string \<Rightarrow> risk_cfg res" where
  "make_risk_cfg threshold tool_points sensitive_labels guarded_tools escalate_action initial_scores state_key label_keys reason =
     (let normalized = upper (strip escalate_action)
      in if normalized \<notin> {''ASK'', ''DENY''} then Inl (ValueError ''risk_score_policy: escalate_action'')
         else Inr \<lparr>rc_threshold = threshold, rc_tool_points = tool_points,
                   rc_sensitive_labels = foldl (\<lambda>d (k, v). dset (lower (strip k)) v d) [] sensitive_labels,
                   rc_guarded_tools = guarded_tools, rc_escalate_action = normalized, rc_initial_scores = initial_scores,
                   rc_state_key = state_key,
                   rc_label_keys = (case label_keys of None \<Rightarrow> default_label_keys | Some ks \<Rightarrow> ks), rc_reason = reason\<rparr>)"

definition risk_score_policy :: "(string \<Rightarrow> pyval option) \<Rightarrow> risk_cfg \<Rightarrow> 'c callable" where
  "risk_score_policy loads cfg ev =
     (if ev_type ev = ''tool_call'' then decide_tool_call cfg ev
      else if ev_type ev = ''tool_result'' then decide_tool_result loads cfg ev
      else Inr RawNone)"

end
