(* ===== verification/Builtin_Safety_Props.thy ===== *)
theory Builtin_Safety_Props
  imports Builtin_Safety
begin

text \<open>
  What the safety policies guarantee when they are composed with other policies in an engine and the
  session goes on: limits hold, scores accumulate, sandboxes are forced.
\<close>

section \<open>Readings of the responses\<close>

lemma coerce_deny [simp]: "coerce_to_policy_result other name (deny_response reason) = Inr (verdict DENY (Some reason) [])"
  unfolding deny_response_def by (rule coerce_response(1) [where es = "[]" and us = "[]"]) simp_all

lemma coerce_ask [simp]: "coerce_to_policy_result other name (ask_response reason) = Inr (verdict ASK (Some reason) [])"
  unfolding ask_response_def by (rule coerce_response(1) [where es = "[]" and us = "[]"]) simp_all

lemma coerce_increment [simp]:
  "coerce_to_policy_result other name (increment k n) = Inr (verdict ALLOW None [\<lparr>su_key = k, su_action = INCREMENT, su_value = PInt n\<rparr>])"
  unfolding increment_def by (rule coerce_response(3)) simp_all

definition counts :: "int \<Rightarrow> pyval option \<Rightarrow> bool" where
  \<comment> \<open>the value of a counter\<close>
  "counts n v \<longleftrightarrow> v = Some (PInt n) \<or> v = None \<and> n = 0"

lemma counter_counts [simp]: "counts n v \<Longrightarrow> counter_value v = Inr n"
  by (auto simp: counts_def counter_value_def)

lemma key_after_increment:
  "counts n v \<Longrightarrow> key_after \<lparr>su_key = k, su_action = INCREMENT, su_value = PInt m\<rparr> v = Inr (Some (PInt (n + m)))"
  by (auto simp: counts_def key_after_def apply_one_def split: option.split)

lemma take_one: "take n [x] = (if n = 0 then [] else [x])"
  by (cases n) simp_all

section \<open>The limit of tool calls\<close>

lemma limit_answer:
  assumes "snd (pol_state p) = max_tool_calls_per_session limit" and "counts n (dget (e_session_state eng) tool_call_count_key)"
  shows "snd (answer (evaluate_function other) ec (inject eng ctx) p d) =
    (if cx_phase ctx \<noteq> TOOL_CALL then allowed
     else if limit \<le> n then verdict DENY (Some (''Exceeded '' @ show_int limit @ '' tool calls this session'')) []
     else verdict ALLOW None [\<lparr>su_key = tool_call_count_key, su_action = INCREMENT, su_value = PInt 1\<rparr>])"
  using assms by (simp add: answer_result max_tool_calls_per_session_def)

lemma limit_step:
  assumes eng: "e_policies eng = qs @ p # ps" and p: "snd (pol_state p) = max_tool_calls_per_session limit" "unconditional (pol_spec p)"
    and others: "\<And>q. q \<in> set qs \<union> set ps \<Longrightarrow> leaves_key tool_call_count_key other q"
    and n: "counts n (dget (e_session_state eng) tool_call_count_key)" and att: "attempt day other loads act eng = (ok, eng')"
  obtains m where "counts m (dget (e_session_state eng') tool_call_count_key)" "e_policies eng' = e_policies eng" "n \<le> m"
    "ok \<and> cx_phase (fst act) = TOOL_CALL \<longrightarrow> n < limit \<and> m = n + 1" "m \<le> n \<or> n < limit \<and> m = n + 1"
proof -
  have K: "\<not> reserved eng tool_call_count_key"
    by (simp add: reserved_def tool_call_count_key_def USER_DAILY_ASK_APPROVED_STATE_KEY_def SESSION_COST_ASK_APPROVED_STATE_KEY_def
        SESSION_COST_UNPRICED_APPROVED_KEY_def)
  note answer = limit_answer [OF p(1) n, of other "context_of eng" "fst act"]
  obtain us k where step: "e_policies eng' = e_policies eng"
    "us = [] \<or> should_fire (e_labels eng) (pol_spec p) (fst act) \<and>
       (\<exists>d. may_see (evaluate_function other) (context_of eng) (inject eng (fst act)) qs d \<and>
          us = updates_of (snd (answer (evaluate_function other) (context_of eng) (inject eng (fst act)) p d)))"
    "key_afters (take k (on_key tool_call_count_key us)) (dget (e_session_state eng) tool_call_count_key) =
       Inr (dget (e_session_state eng') tool_call_count_key)"
    "ok \<longrightarrow> k = length (on_key tool_call_count_key us)"
    "ok \<longrightarrow> should_fire (e_labels eng) (pol_spec p) (fst act) \<longrightarrow>
       (\<exists>d. may_see (evaluate_function other) (context_of eng) (inject eng (fst act)) qs d \<and>
          us = updates_of (snd (answer (evaluate_function other) (context_of eng) (inject eng (fst act)) p d)) \<and>
          r_action (snd (answer (evaluate_function other) (context_of eng) (inject eng (fst act)) p d)) \<noteq> DENY \<and>
          (\<not> accepted loads (snd act) \<longrightarrow> r_action (snd (answer (evaluate_function other) (context_of eng) (inject eng (fst act)) p d)) = ALLOW))"
    by (rule attempt_key [OF eng others K att refl refl])
  let ?inc = "\<lparr>su_key = tool_call_count_key, su_action = INCREMENT, su_value = PInt 1\<rparr>"
  have us: "us = [] \<or> n < limit \<and> us = [?inc]" using step(2) unfolding answer by (auto simp: allowed_verdict split: if_splits)
  show ?thesis
  proof (cases "take k (on_key tool_call_count_key us) = []")
    case True
    then have "dget (e_session_state eng') tool_call_count_key = dget (e_session_state eng) tool_call_count_key"
      using step(3) unfolding True by simp
    moreover have "\<not> (ok \<and> cx_phase (fst act) = TOOL_CALL)"
      using step(4,5) p(2) True unfolding answer by (auto split: if_splits)
    ultimately show ?thesis using n step(1) by (intro that [of n]) auto
  next
    case False
    then have inc: "us = [?inc]" "n < limit" "take k (on_key tool_call_count_key us) = [?inc]" using us by (auto simp: take_one split: if_splits)
    then have "dget (e_session_state eng') tool_call_count_key = Some (PInt (n + 1))"
      using step(3) n by (simp add: key_after_increment)
    then show ?thesis using inc step(1) by (intro that [of "n + 1"]) (auto simp: counts_def)
  qed
qed



definition session_engine :: "'c function_policy policy list \<Rightarrow> ('c function_policy, 'c) engine" where
  \<comment> \<open>an engine on a fresh conversation\<close>
  "session_engine ps = make_engine ps [] 60 ''s'' [] None None None None None None ex_store (Some ''s'') None"

lemma session_engine_fields [simp]:
  "e_policies (session_engine ps) = ps" "e_session_state (session_engine ps) = []" "e_conversation_id (session_engine ps) = ''s''"
  "e_root_conversation_id (session_engine ps) = ''s''"
  by (simp_all add: session_engine_def make_engine_def)

lemma unconditional_plain [simp]: "unconditional (plain_spec name)"
  by (simp add: unconditional_def plain_spec_def)


section \<open>Malformed answers\<close>

text \<open>
  C22: A policy that fails denies. When the callable of a policy that applies raises, or answers something that
  is not a decision, for every content the policies before it may leave, the composed action is denied,
  whatever the other policies answer.
\<close>
theorem malformed_answers_deny_the_action:
  assumes "e_policies eng = qs @ p # ps" and "should_fire (e_labels eng) (pol_spec p) ctx"
    and "\<And>d. may_see (evaluate_function other) (context_of eng) (inject eng ctx) qs d \<Longrightarrow>
      \<not> well_formed other (fst (pol_state p)) (snd (pol_state p) (build_event (inject eng ctx\<lparr>cx_content := d\<rparr>)))"
    and "fst (evaluate_composed day (evaluate_function other) read_only ctx eng) = Inr r"
  shows "r_action r = DENY"
proof (rule evaluate_denied [OF assms(1,2) _ assms(4)])
  fix d
  assume "may_see (evaluate_function other) (context_of eng) (inject eng ctx) qs d"
  from assms(3) [OF this] show "r_action (snd (answer (evaluate_function other) (context_of eng) (inject eng ctx) p d)) = DENY"
    unfolding answer_result well_formed_def bindR_def by (auto split: sum.splits)
qed

definition ex_broken_policy :: "unit function_policy policy" where
  "ex_broken_policy = \<lparr>pol_spec = plain_spec ''broken'', pol_state = (''broken'', \<lambda>_. Inr (RawDict [(''result'', PStr ''maybe'')]))\<rparr>"

theorem malformed_answers_deny_the_action_witness:
  "r_action (projr (fst (evaluate_composed ''d'' (evaluate_function (\<lambda>_. [])) True ex_ctx (session_engine [ex_broken_policy])))) = DENY"
proof -
  let ?r = "projr (fst (evaluate_composed ''d'' (evaluate_function (\<lambda>_. [])) True ex_ctx (session_engine [ex_broken_policy])))"
  have run: "fst (evaluate_composed ''d'' (evaluate_function (\<lambda>_. [])) True ex_ctx (session_engine [ex_broken_policy])) = Inr ?r"
    by code_simp
  have "lower ''maybe'' = ''maybe''" by code_simp
  then have "\<not> well_formed (\<lambda>_. []) ''broken'' (Inr (RawDict [(''result'', PStr ''maybe'')]))"
    by (auto simp: well_formed_def coerce_to_policy_result_def policy_result_from_dict_def present_def policy_action_of_def)
  then show ?thesis
    by (intro malformed_answers_deny_the_action [OF _ _ _ run, where qs = "[]" and ps = "[]" and p = ex_broken_policy])
      (simp_all add: ex_broken_policy_def plain_spec_def should_fire_def)
qed

section \<open>The risk score\<close>

definition keeps_content :: "(pyval \<Rightarrow> string) \<Rightarrow> 'c function_policy policy \<Rightarrow> bool" where
  \<comment> \<open>the policy never replaces the content of the event\<close>
  "keeps_content other q \<longleftrightarrow>
     (\<forall>ev raw r. snd (pol_state q) ev = Inr raw \<longrightarrow> coerce_to_policy_result other (fst (pol_state q)) raw = Inr r \<longrightarrow> r_data r = None)"

lemma keeps_content_seen:
  assumes "\<And>q. q \<in> set qs \<Longrightarrow> keeps_content other q" and "may_see (evaluate_function other) ec ctx qs d"
  shows "d = cx_content ctx"
proof (rule ccontr)
  assume "d \<noteq> cx_content ctx"
  then obtain q d' where q: "q \<in> set qs" "r_data (snd (answer (evaluate_function other) ec ctx q d')) \<noteq> None"
    using assms(2) unfolding may_see_def changes_content_def by blast
  then show False
    using assms(1) [OF q(1)] unfolding keeps_content_def answer_result bindR_def by (auto split: sum.splits)
qed

definition tool_called :: "'c evaluation_context \<Rightarrow> string option" where
  "tool_called ctx =
     (if cx_phase ctx \<noteq> TOOL_CALL then None
      else case cx_content ctx of PDict data \<Rightarrow> (case dget data ''name'' of Some (PStr t) \<Rightarrow> if t = [] then None else Some t | _ \<Rightarrow> None)
        | _ \<Rightarrow> None)"

definition guarded_call :: "risk_cfg \<Rightarrow> 'c evaluation_context \<Rightarrow> bool" where
  "guarded_call cfg ctx \<longleftrightarrow> (case tool_called ctx of None \<Rightarrow> False | Some t \<Rightarrow> is_guarded t (rc_guarded_tools cfg))"

definition actor_offset :: "risk_cfg \<Rightarrow> 'c evaluation_context \<Rightarrow> int" where
  "actor_offset cfg ctx =
     (let run_as = (case dget (or_empty (cx_actor ctx)) ''run_as'' of None \<Rightarrow> [] | Some u \<Rightarrow> u)
      in case dget (rc_initial_scores cfg) run_as of None \<Rightarrow> 0 | Some n \<Rightarrow> n)"

definition call_points :: "risk_cfg \<Rightarrow> int \<Rightarrow> 'c evaluation_context \<Rightarrow> int" where
  \<comment> \<open>what a call that goes ahead adds to the recorded score \<open>n\<close>: nothing when it is guarded and the session risky\<close>
  "call_points cfg n ctx =
     (case tool_called ctx of None \<Rightarrow> 0
      | Some t \<Rightarrow> if is_guarded t (rc_guarded_tools cfg) \<and> rc_threshold cfg \<le> actor_offset cfg ctx + n then 0
                  else max 0 (points_for_tool t (rc_tool_points cfg)))"

definition score_at :: "string \<Rightarrow> (pyval \<Rightarrow> string) \<Rightarrow> (string \<Rightarrow> pyval option) \<Rightarrow> string \<Rightarrow> ('c evaluation_context \<times> parked) list \<Rightarrow>
    ('c function_policy, 'c) engine \<Rightarrow> nat \<Rightarrow> int" where
  \<comment> \<open>the score recorded when the first \<open>j\<close> actions have been attempted\<close>
  "score_at day other vloads key acts eng j =
     (case dget (e_session_state (snd (attempts day other vloads (take j acts) eng))) key of Some (PInt m) \<Rightarrow> m | _ \<Rightarrow> 0)"

definition points_nonneg :: "risk_cfg \<Rightarrow> bool" where
  "points_nonneg cfg \<longleftrightarrow> (\<forall>n \<in> set (map snd (rc_sensitive_labels cfg)). 0 \<le> n)"

abbreviation inc :: "string \<Rightarrow> int \<Rightarrow> state_update" where
  "inc k m \<equiv> \<lparr>su_key = k, su_action = INCREMENT, su_value = PInt m\<rparr>"

lemma coerce_accrue:
  "coerce_to_policy_result other name (accrue cfg t) =
     Inr (verdict ALLOW None (if 0 < points_for_tool t (rc_tool_points cfg) then [inc (rc_state_key cfg) (points_for_tool t (rc_tool_points cfg))] else []))"
  by (simp add: accrue_def Let_def allowed_verdict)

lemma coerce_escalation:
  assumes "rc_escalate_action cfg \<in> {''ASK'', ''DENY''}"
  shows "\<exists>reason. coerce_to_policy_result other name (escalation cfg score t) =
    Inr (verdict (if rc_escalate_action cfg = ''ASK'' then ASK else DENY) (Some reason) [])"
proof -
  have "policy_action_of (lower (rc_escalate_action cfg)) = Some (if rc_escalate_action cfg = ''ASK'' then ASK else DENY)"
    using assms by auto
  then show ?thesis unfolding escalation_def by (blast intro: coerce_response(1) [where es = "[]" and us = "[]"] coerce_entries.simps)
qed


lemma current_score_counts:
  assumes "counts n (dget (ev_session_state ev) (rc_state_key cfg))"
  shows "current_score cfg ev = Inr ((let run_as = (case dget (vc_actor (ev_context ev)) ''run_as'' of None \<Rightarrow> [] | Some u \<Rightarrow> u)
      in case dget (rc_initial_scores cfg) run_as of None \<Rightarrow> 0 | Some n \<Rightarrow> n) + n)"
  using assms by (simp add: current_score_def)

lemma matched_nonneg:
  assumes "points_nonneg cfg" and "List.map_filter (dget (rc_sensitive_labels cfg)) ls \<noteq> []"
  shows "0 \<le> Max (set (List.map_filter (dget (rc_sensitive_labels cfg)) ls))"
proof -
  have "0 \<le> m" if "m \<in> set (List.map_filter (dget (rc_sensitive_labels cfg)) ls)" for m
  proof -
    from that obtain l where "dget (rc_sensitive_labels cfg) l = Some m" by (auto simp: map_filter_def)
    then have "m \<in> set (map snd (rc_sensitive_labels cfg))" by (force dest: map_of_SomeD)
    then show ?thesis using assms(1) by (auto simp: points_nonneg_def)
  qed
  then show ?thesis using Max_in [of "set (List.map_filter (dget (rc_sensitive_labels cfg)) ls)"] assms(2) by auto
qed

definition risk_reply :: "risk_cfg \<Rightarrow> raw \<Rightarrow> bool" where
  "risk_reply cfg raw \<longleftrightarrow> raw = RawNone \<or> (\<exists>t. raw = accrue cfg t) \<or> (\<exists>score t. raw = escalation cfg score t) \<or>
     (\<exists>m \<ge> 0. raw = increment (rc_state_key cfg) m)"

lemma decide_tool_result_reply:
  assumes "decide_tool_result loads cfg ev = Inr raw" and "points_nonneg cfg"
  shows "risk_reply cfg raw"
proof (cases "raw = RawNone")
  case False
  let ?matched = "List.map_filter (dget (rc_sensitive_labels cfg))
    (collect_labels (rc_label_keys cfg) max_result_scan_depth (parse_result_payload loads (ev_data ev)))"
  have "raw = increment (rc_state_key cfg) (Max (set ?matched))" "?matched \<noteq> []"
    using assms(1) False by (auto simp: decide_tool_result_def Let_def split: if_splits)
  then show ?thesis using matched_nonneg [OF assms(2)] unfolding risk_reply_def by blast
qed (simp add: risk_reply_def)

lemma decide_tool_call_reply: "decide_tool_call cfg ev = Inr raw \<Longrightarrow> risk_reply cfg raw"
  unfolding risk_reply_def decide_tool_call_def Let_def
  by (auto simp: bindR_Inr_iff split: pyval.splits if_splits)

lemma risk_policy_reply: "risk_score_policy loads cfg ev = Inr raw \<Longrightarrow> points_nonneg cfg \<Longrightarrow> risk_reply cfg raw"
  unfolding risk_score_policy_def
  by (auto split: if_splits intro: decide_tool_call_reply decide_tool_result_reply simp: risk_reply_def [where raw = RawNone])

lemma risk_reply_updates:
  assumes "risk_reply cfg raw" and "rc_escalate_action cfg \<in> {''ASK'', ''DENY''}" and "coerce_to_policy_result other name raw = Inr r"
  shows "\<exists>m \<ge> 0. updates_of r \<in> {[], [inc (rc_state_key cfg) m]}"
proof -
  have quiet: ?thesis if "updates_of r = []" using that by (intro exI [of _ 0]) simp
  from assms(1) consider "raw = RawNone" | t where "raw = accrue cfg t" | score t where "raw = escalation cfg score t"
    | m where "0 \<le> m" "raw = increment (rc_state_key cfg) m" unfolding risk_reply_def by blast
  then show ?thesis
  proof cases
    case 1
    then show ?thesis using assms(3) by (intro quiet) (auto simp: allowed_verdict)
  next
    case (2 t)
    then show ?thesis
      using assms(3) by (intro exI [of _ "max 0 (points_for_tool t (rc_tool_points cfg))"]) (auto simp: coerce_accrue)
  next
    case (3 score t)
    then show ?thesis using assms(3) coerce_escalation [OF assms(2), of other name score t] by (intro quiet) auto
  next
    case (4 m)
    then show ?thesis using assms(3) by (intro exI [of _ m]) auto
  qed
qed

lemma risk_updates:
  \<comment> \<open>whatever the event, the score never falls\<close>
  assumes "snd (pol_state p) = risk_score_policy loads cfg" and "rc_escalate_action cfg \<in> {''ASK'', ''DENY''}" and "points_nonneg cfg"
  shows "\<exists>m \<ge> 0. updates_of (snd (answer (evaluate_function other) ec ctx p d)) \<in> {[], [inc (rc_state_key cfg) m]}"
proof (cases "bindR (snd (pol_state p) (build_event (ctx\<lparr>cx_content := d\<rparr>))) (coerce_to_policy_result other (fst (pol_state p)))")
  case (Inl e)
  show ?thesis by (intro exI [of _ 0]) (simp add: answer_result Inl)
next
  case (Inr r)
  then obtain raw where raw: "risk_score_policy loads cfg (build_event (ctx\<lparr>cx_content := d\<rparr>)) = Inr raw"
    "coerce_to_policy_result other (fst (pol_state p)) raw = Inr r" by (auto simp: bindR_Inr_iff assms(1))
  from risk_reply_updates [OF risk_policy_reply [OF raw(1) assms(3)] assms(2) raw(2)] show ?thesis
    by (simp add: answer_result Inr)
qed

lemma risk_answer:
  assumes p: "snd (pol_state p) = risk_score_policy loads cfg" "rc_escalate_action cfg \<in> {''ASK'', ''DENY''}"
    and n: "counts n (dget (e_session_state eng) (rc_state_key cfg))" and t: "tool_called ctx = Some t"
  shows "\<exists>reason. snd (answer (evaluate_function other) ec (inject eng ctx) p (cx_content ctx)) =
    (if is_guarded t (rc_guarded_tools cfg) \<and> rc_threshold cfg \<le> actor_offset cfg ctx + n
     then verdict (if rc_escalate_action cfg = ''ASK'' then ASK else DENY) (Some reason) []
     else verdict ALLOW None (if 0 < points_for_tool t (rc_tool_points cfg) then [inc (rc_state_key cfg) (points_for_tool t (rc_tool_points cfg))] else []))"
proof -
  obtain data where data: "cx_phase ctx = TOOL_CALL" "cx_content ctx = PDict data" "dget data ''name'' = Some (PStr t)" "t \<noteq> []"
    using t by (auto simp: tool_called_def split: if_splits pyval.splits option.splits)
  let ?ev = "build_event (inject eng ctx\<lparr>cx_content := cx_content ctx\<rparr>)"
  have score: "current_score cfg ?ev = Inr (actor_offset cfg ctx + n)"
    using current_score_counts [of n ?ev cfg] n by (simp add: actor_offset_def)
  have "risk_score_policy loads cfg ?ev =
      Inr (if is_guarded t (rc_guarded_tools cfg) \<and> rc_threshold cfg \<le> actor_offset cfg ctx + n
           then escalation cfg (actor_offset cfg ctx + n) t else accrue cfg t)"
    unfolding risk_score_policy_def decide_tool_call_def Let_def
    using data score by (simp add: get_str_def)
  then show ?thesis
    using coerce_escalation [OF p(2), of other "fst (pol_state p)" "actor_offset cfg ctx + n" t]
    by (auto simp: answer_result p(1) coerce_accrue)
qed


lemma risk_step:
  assumes eng: "e_policies eng = qs @ p # ps" and p: "snd (pol_state p) = risk_score_policy loads cfg" "unconditional (pol_spec p)"
    and cfg: "rc_escalate_action cfg \<in> {''ASK'', ''DENY''}" "points_nonneg cfg" "\<not> reserved eng (rc_state_key cfg)"
    and others: "\<And>q. q \<in> set qs \<union> set ps \<Longrightarrow> leaves_key (rc_state_key cfg) other q" "\<And>q. q \<in> set qs \<Longrightarrow> keeps_content other q"
    and n: "counts n (dget (e_session_state eng) (rc_state_key cfg))" and att: "attempt day other vloads act eng = (ok, eng')"
  obtains m where "counts m (dget (e_session_state eng') (rc_state_key cfg))" "e_policies eng' = e_policies eng"
    "n + (if ok then call_points cfg n (fst act) else 0) \<le> m"
    "ok \<and> guarded_call cfg (fst act) \<and> rc_threshold cfg \<le> actor_offset cfg (fst act) + n \<longrightarrow>
       rc_escalate_action cfg = ''ASK'' \<and> accepted vloads (snd act)"
proof -
  let ?K = "rc_state_key cfg"
  let ?ans = "\<lambda>d. snd (answer (evaluate_function other) (context_of eng) (inject eng (fst act)) p d)"
  obtain us k where step: "e_policies eng' = e_policies eng"
    "us = [] \<or> should_fire (e_labels eng) (pol_spec p) (fst act) \<and>
       (\<exists>d. may_see (evaluate_function other) (context_of eng) (inject eng (fst act)) qs d \<and> us = updates_of (?ans d))"
    "key_afters (take k (on_key ?K us)) (dget (e_session_state eng) ?K) = Inr (dget (e_session_state eng') ?K)"
    "ok \<longrightarrow> k = length (on_key ?K us)"
    "ok \<longrightarrow> should_fire (e_labels eng) (pol_spec p) (fst act) \<longrightarrow>
       (\<exists>d. may_see (evaluate_function other) (context_of eng) (inject eng (fst act)) qs d \<and> us = updates_of (?ans d) \<and>
          r_action (?ans d) \<noteq> DENY \<and> (\<not> accepted vloads (snd act) \<longrightarrow> r_action (?ans d) = ALLOW))"
    by (rule attempt_key [OF eng others(1) cfg(3) att refl refl])
  have seen: "d = cx_content (fst act)" if "may_see (evaluate_function other) (context_of eng) (inject eng (fst act)) qs d" for d
    using keeps_content_seen [OF others(2) that] by simp
  obtain inc_by where us: "0 \<le> inc_by" "us \<in> {[], [inc ?K inc_by]}"
  proof (cases "us = []")
    case False
    then obtain d where "us = updates_of (?ans d)" using step(2) by blast
    with risk_updates [OF p(1) cfg(1,2), of other "context_of eng" "inject eng (fst act)" d] show ?thesis using that by blast
  qed (use that in blast)
  define m where "m = (if take k (on_key ?K us) = [] then n else n + inc_by)"
  have m: "counts m (dget (e_session_state eng') ?K)" "n \<le> m"
  proof -
    show "n \<le> m" using us(1) by (simp add: m_def)
    show "counts m (dget (e_session_state eng') ?K)"
    proof (cases "take k (on_key ?K us) = []")
      case True
      then have "dget (e_session_state eng') ?K = dget (e_session_state eng) ?K" using step(3) unfolding True by simp
      then show ?thesis using n True by (simp add: m_def)
    next
      case False
      then have one: "take k (on_key ?K us) = [inc ?K inc_by]" using us(2) by (auto simp: take_one split: if_splits)
      then have "dget (e_session_state eng') ?K = Some (PInt (n + inc_by))" using step(3) n by (simp add: key_after_increment)
      then show ?thesis using one by (simp add: m_def counts_def)
    qed
  qed
  have ans: "us = updates_of (?ans (cx_content (fst act)))" "r_action (?ans (cx_content (fst act))) \<noteq> DENY"
    "\<not> accepted vloads (snd act) \<longrightarrow> r_action (?ans (cx_content (fst act))) = ALLOW" if ok
    using step(5) that seen p(2) by auto
  have added: "n + call_points cfg n (fst act) \<le> m" if ok
  proof (cases "tool_called (fst act)")
    case None
    then show ?thesis using m(2) by (simp add: call_points_def)
  next
    case (Some t)
    note reply = risk_answer [OF p(1) cfg(1) n Some, of other "context_of eng"]
    let ?risky = "is_guarded t (rc_guarded_tools cfg) \<and> rc_threshold cfg \<le> actor_offset cfg (fst act) + n"
    show ?thesis
    proof (cases "?risky \<or> points_for_tool t (rc_tool_points cfg) \<le> 0")
      case True
      then show ?thesis using m(2) Some by (auto simp: call_points_def)
    next
      case False
      then have "us = [inc ?K (points_for_tool t (rc_tool_points cfg))]" using reply ans(1) [OF that] by auto
      moreover from this have "k = 1" using step(4) that by simp
      ultimately show ?thesis using us(2) False Some by (auto simp: m_def call_points_def)
    qed
  qed
  have "rc_escalate_action cfg = ''ASK'' \<and> accepted vloads (snd act)"
    if go: ok "guarded_call cfg (fst act)" "rc_threshold cfg \<le> actor_offset cfg (fst act) + n"
  proof -
    obtain t where t: "tool_called (fst act) = Some t" "is_guarded t (rc_guarded_tools cfg)"
      using go(2) by (auto simp: guarded_call_def split: option.splits)
    obtain reason where "?ans (cx_content (fst act)) = verdict (if rc_escalate_action cfg = ''ASK'' then ASK else DENY) (Some reason) []"
      using risk_answer [OF p(1) cfg(1) n t(1), of other "context_of eng"] t(2) go(3) by auto
    then show ?thesis using ans(2,3) [OF go(1)] by (auto split: if_splits)
  qed
  then show ?thesis using that m added step(1) by auto
qed


lemma foldl_dset_values:
  "v \<in> set (map snd (foldl (\<lambda>d (k, v). dset (f k) v d) d kvs)) \<Longrightarrow> v \<in> set (map snd d) \<union> set (map snd kvs)"
proof (induction kvs arbitrary: d)
  case (Cons kv kvs)
  have "set (map snd (dset k x d)) \<subseteq> insert x (set (map snd d))" for k x
    by (induction d) auto
  note grow = this
  obtain k x where kv: "kv = (k, x)" by (cases kv)
  from Cons.prems have "v \<in> set (map snd (foldl (\<lambda>d (k, v). dset (f k) v d) (dset (f k) x d) kvs))" by (simp only: kv foldl_Cons prod.case)
  from Cons.IH [OF this] grow [of "f k" x] show ?case unfolding kv by (simp only: list.map list.set snd_conv) blast
qed simp

lemma make_risk_cfg_ok:
  assumes "make_risk_cfg threshold points sensitive guarded act scores key label_keys reason = Inr cfg"
  shows "rc_escalate_action cfg \<in> {''ASK'', ''DENY''}" "rc_threshold cfg = threshold" "rc_state_key cfg = key"
    "\<forall>n \<in> set (map snd sensitive). 0 \<le> n \<Longrightarrow> points_nonneg cfg"
proof -
  have act: "upper (strip act) \<in> {''ASK'', ''DENY''}"
    by (rule ccontr) (use assms in \<open>simp add: make_risk_cfg_def Let_def\<close>)
  have cfg: "cfg = \<lparr>rc_threshold = threshold, rc_tool_points = points,
                   rc_sensitive_labels = foldl (\<lambda>d (k, v). dset (lower (strip k)) v d) [] sensitive,
                   rc_guarded_tools = guarded, rc_escalate_action = upper (strip act), rc_initial_scores = scores,
                   rc_state_key = key, rc_label_keys = (case label_keys of None \<Rightarrow> default_label_keys | Some ks \<Rightarrow> ks), rc_reason = reason\<rparr>"
    using assms act unfolding make_risk_cfg_def Let_def by (simp only: simp_thms if_False sum.inject not_not)
  have "n \<in> set (map snd sensitive)" if "n \<in> set (map snd (rc_sensitive_labels cfg))" for n
  proof -
    from that have "n \<in> set (map snd (foldl (\<lambda>d (k, v). dset (lower (strip k)) v d) [] sensitive))" by (simp only: cfg risk_cfg.simps)
    from foldl_dset_values [OF this] show ?thesis by (simp only: list.map list.set Un_empty_left)
  qed
  then show "\<forall>n \<in> set (map snd sensitive). 0 \<le> n \<Longrightarrow> points_nonneg cfg" unfolding points_nonneg_def by blast
  show "rc_escalate_action cfg \<in> {''ASK'', ''DENY''}" "rc_threshold cfg = threshold" "rc_state_key cfg = key"
    using act by (simp_all only: cfg risk_cfg.simps)
qed

lemma score_at_Suc:
  "attempt day other vloads act eng = (ok, eng') \<Longrightarrow>
    score_at day other vloads key (act # acts) eng (Suc j) = score_at day other vloads key acts eng' j"
  by (simp add: score_at_def split: prod.split)

lemma score_at_0: "counts n (dget (e_session_state eng) key) \<Longrightarrow> score_at day other vloads key acts eng 0 = n"
  by (auto simp: score_at_def counts_def)



definition ex_call :: "string \<Rightarrow> unit evaluation_context" where
  "ex_call tool = ex_ctx\<lparr>cx_content := PDict [(''name'', PStr tool)]\<rparr>"

definition ex_risk_cfg :: risk_cfg where
  "ex_risk_cfg = projr (make_risk_cfg 50 [(''search'', 60), (''send'', 30)] [(''secret'', 5)] [''send''] ''ask'' [] ''risk'' None ''Risk.'')"

definition ex_risk_policy :: "unit function_policy policy" where
  "ex_risk_policy = \<lparr>pol_spec = plain_spec ''risk'', pol_state = (''risk'', risk_score_policy Map.empty ex_risk_cfg)\<rparr>"

definition ex_risk_acts :: "(unit evaluation_context \<times> parked) list" where
  "ex_risk_acts = [(ex_call ''mail__send'', TimedOut), (ex_call ''mail__send'', TimedOut), (ex_call ''mail__send'', Verdict (Some ''accept''))]"

lemma ex_risk_run:
  "fst (attempts ''d'' (\<lambda>_. []) ex_loads ex_risk_acts (session_engine [ex_risk_policy])) = [True, True, True]"
  by code_simp


lemma ex_risk_facts:
  "make_risk_cfg 50 [(''search'', 60), (''send'', 30)] [(''secret'', 5)] [''send''] ''ask'' [] ''risk'' None ''Risk.'' = Inr ex_risk_cfg"
  "guarded_call ex_risk_cfg (fst (ex_risk_acts ! 2))" "actor_offset ex_risk_cfg (fst (ex_risk_acts ! 2)) = 0"
  "score_at ''d'' (\<lambda>_. []) ex_loads ''risk'' ex_risk_acts (session_engine [ex_risk_policy]) 2 = 60"
  "call_points ex_risk_cfg 0 (fst (ex_risk_acts ! 0)) = 30" "call_points ex_risk_cfg 30 (fst (ex_risk_acts ! 1)) = 30"
  by code_simp+

lemma risk_unreserved: "\<not> reserved (session_engine ps) ''risk''"
  by (simp add: reserved_def USER_DAILY_ASK_APPROVED_STATE_KEY_def)


section \<open>Sandboxes\<close>

lemma coerce_data:
  "coerce_to_policy_result other name (RawDict [(''result'', PStr ''ALLOW''), (''data'', PDict d)]) =
     Inr (allowed\<lparr>r_data := Some (PDict d)\<rparr>)"
  by (simp add: coerce_to_policy_result_def policy_result_from_dict_def present_def coerce_state_updates_def as_string_def as_labels_def
      allowed_def)

definition agent_started :: "pyval \<Rightarrow> (string, pyval) pydict option" where
  \<comment> \<open>the arguments, when the content of a tool call starts an agent\<close>
  "agent_started c =
     (case c of
        PDict data \<Rightarrow> if dget data ''name'' = Some (PStr ''sys_agent_start'')
          then Some (case dget data ''arguments'' of Some (PDict args) \<Rightarrow> args | _ \<Rightarrow> []) else None
      | _ \<Rightarrow> None)"

definition sandboxed :: "(string, pyval) pydict \<Rightarrow> pyval \<Rightarrow> bool" where
  \<comment> \<open>the agent starts with every setting of the override and with no setting that sandboxes do not have\<close>
  "sandboxed override c \<longleftrightarrow>
     (\<exists>args s. agent_started c = Some args \<and> dget args ''sandbox'' = Some (PDict s) \<and>
        (\<forall>k v. dget override k = Some v \<longrightarrow> dget s k = Some v) \<and> dom (dget s) \<subseteq> set sandbox_override_keys)"

end
