(* ===== verification/Runner_Gate.thy ===== *)
theory Runner_Gate
  imports Builtin_Safety_Props
begin

text \<open>
  The gate a runner puts before an agent: \<^verbatim>\<open>codify/runner/policy.py\<close> and the parts of
  \<^verbatim>\<open>codify/runner/app.py\<close> that evaluate a synthetic \<open>sys_agent_start\<close> call, apply the sandbox of the verdict
  to the specification of the agent and build the environment its harness is spawned with. Resolving the
  dotted path of a policy, \<open>json.dumps\<close> and the class names of exceptions are arguments. The attributes of
  a sandbox specification are its instance dictionary. Names of harnesses are canonical; \<open>plugins\<close> are those
  whose environment a plug-in builds. Sessions of sub-agents are not represented, nor the resolution of
  tool paths, which leaves the sandbox alone.
\<close>

section \<open>The gate\<close>

datatype guard_policy =
    FunctionSpec policy_spec "string option"   \<comment> \<open>with the path of its function\<close>
  | OtherSpec

record 'c gated_policy =
  gp_name :: string
  gp_policy :: "'c function_policy"
  gp_phases :: "phase list"

datatype gate_action = GateAllow | GateDeny | GateAsk

record policy_verdict =
  pv_action :: gate_action
  pv_deny_text :: "string option"
  pv_policy_name :: "string option"
  pv_reason :: "string option"
  pv_data :: "pyval option"

definition gate_allow :: policy_verdict where
  "gate_allow = \<lparr>pv_action = GateAllow, pv_deny_text = None, pv_policy_name = None, pv_reason = None, pv_data = None\<rparr>"

definition format_deny_text :: "(pyval \<Rightarrow> string) \<Rightarrow> string \<Rightarrow> string option \<Rightarrow> string" where
  "format_deny_text dumps name reason =
     ''[Denied by policy: '' @ name @ ''] '' @
     dumps (PDict [(''denied_by_policy'', PStr name),
       (''reason'', PStr (case reason of None \<Rightarrow> ''policy denied'' | Some r \<Rightarrow> if r = [] then ''policy denied'' else r))])"

definition resolve_failure_diagnostic :: "(py_exn \<Rightarrow> string) \<Rightarrow> string option \<Rightarrow> py_exn \<Rightarrow> string" where
  "resolve_failure_diagnostic cls path e =
     ''policy failed to resolve ('' @ cls e @ ''); function path '' @
     py_repr (case path of None \<Rightarrow> ''<missing function>'' | Some p \<Rightarrow> p) @
     '' could not be loaded; tool calls are denied until this policy is fixed''"

definition unresolved_policy_sentinel :: "(py_exn \<Rightarrow> string) \<Rightarrow> policy_spec \<Rightarrow> string option \<Rightarrow> py_exn \<Rightarrow> 'c function_policy" where
  "unresolved_policy_sentinel cls spec path e =
     (ps_name spec, \<lambda>_. Inr (deny_response (resolve_failure_diagnostic cls path e)))"

definition selector_covers_tools :: "phase \<Rightarrow> bool" where
  "selector_covers_tools p \<longleftrightarrow> p = TOOL_CALL \<or> p = TOOL_RESULT"

definition gated_phases :: "policy_spec \<Rightarrow> phase list" where
  "gated_phases spec =
     (case ps_on spec of
        None \<Rightarrow> [TOOL_CALL, TOOL_RESULT]
      | Some sels \<Rightarrow> filter selector_covers_tools (map sel_phase sels))"

definition gated ::
  "(policy_spec \<Rightarrow> 'c callable res) \<Rightarrow> (py_exn \<Rightarrow> string) \<Rightarrow> guard_policy \<Rightarrow> 'c gated_policy option" where
  "gated resolve cls g =
     (case g of
        OtherSpec \<Rightarrow> None
      | FunctionSpec spec path \<Rightarrow>
          if gated_phases spec = [] then None
          else Some (case resolve spec of
             Inr f \<Rightarrow> \<lparr>gp_name = ps_name spec, gp_policy = (ps_name spec, f), gp_phases = gated_phases spec\<rparr>
           | Inl e \<Rightarrow> \<lparr>gp_name = ps_name spec, gp_policy = unresolved_policy_sentinel cls spec path e, gp_phases = [TOOL_CALL, TOOL_RESULT]\<rparr>))"

definition gate_from_spec ::
  "(policy_spec \<Rightarrow> 'c callable res) \<Rightarrow> (py_exn \<Rightarrow> string) \<Rightarrow> guard_policy list option \<Rightarrow> 'c gated_policy list" where
  "gate_from_spec resolve cls policies = (case policies of None \<Rightarrow> [] | Some ps \<Rightarrow> List.map_filter (gated resolve cls) ps)"

fun evaluate_policies ::
  "(pyval \<Rightarrow> string) \<Rightarrow> (pyval \<Rightarrow> string) \<Rightarrow> (py_exn \<Rightarrow> string) \<Rightarrow> 'c evaluation_context \<Rightarrow> phase \<Rightarrow> (string \<times> string option) option \<Rightarrow>
   pyval option \<Rightarrow> 'c gated_policy list \<Rightarrow> policy_verdict" where
  \<comment> \<open>the loop, with the first policy that asked and its reason, and the last replacement\<close>
  "evaluate_policies other dumps cls ctx ph pending composed [] =
     (case pending of
        Some (name, reason) \<Rightarrow>
          \<lparr>pv_action = GateAsk, pv_deny_text = None, pv_policy_name = Some name, pv_reason = reason, pv_data = composed\<rparr>
      | None \<Rightarrow> gate_allow\<lparr>pv_data := composed\<rparr>)"
| "evaluate_policies other dumps cls ctx ph pending composed (g # gs) =
     (if ph \<notin> set (gp_phases g) then evaluate_policies other dumps cls ctx ph pending composed gs
      else case bindR (snd (gp_policy g) (build_event ctx)) (coerce_to_policy_result other (fst (gp_policy g))) of
        Inl e \<Rightarrow>
          \<lparr>pv_action = GateDeny,
           pv_deny_text = Some (format_deny_text dumps (gp_name g) (Some (''policy raised: '' @ cls e @ '': '' @ exn_text e))),
           pv_policy_name = Some (gp_name g), pv_reason = None, pv_data = None\<rparr>
      | Inr r \<Rightarrow>
          if r_action r = DENY then
            \<lparr>pv_action = GateDeny, pv_deny_text = Some (format_deny_text dumps (gp_name g) (r_reason r)),
             pv_policy_name = Some (gp_name g), pv_reason = r_reason r, pv_data = None\<rparr>
          else
            evaluate_policies other dumps cls ctx ph
              (if r_action r = ASK \<and> pending = None then Some (gp_name g, r_reason r) else pending)
              (case r_data r of None \<Rightarrow> composed | Some d \<Rightarrow> Some d) gs)"

definition tool_context :: "phase \<Rightarrow> pyval \<Rightarrow> string \<Rightarrow> 'c evaluation_context" where
  "tool_context ph content tool =
     \<lparr>cx_phase = ph, cx_content = content, cx_tool_name = Some tool, cx_actor = None, cx_request_data = None,
      cx_session_state = None, cx_usage = None, cx_subtree_usage = None, cx_user_daily_cost = None, cx_model = None,
      cx_harness = None, cx_labels = None, cx_llm_client = None\<rparr>"

definition evaluate_tool_call ::
  "(pyval \<Rightarrow> string) \<Rightarrow> (pyval \<Rightarrow> string) \<Rightarrow> (py_exn \<Rightarrow> string) \<Rightarrow> 'c gated_policy list \<Rightarrow> string \<Rightarrow> (string, pyval) pydict \<Rightarrow> policy_verdict" where
  "evaluate_tool_call other dumps cls gs tool args =
     (if gs = [] then gate_allow
      else evaluate_policies other dumps cls (tool_context TOOL_CALL (PDict [(''name'', PStr tool), (''arguments'', PDict args)]) tool)
             TOOL_CALL None None gs)"

definition evaluate_tool_result ::
  "(pyval \<Rightarrow> string) \<Rightarrow> (pyval \<Rightarrow> string) \<Rightarrow> (py_exn \<Rightarrow> string) \<Rightarrow> 'c gated_policy list \<Rightarrow> string \<Rightarrow> string \<Rightarrow> pyval" where
  "evaluate_tool_result other dumps cls gs tool output =
     (if gs = [] then PStr output
      else let v = evaluate_policies other dumps cls (tool_context TOOL_RESULT (PStr output) tool) TOOL_RESULT None None gs
        in case pv_action v of
             GateAllow \<Rightarrow> (case pv_data v of None \<Rightarrow> PStr output | Some d \<Rightarrow> d)
           | GateDeny \<Rightarrow> PStr (or_empty (pv_deny_text v))
           | GateAsk \<Rightarrow> PStr (format_deny_text dumps (or_empty (pv_policy_name v))
                (case pv_reason v of
                   Some r \<Rightarrow> if r = [] then Some ''approval required on tool_result but runner cannot prompt mid-flight'' else Some r
                 | None \<Rightarrow> Some ''approval required on tool_result but runner cannot prompt mid-flight'')))"


section \<open>Starting an agent\<close>

record os_env_spec =
  oe_type :: string
  oe_cwd :: "string option"
  oe_sandbox :: "(string, pyval) pydict option"
  oe_fork :: bool
  oe_start_in_scratch :: bool

definition default_sandbox :: "(string, pyval) pydict" where
  "default_sandbox =
     [(''type'', PStr ''linux_bwrap''), (''read_paths'', PNone), (''write_paths'', PNone), (''write_files'', PNone),
      (''allow_network'', PBool True), (''cwd_allow_hidden'', PNone), (''cwd_hidden_scan_max_entries'', PInt 50000),
      (''cwd_hidden_scan_overflow'', PStr ''warn''), (''cwd_hidden_scan_recursive'', PBool False), (''mask_paths'', PNone),
      (''env_passthrough'', PNone), (''egress_rules'', PNone), (''egress_allow_private_destinations'', PBool False),
      (''credential_proxy'', PNone)]"

definition default_os_env :: os_env_spec where
  "default_os_env = \<lparr>oe_type = ''caller_process'', oe_cwd = None, oe_sandbox = None, oe_fork = False, oe_start_in_scratch = False\<rparr>"

record start_spec =
  sp_name :: "string option"
  sp_harness :: string
  sp_os_env :: "os_env_spec option"
  sp_policies :: "guard_policy list option"

definition declared_sandbox :: "start_spec \<Rightarrow> (string, pyval) pydict option" where
  "declared_sandbox spec = (case sp_os_env spec of None \<Rightarrow> None | Some env \<Rightarrow> oe_sandbox env)"

definition evaluate_agent_start_gate ::
  "(policy_spec \<Rightarrow> 'c callable res) \<Rightarrow> (pyval \<Rightarrow> string) \<Rightarrow> (pyval \<Rightarrow> string) \<Rightarrow> (py_exn \<Rightarrow> string) \<Rightarrow> start_spec \<Rightarrow> string \<Rightarrow>
   policy_verdict option" where
  "evaluate_agent_start_gate resolve other dumps cls spec harness =
     (let gs = gate_from_spec resolve cls (sp_policies spec)
      in if gs = [] then None
         else Some (evaluate_tool_call other dumps cls gs ''sys_agent_start''
           [(''agent_name'', PStr (or_empty (sp_name spec))), (''harness'', PStr harness),
            (''sandbox'', case declared_sandbox spec of None \<Rightarrow> PNone | Some d \<Rightarrow> PDict d)]))"

fun set_attributes :: "(string, pyval) pydict \<Rightarrow> (string, pyval) pydict \<Rightarrow> (string, pyval) pydict" where
  \<comment> \<open>\<open>setattr\<close> of every entry whose key is an attribute\<close>
  "set_attributes [] obj = obj"
| "set_attributes ((k, v) # kvs) obj = set_attributes kvs (if dget obj k = None then obj else dset k v obj)"

definition apply_sandbox_override_from_verdict :: "pyval \<Rightarrow> start_spec \<Rightarrow> start_spec" where
  "apply_sandbox_override_from_verdict data spec =
     (case data of
        PDict d \<Rightarrow>
          (case dget d ''arguments'' of
             Some (PDict args) \<Rightarrow>
               (case dget args ''sandbox'' of
                  Some (PDict override) \<Rightarrow>
                    (let env = (case sp_os_env spec of None \<Rightarrow> default_os_env | Some e \<Rightarrow> e);
                         sandbox = (case oe_sandbox env of None \<Rightarrow> default_sandbox | Some sb \<Rightarrow> sb)
                     in spec\<lparr>sp_os_env := Some (env\<lparr>oe_sandbox := Some (set_attributes override sandbox)\<rparr>)\<rparr>)
                | _ \<Rightarrow> spec)
           | _ \<Rightarrow> spec)
      | _ \<Rightarrow> spec)"

section \<open>Sessions of a runner\<close>

datatype spawn_env =
    EnvOfSpec start_spec   \<comment> \<open>built from a specification, with its sandbox\<close>
  | EnvOfRequest           \<comment> \<open>carried by the body of a message\<close>
  | OtherEnv string        \<comment> \<open>of the bridge of a native harness, which reads no specification, or none\<close>

record runner_state =
  ru_specs :: "(string, start_spec) pydict"
  ru_agents :: "(string, string) pydict"
  ru_envs :: "(string \<times> spawn_env) list"
    \<comment> \<open>the environments that harnesses were asked for with, newest last, with their sessions\<close>

datatype start_outcome = Created | BadRequest | ResolverFailed | AgentStartDenied string | SpawnFailed

definition spec_env_harnesses :: "string list" where
  "spec_env_harnesses =
     [''claude-sdk'', ''codex'', ''pi'', ''openai-agents'', ''cursor'', ''antigravity'', ''kimi'', ''qwen'', ''goose'', ''acp'', ''copilot'']"

definition build_spawn_env_from_spec :: "string list \<Rightarrow> start_spec \<Rightarrow> string \<Rightarrow> spawn_env" where
  "build_spawn_env_from_spec plugins spec harness =
     (if harness \<in> set spec_env_harnesses \<or> harness \<in> set plugins then EnvOfSpec spec else OtherEnv harness)"

definition spawn_with :: "string \<Rightarrow> spawn_env \<Rightarrow> runner_state \<Rightarrow> runner_state" where
  "spawn_with session env st = st\<lparr>ru_envs := ru_envs st @ [(session, env)]\<rparr>"

definition initialize_session ::
  "(policy_spec \<Rightarrow> 'c callable res) \<Rightarrow> (pyval \<Rightarrow> string) \<Rightarrow> (pyval \<Rightarrow> string) \<Rightarrow> (py_exn \<Rightarrow> string) \<Rightarrow> string list \<Rightarrow> string \<Rightarrow> string \<Rightarrow>
   start_spec option res \<Rightarrow> bool \<Rightarrow> runner_state \<Rightarrow> start_outcome \<times> runner_state" where
  \<comment> \<open>\<open>found\<close> is what the resolver of specifications returns, \<open>spawns\<close> whether the harness process comes up\<close>
  "initialize_session resolve other dumps cls plugins session agent found spawns st =
     (if session = [] \<or> agent = [] then (BadRequest, st)
      else
        (let finish = (\<lambda>env st. let st = spawn_with session env st
                        in if spawns then (Created, st\<lparr>ru_agents := dset session agent (ru_agents st)\<rparr>) else (SpawnFailed, st));
             build = (\<lambda>spec. finish (build_spawn_env_from_spec plugins spec (sp_harness spec))
                        (st\<lparr>ru_specs := dset session spec (ru_specs st)\<rparr>))
         in case found of
              Inl e \<Rightarrow> (ResolverFailed, st)
            | Inr None \<Rightarrow> finish (OtherEnv ''runner-test-default'') st
            | Inr (Some spec) \<Rightarrow>
                (case evaluate_agent_start_gate resolve other dumps cls spec (sp_harness spec) of
                   None \<Rightarrow> build spec
                 | Some v \<Rightarrow>
                     if pv_action v \<noteq> GateAllow
                     then (AgentStartDenied (case pv_deny_text v of None \<Rightarrow> ''Agent start denied by policy''
                             | Some t \<Rightarrow> if t = [] then ''Agent start denied by policy'' else t), st)
                     else build (case pv_data v of None \<Rightarrow> spec | Some d \<Rightarrow> apply_sandbox_override_from_verdict d spec))))"

definition switch_agent :: "string \<Rightarrow> string option \<Rightarrow> runner_state \<Rightarrow> runner_state" where
  \<comment> \<open>the agent a turn is dispatched for; another agent than before resets the caches of the session\<close>
  "switch_agent session agent st =
     (case agent of
        None \<Rightarrow> st
      | Some a \<Rightarrow>
          if a = [] then st
          else
            (let st = (case dget (ru_agents st) session of
                         Some prior \<Rightarrow> if prior \<noteq> a then st\<lparr>ru_specs := ddel session (ru_specs st)\<rparr> else st
                       | None \<Rightarrow> st)
             in st\<lparr>ru_agents := dset session a (ru_agents st)\<rparr>))"

definition resolve_session_spec_entry :: "string \<Rightarrow> start_spec option res \<Rightarrow> runner_state \<Rightarrow> runner_state" where
  \<comment> \<open>the cached specification of a session, resolved and cached when there is none\<close>
  "resolve_session_spec_entry session found st =
     (case dget (ru_specs st) session of
        Some _ \<Rightarrow> st
      | None \<Rightarrow> (case found of Inr (Some spec) \<Rightarrow> st\<lparr>ru_specs := dset session spec (ru_specs st)\<rparr> | _ \<Rightarrow> st))"

definition harness_or :: "string option \<Rightarrow> start_spec \<Rightarrow> string" where
  \<comment> \<open>the harness of a turn: the override of its message, or that of the specification\<close>
  "harness_or override spec = (case override of Some h \<Rightarrow> if h = [] then sp_harness spec else h | None \<Rightarrow> sp_harness spec)"

definition resolve_harness_config ::
  "string list \<Rightarrow> string option \<Rightarrow> string option \<Rightarrow> start_spec option res \<Rightarrow> spawn_env option" where
  \<comment> \<open>\<open>None\<close>: the resolver failed and the message is refused\<close>
  "resolve_harness_config plugins agent override found =
     (if agent = None \<or> agent = Some [] then Some (OtherEnv ''runner-test-default'')
      else case found of
             Inl e \<Rightarrow> None
           | Inr None \<Rightarrow> Some (OtherEnv ''runner-test-default'')
           | Inr (Some spec) \<Rightarrow> Some (build_spawn_env_from_spec plugins spec (harness_or override spec)))"

definition stream_message_to_harness ::
  "string list \<Rightarrow> string \<Rightarrow> string option \<Rightarrow> (string \<times> bool) option \<Rightarrow> string option \<Rightarrow> start_spec option res \<Rightarrow> runner_state \<Rightarrow> runner_state" where
  \<comment> \<open>a message that no turn set up: \<open>given\<close> is the harness in its body, and whether the body has an environment\<close>
  "stream_message_to_harness plugins session agent given override found st =
     (case given of
        Some (h, carries_env) \<Rightarrow> spawn_with session (if carries_env then EnvOfRequest else OtherEnv h) st
      | None \<Rightarrow>
          (case resolve_harness_config plugins agent override found of
             None \<Rightarrow> st
           | Some env \<Rightarrow> spawn_with session env st))"

definition turn_setup ::
  "string list \<Rightarrow> string \<Rightarrow> string option \<Rightarrow> string option \<Rightarrow> start_spec option res \<Rightarrow> start_spec option res \<Rightarrow> runner_state \<Rightarrow> runner_state" where
  \<comment> \<open>a turn; without a specification the message goes out like one that no turn set up, and the resolver
      is asked \<open>again\<close>\<close>
  "turn_setup plugins session agent override found again st =
     (let st = resolve_session_spec_entry session found (switch_agent session agent st)
      in case dget (ru_specs st) session of
           Some spec \<Rightarrow> spawn_with session (build_spawn_env_from_spec plugins spec (harness_or override spec)) st
         | None \<Rightarrow> stream_message_to_harness plugins session agent None None again st)"

definition clear_session_agent_caches :: "string \<Rightarrow> runner_state \<Rightarrow> runner_state" where
  \<comment> \<open>by \<open>POST reset-state\<close> and \<open>POST agent-cache/reset\<close>; the agent of the session stays\<close>
  "clear_session_agent_caches session st = st\<lparr>ru_specs := ddel session (ru_specs st)\<rparr>"

definition release_session :: "string \<Rightarrow> runner_state \<Rightarrow> runner_state" where
  "release_session session st = st\<lparr>ru_specs := ddel session (ru_specs st), ru_agents := ddel session (ru_agents st)\<rparr>"

datatype runner_op =
    InitSession string string "start_spec option res" bool
  | Turn string "string option" "string option" "start_spec option res" "start_spec option res"
  | StreamedMessage string "string option" "(string \<times> bool) option" "string option" "start_spec option res"
  | ResolveEntry string "start_spec option res"
  | ResetCaches string
  | ReleaseSession string

fun runner_step ::
  "(policy_spec \<Rightarrow> 'c callable res) \<Rightarrow> (pyval \<Rightarrow> string) \<Rightarrow> (pyval \<Rightarrow> string) \<Rightarrow> (py_exn \<Rightarrow> string) \<Rightarrow> string list \<Rightarrow> runner_op \<Rightarrow>
   runner_state \<Rightarrow> runner_state" where
  "runner_step resolve other dumps cls plugins (InitSession s a found spawns) st =
     snd (initialize_session resolve other dumps cls plugins s a found spawns st)"
| "runner_step resolve other dumps cls plugins (Turn s a override found again) st = turn_setup plugins s a override found again st"
| "runner_step resolve other dumps cls plugins (StreamedMessage s a given override found) st =
     stream_message_to_harness plugins s a given override found st"
| "runner_step resolve other dumps cls plugins (ResolveEntry s found) st = resolve_session_spec_entry s found st"
| "runner_step resolve other dumps cls plugins (ResetCaches s) st = clear_session_agent_caches s st"
| "runner_step resolve other dumps cls plugins (ReleaseSession s) st = release_session s st"

end
