(* ===== verification/Runner_Gate_Props.thy ===== *)
theory Runner_Gate_Props
  imports Runner_Gate
begin

text \<open>
  The gate of a runner: it decides as the engine of the server would for policies without selectors, the
  sandbox a policy forces is the one an agent starts and keeps running in, and what drops it: an agent
  switch, a reset of the caches, a message that is streamed without a turn.
\<close>

section \<open>The gate and the engine\<close>

definition stateless :: "'c callable \<Rightarrow> bool" where
  \<comment> \<open>the policy looks at the phase, the target and the content only\<close>
  "stateless f \<longleftrightarrow>
     (\<forall>ev ev'. ev_type ev' = ev_type ev \<longrightarrow> ev_target ev' = ev_target ev \<longrightarrow> ev_data ev' = ev_data ev \<longrightarrow> f ev' = f ev)"

fun gate_verdict :: "policy_action \<Rightarrow> gate_action" where
  "gate_verdict ALLOW = GateAllow"
| "gate_verdict ASK = GateAsk"
| "gate_verdict DENY = GateDeny"

definition gated_of :: "'c function_policy policy \<Rightarrow> 'c gated_policy" where
  "gated_of p = \<lparr>gp_name = ps_name (pol_spec p), gp_policy = pol_state p, gp_phases = [TOOL_CALL, TOOL_RESULT]\<rparr>"

lemma answer_data:
  assumes "keeps_content other p"
  shows "r_data (fst (dispatch_policy (evaluate_function other) p ctx ec)) = None"
  using assms unfolding keeps_content_def dispatch_function bindR_def by (auto split: sum.splits)

lemma next_ctx_kept: "r_data r = None \<Longrightarrow> next_ctx r ctx = ctx"
  by (simp add: next_ctx_def)

lemma gate_loop:
  assumes "\<forall>p \<in> set ps. unconditional (pol_spec p) \<and> stateless (snd (pol_state p)) \<and> keeps_content other p"
    and "ph = TOOL_CALL \<or> ph = TOOL_RESULT"
    and "ev_type (build_event ctx') = ev_type (build_event ctx)" "ev_target (build_event ctx') = ev_target (build_event ctx)"
      "ev_data (build_event ctx') = ev_data (build_event ctx)"
  shows "pv_action (evaluate_policies other dumps cls ctx ph pending None (map gated_of ps)) =
    gate_verdict (max (if pending = None then ALLOW else ASK)
      (strictest (map (\<lambda>sr. r_action (snd sr)) (fired (evaluate_function other) ls ec ps ctx'))))"
  using assms(1)
proof (induction ps arbitrary: pending)
  case Nil
  then show ?case by (cases pending) (auto simp: gate_allow_def split: prod.split)
next
  case (Cons p ps)
  let ?out = "bindR (snd (pol_state p) (build_event ctx)) (coerce_to_policy_result other (fst (pol_state p)))"
  have same: "bindR (snd (pol_state p) (build_event ctx')) (coerce_to_policy_result other (fst (pol_state p))) = ?out"
    using Cons.prems assms(3-5) unfolding stateless_def by (metis list.set_intros(1))
  let ?r = "fst (dispatch_policy (evaluate_function other) p ctx' ec)"
  have step: "fired (evaluate_function other) ls ec (p # ps) ctx' =
      (pol_spec p, ?r) # (if r_action ?r = DENY then [] else fired (evaluate_function other) ls ec ps ctx')"
    using Cons.prems next_ctx_kept [OF answer_data, of other p ctx' ec ctx'] by (simp add: Let_def)
  have phase: "ph \<in> set (gp_phases (gated_of p))" using assms(2) by (simp add: gated_of_def)
  show ?case
  proof (cases ?out)
    case (Inl e)
    then show ?thesis unfolding step using phase by (simp add: dispatch_function same gated_of_def)
  next
    case (Inr r)
    then have r: "?r = r" by (simp add: dispatch_function same)
    have data: "r_data r = None" using answer_data [of other p ctx' ec] Cons.prems r by simp
    show ?thesis
    proof (cases "r_action r = DENY")
      case True
      then show ?thesis unfolding step r using Inr phase by (simp add: gated_of_def)
    next
      case False
      let ?pending = "if r_action r = ASK \<and> pending = None then Some (ps_name (pol_spec p), r_reason r) else pending"
      have "pv_action (evaluate_policies other dumps cls ctx ph pending None (map gated_of (p # ps))) =
          pv_action (evaluate_policies other dumps cls ctx ph ?pending None (map gated_of ps))"
        using False Inr phase data by (simp add: gated_of_def)
      also have "\<dots> = gate_verdict (max (if ?pending = None then ALLOW else ASK)
          (strictest (map (\<lambda>sr. r_action (snd sr)) (fired (evaluate_function other) ls ec ps ctx'))))"
        using Cons.IH [of ?pending] Cons.prems by simp
      also have "max (if ?pending = None then ALLOW else ASK) a =
          max (if pending = None then ALLOW else ASK) (max (r_action r) a)" for a
        using False by (cases "r_action r"; cases pending) (simp_all add: max.assoc [symmetric])
      finally show ?thesis unfolding step r using False by simp
    qed
  qed
qed

text \<open>
  C24: The runner's gate decides a tool call as the engine of the server does. For policies that have no
  selectors and no condition, that look at the phase, the target and the content only and leave the content
  alone, the gate built from their specifications allows, asks or denies exactly as the engine, whatever the
  state, the labels and the usage of the session are.
\<close>
theorem gate_decides_like_the_engine:
  assumes "\<forall>p \<in> set (e_policies eng). unconditional (pol_spec p) \<and> stateless (snd (pol_state p)) \<and> keeps_content other p"
    and "\<forall>p \<in> set (e_policies eng). resolve (pol_spec p) = Inr (snd (pol_state p)) \<and> fst (pol_state p) = ps_name (pol_spec p)"
    and "fst (evaluate_composed day (evaluate_function other) True
      (tool_context TOOL_CALL (PDict [(''name'', PStr tool), (''arguments'', PDict args)]) tool) eng) = Inr r"
  shows "pv_action (evaluate_tool_call other dumps cls
      (gate_from_spec resolve cls (Some (map (\<lambda>p. FunctionSpec (pol_spec p) (path p)) (e_policies eng)))) tool args) =
    gate_verdict (r_action r)"
proof -
  let ?ctx = "tool_context TOOL_CALL (PDict [(''name'', PStr tool), (''arguments'', PDict args)]) tool"
  have gate: "gate_from_spec resolve cls (Some (map (\<lambda>p. FunctionSpec (pol_spec p) (path p)) ps)) = map gated_of ps"
    if "\<forall>p \<in> set ps. unconditional (pol_spec p) \<and> resolve (pol_spec p) = Inr (snd (pol_state p)) \<and> fst (pol_state p) = ps_name (pol_spec p)"
    for ps using that
  proof (induction ps)
    case (Cons p ps)
    then have "gated resolve cls (FunctionSpec (pol_spec p) (path p)) = Some (gated_of p)"
      by (cases p) (auto simp: gated_def gated_of_def gated_phases_def unconditional_def)
    then show ?case using Cons by (simp add: gate_from_spec_def map_filter_def)
  qed (simp add: gate_from_spec_def map_filter_def)
  have "r_action r = strictest (map (\<lambda>sr. r_action (snd sr))
      (fired (evaluate_function other) (e_labels eng) (context_of eng) (e_policies eng) (inject eng ?ctx)))"
    using assms(3) unfolding evaluate_function_fired by (rule decide_strictest)
  moreover have "pv_action (evaluate_policies other dumps cls ?ctx TOOL_CALL None None (map gated_of (e_policies eng))) =
      gate_verdict (max (if (None :: (string \<times> string option) option) = None then ALLOW else ASK) (strictest (map (\<lambda>sr. r_action (snd sr))
        (fired (evaluate_function other) (e_labels eng) (context_of eng) (e_policies eng) (inject eng ?ctx)))))"
    using assms(1) by (rule gate_loop) (simp_all add: build_event_def inject_def Let_def split: option.split)
  ultimately show ?thesis
    using assms(1,2) gate [of "e_policies eng"] by (simp add: evaluate_tool_call_def gate_allow_def)
qed


lemma plain_responses_keep:
  assumes "\<And>ev raw. snd (pol_state p) ev = Inr raw \<Longrightarrow> raw = allow_response \<or> (\<exists>reason. raw = ask_response reason \<or> raw = deny_response reason)"
  shows "keeps_content other p"
  unfolding keeps_content_def
proof (intro allI impI)
  fix ev raw r
  assume "snd (pol_state p) ev = Inr raw" and r: "coerce_to_policy_result other (fst (pol_state p)) raw = Inr r"
  from assms [OF this(1)] show "r_data r = None" using r by (auto simp: allowed_verdict)
qed

lemma ask_on_os_tools_replies:
  assumes "ask_on_os_tools rep ev = Inr raw"
  shows "raw = allow_response \<or> (\<exists>reason. raw = ask_response reason \<or> raw = deny_response reason)"
  using assms unfolding ask_on_os_tools_def by (auto simp: bindR_Inr_iff split: if_splits pyval.splits)

lemma ask_on_os_tools_stateless: "stateless (ask_on_os_tools rep)"
  unfolding stateless_def ask_on_os_tools_def by simp

definition ex_os_policy :: "unit function_policy policy" where
  "ex_os_policy = \<lparr>pol_spec = plain_spec ''os'', pol_state = (''os'', ask_on_os_tools (\<lambda>_. []))\<rparr>"

theorem gate_decides_like_the_engine_witness:
  "pv_action (evaluate_tool_call (\<lambda>_. []) (\<lambda>_. []) (\<lambda>_. [])
     (gate_from_spec (\<lambda>_. Inr (ask_on_os_tools (\<lambda>_. []) :: unit callable)) (\<lambda>_. []) (Some [FunctionSpec (plain_spec ''os'') None])) ''Bash'' []) =
   GateAsk"
proof -
  let ?eng = "session_engine [ex_os_policy]"
  let ?r = "projr (fst (evaluate_composed ''d'' (evaluate_function (\<lambda>_. [])) True
      (tool_context TOOL_CALL (PDict [(''name'', PStr ''Bash''), (''arguments'', PDict [])]) ''Bash'') ?eng))"
  have run: "fst (evaluate_composed ''d'' (evaluate_function (\<lambda>_. [])) True
      (tool_context TOOL_CALL (PDict [(''name'', PStr ''Bash''), (''arguments'', PDict [])]) ''Bash'') ?eng) = Inr ?r" "r_action ?r = ASK"
    by code_simp+
  have "keeps_content (\<lambda>_. []) ex_os_policy"
    by (rule plain_responses_keep) (auto simp: ex_os_policy_def dest: ask_on_os_tools_replies)
  then have "\<forall>p \<in> set (e_policies ?eng). unconditional (pol_spec p) \<and> stateless (snd (pol_state p)) \<and> keeps_content (\<lambda>_. []) p"
    by (simp add: ex_os_policy_def ask_on_os_tools_stateless)
  from gate_decides_like_the_engine [OF this _ run(1), of "\<lambda>_. Inr (ask_on_os_tools (\<lambda>_. []))" "\<lambda>_. []" "\<lambda>_. []" "\<lambda>_. None"] run(2)
  show ?thesis by (simp add: ex_os_policy_def plain_spec_def)
qed


text \<open>
  Without that hypothesis they differ: the gate drops the tool name of a selector, so a policy that denies
  one tool only denies the start of every agent.
\<close>

lemma gate_ignores_tool_names:
  defines "spec \<equiv> (plain_spec ''no search'')\<lparr>ps_on := Some [\<lparr>sel_phase = TOOL_CALL, sel_tool_name = Some ''web_search''\<rparr>]\<rparr>"
    and "f \<equiv> make_fixed_action_callable ''deny'' None None None None"
  shows "pv_action (evaluate_tool_call (\<lambda>_. []) (\<lambda>_. []) (\<lambda>_. [])
      (gate_from_spec (\<lambda>_. Inr f) (\<lambda>_. []) (Some [FunctionSpec spec None])) ''sys_agent_start'' []) = GateDeny \<and>
    r_action (projr (fst (evaluate_composed ''d'' (evaluate_function (\<lambda>_. [])) True
      (tool_context TOOL_CALL (PDict [(''name'', PStr ''sys_agent_start''), (''arguments'', PDict [])]) ''sys_agent_start'')
      (session_engine [\<lparr>pol_spec = spec, pol_state = (''no search'', f)\<rparr>])))) = ALLOW"
  unfolding spec_def f_def by code_simp

section \<open>The sandbox of an agent\<close>

lemma dget_set_attributes:
  "dget (set_attributes kvs obj) k =
     (if dget obj k = None then None else case dget (rev kvs) k of None \<Rightarrow> dget obj k | Some v \<Rightarrow> Some v)"
proof (induction kvs obj rule: set_attributes.induct)
  case (2 k' v kvs obj)
  then show ?case by (auto simp: map_add_def split: option.splits)
qed simp

lemma dget_filter_keys: "dget (filter (\<lambda>(k, v). k \<in> K) d) k = (if k \<in> K then dget d k else None)"
  by (induction d) auto

lemma dget_rev_distinct: "distinct (map fst d) \<Longrightarrow> dget (rev d) k = dget d k"
proof (induction d)
  case (Cons kv d)
  then have "dget d (fst kv) = None" by (simp add: map_of_eq_None_iff)
  then show ?case using Cons by (cases kv) (auto simp: map_add_def split: option.split)
qed simp

definition forces :: "(string, pyval) pydict \<Rightarrow> (string, pyval) pydict \<Rightarrow> (string, pyval) pydict \<Rightarrow> bool" where
  \<comment> \<open>the sandbox has every setting of the override, and its other attributes are those of the original\<close>
  "forces override original sandbox \<longleftrightarrow>
     (\<forall>k. dget sandbox k = (case dget override k of Some v \<Rightarrow> Some v | None \<Rightarrow> dget original k))"

definition sandbox_object :: "(string, pyval) pydict \<Rightarrow> bool" where
  \<comment> \<open>the instance dictionary of a sandbox specification\<close>
  "sandbox_object d \<longleftrightarrow> distinct (map fst d) \<and> set (map fst d) = set (map fst default_sandbox)"


lemma forced_sandbox_dget:
  assumes "dict_ok override" and "set (map fst override) \<subseteq> set sandbox_override_keys"
  shows "dget (forced_sandbox override current) k =
    (if k \<in> set sandbox_override_keys then case dget override k of None \<Rightarrow> dget current k | Some v \<Rightarrow> Some v else None)"
  using assms(1) by (simp add: forced_sandbox_def dget_filter_keys dget_dupdate)

lemma override_keys_are_attributes: "set sandbox_override_keys \<subseteq> set (map fst default_sandbox)"
  by (simp add: sandbox_override_keys_def default_sandbox_def)

lemma sandbox_override_ok:
  "dict_ok (sandbox_override ty net wp rp ep)"
  "set (map fst (sandbox_override ty net wp rp ep)) \<subseteq> set sandbox_override_keys"
  by (auto simp: sandbox_override_def dict_ok_def sandbox_override_keys_def split: option.splits)

lemma default_sandbox_object: "sandbox_object default_sandbox"
  by (simp add: sandbox_object_def default_sandbox_def)

lemma apply_forced:
  assumes ok: "dict_ok override" "set (map fst override) \<subseteq> set sandbox_override_keys"
    and object: "\<And>d. declared_sandbox spec = Some d \<Longrightarrow> sandbox_object d"
    and data: "data = PDict [(''name'', v), (''arguments'', PDict (dset ''sandbox''
      (PDict (forced_sandbox override (case declared_sandbox spec of None \<Rightarrow> [] | Some d \<Rightarrow> d))) args))]"
  shows "\<exists>sb. declared_sandbox (apply_sandbox_override_from_verdict data spec) = Some sb \<and>
    forces override (case declared_sandbox spec of None \<Rightarrow> default_sandbox | Some d \<Rightarrow> d) sb"
proof -
  let ?current = "case declared_sandbox spec of None \<Rightarrow> [] | Some d \<Rightarrow> d"
  let ?original = "case declared_sandbox spec of None \<Rightarrow> default_sandbox | Some d \<Rightarrow> d"
  let ?forced = "forced_sandbox override ?current"
  have original: "sandbox_object ?original" using object default_sandbox_object by (auto split: option.splits)
  have "dict_ok ?current" using object by (auto simp: sandbox_object_def dict_ok_def split: option.splits)
  then have "distinct (map fst (dupdate ?current override))"
    using dict_ok_dupdate [of ?current override] by (simp only: dict_ok_def)
  then have "distinct (map fst ?forced)"
    unfolding forced_sandbox_def by (rule distinct_map_filter)
  note rev = dget_rev_distinct [OF this]
  have "declared_sandbox (apply_sandbox_override_from_verdict data spec) = Some (set_attributes ?forced ?original)"
    by (auto simp: data apply_sandbox_override_from_verdict_def declared_sandbox_def Let_def default_os_env_def split: option.split)
  moreover have "forces override ?original (set_attributes ?forced ?original)"
    unfolding forces_def
  proof
    fix k
    have attr: "dget ?original k = None \<longleftrightarrow> k \<notin> set (map fst default_sandbox)"
      using original by (simp add: sandbox_object_def map_of_eq_None_iff)
    have over: "dget override k = None" if "k \<notin> set sandbox_override_keys"
      using that ok(2) by (auto simp: map_of_eq_None_iff)
    show "dget (set_attributes ?forced ?original) k = (case dget override k of Some v \<Rightarrow> Some v | None \<Rightarrow> dget ?original k)"
      unfolding dget_set_attributes rev forced_sandbox_dget [OF ok]
      using attr over override_keys_are_attributes by (cases "declared_sandbox spec") (auto split: option.split)
  qed
  ultimately show ?thesis by blast
qed

definition gate_keeps :: "(pyval \<Rightarrow> string) \<Rightarrow> 'c gated_policy \<Rightarrow> bool" where
  \<comment> \<open>the policy never replaces the content\<close>
  "gate_keeps other g \<longleftrightarrow>
     (\<forall>ev raw r. snd (gp_policy g) ev = Inr raw \<longrightarrow> coerce_to_policy_result other (fst (gp_policy g)) raw = Inr r \<longrightarrow> r_data r = None)"

lemma gate_kept_data:
  assumes "\<forall>g \<in> set gs. gate_keeps other g"
    and "pv_action (evaluate_policies other dumps cls ctx ph pending composed gs) = GateAllow"
  shows "pv_data (evaluate_policies other dumps cls ctx ph pending composed gs) = composed"
  using assms
proof (induction gs arbitrary: pending)
  case Nil
  then show ?case by (cases pending) (auto simp: gate_allow_def)
next
  case (Cons g gs)
  show ?case
  proof (cases "bindR (snd (gp_policy g) (build_event ctx)) (coerce_to_policy_result other (fst (gp_policy g)))")
    case (Inl e)
    then show ?thesis using Cons by (auto split: if_splits)
  next
    case (Inr r)
    then have "r_data r = None" using Cons.prems(1) by (auto simp: gate_keeps_def bindR_Inr_iff)
    then show ?thesis using Cons Inr by (auto split: if_splits)
  qed
qed

lemma gate_last_data:
  assumes "\<forall>g \<in> set later. gate_keeps other g" and "ph \<in> set (gp_phases g)"
    and "bindR (snd (gp_policy g) (build_event ctx)) (coerce_to_policy_result other (fst (gp_policy g))) = Inr r" and "r_data r = Some d"
    and "pv_action (evaluate_policies other dumps cls ctx ph pending composed (before @ g # later)) = GateAllow"
  shows "pv_data (evaluate_policies other dumps cls ctx ph pending composed (before @ g # later)) = Some d"
  using assms(5)
proof (induction before arbitrary: pending composed)
  case Nil
  then show ?case using assms(1-4) gate_kept_data [OF assms(1)] by (auto split: if_splits)
next
  case (Cons g' before)
  show ?case
  proof (cases "bindR (snd (gp_policy g') (build_event ctx)) (coerce_to_policy_result other (fst (gp_policy g')))")
    case (Inl e)
    then show ?thesis using Cons by (auto split: if_splits)
  next
    case (Inr r)
    then show ?thesis using Cons by (auto split: if_splits)
  qed
qed


definition forces_sandbox ::
  "(policy_spec \<Rightarrow> 'c callable res) \<Rightarrow> (py_exn \<Rightarrow> string) \<Rightarrow> (pyval \<Rightarrow> string) \<Rightarrow> (string, pyval) pydict \<Rightarrow> start_spec \<Rightarrow> bool" where
  \<comment> \<open>the specification has a policy that forces the sandbox, and no later policy replaces the content\<close>
  "forces_sandbox resolve cls other override spec \<longleftrightarrow>
     (\<exists>before ps path later. sp_policies spec = Some (before @ FunctionSpec ps path # later) \<and>
        resolve ps = Inr (enforce_sandbox override) \<and> TOOL_CALL \<in> set (gated_phases ps) \<and>
        (\<forall>g \<in> set (gate_from_spec resolve cls (Some later)). gate_keeps other g))"

lemma gate_from_spec_append:
  "gate_from_spec resolve cls (Some (ps @ qs)) = gate_from_spec resolve cls (Some ps) @ gate_from_spec resolve cls (Some qs)"
  by (simp add: gate_from_spec_def map_filter_def)

lemma enforce_reply:
  assumes "ev_type ev = ''tool_call''" and "ev_data ev = PDict [(''name'', PStr ''sys_agent_start''), (''arguments'', PDict args)]"
  shows "enforce_sandbox override ev = Inr (RawDict [(''result'', PStr ''ALLOW''),
    (''data'', PDict [(''name'', PStr ''sys_agent_start''),
       (''arguments'', PDict (dset ''sandbox'' (PDict (forced_sandbox override
          (case dget args ''sandbox'' of Some (PDict d) \<Rightarrow> d | _ \<Rightarrow> []))) args))])])"
  using assms by (simp add: enforce_sandbox_def get_str_def)

lemma start_gate_data:
  assumes "forces_sandbox resolve cls other override spec"
    and "evaluate_agent_start_gate resolve other dumps cls spec harness = Some v" and "pv_action v = GateAllow"
  shows "\<exists>w args. pv_data v = Some (PDict [(''name'', w), (''arguments'', PDict (dset ''sandbox''
      (PDict (forced_sandbox override (case declared_sandbox spec of None \<Rightarrow> [] | Some d \<Rightarrow> d))) args))])"
proof -
  obtain before ps path later where sp: "sp_policies spec = Some (before @ FunctionSpec ps path # later)"
    "resolve ps = Inr (enforce_sandbox override)" "TOOL_CALL \<in> set (gated_phases ps)"
    "\<forall>g \<in> set (gate_from_spec resolve cls (Some later)). gate_keeps other g"
    using assms(1) unfolding forces_sandbox_def by blast
  let ?g = "\<lparr>gp_name = ps_name ps, gp_policy = (ps_name ps, enforce_sandbox override), gp_phases = gated_phases ps\<rparr>"
  have "gated resolve cls (FunctionSpec ps path) = Some ?g"
    using sp(2,3) by (auto simp: gated_def)
  then have "gate_from_spec resolve cls (Some [FunctionSpec ps path]) = [?g]"
    by (simp add: gate_from_spec_def map_filter_def)
  then have gs: "gate_from_spec resolve cls (sp_policies spec) =
      gate_from_spec resolve cls (Some before) @ ?g # gate_from_spec resolve cls (Some later)"
    using gate_from_spec_append [of resolve cls before "FunctionSpec ps path # later"]
      gate_from_spec_append [of resolve cls "[FunctionSpec ps path]" later] by (simp add: sp(1))
  let ?args = "[(''agent_name'', PStr (or_empty (sp_name spec))), (''harness'', PStr harness),
            (''sandbox'', case declared_sandbox spec of None \<Rightarrow> PNone | Some d \<Rightarrow> PDict d)]"
  let ?ctx = "tool_context TOOL_CALL (PDict [(''name'', PStr ''sys_agent_start''), (''arguments'', PDict ?args)]) ''sys_agent_start''"
  have v: "v = evaluate_policies other dumps cls ?ctx TOOL_CALL None None
      (gate_from_spec resolve cls (Some before) @ ?g # gate_from_spec resolve cls (Some later))"
    using assms(2) unfolding evaluate_agent_start_gate_def Let_def gs by (simp add: evaluate_tool_call_def)
  have current: "(case dget ?args ''sandbox'' of Some (PDict d) \<Rightarrow> d | _ \<Rightarrow> []) = (case declared_sandbox spec of None \<Rightarrow> [] | Some d \<Rightarrow> d)"
    by (cases "declared_sandbox spec") simp_all
  have reply: "enforce_sandbox override (build_event ?ctx) = Inr (RawDict [(''result'', PStr ''ALLOW''),
      (''data'', PDict [(''name'', PStr ''sys_agent_start''), (''arguments'', PDict (dset ''sandbox''
        (PDict (forced_sandbox override (case declared_sandbox spec of None \<Rightarrow> [] | Some d \<Rightarrow> d))) ?args))])])"
    using enforce_reply [of "build_event ?ctx" ?args override] unfolding current by (simp add: build_event_def tool_context_def)
  have "pv_data v = Some (PDict [(''name'', PStr ''sys_agent_start''), (''arguments'', PDict (dset ''sandbox''
        (PDict (forced_sandbox override (case declared_sandbox spec of None \<Rightarrow> [] | Some d \<Rightarrow> d))) ?args))])"
    unfolding v
  proof (rule gate_last_data [OF sp(4)])
    show "bindR (snd (gp_policy ?g) (build_event ?ctx)) (coerce_to_policy_result other (fst (gp_policy ?g))) =
        Inr (allowed\<lparr>r_data := Some (PDict [(''name'', PStr ''sys_agent_start''), (''arguments'', PDict (dset ''sandbox''
        (PDict (forced_sandbox override (case declared_sandbox spec of None \<Rightarrow> [] | Some d \<Rightarrow> d))) ?args))])\<rparr>)"
      by (simp only: gated_policy.simps snd_conv fst_conv reply bindR_simps coerce_data)
  qed (use sp(3) assms(3) v in simp_all)
  then show ?thesis by blast
qed

fun same_agent :: "string \<Rightarrow> string \<Rightarrow> runner_op \<Rightarrow> bool" where
  \<comment> \<open>the session is neither initialised again nor released, its caches are not reset, its turns do not switch
      the agent and its messages go through turns\<close>
  "same_agent s a (InitSession s' _ _ _) \<longleftrightarrow> s' \<noteq> s"
| "same_agent s a (Turn s' b _ _ _) \<longleftrightarrow> s' \<noteq> s \<or> b \<in> {None, Some [], Some a}"
| "same_agent s a (StreamedMessage s' _ _ _ _) \<longleftrightarrow> s' \<noteq> s"
| "same_agent s a (ResolveEntry _ _) \<longleftrightarrow> True"
| "same_agent s a (ResetCaches s') \<longleftrightarrow> s' \<noteq> s"
| "same_agent s a (ReleaseSession s') \<longleftrightarrow> s' \<noteq> s"

definition only_from :: "string \<Rightarrow> start_spec \<Rightarrow> (string \<times> spawn_env) list \<Rightarrow> bool" where
  \<comment> \<open>the environments of the session that are built from a specification are built from this one\<close>
  "only_from s spec envs \<longleftrightarrow> (\<forall>spec'. (s, EnvOfSpec spec') \<in> set envs \<longrightarrow> spec' = spec)"

definition started :: "string \<Rightarrow> string \<Rightarrow> start_spec \<Rightarrow> (string \<times> spawn_env) list \<Rightarrow> runner_state \<Rightarrow> bool" where
  "started s a spec old st \<longleftrightarrow> dget (ru_specs st) s = Some spec \<and> dget (ru_agents st) s = Some a \<and>
     (\<exists>new. ru_envs st = old @ new \<and> only_from s spec new)"

lemma only_from_simps [simp]:
  "only_from s spec []" "only_from s spec (xs @ ys) \<longleftrightarrow> only_from s spec xs \<and> only_from s spec ys"
  "s' \<noteq> s \<Longrightarrow> only_from s spec [(s', env)]" "only_from s spec [(s', build_spawn_env_from_spec plugins spec h)]"
  by (auto simp: only_from_def build_spawn_env_from_spec_def)

lemma started_log:
  assumes "started s a spec old st" and "dget (ru_specs st') s = Some spec" "dget (ru_agents st') s = Some a"
    and "ru_envs st' = ru_envs st @ added" and "only_from s spec added"
  shows "started s a spec old st'"
proof -
  obtain new where new: "ru_envs st = old @ new" "only_from s spec new" using assms(1) unfolding started_def by blast
  have "ru_envs st' = old @ (new @ added)" "only_from s spec (new @ added)" using new assms(4,5) by simp_all
  then show ?thesis using assms(2,3) unfolding started_def by blast
qed

definition untouched :: "string \<Rightarrow> string \<Rightarrow> runner_state \<Rightarrow> runner_state \<Rightarrow> bool" where
  \<comment> \<open>a step for one session leaves another as it is\<close>
  "untouched s' s st st' \<longleftrightarrow> dget (ru_specs st') s = dget (ru_specs st) s \<and> dget (ru_agents st') s = dget (ru_agents st) s \<and>
     (\<exists>envs. ru_envs st' = ru_envs st @ map (Pair s') envs)"

lemma untouchedI:
  assumes "dget (ru_specs st') s = dget (ru_specs st) s" and "dget (ru_agents st') s = dget (ru_agents st) s"
    and "ru_envs st' = ru_envs st @ map (Pair s') envs"
  shows "untouched s' s st st'"
  using assms by (auto simp: untouched_def)

lemma spawn_with_fields [simp]:
  "ru_specs (spawn_with s env st) = ru_specs st" "ru_agents (spawn_with s env st) = ru_agents st"
  "ru_envs (spawn_with s env st) = ru_envs st @ [(s, env)]"
  by (simp_all add: spawn_with_def)

lemma initialize_other:
  assumes "s' \<noteq> s"
  shows "untouched s' s st (snd (initialize_session resolve other dumps cls plugins s' a' found spawns st))"
proof (cases "snd (initialize_session resolve other dumps cls plugins s' a' found spawns st) = st")
  case True
  then show ?thesis by (intro untouchedI [where envs = "[]"]) simp_all
next
  case False
  then obtain env where env: "ru_envs (snd (initialize_session resolve other dumps cls plugins s' a' found spawns st)) = ru_envs st @ [(s', env)]"
    by (cases found) (auto simp: initialize_session_def Let_def split: option.splits if_splits)
  show ?thesis
    by (rule untouchedI [where envs = "[env]"])
      (use assms env in \<open>cases found; auto simp: initialize_session_def Let_def split: option.splits\<close>)+
qed

lemma switch_other [simp]:
  "s' \<noteq> s \<Longrightarrow> dget (ru_specs (switch_agent s' b st)) s = dget (ru_specs st) s"
  "s' \<noteq> s \<Longrightarrow> dget (ru_agents (switch_agent s' b st)) s = dget (ru_agents st) s"
  "ru_envs (switch_agent s' b st) = ru_envs st"
  by (simp_all add: switch_agent_def Let_def split: option.split)

lemma resolve_entry_other [simp]:
  "s' \<noteq> s \<or> dget (ru_specs st) s \<noteq> None \<Longrightarrow> dget (ru_specs (resolve_session_spec_entry s' found st)) s = dget (ru_specs st) s"
  "ru_agents (resolve_session_spec_entry s' found st) = ru_agents st"
  "ru_envs (resolve_session_spec_entry s' found st) = ru_envs st"
  by (auto simp: resolve_session_spec_entry_def split: option.split sum.split)

lemma stream_message_other:
  "\<exists>envs. stream_message_to_harness plugins s a given override found st = st\<lparr>ru_envs := ru_envs st @ map (Pair s) envs\<rparr>"
proof -
  have one: "\<exists>envs. spawn_with s env st = st\<lparr>ru_envs := ru_envs st @ map (Pair s) envs\<rparr>" for env
    by (rule exI [of _ "[env]"]) (simp add: spawn_with_def)
  have none: "\<exists>envs. st = st\<lparr>ru_envs := ru_envs st @ map (Pair s) envs\<rparr>" by (rule exI [of _ "[]"]) simp
  obtain r where r: "stream_message_to_harness plugins s a given override found st = (case r of None \<Rightarrow> st | Some env \<Rightarrow> spawn_with s env st)"
    by (cases given) (auto simp: stream_message_to_harness_def split: if_splits intro: that [of "Some _"])
  show ?thesis unfolding r using one none by (cases r) simp_all
qed

lemma turn_other:
  assumes "s' \<noteq> s"
  shows "untouched s' s st (turn_setup plugins s' b override found again st)"
proof -
  let ?st = "resolve_session_spec_entry s' found (switch_agent s' b st)"
  obtain envs where "stream_message_to_harness plugins s' b None None again ?st = ?st\<lparr>ru_envs := ru_envs ?st @ map (Pair s') envs\<rparr>"
    using stream_message_other by blast
  then have "\<exists>envs. turn_setup plugins s' b override found again st = ?st\<lparr>ru_envs := ru_envs ?st @ map (Pair s') envs\<rparr>"
    by (cases "dget (ru_specs ?st) s'") (auto simp: turn_setup_def Let_def spawn_with_def intro: exI [of _ "[_]"])
  then obtain envs where "turn_setup plugins s' b override found again st = ?st\<lparr>ru_envs := ru_envs ?st @ map (Pair s') envs\<rparr>"
    by blast
  then show ?thesis using assms by (intro untouchedI [where envs = envs]) simp_all
qed

fun op_session :: "runner_op \<Rightarrow> string" where
  "op_session (InitSession s _ _ _) = s"
| "op_session (Turn s _ _ _ _) = s"
| "op_session (StreamedMessage s _ _ _ _) = s"
| "op_session (ResolveEntry s _) = s"
| "op_session (ResetCaches s) = s"
| "op_session (ReleaseSession s) = s"

lemma other_step:
  assumes "op_session op \<noteq> s"
  shows "untouched (op_session op) s st (runner_step resolve other dumps cls plugins op st)"
proof (cases op)
  case (StreamedMessage s' b given override found)
  obtain envs where "stream_message_to_harness plugins s' b given override found st = st\<lparr>ru_envs := ru_envs st @ map (Pair s') envs\<rparr>"
    using stream_message_other by blast
  then show ?thesis using StreamedMessage by (intro untouchedI [where envs = envs]) simp_all
next
  case (InitSession s' a found spawns)
  then show ?thesis using assms initialize_other [of s' s] by simp
next
  case (Turn s' b override found again)
  then show ?thesis using assms turn_other [of s' s] by simp
qed (use assms in \<open>auto simp: clear_session_agent_caches_def release_session_def intro!: untouchedI [where envs = "[]"]\<close>)

lemma started_untouched:
  assumes "started s a spec old st" and "untouched s' s st st'" and "s' \<noteq> s"
  shows "started s a spec old st'"
proof -
  obtain envs where st': "ru_envs st' = ru_envs st @ map (Pair s') envs" "dget (ru_specs st') s = dget (ru_specs st) s"
    "dget (ru_agents st') s = dget (ru_agents st) s"
    using assms(2) by (auto simp: untouched_def)
  moreover have "only_from s spec (map (Pair s') envs)" using assms(3) by (auto simp: only_from_def)
  ultimately show ?thesis using assms(1) by (intro started_log [OF assms(1)]) (auto simp: started_def)
qed

lemma started_turn:
  assumes "started s a spec old st" and "b \<in> {None, Some [], Some a}"
  shows "started s a spec old (turn_setup plugins s b override found again st)"
proof -
  have st: "dget (ru_specs st) s = Some spec" "dget (ru_agents st) s = Some a" using assms(1) by (simp_all add: started_def)
  have specs: "dget (ru_specs (switch_agent s b st)) s = Some spec" "dget (ru_agents (switch_agent s b st)) s = Some a"
    using assms(2) st by (auto simp: switch_agent_def Let_def)
  then have "turn_setup plugins s b override found again st =
      spawn_with s (build_spawn_env_from_spec plugins spec (harness_or override spec)) (resolve_session_spec_entry s found (switch_agent s b st))"
    by (simp add: turn_setup_def Let_def)
  then show ?thesis
    using specs
    by (intro started_log [OF assms(1), where added = "[(s, build_spawn_env_from_spec plugins spec (harness_or override spec))]"]) simp_all
qed

lemma started_step:
  assumes "started s a spec old st" and "same_agent s a op"
  shows "started s a spec old (runner_step resolve other dumps cls plugins op st)"
proof (cases "op_session op = s")
  case True
  then show ?thesis
  proof (cases op)
    case (Turn s' b override found again)
    then show ?thesis using True assms started_turn [OF assms(1), of b] by auto
  next
    case (ResolveEntry s' found)
    then show ?thesis using assms(1) by (intro started_log [OF assms(1), where added = "[]"]) (auto simp: started_def)
  qed (use True assms(2) in simp_all)
next
  case False
  show ?thesis by (rule started_untouched [OF assms(1) other_step [OF False] False])
qed


lemma created_started:
  assumes "forces_sandbox resolve cls other override spec" and ok: "dict_ok override" "set (map fst override) \<subseteq> set sandbox_override_keys"
    and "\<And>d. declared_sandbox spec = Some d \<Longrightarrow> sandbox_object d"
    and "initialize_session resolve other dumps cls plugins s a (Inr (Some spec)) spawns st = (Created, st')"
  obtains spec' sb where "started s a spec' (ru_envs st) st'" "declared_sandbox spec' = Some sb"
    "forces override (case declared_sandbox spec of None \<Rightarrow> default_sandbox | Some d \<Rightarrow> d) sb"
proof -
  obtain before ps path later where "sp_policies spec = Some (before @ FunctionSpec ps path # later)" "TOOL_CALL \<in> set (gated_phases ps)"
    using assms(1) unfolding forces_sandbox_def by blast
  then have "gate_from_spec resolve cls (sp_policies spec) \<noteq> []"
    by (auto simp: gate_from_spec_def map_filter_def gated_def)
  then obtain v where v: "evaluate_agent_start_gate resolve other dumps cls spec (sp_harness spec) = Some v"
    by (auto simp: evaluate_agent_start_gate_def Let_def)
  have allow: "pv_action v = GateAllow"
    using assms(5) v by (auto simp: initialize_session_def Let_def split: if_splits)
  obtain w args where data: "pv_data v = Some (PDict [(''name'', w), (''arguments'', PDict (dset ''sandbox''
      (PDict (forced_sandbox override (case declared_sandbox spec of None \<Rightarrow> [] | Some d \<Rightarrow> d))) args))])"
    using start_gate_data [OF assms(1) v allow] by blast
  let ?spec = "apply_sandbox_override_from_verdict (the (pv_data v)) spec"
  have "st' = st\<lparr>ru_specs := dset s ?spec (ru_specs st),
      ru_envs := ru_envs st @ [(s, build_spawn_env_from_spec plugins ?spec (sp_harness ?spec))], ru_agents := dset s a (ru_agents st)\<rparr>"
    using assms(5) v allow data by (auto simp: initialize_session_def Let_def spawn_with_def split: if_splits)
  then have "started s a ?spec (ru_envs st) st'" by (simp add: started_def)
  moreover obtain sb where "declared_sandbox ?spec = Some sb"
    "forces override (case declared_sandbox spec of None \<Rightarrow> default_sandbox | Some d \<Rightarrow> d) sb"
    using apply_forced [OF ok assms(4), where data = "the (pv_data v)" and v = w and args = args] data by auto
  ultimately show ?thesis by (rule that)
qed

text \<open>
  C23: An agent runs in the sandbox a policy forces on it. When a session is created for an agent whose
  specification carries an \<open>enforce_sandbox\<close> policy, and no later policy rewrites the call, then every
  environment that is built from a specification for its harness, at the start and in every later turn and
  whatever harness a turn asks for, comes from one whose sandbox has the forced settings and otherwise the
  declared ones, whatever happens to other sessions. It holds until the session is initialised again or
  released, its caches are reset, a turn switches its agent or a message of it is streamed without a turn; a
  native harness gets the environment of its bridge, which reads no specification.
\<close>
theorem agent_runs_in_the_forced_sandbox:
  assumes "forces_sandbox resolve cls other (sandbox_override ty net wp rp ep) spec"
    and "\<And>d. declared_sandbox spec = Some d \<Longrightarrow> sandbox_object d"
    and "initialize_session resolve other dumps cls plugins s a (Inr (Some spec)) spawns st = (Created, st')"
    and "\<forall>op \<in> set ops. same_agent s a op"
    and "(s, EnvOfSpec spec') \<in> set (drop (length (ru_envs st)) (ru_envs (fold (runner_step resolve other dumps cls plugins) ops st')))"
  shows "\<exists>sb. declared_sandbox spec' = Some sb \<and>
    forces (sandbox_override ty net wp rp ep) (case declared_sandbox spec of None \<Rightarrow> default_sandbox | Some d \<Rightarrow> d) sb"
proof -
  obtain spec1 sb where start: "started s a spec1 (ru_envs st) st'" "declared_sandbox spec1 = Some sb"
    "forces (sandbox_override ty net wp rp ep) (case declared_sandbox spec of None \<Rightarrow> default_sandbox | Some d \<Rightarrow> d) sb"
    by (rule created_started [OF assms(1) sandbox_override_ok assms(2,3)])
  have "started s a spec1 (ru_envs st) (fold (runner_step resolve other dumps cls plugins) ops st')"
    using start(1) assms(4) by (induction ops arbitrary: st') (simp_all add: started_step)
  then have "spec' = spec1" using assms(5) by (auto simp: started_def only_from_def)
  then show ?thesis using start(2,3) by blast
qed

definition ex_start_spec :: start_spec where
  "ex_start_spec = \<lparr>sp_name = Some ''a'', sp_harness = ''codex'', sp_os_env = None,
     sp_policies = Some [FunctionSpec (plain_spec ''box'') (Some ''p.q'')]\<rparr>"

definition ex_runner :: runner_state where
  "ex_runner = \<lparr>ru_specs = [], ru_agents = [], ru_envs = []\<rparr>"

definition ex_resolve :: "policy_spec \<Rightarrow> unit callable res" where
  "ex_resolve _ = Inr (enforce_sandbox (sandbox_override ''linux_bwrap'' False None None None))"

definition ex_created :: "start_outcome \<times> runner_state" where
  "ex_created = initialize_session ex_resolve (\<lambda>_. []) (\<lambda>_. []) (\<lambda>_. []) [] ''s'' ''a'' (Inr (Some ex_start_spec)) True ex_runner"

definition ex_turns :: "runner_op list" where
  "ex_turns = [ResetCaches ''t'', Turn ''s'' (Some ''a'') (Some ''pi'') (Inr (Some ex_start_spec)) (Inr None)]"

theorem agent_runs_in_the_forced_sandbox_witness:
  "\<exists>spec1 spec2 sb1 sb2. ru_envs (fold (runner_step ex_resolve (\<lambda>_. []) (\<lambda>_. []) (\<lambda>_. []) []) ex_turns (snd ex_created)) =
       [(''s'', EnvOfSpec spec1), (''s'', EnvOfSpec spec2)] \<and>
     declared_sandbox spec1 = Some sb1 \<and> dget sb1 ''allow_network'' = Some (PBool False) \<and>
     declared_sandbox spec2 = Some sb2 \<and> dget sb2 ''allow_network'' = Some (PBool False)"
proof -
  let ?fin = "fold (runner_step ex_resolve (\<lambda>_. []) (\<lambda>_. []) (\<lambda>_. []) []) ex_turns (snd ex_created)"
  have init: "initialize_session ex_resolve (\<lambda>_. []) (\<lambda>_. []) (\<lambda>_. []) [] ''s'' ''a'' (Inr (Some ex_start_spec)) True ex_runner =
      (Created, snd ex_created)" by code_simp
  have new: "map (\<lambda>(s, e). (s, case e of EnvOfSpec _ \<Rightarrow> True | _ \<Rightarrow> False)) (ru_envs ?fin) = [(''s'', True), (''s'', True)]" by code_simp
  then obtain e1 e2 where pair: "ru_envs ?fin = [(''s'', e1), (''s'', e2)]"
    and kinds: "case e1 of EnvOfSpec _ \<Rightarrow> True | _ \<Rightarrow> False" "case e2 of EnvOfSpec _ \<Rightarrow> True | _ \<Rightarrow> False"
    by (auto simp: map_eq_Cons_conv)
  obtain spec1 spec2 where envs: "ru_envs ?fin = [(''s'', EnvOfSpec spec1), (''s'', EnvOfSpec spec2)]"
    using pair kinds by (cases e1; cases e2) simp_all
  have "forces_sandbox ex_resolve (\<lambda>_. []) (\<lambda>_. []) (sandbox_override ''linux_bwrap'' False None None None) ex_start_spec"
    unfolding forces_sandbox_def
    by (intro exI [of _ "[]"] exI [of _ "plain_spec ''box''"] exI [of _ "Some ''p.q''"])
      (simp add: ex_start_spec_def ex_resolve_def gated_phases_def plain_spec_def gate_from_spec_def map_filter_def)
  moreover have "\<forall>op \<in> set ex_turns. same_agent ''s'' ''a'' op" by (simp add: ex_turns_def)
  ultimately have boxed: "\<exists>sb. declared_sandbox spec' = Some sb \<and> forces (sandbox_override ''linux_bwrap'' False None None None)
      (case declared_sandbox ex_start_spec of None \<Rightarrow> default_sandbox | Some d \<Rightarrow> d) sb"
    if "(''s'', EnvOfSpec spec') \<in> set (ru_envs ?fin)" for spec'
    using agent_runs_in_the_forced_sandbox [OF _ _ init, where ops = ex_turns and spec' = spec'] that
    by (simp add: declared_sandbox_def ex_start_spec_def ex_runner_def)
  have "\<exists>sb. declared_sandbox spec' = Some sb \<and> dget sb ''allow_network'' = Some (PBool False)"
    if "(''s'', EnvOfSpec spec') \<in> set (ru_envs ?fin)" for spec'
    using boxed [OF that] by (auto simp: forces_def sandbox_override_def)
  from this [of spec1] this [of spec2] envs show ?thesis by auto
qed

text \<open>
  What ends it. When the caches of the session are reset, the next turn of the same agent resolves the
  specification again and builds the environment from it as declared, without the gate; so does a message
  that is streamed without a turn, with the forced specification still in the cache.
\<close>
theorem reset_drops_the_forced_sandbox:
  assumes "a \<noteq> []" and "harness_or override spec \<in> set spec_env_harnesses"
  shows "ru_envs (runner_step resolve other dumps cls plugins (Turn s (Some a) override (Inr (Some spec)) again)
        (runner_step resolve other dumps cls plugins (ResetCaches s) st)) = ru_envs st @ [(s, EnvOfSpec spec)]
    \<and> ru_envs (runner_step resolve other dumps cls plugins (StreamedMessage s (Some a) None override (Inr (Some spec))) st)
        = ru_envs st @ [(s, EnvOfSpec spec)]"
proof -
  let ?st = "switch_agent s (Some a) (clear_session_agent_caches s st)"
  have "dget (ru_specs ?st) s = None" using assms(1)
    by (simp add: switch_agent_def clear_session_agent_caches_def Let_def split: option.split)
  then have "resolve_session_spec_entry s (Inr (Some spec)) ?st = ?st\<lparr>ru_specs := dset s spec (ru_specs ?st)\<rparr>"
    by (simp add: resolve_session_spec_entry_def)
  then show ?thesis
    using assms by (simp add: turn_setup_def build_spawn_env_from_spec_def stream_message_to_harness_def resolve_harness_config_def
        clear_session_agent_caches_def)
qed

text \<open>
  C26: Switching the agent of a session skips the gate. A specification whose start policy refuses it spawns
  nothing when a session is created with it, but a turn dispatched for it in a session of another agent builds
  the spawn environment from it, with the sandbox it declares (a native harness gets that of its bridge).
\<close>
theorem switched_agent_skips_the_start_gate:
  assumes "evaluate_agent_start_gate resolve other dumps cls spec (sp_harness spec) = Some v" and "pv_action v \<noteq> GateAllow"
    and "dget (ru_agents st) s = Some a" and "b \<noteq> a" and "b \<noteq> []"
  shows "ru_envs (snd (initialize_session resolve other dumps cls plugins s b (Inr (Some spec)) spawns st)) = ru_envs st \<and>
    ru_envs (turn_setup plugins s (Some b) None (Inr (Some spec)) again st) = ru_envs st @
      [(s, if sp_harness spec \<in> set spec_env_harnesses \<or> sp_harness spec \<in> set plugins then EnvOfSpec spec else OtherEnv (sp_harness spec))]"
  using assms by (simp add: initialize_session_def Let_def turn_setup_def switch_agent_def resolve_session_spec_entry_def
      spawn_with_def build_spawn_env_from_spec_def harness_or_def)

definition ex_refuse :: "policy_spec \<Rightarrow> unit callable res" where
  "ex_refuse _ = Inr (\<lambda>_. Inr (deny_response ''no''))"

theorem switched_agent_skips_the_start_gate_witness:
  "ru_envs (turn_setup [] ''s'' (Some ''b'') None (Inr (Some ex_start_spec)) (Inr None) (ex_runner\<lparr>ru_agents := [(''s'', ''a'')]\<rparr>)) =
   [(''s'', EnvOfSpec ex_start_spec)]"
proof -
  let ?gate = "evaluate_agent_start_gate ex_refuse (\<lambda>_. []) (\<lambda>_. []) (\<lambda>_. []) ex_start_spec (sp_harness ex_start_spec)"
  have "?gate = Some (the ?gate)" "pv_action (the ?gate) \<noteq> GateAllow" by code_simp+
  from switched_agent_skips_the_start_gate [OF this, of "ex_runner\<lparr>ru_agents := [(''s'', ''a'')]\<rparr>" "''s''" "''a''" "''b''" "[]" True "Inr None"]
  show ?thesis by (simp add: ex_runner_def ex_start_spec_def spec_env_harnesses_def)
qed

end
