(* ===== verification/Builtin_Cost.thy ===== *)
theory Builtin_Cost
  imports Builtin_Safety
begin

text \<open>
  The cost budgets of \<^verbatim>\<open>codify/policies/builtins/cost.py\<close>: the session budget, the daily budget of a
  user and the budget of a sub-agent's subtree. Amounts are exact reals and \<open>money\<close> is the format \<open>:.2f\<close>;
  the texts of configuration errors leave out the offending values.
\<close>

section \<open>Readings of an event\<close>

definition usage_is_unpriced :: "usage \<Rightarrow> bool" where
  "usage_is_unpriced u \<longleftrightarrow> dget u ''total_cost_usd'' = None \<and>
     list_ex (\<lambda>k. case dget u k of None \<Rightarrow> False | Some n \<Rightarrow> n \<noteq> 0) [''input_tokens'', ''output_tokens'', ''total_tokens'']"

definition total_cost :: "usage \<Rightarrow> real" where
  "total_cost u = (case dget u ''total_cost_usd'' of None \<Rightarrow> 0 | Some c \<Rightarrow> c)"

definition session_cost_usd :: "'c policy_event \<Rightarrow> real" where
  "session_cost_usd ev = total_cost (vc_usage (ev_context ev))"

definition subtree_cost_usd :: "'c policy_event \<Rightarrow> real" where
  "subtree_cost_usd ev = total_cost (vc_subtree_usage (ev_context ev))"

definition daily_amount :: "string \<Rightarrow> 'c policy_event \<Rightarrow> real" where
  "daily_amount key ev =
     (case dget (vc_user_daily_cost (ev_context ev)) key of
        None \<Rightarrow> 0 | Some raw \<Rightarrow> (case py_float raw of None \<Rightarrow> 0 | Some c \<Rightarrow> c))"

definition user_daily_cost_usd :: "'c policy_event \<Rightarrow> real" where
  "user_daily_cost_usd = daily_amount ''cost_usd''"

definition user_daily_ask_approved_usd :: "'c policy_event \<Rightarrow> real" where
  "user_daily_ask_approved_usd = daily_amount ''ask_approved_usd''"

definition user_daily_owner :: "'c policy_event \<Rightarrow> string option" where
  "user_daily_owner ev =
     (case dget (vc_user_daily_cost (ev_context ev)) ''user_id'' of Some (PStr u) \<Rightarrow> if u = [] then None else Some u | _ \<Rightarrow> None)"

definition non_empty :: "string option \<Rightarrow> string option" where
  "non_empty v = (case v of Some s \<Rightarrow> if s = [] then None else Some s | None \<Rightarrow> None)"

definition current_model :: "'c policy_event \<Rightarrow> string option" where
  "current_model ev = non_empty (vc_model (ev_context ev))"

definition current_harness :: "'c policy_event \<Rightarrow> string option" where
  "current_harness ev = non_empty (vc_harness (ev_context ev))"

definition gated_phase_values :: "string list" where
  "gated_phase_values = [''request'', ''tool_call'']"

section \<open>Expensive models\<close>

record expensive_models =
  em_expensive_tokens :: "string list"
  em_exclude_tokens :: "string list"
  em_hard_cap_enabled :: bool
  em_block_all_models :: bool

definition resolve_expensive_models :: "string list option \<Rightarrow> expensive_models res" where
  "resolve_expensive_models models =
     (if or_empty models = []
      then Inr \<lparr>em_expensive_tokens = [], em_exclude_tokens = [], em_hard_cap_enabled = True, em_block_all_models = True\<rparr>
      else if list_ex (\<lambda>m. m = []) (or_empty models)
      then Inl (ValueError ''each expensive_models value must be a non-empty string'')
      else Inr \<lparr>em_expensive_tokens = map lower (or_empty models), em_exclude_tokens = [], em_hard_cap_enabled = True,
                em_block_all_models = False\<rparr>)"

definition model_blocked_over_budget :: "string option \<Rightarrow> expensive_models \<Rightarrow> bool" where
  "model_blocked_over_budget model cfg \<longleftrightarrow>
     (if em_block_all_models cfg then True
      else case model of
        None \<Rightarrow> True
      | Some m \<Rightarrow>
          if list_ex (\<lambda>t. contains (lower m) t) (em_exclude_tokens cfg) then False
          else list_ex (\<lambda>t. contains (lower m) t) (em_expensive_tokens cfg))"

definition em_dash :: string where "em_dash = [CHR 0xE2, CHR 0x80, CHR 0x94]"

definition over_budget_deny_reason ::
  "(real \<Rightarrow> string) \<Rightarrow> real \<Rightarrow> real \<Rightarrow> string list \<Rightarrow> string option \<Rightarrow> string \<Rightarrow> string \<Rightarrow> string \<Rightarrow> string option \<Rightarrow> bool \<Rightarrow> string" where
  "over_budget_deny_reason money cost max_cost expensive harness phase policy_label budget_label subject_user block_all =
     (let subject = (case subject_user of None \<Rightarrow> ''spend'' | Some u \<Rightarrow> u @ [CHR 0x27] @ ''s spend'');
          blocked = ''Blocked by the '' @ policy_label @ '' policy: '' @ subject @ '' $'' @ money cost @ '' reached the $'' @ money max_cost @
            '' limit'';
          hit = ''You'' @ [CHR 0x27] @ ''ve hit the $'' @ money max_cost @ '' '' @ budget_label
      in if block_all then
           (let verbatim = hit @ ''. All model calls are blocked over budget.''
            in if phase = ''request'' then blocked @ ''. '' @ verbatim
               else blocked @ '', and all further tool calls are blocked. Relay this to the user verbatim, then stop and wait for them '' @
                 em_dash @ '' do not silently re-run the tool right now: '' @ [CHR 0x22] @ verbatim @ [CHR 0x22])
         else
           (let names = join '', '' expensive;
                expensive_list = (if names = [] then ''the configured high-cost models'' else names);
                switch_hint = (case harness of
                    Some h \<Rightarrow> if contains h ''codex'' then ''in the terminal, run /model and pick a cheaper model to continue''
                              else ''switch to a cheaper model to continue''
                  | None \<Rightarrow> ''switch to a cheaper model to continue'');
                verbatim = hit @ ''. High-cost models ('' @ expensive_list @ '') are blocked over budget '' @ em_dash @ '' '' @ switch_hint @ ''.''
            in if phase = ''request'' then blocked @ ''. '' @ verbatim
               else blocked @ '', and tool calls are blocked while on a high-cost model. Relay this to the user verbatim, then stop and wait for them '' @
                 em_dash @ '' do not silently re-run the tool right now: '' @ [CHR 0x22] @ verbatim @ [CHR 0x22] @
                 '' This block is NOT permanent: once the user switches to a cheaper model and asks you to continue, actually re-issue the tool call (it will be allowed) '' @
                 em_dash @ '' do not just repeat this message.''))"

section \<open>Checkpoints\<close>

definition unpriced_ask :: raw where
  "unpriced_ask =
     RawDict [(''result'', PStr ''ASK''),
       (''reason'', PStr (''The active model has no catalog pricing so cumulative spend cannot be tracked. Continuing will allow untracked spend that counts against neither the cap nor the warning thresholds. Switch to a priced model to restore budget enforcement, or approve to continue without it.'')),
       (''state_updates'', PList [entry_value SESSION_COST_UNPRICED_APPROVED_KEY ''set'' (PBool True)])]"

definition unpriced_response :: "'c policy_event \<Rightarrow> raw" where
  "unpriced_response ev =
     (case dget (ev_session_state ev) SESSION_COST_UNPRICED_APPROVED_KEY of
        None \<Rightarrow> unpriced_ask
      | Some v \<Rightarrow> if py_truth v then allow_response else unpriced_ask)"

definition crossed_checkpoint :: "real list \<Rightarrow> real \<Rightarrow> real option" where
  \<comment> \<open>\<open>max((t for t in thresholds if cost >= t), default=None)\<close>\<close>
  "crossed_checkpoint thresholds cost =
     (let ts = filter (\<lambda>t. t \<le> cost) thresholds in if ts = [] then None else Some (foldr max ts (hd ts)))"

definition approved_up_to :: "string \<Rightarrow> 'c policy_event \<Rightarrow> real res" where
  "approved_up_to key ev =
     (case dget (ev_session_state ev) key of
        None \<Rightarrow> Inr 0
      | Some v \<Rightarrow>
          (case v of
             PNone \<Rightarrow> Inr 0 | PList _ \<Rightarrow> Inr 0 | PDict _ \<Rightarrow> Inr 0
           | _ \<Rightarrow> (case py_float v of Some r \<Rightarrow> Inr r | None \<Rightarrow> Inl (ValueError ''could not convert string to float''))))"

definition checkpoint_ask :: "string \<Rightarrow> string \<Rightarrow> real \<Rightarrow> raw" where
  "checkpoint_ask key reason crossed =
     RawDict [(''result'', PStr ''ASK''), (''reason'', PStr reason), (''state_updates'', PList [entry_value key ''set'' (PFloat crossed)])]"

definition budget_thresholds :: "real option \<Rightarrow> real list option \<Rightarrow> real list res" where
  \<comment> \<open>the checks of the three factories\<close>
  "budget_thresholds max_cost ask_thresholds =
     (if max_cost = None \<and> or_empty ask_thresholds = [] then Inl (ValueError ''requires max_cost_usd and/or ask_thresholds_usd'')
      else if (case max_cost of None \<Rightarrow> False | Some m \<Rightarrow> m \<le> 0) then Inl (ValueError ''max_cost_usd must be > 0'')
      else
        (let thresholds = sort (remdups (or_empty ask_thresholds))
         in if (case max_cost of None \<Rightarrow> False | Some m \<Rightarrow> list_ex (\<lambda>t. \<not> (0 < t \<and> t < m)) thresholds)
            then Inl (ValueError ''each ask_thresholds_usd value must be in (0, max_cost_usd)'')
            else Inr thresholds))"

section \<open>The budgets\<close>

definition over_cap :: "real option \<Rightarrow> expensive_models \<Rightarrow> real \<Rightarrow> bool" where
  "over_cap max_cost cfg cost \<longleftrightarrow> em_hard_cap_enabled cfg \<and> (case max_cost of None \<Rightarrow> False | Some m \<Rightarrow> m \<le> cost)"

definition limit_text :: "(real \<Rightarrow> string) \<Rightarrow> real option \<Rightarrow> string" where
  "limit_text money max_cost = (case max_cost of None \<Rightarrow> [] | Some m \<Rightarrow> '' (limit $'' @ money m @ '')'')"

definition cost_budget_evaluate :: "(real \<Rightarrow> string) \<Rightarrow> real option \<Rightarrow> real list \<Rightarrow> expensive_models \<Rightarrow> 'c callable" where
  "cost_budget_evaluate money max_cost thresholds cfg ev =
     (if ev_type ev \<notin> set gated_phase_values then Inr allow_response
      else if usage_is_unpriced (vc_usage (ev_context ev)) then Inr (unpriced_response ev)
      else
        (let cost = session_cost_usd ev
         in if over_cap max_cost cfg cost then
              (if model_blocked_over_budget (current_model ev) cfg
               then Inr (deny_response (over_budget_deny_reason money cost (the max_cost) (em_expensive_tokens cfg) (current_harness ev)
                      (ev_type ev) ''session cost-budget'' ''cost budget'' None (em_block_all_models cfg)))
               else Inr allow_response)
            else case crossed_checkpoint thresholds cost of
              None \<Rightarrow> Inr allow_response
            | Some crossed \<Rightarrow>
                bindR (approved_up_to SESSION_COST_ASK_APPROVED_STATE_KEY ev) (\<lambda>approved.
                  Inr (if approved < crossed
                       then checkpoint_ask SESSION_COST_ASK_APPROVED_STATE_KEY
                         (''Session cost $'' @ money cost @ '' passed the $'' @ money crossed @ '' warning threshold'' @
                          limit_text money max_cost @ ''. Continue?'') crossed
                       else allow_response))))"

definition cost_budget :: "(real \<Rightarrow> string) \<Rightarrow> real option \<Rightarrow> real list option \<Rightarrow> string list option \<Rightarrow> 'c callable res" where
  "cost_budget money max_cost ask_thresholds models =
     bindR (budget_thresholds max_cost ask_thresholds) (\<lambda>thresholds.
       bindR (resolve_expensive_models models) (\<lambda>cfg. Inr (cost_budget_evaluate money max_cost thresholds cfg)))"

definition user_daily_cost_budget_evaluate :: "(real \<Rightarrow> string) \<Rightarrow> real \<Rightarrow> real list \<Rightarrow> expensive_models \<Rightarrow> 'c callable" where
  "user_daily_cost_budget_evaluate money max_cost thresholds cfg ev =
     (if ev_type ev \<notin> set gated_phase_values then Inr allow_response
      else if usage_is_unpriced (vc_usage (ev_context ev)) then Inr (unpriced_response ev)
      else
        (let cost = user_daily_cost_usd ev; owner = user_daily_owner ev
         in if over_cap (Some max_cost) cfg cost then
              (if model_blocked_over_budget (current_model ev) cfg
               then Inr (deny_response (over_budget_deny_reason money cost max_cost (em_expensive_tokens cfg) (current_harness ev)
                      (ev_type ev) ''per-user daily cost-budget'' ''daily cost budget'' owner (em_block_all_models cfg)))
               else Inr allow_response)
            else case crossed_checkpoint thresholds cost of
              None \<Rightarrow> Inr allow_response
            | Some crossed \<Rightarrow>
                Inr (if user_daily_ask_approved_usd ev < crossed
                     then checkpoint_ask USER_DAILY_ASK_APPROVED_STATE_KEY
                       ((case owner of None \<Rightarrow> ''Today'' @ [CHR 0x27] @ ''s spend'' | Some u \<Rightarrow> u @ [CHR 0x27] @ ''s spend today'') @ '' $'' @
                        money cost @ '' passed the $'' @ money crossed @ '' daily warning threshold (daily limit $'' @ money max_cost @
                        ''). Continue?'') crossed
                     else allow_response)))"

definition user_daily_cost_budget :: "(real \<Rightarrow> string) \<Rightarrow> real \<Rightarrow> real list option \<Rightarrow> string list option \<Rightarrow> 'c callable res" where
  "user_daily_cost_budget money max_cost ask_thresholds models =
     bindR (budget_thresholds (Some max_cost) ask_thresholds) (\<lambda>thresholds.
       bindR (resolve_expensive_models models) (\<lambda>cfg. Inr (user_daily_cost_budget_evaluate money max_cost thresholds cfg)))"

definition SUBAGENT_ASK_APPROVED_KEY :: string where
  "SUBAGENT_ASK_APPROVED_KEY = ''subagent_cost_ask_approved_usd''"

definition subagent_cost_budget_evaluate :: "(real \<Rightarrow> string) \<Rightarrow> real option \<Rightarrow> real list \<Rightarrow> expensive_models \<Rightarrow> 'c callable" where
  "subagent_cost_budget_evaluate money max_cost thresholds cfg ev =
     (if ev_type ev \<notin> set gated_phase_values then Inr allow_response
      else if usage_is_unpriced (vc_subtree_usage (ev_context ev)) then Inr (unpriced_response ev)
      else
        (let cost = subtree_cost_usd ev
         in if over_cap max_cost cfg cost then
              (if model_blocked_over_budget (current_model ev) cfg
               then Inr (deny_response (over_budget_deny_reason money cost (the max_cost) (em_expensive_tokens cfg) (current_harness ev)
                      (ev_type ev) ''subagent cost-budget'' ''subagent cost budget'' None (em_block_all_models cfg)))
               else Inr allow_response)
            else case crossed_checkpoint thresholds cost of
              None \<Rightarrow> Inr allow_response
            | Some crossed \<Rightarrow>
                bindR (approved_up_to SUBAGENT_ASK_APPROVED_KEY ev) (\<lambda>approved.
                  Inr (if approved < crossed
                       then checkpoint_ask SUBAGENT_ASK_APPROVED_KEY
                         (''Subagent subtree cost $'' @ money cost @ '' passed the $'' @ money crossed @ '' warning threshold'' @
                          limit_text money max_cost @ ''. Continue?'') crossed
                       else allow_response))))"

definition subagent_cost_budget :: "(real \<Rightarrow> string) \<Rightarrow> real option \<Rightarrow> real list option \<Rightarrow> string list option \<Rightarrow> 'c callable res" where
  "subagent_cost_budget money max_cost ask_thresholds models =
     bindR (budget_thresholds max_cost ask_thresholds) (\<lambda>thresholds.
       bindR (resolve_expensive_models models) (\<lambda>cfg. Inr (subagent_cost_budget_evaluate money max_cost thresholds cfg)))"

end
