(* ===== verification/Builtin_Cost_Props.thy ===== *)
theory Builtin_Cost_Props
  imports Builtin_Cost Builtin_Safety_Props
begin

text \<open>
  What a session cost budget guarantees when it is one policy of an engine: a session over its limit is
  blocked, and every checkpoint is approved at most once while the session goes on and spends.
\<close>

section \<open>The limit\<close>

lemma injected_usage [simp]:
  "vc_usage (ev_context (build_event (inject eng ctx\<lparr>cx_content := d\<rparr>))) = e_usage eng"
  by simp

definition effective_model :: "('p, 'c) engine \<Rightarrow> 'c evaluation_context \<Rightarrow> string option" where
  \<comment> \<open>the model a policy of the engine may_see\<close>
  "effective_model eng ctx = non_empty (case cx_model ctx of None \<Rightarrow> e_model eng | Some m \<Rightarrow> Some m)"

lemma cost_budget_deny:
  assumes "cx_phase ctx \<in> {REQUEST, TOOL_CALL}" and "dget (e_usage eng) ''total_cost_usd'' = Some c" and "limit \<le> c"
    and "em_hard_cap_enabled cfg" and "model_blocked_over_budget (effective_model eng ctx) cfg"
  shows "\<exists>reason. cost_budget_evaluate money (Some limit) ts cfg (build_event (inject eng ctx\<lparr>cx_content := d\<rparr>)) = Inr (deny_response reason)"
proof -
  let ?ev = "build_event (inject eng ctx\<lparr>cx_content := d\<rparr>)"
  have "ev_type ?ev \<in> set gated_phase_values" using assms(1) by (auto simp: gated_phase_values_def)
  moreover have "\<not> usage_is_unpriced (vc_usage (ev_context ?ev))" using assms(2) by (simp add: usage_is_unpriced_def)
  moreover have "over_cap (Some limit) cfg (session_cost_usd ?ev)"
    using assms(2-4) by (simp add: over_cap_def session_cost_usd_def total_cost_def)
  moreover have "model_blocked_over_budget (current_model ?ev) cfg"
    using assms(5) by (simp add: current_model_def effective_model_def cong: option.case_cong)
  ultimately show ?thesis unfolding cost_budget_evaluate_def Let_def by (simp only: if_True if_False simp_thms) blast
qed

lemma cost_budget_parts:
  assumes "cost_budget money max_cost ask_thresholds models = Inr f"
  obtains ts cfg where "f = cost_budget_evaluate money max_cost ts cfg" "resolve_expensive_models models = Inr cfg"
    "budget_thresholds max_cost ask_thresholds = Inr ts"
  using assms unfolding cost_budget_def by (auto simp: bindR_Inr_iff)

lemma resolve_hard_cap: "resolve_expensive_models models = Inr cfg \<Longrightarrow> em_hard_cap_enabled cfg"
  by (auto simp: resolve_expensive_models_def split: if_splits)

lemma budget_denied:
  \<comment> \<open>over the limit every request and every tool call is denied while the model is one the budget blocks\<close>
  assumes "e_policies eng = qs @ p # ps" and "snd (pol_state p) = f" and "unconditional (pol_spec p)"
    and "cost_budget money (Some limit) ask_thresholds models = Inr f" and "resolve_expensive_models models = Inr cfg"
    and "cx_phase ctx \<in> {REQUEST, TOOL_CALL}" and "dget (e_usage eng) ''total_cost_usd'' = Some c" and "limit \<le> c"
    and "model_blocked_over_budget (effective_model eng ctx) cfg"
    and "fst (evaluate_composed day (evaluate_function other) read_only ctx eng) = Inr r"
  shows "r_action r = DENY"
proof (rule evaluate_denied [OF assms(1) _ _ assms(10)])
  fix d
  obtain ts where f: "f = cost_budget_evaluate money (Some limit) ts cfg"
    using cost_budget_parts [OF assms(4)] assms(5) by (metis sum.inject(2))
  obtain reason where "cost_budget_evaluate money (Some limit) ts cfg (build_event (inject eng ctx\<lparr>cx_content := d\<rparr>)) = Inr (deny_response reason)"
    using cost_budget_deny [OF assms(6-8) resolve_hard_cap [OF assms(5)] assms(9)] by blast
  then show "r_action (snd (answer (evaluate_function other) (context_of eng) (inject eng ctx) p d)) = DENY"
    by (simp add: answer_result assms(2) f)
qed (use assms(3) in simp)


section \<open>Checkpoints\<close>

abbreviation approved_key :: string where
  "approved_key \<equiv> SESSION_COST_ASK_APPROVED_STATE_KEY"

definition amount :: "real \<Rightarrow> pyval option \<Rightarrow> bool" where
  \<comment> \<open>the amount approved so far\<close>
  "amount r v \<longleftrightarrow> v = Some (PFloat r) \<or> v = None \<and> r = 0"

definition crossed_now :: "real option \<Rightarrow> real list \<Rightarrow> expensive_models \<Rightarrow> ('p, 'c) engine \<Rightarrow> 'c evaluation_context \<Rightarrow> real option" where
  \<comment> \<open>the highest checkpoint the spend has crossed, at a phase where the budget looks at it and below the limit\<close>
  "crossed_now max_cost ts cfg eng ctx =
     (if cx_phase ctx \<notin> {REQUEST, TOOL_CALL} \<or> usage_is_unpriced (e_usage eng) \<or> over_cap max_cost cfg (total_cost (e_usage eng)) then None
      else crossed_checkpoint ts (total_cost (e_usage eng)))"

definition asked_checkpoint :: "real option \<Rightarrow> real list \<Rightarrow> expensive_models \<Rightarrow> real \<Rightarrow> ('p, 'c) engine \<Rightarrow> 'c evaluation_context \<Rightarrow> real option" where
  \<comment> \<open>the checkpoint the budget asks about, when the amount \<open>r\<close> is approved\<close>
  "asked_checkpoint max_cost ts cfg r eng ctx =
     (if cx_phase ctx \<notin> {REQUEST, TOOL_CALL} \<or> usage_is_unpriced (e_usage eng) \<or> over_cap max_cost cfg (total_cost (e_usage eng)) then None
      else case crossed_checkpoint ts (total_cost (e_usage eng)) of
        None \<Rightarrow> None | Some c \<Rightarrow> if r < c then Some c else None)"

lemma asked_crossed: "asked_checkpoint max_cost ts cfg r eng ctx =
    (case crossed_now max_cost ts cfg eng ctx of None \<Rightarrow> None | Some c \<Rightarrow> if r < c then Some c else None)"
  by (simp add: asked_checkpoint_def crossed_now_def)

lemma crossed_in:
  assumes "crossed_checkpoint ts cost = Some c"
  shows "c \<in> set ts \<and> c \<le> cost"
proof -
  let ?ts = "filter (\<lambda>t. t \<le> cost) ts"
  have "foldr max xs x \<in> insert x (set xs)" for xs and x :: real by (induction xs) (auto simp: max_def)
  then have "foldr max ?ts (hd ?ts) \<in> insert (hd ?ts) (set ?ts)" .
  moreover have "?ts \<noteq> []" "c = foldr max ?ts (hd ?ts)"
    using assms by (auto simp: crossed_checkpoint_def Let_def split: if_splits)
  ultimately have "c \<in> set ?ts" using hd_in_set [of ?ts] by auto
  then show ?thesis by simp
qed

lemma coerce_checkpoint [simp]:
  "coerce_to_policy_result other name (checkpoint_ask key reason c) =
     Inr (verdict ASK (Some reason) [\<lparr>su_key = key, su_action = SET, su_value = PFloat c\<rparr>])"
  unfolding checkpoint_ask_def by (rule coerce_response(2)) simp_all

lemma coerce_unpriced:
  "\<exists>reason. coerce_to_policy_result other name unpriced_ask =
     Inr (verdict ASK (Some reason) [\<lparr>su_key = SESSION_COST_UNPRICED_APPROVED_KEY, su_action = SET, su_value = PBool True\<rparr>])"
  unfolding unpriced_ask_def by (rule exI, rule coerce_response(2)) simp_all

lemma approved_amount: "amount r (dget (ev_session_state ev) key) \<Longrightarrow> approved_up_to key ev = Inr r"
  by (auto simp: amount_def approved_up_to_def)

lemma keys_differ: "SESSION_COST_UNPRICED_APPROVED_KEY \<noteq> approved_key"
  by (simp add: SESSION_COST_ASK_APPROVED_STATE_KEY_def SESSION_COST_UNPRICED_APPROVED_KEY_def)

lemma budget_answer:
  assumes "snd (pol_state p) = cost_budget_evaluate money max_cost ts cfg" and "amount r (dget (e_session_state eng) approved_key)"
    and sr_def: "sr = snd (answer (evaluate_function other) ec (inject eng ctx) p d)"
  shows "on_key approved_key (updates_of sr) = (case asked_checkpoint max_cost ts cfg r eng ctx of
      None \<Rightarrow> [] | Some c \<Rightarrow> [\<lparr>su_key = approved_key, su_action = SET, su_value = PFloat c\<rparr>]) \<and>
    (asked_checkpoint max_cost ts cfg r eng ctx \<noteq> None \<longrightarrow> r_action sr = ASK)"
proof -
  let ?ev = "build_event (inject eng ctx\<lparr>cx_content := d\<rparr>)"
  have phase_iff: "ev_type ?ev \<notin> set gated_phase_values \<longleftrightarrow> cx_phase ctx \<notin> {REQUEST, TOOL_CALL}"
    by (auto simp: gated_phase_values_def)
  have approved: "approved_up_to approved_key ?ev = Inr r" using assms(2) by (intro approved_amount) simp
  have sr: "sr = (case bindR (cost_budget_evaluate money max_cost ts cfg ?ev) (coerce_to_policy_result other (fst (pol_state p))) of
      Inr r \<Rightarrow> r | Inl e \<Rightarrow> verdict DENY (Some (''policy '' @ py_repr (ps_name (pol_spec p)) @ '' failed: '' @ exn_text e)) [])"
    unfolding sr_def answer_result assms(1) ..
  have cost: "session_cost_usd ?ev = total_cost (e_usage eng)" by (simp add: session_cost_usd_def)
  consider (phase) "cx_phase ctx \<notin> {REQUEST, TOOL_CALL}" | (unpriced) "cx_phase ctx \<in> {REQUEST, TOOL_CALL}" "usage_is_unpriced (e_usage eng)"
    | (cap) "cx_phase ctx \<in> {REQUEST, TOOL_CALL}" "\<not> usage_is_unpriced (e_usage eng)" "over_cap max_cost cfg (total_cost (e_usage eng))"
    | (soft) "cx_phase ctx \<in> {REQUEST, TOOL_CALL}" "\<not> usage_is_unpriced (e_usage eng)" "\<not> over_cap max_cost cfg (total_cost (e_usage eng))"
    by blast
  then show ?thesis
  proof cases
    case phase
    then show ?thesis unfolding sr cost_budget_evaluate_def asked_checkpoint_def unfolding phase_iff using phase
      by (simp add: allowed_verdict)
  next
    case unpriced
    obtain reason where "coerce_to_policy_result other (fst (pol_state p)) unpriced_ask =
        Inr (verdict ASK (Some reason) [\<lparr>su_key = SESSION_COST_UNPRICED_APPROVED_KEY, su_action = SET, su_value = PBool True\<rparr>])"
      using coerce_unpriced by blast
    then show ?thesis unfolding sr cost_budget_evaluate_def asked_checkpoint_def phase_iff using unpriced keys_differ
      by (simp add: allowed_verdict unpriced_response_def split: option.split)
  next
    case cap
    then show ?thesis unfolding sr cost_budget_evaluate_def asked_checkpoint_def phase_iff cost Let_def
      by (simp add: allowed_verdict)
  next
    case soft
    then show ?thesis unfolding sr cost_budget_evaluate_def asked_checkpoint_def phase_iff cost Let_def approved
      by (simp add: allowed_verdict split: option.split)
  qed
qed


datatype 'c spend_op =
    Act "'c evaluation_context" parked   \<comment> \<open>an action is attempted, with the verdict if somebody is asked\<close>
  | Spend token_counts                   \<comment> \<open>the usage of a turn is recorded\<close>

fun spend_run ::
  "string \<Rightarrow> (pyval \<Rightarrow> string) \<Rightarrow> (string \<Rightarrow> pyval option) \<Rightarrow> (real \<Rightarrow> ('c function_policy, 'c) engine \<Rightarrow> 'c evaluation_context \<Rightarrow> real option) \<Rightarrow>
   'c spend_op list \<Rightarrow> ('c function_policy, 'c) engine \<Rightarrow> (real \<times> bool) list" where
  \<comment> \<open>the checkpoints that actions went ahead over, each with whether somebody accepted it\<close>
  "spend_run day other loads asked [] eng = []"
| "spend_run day other loads asked (Spend t # ops) eng = spend_run day other loads asked ops (snd (record_usage t eng))"
| "spend_run day other loads asked (Act ctx v # ops) eng =
     (let (ok, eng') = attempt day other loads (ctx, v) eng;
          r = (case dget (e_session_state eng) approved_key of Some (PFloat r) \<Rightarrow> r | _ \<Rightarrow> 0)
      in (case asked r eng ctx of Some c \<Rightarrow> if ok then [(c, accepted loads v)] else [] | None \<Rightarrow> [])
         @ spend_run day other loads asked ops eng')"

fun spend_trace ::
  "string \<Rightarrow> (pyval \<Rightarrow> string) \<Rightarrow> (string \<Rightarrow> pyval option) \<Rightarrow> (('c function_policy, 'c) engine \<Rightarrow> 'c evaluation_context \<Rightarrow> real option) \<Rightarrow>
   'c spend_op list \<Rightarrow> ('c function_policy, 'c) engine \<Rightarrow> (real \<times> bool \<times> bool) list" where
  \<comment> \<open>the actions attempted over a checkpoint: the checkpoint, whether the action went ahead and whether its verdict is an acceptance\<close>
  "spend_trace day other loads crossed [] eng = []"
| "spend_trace day other loads crossed (Spend t # ops) eng = spend_trace day other loads crossed ops (snd (record_usage t eng))"
| "spend_trace day other loads crossed (Act ctx v # ops) eng =
     (let (ok, eng') = attempt day other loads (ctx, v) eng
      in (case crossed eng ctx of Some c \<Rightarrow> [(c, ok, accepted loads v)] | None \<Rightarrow> []) @ spend_trace day other loads crossed ops eng')"

fun authorised :: "real \<Rightarrow> (real \<times> bool \<times> bool) list \<Rightarrow> bool" where
  \<comment> \<open>every action that went ahead over a checkpoint was accepted, or that checkpoint or a higher one was before\<close>
  "authorised r [] \<longleftrightarrow> True"
| "authorised r ((c, ok, yes) # xs) \<longleftrightarrow> (ok \<longrightarrow> yes \<or> c \<le> r) \<and> authorised (if yes then max r c else r) xs"

lemma amount_read: "amount r v \<Longrightarrow> (case v of Some (PFloat r) \<Rightarrow> r | _ \<Rightarrow> 0) = r"
  by (auto simp: amount_def)

lemma key_after_set [simp]: "key_after \<lparr>su_key = k, su_action = SET, su_value = x\<rparr> v = Inr (Some x)"
  by (simp add: key_after_def apply_one_def)

lemma budget_step:
  assumes eng: "e_policies eng = qs @ p # ps" and p: "snd (pol_state p) = cost_budget_evaluate money max_cost ts cfg" "unconditional (pol_spec p)"
    and root: "e_root_conversation_id eng = e_conversation_id eng"
    and others: "\<And>q. q \<in> set qs \<union> set ps \<Longrightarrow> leaves_key approved_key other q"
    and r: "amount r (dget (e_session_state eng) approved_key)" and att: "attempt day other loads (ctx, v) eng = (ok, eng')"
  obtains r' where "amount r' (dget (e_session_state eng') approved_key)" "e_policies eng' = e_policies eng" "r \<le> r'"
    "\<forall>c. asked_checkpoint max_cost ts cfg r eng ctx = Some c \<and> ok \<longrightarrow> r' = c \<and> accepted loads v"
    "r' = r \<or> asked_checkpoint max_cost ts cfg r eng ctx = Some r'"
    "\<not> accepted loads v \<and> (\<forall>q \<in> set ps. never_denies other q) \<longrightarrow> r' = r"
proof -
  have K: "\<not> reserved eng approved_key"
    using root by (simp add: reserved_def SESSION_COST_ASK_APPROVED_STATE_KEY_def USER_DAILY_ASK_APPROVED_STATE_KEY_def)
  let ?ans = "\<lambda>d. snd (answer (evaluate_function other) (context_of eng) (inject eng ctx) p d)"
  let ?asked = "asked_checkpoint max_cost ts cfg r eng ctx"
  note ans = budget_answer [OF p(1) r refl, of other "context_of eng" ctx]
  obtain us k where step: "e_policies eng' = e_policies eng"
    "us = [] \<or> should_fire (e_labels eng) (pol_spec p) ctx \<and>
       (\<exists>d. may_see (evaluate_function other) (context_of eng) (inject eng ctx) qs d \<and> us = updates_of (?ans d))"
    "key_afters (take k (on_key approved_key us)) (dget (e_session_state eng) approved_key) = Inr (dget (e_session_state eng') approved_key)"
    "ok \<longrightarrow> k = length (on_key approved_key us)"
    "ok \<longrightarrow> should_fire (e_labels eng) (pol_spec p) ctx \<longrightarrow>
       (\<exists>d. may_see (evaluate_function other) (context_of eng) (inject eng ctx) qs d \<and> us = updates_of (?ans d) \<and>
          r_action (?ans d) \<noteq> DENY \<and> (\<not> accepted loads v \<longrightarrow> r_action (?ans d) = ALLOW))"
    using attempt_key [OF eng others K att refl refl] unfolding fst_conv snd_conv by metis
  have asking: "on_key approved_key (updates_of (?ans d)) = [] \<or> r_action (?ans d) = ASK" for d
    using ans [of d] by (cases ?asked) auto
  have unaccepted: "dget (e_session_state eng') approved_key = dget (e_session_state eng) approved_key"
    if "\<not> accepted loads v \<and> (\<forall>q \<in> set ps. never_denies other q)"
    by (rule attempt_unaccepted [OF eng _ K att]) (use others that asking in auto)
  show ?thesis
  proof (cases "take k (on_key approved_key us) = []")
    case True
    then have same: "dget (e_session_state eng') approved_key = dget (e_session_state eng) approved_key"
      using step(3) unfolding True by simp
    have "\<not> ok" if "?asked = Some c" for c
    proof
      assume ok
      with step(5) p(2) obtain d where "us = updates_of (?ans d)" by auto
      then have "on_key approved_key us \<noteq> []" using ans [of d] that by simp
      then show False using True step(4) \<open>ok\<close> by simp
    qed
    then show ?thesis using r same step(1) by (intro that [of r]) auto
  next
    case False
    then have "us \<noteq> []" by auto
    then obtain d where "us = updates_of (?ans d)" using step(2) by blast
    with False ans [of d] obtain c where c: "?asked = Some c"
      "take k (on_key approved_key us) = [\<lparr>su_key = approved_key, su_action = SET, su_value = PFloat c\<rparr>]"
      by (cases ?asked) (auto simp: take_one split: if_splits)
    then have now: "dget (e_session_state eng') approved_key = Some (PFloat c)" using step(3) by simp
    have "r \<le> c" using c(1) by (auto simp: asked_checkpoint_def split: if_splits option.splits)
    moreover have "accepted loads v" if ok
    proof (rule ccontr)
      assume no: "\<not> accepted loads v"
      from step(5) p(2) that obtain d' where "\<not> accepted loads v \<longrightarrow> r_action (?ans d') = ALLOW" by auto
      with no ans [of d'] c(1) show False by simp
    qed
    moreover have "\<not> (\<not> accepted loads v \<and> (\<forall>q \<in> set ps. never_denies other q)) \<or> c = r"
    proof (cases "\<not> accepted loads v \<and> (\<forall>q \<in> set ps. never_denies other q)")
      case True
      from unaccepted [OF this] now r show ?thesis by (auto simp: amount_def)
    qed simp
    ultimately show ?thesis using c(1) now step(1) by (intro that [of c]) (auto simp: amount_def)
  qed
qed

lemma attempt_ids:
  assumes "attempt day other loads act eng = (ok, eng')"
  shows "e_root_conversation_id eng' = e_root_conversation_id eng \<and> e_conversation_id eng' = e_conversation_id eng"
  using assms refl
proof (cases rule: attempt_commits)
  case (written out eng1 ls ls')
  then show ?thesis using apply_state_updates_fields [OF written(1)] by simp
qed simp

lemma record_usage_keeps:
  "e_root_conversation_id (snd (record_usage t eng)) = e_root_conversation_id eng"
  "e_conversation_id (snd (record_usage t eng)) = e_conversation_id eng"
  "e_session_state (snd (record_usage t eng)) = e_session_state eng" "e_policies (snd (record_usage t eng)) = e_policies eng"
  by (auto simp: record_usage_def Let_def split: prod.splits sum.splits option.splits)

lemma checkpoints_increase:
  assumes "e_policies eng = qs @ p # ps" and "snd (pol_state p) = f" and "unconditional (pol_spec p)"
    and "cost_budget money max_cost ask_thresholds models = Inr f" and "resolve_expensive_models models = Inr cfg"
    and "budget_thresholds max_cost ask_thresholds = Inr ts"
    and "e_root_conversation_id eng = e_conversation_id eng"
    and "\<And>q. q \<in> set qs \<union> set ps \<Longrightarrow> leaves_key approved_key other q"
    and "amount r (dget (e_session_state eng) approved_key)"
    and "passed = spend_run day other loads (asked_checkpoint max_cost ts cfg) ops eng"
  shows "sorted_wrt (<) (r # map fst passed) \<and> set (map fst passed) \<subseteq> set ts \<and> (\<forall>(c, yes) \<in> set passed. yes)"
proof -
  have f: "snd (pol_state p) = cost_budget_evaluate money max_cost ts cfg"
    using cost_budget_parts [OF assms(4)] assms(2,5,6) by (metis sum.inject(2))
  show ?thesis
    unfolding assms(10) using assms(1,7,9)
  proof (induction ops arbitrary: eng r)
    case (Cons op ops)
    show ?case
    proof (cases op)
      case (Spend t)
      then show ?thesis using Cons.IH [of "snd (record_usage t eng)" r] Cons.prems by (simp add: record_usage_keeps)
    next
      case (Act ctx v)
      let ?asked = "asked_checkpoint max_cost ts cfg r eng ctx"
      obtain ok eng' where att: "attempt day other loads (ctx, v) eng = (ok, eng')" by fastforce
      obtain r' where r': "amount r' (dget (e_session_state eng') approved_key)" "e_policies eng' = e_policies eng" "r \<le> r'"
        "\<forall>c. ?asked = Some c \<and> ok \<longrightarrow> r' = c \<and> accepted loads v"
        by (rule budget_step [OF Cons.prems(1) f assms(3) Cons.prems(2) assms(8) Cons.prems(3) att])
      have IH: "sorted_wrt (<) (r' # map fst (spend_run day other loads (asked_checkpoint max_cost ts cfg) ops eng')) \<and>
          set (map fst (spend_run day other loads (asked_checkpoint max_cost ts cfg) ops eng')) \<subseteq> set ts \<and>
          (\<forall>(c, yes) \<in> set (spend_run day other loads (asked_checkpoint max_cost ts cfg) ops eng'). yes)"
        using Cons.IH [of eng' r'] Cons.prems r'(1,2) attempt_ids [OF att] by simp
      have run: "spend_run day other loads (asked_checkpoint max_cost ts cfg) (op # ops) eng =
          (case ?asked of Some c \<Rightarrow> if ok then [(c, accepted loads v)] else [] | None \<Rightarrow> []) @
          spend_run day other loads (asked_checkpoint max_cost ts cfg) ops eng'"
        using amount_read [OF Cons.prems(3)] by (simp add: Act att)
      show ?thesis
      proof (cases "\<exists>c. ?asked = Some c \<and> ok")
        case False
        then have "spend_run day other loads (asked_checkpoint max_cost ts cfg) (op # ops) eng =
            spend_run day other loads (asked_checkpoint max_cost ts cfg) ops eng'"
          unfolding run by (auto split: option.split)
        then show ?thesis using IH r'(3) by fastforce
      next
        case True
        then obtain c where c: "?asked = Some c" ok by blast
        have "r < c" "c \<in> set ts"
          using c(1) crossed_in by (auto simp: asked_checkpoint_def split: if_splits option.splits)
        then show ?thesis using IH r'(4) c unfolding run by (fastforce simp: c)
      qed
    qed
  qed simp
qed

lemma checkpoints_authorised:
  assumes "e_policies eng = qs @ p # ps" and "snd (pol_state p) = f" and "unconditional (pol_spec p)"
    and "cost_budget money max_cost ask_thresholds models = Inr f" and "resolve_expensive_models models = Inr cfg"
    and "budget_thresholds max_cost ask_thresholds = Inr ts"
    and "e_root_conversation_id eng = e_conversation_id eng"
    and "\<And>q. q \<in> set qs \<union> set ps \<Longrightarrow> leaves_key approved_key other q"
    and "amount r (dget (e_session_state eng) approved_key)"
    and later: "\<And>q. q \<in> set ps \<Longrightarrow> never_denies other q" and "r \<le> approved"
  shows "authorised approved (spend_trace day other loads (crossed_now max_cost ts cfg) ops eng)"
proof -
  have f: "snd (pol_state p) = cost_budget_evaluate money max_cost ts cfg"
    using cost_budget_parts [OF assms(4)] assms(2,5,6) by (metis sum.inject(2))
  show ?thesis
    using assms(1,7,9,11)
  proof (induction ops arbitrary: eng r approved)
    case (Cons op ops)
    show ?case
    proof (cases op)
      case (Spend t)
      then show ?thesis using Cons.IH [of "snd (record_usage t eng)" r] Cons.prems by (simp add: record_usage_keeps)
    next
      case (Act ctx v)
      let ?asked = "asked_checkpoint max_cost ts cfg r eng ctx" and ?crossed = "crossed_now max_cost ts cfg eng ctx"
      obtain ok eng' where att: "attempt day other loads (ctx, v) eng = (ok, eng')" by fastforce
      obtain r' where r': "amount r' (dget (e_session_state eng') approved_key)" "e_policies eng' = e_policies eng"
        "\<forall>c. ?asked = Some c \<and> ok \<longrightarrow> r' = c \<and> accepted loads v" "r' = r \<or> ?asked = Some r'"
        "\<not> accepted loads v \<and> (\<forall>q \<in> set ps. never_denies other q) \<longrightarrow> r' = r"
        by (rule budget_step [OF Cons.prems(1) f assms(3) Cons.prems(2) assms(8) Cons.prems(3) att])
      have IH: "authorised a (spend_trace day other loads (crossed_now max_cost ts cfg) ops eng')" if "r' \<le> a" for a
        using Cons.IH [of eng' r' a] Cons.prems(1,2) that r'(1,2) attempt_ids [OF att] by simp
      have run: "spend_trace day other loads (crossed_now max_cost ts cfg) (op # ops) eng =
          (case ?crossed of Some c \<Rightarrow> [(c, ok, accepted loads v)] | None \<Rightarrow> []) @
          spend_trace day other loads (crossed_now max_cost ts cfg) ops eng'"
        by (simp add: Act att)
      show ?thesis
      proof (cases ?crossed)
        case None
        then have "r' = r" using r'(4) by (simp add: asked_crossed)
        then show ?thesis using IH Cons.prems(4) None unfolding run by simp
      next
        case (Some c)
        then have asked: "?asked = (if r < c then Some c else None)" by (simp add: asked_crossed)
        then have "ok \<longrightarrow> accepted loads v \<or> c \<le> approved" using r'(3) Cons.prems(4) by auto
        moreover have "r' \<le> (if accepted loads v then max approved c else approved)"
          using r'(4,5) asked Cons.prems(4) later by (auto split: if_splits)
        ultimately show ?thesis using IH Some unfolding run by simp
      qed
    qed
  qed simp
qed



section \<open>Examples\<close>

lemma read_only_answers: "\<exists>r. fst (evaluate_composed day (evaluate_function other) True ctx eng) = Inr r"
  unfolding evaluate_function_fired decide_def compose_deny_def by (auto split: option.split)

definition ex_budget :: "unit callable" where
  "ex_budget = cost_budget_evaluate (\<lambda>_. []) (Some 5) [1, 2]
     \<lparr>em_expensive_tokens = [], em_exclude_tokens = [], em_hard_cap_enabled = True, em_block_all_models = True\<rparr>"

definition ex_budget_policy :: "unit function_policy policy" where
  "ex_budget_policy = \<lparr>pol_spec = plain_spec ''budget'', pol_state = (''budget'', ex_budget)\<rparr>"

definition ex_spent_engine :: "real \<Rightarrow> (unit function_policy, unit) engine" where
  "ex_spent_engine c = session_engine [ex_budget_policy]\<lparr>e_usage := [(''input_tokens'', 1), (''output_tokens'', 1), (''total_tokens'', 2),
     (''cache_read_input_tokens'', 0), (''cache_creation_input_tokens'', 0), (''total_cost_usd'', c)]\<rparr>"

definition ex_models :: expensive_models where
  "ex_models = \<lparr>em_expensive_tokens = [], em_exclude_tokens = [], em_hard_cap_enabled = True, em_block_all_models = True\<rparr>"

definition ex_spending :: "unit spend_op list" where
  "ex_spending = [Act (ex_call ''Bash'') (Verdict (Some ''accept'')),
     Spend \<lparr>tc_input = 1, tc_output = 1, tc_total = 2, tc_cache_read = 0, tc_cache_creation = 0\<rparr>, Act (ex_call ''Bash'') TimedOut]"

lemma ex_budget_facts:
  "resolve_expensive_models None = Inr \<lparr>em_expensive_tokens = [], em_exclude_tokens = [], em_hard_cap_enabled = True, em_block_all_models = True\<rparr>"
  "budget_thresholds (Some 5) (Some [2, 1, 2]) = Inr [1, 2]"
  "cost_budget (\<lambda>_. []) (Some 5) (Some [2, 1, 2]) None = Inr ex_budget"
  "e_policies (ex_spent_engine c) = [] @ ex_budget_policy # []" "snd (pol_state ex_budget_policy) = ex_budget"
  "unconditional (pol_spec ex_budget_policy)"
  by (simp_all add: resolve_expensive_models_def or_empty_def budget_thresholds_def cost_budget_def ex_budget_def ex_spent_engine_def
      ex_budget_policy_def)


end
