(* ===== verification/Engine_Builder.thy ===== *)
theory Engine_Builder
  imports Builtin_Cost_Props
begin

text \<open>
  How an engine is put together for a conversation, \<^verbatim>\<open>codify/runtime/policies/builder.py\<close>: the policies of the
  session, of its root, of the agent and of the administrator, the labels and the session state, and the
  usage of the whole spawn tree. Pages of conversations, the owner and the daily cost of a user, pricing,
  credentials and the resolution of a policy's path are arguments. The numbers of a usage row are reals;
  a bucket of its breakdown by model that is not a dictionary, and a value that is not a number, are \<open>None\<close>.
\<close>

section \<open>Conversations\<close>

type_synonym bucket = "(string, real option) pydict"

record usage_row =
  ur_counts :: "(string, real) pydict"
  ur_by_model :: "(string, bucket option) pydict option"

record conversation =
  co_id :: string
  co_root :: string
  co_parent :: "string option"
  co_model_override :: "string option"
  co_session_usage :: usage_row

record page =
  pg_data :: "conversation list"
  pg_last_id :: "string option"
  pg_has_more :: bool

definition get_conversation :: "conversation list \<Rightarrow> string \<Rightarrow> conversation option" where
  "get_conversation convs cid = List.find (\<lambda>c. co_id c = cid) convs"

partial_function (option) load_tree_conversations ::
  "(string option \<Rightarrow> page) \<Rightarrow> conversation list \<Rightarrow> string option \<Rightarrow> conversation list option" where
  \<comment> \<open>the pages of one spawn tree after a cursor; \<open>None\<close> when they never end\<close>
  "load_tree_conversations list_page convs after =
     (let page = list_page after; convs = convs @ pg_data page
      in if \<not> pg_has_more page \<or> pg_last_id page = None then Some convs
         else load_tree_conversations list_page convs (pg_last_id page))"

definition children_of :: "conversation list \<Rightarrow> string \<Rightarrow> string list" where
  "children_of tree p = map co_id (filter (\<lambda>c. co_parent c = Some p) tree)"

lemma children_in_tree: "set (children_of tree p) \<subseteq> co_id ` set tree"
  by (auto simp: children_of_def)

function walk_subtree :: "conversation list \<Rightarrow> string list \<Rightarrow> string list \<Rightarrow> string list" where
  \<comment> \<open>the stack has its top first\<close>
  "walk_subtree tree [] subtree = subtree"
| "walk_subtree tree (node # stack) subtree =
     (if node \<in> set subtree then walk_subtree tree stack subtree
      else walk_subtree tree (rev (children_of tree node) @ stack) (node # subtree))"
  by pat_completeness auto

termination
proof (relation "measures [\<lambda>(tree, stack, subtree). card ((co_id ` set tree \<union> set stack) - set subtree), \<lambda>(tree, stack, subtree). length stack]")
  fix tree :: "conversation list" and node :: string and stack subtree :: "string list"
  assume new: "node \<notin> set subtree"
  let ?old = "(co_id ` set tree \<union> set (node # stack)) - set subtree"
  let ?new = "(co_id ` set tree \<union> set (rev (children_of tree node) @ stack)) - set (node # subtree)"
  have "?new \<subset> ?old" using new children_in_tree [of tree node] by auto
  then have "card ?new < card ?old" by (intro psubset_card_mono) auto
  then show "((tree, rev (children_of tree node) @ stack, node # subtree), (tree, node # stack, subtree))
      \<in> measures [\<lambda>(tree, stack, subtree). card ((co_id ` set tree \<union> set stack) - set subtree), \<lambda>(tree, stack, subtree). length stack]"
    by simp
next
  fix tree :: "conversation list" and node :: string and stack subtree :: "string list"
  let ?old = "(co_id ` set tree \<union> set (node # stack)) - set subtree"
  let ?new = "(co_id ` set tree \<union> set stack) - set subtree"
  have "card ?new \<le> card ?old" by (rule card_mono) auto
  then show "((tree, stack, subtree), (tree, node # stack, subtree))
      \<in> measures [\<lambda>(tree, stack, subtree). card ((co_id ` set tree \<union> set stack) - set subtree), \<lambda>(tree, stack, subtree). length stack]"
    by auto
qed simp

definition subtree_conversation_ids :: "conversation list \<Rightarrow> string \<Rightarrow> string list" where
  "subtree_conversation_ids tree cid = walk_subtree tree [cid] []"

section \<open>Usage\<close>

definition summable_usage_keys :: "string list" where
  "summable_usage_keys =
     [''input_tokens'', ''output_tokens'', ''total_tokens'', ''cache_read_input_tokens'', ''cache_creation_input_tokens'', ''total_cost_usd'']"

definition add_to :: "string \<Rightarrow> real \<Rightarrow> (string, real) pydict \<Rightarrow> (string, real) pydict" where
  \<comment> \<open>\<open>totals[key] = totals.get(key, 0.0) + value\<close>\<close>
  "add_to k v d = dset k ((case dget d k of None \<Rightarrow> 0 | Some x \<Rightarrow> x) + v) d"

fun merge_bucket :: "bucket \<Rightarrow> (string, real) pydict \<Rightarrow> (string, real) pydict" where
  "merge_bucket [] agg = agg"
| "merge_bucket ((k, v) # kvs) agg = merge_bucket kvs (case v of None \<Rightarrow> agg | Some x \<Rightarrow> add_to k x agg)"

fun merge_by_model :: "(string, bucket option) pydict \<Rightarrow> (string, (string, real) pydict) pydict \<Rightarrow> (string, (string, real) pydict) pydict" where
  "merge_by_model [] agg = agg"
| "merge_by_model ((model, b) # rest) agg =
     merge_by_model rest (case b of
        None \<Rightarrow> agg
      | Some kvs \<Rightarrow> dset model (merge_bucket kvs (case dget agg model of None \<Rightarrow> [] | Some d \<Rightarrow> d)) agg)"

record session_usage =
  su_totals :: "(string, real) pydict"
  su_policy_cost :: "real option"
  su_by_model :: "(string, (string, real) pydict) pydict"

fun sum_keys :: "string list \<Rightarrow> (string, real) pydict \<Rightarrow> (string, real) pydict \<Rightarrow> (string, real) pydict" where
  "sum_keys [] row totals = totals"
| "sum_keys (k # ks) row totals =
     sum_keys ks row (case dget row k of None \<Rightarrow> totals | Some v \<Rightarrow> add_to k v totals)"

definition policy_cost_of :: "conversation \<Rightarrow> real option" where
  \<comment> \<open>\<open>policy_cost_usd\<close>, else \<open>total_cost_usd\<close>\<close>
  "policy_cost_of c =
     (case dget (ur_counts (co_session_usage c)) ''policy_cost_usd'' of
        Some v \<Rightarrow> Some v | None \<Rightarrow> dget (ur_counts (co_session_usage c)) ''total_cost_usd'')"

definition add_conversation :: "conversation \<Rightarrow> session_usage \<Rightarrow> session_usage" where
  "add_conversation c u =
     \<lparr>su_totals = sum_keys summable_usage_keys (ur_counts (co_session_usage c)) (su_totals u),
      su_policy_cost = (case policy_cost_of c of None \<Rightarrow> su_policy_cost u
        | Some v \<Rightarrow> Some ((case su_policy_cost u of None \<Rightarrow> 0 | Some x \<Rightarrow> x) + v)),
      su_by_model = (case ur_by_model (co_session_usage c) of None \<Rightarrow> su_by_model u | Some m \<Rightarrow> merge_by_model m (su_by_model u))\<rparr>"

definition no_usage :: session_usage where
  "no_usage = \<lparr>su_totals = [], su_policy_cost = None, su_by_model = []\<rparr>"

definition load_session_usage :: "conversation list \<Rightarrow> (string \<Rightarrow> string option \<Rightarrow> page) \<Rightarrow> string \<Rightarrow> session_usage option" where
  \<comment> \<open>\<open>list_page root\<close> are the pages of a spawn tree\<close>
  "load_session_usage convs list_page cid =
     (case get_conversation convs cid of
        None \<Rightarrow> Some no_usage
      | Some conv \<Rightarrow>
          map_option (\<lambda>tree. fold add_conversation (filter (\<lambda>c. co_id c \<in> set (subtree_conversation_ids tree cid)) tree) no_usage)
            (load_tree_conversations (list_page (co_root conv)) [] None))"

definition normalize_usage_for_engine :: "session_usage \<Rightarrow> usage" where
  "normalize_usage_for_engine u =
     (case su_policy_cost u of None \<Rightarrow> su_totals u | Some c \<Rightarrow> dset ''total_cost_usd'' c (su_totals u))"

definition subtree_usage_seed :: "conversation list \<Rightarrow> (string \<Rightarrow> string option \<Rightarrow> page) \<Rightarrow> string \<Rightarrow> usage option" where
  "subtree_usage_seed convs list_page cid = map_option normalize_usage_for_engine (load_session_usage convs list_page cid)"

definition policy_usage_seed :: "conversation list \<Rightarrow> (string \<Rightarrow> string option \<Rightarrow> page) \<Rightarrow> string \<Rightarrow> usage option" where
  "policy_usage_seed convs list_page cid =
     (case get_conversation convs cid of
        None \<Rightarrow> Some []
      | Some conv \<Rightarrow> map_option normalize_usage_for_engine (load_session_usage convs list_page (co_root conv)))"


section \<open>Policies\<close>

record function_ref =
  fr_path :: string
  fr_arguments :: "(string, pyval) pydict option"

type_synonym sourced_policy = "policy_spec \<times> function_ref"

record stored_policy =
  sd_name :: string
  sd_type :: string
  sd_handler :: string
  sd_factory_params :: "(string, pyval) pydict option"
  sd_enabled :: bool

record policy_store =
  ps_defaults :: "stored_policy list"
  ps_session :: "string \<Rightarrow> stored_policy list"

record spec_caches =
  ch_default :: "sourced_policy list option"
  ch_session :: "(string, sourced_policy list) pydict"

definition unrestricted_spec :: "string \<Rightarrow> policy_spec" where
  "unrestricted_spec name = \<lparr>ps_name = name, ps_on = None, ps_condition = None, ps_ask_timeout = None, ps_set_labels = None\<rparr>"

definition stored_policy_to_spec :: "stored_policy \<Rightarrow> sourced_policy res" where
  "stored_policy_to_spec p =
     (if sd_type p = ''python''
      then Inr (unrestricted_spec (sd_name p), \<lparr>fr_path = sd_handler p, fr_arguments = sd_factory_params p\<rparr>)
      else Inl (OtherError (''Session policy '' @ py_repr (sd_name p) @ '' has unsupported type '' @ py_repr (sd_type p))))"

fun default_specs :: "stored_policy list \<Rightarrow> sourced_policy list" where
  "default_specs [] = []"
| "default_specs (p # ps) =
     (if \<not> sd_enabled p \<or> sd_type p \<noteq> ''python'' then default_specs ps
      else case stored_policy_to_spec p of Inl _ \<Rightarrow> default_specs ps | Inr s \<Rightarrow> s # default_specs ps)"

fun session_specs :: "stored_policy list \<Rightarrow> sourced_policy list res" where
  "session_specs [] = Inr []"
| "session_specs (p # ps) =
     (if \<not> sd_enabled p then session_specs ps
      else bindR (stored_policy_to_spec p) (\<lambda>s. bindR (session_specs ps) (\<lambda>ss. Inr (s # ss))))"

definition load_default_policy_specs :: "policy_store option \<Rightarrow> spec_caches \<Rightarrow> sourced_policy list \<times> spec_caches" where
  "load_default_policy_specs pst ch =
     (case pst of
        None \<Rightarrow> ([], ch)
      | Some st \<Rightarrow>
          (case ch_default ch of
             Some specs \<Rightarrow> (specs, ch)
           | None \<Rightarrow> (default_specs (ps_defaults st), ch\<lparr>ch_default := Some (default_specs (ps_defaults st))\<rparr>)))"

definition load_session_policy_specs :: "string \<Rightarrow> policy_store option \<Rightarrow> spec_caches \<Rightarrow> sourced_policy list res \<times> spec_caches" where
  "load_session_policy_specs cid pst ch =
     (case pst of
        None \<Rightarrow> (Inr [], ch)
      | Some st \<Rightarrow>
          (case dget (ch_session ch) cid of
             Some specs \<Rightarrow> (Inr specs, ch)
           | None \<Rightarrow>
               (case session_specs (ps_session st cid) of
                  Inl e \<Rightarrow> (Inl e, ch)
                | Inr specs \<Rightarrow> (Inr specs, ch\<lparr>ch_session := dset cid specs (ch_session ch)\<rparr>))))"

definition invalidate_default_policy_specs_cache :: "spec_caches \<Rightarrow> spec_caches" where
  "invalidate_default_policy_specs_cache ch = ch\<lparr>ch_default := None\<rparr>"

definition invalidate_session_policy_specs_cache :: "string \<Rightarrow> spec_caches \<Rightarrow> spec_caches" where
  "invalidate_session_policy_specs_cache cid ch = ch\<lparr>ch_session := ddel cid (ch_session ch)\<rparr>"

definition user_daily_cost_policy_path :: string where
  "user_daily_cost_policy_path = ''codify.policies.builtins.cost.user_daily_cost_budget''"

definition subagent_cost_policy_path :: string where
  "subagent_cost_policy_path = ''codify.policies.builtins.cost.subagent_cost_budget''"

definition ask_on_add_policy_spec :: sourced_policy where
  "ask_on_add_policy_spec =
     (unrestricted_spec ''__ask_on_add_policy'', \<lparr>fr_path = ''codify.policies.builtins.safety.ask_on_add_policy'', fr_arguments = None\<rparr>)"

definition needs_user_daily_cost :: "sourced_policy list \<Rightarrow> bool" where
  "needs_user_daily_cost specs \<longleftrightarrow> list_ex (\<lambda>s. fr_path (snd s) = user_daily_cost_policy_path) specs"

definition needs_subtree_usage :: "sourced_policy list \<Rightarrow> bool" where
  "needs_subtree_usage specs \<longleftrightarrow> list_ex (\<lambda>s. fr_path (snd s) = subagent_cost_policy_path) specs"

section \<open>Model clients\<close>

record llm_config =
  ll_model :: string
  ll_connection :: "(string, string) pydict option"
  ll_profile :: "string option"
  ll_request_timeout :: int
  ll_fallback_models :: "string list"

definition normalize_policy_model :: "string \<Rightarrow> string" where
  "normalize_policy_model m = (if CHR ''/'' \<notin> set m \<and> starts_with m ''databricks-'' then ''databricks/'' @ m else m)"

definition resolve_databricks_connection :: "(string \<Rightarrow> (string \<times> string) res) \<Rightarrow> string \<Rightarrow> (string, string) pydict res" where
  \<comment> \<open>\<open>workspace\<close> gives the host and the token of a profile\<close>
  "resolve_databricks_connection workspace profile =
     bindR (workspace profile) (\<lambda>(host, token). Inr [(''base_url'', host @ ''/serving-endpoints''), (''api_key'', token)])"

definition resolve_server_llm_connection :: "(string \<Rightarrow> (string \<times> string) res) \<Rightarrow> llm_config option \<Rightarrow> (string, string) pydict option res" where
  "resolve_server_llm_connection workspace server_llm =
     (case server_llm of
        None \<Rightarrow> Inr None
      | Some cfg \<Rightarrow>
          (case ll_connection cfg of
             Some c \<Rightarrow> Inr (Some c)
           | None \<Rightarrow>
               (case ll_profile cfg of
                  None \<Rightarrow> Inr None
                | Some p \<Rightarrow> bindR (resolve_databricks_connection workspace p) (\<lambda>c. Inr (Some c)))))"

definition build_policy_llm_client :: "llm_config option \<Rightarrow> (string, string) pydict option \<Rightarrow> llm_client option" where
  "build_policy_llm_client server_llm connection =
     map_option (\<lambda>cfg. \<lparr>lc_model = normalize_policy_model (ll_model cfg), lc_connection = connection,
       lc_request_timeout = ll_request_timeout cfg, lc_fallback_models = map normalize_policy_model (ll_fallback_models cfg)\<rparr>) server_llm"

section \<open>The parts of an engine\<close>

record guardrails =
  gr_labels :: "(string, label_def) pydict option"
  gr_policies :: "sourced_policy list option"
  gr_ask_timeout :: int

record agent_decl =
  ad_guardrails :: "guardrails option"
  ad_llm_model :: "string option"

definition load_existing_labels :: "conversation list \<Rightarrow> store \<Rightarrow> string \<Rightarrow> labels" where
  "load_existing_labels convs st cid = (case get_conversation convs cid of None \<Rightarrow> [] | Some _ \<Rightarrow> stored_labels st cid)"

definition seed_and_load_labels :: "conversation list \<Rightarrow> store \<Rightarrow> string \<Rightarrow> (string, label_def) pydict \<Rightarrow> labels \<times> store" where
  "seed_and_load_labels convs st cid defs =
     (let existing = load_existing_labels convs st cid;
          to_seed = List.map_filter (\<lambda>(k, d). case ld_initial d of
              Some v \<Rightarrow> if dget existing k = None then Some (k, v) else None | None \<Rightarrow> None) defs
      in if to_seed = [] then (existing, st)
         else let st' = set_labels cid to_seed st in (load_existing_labels convs st' cid, st'))"

definition load_session_state :: "conversation list \<Rightarrow> store \<Rightarrow> string \<Rightarrow> state" where
  "load_session_state convs st cid =
     (case get_conversation convs cid of
        None \<Rightarrow> []
      | Some _ \<Rightarrow> (case dget (st_convs st) cid of None \<Rightarrow> [] | Some row \<Rightarrow> cv_state row))"

definition resolve_session_model :: "conversation list \<Rightarrow> string \<Rightarrow> agent_decl \<Rightarrow> string option" where
  "resolve_session_model convs cid agent =
     (case get_conversation convs cid of
        Some conv \<Rightarrow> (case co_model_override conv of
            Some m \<Rightarrow> if m = [] then ad_llm_model agent else Some m | None \<Rightarrow> ad_llm_model agent)
      | None \<Rightarrow> ad_llm_model agent)"

definition load_user_daily_cost :: "string option \<Rightarrow> (string \<Rightarrow> (string, pyval) pydict) \<Rightarrow> (string, pyval) pydict" where
  \<comment> \<open>the owner of the session and the state of a user's day\<close>
  "load_user_daily_cost owner daily =
     (case owner of
        None \<Rightarrow> [(''cost_usd'', PFloat 0), (''ask_approved_usd'', PFloat 0)]
      | Some u \<Rightarrow> dset ''user_id'' (PStr u) (daily u))"

definition inherited_policies :: "sourced_policy list \<Rightarrow> sourced_policy list \<Rightarrow> sourced_policy list" where
  \<comment> \<open>the policies of the root whose names the child does not use, then those of the child\<close>
  "inherited_policies of_root child = filter (\<lambda>p. ps_name (fst p) \<notin> set (map (ps_name \<circ> fst) child)) of_root @ child"

definition seed_root_keys :: "state \<Rightarrow> state \<Rightarrow> state" where
  "seed_root_keys root_state s =
     foldl (\<lambda>s k. case dget root_state k of None \<Rightarrow> s | Some v \<Rightarrow> dset k v s) s
       [SESSION_COST_ASK_APPROVED_STATE_KEY, SESSION_COST_UNPRICED_APPROVED_KEY]"


record environment =
  be_list_page :: "string \<Rightarrow> string option \<Rightarrow> page"
  be_owner :: "string \<Rightarrow> string option"
  be_daily :: "string \<Rightarrow> (string, pyval) pydict"
  be_pricing :: "string \<Rightarrow> model_pricing option"
  be_workspace :: "string \<Rightarrow> (string \<times> string) res"
  be_resolve :: "function_ref \<Rightarrow> llm_client callable res"

definition root_conversation_of :: "conversation list \<Rightarrow> string \<Rightarrow> string" where
  "root_conversation_of convs cid = (case get_conversation convs cid of None \<Rightarrow> cid | Some conv \<Rightarrow> co_root conv)"

definition collect_policies ::
  "conversation list \<Rightarrow> string \<Rightarrow> agent_decl \<Rightarrow> sourced_policy list option \<Rightarrow> policy_store option \<Rightarrow> spec_caches \<Rightarrow>
   sourced_policy list res \<times> spec_caches" where
  "collect_policies convs cid agent default_policies pst ch =
     (case load_session_policy_specs cid pst ch of
        (Inl e, ch) \<Rightarrow> (Inl e, ch)
      | (Inr own, ch) \<Rightarrow>
          (case (if root_conversation_of convs cid \<noteq> cid then load_session_policy_specs (root_conversation_of convs cid) pst ch else (Inr [], ch)) of
             (Inl e, ch) \<Rightarrow> (Inl e, ch)
           | (Inr of_root, ch) \<Rightarrow>
               (case load_default_policy_specs pst ch of
                  (defaults, ch) \<Rightarrow>
                    (Inr (inherited_policies of_root own
                        @ (case ad_guardrails agent of None \<Rightarrow> [] | Some g \<Rightarrow> or_empty (gr_policies g))
                        @ defaults @ or_empty default_policies @ [ask_on_add_policy_spec]), ch))))"

definition any_policies_apply ::
  "agent_decl \<Rightarrow> string \<Rightarrow> sourced_policy list option \<Rightarrow> policy_store option \<Rightarrow> phase option \<Rightarrow> string option \<Rightarrow> spec_caches \<Rightarrow>
   bool res \<times> spec_caches" where
  "any_policies_apply agent cid default_policies pst ph tool ch =
     (if ph = Some TOOL_CALL \<and> tool = Some ''sys_add_policy'' then (Inr True, ch)
      else if (case ad_guardrails agent of None \<Rightarrow> False | Some g \<Rightarrow> or_empty (gr_policies g) \<noteq> []) then (Inr True, ch)
      else if or_empty default_policies \<noteq> [] then (Inr True, ch)
      else case load_default_policy_specs pst ch of
        (defaults, ch) \<Rightarrow>
          if defaults \<noteq> [] then (Inr True, ch)
          else (case load_session_policy_specs cid pst ch of
                  (Inl e, ch) \<Rightarrow> (Inl e, ch)
                | (Inr own, ch) \<Rightarrow> (Inr (own \<noteq> []), ch)))"

definition instantiate_policy :: "environment \<Rightarrow> sourced_policy \<Rightarrow> llm_client function_policy policy res" where
  "instantiate_policy env s =
     bindR (be_resolve env (snd s)) (\<lambda>f. Inr \<lparr>pol_spec = fst s, pol_state = (ps_name (fst s), f)\<rparr>)"

fun instantiate_policies :: "environment \<Rightarrow> sourced_policy list \<Rightarrow> llm_client function_policy policy list res" where
  "instantiate_policies env [] = Inr []"
| "instantiate_policies env (s # ss) =
     bindR (instantiate_policy env s) (\<lambda>p. bindR (instantiate_policies env ss) (\<lambda>ps. Inr (p # ps)))"

definition default_ask_timeout :: int where "default_ask_timeout = 86400"

definition build_policy_engine ::
  "environment \<Rightarrow> conversation list \<Rightarrow> store \<Rightarrow> agent_decl \<Rightarrow> string \<Rightarrow> (string, string) pydict option \<Rightarrow> sourced_policy list option \<Rightarrow>
   policy_store option \<Rightarrow> llm_config option \<Rightarrow> spec_caches \<Rightarrow>
   ((llm_client function_policy, llm_client) engine res \<times> store \<times> spec_caches) option" where
  \<comment> \<open>\<open>None\<close> when the pages of the tree never end\<close>
  "build_policy_engine env convs st agent cid host_connection default_policies pst server_llm ch =
     (case collect_policies convs cid agent default_policies pst ch of
        (Inl e, ch) \<Rightarrow> Some (Inl e, st, ch)
      | (Inr specs, ch) \<Rightarrow>
          (let rid = root_conversation_of convs cid;
               defs = (case ad_guardrails agent of None \<Rightarrow> [] | Some g \<Rightarrow> or_empty (gr_labels g));
               (ls, st) = seed_and_load_labels convs st cid defs;
               own = load_session_state convs st cid;
               s0 = (if rid \<noteq> cid then seed_root_keys (load_session_state convs st rid) own else own)
           in case policy_usage_seed convs (be_list_page env) cid of
                None \<Rightarrow> None
              | Some seed \<Rightarrow>
                  (case (if needs_subtree_usage specs then map_option Some (subtree_usage_seed convs (be_list_page env) cid) else Some None) of
                     None \<Rightarrow> None
                   | Some subtree \<Rightarrow>
                       (let daily = (if needs_user_daily_cost specs
                              then Some (load_user_daily_cost (be_owner env cid) (be_daily env)) else None);
                            built = bindR (resolve_server_llm_connection (be_workspace env) server_llm) (\<lambda>server_connection.
                              bindR (instantiate_policies env specs) (\<lambda>policies.
                                Inr (make_engine policies defs
                                  (case ad_guardrails agent of None \<Rightarrow> default_ask_timeout | Some g \<Rightarrow> gr_ask_timeout g)
                                  cid ls (Some s0) (Some seed) subtree daily
                                  (case ad_llm_model agent of None \<Rightarrow> None | Some m \<Rightarrow> be_pricing env m)
                                  (resolve_session_model convs cid agent) st (Some rid)
                                  (build_policy_llm_client server_llm
                                    (case host_connection of Some c \<Rightarrow> if c = [] then server_connection else Some c | None \<Rightarrow> server_connection)))))
                        in Some (built, st, ch)))))"

definition build_noop_engine ::
  "environment \<Rightarrow> conversation list \<Rightarrow> store \<Rightarrow> string \<Rightarrow> (llm_client function_policy, llm_client) engine option" where
  "build_noop_engine env convs st cid =
     map_option (\<lambda>seed. make_engine [] [] default_ask_timeout cid (load_existing_labels convs st cid)
         (Some (load_session_state convs st cid)) (Some seed) None None None None st None None)
       (policy_usage_seed convs (be_list_page env) cid)"

end
