(* ===== verification/Session_Usage.thy ===== *)
theory Session_Usage
  imports Engine_Builder
begin

text \<open>
  The accounts that the budgets read, \<^verbatim>\<open>codify/server/routes/_sessions/orchestration.py\<close> and
  \<^verbatim>\<open>helpers.py\<close>: the usage of a completed turn added to its session, the cumulative usage a native harness
  reports, the daily rollup of the owner, and the costs published to the session and its ancestors. A row
  of usage is the one of \<^verbatim>\<open>Engine_Builder\<close>; its breakdown by model is absent or a dictionary. Catalog
  prices, the model of an agent, the owner of a session, the pages of the store and the day are arguments.
  Each access of the store is one step of a worker thread.
\<close>

section \<open>The store\<close>

record model_usage =
  mu_tokens :: "(string, int) pydict"
  mu_cost :: "real option"

record usage_event =
  ux_context_tokens :: "int option"
  ux_context_window :: "int option"
  ux_total_cost :: "real option"
  ux_by_model :: "(string, model_usage) pydict option"

record usage_world =
  uw_convs :: "conversation list"
  uw_daily :: "(string \<times> string, real) pydict"
  uw_store :: store
  uw_published :: "(string \<times> usage_event) list"

record usage_env =
  ue_pricing :: "string \<Rightarrow> model_pricing option"
  ue_agent_model :: "string \<Rightarrow> string option"
    \<comment> \<open>the model of the agent a conversation is bound to\<close>
  ue_owner :: "string \<Rightarrow> string option"
  ue_list_page :: "conversation list \<Rightarrow> string \<Rightarrow> string option \<Rightarrow> page"

definition empty_row :: usage_row where
  "empty_row = \<lparr>ur_counts = [], ur_by_model = None\<rparr>"

definition row_of :: "conversation option \<Rightarrow> usage_row" where
  "row_of conv = (case conv of None \<Rightarrow> empty_row | Some c \<Rightarrow> co_session_usage c)"

definition set_usage_row :: "string \<Rightarrow> usage_row \<Rightarrow> conversation list \<Rightarrow> conversation list" where
  "set_usage_row cid row = map (\<lambda>c. if co_id c = cid then c\<lparr>co_session_usage := row\<rparr> else c)"

record account_delta =
  ud_counts :: "(string, real) pydict"
  ud_by_model :: "(string, (string, real) pydict) pydict option"

definition bucket_number :: "bucket \<Rightarrow> string \<Rightarrow> real res" where
  \<comment> \<open>\<open>bucket.get(key, 0)\<close> where a number is needed\<close>
  "bucket_number b k =
     (case dget b k of None \<Rightarrow> Inr 0 | Some (Some x) \<Rightarrow> Inr x | Some None \<Rightarrow> Inl (TypeError ''unsupported operand type(s)''))"

fun add_bucket :: "(string, real) pydict \<Rightarrow> bucket \<Rightarrow> bucket res" where
  "add_bucket [] b = Inr b"
| "add_bucket ((k, v) # kvs) b = bindR (bucket_number b k) (\<lambda>x. add_bucket kvs (dset k (Some (x + v)) b))"

definition model_usage_bucket :: "(string, bucket option) pydict \<Rightarrow> string \<Rightarrow> bucket res" where
  \<comment> \<open>the bucket of a model; only a dictionary can be incremented\<close>
  "model_usage_bucket by_model model =
     (case dget by_model model of None \<Rightarrow> Inr [] | Some (Some b) \<Rightarrow> Inr b | Some None \<Rightarrow> Inl (OtherError ''AttributeError''))"

fun add_buckets :: "(string, (string, real) pydict) pydict \<Rightarrow> (string, bucket option) pydict \<Rightarrow> (string, bucket option) pydict res" where
  "add_buckets [] by_model = Inr by_model"
| "add_buckets ((model, d) # rest) by_model =
     bindR (model_usage_bucket by_model model) (\<lambda>b.
     bindR (add_bucket d b) (\<lambda>b'. add_buckets rest (dset model (Some b') by_model)))"

definition by_model_of :: "usage_row \<Rightarrow> (string, bucket option) pydict" where
  \<comment> \<open>\<open>setdefault("by_model", {})\<close>\<close>
  "by_model_of row = (case ur_by_model row of None \<Rightarrow> [] | Some m \<Rightarrow> m)"

definition apply_session_usage_delta :: "usage_row \<Rightarrow> account_delta \<Rightarrow> usage_row res" where
  "apply_session_usage_delta row d =
     (let nums = fold (\<lambda>(k, v). add_to k v) (ud_counts d) (ur_counts row)
      in case ud_by_model d of
           None \<Rightarrow> Inr (row\<lparr>ur_counts := nums\<rparr>)
         | Some m \<Rightarrow> bindR (add_buckets m (by_model_of row)) (\<lambda>bm. Inr \<lparr>ur_counts = nums, ur_by_model = Some bm\<rparr>))"

definition increment_session_usage :: "string \<Rightarrow> account_delta \<Rightarrow> conversation list \<Rightarrow> (usage_row \<times> conversation list) res" where
  \<comment> \<open>one transaction\<close>
  "increment_session_usage cid d convs =
     bindR (apply_session_usage_delta (row_of (get_conversation convs cid)) d) (\<lambda>row. Inr (row, set_usage_row cid row convs))"

definition daily_cost :: "usage_world \<Rightarrow> string \<Rightarrow> string \<Rightarrow> real" where
  "daily_cost w user day = (case dget (uw_daily w) (user, day) of None \<Rightarrow> 0 | Some x \<Rightarrow> x)"

definition add_daily_cost :: "string \<Rightarrow> string \<Rightarrow> real \<Rightarrow> usage_world \<Rightarrow> usage_world" where
  "add_daily_cost user day delta w =
     (if delta \<le> 0 then w else w\<lparr>uw_daily := dset (user, day) (daily_cost w user day + delta) (uw_daily w)\<rparr>)"

definition session_owner :: "usage_env \<Rightarrow> conversation \<Rightarrow> string option" where
  \<comment> \<open>a sub-agent without a grant belongs to the owner of its root\<close>
  "session_owner env c =
     (case ue_owner env (co_id c) of
        Some u \<Rightarrow> Some u
      | None \<Rightarrow> if co_root c \<noteq> co_id c then ue_owner env (co_root c) else None)"

definition record_daily_cost :: "usage_env \<Rightarrow> string \<Rightarrow> conversation option \<Rightarrow> real \<Rightarrow> usage_world \<Rightarrow> usage_world" where
  "record_daily_cost env day conv delta w =
     (case conv of
        None \<Rightarrow> w
      | Some c \<Rightarrow>
          if delta \<le> 0 then w
          else case session_owner env c of None \<Rightarrow> w | Some u \<Rightarrow> add_daily_cost u day delta w)"

section \<open>Completed turns\<close>

definition model_token_keys :: "string list" where
  "model_token_keys = [''input_tokens'', ''output_tokens'', ''total_tokens'', ''cache_read_input_tokens'', ''cache_creation_input_tokens'']"

definition usage_field :: "(string, pyval) pydict \<Rightarrow> string \<Rightarrow> pyval" where
  "usage_field usage k = (case dget usage k of None \<Rightarrow> PInt 0 | Some v \<Rightarrow> v)"

definition usage_number :: "pyval \<Rightarrow> real res" where
  \<comment> \<open>the operand of an addition to a number\<close>
  "usage_number v = (case real_of_pyval v of None \<Rightarrow> Inl (TypeError ''unsupported operand type(s)'') | Some r \<Rightarrow> Inr r)"

definition priced_field :: "(string, pyval) pydict \<Rightarrow> string \<Rightarrow> real res" where
  \<comment> \<open>\<open>usage.get(key) or 0\<close>, multiplied by a price\<close>
  "priced_field usage k = (let v = usage_field usage k in if py_truth v then usage_number v else Inr 0)"

fun collect_fields :: "(string \<Rightarrow> real res) \<Rightarrow> string list \<Rightarrow> (string, real) pydict res" where
  "collect_fields f [] = Inr []"
| "collect_fields f (k # ks) = bindR (f k) (\<lambda>v. bindR (collect_fields f ks) (\<lambda>d. Inr ((k, v) # d)))"

definition cost_of_turn :: "(string, pyval) pydict \<Rightarrow> model_pricing \<Rightarrow> real res" where
  "cost_of_turn usage p =
     bindR (collect_fields (priced_field usage) [''input_tokens'', ''output_tokens'', ''cache_read_input_tokens'', ''cache_creation_input_tokens''])
       (\<lambda>u. Inr (compute_llm_cost u p))"

definition session_model :: "usage_env \<Rightarrow> conversation option \<Rightarrow> string option" where
  \<comment> \<open>the override of the session, else the model of its agent\<close>
  "session_model env conv =
     (case conv of
        None \<Rightarrow> None
      | Some c \<Rightarrow> (case non_empty (co_model_override c) of Some m \<Rightarrow> Some m | None \<Rightarrow> ue_agent_model env (co_id c)))"

definition turn_model :: "usage_env \<Rightarrow> conversation option \<Rightarrow> (string, pyval) pydict \<Rightarrow> string option" where
  "turn_model env conv usage =
     non_empty (case dget usage ''model'' of
        Some (PStr (c # s)) \<Rightarrow> Some (c # s)
      | _ \<Rightarrow> session_model env conv)"

definition turn_cost :: "usage_env \<Rightarrow> string option \<Rightarrow> (string, pyval) pydict \<Rightarrow> real option res" where
  \<comment> \<open>the cost of a turn, \<open>None\<close> when it is not priced\<close>
  "turn_cost env model usage =
     (case model of
        None \<Rightarrow> Inr None
      | Some m \<Rightarrow>
          (case Option.bind (dget usage ''cost_usd'') real_of_pyval of
             Some c \<Rightarrow> Inr (Some c)
           | None \<Rightarrow> (case ue_pricing env m of None \<Rightarrow> Inr None | Some p \<Rightarrow> bindR (cost_of_turn usage p) (\<lambda>c. Inr (Some c)))))"

definition turn_delta :: "usage_env \<Rightarrow> conversation option \<Rightarrow> (string, pyval) pydict \<Rightarrow> (account_delta \<times> real) res" where
  "turn_delta env conv usage =
     (let model = turn_model env conv usage
      in bindR (turn_cost env model usage) (\<lambda>cost.
         bindR (collect_fields (\<lambda>k. usage_number (usage_field usage k)) model_token_keys) (\<lambda>tokens.
           let nums = (case cost of None \<Rightarrow> tokens | Some c \<Rightarrow> tokens @ [(''total_cost_usd'', c)])
           in Inr (\<lparr>ud_counts = nums, ud_by_model = map_option (\<lambda>m. [(m, nums)]) model\<rparr>,
                   case cost of None \<Rightarrow> 0 | Some c \<Rightarrow> c))))"

definition has_usage :: "(string, pyval) pydict \<Rightarrow> bool" where
  "has_usage usage = list_ex (\<lambda>k. py_truth (usage_field usage k)) [''input_tokens'', ''output_tokens'', ''total_tokens'']"

definition priced_cost_for_display :: "(string, real) pydict \<Rightarrow> real option" where
  "priced_cost_for_display usage = dget usage ''total_cost_usd''"

definition accumulate_session_usage :: "usage_env \<Rightarrow> string \<Rightarrow> (string, pyval) pydict \<Rightarrow> string \<Rightarrow> usage_world \<Rightarrow> real option res \<times> usage_world" where
  "accumulate_session_usage env day resp cid w =
     (case dget resp ''usage'' of
        Some (PDict usage) \<Rightarrow>
          if \<not> has_usage usage then (Inr None, w)
          else let conv = get_conversation (uw_convs w) cid
               in (case turn_delta env conv usage of
                     Inl e \<Rightarrow> (Inl e, w)
                   | Inr (d, cost) \<Rightarrow>
                       (case increment_session_usage cid d (uw_convs w) of
                          Inl e \<Rightarrow> (Inl e, w)
                        | Inr (row, convs) \<Rightarrow>
                            (Inr (priced_cost_for_display (ur_counts row)), record_daily_cost env day conv cost (w\<lparr>uw_convs := convs\<rparr>))))
      | _ \<Rightarrow> (Inr None, w))"

section \<open>Reports of native harnesses\<close>

record native_report =
  nr_cost :: "real option"
  nr_policy_cost :: "real option"
  nr_input :: "real option"
  nr_output :: "real option"
  nr_cache_read :: "real option"
  nr_model :: "pyval option"

definition coerce_cumulative_field :: "(string, pyval) pydict \<Rightarrow> string \<Rightarrow> bool \<Rightarrow> real option res" where
  "coerce_cumulative_field data k numeric =
     (let refused = Inl (OtherError (''external_session_usage data.'' @ k @ '' must be a non-negative '' @ (if numeric then ''number'' else ''int'')))
      in case dget data k of
           None \<Rightarrow> Inr None
         | Some v \<Rightarrow>
             (case v of
                PNone \<Rightarrow> Inr None
              | PInt i \<Rightarrow> if i < 0 then refused else Inr (Some (real_of_int i))
              | PFloat r \<Rightarrow> if \<not> numeric \<or> r < 0 then refused else Inr (Some r)
              | _ \<Rightarrow> refused))"

definition read_report :: "(string, pyval) pydict \<Rightarrow> native_report option res" where
  \<comment> \<open>the fields of a report, \<open>None\<close> when no cumulative field is there\<close>
  "read_report data =
     bindR (coerce_cumulative_field data ''cumulative_cost_usd'' True) (\<lambda>cost.
     bindR (coerce_cumulative_field data ''policy_cost_usd'' True) (\<lambda>policy_cost.
     bindR (coerce_cumulative_field data ''cumulative_input_tokens'' False) (\<lambda>cin.
     bindR (coerce_cumulative_field data ''cumulative_output_tokens'' False) (\<lambda>cout.
     bindR (coerce_cumulative_field data ''cumulative_cache_read_input_tokens'' False) (\<lambda>ccache.
       Inr (if cost = None \<and> policy_cost = None \<and> cin = None \<and> cout = None then None
            else Some \<lparr>nr_cost = cost, nr_policy_cost = policy_cost, nr_input = cin, nr_output = cout, nr_cache_read = ccache,
                       nr_model = dget data ''model''\<rparr>))))))"

definition has_tokens :: "native_report \<Rightarrow> bool" where
  "has_tokens r \<longleftrightarrow> nr_input r \<noteq> None \<or> nr_output r \<noteq> None"

definition count_of :: "(string, real) pydict \<Rightarrow> string \<Rightarrow> int" where
  \<comment> \<open>\<open>int(current.get(key, 0) or 0)\<close>\<close>
  "count_of nums k = trunc (usage_or_zero nums k)"

definition set_tokens :: "native_report \<Rightarrow> (string, real) pydict \<Rightarrow> (string, real) pydict" where
  "set_tokens r nums =
     (let c1 = (case nr_input r of
                  None \<Rightarrow> nums
                | Some cin \<Rightarrow>
                    let cached = (case nr_cache_read r of None \<Rightarrow> 0 | Some c \<Rightarrow> min c cin)
                    in dset ''input_tokens'' (cin - cached) (dset ''cache_read_input_tokens'' cached nums));
          c2 = (case nr_output r of None \<Rightarrow> c1 | Some cout \<Rightarrow> dset ''output_tokens'' cout c1)
      in if has_tokens r
         then dset ''total_tokens''
                (real_of_int (count_of c2 ''input_tokens'' + count_of c2 ''cache_read_input_tokens'' + count_of c2 ''output_tokens'')) c2
         else c2)"

definition report_model :: "usage_env \<Rightarrow> conversation option \<Rightarrow> native_report \<Rightarrow> string option" where
  "report_model env conv r =
     (if has_tokens r \<or> nr_cost r \<noteq> None
      then non_empty (case nr_model r of
             Some v \<Rightarrow> if py_truth v then (case v of PStr s \<Rightarrow> Some s | _ \<Rightarrow> None) else session_model env conv
           | None \<Rightarrow> session_model env conv)
      else None)"

definition set_cost :: "usage_env \<Rightarrow> string option \<Rightarrow> native_report \<Rightarrow> (string, real) pydict \<Rightarrow> (string, real) pydict \<Rightarrow> (string, real) pydict" where
  \<comment> \<open>\<open>old\<close> are the counts before the report; the cost may only rise\<close>
  "set_cost env model r old nums =
     (let old_cost = usage_or_zero old ''total_cost_usd''
      in case nr_cost r of
           Some c \<Rightarrow> dset ''total_cost_usd'' (max old_cost c) nums
         | None \<Rightarrow>
             if has_tokens r
             then (case Option.bind model (ue_pricing env) of
                     None \<Rightarrow> nums
                   | Some p \<Rightarrow> dset ''total_cost_usd'' (max old_cost (compute_llm_cost nums p)) nums)
             else nums)"

fun grow_tokens :: "string list \<Rightarrow> (string, real) pydict \<Rightarrow> (string, real) pydict \<Rightarrow> bucket \<Rightarrow> bucket res" where
  "grow_tokens [] old nums b = Inr b"
| "grow_tokens (k # ks) old nums b =
     (if dget nums k = None then grow_tokens ks old nums b
      else bindR (bucket_number b k) (\<lambda>x.
             grow_tokens ks old nums (dset k (Some (real_of_int (trunc x + max 0 (count_of nums k - count_of old k)))) b)))"

definition grow_cost :: "(string, real) pydict \<Rightarrow> (string, real) pydict \<Rightarrow> bucket \<Rightarrow> bucket res" where
  "grow_cost old nums b =
     (case dget nums ''total_cost_usd'' of
        None \<Rightarrow> Inr b
      | Some c \<Rightarrow> bindR (bucket_number b ''total_cost_usd'') (\<lambda>x.
          Inr (dset ''total_cost_usd'' (Some (x + max 0 (c - usage_or_zero old ''total_cost_usd''))) b)))"

definition attribute :: "string option \<Rightarrow> (string, real) pydict \<Rightarrow> (string, real) pydict \<Rightarrow> usage_row \<Rightarrow> (string, bucket option) pydict option res" where
  \<comment> \<open>the growth of a report goes to the bucket of the active model\<close>
  "attribute model old nums row =
     (case model of
        None \<Rightarrow> Inr (ur_by_model row)
      | Some m \<Rightarrow>
          bindR (model_usage_bucket (by_model_of row) m) (\<lambda>b.
          bindR (grow_tokens model_token_keys old nums b) (\<lambda>b'.
          bindR (grow_cost old nums b') (\<lambda>b''. Inr (Some (dset m (Some b'') (by_model_of row)))))))"

definition set_policy_cost :: "native_report \<Rightarrow> (string, real) pydict \<Rightarrow> (string, real) pydict \<Rightarrow> (string, real) pydict" where
  "set_policy_cost r old nums =
     (case nr_policy_cost r of
        None \<Rightarrow> nums
      | Some c \<Rightarrow> dset ''policy_cost_usd'' (max (usage_or_zero old ''policy_cost_usd'') c) nums)"

definition reported_row :: "usage_env \<Rightarrow> conversation option \<Rightarrow> native_report \<Rightarrow> usage_row res" where
  \<comment> \<open>the row a report leaves, from the one it has read\<close>
  "reported_row env conv r =
     (let row = row_of conv; old = ur_counts row; model = report_model env conv r;
          nums = set_cost env model r old (set_tokens r old)
      in bindR (attribute model old nums row) (\<lambda>bm.
           Inr \<lparr>ur_counts = set_policy_cost r old nums, ur_by_model = bm\<rparr>))"

definition cost_growth :: "conversation option \<Rightarrow> usage_row \<Rightarrow> real" where
  "cost_growth conv row = max 0 (usage_or_zero (ur_counts row) ''total_cost_usd'' - usage_or_zero (ur_counts (row_of conv)) ''total_cost_usd'')"

definition persist_native_cumulative_usage ::
  "usage_env \<Rightarrow> string \<Rightarrow> string \<Rightarrow> (string, pyval) pydict \<Rightarrow> usage_world \<Rightarrow> real option res \<times> usage_world" where
  "persist_native_cumulative_usage env day cid data w =
     (case read_report data of
        Inl e \<Rightarrow> (Inl e, w)
      | Inr None \<Rightarrow> (Inr None, w)
      | Inr (Some r) \<Rightarrow>
          let conv = get_conversation (uw_convs w) cid
          in (case reported_row env conv r of
                Inl e \<Rightarrow> (Inl e, w)
              | Inr row \<Rightarrow>
                  (Inr (priced_cost_for_display (ur_counts row)),
                   record_daily_cost env day conv (cost_growth conv row) (w\<lparr>uw_convs := set_usage_row cid row (uw_convs w)\<rparr>))))"

section \<open>Published costs\<close>

definition display_bucket :: "(string, real) pydict \<Rightarrow> model_usage" where
  "display_bucket b =
     \<lparr>mu_tokens = List.map_filter (\<lambda>k. map_option (\<lambda>v. (k, trunc v)) (dget b k)) model_token_keys,
      mu_cost = priced_cost_for_display b\<rparr>"

definition usage_by_model_for_display :: "session_usage \<Rightarrow> (string, model_usage) pydict option" where
  "usage_by_model_for_display u =
     (if su_by_model u = [] then None else Some (map (\<lambda>(m, b). (m, display_bucket b)) (su_by_model u)))"

function ancestors_from :: "conversation list \<Rightarrow> string list \<Rightarrow> conversation option \<Rightarrow> string list" where
  "ancestors_from convs seen None = []"
| "ancestors_from convs seen (Some c) =
     (case co_parent c of
        None \<Rightarrow> []
      | Some p \<Rightarrow> if p \<in> set seen then [] else p # ancestors_from convs (p # seen) (get_conversation convs p))"
  by pat_completeness auto
termination
proof (relation "measure (\<lambda>(convs, seen, c). card ((co_parent ` (set convs \<union> set_option c)) - Some ` set seen) + (case c of None \<Rightarrow> 0 | Some _ \<Rightarrow> 1))", goal_cases)
  case (2 convs seen c p)
  let ?old = "(co_parent ` (set convs \<union> {c})) - Some ` set seen"
  let ?new = "(co_parent ` (set convs \<union> set_option (get_conversation convs p))) - Some ` set (p # seen)"
  have "set_option (get_conversation convs p) \<subseteq> set convs" by (auto simp: get_conversation_def find_Some_iff)
  then have "?new \<subset> ?old" using 2 by (auto simp: image_iff)
  then have "card ?new < card ?old" by (intro psubset_card_mono) auto
  then show ?case by (auto split: option.split)
qed simp

definition ancestor_session_ids :: "conversation list \<Rightarrow> string \<Rightarrow> string list" where
  "ancestor_session_ids convs cid = ancestors_from convs [cid] (get_conversation convs cid)"

definition subtree_usage :: "usage_env \<Rightarrow> string \<Rightarrow> usage_world \<Rightarrow> session_usage option" where
  "subtree_usage env cid w = load_session_usage (uw_convs w) (ue_list_page env (uw_convs w)) cid"

definition publish_usage :: "string \<Rightarrow> usage_event \<Rightarrow> usage_world \<Rightarrow> usage_world" where
  "publish_usage cid ev w = w\<lparr>uw_published := uw_published w @ [(cid, ev)]\<rparr>"

definition cost_event :: "session_usage \<Rightarrow> usage_event" where
  "cost_event u =
     \<lparr>ux_context_tokens = None, ux_context_window = None, ux_total_cost = priced_cost_for_display (su_totals u),
      ux_by_model = usage_by_model_for_display u\<rparr>"

definition publish_priced :: "string \<Rightarrow> session_usage \<Rightarrow> usage_world \<Rightarrow> usage_world" where
  \<comment> \<open>nothing is sent for a subtree that has no usage yet\<close>
  "publish_priced cid u w =
     (if priced_cost_for_display (su_totals u) = None \<and> usage_by_model_for_display u = None then w
      else publish_usage cid (cost_event u) w)"

fun publish_subtree_costs :: "usage_env \<Rightarrow> string list \<Rightarrow> usage_world \<Rightarrow> usage_world option" where
  "publish_subtree_costs env [] w = Some w"
| "publish_subtree_costs env (a # as) w =
     (case subtree_usage env a w of None \<Rightarrow> None | Some u \<Rightarrow> publish_subtree_costs env as (publish_priced a u w))"

definition publish_subtree_cost_to_ancestors :: "usage_env \<Rightarrow> string \<Rightarrow> usage_world \<Rightarrow> usage_world option" where
  "publish_subtree_cost_to_ancestors env cid w = publish_subtree_costs env (ancestor_session_ids (uw_convs w) cid) w"

definition relay_completed ::
  "usage_env \<Rightarrow> string \<Rightarrow> (string, pyval) pydict \<Rightarrow> string \<Rightarrow> usage_world \<Rightarrow> (unit res \<times> usage_world) option" where
  \<comment> \<open>a \<open>response.completed\<close> event of the relay\<close>
  "relay_completed env day resp cid w =
     (case accumulate_session_usage env day resp cid w of
        (Inl e, w) \<Rightarrow> Some (Inl e, w)
      | (Inr _, w) \<Rightarrow>
          (case subtree_usage env cid w of
             None \<Rightarrow> None
           | Some u \<Rightarrow>
               if priced_cost_for_display (su_totals u) = None \<and> usage_by_model_for_display u = None then Some (Inr (), w)
               else map_option (Pair (Inr ())) (publish_subtree_cost_to_ancestors env cid (publish_usage cid (cost_event u) w))))"

definition optional_int :: "(string, pyval) pydict \<Rightarrow> string \<Rightarrow> (int \<Rightarrow> bool) \<Rightarrow> pyval option res" where
  \<comment> \<open>an optional integer field, booleans among the integers, that must not be \<open>bad\<close>\<close>
  "optional_int data k bad =
     (case dget data k of
        None \<Rightarrow> Inr None
      | Some PNone \<Rightarrow> Inr None
      | Some v \<Rightarrow>
          (case int_of_pyval v of
             Some i \<Rightarrow> if bad i then Inl (OtherError (''external_session_usage data.'' @ k)) else Inr (Some v)
           | None \<Rightarrow> Inl (OtherError (''external_session_usage data.'' @ k))))"

definition cumulative_usage_keys :: "string list" where
  "cumulative_usage_keys = [''cumulative_cost_usd'', ''policy_cost_usd'', ''cumulative_input_tokens'', ''cumulative_output_tokens'']"

definition context_labels :: "pyval option \<Rightarrow> pyval option \<Rightarrow> labels" where
  "context_labels tokens window =
     (case tokens of None \<Rightarrow> [] | Some v \<Rightarrow> [(''codify.last_context_tokens'', py_str (\<lambda>_. []) v)]) @
     (case window of None \<Rightarrow> [] | Some v \<Rightarrow> [(''codify.last_context_window'', py_str (\<lambda>_. []) v)])"

definition persist_external_session_usage ::
  "usage_env \<Rightarrow> string \<Rightarrow> string \<Rightarrow> (string, pyval) pydict \<Rightarrow> usage_world \<Rightarrow> (pyval option res \<times> usage_world) option" where
  "persist_external_session_usage env day cid data w =
     (case bindR (optional_int data ''context_tokens'' (\<lambda>i. i < 0)) (\<lambda>tokens.
           bindR (optional_int data ''context_window'' (\<lambda>i. i \<le> 0)) (\<lambda>window.
             if tokens = None \<and> window = None \<and> (\<forall>k \<in> set cumulative_usage_keys. dget data k \<in> {None, Some PNone})
             then Inl (OtherError ''external_session_usage requires at least one field'') else Inr (tokens, window))) of
        Inl e \<Rightarrow> Some (Inl e, w)
      | Inr (tokens, window) \<Rightarrow>
          (case persist_native_cumulative_usage env day cid data w of
             (Inl e, w) \<Rightarrow> Some (Inl e, w)
           | (Inr _, w) \<Rightarrow>
               let w = w\<lparr>uw_store := set_labels cid (context_labels tokens window) (uw_store w)\<rparr>
               in (case subtree_usage env cid w of
                     None \<Rightarrow> None
                   | Some u \<Rightarrow>
                       let ev = (cost_event u)\<lparr>ux_context_tokens := Option.bind tokens int_of_pyval, ux_context_window := Option.bind window int_of_pyval\<rparr>
                       in map_option (Pair (Inr tokens)) (publish_subtree_cost_to_ancestors env cid (publish_usage cid ev w)))))"

section \<open>Worker threads\<close>

datatype usage_thread =
    Turn_Read string "(string, pyval) pydict"
  | Turn_Write string "conversation option" account_delta real
  | Report_Read string "(string, pyval) pydict"
  | Report_Write string "conversation option" native_report
  | Daily_Write "conversation option" real "real option"
  | Returned "real option"
  | Raised py_exn

fun thread_step :: "usage_env \<Rightarrow> string \<Rightarrow> usage_thread \<Rightarrow> usage_world \<Rightarrow> usage_thread \<times> usage_world" where
  \<comment> \<open>one access of the store\<close>
  "thread_step env day (Turn_Read cid resp) w =
     ((case dget resp ''usage'' of
         Some (PDict usage) \<Rightarrow>
           if \<not> has_usage usage then Returned None
           else let conv = get_conversation (uw_convs w) cid
                in (case turn_delta env conv usage of Inl e \<Rightarrow> Raised e | Inr (d, cost) \<Rightarrow> Turn_Write cid conv d cost)
       | _ \<Rightarrow> Returned None), w)"
| "thread_step env day (Turn_Write cid conv d cost) w =
     (case increment_session_usage cid d (uw_convs w) of
        Inl e \<Rightarrow> (Raised e, w)
      | Inr (row, convs) \<Rightarrow> (Daily_Write conv cost (priced_cost_for_display (ur_counts row)), w\<lparr>uw_convs := convs\<rparr>))"
| "thread_step env day (Report_Read cid data) w =
     ((case read_report data of
         Inl e \<Rightarrow> Raised e
       | Inr None \<Rightarrow> Returned None
       | Inr (Some r) \<Rightarrow> Report_Write cid (get_conversation (uw_convs w) cid) r), w)"
| "thread_step env day (Report_Write cid conv r) w =
     (case reported_row env conv r of
        Inl e \<Rightarrow> (Raised e, w)
      | Inr row \<Rightarrow> (Daily_Write conv (cost_growth conv row) (priced_cost_for_display (ur_counts row)),
                    w\<lparr>uw_convs := set_usage_row cid row (uw_convs w)\<rparr>))"
| "thread_step env day (Daily_Write conv delta shown) w = (Returned shown, record_daily_cost env day conv delta w)"
| "thread_step env day (Returned shown) w = (Returned shown, w)"
| "thread_step env day (Raised e) w = (Raised e, w)"

inductive usage_step :: "usage_env \<Rightarrow> string \<Rightarrow> usage_thread list \<times> usage_world \<Rightarrow> usage_thread list \<times> usage_world \<Rightarrow> bool" for env day where
  thread: "i < length ts \<Longrightarrow> thread_step env day (ts ! i) w = (t, w') \<Longrightarrow> usage_step env day (ts, w) (ts[i := t], w')"

end
