(* ===== verification/Engine_Builder_Props.thy ===== *)
theory Engine_Builder_Props
  imports Engine_Builder
begin

text \<open>
  What an engine is built from: a spawn tree is read to its end, a subtree is the set of descendants, usage
  is summed over it, and so a session budget holds over the whole tree, whichever member is evaluated.
\<close>

section \<open>Pages\<close>

definition rows_after :: "conversation list \<Rightarrow> string option \<Rightarrow> conversation list" where
  "rows_after rows after = (case after of None \<Rightarrow> rows | Some cid \<Rightarrow> tl (dropWhile (\<lambda>c. co_id c \<noteq> cid) rows))"

definition paged :: "nat \<Rightarrow> conversation list \<Rightarrow> (string option \<Rightarrow> page) \<Rightarrow> bool" where
  \<comment> \<open>the pages of a list of rows, at most \<open>n\<close> rows each\<close>
  "paged n rows list_page \<longleftrightarrow> 0 < n \<and> distinct (map co_id rows) \<and>
     (\<forall>after. list_page after =
        (let page = take n (rows_after rows after)
         in \<lparr>pg_data = page, pg_last_id = (if page = [] then None else Some (co_id (last page))),
             pg_has_more = n < length (rows_after rows after)\<rparr>))"

lemma rows_after_split:
  assumes "distinct (map co_id (xs @ c # ys))"
  shows "rows_after (xs @ c # ys) (Some (co_id c)) = ys"
proof -
  have "\<forall>x \<in> set xs. co_id x \<noteq> co_id c" using assms by (auto simp: image_iff)
  then have "dropWhile (\<lambda>x. co_id x \<noteq> co_id c) (xs @ c # ys) = c # ys" by (simp add: dropWhile_append2)
  then show ?thesis by (simp add: rows_after_def)
qed

lemma load_tree_from:
  assumes "paged n rows list_page" and "rows_after rows after = drop k rows" and "k \<le> length rows"
  shows "load_tree_conversations list_page convs after = Some (convs @ drop k rows)"
  using assms(2,3)
proof (induction "length rows - k" arbitrary: k after convs rule: less_induct)
  case less
  have n: "0 < n" "distinct (map co_id rows)" using assms(1) by (auto simp: paged_def)
  have page: "list_page after = \<lparr>pg_data = take n (drop k rows),
      pg_last_id = (if take n (drop k rows) = [] then None else Some (co_id (last (take n (drop k rows))))),
      pg_has_more = n < length (drop k rows)\<rparr>"
    using assms(1) less.prems(1) by (simp add: paged_def Let_def)
  show ?case
  proof (cases "n < length (drop k rows)")
    case False
    then show ?thesis by (simp add: load_tree_conversations.simps page)
  next
    case True
    let ?last = "last (take n (drop k rows))"
    have k: "k + n \<le> length rows" "k + n - 1 < length rows" "take n (drop k rows) \<noteq> []" using True n by auto
    have "?last = rows ! (k + n - 1)"
      using True n(1) by (simp add: last_conv_nth min_def)
    then have split: "rows = take (k + n - 1) rows @ ?last # drop (k + n) rows"
      using id_take_nth_drop [OF k(2)] n(1) by simp
    have "rows_after rows (Some (co_id ?last)) = drop (k + n) rows"
      using rows_after_split [of "take (k + n - 1) rows" ?last "drop (k + n) rows"] n(2) split by metis
    then have "load_tree_conversations list_page (convs @ take n (drop k rows)) (Some (co_id ?last)) =
        Some ((convs @ take n (drop k rows)) @ drop (k + n) rows)"
      using less.hyps [of "k + n"] k n(1) by simp
    moreover have "take n (drop k rows) @ drop (k + n) rows = drop k rows"
      by (metis add.commute append_take_drop_id drop_drop)
    ultimately show ?thesis using True k(3) by (subst load_tree_conversations.simps) (simp add: page)
  qed
qed

lemma load_tree_rows: "paged n rows list_page \<Longrightarrow> load_tree_conversations list_page [] None = Some rows"
  using load_tree_from [of n rows list_page None 0 "[]"] by (simp add: rows_after_def)

section \<open>Subtrees\<close>

definition child_rel :: "conversation list \<Rightarrow> (string \<times> string) set" where
  "child_rel tree = {(p, c). c \<in> set (children_of tree p)}"

lemma walk_subtree_reaches:
  assumes "\<forall>x \<in> set subtree. set (children_of tree x) \<subseteq> set subtree \<union> set stack"
  shows "set (walk_subtree tree stack subtree) = set subtree \<union> (child_rel tree)\<^sup>* `` set stack"
  using assms
proof (induction tree stack subtree rule: walk_subtree.induct)
  case (2 tree node stack subtree)
  show ?case
  proof (cases "node \<in> set subtree")
    case True
    have closed: "y \<in> set subtree \<union> (child_rel tree)\<^sup>* `` set stack" if "(x, y) \<in> (child_rel tree)\<^sup>*" "x \<in> set subtree" for x y
      using that
    proof (induction rule: rtrancl_induct)
      case (step y z)
      then consider "y \<in> set subtree" | "y \<in> (child_rel tree)\<^sup>* `` set stack" by blast
      then show ?case
      proof cases
        case 1
        then have "z \<in> set subtree \<union> set (node # stack)" using step(2) 2(3) by (auto simp: child_rel_def)
        then show ?thesis using True by auto
      next
        case 2
        then show ?thesis using step(2) by (auto intro: rtrancl_into_rtrancl)
      qed
    qed simp
    have "\<forall>x \<in> set subtree. set (children_of tree x) \<subseteq> set subtree \<union> set stack" using 2(3) True by auto
    then have "set (walk_subtree tree (node # stack) subtree) = set subtree \<union> (child_rel tree)\<^sup>* `` set stack"
      using 2(1) [OF True] True by simp
    then show ?thesis using closed [OF _ True] by auto
  next
    case False
    have "\<forall>x \<in> set (node # subtree). set (children_of tree x) \<subseteq> set (node # subtree) \<union> set (rev (children_of tree node) @ stack)"
      using 2(3) by auto
    note IH = 2(2) [OF False this]
    have "(child_rel tree)\<^sup>* `` {node} = {node} \<union> (child_rel tree)\<^sup>* `` set (children_of tree node)"
      by (auto simp: child_rel_def intro: converse_rtrancl_into_rtrancl elim: converse_rtranclE)
    then show ?thesis using IH False by auto
  qed
qed simp

lemma subtree_is_the_descendants: "set (subtree_conversation_ids tree cid) = (child_rel tree)\<^sup>* `` {cid}"
  unfolding subtree_conversation_ids_def by (subst walk_subtree_reaches) simp_all

section \<open>Sums\<close>

definition sum_present :: "real option list \<Rightarrow> real option" where
  \<comment> \<open>the sum of the values that are there, if there is one\<close>
  "sum_present vs = (if List.map_filter id vs = [] then None else Some (sum_list (List.map_filter id vs)))"

lemma sum_present_snoc:
  "sum_present (vs @ [v]) = (case v of None \<Rightarrow> sum_present vs | Some x \<Rightarrow> Some ((case sum_present vs of None \<Rightarrow> 0 | Some s \<Rightarrow> s) + x))"
  by (auto simp: sum_present_def map_filter_def split: option.split)

lemma dget_sum_keys:
  "distinct ks \<Longrightarrow> dget (sum_keys ks row totals) k =
     (if k \<in> set ks then case dget row k of None \<Rightarrow> dget totals k
        | Some v \<Rightarrow> Some ((case dget totals k of None \<Rightarrow> 0 | Some s \<Rightarrow> s) + v) else dget totals k)"
proof (induction ks arbitrary: totals)
  case (Cons k' ks)
  then show ?case by (auto simp: add_to_def split: option.split)
qed simp

lemma fold_add_conversation:
  "k \<in> set summable_usage_keys \<Longrightarrow>
     dget (su_totals (fold add_conversation cs no_usage)) k = sum_present (map (\<lambda>c. dget (ur_counts (co_session_usage c)) k) cs)"
  "su_policy_cost (fold add_conversation cs no_usage) = sum_present (map policy_cost_of cs)"
proof (induction cs rule: rev_induct)
  case (snoc c cs)
  have keys: "distinct summable_usage_keys" by (simp add: summable_usage_keys_def)
  {
    case 1
    then show ?case using snoc(1) by (simp add: add_conversation_def dget_sum_keys [OF keys] sum_present_snoc split: option.split)
  next
    case 2
    then show ?case using snoc(2) by (simp add: add_conversation_def sum_present_snoc split: option.split)
  }
qed (simp_all add: no_usage_def sum_present_def map_filter_def)

lemma load_session_usage_members:
  assumes "get_conversation convs cid = Some conv" and "paged n rows (list_page (co_root conv))"
    and "members = filter (\<lambda>c. (cid, co_id c) \<in> (child_rel rows)\<^sup>*) rows"
  shows "load_session_usage convs list_page cid = Some (fold add_conversation members no_usage)"
proof -
  have "filter (\<lambda>c. co_id c \<in> set (subtree_conversation_ids rows cid)) rows = members"
    by (simp add: assms(3) subtree_is_the_descendants)
  then show ?thesis using assms(1) load_tree_rows [OF assms(2)] by (simp add: load_session_usage_def)
qed

text \<open>
  The usage of a conversation is summed over its subtree. When the store pages through the spawn tree, the
  usage read for a conversation has, for every counter, the sum over the conversation and its transitive
  descendants of the values that are recorded, and no value when none is; the enforcement cost sums the policy
  cost of each of them, or the displayed cost of those that have none.
\<close>
theorem session_usage_sums_the_subtree:
  assumes "get_conversation convs cid = Some conv" and "paged n rows (list_page (co_root conv))"
    and "members = filter (\<lambda>c. (cid, co_id c) \<in> (child_rel rows)\<^sup>*) rows"
  shows "\<exists>u. load_session_usage convs list_page cid = Some u \<and>
    (\<forall>k \<in> set summable_usage_keys. dget (su_totals u) k = sum_present (map (\<lambda>c. dget (ur_counts (co_session_usage c)) k) members)) \<and>
    su_policy_cost u = sum_present (map policy_cost_of members)"
  using load_session_usage_members [where list_page = list_page, OF assms] by (simp add: fold_add_conversation)

definition ex_row :: "string \<Rightarrow> string option \<Rightarrow> (string, real) pydict \<Rightarrow> conversation" where
  "ex_row cid parent nums = \<lparr>co_id = cid, co_root = ''s'', co_parent = parent, co_model_override = None,
     co_session_usage = \<lparr>ur_counts = nums, ur_by_model = None\<rparr>\<rparr>"

definition ex_rows :: "conversation list" where
  "ex_rows = [ex_row ''s'' None [(''total_cost_usd'', 3)], ex_row ''t'' (Some ''s'') [(''total_cost_usd'', 1), (''policy_cost_usd'', 4)]]"

definition one_page :: "conversation list \<Rightarrow> string \<Rightarrow> string option \<Rightarrow> page" where
  "one_page rows root_id after =
     (let page = take 100 (rows_after rows after)
      in \<lparr>pg_data = page, pg_last_id = (if page = [] then None else Some (co_id (last page))),
          pg_has_more = 100 < length (rows_after rows after)\<rparr>)"

lemma one_page_paged: "distinct (map co_id rows) \<Longrightarrow> paged 100 rows (one_page rows root_id)"
  by (simp add: paged_def one_page_def)

lemma ex_rows_ids: "distinct (map co_id ex_rows)" "get_conversation ex_rows ''s'' = Some (ex_row ''s'' None [(''total_cost_usd'', 3)])"
  "get_conversation ex_rows ''t'' = Some (ex_row ''t'' (Some ''s'') [(''total_cost_usd'', 1), (''policy_cost_usd'', 4)])"
  by (simp_all add: ex_rows_def ex_row_def get_conversation_def)

lemma ex_rows_reached: "\<forall>c \<in> set ex_rows. (''s'', co_id c) \<in> (child_rel ex_rows)\<^sup>*"
proof -
  have "(''s'', ''t'') \<in> child_rel ex_rows" by (simp add: child_rel_def children_of_def ex_rows_def ex_row_def)
  then show ?thesis by (auto simp: ex_rows_def ex_row_def)
qed

lemma all_members: "\<forall>c \<in> set rows. P c \<Longrightarrow> filter P rows = rows"
  by (simp add: filter_id_conv)

theorem session_usage_sums_the_subtree_witness:
  "\<exists>u. load_session_usage ex_rows (one_page ex_rows) ''s'' = Some u \<and> dget (su_totals u) ''total_cost_usd'' = Some 4 \<and>
     su_policy_cost u = Some 7"
proof -
  have "paged 100 ex_rows (one_page ex_rows (co_root (ex_row ''s'' None [(''total_cost_usd'', 3)])))"
    by (rule one_page_paged) (rule ex_rows_ids)
  from session_usage_sums_the_subtree [where list_page = "one_page ex_rows", OF ex_rows_ids(2) this all_members [OF ex_rows_reached, symmetric]]
  show ?thesis by (auto simp: summable_usage_keys_def ex_rows_def ex_row_def sum_present_def map_filter_def policy_cost_of_def)
qed

section \<open>A budget over a tree\<close>

lemma instantiate_policies_member:
  "instantiate_policies env specs = Inr ps \<Longrightarrow> s \<in> set specs \<Longrightarrow>
   \<exists>p \<in> set ps. pol_spec p = fst s \<and> be_resolve env (snd s) = Inr (snd (pol_state p))"
proof (induction specs arbitrary: ps)
  case (Cons s' specs)
  then obtain p ps' where "instantiate_policy env s' = Inr p" "instantiate_policies env specs = Inr ps'" "ps = p # ps'"
    by (auto simp: bindR_Inr_iff)
  then show ?case using Cons by (auto simp: instantiate_policy_def bindR_Inr_iff)
qed simp

lemma setdefault_keeps:
  assumes "dget u k = Some v"
  shows "dget (setdefault k' x u) k = Some v"
proof (cases "dget u k'")
  case None
  then have "k \<noteq> k'" using assms by auto
  then show ?thesis using None assms by (simp add: setdefault_def)
qed (use assms in \<open>simp add: setdefault_def\<close>)

lemma built_engine:
  assumes "build_policy_engine env convs st agent cid host default_policies pst server_llm ch = Some (Inr eng, st', ch')"
    and "collect_policies convs cid agent default_policies pst ch = (Inr specs, ch2)"
  obtains seed where "policy_usage_seed convs (be_list_page env) cid = Some seed" "instantiate_policies env specs = Inr (e_policies eng)"
    "\<And>k v. dget seed k = Some v \<Longrightarrow> dget (e_usage eng) k = Some v"
    "e_conversation_id eng = cid" "e_model eng = resolve_session_model convs cid agent"
proof -
  have kept: "dget (setdefault ''cache_creation_input_tokens'' 0 (setdefault ''cache_read_input_tokens'' 0
      (if seed = [] then zero else seed))) k = Some v" if "dget seed k = Some v" for seed zero :: usage and k v
  proof -
    have "seed \<noteq> []" using that by auto
    then show ?thesis using that by (simp add: setdefault_keeps)
  qed
  obtain seed where seed: "policy_usage_seed convs (be_list_page env) cid = Some seed"
    using assms by (auto simp: build_policy_engine_def Let_def split: option.splits prod.splits)
  obtain subtree where subtree: "(if needs_subtree_usage specs then map_option Some (subtree_usage_seed convs (be_list_page env) cid) else Some None)
      = Some subtree"
    using assms seed by (auto simp: build_policy_engine_def Let_def split: option.splits prod.splits)
  obtain policies defs tmo ls s0 daily pricing st2 rid client where
    eng: "eng = make_engine policies defs tmo cid ls s0 (Some seed) subtree daily pricing (resolve_session_model convs cid agent) st2 rid client"
    and ps: "instantiate_policies env specs = Inr policies"
    using assms(1) unfolding build_policy_engine_def assms(2) Let_def prod.case sum.case seed option.case subtree
    by (auto simp: bindR_Inr_iff split: prod.splits)
  show ?thesis
  proof (rule that [OF seed])
    show "dget (e_usage eng) k = Some v" if "dget seed k = Some v" for k v
      using kept [OF that] unfolding eng make_engine_def Let_def option.case engine.simps .
  qed (simp_all add: eng ps make_engine_def)
qed


definition tree_cost :: "conversation list \<Rightarrow> real" where
  \<comment> \<open>the enforcement cost of the rows of a tree\<close>
  "tree_cost rows = sum_list (List.map_filter policy_cost_of rows)"

lemma sum_present_cost:
  assumes "0 < tree_cost rows"
  shows "sum_present (map policy_cost_of rows) = Some (tree_cost rows)"
proof -
  have "List.map_filter id (map policy_cost_of rows) = List.map_filter policy_cost_of rows"
    by (simp add: map_filter_def filter_map comp_def)
  moreover have "List.map_filter policy_cost_of rows \<noteq> []" using assms by (auto simp: tree_cost_def)
  ultimately show ?thesis by (simp add: sum_present_def tree_cost_def)
qed

lemma tree_seed_cost:
  assumes conv: "get_conversation convs cid = Some conv" and root: "get_conversation convs (co_root conv) = Some root_conv" "co_root root_conv = co_root conv"
    and rows: "paged n rows (list_page (co_root conv))" "\<forall>c \<in> set rows. (co_root conv, co_id c) \<in> (child_rel rows)\<^sup>*"
    and pos: "0 < tree_cost rows" and seed: "policy_usage_seed convs list_page cid = Some seed"
  shows "dget seed ''total_cost_usd'' = Some (tree_cost rows)"
proof -
  have "paged n rows (list_page (co_root root_conv))" using rows(1) root(2) by simp
  from load_session_usage_members [where list_page = list_page, OF root(1) this all_members [OF rows(2), symmetric]]
  obtain u where u: "load_session_usage convs list_page (co_root conv) = Some u" "su_policy_cost u = sum_present (map policy_cost_of rows)"
    by (simp add: fold_add_conversation)
  then have "seed = normalize_usage_for_engine u" using seed conv by (simp add: policy_usage_seed_def)
  then show ?thesis using u(2) sum_present_cost [OF pos] by (simp add: normalize_usage_for_engine_def)
qed

lemma limit_positive: "budget_thresholds (Some limit) ask_thresholds = Inr ts \<Longrightarrow> 0 < limit"
  by (auto simp: budget_thresholds_def split: if_splits)

text \<open>
  A session budget holds over the whole spawn tree. Whichever conversation of a tree an engine is built
  for, once the enforcement costs recorded in all of the tree add up to the limit of a cost budget among the
  policies of that conversation, of its root, of the agent or of the administrator, every request and tool
  call is denied while the model is one the budget blocks, or is not known.
\<close>
lemma over_budget_denied:
  assumes "get_conversation convs cid = Some conv" and "get_conversation convs (co_root conv) = Some root_conv"
    and "co_root root_conv = co_root conv" and "paged n rows (be_list_page env (co_root conv))"
    and "\<forall>c \<in> set rows. (co_root conv, co_id c) \<in> (child_rel rows)\<^sup>*"
    and "build_policy_engine env convs st agent cid host default_policies pst server_llm ch = Some (Inr eng, st', ch')"
    and "collect_policies convs cid agent default_policies pst ch = (Inr specs, ch2)"
    and "(spec, fref) \<in> set specs" and "unconditional spec" and "be_resolve env fref = cost_budget money (Some limit) ask_thresholds models"
    and "resolve_expensive_models models = Inr cfg" and "limit \<le> tree_cost rows"
    and "cx_phase ctx \<in> {REQUEST, TOOL_CALL}" and "model_blocked_over_budget (effective_model eng ctx) cfg"
    and "fst (evaluate_composed day (evaluate_function other) read_only ctx eng) = Inr r"
  shows "r_action r = DENY"
proof -
  obtain seed where seed: "policy_usage_seed convs (be_list_page env) cid = Some seed" "instantiate_policies env specs = Inr (e_policies eng)"
    "\<And>k v. dget seed k = Some v \<Longrightarrow> dget (e_usage eng) k = Some v"
    by (rule built_engine [OF assms(6,7)]) blast
  obtain p where p: "p \<in> set (e_policies eng)" "pol_spec p = spec" "cost_budget money (Some limit) ask_thresholds models = Inr (snd (pol_state p))"
    using instantiate_policies_member [OF seed(2) assms(8)] assms(10) by auto
  obtain qs ps where split: "e_policies eng = qs @ p # ps" using p(1) by (meson split_list)
  obtain ts where "budget_thresholds (Some limit) ask_thresholds = Inr ts" by (rule cost_budget_parts [OF p(3)])
  then have "0 < tree_cost rows" using limit_positive assms(12) by fastforce
  then have "dget (e_usage eng) ''total_cost_usd'' = Some (tree_cost rows)"
    by (intro seed(3) tree_seed_cost [OF assms(1-5) _ seed(1)])
  then show ?thesis
    using budget_denied [OF split refl _ p(3) assms(11,13) _ assms(12,14,15)] assms(9) p(2) by simp
qed


definition ex_builder_env :: environment where
  "ex_builder_env = \<lparr>be_list_page = one_page ex_rows, be_owner = (\<lambda>_. None), be_daily = (\<lambda>_. []), be_pricing = (\<lambda>_. None),
     be_workspace = (\<lambda>_. Inl (ValueError [])),
     be_resolve = (\<lambda>f. if fr_path f = ''cost'' then cost_budget (\<lambda>_. []) (Some 5) None None else Inr (ask_on_add_policy (\<lambda>_. [])))\<rparr>"

definition ex_agent :: agent_decl where
  "ex_agent = \<lparr>ad_guardrails = Some \<lparr>gr_labels = None,
     gr_policies = Some [(unrestricted_spec ''b'', \<lparr>fr_path = ''cost'', fr_arguments = None\<rparr>)], gr_ask_timeout = 60\<rparr>, ad_llm_model = None\<rparr>"

definition ex_build :: "((llm_client function_policy, llm_client) engine res \<times> store \<times> spec_caches) option" where
  "ex_build = build_policy_engine ex_builder_env ex_rows ex_store ex_agent ''t'' None None None None \<lparr>ch_default = None, ch_session = []\<rparr>"

definition ex_tool_call :: "llm_client evaluation_context" where
  "ex_tool_call = \<lparr>cx_phase = TOOL_CALL, cx_content = PDict [(''name'', PStr ''Bash'')], cx_tool_name = Some ''Bash'', cx_actor = None,
     cx_request_data = None, cx_session_state = None, cx_usage = None, cx_subtree_usage = None, cx_user_daily_cost = None, cx_model = None,
     cx_harness = None, cx_labels = None, cx_llm_client = None\<rparr>"

lemma ex_cfg: "resolve_expensive_models None = Inr \<lparr>em_expensive_tokens = [], em_exclude_tokens = [], em_hard_cap_enabled = True,
    em_block_all_models = True\<rparr>"
  by (simp add: resolve_expensive_models_def or_empty_def)

lemma ex_specs:
  "collect_policies ex_rows ''t'' ex_agent None None \<lparr>ch_default = None, ch_session = []\<rparr> =
     (Inr [(unrestricted_spec ''b'', \<lparr>fr_path = ''cost'', fr_arguments = None\<rparr>), ask_on_add_policy_spec], \<lparr>ch_default = None, ch_session = []\<rparr>)"
  by (simp add: collect_policies_def load_session_policy_specs_def load_default_policy_specs_def inherited_policies_def ex_agent_def or_empty_def)

lemma ex_seed: "\<exists>seed. policy_usage_seed ex_rows (one_page ex_rows) ''t'' = Some seed"
proof -
  have "paged 100 ex_rows (one_page ex_rows (co_root (ex_row ''s'' None [(''total_cost_usd'', 3)])))"
    by (rule one_page_paged) (rule ex_rows_ids)
  from load_session_usage_members [where list_page = "one_page ex_rows", OF ex_rows_ids(2) this refl]
  show ?thesis using ex_rows_ids(3) by (simp add: policy_usage_seed_def ex_row_def)
qed

lemma ex_built: "\<exists>eng st ch. ex_build = Some (Inr eng, st, ch)"
proof -
  obtain seed where seed: "policy_usage_seed ex_rows (one_page ex_rows) ''t'' = Some seed" using ex_seed by blast
  have path: "\<not> needs_subtree_usage [(unrestricted_spec ''b'', \<lparr>fr_path = ''cost'', fr_arguments = None\<rparr>), ask_on_add_policy_spec]"
    by (simp add: needs_subtree_usage_def subagent_cost_policy_path_def ask_on_add_policy_spec_def)
  have "(cost_budget (\<lambda>_. []) (Some 5) None None :: llm_client callable res) = Inr (cost_budget_evaluate (\<lambda>_. []) (Some 5) []
      \<lparr>em_expensive_tokens = [], em_exclude_tokens = [], em_hard_cap_enabled = True, em_block_all_models = True\<rparr>)"
    by (simp add: cost_budget_def budget_thresholds_def or_empty_def ex_cfg)
  then have policies: "\<exists>ps. instantiate_policies ex_builder_env [(unrestricted_spec ''b'', \<lparr>fr_path = ''cost'', fr_arguments = None\<rparr>), ask_on_add_policy_spec] = Inr ps"
    by (simp add: instantiate_policy_def ex_builder_env_def ask_on_add_policy_spec_def)
  have page: "be_list_page ex_builder_env = one_page ex_rows" by (simp add: ex_builder_env_def)
  show ?thesis
    unfolding ex_build_def build_policy_engine_def ex_specs Let_def prod.case sum.case page seed option.case if_not_P [OF path]
    using policies by (auto simp: resolve_server_llm_connection_def split: prod.split)
qed

lemma over_budget_denied_example:
  "\<exists>eng st ch. ex_build = Some (Inr eng, st, ch) \<and>
     r_action (projr (fst (evaluate_composed ''d'' (evaluate_function (\<lambda>_. [])) True ex_tool_call eng))) = DENY"
proof -
  obtain eng st ch where built: "ex_build = Some (Inr eng, st, ch)" using ex_built by blast
  obtain r where r: "fst (evaluate_composed ''d'' (evaluate_function (\<lambda>_. [])) True ex_tool_call eng) = Inr r"
    using read_only_answers by blast
  have root: "co_root (ex_row ''t'' (Some ''s'') [(''total_cost_usd'', 1), (''policy_cost_usd'', 4)]) = ''s''" by (simp add: ex_row_def)
  have rows: "paged 100 ex_rows (be_list_page ex_builder_env ''s'')"
    unfolding ex_builder_env_def environment.simps by (rule one_page_paged) (rule ex_rows_ids)
  have "r_action r = DENY"
  proof (rule over_budget_denied [OF ex_rows_ids(3), unfolded root, OF ex_rows_ids(2) _ rows ex_rows_reached _ ex_specs
        list.set_intros(1) _ _ ex_cfg])
    show "build_policy_engine ex_builder_env ex_rows ex_store ex_agent ''t'' None None None None \<lparr>ch_default = None, ch_session = []\<rparr> =
        Some (Inr eng, st, ch)" using built by (simp add: ex_build_def)
    show "be_resolve ex_builder_env \<lparr>fr_path = ''cost'', fr_arguments = None\<rparr> = cost_budget (\<lambda>_. []) (Some 5) None None"
      by (simp add: ex_builder_env_def)
    show "5 \<le> tree_cost ex_rows" by (simp add: tree_cost_def ex_rows_def ex_row_def policy_cost_of_def map_filter_def)
  qed (use r in \<open>simp_all add: ex_row_def unconditional_def unrestricted_spec_def ex_tool_call_def model_blocked_over_budget_def\<close>)
  then show ?thesis using built r by (intro exI [of _ eng] exI [of _ st] exI [of _ ch]) simp
qed

text \<open>
  A policy of the child that has the name of a policy of the root stands in for it, whatever its function is.
\<close>

lemma child_policy_replaces_the_root_policy:
  assumes "ps_name (fst p) = ps_name (fst q)" and "q \<in> set own" and "p \<notin> set own"
  shows "p \<notin> set (inherited_policies of_root own)"
  using assms by (auto simp: inherited_policies_def)


section \<open>The fast path\<close>

lemma ask_on_add_quiet:
  assumes "case ev_data ev of PDict d \<Rightarrow> dget d ''name'' \<noteq> Some (PStr ''sys_add_policy'') | _ \<Rightarrow> True"
  shows "ask_on_add_policy other ev = Inr allow_response"
  using assms by (auto simp: ask_on_add_policy_def split: pyval.splits)

lemma ask_on_add_phase: "ev_type ev \<noteq> ''tool_call'' \<Longrightarrow> ask_on_add_policy other ev = Inr allow_response"
  by (simp add: ask_on_add_policy_def)

definition called_tool :: "pyval \<Rightarrow> string option" where
  \<comment> \<open>\<open>data.get("name")\<close>\<close>
  "called_tool data = (case data of PDict d \<Rightarrow> as_string (dget d ''name'') | _ \<Rightarrow> None)"

lemma fast_path_specs:
  assumes "root_conversation_of convs cid = cid" and "any_policies_apply agent cid default_policies pst ph tool ch = (Inr False, ch1)"
    and "collect_policies convs cid agent default_policies pst ch = (Inr specs, ch2)"
  shows "specs = [ask_on_add_policy_spec] \<and> \<not> (ph = Some TOOL_CALL \<and> tool = Some ''sys_add_policy'')"
proof -
  have agent: "(case ad_guardrails agent of None \<Rightarrow> [] | Some g \<Rightarrow> or_empty (gr_policies g)) = []"
    using assms(2) by (auto simp: any_policies_apply_def split: if_splits option.splits)
  have yaml: "or_empty default_policies = []" and add: "\<not> (ph = Some TOOL_CALL \<and> tool = Some ''sys_add_policy'')"
    using assms(2) by (auto simp: any_policies_apply_def split: if_splits)
  obtain ds chd where d: "load_default_policy_specs pst ch = (ds, chd)" by fastforce
  have "ds = []" using assms(2) d by (auto simp: any_policies_apply_def split: if_splits option.splits)
  moreover have "fst (load_session_policy_specs cid pst ch) = Inr []"
    using assms(2) d
    by (auto simp: any_policies_apply_def load_session_policy_specs_def load_default_policy_specs_def
        split: if_splits option.splits sum.splits prod.splits)
  moreover have "fst (load_default_policy_specs pst ch') = ds" if "snd (load_session_policy_specs cid pst ch) = ch'" for ch'
    using that d by (auto simp: load_session_policy_specs_def load_default_policy_specs_def split: option.splits sum.splits)
  ultimately have "specs = [ask_on_add_policy_spec]"
    using assms(1,3) agent yaml
    by (auto simp: collect_policies_def inherited_policies_def split: prod.splits sum.splits)
  then show ?thesis using add by simp
qed

text \<open>
  C25: The fast path of the policy hook changes no verdict of a top-level session. When it finds that no policy
  applies to an action of the root conversation of a session, the engine that it saves building would have
  allowed the action.
\<close>
theorem fast_path_agrees_with_the_engine:
  assumes "root_conversation_of convs cid = cid"
    and "any_policies_apply agent cid default_policies pst (Some (cx_phase ctx)) (called_tool (cx_content ctx)) ch = (Inr False, ch1)"
    and "collect_policies convs cid agent default_policies pst ch = (Inr specs, ch2)"
    and "build_policy_engine env convs st agent cid host default_policies pst server_llm ch = Some (Inr eng, st', ch')"
    and "be_resolve env (snd ask_on_add_policy_spec) = Inr (ask_on_add_policy other)"
    and "fst (evaluate_composed day (evaluate_function other) read_only ctx eng) = Inr r"
  shows "r_action r = ALLOW"
proof -
  note specs = fast_path_specs [OF assms(1-3)]
  obtain seed where "instantiate_policies env specs = Inr (e_policies eng)" by (rule built_engine [OF assms(4,3)]) blast
  then have "e_policies eng = [\<lparr>pol_spec = fst ask_on_add_policy_spec, pol_state = (ps_name (fst ask_on_add_policy_spec), ask_on_add_policy other)\<rparr>]"
    using specs assms(5) by (simp add: instantiate_policy_def)
  then obtain p where p: "e_policies eng = [p]" "snd (pol_state p) = ask_on_add_policy other" "pol_spec p = fst ask_on_add_policy_spec"
    by (rule that) simp_all
  have quiet: "ask_on_add_policy other (build_event (inject eng ctx)) = Inr allow_response"
  proof (cases "cx_phase ctx = TOOL_CALL")
    case True
    then have "called_tool (cx_content ctx) \<noteq> Some ''sys_add_policy''" using specs by simp
    then show ?thesis
      by (intro ask_on_add_quiet) (auto simp: build_event_def called_tool_def as_string_def split: pyval.splits option.splits)
  next
    case False
    then have "ev_type (build_event (inject eng ctx)) \<noteq> ''tool_call''" by (simp add: build_event_def inject_def Let_def split: option.split)
    then show ?thesis by (rule ask_on_add_phase)
  qed
  have "fst (dispatch_policy (evaluate_function other) p (inject eng ctx) (context_of eng)) = allowed"
    by (simp add: dispatch_function p(2) quiet)
  moreover have "should_fire (e_labels eng) (pol_spec p) (inject eng ctx)"
    by (simp add: p(3) ask_on_add_policy_spec_def unrestricted_spec_def should_fire_def)
  ultimately have "map (\<lambda>sr. r_action (snd sr)) (fired (evaluate_function other) (e_labels eng) (context_of eng) [p] (inject eng ctx)) = [ALLOW]"
    by (simp add: Let_def allowed_verdict)
  then show ?thesis using decide_strictest [OF assms(6) [unfolded evaluate_function_fired p(1)]] by simp
qed


definition ex_bare_agent :: agent_decl where
  "ex_bare_agent = \<lparr>ad_guardrails = None, ad_llm_model = None\<rparr>"

theorem fast_path_agrees_with_the_engine_witness:
  "\<exists>eng st ch. build_policy_engine ex_builder_env ex_rows ex_store ex_bare_agent ''s'' None None None None \<lparr>ch_default = None, ch_session = []\<rparr> =
      Some (Inr eng, st, ch) \<and>
     r_action (projr (fst (evaluate_composed ''d'' (evaluate_function (\<lambda>_. [])) True ex_tool_call eng))) = ALLOW"
proof -
  let ?ch = "\<lparr>ch_default = None, ch_session = []\<rparr>"
  have specs: "collect_policies ex_rows ''s'' ex_bare_agent None None ?ch = (Inr [ask_on_add_policy_spec], ?ch)"
    by (simp add: collect_policies_def load_session_policy_specs_def load_default_policy_specs_def inherited_policies_def ex_bare_agent_def
        or_empty_def)
  have rows: "paged 100 ex_rows (one_page ex_rows (co_root (ex_row ''s'' None [(''total_cost_usd'', 3)])))"
    by (rule one_page_paged) (rule ex_rows_ids)
  have "co_root (ex_row ''s'' None [(''total_cost_usd'', 3)]) = ''s''" by (simp add: ex_row_def)
  then obtain seed where seed: "policy_usage_seed ex_rows (one_page ex_rows) ''s'' = Some seed"
    using load_session_usage_members [where list_page = "one_page ex_rows", OF ex_rows_ids(2) rows refl] ex_rows_ids(2)
    by (simp add: policy_usage_seed_def)
  have path: "\<not> needs_subtree_usage [ask_on_add_policy_spec]"
    by (simp add: needs_subtree_usage_def subagent_cost_policy_path_def ask_on_add_policy_spec_def)
  have page: "be_list_page ex_builder_env = one_page ex_rows" by (simp add: ex_builder_env_def)
  have "\<exists>eng st ch. build_policy_engine ex_builder_env ex_rows ex_store ex_bare_agent ''s'' None None None None ?ch = Some (Inr eng, st, ch)"
    unfolding build_policy_engine_def specs Let_def prod.case sum.case page seed option.case if_not_P [OF path]
    by (auto simp: resolve_server_llm_connection_def instantiate_policy_def ex_builder_env_def ask_on_add_policy_spec_def split: prod.split)
  then obtain eng st ch where built: "build_policy_engine ex_builder_env ex_rows ex_store ex_bare_agent ''s'' None None None None ?ch = Some (Inr eng, st, ch)"
    by blast
  obtain r where r: "fst (evaluate_composed ''d'' (evaluate_function (\<lambda>_. [])) True ex_tool_call eng) = Inr r"
    using read_only_answers by blast
  have "r_action r = ALLOW"
  proof (rule fast_path_agrees_with_the_engine [OF _ _ specs built _ r])
    show "root_conversation_of ex_rows ''s'' = ''s''" using ex_rows_ids(2) by (simp add: root_conversation_of_def ex_row_def)
    show "any_policies_apply ex_bare_agent ''s'' None None (Some (cx_phase ex_tool_call)) (called_tool (cx_content ex_tool_call)) ?ch = (Inr False, ?ch)"
      by (simp add: any_policies_apply_def ex_tool_call_def called_tool_def as_string_def ex_bare_agent_def or_empty_def
          load_default_policy_specs_def load_session_policy_specs_def)
  qed (simp add: ex_builder_env_def ask_on_add_policy_spec_def)
  then show ?thesis using built r by (intro exI [of _ eng] exI [of _ st] exI [of _ ch]) simp
qed

text \<open>
  The fast path skips the guardrails a sub-agent inherits. For a conversation below the root, without
  policies of its own, of its agent or of the administrator, it answers that nothing applies, so that every
  action but adding a policy is allowed at once, although the engine for that conversation would run every
  session policy of the root.
\<close>
theorem fast_path_skips_inherited_guardrails:
  assumes "root_conversation_of convs cid \<noteq> cid" and "ad_guardrails agent = None"
    and "session_specs (ps_session pst (root_conversation_of convs cid)) = Inr of_root"
    and "default_specs (ps_defaults pst) = []" and "session_specs (ps_session pst cid) = Inr []"
    and "ch = \<lparr>ch_default = None, ch_session = []\<rparr>" and "tool \<noteq> Some ''sys_add_policy''"
  shows "fst (any_policies_apply agent cid None (Some pst) ph tool ch) = Inr False \<and>
    fst (collect_policies convs cid agent None (Some pst) ch) = Inr (of_root @ [ask_on_add_policy_spec])"
  using assms
  by (simp add: any_policies_apply_def collect_policies_def load_session_policy_specs_def load_default_policy_specs_def
      inherited_policies_def or_empty_def)

definition ex_policy_store :: policy_store where
  "ex_policy_store = \<lparr>ps_defaults = [],
     ps_session = (\<lambda>cid. if cid = ''s'' then [\<lparr>sd_name = ''b'', sd_type = ''python'', sd_handler = ''cost'', sd_factory_params = None,
       sd_enabled = True\<rparr>] else [])\<rparr>"

theorem fast_path_skips_inherited_guardrails_witness:
  "fst (any_policies_apply ex_bare_agent ''t'' None (Some ex_policy_store) (Some TOOL_CALL) (Some ''Bash'') \<lparr>ch_default = None, ch_session = []\<rparr>) =
      Inr False \<and>
   fst (collect_policies ex_rows ''t'' ex_bare_agent None (Some ex_policy_store) \<lparr>ch_default = None, ch_session = []\<rparr>) =
      Inr [(unrestricted_spec ''b'', \<lparr>fr_path = ''cost'', fr_arguments = None\<rparr>), ask_on_add_policy_spec]"
proof -
  have root: "root_conversation_of ex_rows ''t'' = ''s''" using ex_rows_ids(3) by (simp add: root_conversation_of_def ex_row_def)
  have specs: "session_specs (ps_session ex_policy_store ''s'') = Inr [(unrestricted_spec ''b'', \<lparr>fr_path = ''cost'', fr_arguments = None\<rparr>)]"
    "default_specs (ps_defaults ex_policy_store) = []" "session_specs (ps_session ex_policy_store ''t'') = Inr []"
    "ad_guardrails ex_bare_agent = None"
    by (simp_all add: ex_policy_store_def stored_policy_to_spec_def ex_bare_agent_def)
  show ?thesis
    using fast_path_skips_inherited_guardrails [where convs = ex_rows and cid = "''t''" and pst = ex_policy_store and agent = ex_bare_agent
        and ph = "Some TOOL_CALL" and tool = "Some ''Bash''", unfolded root, OF _ specs(4,1-3) refl] by simp
qed

end
