(* ===== verification/Session_Usage_Props.thy ===== *)
theory Session_Usage_Props
  imports Session_Usage Engine_Builder_Props
begin

text \<open>
  What the accounts of a session promise: a report can only raise the recorded costs, the breakdown by model
  adds up to the session cost, no completed turn is lost to another one, every ancestor is shown the cost of
  its subtree, and reported spend closes the budget of the whole tree. Two reports that overlap are not
  ordered: the lower one can win.
\<close>

section \<open>Rows\<close>

lemma get_set_usage_row:
  "get_conversation (set_usage_row cid row convs) c =
     map_option (\<lambda>x. if c = cid then x\<lparr>co_session_usage := row\<rparr> else x) (get_conversation convs c)"
  by (induction convs) (auto simp: get_conversation_def set_usage_row_def)

lemma get_conversation_id: "get_conversation convs cid = Some c \<Longrightarrow> co_id c = cid \<and> c \<in> set convs"
  by (auto simp: get_conversation_def find_Some_iff)

lemma set_usage_row_parts [simp]:
  "map co_id (set_usage_row cid row convs) = map co_id convs"
  "map co_parent (set_usage_row cid row convs) = map co_parent convs"
  by (simp_all add: set_usage_row_def)

lemma usage_or_zero_dset [simp]: "usage_or_zero (dset k v u) k' = (if k' = k then v else usage_or_zero u k')"
  by (simp add: usage_or_zero_def)

section \<open>Daily costs\<close>

lemma record_daily_cost_world [simp]:
  "uw_convs (record_daily_cost env day conv x w) = uw_convs w" "uw_store (record_daily_cost env day conv x w) = uw_store w"
  "uw_published (record_daily_cost env day conv x w) = uw_published w"
  by (auto simp: record_daily_cost_def add_daily_cost_def split: option.split)

definition daily_share :: "usage_env \<Rightarrow> conversation option \<Rightarrow> string \<Rightarrow> real \<Rightarrow> real" where
  \<comment> \<open>what a user is charged for a cost of a session\<close>
  "daily_share env conv user x = (if Option.bind conv (session_owner env) = Some user then max 0 x else 0)"

lemma daily_cost_recorded:
  "daily_cost (record_daily_cost env day conv x w) user d =
     daily_cost w user d + (if d = day then daily_share env conv user x else 0)"
  by (auto simp: record_daily_cost_def add_daily_cost_def daily_cost_def daily_share_def split: option.split)

lemma daily_share_nonneg: "0 \<le> daily_share env conv user x"
  by (simp add: daily_share_def)

lemma daily_cost_update [simp]: "daily_cost (w\<lparr>uw_convs := convs\<rparr>) = daily_cost w"
  by (simp add: daily_cost_def fun_eq_iff)

section \<open>Reports\<close>

definition gate_cost :: "conversation \<Rightarrow> real" where
  \<comment> \<open>the cost of a session that budgets see\<close>
  "gate_cost c = (case policy_cost_of c of None \<Rightarrow> 0 | Some x \<Rightarrow> x)"

lemma set_tokens_other: "k \<notin> set model_token_keys \<Longrightarrow> dget (set_tokens r u) k = dget u k"
  by (auto simp: set_tokens_def model_token_keys_def Let_def split: option.split)

lemma set_cost_other: "k \<noteq> ''total_cost_usd'' \<Longrightarrow> dget (set_cost env model r old u) k = dget u k"
  by (auto simp: set_cost_def Let_def split: option.split)

lemma set_cost_total:
  assumes "dget u ''total_cost_usd'' = dget old ''total_cost_usd''"
  shows "usage_or_zero old ''total_cost_usd'' \<le> usage_or_zero (set_cost env model r old u) ''total_cost_usd''"
    "dget old ''total_cost_usd'' \<noteq> None \<Longrightarrow> dget (set_cost env model r old u) ''total_cost_usd'' \<noteq> None"
  using assms by (auto simp: set_cost_def Let_def usage_or_zero_def split: option.split)

lemma reported_row_costs:
  assumes "reported_row env conv r = Inr row"
  defines "old \<equiv> ur_counts (row_of conv)"
  shows "usage_or_zero old ''total_cost_usd'' \<le> usage_or_zero (ur_counts row) ''total_cost_usd''"
    "dget old ''total_cost_usd'' \<noteq> None \<Longrightarrow> dget (ur_counts row) ''total_cost_usd'' \<noteq> None"
    "dget (ur_counts row) ''policy_cost_usd'' =
       (case nr_policy_cost r of None \<Rightarrow> dget old ''policy_cost_usd'' | Some p \<Rightarrow> Some (max (usage_or_zero old ''policy_cost_usd'') p))"
proof -
  let ?nums = "set_cost env (report_model env conv r) r old (set_tokens r old)"
  have row: "ur_counts row = set_policy_cost r old ?nums"
    using assms(1) by (auto simp: reported_row_def old_def Let_def bindR_Inr_iff)
  have same: "dget (set_tokens r old) ''total_cost_usd'' = dget old ''total_cost_usd''"
    "dget ?nums ''policy_cost_usd'' = dget old ''policy_cost_usd''"
    by (simp_all add: set_cost_other set_tokens_other model_token_keys_def)
  have total: "dget (ur_counts row) ''total_cost_usd'' = dget ?nums ''total_cost_usd''"
    by (auto simp: row set_policy_cost_def split: option.split)
  show "usage_or_zero old ''total_cost_usd'' \<le> usage_or_zero (ur_counts row) ''total_cost_usd''"
    using set_cost_total(1) [OF same(1)] by (simp add: usage_or_zero_def total)
  show "dget (ur_counts row) ''total_cost_usd'' \<noteq> None" if "dget old ''total_cost_usd'' \<noteq> None"
    using set_cost_total(2) [OF same(1) that] by (simp add: total)
  show "dget (ur_counts row) ''policy_cost_usd'' =
       (case nr_policy_cost r of None \<Rightarrow> dget old ''policy_cost_usd'' | Some p \<Rightarrow> Some (max (usage_or_zero old ''policy_cost_usd'') p))"
    by (auto simp: row set_policy_cost_def same(2) split: option.split)
qed

lemma persist_native_cases:
  assumes "persist_native_cumulative_usage env day cid data w = (res, w')"
  obtains (nothing) "w' = w" "isl res \<or> read_report data = Inr None"
  | (written) r row where "read_report data = Inr (Some r)" "reported_row env (get_conversation (uw_convs w) cid) r = Inr row"
      "w' = record_daily_cost env day (get_conversation (uw_convs w) cid) (cost_growth (get_conversation (uw_convs w) cid) row)
              (w\<lparr>uw_convs := set_usage_row cid row (uw_convs w)\<rparr>)"
proof (cases "read_report data")
  case (Inl e)
  show thesis by (rule that(1)) (use assms [symmetric] Inl in \<open>simp_all add: persist_native_cumulative_usage_def\<close>)
next
  case (Inr report)
  show thesis
  proof (cases report)
    case None
    show thesis by (rule that(1)) (use assms [symmetric] Inr None in \<open>simp_all add: persist_native_cumulative_usage_def\<close>)
  next
    case (Some r)
    show thesis
    proof (cases "reported_row env (get_conversation (uw_convs w) cid) r")
      case (Inl e)
      show thesis by (rule that(1)) (use assms [symmetric] Inr Some Inl in \<open>simp_all add: persist_native_cumulative_usage_def Let_def\<close>)
    next
      case row: (Inr row)
      show thesis by (rule that(2) [of r row]) (use assms [symmetric] Inr Some row in \<open>simp_all add: persist_native_cumulative_usage_def Let_def\<close>)
    qed
  qed
qed

text \<open>
  C9: A report of a native harness only raises what is recorded. Whatever its fields are, no session gets a lower
  displayed cost or a lower enforcement cost field, and no user a lower daily cost. The cost the budgets see falls
  in exactly one case: an accepted report is the first one with an enforcement cost for its session, and that cost
  is below the displayed cost the budgets have seen so far.
\<close>
theorem reports_raise_all_but_the_first_gate:
  assumes "persist_native_cumulative_usage env day cid data w = (res, w')" and "get_conversation (uw_convs w) c = Some conv"
  shows "\<exists>conv'. get_conversation (uw_convs w') c = Some conv' \<and>
    (\<forall>k \<in> {''total_cost_usd'', ''policy_cost_usd''}.
       usage_or_zero (ur_counts (co_session_usage conv)) k \<le> usage_or_zero (ur_counts (co_session_usage conv')) k) \<and>
    (\<forall>user d. daily_cost w user d \<le> daily_cost w' user d) \<and>
    (gate_cost conv' < gate_cost conv \<longleftrightarrow>
       \<not> isl res \<and> c = cid \<and> dget (ur_counts (co_session_usage conv)) ''policy_cost_usd'' = None \<and>
       (\<exists>r p. read_report data = Inr (Some r) \<and> nr_policy_cost r = Some p \<and> max 0 p < gate_cost conv))"
  using assms(1)
proof (cases rule: persist_native_cases)
  case nothing
  then show ?thesis using assms(2) by auto
next
  case (written r row)
  have res: "\<not> isl res" using assms(1) written(1,2) by (auto simp: persist_native_cumulative_usage_def Let_def)
  show ?thesis
  proof (cases "c = cid")
    case False
    then show ?thesis using assms(2) written by (simp add: get_set_usage_row daily_cost_recorded daily_share_nonneg)
  next
    case True
    have old: "row_of (get_conversation (uw_convs w) cid) = co_session_usage conv" using assms(2) True by (simp add: row_of_def)
    note costs = reported_row_costs [OF written(2), unfolded old]
    have "gate_cost (conv\<lparr>co_session_usage := row\<rparr>) < gate_cost conv \<longleftrightarrow>
        dget (ur_counts (co_session_usage conv)) ''policy_cost_usd'' = None \<and>
        (\<exists>p. nr_policy_cost r = Some p \<and> max 0 p < gate_cost conv)"
      using costs by (auto simp: gate_cost_def policy_cost_of_def usage_or_zero_def split: option.splits)
    then show ?thesis using True assms(2) written costs res
      by (auto simp: get_set_usage_row daily_cost_recorded daily_share_nonneg usage_or_zero_def split: option.splits)
  qed
qed

definition ex_usage_env :: usage_env where
  "ex_usage_env = \<lparr>ue_pricing = (\<lambda>m. if m = ''m'' then Some \<lparr>input_per_token = 1, output_per_token = 2, cache_read_per_token = None,
       cache_write_per_token = None\<rparr> else None),
     ue_agent_model = (\<lambda>_. Some ''m''), ue_owner = (\<lambda>c. if c = ''s'' then Some ''alice'' else None), ue_list_page = one_page\<rparr>"

definition ex_world :: "conversation list \<Rightarrow> usage_world" where
  "ex_world convs = \<lparr>uw_convs = convs, uw_daily = [], uw_store = ex_store, uw_published = []\<rparr>"

definition ex_forged :: "(string, pyval) pydict" where "ex_forged = [(''policy_cost_usd'', PInt 0)]"

theorem reports_raise_all_but_the_first_gate_witness:
  "\<exists>conv'. get_conversation (uw_convs (snd (persist_native_cumulative_usage ex_usage_env ''d'' ''s'' ex_forged (ex_world ex_rows)))) ''s'' = Some conv' \<and>
     gate_cost conv' < gate_cost (ex_row ''s'' None [(''total_cost_usd'', 3)])"
proof -
  let ?run = "persist_native_cumulative_usage ex_usage_env ''d'' ''s'' ex_forged (ex_world ex_rows)"
  have ok: "\<not> isl (fst ?run)" "dget (ur_counts (co_session_usage (ex_row ''s'' None [(''total_cost_usd'', 3)]))) ''policy_cost_usd'' = None"
    "read_report ex_forged = Inr (Some \<lparr>nr_cost = None, nr_policy_cost = Some 0, nr_input = None, nr_output = None, nr_cache_read = None, nr_model = None\<rparr>)"
    "gate_cost (ex_row ''s'' None [(''total_cost_usd'', 3)]) = 3"
    by code_simp+
  have "get_conversation (uw_convs (ex_world ex_rows)) ''s'' = Some (ex_row ''s'' None [(''total_cost_usd'', 3)])"
    by (simp add: ex_world_def ex_rows_ids)
  from reports_raise_all_but_the_first_gate [of ex_usage_env "''d''" "''s''" ex_forged "ex_world ex_rows", OF prod.collapse [symmetric] this]
  show ?thesis using ok by auto
qed

section \<open>Interleaved workers\<close>

lemma two_threads:
  "thread_step env day t w = (t', w') \<Longrightarrow> usage_step env day ([t, u], w) ([t', u], w')"
  "thread_step env day u w = (u', w') \<Longrightarrow> usage_step env day ([t, u], w) ([t, u'], w')"
  using usage_step.thread [of 0 "[t, u]" env day w t' w'] usage_step.thread [of 1 "[t, u]" env day w u' w'] by simp_all

text \<open>
  C10: Reports of one session that overlap are not ordered. When two reports of a session are posted at once, a run
  exists in which both are accepted and the enforcement cost ends as if the first had never arrived, even when it
  was the higher one: both read the row before either writes it, and the lower report writes last.
\<close>
theorem overlapping_reports_lose_the_higher_cost:
  assumes "get_conversation (uw_convs w) cid = Some conv" and "read_report d1 = Inr (Some r1)" and "read_report d2 = Inr (Some r2)"
    and "reported_row env (Some conv) r1 = Inr row1" and "reported_row env (Some conv) r2 = Inr row2"
    and "nr_policy_cost r2 = Some b"
  shows "\<exists>shown1 shown2 w' conv'. (usage_step env day)\<^sup>*\<^sup>* ([Report_Read cid d1, Report_Read cid d2], w) ([Returned shown1, Returned shown2], w') \<and>
    get_conversation (uw_convs w') cid = Some conv' \<and>
    gate_cost conv' = max (usage_or_zero (ur_counts (co_session_usage conv)) ''policy_cost_usd'') b"
proof -
  let ?conv = "Some conv"
  let ?w1 = "w\<lparr>uw_convs := set_usage_row cid row1 (uw_convs w)\<rparr>"
  let ?w2 = "?w1\<lparr>uw_convs := set_usage_row cid row2 (uw_convs ?w1)\<rparr>"
  let ?w3 = "record_daily_cost env day ?conv (cost_growth ?conv row1) ?w2"
  let ?w4 = "record_daily_cost env day ?conv (cost_growth ?conv row2) ?w3"
  let ?shown = "\<lambda>row. priced_cost_for_display (ur_counts row)"
  let ?daily = "\<lambda>row. Daily_Write ?conv (cost_growth ?conv row) (?shown row)"
  have steps: "usage_step env day ([Report_Read cid d1, Report_Read cid d2], w) ([Report_Write cid ?conv r1, Report_Read cid d2], w)"
    "usage_step env day ([Report_Write cid ?conv r1, Report_Read cid d2], w) ([Report_Write cid ?conv r1, Report_Write cid ?conv r2], w)"
    "usage_step env day ([Report_Write cid ?conv r1, Report_Write cid ?conv r2], w) ([?daily row1, Report_Write cid ?conv r2], ?w1)"
    "usage_step env day ([?daily row1, Report_Write cid ?conv r2], ?w1) ([?daily row1, ?daily row2], ?w2)"
    "usage_step env day ([?daily row1, ?daily row2], ?w2) ([Returned (?shown row1), ?daily row2], ?w3)"
    "usage_step env day ([Returned (?shown row1), ?daily row2], ?w3) ([Returned (?shown row1), Returned (?shown row2)], ?w4)"
    by (intro two_threads; simp add: assms(1-5))+
  have "(usage_step env day)\<^sup>*\<^sup>* ([Report_Read cid d1, Report_Read cid d2], w) ([Returned (?shown row1), Returned (?shown row2)], ?w4)"
    using steps by (meson converse_rtranclp_into_rtranclp rtranclp.rtrancl_refl)
  moreover have "get_conversation (uw_convs ?w4) cid = Some (conv\<lparr>co_session_usage := row2\<rparr>)"
    using assms(1) by (simp add: get_set_usage_row)
  moreover have "gate_cost (conv\<lparr>co_session_usage := row2\<rparr>) = max (usage_or_zero (ur_counts (co_session_usage conv)) ''policy_cost_usd'') b"
    using reported_row_costs(3) [OF assms(5)] assms(6) by (simp add: gate_cost_def policy_cost_of_def row_of_def)
  ultimately show ?thesis by blast
qed

definition ex_report :: "real \<Rightarrow> native_report" where
  "ex_report p = \<lparr>nr_cost = None, nr_policy_cost = Some p, nr_input = None, nr_output = None, nr_cache_read = None, nr_model = None\<rparr>"

theorem overlapping_reports_lose_the_higher_cost_witness:
  "\<exists>shown1 shown2 w' conv'. (usage_step ex_usage_env ''d'')\<^sup>*\<^sup>*
      ([Report_Read ''t'' [(''policy_cost_usd'', PInt 9)], Report_Read ''t'' ex_forged], ex_world ex_rows) ([Returned shown1, Returned shown2], w') \<and>
    get_conversation (uw_convs w') ''t'' = Some conv' \<and> gate_cost conv' = 4"
proof -
  let ?t = "ex_row ''t'' (Some ''s'') [(''total_cost_usd'', 1), (''policy_cost_usd'', 4)]"
  have reports: "read_report [(''policy_cost_usd'', PInt 9)] = Inr (Some (ex_report 9))" "read_report ex_forged = Inr (Some (ex_report 0))"
    by code_simp+
  have rows: "reported_row ex_usage_env (Some ?t) (ex_report 9) = Inr \<lparr>ur_counts = [(''total_cost_usd'', 1), (''policy_cost_usd'', 9)], ur_by_model = None\<rparr>"
    "reported_row ex_usage_env (Some ?t) (ex_report 0) = Inr \<lparr>ur_counts = [(''total_cost_usd'', 1), (''policy_cost_usd'', 4)], ur_by_model = None\<rparr>"
    by code_simp+
  have "get_conversation (uw_convs (ex_world ex_rows)) ''t'' = Some ?t" by (simp add: ex_world_def ex_rows_ids)
  from overlapping_reports_lose_the_higher_cost [where day = "''d''", OF this reports rows, of 0] show ?thesis
    by (simp add: ex_report_def ex_row_def usage_or_zero_def)
qed

section \<open>Concurrent turns\<close>

text \<open>
  A call of the two accounting functions is the run of one worker: three steps take it to its result.
\<close>

definition finish :: "real option res \<Rightarrow> usage_thread" where
  "finish res = (case res of Inl e \<Rightarrow> Raised e | Inr shown \<Rightarrow> Returned shown)"

definition alone :: "usage_env \<Rightarrow> string \<Rightarrow> usage_thread \<times> usage_world \<Rightarrow> usage_thread \<times> usage_world" where
  "alone env day = (\<lambda>(t, w). thread_step env day t w)"

lemma turn_runs_alone:
  "accumulate_session_usage env day resp cid w = (res, w') \<Longrightarrow>
     (alone env day ^^ 3) (Turn_Read cid resp, w) = (finish res, w')"
  by (auto simp: accumulate_session_usage_def alone_def finish_def numeral_3_eq_3 Let_def
      split: option.splits pyval.splits if_splits sum.splits prod.splits)

lemma report_runs_alone:
  "persist_native_cumulative_usage env day cid data w = (res, w') \<Longrightarrow>
     (alone env day ^^ 3) (Report_Read cid data, w) = (finish res, w')"
  by (auto simp: persist_native_cumulative_usage_def alone_def finish_def numeral_3_eq_3 Let_def
      split: option.splits sum.splits)

definition bare :: "conversation \<Rightarrow> conversation" where
  \<comment> \<open>a conversation without its usage\<close>
  "bare c = c\<lparr>co_session_usage := empty_row\<rparr>"

definition same_rows :: "usage_world \<Rightarrow> usage_world \<Rightarrow> bool" where
  \<comment> \<open>the two stores differ in the usage of conversations only\<close>
  "same_rows w0 w \<longleftrightarrow> (\<forall>c. map_option bare (get_conversation (uw_convs w) c) = map_option bare (get_conversation (uw_convs w0) c))"

lemma same_rows_set: "same_rows w0 w \<Longrightarrow> same_rows w0 (w\<lparr>uw_convs := set_usage_row cid row (uw_convs w)\<rparr>)"
proof -
  assume same: "same_rows w0 w"
  have "map_option bare (get_conversation (set_usage_row cid row (uw_convs w)) x) = map_option bare (get_conversation (uw_convs w) x)" for x
    by (cases "get_conversation (uw_convs w) x") (simp_all add: get_set_usage_row bare_def)
  then show ?thesis using same by (simp add: same_rows_def)
qed

lemma bare_parts [simp]: "co_id (bare c) = co_id c" "co_root (bare c) = co_root c" "co_model_override (bare c) = co_model_override c"
  by (simp_all add: bare_def)

lemma session_owner_bare [simp]: "session_owner env (bare c) = session_owner env c"
  by (simp add: session_owner_def cong: option.case_cong)

lemma session_model_bare [simp]: "session_model env (map_option bare conv) = session_model env conv"
  by (cases conv) (simp_all add: session_model_def cong: option.case_cong)

lemma turn_delta_bare: "turn_delta env (map_option bare conv) u = turn_delta env conv u"
proof -
  have "turn_model env (map_option bare conv) u = turn_model env conv u"
    unfolding turn_model_def session_model_bare ..
  then show ?thesis by (simp add: turn_delta_def)
qed

lemma daily_share_bare: "daily_share env (map_option bare conv) = daily_share env conv"
  by (cases conv) (simp_all add: daily_share_def fun_eq_iff)

definition turn_of :: "usage_env \<Rightarrow> conversation option \<Rightarrow> (string, pyval) pydict \<Rightarrow> (account_delta \<times> real) option" where
  \<comment> \<open>what a completed turn adds, if anything\<close>
  "turn_of env conv resp =
     (case dget resp ''usage'' of
        Some (PDict usage) \<Rightarrow> if has_usage usage then case_sum (\<lambda>_. None) Some (turn_delta env conv usage) else None
      | _ \<Rightarrow> None)"

lemma turn_of_bare: "turn_of env (map_option bare conv) resp = turn_of env conv resp"
  unfolding turn_of_def turn_delta_bare ..

lemma turn_of_same: "same_rows w0 w \<Longrightarrow> turn_of env (get_conversation (uw_convs w) c) resp = turn_of env (get_conversation (uw_convs w0) c) resp"
  by (metis same_rows_def turn_of_bare)

lemma daily_share_same: "same_rows w0 w \<Longrightarrow> daily_share env (get_conversation (uw_convs w) c) = daily_share env (get_conversation (uw_convs w0) c)"
  by (metis same_rows_def daily_share_bare)

definition added :: "(string, real) pydict \<Rightarrow> string \<Rightarrow> real" where
  "added d k = sum_list (map snd (filter (\<lambda>p. fst p = k) d))"

lemma usage_or_zero_add_to: "usage_or_zero (add_to k' v u) k = usage_or_zero u k + (if k = k' then v else 0)"
  by (simp add: add_to_def usage_or_zero_def split: option.split)

lemma usage_or_zero_fold_add: "usage_or_zero (fold (\<lambda>(k, v). add_to k v) d u) k = usage_or_zero u k + added d k"
  by (induction d arbitrary: u) (auto simp: added_def usage_or_zero_add_to)

lemma increment_counts:
  "increment_session_usage cid d convs = Inr (row, convs') \<Longrightarrow>
     convs' = set_usage_row cid row convs \<and>
     usage_or_zero (ur_counts row) k = usage_or_zero (ur_counts (row_of (get_conversation convs cid))) k + added (ud_counts d) k"
  by (auto simp: increment_session_usage_def apply_session_usage_delta_def Let_def bindR_Inr_iff usage_or_zero_fold_add split: option.splits)

definition counted :: "usage_world \<Rightarrow> string \<Rightarrow> string \<Rightarrow> real" where
  "counted w c k = usage_or_zero (ur_counts (row_of (get_conversation (uw_convs w) c))) k"

fun is_turn :: "usage_thread \<Rightarrow> bool" where
  "is_turn (Report_Read _ _) = False"
| "is_turn (Report_Write _ _ _) = False"
| "is_turn _ = True"

definition turn_counts :: "usage_env \<Rightarrow> usage_world \<Rightarrow> string \<Rightarrow> string \<Rightarrow> string \<Rightarrow> (string, pyval) pydict \<Rightarrow> real" where
  \<comment> \<open>what a turn of session \<open>cid\<close> adds to counter \<open>k\<close> of session \<open>c\<close>\<close>
  "turn_counts env w c k cid resp =
     (if cid \<noteq> c then 0
      else case turn_of env (get_conversation (uw_convs w) cid) resp of None \<Rightarrow> 0 | Some (d, _) \<Rightarrow> added (ud_counts d) k)"

definition turn_charge :: "usage_env \<Rightarrow> usage_world \<Rightarrow> string \<Rightarrow> string \<Rightarrow> (string, pyval) pydict \<Rightarrow> real" where
  \<comment> \<open>what a turn charges to a user\<close>
  "turn_charge env w user cid resp =
     (let conv = get_conversation (uw_convs w) cid
      in case turn_of env conv resp of None \<Rightarrow> 0 | Some (_, x) \<Rightarrow> daily_share env conv user x)"

fun due_counts :: "usage_env \<Rightarrow> usage_world \<Rightarrow> string \<Rightarrow> string \<Rightarrow> usage_thread \<Rightarrow> real" where
  \<comment> \<open>what a worker has still to add\<close>
  "due_counts env w c k (Turn_Read cid resp) = turn_counts env w c k cid resp"
| "due_counts env w c k (Turn_Write cid conv d x) = (if cid = c then added (ud_counts d) k else 0)"
| "due_counts env w c k _ = 0"

fun due_charge :: "usage_env \<Rightarrow> usage_world \<Rightarrow> string \<Rightarrow> usage_thread \<Rightarrow> real" where
  "due_charge env w user (Turn_Read cid resp) = turn_charge env w user cid resp"
| "due_charge env w user (Turn_Write cid conv d x) = daily_share env conv user x"
| "due_charge env w user (Daily_Write conv x shown) = daily_share env conv user x"
| "due_charge env w user _ = 0"

lemma turn_read_step:
  "thread_step env day (Turn_Read cid resp) w = (t', w') \<Longrightarrow>
     w' = w \<and> (case turn_of env (get_conversation (uw_convs w) cid) resp of
                   None \<Rightarrow> t' = Returned None \<or> t' \<in> range Raised
                 | Some (d, x) \<Rightarrow> t' = Turn_Write cid (get_conversation (uw_convs w) cid) d x)"
  by (auto simp: turn_of_def Let_def split: option.splits pyval.splits if_splits sum.splits prod.splits)

lemma turn_step:
  assumes "is_turn t" and "thread_step env day t w = (t', w')" and "same_rows w0 w"
  shows "is_turn t' \<and> same_rows w0 w' \<and> (t \<in> range Raised \<longrightarrow> t' \<in> range Raised)"
    "get_conversation (uw_convs w0) c \<noteq> None \<Longrightarrow> t' \<notin> range Raised \<Longrightarrow> counted w' c k + due_counts env w0 c k t' = counted w c k + due_counts env w0 c k t"
    "t' \<notin> range Raised \<Longrightarrow> daily_cost w' user day + due_charge env w0 user t' = daily_cost w user day + due_charge env w0 user t"
proof -
  have same: "turn_of env (get_conversation (uw_convs w0) x) resp = turn_of env (get_conversation (uw_convs w) x) resp"
    "daily_share env (get_conversation (uw_convs w0) x) = daily_share env (get_conversation (uw_convs w) x)" for x resp
    using turn_of_same [OF assms(3)] daily_share_same [OF assms(3)] by simp_all
  show "is_turn t' \<and> same_rows w0 w' \<and> (t \<in> range Raised \<longrightarrow> t' \<in> range Raised)"
    using assms same_rows_set [OF assms(3)] by (cases t) (auto simp: same_rows_def Let_def increment_counts
        split: option.splits pyval.splits if_splits sum.splits prod.splits dest: increment_counts)
  show "counted w' c k + due_counts env w0 c k t' = counted w c k + due_counts env w0 c k t"
    if ok: "get_conversation (uw_convs w0) c \<noteq> None" "t' \<notin> range Raised"
  proof (cases t)
    case (Turn_Read cid resp)
    then show ?thesis using turn_read_step [of env day cid resp w t' w'] assms(2) that
      by (auto simp: turn_counts_def same split: option.splits)
  next
    case (Turn_Write cid conv d x)
    then obtain row convs' where inc: "increment_session_usage cid d (uw_convs w) = Inr (row, convs')" and t': "t' = Daily_Write conv x (priced_cost_for_display (ur_counts row))"
      and w': "w' = w\<lparr>uw_convs := convs'\<rparr>" using assms(2) ok(2) by (auto split: sum.splits)
    have "get_conversation (uw_convs w) c \<noteq> None" using ok(1) assms(3) unfolding same_rows_def by (metis option.map_disc_iff)
    then show ?thesis using increment_counts [OF inc, of k] w' t' Turn_Write
      by (auto simp: counted_def get_set_usage_row row_of_def)
  qed (use assms in \<open>auto simp: counted_def\<close>)
  show "daily_cost w' user day + due_charge env w0 user t' = daily_cost w user day + due_charge env w0 user t" if "t' \<notin> range Raised"
  proof (cases t)
    case (Turn_Read cid resp)
    then show ?thesis using turn_read_step [of env day cid resp w t' w'] assms(2) that
      by (auto simp: turn_charge_def Let_def same split: option.splits)
  qed (use assms that in \<open>auto simp: daily_cost_recorded split: sum.splits prod.splits\<close>)
qed

lemma sum_list_map_update:
  fixes f :: "'a \<Rightarrow> real"
  shows "i < length xs \<Longrightarrow> sum_list (map f (xs[i := x])) = sum_list (map f xs) - f (xs ! i) + f x"
proof (induction xs arbitrary: i)
  case (Cons y ys)
  then show ?case by (cases i) auto
qed simp

lemma concurrent_turns:
  assumes "(usage_step env day)\<^sup>*\<^sup>* (ts0, w0) (ts, w)" and "list_all is_turn ts0"
  shows "list_all is_turn ts \<and> same_rows w0 w \<and>
    (set ts \<inter> range Raised = {} \<longrightarrow> set ts0 \<inter> range Raised = {} \<and>
       (\<forall>c k. get_conversation (uw_convs w0) c \<noteq> None \<longrightarrow>
          counted w c k + sum_list (map (due_counts env w0 c k) ts) = counted w0 c k + sum_list (map (due_counts env w0 c k) ts0)) \<and>
       (\<forall>user. daily_cost w user day + sum_list (map (due_charge env w0 user) ts) =
          daily_cost w0 user day + sum_list (map (due_charge env w0 user) ts0)))"
  using assms(1)
proof (induction rule: rtranclp_induct2)
  case refl
  then show ?case using assms(2) by (simp add: same_rows_def)
next
  case (step ts w ts' w')
  obtain i t' where i: "i < length ts" "thread_step env day (ts ! i) w = (t', w')" "ts' = ts[i := t']"
    using step(2) by (auto elim: usage_step.cases)
  have turn: "is_turn (ts ! i)" using step(3) i(1) by (auto simp: list_all_length)
  note effect = turn_step [OF turn i(2)]
  have same: "same_rows w0 w" using step(3) by simp
  have turns: "list_all is_turn ts'" using step(3) effect(1) [OF same] i by (auto simp: list_all_length nth_list_update)
  have t': "t' \<in> set ts'" using i by (simp add: set_update_memI)
  have others: "set ts \<subseteq> insert (ts ! i) (set ts')"
  proof
    fix t assume "t \<in> set ts"
    then obtain j where j: "j < length ts" "t = ts ! j" by (metis in_set_conv_nth)
    show "t \<in> insert (ts ! i) (set ts')"
    proof (cases "j = i")
      case False
      then have "ts' ! j = t" "j < length ts'" using i(3) j by simp_all
      then show ?thesis using nth_mem by blast
    qed (use j in simp)
  qed
  show ?case
  proof (intro conjI impI)
    assume ok: "set ts' \<inter> range Raised = {}"
    then have new: "t' \<notin> range Raised" using t' by auto
    then have "ts ! i \<notin> range Raised" using effect(1) [OF same] by argo
    then have old: "set ts \<inter> range Raised = {}" unfolding disjoint_iff using ok [unfolded disjoint_iff] others by (metis insertE subsetD)
    show "set ts0 \<inter> range Raised = {}" using step(3) old by simp
    show "\<forall>c k. get_conversation (uw_convs w0) c \<noteq> None \<longrightarrow>
          counted w' c k + sum_list (map (due_counts env w0 c k) ts') = counted w0 c k + sum_list (map (due_counts env w0 c k) ts0)"
    proof (intro allI impI)
      fix c k assume c: "get_conversation (uw_convs w0) c \<noteq> None"
      have "counted w c k + sum_list (map (due_counts env w0 c k) ts) = counted w0 c k + sum_list (map (due_counts env w0 c k) ts0)"
        using step(3) old c by simp
      then show "counted w' c k + sum_list (map (due_counts env w0 c k) ts') = counted w0 c k + sum_list (map (due_counts env w0 c k) ts0)"
        using effect(2) [OF same c new, of k] unfolding i(3) by (simp add: sum_list_map_update i(1))
    qed
    show "\<forall>user. daily_cost w' user day + sum_list (map (due_charge env w0 user) ts') =
          daily_cost w0 user day + sum_list (map (due_charge env w0 user) ts0)"
    proof
      fix user
      have "daily_cost w user day + sum_list (map (due_charge env w0 user) ts) =
          daily_cost w0 user day + sum_list (map (due_charge env w0 user) ts0)" using step(3) old by simp
      then show "daily_cost w' user day + sum_list (map (due_charge env w0 user) ts') =
          daily_cost w0 user day + sum_list (map (due_charge env w0 user) ts0)"
        using effect(3) [OF same new, of user] unfolding i(3) by (simp add: sum_list_map_update i(1))
    qed
  qed (use turns effect(1) [OF same] in simp_all)
qed

definition turn_worker :: "string \<times> (string, pyval) pydict \<Rightarrow> usage_thread" where
  "turn_worker = (\<lambda>(cid, resp). Turn_Read cid resp)"

text \<open>
  C11: No completed turn is lost. However the workers of any number of completed turns, of one session or of
  several, interleave, once all of them have returned every counter of every session has grown by exactly what
  its turns report, and the daily cost of every user by exactly what the priced turns of the user's sessions and
  sub-agents cost.
\<close>
theorem no_completed_turn_is_lost:
  assumes "(usage_step env day)\<^sup>*\<^sup>* (map turn_worker calls, w) (ts, w')" and "\<forall>t \<in> set ts. t \<in> range Returned"
  shows "(\<forall>c k. get_conversation (uw_convs w) c \<noteq> None \<longrightarrow>
      counted w' c k = counted w c k + sum_list (map (\<lambda>(cid, resp). turn_counts env w c k cid resp) calls)) \<and>
    (\<forall>user. daily_cost w' user day = daily_cost w user day + sum_list (map (\<lambda>(cid, resp). turn_charge env w user cid resp) calls))"
proof -
  have "list_all is_turn (map turn_worker calls)" by (auto simp: list_all_iff turn_worker_def)
  note all = concurrent_turns [OF assms(1) this]
  have none: "set ts \<inter> range Raised = {}" using assms(2) by fastforce
  have finished: "sum_list (map (due_counts env w c k) ts) = 0" "sum_list (map (due_charge env w user) ts) = 0" for c k user
    using assms(2) by (induction ts) auto
  have due: "due_counts env w c k \<circ> turn_worker = (\<lambda>(cid, resp). turn_counts env w c k cid resp)"
    "due_charge env w user \<circ> turn_worker = (\<lambda>(cid, resp). turn_charge env w user cid resp)" for c k user
    by (auto simp: turn_worker_def)
  show ?thesis using all none finished due by simp
qed

definition schedule :: "usage_env \<Rightarrow> string \<Rightarrow> nat list \<Rightarrow> usage_thread list \<times> usage_world \<Rightarrow> usage_thread list \<times> usage_world" where
  \<comment> \<open>the run that takes a step of the given workers in turn\<close>
  "schedule env day = fold (\<lambda>i (ts, w). let (t, w') = thread_step env day (ts ! i) w in (ts[i := t], w'))"

lemma schedule_runs:
  "\<forall>i \<in> set is. i < length ts \<Longrightarrow> (usage_step env day)\<^sup>*\<^sup>* (ts, w) (schedule env day is (ts, w))"
proof (induction "is" arbitrary: ts w)
  case (Cons i "is")
  obtain t w' where t: "thread_step env day (ts ! i) w = (t, w')" by (cases "thread_step env day (ts ! i) w")
  have "(usage_step env day)\<^sup>*\<^sup>* (ts[i := t], w') (schedule env day is (ts[i := t], w'))" using Cons by simp
  moreover have "usage_step env day (ts, w) (ts[i := t], w')" using Cons.prems t by (intro usage_step.thread) simp_all
  moreover have "schedule env day (i # is) (ts, w) = schedule env day is (ts[i := t], w')" by (simp add: schedule_def t)
  ultimately show ?case by (metis converse_rtranclp_into_rtranclp)
qed (simp add: schedule_def)

definition ex_turn :: "(string, pyval) pydict" where
  "ex_turn = [(''usage'', PDict [(''input_tokens'', PInt 1), (''output_tokens'', PInt 2), (''cost_usd'', PInt 5)])]"

definition ex_turns :: "usage_thread list \<times> usage_world" where
  "ex_turns = schedule ex_usage_env ''d'' [0, 1, 1, 0, 0, 1] (map turn_worker [(''s'', ex_turn), (''t'', ex_turn)], ex_world ex_rows)"

theorem no_completed_turn_is_lost_witness:
  "counted (snd ex_turns) ''t'' ''total_cost_usd'' = 6 \<and> daily_cost (snd ex_turns) ''alice'' ''d'' = 10"
proof -
  have run: "(usage_step ex_usage_env ''d'')\<^sup>*\<^sup>* (map turn_worker [(''s'', ex_turn), (''t'', ex_turn)], ex_world ex_rows) (fst ex_turns, snd ex_turns)"
    unfolding prod.collapse unfolding ex_turns_def by (rule schedule_runs) simp
  have "fst ex_turns = map Returned [Some 8, Some 6]" by code_simp
  then have finished: "\<forall>t \<in> set (fst ex_turns). t \<in> range Returned" by simp
  have concrete: "turn_counts ex_usage_env (ex_world ex_rows) ''t'' ''total_cost_usd'' ''s'' ex_turn = 0"
    "turn_counts ex_usage_env (ex_world ex_rows) ''t'' ''total_cost_usd'' ''t'' ex_turn = 5"
    "turn_charge ex_usage_env (ex_world ex_rows) ''alice'' ''s'' ex_turn = 5"
    "turn_charge ex_usage_env (ex_world ex_rows) ''alice'' ''t'' ex_turn = 5"
    "counted (ex_world ex_rows) ''t'' ''total_cost_usd'' = 1" "daily_cost (ex_world ex_rows) ''alice'' ''d'' = 0"
    by code_simp+
  have row: "get_conversation (uw_convs (ex_world ex_rows)) ''t'' \<noteq> None" by (simp add: ex_world_def ex_rows_ids)
  show ?thesis using no_completed_turn_is_lost [OF run finished] row by (simp add: concrete)
qed

section \<open>The breakdown by model\<close>

definition number_costs :: "bucket \<Rightarrow> real" where
  "number_costs kvs = sum_list (map (\<lambda>p. if fst p = ''total_cost_usd'' then case snd p of None \<Rightarrow> 0 | Some x \<Rightarrow> x else 0) kvs)"

definition bucket_cost :: "bucket option \<Rightarrow> real" where
  "bucket_cost b = (case b of None \<Rightarrow> 0 | Some kvs \<Rightarrow> number_costs kvs)"

definition model_costs :: "(string, bucket option) pydict \<Rightarrow> real" where
  "model_costs bm = sum_list (map (\<lambda>p. bucket_cost (snd p)) bm)"

definition split_row :: "usage_row \<Rightarrow> bool" where
  \<comment> \<open>the costs of the models add up to the cost of the session\<close>
  "split_row row \<longleftrightarrow> model_costs (by_model_of row) = usage_or_zero (ur_counts row) ''total_cost_usd''"

lemma model_costs_dset: "model_costs (dset m b bm) = model_costs bm - bucket_cost (case dget bm m of None \<Rightarrow> None | Some b' \<Rightarrow> b') + bucket_cost b"
  by (induction bm) (auto simp: model_costs_def bucket_cost_def)

lemma bucket_cost_set:
  "bucket_number b k = Inr x \<Longrightarrow>
     bucket_cost (Some (dset k (Some y) b)) = bucket_cost (Some b) + (if k = ''total_cost_usd'' then y - x else 0)"
proof (induction b)
  case (Cons p b)
  then show ?case by (cases p) (auto simp: bucket_number_def bucket_cost_def number_costs_def split: option.splits)
qed (auto simp: bucket_number_def bucket_cost_def number_costs_def)

lemma model_usage_bucket_cost:
  "model_usage_bucket bm m = Inr b \<Longrightarrow> bucket_cost (case dget bm m of None \<Rightarrow> None | Some b' \<Rightarrow> b') = bucket_cost (Some b)"
  by (auto simp: model_usage_bucket_def bucket_cost_def number_costs_def split: option.splits)

lemma add_bucket_cost: "add_bucket d b = Inr b' \<Longrightarrow> bucket_cost (Some b') = bucket_cost (Some b) + added d ''total_cost_usd''"
proof (induction d arbitrary: b)
  case (Cons p d)
  then show ?case by (cases p) (auto simp: bindR_Inr_iff added_def bucket_cost_set)
qed (simp add: added_def)

lemma collect_fields_keys: "collect_fields f ks = Inr d \<Longrightarrow> map fst d = ks"
  by (induction ks arbitrary: d) (auto simp: bindR_Inr_iff)

lemma added_absent: "k \<notin> fst ` set d \<Longrightarrow> added d k = 0"
  by (induction d) (auto simp: added_def)

lemma turn_delta_split:
  assumes "turn_delta env conv u = Inr (d, cost)"
  shows "ud_by_model d = map_option (\<lambda>m. [(m, ud_counts d)]) (turn_model env conv u) \<and>
    (turn_model env conv u = None \<longrightarrow> added (ud_counts d) ''total_cost_usd'' = 0)"
proof -
  obtain c tokens where c: "turn_cost env (turn_model env conv u) u = Inr c"
    and tokens: "collect_fields (\<lambda>k. usage_number (usage_field u k)) model_token_keys = Inr tokens"
    and d: "d = \<lparr>ud_counts = (case c of None \<Rightarrow> tokens | Some x \<Rightarrow> tokens @ [(''total_cost_usd'', x)]),
      ud_by_model = map_option (\<lambda>m. [(m, case c of None \<Rightarrow> tokens | Some x \<Rightarrow> tokens @ [(''total_cost_usd'', x)])]) (turn_model env conv u)\<rparr>"
    using assms by (auto simp: turn_delta_def Let_def bindR_Inr_iff)
  have "''total_cost_usd'' \<notin> fst ` set tokens"
    using collect_fields_keys [OF tokens] by (simp add: model_token_keys_def flip: set_map)
  then have "c = None \<Longrightarrow> added (ud_counts d) ''total_cost_usd'' = 0" by (simp add: d added_absent)
  moreover have "turn_model env conv u = None \<Longrightarrow> c = None" using c by (simp add: turn_cost_def)
  ultimately show ?thesis by (simp add: d)
qed

lemma incremented_row_split:
  assumes "turn_delta env conv u = Inr (d, cost)" and "apply_session_usage_delta row d = Inr row'" and "split_row row"
  shows "split_row row'"
proof -
  note d = turn_delta_split [OF assms(1)]
  have total: "usage_or_zero (ur_counts row') ''total_cost_usd'' = usage_or_zero (ur_counts row) ''total_cost_usd'' + added (ud_counts d) ''total_cost_usd''"
    using assms(2) by (auto simp: apply_session_usage_delta_def Let_def bindR_Inr_iff usage_or_zero_fold_add split: option.splits)
  show ?thesis
  proof (cases "turn_model env conv u")
    case None
    then show ?thesis using assms(2,3) d total by (auto simp: apply_session_usage_delta_def split_row_def by_model_of_def)
  next
    case (Some m)
    then obtain b b' where b: "model_usage_bucket (by_model_of row) m = Inr b" "add_bucket (ud_counts d) b = Inr b'"
      "by_model_of row' = dset m (Some b') (by_model_of row)"
      using assms(2) d by (auto simp: apply_session_usage_delta_def bindR_Inr_iff Let_def by_model_of_def)
    show ?thesis using assms(3) total
      by (simp add: split_row_def b(3) model_costs_dset model_usage_bucket_cost [OF b(1)] add_bucket_cost [OF b(2)])
  qed
qed

lemma grow_tokens_cost:
  "grow_tokens ks old u b = Inr b' \<Longrightarrow> ''total_cost_usd'' \<notin> set ks \<Longrightarrow> bucket_cost (Some b') = bucket_cost (Some b)"
  by (induction ks old u b rule: grow_tokens.induct) (auto simp: bindR_Inr_iff bucket_cost_set split: if_splits)

lemma grow_cost_cost:
  "grow_cost old u b = Inr b' \<Longrightarrow> usage_or_zero old ''total_cost_usd'' \<le> usage_or_zero u ''total_cost_usd'' \<Longrightarrow>
   dget old ''total_cost_usd'' \<noteq> None \<longrightarrow> dget u ''total_cost_usd'' \<noteq> None \<Longrightarrow>
   bucket_cost (Some b') = bucket_cost (Some b) + (usage_or_zero u ''total_cost_usd'' - usage_or_zero old ''total_cost_usd'')"
  by (auto simp: grow_cost_def bindR_Inr_iff bucket_cost_set usage_or_zero_def split: option.splits)

lemma reported_row_split:
  assumes "reported_row env conv r = Inr row"
  defines "growth \<equiv> usage_or_zero (ur_counts row) ''total_cost_usd'' - usage_or_zero (ur_counts (row_of conv)) ''total_cost_usd''"
  shows "model_costs (by_model_of row) = model_costs (by_model_of (row_of conv)) + (if report_model env conv r = None then 0 else growth)"
    "nr_cost r = None \<Longrightarrow> report_model env conv r = None \<Longrightarrow> growth = 0"
proof -
  let ?old = "ur_counts (row_of conv)" and ?m = "report_model env conv r"
  let ?nums = "set_cost env ?m r ?old (set_tokens r ?old)"
  obtain bm where bm: "attribute ?m ?old ?nums (row_of conv) = Inr bm" and row: "ur_counts row = set_policy_cost r ?old ?nums" "ur_by_model row = bm"
    using assms(1) by (auto simp: reported_row_def Let_def bindR_Inr_iff)
  have same: "dget (set_tokens r ?old) ''total_cost_usd'' = dget ?old ''total_cost_usd''" by (simp add: set_tokens_other model_token_keys_def)
  have total: "usage_or_zero (ur_counts row) ''total_cost_usd'' = usage_or_zero ?nums ''total_cost_usd''"
    by (auto simp: row set_policy_cost_def usage_or_zero_def split: option.split)
  note up = set_cost_total [OF same, of env ?m r]
  show "growth = 0" if "nr_cost r = None" "?m = None"
    using same total that by (simp add: growth_def set_cost_def usage_or_zero_def)
  show "model_costs (by_model_of row) = model_costs (by_model_of (row_of conv)) + (if ?m = None then 0 else growth)"
  proof (cases ?m)
    case None
    then show ?thesis using bm by (simp add: attribute_def by_model_of_def row)
  next
    case (Some m)
    then obtain b b1 b2 where b: "model_usage_bucket (by_model_of (row_of conv)) m = Inr b" "grow_tokens model_token_keys ?old ?nums b = Inr b1"
      "grow_cost ?old ?nums b1 = Inr b2" "bm = Some (dset m (Some b2) (by_model_of (row_of conv)))"
      using bm by (auto simp: attribute_def bindR_Inr_iff)
    have "bucket_cost (Some b2) = bucket_cost (Some b) + growth"
      using grow_cost_cost [OF b(3) up(1)] up(2) grow_tokens_cost [OF b(2)] by (simp add: growth_def total model_token_keys_def)
    then show ?thesis using b(4) Some by (simp add: by_model_of_def [of row] row model_costs_dset model_usage_bucket_cost [OF b(1)])
  qed
qed

datatype usage_op = Turn string "(string, pyval) pydict" | Report string "(string, pyval) pydict"

fun run_usage_op :: "usage_env \<Rightarrow> string \<Rightarrow> usage_op \<Rightarrow> usage_world \<Rightarrow> usage_world" where
  "run_usage_op env day (Turn cid resp) w = snd (accumulate_session_usage env day resp cid w)"
| "run_usage_op env day (Report cid data) w = snd (persist_native_cumulative_usage env day cid data w)"

fun names_model :: "usage_env \<Rightarrow> usage_world \<Rightarrow> usage_op \<Rightarrow> bool" where
  \<comment> \<open>a model is known for every reported cost\<close>
  "names_model env w (Report cid data) =
     (case read_report data of
        Inr (Some r) \<Rightarrow> nr_cost r \<noteq> None \<longrightarrow> report_model env (get_conversation (uw_convs w) cid) r \<noteq> None
      | _ \<Rightarrow> True)"
| "names_model env w (Turn cid resp) = True"

definition split_rows :: "usage_world \<Rightarrow> bool" where
  "split_rows w \<longleftrightarrow> (\<forall>c \<in> set (uw_convs w). split_row (co_session_usage c))"

lemma split_empty: "split_row empty_row"
  by (simp add: split_row_def empty_row_def by_model_of_def model_costs_def usage_or_zero_def)

lemma split_rows_row: "split_rows w \<Longrightarrow> split_row (row_of (get_conversation (uw_convs w) cid))"
  by (cases "get_conversation (uw_convs w) cid") (auto simp: row_of_def split_empty split_rows_def dest: get_conversation_id)

lemma split_rows_set: "split_rows w \<Longrightarrow> split_row row \<Longrightarrow> split_rows (w\<lparr>uw_convs := set_usage_row cid row (uw_convs w)\<rparr>)"
  by (auto simp: split_rows_def set_usage_row_def)

lemma split_rows_daily [simp]: "split_rows (record_daily_cost env day conv x w) = split_rows w"
  by (simp add: split_rows_def)

lemma same_rows_daily [simp]: "same_rows w0 (record_daily_cost env day conv x w) = same_rows w0 w"
  by (simp add: same_rows_def)

lemma report_model_same:
  "same_rows w0 w \<Longrightarrow> report_model env (get_conversation (uw_convs w) c) r = report_model env (get_conversation (uw_convs w0) c) r"
proof -
  assume "same_rows w0 w"
  then have "session_model env (get_conversation (uw_convs w) c) = session_model env (get_conversation (uw_convs w0) c)"
    by (metis same_rows_def session_model_bare)
  then show ?thesis unfolding report_model_def by presburger
qed

lemma accumulate_cases:
  "snd (accumulate_session_usage env day resp cid w) = w \<or>
   (\<exists>u d cost row convs. turn_delta env (get_conversation (uw_convs w) cid) u = Inr (d, cost) \<and>
      increment_session_usage cid d (uw_convs w) = Inr (row, convs) \<and>
      snd (accumulate_session_usage env day resp cid w) =
        record_daily_cost env day (get_conversation (uw_convs w) cid) cost (w\<lparr>uw_convs := convs\<rparr>))"
  unfolding accumulate_session_usage_def Let_def
  by (auto split: option.split pyval.split sum.split prod.split) metis

lemma usage_op_split:
  assumes "same_rows w0 w" and "names_model env w0 op" and "split_rows w"
  shows "same_rows w0 (run_usage_op env day op w) \<and> split_rows (run_usage_op env day op w)"
proof (cases op)
  case (Turn cid resp)
  let ?conv = "get_conversation (uw_convs w) cid"
  consider "snd (accumulate_session_usage env day resp cid w) = w"
    | u d cost row convs where "turn_delta env ?conv u = Inr (d, cost)" "increment_session_usage cid d (uw_convs w) = Inr (row, convs)"
        "snd (accumulate_session_usage env day resp cid w) = record_daily_cost env day ?conv cost (w\<lparr>uw_convs := convs\<rparr>)"
    using accumulate_cases by blast
  then show ?thesis
  proof cases
    case (2 u d cost row convs)
    have row: "apply_session_usage_delta (row_of ?conv) d = Inr row" "convs = set_usage_row cid row (uw_convs w)"
      using 2(2) by (auto simp: increment_session_usage_def bindR_Inr_iff)
    have "split_row row" by (rule incremented_row_split [OF 2(1) row(1) split_rows_row [OF assms(3)]])
    then show ?thesis using Turn 2(3) row(2) assms by (simp add: same_rows_set split_rows_set)
  qed (use Turn assms in simp)
next
  case (Report cid data)
  obtain res w' where run: "persist_native_cumulative_usage env day cid data w = (res, w')" by fastforce
  then show ?thesis
  proof (cases rule: persist_native_cases)
    case (written r row)
    have "names_model env w op" using assms(2) Report written(1) report_model_same [OF assms(1)] by simp
    then have "split_row row" using reported_row_split [OF written(2)] split_rows_row [OF assms(3), of cid] Report written(1)
      by (auto simp: split_row_def split: if_splits)
    then show ?thesis using Report run written(3) assms by (simp add: same_rows_set split_rows_set)
  qed (use Report run assms in simp)
qed

lemma usage_ops_split:
  "same_rows w0 w \<Longrightarrow> split_rows w \<Longrightarrow> list_all (names_model env w0) ops \<Longrightarrow> split_rows (fold (run_usage_op env day) ops w)"
proof (induction ops arbitrary: w)
  case (Cons op ops)
  then show ?case using usage_op_split [of w0 w env op day] by simp
qed simp

section \<open>What is displayed\<close>

definition shown_costs :: "(string, (string, real) pydict) pydict \<Rightarrow> real" where
  "shown_costs bm = sum_list (map (\<lambda>p. usage_or_zero (snd p) ''total_cost_usd'') bm)"

lemma shown_costs_dset:
  "shown_costs (dset m b bm) = shown_costs bm - usage_or_zero (case dget bm m of None \<Rightarrow> [] | Some d \<Rightarrow> d) ''total_cost_usd'' + usage_or_zero b ''total_cost_usd''"
proof (induction bm)
  case (Cons p bm)
  then show ?case by (cases p) (auto simp: shown_costs_def usage_or_zero_def)
qed (simp add: shown_costs_def usage_or_zero_def)

lemma merge_bucket_cost: "usage_or_zero (merge_bucket kvs agg) ''total_cost_usd'' = usage_or_zero agg ''total_cost_usd'' + number_costs kvs"
  by (induction kvs agg rule: merge_bucket.induct) (auto simp: number_costs_def usage_or_zero_add_to split: option.split)

lemma merge_by_model_cost: "shown_costs (merge_by_model m agg) = shown_costs agg + model_costs m"
proof (induction m agg rule: merge_by_model.induct)
  case (2 model b rest agg)
  then show ?case by (cases b) (simp_all add: model_costs_def bucket_cost_def shown_costs_dset merge_bucket_cost)
qed (simp add: model_costs_def)

lemma fold_models_cost:
  "shown_costs (su_by_model (fold add_conversation cs u)) =
     shown_costs (su_by_model u) + sum_list (map (\<lambda>c. model_costs (by_model_of (co_session_usage c))) cs)"
proof (induction cs arbitrary: u)
  case (Cons c cs)
  have "shown_costs (su_by_model (add_conversation c u)) = shown_costs (su_by_model u) + model_costs (by_model_of (co_session_usage c))"
    by (auto simp: add_conversation_def by_model_of_def merge_by_model_cost model_costs_def split: option.split)
  then show ?case using Cons [of "add_conversation c u"] by simp
qed simp

lemma shown_costs_none [simp]: "shown_costs (su_by_model no_usage) = 0"
  by (simp add: shown_costs_def no_usage_def)

lemma sum_present_total: "(case sum_present vs of None \<Rightarrow> 0 | Some x \<Rightarrow> x) = sum_list (map (case_option 0 id) vs)"
proof -
  have "sum_list (map (case_option 0 id) vs) = sum_list (List.map_filter id vs)"
    by (induction vs) (auto simp: map_filter_simps split: option.split)
  then show ?thesis by (simp add: sum_present_def)
qed

text \<open>
  The cost of every model on display adds up to the displayed cost of the subtree.
\<close>

definition displayed_models :: "usage_event \<Rightarrow> real" where
  "displayed_models ev =
     (case ux_by_model ev of None \<Rightarrow> 0 | Some ms \<Rightarrow> sum_list (map (\<lambda>p. case mu_cost (snd p) of None \<Rightarrow> 0 | Some x \<Rightarrow> x) ms))"

lemma displayed_models_shown: "displayed_models (cost_event u) = shown_costs (su_by_model u)"
  by (auto simp: displayed_models_def cost_event_def usage_by_model_for_display_def shown_costs_def display_bucket_def
      priced_cost_for_display_def usage_or_zero_def comp_def case_prod_beta)

lemma subtree_usage_members:
  assumes "get_conversation (uw_convs w) cid = Some conv" and "paged n rows (ue_list_page env (uw_convs w) (co_root conv))"
  obtains u members where "subtree_usage env cid w = Some u" "u = fold add_conversation members no_usage"
    "members = filter (\<lambda>c. (cid, co_id c) \<in> (child_rel rows)\<^sup>*) rows"
  using load_session_usage_members [where list_page = "ue_list_page env (uw_convs w)", OF assms refl] by (simp add: subtree_usage_def)

text \<open>
  C12: The costs of the models on display add up to the displayed cost. Starting from rows whose breakdown adds up
  (new ones do), after any sequence of completed turns and native reports in which a model is known for every
  reported cost, the usage event of every session shows, over its whole subtree, model costs that sum to the
  session cost it shows.
\<close>
theorem displayed_breakdown_adds_up:
  assumes "split_rows w0" and "list_all (names_model env w0) ops" and "w = fold (run_usage_op env day) ops w0"
    and "get_conversation (uw_convs w) cid = Some conv" and "paged n rows (ue_list_page env (uw_convs w) (co_root conv))"
    and "set rows \<subseteq> set (uw_convs w)"
  shows "\<exists>u. subtree_usage env cid w = Some u \<and>
    displayed_models (cost_event u) = (case ux_total_cost (cost_event u) of None \<Rightarrow> 0 | Some x \<Rightarrow> x)"
proof -
  have rows: "split_rows w" unfolding assms(3) by (rule usage_ops_split [OF _ assms(1,2)]) (simp add: same_rows_def)
  obtain u members where u: "subtree_usage env cid w = Some u" "u = fold add_conversation members no_usage"
    "members = filter (\<lambda>c. (cid, co_id c) \<in> (child_rel rows)\<^sup>*) rows" by (rule subtree_usage_members [OF assms(4,5)])
  have "map (\<lambda>c. model_costs (by_model_of (co_session_usage c))) members = map (\<lambda>c. usage_or_zero (ur_counts (co_session_usage c)) ''total_cost_usd'') members"
    using rows assms(6) u(3) by (auto simp: split_rows_def split_row_def)
  from arg_cong [OF this, of sum_list] have "displayed_models (cost_event u) = sum_list (map (\<lambda>c. usage_or_zero (ur_counts (co_session_usage c)) ''total_cost_usd'') members)"
    unfolding displayed_models_shown u(2) fold_models_cost by (simp only: shown_costs_none add_0)
  moreover have "(case ux_total_cost (cost_event u) of None \<Rightarrow> 0 | Some x \<Rightarrow> x) =
      sum_list (map (\<lambda>c. usage_or_zero (ur_counts (co_session_usage c)) ''total_cost_usd'') members)"
    by (simp add: cost_event_def priced_cost_for_display_def u(2) fold_add_conversation summable_usage_keys_def sum_present_total
        comp_def usage_or_zero_def id_def)
  ultimately show ?thesis using u(1) by simp
qed

definition ex_fresh_rows :: "conversation list" where
  "ex_fresh_rows = [ex_row ''s'' None [], ex_row ''t'' (Some ''s'') []]"

definition ex_ops :: "usage_op list" where
  "ex_ops = [Turn ''s'' ex_turn, Report ''t'' [(''cumulative_cost_usd'', PInt 4), (''model'', PStr ''k'')], Turn ''t'' ex_turn]"

theorem displayed_breakdown_adds_up_witness:
  "\<exists>u. subtree_usage ex_usage_env ''s'' (fold (run_usage_op ex_usage_env ''d'') ex_ops (ex_world ex_fresh_rows)) = Some u \<and>
     displayed_models (cost_event u) = (case ux_total_cost (cost_event u) of None \<Rightarrow> 0 | Some x \<Rightarrow> x)"
proof -
  let ?w = "fold (run_usage_op ex_usage_env ''d'') ex_ops (ex_world ex_fresh_rows)"
  have start: "split_rows (ex_world ex_fresh_rows)" "list_all (names_model ex_usage_env (ex_world ex_fresh_rows)) ex_ops"
    by code_simp+
  have ids: "map co_id (uw_convs ?w) = [''s'', ''t'']" "map_option co_root (get_conversation (uw_convs ?w) ''s'') = Some ''s''" by code_simp+
  then obtain conv where conv: "get_conversation (uw_convs ?w) ''s'' = Some conv" "co_root conv = ''s''" by auto
  have "paged 100 (uw_convs ?w) (ue_list_page ex_usage_env (uw_convs ?w) (co_root conv))"
    unfolding ex_usage_env_def usage_env.simps by (rule one_page_paged) (simp only: ids(1) [unfolded ex_usage_env_def], simp)
  from displayed_breakdown_adds_up [OF start refl conv(1) this subset_refl] show ?thesis .
qed

section \<open>Ancestors\<close>

definition parent_of :: "conversation list \<Rightarrow> string \<Rightarrow> string option" where
  "parent_of convs c = Option.bind (get_conversation convs c) co_parent"

definition parent_rel :: "conversation list \<Rightarrow> (string \<times> string) set" where
  "parent_rel convs = {(p, c). parent_of convs c = Some p}"

lemma parent_of_found [simp]: "get_conversation convs x = Some c \<Longrightarrow> parent_of convs x = co_parent c"
  by (simp add: parent_of_def)

lemma parent_of_missing [simp]: "get_conversation convs x = None \<Longrightarrow> parent_of convs x = None"
  by (simp add: parent_of_def)

lemma ancestors_closed:
  assumes "\<forall>x q. x \<in> set seen \<and> parent_of convs x = Some q \<longrightarrow> q \<in> set seen \<or> get_conversation convs x = c"
    and "x \<in> set seen \<union> set (ancestors_from convs seen c)" and "parent_of convs x = Some q"
  shows "q \<in> set seen \<union> set (ancestors_from convs seen c)"
  using assms
proof (induction convs seen c rule: ancestors_from.induct)
  case (1 convs seen)
  then show ?case by fastforce
next
  case (2 convs seen c)
  show ?case
  proof (cases "co_parent c")
    case None
    then show ?thesis using 2(2-) by fastforce
  next
    case (Some p)
    show ?thesis
    proof (cases "p \<in> set seen")
      case True
      then show ?thesis using 2(2-) Some by fastforce
    next
      case False
      have "\<forall>x q. x \<in> set (p # seen) \<and> parent_of convs x = Some q \<longrightarrow> q \<in> set (p # seen) \<or> get_conversation convs x = get_conversation convs p"
        using 2(2) Some by fastforce
      from 2(1) [OF Some False this] show ?thesis using 2(3,4) Some False by simp
    qed
  qed
qed

lemma ancestors_distinct: "distinct (ancestors_from convs seen c) \<and> set (ancestors_from convs seen c) \<inter> set seen = {}"
  by (induction convs seen c rule: ancestors_from.induct) (auto split: option.split)

lemma ancestors_reached:
  assumes "(a, cid) \<in> (parent_rel convs)\<^sup>*"
  shows "a \<in> set (cid # ancestor_session_ids convs cid)"
  using assms
proof (induction rule: converse_rtrancl_induct)
  case (step a b)
  have "\<forall>x q. x \<in> set [cid] \<and> parent_of convs x = Some q \<longrightarrow> q \<in> set [cid] \<or> get_conversation convs x = get_conversation convs cid"
    by simp
  from ancestors_closed [OF this, of b a] step show ?case
    by (auto simp: ancestor_session_ids_def parent_rel_def)
qed simp

definition priced_news :: "usage_env \<Rightarrow> usage_world \<Rightarrow> string \<Rightarrow> (string \<times> usage_event) list" where
  \<comment> \<open>what is published for an ancestor\<close>
  "priced_news env w a =
     (case subtree_usage env a w of
        None \<Rightarrow> []
      | Some u \<Rightarrow> if priced_cost_for_display (su_totals u) = None \<and> usage_by_model_for_display u = None then [] else [(a, cost_event u)])"

lemma subtree_usage_published [simp]: "subtree_usage env a (w\<lparr>uw_published := evs\<rparr>) = subtree_usage env a w"
  by (simp add: subtree_usage_def)

lemma publish_subtree_costs_news:
  "publish_subtree_costs env as w = Some w' \<Longrightarrow>
     (\<forall>a \<in> set as. subtree_usage env a w \<noteq> None) \<and> w' = w\<lparr>uw_published := uw_published w @ concat (map (priced_news env w) as)\<rparr>"
proof (induction "as" arbitrary: w)
  case (Cons a "as")
  then obtain u where u: "subtree_usage env a w = Some u" "publish_subtree_costs env as (publish_priced a u w) = Some w'"
    by (auto split: option.splits)
  have pub: "publish_priced a u w = w\<lparr>uw_published := uw_published w @ priced_news env w a\<rparr>"
    by (simp add: publish_priced_def publish_usage_def priced_news_def u(1))
  have "priced_news env (w\<lparr>uw_published := evs\<rparr>) = priced_news env w" for evs by (simp add: priced_news_def fun_eq_iff)
  then show ?case using Cons.IH [OF u(2)] u(1) unfolding pub by simp
qed simp

lemma persist_external_steps:
  assumes "persist_external_session_usage env day cid data w = Some (Inr tokens, w')"
  obtains shown w1 u ev where "persist_native_cumulative_usage env day cid data w = (Inr shown, w1)"
    "uw_convs w' = uw_convs w1" "subtree_usage env cid w' = Some u" "ux_total_cost ev = priced_cost_for_display (su_totals u)"
    "uw_published w' = uw_published w @ (cid, ev) # concat (map (priced_news env w') (ancestor_session_ids (uw_convs w') cid))"
    "\<forall>a \<in> set (ancestor_session_ids (uw_convs w') cid). subtree_usage env a w' \<noteq> None"
proof -
  obtain tok window shown w1 where native: "persist_native_cumulative_usage env day cid data w = (Inr shown, w1)"
    and rest: "(let w = w1\<lparr>uw_store := set_labels cid (context_labels tok window) (uw_store w1)\<rparr>
               in (case subtree_usage env cid w of
                     None \<Rightarrow> None
                   | Some u \<Rightarrow>
                       let ev = (cost_event u)\<lparr>ux_context_tokens := Option.bind tok int_of_pyval, ux_context_window := Option.bind window int_of_pyval\<rparr>
                       in map_option (Pair (Inr tok :: pyval option res)) (publish_subtree_cost_to_ancestors env cid (publish_usage cid ev w)))) =
            Some (Inr tokens, w')"
    using assms unfolding persist_external_session_usage_def by (auto split: sum.splits prod.splits)
  define w2 where "w2 = w1\<lparr>uw_store := set_labels cid (context_labels tok window) (uw_store w1)\<rparr>"
  obtain u where u: "subtree_usage env cid w2 = Some u" using rest by (auto simp: Let_def w2_def split: option.splits)
  define ev where "ev = (cost_event u)\<lparr>ux_context_tokens := Option.bind tok int_of_pyval, ux_context_window := Option.bind window int_of_pyval\<rparr>"
  have "publish_subtree_cost_to_ancestors env cid (publish_usage cid ev w2) = Some w'"
    using rest u unfolding w2_def [symmetric] by (auto simp: Let_def ev_def)
  then have news: "(\<forall>a \<in> set (ancestor_session_ids (uw_convs w2) cid). subtree_usage env a w2 \<noteq> None)"
    "w' = w2\<lparr>uw_published := (uw_published w2 @ [(cid, ev)]) @ concat (map (priced_news env (w2\<lparr>uw_published := uw_published w2 @ [(cid, ev)]\<rparr>)) (ancestor_session_ids (uw_convs w2) cid))\<rparr>"
    unfolding publish_subtree_cost_to_ancestors_def using publish_subtree_costs_news by (fastforce simp: publish_usage_def)+
  have pub: "uw_published w1 = uw_published w" by (use native in \<open>rule persist_native_cases\<close>) simp_all
  have same: "priced_news env (w2\<lparr>uw_published := evs\<rparr>) = priced_news env w2" for evs by (simp add: priced_news_def fun_eq_iff)
  show ?thesis
  proof (rule that [OF native])
    show "uw_convs w' = uw_convs w1" by (simp add: news(2) w2_def)
    show "subtree_usage env cid w' = Some u" by (simp add: news(2) u)
    show "ux_total_cost ev = priced_cost_for_display (su_totals u)" by (simp add: ev_def cost_event_def)
    show "uw_published w' = uw_published w @ (cid, ev) # concat (map (priced_news env w') (ancestor_session_ids (uw_convs w') cid))"
      by (simp add: news(2) same) (simp add: w2_def pub)
    show "\<forall>a \<in> set (ancestor_session_ids (uw_convs w') cid). subtree_usage env a w' \<noteq> None" using news(1) by (simp add: news(2))
  qed
qed

definition pages_rows :: "usage_env \<Rightarrow> conversation list \<Rightarrow> bool" where
  \<comment> \<open>the store pages through the conversations of every root\<close>
  "pages_rows env convs \<longleftrightarrow>
     (\<forall>root. \<exists>n. paged n (filter (\<lambda>c. co_root c = root) convs) (ue_list_page env convs root))"

definition shown_total :: "(string \<times> usage_event) list \<Rightarrow> string \<Rightarrow> real option" where
  \<comment> \<open>the cost a viewer of \<open>a\<close> ends up with\<close>
  "shown_total news a = (case filter (\<lambda>p. fst p = a) news of [] \<Rightarrow> None | p # ps \<Rightarrow> ux_total_cost (snd (last (p # ps))))"

definition subtree_rows :: "conversation list \<Rightarrow> conversation \<Rightarrow> conversation list" where
  \<comment> \<open>a conversation and its descendants\<close>
  "subtree_rows convs conv =
     (let rows = filter (\<lambda>c. co_root c = co_root conv) convs in filter (\<lambda>c. (co_id conv, co_id c) \<in> (child_rel rows)\<^sup>*) rows)"

lemma filter_news_other: "b \<noteq> a \<Longrightarrow> filter (\<lambda>p. fst p = a) (priced_news env w b) = []"
  by (auto simp: priced_news_def split: option.split)

lemma filter_news_self: "filter (\<lambda>p. fst p = a) (priced_news env w a) = priced_news env w a"
  by (auto simp: priced_news_def split: option.split)

lemma filter_all_news:
  "distinct as \<Longrightarrow> filter (\<lambda>p. fst p = a) (concat (map (priced_news env w) as)) = (if a \<in> set as then priced_news env w a else [])"
proof (induction "as")
  case (Cons b "as")
  then show ?case by (cases "b = a") (auto simp: filter_news_other filter_news_self)
qed simp

lemma subtree_usage_loads: "pages_rows env (uw_convs w) \<Longrightarrow> \<exists>u. subtree_usage env a w = Some u"
proof (cases "get_conversation (uw_convs w) a")
  case None
  then show ?thesis by (simp add: subtree_usage_def load_session_usage_def)
next
  case (Some conv)
  assume "pages_rows env (uw_convs w)"
  then obtain n rows where "paged n rows (ue_list_page env (uw_convs w) (co_root conv))" unfolding pages_rows_def by metis
  then show ?thesis using subtree_usage_members [OF Some] by metis
qed

lemma publish_subtree_costs_returns: "pages_rows env (uw_convs w) \<Longrightarrow> \<exists>w'. publish_subtree_costs env as w = Some w' \<and> uw_convs w' = uw_convs w"
proof (induction "as" arbitrary: w)
  case (Cons a "as")
  obtain u where u: "subtree_usage env a w = Some u" using subtree_usage_loads [OF Cons.prems] by blast
  have "uw_convs (publish_priced a u w) = uw_convs w" by (simp add: publish_priced_def publish_usage_def)
  then show ?case using Cons.IH [of "publish_priced a u w"] Cons.prems u by simp
qed simp

text \<open>
  An accepted report is answered: the pages of the spawn trees end, so the reads behind the published costs do.
\<close>

lemma accepted_report_returns:
  assumes "persist_native_cumulative_usage env day cid data w = (Inr shown, w1)" and "pages_rows env (uw_convs w1)"
    and "optional_int data ''context_tokens'' (\<lambda>i. i < 0) = Inr tokens" and "optional_int data ''context_window'' (\<lambda>i. i \<le> 0) = Inr window"
    and "\<exists>k \<in> set cumulative_usage_keys. dget data k \<notin> {None, Some PNone}"
  shows "\<exists>w'. persist_external_session_usage env day cid data w = Some (Inr tokens, w') \<and> uw_convs w' = uw_convs w1"
proof -
  let ?w2 = "w1\<lparr>uw_store := set_labels cid (context_labels tokens window) (uw_store w1)\<rparr>"
  obtain u where u: "subtree_usage env cid ?w2 = Some u" using subtree_usage_loads [of env ?w2] assms(2) by auto
  let ?ev = "(cost_event u)\<lparr>ux_context_tokens := Option.bind tokens int_of_pyval, ux_context_window := Option.bind window int_of_pyval\<rparr>"
  have "uw_convs (publish_usage cid ?ev ?w2) = uw_convs w1" by (simp add: publish_usage_def)
  then obtain w' where "publish_subtree_cost_to_ancestors env cid (publish_usage cid ?ev ?w2) = Some w'" "uw_convs w' = uw_convs w1"
    using publish_subtree_costs_returns [of env "publish_usage cid ?ev ?w2"] assms(2) unfolding publish_subtree_cost_to_ancestors_def by auto
  then show ?thesis using assms u by (auto simp: persist_external_session_usage_def Let_def)
qed

text \<open>
  C13: Every ancestor is shown what its subtree costs. When the usage report of a session is accepted, the events
  published leave the session and each of its ancestors with a displayed cost that is the sum, after the report,
  of the costs recorded in that conversation and all of its descendants, and with none when no cost is recorded.
\<close>
theorem every_ancestor_shows_its_subtree_cost:
  assumes "persist_external_session_usage env day cid data w = Some (Inr tokens, w')" and "pages_rows env (uw_convs w')"
    and "(a, cid) \<in> (parent_rel (uw_convs w'))\<^sup>*" and "get_conversation (uw_convs w') a = Some conv"
  shows "\<exists>news. uw_published w' = uw_published w @ news \<and>
    shown_total news a = sum_present (map (\<lambda>c. dget (ur_counts (co_session_usage c)) ''total_cost_usd'') (subtree_rows (uw_convs w') conv))"
proof -
  let ?ids = "ancestor_session_ids (uw_convs w') cid"
  obtain shown w1 u ev where u: "subtree_usage env cid w' = Some u" "ux_total_cost ev = priced_cost_for_display (su_totals u)"
    and news: "uw_published w' = uw_published w @ (cid, ev) # concat (map (priced_news env w') ?ids)"
    and found: "\<forall>a \<in> set ?ids. subtree_usage env a w' \<noteq> None"
    by (rule persist_external_steps [OF assms(1)])
  let ?news = "(cid, ev) # concat (map (priced_news env w') ?ids)"
  have ids: "distinct ?ids" "cid \<notin> set ?ids" using ancestors_distinct [of "uw_convs w'" "[cid]"] by (auto simp: ancestor_session_ids_def)
  obtain n where pages: "paged n (filter (\<lambda>c. co_root c = co_root conv) (uw_convs w')) (ue_list_page env (uw_convs w') (co_root conv))"
    using assms(2) by (auto simp: pages_rows_def)
  have a: "co_id conv = a" using get_conversation_id [OF assms(4)] by simp
  obtain v members where v: "subtree_usage env a w' = Some v" "v = fold add_conversation members no_usage" "members = subtree_rows (uw_convs w') conv"
    using subtree_usage_members [OF assms(4) pages] by (metis a subtree_rows_def)
  have total: "priced_cost_for_display (su_totals v) =
      sum_present (map (\<lambda>c. dget (ur_counts (co_session_usage c)) ''total_cost_usd'') (subtree_rows (uw_convs w') conv))"
    by (simp add: priced_cost_for_display_def v(2,3) fold_add_conversation summable_usage_keys_def)
  have "a \<in> set (cid # ?ids)" by (rule ancestors_reached [OF assms(3)])
  have "shown_total ?news a = priced_cost_for_display (su_totals v)"
  proof (cases "a = cid")
    case True
    then show ?thesis using u v(1) ids by (simp add: shown_total_def filter_all_news)
  next
    case False
    then have "filter (\<lambda>p. fst p = a) ?news = priced_news env w' a"
      using \<open>a \<in> set (cid # ?ids)\<close> by (simp add: filter_all_news [OF ids(1)])
    then show ?thesis by (auto simp: shown_total_def priced_news_def v(1) cost_event_def)
  qed
  then show ?thesis using news total by auto
qed

lemma pages_rows_one_page: "distinct (map co_id convs) \<Longrightarrow> ue_list_page env = (\<lambda>convs root. one_page (filter (\<lambda>c. co_root c = root) convs) root) \<Longrightarrow> pages_rows env convs"
  by (auto simp: pages_rows_def intro!: exI [of _ 100] one_page_paged distinct_map_filter)

definition ex_paging :: usage_env where
  "ex_paging = ex_usage_env\<lparr>ue_list_page := (\<lambda>convs root. one_page (filter (\<lambda>c. co_root c = root) convs) root)\<rparr>"

definition ex_data :: "(string, pyval) pydict" where
  "ex_data = [(''policy_cost_usd'', PInt 6), (''cumulative_cost_usd'', PInt 4)]"

lemma ex_posted:
  obtains w' where "persist_external_session_usage ex_paging ''d'' ''t'' ex_data (ex_world ex_rows) = Some (Inr None, w')"
    "map co_id (uw_convs w') = [''s'', ''t'']" "map co_root (uw_convs w') = [''s'', ''s'']" "map co_parent (uw_convs w') = [None, Some ''s'']"
    "map (\<lambda>c. dget (ur_counts (co_session_usage c)) ''total_cost_usd'') (uw_convs w') = [Some 3, Some 4]"
    "map gate_cost (uw_convs w') = [3, 6]"
proof -
  let ?run = "persist_native_cumulative_usage ex_paging ''d'' ''t'' ex_data (ex_world ex_rows)"
  have native: "?run = (Inr (Some 4), snd ?run)" by code_simp
  have parts: "map co_id (uw_convs (snd ?run)) = [''s'', ''t'']" "map co_root (uw_convs (snd ?run)) = [''s'', ''s'']"
    "map co_parent (uw_convs (snd ?run)) = [None, Some ''s'']"
    "map (\<lambda>c. dget (ur_counts (co_session_usage c)) ''total_cost_usd'') (uw_convs (snd ?run)) = [Some 3, Some 4]"
    "map gate_cost (uw_convs (snd ?run)) = [3, 6]"
    by code_simp+
  have "pages_rows ex_paging (uw_convs (snd ?run))"
    by (rule pages_rows_one_page) (unfold parts(1), simp_all add: ex_paging_def)
  then obtain w' where "persist_external_session_usage ex_paging ''d'' ''t'' ex_data (ex_world ex_rows) = Some (Inr None, w')"
    "uw_convs w' = uw_convs (snd ?run)"
    using accepted_report_returns [OF native, of None None] by (auto simp: optional_int_def ex_data_def cumulative_usage_keys_def)
  then show thesis using that parts by metis
qed

theorem every_ancestor_shows_its_subtree_cost_witness:
  "\<exists>w' news. persist_external_session_usage ex_paging ''d'' ''t'' ex_data (ex_world ex_rows) = Some (Inr None, w') \<and>
     uw_published w' = news \<and> shown_total news ''s'' = Some 7"
proof -
  obtain w' where w': "persist_external_session_usage ex_paging ''d'' ''t'' ex_data (ex_world ex_rows) = Some (Inr None, w')"
    and ids: "map co_id (uw_convs w') = [''s'', ''t'']" "map co_root (uw_convs w') = [''s'', ''s'']" "map co_parent (uw_convs w') = [None, Some ''s'']"
    and total: "map (\<lambda>c. dget (ur_counts (co_session_usage c)) ''total_cost_usd'') (uw_convs w') = [Some 3, Some 4]"
    by (rule ex_posted)
  obtain cs ct where rows: "uw_convs w' = [cs, ct]" using ids(1) by (auto simp: map_eq_Cons_conv)
  have get: "get_conversation (uw_convs w') ''s'' = Some cs" "get_conversation (uw_convs w') ''t'' = Some ct"
    using ids by (simp_all add: rows get_conversation_def)
  have up: "(''s'', ''t'') \<in> (parent_rel (uw_convs w'))\<^sup>*" using get ids by (auto simp: rows parent_rel_def)
  have pages: "pages_rows ex_paging (uw_convs w')" using ids(1) by (intro pages_rows_one_page) (simp_all add: ex_paging_def)
  have "subtree_rows (uw_convs w') cs = [cs, ct]"
  proof -
    have "(''s'', ''t'') \<in> child_rel [cs, ct]" using ids by (simp add: rows child_rel_def children_of_def)
    then show ?thesis using ids by (auto simp: subtree_rows_def rows Let_def)
  qed
  then show ?thesis using every_ancestor_shows_its_subtree_cost [OF w' pages up get(1)] total w'
    by (auto simp: rows sum_present_def map_filter_simps ex_world_def)
qed

section \<open>From a report to a denial\<close>

lemma tree_cost_gates: "tree_cost rows = sum_list (map gate_cost rows)"
proof -
  have "sum_list (List.map_filter policy_cost_of rows) = sum_list (map gate_cost rows)"
    by (induction rows) (auto simp: map_filter_simps gate_cost_def split: option.split)
  then show ?thesis by (simp add: tree_cost_def)
qed

lemma gate_below_tree:
  assumes "c \<in> set rows" and "\<forall>x \<in> set rows. 0 \<le> gate_cost x"
  shows "gate_cost c \<le> tree_cost rows"
proof -
  obtain xs ys where "rows = xs @ c # ys" using assms(1) by (meson split_list)
  moreover have "0 \<le> sum_list (map gate_cost zs)" if "set zs \<subseteq> set rows" for zs
    using that assms(2) by (intro sum_list_nonneg) auto
  ultimately have "rows = xs @ c # ys" "0 \<le> sum_list (map gate_cost xs)" "0 \<le> sum_list (map gate_cost ys)" by auto
  then show ?thesis by (simp add: tree_cost_gates)
qed

lemma reported_policy_cost:
  assumes "persist_native_cumulative_usage env day cid data w = (Inr shown, w')" and "read_report data = Inr (Some r)"
    and "nr_policy_cost r = Some spent" and "get_conversation (uw_convs w') cid = Some conv"
  shows "spent \<le> gate_cost conv"
  using assms(1)
proof (cases rule: persist_native_cases)
  case nothing
  then show ?thesis using assms(2) by simp
next
  case (written r' row)
  have "co_session_usage conv = row" using assms(4) written(3) by (auto simp: get_set_usage_row)
  then show ?thesis using reported_row_costs(3) [OF written(2)] written(1) assms(2,3) by (simp add: gate_cost_def policy_cost_of_def)
qed

text \<open>
  C8: Reported spend closes the budget of the whole tree. Once a report that raises the enforcement cost of any
  session to the limit of a cost budget is accepted, an engine built from the store for any conversation of the
  spawn tree denies every request and tool call while the model is one the budget blocks, or is not known.
\<close>
theorem reported_spend_is_gated:
  assumes "persist_external_session_usage uenv day cid data w = Some (Inr tokens, w')"
    and "read_report data = Inr (Some r)" and "nr_policy_cost r = Some spent" and "limit \<le> spent"
    and "distinct (map co_id (uw_convs w'))" and "\<forall>c \<in> set (uw_convs w'). 0 \<le> gate_cost c"
    and "get_conversation (uw_convs w') member = Some conv" and "get_conversation (uw_convs w') (co_root conv) = Some root_conv"
    and "co_root root_conv = co_root conv" and "rows = filter (\<lambda>c. co_root c = co_root conv) (uw_convs w')"
    and "paged n rows (be_list_page env (co_root conv))" and "\<forall>c \<in> set rows. (co_root conv, co_id c) \<in> (child_rel rows)\<^sup>*"
    and "cid \<in> co_id ` set rows"
    and "build_policy_engine env (uw_convs w') st agent member host default_policies pst server_llm ch = Some (Inr eng, st', ch')"
    and "collect_policies (uw_convs w') member agent default_policies pst ch = (Inr specs, ch2)"
    and "(spec, fref) \<in> set specs" and "unconditional spec" and "be_resolve env fref = cost_budget money (Some limit) ask_thresholds models"
    and "resolve_expensive_models models = Inr cfg"
    and "cx_phase ctx \<in> {REQUEST, TOOL_CALL}" and "model_blocked_over_budget (effective_model eng ctx) cfg"
    and "fst (evaluate_composed d (evaluate_function other) read_only ctx eng) = Inr dec"
  shows "r_action dec = DENY"
proof -
  obtain shown w1 where native: "persist_native_cumulative_usage uenv day cid data w = (Inr shown, w1)" "uw_convs w' = uw_convs w1"
    by (rule persist_external_steps [OF assms(1)])
  obtain c where c: "c \<in> set rows" "co_id c = cid" using assms(13) by auto
  obtain found where found: "get_conversation (uw_convs w') cid = Some found"
    using c assms(10) by (cases "get_conversation (uw_convs w') cid") (auto simp: get_conversation_def find_None_iff)
  then have "found = c" using get_conversation_id [OF found] c assms(5,10) by (auto simp: distinct_map dest: inj_onD)
  then have "spent \<le> gate_cost c" using reported_policy_cost [OF native(1) assms(2,3)] found native(2) by simp
  also have "\<dots> \<le> tree_cost rows" by (rule gate_below_tree [OF c(1)]) (use assms(6,10) in auto)
  finally have "limit \<le> tree_cost rows" using assms(4) by linarith
  from over_budget_denied [OF assms(7,8,9,11,12,14,15,16,17,18,19) this assms(20,21,22)] show ?thesis .
qed

definition ex_gate_env :: "conversation list \<Rightarrow> environment" where
  "ex_gate_env rows = ex_builder_env\<lparr>be_list_page := one_page rows\<rparr>"

abbreviation ex_budget_spec :: sourced_policy where
  "ex_budget_spec \<equiv> (unrestricted_spec ''b'', \<lparr>fr_path = ''cost'', fr_arguments = None\<rparr>)"

abbreviation ex_caches :: spec_caches where
  "ex_caches \<equiv> \<lparr>ch_default = None, ch_session = []\<rparr>"

abbreviation ex_gate_build :: "conversation list \<Rightarrow> ((llm_client function_policy, llm_client) engine res \<times> store \<times> spec_caches) option" where
  "ex_gate_build rows \<equiv> build_policy_engine (ex_gate_env rows) rows ex_store ex_agent ''t'' None None None None ex_caches"

lemma ex_gate_specs: "collect_policies rows ''t'' ex_agent None None ex_caches = (Inr [ex_budget_spec, ask_on_add_policy_spec], ex_caches)"
  by (simp add: collect_policies_def load_session_policy_specs_def load_default_policy_specs_def inherited_policies_def ex_agent_def or_empty_def)

lemma ex_gate_built:
  assumes "distinct (map co_id rows)" and "get_conversation rows ''t'' = Some ct" and "get_conversation rows (co_root ct) = Some cs"
  shows "\<exists>eng st ch. ex_gate_build rows = Some (Inr eng, st, ch)"
proof -
  have pg: "paged 100 rows (one_page rows (co_root cs))" by (rule one_page_paged [OF assms(1)])
  obtain seed where seed: "policy_usage_seed rows (one_page rows) ''t'' = Some seed"
    using load_session_usage_members [where list_page = "one_page rows", OF assms(3) pg refl] assms(2) by (simp add: policy_usage_seed_def)
  have path: "\<not> needs_subtree_usage [ex_budget_spec, ask_on_add_policy_spec]"
    by (simp add: needs_subtree_usage_def subagent_cost_policy_path_def ask_on_add_policy_spec_def)
  have "(cost_budget (\<lambda>_. []) (Some 5) None None :: llm_client callable res) = Inr (cost_budget_evaluate (\<lambda>_. []) (Some 5) []
      \<lparr>em_expensive_tokens = [], em_exclude_tokens = [], em_hard_cap_enabled = True, em_block_all_models = True\<rparr>)"
    by (simp add: cost_budget_def budget_thresholds_def or_empty_def ex_cfg)
  then have policies: "\<exists>ps. instantiate_policies (ex_gate_env rows) [ex_budget_spec, ask_on_add_policy_spec] = Inr ps"
    by (simp add: instantiate_policy_def ex_gate_env_def ex_builder_env_def ask_on_add_policy_spec_def)
  have page: "be_list_page (ex_gate_env rows) = one_page rows" by (simp add: ex_gate_env_def)
  show ?thesis
    unfolding build_policy_engine_def ex_gate_specs Let_def prod.case sum.case page seed option.case if_not_P [OF path]
    using policies by (auto simp: resolve_server_llm_connection_def split: prod.split)
qed

theorem reported_spend_is_gated_witness:
  "\<exists>w' eng st ch. persist_external_session_usage ex_paging ''d'' ''t'' ex_data (ex_world ex_rows) = Some (Inr None, w') \<and>
     ex_gate_build (uw_convs w') = Some (Inr eng, st, ch) \<and>
     r_action (projr (fst (evaluate_composed ''d'' (evaluate_function (\<lambda>_. [])) True ex_tool_call eng))) = DENY"
proof -
  obtain w' where w': "persist_external_session_usage ex_paging ''d'' ''t'' ex_data (ex_world ex_rows) = Some (Inr None, w')"
    and ids: "map co_id (uw_convs w') = [''s'', ''t'']" "map co_root (uw_convs w') = [''s'', ''s'']" "map co_parent (uw_convs w') = [None, Some ''s'']"
    and gates: "map gate_cost (uw_convs w') = [3, 6]" by (rule ex_posted)
  obtain cs ct where rows: "uw_convs w' = [cs, ct]" using ids(1) by (auto simp: map_eq_Cons_conv)
  have parts: "co_id cs = ''s''" "co_id ct = ''t''" "co_root cs = ''s''" "co_root ct = ''s''" "co_parent cs = None" "co_parent ct = Some ''s''"
    "gate_cost cs = 3" "gate_cost ct = 6" using ids gates by (simp_all add: rows)
  have get: "get_conversation [cs, ct] ''t'' = Some ct" "get_conversation [cs, ct] (co_root ct) = Some cs"
    using parts by (simp_all add: get_conversation_def)
  have "(''s'', ''t'') \<in> child_rel [cs, ct]" using parts by (simp add: child_rel_def children_of_def)
  then have reach: "\<forall>c \<in> set [cs, ct]. (co_root ct, co_id c) \<in> (child_rel [cs, ct])\<^sup>*" using parts by auto
  obtain eng st ch where built: "ex_gate_build [cs, ct] = Some (Inr eng, st, ch)" using ex_gate_built [OF _ get] parts by auto
  obtain r where r: "fst (evaluate_composed ''d'' (evaluate_function (\<lambda>_. [])) True ex_tool_call eng) = Inr r"
    using read_only_answers by blast
  have report: "read_report ex_data = Inr (Some (ex_report 6 \<lparr>nr_cost := Some 4\<rparr>))" by code_simp
  have "r_action r = DENY"
  proof (rule reported_spend_is_gated [where spent = 6 and limit = 5 and rows = "[cs, ct]" and n = 100 and models = None and ask_thresholds = None
        and spec = "fst ex_budget_spec" and fref = "snd ex_budget_spec", OF w' report, unfolded rows, OF _ _ _ _ get _ _ _ reach _ built ex_gate_specs _ _ _ ex_cfg _ _ r])
    show "be_resolve (ex_gate_env [cs, ct]) (snd ex_budget_spec) = cost_budget (\<lambda>_. []) (Some 5) None None"
      by (simp add: ex_gate_env_def ex_builder_env_def)
    show "paged 100 [cs, ct] (be_list_page (ex_gate_env [cs, ct]) (co_root ct))" using parts by (simp add: ex_gate_env_def one_page_paged)
  qed (use parts in \<open>auto simp: ex_report_def unconditional_def unrestricted_spec_def ex_tool_call_def model_blocked_over_budget_def\<close>)
  then show ?thesis using w' built r rows by (intro exI [of _ w'] exI [of _ eng] exI [of _ st] exI [of _ ch]) simp
qed

end
