(* ===== verification/Shell_Commands.thy ===== *)
theory Shell_Commands
  imports Function_Policy "HOL-Library.Char_ord" "HOL-Library.List_Lexorder"
begin

text \<open>
  Reading shell commands for policies, \<^verbatim>\<open>codify/policies/builtins/_shell.py\<close>, and the policy that keeps an
  agent in its working directory, \<^verbatim>\<open>codify/policies/builtins/working_dir.py\<close>: command substitutions, the
  operators that chain commands, the words of a command (\<open>shlex.split\<close>), wrappers before the command,
  interpreters with a command string, and lexical normalisation of paths (\<open>os.path.normpath\<close>).
\<close>

section \<open>Command substitutions\<close>

fun scan_parens :: "nat \<Rightarrow> string \<Rightarrow> string \<times> string" where
  \<comment> \<open>the body up to the parenthesis that closes \<open>d\<close> open ones, and what follows it\<close>
  "scan_parens d [] = ([], [])"
| "scan_parens d (c # cs) =
     (if c = CHR '')'' \<and> d \<le> 1 then ([], cs)
      else let d' = (if c = CHR ''('' then d + 1 else if c = CHR '')'' then d - 1 else d); (body, rest) = scan_parens d' cs
           in (c # body, rest))"

fun scan_backtick :: "string \<Rightarrow> (string \<times> string) option" where
  "scan_backtick [] = None"
| "scan_backtick (c # cs) = (if c = CHR 0x60 then Some ([], cs) else map_option (\<lambda>(body, rest). (c # body, rest)) (scan_backtick cs))"

lemma scan_parens_length: "scan_parens d cs = (body, rest) \<Longrightarrow> length body + length rest \<le> length cs"
  by (induction d cs arbitrary: body rest rule: scan_parens.induct) (auto simp: Let_def split: if_splits prod.splits)

lemma scan_backtick_length: "scan_backtick cs = Some (body, rest) \<Longrightarrow> length body + length rest < length cs"
  by (induction cs arbitrary: body rest) (auto split: if_splits)

function extract_command_substitutions :: "string \<Rightarrow> string \<times> string list" where
  "extract_command_substitutions [] = ([], [])"
| "extract_command_substitutions (c # cs) =
     (if c = CHR ''$'' \<and> starts_with cs ''('' then
        let (body, rest) = scan_parens 1 (tl cs); (outer, bodies) = extract_command_substitutions rest in (CHR '' '' # outer, body # bodies)
      else case (if c = CHR 0x60 then scan_backtick cs else None) of
             Some (body, rest) \<Rightarrow> let (outer, bodies) = extract_command_substitutions rest in (CHR '' '' # outer, body # bodies)
           | None \<Rightarrow> let (outer, bodies) = extract_command_substitutions cs in (c # outer, bodies))"
  by pat_completeness auto
termination
  by (relation "measure length") (auto split: if_splits dest!: scan_backtick_length scan_parens_length [OF sym])

lemma extract_bodies_shorter: "body \<in> set (snd (extract_command_substitutions cmd)) \<Longrightarrow> length body < length cmd"
proof (induction cmd rule: extract_command_substitutions.induct)
  case (2 c cs)
  show ?case
  proof (cases "c = CHR ''$'' \<and> starts_with cs ''(''")
    case True
    obtain b rest where scan: "scan_parens 1 (tl cs) = (b, rest)" by fastforce
    have "body = b \<or> body \<in> set (snd (extract_command_substitutions rest))" using 2(4) True scan by (auto simp: split_beta)
    then show ?thesis using scan_parens_length [OF scan] 2(1) [OF True scan [symmetric] refl] by (cases cs) auto
  next
    case False
    show ?thesis
    proof (cases "if c = CHR 0x60 then scan_backtick cs else None")
      case None
      then have "body \<in> set (snd (extract_command_substitutions cs))" using 2(4) False by (auto simp: split_beta)
      then show ?thesis using 2(2) [OF False None] by simp
    next
      case (Some p)
      obtain b rest where p: "p = (b, rest)" by fastforce
      have scan: "scan_backtick cs = Some (b, rest)" using Some p by (auto split: if_splits)
      have "body = b \<or> body \<in> set (snd (extract_command_substitutions rest))" using 2(4) False Some p by (auto simp: split_beta)
      then show ?thesis using scan_backtick_length [OF scan] 2(3) [OF False Some p [symmetric]] by auto
    qed
  qed
qed simp

section \<open>Chained commands\<close>

fun split_operators :: "string \<Rightarrow> string list" where
  \<comment> \<open>\<open>re.split(r"&&|\|\||[;|\n&]", outer)\<close>\<close>
  "split_operators [] = [[]]"
| "split_operators (c # cs) =
     (if (c = CHR ''&'' \<or> c = CHR ''|'') \<and> starts_with cs [c] then [] # split_operators (tl cs)
      else if c \<in> {CHR '';'', CHR ''|'', CHR ''&'', CHR 0x0A} then [] # split_operators cs
      else case split_operators cs of [] \<Rightarrow> [[c]] | w # ws \<Rightarrow> (c # w) # ws)"

function split_command_segments :: "string \<Rightarrow> string list" where
  "split_command_segments cmd =
     (let (outer, bodies) = extract_command_substitutions cmd
      in filter (\<lambda>seg. seg \<noteq> []) (map strip (split_operators outer)) @ concat (map split_command_segments bodies))"
  by pat_completeness auto
termination
  by (relation "measure length") (auto intro: extract_bodies_shorter simp: prod_eq_iff)

declare split_command_segments.simps [simp del]

section \<open>Words\<close>

datatype lex_state = Blank | Word | Quoted char | Escape "char option"

definition emit :: "string \<Rightarrow> bool \<Rightarrow> string list" where
  "emit tok quoted = (if tok \<noteq> [] \<or> quoted then [tok] else [])"

definition lex_space :: "char \<Rightarrow> bool" where
  "lex_space c \<longleftrightarrow> c \<in> {CHR '' '', CHR 0x09, CHR 0x0D, CHR 0x0A}"

definition quote_char :: "char \<Rightarrow> bool" where
  "quote_char c \<longleftrightarrow> c \<in> {CHR 0x27, CHR 0x22}"

fun lex :: "lex_state \<Rightarrow> string \<Rightarrow> bool \<Rightarrow> string \<Rightarrow> string list res" where
  \<comment> \<open>the state, the word read so far and whether it has a quoted part; \<open>Escape\<close> remembers the quotes it is in\<close>
  "lex Blank tok quoted [] = Inr (emit tok quoted)"
| "lex Blank tok quoted (c # cs) =
     (if lex_space c then lex Blank tok quoted cs
      else if c = CHR 0x5C then lex (Escape None) tok quoted cs
      else if quote_char c then lex (Quoted c) tok True cs
      else lex Word [c] quoted cs)"
| "lex Word tok quoted [] = Inr (emit tok quoted)"
| "lex Word tok quoted (c # cs) =
     (if lex_space c then bindR (lex Blank [] False cs) (\<lambda>ws. Inr (emit tok quoted @ ws))
      else if quote_char c then lex (Quoted c) tok True cs
      else if c = CHR 0x5C then lex (Escape None) tok quoted cs
      else lex Word (tok @ [c]) quoted cs)"
| "lex (Quoted d) tok quoted [] = Inl (ValueError ''No closing quotation'')"
| "lex (Quoted d) tok quoted (c # cs) =
     (if c = d then lex Word tok True cs
      else if c = CHR 0x5C \<and> d = CHR 0x22 then lex (Escape (Some d)) tok True cs
      else lex (Quoted d) (tok @ [c]) True cs)"
| "lex (Escape d) tok quoted [] = Inl (ValueError ''No escaped character'')"
| "lex (Escape d) tok quoted (c # cs) =
     (case d of
        None \<Rightarrow> lex Word (tok @ [c]) quoted cs
      | Some q \<Rightarrow> lex (Quoted q) (if c \<noteq> CHR 0x5C \<and> c \<noteq> q then tok @ [CHR 0x5C, c] else tok @ [c]) quoted cs)"

definition shlex_split :: "string \<Rightarrow> string list res" where
  "shlex_split s = lex Blank [] False s"

section \<open>Wrappers and interpreters\<close>

definition cmd_wrappers :: "string list" where
  "cmd_wrappers = [''sudo'', ''env'', ''command'', ''time'', ''nohup'', ''exec'']"

definition flag_wrappers :: "(string, string list) pydict" where
  "flag_wrappers =
     [(''timeout'', [''-s'', ''--signal'', ''-k'', ''--kill-after'']), (''nice'', [''-n'', ''--adjustment'']),
      (''stdbuf'', [''-i'', ''--input'', ''-o'', ''--output'', ''-e'', ''--error'']), (''setsid'', [])]"

definition duration_wrappers :: "string list" where "duration_wrappers = [''timeout'']"

definition shell_interpreters :: "string list" where
  "shell_interpreters = [''sh'', ''bash'', ''zsh'', ''dash'', ''ksh'']"

definition max_shell_nesting :: nat where "max_shell_nesting = 4"

definition ascii_letter :: "char \<Rightarrow> bool" where
  "ascii_letter c = (let n = of_char c :: nat in (65 \<le> n \<and> n \<le> 90) \<or> (97 \<le> n \<and> n \<le> 122))"

definition env_assignment :: "string \<Rightarrow> bool" where
  \<comment> \<open>\<open>re.fullmatch(r"[A-Za-z_][A-Za-z0-9_]*=.*", token)\<close>\<close>
  "env_assignment t =
     (let name = takeWhile (\<lambda>c. c \<noteq> CHR ''='') t; rest = dropWhile (\<lambda>c. c \<noteq> CHR ''='') t
      in rest \<noteq> [] \<and> name \<noteq> [] \<and> (ascii_letter (hd name) \<or> hd name = CHR ''_'') \<and>
         list_all (\<lambda>c. ascii_letter c \<or> is_digit c \<or> c = CHR ''_'') name \<and> list_all (\<lambda>c. c \<noteq> CHR 0x0A) (tl rest))"

fun skip_flags :: "string list \<Rightarrow> string list \<Rightarrow> string list" where
  \<comment> \<open>the options of a wrapper, with the values of those that take one\<close>
  "skip_flags value_flags [] = []"
| "skip_flags value_flags (t # ts) =
     (if \<not> starts_with t ''-'' then t # ts
      else if t \<in> set value_flags then (case ts of [] \<Rightarrow> [] | _ # ts' \<Rightarrow> skip_flags value_flags ts')
      else skip_flags value_flags ts)"

lemma skip_flags_length: "length (skip_flags vf ts) \<le> length ts"
proof (induction vf ts rule: skip_flags.induct)
  case (2 vf t ts)
  then show ?case unfolding skip_flags.simps(2) by (auto simp del: skip_flags.simps split: list.split intro: le_SucI)
qed simp

definition skip_flag_wrapper_args :: "string list \<Rightarrow> bool \<Rightarrow> string list \<Rightarrow> string list" where
  "skip_flag_wrapper_args value_flags has_duration ts =
     (if has_duration then drop 1 (skip_flags value_flags ts) else skip_flags value_flags ts)"

lemma skip_flag_wrapper_args_length: "length (skip_flag_wrapper_args vf d ts) \<le> length ts"
  using skip_flags_length [of vf ts] by (auto simp: skip_flag_wrapper_args_def)

function real_invocation_tokens :: "string list \<Rightarrow> string list" where
  "real_invocation_tokens [] = []"
| "real_invocation_tokens (t # ts) =
     (if t \<in> set cmd_wrappers \<or> env_assignment t then real_invocation_tokens ts
      else case dget flag_wrappers t of
             Some value_flags \<Rightarrow> real_invocation_tokens (skip_flag_wrapper_args value_flags (t \<in> set duration_wrappers) ts)
           | None \<Rightarrow> t # ts)"
  by pat_completeness auto
termination
  by (relation "measure length") (simp_all add: skip_flag_wrapper_args_length le_imp_less_Suc)

definition basename :: "string \<Rightarrow> string" where
  \<comment> \<open>\<open>path.rsplit("/", 1)[-1]\<close>\<close>
  "basename p = rev (takeWhile (\<lambda>c. c \<noteq> CHR ''/'') (rev p))"

definition c_flag :: "string \<Rightarrow> bool" where
  \<comment> \<open>\<open>-[A-Za-z]*c[A-Za-z]*\<close>\<close>
  "c_flag t = (case t of [] \<Rightarrow> False | c # cs \<Rightarrow> c = CHR ''-'' \<and> list_all ascii_letter cs \<and> CHR ''c'' \<in> set cs)"

fun after_c_flag :: "string list \<Rightarrow> string option" where
  "after_c_flag (t # u # ts) = (if c_flag t then Some u else after_c_flag (u # ts))"
| "after_c_flag _ = None"

definition unwrap_shell_command :: "string list \<Rightarrow> string option" where
  "unwrap_shell_command ts =
     (let head = basename (hd ts)
      in if head \<in> set shell_interpreters then after_c_flag ts
         else if head = ''eval'' then (if length ts > 1 then Some (join '' '' (tl ts)) else None)
         else None)"

section \<open>Paths\<close>

fun norm_components :: "bool \<Rightarrow> string list \<Rightarrow> string list \<Rightarrow> string list" where
  \<comment> \<open>\<open>acc\<close> holds the components so far, the last one first\<close>
  "norm_components absolute acc [] = rev acc"
| "norm_components absolute acc (c # cs) =
     (if c = [] \<or> c = ''.'' then norm_components absolute acc cs
      else if c \<noteq> ''..'' \<or> (\<not> absolute \<and> acc = []) \<or> (acc \<noteq> [] \<and> hd acc = ''..'') then norm_components absolute (c # acc) cs
      else norm_components absolute (tl acc) cs)"

definition normpath :: "string \<Rightarrow> string" where
  "normpath p =
     (let slashes = (if starts_with p ''//'' \<and> \<not> starts_with p ''///'' then ''//'' else if starts_with p ''/'' then ''/'' else []);
          path = slashes @ join ''/'' (norm_components (slashes \<noteq> []) [] (split_on CHR ''/'' p))
      in if path = [] then ''.'' else path)"

definition normalize_dir :: "string \<Rightarrow> string" where
  "normalize_dir p = (let s = strip p in if s = [] then [] else normpath s)"

definition normalize_dirs :: "string list option \<Rightarrow> string list" where
  \<comment> \<open>a set, listed in the order of the values\<close>
  "normalize_dirs values = remdups (filter (\<lambda>d. d \<noteq> []) (map normalize_dir (case values of None \<Rightarrow> [] | Some vs \<Rightarrow> vs)))"

definition is_under_allowed :: "string \<Rightarrow> string list \<Rightarrow> bool" where
  "is_under_allowed target dirs =
     (let norm = normalize_dir target
      in norm \<noteq> [] \<and> list_ex (\<lambda>a. norm = a \<or> starts_with norm (a @ ''/'')) dirs)"

section \<open>Directory operations\<close>

definition cd_commands :: "string list" where "cd_commands = [''cd'', ''chdir'', ''pushd'', ''popd'']"

definition worktree_switch_subcmds :: "string list" where "worktree_switch_subcmds = [''add'', ''move'', ''remove'']"

definition git_value_opts :: "string list" where
  "git_value_opts = [''-C'', ''-c'', ''--git-dir'', ''--work-tree'', ''--namespace'', ''--config-env'']"

datatype op_kind = Cd | Worktree

record dir_op =
  op_kind :: op_kind
  op_target :: "string option"
  op_detail :: string

fun git_words :: "string list \<Rightarrow> string option \<Rightarrow> string option \<times> string list" where
  \<comment> \<open>the last \<open>-C\<close> path and the positional words\<close>
  "git_words [] c_path = (c_path, [])"
| "git_words (t # ts) c_path =
     (case ts of
        v # rest \<Rightarrow>
          if t \<in> set git_value_opts then git_words rest (if t = ''-C'' then Some v else c_path)
          else if starts_with t ''-'' then git_words ts c_path
          else (let (p, ws) = git_words ts c_path in (p, t # ws))
      | [] \<Rightarrow> if starts_with t ''-'' then (c_path, []) else (c_path, [t]))"

definition classify_git :: "string list \<Rightarrow> bool \<Rightarrow> bool \<Rightarrow> dir_op option" where
  "classify_git ts block_cd block_worktree =
     (let (c_path, words) = git_words (tl ts) None;
          action_word = (case words of _ # a # _ \<Rightarrow> a | _ \<Rightarrow> [])
      in if block_worktree \<and> words \<noteq> [] \<and> hd words = ''worktree'' \<and> action_word \<in> set worktree_switch_subcmds
         then Some \<lparr>op_kind = Worktree, op_target = None, op_detail = ''git worktree '' @ action_word\<rparr>
         else case c_path of
                Some p \<Rightarrow> if block_cd then Some \<lparr>op_kind = Cd, op_target = Some p, op_detail = ''git -C '' @ p\<rparr> else None
              | None \<Rightarrow> None)"

definition classify_cd :: "string list \<Rightarrow> dir_op" where
  "classify_cd ts =
     (let target = List.find (\<lambda>t. \<not> starts_with t ''-'') (tl ts)
      in \<lparr>op_kind = Cd, op_target = target,
          op_detail = (case target of None \<Rightarrow> hd ts | Some t \<Rightarrow> if t = [] then hd ts else hd ts @ '' '' @ t)\<rparr>)"

definition classify_segment :: "string list \<Rightarrow> bool \<Rightarrow> bool \<Rightarrow> dir_op option" where
  "classify_segment ts block_cd block_worktree =
     (let head = dropWhile (\<lambda>c. c = CHR ''('') (hd ts)
      in if head = ''git'' then classify_git (''git'' # tl ts) block_cd block_worktree
         else if block_cd \<and> head \<in> set cd_commands then Some (classify_cd (head # tl ts))
         else None)"

definition word_char :: "char \<Rightarrow> bool" where
  \<comment> \<open>\<open>\w\<close> on code points below 256\<close>
  "word_char c =
     (let n = of_char c :: nat
      in (48 \<le> n \<and> n \<le> 57) \<or> (65 \<le> n \<and> n \<le> 90) \<or> n = 95 \<or> (97 \<le> n \<and> n \<le> 122) \<or>
         n \<in> {170, 178, 179, 181, 185, 186, 188, 189, 190} \<or> (192 \<le> n \<and> n \<noteq> 215 \<and> n \<noteq> 247))"

definition found_at :: "(char \<Rightarrow> bool) \<Rightarrow> string \<Rightarrow> string \<Rightarrow> nat \<Rightarrow> bool" where
  \<comment> \<open>\<open>w\<close> is at \<open>i\<close>, no character before it is \<open>before\<close> and no word character follows\<close>
  "found_at before s w i \<longleftrightarrow>
     starts_with (drop i s) w \<and> (i = 0 \<or> \<not> before (s ! (i - 1))) \<and> (i + length w = length s \<or> \<not> word_char (s ! (i + length w)))"

definition has_word :: "(char \<Rightarrow> bool) \<Rightarrow> string \<Rightarrow> string \<Rightarrow> bool" where
  "has_word before s w = list_ex (\<lambda>i. i + length w \<le> length s \<and> found_at before s w i) [0..<Suc (length s)]"

definition looks_like_dir_op :: "string \<Rightarrow> bool \<Rightarrow> bool \<Rightarrow> bool" where
  "looks_like_dir_op seg block_cd block_worktree =
     (if block_cd \<and> list_ex (has_word word_char seg) cd_commands then True
      else has_word word_char seg ''git'' \<and>
           ((block_worktree \<and> has_word word_char seg ''worktree'') \<or> (block_cd \<and> has_word (\<lambda>c. \<not> py_space c) seg ''-C'')))"

section \<open>The policy\<close>

record dir_cfg =
  dc_block_cd :: bool
  dc_block_worktree :: bool
  dc_allowed :: "string list"
  dc_kind :: policy_action
  dc_tools :: "string list"

type_synonym violation = "policy_action \<times> string"

definition list_repr :: "string list \<Rightarrow> string" where
  "list_repr xs = ''['' @ join '', '' (map py_repr xs) @ '']''"

definition gate_op :: "dir_cfg \<Rightarrow> dir_op \<Rightarrow> violation option" where
  "gate_op cfg op =
     (if op_kind op = Worktree
      then Some (dc_kind cfg, ''Blocked: '' @ [CHR 0x27] @ op_detail op @ [CHR 0x27] @ '' switches git worktrees, which this policy forbids.'')
      else if dc_allowed cfg \<noteq> [] \<and> (case op_target op of None \<Rightarrow> False | Some t \<Rightarrow> is_under_allowed t (dc_allowed cfg)) then None
      else if dc_allowed cfg \<noteq> []
      then Some (dc_kind cfg, ''Blocked: '' @ [CHR 0x27] @ op_detail op @ [CHR 0x27] @ '' changes the working directory outside the allowed directories '' @
                   list_repr (sort (dc_allowed cfg)) @ ''.'')
      else Some (dc_kind cfg, ''Blocked: '' @ [CHR 0x27] @ op_detail op @ [CHR 0x27] @ '' changes the working directory, which this policy forbids.''))"

definition violation_rank :: "violation option \<Rightarrow> nat" where
  "violation_rank v = (case v of None \<Rightarrow> 1 | Some (a, _) \<Rightarrow> if a = DENY then 3 else if a = ASK then 2 else 1)"

definition worse :: "violation option \<Rightarrow> violation option \<Rightarrow> violation option" where
  "worse current candidate = (if violation_rank current < violation_rank candidate then candidate else current)"

definition gate_segment :: "dir_cfg \<Rightarrow> (string \<Rightarrow> violation option) \<Rightarrow> string \<Rightarrow> violation option" where
  \<comment> \<open>one segment of a command; \<open>inner\<close> evaluates a command string inside it\<close>
  "gate_segment cfg inner seg =
     (case shlex_split seg of
        Inl _ \<Rightarrow>
          if looks_like_dir_op seg (dc_block_cd cfg) (dc_block_worktree cfg)
          then Some (dc_kind cfg, ''Blocked: could not parse a shell command ('' @ py_repr (take 60 seg) @
                       '') that appears to switch directories or worktrees.'')
          else None
      | Inr words \<Rightarrow>
          (case real_invocation_tokens words of
             [] \<Rightarrow> None
           | t # ts \<Rightarrow>
               (case unwrap_shell_command (t # ts) of
                  Some cmd \<Rightarrow> inner cmd
                | None \<Rightarrow> Option.bind (classify_segment (t # ts) (dc_block_cd cfg) (dc_block_worktree cfg)) (gate_op cfg))))"

primrec evaluate_command :: "dir_cfg \<Rightarrow> nat \<Rightarrow> string \<Rightarrow> violation option" where
  \<comment> \<open>the number of levels of nesting left\<close>
  "evaluate_command cfg 0 = (\<lambda>cmd. None)"
| "evaluate_command cfg (Suc n) =
     (\<lambda>cmd. foldl (\<lambda>worst seg. worse worst (gate_segment cfg (evaluate_command cfg n) seg)) None (split_command_segments cmd))"

definition default_shell_tools :: "string list" where "default_shell_tools = [''sys_os_shell'', ''Bash'']"

definition make_dir_cfg :: "bool \<Rightarrow> bool \<Rightarrow> string list option \<Rightarrow> string \<Rightarrow> string list option \<Rightarrow> dir_cfg res" where
  "make_dir_cfg block_cd block_worktree allowed_dirs action shell_tools =
     (if action \<noteq> ''deny'' \<and> action \<noteq> ''ask'' then Inl (ValueError (''action must be 'deny' or 'ask', got '' @ py_repr action))
      else if \<not> block_cd \<and> \<not> block_worktree then Inl (ValueError ''block_working_dir_changes gates nothing'')
      else Inr \<lparr>dc_block_cd = block_cd, dc_block_worktree = block_worktree, dc_allowed = normalize_dirs allowed_dirs,
                dc_kind = (if action = ''deny'' then DENY else ASK),
                dc_tools = (case shell_tools of None \<Rightarrow> default_shell_tools | Some ts \<Rightarrow> ts)\<rparr>)"

definition dir_response :: "violation option \<Rightarrow> raw" where
  "dir_response v =
     (case v of
        None \<Rightarrow> RawNone
      | Some (a, reason) \<Rightarrow> RawDict [(''result'', PStr (if a = DENY then ''DENY'' else ''ASK'')), (''reason'', PStr reason)])"

definition dir_evaluate :: "dir_cfg \<Rightarrow> 'c callable" where
  "dir_evaluate cfg ev =
     (if ev_type ev \<noteq> ''tool_call'' then Inr RawNone
      else case ev_data ev of
        PDict data \<Rightarrow>
          (case dget data ''name'' of
             Some (PStr tool) \<Rightarrow>
               if tool \<notin> set (dc_tools cfg) then Inr RawNone
               else (case dget data ''arguments'' of
                       Some (PDict args) \<Rightarrow>
                         (case dget args ''command'' of
                            Some (PStr cmd) \<Rightarrow>
                              if strip cmd = [] then Inr RawNone
                              else Inr (dir_response (evaluate_command cfg (Suc max_shell_nesting) cmd))
                          | _ \<Rightarrow> Inr RawNone)
                     | _ \<Rightarrow> Inr RawNone)
           | Some (PList _) \<Rightarrow> Inl (TypeError ''unhashable type: list'')
           | Some (PDict _) \<Rightarrow> Inl (TypeError ''unhashable type: dict'')
           | _ \<Rightarrow> Inr RawNone)
      | _ \<Rightarrow> Inr RawNone)"

definition block_working_dir_changes :: "bool \<Rightarrow> bool \<Rightarrow> string list option \<Rightarrow> string \<Rightarrow> string list option \<Rightarrow> 'c callable res" where
  "block_working_dir_changes block_cd block_worktree allowed_dirs action shell_tools =
     bindR (make_dir_cfg block_cd block_worktree allowed_dirs action shell_tools) (\<lambda>cfg. Inr (dir_evaluate cfg))"

end
