(* ===== verification/Shell_Commands_Props.thy ===== *)
theory Shell_Commands_Props
  imports Shell_Commands Builtin_Safety_Props "HOL-Library.Sublist"
begin

text \<open>
  What the working-directory policy gates: a simple command is seen wherever it stands in a chain, through
  assignments, wrappers without options and one interpreter; an admitted directory lies lexically inside an
  allowed one. What it does not see: a command behind an option of a wrapper.
\<close>

section \<open>Substitutions around a command\<close>

definition op_char :: "char \<Rightarrow> bool" where
  \<comment> \<open>the characters that end a command\<close>
  "op_char c \<longleftrightarrow> c \<in> {CHR '';'', CHR ''|'', CHR ''&'', CHR 0x0A}"

definition opaque_char :: "char \<Rightarrow> bool" where
  \<comment> \<open>the characters that open or close a substitution\<close>
  "opaque_char c \<longleftrightarrow> c \<in> {CHR ''$'', CHR 0x60, CHR ''('', CHR '')''}"

definition unopened :: "string \<Rightarrow> bool" where
  "unopened m \<longleftrightarrow> m \<noteq> [] \<and> list_all (\<lambda>c. \<not> opaque_char c) m"

lemma scan_parens_plain:
  "list_all (\<lambda>c. \<not> opaque_char c) m \<Longrightarrow> scan_parens d (m @ q) = (let (body, rest) = scan_parens d q in (m @ body, rest))"
  by (induction m arbitrary: d) (auto simp: opaque_char_def Let_def split_beta)

lemma scan_parens_keeps:
  assumes "list_all (\<lambda>c. \<not> opaque_char c) m" and "scan_parens d (p @ m @ q) = (body, rest)"
  shows "(\<exists>p'. length p' < length p \<and> rest = p' @ m @ q) \<or> (\<exists>b. body = p @ m @ b \<and> (q = [] \<longrightarrow> b = []))"
  using assms(2)
proof (induction p arbitrary: d body)
  case Nil
  have "q = [] \<Longrightarrow> fst (scan_parens d q) = []" by simp
  then show ?case using Nil by (auto simp: scan_parens_plain [OF assms(1)] split_beta)
next
  case (Cons c p)
  show ?case
  proof (cases "c = CHR '')'' \<and> d \<le> 1")
    case True
    then show ?thesis using Cons.prems by auto
  next
    case False
    let ?d = "if c = CHR ''('' then d + 1 else if c = CHR '')'' then d - 1 else d"
    obtain body' where "scan_parens ?d (p @ m @ q) = (body', rest)" "body = c # body'"
      using Cons.prems False by (auto simp: Let_def split_beta prod_eq_iff)
    from Cons.IH [OF this(1)] this(2) show ?thesis by (auto intro: less_SucI)
  qed
qed

lemma scan_backtick_keeps:
  assumes "list_all (\<lambda>c. \<not> opaque_char c) m" and "scan_backtick (p @ m @ q) = Some (body, rest)"
  shows "(\<exists>p'. length p' < length p \<and> rest = p' @ m @ q) \<or> (\<exists>b. body = p @ m @ b \<and> (q = [] \<longrightarrow> b = []))"
  using assms(2)
proof (induction p arbitrary: body)
  case Nil
  have "scan_backtick (m @ q) = (case scan_backtick q of None \<Rightarrow> None | Some (b, r) \<Rightarrow> Some (m @ b, r))"
    using assms(1) by (induction m) (auto simp: opaque_char_def split: option.split)
  then obtain b r where "scan_backtick q = Some (b, r)" "body = m @ b" using Nil by (auto split: option.splits)
  then show ?case by auto
next
  case (Cons c p)
  show ?case
  proof (cases "c = CHR 0x60")
    case True
    then show ?thesis using Cons.prems by auto
  next
    case False
    then obtain body' where "scan_backtick (p @ m @ q) = Some (body', rest)" "body = c # body'" using Cons.prems by auto
    from Cons.IH [OF this(1)] this(2) show ?thesis by (auto intro: less_SucI)
  qed
qed

definition holds_chunk :: "string \<Rightarrow> bool \<Rightarrow> bool \<Rightarrow> string \<Rightarrow> bool" where
  \<comment> \<open>\<open>s\<close> contains \<open>m\<close>, at its start and at its end when asked for\<close>
  "holds_chunk m at_start at_end s \<longleftrightarrow> (\<exists>a b. s = a @ m @ b \<and> (at_start \<longrightarrow> a = []) \<and> (at_end \<longrightarrow> b = []))"

lemma holds_chunk_Cons: "holds_chunk m s e t \<Longrightarrow> holds_chunk m False e (x # t)"
  by (simp add: holds_chunk_def) (metis append_Cons)

lemma extract_plain:
  "list_all (\<lambda>c. \<not> opaque_char c) m \<Longrightarrow>
     extract_command_substitutions (m @ q) = (let (outer, bodies) = extract_command_substitutions q in (m @ outer, bodies))"
  by (induction m) (auto simp: opaque_char_def Let_def split_beta)

lemma extract_keeps:
  assumes "unopened m" and "extract_command_substitutions (p @ m @ q) = (outer, bodies)"
  shows "holds_chunk m (p = []) (q = []) outer \<or> (p \<noteq> [] \<and> (\<exists>body \<in> set bodies. holds_chunk m False (q = []) body))"
  using assms(2)
proof (induction "length p" arbitrary: p outer bodies rule: less_induct)
  case less
  note m = assms(1) [unfolded unopened_def]
  show ?case
  proof (cases p)
    case Nil
    then show ?thesis using less.prems m by (auto simp: extract_plain split_beta holds_chunk_def)
  next
    case (Cons c p')
    have rec: "holds_chunk m False (q = []) (x # outer') \<or> (\<exists>body \<in> set (bs @ bodies'). holds_chunk m False (q = []) body)"
      if shorter: "length p'' < length p" and run: "extract_command_substitutions (p'' @ m @ q) = (outer', bodies')" for p'' outer' bodies' x bs
      using less.hyps [OF shorter run] holds_chunk_Cons [of m _ _ outer' x] by auto
    consider (dollar) p2 where "c = CHR ''$''" "p' = CHR ''('' # p2"
      | (tick) body rest where "c = CHR 0x60" "scan_backtick (p' @ m @ q) = Some (body, rest)"
      | (other) "extract_command_substitutions (p @ m @ q) = (let (outer, bodies) = extract_command_substitutions (p' @ m @ q) in (c # outer, bodies))"
    proof (cases "c = CHR ''$'' \<and> starts_with (p' @ m @ q) ''(''")
      case True
      have "hd m \<noteq> CHR ''(''" using m by (cases m) (auto simp: opaque_char_def)
      then have "p' \<noteq> []" using True m by (cases m) (auto simp: starts_with_def)
      then show ?thesis using True by (cases p') (auto simp: starts_with_def intro: dollar)
    next
      case False
      show ?thesis
      proof (cases "if c = CHR 0x60 then scan_backtick (p' @ m @ q) else None")
        case None
        then show ?thesis using False Cons by (intro other) auto
      next
        case (Some r)
        then show ?thesis by (cases r) (auto split: if_splits intro: tick)
      qed
    qed
    then show ?thesis
    proof cases
      case dollar
      obtain body rest where scan: "scan_parens 1 (p2 @ m @ q) = (body, rest)" by fastforce
      obtain outer' bodies' where run: "extract_command_substitutions rest = (outer', bodies')" by fastforce
      have out: "outer = CHR '' '' # outer'" "bodies = body # bodies'"
        using less.prems Cons dollar scan run by (auto simp: starts_with_def)
      from scan_parens_keeps [OF conjunct2 [OF m] scan] consider p'' where "length p'' < length p2" "rest = p'' @ m @ q"
        | b where "body = p2 @ m @ b" "q = [] \<longrightarrow> b = []" by blast
      then show ?thesis
      proof cases
        case 1
        then show ?thesis using rec [of p'' outer' bodies' "CHR '' ''" "[body]"] run out Cons dollar by auto
      next
        case 2
        then have "holds_chunk m False (q = []) body" by (auto simp: holds_chunk_def)
        then show ?thesis using out Cons by simp
      qed
    next
      case tick
      obtain outer' bodies' where run: "extract_command_substitutions rest = (outer', bodies')" by fastforce
      have out: "outer = CHR '' '' # outer'" "bodies = body # bodies'" using less.prems Cons tick run by auto
      from scan_backtick_keeps [OF conjunct2 [OF m] tick(2)] consider p'' where "length p'' < length p'" "rest = p'' @ m @ q"
        | b where "body = p' @ m @ b" "q = [] \<longrightarrow> b = []" by blast
      then show ?thesis
      proof cases
        case 1
        then show ?thesis using rec [of p'' outer' bodies' "CHR '' ''" "[body]"] run out Cons by auto
      next
        case 2
        then have "holds_chunk m False (q = []) body" by (auto simp: holds_chunk_def)
        then show ?thesis using out Cons by simp
      qed
    next
      case other
      obtain outer' bodies' where run: "extract_command_substitutions (p' @ m @ q) = (outer', bodies')" by fastforce
      then have "outer = c # outer'" "bodies = bodies'" using less.prems other by simp_all
      then show ?thesis using rec [OF _ run, of c "[]"] Cons by auto
    qed
  qed
qed

section \<open>Operators around a command\<close>

lemma split_operators_not_empty: "split_operators s \<noteq> []"
  by (induction s rule: split_operators.induct) (auto split: list.split)

lemma split_operators_after:
  assumes "op_char o1" and "x = [] \<or> hd x \<noteq> o1"
  shows "\<exists>ws. split_operators (a @ o1 # x) = ws @ split_operators x \<and> ws \<noteq> []"
  using assms
proof (induction a rule: split_operators.induct)
  case 1
  then show ?case by (cases x) (auto simp: op_char_def starts_with_def)
next
  case (2 c cs)
  show ?case
  proof (cases "(c = CHR ''&'' \<or> c = CHR ''|'') \<and> starts_with (cs @ o1 # x) [c]")
    case True
    show ?thesis
    proof (cases cs)
      case Nil
      then show ?thesis using True by (auto simp: starts_with_def)
    next
      case (Cons d ds)
      then have "starts_with cs [c]" using True by (simp add: starts_with_def)
      then obtain ws where "split_operators (tl cs @ o1 # x) = ws @ split_operators x" using 2 True by blast
      then show ?thesis using True Cons by (auto intro!: exI [of _ "[] # ws"])
    qed
  next
    case False
    then have not_pair: "\<not> ((c = CHR ''&'' \<or> c = CHR ''|'') \<and> starts_with cs [c])" by (cases cs) (auto simp: starts_with_def)
    show ?thesis
    proof (cases "c \<in> {CHR '';'', CHR ''|'', CHR ''&'', CHR 0x0A}")
      case True
      obtain ws where "split_operators (cs @ o1 # x) = ws @ split_operators x" using 2(2) [OF not_pair True] 2(4,5) by blast
      then show ?thesis using True False by (auto intro!: exI [of _ "[] # ws"])
    next
      case other: False
      obtain ws where "split_operators (cs @ o1 # x) = ws @ split_operators x" "ws \<noteq> []" using 2(3) [OF not_pair other] 2(4,5) by blast
      then show ?thesis using other False by (cases ws) (auto intro: exI)
    qed
  qed
qed

lemma split_operators_plain:
  "list_all (\<lambda>c. \<not> op_char c) seg \<Longrightarrow> split_operators seg = [seg]"
  "list_all (\<lambda>c. \<not> op_char c) seg \<Longrightarrow> op_char o2 \<Longrightarrow> \<exists>ws. split_operators (seg @ o2 # b) = seg # ws"
proof (induction seg)
  case (Cons c seg)
  {
    case 1
    then show ?case using Cons by (auto simp: op_char_def)
  next
    case 2
    then obtain ws where "split_operators (seg @ o2 # b) = seg # ws" using Cons by auto
    then show ?case using 2 by (auto simp: op_char_def)
  }
next
  case Nil
  {
    case 2
    then show ?case by (auto simp: op_char_def)
  }
qed simp

definition simple_segment :: "string \<Rightarrow> bool" where
  "simple_segment seg \<longleftrightarrow> list_all (\<lambda>c. \<not> op_char c \<and> \<not> opaque_char c) seg \<and> strip seg \<noteq> []"

definition chained :: "string \<Rightarrow> string \<Rightarrow> string \<Rightarrow> string \<Rightarrow> bool" where
  \<comment> \<open>the command \<open>s\<close> has \<open>seg\<close> between operators, or at an end; \<open>p\<close> and \<open>q\<close> are what stands before and after\<close>
  "chained p seg q s \<longleftrightarrow>
     (\<exists>s1 s2. s = p @ s1 @ seg @ s2 @ q \<and> (s1 = [] \<and> p = [] \<or> (\<exists>o1. op_char o1 \<and> s1 = [o1])) \<and>
              (s2 = [] \<and> q = [] \<or> (\<exists>o2. op_char o2 \<and> s2 = [o2])))"

lemma split_operators_finds:
  assumes "simple_segment seg" and "chained a seg b outer"
  shows "seg \<in> set (split_operators outer)"
proof -
  obtain s1 s2 where outer: "outer = a @ s1 @ seg @ s2 @ b" and s1: "s1 = [] \<and> a = [] \<or> (\<exists>o1. op_char o1 \<and> s1 = [o1])"
    and s2: "s2 = [] \<and> b = [] \<or> (\<exists>o2. op_char o2 \<and> s2 = [o2])" using assms(2) by (auto simp: chained_def)
  have plain: "list_all (\<lambda>c. \<not> op_char c) seg" and some: "seg \<noteq> []"
    using assms(1) by (auto simp: simple_segment_def list_all_iff strip_def rstrip_def lstrip_def)
  have right: "seg \<in> set (split_operators (seg @ s2 @ b))"
    using s2
  proof
    assume "\<exists>o2. op_char o2 \<and> s2 = [o2]"
    then obtain o2 where "op_char o2" "s2 = [o2]" by blast
    then show ?thesis using split_operators_plain(2) [OF plain, of o2 b] by auto
  qed (simp add: split_operators_plain(1) [OF plain])
  show ?thesis
  proof (cases "s1 = []")
    case True
    then show ?thesis using s1 right outer by auto
  next
    case False
    then obtain o1 where o1: "op_char o1" "s1 = [o1]" using s1 by auto
    have "hd (seg @ s2 @ b) \<noteq> o1" using plain some o1(1) by (cases seg) auto
    then obtain ws where "split_operators (a @ o1 # seg @ s2 @ b) = ws @ split_operators (seg @ s2 @ b)"
      using split_operators_after [OF o1(1), of "seg @ s2 @ b" a] by auto
    then show ?thesis using outer o1(2) right by simp
  qed
qed

lemma chained_segment_found:
  assumes "simple_segment seg" and "chained p seg q cmd"
  shows "strip seg \<in> set (split_command_segments cmd)"
  using assms(2)
proof (induction cmd arbitrary: p q rule: split_command_segments.induct)
  case (1 cmd)
  obtain s1 s2 where cmd: "cmd = p @ (s1 @ seg @ s2) @ q" and s1: "s1 = [] \<and> p = [] \<or> (\<exists>o1. op_char o1 \<and> s1 = [o1])"
    and s2: "s2 = [] \<and> q = [] \<or> (\<exists>o2. op_char o2 \<and> s2 = [o2])" using 1(2) by (auto simp: chained_def)
  have seg: "seg \<noteq> []" "list_all (\<lambda>c. \<not> opaque_char c) seg" "strip seg \<noteq> []"
    using assms(1) by (auto simp: simple_segment_def list_all_iff strip_def rstrip_def lstrip_def)
  have "op_char c \<Longrightarrow> \<not> opaque_char c" for c by (auto simp: op_char_def opaque_char_def)
  then have m: "unopened (s1 @ seg @ s2)" using seg(1,2) s1 s2 by (auto simp: unopened_def)
  obtain outer bodies where ex: "extract_command_substitutions cmd = (outer, bodies)" by fastforce
  have again: "\<exists>a b. chained a seg b s" if chunk: "holds_chunk (s1 @ seg @ s2) st en s" "p = [] \<longrightarrow> st" "q = [] \<longrightarrow> en" for s st en
  proof -
    obtain a b where "s = a @ (s1 @ seg @ s2) @ b" "st \<longrightarrow> a = []" "en \<longrightarrow> b = []" using chunk(1) by (auto simp: holds_chunk_def)
    then have "chained a seg b s" using s1 s2 chunk(2,3) by (auto simp: chained_def)
    then show ?thesis by blast
  qed
  consider "holds_chunk (s1 @ seg @ s2) (p = []) (q = []) outer"
    | body where "body \<in> set bodies" "holds_chunk (s1 @ seg @ s2) False (q = []) body" "p \<noteq> []"
    using extract_keeps [OF m ex [unfolded cmd]] by blast
  then show ?case
  proof cases
    case 1
    then obtain a b where "chained a seg b outer" using again by blast
    then have "seg \<in> set (split_operators outer)" by (rule split_operators_finds [OF assms(1)])
    then show ?thesis using seg(3) ex by (auto simp: split_command_segments.simps [of cmd])
  next
    case 2
    then obtain a b where "chained a seg b body" using again by blast
    then have "strip seg \<in> set (split_command_segments body)" using 1(1) [OF refl ex [symmetric] 2(1)] by blast
    then show ?thesis using ex 2(1) by (auto simp: split_command_segments.simps [of cmd])
  qed
qed

section \<open>Commands inside substitutions\<close>

fun unopening :: "string \<Rightarrow> bool" where
  \<comment> \<open>text in which no substitution opens\<close>
  "unopening [] \<longleftrightarrow> True"
| "unopening (c # cs) \<longleftrightarrow> c \<noteq> CHR 0x60 \<and> \<not> (c = CHR ''$'' \<and> starts_with cs ''('') \<and> unopening cs"

fun balanced :: "nat \<Rightarrow> string \<Rightarrow> bool" where
  \<comment> \<open>the parentheses match when \<open>d\<close> of them are open\<close>
  "balanced d [] \<longleftrightarrow> d = 0"
| "balanced d (c # cs) \<longleftrightarrow>
     (if c = CHR ''('' then balanced (d + 1) cs else if c = CHR '')'' then 0 < d \<and> balanced (d - 1) cs else balanced d cs)"

inductive substituted :: "string \<Rightarrow> string \<Rightarrow> bool" where
  \<comment> \<open>the command has the body in \<open>$(...)\<close> or in backticks, possibly after other substitutions\<close>
  dollar: "unopening a \<Longrightarrow> balanced 0 body \<Longrightarrow> substituted body (a @ ''$('' @ body @ '')'' @ rest)"
| tick: "unopening a \<Longrightarrow> CHR 0x60 \<notin> set body \<Longrightarrow> substituted body (a @ [CHR 0x60] @ body @ [CHR 0x60] @ rest)"
| after_dollar: "unopening a \<Longrightarrow> balanced 0 b \<Longrightarrow> substituted body rest \<Longrightarrow> substituted body (a @ ''$('' @ b @ '')'' @ rest)"
| after_tick: "unopening a \<Longrightarrow> CHR 0x60 \<notin> set b \<Longrightarrow> substituted body rest \<Longrightarrow> substituted body (a @ [CHR 0x60] @ b @ [CHR 0x60] @ rest)"

inductive has_command :: "string \<Rightarrow> string \<Rightarrow> bool" for seg where
  \<comment> \<open>the command has the simple command in a chain or, at any depth, in a substitution\<close>
  chain: "chained p seg q cmd \<Longrightarrow> has_command seg cmd"
| substitution: "substituted body cmd \<Longrightarrow> has_command seg body \<Longrightarrow> has_command seg cmd"

lemma scan_parens_balanced: "balanced d body \<Longrightarrow> scan_parens (Suc d) (body @ CHR '')'' # rest) = (body, rest)"
  by (induction d body rule: balanced.induct) (auto simp: Let_def split: if_splits)

lemma scan_backtick_body: "CHR 0x60 \<notin> set body \<Longrightarrow> scan_backtick (body @ CHR 0x60 # rest) = Some (body, rest)"
  by (induction body) auto

lemma extract_unopening:
  assumes "unopening a" and "\<not> starts_with q ''(''"
  shows "snd (extract_command_substitutions (a @ q)) = snd (extract_command_substitutions q)"
  using assms(1)
proof (induction a)
  case (Cons c a)
  then have "\<not> (c = CHR ''$'' \<and> starts_with (a @ q) ''('')" using assms(2) by (cases a) (auto simp: starts_with_def)
  with Cons show ?case by (auto simp: split_beta)
qed simp

lemma extract_dollar:
  "unopening a \<Longrightarrow> balanced 0 b \<Longrightarrow>
    snd (extract_command_substitutions (a @ ''$('' @ b @ '')'' @ rest)) = b # snd (extract_command_substitutions rest)"
  using extract_unopening [of a "''$('' @ b @ '')'' @ rest"] scan_parens_balanced [of 0 b rest]
  by (simp add: starts_with_def split_beta)

lemma extract_tick:
  "unopening a \<Longrightarrow> CHR 0x60 \<notin> set b \<Longrightarrow>
    snd (extract_command_substitutions (a @ [CHR 0x60] @ b @ [CHR 0x60] @ rest)) = b # snd (extract_command_substitutions rest)"
  using extract_unopening [of a "[CHR 0x60] @ b @ [CHR 0x60] @ rest"] scan_backtick_body [of b rest]
  by (simp add: starts_with_def split_beta)

lemma substituted_extracted: "substituted body cmd \<Longrightarrow> body \<in> set (snd (extract_command_substitutions cmd))"
  by (induction rule: substituted.induct) (simp_all only: extract_dollar extract_tick list.set insert_iff simp_thms)

lemma command_segment_found:
  assumes "simple_segment seg" and "has_command seg cmd"
  shows "strip seg \<in> set (split_command_segments cmd)"
  using assms(2)
proof induction
  case (substitution body cmd)
  have "body \<in> set (snd (extract_command_substitutions cmd))" by (rule substituted_extracted [OF substitution.hyps(1)])
  then show ?case using substitution.IH by (subst split_command_segments.simps) (auto simp: split_beta)
qed (rule chained_segment_found [OF assms(1)])

section \<open>Plain words\<close>

definition plain_word :: "string \<Rightarrow> bool" where
  \<comment> \<open>a word the shell takes as it is written\<close>
  "plain_word w \<longleftrightarrow> w \<noteq> [] \<and>
     list_all (\<lambda>c. \<not> lex_space c \<and> \<not> py_space c \<and> \<not> quote_char c \<and> c \<noteq> CHR 0x5C \<and> \<not> op_char c \<and> \<not> opaque_char c) w"

lemma lex_plain_word:
  "list_all (\<lambda>c. \<not> lex_space c \<and> \<not> quote_char c \<and> c \<noteq> CHR 0x5C) w \<Longrightarrow> lex Word tok q (w @ s) = lex Word (tok @ w) q s"
  by (induction w arbitrary: tok) auto

lemma plain_word_lex: "plain_word w \<Longrightarrow> list_all (\<lambda>c. \<not> lex_space c \<and> \<not> quote_char c \<and> c \<noteq> CHR 0x5C) w"
  by (auto simp: plain_word_def list_all_iff)

lemma lex_blank_word: "plain_word w \<Longrightarrow> lex Blank [] False (w @ s) = lex Word w False s"
proof (cases w)
  case (Cons c cs)
  assume "plain_word w"
  then show ?thesis using plain_word_lex [of w] lex_plain_word [of cs "[c]" False s] Cons by auto
qed (simp add: plain_word_def)

lemma shlex_split_join: "list_all plain_word ws \<Longrightarrow> shlex_split (join '' '' ws) = Inr ws"
  unfolding shlex_split_def
proof (induction "'' ''" ws rule: join.induct)
  case (2 w)
  then show ?case using lex_blank_word [of w "[]"] by (simp add: emit_def plain_word_def)
next
  case (3 w v ws)
  then have rest: "lex Blank [] False (join '' '' (v # ws)) = Inr (v # ws)" by simp
  have "lex Blank [] False (join '' '' (w # v # ws)) = lex Word w False ('' '' @ join '' '' (v # ws))"
    using lex_blank_word [of w "'' '' @ join '' '' (v # ws)"] 3 by simp
  then show ?case using rest 3(2) by (simp add: lex_space_def emit_def plain_word_def)
qed (simp add: emit_def)

section \<open>Gated commands\<close>

definition prefix_word :: "string \<Rightarrow> bool" where
  \<comment> \<open>a word that may stand before a command: a wrapper without options or an assignment\<close>
  "prefix_word w \<longleftrightarrow> plain_word w \<and> (w \<in> set cmd_wrappers \<or> env_assignment w)"

inductive options :: "string list \<Rightarrow> string list \<Rightarrow> bool" for value_flags where
  \<comment> \<open>options of a wrapper, each with its value when it takes one\<close>
  "options value_flags []"
| "plain_word f \<Longrightarrow> starts_with f ''-'' \<Longrightarrow> f \<notin> set value_flags \<Longrightarrow> options value_flags os \<Longrightarrow> options value_flags (f # os)"
| "f \<in> set value_flags \<Longrightarrow> plain_word f \<Longrightarrow> starts_with f ''-'' \<Longrightarrow> plain_word v \<Longrightarrow> options value_flags os \<Longrightarrow> options value_flags (f # v # os)"

inductive prefixed :: "string list \<Rightarrow> bool" where
  \<comment> \<open>what may stand before a command: assignments, \<open>sudo\<close> and its like without options, \<open>nice\<close> and its like with
     their options, \<open>timeout\<close> with options and a duration\<close>
  "prefixed []"
| word: "prefix_word w \<Longrightarrow> prefixed ws \<Longrightarrow> prefixed (w # ws)"
| flags: "dget flag_wrappers w = Some vf \<Longrightarrow> w \<notin> set duration_wrappers \<Longrightarrow> options vf os \<Longrightarrow> prefixed ws \<Longrightarrow> prefixed (w # os @ ws)"
| duration: "dget flag_wrappers w = Some vf \<Longrightarrow> w \<in> set duration_wrappers \<Longrightarrow> options vf os \<Longrightarrow> plain_word d \<Longrightarrow> \<not> starts_with d ''-'' \<Longrightarrow>
    prefixed ws \<Longrightarrow> prefixed (w # os @ d # ws)"

lemma flag_wrapper_word:
  assumes "dget flag_wrappers w = Some vf"
  shows "plain_word w \<and> w \<notin> set cmd_wrappers \<and> \<not> env_assignment w \<and> \<not> starts_with w ''-''"
proof -
  have "list_all (\<lambda>w. plain_word w \<and> w \<notin> set cmd_wrappers \<and> \<not> env_assignment w \<and> \<not> starts_with w ''-'') (map fst flag_wrappers)"
    by code_simp
  moreover have "w \<in> set (map fst flag_wrappers)" using assms by (auto simp: flag_wrappers_def split: if_splits)
  ultimately show ?thesis by (auto simp: list_all_iff)
qed

lemma prefix_word_start: "prefix_word w \<Longrightarrow> \<not> starts_with w ''-''"
proof
  assume "prefix_word w" "starts_with w ''-''"
  moreover have "list_all (\<lambda>w. \<not> starts_with w ''-'') cmd_wrappers" by code_simp
  ultimately have "env_assignment w" "starts_with w ''-''" by (auto simp: prefix_word_def list_all_iff)
  then show False by (cases w) (auto simp: env_assignment_def starts_with_def ascii_letter_def Let_def)
qed

lemma options_skipped: "options vf os \<Longrightarrow> ts \<noteq> [] \<Longrightarrow> \<not> starts_with (hd ts) ''-'' \<Longrightarrow> skip_flags vf (os @ ts) = ts"
  by (induction rule: options.induct) (auto simp: neq_Nil_conv)

lemma options_plain: "options vf os \<Longrightarrow> list_all plain_word os"
  by (induction rule: options.induct) simp_all

lemma prefixed_plain: "prefixed ws \<Longrightarrow> list_all plain_word ws"
  by (induction rule: prefixed.induct) (auto simp: prefix_word_def options_plain dest: flag_wrapper_word)

lemma prefixed_start: "prefixed ws \<Longrightarrow> ts \<noteq> [] \<Longrightarrow> \<not> starts_with (hd ts) ''-'' \<Longrightarrow> \<not> starts_with (hd (ws @ ts)) ''-''"
  by (induction rule: prefixed.induct) (auto dest: prefix_word_start flag_wrapper_word)

lemma real_invocation_prefix:
  "prefixed ws \<Longrightarrow> ts \<noteq> [] \<Longrightarrow> \<not> starts_with (hd ts) ''-'' \<Longrightarrow> real_invocation_tokens (ws @ ts) = real_invocation_tokens ts"
proof (induction rule: prefixed.induct)
  case (word w ws)
  then show ?case by (auto simp: prefix_word_def)
next
  case (flags w vf os ws)
  then have "skip_flags vf (os @ ws @ ts) = ws @ ts" by (intro options_skipped prefixed_start) simp_all
  with flags flag_wrapper_word [OF flags.hyps(1)] show ?case by (simp add: skip_flag_wrapper_args_def)
next
  case (duration w vf os d ws)
  then have "skip_flags vf (os @ d # ws @ ts) = d # ws @ ts" by (intro options_skipped) simp_all
  with duration flag_wrapper_word [OF duration.hyps(1)] show ?case by (simp add: skip_flag_wrapper_args_def)
qed simp

lemma worst_kept:
  assumes "\<forall>seg \<in> set segs. case f seg of None \<Rightarrow> True | Some v \<Rightarrow> fst v = k" and "k \<in> {DENY, ASK}"
    and "(case worst of None \<Rightarrow> True | Some v \<Rightarrow> fst v = k)"
  shows "case foldl (\<lambda>worst seg. worse worst (f seg)) worst segs of
      None \<Rightarrow> worst = None \<and> (\<forall>seg \<in> set segs. f seg = None) | Some v \<Rightarrow> fst v = k"
  using assms(1,3)
proof (induction segs arbitrary: worst)
  case Nil
  then show ?case by (cases worst) auto
next
  case (Cons seg segs)
  have "case worse worst (f seg) of None \<Rightarrow> True | Some v \<Rightarrow> fst v = k"
    using Cons.prems by (auto simp: worse_def split: option.splits)
  moreover have "worse worst (f seg) = None \<longleftrightarrow> worst = None \<and> f seg = None"
    using Cons.prems assms(2) by (auto simp: worse_def violation_rank_def split: option.splits prod.splits)
  ultimately show ?case using Cons.IH [of "worse worst (f seg)"] Cons.prems by (auto split: option.splits)
qed

lemma gate_op_kind: "gate_op cfg op = Some v \<Longrightarrow> fst v = dc_kind cfg"
  by (auto simp: gate_op_def split: if_splits)

lemma gate_segment_kind:
  assumes "\<And>cmd v. inner cmd = Some v \<Longrightarrow> fst v = dc_kind cfg" and "gate_segment cfg inner seg = Some v"
  shows "fst v = dc_kind cfg"
  using assms(2)
  by (auto simp: gate_segment_def bind_eq_Some_conv split: sum.splits list.splits option.splits if_splits dest: gate_op_kind assms(1))

lemma evaluate_command_kind:
  assumes "dc_kind cfg \<in> {DENY, ASK}"
  shows "evaluate_command cfg n cmd = Some v \<Longrightarrow> fst v = dc_kind cfg"
proof (induction n arbitrary: cmd v)
  case (Suc n)
  have "\<forall>seg \<in> set (split_command_segments cmd). case gate_segment cfg (evaluate_command cfg n) seg of None \<Rightarrow> True | Some v \<Rightarrow> fst v = dc_kind cfg"
    using gate_segment_kind [OF Suc.IH] by (auto split: option.split)
  from worst_kept [OF this assms, of None] Suc.prems show ?case by simp
qed simp

lemma evaluate_command_gates:
  assumes "dc_kind cfg \<in> {DENY, ASK}" and "seg \<in> set (split_command_segments cmd)" and "gate_segment cfg (evaluate_command cfg n) seg \<noteq> None"
  shows "\<exists>reason. evaluate_command cfg (Suc n) cmd = Some (dc_kind cfg, reason)"
proof -
  have kinds: "\<forall>seg \<in> set (split_command_segments cmd). case gate_segment cfg (evaluate_command cfg n) seg of None \<Rightarrow> True | Some v \<Rightarrow> fst v = dc_kind cfg"
    using gate_segment_kind [OF evaluate_command_kind [OF assms(1)]] by (auto split: option.split)
  obtain v where v: "evaluate_command cfg (Suc n) cmd = Some v"
    using worst_kept [OF kinds assms(1), of None] assms(2,3) by (auto split: option.splits)
  then have "fst v = dc_kind cfg" by (rule evaluate_command_kind [OF assms(1)])
  then show ?thesis using v by (cases v) auto
qed

definition cd_to :: "string \<Rightarrow> string list \<Rightarrow> bool" where
  \<comment> \<open>a change of directory, behind assignments and wrappers: the directory is the first argument that is no option\<close>
  "cd_to dir ws \<longleftrightarrow>
     (\<exists>pre c os rest. ws = pre @ c # os @ dir # rest \<and> prefixed pre \<and> c \<in> set cd_commands \<and> plain_word dir \<and> \<not> starts_with dir ''-'' \<and>
        list_all (\<lambda>t. plain_word t \<and> starts_with t ''-'') os \<and> list_all plain_word rest)"

definition cd_words :: "dir_cfg \<Rightarrow> string list \<Rightarrow> bool" where
  \<comment> \<open>the configuration does not admit it\<close>
  "cd_words cfg ws \<longleftrightarrow> (\<exists>dir. cd_to dir ws \<and> \<not> (dc_allowed cfg \<noteq> [] \<and> is_under_allowed dir (dc_allowed cfg)))"

lemma cd_command_word: "c \<in> set cd_commands \<Longrightarrow> plain_word c \<and> \<not> env_assignment c \<and> c \<notin> set cmd_wrappers \<and> dget flag_wrappers c = None \<and>
    basename c = c \<and> c \<notin> set shell_interpreters \<and> c \<noteq> ''eval'' \<and> c \<noteq> ''git'' \<and> dropWhile (\<lambda>x. x = CHR ''('') c = c \<and>
    \<not> starts_with c ''-''"
proof -
  have "list_all (\<lambda>c. plain_word c \<and> \<not> env_assignment c \<and> c \<notin> set cmd_wrappers \<and> dget flag_wrappers c = None \<and>
    basename c = c \<and> c \<notin> set shell_interpreters \<and> c \<noteq> ''eval'' \<and> c \<noteq> ''git'' \<and> dropWhile (\<lambda>x. x = CHR ''('') c = c \<and>
    \<not> starts_with c ''-'') cd_commands"
    by code_simp
  then show "c \<in> set cd_commands \<Longrightarrow> ?thesis" by (simp add: list_all_iff)
qed

lemma cd_to_plain:
  assumes "cd_to dir ws"
  shows "list_all plain_word ws \<and> ws \<noteq> []"
proof -
  obtain pre c os rest where "ws = pre @ c # os @ dir # rest" "prefixed pre" "c \<in> set cd_commands" "plain_word dir"
    "list_all (\<lambda>t. plain_word t \<and> starts_with t ''-'') os" "list_all plain_word rest" using assms by (auto simp: cd_to_def)
  then show ?thesis using prefixed_plain [of pre] cd_command_word [of c] by (auto simp: list_all_iff)
qed

lemma cd_words_parts: "cd_words cfg ws \<Longrightarrow> list_all plain_word ws \<and> ws \<noteq> []"
  using cd_to_plain by (auto simp: cd_words_def)

lemma first_argument:
  "list_all (\<lambda>t. plain_word t \<and> starts_with t ''-'') os \<Longrightarrow> \<not> starts_with dir ''-'' \<Longrightarrow>
    List.find (\<lambda>t. \<not> starts_with t ''-'') (os @ dir # rest) = Some dir"
  by (induction os) simp_all

lemma cd_segment_gated:
  assumes "cd_words cfg ws" and "dc_block_cd cfg"
  shows "gate_segment cfg inner (join '' '' ws) \<noteq> None"
proof -
  obtain pre c os dir rest where ws: "ws = pre @ c # os @ dir # rest" "prefixed pre" "c \<in> set cd_commands" "plain_word dir" "\<not> starts_with dir ''-''"
    "list_all (\<lambda>t. plain_word t \<and> starts_with t ''-'') os" "\<not> (dc_allowed cfg \<noteq> [] \<and> is_under_allowed dir (dc_allowed cfg))"
    using assms(1) by (auto simp: cd_words_def cd_to_def)
  note c = cd_command_word [OF ws(3)]
  let ?call = "c # os @ dir # rest"
  have "shlex_split (join '' '' ws) = Inr ws" using cd_words_parts [OF assms(1)] by (simp add: shlex_split_join)
  moreover have "real_invocation_tokens ws = ?call" using c real_invocation_prefix [OF ws(2), of ?call] by (simp add: ws(1))
  moreover have "unwrap_shell_command ?call = None" using c by (simp add: unwrap_shell_command_def)
  moreover have "classify_segment ?call (dc_block_cd cfg) (dc_block_worktree cfg) =
      Some \<lparr>op_kind = Cd, op_target = Some dir, op_detail = c @ '' '' @ dir\<rparr>"
    using c ws(3,4) assms(2) first_argument [OF ws(6,5)] by (simp add: classify_segment_def classify_cd_def plain_word_def)
  ultimately show ?thesis using ws(7) by (simp add: gate_segment_def gate_op_def)
qed

lemma plain_simple: "plain_word w \<Longrightarrow> list_all (\<lambda>c. \<not> op_char c \<and> \<not> opaque_char c) w"
  by (auto simp: plain_word_def list_all_iff)

lemma join_simple: "list_all plain_word ws \<Longrightarrow> list_all (\<lambda>c. \<not> op_char c \<and> \<not> opaque_char c) (join '' '' ws)"
  by (induction "'' ''" ws rule: join.induct) (auto dest!: plain_simple simp: op_char_def opaque_char_def)

lemma strip_trimmed: "s \<noteq> [] \<Longrightarrow> \<not> py_space (hd s) \<Longrightarrow> \<not> py_space (last s) \<Longrightarrow> strip s = s"
proof -
  assume s: "s \<noteq> []" "\<not> py_space (hd s)" "\<not> py_space (last s)"
  have "lstrip s = s" using s by (cases s) (simp_all add: lstrip_def)
  moreover have "rstrip s = s" using s by (cases s rule: rev_cases) (simp_all add: rstrip_def)
  ultimately show ?thesis by (simp add: strip_def)
qed

lemma plain_ends: "plain_word w \<Longrightarrow> w \<noteq> [] \<and> \<not> py_space (hd w) \<and> \<not> py_space (last w)"
  by (auto simp: plain_word_def list_all_iff)

lemma join_ends: "ws \<noteq> [] \<Longrightarrow> list_all plain_word ws \<Longrightarrow> join '' '' ws \<noteq> [] \<and> \<not> py_space (hd (join '' '' ws)) \<and> \<not> py_space (last (join '' '' ws))"
proof (induction "'' ''" ws rule: join.induct)
  case (2 w)
  then show ?case using plain_ends by simp
next
  case (3 w v ws)
  then show ?case using plain_ends [of w] by simp
qed simp

definition solid :: "string \<Rightarrow> bool" where
  \<comment> \<open>a command with no operator and no substitution, and no white space around it\<close>
  "solid core \<longleftrightarrow> core \<noteq> [] \<and> \<not> py_space (hd core) \<and> \<not> py_space (last core) \<and> list_all (\<lambda>c. \<not> op_char c \<and> \<not> opaque_char c) core"

definition padded :: "string \<Rightarrow> string \<Rightarrow> bool" where
  "padded core seg \<longleftrightarrow> (\<exists>m n. seg = replicate m CHR '' '' @ core @ replicate n CHR '' '')"

lemma padded_segment:
  assumes "padded core seg" and "solid core"
  shows "simple_segment seg" "strip seg = core" "strip seg \<noteq> []"
proof -
  obtain m n where seg: "seg = replicate m CHR '' '' @ core @ replicate n CHR '' ''" using assms(1) by (auto simp: padded_def)
  have blank: "py_space CHR '' ''" "\<not> op_char CHR '' ''" "\<not> opaque_char CHR '' ''" by code_simp+
  have skip: "dropWhile py_space (replicate k CHR '' '' @ xs) = dropWhile py_space xs" for k xs using blank(1) by (induction k) simp_all
  have "lstrip seg = core @ replicate n CHR '' ''" using assms(2) by (cases core) (simp_all add: lstrip_def seg skip solid_def)
  moreover have "rstrip (core @ replicate n CHR '' '') = core"
    using assms(2) by (cases core rule: rev_cases) (simp_all add: rstrip_def skip solid_def)
  ultimately show strip: "strip seg = core" by (simp add: strip_def)
  then show "simple_segment seg" "strip seg \<noteq> []" using assms(2) blank by (simp_all add: simple_segment_def seg solid_def list_all_iff set_replicate_conv_if)
qed

lemma padded_self: "padded core core"
  unfolding padded_def by (intro exI [of _ 0]) simp

lemma solid_words: "ws \<noteq> [] \<Longrightarrow> list_all plain_word ws \<Longrightarrow> solid (join '' '' ws)"
  unfolding solid_def by (intro conjI) (simp_all add: join_ends join_simple)

definition in_bash :: "string \<Rightarrow> string" where
  \<comment> \<open>\<open>bash -c '...'\<close>\<close>
  "in_bash s = ''bash -c '' @ CHR 0x27 # s @ [CHR 0x27]"

lemma lex_quoted: "CHR 0x27 \<notin> set s \<Longrightarrow> lex (Quoted (CHR 0x27)) tok True (s @ [CHR 0x27]) = Inr [tok @ s]"
  by (induction s arbitrary: tok) (auto simp: emit_def)

lemma in_bash_words: "CHR 0x27 \<notin> set s \<Longrightarrow> shlex_split (in_bash s) = Inr [''bash'', ''-c'', s]"
  using lex_quoted [of s "[]"] by (simp add: in_bash_def shlex_split_def lex_space_def quote_char_def emit_def)

lemma join_unquoted: "list_all plain_word ws \<Longrightarrow> CHR 0x27 \<notin> set (join '' '' ws)"
  by (induction "'' ''" ws rule: join.induct) (auto simp: plain_word_def list_all_iff quote_char_def)

lemma solid_in_bash: "list_all (\<lambda>c. \<not> op_char c \<and> \<not> opaque_char c) s \<Longrightarrow> solid (in_bash s)"
  by (simp add: solid_def in_bash_def op_char_def opaque_char_def py_space_def)

definition runs_words :: "string list \<Rightarrow> string \<Rightarrow> bool" where
  \<comment> \<open>the words as a command, or as the command string of \<open>bash -c\<close>, with blanks around it\<close>
  "runs_words ws seg \<longleftrightarrow> padded (join '' '' ws) seg \<or> padded (in_bash (join '' '' ws)) seg"

lemma runs_words_segment:
  assumes "runs_words ws seg" and "ws \<noteq> []" and "list_all plain_word ws"
  shows "simple_segment seg" "strip seg = join '' '' ws \<or> strip seg = in_bash (join '' '' ws)" "strip seg \<noteq> []"
  using padded_segment [OF _ solid_words [OF assms(2,3)]] padded_segment [OF _ solid_in_bash [OF join_simple [OF assms(3)]]] assms(1)
  unfolding runs_words_def by blast+

lemma in_bash_inner: "CHR 0x27 \<notin> set s \<Longrightarrow> gate_segment cfg inner (in_bash s) = inner s"
proof -
  assume s: "CHR 0x27 \<notin> set s"
  have "real_invocation_tokens [''bash'', ''-c'', s] = [''bash'', ''-c'', s]" by code_simp
  moreover have "unwrap_shell_command [''bash'', ''-c'', s] = Some s"
  proof -
    have "basename ''bash'' = ''bash''" "\<not> c_flag ''bash''" "c_flag ''-c''" by code_simp+
    then show ?thesis by (simp add: unwrap_shell_command_def shell_interpreters_def)
  qed
  ultimately show ?thesis by (simp add: gate_segment_def in_bash_words [OF s])
qed

lemma make_dir_cfg_parts:
  "make_dir_cfg block_cd block_worktree dirs action tools = Inr cfg \<Longrightarrow>
     dc_block_cd cfg = block_cd \<and> dc_kind cfg = (if action = ''deny'' then DENY else ASK) \<and> dc_kind cfg \<in> {DENY, ASK} \<and> dc_allowed cfg = normalize_dirs dirs"
  by (auto simp: make_dir_cfg_def split: if_splits)

lemma change_gated:
  assumes "make_dir_cfg True block_worktree dirs action tools = Inr cfg" and "cd_words cfg ws" and "runs_words ws seg" and "has_command seg cmd"
  shows "\<exists>reason. evaluate_command cfg (Suc max_shell_nesting) cmd = Some (dc_kind cfg, reason)"
proof -
  note cfg = make_dir_cfg_parts [OF assms(1)] and plain = cd_words_parts [OF assms(2)]
  note seg = runs_words_segment [OF assms(3) conjunct2 [OF plain] conjunct1 [OF plain]]
  have direct: "gate_segment cfg inner (join '' '' ws) \<noteq> None" for inner
    using cd_segment_gated [OF assms(2)] cfg by simp
  have whole: "chained [] (join '' '' ws) [] (join '' '' ws)"
    unfolding chained_def by (intro exI [of _ "[]"]) simp
  have found: "strip seg \<in> set (split_command_segments cmd)" by (rule command_segment_found [OF seg(1) assms(4)])
  have "gate_segment cfg (evaluate_command cfg max_shell_nesting) (strip seg) \<noteq> None"
    using seg(2)
  proof
    assume bash: "strip seg = in_bash (join '' '' ws)"
    note inside = padded_segment [OF padded_self solid_words [OF conjunct2 [OF plain] conjunct1 [OF plain]]]
    have "join '' '' ws \<in> set (split_command_segments (join '' '' ws))"
      using chained_segment_found [OF inside(1) whole] inside(2) by simp
    then have "\<exists>reason. evaluate_command cfg (Suc 3) (join '' '' ws) = Some (dc_kind cfg, reason)"
      using cfg direct by (intro evaluate_command_gates) auto
    then show ?thesis using bash plain by (auto simp: in_bash_inner join_unquoted max_shell_nesting_def numeral_eq_Suc)
  qed (use direct in simp)
  then show ?thesis using cfg found by (intro evaluate_command_gates) auto
qed

section \<open>Directories\<close>

definition path_step :: "string list \<Rightarrow> string \<Rightarrow> string list" where
  "path_step at_dir c = (if c = [] \<or> c = ''.'' then at_dir else if c = ''..'' then butlast at_dir else at_dir @ [c])"

definition path_names :: "string \<Rightarrow> string list" where
  \<comment> \<open>the directory an absolute path names, walked from the root\<close>
  "path_names p = foldl path_step [] (split_on CHR ''/'' (strip p))"

definition is_absolute :: "string \<Rightarrow> bool" where
  "is_absolute p \<longleftrightarrow> starts_with (strip p) ''/''"

lemma norm_components_walk:
  "list_all (\<lambda>c. c \<noteq> ''..'') acc \<Longrightarrow> norm_components True acc cs = foldl path_step (rev acc) cs"
proof (induction True acc cs rule: norm_components.induct)
  case (2 acc c cs)
  have "list_all (\<lambda>c. c \<noteq> ''..'') (tl acc)" using 2(4) by (cases acc) auto
  moreover have "butlast (rev acc) = rev (tl acc)" by (cases acc) auto
  moreover have "acc \<noteq> [] \<Longrightarrow> hd acc \<noteq> ''..''" using 2(4) by (cases acc) auto
  ultimately show ?case using 2 by (auto simp: path_step_def)
qed simp

definition slash_parts :: "string \<Rightarrow> string list" where
  "slash_parts s = filter (\<lambda>w. w \<noteq> []) (split_on CHR ''/'' s)"

lemma slash_parts_slash [simp]: "slash_parts (CHR ''/'' # s) = slash_parts s"
  by (simp add: slash_parts_def)

lemma split_on_sep: "split_on c (x @ c # y) = split_on c x @ split_on c y"
proof (induction x)
  case (Cons a x)
  then show ?case by (cases "split_on c x") auto
qed simp

lemma slash_parts_append: "slash_parts (x @ CHR ''/'' # y) = slash_parts x @ slash_parts y"
  by (simp add: slash_parts_def split_on_sep)

definition real_names :: "string list \<Rightarrow> bool" where
  "real_names cs \<longleftrightarrow> list_all (\<lambda>c. c \<noteq> [] \<and> CHR ''/'' \<notin> set c) cs"

lemma slash_parts_join: "real_names cs \<Longrightarrow> slash_parts (join ''/'' cs) = cs"
proof (cases "cs = []")
  case False
  assume "real_names cs"
  then have "split_on CHR ''/'' (join ''/'' cs) = cs" using False by (intro split_on_join) (auto simp: real_names_def list_all_iff)
  then show ?thesis using \<open>real_names cs\<close> by (simp add: slash_parts_def real_names_def list_all_iff)
qed (simp add: slash_parts_def)

lemma split_on_parts: "list_all (\<lambda>w. c \<notin> set w) (split_on c s)"
  by (induction s) (auto split: list.splits)

lemma path_step_real: "real_names acc \<Longrightarrow> CHR ''/'' \<notin> set c \<Longrightarrow> real_names (path_step acc c)"
  by (auto simp: path_step_def real_names_def list_all_iff dest: in_set_butlastD)

lemma walk_real_names: "real_names acc \<Longrightarrow> list_all (\<lambda>w. CHR ''/'' \<notin> set w) cs \<Longrightarrow> real_names (foldl path_step acc cs)"
  by (induction cs arbitrary: acc) (simp_all add: path_step_real)

lemma path_names_real: "real_names (path_names p)"
  unfolding path_names_def by (rule walk_real_names) (simp_all add: real_names_def split_on_parts)

lemma normalize_absolute:
  assumes "is_absolute p"
  obtains s where "normalize_dir p = CHR ''/'' # s @ join ''/'' (path_names p)" "s = [] \<or> starts_with (strip p) ''//'' \<and> s = ''/''"
proof -
  have abs: "starts_with (strip p) ''/''" "strip p \<noteq> []" using assms by (auto simp: is_absolute_def starts_with_def)
  have "norm_components True [] (split_on CHR ''/'' (strip p)) = path_names p"
    unfolding path_names_def by (simp add: norm_components_walk)
  then have norm: "normalize_dir p = (if starts_with (strip p) ''//'' \<and> \<not> starts_with (strip p) ''///'' then ''//'' else ''/'') @ join ''/'' (path_names p)"
    using abs by (simp add: normalize_dir_def normpath_def Let_def)
  show thesis
    by (rule that [of "if starts_with (strip p) ''//'' \<and> \<not> starts_with (strip p) ''///'' then ''/'' else []"]) (simp_all add: norm)
qed

lemma normalize_absolute_parts: "is_absolute p \<Longrightarrow> slash_parts (normalize_dir p) = path_names p"
  by (rule normalize_absolute [of p]) (auto simp: slash_parts_join path_names_real)

lemma norm_relative_real:
  "list_all (\<lambda>w. CHR ''/'' \<notin> set w) cs \<Longrightarrow> real_names acc \<Longrightarrow> real_names (norm_components b acc cs)"
proof (induction b acc cs rule: norm_components.induct)
  case (2 b acc c cs)
  have "real_names (tl acc)" using 2(5) by (cases acc) (auto simp: real_names_def)
  then show ?case using 2 by (auto simp: real_names_def)
qed (auto simp: real_names_def list_all_iff)

lemma normalize_relative:
  assumes "\<not> is_absolute p"
  shows "\<not> starts_with (normalize_dir p) ''/''"
proof -
  let ?cs = "norm_components False [] (split_on CHR ''/'' (strip p))"
  have rel: "\<not> starts_with (strip p) ''/''" using assms by (simp add: is_absolute_def)
  then have "\<not> starts_with (strip p) ''//''" by (cases "strip p") (auto simp: starts_with_def)
  then have norm: "strip p \<noteq> [] \<Longrightarrow> normalize_dir p = (if join ''/'' ?cs = [] then ''.'' else join ''/'' ?cs)"
    using rel by (simp add: normalize_dir_def normpath_def Let_def)
  have "real_names ?cs" by (rule norm_relative_real [OF split_on_parts]) (simp add: real_names_def)
  then have "\<not> starts_with (join ''/'' ?cs) ''/''"
    by (cases "(''/'', ?cs)" rule: join.cases) (auto simp: real_names_def starts_with_def neq_Nil_conv)
  then show ?thesis using norm by (cases "strip p = []") (simp_all add: starts_with_def, simp add: normalize_dir_def)
qed

lemma admitted_inside:
  assumes "is_absolute dir" and "is_under_allowed dir (normalize_dirs dirs)"
  shows "\<exists>d \<in> set (case dirs of None \<Rightarrow> [] | Some ds \<Rightarrow> ds). is_absolute d \<and> prefix (path_names d) (path_names dir)"
proof -
  obtain a where a: "a \<in> set (normalize_dirs dirs)" "normalize_dir dir = a \<or> starts_with (normalize_dir dir) (a @ ''/'')"
    using assms(2) by (auto simp: is_under_allowed_def Let_def list_ex_iff)
  obtain d where d: "d \<in> set (case dirs of None \<Rightarrow> [] | Some ds \<Rightarrow> ds)" "a = normalize_dir d" "a \<noteq> []"
    using a(1) by (auto simp: normalize_dirs_def)
  obtain s where s: "normalize_dir dir = CHR ''/'' # s" by (rule normalize_absolute [OF assms(1)])
  from a(2) obtain r where r: "normalize_dir dir = a \<or> normalize_dir dir = a @ CHR ''/'' # r"
    unfolding starts_with_def by (metis append_Cons append_assoc append_take_drop_id self_append_conv2)
  have "starts_with a ''/''" using r s d(3) by (cases a) (auto simp: starts_with_def)
  then have abs: "is_absolute d" using normalize_relative d(2) by blast
  have "slash_parts (normalize_dir dir) = slash_parts a \<or> slash_parts (normalize_dir dir) = slash_parts a @ slash_parts r"
    using r by (auto simp: slash_parts_append)
  then have "prefix (path_names d) (path_names dir)"
    using normalize_absolute_parts [OF assms(1)] normalize_absolute_parts [OF abs] d(2) by auto
  then show ?thesis using abs d(1) by blast
qed

section \<open>The policy in an engine\<close>

lemma evaluate_not_allowed:
  \<comment> \<open>a policy that never allows the action, whatever the policies before it make of the content\<close>
  assumes "e_policies eng = qs @ p # ps" and "should_fire (e_labels eng) (pol_spec p) ctx"
    and "\<And>d. may_see (evaluate_function other) (context_of eng) (inject eng ctx) qs d \<Longrightarrow>
      r_action (snd (answer (evaluate_function other) (context_of eng) (inject eng ctx) p d)) \<noteq> ALLOW"
    and "fst (evaluate_composed day (evaluate_function other) read_only ctx eng) = Inr r"
  shows "r_action r \<noteq> ALLOW"
proof
  let ?tr = "fired (evaluate_function other) (e_labels eng) (context_of eng) (qs @ p # ps) (inject eng ctx)"
  assume "r_action r = ALLOW"
  moreover have "r_action r = strictest (map (\<lambda>sr. r_action (snd sr)) ?tr)"
    using assms(4) unfolding evaluate_function_fired assms(1) by (rule decide_strictest)
  ultimately have allow: "r_action (snd sr) = ALLOW" if "sr \<in> set ?tr" for sr using strictest_ALLOW that by fastforce
  then have none: "denial ?tr = None" using denial_iff [of ?tr] by fastforce
  obtain before mid later where split: "?tr = before @ mid @ later"
    "mid = [] \<or> should_fire (e_labels eng) (pol_spec p) (inject eng ctx) \<and>
      (\<exists>d. mid = [answer (evaluate_function other) (context_of eng) (inject eng ctx) p d] \<and>
        (d = cx_content (inject eng ctx) \<or> (\<exists>q \<in> set qs. changes_content (evaluate_function other) (context_of eng) (inject eng ctx) q)))"
    "denial ?tr = None \<and> should_fire (e_labels eng) (pol_spec p) (inject eng ctx) \<longrightarrow> mid \<noteq> []"
    by (rule fired_split)
  then obtain d where d: "mid = [answer (evaluate_function other) (context_of eng) (inject eng ctx) p d]"
    "may_see (evaluate_function other) (context_of eng) (inject eng ctx) qs d" using none assms(2) by (auto simp: may_see_def)
  show False using assms(3) [OF d(2)] allow [of "answer (evaluate_function other) (context_of eng) (inject eng ctx) p d"] split(1) d(1) by simp
qed

definition shell_call :: "string \<Rightarrow> string list option \<Rightarrow> pyval \<Rightarrow> bool" where
  \<comment> \<open>the content of a call of a shell tool with the command\<close>
  "shell_call cmd tools d \<longleftrightarrow>
     (\<exists>data tool args. d = PDict data \<and> dget data ''name'' = Some (PStr tool) \<and> tool \<in> set (case tools of None \<Rightarrow> default_shell_tools | Some ts \<Rightarrow> ts) \<and>
        dget data ''arguments'' = Some (PDict args) \<and> dget args ''command'' = Some (PStr cmd))"

lemma block_parts:
  assumes "block_working_dir_changes block_cd block_worktree dirs action tools = Inr f"
  obtains cfg where "make_dir_cfg block_cd block_worktree dirs action tools = Inr cfg" "f = dir_evaluate cfg"
    "dc_tools cfg = (case tools of None \<Rightarrow> default_shell_tools | Some ts \<Rightarrow> ts)"
  using assms unfolding block_working_dir_changes_def bindR_Inr_iff by (auto simp: make_dir_cfg_def split: if_splits)

lemma dir_evaluate_call:
  assumes "ev_type ev = ''tool_call''" and "shell_call cmd tools (ev_data ev)" and "strip cmd \<noteq> []"
    and "dc_tools cfg = (case tools of None \<Rightarrow> default_shell_tools | Some ts \<Rightarrow> ts)"
  shows "dir_evaluate cfg ev = Inr (dir_response (evaluate_command cfg (Suc max_shell_nesting) cmd))"
  using assms by (auto simp: shell_call_def dir_evaluate_def)

lemma strip_empty: "strip s = [] \<longleftrightarrow> list_all py_space s"
  by (induction s) (auto simp: strip_def lstrip_def rstrip_dropWhile list_all_iff)

lemma command_not_blank: "has_command seg cmd \<Longrightarrow> strip seg \<noteq> [] \<Longrightarrow> strip cmd \<noteq> []"
proof (induction rule: has_command.induct)
  case (chain p q cmd)
  then show ?case by (auto simp: chained_def strip_empty)
next
  case (substitution body cmd)
  from substitution.hyps(1) show ?case by cases (auto simp: strip_empty py_space_def)
qed

lemma coerce_dir:
  "k \<in> {DENY, ASK} \<Longrightarrow> coerce_to_policy_result other name (dir_response (Some (k, reason))) = Inr (verdict k (Some reason) [])"
  using coerce_deny coerce_ask by (auto simp: dir_response_def deny_response_def ask_response_def)

lemma abstains_inside:
  assumes "make_dir_cfg True block_worktree dirs action tools = Inr cfg" and "is_absolute dir" and "cd_to dir ws"
    and "runs_words ws seg" and "has_command seg cmd"
    and "\<nexists>d. d \<in> set (case dirs of None \<Rightarrow> [] | Some ds \<Rightarrow> ds) \<and> is_absolute d \<and> prefix (path_names d) (path_names dir)"
  shows "\<exists>reason. evaluate_command cfg (Suc max_shell_nesting) cmd = Some (dc_kind cfg, reason)"
proof (rule change_gated [OF assms(1) _ assms(4,5)])
  have "\<not> is_under_allowed dir (dc_allowed cfg)" using admitted_inside [OF assms(2)] assms(6) make_dir_cfg_parts [OF assms(1)] by auto
  then show "cd_words cfg ws" using assms(3) by (auto simp: cd_words_def)
qed

lemma segment_not_blank:
  assumes "cd_to dir ws" and "runs_words ws seg" and "has_command seg cmd"
  shows "strip cmd \<noteq> []"
proof (rule command_not_blank [OF assms(3)])
  have "list_all plain_word ws" "ws \<noteq> []" using cd_to_plain [OF assms(1)] by simp_all
  then show "strip seg \<noteq> []" by (intro runs_words_segment(3) [OF assms(2)])
qed

text \<open>
  C17: An agent is not let out of its directories by a command the policy reads. With the
  working-directory policy in its engine, and no earlier policy rewriting the call, a call of a shell
  tool is allowed, for either action of the policy and whatever the other policies answer, only when every
  simple command in it that changes to an absolute directory stays inside: walking the path from the root
  leads into one of the configured directories. The command may stand anywhere in a chain of operators and,
  at any depth, in \<open>$(...)\<close> or backticks, or be the command string of one \<open>bash -c\<close>; the words are
  unquoted; before \<open>cd\<close> (or \<open>chdir\<close>, \<open>pushd\<close>, \<open>popd\<close>) there may be assignments, the wrappers
  \<open>sudo\<close>, \<open>env\<close>, \<open>command\<close>, \<open>time\<close>, \<open>nohup\<close>, \<open>exec\<close> without options, and \<open>nice\<close>, \<open>stdbuf\<close>,
  \<open>setsid\<close>, \<open>timeout\<close> with their options; after it there may be options, the directory being the first argument
  that is not an option. (An option behind \<open>sudo\<close> and its like is not read: the next property.)
\<close>
theorem allowed_change_of_directory_stays_inside:
  assumes "e_policies eng = qs @ pol # ps" and "snd (pol_state pol) = f" and "unconditional (pol_spec pol)"
    and "\<And>q. q \<in> set qs \<Longrightarrow> keeps_content other q"
    and "block_working_dir_changes True block_worktree dirs action tools = Inr f"
    and "cx_phase ctx = TOOL_CALL" and "shell_call cmd tools (cx_content ctx)" and "has_command seg cmd"
    and "runs_words ws seg" and "cd_to dir ws" and "is_absolute dir"
    and "fst (evaluate_composed day (evaluate_function other) read_only ctx eng) = Inr r" and "r_action r = ALLOW"
  shows "\<exists>d \<in> set (case dirs of None \<Rightarrow> [] | Some ds \<Rightarrow> ds). is_absolute d \<and> prefix (path_names d) (path_names dir)"
proof (rule ccontr)
  assume outside: "\<not> ?thesis"
  obtain cfg where cfg: "make_dir_cfg True block_worktree dirs action tools = Inr cfg" "f = dir_evaluate cfg"
    "dc_tools cfg = (case tools of None \<Rightarrow> default_shell_tools | Some ts \<Rightarrow> ts)" by (rule block_parts [OF assms(5)])
  obtain reason where gated: "evaluate_command cfg (Suc max_shell_nesting) cmd = Some (dc_kind cfg, reason)"
    using abstains_inside [OF cfg(1) assms(11,10,9,8)] outside by blast
  have kind: "dc_kind cfg \<in> {DENY, ASK}" using make_dir_cfg_parts [OF cfg(1)] by blast
  have "r_action r \<noteq> ALLOW"
  proof (rule evaluate_not_allowed [OF assms(1) _ _ assms(12)])
    fix d
    assume "may_see (evaluate_function other) (context_of eng) (inject eng ctx) qs d"
    from keeps_content_seen [OF assms(4) this] have "d = cx_content (inject eng ctx)" by simp
    then have d: "d = cx_content ctx" by (simp add: inject_def Let_def split: option.split)
    let ?ev = "build_event (inject eng ctx\<lparr>cx_content := d\<rparr>)"
    have "dir_evaluate cfg ?ev = Inr (dir_response (Some (dc_kind cfg, reason)))"
      unfolding gated [symmetric]
      by (rule dir_evaluate_call [OF _ _ segment_not_blank [OF assms(10,9,8)] cfg(3)]) (simp_all add: assms(6,7) d)
    then show "r_action (snd (answer (evaluate_function other) (context_of eng) (inject eng ctx) pol d)) \<noteq> ALLOW"
      using kind by (auto simp: answer_result assms(2) cfg(2) coerce_dir)
  qed (use assms(3) in simp)
  then show False using assms(13) by contradiction
qed

definition ex_shell_ctx :: "string \<Rightarrow> unit evaluation_context" where
  "ex_shell_ctx cmd = ex_ctx\<lparr>cx_content := PDict [(''name'', PStr ''Bash''), (''arguments'', PDict [(''command'', PStr cmd)])]\<rparr>"

definition ex_dir_policy :: "unit function_policy policy" where
  "ex_dir_policy = \<lparr>pol_spec = plain_spec ''dir'', pol_state = (''dir'', projr (block_working_dir_changes True True (Some [''/w/'']) ''deny'' None))\<rparr>"

lemma ex_shell_call: "shell_call cmd None (cx_content (ex_shell_ctx cmd))"
  by (simp add: shell_call_def ex_shell_ctx_def default_shell_tools_def)

definition ex_words :: "string list" where
  "ex_words = [''X=1'', ''timeout'', ''-s'', ''KILL'', ''5'', ''cd'', ''-P'', ''/w/a/../b'']"

lemma ex_cd_to: "cd_to ''/w/a/../b'' ex_words"
proof -
  have w: "list_all plain_word [''-s'', ''KILL'', ''5'', ''-P'', ''/w/a/../b''] \<and> prefix_word ''X=1''" by code_simp
  have "options [''-s'', ''--signal'', ''-k'', ''--kill-after''] [''-s'', ''KILL'']"
    using w by (intro options.intros) (simp_all add: starts_with_def)
  note opts = this
  have flag: "dget flag_wrappers ''timeout'' = Some [''-s'', ''--signal'', ''-k'', ''--kill-after'']" "''timeout'' \<in> set duration_wrappers"
    by (simp_all add: flag_wrappers_def duration_wrappers_def)
  have "plain_word ''5''" "\<not> starts_with ''5'' ''-''" using w by (simp_all add: starts_with_def)
  from prefixed.duration [OF flag opts this prefixed.intros(1)] have "prefixed [''timeout'', ''-s'', ''KILL'', ''5'']" by simp
  then have "prefixed [''X=1'', ''timeout'', ''-s'', ''KILL'', ''5'']" using w by (blast intro: prefixed.word)
  then show ?thesis
    unfolding cd_to_def ex_words_def
    by (intro exI [of _ "[''X=1'', ''timeout'', ''-s'', ''KILL'', ''5'']"] exI [of _ "''cd''"] exI [of _ "[''-P'']"] exI [of _ "[]"])
      (use w in \<open>simp add: cd_commands_def starts_with_def\<close>)
qed

definition ex_seg :: string where "ex_seg = join '' '' ex_words @ '' ''"

lemma ex_runs: "runs_words ex_words ex_seg"
  unfolding runs_words_def padded_def ex_seg_def by (intro disjI1 exI [of _ 0] exI [of _ 1]) simp

lemma ex_chained: "has_command seg (seg @ CHR '';'' # '' ls'')"
  by (rule has_command.chain [where p = "[]" and q = "'' ls''"], unfold chained_def, intro exI [of _ "[]"] exI [of _ "'';''"])
    (simp add: op_char_def)

definition ex_cmd :: string where
  "ex_cmd = ''echo x$y '' @ ''$('' @ (ex_seg @ CHR '';'' # '' ls'') @ '')'' @ ''; pwd''"

lemma ex_has_command: "has_command ex_seg ex_cmd"
proof -
  have "unopening ''echo x$y ''" "balanced 0 (ex_seg @ CHR '';'' # '' ls'')" by code_simp+
  from substituted.dollar [OF this] show ?thesis unfolding ex_cmd_def by (rule has_command.substitution) (rule ex_chained)
qed

theorem allowed_change_of_directory_stays_inside_witness:
  "\<exists>d \<in> {''/w/''}. is_absolute d \<and> prefix (path_names d) (path_names ''/w/a/../b'')"
proof -
  let ?r = "projr (fst (evaluate_composed ''d'' (evaluate_function (\<lambda>_. [])) True (ex_shell_ctx ex_cmd) (session_engine [ex_dir_policy])))"
  have run: "fst (evaluate_composed ''d'' (evaluate_function (\<lambda>_. [])) True (ex_shell_ctx ex_cmd) (session_engine [ex_dir_policy])) = Inr ?r"
    and allow: "r_action ?r = ALLOW" by code_simp+
  have "block_working_dir_changes True True (Some [''/w/'']) ''deny'' None = Inr (snd (pol_state ex_dir_policy))"
    by (simp add: ex_dir_policy_def block_working_dir_changes_def make_dir_cfg_def)
  from allowed_change_of_directory_stays_inside [where qs = "[]" and ps = "[]" and pol = ex_dir_policy,
      OF _ refl _ _ this _ ex_shell_call ex_has_command ex_runs ex_cd_to _ run allow]
  show ?thesis by (simp add: ex_dir_policy_def ex_shell_ctx_def ex_ctx_def is_absolute_def strip_def lstrip_def rstrip_def starts_with_def py_space_def)
qed

section \<open>What the policy gets wrong\<close>

lemma solid_segments:
  assumes "solid s"
  shows "split_command_segments s = [s]"
proof -
  have "extract_command_substitutions (s @ []) = (s, [])" using assms by (subst extract_plain) (auto simp: solid_def list_all_iff)
  moreover have "split_operators s = [s]" using assms by (intro split_operators_plain(1)) (auto simp: solid_def list_all_iff)
  moreover have "strip s = s" using assms by (intro strip_trimmed) (simp_all add: solid_def)
  ultimately show ?thesis using assms by (simp add: split_command_segments.simps [of s] solid_def)
qed

definition wrapper_option :: "string \<Rightarrow> bool" where
  "wrapper_option t \<longleftrightarrow> plain_word t \<and> starts_with t ''-'' \<and> CHR ''/'' \<notin> set t"

lemma wrapper_option_word:
  assumes "wrapper_option t"
  shows "real_invocation_tokens (t # ts) = t # ts" "unwrap_shell_command (t # ts) = None" "classify_segment (t # ts) b c = None"
proof -
  obtain cs where t: "t = CHR ''-'' # cs" using assms by (cases t) (auto simp: wrapper_option_def plain_word_def starts_with_def)
  have base: "basename t = t"
    unfolding basename_def by (subst takeWhile_eq_all_conv [THEN iffD2]) (use assms in \<open>auto simp: wrapper_option_def\<close>)
  have "\<not> env_assignment t" by (auto simp: t env_assignment_def ascii_letter_def Let_def)
  then show "real_invocation_tokens (t # ts) = t # ts" by (simp add: t cmd_wrappers_def flag_wrappers_def)
  show "unwrap_shell_command (t # ts) = None" using base by (simp add: unwrap_shell_command_def shell_interpreters_def t)
  show "classify_segment (t # ts) b c = None" by (simp add: classify_segment_def cd_commands_def t)
qed

lemma wrapper_words: "w \<in> set cmd_wrappers \<Longrightarrow> plain_word w"
proof -
  have "list_all plain_word cmd_wrappers" by code_simp
  then show "w \<in> set cmd_wrappers \<Longrightarrow> plain_word w" by (simp add: list_all_iff)
qed

lemma root_only:
  assumes "plain_word dir" and "starts_with dir ''/''" and "\<not> starts_with dir ''//''" and "path_names dir \<noteq> []"
  shows "\<not> is_under_allowed dir (normalize_dirs (Some [''/'']))"
proof -
  have root: "normalize_dirs (Some [''/'']) = [''/'']" by code_simp
  have "strip dir = dir" using plain_ends [OF assms(1)] by (simp add: strip_trimmed)
  then have norm: "normalize_dir dir = CHR ''/'' # join ''/'' (path_names dir)"
    using normalize_absolute [of dir] assms(2,3) by (metis append_Nil is_absolute_def)
  have "join ''/'' (path_names dir) \<noteq> [] \<and> hd (join ''/'' (path_names dir)) \<noteq> CHR ''/''"
    using assms(4) path_names_real [of dir] by (cases "(''/'', path_names dir)" rule: join.cases) (auto simp: real_names_def neq_Nil_conv)
  then show ?thesis unfolding root is_under_allowed_def norm Let_def by (auto simp: starts_with_def neq_Nil_conv)
qed

text \<open>
  The root directory admits only itself. With the root as the allowed directory the policy denies a
  command that changes to any directory below it, wherever the command stands in the call, although every
  directory is a subdirectory of the root.
\<close>
theorem root_directory_admits_nothing_below:
  assumes "block_working_dir_changes True block_worktree (Some [''/'']) ''deny'' tools = Inr f" and "ev_type ev = ''tool_call''"
    and "shell_call cmd tools (ev_data ev)" and "has_command seg cmd" and "runs_words ws seg" and "cd_to dir ws"
    and "starts_with dir ''/''" and "\<not> starts_with dir ''//''" and "path_names dir \<noteq> []"
  shows "\<exists>reason. f ev = Inr (deny_response reason)"
proof -
  obtain cfg where cfg: "make_dir_cfg True block_worktree (Some [''/'']) ''deny'' tools = Inr cfg" "f = dir_evaluate cfg"
    "dc_tools cfg = (case tools of None \<Rightarrow> default_shell_tools | Some ts \<Rightarrow> ts)" by (rule block_parts [OF assms(1)])
  have "plain_word dir" using assms(6) by (auto simp: cd_to_def)
  then have "cd_words cfg ws" using root_only assms(6-9) make_dir_cfg_parts [OF cfg(1)] by (auto simp: cd_words_def)
  from change_gated [OF cfg(1) this assms(5,4)] obtain reason where
    "evaluate_command cfg (Suc max_shell_nesting) cmd = Some (DENY, reason)" using make_dir_cfg_parts [OF cfg(1)] by auto
  moreover have "dir_evaluate cfg ev = Inr (dir_response (evaluate_command cfg (Suc max_shell_nesting) cmd))"
    by (rule dir_evaluate_call [OF assms(2,3) segment_not_blank [OF assms(6,5,4)] cfg(3)])
  ultimately show ?thesis by (simp add: cfg(2) dir_response_def deny_response_def)
qed

lemma ex_event: "ev_type (build_event (ex_shell_ctx cmd)) = ''tool_call''" "ev_data (build_event (ex_shell_ctx cmd)) = cx_content (ex_shell_ctx cmd)"
  by (simp_all add: build_event_def ex_shell_ctx_def ex_ctx_def)

theorem root_directory_admits_nothing_below_witness:
  "\<exists>reason. projr (block_working_dir_changes True True (Some [''/'']) ''deny'' None)
     (build_event (ex_shell_ctx (ex_seg @ CHR '';'' # '' ls''))) = Inr (deny_response reason)"
  by (rule root_directory_admits_nothing_below [where tools = None and block_worktree = True, OF _ _ _ ex_chained ex_runs ex_cd_to])
    (simp_all add: block_working_dir_changes_def make_dir_cfg_def ex_event ex_shell_call path_names_def path_step_def starts_with_def
       strip_def lstrip_def rstrip_def py_space_def)

text \<open>
  C18: An option of a wrapper hides the command behind it. Whatever the configuration, the policy abstains on a command
  that starts with one of the wrappers it strips and an option, \<open>sudo -u bob\<close> for one, whatever words follow:
  a change of directory or of the worktree is not seen.
\<close>
theorem wrapper_option_hides_the_command:
  assumes "block_working_dir_changes block_cd block_worktree dirs action tools = Inr f" and "ev_type ev = ''tool_call''"
    and "shell_call (join '' '' (w # opt # rest)) tools (ev_data ev)"
    and "w \<in> set cmd_wrappers" and "wrapper_option opt" and "list_all plain_word rest"
  shows "f ev = Inr RawNone"
proof -
  let ?cmd = "join '' '' (w # opt # rest)"
  obtain cfg where cfg: "f = dir_evaluate cfg" "dc_tools cfg = (case tools of None \<Rightarrow> default_shell_tools | Some ts \<Rightarrow> ts)"
    by (rule block_parts [OF assms(1)])
  have plain: "list_all plain_word (w # opt # rest)" using assms(4-6) wrapper_words by (simp add: wrapper_option_def)
  then have solid: "solid ?cmd" by (intro solid_words) simp_all
  have "gate_segment cfg inner ?cmd = None" for inner
    using assms(4) wrapper_option_word [OF assms(5)] by (simp add: gate_segment_def shlex_split_join [OF plain] del: join.simps)
  then have "evaluate_command cfg (Suc max_shell_nesting) ?cmd = None" by (simp add: solid_segments [OF solid] worse_def del: join.simps)
  moreover have "strip ?cmd \<noteq> []" using padded_segment(3) [OF padded_self solid] .
  ultimately show ?thesis using dir_evaluate_call [OF assms(2,3) _ cfg(2)] by (simp add: cfg(1) dir_response_def del: join.simps)
qed

abbreviation ex_shell_event :: "string \<Rightarrow> unit policy_event" where
  "ex_shell_event cmd \<equiv> build_event (ex_shell_ctx cmd)"

theorem wrapper_option_hides_the_command_witness:
  "projr (block_working_dir_changes True True None ''deny'' None) (ex_shell_event ''sudo -u bob git -C /etc status'') = Inr RawNone \<and>
   projr (block_working_dir_changes True True None ''deny'' None) (ex_shell_event ''sudo git -C /etc status'') \<noteq> Inr RawNone"
proof
  have "wrapper_option ''-u''" "list_all plain_word [''bob'', ''git'', ''-C'', ''/etc'', ''status'']" by code_simp+
  then show "projr (block_working_dir_changes True True None ''deny'' None) (ex_shell_event ''sudo -u bob git -C /etc status'') = Inr RawNone"
    by (intro wrapper_option_hides_the_command [where w = "''sudo''" and opt = "''-u''" and rest = "[''bob'', ''git'', ''-C'', ''/etc'', ''status'']"
          and block_cd = True and block_worktree = True and dirs = None and action = "''deny''" and tools = None])
      (simp_all add: block_working_dir_changes_def make_dir_cfg_def cmd_wrappers_def build_event_def shell_call_def ex_shell_ctx_def default_shell_tools_def ex_ctx_def)
  show "projr (block_working_dir_changes True True None ''deny'' None) (ex_shell_event ''sudo git -C /etc status'') \<noteq> Inr RawNone"
    by code_simp
qed

end
