(* ===== verification/Block_Notifier.thy ===== *)
theory Block_Notifier
  imports Py_Values
begin

text \<open>
  Waking the parent of a blocked sub-agent, \<^verbatim>\<open>codify/runtime/subagent_block_notifier.py\<close>. Every published
  elicitation event is observed on the thread that publishes it, and every request starts a coroutine on the
  event loop. A step is a critical section of an observing thread, or the stretch of a coroutine up to its
  next await or to the next critical section that another thread can tell apart; threads, coroutines and the
  callbacks of the loop interleave freely. What the store finds and whether a notice is delivered are
  arguments of a step; a dispatch that raises is one that does not deliver, and a look-up that raises ends the
  coroutine like one that finds nothing.
\<close>

section \<open>The notices\<close>

record child_row =
  cr_id :: string
  cr_title :: "string option"
  cr_parent :: "string option"

fun partition_on :: "string \<Rightarrow> string \<Rightarrow> string \<times> string" where
  \<comment> \<open>what stands before and after the first \<open>sep\<close>, \<open>s.partition(sep)\<close>\<close>
  "partition_on sep [] = ([], [])"
| "partition_on sep (c # cs) =
     (if starts_with (c # cs) sep then ([], drop (length sep) (c # cs))
      else let (before, after) = partition_on sep cs in (c # before, after))"

definition child_label :: "child_row \<Rightarrow> string" where
  "child_label child =
     (let title = (case cr_title child of None \<Rightarrow> [] | Some t \<Rightarrow> t)
      in if CHR '':'' \<in> set title
         then let (agent, remainder) = partition_on '':'' title; sa_title = fst (partition_on '':closed:'' remainder)
              in if sa_title \<noteq> [] then agent @ ''/'' @ sa_title else agent
         else if title \<noteq> [] then title else cr_id child)"

definition reason_max_chars :: nat where "reason_max_chars = 200"

definition block_reason :: "(string, pyval) pydict \<Rightarrow> string option" where
  \<comment> \<open>the ellipsis and the dash of the notices are written in UTF-8\<close>
  "block_reason ev =
     (case dget ev ''params'' of
        Some (PDict params) \<Rightarrow>
          (case dget params ''message'' of
             Some (PStr m) \<Rightarrow>
               (let message = strip m
                in if message = [] then None
                   else if reason_max_chars < length message
                   then Some (rstrip (take (reason_max_chars - 1) message) @ [CHR 0xE2, CHR 0x80, CHR 0xA6])
                   else Some message)
           | _ \<Rightarrow> None)
      | _ \<Rightarrow> None)"

definition format_block_notice :: "child_row \<Rightarrow> (string, pyval) pydict \<Rightarrow> string" where
  "format_block_notice child ev =
     ''[System: sub-agent '' @ child_label child @ '' is blocked awaiting human approval'' @
     (case block_reason ev of None \<Rightarrow> [] | Some reason \<Rightarrow> '': '' @ reason) @
     ''. Its approval prompt is mirrored into this conversation but has gone unanswered '' @ [CHR 0xE2, CHR 0x80, CHR 0x94] @
     '' surface the situation to the human and do not wait silently. It cannot continue until the request is resolved.]''"

definition format_resolution_notice :: "child_row \<Rightarrow> string" where
  "format_resolution_notice child =
     ''[System: sub-agent '' @ child_label child @ [CHR 0x27] @ ''s pending approval has been resolved and it is continuing. '' @
     ''No action is needed on the earlier block notice '' @ [CHR 0xE2, CHR 0x80, CHR 0x94] @
     '' if you are waiting on its output, the result will arrive in your inbox as usual.]''"

section \<open>The shared state\<close>

datatype wake_notice = Block_Notice | Resolution_Notice

datatype incident =
    Armed string
  | Released string
  | Resolved string
  | Attempted wake_notice string string string
  | Delivered wake_notice string

record notifier =
  nt_notified :: "string set"
  nt_signals :: "(string, nat) pydict"
  nt_inflight :: "nat set"
  nt_fresh :: nat
  nt_set :: "nat set"
  nt_calls :: "nat list"
  nt_open :: bool
  nt_history :: "incident list"

text \<open>
  Signals and futures are numbers: \<open>nt_fresh\<close> is the next signal, \<open>nt_set\<close> holds the signals that are set,
  \<open>nt_calls\<close> those whose \<open>set\<close> the loop still has to call, \<open>nt_open\<close> tells whether the loop runs, and
  \<open>nt_history\<close> is what happened, in order.
\<close>

definition new_notifier :: notifier where
  "new_notifier = \<lparr>nt_notified = {}, nt_signals = [], nt_inflight = {}, nt_fresh = 0, nt_set = {}, nt_calls = [], nt_open = True, nt_history = []\<rparr>"

definition happens :: "incident \<Rightarrow> notifier \<Rightarrow> notifier" where
  "happens x nt = nt\<lparr>nt_history := nt_history nt @ [x]\<rparr>"

section \<open>The coroutine\<close>

definition wake_retries :: nat where "wake_retries = 2"

datatype spot =
    Grace
  | Looking
  | Registering child_row
  | Checking wake_notice child_row nat
  | Sending wake_notice child_row nat
  | Pausing wake_notice child_row nat
  | Waiting child_row
  | Ended

record handler =
  hr_conv :: string
  hr_event :: "(string, pyval) pydict"
  hr_id :: string
  hr_signal :: nat
  hr_spot :: spot
  hr_cancelled :: bool
  hr_hooked :: bool

datatype move = Go | Looked "child_row option" | Sent bool | Abort

definition move_to :: "spot \<Rightarrow> handler \<Rightarrow> handler" where
  "move_to s h = h\<lparr>hr_spot := s\<rparr>"

definition leave_handler :: "handler \<Rightarrow> notifier \<Rightarrow> handler \<times> notifier" where
  \<comment> \<open>the \<open>finally\<close> block\<close>
  "leave_handler h nt = (move_to Ended h, nt\<lparr>nt_signals := ddel (hr_id h) (nt_signals nt)\<rparr>)"

definition release :: "string \<Rightarrow> notifier \<Rightarrow> notifier" where
  "release e nt = happens (Released e) (nt\<lparr>nt_notified := nt_notified nt - {e}\<rparr>)"

definition register_signal :: "child_row \<Rightarrow> handler \<Rightarrow> notifier \<Rightarrow> handler \<times> notifier" where
  "register_signal child h nt =
     (if hr_id h \<in> nt_notified nt
      then (move_to (Checking Block_Notice child 0) (h\<lparr>hr_signal := nt_fresh nt\<rparr>),
            nt\<lparr>nt_fresh := Suc (nt_fresh nt), nt_signals := dset (hr_id h) (nt_fresh nt) (nt_signals nt)\<rparr>)
      else (move_to Ended h, nt))"

definition notice_text :: "wake_notice \<Rightarrow> child_row \<Rightarrow> handler \<Rightarrow> string" where
  "notice_text k child h = (case k of Block_Notice \<Rightarrow> format_block_notice child (hr_event h) | Resolution_Notice \<Rightarrow> format_resolution_notice child)"

definition begin_attempt :: "wake_notice \<Rightarrow> child_row \<Rightarrow> nat \<Rightarrow> handler \<Rightarrow> notifier \<Rightarrow> handler \<times> notifier" where
  \<comment> \<open>the check of the arm and the call of the dispatch; without an arm the outcome is \<open>MOOT\<close>\<close>
  "begin_attempt k child n h nt =
     (if k = Block_Notice \<and> hr_id h \<notin> nt_notified nt then leave_handler h nt
      else (move_to (Sending k child n) h,
            happens (Attempted k (hr_id h) (case cr_parent child of None \<Rightarrow> [] | Some p \<Rightarrow> p) (notice_text k child h)) nt))"

definition end_attempt :: "bool \<Rightarrow> wake_notice \<Rightarrow> child_row \<Rightarrow> nat \<Rightarrow> handler \<Rightarrow> notifier \<Rightarrow> handler \<times> notifier" where
  "end_attempt ok k child n h nt =
     (if ok
      then let nt' = happens (Delivered k (hr_id h)) nt in (case k of Block_Notice \<Rightarrow> (move_to (Waiting child) h, nt') | Resolution_Notice \<Rightarrow> leave_handler h nt')
      else if n < wake_retries then (move_to (Pausing k child n) h, nt)
      else case k of Block_Notice \<Rightarrow> leave_handler h (release (hr_id h) nt) | Resolution_Notice \<Rightarrow> leave_handler h nt)"

definition abort_handler :: "handler \<Rightarrow> notifier \<Rightarrow> (handler \<times> notifier) option" where
  \<comment> \<open>a cancelled coroutine raises at an await; the signal is dropped once it may be registered\<close>
  "abort_handler h nt =
     (if \<not> hr_cancelled h then None
      else case hr_spot h of
        Grace \<Rightarrow> Some (move_to Ended h, nt)
      | Looking \<Rightarrow> Some (move_to Ended h, nt)
      | Sending k child n \<Rightarrow> Some (leave_handler h nt)
      | Pausing k child n \<Rightarrow> Some (leave_handler h nt)
      | Waiting child \<Rightarrow> Some (leave_handler h nt)
      | _ \<Rightarrow> None)"

fun move_from :: "spot \<Rightarrow> move \<Rightarrow> handler \<Rightarrow> notifier \<Rightarrow> (handler \<times> notifier) option" where
  "move_from Grace Go h nt = Some (move_to (if hr_id h \<in> nt_notified nt then Looking else Ended) h, nt)"
| "move_from Looking (Looked found) h nt =
     Some (move_to (case found of None \<Rightarrow> Ended | Some child \<Rightarrow> if cr_parent child = None then Ended else Registering child) h, nt)"
| "move_from (Registering child) Go h nt = Some (register_signal child h nt)"
| "move_from (Checking k child n) Go h nt = Some (begin_attempt k child n h nt)"
| "move_from (Sending k child n) (Sent ok) h nt = Some (end_attempt ok k child n h nt)"
| "move_from (Pausing k child n) Go h nt = Some (move_to (Checking k child (Suc n)) h, nt)"
| "move_from (Waiting child) Go h nt = (if hr_signal h \<in> nt_set nt then Some (move_to (Checking Resolution_Notice child 0) h, nt) else None)"
| "move_from s Abort h nt = abort_handler h nt"
| "move_from s mv h nt = None"

definition handler_move :: "move \<Rightarrow> handler \<Rightarrow> notifier \<Rightarrow> (handler \<times> notifier) option" where
  "handler_move mv h nt = (if nt_open nt then move_from (hr_spot h) mv h nt else None)"

section \<open>The observers\<close>

datatype observer =
    Arming string "(string, pyval) pydict" string
  | Scheduling string "(string, pyval) pydict" string
  | Tracking nat
  | Hooking nat
  | Clearing string
  | Signalling nat
  | Observed

definition request_type :: string where "request_type = ''response.elicitation_request''"

definition resolved_type :: string where "resolved_type = ''response.elicitation_resolved''"

definition observe :: "string \<Rightarrow> (string, pyval) pydict \<Rightarrow> observer" where
  "observe conv ev =
     (case dget ev ''elicitation_id'' of
        Some (PStr e) \<Rightarrow>
          if e = [] then Observed
          else if dget ev ''type'' = Some (PStr resolved_type) then Clearing e
          else if dget ev ''type'' = Some (PStr request_type) then Arming conv ev e
          else Observed
      | _ \<Rightarrow> Observed)"

definition handle_request :: "string \<Rightarrow> (string, pyval) pydict \<Rightarrow> string \<Rightarrow> handler" where
  "handle_request conv ev e =
     \<lparr>hr_conv = conv, hr_event = ev, hr_id = e, hr_signal = 0, hr_spot = Grace, hr_cancelled = False, hr_hooked = False\<rparr>"

record wake_machine =
  mc_notifier :: notifier
  mc_observers :: "observer list"
  mc_handlers :: "handler list"

definition observer_move :: "observer \<Rightarrow> notifier \<Rightarrow> handler list \<Rightarrow> (observer \<times> notifier \<times> handler list) option" where
  "observer_move ob nt hs =
     (case ob of
        Arming conv ev e \<Rightarrow>
          if e \<in> nt_notified nt then Some (Observed, nt, hs)
          else Some (Scheduling conv ev e, happens (Armed e) (nt\<lparr>nt_notified := insert e (nt_notified nt)\<rparr>), hs)
      | Scheduling conv ev e \<Rightarrow>
          if nt_open nt then Some (Tracking (length hs), nt, hs @ [handle_request conv ev e]) else Some (Observed, release e nt, hs)
      | Tracking f \<Rightarrow> Some (Hooking f, nt\<lparr>nt_inflight := insert f (nt_inflight nt)\<rparr>, hs)
      | Hooking f \<Rightarrow> Some (Observed, nt, hs[f := (hs ! f)\<lparr>hr_hooked := True\<rparr>])
      | Clearing e \<Rightarrow>
          Some (case dget (nt_signals nt) e of None \<Rightarrow> Observed | Some s \<Rightarrow> Signalling s,
                happens (Resolved e) (nt\<lparr>nt_notified := nt_notified nt - {e}\<rparr>), hs)
      | Signalling s \<Rightarrow> Some (Observed, if nt_open nt then nt\<lparr>nt_calls := nt_calls nt @ [s]\<rparr> else nt, hs)
      | Observed \<Rightarrow> None)"

section \<open>The machine\<close>

definition new_wakes :: wake_machine where
  "new_wakes = \<lparr>mc_notifier = new_notifier, mc_observers = [], mc_handlers = []\<rparr>"

datatype wake_label =
    Publish string "(string, pyval) pydict"
  | Observer nat
  | Handler nat move
  | Callback
  | Discard nat
  | Close
  | Loop_Gone

definition discard_inflight :: "nat \<Rightarrow> notifier \<Rightarrow> notifier" where
  "discard_inflight f nt = nt\<lparr>nt_inflight := nt_inflight nt - {f}\<rparr>"

definition close_notifier :: "wake_machine \<Rightarrow> wake_machine" where
  "close_notifier m =
     (let nt = mc_notifier m
      in m\<lparr>mc_notifier := nt\<lparr>nt_inflight := {}\<rparr>,
           mc_handlers := map (\<lambda>(i, h). if i \<in> nt_inflight nt then h\<lparr>hr_cancelled := True\<rparr> else h) (enumerate 0 (mc_handlers m))\<rparr>)"

definition wake_step :: "wake_label \<Rightarrow> wake_machine \<Rightarrow> wake_machine option" where
  "wake_step l m =
     (let nt = mc_notifier m; obs = mc_observers m; hs = mc_handlers m
      in case l of
        Publish conv ev \<Rightarrow> Some (m\<lparr>mc_observers := obs @ [observe conv ev]\<rparr>)
      | Observer i \<Rightarrow>
          if i < length obs
          then map_option (\<lambda>(ob, nt', hs'). \<lparr>mc_notifier = nt', mc_observers = obs[i := ob], mc_handlers = hs'\<rparr>) (observer_move (obs ! i) nt hs)
          else None
      | Handler i mv \<Rightarrow>
          if i < length hs
          then map_option (\<lambda>(h, nt'). m\<lparr>mc_notifier := nt', mc_handlers := hs[i := h]\<rparr>) (handler_move mv (hs ! i) nt)
          else None
      | Callback \<Rightarrow>
          (case nt_calls nt of
             [] \<Rightarrow> None
           | s # rest \<Rightarrow> if nt_open nt then Some (m\<lparr>mc_notifier := nt\<lparr>nt_calls := rest, nt_set := insert s (nt_set nt)\<rparr>\<rparr>) else None)
      | Discard i \<Rightarrow>
          if i < length hs \<and> hr_spot (hs ! i) = Ended \<and> hr_hooked (hs ! i)
          then Some (m\<lparr>mc_notifier := discard_inflight i nt\<rparr>) else None
      | Close \<Rightarrow> Some (close_notifier m)
      | Loop_Gone \<Rightarrow> Some (m\<lparr>mc_notifier := nt\<lparr>nt_open := False\<rparr>\<rparr>))"

fun run_wakes :: "wake_label list \<Rightarrow> wake_machine \<Rightarrow> wake_machine option" where
  "run_wakes [] m = Some m"
| "run_wakes (l # ls) m = Option.bind (wake_step l m) (run_wakes ls)"

end
