(* ===== verification/Block_Notifier_Props.thy ===== *)
theory Block_Notifier_Props
  imports Block_Notifier
begin

text \<open>
  What the notifier guarantees in every interleaving: while no block is requested again after it was
  resolved, a parent is told of a block at most once and only while it is open, it is told of the resolution
  only after that, and a coroutine that waits for the resolution is never left waiting. A block that is
  requested again under its old identifier breaks the last two.
\<close>

section \<open>What was told\<close>

definition resolved_in :: "incident list \<Rightarrow> string set" where
  "resolved_in hs = set (List.map_filter (\<lambda>x. case x of Resolved e \<Rightarrow> Some e | _ \<Rightarrow> None) hs)"

lemma in_resolved: "e \<in> resolved_in hs \<longleftrightarrow> Resolved e \<in> set hs"
  by (induction hs) (auto simp: resolved_in_def map_filter_simps split: incident.splits)

fun told :: "incident list \<Rightarrow> incident \<Rightarrow> bool" where
  \<comment> \<open>whether the incident may happen after the others\<close>
  "told hs (Attempted Block_Notice e p t) \<longleftrightarrow> e \<notin> resolved_in hs"
| "told hs (Attempted Resolution_Notice e p t) \<longleftrightarrow> e \<in> resolved_in hs \<and> Delivered Block_Notice e \<in> set hs"
| "told hs (Delivered Block_Notice e) \<longleftrightarrow> Delivered Block_Notice e \<notin> set hs"
| "told hs x \<longleftrightarrow> True"

definition orderly :: "incident list \<Rightarrow> bool" where
  "orderly hs \<longleftrightarrow> (\<forall>i < length hs. told (take i hs) (hs ! i))"

fun requested_again :: "incident list \<Rightarrow> incident \<Rightarrow> bool" where
  "requested_again hs (Armed e) \<longleftrightarrow> e \<in> resolved_in hs"
| "requested_again hs x \<longleftrightarrow> False"

definition requested_once :: "incident list \<Rightarrow> bool" where
  \<comment> \<open>no block is requested after it was resolved\<close>
  "requested_once hs \<longleftrightarrow> (\<forall>i < length hs. \<not> requested_again (take i hs) (hs ! i))"

lemma all_snoc: "(\<forall>i < length (hs @ [x]). P (take i (hs @ [x])) ((hs @ [x]) ! i)) \<longleftrightarrow> (\<forall>i < length hs. P (take i hs) (hs ! i)) \<and> P hs x"
  by (auto simp: nth_append less_Suc_eq)

lemma orderly_snoc [simp]: "orderly (hs @ [x]) \<longleftrightarrow> orderly hs \<and> told hs x"
  unfolding orderly_def by (rule all_snoc)

lemma requested_once_snoc [simp]: "requested_once (hs @ [x]) \<longleftrightarrow> requested_once hs \<and> \<not> requested_again hs x"
  unfolding requested_once_def by (rule all_snoc)

lemma resolved_in_snoc [simp]: "resolved_in (hs @ [x]) = (case x of Resolved e \<Rightarrow> insert e (resolved_in hs) | _ \<Rightarrow> resolved_in hs)"
  by (auto simp: in_resolved split: incident.split)

section \<open>Who is responsible for a block\<close>

datatype agent = Obs nat | Hnd nat

fun owner :: "wake_machine \<Rightarrow> agent \<Rightarrow> string option" where
  "owner m (Obs i) = (if i < length (mc_observers m) then (case mc_observers m ! i of Scheduling conv ev e \<Rightarrow> Some e | _ \<Rightarrow> None) else None)"
| "owner m (Hnd i) = (if i < length (mc_handlers m) \<and> hr_spot (mc_handlers m ! i) \<noteq> Ended then Some (hr_id (mc_handlers m ! i)) else None)"

definition signalled :: "wake_machine \<Rightarrow> nat set" where
  \<comment> \<open>the signals that are set or will be\<close>
  "signalled m = nt_set (mc_notifier m) \<union> set (nt_calls (mc_notifier m)) \<union> {s. Signalling s \<in> set (mc_observers m)}"

fun before_wake :: "spot \<Rightarrow> bool" where
  "before_wake (Checking k child n) \<longleftrightarrow> k = Block_Notice"
| "before_wake (Sending k child n) \<longleftrightarrow> k = Block_Notice"
| "before_wake (Pausing k child n) \<longleftrightarrow> k = Block_Notice"
| "before_wake (Waiting child) \<longleftrightarrow> False"
| "before_wake Ended \<longleftrightarrow> False"
| "before_wake s \<longleftrightarrow> True"

fun registered :: "spot \<Rightarrow> bool" where
  "registered (Checking k child n) \<longleftrightarrow> True"
| "registered (Sending k child n) \<longleftrightarrow> True"
| "registered (Pausing k child n) \<longleftrightarrow> True"
| "registered (Waiting child) \<longleftrightarrow> True"
| "registered s \<longleftrightarrow> False"

fun closing_loop :: "spot \<Rightarrow> bool" where
  \<comment> \<open>sending the resolution notice\<close>
  "closing_loop (Checking k child n) \<longleftrightarrow> k = Resolution_Notice"
| "closing_loop (Sending k child n) \<longleftrightarrow> k = Resolution_Notice"
| "closing_loop (Pausing k child n) \<longleftrightarrow> k = Resolution_Notice"
| "closing_loop s \<longleftrightarrow> False"

definition handler_ok :: "notifier \<Rightarrow> nat set \<Rightarrow> handler \<Rightarrow> bool" where
  "handler_ok nt S h \<longleftrightarrow>
     (let R = resolved_in (nt_history nt); told_block = Delivered Block_Notice (hr_id h) \<in> set (nt_history nt)
      in (before_wake (hr_spot h) \<longrightarrow> \<not> told_block) \<and>
         (registered (hr_spot h) \<longrightarrow>
            dget (nt_signals nt) (hr_id h) = Some (hr_signal h) \<and> (hr_signal h \<in> S \<longrightarrow> hr_id h \<in> R) \<and>
            (hr_id h \<in> R \<and> nt_open nt \<longrightarrow> hr_signal h \<in> S) \<and> (\<not> before_wake (hr_spot h) \<longrightarrow> told_block)) \<and>
         (closing_loop (hr_spot h) \<longrightarrow> hr_id h \<in> R))"

definition blocks_owned :: "notifier \<Rightarrow> (agent \<Rightarrow> string option) \<Rightarrow> bool" where
  "blocks_owned nt own \<longleftrightarrow>
     (\<forall>a b e. own a = Some e \<and> own b = Some e \<longrightarrow> a = b) \<and>
     (\<forall>a e. own a = Some e \<longrightarrow> e \<in> nt_notified nt \<or> e \<in> resolved_in (nt_history nt))"

definition notifier_ok :: "notifier \<Rightarrow> nat set \<Rightarrow> bool" where
  "notifier_ok nt S \<longleftrightarrow>
     resolved_in (nt_history nt) \<inter> nt_notified nt = {} \<and>
     (\<forall>e. Delivered Block_Notice e \<in> set (nt_history nt) \<longrightarrow> e \<in> nt_notified nt \<or> e \<in> resolved_in (nt_history nt)) \<and>
     (\<forall>e s. dget (nt_signals nt) e = Some s \<longrightarrow> s < nt_fresh nt) \<and> (\<forall>s \<in> S. s < nt_fresh nt) \<and>
     (\<forall>e e' s. dget (nt_signals nt) e = Some s \<and> dget (nt_signals nt) e' = Some s \<longrightarrow> e = e') \<and>
     orderly (nt_history nt)"

definition wakes_ok :: "wake_machine \<Rightarrow> bool" where
  "wakes_ok m \<longleftrightarrow>
     blocks_owned (mc_notifier m) (owner m) \<and> notifier_ok (mc_notifier m) (signalled m) \<and>
     (\<forall>h \<in> set (mc_handlers m). handler_ok (mc_notifier m) (signalled m) h) \<and>
     (\<forall>conv ev e. Scheduling conv ev e \<in> set (mc_observers m) \<longrightarrow> Delivered Block_Notice e \<notin> set (nt_history (mc_notifier m)))"

section \<open>A step of a coroutine\<close>

definition moved :: "nat set \<Rightarrow> handler \<Rightarrow> notifier \<Rightarrow> handler \<Rightarrow> notifier \<Rightarrow> bool" where
  \<comment> \<open>what a coroutine may do to the shared state\<close>
  "moved S h nt h' nt' \<longleftrightarrow>
     hr_spot h \<noteq> Ended \<and> hr_id h' = hr_id h \<and> nt_open nt' = nt_open nt \<and> nt_set nt' = nt_set nt \<and> nt_calls nt' = nt_calls nt \<and>
     (\<forall>e. e \<noteq> hr_id h \<longrightarrow> dget (nt_signals nt') e = dget (nt_signals nt) e) \<and>
     (nt_notified nt' = nt_notified nt \<or> nt_notified nt' = nt_notified nt - {hr_id h} \<and> hr_spot h' = Ended) \<and>
     resolved_in (nt_history nt') = resolved_in (nt_history nt) \<and>
     (\<forall>k e. e \<noteq> hr_id h \<longrightarrow> Delivered k e \<in> set (nt_history nt') \<longleftrightarrow> Delivered k e \<in> set (nt_history nt)) \<and>
     notifier_ok nt' S \<and> handler_ok nt' S h'"

lemma moved_spot:
  \<comment> \<open>the coroutine goes on and leaves the shared state alone\<close>
  assumes "handler_ok nt S h" and "notifier_ok nt S" and "hr_spot h \<noteq> Ended"
    and "before_wake s \<longrightarrow> before_wake (hr_spot h)" and "registered s \<longrightarrow> registered (hr_spot h) \<and> (before_wake (hr_spot h) \<longrightarrow> before_wake s)"
    and "closing_loop s \<longrightarrow> hr_id h \<in> resolved_in (nt_history nt)"
  shows "moved S h nt (move_to s h) nt"
  using assms by (auto simp: moved_def handler_ok_def move_to_def Let_def)

lemma moved_leave:
  assumes "notifier_ok nt S" and "hr_spot h \<noteq> Ended"
  shows "moved S h nt (fst (leave_handler h nt)) (snd (leave_handler h nt))"
  using assms by (auto simp: moved_def handler_ok_def move_to_def leave_handler_def notifier_ok_def)

lemma moved_release:
  assumes "notifier_ok nt S" and "hr_spot h \<noteq> Ended" and "before_wake (hr_spot h)" and "handler_ok nt S h"
  shows "moved S h nt (fst (leave_handler h (release (hr_id h) nt))) (snd (leave_handler h (release (hr_id h) nt)))"
  using assms by (auto simp: moved_def handler_ok_def move_to_def leave_handler_def notifier_ok_def release_def happens_def Let_def)

lemma moved_register:
  assumes "handler_ok nt S h" and "notifier_ok nt S" and "hr_spot h = Registering child"
  shows "moved S h nt (fst (register_signal child h nt)) (snd (register_signal child h nt))"
  using assms unfolding moved_def register_signal_def notifier_ok_def handler_ok_def move_to_def Let_def
  by (auto simp: disjoint_iff split: if_splits) (metis less_SucI less_irrefl)+

lemma moved_attempt:
  assumes "handler_ok nt S h" and "notifier_ok nt S" and "hr_spot h = Checking k child n"
  shows "moved S h nt (fst (begin_attempt k child n h nt)) (snd (begin_attempt k child n h nt))"
proof (cases "k = Block_Notice \<and> hr_id h \<notin> nt_notified nt")
  case True
  then show ?thesis using moved_leave [OF assms(2)] assms(3) by (simp add: begin_attempt_def)
next
  case False
  then show ?thesis using assms
    by (cases k) (auto simp: moved_def begin_attempt_def notifier_ok_def handler_ok_def move_to_def happens_def Let_def disjoint_iff)
qed

lemma moved_result:
  assumes "handler_ok nt S h" and "notifier_ok nt S" and "hr_spot h = Sending k child n"
    and "hr_id h \<in> nt_notified nt \<or> hr_id h \<in> resolved_in (nt_history nt)"
  shows "moved S h nt (fst (end_attempt ok k child n h nt)) (snd (end_attempt ok k child n h nt))"
proof -
  consider (delivered) "ok" | (pause) "\<not> ok" "n < wake_retries" | (failed) "\<not> ok" "\<not> n < wake_retries" by blast
  then show ?thesis
  proof cases
    case delivered
    then show ?thesis using assms
      by (cases k) (auto simp: moved_def end_attempt_def notifier_ok_def handler_ok_def move_to_def happens_def leave_handler_def Let_def)
  next
    case pause
    then show ?thesis using moved_spot [OF assms(1,2), of "Pausing k child n"] assms(1,3)
      by (cases k) (auto simp: end_attempt_def handler_ok_def Let_def)
  next
    case failed
    then show ?thesis using moved_leave [OF assms(2), of h] moved_release [OF assms(2) _ _ assms(1)] assms(3)
      by (cases k) (simp_all add: end_attempt_def)
  qed
qed

lemma handler_moved:
  assumes "handler_move mv h nt = Some (h', nt')" and "handler_ok nt S h" and "notifier_ok nt S" and "nt_set nt \<subseteq> S"
    and "hr_spot h \<noteq> Ended \<longrightarrow> hr_id h \<in> nt_notified nt \<or> hr_id h \<in> resolved_in (nt_history nt)"
  shows "moved S h nt h' nt'"
proof -
  note spot = moved_spot [OF assms(2,3)] and lv = moved_leave [OF assms(3), of h]
  have run: "move_from (hr_spot h) mv h nt = Some (h', nt')" using assms(1) by (auto simp: handler_move_def split: if_splits)
  show ?thesis
  proof (cases mv)
    case Abort
    then have "abort_handler h nt = Some (h', nt')" using run by (cases "hr_spot h") auto
    then show ?thesis using spot [of Ended] lv by (auto simp: abort_handler_def split: if_splits spot.splits)
  next
    case Go
    show ?thesis
    proof (cases "hr_spot h")
      case (Registering child)
      then show ?thesis using moved_register [OF assms(2,3)] run Go by simp
    next
      case (Checking k child n)
      then show ?thesis using moved_attempt [OF assms(2,3)] run Go by simp
    next
      case (Waiting child)
      then have "hr_signal h \<in> S" "h' = move_to (Checking Resolution_Notice child 0) h" "nt' = nt"
        using run Go assms(4) by (auto split: if_splits)
      then show ?thesis using spot [of "Checking Resolution_Notice child 0"] assms(2) Waiting by (auto simp: handler_ok_def Let_def)
    next
      case (Pausing k child n)
      then show ?thesis using spot [of "Checking k child (Suc n)"] run Go assms(2) by (auto simp: handler_ok_def Let_def)
    next
      case Grace
      then show ?thesis using spot [of Looking] spot [of Ended] run Go by (auto split: if_splits)
    qed (use run Go in simp_all)
  next
    case (Looked found)
    then show ?thesis using run spot [of Ended] spot [of "Registering c" for c] by (cases "hr_spot h") (auto split: option.splits)
  next
    case (Sent ok)
    show ?thesis
    proof (cases "hr_spot h")
      case (Sending k child n)
      then have "end_attempt ok k child n h nt = (h', nt')" using run Sent by simp
      then show ?thesis using moved_result [OF assms(2,3) Sending, of ok] assms(5) Sending by simp
    qed (use run Sent in simp_all)
  qed
qed

section \<open>A step of the machine\<close>

lemma handler_ok_other:
  \<comment> \<open>a coroutine of another block does not notice\<close>
  assumes "handler_ok nt S g" and "moved S h nt h' nt'" and "hr_spot g \<noteq> Ended \<longrightarrow> hr_id g \<noteq> hr_id h"
  shows "handler_ok nt' S g"
proof (cases "hr_spot g = Ended")
  case True
  then show ?thesis by (simp add: handler_ok_def)
next
  case False
  then show ?thesis using assms unfolding moved_def handler_ok_def Let_def by auto
qed

lemma handler_step_ok:
  assumes "wakes_ok m" and "i < length (mc_handlers m)" and "handler_move mv (mc_handlers m ! i) (mc_notifier m) = Some (h', nt')"
  shows "wakes_ok (m\<lparr>mc_notifier := nt', mc_handlers := (mc_handlers m)[i := h']\<rparr>)"
proof -
  let ?h = "mc_handlers m ! i" and ?nt = "mc_notifier m" and ?m = "m\<lparr>mc_notifier := nt', mc_handlers := (mc_handlers m)[i := h']\<rparr>"
  note ok = assms(1) [unfolded wakes_ok_def]
  have own_i: "hr_spot ?h \<noteq> Ended \<Longrightarrow> owner m (Hnd i) = Some (hr_id ?h)" using assms(2) by simp
  have alone: "owner m a = Some (hr_id ?h) \<Longrightarrow> hr_spot ?h \<noteq> Ended \<Longrightarrow> a = Hnd i" for a
    using ok own_i unfolding blocks_owned_def by blast
  have covered: "hr_spot ?h \<noteq> Ended \<longrightarrow> hr_id ?h \<in> nt_notified ?nt \<or> hr_id ?h \<in> resolved_in (nt_history ?nt)"
    using ok own_i unfolding blocks_owned_def by blast
  have m: "moved (signalled m) ?h ?nt h' nt'"
    by (rule handler_moved [OF assms(3) _ _ _ covered]) (use ok assms(2) in \<open>auto simp: signalled_def\<close>)
  have live: "hr_spot ?h \<noteq> Ended" using m by (simp add: moved_def)
  have S: "signalled ?m = signalled m" using m by (simp add: signalled_def moved_def)
  have own: "owner ?m a = (if a = Hnd i \<and> hr_spot h' = Ended then None else owner m a)" for a
    using m assms(2) by (cases a) (auto simp: moved_def nth_list_update)
  have "blocks_owned nt' (owner ?m)"
    unfolding blocks_owned_def own
  proof (intro conjI allI impI)
    fix a b e
    assume "(if a = Hnd i \<and> hr_spot h' = Ended then None else owner m a) = Some e \<and> (if b = Hnd i \<and> hr_spot h' = Ended then None else owner m b) = Some e"
    then show "a = b" using ok unfolding blocks_owned_def by (metis option.distinct(1))
  next
    fix a e
    assume a: "(if a = Hnd i \<and> hr_spot h' = Ended then None else owner m a) = Some e"
    then have own_a: "owner m a = Some e" by (simp split: if_splits)
    then have cov: "e \<in> nt_notified ?nt \<or> e \<in> resolved_in (nt_history ?nt)" using ok unfolding blocks_owned_def by blast
    have "hr_spot h' = Ended \<Longrightarrow> e \<noteq> hr_id ?h" using a own_a alone [OF _ live] by auto
    then show "e \<in> nt_notified nt' \<or> e \<in> resolved_in (nt_history nt')" using cov m by (auto simp: moved_def)
  qed
  moreover have "handler_ok nt' (signalled m) g" if "g \<in> set ((mc_handlers m)[i := h'])" for g
  proof -
    obtain j where j: "j < length (mc_handlers m)" "g = (mc_handlers m)[i := h'] ! j" using \<open>g \<in> _\<close> by (auto simp: in_set_conv_nth)
    show ?thesis
    proof (cases "j = i")
      case True
      then show ?thesis using m j by (simp add: moved_def)
    next
      case False
      then have g: "g = mc_handlers m ! j" using j by simp
      have "hr_spot g \<noteq> Ended \<longrightarrow> hr_id g \<noteq> hr_id ?h" using alone [of "Hnd j"] live False j(1) g by auto
      then show ?thesis using handler_ok_other [OF _ m] ok g j(1) by simp
    qed
  qed
  moreover have "Delivered Block_Notice e \<notin> set (nt_history nt')" if sched: "Scheduling conv ev e \<in> set (mc_observers m)" for conv ev e
  proof -
    obtain k where "k < length (mc_observers m)" "mc_observers m ! k = Scheduling conv ev e" using sched by (auto simp: in_set_conv_nth)
    then have "owner m (Obs k) = Some e" by simp
    then have "e \<noteq> hr_id ?h" using alone [of "Obs k"] live by auto
    then show ?thesis using m ok sched by (auto simp: moved_def)
  qed
  ultimately show ?thesis using m S by (simp add: wakes_ok_def moved_def)
qed

lemma in_set_update: "i < length xs \<Longrightarrow> xs ! i \<noteq> x \<Longrightarrow> x \<in> set (xs[i := y]) \<longleftrightarrow> x = y \<or> x \<in> set xs"
  by (metis in_set_conv_nth length_list_update nth_list_update_eq nth_list_update_neq set_update_memI)

lemma update_keeps: "x \<in> set (xs[i := y]) \<Longrightarrow> x = y \<or> x \<in> set xs"
  using set_update_subset_insert [of xs i y] by blast

lemma arming_ok:
  assumes "wakes_ok m" and "i < length (mc_observers m)" and "mc_observers m ! i = Arming conv ev e"
    and "e \<notin> nt_notified (mc_notifier m)" and "e \<notin> resolved_in (nt_history (mc_notifier m))"
  shows "wakes_ok (m\<lparr>mc_notifier := happens (Armed e) ((mc_notifier m)\<lparr>nt_notified := insert e (nt_notified (mc_notifier m))\<rparr>),
    mc_observers := (mc_observers m)[i := Scheduling conv ev e]\<rparr>)" (is "wakes_ok ?m")
proof -
  note ok = assms(1) [unfolded wakes_ok_def]
  have free: "owner m a \<noteq> Some e" for a using ok assms(4,5) unfolding blocks_owned_def by blast
  have own: "owner ?m a = (if a = Obs i then Some e else owner m a)" for a
    using assms(2,3) by (cases a) (auto simp: nth_list_update happens_def)
  have S: "signalled ?m = signalled m" using assms(2,3) by (auto simp: signalled_def happens_def in_set_update)
  have "blocks_owned (mc_notifier ?m) (owner ?m)"
    using ok free unfolding blocks_owned_def own by (auto simp: happens_def split: if_splits)
  moreover have "notifier_ok (mc_notifier ?m) (signalled ?m)"
    using ok assms(5) unfolding S notifier_ok_def by (auto simp: happens_def)
  moreover have "handler_ok (mc_notifier ?m) (signalled ?m) h" if "h \<in> set (mc_handlers ?m)" for h
    using ok that unfolding S by (auto simp: handler_ok_def happens_def Let_def)
  moreover have "Delivered Block_Notice e' \<notin> set (nt_history (mc_notifier ?m))" if "Scheduling conv' ev' e' \<in> set (mc_observers ?m)" for conv' ev' e'
    using ok that assms(2-5) unfolding notifier_ok_def by (auto simp: happens_def in_set_update)
  ultimately show ?thesis unfolding wakes_ok_def by blast
qed

lemma scheduling_ok:
  assumes "wakes_ok m" and "i < length (mc_observers m)" and "mc_observers m ! i = Scheduling conv ev e"
  shows "wakes_ok (m\<lparr>mc_observers := (mc_observers m)[i := Tracking f], mc_handlers := mc_handlers m @ [handle_request conv ev e]\<rparr>)" (is "wakes_ok ?m")
proof -
  note ok = assms(1) [unfolded wakes_ok_def]
  have own_i: "owner m (Obs i) = Some e" using assms(2,3) by simp
  have own: "owner ?m a = (if a = Obs i then None else if a = Hnd (length (mc_handlers m)) then Some e else owner m a)" for a
    using assms(2,3) by (cases a) (auto simp: nth_list_update nth_append handle_request_def)
  have S: "signalled ?m = signalled m" using assms(2,3) by (auto simp: signalled_def in_set_update)
  have alone: "owner m a = Some e \<Longrightarrow> a = Obs i" for a using ok own_i unfolding blocks_owned_def by blast
  have "e \<in> nt_notified (mc_notifier m) \<or> e \<in> resolved_in (nt_history (mc_notifier m))" using ok own_i unfolding blocks_owned_def by blast
  then have "blocks_owned (mc_notifier m) (owner ?m)"
    using ok alone unfolding blocks_owned_def own by (auto split: if_splits simp del: owner.simps)
  moreover have "Delivered Block_Notice e \<notin> set (nt_history (mc_notifier m))" using ok assms(2,3) by (metis nth_mem)
  then have "handler_ok (mc_notifier m) (signalled m) (handle_request conv ev e)" by (simp add: handler_ok_def handle_request_def Let_def)
  ultimately show ?thesis using ok S by (auto simp: wakes_ok_def dest: update_keeps)
qed

lemma dropped_ok:
  assumes "wakes_ok m" and "i < length (mc_observers m)" and "mc_observers m ! i = Scheduling conv ev e"
  shows "wakes_ok (m\<lparr>mc_notifier := release e (mc_notifier m), mc_observers := (mc_observers m)[i := Observed]\<rparr>)" (is "wakes_ok ?m")
proof -
  note ok = assms(1) [unfolded wakes_ok_def]
  have own_i: "owner m (Obs i) = Some e" using assms(2,3) by simp
  have alone: "owner m a = Some e \<Longrightarrow> a = Obs i" for a using ok own_i unfolding blocks_owned_def by blast
  have own: "owner ?m a = (if a = Obs i then None else owner m a)" for a
    using assms(2,3) by (cases a) (auto simp: nth_list_update)
  have S: "signalled ?m = signalled m" using assms(2,3) by (auto simp: signalled_def in_set_update release_def happens_def)
  have untold: "Delivered Block_Notice e \<notin> set (nt_history (mc_notifier m))" using ok assms(2,3) by (metis nth_mem)
  have "blocks_owned (mc_notifier ?m) (owner ?m)"
    using ok alone unfolding blocks_owned_def own by (auto simp: release_def happens_def split: if_splits)
  moreover have "notifier_ok (mc_notifier ?m) (signalled ?m)"
    using ok untold unfolding S notifier_ok_def by (auto simp: release_def happens_def)
  moreover have "handler_ok (mc_notifier ?m) (signalled ?m) h" if "h \<in> set (mc_handlers ?m)" for h
    using ok that unfolding S by (auto simp: handler_ok_def release_def happens_def Let_def)
  ultimately show ?thesis using ok by (auto simp: wakes_ok_def release_def happens_def dest: update_keeps)
qed

lemma clearing_ok:
  assumes "wakes_ok m" and "i < length (mc_observers m)" and "mc_observers m ! i = Clearing e"
  shows "wakes_ok (m\<lparr>mc_notifier := happens (Resolved e) ((mc_notifier m)\<lparr>nt_notified := nt_notified (mc_notifier m) - {e}\<rparr>),
    mc_observers := (mc_observers m)[i := (case dget (nt_signals (mc_notifier m)) e of None \<Rightarrow> Observed | Some s \<Rightarrow> Signalling s)]\<rparr>)" (is "wakes_ok ?m")
proof -
  note ok = assms(1) [unfolded wakes_ok_def]
  have own: "owner ?m a = owner m a" for a
    using assms(2,3) by (cases a) (auto simp: nth_list_update split: option.split)
  have S: "signalled ?m = signalled m \<union> set_option (dget (nt_signals (mc_notifier m)) e)"
    using assms(2,3) by (auto simp: signalled_def happens_def in_set_update split: option.splits)
  have "blocks_owned (mc_notifier ?m) (owner ?m)"
    using ok unfolding blocks_owned_def own by (auto simp: happens_def)
  moreover have "notifier_ok (mc_notifier ?m) (signalled ?m)"
    using ok unfolding S notifier_ok_def by (auto simp: happens_def)
  moreover have "handler_ok (mc_notifier ?m) (signalled ?m) h" if "h \<in> set (mc_handlers ?m)" for h
    using ok that unfolding S notifier_ok_def by (auto simp: handler_ok_def happens_def Let_def)
  ultimately show ?thesis using ok by (auto simp: wakes_ok_def happens_def dest: update_keeps split: option.splits)
qed

lemma nth_update: "hs[f := y] ! j = (if f = j \<and> j < length hs then y else hs ! j)"
  by (metis list_update_beyond nth_list_update_eq nth_list_update_neq not_less)

lemma hooked_nth [simp]:
  "hr_id (hs[f := (hs ! f)\<lparr>hr_hooked := True\<rparr>] ! j) = hr_id (hs ! j)"
  "hr_spot (hs[f := (hs ! f)\<lparr>hr_hooked := True\<rparr>] ! j) = hr_spot (hs ! j)"
  "hr_signal (hs[f := (hs ! f)\<lparr>hr_hooked := True\<rparr>] ! j) = hr_signal (hs ! j)"
  by (simp_all add: nth_update)

definition same_blocks :: "notifier \<Rightarrow> notifier \<Rightarrow> bool" where
  "same_blocks nt nt' \<longleftrightarrow> nt_notified nt' = nt_notified nt \<and> nt_signals nt' = nt_signals nt \<and> nt_fresh nt' = nt_fresh nt \<and>
     nt_open nt' = nt_open nt \<and> nt_history nt' = nt_history nt"

lemma quiet_ok:
  \<comment> \<open>a step that touches neither the blocks nor the signals\<close>
  assumes "wakes_ok m" and "same_blocks (mc_notifier m) (mc_notifier m')" and "owner m' = owner m"
    and S: "signalled m' = signalled m \<or> \<not> nt_open (mc_notifier m) \<and> signalled m' \<subseteq> signalled m"
    and "\<And>conv ev e. Scheduling conv ev e \<in> set (mc_observers m') \<Longrightarrow> Scheduling conv ev e \<in> set (mc_observers m)"
    and "\<And>h. h \<in> set (mc_handlers m') \<Longrightarrow> \<exists>g \<in> set (mc_handlers m). hr_id h = hr_id g \<and> hr_spot h = hr_spot g \<and> hr_signal h = hr_signal g"
  shows "wakes_ok m'"
proof -
  note ok = assms(1) [unfolded wakes_ok_def] and same = assms(2) [unfolded same_blocks_def]
  have "handler_ok (mc_notifier m') (signalled m') h" if h: "h \<in> set (mc_handlers m')" for h
  proof -
    obtain g where g: "g \<in> set (mc_handlers m)" "hr_id h = hr_id g" "hr_spot h = hr_spot g" "hr_signal h = hr_signal g" using assms(6) [OF h] by blast
    then have "handler_ok (mc_notifier m) (signalled m) g" using ok by blast
    then show ?thesis using same g(2-4) S unfolding handler_ok_def Let_def by auto
  qed
  moreover have "notifier_ok (mc_notifier m') (signalled m')" using ok same S unfolding notifier_ok_def by auto
  moreover have "blocks_owned (mc_notifier m') (owner m')" using ok same unfolding assms(3) blocks_owned_def by simp
  moreover have "Delivered Block_Notice e \<notin> set (nt_history (mc_notifier m'))" if "Scheduling conv ev e \<in> set (mc_observers m')" for conv ev e
    using ok same assms(5) [OF that] by simp
  ultimately show ?thesis unfolding wakes_ok_def by blast
qed

lemma observed_ok:
  \<comment> \<open>an observer goes on without touching the blocks\<close>
  assumes "wakes_ok m" and "i < length (mc_observers m)" and "\<And>conv ev e. mc_observers m ! i \<noteq> Scheduling conv ev e" and "\<And>conv ev e. ob \<noteq> Scheduling conv ev e"
    and "same_blocks (mc_notifier m) nt'" and S: "nt_set nt' \<union> set (nt_calls nt') \<union> {s. Signalling s \<in> set ((mc_observers m)[i := ob])} = signalled m \<or>
      \<not> nt_open (mc_notifier m) \<and> nt_set nt' \<union> set (nt_calls nt') \<union> {s. Signalling s \<in> set ((mc_observers m)[i := ob])} \<subseteq> signalled m"
    and "length hs' = length (mc_handlers m)"
    and "\<And>j. j < length hs' \<Longrightarrow> hr_id (hs' ! j) = hr_id (mc_handlers m ! j) \<and> hr_spot (hs' ! j) = hr_spot (mc_handlers m ! j) \<and> hr_signal (hs' ! j) = hr_signal (mc_handlers m ! j)"
  shows "wakes_ok \<lparr>mc_notifier = nt', mc_observers = (mc_observers m)[i := ob], mc_handlers = hs'\<rparr>" (is "wakes_ok ?m")
proof (rule quiet_ok [OF assms(1)])
  have "owner ?m a = owner m a" for a
    using assms(2,3,4,7,8) by (cases a) (auto simp: nth_list_update split: observer.splits)
  then show "owner ?m = owner m" by blast
  show "signalled ?m = signalled m \<or> \<not> nt_open (mc_notifier m) \<and> signalled ?m \<subseteq> signalled m" using S by (simp add: signalled_def)
  show "\<exists>g \<in> set (mc_handlers m). hr_id h = hr_id g \<and> hr_spot h = hr_spot g \<and> hr_signal h = hr_signal g" if "h \<in> set (mc_handlers ?m)" for h
  proof -
    obtain j where j: "j < length hs'" "h = hs' ! j" using \<open>h \<in> _\<close> by (auto simp: in_set_conv_nth)
    then show ?thesis using assms(7,8) by (intro bexI [of _ "mc_handlers m ! j"]) simp_all
  qed
qed (use assms(4,5) update_keeps in \<open>fastforce+\<close>)

lemma observer_step_ok:
  assumes "wakes_ok m" and "i < length (mc_observers m)"
    and "observer_move (mc_observers m ! i) (mc_notifier m) (mc_handlers m) = Some (ob, nt', hs')" and "requested_once (nt_history nt')"
  shows "wakes_ok \<lparr>mc_notifier = nt', mc_observers = (mc_observers m)[i := ob], mc_handlers = hs'\<rparr>"
proof (cases "mc_observers m ! i")
  case (Arming conv ev e)
  show ?thesis
  proof (cases "e \<in> nt_notified (mc_notifier m)")
    case True
    then show ?thesis using assms(2,3) Arming
      by (intro observed_ok [OF assms(1)]) (auto simp: observer_move_def signalled_def in_set_update same_blocks_def)
  next
    case False
    then have "nt' = happens (Armed e) ((mc_notifier m)\<lparr>nt_notified := insert e (nt_notified (mc_notifier m))\<rparr>)" "ob = Scheduling conv ev e" "hs' = mc_handlers m"
      using assms(3) Arming by (simp_all add: observer_move_def)
    then show ?thesis using arming_ok [OF assms(1,2) Arming False] assms(4) by (cases m) (simp add: happens_def)
  qed
next
  case (Scheduling conv ev e)
  then show ?thesis using scheduling_ok [OF assms(1,2) Scheduling] dropped_ok [OF assms(1,2) Scheduling] assms(3)
    by (cases m) (auto simp: observer_move_def split: if_splits)
next
  case (Clearing e)
  then show ?thesis using clearing_ok [OF assms(1,2) Clearing] assms(3) by (cases m) (auto simp: observer_move_def)
next
  case (Tracking f)
  then show ?thesis using assms(2,3)
    by (intro observed_ok [OF assms(1)]) (auto simp: observer_move_def signalled_def in_set_update same_blocks_def)
next
  case (Hooking f)
  then show ?thesis using assms(2,3)
    by (intro observed_ok [OF assms(1)]) (auto simp: observer_move_def signalled_def in_set_update same_blocks_def)
next
  case (Signalling s)
  let ?nt = "mc_notifier m" and ?obs = "(mc_observers m)[i := Observed]"
  have step: "ob = Observed" "hs' = mc_handlers m" "nt' = (if nt_open ?nt then ?nt\<lparr>nt_calls := nt_calls ?nt @ [s]\<rparr> else ?nt)"
    using assms(3) Signalling by (simp_all add: observer_move_def)
  have others: "x \<noteq> s \<Longrightarrow> Signalling x \<in> set ?obs \<longleftrightarrow> Signalling x \<in> set (mc_observers m)" for x
    using assms(2) Signalling by (simp add: in_set_update)
  have s: "Signalling s \<in> set (mc_observers m)" using Signalling assms(2) by (metis nth_mem)
  have fewer: "Signalling x \<in> set ?obs \<Longrightarrow> Signalling x \<in> set (mc_observers m)" for x using s update_keeps [of "Signalling x"] by blast
  have "insert s {x. Signalling x \<in> set ?obs} = {x. Signalling x \<in> set (mc_observers m)}" using others s fewer by blast
  then have open_case: "nt_open ?nt \<Longrightarrow> nt_set nt' \<union> set (nt_calls nt') \<union> {x. Signalling x \<in> set ?obs} = signalled m"
    by (auto simp: step(3) signalled_def)
  have closed_case: "\<not> nt_open ?nt \<Longrightarrow> nt_set nt' \<union> set (nt_calls nt') \<union> {x. Signalling x \<in> set ?obs} \<subseteq> signalled m"
    using fewer by (auto simp: step(3) signalled_def)
  show ?thesis unfolding step(1,2)
  proof (rule observed_ok [OF assms(1,2)])
    show "same_blocks ?nt nt'" by (simp add: step(3) same_blocks_def)
    show "nt_set nt' \<union> set (nt_calls nt') \<union> {x. Signalling x \<in> set ?obs} = signalled m \<or>
      \<not> nt_open ?nt \<and> nt_set nt' \<union> set (nt_calls nt') \<union> {x. Signalling x \<in> set ?obs} \<subseteq> signalled m"
      using open_case closed_case by blast
  qed (simp_all add: Signalling)
qed (use assms(3) in \<open>simp_all add: observer_move_def\<close>)

lemma wake_step_ok:
  assumes "wakes_ok m" and "wake_step l m = Some m'" and "requested_once (nt_history (mc_notifier m'))"
  shows "wakes_ok m'"
proof (cases l)
  case (Publish conv ev)
  have idle: "observe conv ev \<noteq> Scheduling c v e" "observe conv ev \<noteq> Signalling s" for c v e s
    by (auto simp: observe_def split: option.splits pyval.splits)
  have m': "m' = m\<lparr>mc_observers := mc_observers m @ [observe conv ev]\<rparr>" using assms(2) Publish by (simp add: wake_step_def)
  have "owner m' a = owner m a" for a
    using idle by (cases a) (auto simp: m' nth_append less_Suc_eq split: observer.splits)
  then have own: "owner m' = owner m" by blast
  show ?thesis
  proof (rule quiet_ok [OF assms(1) _ own])
    show "signalled m' = signalled m \<or> \<not> nt_open (mc_notifier m) \<and> signalled m' \<subseteq> signalled m"
      using not_sym [OF idle(2)] by (auto simp: m' signalled_def)
    show "Scheduling c v e \<in> set (mc_observers m)" if "Scheduling c v e \<in> set (mc_observers m')" for c v e
      using that not_sym [OF idle(1)] by (auto simp: m')
  qed (auto simp: m' same_blocks_def)
next
  case (Observer i)
  then show ?thesis using assms observer_step_ok [OF assms(1)] by (auto simp: wake_step_def Let_def split: if_splits)
next
  case (Handler i mv)
  then show ?thesis using assms(2) handler_step_ok [OF assms(1)] by (auto simp: wake_step_def Let_def split: if_splits)
next
  case Callback
  then obtain s rest where calls: "nt_calls (mc_notifier m) = s # rest"
    "m' = m\<lparr>mc_notifier := (mc_notifier m)\<lparr>nt_calls := rest, nt_set := insert s (nt_set (mc_notifier m))\<rparr>\<rparr>"
    using assms(2) by (auto simp: wake_step_def Let_def split: list.splits if_splits)
  have "owner m' a = owner m a" for a by (cases a) (simp_all add: calls(2))
  then show ?thesis
    by (intro quiet_ok [OF assms(1)]) (auto simp: calls same_blocks_def signalled_def)
next
  case (Discard i)
  then have m': "m' = m\<lparr>mc_notifier := discard_inflight i (mc_notifier m)\<rparr>" using assms(2) by (simp add: wake_step_def Let_def split: if_splits)
  have "owner m' a = owner m a" for a by (cases a) (simp_all add: m')
  then show ?thesis
    by (intro quiet_ok [OF assms(1)]) (auto simp: m' same_blocks_def signalled_def discard_inflight_def)
next
  case Close
  then have m': "m' = close_notifier m" using assms(2) by (simp add: wake_step_def)
  have keep: "\<exists>b. h = h\<lparr>hr_cancelled := b\<rparr>" for h by (rule exI [of _ "hr_cancelled h"]) simp
  have hs: "length (mc_handlers m') = length (mc_handlers m)" "\<And>j. j < length (mc_handlers m) \<Longrightarrow> \<exists>b. mc_handlers m' ! j = (mc_handlers m ! j)\<lparr>hr_cancelled := b\<rparr>"
    by (auto simp: m' close_notifier_def Let_def nth_enumerate_eq intro: exI [of _ True] keep)
  have other: "same_blocks (mc_notifier m) (mc_notifier m')" "mc_observers m' = mc_observers m" "signalled m' = signalled m"
    by (simp_all add: m' close_notifier_def Let_def same_blocks_def signalled_def)
  show ?thesis
  proof (rule quiet_ok [OF assms(1) other(1)])
    have "owner m' a = owner m a" for a using hs by (cases a) (fastforce simp: other(2))+
    then show "owner m' = owner m" by blast
    fix h
    assume "h \<in> set (mc_handlers m')"
    then obtain j where "j < length (mc_handlers m)" "h = mc_handlers m' ! j" using hs(1) by (auto simp: in_set_conv_nth)
    with hs(2) obtain b where "h = (mc_handlers m ! j)\<lparr>hr_cancelled := b\<rparr>" "mc_handlers m ! j \<in> set (mc_handlers m)" by fastforce
    then show "\<exists>g \<in> set (mc_handlers m). hr_id h = hr_id g \<and> hr_spot h = hr_spot g \<and> hr_signal h = hr_signal g" by force
  qed (simp_all add: other(2,3))
next
  case Loop_Gone
  then have m': "m' = m\<lparr>mc_notifier := (mc_notifier m)\<lparr>nt_open := False\<rparr>\<rparr>" using assms(2) by (simp add: wake_step_def)
  have "owner m' a = owner m a" for a by (cases a) (simp_all add: m')
  then show ?thesis using assms(1)
    by (auto simp: wakes_ok_def m' blocks_owned_def notifier_ok_def handler_ok_def signalled_def Let_def simp del: owner.simps)
qed

lemma history_grows:
  assumes "wake_step l m = Some m'"
  shows "\<exists>xs. nt_history (mc_notifier m') = nt_history (mc_notifier m) @ xs"
proof (cases l)
  case (Observer i)
  then show ?thesis using assms
    by (auto simp: wake_step_def Let_def observer_move_def happens_def release_def split: if_splits observer.splits)
next
  case (Handler i mv)
  then obtain h' nt' where step: "handler_move mv (mc_handlers m ! i) (mc_notifier m) = Some (h', nt')" "mc_notifier m' = nt'"
    using assms by (auto simp: wake_step_def Let_def split: if_splits)
  from step(1) have "\<exists>xs. nt_history nt' = nt_history (mc_notifier m) @ xs"
    unfolding handler_move_def
    by (auto elim!: move_from.elims split: if_splits option.splits wake_notice.splits spot.splits
        simp: register_signal_def begin_attempt_def end_attempt_def leave_handler_def abort_handler_def happens_def release_def Let_def)
  then show ?thesis using step(2) by simp
qed (use assms in \<open>auto simp: wake_step_def close_notifier_def discard_inflight_def Let_def split: list.splits if_splits\<close>)

lemma requested_once_prefix: "requested_once (hs @ xs) \<Longrightarrow> requested_once hs"
proof (induction xs rule: rev_induct)
  case (snoc x xs)
  then show ?case by (simp flip: append_assoc)
qed simp

lemma run_history_grows: "run_wakes ls m = Some m' \<Longrightarrow> \<exists>xs. nt_history (mc_notifier m') = nt_history (mc_notifier m) @ xs"
  by (induction ls arbitrary: m) (auto simp: bind_eq_Some_conv, metis append.assoc history_grows)

lemma run_wakes_ok:
  assumes "wakes_ok m" and "run_wakes ls m = Some m'" and "requested_once (nt_history (mc_notifier m'))"
  shows "wakes_ok m'"
  using assms
proof (induction ls arbitrary: m)
  case (Cons l ls)
  then obtain m1 where m1: "wake_step l m = Some m1" "run_wakes ls m1 = Some m'" by (auto simp: bind_eq_Some_conv)
  have "requested_once (nt_history (mc_notifier m1))" using run_history_grows [OF m1(2)] Cons.prems(3) by (metis requested_once_prefix)
  then show ?case using Cons.IH [OF wake_step_ok [OF Cons.prems(1) m1(1)] m1(2) Cons.prems(3)] by blast
qed simp

lemma new_wakes_ok: "wakes_ok new_wakes"
proof -
  have "owner new_wakes a = None" for a by (cases a) (simp_all add: new_wakes_def)
  then show ?thesis
    by (simp add: wakes_ok_def blocks_owned_def, simp add: new_wakes_def new_notifier_def notifier_ok_def orderly_def in_resolved signalled_def resolved_in_def map_filter_simps)
qed

section \<open>Notices\<close>

text \<open>
  C20: A parent is told of a block at most once, and only while it is open. In every interleaving of
  observers, coroutines, callbacks and shutdown in which no block is requested again after it was resolved,
  a block notice is dispatched only while the block is unresolved and confirmed at most once, and
  a resolution notice is dispatched only for a block that was resolved and whose notice was delivered.
\<close>
theorem notices_are_orderly:
  assumes "run_wakes ls new_wakes = Some m" and "requested_once (nt_history (mc_notifier m))"
  shows "orderly (nt_history (mc_notifier m))"
  using run_wakes_ok [OF new_wakes_ok assms] by (simp add: wakes_ok_def notifier_ok_def)

definition ex_request :: "(string, pyval) pydict" where
  "ex_request = [(''type'', PStr request_type), (''elicitation_id'', PStr ''e'')]"

definition ex_resolved :: "(string, pyval) pydict" where
  "ex_resolved = [(''type'', PStr resolved_type), (''elicitation_id'', PStr ''e'')]"

definition ex_child :: child_row where
  "ex_child = \<lparr>cr_id = ''c'', cr_title = Some ''codex:fix'', cr_parent = Some ''p''\<rparr>"

definition arm_labels :: "nat \<Rightarrow> wake_label list" where
  \<comment> \<open>a request is published and its coroutine started\<close>
  "arm_labels i = Publish ''c'' ex_request # replicate 4 (Observer i)"

definition wake_labels :: "nat \<Rightarrow> wake_label list" where
  \<comment> \<open>the parent is told\<close>
  "wake_labels i = [Handler i Go, Handler i (Looked (Some ex_child)), Handler i Go, Handler i Go, Handler i (Sent True)]"

definition end_labels :: "nat \<Rightarrow> nat \<Rightarrow> wake_label list" where
  \<comment> \<open>the block is resolved and the parent is told\<close>
  "end_labels j i = [Publish ''c'' ex_resolved, Observer j, Observer j, Callback, Handler i Go, Handler i Go, Handler i (Sent True)]"

definition ex_told :: wake_machine where
  "ex_told = the (run_wakes (arm_labels 0 @ wake_labels 0 @ end_labels 1 0) new_wakes)"

theorem notices_are_orderly_witness:
  "orderly (nt_history (mc_notifier ex_told)) \<and> Delivered Resolution_Notice ''e'' \<in> set (nt_history (mc_notifier ex_told))"
proof
  have "run_wakes (arm_labels 0 @ wake_labels 0 @ end_labels 1 0) new_wakes = Some ex_told"
    unfolding ex_told_def by (rule option.collapse [symmetric]) code_simp
  then show "orderly (nt_history (mc_notifier ex_told))"
  proof (rule notices_are_orderly)
    show "requested_once (nt_history (mc_notifier ex_told))" unfolding requested_once_def by code_simp
  qed
  show "Delivered Resolution_Notice ''e'' \<in> set (nt_history (mc_notifier ex_told))" by code_simp
qed

section \<open>No coroutine is left waiting\<close>

definition inner :: "wake_label \<Rightarrow> bool" where
  \<comment> \<open>a step of what runs already\<close>
  "inner l \<longleftrightarrow> (case l of Observer i \<Rightarrow> True | Handler i mv \<Rightarrow> mv = Go | Callback \<Rightarrow> True | _ \<Rightarrow> False)"

lemma run_wakes_append: "run_wakes (ls @ ls') m = Option.bind (run_wakes ls m) (run_wakes ls')"
  by (induction ls arbitrary: m) (auto simp: bind_assoc split: option.split, metis bind.bind_lunit bind.bind_lzero option.exhaust)

lemma set_signal_wakes:
  assumes "i < length (mc_handlers m)" and "hr_spot (mc_handlers m ! i) = Waiting child" and "nt_open (mc_notifier m)"
    and "hr_signal (mc_handlers m ! i) \<in> nt_set (mc_notifier m)"
  shows "\<exists>m'. run_wakes [Handler i Go, Handler i Go] m = Some m' \<and> hr_spot (mc_handlers m' ! i) = Sending Resolution_Notice child 0"
  using assms by (simp add: wake_step_def Let_def handler_move_def begin_attempt_def move_to_def)

lemma called_signal_wakes:
  assumes "i < length (mc_handlers m)" and "hr_spot (mc_handlers m ! i) = Waiting child" and "nt_open (mc_notifier m)"
    and "hr_signal (mc_handlers m ! i) \<in> set (nt_calls (mc_notifier m))"
  shows "\<exists>ls m'. list_all inner ls \<and> run_wakes ls m = Some m' \<and> hr_spot (mc_handlers m' ! i) = Sending Resolution_Notice child 0"
  using assms
proof (induction "nt_calls (mc_notifier m)" arbitrary: m)
  case (Cons s rest)
  let ?m = "m\<lparr>mc_notifier := (mc_notifier m)\<lparr>nt_calls := rest, nt_set := insert s (nt_set (mc_notifier m))\<rparr>\<rparr>"
  have step: "wake_step Callback m = Some ?m" using Cons.hyps(2) [symmetric] Cons.prems(3) by (simp add: wake_step_def Let_def)
  have "\<exists>ls m'. list_all inner ls \<and> run_wakes ls ?m = Some m' \<and> hr_spot (mc_handlers m' ! i) = Sending Resolution_Notice child 0"
  proof (cases "hr_signal (mc_handlers m ! i) = s")
    case True
    then have "\<exists>m'. run_wakes [Handler i Go, Handler i Go] ?m = Some m' \<and> hr_spot (mc_handlers m' ! i) = Sending Resolution_Notice child 0"
      using Cons.prems by (intro set_signal_wakes) simp_all
    then show ?thesis by (intro exI [of _ "[Handler i Go, Handler i Go]"]) (simp add: inner_def)
  next
    case False
    then show ?thesis using Cons.hyps(2) [symmetric] Cons.prems by (intro Cons.hyps(1)) simp_all
  qed
  then obtain ls m' where "list_all inner ls" "run_wakes ls ?m = Some m'" "hr_spot (mc_handlers m' ! i) = Sending Resolution_Notice child 0" by blast
  then show ?case using step by (intro exI [of _ "Callback # ls"] exI [of _ m']) (simp add: inner_def)
qed simp

text \<open>
  C19: A parent that was told of a block is told of its resolution. While the loop runs and no block is requested
  again after it was resolved, a coroutine that waits for the resolution of a block that is resolved is never
  left waiting: the steps of what runs already, without any further event, lead it to dispatch the notice,
  however the resolution and the registration of the signal have overlapped.
\<close>
theorem resolution_always_reaches_the_parent:
  assumes "run_wakes ls new_wakes = Some m" and "requested_once (nt_history (mc_notifier m))" and "nt_open (mc_notifier m)"
    and "i < length (mc_handlers m)" and "hr_spot (mc_handlers m ! i) = Waiting child"
    and "Resolved (hr_id (mc_handlers m ! i)) \<in> set (nt_history (mc_notifier m))"
  shows "\<exists>ls' m'. list_all inner ls' \<and> run_wakes ls' m = Some m' \<and> hr_spot (mc_handlers m' ! i) = Sending Resolution_Notice child 0"
proof -
  let ?s = "hr_signal (mc_handlers m ! i)"
  have "handler_ok (mc_notifier m) (signalled m) (mc_handlers m ! i)"
    using run_wakes_ok [OF new_wakes_ok assms(1,2)] assms(4) by (simp add: wakes_ok_def)
  then have "?s \<in> signalled m" using assms(3,5,6) by (simp add: handler_ok_def in_resolved Let_def)
  then consider (set) "?s \<in> nt_set (mc_notifier m)" | (called) "?s \<in> set (nt_calls (mc_notifier m))"
    | (observer) j where "j < length (mc_observers m)" "mc_observers m ! j = Signalling ?s"
    by (auto simp: signalled_def in_set_conv_nth)
  then show ?thesis
  proof cases
    case set
    then show ?thesis using set_signal_wakes [OF assms(4,5,3)] by (intro exI [of _ "[Handler i Go, Handler i Go]"]) (simp add: inner_def)
  next
    case called
    then show ?thesis by (rule called_signal_wakes [OF assms(4,5,3)])
  next
    case observer
    let ?m = "m\<lparr>mc_notifier := (mc_notifier m)\<lparr>nt_calls := nt_calls (mc_notifier m) @ [?s]\<rparr>, mc_observers := (mc_observers m)[j := Observed]\<rparr>"
    have step: "wake_step (Observer j) m = Some ?m"
      using observer assms(3) by (cases m) (simp add: wake_step_def Let_def observer_move_def)
    obtain ls' m' where "list_all inner ls'" "run_wakes ls' ?m = Some m'" "hr_spot (mc_handlers m' ! i) = Sending Resolution_Notice child 0"
      using called_signal_wakes [of i ?m child] assms(3,4,5) by auto
    then show ?thesis using step by (intro exI [of _ "Observer j # ls'"] exI [of _ m']) (simp add: inner_def)
  qed
qed

definition ex_resolving :: wake_machine where
  "ex_resolving = the (run_wakes (arm_labels 0 @ wake_labels 0 @ [Publish ''c'' ex_resolved, Observer 1]) new_wakes)"

theorem resolution_always_reaches_the_parent_witness:
  "\<exists>ls' m'. list_all inner ls' \<and> run_wakes ls' ex_resolving = Some m' \<and> hr_spot (mc_handlers m' ! 0) = Sending Resolution_Notice ex_child 0"
proof (rule resolution_always_reaches_the_parent)
  show "run_wakes (arm_labels 0 @ wake_labels 0 @ [Publish ''c'' ex_resolved, Observer 1]) new_wakes = Some ex_resolving"
    unfolding ex_resolving_def by (rule option.collapse [symmetric]) code_simp
  show "requested_once (nt_history (mc_notifier ex_resolving))" unfolding requested_once_def by code_simp
  show "Resolved (hr_id (mc_handlers ex_resolving ! 0)) \<in> set (nt_history (mc_notifier ex_resolving))" by code_simp
qed code_simp+

section \<open>A block requested again\<close>

definition forgotten :: "child_row \<Rightarrow> nat \<Rightarrow> nat \<Rightarrow> wake_machine \<Rightarrow> bool" where
  \<comment> \<open>the coroutine \<open>i\<close> waits for the signal \<open>s\<close>, which nobody will set, or has ended\<close>
  "forgotten child i s m \<longleftrightarrow>
     i < length (mc_handlers m) \<and> hr_spot (mc_handlers m ! i) \<in> {Waiting child, Ended} \<and> hr_signal (mc_handlers m ! i) = s \<and>
     s < nt_fresh (mc_notifier m) \<and> s \<notin> signalled m \<and> list_all (\<lambda>(e, t). t \<noteq> s) (nt_signals (mc_notifier m))"

lemma all_dset: "list_all P d \<Longrightarrow> P (k, v) \<Longrightarrow> list_all P (dset k v d)"
  by (induction d) auto

lemma all_ddel: "list_all P d \<Longrightarrow> list_all P (ddel k d)"
  by (simp add: ddel_filter list_all_iff)

lemma move_from_signals:
  assumes "move_from sp mv h nt = Some (h', nt')" and "list_all (\<lambda>(e, t). t \<noteq> s) (nt_signals nt)" and "s < nt_fresh nt"
  shows "list_all (\<lambda>(e, t). t \<noteq> s) (nt_signals nt') \<and> s < nt_fresh nt' \<and> nt_set nt' = nt_set nt \<and> nt_calls nt' = nt_calls nt"
  using assms
  by (auto elim!: move_from.elims split: if_splits option.splits wake_notice.splits spot.splits intro: all_dset all_ddel
      simp: register_signal_def begin_attempt_def end_attempt_def leave_handler_def abort_handler_def happens_def release_def Let_def)

lemma forgotten_step:
  assumes "forgotten child i s m" and "wake_step l m = Some m'"
  shows "forgotten child i s m'"
proof (cases l)
  case (Observer j)
  then obtain ob nt' hs' where step: "j < length (mc_observers m)" "observer_move (mc_observers m ! j) (mc_notifier m) (mc_handlers m) = Some (ob, nt', hs')"
    "m' = \<lparr>mc_notifier = nt', mc_observers = (mc_observers m)[j := ob], mc_handlers = hs'\<rparr>"
    using assms(2) by (auto simp: wake_step_def Let_def split: if_splits)
  have old: "mc_observers m ! j \<in> set (mc_observers m)" using step(1) by simp
  have "dget (nt_signals (mc_notifier m)) e \<noteq> Some s" for e
    using assms(1) by (auto simp: forgotten_def list_all_iff dest!: map_of_SomeD)
  then show ?thesis using assms(1) step(2) old
    by (cases "mc_observers m ! j")
      (auto simp: forgotten_def signalled_def step(3) observer_move_def happens_def release_def nth_append nth_list_update
        split: if_splits option.splits dest!: update_keeps)
next
  case (Handler j mv)
  then obtain h' nt' where step: "j < length (mc_handlers m)" "move_from (hr_spot (mc_handlers m ! j)) mv (mc_handlers m ! j) (mc_notifier m) = Some (h', nt')"
    "m' = m\<lparr>mc_notifier := nt', mc_handlers := (mc_handlers m)[j := h']\<rparr>"
    using assms(2) by (auto simp: wake_step_def handler_move_def Let_def split: if_splits)
  have sig: "list_all (\<lambda>(e, t). t \<noteq> s) (nt_signals nt') \<and> s < nt_fresh nt' \<and> nt_set nt' = nt_set (mc_notifier m) \<and> nt_calls nt' = nt_calls (mc_notifier m)"
    by (rule move_from_signals [OF step(2)]) (use assms(1) in \<open>simp_all add: forgotten_def\<close>)
  show ?thesis
  proof (cases "i = j")
    case True
    have "hr_signal h' = s \<and> hr_spot h' \<in> {Waiting child, Ended}"
    proof -
      let ?h = "mc_handlers m ! j"
      have "hr_signal ?h \<notin> nt_set (mc_notifier m)" "hr_signal ?h = s" "hr_spot ?h \<in> {Waiting child, Ended}"
        using assms(1) True by (auto simp: forgotten_def signalled_def)
      then show ?thesis using step(2) by (cases mv) (auto simp: abort_handler_def leave_handler_def move_to_def split: if_splits)
    qed
    then show ?thesis using assms(1) sig step(1) True by (simp add: forgotten_def step(3) signalled_def)
  next
    case False
    then show ?thesis using assms(1) sig by (simp add: forgotten_def step(3) signalled_def)
  qed
next
  case Close
  have hs: "mc_handlers (close_notifier m) ! i = (if i \<in> nt_inflight (mc_notifier m) then (mc_handlers m ! i)\<lparr>hr_cancelled := True\<rparr> else mc_handlers m ! i)"
    using assms(1) by (simp add: forgotten_def close_notifier_def Let_def nth_enumerate_eq)
  then show ?thesis using assms Close
    by (auto simp: forgotten_def wake_step_def signalled_def Let_def) (simp_all add: close_notifier_def Let_def)
next
  case Callback
  then show ?thesis using assms by (auto simp: forgotten_def wake_step_def signalled_def Let_def split: list.splits if_splits)
next
  case (Publish conv ev)
  have "Signalling t \<noteq> observe conv ev" for t by (auto simp: observe_def split: option.splits pyval.splits)
  then show ?thesis using assms Publish by (auto simp: forgotten_def wake_step_def signalled_def Let_def)
qed (use assms in \<open>auto simp: forgotten_def wake_step_def signalled_def discard_inflight_def Let_def split: if_splits\<close>)

lemma forgotten_run: "forgotten child i s m \<Longrightarrow> run_wakes ls m = Some m' \<Longrightarrow> forgotten child i s m'"
  by (induction ls arbitrary: m) (auto simp: bind_eq_Some_conv dest: forgotten_step)

definition ex_repeated :: wake_machine where
  \<comment> \<open>requested, resolved and requested again within the grace period, then resolved\<close>
  "ex_repeated = the (run_wakes (arm_labels 0 @ [Publish ''c'' ex_resolved, Observer 1] @ arm_labels 2 @ wake_labels 0 @ wake_labels 1 @ end_labels 3 1) new_wakes)"

text \<open>
  C21: A block requested again under its old identifier is told twice and its first wake is never closed. After a
  request, its resolution and a second request within the grace period the coroutine of the first request takes
  the second arm for its own; both wake the parent, the signal of the first is overwritten, and whatever
  happens afterwards its coroutine only waits, until it is cancelled at shutdown.
\<close>
theorem repeated_request_is_told_twice:
  assumes "run_wakes ls ex_repeated = Some m"
  shows "filter (\<lambda>x. case x of Delivered k e \<Rightarrow> True | _ \<Rightarrow> False) (nt_history (mc_notifier ex_repeated)) =
       [Delivered Block_Notice ''e'', Delivered Block_Notice ''e'', Delivered Resolution_Notice ''e''] \<and>
     hr_spot (mc_handlers m ! 0) \<in> {Waiting ex_child, Ended}"
proof
  show "filter (\<lambda>x. case x of Delivered k e \<Rightarrow> True | _ \<Rightarrow> False) (nt_history (mc_notifier ex_repeated)) =
       [Delivered Block_Notice ''e'', Delivered Block_Notice ''e'', Delivered Resolution_Notice ''e'']" by code_simp
  have "0 < length (mc_handlers ex_repeated)" "hr_spot (mc_handlers ex_repeated ! 0) = Waiting ex_child" "hr_signal (mc_handlers ex_repeated ! 0) = 0"
    "0 < nt_fresh (mc_notifier ex_repeated)" "nt_signals (mc_notifier ex_repeated) = []" by code_simp+
  moreover have "mc_observers ex_repeated = replicate 4 Observed" "nt_set (mc_notifier ex_repeated) = {1}" "nt_calls (mc_notifier ex_repeated) = []" by code_simp+
  ultimately have "forgotten ex_child 0 0 ex_repeated" by (simp add: forgotten_def signalled_def)
  from forgotten_run [OF this assms] show "hr_spot (mc_handlers m ! 0) \<in> {Waiting ex_child, Ended}" by (simp add: forgotten_def)
qed

theorem repeated_request_is_told_twice_witness:
  "run_wakes [] ex_repeated = Some ex_repeated \<and> hr_spot (mc_handlers ex_repeated ! 0) \<in> {Waiting ex_child, Ended}"
  using repeated_request_is_told_twice [of "[]" ex_repeated] by simp

end
