(* ===== verification/Pending_Inputs.thy ===== *)
theory Pending_Inputs
  imports Policy_Types
begin

text \<open>
  The index of web messages waiting for their transcript echo,
  \<^verbatim>\<open>codify/runtime/pending_inputs.py\<close>. The lock makes every operation one step; \<open>now\<close> is the
  monotonic clock at that step and \<open>uuid\<close> the hexadecimal part of a fresh identifier. Contents are
  values, so the deep copies of the code are the values themselves.
\<close>

section \<open>Definitions\<close>

definition ttl :: real where
  "ttl = 600"

record entry =
  en_pending_id :: string
  en_content :: "pyval list"
  en_created_by :: "string option"
  en_created_at :: real

record drained_input =
  di_pending_id :: string
  di_content :: "pyval list"
  di_created_by :: "string option"

record matched_drain =
  md_matched :: "drained_input option"
  md_skipped :: "drained_input list"

type_synonym index = "(string, string, entry) nested"

definition evict_stale :: "string \<Rightarrow> real \<Rightarrow> index \<Rightarrow> index" where
  "evict_stale conv now d =
     (case dget d conv of
        None \<Rightarrow> d
      | Some entries \<Rightarrow>
          let stale = map fst (filter (\<lambda>(pid, e). ttl < now - en_created_at e) entries)
          in nstore conv (foldl (\<lambda>es pid. ddel pid es) entries stale) d)"

definition record_input :: "string \<Rightarrow> real \<Rightarrow> string \<Rightarrow> pyval list \<Rightarrow> string option \<Rightarrow> index \<Rightarrow> string \<times> index" where
  "record_input uuid now conv content created_by d =
     (let pending_id = ''pending_'' @ uuid;
          e = \<lparr>en_pending_id = pending_id, en_content = content, en_created_by = created_by, en_created_at = now\<rparr>
      in (pending_id, nput conv pending_id e (evict_stale conv now d)))"

definition resolve_input :: "string \<Rightarrow> string \<Rightarrow> index \<Rightarrow> index" where
  "resolve_input conv pending_id d =
     (case dget d conv of None \<Rightarrow> d | Some entries \<Rightarrow> nstore conv (ddel pending_id entries) d)"

definition drained :: "entry \<Rightarrow> drained_input" where
  "drained e = \<lparr>di_pending_id = en_pending_id e, di_content = en_content e, di_created_by = en_created_by e\<rparr>"

definition resolve_oldest :: "real \<Rightarrow> string \<Rightarrow> index \<Rightarrow> drained_input option \<times> index" where
  "resolve_oldest now conv d0 =
     (let d = evict_stale conv now d0
      in case dget d conv of
           None \<Rightarrow> (None, d)
         | Some entries \<Rightarrow>
             (case entries of
                [] \<Rightarrow> (None, d)
              | (oldest_id, e) # _ \<Rightarrow> (Some (drained e), nstore conv (ddel oldest_id entries) d)))"

fun block_text :: "pyval \<Rightarrow> string option" where
  "block_text (PDict b) =
     (if dget b ''type'' \<in> {Some (PStr ''input_text''), Some (PStr ''text''), Some (PStr ''output_text'')}
      then (case dget b ''text'' of Some (PStr t) \<Rightarrow> Some t | _ \<Rightarrow> None)
      else None)"
| "block_text _ = None"

definition content_text :: "pyval list \<Rightarrow> string" where
  "content_text content = join [CHR 0x0A] (List.map_filter block_text content)"

fun words_from :: "string \<Rightarrow> string \<Rightarrow> string list" where
  \<comment> \<open>\<open>s.split()\<close>, the first argument being the word read so far\<close>
  "words_from w [] = (if w = [] then [] else [w])"
| "words_from w (c # cs) =
     (if py_space c then (if w = [] then words_from [] cs else w # words_from [] cs) else words_from (w @ [c]) cs)"

definition normalize_text :: "string \<Rightarrow> string" where
  "normalize_text s = join '' '' (words_from [] s)"

definition entry_matches :: "string \<Rightarrow> entry \<Rightarrow> bool" where
  "entry_matches needle e =
     (let entry_text = normalize_text (content_text (en_content e))
      in entry_text \<noteq> [] \<and> (needle = entry_text \<or> ends_with needle entry_text))"

fun match_index :: "string \<Rightarrow> (string \<times> entry) list \<Rightarrow> nat option" where
  "match_index needle [] = None"
| "match_index needle ((pid, e) # rest) =
     (if entry_matches needle e then Some 0 else map_option Suc (match_index needle rest))"

definition resolve_matching_text :: "real \<Rightarrow> string \<Rightarrow> string \<Rightarrow> index \<Rightarrow> matched_drain \<times> index" where
  "resolve_matching_text now conv msg d0 =
     (let needle = normalize_text msg
      in if needle = [] then (\<lparr>md_matched = None, md_skipped = []\<rparr>, d0)
         else let d = evict_stale conv now d0
              in case dget d conv of
                   None \<Rightarrow> (\<lparr>md_matched = None, md_skipped = []\<rparr>, d)
                 | Some entries \<Rightarrow>
                     (case match_index needle entries of
                        None \<Rightarrow> (\<lparr>md_matched = None, md_skipped = []\<rparr>, d)
                      | Some i \<Rightarrow>
                          (\<lparr>md_matched = Some (drained (snd (entries ! i))), md_skipped = map (drained \<circ> snd) (take i entries)\<rparr>,
                           nstore conv (foldl (\<lambda>es pid. ddel pid es) entries (map fst (take (i + 1) entries))) d)))"

definition snapshot_inputs :: "real \<Rightarrow> string \<Rightarrow> index \<Rightarrow> pyval list \<times> index" where
  "snapshot_inputs now conv d0 =
     (let d = evict_stale conv now d0
      in case dget d conv of
           None \<Rightarrow> ([], d)
         | Some entries \<Rightarrow>
             (map (\<lambda>(pid, e). PDict ([(''pending_id'', PStr (en_pending_id e)), (''content'', PList (en_content e))]
                 @ (case en_created_by e of None \<Rightarrow> [] | Some who \<Rightarrow> [(''created_by'', PStr who)]))) entries, d))"

section \<open>The queue of a conversation\<close>

lemma foldl_ddel: "foldl (\<lambda>es pid. ddel pid es) entries ks = filter (\<lambda>p. fst p \<notin> set ks) entries"
  by (induction ks arbitrary: entries) (auto simp: ddel_filter intro: filter_cong)

lemma dict_ok_filter [simp]: "dict_ok d \<Longrightarrow> dict_ok (filter P d)"
  by (simp add: dict_ok_def distinct_map_filter)

lemma dict_ok_same: "dict_ok d \<Longrightarrow> (k, v) \<in> set d \<Longrightarrow> (k, v') \<in> set d \<Longrightarrow> v = v'"
  by (auto simp: dict_ok_def dest: eq_key_imp_eq_value)

definition fresh :: "real \<Rightarrow> entry \<Rightarrow> bool" where
  "fresh now e \<longleftrightarrow> \<not> ttl < now - en_created_at e"

lemma evict_stale_entries:
  assumes "nested_ok d"
  shows "nentries (evict_stale conv now d) c =
      (if c = conv then filter (fresh now \<circ> snd) (nentries d conv) else nentries d c)"
    and "nested_ok (evict_stale conv now d)"
proof -
  have ok: "dict_ok (nentries d conv)" by (rule nested_ok_entries [OF assms])
  have f: "foldl (\<lambda>es pid. ddel pid es) e (map fst (filter (\<lambda>(pid, e). ttl < now - en_created_at e) e)) = filter (fresh now \<circ> snd) e"
    if "dict_ok e" for e
    unfolding foldl_ddel using that by (intro filter_cong) (auto simp: fresh_def dest: dict_ok_same)
  show "nentries (evict_stale conv now d) c =
      (if c = conv then filter (fresh now \<circ> snd) (nentries d conv) else nentries d c)"
  proof (cases "dget d conv")
    case None
    then show ?thesis by (auto simp: evict_stale_def nentries_def)
  next
    case (Some e)
    with ok have e: "nentries d conv = e" "dict_ok e" by (simp_all add: nentries_def)
    show ?thesis by (simp add: evict_stale_def Some Let_def f [OF e(2)] e(1))
  qed
  show "nested_ok (evict_stale conv now d)"
    using assms nested_ok_entries [OF assms, of conv]
    by (auto simp: evict_stale_def foldl_ddel nentries_def split: option.split)
qed

definition queue :: "index \<Rightarrow> string \<Rightarrow> entry list" where
  "queue d c = map snd (nentries d c)"

definition inputs_inv :: "index \<Rightarrow> bool" where
  "inputs_inv d \<longleftrightarrow> nested_ok d \<and> (\<forall>c. map fst (nentries d c) = map en_pending_id (queue d c))"

definition put :: "entry \<Rightarrow> entry list \<Rightarrow> entry list" where
  \<comment> \<open>enqueue; an entry with the same identifier would be replaced in place\<close>
  "put e q = (if en_pending_id e \<in> en_pending_id ` set q
              then map (\<lambda>x. if en_pending_id x = en_pending_id e then e else x) q else q @ [e])"

definition first_match :: "string \<Rightarrow> entry list \<Rightarrow> nat option" where
  "first_match needle q =
     (if list_ex (entry_matches needle) q then Some (length (takeWhile (\<lambda>e. \<not> entry_matches needle e) q)) else None)"

datatype input_op =
    Record string real string "pyval list" "string option"
  | Resolve string string
  | ResolveOldest real string
  | ResolveMatching real string string
  | Snapshot real string

fun input_step :: "index \<Rightarrow> input_op \<Rightarrow> index" where
  "input_step d (Record uuid now conv content who) = snd (record_input uuid now conv content who d)"
| "input_step d (Resolve conv pid) = resolve_input conv pid d"
| "input_step d (ResolveOldest now conv) = snd (resolve_oldest now conv d)"
| "input_step d (ResolveMatching now conv msg) = snd (resolve_matching_text now conv msg d)"
| "input_step d (Snapshot now conv) = snd (snapshot_inputs now conv d)"

fun queue_step :: "(string \<Rightarrow> entry list) \<Rightarrow> input_op \<Rightarrow> string \<Rightarrow> entry list" where
  "queue_step f (Record uuid now conv content who) =
     f(conv := put \<lparr>en_pending_id = ''pending_'' @ uuid, en_content = content, en_created_by = who, en_created_at = now\<rparr>
       (filter (fresh now) (f conv)))"
| "queue_step f (Resolve conv pid) = f(conv := filter (\<lambda>e. en_pending_id e \<noteq> pid) (f conv))"
| "queue_step f (ResolveOldest now conv) = f(conv := tl (filter (fresh now) (f conv)))"
| "queue_step f (ResolveMatching now conv msg) =
     (let needle = normalize_text msg; q = filter (fresh now) (f conv)
      in if needle = [] then f
         else f(conv := (case first_match needle q of None \<Rightarrow> q | Some i \<Rightarrow> drop (i + 1) q)))"
| "queue_step f (Snapshot now conv) = f(conv := filter (fresh now) (f conv))"

lemma inputs_invD:
  assumes "inputs_inv d"
  shows "nested_ok d" "dict_ok (nentries d c)" "map fst (nentries d c) = map en_pending_id (queue d c)"
proof -
  show "nested_ok d" "map fst (nentries d c) = map en_pending_id (queue d c)" using assms by (simp_all add: inputs_inv_def)
  then show "dict_ok (nentries d c)" by (intro nested_ok_entries)
qed

lemma inputs_invI:
  "nested_ok d \<Longrightarrow> (\<And>c. map fst (nentries d c) = map en_pending_id (queue d c)) \<Longrightarrow> inputs_inv d"
  by (simp add: inputs_inv_def)

lemma match_index_first: "match_index needle es = first_match needle (map snd es)"
  by (induction needle es rule: match_index.induct) (auto simp: first_match_def)

lemma first_match_Cons:
  "first_match needle (e # q) = (if entry_matches needle e then Some 0 else map_option Suc (first_match needle q))"
  by (simp add: first_match_def)

lemma first_match_Some: "first_match needle q = Some i \<Longrightarrow>
    i < length q \<and> entry_matches needle (q ! i) \<and> (\<forall>j<i. \<not> entry_matches needle (q ! j))"
proof (induction q arbitrary: i)
  case (Cons e q)
  show ?case
  proof (cases "entry_matches needle e")
    case False
    with Cons.prems obtain k where "first_match needle q = Some k" "i = Suc k" by (auto simp: first_match_Cons)
    with Cons.IH [of k] False show ?thesis by (auto simp: less_Suc_eq_0_disj)
  qed (use Cons.prems in \<open>simp add: first_match_Cons\<close>)
qed (simp add: first_match_def)

lemma first_match_None: "first_match needle q = None \<longleftrightarrow> (\<forall>e \<in> set q. \<not> entry_matches needle e)"
  by (auto simp: first_match_def list_ex_iff)

lemma drop_by_keys:
  assumes "dict_ok es"
  shows "filter (\<lambda>p. fst p \<notin> set (map fst (take n es))) es = drop n es"
proof -
  have "distinct (map fst (take n es @ drop n es))" using assms by (simp add: dict_ok_def)
  then have disj: "set (map fst (take n es)) \<inter> set (map fst (drop n es)) = {}" by (simp only: map_append distinct_append)
  have "filter (\<lambda>p. fst p \<notin> set (map fst (take n es))) (take n es @ drop n es) = drop n es"
    unfolding filter_append using disj by (auto simp: filter_empty_conv filter_id_conv)
  then show ?thesis by simp
qed

lemma map_filter_snd: "map snd (filter (P \<circ> snd) es) = filter P (map snd es)"
  by (simp add: filter_map comp_def)

lemma dset_queue:
  assumes "dict_ok es" and "map fst es = map en_pending_id (map snd es)"
  shows "map snd (dset (en_pending_id e) e es) = put e (map snd es)"
proof -
  have "map snd (dset k e es) = (if k \<in> fst ` set es then map (\<lambda>(k', x). if k' = k then e else x) es else map snd es @ [e])"
    if "distinct (map fst es)" for k
    using that by (induction es) (auto simp: image_iff intro!: map_cong)
  note * = this [of "en_pending_id e"]
  have pid: "fst p = en_pending_id (snd p)" if "p \<in> set es" for p
  proof -
    have "map fst es = map (\<lambda>p. en_pending_id (snd p)) es" using assms(2) by (simp add: comp_def)
    with that show ?thesis by (simp add: map_eq_conv)
  qed
  then have "fst ` set es = en_pending_id ` set (map snd es)" by (auto simp: image_iff)
  moreover have "map (\<lambda>(k', x). if k' = en_pending_id e then e else x) es =
      map (\<lambda>x. if en_pending_id x = en_pending_id e then e else x) (map snd es)"
    using pid by auto
  ultimately show ?thesis using * assms(1) by (simp add: put_def dict_ok_def)
qed

lemma queue_simps [simp]:
  "queue (nstore c e d) c' = (if c' = c then map snd e else queue d c')"
  by (simp add: queue_def)

lemma inputs_evict:
  assumes "inputs_inv d"
  shows "inputs_inv (evict_stale conv now d)"
    and "queue (evict_stale conv now d) = (queue d)(conv := filter (fresh now) (queue d conv))"
proof -
  note ok = inputs_invD [OF assms] and ev = evict_stale_entries [OF inputs_invD(1) [OF assms], of conv now]
  show "queue (evict_stale conv now d) = (queue d)(conv := filter (fresh now) (queue d conv))"
    by (auto simp: queue_def ev map_filter_snd)
  have filt: "map fst es = map en_pending_id (map snd es) \<Longrightarrow>
      map fst (filter (P \<circ> snd) es) = map en_pending_id (map snd (filter (P \<circ> snd) es))" for P and es :: "(string \<times> entry) list"
    by (induction es) auto
  show "inputs_inv (evict_stale conv now d)"
    using ev(2) ok(3) [of conv] inputs_invD(3) [OF assms] filt [of "nentries d conv" "fresh now"]
    by (intro inputs_invI) (auto simp: queue_def ev(1))
qed

lemma nentries_dget: "dget d c = Some es \<Longrightarrow> nentries d c = es" "dget d c = None \<Longrightarrow> nentries d c = []"
  by (simp_all add: nentries_def)

lemma inputs_inv_nstore:
  assumes "inputs_inv d" and "dict_ok es" and "map fst es = map en_pending_id (map snd es)"
  shows "inputs_inv (nstore c es d)"
  using inputs_invD [OF assms(1)] assms(2,3) by (intro inputs_invI) (auto simp: queue_def)

lemma inputs_nput:
  assumes "inputs_inv d"
  shows "inputs_inv (nput conv (en_pending_id e) e d)"
    and "queue (nput conv (en_pending_id e) e d) = (queue d)(conv := put e (queue d conv))"
proof -
  note ok = inputs_invD(1) [OF assms] inputs_invD(2,3) [OF assms, of conv]
  have q: "map snd (dset (en_pending_id e) e (nentries d conv)) = put e (queue d conv)"
    using dset_queue [OF ok(2)] ok(3) by (simp add: queue_def)
  then show queue: "queue (nput conv (en_pending_id e) e d) = (queue d)(conv := put e (queue d conv))"
    by (auto simp: queue_def)
  have ids: "dget (nentries d conv) (en_pending_id e) = None \<longleftrightarrow> en_pending_id e \<notin> en_pending_id ` set (queue d conv)"
    using arg_cong [OF ok(3), of set] by (simp add: map_of_eq_None_iff)
  have keys: "map fst (dset (en_pending_id e) e (nentries d conv)) = map en_pending_id (put e (queue d conv))"
  proof (cases "dget (nentries d conv) (en_pending_id e)")
    case None
    with ids ok(3) show ?thesis by (simp add: dset_fresh put_def)
  next
    case (Some x)
    then have "map fst (dset (en_pending_id e) e (nentries d conv)) = map fst (nentries d conv)"
      by (intro dset_present) simp
    with Some ids ok(3) show ?thesis by (auto simp: put_def)
  qed
  show "inputs_inv (nput conv (en_pending_id e) e d)"
  proof (rule inputs_invI)
    show "map fst (nentries (nput conv (en_pending_id e) e d) c) = map en_pending_id (queue (nput conv (en_pending_id e) e d) c)" for c
      using keys inputs_invD(3) [OF assms, of c] by (simp add: queue)
  qed (use ok in simp)
qed

lemma step_record:
  assumes "inputs_inv d"
  shows "inputs_inv (snd (record_input uuid now conv content who d)) \<and>
    queue (snd (record_input uuid now conv content who d)) = queue_step (queue d) (Record uuid now conv content who)"
proof -
  define e where "e = \<lparr>en_pending_id = ''pending_'' @ uuid, en_content = content, en_created_by = who, en_created_at = now\<rparr>"
  have out: "snd (record_input uuid now conv content who d) = nput conv (en_pending_id e) e (evict_stale conv now d)"
    by (simp add: record_input_def Let_def e_def)
  note ev = inputs_evict [OF assms, of conv now]
  show ?thesis
    using inputs_nput [OF ev(1), of conv e] by (simp add: out ev(2)) (simp add: e_def)
qed

lemma queue_None: "dget d c = None \<Longrightarrow> queue d c = []"
  by (simp add: queue_def nentries_def)

lemma queue_Some: "dget d c = Some es \<Longrightarrow> queue d c = map snd es"
  by (simp add: queue_def nentries_def)

lemma inputs_keys:
  assumes "inputs_inv d" and "dget d c = Some es"
  shows "dict_ok es" "map fst es = map en_pending_id (map snd es)"
  using inputs_invD(2,3) [OF assms(1), of c] assms(2) by (simp_all add: queue_def nentries_def)

lemma filter_inv:
  assumes "map fst es = map en_pending_id (map snd es)"
  shows "map fst (filter P es) = map en_pending_id (map snd (filter P es))"
  using assms by (induction es) auto

lemma inputs_inv_filtered:
  assumes "inputs_inv d" and "dget d c = Some es"
  shows "inputs_inv (nstore c (filter P es) d)"
  using inputs_keys [OF assms] by (intro inputs_inv_nstore assms(1) filter_inv) simp_all

lemma step_resolve:
  assumes "inputs_inv d"
  shows "inputs_inv (resolve_input conv pid d) \<and> queue (resolve_input conv pid d) = queue_step (queue d) (Resolve conv pid)"
proof (cases "dget d conv")
  case None
  with assms show ?thesis by (auto simp: resolve_input_def queue_None fun_eq_iff)
next
  case (Some es)
  have keys: "fst p = en_pending_id (snd p)" if "p \<in> set es" for p
    using inputs_keys(2) [OF assms Some] that unfolding map_map map_eq_conv by simp
  have "map snd (ddel pid es) = filter (\<lambda>e. en_pending_id e \<noteq> pid) (map snd es)"
    unfolding ddel_filter filter_map using keys by (intro arg_cong [where f = "map snd"] filter_cong) auto
  with Some inputs_inv_filtered [OF assms Some, of "\<lambda>p. fst p \<noteq> pid"] show ?thesis
    by (auto simp: resolve_input_def queue_Some ddel_filter)
qed

lemma step_oldest:
  assumes "inputs_inv d" and q: "q = filter (fresh now) (queue d conv)"
  shows "inputs_inv (snd (resolve_oldest now conv d)) \<and>
    queue (snd (resolve_oldest now conv d)) = queue_step (queue d) (ResolveOldest now conv) \<and>
    fst (resolve_oldest now conv d) = (case q of [] \<Rightarrow> None | e # _ \<Rightarrow> Some (drained e))"
proof -
  let ?d = "evict_stale conv now d"
  note ev = inputs_evict [OF assms(1), of conv now]
  have qd: "queue ?d conv = q" by (simp add: ev q)
  show ?thesis
  proof (cases "dget ?d conv")
    case None
    then have "q = []" using qd by (simp add: queue_None)
    with None ev q show ?thesis by (simp add: resolve_oldest_def Let_def)
  next
    case (Some es)
    with inputs_invD(1) [OF ev(1)] have ne: "es \<noteq> []" by (auto simp: nested_ok_def)
    then obtain k e es' where es: "es = (k, e) # es'" by (metis surj_pair neq_Nil_conv)
    have "ddel k es = es'" using inputs_keys(1) [OF ev(1) Some] es by (auto simp: ddel_filter dict_ok_def filter_id_conv)
    then have rest: "ddel k es = filter (\<lambda>p. fst p \<noteq> k) es" "map snd (ddel k es) = tl q"
      using qd Some es by (auto simp: ddel_filter queue_Some)
    have "resolve_oldest now conv d = (Some (drained e), nstore conv (ddel k es) ?d)"
      by (simp add: resolve_oldest_def Some) (simp add: es)
    moreover have "q = e # tl q" using qd Some es by (auto simp: queue_Some)
    moreover have "(case q of [] \<Rightarrow> None | e' # x \<Rightarrow> Some (drained e')) = Some (drained e)"
      by (subst \<open>q = e # tl q\<close>) simp
    ultimately show ?thesis
      using inputs_inv_filtered [OF ev(1) Some, of "\<lambda>p. fst p \<noteq> k"] rest ev(2) q by (simp add: fun_eq_iff)
  qed
qed

lemma step_matching:
  assumes "inputs_inv d" and q: "q = filter (fresh now) (queue d conv)" and n: "needle = normalize_text msg"
  shows "inputs_inv (snd (resolve_matching_text now conv msg d)) \<and>
    queue (snd (resolve_matching_text now conv msg d)) = queue_step (queue d) (ResolveMatching now conv msg) \<and>
    fst (resolve_matching_text now conv msg d) =
      (case (if needle = [] then None else first_match needle q) of
         None \<Rightarrow> \<lparr>md_matched = None, md_skipped = []\<rparr>
       | Some i \<Rightarrow> \<lparr>md_matched = Some (drained (q ! i)), md_skipped = map drained (take i q)\<rparr>)"
proof (cases "needle = []")
  case True
  with assms(1) n show ?thesis by (simp add: resolve_matching_text_def)
next
  case ne: False
  let ?d = "evict_stale conv now d"
  note ev = inputs_evict [OF assms(1), of conv now]
  have qd: "queue ?d conv = q" by (simp add: ev q)
  show ?thesis
  proof (cases "dget ?d conv")
    case None
    then have "q = []" using qd by (simp add: queue_None)
    with None ev q ne n show ?thesis by (simp add: resolve_matching_text_def Let_def first_match_def)
  next
    case (Some es)
    have es: "map snd es = q" using qd Some by (simp add: queue_Some)
    show ?thesis
    proof (cases "first_match needle q")
      case None
      with Some ev q ne n es show ?thesis by (simp add: resolve_matching_text_def Let_def match_index_first)
    next
      case i: (Some i)
      have len: "i < length es" using first_match_Some [OF i] es by auto
      let ?es = "filter (\<lambda>p. fst p \<notin> set (map fst (take (i + 1) es))) es"
      have drop: "?es = drop (i + 1) es" by (rule drop_by_keys [OF inputs_keys(1) [OF ev(1) Some]])
      have "resolve_matching_text now conv msg d =
          (\<lparr>md_matched = Some (drained (snd (es ! i))), md_skipped = map (drained \<circ> snd) (take i es)\<rparr>, nstore conv ?es ?d)"
        using ne n Some i es unfolding resolve_matching_text_def Let_def foldl_ddel by (simp add: match_index_first)
      moreover have "snd (es ! i) = q ! i" "map (drained \<circ> snd) (take i es) = map drained (take i q)"
        using len es by (auto simp flip: es simp: take_map)
      moreover have "inputs_inv (nstore conv ?es ?d)" by (rule inputs_inv_filtered [OF ev(1) Some])
      moreover have "queue (nstore conv ?es ?d) = queue_step (queue d) (ResolveMatching now conv msg)"
        using ne n q i ev(2) es unfolding drop by (simp add: Let_def fun_eq_iff flip: drop_map)
      ultimately show ?thesis using ne i by simp
    qed
  qed
qed

lemma step_snapshot:
  assumes "inputs_inv d"
  shows "inputs_inv (snd (snapshot_inputs now conv d)) \<and>
    queue (snd (snapshot_inputs now conv d)) = queue_step (queue d) (Snapshot now conv)"
  using inputs_evict [OF assms, of conv now] by (simp add: snapshot_inputs_def Let_def split: option.split)

lemmas input_steps = step_record step_resolve step_oldest [OF _ refl] step_matching [OF _ refl refl] step_snapshot

interpretation inputs: op_refinement input_step inputs_inv "[]" queue queue_step
proof unfold_locales
  show "inputs_inv []" by (simp add: inputs_inv_def queue_def)
  show "inputs_inv (input_step s op)" if "inputs_inv s" for s op
    using that by (cases op) (simp_all only: input_step.simps input_steps)
  show "queue (input_step s op) = queue_step (queue s) op" if "inputs_inv s" for s op
    using that by (cases op) (simp_all only: input_step.simps input_steps)
qed

section \<open>Properties\<close>

text \<open>
  C35: the index is one queue per conversation: any sequence of operations acts on each
  conversation's entries as enqueue at the back, removal by identifier, removal of the oldest fresh
  entry and removal up to the first match, and no conversation is kept without an entry.
\<close>

theorem pending_inputs_are_queues:
  "queue (foldl input_step [] ops) = foldl queue_step (\<lambda>c. []) ops \<and> nested_ok (foldl input_step [] ops)"
proof
  have "queue [] = (\<lambda>c. [])" by (simp add: queue_def fun_eq_iff)
  with inputs.sim_run [of ops] show "queue (foldl input_step [] ops) = foldl queue_step (\<lambda>c. []) ops" by simp
  show "nested_ok (foldl input_step [] ops)" using inputs.inv_run [of ops] by (simp add: inputs_inv_def)
qed

text \<open>
  an echoed message drains exactly its own entry and those queued before it: on any reachable
  index the match is the first fresh entry whose text is a suffix of the echo, everything before it is
  reported as skipped, what remains is what was queued after it, and without a match nothing is drained.
\<close>

theorem echo_drains_up_to_first_match:
  assumes "d = foldl input_step [] ops" and "q = filter (fresh now) (queue d conv)"
    and "needle = normalize_text msg" and "needle \<noteq> []" and "resolve_matching_text now conv msg d = (r, d')"
  shows "(\<exists>i < length q. entry_matches needle (q ! i) \<and> (\<forall>j<i. \<not> entry_matches needle (q ! j)) \<and>
        md_matched r = Some (drained (q ! i)) \<and> md_skipped r = map drained (take i q) \<and> queue d' conv = drop (i + 1) q) \<or>
    (\<forall>e \<in> set q. \<not> entry_matches needle e) \<and> md_matched r = None \<and> md_skipped r = [] \<and> queue d' conv = q"
proof -
  have "inputs_inv d" unfolding assms(1) by (rule inputs.inv_run)
  note st = step_matching [OF this assms(2,3)]
  have r: "r = (case first_match needle q of None \<Rightarrow> \<lparr>md_matched = None, md_skipped = []\<rparr>
      | Some i \<Rightarrow> \<lparr>md_matched = Some (drained (q ! i)), md_skipped = map drained (take i q)\<rparr>)"
    using st assms(4,5) by simp
  have "queue d' = queue_step (queue d) (ResolveMatching now conv msg)" using st assms(5) by simp
  then have d': "queue d' conv = (case first_match needle q of None \<Rightarrow> q | Some i \<Rightarrow> drop (i + 1) q)"
    unfolding queue_step.simps Let_def assms(3) [symmetric] assms(2) [symmetric] using assms(4) by simp
  show ?thesis
  proof (cases "first_match needle q")
    case None
    then have "r = \<lparr>md_matched = None, md_skipped = []\<rparr>" "queue d' conv = q" using r d' by simp_all
    with None show ?thesis unfolding first_match_None by simp
  next
    case (Some i)
    then have "r = \<lparr>md_matched = Some (drained (q ! i)), md_skipped = map drained (take i q)\<rparr>" "queue d' conv = drop (i + 1) q"
      using r d' by simp_all
    with first_match_Some [OF Some] show ?thesis by (intro disjI1 exI [of _ i]) simp
  qed
qed

definition ex_block :: "string \<Rightarrow> pyval list" where
  "ex_block t = [PDict [(''type'', PStr ''text''), (''text'', PStr t)]]"

definition ex_index :: index where
  "ex_index = foldl input_step [] [Record ''0'' 0 ''c'' (ex_block ''one'') None, Record ''1'' 1 ''c'' (ex_block ''two'') None,
     Record ''2'' 2 ''c'' (ex_block ''x'') None]"

theorem echo_drains_up_to_first_match_witness:
  "\<exists>r d'. resolve_matching_text 3 ''c'' ''say  two'' ex_index = (r, d') \<and> map di_pending_id (md_skipped r) = [''pending_0'']"
proof -
  obtain r d' where run: "resolve_matching_text 3 ''c'' ''say  two'' ex_index = (r, d')" by fastforce
  have "queue [] = (\<lambda>c. [])" by (simp add: queue_def fun_eq_iff)
  then have qs: "queue ex_index = foldl queue_step (\<lambda>c. []) [Record ''0'' 0 ''c'' (ex_block ''one'') None,
      Record ''1'' 1 ''c'' (ex_block ''two'') None, Record ''2'' 2 ''c'' (ex_block ''x'') None]"
    unfolding ex_index_def inputs.sim_run by simp
  have q: "map (\<lambda>e. (en_pending_id e, en_content e)) (filter (fresh 3) (queue ex_index ''c'')) =
      [(''pending_0'', ex_block ''one''), (''pending_1'', ex_block ''two''), (''pending_2'', ex_block ''x'')]"
    by (simp add: qs put_def fresh_def ttl_def)
  have needle: "normalize_text ''say  two'' = ''say two''" by code_simp
  then have "normalize_text ''say  two'' \<noteq> []" by simp
  note E = echo_drains_up_to_first_match [OF ex_index_def refl refl this run, unfolded needle]
  obtain e0 e1 e2 where es: "filter (fresh 3) (queue ex_index ''c'') = [e0, e1, e2]" "en_pending_id e0 = ''pending_0''"
    "en_content e0 = ex_block ''one''" "en_content e1 = ex_block ''two''"
    using q by (auto simp: map_eq_Cons_conv)
  have blk: "content_text (ex_block t) = t" for t
    by (simp add: content_text_def ex_block_def List.map_filter_def)
  have m: "\<not> entry_matches ''say two'' e0" "entry_matches ''say two'' e1"
    unfolding entry_matches_def es(3,4) blk Let_def by code_simp+
  have "md_skipped r = [drained e0]"
    using E m unfolding es(1) by (auto simp: less_Suc_eq numeral_3_eq_3)
  then show ?thesis using run es(2) by (auto simp: drained_def)
qed

end
