(* ===== verification/Permissions.thy ===== *)
theory Permissions
  imports Py_Prelude "HOL-Library.Char_ord" "HOL-Library.List_Lexorder"
begin

text \<open>
  Session permissions: the grant store of
  \<^verbatim>\<open>codify/stores/permission_store/sqlalchemy_store.py\<close> and the access decisions of
  \<^verbatim>\<open>codify/server/permissions.py\<close>. A table is a dictionary by primary key, one workspace at a time.
  Access to a sub-agent is decided on its parent; the recursion follows the stored parent links and
  need not end on a cyclic chain, so its result is optional.
\<close>

section \<open>The store\<close>

definition LEVEL_READ :: int where "LEVEL_READ = 1"
definition LEVEL_EDIT :: int where "LEVEL_EDIT = 2"
definition LEVEL_MANAGE :: int where "LEVEL_MANAGE = 3"
definition LEVEL_OWNER :: int where "LEVEL_OWNER = 4"

definition RESERVED_USER_PUBLIC :: string where
  "RESERVED_USER_PUBLIC = ''__public__''"

record session_permission =
  sp_user_id :: string
  sp_conversation_id :: string
  sp_level :: int
  sp_can_approve :: bool

record permission_store =
  p_grants :: "(string \<times> string, int \<times> bool) pydict"
  p_users :: "(string, bool) pydict"

definition to_entity :: "(string \<times> string) \<times> int \<times> bool \<Rightarrow> session_permission" where
  "to_entity row = \<lparr>sp_user_id = fst (fst row), sp_conversation_id = snd (fst row), sp_level = fst (snd row),
     sp_can_approve = snd (snd row)\<rparr>"

definition grant :: "string \<Rightarrow> string \<Rightarrow> int \<Rightarrow> bool \<Rightarrow> permission_store \<Rightarrow> session_permission \<times> permission_store" where
  "grant user conv level can_approve st =
     (to_entity ((user, conv), level, can_approve), st\<lparr>p_grants := dset (user, conv) (level, can_approve) (p_grants st)\<rparr>)"

definition revoke :: "string \<Rightarrow> string \<Rightarrow> permission_store \<Rightarrow> bool \<times> permission_store" where
  "revoke user conv st = (dget (p_grants st) (user, conv) \<noteq> None, st\<lparr>p_grants := ddel (user, conv) (p_grants st)\<rparr>)"

definition get_grant :: "permission_store \<Rightarrow> string \<Rightarrow> string \<Rightarrow> session_permission option" where
  "get_grant st user conv = map_option (\<lambda>r. to_entity ((user, conv), r)) (dget (p_grants st) (user, conv))"

definition reassign_user_grants :: "string \<Rightarrow> string \<Rightarrow> permission_store \<Rightarrow> int \<times> permission_store" where
  "reassign_user_grants from_user to_user st0 =
     (let st = (if dget (p_users st0) to_user = None then st0\<lparr>p_users := dset to_user False (p_users st0)\<rparr> else st0);
          conversation_ids = [c. ((u, c), r) \<leftarrow> p_grants st, u = from_user];
          existing_to = [c. ((u, c), r) \<leftarrow> p_grants st, u = to_user \<and> c \<in> set conversation_ids];
          duplicate_ids = filter (\<lambda>c. c \<in> set existing_to) conversation_ids;
          reassign_ids = filter (\<lambda>c. c \<notin> set existing_to) conversation_ids;
          kept = filter (\<lambda>((u, c), r). \<not> (u = from_user \<and> c \<in> set duplicate_ids)) (p_grants st);
          moved = map (\<lambda>((u, c), r). if u = from_user \<and> c \<in> set reassign_ids then ((to_user, c), r) else ((u, c), r)) kept
      in if conversation_ids = [] then (0, st) else (int (length reassign_ids), st\<lparr>p_grants := moved\<rparr>))"

definition list_for_session :: "permission_store \<Rightarrow> string \<Rightarrow> nat \<Rightarrow> string option \<Rightarrow>
    (session_permission list \<times> string option) res" where
  "list_for_session st conv limit after_user_id =
     (let rows = sort_key (\<lambda>r. fst (fst r))
            (filter (\<lambda>r. snd (fst r) = conv \<and> (case after_user_id of None \<Rightarrow> True | Some a \<Rightarrow> a < fst (fst r))) (p_grants st));
          page = take (limit + 1) rows
      in if limit < length page
         then (case rev (take limit page) of
                 [] \<Rightarrow> Inl IndexError
               | r # _ \<Rightarrow> Inr (map to_entity (take limit page), Some (fst (fst r))))
         else Inr (map to_entity page, None))"

definition is_admin :: "permission_store \<Rightarrow> string \<Rightarrow> bool" where
  "is_admin st user = (dget (p_users st) user = Some True)"

definition ensure_user :: "string \<Rightarrow> bool \<Rightarrow> permission_store \<Rightarrow> permission_store" where
  "ensure_user user admin st =
     (case dget (p_users st) user of None \<Rightarrow> st\<lparr>p_users := dset user admin (p_users st)\<rparr> | Some _ \<Rightarrow> st)"

definition set_admin :: "string \<Rightarrow> bool \<Rightarrow> permission_store \<Rightarrow> permission_store" where
  "set_admin user admin st =
     (case dget (p_users st) user of None \<Rightarrow> st | Some _ \<Rightarrow> st\<lparr>p_users := dset user admin (p_users st)\<rparr>)"

definition grants_at_least :: "session_permission option \<Rightarrow> int \<Rightarrow> bool" where
  "grants_at_least g level = (case g of None \<Rightarrow> False | Some p \<Rightarrow> level \<le> sp_level p)"

definition check_access :: "permission_store \<Rightarrow> string option \<Rightarrow> string \<Rightarrow> int \<Rightarrow> bool" where
  "check_access st user conv level =
     (case user of
        None \<Rightarrow> False
      | Some u \<Rightarrow>
          if grants_at_least (get_grant st u conv) level then True
          else if grants_at_least (get_grant st RESERVED_USER_PUBLIC conv) level then True
          else False)"

definition get_permission_level :: "permission_store \<Rightarrow> string option \<Rightarrow> string \<Rightarrow> int option" where
  "get_permission_level st user conv =
     (case user of
        None \<Rightarrow> None
      | Some u \<Rightarrow>
          if is_admin st u then Some LEVEL_OWNER
          else case get_grant st u conv of
                 Some g \<Rightarrow> Some (sp_level g)
               | None \<Rightarrow> (case get_grant st RESERVED_USER_PUBLIC conv of Some g \<Rightarrow> Some (sp_level g) | None \<Rightarrow> None))"

record resolved_access =
  ra_is_admin :: bool
  ra_user_grant_level :: "int option"
  ra_public_grant_level :: "int option"
  ra_user_can_approve :: bool

definition resolve_access :: "permission_store \<Rightarrow> string option \<Rightarrow> string \<Rightarrow> resolved_access" where
  "resolve_access st user conv =
     (case user of
        None \<Rightarrow> \<lparr>ra_is_admin = False, ra_user_grant_level = None, ra_public_grant_level = None, ra_user_can_approve = False\<rparr>
      | Some u \<Rightarrow>
          \<lparr>ra_is_admin = (dget (p_users st) u = Some True),
           ra_user_grant_level = map_option sp_level (get_grant st u conv),
           ra_public_grant_level = map_option sp_level (get_grant st RESERVED_USER_PUBLIC conv),
           ra_user_can_approve = (case get_grant st u conv of None \<Rightarrow> False | Some g \<Rightarrow> sp_can_approve g)\<rparr>)"

section \<open>Access decisions\<close>

type_synonym conversations = "string \<Rightarrow> string option option"
  \<comment> \<open>\<open>get_conversation\<close>: absent, or present with its optional parent\<close>

partial_function (option) check_session_access ::
  "permission_store \<Rightarrow> conversations \<Rightarrow> string option \<Rightarrow> string \<Rightarrow> int \<Rightarrow> bool option" where
  "check_session_access st convs user conv level =
     (if (case user of None \<Rightarrow> False | Some u \<Rightarrow> is_admin st u) then Some True
      else case convs conv of
             None \<Rightarrow> Some False
           | Some parent_id \<Rightarrow>
               (case parent_id of
                  Some p \<Rightarrow> check_session_access st convs user p level
                | None \<Rightarrow> Some (check_access st user conv level)))"

definition check_is_manager :: "permission_store \<Rightarrow> conversations \<Rightarrow> string option \<Rightarrow> string \<Rightarrow> bool option" where
  "check_is_manager st convs user conv = check_session_access st convs user conv LEVEL_MANAGE"

partial_function (option) check_session_approval_access ::
  "permission_store \<Rightarrow> conversations \<Rightarrow> string option \<Rightarrow> string \<Rightarrow> bool option" where
  "check_session_approval_access st convs user conv =
     (if (case user of None \<Rightarrow> False | Some u \<Rightarrow> is_admin st u) then Some True
      else case convs conv of
             None \<Rightarrow> Some False
           | Some parent_id \<Rightarrow>
               (case parent_id of
                  Some p \<Rightarrow> check_session_approval_access st convs user p
                | None \<Rightarrow>
                    (case user of
                       None \<Rightarrow> Some False
                     | Some u \<Rightarrow>
                         (case get_grant st u conv of
                            None \<Rightarrow> Some False
                          | Some g \<Rightarrow> Some (LEVEL_OWNER \<le> sp_level g \<or> sp_can_approve g)))))"

definition resolved_allows :: "resolved_access \<Rightarrow> int \<Rightarrow> bool" where
  "resolved_allows a level =
     (if ra_is_admin a then True
      else if (case ra_user_grant_level a of None \<Rightarrow> False | Some l \<Rightarrow> level \<le> l) then True
      else if (case ra_public_grant_level a of None \<Rightarrow> False | Some l \<Rightarrow> level \<le> l) then True
      else False)"

definition resolved_level :: "resolved_access \<Rightarrow> int option" where
  "resolved_level a =
     (if ra_is_admin a then Some LEVEL_OWNER
      else case ra_user_grant_level a of Some l \<Rightarrow> Some l | None \<Rightarrow> ra_public_grant_level a)"

definition resolved_can_approve :: "resolved_access \<Rightarrow> bool" where
  "resolved_can_approve a \<longleftrightarrow>
     ra_is_admin a \<or> (case ra_user_grant_level a of None \<Rightarrow> False | Some l \<Rightarrow> LEVEL_OWNER \<le> l \<or> ra_user_can_approve a)"

section \<open>Grants\<close>

lemma dget_mem: "dict_ok d \<Longrightarrow> dget d k = Some v \<longleftrightarrow> (k, v) \<in> set d"
  by (simp add: dict_ok_def)

lemma grants_at_least_iff: "grants_at_least g level \<longleftrightarrow> (\<exists>p. g = Some p \<and> level \<le> sp_level p)"
  by (simp add: grants_at_least_def split: option.split)

lemma check_access_iff:
  "check_access st user conv level \<longleftrightarrow> (\<exists>u. user = Some u \<and>
     (grants_at_least (get_grant st u conv) level \<or> grants_at_least (get_grant st RESERVED_USER_PUBLIC conv) level))"
  by (simp add: check_access_def split: option.split)

lemma check_access_mono: "check_access st user conv level \<Longrightarrow> level' \<le> level \<Longrightarrow> check_access st user conv level'"
  by (fastforce simp: check_access_iff grants_at_least_iff)

inductive root_of :: "conversations \<Rightarrow> string \<Rightarrow> string option \<Rightarrow> bool" for convs where
  \<comment> \<open>the top of the parent chain, \<open>None\<close> when it leaves the stored conversations\<close>
  root_missing: "convs c = None \<Longrightarrow> root_of convs c None"
| root_here: "convs c = Some None \<Longrightarrow> root_of convs c (Some c)"
| root_parent: "convs c = Some (Some p) \<Longrightarrow> root_of convs p r \<Longrightarrow> root_of convs c r"

definition admin_user :: "permission_store \<Rightarrow> string option \<Rightarrow> bool" where
  "admin_user st user = (case user of None \<Rightarrow> False | Some u \<Rightarrow> is_admin st u)"

lemma check_session_access_root:
  "root_of convs conv r \<Longrightarrow> check_session_access st convs user conv level =
     Some (admin_user st user \<or> (case r of None \<Rightarrow> False | Some c \<Rightarrow> check_access st user c level))"
proof (induction rule: root_of.induct)
  case (root_parent c p r)
  then show ?case by (subst check_session_access.simps) (simp add: admin_user_def)
qed (subst check_session_access.simps, simp add: admin_user_def)+

lemma check_approval_root:
  "root_of convs conv r \<Longrightarrow> check_session_approval_access st convs user conv =
     Some (admin_user st user \<or> (case r of None \<Rightarrow> False | Some c \<Rightarrow> resolved_can_approve (resolve_access st user c)))"
proof (induction rule: root_of.induct)
  case (root_here c)
  then show ?case
    by (subst check_session_approval_access.simps)
      (auto simp: admin_user_def is_admin_def resolved_can_approve_def resolve_access_def split: option.split)
next
  case (root_parent c p r)
  then show ?case by (subst check_session_approval_access.simps) (simp add: admin_user_def)
qed (subst check_session_approval_access.simps, simp add: admin_user_def)

lemma root_exists:
  fixes rank :: "string \<Rightarrow> nat"
  assumes "\<And>c p. convs c = Some (Some p) \<Longrightarrow> rank p < rank c"
  shows "\<exists>r. root_of convs conv r"
proof (induction "rank conv" arbitrary: conv rule: less_induct)
  case less
  show ?case
  proof (cases "convs conv")
    case None
    then show ?thesis by (blast intro: root_missing)
  next
    case (Some q)
    show ?thesis
    proof (cases q)
      case None
      with Some show ?thesis by (blast intro: root_here)
    next
      case (Some p)
      with \<open>convs conv = Some q\<close> have "convs conv = Some (Some p)" by simp
      with less [of p] assms show ?thesis by (blast intro: root_parent)
    qed
  qed
qed

section \<open>Reassignment\<close>

definition transfer :: "string \<Rightarrow> string \<Rightarrow> (string \<times> string, int \<times> bool) pydict \<Rightarrow> string \<times> string \<Rightarrow> (int \<times> bool) option" where
  \<comment> \<open>the specification: the receiver keeps its own grants and takes over the others\<close>
  "transfer from_user to_user d = (\<lambda>(u, c).
     if u = to_user then (case dget d (to_user, c) of Some g \<Rightarrow> Some g | None \<Rightarrow> dget d (from_user, c))
     else if u = from_user then None else dget d (u, c))"

lemma transfer_list:
  assumes ok: "dict_ok d" and neq: "from_user \<noteq> to_user"
  defines "dup \<equiv> \<lambda>c. dget d (to_user, c) \<noteq> None"
  defines "kept \<equiv> filter (\<lambda>((u, c), r). \<not> (u = from_user \<and> dup c)) d"
  defines "moved \<equiv> map (\<lambda>((u, c), r). if u = from_user \<and> \<not> dup c then ((to_user, c), r) else ((u, c), r)) kept"
  shows "dict_ok moved \<and> dget moved = transfer from_user to_user d"
proof -
  let ?f = "\<lambda>(u, c). if u = from_user \<and> \<not> dup c then (to_user, c) else (u, c)"
  have keys: "map fst moved = map ?f (map fst kept)" by (auto simp: moved_def)
  have "distinct (map fst kept)" using ok by (simp add: kept_def dict_ok_def distinct_map_filter)
  moreover have "inj_on ?f (set (map fst kept))"
    by (auto simp: inj_on_def kept_def dup_def map_of_eq_None_iff split: if_splits) (force simp: image_iff)+
  ultimately have okm: "dict_ok moved" unfolding dict_ok_def keys distinct_map [of ?f] by blast
  have mem: "((u, c), r) \<in> set moved \<longleftrightarrow>
      (u = to_user \<and> ((from_user, c), r) \<in> set d \<and> \<not> dup c) \<or> (u \<noteq> from_user \<and> ((u, c), r) \<in> set d)" for u c r
    using neq by (force simp: moved_def kept_def split: if_splits)
  have "dget moved uc = transfer from_user to_user d uc" for uc
  proof (cases uc)
    case (Pair u c)
    have "dget moved (u, c) = Some r \<longleftrightarrow> transfer from_user to_user d (u, c) = Some r" for r
      unfolding dget_mem [OF okm] mem dget_mem [OF ok, symmetric] using neq
      by (auto simp: transfer_def dup_def split: option.split)
    then show ?thesis unfolding Pair by (metis not_Some_eq)
  qed
  with okm show ?thesis by blast
qed

lemma mem_conversations: "c \<in> set [c. ((u, c), r) \<leftarrow> d, u = x] \<longleftrightarrow> dget d (x, c) \<noteq> None"
  by (auto simp: map_of_eq_None_iff image_iff) (metis fst_conv)+

lemma reassign_closed:
  assumes ok: "dict_ok (p_grants st)" and neq: "from_user \<noteq> to_user"
  shows "dict_ok (p_grants (snd (reassign_user_grants from_user to_user st))) \<and>
    dget (p_grants (snd (reassign_user_grants from_user to_user st))) = transfer from_user to_user (p_grants st)"
proof -
  let ?d = "p_grants st"
  define ids where "ids = [c. ((u, c), r) \<leftarrow> ?d, u = from_user]"
  define dup where "dup = filter (\<lambda>c. c \<in> set [c. ((u, c), r) \<leftarrow> ?d, u = to_user \<and> c \<in> set ids]) ids"
  define re where "re = filter (\<lambda>c. c \<notin> set [c. ((u, c), r) \<leftarrow> ?d, u = to_user \<and> c \<in> set ids]) ids"
  define st1 where "st1 = (if dget (p_users st) to_user = None then st\<lparr>p_users := dset to_user False (p_users st)\<rparr> else st)"
  have d1: "p_grants st1 = ?d" by (simp add: st1_def)
  let ?kept = "filter (\<lambda>((u, c), r). \<not> (u = from_user \<and> c \<in> set dup)) ?d"
  let ?moved = "map (\<lambda>((u, c), r). if u = from_user \<and> c \<in> set re then ((to_user, c), r) else ((u, c), r)) ?kept"
  have run: "reassign_user_grants from_user to_user st =
      (if ids = [] then (0, st1) else (int (length re), st1\<lparr>p_grants := ?moved\<rparr>))"
    unfolding reassign_user_grants_def Let_def st1_def [symmetric] d1 ids_def [symmetric] dup_def [symmetric] re_def [symmetric] ..
  have ids: "c \<in> set ids \<longleftrightarrow> dget ?d (from_user, c) \<noteq> None" for c unfolding ids_def by (rule mem_conversations)
  have "c \<in> set [c. ((u, c), r) \<leftarrow> ?d, u = to_user \<and> c \<in> set ids] \<longleftrightarrow> dget ?d (to_user, c) \<noteq> None \<and> c \<in> set ids" for c
    using mem_conversations [where c = c and d = ?d and x = to_user] by auto
  then have sets: "c \<in> set dup \<longleftrightarrow> c \<in> set ids \<and> dget ?d (to_user, c) \<noteq> None" "c \<in> set re \<longleftrightarrow> c \<in> set ids \<and> dget ?d (to_user, c) = None" for c
    unfolding dup_def re_def set_filter by blast+
  have present: "c \<in> set ids" if "((from_user, c), r) \<in> set ?d" for c r
    using that unfolding ids by (cases r) (auto simp: dget_mem [OF ok])
  have kept: "?kept = filter (\<lambda>((u, c), r). \<not> (u = from_user \<and> dget ?d (to_user, c) \<noteq> None)) ?d"
    by (rule filter_cong) (auto simp: sets dest: present)
  have moved: "?moved = map (\<lambda>((u, c), r). if u = from_user \<and> \<not> dget ?d (to_user, c) \<noteq> None then ((to_user, c), r) else ((u, c), r)) ?kept"
    by (rule map_cong [OF refl]) (auto simp: sets dest: present)
  note T = transfer_list [OF ok neq, folded kept, folded moved]
  show ?thesis
  proof (cases "ids = []")
    case True
    then have none: "dget ?d (from_user, c) = None" for c using ids [of c] unfolding True by (simp del: not_None_eq)
    then have "dget ?d = transfer from_user to_user ?d"
      using neq by (auto simp: transfer_def fun_eq_iff split: option.split)
    with True ok run d1 show ?thesis by simp
  next
    case False
    with run T show ?thesis by simp
  qed
qed

lemma self_reassign:
  assumes "dict_ok (p_grants st)"
  shows "dget (p_grants (snd (reassign_user_grants user user st))) (u, c) = (if u = user then None else dget (p_grants st) (u, c))"
proof -
  let ?d = "p_grants st"
  define ids where "ids = [c. ((u, c), r) \<leftarrow> ?d, u = user]"
  have ids: "c \<in> set ids \<longleftrightarrow> dget ?d (user, c) \<noteq> None" for c unfolding ids_def by (rule mem_conversations)
  define ex where "ex = [c. ((u, c), r) \<leftarrow> ?d, u = user \<and> c \<in> set ids]"
  have "c \<in> set ex \<longleftrightarrow> dget ?d (user, c) \<noteq> None \<and> c \<in> set ids" for c
    using mem_conversations [where c = c and d = ?d and x = user] unfolding ex_def by auto
  then have ex: "set ex = set ids" using ids by blast
  define st1 where "st1 = (if dget (p_users st) user = None then st\<lparr>p_users := dset user False (p_users st)\<rparr> else st)"
  have d1: "p_grants st1 = ?d" by (simp add: st1_def)
  have "p_grants (snd (reassign_user_grants user user st)) =
      (if ids = [] then ?d else map (\<lambda>((u, c), r). ((u, c), r)) (filter (\<lambda>((u, c), r). \<not> (u = user \<and> c \<in> set ids)) ?d))"
    unfolding reassign_user_grants_def Let_def st1_def [symmetric] d1 ids_def [symmetric] ex_def [symmetric]
    using d1 by (auto simp: ex intro!: map_cong)
  also have "\<dots> = filter (\<lambda>((u, c), r). \<not> (u = user \<and> c \<in> set ids)) ?d"
    by (auto simp: case_prod_beta)
  finally have eq: "p_grants (snd (reassign_user_grants user user st)) =
      filter (\<lambda>k. \<not> (fst (fst k) = user \<and> snd (fst k) \<in> set ids)) ?d"
    by (simp only:) (rule filter_cong [OF refl], auto)
  have "dget (filter (\<lambda>k. P (fst k)) d) k = (if P k then dget d k else None)" for P k and d :: "(string \<times> string, int \<times> bool) pydict"
    by (induction d) auto
  from this [of "\<lambda>k. \<not> (fst k = user \<and> snd k \<in> set ids)" ?d "(u, c)"] show ?thesis
    unfolding eq using ids [of c] by (simp del: not_None_eq)
qed

section \<open>Pages\<close>

definition session_rows :: "permission_store \<Rightarrow> string \<Rightarrow> ((string \<times> string) \<times> int \<times> bool) list" where
  \<comment> \<open>the grants of a session in the order of their users\<close>
  "session_rows st conv = sort_key (\<lambda>r. fst (fst r)) (filter (\<lambda>r. snd (fst r) = conv) (p_grants st))"

fun fetch_pages :: "permission_store \<Rightarrow> string \<Rightarrow> nat \<Rightarrow> nat \<Rightarrow> string option \<Rightarrow> session_permission list option" where
  \<comment> \<open>a client that follows the cursor for at most \<open>fuel\<close> pages\<close>
  "fetch_pages st conv limit 0 cursor = None"
| "fetch_pages st conv limit (Suc fuel) cursor =
     (case list_for_session st conv limit cursor of
        Inl e \<Rightarrow> None
      | Inr (page, next_cursor) \<Rightarrow>
          (case next_cursor of
             None \<Rightarrow> Some page
           | Some c \<Rightarrow> map_option (\<lambda>rest. page @ rest) (fetch_pages st conv limit fuel (Some c))))"

lemma rows_after:
  fixes xs :: "('k::linorder \<times> 'v) list"
  assumes "sorted (map fst xs)" and "distinct (map fst xs)" and "n < length xs"
  shows "filter (\<lambda>r. fst (xs ! n) < fst r) xs = drop (Suc n) xs"
proof -
  have less: "fst (xs ! i) < fst (xs ! j)" if "i < j" "j < length xs" for i j
  proof -
    have "map fst xs ! i \<le> map fst xs ! j" using assms(1) that by (intro sorted_nth_mono) simp_all
    moreover have "map fst xs ! i \<noteq> map fst xs ! j" using nth_eq_iff_index_eq [OF assms(2), of i j] that by simp
    ultimately show ?thesis using that by simp
  qed
  have take: "\<not> fst (xs ! n) < fst r" if "r \<in> set (take (Suc n) xs)" for r
  proof -
    from that obtain i where "i < Suc n" "i < length xs" "r = xs ! i" by (auto simp: in_set_conv_nth)
    then show ?thesis using less [of i n] assms(3) by (cases "i = n") auto
  qed
  have drop: "fst (xs ! n) < fst r" if "r \<in> set (drop (Suc n) xs)" for r
  proof -
    from that obtain i where "i < length xs - Suc n" "r = xs ! (Suc n + i)" by (auto simp: in_set_conv_nth)
    then show ?thesis using less [of n "Suc n + i"] by simp
  qed
  have "filter (\<lambda>r. fst (xs ! n) < fst r) (take (Suc n) xs @ drop (Suc n) xs) = drop (Suc n) xs"
    unfolding filter_append using take drop by (simp add: filter_empty_conv filter_id_conv)
  then show ?thesis by simp
qed

lemma session_rows_sorted:
  assumes "dict_ok (p_grants st)"
  shows "sorted (map (\<lambda>r. fst (fst r)) (session_rows st conv))" "distinct (map (\<lambda>r. fst (fst r)) (session_rows st conv))"
proof -
  show "sorted (map (\<lambda>r. fst (fst r)) (session_rows st conv))" unfolding session_rows_def by (rule sorted_sort_key)
  have "inj_on (\<lambda>r. fst (fst r)) (set (session_rows st conv))"
    using assms by (auto simp: session_rows_def inj_on_def dict_ok_def dest: eq_key_imp_eq_value)
  moreover have "distinct (session_rows st conv)"
    using assms by (auto simp: session_rows_def dict_ok_def distinct_map)
  ultimately show "distinct (map (\<lambda>r. fst (fst r)) (session_rows st conv))" by (simp add: distinct_map)
qed

lemma rows_after_user:
  assumes "dict_ok (p_grants st)" and "n < length (session_rows st conv)"
  shows "filter (\<lambda>r. fst (fst (session_rows st conv ! n)) < fst (fst r)) (session_rows st conv) = drop (Suc n) (session_rows st conv)"
proof -
  let ?xs = "session_rows st conv" and ?ys = "map (\<lambda>r. (fst (fst r), r)) (session_rows st conv)"
  have "filter (\<lambda>r. fst (?ys ! n) < fst r) ?ys = drop (Suc n) ?ys"
    by (rule rows_after) (use session_rows_sorted [OF assms(1), of conv] assms(2) in \<open>simp_all add: comp_def\<close>)
  then have "map snd (filter (\<lambda>r. fst (?ys ! n) < fst r) ?ys) = map snd (drop (Suc n) ?ys)" by simp
  then show ?thesis using assms(2) by (simp add: filter_map comp_def drop_map)
qed

lemma list_for_session_page:
  assumes "rest = filter (\<lambda>r. case cursor of None \<Rightarrow> True | Some a \<Rightarrow> a < fst (fst r)) (session_rows st conv)" and "1 \<le> limit"
  shows "list_for_session st conv limit cursor =
    (if limit < length rest then Inr (map to_entity (take limit rest), Some (fst (fst (rest ! (limit - 1)))))
     else Inr (map to_entity rest, None))"
proof -
  have rows: "sort_key (\<lambda>r. fst (fst r)) (filter (\<lambda>r. snd (fst r) = conv \<and> (case cursor of None \<Rightarrow> True | Some a \<Rightarrow> a < fst (fst r))) (p_grants st)) = rest"
    unfolding assms(1) session_rows_def filter_sort by (simp add: conj_commute)
  show ?thesis
  proof (cases "limit < length rest")
    case True
    then have "take limit rest = take (limit - 1) rest @ [rest ! (limit - 1)]"
      using assms(2) take_Suc_conv_app_nth [of "limit - 1" rest] by simp
    then have "rev (take limit rest) = rest ! (limit - 1) # rev (take (limit - 1) rest)" by simp
    with True show ?thesis unfolding list_for_session_def rows by (simp add: Let_def)
  next
    case False
    then show ?thesis unfolding list_for_session_def rows by (simp add: Let_def)
  qed
qed

lemma fetch_pages_rest:
  assumes "dict_ok (p_grants st)" and "1 \<le> limit"
    and "filter (\<lambda>r. case cursor of None \<Rightarrow> True | Some a \<Rightarrow> a < fst (fst r)) (session_rows st conv) = drop k (session_rows st conv)"
    and "length (session_rows st conv) - k < fuel"
  shows "fetch_pages st conv limit fuel cursor = Some (map to_entity (drop k (session_rows st conv)))"
  using assms(3,4)
proof (induction fuel arbitrary: cursor k)
  case (Suc fuel)
  let ?xs = "session_rows st conv"
  note page = list_for_session_page [OF Suc.prems(1) [symmetric] assms(2)]
  show ?case
  proof (cases "limit < length (drop k ?xs)")
    case True
    let ?c = "fst (fst (drop k ?xs ! (limit - 1)))"
    have n: "drop k ?xs ! (limit - 1) = ?xs ! (k + (limit - 1))" "k + (limit - 1) < length ?xs"
      using True assms(2) by simp_all
    have "filter (\<lambda>r. case Some ?c of None \<Rightarrow> True | Some a \<Rightarrow> a < fst (fst r)) ?xs = drop (k + limit) ?xs"
      unfolding n(1) using rows_after_user [OF assms(1) n(2)] assms(2) by simp
    moreover have "length ?xs - (k + limit) < fuel" using Suc.prems(2) True assms(2) by simp
    ultimately have "fetch_pages st conv limit fuel (Some ?c) = Some (map to_entity (drop (k + limit) ?xs))" by (rule Suc.IH)
    moreover have "take limit (drop k ?xs) @ drop (k + limit) ?xs = drop k ?xs"
      using append_take_drop_id [of limit "drop k ?xs"] by (simp add: add.commute)
    then have "map to_entity (take limit (drop k ?xs)) @ map to_entity (drop (k + limit) ?xs) = map to_entity (drop k ?xs)"
      by (simp only: flip: map_append)
    ultimately show ?thesis using page True by simp
  next
    case False
    with page show ?thesis by simp
  qed
qed simp

section \<open>Properties\<close>

text \<open>
  C29: access to a conversation is decided on the root of its spawn tree: with well-founded parent
  links the check always returns, it answers yes exactly for admins and for users whose own or
  public grant on that root reaches the level, approval likewise needs ownership or the delegated
  right there, and a chain that leaves the store denies.
\<close>

theorem access_is_decided_on_the_root:
  fixes rank :: "string \<Rightarrow> nat"
  assumes "\<And>c p. convs c = Some (Some p) \<Longrightarrow> rank p < rank c"
  shows "\<exists>r. root_of convs conv r \<and>
    check_session_access st convs user conv level =
      Some (admin_user st user \<or> (case r of None \<Rightarrow> False | Some c \<Rightarrow> check_access st user c level)) \<and>
    check_session_approval_access st convs user conv =
      Some (admin_user st user \<or> (case r of None \<Rightarrow> False | Some c \<Rightarrow> resolved_can_approve (resolve_access st user c)))"
proof -
  obtain r where "root_of convs conv r" using root_exists [of convs rank conv] assms by blast
  then show ?thesis using check_session_access_root check_approval_root by blast
qed

definition ex_convs :: conversations where
  "ex_convs = (\<lambda>c. if c = ''sub'' then Some (Some ''root'') else if c = ''root'' then Some None else None)"

definition ex_perms :: permission_store where
  "ex_perms = \<lparr>p_grants = [((''u'', ''root''), (2, False)), ((''v'', ''root''), (4, False))], p_users = []\<rparr>"

theorem access_is_decided_on_the_root_witness:
  "check_session_access ex_perms ex_convs (Some ''u'') ''sub'' 2 = Some True"
proof -
  have "ex_convs c = Some (Some p) \<Longrightarrow> (if p = ''root'' then 0 else 1 :: nat) < (if c = ''root'' then 0 else 1)" for c p
    by (auto simp: ex_convs_def split: if_splits)
  from access_is_decided_on_the_root [where rank = "\<lambda>c. if c = ''root'' then 0 else 1", OF this]
  obtain r where r: "root_of ex_convs ''sub'' r" "check_session_access ex_perms ex_convs (Some ''u'') ''sub'' 2 =
      Some (admin_user ex_perms (Some ''u'') \<or> (case r of None \<Rightarrow> False | Some c \<Rightarrow> check_access ex_perms (Some ''u'') c 2))" by blast
  have "r = Some ''root''"
    using r(1) by (rule root_of.cases) (auto simp: ex_convs_def elim: root_of.cases)
  with r(2) show ?thesis by (simp add: check_access_def grants_at_least_def get_grant_def to_entity_def ex_perms_def)
qed

text \<open>
  the one-round-trip snapshot decides like the store: for a root conversation the snapshot's
  access, displayed level and approval right are those of the separate queries, and access at a
  level implies access at every lower one.
\<close>

theorem access_snapshot_agrees_with_store:
  assumes "convs conv = Some None"
  shows "check_session_access st convs user conv level = Some (resolved_allows (resolve_access st user conv) level) \<and>
    get_permission_level st user conv = resolved_level (resolve_access st user conv) \<and>
    check_session_approval_access st convs user conv = Some (resolved_can_approve (resolve_access st user conv)) \<and>
    (\<forall>level' \<le> level. resolved_allows (resolve_access st user conv) level \<longrightarrow> resolved_allows (resolve_access st user conv) level')"
proof (intro conjI)
  note root = root_here [of convs, OF assms]
  have allows: "resolved_allows (resolve_access st user conv) l \<longleftrightarrow> admin_user st user \<or> check_access st user conv l" for l
    by (auto simp: resolved_allows_def resolve_access_def admin_user_def is_admin_def check_access_def grants_at_least_def
        split: option.split)
  show "check_session_access st convs user conv level = Some (resolved_allows (resolve_access st user conv) level)"
    using check_session_access_root [OF root, of st user level] by (simp add: allows)
  show "get_permission_level st user conv = resolved_level (resolve_access st user conv)"
    by (auto simp: get_permission_level_def resolved_level_def resolve_access_def is_admin_def split: option.split)
  show "check_session_approval_access st convs user conv = Some (resolved_can_approve (resolve_access st user conv))"
    using check_approval_root [OF root, of st user]
    by (auto simp: admin_user_def is_admin_def resolved_can_approve_def resolve_access_def split: option.split)
  show "\<forall>level' \<le> level. resolved_allows (resolve_access st user conv) level \<longrightarrow> resolved_allows (resolve_access st user conv) level'"
    using check_access_mono allows by blast
qed

theorem access_snapshot_agrees_with_store_witness:
  "get_permission_level ex_perms (Some ''v'') ''root'' = resolved_level (resolve_access ex_perms (Some ''v'') ''root'')"
proof -
  have "ex_convs ''root'' = Some None" by (simp add: ex_convs_def)
  from access_snapshot_agrees_with_store [where convs = ex_convs and conv = "''root''" and st = ex_perms and user = "Some ''v''", OF this] show ?thesis by blast
qed

text \<open>
  reassigning a user's grants to another user moves every grant the receiver lacks, drops the
  ones it has, touches nobody else and keeps one grant per user and session. Reassigning a user to
  itself deletes all its grants.
\<close>

theorem reassignment_moves_or_drops:
  assumes "dict_ok (p_grants st)"
  shows "(from_user \<noteq> to_user \<longrightarrow>
      dget (p_grants (snd (reassign_user_grants from_user to_user st))) = transfer from_user to_user (p_grants st) \<and>
      dict_ok (p_grants (snd (reassign_user_grants from_user to_user st)))) \<and>
    (\<forall>c. get_grant (snd (reassign_user_grants to_user to_user st)) to_user c = None)"
  using reassign_closed [OF assms] self_reassign [OF assms] by (auto simp: get_grant_def)

theorem reassignment_moves_or_drops_witness:
  "get_grant (snd (reassign_user_grants ''v'' ''v'' ex_perms)) ''v'' ''root'' = None \<and> get_grant ex_perms ''v'' ''root'' \<noteq> None"
proof -
  have "dict_ok (p_grants ex_perms)" by (simp add: ex_perms_def dict_ok_def)
  from reassignment_moves_or_drops [OF this] show ?thesis by (simp add: get_grant_def ex_perms_def)
qed

text \<open>
  following the cursor lists every grant of a session exactly once, in the order of the users,
  whatever the page size.
\<close>

theorem pages_list_every_grant_once:
  assumes "dict_ok (p_grants st)" and "1 \<le> limit"
  shows "fetch_pages st conv limit (Suc (length (session_rows st conv))) None = Some (map to_entity (session_rows st conv)) \<and>
    distinct (map (\<lambda>r. fst (fst r)) (session_rows st conv)) \<and> sorted (map (\<lambda>r. fst (fst r)) (session_rows st conv))"
  using fetch_pages_rest [OF assms, of None conv 0 "Suc (length (session_rows st conv))"] session_rows_sorted [OF assms(1)]
  by simp

theorem pages_list_every_grant_once_witness:
  "fetch_pages ex_perms ''root'' 1 3 None = Some (map to_entity (session_rows ex_perms ''root''))"
proof -
  have "dict_ok (p_grants ex_perms)" by (simp add: ex_perms_def dict_ok_def)
  from pages_list_every_grant_once [OF this, of 1 "''root''"]
  show ?thesis by (simp add: ex_perms_def session_rows_def eval_nat_numeral)
qed

end
