(* ===== verification/Fine_Grained_Reward.thy ===== *)
theory Fine_Grained_Reward
  imports Py_Prelude
begin

text \<open>
  The fine-grained reward of \<^verbatim>\<open>llm_verifier/fine_grained_reward.py\<close>: the twenty-letter
  scale, the lookup of the logprobs at a score tag, and \<open>extract_score\<close>, the expectation of the
  scale value under the verifier's token distribution with its two fallbacks (the literal tag in
  the text, then a tie). A verifier response is its text, its token strings and, per position, the
  alternatives with their log probabilities; an absent list (\<open>None\<close>) is the empty list, which the
  code treats alike.
\<close>

section \<open>The scale\<close>

definition granularity :: nat where
  "granularity = 20"

definition valid_tokens :: "(string, real) pydict" where
  "valid_tokens =
     map (\<lambda>i. ([char_of (65 + i)], real (granularity - i))) [0..<granularity] @
     map (\<lambda>i. ([char_of (97 + i)], real (granularity - i))) [0..<granularity]"

type_synonym alternatives = "(string \<times> real) list"

section \<open>The logprobs at a tag\<close>

fun find_tag_from :: "string \<Rightarrow> alternatives list \<Rightarrow> string \<Rightarrow> nat \<Rightarrow> string list \<Rightarrow> alternatives option" where
  \<comment> \<open>the loop over \<open>enumerate(tokens)\<close>, with \<open>text_so_far\<close> and the index \<open>i\<close>\<close>
  "find_tag_from tag lps text_so_far i [] = None"
| "find_tag_from tag lps text_so_far i (tok # toks) =
     (let text_so_far' = text_so_far @ tok
      in if ends_with (rstrip text_so_far') tag \<and> i + 1 < length lps
         then Some (lps ! (i + 1))
         else find_tag_from tag lps text_so_far' (i + 1) toks)"

definition find_tag_logprobs :: "string list \<Rightarrow> alternatives list \<Rightarrow> string \<Rightarrow> alternatives option" where
  "find_tag_logprobs tokens lps tag =
     (if tokens = [] \<or> lps = [] then None else find_tag_from tag lps [] 0 tokens)"

section \<open>The literal tag in the text\<close>

text \<open>
  \<open>re.search\<close> of \<^verbatim>\<open><name>\s*(.+?)\s*</name>\<close> ignoring case, written as the backtracking
  matcher it is: leftmost start, greedy blanks that give back one character at a time, a lazy
  group of at least one character that holds no newline, then blanks and the closing tag.
\<close>

definition prefix_ci :: "string \<Rightarrow> string \<Rightarrow> bool" where
  "prefix_ci p s \<longleftrightarrow> lower (take (length p) s) = lower p"

fun lazy_group :: "string \<Rightarrow> string \<Rightarrow> string \<Rightarrow> string option" where
  "lazy_group close acc [] = None"
| "lazy_group close acc (c # cs) =
     (if c = CHR 0x0A then None
      else if prefix_ci close (lstrip cs) then Some (acc @ [c])
      else lazy_group close (acc @ [c]) cs)"

fun blanks_then_group :: "string \<Rightarrow> nat \<Rightarrow> string \<Rightarrow> string option" where
  "blanks_then_group close 0 s = lazy_group close [] s"
| "blanks_then_group close (Suc m) s =
     (case lazy_group close [] (drop (Suc m) s) of
        Some g \<Rightarrow> Some g
      | None \<Rightarrow> blanks_then_group close m s)"

fun tag_search :: "string \<Rightarrow> string \<Rightarrow> string \<Rightarrow> string option" where
  "tag_search opening closing [] = None"
| "tag_search opening closing (c # cs) =
     (let rest = drop (length opening) (c # cs);
          here = (if prefix_ci opening (c # cs)
                  then blanks_then_group closing (length (takeWhile py_space rest)) rest else None)
      in case here of Some g \<Rightarrow> Some g | None \<Rightarrow> tag_search opening closing cs)"

definition strip_angles :: "string \<Rightarrow> string" where
  \<comment> \<open>\<open>tag.strip("<>")\<close>\<close>
  "strip_angles s =
     (let f = dropWhile (\<lambda>c. c = CHR ''<'' \<or> c = CHR ''>'') in rev (f (rev (f s))))"

definition literal_value :: "string \<Rightarrow> string \<Rightarrow> real option" where
  "literal_value text tag =
     (let tag_name = strip_angles tag
      in case tag_search (''<'' @ tag_name @ ''>'') (''</'' @ tag_name @ ''>'') text of
           None \<Rightarrow> None
         | Some g \<Rightarrow>
             (let tok = strip g
              in case dget valid_tokens tok of
                   Some v \<Rightarrow> Some v
                 | None \<Rightarrow> map_option snd (find (\<lambda>(vt, v). lower tok = lower vt) valid_tokens)))"

section \<open>The expectation\<close>

fun collect_probs :: "alternatives \<Rightarrow> (real, real) pydict \<Rightarrow> (real, real) pydict" where
  "collect_probs [] probs = probs"
| "collect_probs ((tok_str, logprob) # alts) probs =
     (case dget valid_tokens (strip tok_str) of
        None \<Rightarrow> collect_probs alts probs
      | Some v \<Rightarrow>
          (let old = (case dget probs v of None \<Rightarrow> 0 | Some p \<Rightarrow> p)
           in collect_probs alts (dset v (max old (exp logprob)) probs)))"

definition min_val :: real where
  "min_val = Min (snd ` set valid_tokens)"

definition max_val :: real where
  "max_val = Max (snd ` set valid_tokens)"

definition normalise :: "real \<Rightarrow> real" where
  "normalise v = (if max_val > min_val then (v - min_val) / (max_val - min_val) else 1 / 2)"

definition expected_value :: "(real, real) pydict \<Rightarrow> real" where
  "expected_value probs =
     (\<Sum>vp \<leftarrow> probs. fst vp * snd vp) / (\<Sum>vp \<leftarrow> probs. snd vp)"

definition extract_score :: "string \<Rightarrow> string list \<Rightarrow> alternatives list \<Rightarrow> string \<Rightarrow> real" where
  "extract_score text tokens lps tag =
     (let probs = (case find_tag_logprobs tokens lps tag of
                     None \<Rightarrow> []
                   | Some alts \<Rightarrow> collect_probs alts [])
      in if probs \<noteq> [] then normalise (expected_value probs)
         else case literal_value text tag of
                Some v \<Rightarrow> normalise v
              | None \<Rightarrow> 1 / 2)"

section \<open>Facts about the scale\<close>

lemma set_valid_tokens_snd: "snd ` set valid_tokens = real ` {1..20}"
proof -
  have "(\<lambda>i. real (20 - i)) ` {0..<20} = real ` {1..20::nat}"
  proof -
    have "(\<lambda>i. 20 - i) ` {0..<20} = {1..20::nat}"
    proof (intro set_eqI iffI)
      fix v :: nat assume "v \<in> {1..20}"
      then show "v \<in> (\<lambda>i. 20 - i) ` {0..<20}" by (intro image_eqI [of _ _ "20 - v"]) auto
    qed auto
    then show ?thesis by (metis image_image)
  qed
  then show ?thesis
    by (simp add: valid_tokens_def granularity_def image_Un image_image del: upt_Suc)
qed

lemma min_val_eq: "min_val = 1"
  unfolding min_val_def set_valid_tokens_snd
  by (rule Min_eqI) auto

lemma max_val_eq: "max_val = 20"
  unfolding max_val_def set_valid_tokens_snd
  by (rule Max_eqI) auto

lemma normalise_eq: "normalise v = (v - 1) / 19"
  by (simp add: normalise_def min_val_eq max_val_eq)

lemma valid_tokens_range: "(t, v) \<in> set valid_tokens \<Longrightarrow> 1 \<le> v \<and> v \<le> 20"
  using set_valid_tokens_snd by (metis (no_types, lifting) atLeastAtMost_iff image_iff of_nat_1 of_nat_le_iff of_nat_numeral snd_conv)

lemma dget_valid_tokens_range: "dget valid_tokens t = Some v \<Longrightarrow> 1 \<le> v \<and> v \<le> 20"
  by (blast dest: map_of_SomeD valid_tokens_range)

lemma literal_value_range: "literal_value text tag = Some v \<Longrightarrow> 1 \<le> v \<and> v \<le> 20"
proof -
  assume "literal_value text tag = Some v"
  then obtain t where "(t, v) \<in> set valid_tokens"
    by (auto simp: literal_value_def Let_def find_Some_iff split: option.splits dest!: map_of_SomeD nth_mem)
  then show ?thesis by (rule valid_tokens_range)
qed

section \<open>Facts about the expectation\<close>

definition scale_values :: "alternatives \<Rightarrow> real list" where
  \<comment> \<open>the scale values among the alternatives of one position\<close>
  "scale_values alts = List.map_filter (\<lambda>(t, lp). dget valid_tokens (strip t)) alts"

lemma scale_values_simps [simp]:
  "scale_values [] = []"
  "scale_values ((t, lp) # alts) =
     (case dget valid_tokens (strip t) of None \<Rightarrow> scale_values alts | Some v \<Rightarrow> v # scale_values alts)"
  by (simp_all add: scale_values_def List.map_filter_simps split: option.split)

lemma scale_values_range: "v \<in> set (scale_values alts) \<Longrightarrow> 1 \<le> v \<and> v \<le> 20"
  by (induction alts) (auto split: option.splits dest: dget_valid_tokens_range)

definition probs_ok :: "real set \<Rightarrow> (real, real) pydict \<Rightarrow> bool" where
  "probs_ok vs probs \<longleftrightarrow> list_all (\<lambda>vp. fst vp \<in> vs \<and> 0 < snd vp) probs"

lemma probs_ok_dset: "probs_ok vs probs \<Longrightarrow> v \<in> vs \<Longrightarrow> 0 < p \<Longrightarrow> probs_ok vs (dset v p probs)"
  unfolding probs_ok_def by (induction probs) auto

lemma collect_probs_ok:
  "probs_ok vs probs \<Longrightarrow> set (scale_values alts) \<subseteq> vs \<Longrightarrow> probs_ok vs (collect_probs alts probs)"
proof (induction alts probs rule: collect_probs.induct)
  case (2 tok_str logprob alts probs)
  show ?case
  proof (cases "dget valid_tokens (strip tok_str)")
    case None
    with 2 show ?thesis by simp
  next
    case (Some v)
    have "probs_ok vs (dset v (max (case dget probs v of None \<Rightarrow> 0 | Some p \<Rightarrow> p) (exp logprob)) probs)"
      using 2(3,4) Some by (intro probs_ok_dset) (auto simp: less_max_iff_disj)
    with 2 Some show ?thesis by (simp add: Let_def)
  qed
qed simp

lemma collect_probs_Nil_iff: "collect_probs alts probs = [] \<longleftrightarrow> probs = [] \<and> scale_values alts = []"
  by (induction alts probs rule: collect_probs.induct) (auto simp: Let_def split: option.splits)

lemma weighted_mean_bounds:
  fixes probs :: "(real, real) pydict"
  assumes "probs_ok {lo..hi} probs" and "probs \<noteq> []"
  shows "lo \<le> expected_value probs \<and> expected_value probs \<le> hi"
proof -
  let ?T = "\<Sum>vp \<leftarrow> probs. snd vp" and ?E = "\<Sum>vp \<leftarrow> probs. fst vp * snd vp"
  have pos: "0 < ?T"
    using assms
  proof (induction probs)
    case (Cons vp probs)
    then show ?case by (cases "probs = []") (auto simp: probs_ok_def)
  qed simp
  have "lo * ?T \<le> ?E \<and> ?E \<le> hi * ?T"
    using assms(1)
  proof (induction probs)
    case (Cons vp probs)
    then have "lo * snd vp \<le> fst vp * snd vp" "fst vp * snd vp \<le> hi * snd vp"
      by (auto simp: probs_ok_def intro: mult_right_mono)
    with Cons show ?case by (auto simp: probs_ok_def distrib_left intro: add_mono)
  qed simp
  with pos show ?thesis by (simp add: expected_value_def field_simps)
qed

lemma extract_score_at_tag:
  assumes "find_tag_logprobs tokens lps tag = Some alts" and "scale_values alts \<noteq> []"
    and "set (scale_values alts) \<subseteq> {lo..hi}"
  shows "(lo - 1) / 19 \<le> extract_score reply tokens lps tag \<and> extract_score reply tokens lps tag \<le> (hi - 1) / 19"
proof -
  have "probs_ok {lo..hi} (collect_probs alts [])"
    using assms(3) by (intro collect_probs_ok) (auto simp: probs_ok_def)
  moreover have ne: "collect_probs alts [] \<noteq> []" using assms(2) by (simp add: collect_probs_Nil_iff)
  ultimately have "lo \<le> expected_value (collect_probs alts [])" "expected_value (collect_probs alts []) \<le> hi"
    using weighted_mean_bounds by blast+
  with ne show ?thesis
    by (simp add: extract_score_def assms(1) normalise_eq)
qed

lemma extract_score_unit:
  "0 \<le> extract_score reply tokens lps tag \<and> extract_score reply tokens lps tag \<le> 1"
proof (cases "\<exists>alts. find_tag_logprobs tokens lps tag = Some alts \<and> scale_values alts \<noteq> []")
  case True
  then obtain alts where "find_tag_logprobs tokens lps tag = Some alts" "scale_values alts \<noteq> []" by blast
  moreover have "set (scale_values alts) \<subseteq> {1..20}" using scale_values_range by auto
  ultimately show ?thesis using extract_score_at_tag [of tokens lps tag alts 1 20 reply] by simp
next
  case False
  then have "(case find_tag_logprobs tokens lps tag of None \<Rightarrow> [] | Some alts \<Rightarrow> collect_probs alts []) = []"
    by (auto simp: collect_probs_Nil_iff split: option.splits)
  then show ?thesis
    using literal_value_range [of reply tag]
    by (auto simp: extract_score_def normalise_eq split: option.splits)
qed

section \<open>Facts about the literal tag\<close>

lemma prefix_ci_append [simp]: "prefix_ci p (p @ s)"
  by (simp add: prefix_ci_def)

lemma lstrip_blank: "list_all py_space b \<Longrightarrow> s = [] \<or> \<not> py_space (hd s) \<Longrightarrow> lstrip (b @ s) = s"
  by (induction b) (cases s, auto simp: lstrip_def)

lemma takeWhile_blank: "list_all py_space b \<Longrightarrow> \<not> py_space c \<Longrightarrow> takeWhile py_space (b @ c # s) = b"
  by (induction b) auto

lemma blanks_first: "lazy_group close [] (drop m s) = Some g \<Longrightarrow> blanks_then_group close m s = Some g"
  by (cases m) auto

lemma lower_char_lt: "lower_char c = CHR ''<'' \<Longrightarrow> c = CHR ''<''"
proof -
  assume a: "lower_char c = CHR ''<''"
  have "(of_char (lower_char c) :: nat) = 60" by (simp add: a)
  then have "(of_char c :: nat) = of_char (CHR ''<'')"
    by (auto simp: lower_char_def Let_def split: if_splits)
  then show ?thesis by (simp only: of_char_eq_iff)
qed

lemma prefix_ci_first: "prefix_ci (CHR ''<'' # p) (c # s) \<Longrightarrow> c = CHR ''<''"
  by (rule lower_char_lt) (auto simp: prefix_ci_def lower_def lower_char_def)

lemma tag_search_skip:
  "CHR ''<'' \<notin> set pre \<Longrightarrow> tag_search (CHR ''<'' # p) close (pre @ s) = tag_search (CHR ''<'' # p) close s"
proof (induction pre)
  case (Cons c pre)
  then have "\<not> prefix_ci (CHR ''<'' # p) (c # pre @ s)" by (auto dest: prefix_ci_first)
  with Cons show ?case by simp
qed simp

lemma tag_search_letter:
  fixes q :: string
  assumes "list_all py_space b1" "list_all py_space b2" "\<not> py_space l" "l \<noteq> CHR 0x0A"
  defines "close \<equiv> CHR ''<'' # q"
  shows "tag_search (CHR ''<'' # p) close ((CHR ''<'' # p) @ b1 @ [l] @ b2 @ close @ post) = Some [l]"
proof -
  let ?rest = "b1 @ [l] @ b2 @ close @ post"
  have "\<not> py_space (CHR ''<'')" by (simp add: py_space_def)
  then have l2: "lstrip (b2 @ close @ post) = close @ post"
    using assms(2) by (intro lstrip_blank) (auto simp: close_def)
  have "lazy_group close [] (drop (length b1) ?rest) = Some [l]"
    using assms(4) by (simp add: l2)
  then have "blanks_then_group close (length b1) ?rest = Some [l]" by (rule blanks_first)
  moreover have "takeWhile py_space ?rest = b1"
    using assms(1,3) by (simp add: takeWhile_blank)
  moreover have "prefix_ci (CHR ''<'' # p) ((CHR ''<'' # p) @ ?rest)" by (rule prefix_ci_append)
  ultimately show ?thesis by simp
qed

lemma strip_angles_score [simp]: "strip_angles ''<score_A>'' = ''score_A''" "strip_angles ''<score_B>'' = ''score_B''"
  by (simp_all add: strip_angles_def)

lemma find_tag_logprobs_Nil [simp]: "find_tag_logprobs [] lps tag = None" "find_tag_logprobs tokens [] tag = None"
  by (simp_all add: find_tag_logprobs_def)

section \<open>Properties\<close>

text \<open>
  whatever the verifier answers, the reward of a trajectory lies in the unit interval, as the
  tournament's Bradley-Terry step expects.
\<close>

theorem extract_score_in_unit_interval:
  "0 \<le> extract_score reply tokens lps tag \<and> extract_score reply tokens lps tag \<le> 1"
  by (rule extract_score_unit)

text \<open>
  when the position after the tag offers at least one scale letter, the reward is an average of
  the letters offered there: it lies between the least and the greatest of their values (so a
  position that offers one letter only gives exactly that letter's value), whatever the other
  alternatives, the log probabilities and the text are.
\<close>

theorem extract_score_is_average:
  assumes "find_tag_logprobs tokens lps tag = Some alts" and "scale_values alts \<noteq> []"
  shows "normalise (Min (set (scale_values alts))) \<le> extract_score reply tokens lps tag \<and>
    extract_score reply tokens lps tag \<le> normalise (Max (set (scale_values alts)))"
proof -
  have "set (scale_values alts) \<subseteq> {Min (set (scale_values alts))..Max (set (scale_values alts))}"
    by auto
  from extract_score_at_tag [OF assms this] show ?thesis by (simp add: normalise_eq)
qed

theorem extract_score_is_average_witness:
  "extract_score [] [''<score_A>'', ''A''] [[], [('' A'', 0), (''x'', 0), (''a'', -1)]] ''<score_A>'' = 1"
proof -
  have f: "find_tag_logprobs [''<score_A>'', ''A''] [[], [('' A'', 0), (''x'', 0), (''a'', -1)]] ''<score_A>'' =
      Some [('' A'', 0), (''x'', 0), (''a'', -1)]"
    by (simp add: find_tag_logprobs_def ends_with_def rstrip_def py_space_def Let_def)
  have v: "scale_values [('' A'', 0), (''x'', 0), (''a'', -1)] = [20, 20]"
    by (simp add: valid_tokens_def granularity_def strip_def lstrip_def rstrip_def py_space_def Let_def upt_rec char_of_def bit_0)
  show ?thesis using extract_score_is_average [OF f, where reply = "[]"] v by (simp add: normalise_eq)
qed

text \<open>
  without usable logprobs the reward is read from the text: the first \<open><score_A>\<close> element that
  holds one scale letter, blanks around it allowed, gives that letter's value on the scale.
\<close>

theorem extract_score_reads_literal_tag:
  assumes "CHR ''<'' \<notin> set pre" and "list_all py_space b1" and "list_all py_space b2"
    and "dget valid_tokens [l] = Some v" and "\<not> py_space l"
  shows "extract_score (pre @ ''<score_A>'' @ b1 @ [l] @ b2 @ ''</score_A>'' @ post) [] lps ''<score_A>'' = (v - 1) / 19"
proof -
  have nl: "l \<noteq> CHR 0x0A" using assms(5) by (auto simp: py_space_def)
  have "tag_search ''<score_A>'' ''</score_A>'' (pre @ ''<score_A>'' @ b1 @ [l] @ b2 @ ''</score_A>'' @ post) = Some [l]"
    by (subst tag_search_skip [OF assms(1)]) (rule tag_search_letter [OF assms(2,3,5) nl])
  moreover have "strip [l] = [l]" using assms(5) by (simp add: strip_def lstrip_def rstrip_def)
  ultimately show ?thesis
    using assms(4) by (simp add: extract_score_def literal_value_def normalise_eq)
qed

theorem extract_score_reads_literal_tag_witness:
  "extract_score (''ok '' @ ''<score_A>'' @ '' '' @ ''T'' @ [] @ ''</score_A>'' @ '' end'') [] [] ''<score_A>'' = 0"
proof -
  have "dget valid_tokens ''T'' = Some 1"
    by (simp add: valid_tokens_def granularity_def upt_rec char_of_def bit_0)
  then show ?thesis
    using extract_score_reads_literal_tag [of "''ok ''" "'' ''" "[]" "CHR ''T''" 1 "'' end''" "[]"]
    by (simp add: py_space_def)
qed

end
