(* ===== verification/Score_Cache.thy ===== *)
theory Score_Cache
  imports Fine_Grained_Reward
begin

text \<open>
  Directed cache keys, the averaged reward of a directed comparison, and the cached batch scorer of
  \<^verbatim>\<open>llm_verifier/fine_grained_reward.py\<close>. The cache file is an optional dictionary (\<open>None\<close>: no such
  file); a verifier call is an arbitrary function from a job to two rewards or an exception; the
  order in which \<open>as_completed\<close> yields the futures is an arbitrary rearrangement of the jobs.
\<close>

section \<open>Definitions\<close>

record criterion =
  crit_id :: string
  crit_name :: string
  crit_desc :: string

record 'i trial =
  tr_problem :: string
  tr_trace :: string
  tr_images :: 'i

record score_entry =
  score_A :: "real option"
  score_B :: "real option"

record 'i job =
  j_key :: string
  j_problem :: string
  j_trace_a :: string
  j_trace_b :: string
  j_crit :: criterion
  j_images :: 'i

type_synonym scores = "(string, score_entry) pydict"

definition cache_key :: "string \<Rightarrow> string \<Rightarrow> nat \<Rightarrow> nat \<Rightarrow> nat \<Rightarrow> string" where
  "cache_key cid task a b rep =
     cid @ ''|'' @ task @ ''|'' @ show_nat a @ '','' @ show_nat b @ ''|'' @ show_nat rep"

definition entry_or_half :: "real option \<Rightarrow> real" where
  \<comment> \<open>\<open>entry.get("score_A", 0.5)\<close>\<close>
  "entry_or_half v = (case v of None \<Rightarrow> 1 / 2 | Some r \<Rightarrow> r)"

definition lookup_entry :: "scores \<Rightarrow> string \<Rightarrow> score_entry" where
  \<comment> \<open>\<open>scores.get(key, {})\<close>\<close>
  "lookup_entry sc k = (case dget sc k of None \<Rightarrow> \<lparr>score_A = None, score_B = None\<rparr> | Some e \<Rightarrow> e)"

definition reward_keys :: "string \<Rightarrow> nat \<Rightarrow> nat \<Rightarrow> string list \<Rightarrow> int \<Rightarrow> string list" where
  "reward_keys task a b cids n_reps = [cache_key cid task a b rep. cid \<leftarrow> cids, rep \<leftarrow> [0..<nat n_reps]]"

definition directed_reward :: "scores \<Rightarrow> string \<Rightarrow> nat \<Rightarrow> nat \<Rightarrow> string list \<Rightarrow> int \<Rightarrow> real \<times> real" where
  "directed_reward sc task a b cids n_reps =
     (if a = b then (1 / 2, 1 / 2)
      else let keys = reward_keys task a b cids n_reps;
               sa = (\<Sum>k \<leftarrow> keys. entry_or_half (score_A (lookup_entry sc k)));
               sb = (\<Sum>k \<leftarrow> keys. entry_or_half (score_B (lookup_entry sc k)));
               cnt = length keys
           in if cnt \<noteq> 0 then (sa / real cnt, sb / real cnt) else (1 / 2, 1 / 2))"

definition score_pair_criterion :: "('i job \<Rightarrow> (string \<times> string list \<times> alternatives list) res) \<Rightarrow> 'i job \<Rightarrow> (real \<times> real) res" where
  \<comment> \<open>the prompt is built from the job; \<open>ask\<close> is the verifier's response to it\<close>
  "score_pair_criterion ask j =
     bindR (ask j) (\<lambda>(text, tokens, lps).
       Inr (extract_score text tokens lps ''<score_A>'', extract_score text tokens lps ''<score_B>''))"

fun jobs_of_requests :: "scores \<Rightarrow> 'i trial list \<Rightarrow> string \<Rightarrow> (nat \<times> nat \<times> criterion \<times> nat) list \<Rightarrow> 'i job list res" where
  "jobs_of_requests cached trials task [] = Inr []"
| "jobs_of_requests cached trials task ((a, b, crit, rep) # rs) =
     (let key = cache_key (crit_id crit) task a b rep
      in if dget cached key = None then
           bindR (py_index trials a) (\<lambda>ta. bindR (py_index trials b) (\<lambda>tb.
             bindR (jobs_of_requests cached trials task rs) (\<lambda>js.
               Inr (\<lparr>j_key = key, j_problem = tr_problem ta, j_trace_a = tr_trace ta, j_trace_b = tr_trace tb,
                     j_crit = crit, j_images = tr_images ta\<rparr> # js))))
         else jobs_of_requests cached trials task rs)"

definition pair_requests :: "(nat \<times> nat) list \<Rightarrow> criterion list \<Rightarrow> int \<Rightarrow> (nat \<times> nat \<times> criterion \<times> nat) list" where
  "pair_requests pairs crits n_reps = [(a, b, crit, rep). (a, b) \<leftarrow> pairs, crit \<leftarrow> crits, rep \<leftarrow> [0..<nat n_reps]]"

fun jobs_of_tasks :: "scores \<Rightarrow> (string, 'i trial list) pydict \<Rightarrow> (string \<times> (nat \<times> nat) list) list \<Rightarrow>
    criterion list \<Rightarrow> int \<Rightarrow> 'i job list res" where
  "jobs_of_tasks cached tasks [] crits n_reps = Inr []"
| "jobs_of_tasks cached tasks ((task, pairs) # rest) crits n_reps =
     (case dget tasks task of
        None \<Rightarrow> Inl (KeyError task)
      | Some trials \<Rightarrow>
          bindR (jobs_of_requests cached trials task (pair_requests pairs crits n_reps)) (\<lambda>js.
            bindR (jobs_of_tasks cached tasks rest crits n_reps) (\<lambda>js'. Inr (js @ js'))))"

record batch =
  b_cached :: scores
  b_results :: scores
  b_disk :: "scores option"
  b_errors :: nat
  b_done :: nat

definition entry_of :: "real \<times> real \<Rightarrow> score_entry" where
  "entry_of r = \<lparr>score_A = Some (fst r), score_B = Some (snd r)\<rparr>"

definition tie_entry :: score_entry where
  "tie_entry = \<lparr>score_A = Some (1 / 2), score_B = Some (1 / 2)\<rparr>"

definition record_failure :: "'i job \<Rightarrow> batch \<Rightarrow> batch" where
  "record_failure j bt = bt\<lparr>b_errors := b_errors bt + 1,
     b_results := dset (j_key j) tie_entry (b_results bt), b_done := b_done bt + 1\<rparr>"

definition record_success :: "'i job \<Rightarrow> real \<times> real \<Rightarrow> batch \<Rightarrow> batch" where
  "record_success j r bt = bt\<lparr>b_cached := dset (j_key j) (entry_of r) (b_cached bt),
     b_results := dset (j_key j) (entry_of r) (b_results bt), b_done := b_done bt + 1\<rparr>"

definition save_if_due :: "bool \<Rightarrow> nat \<Rightarrow> batch \<Rightarrow> batch" where
  "save_if_due filed every bt =
     (if filed \<and> b_done bt mod every = 0 then bt\<lparr>b_disk := Some (b_cached bt)\<rparr> else bt)"

fun drain :: "bool \<Rightarrow> bool \<Rightarrow> nat \<Rightarrow> ('i job \<Rightarrow> (real \<times> real) res) \<Rightarrow> 'i job list \<Rightarrow> batch \<Rightarrow> unit res \<times> batch" where
  \<comment> \<open>the loop over the completed futures: \<open>raising\<close> is \<open>on_error == "raise"\<close>, \<open>filed\<close> is \<open>cache_file\<close> given\<close>
  "drain raising filed every call [] bt = (Inr (), bt)"
| "drain raising filed every call (j # js) bt =
     (case call j of
        Inl e \<Rightarrow> if raising then (Inl e, bt)
                 else drain raising filed every call js (save_if_due filed every (record_failure j bt))
      | Inr r \<Rightarrow> drain raising filed every call js (save_if_due filed every (record_success j r bt)))"

definition start_cache :: "bool \<Rightarrow> scores option \<Rightarrow> scores" where
  \<comment> \<open>what the scorer loads before it looks for missing comparisons\<close>
  "start_cache filed disk = (if filed then (case disk of Some d \<Rightarrow> d | None \<Rightarrow> []) else [])"

definition run_jobs :: "bool \<Rightarrow> bool \<Rightarrow> ('i job \<Rightarrow> (real \<times> real) res) \<Rightarrow> 'i job list \<Rightarrow> scores \<Rightarrow> scores option \<Rightarrow>
    scores res \<times> scores option" where
  \<comment> \<open>the futures in completion order, then the last write of the cache file\<close>
  "run_jobs raising filed call js cached disk =
     (let bt0 = \<lparr>b_cached = cached, b_results = cached, b_disk = disk, b_errors = 0, b_done = 0\<rparr>;
          every = max 1 (length js div 20);
          (r, bt) = drain raising filed every call js bt0
      in case r of
           Inl e \<Rightarrow> (Inl e, b_disk bt)
         | Inr _ \<Rightarrow> (Inr (b_results bt), if filed then Some (b_cached bt) else b_disk bt))"

definition score_directed_pairs ::
  "string \<Rightarrow> bool \<Rightarrow> unit res \<Rightarrow> ('i job \<Rightarrow> (real \<times> real) res) \<Rightarrow> ('i job list \<Rightarrow> 'i job list) \<Rightarrow>
   (string, 'i trial list) pydict \<Rightarrow> (string \<times> (nat \<times> nat) list) list \<Rightarrow> criterion list \<Rightarrow> int \<Rightarrow>
   scores option \<Rightarrow> scores res \<times> scores option" where
  "score_directed_pairs on_error filed client call completion tasks needed crits n_reps disk =
     (if on_error \<notin> {''tie'', ''raise''} then (Inl (ValueError on_error), disk)
      else
        let cached = start_cache filed disk
        in case jobs_of_tasks cached tasks needed crits n_reps of
             Inl e \<Rightarrow> (Inl e, disk)
           | Inr jobs \<Rightarrow>
               if jobs = [] then (Inr cached, disk)
               else (case client of
                       Inl e \<Rightarrow> (Inl e, disk)
                     | Inr _ \<Rightarrow> run_jobs (on_error = ''raise'') filed call (completion jobs) cached disk))"

section \<open>Cache keys\<close>

lemma split_last_sep:
  "xs @ c # ds = ys @ c # es \<Longrightarrow> c \<notin> set ds \<Longrightarrow> c \<notin> set es \<Longrightarrow> xs = ys \<and> ds = es"
proof (induction xs arbitrary: ys)
  case Nil
  then show ?case by (cases ys) auto
next
  case (Cons x xs)
  then show ?case by (cases ys) auto
qed

lemma show_nat_no_sep: "CHR ''|'' \<notin> set (show_nat n)" "CHR '','' \<notin> set (show_nat n)"
  using show_nat_digits [of n] by (auto simp: is_digit_def)

lemma cache_key_inj:
  assumes "cache_key cid task a b rep = cache_key cid' task a' b' rep'"
  shows "cid = cid' \<and> a = a' \<and> b = b' \<and> rep = rep'"
proof -
  let ?l = "cid @ ''|'' @ task @ ''|'' @ show_nat a @ '','' @ show_nat b"
  let ?l' = "cid' @ ''|'' @ task @ ''|'' @ show_nat a' @ '','' @ show_nat b'"
  have "?l @ CHR ''|'' # show_nat rep = ?l' @ CHR ''|'' # show_nat rep'"
    using assms by (simp add: cache_key_def)
  from split_last_sep [OF this show_nat_no_sep(1) show_nat_no_sep(1)]
  have l: "?l = ?l'" and "rep = rep'" by simp_all
  let ?m = "cid @ ''|'' @ task @ ''|'' @ show_nat a" and ?m' = "cid' @ ''|'' @ task @ ''|'' @ show_nat a'"
  from l have "?m @ CHR '','' # show_nat b = ?m' @ CHR '','' # show_nat b'" by simp
  from split_last_sep [OF this show_nat_no_sep(2) show_nat_no_sep(2)]
  have m: "?m = ?m'" and "b = b'" by simp_all
  from m have "(cid @ ''|'' @ task) @ CHR ''|'' # show_nat a = (cid' @ ''|'' @ task) @ CHR ''|'' # show_nat a'" by simp
  from split_last_sep [OF this show_nat_no_sep(1) show_nat_no_sep(1)]
  have "cid = cid'" and "a = a'" by simp_all
  with \<open>b = b'\<close> \<open>rep = rep'\<close> show ?thesis by simp
qed

section \<open>The jobs\<close>

definition request_key :: "string \<Rightarrow> nat \<times> nat \<times> criterion \<times> nat \<Rightarrow> string" where
  "request_key task = (\<lambda>(a, b, crit, rep). cache_key (crit_id crit) task a b rep)"

definition needed_keys :: "(string \<times> (nat \<times> nat) list) list \<Rightarrow> criterion list \<Rightarrow> int \<Rightarrow> string list" where
  \<comment> \<open>the keys of every (criterion, repetition) of every requested comparison\<close>
  "needed_keys needed crits n_reps =
     concat (map (\<lambda>(task, pairs). map (request_key task) (pair_requests pairs crits n_reps)) needed)"

definition trials_cover :: "(string, 'i trial list) pydict \<Rightarrow> (string \<times> (nat \<times> nat) list) list \<Rightarrow> bool" where
  \<comment> \<open>every requested comparison names trials of a known task\<close>
  "trials_cover tasks needed \<longleftrightarrow> list_all (\<lambda>(task, pairs). case dget tasks task of
       None \<Rightarrow> False | Some trials \<Rightarrow> list_all (\<lambda>(a, b). a < length trials \<and> b < length trials) pairs) needed"

definition mk_job :: "'i trial list \<Rightarrow> string \<Rightarrow> nat \<times> nat \<times> criterion \<times> nat \<Rightarrow> 'i job" where
  "mk_job trials task = (\<lambda>(a, b, crit, rep).
     \<lparr>j_key = cache_key (crit_id crit) task a b rep, j_problem = tr_problem (trials ! a),
      j_trace_a = tr_trace (trials ! a), j_trace_b = tr_trace (trials ! b), j_crit = crit,
      j_images = tr_images (trials ! a)\<rparr>)"

lemma j_key_mk_job [simp]: "j_key (mk_job trials task r) = request_key task r"
  by (simp add: mk_job_def request_key_def split: prod.split)

lemma jobs_of_requests_eq:
  "list_all (\<lambda>(a, b, _). a < length trials \<and> b < length trials) rs \<Longrightarrow>
   jobs_of_requests cached trials task rs =
     Inr (map (mk_job trials task) (filter (\<lambda>r. dget cached (request_key task r) = None) rs))"
  by (induction rs) (auto simp: Let_def request_key_def mk_job_def)

lemma jobs_of_requests_ok:
  assumes "list_all (\<lambda>(a, b, _). a < length trials \<and> b < length trials) rs"
  shows "\<exists>js. jobs_of_requests cached trials task rs = Inr js \<and>
    map j_key js = filter (\<lambda>k. dget cached k = None) (map (request_key task) rs)"
  by (simp add: jobs_of_requests_eq [OF assms] filter_map comp_def)

lemma pair_requests_within:
  "list_all (\<lambda>(a, b). a < m \<and> b < m) pairs \<Longrightarrow> list_all (\<lambda>(a, b, _). a < m \<and> b < m) (pair_requests pairs crits n_reps)"
  by (fastforce simp: pair_requests_def list_all_iff)

lemma jobs_of_tasks_ok:
  assumes "trials_cover tasks needed"
  shows "\<exists>js. jobs_of_tasks cached tasks needed crits n_reps = Inr js \<and>
    map j_key js = filter (\<lambda>k. dget cached k = None) (needed_keys needed crits n_reps)"
  using assms
proof (induction needed)
  case (Cons tp needed)
  obtain task pairs where tp: "tp = (task, pairs)" by (cases tp)
  from Cons.prems tp obtain trials where t: "dget tasks task = Some trials"
    "list_all (\<lambda>(a, b). a < length trials \<and> b < length trials) pairs"
    by (auto simp: trials_cover_def split: option.splits)
  from jobs_of_requests_ok [OF pair_requests_within [OF t(2)]] obtain js where
    js: "jobs_of_requests cached trials task (pair_requests pairs crits n_reps) = Inr js"
    "map j_key js = filter (\<lambda>k. dget cached k = None) (map (request_key task) (pair_requests pairs crits n_reps))"
    by blast
  from Cons obtain js' where js': "jobs_of_tasks cached tasks needed crits n_reps = Inr js'"
    "map j_key js' = filter (\<lambda>k. dget cached k = None) (needed_keys needed crits n_reps)"
    by (auto simp: trials_cover_def)
  show ?case
    using tp t js js' by (simp add: needed_keys_def)
qed (simp add: needed_keys_def)

section \<open>The completed futures\<close>

definition outcome :: "('i job \<Rightarrow> (real \<times> real) res) \<Rightarrow> 'i job \<Rightarrow> score_entry" where
  "outcome call j = (case call j of Inl _ \<Rightarrow> tie_entry | Inr r \<Rightarrow> entry_of r)"

definition record_outcomes :: "('i job \<Rightarrow> (real \<times> real) res) \<Rightarrow> 'i job list \<Rightarrow> scores \<Rightarrow> scores" where
  "record_outcomes call js sc = foldl (\<lambda>d j. dset (j_key j) (outcome call j) d) sc js"

definition succeeded :: "('i job \<Rightarrow> (real \<times> real) res) \<Rightarrow> 'i job \<Rightarrow> bool" where
  "succeeded call j \<longleftrightarrow> (\<exists>r. call j = Inr r)"

lemma batch_fields [simp]:
  "b_cached (save_if_due filed every bt) = b_cached bt"
  "b_results (save_if_due filed every bt) = b_results bt"
  "b_disk (save_if_due False every bt) = b_disk bt"
  "b_cached (record_failure j bt) = b_cached bt"
  "b_results (record_failure j bt) = dset (j_key j) tie_entry (b_results bt)"
  "b_disk (record_failure j bt) = b_disk bt"
  "b_cached (record_success j r bt) = dset (j_key j) (entry_of r) (b_cached bt)"
  "b_results (record_success j r bt) = dset (j_key j) (entry_of r) (b_results bt)"
  "b_disk (record_success j r bt) = b_disk bt"
  by (simp_all add: save_if_due_def record_failure_def record_success_def)

lemma drain_tie:
  "fst (drain False filed every call js bt) = Inr () \<and>
   b_results (snd (drain False filed every call js bt)) = record_outcomes call js (b_results bt) \<and>
   b_cached (snd (drain False filed every call js bt)) = record_outcomes call (filter (succeeded call) js) (b_cached bt)"
  by (induction js arbitrary: bt)
    (auto simp: record_outcomes_def outcome_def succeeded_def split: sum.split)

lemma drain_unfiled: "b_disk (snd (drain raising False every call js bt)) = b_disk bt"
  by (induction js arbitrary: bt) (auto split: sum.split)

lemma record_outcomes_dget:
  "dget (record_outcomes call js sc) k = Some e \<Longrightarrow>
     (k \<notin> j_key ` set js \<and> dget sc k = Some e) \<or> (\<exists>j \<in> set js. j_key j = k \<and> e = outcome call j)"
  unfolding record_outcomes_def by (induction js arbitrary: sc) (fastforce split: if_splits)+

lemma record_outcomes_other: "k \<notin> j_key ` set js \<Longrightarrow> dget (record_outcomes call js sc) k = dget sc k"
  unfolding record_outcomes_def by (induction js arbitrary: sc) auto

lemma record_outcomes_some: "k \<in> j_key ` set js \<or> dget sc k \<noteq> None \<Longrightarrow> dget (record_outcomes call js sc) k \<noteq> None"
  unfolding record_outcomes_def by (induction js arbitrary: sc) auto

definition honest :: "('i job \<Rightarrow> (real \<times> real) res) \<Rightarrow> scores \<Rightarrow> scores \<Rightarrow> bool" where
  \<comment> \<open>every entry of \<open>d\<close> is in \<open>base\<close> or the two rewards of a call that succeeded\<close>
  "honest call base d \<longleftrightarrow> (\<forall>k e. dget d k = Some e \<longrightarrow>
     dget base k = Some e \<or> (\<exists>j r. j_key j = k \<and> call j = Inr r \<and> e = entry_of r))"

lemma honest_refl [simp]: "honest call base base"
  by (simp add: honest_def)

lemma honest_dset: "honest call base d \<Longrightarrow> call j = Inr r \<Longrightarrow> honest call base (dset (j_key j) (entry_of r) d)"
  unfolding honest_def by (metis dget_dset option.inject)

definition batch_honest :: "('i job \<Rightarrow> (real \<times> real) res) \<Rightarrow> scores \<Rightarrow> batch \<Rightarrow> bool" where
  "batch_honest call base bt \<longleftrightarrow>
     honest call base (b_cached bt) \<and> (case b_disk bt of None \<Rightarrow> True | Some d \<Rightarrow> honest call base d)"

lemma batch_honest_save: "batch_honest call base bt \<Longrightarrow> batch_honest call base (save_if_due filed every bt)"
  by (simp add: batch_honest_def save_if_due_def)

lemma batch_honest_failure: "batch_honest call base bt \<Longrightarrow> batch_honest call base (record_failure j bt)"
  by (simp add: batch_honest_def)

lemma batch_honest_success:
  "batch_honest call base bt \<Longrightarrow> call j = Inr r \<Longrightarrow> batch_honest call base (record_success j r bt)"
  by (simp add: batch_honest_def honest_dset)

lemma drain_honest: "batch_honest call base bt \<Longrightarrow> batch_honest call base (snd (drain raising filed every call js bt))"
proof (induction js arbitrary: bt)
  case (Cons j js)
  show ?case
  proof (cases "call j")
    case (Inl e)
    from Cons.IH [OF batch_honest_save [OF batch_honest_failure [OF Cons.prems]]] Cons.prems Inl
    show ?thesis by (cases raising) simp_all
  next
    case (Inr r)
    from Cons.IH [OF batch_honest_save [OF batch_honest_success [OF Cons.prems Inr]]] Inr
    show ?thesis by simp
  qed
qed simp

section \<open>The batch scorer\<close>

lemma run_jobs_unfiled: "snd (run_jobs raising False call js cached disk) = disk"
  using drain_unfiled [of raising _ call js "\<lparr>b_cached = cached, b_results = cached, b_disk = disk, b_errors = 0, b_done = 0\<rparr>"]
  by (simp add: run_jobs_def Let_def split: prod.split sum.split) (metis snd_conv)

lemma run_jobs_honest:
  assumes "snd (run_jobs raising True call js (start_cache True disk) disk) = Some d"
  shows "honest call (start_cache True disk) d"
proof -
  let ?bt0 = "\<lparr>b_cached = start_cache True disk, b_results = start_cache True disk, b_disk = disk, b_errors = 0, b_done = 0\<rparr>"
  obtain r bt where D: "drain raising True (max 1 (length js div 20)) call js ?bt0 = (r, bt)" by fastforce
  have "batch_honest call (start_cache True disk) ?bt0"
    by (simp add: batch_honest_def start_cache_def split: option.split)
  then have "batch_honest call (start_cache True disk) bt"
    using drain_honest [of call "start_cache True disk" ?bt0 raising True "max 1 (length js div 20)" js] D by simp
  with assms D show ?thesis
    by (cases r) (auto simp: run_jobs_def Let_def batch_honest_def)
qed

lemma score_directed_pairs_cases:
  obtains (no_run) "snd (score_directed_pairs on_error filed client call completion tasks needed crits n_reps disk) = disk"
  | (run) js raising where
    "score_directed_pairs on_error filed client call completion tasks needed crits n_reps disk =
       run_jobs raising filed call js (start_cache filed disk) disk"
proof (cases "jobs_of_tasks (start_cache filed disk) tasks needed crits n_reps")
  case (Inl e)
  then show ?thesis using no_run by (simp add: score_directed_pairs_def Let_def split: if_splits)
next
  case (Inr jobs)
  show ?thesis
  proof (cases "on_error \<notin> {''tie'', ''raise''} \<or> jobs = [] \<or> (\<exists>e. client = Inl e)")
    case True
    then show ?thesis using no_run Inr by (auto simp: score_directed_pairs_def Let_def split: if_splits)
  next
    case False
    then obtain u where "client = Inr u" by (cases client) auto
    with False Inr show ?thesis using run by (simp add: score_directed_pairs_def Let_def split: if_splits)
  qed
qed

lemma score_directed_pairs_honest:
  assumes "snd (score_directed_pairs on_error filed client call completion tasks needed crits n_reps disk) = Some d"
  shows "disk = Some d \<or> honest call (case disk of Some d0 \<Rightarrow> d0 | None \<Rightarrow> []) d"
proof (cases rule: score_directed_pairs_cases [of on_error filed client call completion tasks needed crits n_reps disk])
  case no_run
  with assms show ?thesis by simp
next
  case (run js raising)
  show ?thesis
  proof (cases filed)
    case True
    with assms run show ?thesis
      using run_jobs_honest [of raising call js disk d] by (simp add: start_cache_def)
  next
    case False
    with assms run show ?thesis by (simp add: run_jobs_unfiled)
  qed
qed

lemma run_jobs_tie:
  "fst (run_jobs False filed call js cached disk) = Inr (record_outcomes call js cached)"
  "filed \<Longrightarrow> snd (run_jobs False filed call js cached disk) =
     Some (record_outcomes call (filter (succeeded call) js) cached)"
  using drain_tie [of filed "max 1 (length js div 20)" call js
      "\<lparr>b_cached = cached, b_results = cached, b_disk = disk, b_errors = 0, b_done = 0\<rparr>"]
  by (auto simp: run_jobs_def Let_def split: prod.split sum.split)

lemma score_directed_pairs_tie:
  assumes "trials_cover tasks needed" and perm: "\<And>js. mset (completion js) = mset js"
  obtains js where
    "map j_key js = filter (\<lambda>k. dget (start_cache filed disk) k = None) (needed_keys needed crits n_reps)"
    and "fst (score_directed_pairs ''tie'' filed (Inr ()) call completion tasks needed crits n_reps disk) =
      Inr (record_outcomes call (completion js) (start_cache filed disk))"
    and "filed \<Longrightarrow> snd (score_directed_pairs ''tie'' filed (Inr ()) call completion tasks needed crits n_reps disk) =
      (if js = [] then disk
       else Some (record_outcomes call (filter (succeeded call) (completion js)) (start_cache filed disk)))"
    and "set (completion js) = set js"
proof -
  obtain js where js: "jobs_of_tasks (start_cache filed disk) tasks needed crits n_reps = Inr js"
    "map j_key js = filter (\<lambda>k. dget (start_cache filed disk) k = None) (needed_keys needed crits n_reps)"
    using jobs_of_tasks_ok [OF assms(1)] by blast
  have Nil: "completion [] = []" using perm [of "[]"] by simp
  show ?thesis
  proof (rule that [OF js(2)])
    show "fst (score_directed_pairs ''tie'' filed (Inr ()) call completion tasks needed crits n_reps disk) =
      Inr (record_outcomes call (completion js) (start_cache filed disk))"
      by (simp add: score_directed_pairs_def js(1) Let_def run_jobs_tie Nil record_outcomes_def)
    show "set (completion js) = set js" using perm by (metis set_mset_mset)
    assume filed
    with js(1) show "snd (score_directed_pairs ''tie'' filed (Inr ()) call completion tasks needed crits n_reps disk) =
      (if js = [] then disk
       else Some (record_outcomes call (filter (succeeded call) (completion js)) (start_cache filed disk)))"
      by (simp add: score_directed_pairs_def Let_def run_jobs_tie)
  qed
qed

text \<open>A concrete batch for the witnesses: two trajectories, one criterion, the comparison (0, 1).\<close>

definition ex_tasks :: "(string, unit trial list) pydict" where
  "ex_tasks = [(''task'', [\<lparr>tr_problem = ''p'', tr_trace = ''x'', tr_images = ()\<rparr>,
                          \<lparr>tr_problem = ''p'', tr_trace = ''y'', tr_images = ()\<rparr>])]"

definition ex_crits :: "criterion list" where
  "ex_crits = [\<lparr>crit_id = ''c'', crit_name = ''c'', crit_desc = ''d''\<rparr>]"

definition ex_needed :: "(string \<times> (nat \<times> nat) list) list" where
  "ex_needed = [(''task'', [(0, 1)])]"

lemma ex_keys: "needed_keys ex_needed ex_crits 1 = [''c|task|0,1|0'']"
  by (simp add: ex_needed_def needed_keys_def pair_requests_def request_key_def ex_crits_def cache_key_def show_nat.simps char_of_def bit_0)

lemma ex_cover: "trials_cover ex_tasks ex_needed"
  by (simp add: trials_cover_def ex_tasks_def ex_needed_def)

lemma ex_run:
  "score_directed_pairs ''tie'' True (Inr ()) (\<lambda>j. Inr (1, 0)) (\<lambda>js. js) ex_tasks ex_needed ex_crits 1 None =
    (Inr [(''c|task|0,1|0'', entry_of (1, 0))], Some [(''c|task|0,1|0'', entry_of (1, 0))])"
  by (simp add: score_directed_pairs_def ex_needed_def ex_tasks_def ex_crits_def start_cache_def pair_requests_def py_index_def
      cache_key_def show_nat.simps char_of_def bit_0 run_jobs_def save_if_due_def record_success_def Let_def)

section \<open>Properties\<close>

text \<open>
  C28: a failed verifier call never reaches the cache file, whatever the failure mode, the order of
  completion and the moment the run stops: every entry on disk afterwards was there before, or
  holds the two rewards of a call that succeeded for that key.
\<close>

theorem cache_file_never_holds_a_failure:
  assumes "snd (score_directed_pairs on_error filed client call completion tasks needed crits n_reps disk) = Some d"
    and "dget d k = Some e"
  shows "(\<exists>d0. disk = Some d0 \<and> dget d0 k = Some e) \<or>
    (\<exists>j rewards. j_key j = k \<and> call j = Inr rewards \<and> e = entry_of rewards)"
  using score_directed_pairs_honest [OF assms(1)] assms(2)
  by (cases disk) (auto simp: honest_def)

theorem cache_file_never_holds_a_failure_witness:
  "\<exists>(j :: unit job) rewards. j_key j = ''c|task|0,1|0'' \<and> Inr (1, 0) = (Inr rewards :: (real \<times> real) res) \<and>
     entry_of (1, 0) = entry_of rewards"
proof -
  have "dget [(''c|task|0,1|0'', entry_of (1, 0))] ''c|task|0,1|0'' = Some (entry_of (1, 0))" by simp
  from cache_file_never_holds_a_failure [OF _ this, of "''tie''" True "Inr ()" "\<lambda>j. Inr (1, 0)" "\<lambda>js. js" ex_tasks
      ex_needed ex_crits 1 None]
  show ?thesis by (simp add: ex_run)
qed

text \<open>
  with \<open>on_error = "tie"\<close> the scorer always returns, and what it returns covers every
  (criterion, repetition) of every requested comparison: a cached entry is returned unchanged, any
  other is the outcome of a call for its key, a failed call counting as a tie.
\<close>

theorem tie_mode_scores_everything:
  assumes "trials_cover tasks needed" and "\<And>js. mset (completion js) = mset js"
  shows "\<exists>sc. fst (score_directed_pairs ''tie'' filed (Inr ()) call completion tasks needed crits n_reps disk) = Inr sc \<and>
    (\<forall>k \<in> set (needed_keys needed crits n_reps). dget sc k \<noteq> None) \<and>
    (\<forall>k e. dget (start_cache filed disk) k = Some e \<longrightarrow> dget sc k = Some e) \<and>
    (\<forall>k e. dget sc k = Some e \<longrightarrow> dget (start_cache filed disk) k = Some e \<or> (\<exists>j. j_key j = k \<and> e = outcome call j))"
proof -
  let ?c = "start_cache filed disk"
  obtain js where keys: "map j_key js = filter (\<lambda>k. dget ?c k = None) (needed_keys needed crits n_reps)"
    and res: "fst (score_directed_pairs ''tie'' filed (Inr ()) call completion tasks needed crits n_reps disk) =
      Inr (record_outcomes call (completion js) ?c)"
    and set: "set (completion js) = set js"
    by (rule score_directed_pairs_tie [OF assms])
  have ks: "j_key ` set (completion js) = {k \<in> set (needed_keys needed crits n_reps). dget ?c k = None}"
    using arg_cong [OF keys, of set] set by simp
  show ?thesis
  proof (intro exI conjI allI impI ballI)
    fix k assume "k \<in> set (needed_keys needed crits n_reps)"
    with ks show "dget (record_outcomes call (completion js) ?c) k \<noteq> None"
      by (intro record_outcomes_some) auto
  next
    fix k e assume "dget ?c k = Some e"
    with ks have "k \<notin> j_key ` set (completion js)" by simp
    with \<open>dget ?c k = Some e\<close> show "dget (record_outcomes call (completion js) ?c) k = Some e"
      by (simp add: record_outcomes_other)
  qed (use res in \<open>auto dest: record_outcomes_dget\<close>)
qed

theorem tie_mode_scores_everything_witness:
  "\<exists>sc. fst (score_directed_pairs ''tie'' False (Inr ()) (\<lambda>j. Inl IndexError) rev ex_tasks ex_needed ex_crits 1 None) =
      Inr sc \<and> dget sc ''c|task|0,1|0'' \<noteq> None"
  using tie_mode_scores_everything [OF ex_cover, of rev False "\<lambda>j. Inl IndexError" ex_crits 1 None]
  by (auto simp: ex_keys)

text \<open>
  a rerun on a complete cache file costs nothing: it returns the file's scores and leaves the
  file alone, and neither the client nor the verifier is consulted.
\<close>

theorem complete_cache_needs_no_verifier:
  assumes "trials_cover tasks needed" and "on_error \<in> {''tie'', ''raise''}"
    and "list_all (\<lambda>k. dget d k \<noteq> None) (needed_keys needed crits n_reps)"
  shows "score_directed_pairs on_error True client call completion tasks needed crits n_reps (Some d) = (Inr d, Some d)"
proof -
  have "filter (\<lambda>k. dget d k = None) (needed_keys needed crits n_reps) = []"
    using assms(3) by (auto simp: list_all_iff filter_empty_conv)
  then have "jobs_of_tasks (start_cache True (Some d)) tasks needed crits n_reps = Inr []"
    using jobs_of_tasks_ok [OF assms(1), of "start_cache True (Some d)" crits n_reps] by (auto simp: start_cache_def)
  then show ?thesis
    using assms(2) by (auto simp: score_directed_pairs_def start_cache_def)
qed

theorem complete_cache_needs_no_verifier_witness:
  "score_directed_pairs ''tie'' True (Inl (OtherError ''MissingAPIKeyError'')) (\<lambda>j. Inl IndexError) rev ex_tasks
     ex_needed ex_crits 1 (Some [(''c|task|0,1|0'', tie_entry)]) =
   (Inr [(''c|task|0,1|0'', tie_entry)], Some [(''c|task|0,1|0'', tie_entry)])"
  by (rule complete_cache_needs_no_verifier [OF ex_cover]) (simp_all add: ex_keys)

text \<open>
  within one task the cache key identifies the criterion, the ordered pair and the repetition;
  in particular the directed comparisons \<open>(a, b)\<close> and \<open>(b, a)\<close> never share an entry.
\<close>

theorem cache_key_identifies_directed_comparison:
  "cache_key cid task a b rep = cache_key cid' task a' b' rep' \<longleftrightarrow> cid = cid' \<and> a = a' \<and> b = b' \<and> rep = rep'"
  using cache_key_inj by blast

end
