(* ===== verification/Progress.thy ===== *)
theory Progress
  imports Score_Cache
begin

text \<open>
  Progress scores of \<^verbatim>\<open>llm_verifier/progress.py\<close>: the twenty-letter scale from 0 to 1, the
  scores read from one verifier response, the offline curve \<open>track\<close> and the online
  \<open>ProgressTracker\<close>. The wording of the prompt is left out: a verifier call is a function of what
  the prompt is built from.
\<close>

section \<open>One response\<close>

definition letter_value :: "char \<Rightarrow> real option" where
  "letter_value c =
     (let n = of_char c :: nat
      in if 65 \<le> n \<and> n \<le> 84 then Some (real (n - 65) / 19)
         else if 97 \<le> n \<and> n \<le> 116 then Some (real (n - 97) / 19)
         else None)"

definition alt_value :: "string \<Rightarrow> real option" where
  \<comment> \<open>the scale value of a token's first character after blanks and \<open>>\<close>\<close>
  "alt_value tok =
     (case lstrip (dropWhile (\<lambda>c. c = CHR ''>'') (lstrip tok)) of
        [] \<Rightarrow> None
      | c # cs \<Rightarrow> letter_value c)"

fun vals_to_lp :: "alternatives \<Rightarrow> (real, real) pydict \<Rightarrow> (real, real) pydict" where
  "vals_to_lp [] d = d"
| "vals_to_lp ((tok, lp) # alts) d =
     (case alt_value tok of
        None \<Rightarrow> vals_to_lp alts d
      | Some v \<Rightarrow>
          (case dget d v of
             None \<Rightarrow> vals_to_lp alts (dset v lp d)
           | Some old \<Rightarrow> if lp > old then vals_to_lp alts (dset v lp d) else vals_to_lp alts d))"

definition expected_value_from_alts :: "alternatives \<Rightarrow> real option" where
  "expected_value_from_alts alts =
     (let d = vals_to_lp alts []
      in if d = [] then None
         else let mx = Max (set (map snd d));
                  probs = map (\<lambda>(v, lp). (v, exp (lp - mx))) d;
                  total = sum_list (map snd probs)
              in Some (\<Sum>vp \<leftarrow> probs. fst vp * snd vp / total))"

fun find_at :: "string \<Rightarrow> string \<Rightarrow> nat option" where
  \<comment> \<open>\<open>s.find(p)\<close>, \<open>None\<close> when absent\<close>
  "find_at p [] = (if p = [] then Some 0 else None)"
| "find_at p (c # cs) = (if starts_with (c # cs) p then Some 0 else map_option Suc (find_at p cs))"

fun covering :: "nat \<Rightarrow> nat \<Rightarrow> nat \<Rightarrow> string list \<Rightarrow> nat option" where
  \<comment> \<open>the first token that ends behind a character position; \<open>len\<close> characters come before token \<open>j\<close>\<close>
  "covering target len j [] = None"
| "covering target len j (tok # toks) =
     (if target < len + length tok then Some j else covering target (len + length tok) (j + 1) toks)"

definition tag_of :: "nat \<Rightarrow> string" where
  "tag_of i = ''<c'' @ show_nat i @ ''>''"

definition closing_tag :: "nat \<Rightarrow> string" where
  "closing_tag i = ''</c'' @ show_nat i @ ''>''"

definition score_from_logprobs :: "string list \<Rightarrow> alternatives list \<Rightarrow> nat \<Rightarrow> real option" where
  "score_from_logprobs tokens lps i =
     (case find_at (tag_of i) (concat tokens) of
        None \<Rightarrow> None
      | Some idx \<Rightarrow>
          (case covering (idx + length (tag_of i)) 0 0 tokens of
             None \<Rightarrow> None
           | Some pos \<Rightarrow> if pos < length lps then expected_value_from_alts (lps ! pos) else None))"

fun search_letter :: "string \<Rightarrow> string \<Rightarrow> string \<Rightarrow> real option" where
  \<comment> \<open>the first opening tag, blanks, scale letter, blanks and closing tag\<close>
  "search_letter opening closing [] = None"
| "search_letter opening closing (c # cs) =
     (let here = (if starts_with (c # cs) opening then
            (case lstrip (drop (length opening) (c # cs)) of
               [] \<Rightarrow> None
             | l # rest \<Rightarrow> if starts_with (lstrip rest) closing then letter_value l else None)
          else None)
      in case here of Some v \<Rightarrow> Some v | None \<Rightarrow> search_letter opening closing cs)"

definition or_else :: "'a option \<Rightarrow> 'a option \<Rightarrow> 'a option" where
  "or_else x y = (case x of Some v \<Rightarrow> Some v | None \<Rightarrow> y)"

definition bare_letters :: "string \<Rightarrow> real list" where
  "bare_letters txt = List.map_filter (\<lambda>ln. case strip ln of [c] \<Rightarrow> letter_value c | _ \<Rightarrow> None) (splitlines txt)"

definition extract_progress_scores :: "string \<Rightarrow> string list \<Rightarrow> alternatives list \<Rightarrow> nat \<Rightarrow> real option list" where
  "extract_progress_scores txt tokens lps n =
     (let scores0 = map (\<lambda>i. if tokens \<noteq> [] \<and> lps \<noteq> [] then score_from_logprobs tokens lps i else None) [1..<n + 1];
          scores1 = map (\<lambda>i. or_else (scores0 ! (i - 1)) (search_letter (tag_of i) (closing_tag i) txt)) [1..<n + 1];
          bare = bare_letters txt
      in if None \<in> set scores1 \<and> length bare = n
         then map (\<lambda>i. or_else (scores1 ! i) (Some (bare ! i))) [0..<n]
         else scores1)"

section \<open>The offline curve\<close>

definition step_lines :: "nat \<Rightarrow> string \<Rightarrow> string list" where
  "step_lines k step = [''=== Agent Step '' @ show_nat k @ '' ==='', strip step, []]"

definition format_steps :: "string list \<Rightarrow> string" where
  "format_steps steps = join [CHR 0x0A] (concat (map (\<lambda>k. step_lines (k + 1) (steps ! k)) [0..<length steps]))"

record progress_prompt =
  pq_problem :: string
  pq_trajectory :: string
  pq_n_steps :: nat
  pq_checkpoints :: "int list"
  pq_n_images :: nat

type_synonym response = "string \<times> string list \<times> alternatives list"

record progress_result =
  pg_steps :: "int list"
  pg_scores :: "real list"
  pg_reps :: "real option list list"

definition mean_or_half :: "real option list \<Rightarrow> real" where
  \<comment> \<open>the mean of what is not \<open>None\<close>, a half without any\<close>
  "mean_or_half xs =
     (let vals = List.map_filter (\<lambda>x. x) xs in if vals \<noteq> [] then sum_list vals / real (length vals) else 1 / 2)"

definition run_reps :: "int \<Rightarrow> int \<Rightarrow> (nat \<Rightarrow> 'a res) \<Rightarrow> 'a list res" where
  \<comment> \<open>the repetitions, in a pool when there are several\<close>
  "run_reps n_evaluations max_workers rep =
     (if n_evaluations = 1 then bindR (rep 0) (\<lambda>x. Inr [x])
      else if min max_workers n_evaluations \<le> 0 then Inl (ValueError ''max_workers must be greater than 0'')
      else first_error (map rep [0..<nat n_evaluations]))"

definition default_checkpoints :: "nat \<Rightarrow> int list" where
  "default_checkpoints t = (if t > 2 then map int [2..<t] else map int [1..<t + 1])"

definition track :: "string \<Rightarrow> string list \<Rightarrow> nat \<Rightarrow> int list option \<Rightarrow> int \<Rightarrow> int \<Rightarrow> unit res \<Rightarrow>
    (progress_prompt \<Rightarrow> nat \<Rightarrow> response res) \<Rightarrow> progress_result res" where
  \<comment> \<open>\<open>ask q r\<close> is the verifier's answer to the \<open>r\<close>-th repetition\<close>
  "track problem steps n_images checkpoint_steps n_evaluations max_workers client ask =
     (let t = length steps
      in if t = 0 then Inl (ValueError ''need at least one step'')
         else let cps = (case checkpoint_steps of None \<Rightarrow> default_checkpoints t | Some cs \<Rightarrow> cs)
         in if checkpoint_steps \<noteq> None \<and> list_ex (\<lambda>k. \<not> (1 \<le> k \<and> k \<le> int t)) cps
            then Inl (ValueError ''checkpoint_steps out of range'')
         else if n_evaluations < 1 then Inl (ValueError ''n_evaluations must be >= 1'')
         else bindR client (\<lambda>_.
           let n = length cps;
               prompt = \<lparr>pq_problem = problem, pq_trajectory = format_steps steps, pq_n_steps = t,
                 pq_checkpoints = cps, pq_n_images = n_images\<rparr>;
               one_rep = (\<lambda>r. bindR (ask prompt r) (\<lambda>(txt, tokens, lps). Inr (extract_progress_scores txt tokens lps n)))
           in bindR (run_reps n_evaluations max_workers one_rep) (\<lambda>per_rep.
                Inr \<lparr>pg_steps = cps, pg_scores = map (\<lambda>i. mean_or_half (map (\<lambda>rep. rep ! i) per_rep)) [0..<n],
                  pg_reps = per_rep\<rparr>)))"

section \<open>The online tracker\<close>

record tracker =
  tk_problem :: string
  tk_n_evaluations :: int
  tk_max_workers :: int
  tk_steps :: "int list"
  tk_scores :: "real list"
  tk_step_texts :: "string list"
  tk_reps :: "real option list list"
  tk_n_images :: nat

definition make_tracker :: "string \<Rightarrow> nat \<Rightarrow> int \<Rightarrow> int \<Rightarrow> unit res \<Rightarrow> tracker res" where
  "make_tracker problem n_images n_evaluations max_workers client =
     (if n_evaluations < 1 then Inl (ValueError ''n_evaluations must be >= 1'')
      else bindR client (\<lambda>_.
        Inr \<lparr>tk_problem = problem, tk_n_evaluations = n_evaluations, tk_max_workers = max_workers, tk_steps = [],
          tk_scores = [], tk_step_texts = [], tk_reps = [], tk_n_images = n_images\<rparr>))"

definition image_marker :: "nat \<Rightarrow> string" where
  "image_marker i = ''[Image '' @ show_nat i @ '' attached]''"

definition update :: "string \<Rightarrow> nat \<Rightarrow> (progress_prompt \<Rightarrow> nat \<Rightarrow> response res) \<Rightarrow> tracker \<Rightarrow> real res \<times> tracker" where
  \<comment> \<open>\<open>n_imgs\<close> images come with the step; when a call fails the step stays appended\<close>
  "update step n_imgs ask tk =
     (let n0 = tk_n_images tk;
          step' = (if n_imgs > 0 then step @ [CHR 0x0A] @ join '' '' (map (\<lambda>j. image_marker (n0 + j + 1)) [0..<n_imgs]) else step);
          tk1 = tk\<lparr>tk_n_images := n0 + n_imgs, tk_step_texts := tk_step_texts tk @ [step']\<rparr>;
          k = length (tk_step_texts tk1);
          prompt = \<lparr>pq_problem = tk_problem tk1, pq_trajectory = format_steps (tk_step_texts tk1), pq_n_steps = k,
            pq_checkpoints = [int k], pq_n_images = tk_n_images tk1\<rparr>;
          one_rep = (\<lambda>r. bindR (ask prompt r) (\<lambda>(txt, tokens, lps). py_index (extract_progress_scores txt tokens lps 1) 0))
      in case run_reps (tk_n_evaluations tk1) (tk_max_workers tk1) one_rep of
           Inl e \<Rightarrow> (Inl e, tk1)
         | Inr reps \<Rightarrow>
             let score = mean_or_half reps
             in (Inr score, tk1\<lparr>tk_steps := tk_steps tk1 @ [int k], tk_scores := tk_scores tk1 @ [score],
                   tk_reps := tk_reps tk1 @ [reps]\<rparr>))"

definition tracker_result :: "tracker \<Rightarrow> progress_result res" where
  "tracker_result tk =
     (if tk_steps tk = [] then Inl (ValueError ''no steps tracked yet'')
      else Inr \<lparr>pg_steps = tk_steps tk, pg_scores = tk_scores tk,
        pg_reps = map (\<lambda>r. map (\<lambda>i. tk_reps tk ! i ! r) [0..<length (tk_steps tk)]) [0..<nat (tk_n_evaluations tk)]\<rparr>)"

definition final :: "progress_result \<Rightarrow> real res" where
  "final r = (if pg_scores r = [] then Inl IndexError else Inr (last (pg_scores r)))"

section \<open>Bounds\<close>

definition unit_or_none :: "real option \<Rightarrow> bool" where
  "unit_or_none x = (case x of None \<Rightarrow> True | Some v \<Rightarrow> 0 \<le> v \<and> v \<le> 1)"

lemma unit_or_none_simps [simp]: "unit_or_none None" "unit_or_none (Some v) \<longleftrightarrow> 0 \<le> v \<and> v \<le> 1"
  by (simp_all add: unit_or_none_def)

lemma letter_unit [simp]: "unit_or_none (letter_value c)"
  by (auto simp: letter_value_def Let_def)

lemma alt_unit [simp]: "unit_or_none (alt_value tok)"
  by (simp add: alt_value_def split: list.split)

lemma keys_dset:
  assumes "\<forall>p \<in> set d. Q (fst p)" and "Q v"
  shows "\<forall>p \<in> set (dset v lp d). Q (fst p)"
proof
  fix p assume "p \<in> set (dset v lp d)"
  then have "fst p \<in> fst ` set (dset v lp d)" by blast
  then have "fst p \<in> insert v (fst ` set d)" by (simp add: dom_update)
  with assms show "Q (fst p)" by auto
qed

lemma vals_keys:
  assumes "\<And>tok v. alt_value tok = Some v \<Longrightarrow> Q v"
  shows "\<forall>p \<in> set d. Q (fst p) \<Longrightarrow> \<forall>p \<in> set (vals_to_lp alts d). Q (fst p)"
proof (induction alts arbitrary: d)
  case (Cons a alts)
  obtain tok lp where a: "a = (tok, lp)" by (cases a)
  show ?case
  proof (cases "alt_value tok")
    case None
    with a Cons show ?thesis by simp
  next
    case (Some v)
    have new: "\<forall>p \<in> set (dset v lp d). Q (fst p)" by (rule keys_dset [OF Cons.prems assms [OF Some]])
    have "vals_to_lp (a # alts) d \<in> {vals_to_lp alts d, vals_to_lp alts (dset v lp d)}"
      unfolding a vals_to_lp.simps Some option.case by (simp split: option.split)
    with Cons.IH [OF Cons.prems] Cons.IH [OF new] show ?thesis by (elim insertE) simp_all
  qed
qed simp

lemma vals_unit: "\<forall>p \<in> set (vals_to_lp alts []). 0 \<le> fst p \<and> fst p \<le> 1"
proof (rule vals_keys [where Q = "\<lambda>v. 0 \<le> v \<and> v \<le> 1"])
  fix tok v assume "alt_value tok = Some v"
  with alt_unit [of tok] show "0 \<le> v \<and> v \<le> 1" by simp
qed simp

lemma weighted_mean_unit:
  fixes d :: "(real \<times> real) list"
  assumes "\<forall>p \<in> set d. 0 \<le> fst p \<and> fst p \<le> 1 \<and> 0 < snd p" and "d \<noteq> []"
  shows "0 \<le> (\<Sum>p \<leftarrow> d. fst p * snd p / sum_list (map snd d)) \<and> (\<Sum>p \<leftarrow> d. fst p * snd p / sum_list (map snd d)) \<le> 1"
proof -
  let ?t = "sum_list (map snd d)"
  obtain p ps where d: "d = p # ps" using assms(2) by (cases d) auto
  have "0 \<le> sum_list (map snd ps)" using assms(1) unfolding d by (intro sum_list_nonneg) auto
  then have pos: "0 < ?t" using assms(1) unfolding d by (simp add: add_pos_nonneg)
  have eq: "(\<Sum>p \<leftarrow> d. fst p * snd p / ?t) = (\<Sum>p \<leftarrow> d. fst p * snd p) / ?t"
  proof -
    have "(\<Sum>p \<leftarrow> xs. fst p * snd p / t) = (\<Sum>p \<leftarrow> xs. fst p * snd p) / t" for xs :: "(real \<times> real) list" and t
      by (induction xs) (simp_all add: add_divide_distrib)
    then show ?thesis .
  qed
  have "0 \<le> (\<Sum>p \<leftarrow> d. fst p * snd p)" using assms(1) by (intro sum_list_nonneg) auto
  moreover have "(\<Sum>p \<leftarrow> d. fst p * snd p) \<le> ?t"
    using assms(1) by (intro sum_list_mono) (auto intro: mult_left_le_one_le less_imp_le)
  ultimately show ?thesis unfolding eq using pos by (simp add: field_simps)
qed

lemma expected_unit [simp]: "unit_or_none (expected_value_from_alts alts)"
proof (cases "vals_to_lp alts [] = []")
  case False
  let ?d = "vals_to_lp alts []"
  let ?probs = "map (\<lambda>(v, lp). (v, exp (lp - Max (set (map snd ?d))))) ?d"
  have "\<forall>p \<in> set ?probs. 0 \<le> fst p \<and> fst p \<le> 1 \<and> 0 < snd p" using vals_unit [of alts] by auto
  from weighted_mean_unit [OF this] False show ?thesis by (simp add: expected_value_from_alts_def Let_def)
qed (simp add: expected_value_from_alts_def)

lemma logprobs_unit [simp]: "unit_or_none (score_from_logprobs tokens lps i)"
  by (auto simp: score_from_logprobs_def split: option.split)

lemma search_unit [simp]: "unit_or_none (search_letter opening closing s)"
proof (induction s)
  case (Cons c cs)
  let ?here = "if starts_with (c # cs) opening then
      (case lstrip (drop (length opening) (c # cs)) of
         [] \<Rightarrow> None | l # rest \<Rightarrow> if starts_with (lstrip rest) closing then letter_value l else None) else None"
  have "unit_or_none ?here" by (auto split: list.split)
  with Cons show ?case unfolding search_letter.simps(2) Let_def by (cases ?here) (auto simp: unit_or_none_def)
qed simp

lemma or_else_unit [simp]: "unit_or_none x \<Longrightarrow> unit_or_none y \<Longrightarrow> unit_or_none (or_else x y)"
  by (cases x) (simp_all add: or_else_def)

lemma bare_unit: "v \<in> set (bare_letters s) \<Longrightarrow> 0 \<le> v \<and> v \<le> 1"
proof -
  assume "v \<in> set (bare_letters s)"
  then obtain ln where "(case strip ln of [c] \<Rightarrow> letter_value c | _ \<Rightarrow> None) = Some v"
    by (auto simp: bare_letters_def map_filter_def)
  then obtain c where "letter_value c = Some v" by (auto split: list.splits)
  with letter_unit [of c] show ?thesis by simp
qed

lemma extract_length [simp]: "length (extract_progress_scores txt tokens lps n) = n"
  by (simp add: extract_progress_scores_def Let_def)

lemma list_all_upt: "(\<And>i. a \<le> i \<Longrightarrow> i < b \<Longrightarrow> P (f i)) \<Longrightarrow> list_all P (map f [a..<b])"
  by (auto simp: list_all_iff)

lemma extract_unit: "list_all unit_or_none (extract_progress_scores reply tokens lps n)"
proof -
  define s0 where "s0 = map (\<lambda>i. if tokens \<noteq> [] \<and> lps \<noteq> [] then score_from_logprobs tokens lps i else None) [1..<n + 1]"
  define s1 where "s1 = map (\<lambda>i. or_else (s0 ! (i - 1)) (search_letter (tag_of i) (closing_tag i) reply)) [1..<n + 1]"
  have len: "length s0 = n" "length s1 = n" by (simp_all add: s0_def s1_def)
  have u0: "list_all unit_or_none s0" unfolding s0_def by (rule list_all_upt) simp
  then have u1: "list_all unit_or_none s1"
    unfolding s1_def by (intro list_all_upt or_else_unit search_unit) (simp add: list_all_length len)
  have u2: "list_all unit_or_none (map (\<lambda>i. or_else (s1 ! i) (Some (bare_letters reply ! i))) [0..<n])" if "length (bare_letters reply) = n"
    using bare_unit [of _ reply] u1 that by (intro list_all_upt or_else_unit) (simp_all add: list_all_length len)
  show ?thesis
    unfolding extract_progress_scores_def Let_def s0_def [symmetric] s1_def [symmetric] using u1 u2 by simp
qed

lemma mean_or_half_unit: "list_all unit_or_none xs \<Longrightarrow> 0 \<le> mean_or_half xs \<and> mean_or_half xs \<le> 1"
proof -
  assume "list_all unit_or_none xs"
  then have "list_all (\<lambda>x. 0 \<le> x \<and> x \<le> 1) (List.map_filter (\<lambda>x. x) xs)"
    by (auto simp: list_all_iff map_filter_def unit_or_none_def split: option.splits)
  with mean_unit [of "List.map_filter (\<lambda>x. x) xs"] show ?thesis by (simp add: mean_or_half_def Let_def)
qed

section \<open>The curve and the tracker\<close>

lemma run_reps_Inr:
  assumes "run_reps n_evaluations max_workers rep = Inr xs" and "1 \<le> n_evaluations"
  shows "length xs = nat n_evaluations \<and> (\<forall>i < nat n_evaluations. rep i = Inr (xs ! i))"
proof (cases "n_evaluations = 1")
  case True
  with assms show ?thesis by (auto simp: run_reps_def bindR_Inr_iff)
next
  case False
  with assms have eq: "map rep [0..<nat n_evaluations] = map Inr xs"
    by (simp add: run_reps_def first_error_Inr split: if_splits)
  have len: "length xs = nat n_evaluations" using map_eq_imp_length_eq [OF eq] by simp
  have "rep i = Inr (xs ! i)" if "i < nat n_evaluations" for i
    using arg_cong [where f = "\<lambda>l. l ! i", OF eq] that len by simp
  with len show ?thesis by blast
qed

lemma extract_response:
  assumes "bindR (ask q r) (\<lambda>(txt, tokens, lps). Inr (extract_progress_scores txt tokens lps n)) = Inr rep"
  shows "length rep = n \<and> list_all unit_or_none rep"
  using assms extract_unit by (auto simp: bindR_Inr_iff)

lemma default_checkpoints_range: "1 \<le> t \<Longrightarrow> k \<in> set (default_checkpoints t) \<Longrightarrow> 1 \<le> k \<and> k \<le> int t"
  by (auto simp: default_checkpoints_def split: if_splits)

definition track_rep :: "(progress_prompt \<Rightarrow> nat \<Rightarrow> response res) \<Rightarrow> progress_prompt \<Rightarrow> nat \<Rightarrow> nat \<Rightarrow> real option list res" where
  "track_rep ask q n r = bindR (ask q r) (\<lambda>(txt, tokens, lps). Inr (extract_progress_scores txt tokens lps n))"

lemma track_Inr:
  assumes "track problem steps n_images checkpoint_steps n_evaluations max_workers client ask = Inr r"
  obtains cps per_rep q where "cps = (case checkpoint_steps of None \<Rightarrow> default_checkpoints (length steps) | Some cs \<Rightarrow> cs)"
    "list_all (\<lambda>k. 1 \<le> k \<and> k \<le> int (length steps)) cps" "1 \<le> n_evaluations"
    "run_reps n_evaluations max_workers (track_rep ask q (length cps)) = Inr per_rep"
    "r = \<lparr>pg_steps = cps, pg_scores = map (\<lambda>i. mean_or_half (map (\<lambda>rep. rep ! i) per_rep)) [0..<length cps], pg_reps = per_rep\<rparr>"
proof -
  define cps where "cps = (case checkpoint_steps of None \<Rightarrow> default_checkpoints (length steps) | Some cs \<Rightarrow> cs)"
  define q where "q = \<lparr>pq_problem = problem, pq_trajectory = format_steps steps, pq_n_steps = length steps,
    pq_checkpoints = cps, pq_n_images = n_images\<rparr>"
  have rep: "track_rep ask q n = (\<lambda>r. bindR (ask q r) (\<lambda>(txt, tokens, lps). Inr (extract_progress_scores txt tokens lps n)))" for n
    by (simp add: track_rep_def fun_eq_iff)
  have t: "length steps \<noteq> 0" using assms by (auto simp: track_def split: if_splits)
  have range: "\<not> (checkpoint_steps \<noteq> None \<and> list_ex (\<lambda>k. \<not> (1 \<le> k \<and> k \<le> int (length steps))) cps)"
    and n: "1 \<le> n_evaluations"
    using assms t unfolding track_def Let_def cps_def [symmetric] by (simp_all only: if_False split: if_splits) simp_all
  have "list_all (\<lambda>k. 1 \<le> k \<and> k \<le> int (length steps)) cps"
  proof (cases checkpoint_steps)
    case None
    with t default_checkpoints_range [of "length steps"] show ?thesis by (simp add: cps_def list_all_iff Suc_le_eq)
  next
    case (Some cs)
    with range show ?thesis by (simp add: list_all_iff list_ex_iff)
  qed
  moreover from assms t range n obtain per_rep where
    "run_reps n_evaluations max_workers (track_rep ask q (length cps)) = Inr per_rep"
    "r = \<lparr>pg_steps = cps, pg_scores = map (\<lambda>i. mean_or_half (map (\<lambda>rep. rep ! i) per_rep)) [0..<length cps], pg_reps = per_rep\<rparr>"
    unfolding track_def Let_def cps_def [symmetric] q_def [symmetric] rep [symmetric]
    by (auto simp: bindR_Inr_iff)
  ultimately show thesis using that cps_def n by blast
qed

datatype tracker_op = Update string nat "progress_prompt \<Rightarrow> nat \<Rightarrow> response res"

fun tracker_step :: "tracker \<Rightarrow> tracker_op \<Rightarrow> tracker" where
  "tracker_step tk (Update step n_imgs ask) = snd (update step n_imgs ask tk)"

definition tracker_inv :: "tracker \<Rightarrow> bool" where
  "tracker_inv tk \<longleftrightarrow> 1 \<le> tk_n_evaluations tk \<and> length (tk_scores tk) = length (tk_steps tk) \<and>
     length (tk_reps tk) = length (tk_steps tk) \<and> sorted_wrt (<) (tk_steps tk) \<and>
     list_all (\<lambda>k. 1 \<le> k \<and> k \<le> int (length (tk_step_texts tk))) (tk_steps tk) \<and>
     tk_scores tk = map mean_or_half (tk_reps tk) \<and>
     list_all (\<lambda>reps. length reps = nat (tk_n_evaluations tk) \<and> list_all unit_or_none reps) (tk_reps tk)"

lemma update_cases:
  assumes "update step n_imgs ask tk = (out, tk')" and "1 \<le> tk_n_evaluations tk"
  obtains e msg where "out = Inl e" "tk' = tk\<lparr>tk_n_images := tk_n_images tk + n_imgs, tk_step_texts := tk_step_texts tk @ [msg]\<rparr>"
  | msg reps where "out = Inr (mean_or_half reps)" "length reps = nat (tk_n_evaluations tk)" "list_all unit_or_none reps"
    "tk' = tk\<lparr>tk_n_images := tk_n_images tk + n_imgs, tk_step_texts := tk_step_texts tk @ [msg],
      tk_steps := tk_steps tk @ [int (Suc (length (tk_step_texts tk)))], tk_scores := tk_scores tk @ [mean_or_half reps],
      tk_reps := tk_reps tk @ [reps]\<rparr>"
proof -
  define msg where "msg = (if n_imgs > 0 then step @ [CHR 0x0A] @ join '' '' (map (\<lambda>j. image_marker (tk_n_images tk + j + 1)) [0..<n_imgs]) else step)"
  define tk1 where "tk1 = tk\<lparr>tk_n_images := tk_n_images tk + n_imgs, tk_step_texts := tk_step_texts tk @ [msg]\<rparr>"
  define rep where "rep = (\<lambda>r. bindR (ask \<lparr>pq_problem = tk_problem tk1, pq_trajectory = format_steps (tk_step_texts tk1),
      pq_n_steps = length (tk_step_texts tk1), pq_checkpoints = [int (length (tk_step_texts tk1))], pq_n_images = tk_n_images tk1\<rparr> r)
    (\<lambda>(rsp, tokens, lps). py_index (extract_progress_scores rsp tokens lps 1) 0))"
  have run: "(case run_reps (tk_n_evaluations tk1) (tk_max_workers tk1) rep of
      Inl e \<Rightarrow> (Inl e, tk1)
    | Inr reps \<Rightarrow> (Inr (mean_or_half reps), tk1\<lparr>tk_steps := tk_steps tk1 @ [int (length (tk_step_texts tk1))],
        tk_scores := tk_scores tk1 @ [mean_or_half reps], tk_reps := tk_reps tk1 @ [reps]\<rparr>)) = (out, tk')"
    using assms(1) unfolding update_def Let_def msg_def [symmetric] tk1_def [symmetric] rep_def [symmetric] .
  have unit: "unit_or_none x" if rx: "rep i = Inr x" for i x
  proof -
    from rx obtain resp tokens lps where "x = extract_progress_scores resp tokens lps 1 ! 0"
      unfolding rep_def by (auto simp: bindR_Inr_iff py_index_def)
    with extract_unit [of resp tokens lps 1] show ?thesis by (simp add: list_all_length)
  qed
  show thesis
  proof (cases "run_reps (tk_n_evaluations tk1) (tk_max_workers tk1) rep")
    case (Inl e)
    with run have "out = Inl e" "tk' = tk\<lparr>tk_n_images := tk_n_images tk + n_imgs, tk_step_texts := tk_step_texts tk @ [msg]\<rparr>"
      by (simp_all add: tk1_def)
    then show thesis by (rule that(1))
  next
    case (Inr reps)
    have n: "tk_n_evaluations tk1 = tk_n_evaluations tk" by (simp add: tk1_def)
    from run_reps_Inr [OF Inr] assms(2) have r: "length reps = nat (tk_n_evaluations tk)"
      "\<And>i. i < nat (tk_n_evaluations tk) \<Longrightarrow> rep i = Inr (reps ! i)" unfolding n by auto
    then have "list_all unit_or_none reps" using unit by (auto simp: list_all_length)
    moreover have "out = Inr (mean_or_half reps)" "tk' = tk\<lparr>tk_n_images := tk_n_images tk + n_imgs,
        tk_step_texts := tk_step_texts tk @ [msg], tk_steps := tk_steps tk @ [int (Suc (length (tk_step_texts tk)))],
        tk_scores := tk_scores tk @ [mean_or_half reps], tk_reps := tk_reps tk @ [reps]\<rparr>"
      using run Inr by (simp_all add: tk1_def)
    ultimately show thesis using r(1) by (intro that(2))
  qed
qed

lemma tracker_inv_step: "tracker_inv tk \<Longrightarrow> tracker_inv (tracker_step tk op)"
proof -
  assume inv: "tracker_inv tk"
  obtain step n_imgs ask where op: "op = Update step n_imgs ask" by (cases op)
  obtain out tk' where run: "update step n_imgs ask tk = (out, tk')" by (cases "update step n_imgs ask tk")
  have n: "1 \<le> tk_n_evaluations tk" using inv by (simp add: tracker_inv_def)
  have "tracker_inv tk'"
    using run n
  proof (cases rule: update_cases)
    case (1 e msg)
    with inv show ?thesis by (auto simp: tracker_inv_def list_all_iff)
  next
    case (2 msg reps)
    have steps: "k \<le> int (length (tk_step_texts tk))" "1 \<le> k" if "k \<in> set (tk_steps tk)" for k
      using that inv by (auto simp: tracker_inv_def list_all_iff)
    with 2 inv show ?thesis by (fastforce simp: tracker_inv_def list_all_iff sorted_wrt_append)
  qed
  with op run show ?thesis by simp
qed

interpretation curve: op_machine tracker_step tracker_inv
    "\<lparr>tk_problem = [], tk_n_evaluations = 1, tk_max_workers = 1, tk_steps = [], tk_scores = [], tk_step_texts = [],
      tk_reps = [], tk_n_images = 0\<rparr>"
  by unfold_locales (simp add: tracker_inv_def, rule tracker_inv_step)

section \<open>Replies\<close>

definition reply_line :: "nat \<Rightarrow> char \<Rightarrow> string" where
  \<comment> \<open>a line of the format the prompt asks for\<close>
  "reply_line i l = tag_of i @ [l] @ closing_tag i @ [CHR 0x0A]"

definition reply_of :: "char list \<Rightarrow> string" where
  "reply_of ls = concat (map (\<lambda>i. reply_line (i + 1) (ls ! i)) [0..<length ls])"

lemma search_skip: "CHR ''<'' \<notin> set w \<Longrightarrow> search_letter (tag_of i) cl (w @ s) = search_letter (tag_of i) cl s"
proof (induction w)
  case (Cons c w)
  then have "\<not> starts_with (c # (w @ s)) (tag_of i)" by (auto simp: starts_with_def tag_of_def)
  with Cons show ?case by simp
qed simp

lemma show_nat_no_angle: "CHR ''<'' \<notin> set (show_nat i)"
  using show_nat_digits [of i] by (auto simp: is_digit_def)

lemma letter_plain: "letter_value l = Some v \<Longrightarrow> l \<noteq> CHR ''<'' \<and> \<not> py_space l"
  by (auto simp: letter_value_def py_space_def Let_def split: if_splits)

lemma tag_prefix: "starts_with (tag_of j @ s) (tag_of i) \<longleftrightarrow> i = j"
proof
  assume "starts_with (tag_of j @ s) (tag_of i)"
  then obtain t where "show_nat j @ CHR ''>'' # s = show_nat i @ CHR ''>'' # t"
    by (auto simp: starts_with_iff tag_of_def)
  moreover have "takeWhile is_digit (show_nat k @ CHR ''>'' # u) = show_nat k" for k u
  proof -
    have "\<not> is_digit CHR ''>''" by (simp add: is_digit_def)
    then have "takeWhile is_digit (CHR ''>'' # u) = []" by simp
    then show ?thesis using takeWhile_append2 [of "show_nat k" is_digit "CHR ''>'' # u"] show_nat_digits [of k] by simp
  qed
  ultimately have "show_nat j = show_nat i" by metis
  then show "i = j" by simp
qed simp

lemma search_other_line:
  assumes "j \<noteq> i" and "letter_value l = Some v"
  shows "search_letter (tag_of i) cl (reply_line j l @ s) = search_letter (tag_of i) cl s"
proof -
  let ?w1 = "''c'' @ show_nat j @ ''>'' @ [l]" and ?w2 = "''/c'' @ show_nat j @ ''>'' @ [CHR 0x0A]"
  have line: "reply_line j l @ s = CHR ''<'' # (?w1 @ CHR ''<'' # (?w2 @ s))" "reply_line j l @ s = tag_of j @ ([l] @ closing_tag j @ [CHR 0x0A] @ s)"
    by (simp_all add: reply_line_def tag_of_def closing_tag_def)
  have no: "CHR ''<'' \<notin> set ?w1" "CHR ''<'' \<notin> set ?w2" using show_nat_no_angle letter_plain [OF assms(2)] by auto
  have first: "\<not> starts_with (CHR ''<'' # (?w1 @ CHR ''<'' # (?w2 @ s))) (tag_of i)"
    using tag_prefix [of j "[l] @ closing_tag j @ [CHR 0x0A] @ s" i] assms(1) unfolding line(2) [symmetric] line(1) by blast
  have second: "\<not> starts_with (CHR ''<'' # (?w2 @ s)) (tag_of i)" by (simp add: starts_with_def tag_of_def)
  have "search_letter (tag_of i) cl (reply_line j l @ s) = search_letter (tag_of i) cl (?w1 @ (CHR ''<'' # (?w2 @ s)))"
    unfolding line(1) search_letter.simps(2) Let_def using first by simp
  also have "\<dots> = search_letter (tag_of i) cl (CHR ''<'' # (?w2 @ s))" by (rule search_skip [OF no(1)])
  also have "\<dots> = search_letter (tag_of i) cl (?w2 @ s)"
    unfolding search_letter.simps(2) Let_def using second by simp
  also have "\<dots> = search_letter (tag_of i) cl s" by (rule search_skip [OF no(2)])
  finally show ?thesis .
qed

lemma search_own_line:
  assumes "letter_value l = Some v"
  shows "search_letter (tag_of i) (closing_tag i) (reply_line i l @ s) = Some v"
proof -
  let ?rest = "l # closing_tag i @ [CHR 0x0A] @ s"
  have line: "reply_line i l @ s = CHR ''<'' # drop 1 (tag_of i) @ ?rest" "CHR ''<'' # drop 1 (tag_of i) @ ?rest = tag_of i @ ?rest"
    by (simp_all add: reply_line_def tag_of_def)
  have l: "lstrip ?rest = ?rest" using letter_plain [OF assms] by (simp add: lstrip_def)
  have c: "lstrip (closing_tag i @ [CHR 0x0A] @ s) = closing_tag i @ [CHR 0x0A] @ s"
    by (simp add: lstrip_def closing_tag_def py_space_def)
  have "starts_with (tag_of i @ ?rest) (tag_of i)" "drop (length (tag_of i)) (tag_of i @ ?rest) = ?rest" by simp_all
  then show ?thesis
    unfolding line(1) search_letter.simps(2) Let_def unfolding line(2) using l c assms by simp
qed

lemma search_reply:
  assumes "\<forall>l \<in> set ls. letter_value l \<noteq> None" and "i < length ls"
  shows "search_letter (tag_of (a + i + 1)) (closing_tag (a + i + 1))
    (concat (map (\<lambda>j. reply_line (a + j + 1) (ls ! j)) [0..<length ls])) = letter_value (ls ! i)"
  using assms
proof (induction ls arbitrary: a i)
  case (Cons l ls)
  have split: "concat (map (\<lambda>j. reply_line (a + j + 1) ((l # ls) ! j)) [0..<length (l # ls)]) =
      reply_line (a + 1) l @ concat (map (\<lambda>j. reply_line (Suc a + j + 1) (ls ! j)) [0..<length ls])"
  proof -
    have "[0..<length (l # ls)] = 0 # map Suc [0..<length ls]" by (simp add: map_Suc_upt upt_conv_Cons del: upt_Suc)
    then show ?thesis by (simp add: comp_def)
  qed
  from Cons.prems(1) obtain v where v: "letter_value l = Some v" by auto
  show ?case
  proof (cases i)
    case 0
    then show ?thesis unfolding split using search_own_line [OF v] v by simp
  next
    case (Suc k)
    have IH: "search_letter (tag_of (Suc a + k + 1)) (closing_tag (Suc a + k + 1))
        (concat (map (\<lambda>j. reply_line (Suc a + j + 1) (ls ! j)) [0..<length ls])) = letter_value (ls ! k)"
      by (rule Cons.IH) (use Cons.prems Suc in simp_all)
    have "search_letter (tag_of (a + i + 1)) (closing_tag (a + i + 1))
        (reply_line (a + 1) l @ concat (map (\<lambda>j. reply_line (Suc a + j + 1) (ls ! j)) [0..<length ls])) =
      search_letter (tag_of (a + i + 1)) (closing_tag (a + i + 1))
        (concat (map (\<lambda>j. reply_line (Suc a + j + 1) (ls ! j)) [0..<length ls]))"
      by (rule search_other_line [OF _ v]) (use Suc in simp)
    with IH Suc show ?thesis unfolding split by simp
  qed
qed simp

section \<open>Properties\<close>

text \<open>
  a progress curve has one score in the unit interval for each requested checkpoint, whatever
  the verifier answers: checkpoints within the trajectory, as many repetitions as asked for, and
  every repetition as long as the curve.
\<close>

theorem progress_curve_in_unit_interval:
  assumes "track problem steps n_images checkpoint_steps n_evaluations max_workers client ask = Inr r"
  shows "length (pg_scores r) = length (pg_steps r) \<and> list_all (\<lambda>s. 0 \<le> s \<and> s \<le> 1) (pg_scores r) \<and>
    list_all (\<lambda>k. 1 \<le> k \<and> k \<le> int (length steps)) (pg_steps r) \<and>
    1 \<le> n_evaluations \<and> length (pg_reps r) = nat n_evaluations \<and> list_all (\<lambda>rep. length rep = length (pg_steps r)) (pg_reps r)"
proof (rule track_Inr [OF assms])
  fix cps per_rep q
  assume cps: "list_all (\<lambda>k. 1 \<le> k \<and> k \<le> int (length steps)) cps" and n: "1 \<le> n_evaluations"
    and run: "run_reps n_evaluations max_workers (track_rep ask q (length cps)) = Inr per_rep"
    and r: "r = \<lparr>pg_steps = cps, pg_scores = map (\<lambda>i. mean_or_half (map (\<lambda>rep. rep ! i) per_rep)) [0..<length cps], pg_reps = per_rep\<rparr>"
  from run_reps_Inr [OF run n] have len: "length per_rep = nat n_evaluations"
    and rep: "\<And>i. i < nat n_evaluations \<Longrightarrow> track_rep ask q (length cps) i = Inr (per_rep ! i)" by auto
  have rows: "length row = length cps \<and> list_all unit_or_none row" if "row \<in> set per_rep" for row
  proof -
    from that obtain i where "i < nat n_evaluations" "row = per_rep ! i" using len by (auto simp: in_set_conv_nth)
    with rep have "track_rep ask q (length cps) i = Inr row" by simp
    then show ?thesis unfolding track_rep_def by (rule extract_response)
  qed
  have "0 \<le> mean_or_half (map (\<lambda>rep. rep ! i) per_rep) \<and> mean_or_half (map (\<lambda>rep. rep ! i) per_rep) \<le> 1" if "i < length cps" for i
    by (rule mean_or_half_unit) (use rows that in \<open>auto simp: list_all_iff\<close>)
  with cps n len rows r show ?thesis by (simp add: list_all_iff)
qed

definition ex_ask :: "progress_prompt \<Rightarrow> nat \<Rightarrow> response res" where
  "ex_ask q r = (if r = 1 then Inr ([], [], []) else Inr (''<c1> K </c1>'', [], []))"

theorem progress_curve_in_unit_interval_witness:
  "\<exists>r. track ''p'' [''a'', ''b'', ''c''] 0 None 2 8 (Inr ()) ex_ask = Inr r \<and> pg_steps r = [2] \<and> list_all (\<lambda>s. 0 \<le> s \<and> s \<le> 1) (pg_scores r)"
proof -
  have "\<exists>r. track ''p'' [''a'', ''b'', ''c''] 0 None 2 8 (Inr ()) ex_ask = Inr r \<and> pg_steps r = [2]"
    by (simp add: track_def default_checkpoints_def run_reps_def ex_ask_def numeral_2_eq_2)
  then show ?thesis using progress_curve_in_unit_interval by blast
qed

text \<open>
  the online tracker stays consistent over every sequence of updates, failed ones included:
  its steps are strictly increasing numbers of steps fed to it (a failed update uses up its number),
  with one score each, the mean of that step's repetitions, in the unit interval; the result it
  reports has exactly these and one row per repetition.
\<close>

theorem tracker_stays_consistent:
  assumes "make_tracker problem n_images n_evaluations max_workers client = Inr tk0" and "tk = foldl tracker_step tk0 ops"
    and "tracker_result tk = Inr r"
  shows "sorted_wrt (<) (pg_steps r) \<and> length (pg_scores r) = length (pg_steps r) \<and>
    list_all (\<lambda>s. 0 \<le> s \<and> s \<le> 1) (pg_scores r) \<and> length (pg_reps r) = nat n_evaluations \<and>
    length (tk_step_texts tk) = length ops \<and> list_all (\<lambda>k. 1 \<le> k \<and> k \<le> int (length ops)) (pg_steps r) \<and>
    (\<forall>i < length (pg_steps r). pg_scores r ! i = mean_or_half (map (\<lambda>row. row ! i) (pg_reps r)))"
proof -
  have tk0: "tracker_inv tk0" "tk_n_evaluations tk0 = n_evaluations" "tk_step_texts tk0 = []"
    using assms(1) by (auto simp: make_tracker_def bindR_Inr_iff tracker_inv_def split: if_splits)
  have inv: "tracker_inv tk" unfolding assms(2) by (rule curve.inv_foldl [OF tk0(1)])
  have texts: "tracker_inv t \<Longrightarrow> length (tk_step_texts (foldl tracker_step t os)) = length (tk_step_texts t) + length os \<and>
      tk_n_evaluations (foldl tracker_step t os) = tk_n_evaluations t" for t os
  proof (induction os arbitrary: t)
    case (Cons p os)
    obtain step n_imgs ask where p: "p = Update step n_imgs ask" by (cases p)
    obtain out tk' where run: "update step n_imgs ask t = (out, tk')" by (cases "update step n_imgs ask t")
    have "1 \<le> tk_n_evaluations t" using Cons.prems by (simp add: tracker_inv_def)
    with run have "length (tk_step_texts tk') = Suc (length (tk_step_texts t)) \<and> tk_n_evaluations tk' = tk_n_evaluations t"
      by (cases rule: update_cases) simp_all
    with Cons.IH [of tk'] tracker_inv_step [OF Cons.prems, of p] p run show ?case by simp
  qed simp
  have n: "tk_n_evaluations tk = n_evaluations" "length (tk_step_texts tk) = length ops"
    using texts [OF tk0(1), of ops] tk0 assms(2) by simp_all
  from assms(3) have r: "r = \<lparr>pg_steps = tk_steps tk, pg_scores = tk_scores tk,
      pg_reps = map (\<lambda>r. map (\<lambda>i. tk_reps tk ! i ! r) [0..<length (tk_steps tk)]) [0..<nat (tk_n_evaluations tk)]\<rparr>"
    by (auto simp: tracker_result_def split: if_splits)
  have len: "length (tk_reps tk) = length (tk_steps tk)" "length (tk_scores tk) = length (tk_steps tk)"
    and sc: "tk_scores tk = map mean_or_half (tk_reps tk)"
    and rows: "\<And>i. i < length (tk_reps tk) \<Longrightarrow> length (tk_reps tk ! i) = nat (tk_n_evaluations tk) \<and> list_all unit_or_none (tk_reps tk ! i)"
    using inv by (auto simp: tracker_inv_def list_all_length)
  have "map (\<lambda>r. tk_reps tk ! i ! r) [0..<nat (tk_n_evaluations tk)] = tk_reps tk ! i" if "i < length (tk_reps tk)" for i
    using rows [OF that] by (metis map_nth)
  then have "tk_scores tk ! i = mean_or_half (map (\<lambda>row. row ! i) (pg_reps r))" if "i < length (tk_steps tk)" for i
    using that len by (simp add: r sc comp_def)
  moreover have "list_all (\<lambda>s. 0 \<le> s \<and> s \<le> 1) (tk_scores tk)"
    unfolding sc using rows mean_or_half_unit by (simp add: list_all_length)
  ultimately show ?thesis using inv n len by (simp add: r tracker_inv_def)
qed

lemma ex_updates:
  assumes "tk_n_evaluations tk = 1"
  shows "tk_steps (snd (update step n ex_ask tk)) = tk_steps tk @ [int (Suc (length (tk_step_texts tk)))]"
    "length (tk_step_texts (snd (update step n ask tk))) = Suc (length (tk_step_texts tk))"
    "tk_n_evaluations (snd (update step n ask tk)) = 1"
    "tk_steps (snd (update step n (\<lambda>q i. Inl e) tk)) = tk_steps tk"
  using assms by (simp_all add: update_def run_reps_def ex_ask_def Let_def bindR_def split: sum.split)

theorem tracker_stays_consistent_witness:
  "\<exists>tk0 tk r. make_tracker ''p'' 0 1 8 (Inr ()) = Inr tk0 \<and> tk = foldl tracker_step tk0 [Update ''a'' 0 ex_ask, Update ''b'' 1 (\<lambda>q i. Inl IndexError), Update ''c'' 0 ex_ask] \<and>
     tracker_result tk = Inr r \<and> pg_steps r = [1, 3] \<and> sorted_wrt (<) (pg_steps r)"
proof -
  obtain tk0 where tk0: "make_tracker ''p'' 0 1 8 (Inr ()) = Inr tk0" and n: "tk_n_evaluations tk0 = 1"
    and e: "tk_steps tk0 = []" "tk_step_texts tk0 = []" by (simp add: make_tracker_def)
  define tk where "tk = foldl tracker_step tk0 [Update ''a'' 0 ex_ask, Update ''b'' 1 (\<lambda>q i. Inl IndexError), Update ''c'' 0 ex_ask]"
  have steps: "tk_steps tk = [1, 3]" unfolding tk_def foldl_Cons foldl_Nil tracker_step.simps by (simp add: ex_updates n e)
  then obtain r where r: "tracker_result tk = Inr r" "pg_steps r = [1, 3]" by (simp add: tracker_result_def)
  from tracker_stays_consistent [OF tk0 tk_def r(1)] have "sorted_wrt (<) (pg_steps r)" by blast
  with tk0 tk_def r show ?thesis by blast
qed

text \<open>
  a reply in the requested format reads back as it was meant: without logprobs, the scores of a
  reply that has one tagged scale letter per checkpoint, in order, are the values of those letters,
  however many checkpoints there are.
\<close>

theorem formatted_reply_reads_back:
  assumes "\<forall>l \<in> set ls. letter_value l \<noteq> None"
  shows "extract_progress_scores (reply_of ls) [] lps (length ls) = map letter_value ls"
proof -
  have "search_letter (tag_of (i + 1)) (closing_tag (i + 1)) (reply_of ls) = letter_value (ls ! i)" if "i < length ls" for i
    using search_reply [OF assms that, of 0] by (simp add: reply_of_def)
  then have s1: "map (\<lambda>i. or_else (map (\<lambda>i. if ([] :: string list) \<noteq> [] \<and> lps \<noteq> [] then score_from_logprobs [] lps i else None) [1..<length ls + 1] ! (i - 1))
      (search_letter (tag_of i) (closing_tag i) (reply_of ls))) [1..<length ls + 1] = map letter_value ls"
    by (intro nth_equalityI) (auto simp: or_else_def simp del: upt_Suc)
  have "None \<notin> set (map letter_value ls)" using assms by force
  then show ?thesis unfolding extract_progress_scores_def Let_def s1 by simp
qed

theorem formatted_reply_reads_back_witness:
  "extract_progress_scores (reply_of ''At'') [] [] 2 = [Some 0, Some 1]"
proof -
  have "\<forall>l \<in> set ''At''. letter_value l \<noteq> None" by (simp add: letter_value_def)
  from formatted_reply_reads_back [OF this, of "[]"] show ?thesis by (simp add: letter_value_def numeral_2_eq_2)
qed

end
