(* ===== verification/Prompts.thy ===== *)
theory Prompts
  imports Score_Cache Py_Values
begin

text \<open>
  The evaluation criteria of \<^verbatim>\<open>llm_verifier/prompts.py\<close>: identifiers slugged from names and kept
  distinct, the normalisation of criteria given in code, and the parser of criteria files. The file
  itself is an argument; the messages of the errors are abbreviated.
\<close>

section \<open>Identifiers\<close>

definition strip_chars :: "(char \<Rightarrow> bool) \<Rightarrow> string \<Rightarrow> string" where
  \<comment> \<open>\<open>s.strip(chars)\<close>\<close>
  "strip_chars P s = rev (dropWhile P (rev (dropWhile P s)))"

definition slug_char :: "char \<Rightarrow> bool" where
  "slug_char c \<longleftrightarrow> (let n = of_char c :: nat in (97 \<le> n \<and> n \<le> 122) \<or> is_digit c)"

fun underscore_runs :: "bool \<Rightarrow> string \<Rightarrow> string" where
  \<comment> \<open>\<open>re.sub("[^a-z0-9]+", "_", s)\<close>; the flag says that the last character was replaced\<close>
  "underscore_runs in_run [] = []"
| "underscore_runs in_run (c # cs) =
     (if slug_char c then c # underscore_runs False cs
      else if in_run then underscore_runs True cs
      else CHR ''_'' # underscore_runs True cs)"

definition slug :: "string \<Rightarrow> string" where
  "slug txt =
     (let s = strip_chars (\<lambda>c. c = CHR ''_'') (underscore_runs False (lower txt));
          t = rev (dropWhile (\<lambda>c. c = CHR ''_'') (rev (take 40 s)))
      in if t = [] then ''criterion'' else t)"

definition numbered :: "string \<Rightarrow> nat \<Rightarrow> string" where
  "numbered cid n = cid @ ''_'' @ show_nat n"

lemma numbered_inj [simp]: "numbered cid m = numbered cid n \<longleftrightarrow> m = n"
  by (simp add: numbered_def)

lemma finite_numbered: "finite {m. n < m \<and> numbered cid m \<in> set seen}"
proof -
  have "inj (numbered cid)" by (simp add: inj_def)
  then have "finite (numbered cid -` set seen)" by (simp add: finite_vimageI)
  then show ?thesis by (rule finite_subset [rotated]) auto
qed

function next_id :: "string \<Rightarrow> string list \<Rightarrow> nat \<Rightarrow> string" where
  \<comment> \<open>the loop of \<open>_dedup_id\<close>, entered when the candidate of \<open>n\<close> is taken\<close>
  "next_id cid seen n =
     (let out = numbered cid (n + 1) in if out \<in> set seen then next_id cid seen (n + 1) else out)"
  by pat_completeness auto
termination
proof (relation "measure (\<lambda>(cid, seen, n). card {m. n < m \<and> numbered cid m \<in> set seen})")
  fix cid :: string and seen :: "string list" and n out
  assume "out = numbered cid (n + 1)" and "out \<in> set seen"
  then have "{m. n + 1 < m \<and> numbered cid m \<in> set seen} \<subset> {m. n < m \<and> numbered cid m \<in> set seen}" by auto
  then show "((cid, seen, n + 1), cid, seen, n) \<in> measure (\<lambda>(cid, seen, n). card {m. n < m \<and> numbered cid m \<in> set seen})"
    using finite_numbered by (simp add: psubset_card_mono)
qed simp

declare next_id.simps [simp del]

definition dedup_id :: "string \<Rightarrow> string list \<Rightarrow> string \<times> string list" where
  "dedup_id cid seen = (let out = (if cid \<in> set seen then next_id cid seen 1 else cid) in (out, out # seen))"

section \<open>Criteria given in code\<close>

definition str_field :: "(pyval \<Rightarrow> string) \<Rightarrow> (string \<times> pyval) list \<Rightarrow> string \<Rightarrow> string" where
  \<comment> \<open>\<open>str(raw.get(key) or "")\<close>\<close>
  "str_field other d key = (case dget d key of None \<Rightarrow> [] | Some v \<Rightarrow> if py_truth v then py_str other v else [])"

definition read_criterion :: "(pyval \<Rightarrow> string) \<Rightarrow> pyval \<Rightarrow> (string \<times> string \<times> string) res" where
  "read_criterion other raw =
     (case raw of
        PStr s \<Rightarrow> Inr ([], s, s)
      | PDict d \<Rightarrow> Inr (str_field other d ''id'', str_field other d ''name'', str_field other d ''description'')
      | _ \<Rightarrow> Inl (TypeError (''criteria must be a str or dict, got '' @ type_name raw)))"

fun normalize_items :: "(pyval \<Rightarrow> string) \<Rightarrow> pyval list \<Rightarrow> string list \<Rightarrow> criterion list res" where
  "normalize_items other [] seen = Inr []"
| "normalize_items other (raw # rest) seen =
     bindR (read_criterion other raw) (\<lambda>(cid, name, desc).
       if desc = [] then Inl (ValueError ''criteria entry is missing a description'')
       else let name' = (if name \<noteq> [] then name else if cid \<noteq> [] then cid else slug desc);
                (out, seen') = dedup_id (if cid \<noteq> [] then cid else slug name') seen
            in bindR (normalize_items other rest seen') (\<lambda>cs.
                 Inr (\<lparr>crit_id = out, crit_name = name', crit_desc = desc\<rparr> # cs)))"

definition normalize_criteria :: "(pyval \<Rightarrow> string) \<Rightarrow> pyval \<Rightarrow> criterion list res" where
  "normalize_criteria other criteria =
     bindR (case criteria of
              PDict d \<Rightarrow> Inr (map (\<lambda>(name, desc). PDict [(''name'', PStr name), (''description'', desc)]) d)
            | _ \<Rightarrow> py_list criteria) (\<lambda>items.
     bindR (normalize_items other items []) (\<lambda>out.
       if out = [] then Inl (ValueError ''criteria is empty'') else Inr out))"

definition select_criteria :: "criterion list \<Rightarrow> string list \<Rightarrow> criterion list res" where
  "select_criteria criteria ids =
     (if ids = [] then Inr criteria
      else let by_id = foldl (\<lambda>d c. dset (crit_id c) c d) [] criteria;
               missing = filter (\<lambda>cid. dget by_id cid = None) ids
           in if missing \<noteq> [] then Inl (KeyError ''criteria not found in prompt file'')
              else Inr (map (\<lambda>cid. the (dget by_id cid)) ids))"

section \<open>Criteria files\<close>

fun after_first :: "string \<Rightarrow> string \<Rightarrow> string option" where
  \<comment> \<open>what follows the first occurrence of a non-empty text\<close>
  "after_first p [] = None"
| "after_first p (c # cs) = (if starts_with (c # cs) p then Some (drop (length p) (c # cs)) else after_first p cs)"

lemma after_first_shorter: "after_first p s = Some t \<Longrightarrow> length t \<le> length s"
  by (induction p s rule: after_first.induct) (auto split: if_splits)

function (sequential) strip_comments :: "string \<Rightarrow> string" where
  \<comment> \<open>\<open>_HTML_COMMENT.sub("", s)\<close>\<close>
  "strip_comments [] = []"
| "strip_comments (c # cs) =
     (case (if starts_with (c # cs) ''<!--'' then after_first ''-->'' (drop 3 cs) else None) of
        Some rest \<Rightarrow> strip_comments rest
      | None \<Rightarrow> c # strip_comments cs)"
  by pat_completeness auto
termination
  by (relation "measure length") (auto dest!: after_first_shorter split: if_splits)

definition id_char :: "char \<Rightarrow> bool" where
  "id_char c \<longleftrightarrow> (let n = of_char c :: nat in
     (65 \<le> n \<and> n \<le> 90) \<or> (97 \<le> n \<and> n \<le> 122) \<or> is_digit c \<or> c = CHR ''_'' \<or> c = CHR ''-'')"

definition match_crit_id :: "string \<Rightarrow> (string \<times> string) option" where
  \<comment> \<open>\<open>_CRIT_ID.match\<close> on one line: a name and \<open>{#id}\<close> at the end\<close>
  "match_crit_id heading =
     (case rev (rstrip heading) of
        [] \<Rightarrow> None
      | b # r \<Rightarrow>
          let cid = rev (takeWhile id_char r); before = rev (dropWhile id_char r)
          in if b = CHR 0x7D \<and> cid \<noteq> [] \<and> ends_with before [CHR 0x7B, CHR ''#'']
             then Some (strip (take (length before - 2) before), cid) else None)"

datatype section_kind = GroundTruth | Criteria

record prompt_parse =
  pr_note :: string
  pr_criteria :: "criterion list"
  pr_seen :: "string list"
  pr_section :: "section_kind option"
  pr_cur :: "(string \<times> string) option" \<comment> \<open>identifier and name of the open criterion\<close>
  pr_buf :: "string list"

definition flush :: "prompt_parse \<Rightarrow> prompt_parse" where
  "flush st =
     (let txt = strip (join [CHR 0x0A] (pr_buf st));
          st1 = (if pr_section st = Some GroundTruth \<and> pr_note st = [] then st\<lparr>pr_note := txt\<rparr>
                 else case pr_cur st of
                        None \<Rightarrow> st
                      | Some (cid, name) \<Rightarrow>
                          st\<lparr>pr_criteria := pr_criteria st @ [\<lparr>crit_id = cid, crit_name = name, crit_desc = txt\<rparr>], pr_cur := None\<rparr>)
      in st1\<lparr>pr_buf := []\<rparr>)"

definition section_of :: "string \<Rightarrow> section_kind option" where
  "section_of heading =
     (if contains heading ''ground truth'' then Some GroundTruth
      else if contains heading ''criteri'' then Some Criteria
      else None)"

definition prompt_line :: "prompt_parse \<Rightarrow> string \<Rightarrow> prompt_parse" where
  "prompt_line st line =
     (if starts_with line ''## '' \<and> \<not> starts_with line ''### '' then
        (flush st)\<lparr>pr_section := section_of (lower (strip (drop 3 line)))\<rparr>
      else if starts_with line ''### '' \<and> pr_section st = Some Criteria then
        let st1 = flush st; heading = strip (drop 4 line);
            (name, cid) = (case match_crit_id heading of Some (n, i) \<Rightarrow> (n, i) | None \<Rightarrow> (heading, slug heading));
            (out, seen') = dedup_id cid (pr_seen st1)
        in st1\<lparr>pr_cur := Some (out, name), pr_seen := seen'\<rparr>
      else if starts_with line ''# '' then st
      else st\<lparr>pr_buf := pr_buf st @ [line]\<rparr>)"

definition empty_parse :: prompt_parse where
  "empty_parse = \<lparr>pr_note = [], pr_criteria = [], pr_seen = [], pr_section = None, pr_cur = None, pr_buf = []\<rparr>"

definition load_prompts :: "string \<Rightarrow> (string \<times> criterion list) res" where
  \<comment> \<open>the argument is what \<open>_read_criteria\<close> returned\<close>
  "load_prompts content =
     (let st = flush (foldl prompt_line empty_parse (splitlines (strip_comments content)))
      in if pr_criteria st = [] then Inl (ValueError ''no criteria found'')
         else if list_ex (\<lambda>c. crit_desc c = []) (pr_criteria st) then Inl (ValueError ''criteria have empty instructions'')
         else Inr (pr_note st, pr_criteria st))"

section \<open>Fresh identifiers\<close>

lemma next_id_fresh: "next_id cid seen n \<notin> set seen"
proof (induction cid seen n rule: next_id.induct)
  case (1 cid seen n)
  then show ?case by (subst next_id.simps) (simp add: Let_def)
qed

lemma next_id_least:
  "\<exists>m. n < m \<and> next_id cid seen n = numbered cid m \<and> (\<forall>k. n < k \<and> k < m \<longrightarrow> numbered cid k \<in> set seen)"
proof (induction cid seen n rule: next_id.induct)
  case (1 cid seen n)
  show ?case
  proof (cases "numbered cid (n + 1) \<in> set seen")
    case True
    with 1 obtain m where m: "n + 1 < m" "next_id cid seen (n + 1) = numbered cid m"
      "\<forall>k. n + 1 < k \<and> k < m \<longrightarrow> numbered cid k \<in> set seen" by auto
    have "numbered cid k \<in> set seen" if "n < k" "k < m" for k
      using that m(3) True by (cases "k = n + 1") auto
    with m True show ?thesis by (subst next_id.simps) (auto simp: Let_def)
  next
    case False
    then have "next_id cid seen n = numbered cid (n + 1)" by (subst next_id.simps) (simp add: Let_def)
    then show ?thesis by (intro exI [of _ "n + 1"]) auto
  qed
qed

lemma dedup_id_fresh: "dedup_id cid seen = (out, seen') \<Longrightarrow> out \<notin> set seen \<and> seen' = out # seen"
  using next_id_fresh by (auto simp: dedup_id_def Let_def split: if_splits)

lemma dedup_id_nonempty: "dedup_id cid seen = (out, seen') \<Longrightarrow> cid \<noteq> [] \<Longrightarrow> out \<noteq> []"
  using next_id_least [of 1 cid seen] by (auto simp: dedup_id_def Let_def numbered_def split: if_splits)

lemma dedup_id_unused [simp]: "cid \<notin> set seen \<Longrightarrow> dedup_id cid seen = (cid, cid # seen)"
  by (simp add: dedup_id_def)

lemma slug_nonempty [simp]: "slug s \<noteq> []"
  by (simp add: slug_def Let_def)

definition criterion_ok :: "criterion \<Rightarrow> bool" where
  "criterion_ok c \<longleftrightarrow> crit_id c \<noteq> [] \<and> crit_name c \<noteq> [] \<and> crit_desc c \<noteq> []"

lemma normalize_items_ok:
  "normalize_items other items seen = Inr cs \<Longrightarrow>
    distinct (map crit_id cs) \<and> set (map crit_id cs) \<inter> set seen = {} \<and> list_all criterion_ok cs \<and> length cs = length items"
proof (induction other items seen arbitrary: cs rule: normalize_items.induct)
  case (2 other raw rest seen)
  obtain r where r: "read_criterion other raw = Inr r" using 2(2) by (auto simp: bindR_Inr_iff)
  obtain cid name desc where p: "r = (cid, name, desc)" by (cases r)
  define nm where "nm = (if name \<noteq> [] then name else if cid \<noteq> [] then cid else slug desc)"
  obtain out seen' where d: "dedup_id (if cid \<noteq> [] then cid else slug nm) seen = (out, seen')"
    by (cases "dedup_id (if cid \<noteq> [] then cid else slug nm) seen")
  from 2(2) r p d obtain cs' where desc: "desc \<noteq> []" and rest: "normalize_items other rest seen' = Inr cs'"
    and cs: "cs = \<lparr>crit_id = out, crit_name = nm, crit_desc = desc\<rparr> # cs'"
    by (auto simp: bindR_Inr_iff nm_def [symmetric] split: if_splits)
  have IH: "distinct (map crit_id cs') \<and> set (map crit_id cs') \<inter> set seen' = {} \<and> list_all criterion_ok cs' \<and> length cs' = length rest"
    by (rule 2(1) [OF desc nm_def refl d [symmetric] rest])
  have "out \<noteq> []" using dedup_id_nonempty [OF d] by (simp split: if_splits)
  moreover have "nm \<noteq> []" by (simp add: nm_def)
  ultimately have "criterion_ok \<lparr>crit_id = out, crit_name = nm, crit_desc = desc\<rparr>" using desc by (simp add: criterion_ok_def)
  with IH dedup_id_fresh [OF d] cs show ?case by auto
qed simp

lemma normalize_criteria_ok:
  assumes "normalize_criteria other v = Inr cs"
  shows "cs \<noteq> [] \<and> distinct (map crit_id cs) \<and> list_all criterion_ok cs"
proof -
  from assms obtain items where items: "normalize_items other items [] = Inr cs" and "cs \<noteq> []"
    unfolding normalize_criteria_def by (auto simp: bindR_Inr_iff split: if_splits)
  with normalize_items_ok [OF items] show ?thesis by simp
qed

definition parse_inv :: "prompt_parse \<Rightarrow> bool" where
  "parse_inv st \<longleftrightarrow> distinct (map crit_id (pr_criteria st) @ (case pr_cur st of None \<Rightarrow> [] | Some (i, n) \<Rightarrow> [i])) \<and>
     set (map crit_id (pr_criteria st) @ (case pr_cur st of None \<Rightarrow> [] | Some (i, n) \<Rightarrow> [i])) \<subseteq> set (pr_seen st) \<and>
     (pr_section st \<noteq> Some Criteria \<longrightarrow> pr_cur st = None)"

lemma parse_inv_flush: "parse_inv st \<Longrightarrow> parse_inv (flush st) \<and> pr_cur (flush st) = None \<and> pr_section (flush st) = pr_section st"
  by (cases "pr_cur st") (auto simp: parse_inv_def flush_def Let_def image_subset_iff)

lemma parse_inv_line: "parse_inv st \<Longrightarrow> parse_inv (prompt_line st line)"
proof -
  assume inv: "parse_inv st"
  note fl = parse_inv_flush [OF inv]
  let ?h = "strip (drop 4 line)"
  obtain name cid where n: "(case match_crit_id ?h of Some (n, i) \<Rightarrow> (n, i) | None \<Rightarrow> (?h, slug ?h)) = (name, cid)"
    by (cases "case match_crit_id ?h of Some (n, i) \<Rightarrow> (n, i) | None \<Rightarrow> (?h, slug ?h)")
  obtain out seen' where d: "dedup_id cid (pr_seen (flush st)) = (out, seen')" by (cases "dedup_id cid (pr_seen (flush st))")
  have a: "parse_inv ((flush st)\<lparr>pr_section := s\<rparr>)" for s using fl by (auto simp: parse_inv_def)
  have b: "parse_inv ((flush st)\<lparr>pr_cur := Some (out, name), pr_seen := seen'\<rparr>)" if "pr_section st = Some Criteria"
    using fl dedup_id_fresh [OF d] that by (auto simp: parse_inv_def)
  have c: "parse_inv (st\<lparr>pr_buf := b\<rparr>)" for b using inv by (simp add: parse_inv_def)
  show ?thesis unfolding prompt_line_def Let_def n prod.case d using a b c inv by simp
qed

interpretation parser: op_machine prompt_line parse_inv empty_parse
  by unfold_locales (simp add: parse_inv_def empty_parse_def, rule parse_inv_line)

lemma load_prompts_ok:
  assumes "load_prompts content = Inr (note, cs)"
  shows "cs \<noteq> [] \<and> distinct (map crit_id cs) \<and> list_all (\<lambda>c. crit_desc c \<noteq> []) cs"
proof -
  let ?st = "flush (foldl prompt_line empty_parse (splitlines (strip_comments content)))"
  have "parse_inv ?st" using parse_inv_flush parser.inv_run by blast
  with assms show ?thesis
    by (auto simp: load_prompts_def Let_def parse_inv_def list_ex_iff list_all_iff split: if_splits)
qed

section \<open>Printing\<close>

definition brace_id :: "string \<Rightarrow> string" where
  "brace_id cid = [CHR 0x7B, CHR ''#''] @ cid @ [CHR 0x7D]"

definition criterion_lines :: "criterion \<Rightarrow> string list" where
  "criterion_lines c = (''### '' @ crit_name c @ '' '' @ brace_id (crit_id c)) # splitlines (crit_desc c)"

definition prompt_lines :: "string \<Rightarrow> criterion list \<Rightarrow> string list" where
  \<comment> \<open>a criteria file with explicit identifiers\<close>
  "prompt_lines note cs = [''## Ground Truth Note''] @ splitlines note @ [''## Criteria''] @ concat (map criterion_lines cs)"

definition prompt_text :: "string \<Rightarrow> criterion list \<Rightarrow> string" where
  "prompt_text note cs = concat (map (\<lambda>l. l @ [CHR 0x0A]) (prompt_lines note cs))"

definition body_ok :: "string \<Rightarrow> bool" where
  \<comment> \<open>a text of its own: no surrounding blanks, lines ended by newlines only, none of them a heading\<close>
  "body_ok d \<longleftrightarrow> strip d = d \<and> join [CHR 0x0A] (splitlines d) = d \<and>
     list_all (\<lambda>l. \<not> starts_with l ''# '' \<and> \<not> starts_with l ''## '' \<and> \<not> starts_with l ''### '') (splitlines d)"

definition printable :: "criterion \<Rightarrow> bool" where
  "printable c \<longleftrightarrow> one_line (crit_name c) \<and> crit_name c \<noteq> [] \<and> crit_id c \<noteq> [] \<and> list_all id_char (crit_id c) \<and>
     crit_desc c \<noteq> [] \<and> body_ok (crit_desc c)"

lemma strip_comments_none: "\<not> contains s ''<!--'' \<Longrightarrow> strip_comments s = s"
proof (induction s rule: strip_comments.induct)
  case (2 c cs)
  have "\<not> starts_with (c # cs) ''<!--''"
  proof
    assume "starts_with (c # cs) ''<!--''"
    then have "contains (c # cs) ''<!--''" unfolding starts_with_iff contains_iff by (metis append_Nil)
    with 2(3) show False by simp
  qed
  moreover have "\<not> contains cs ''<!--''" using 2(3) unfolding contains_iff by (metis append_Cons)
  ultimately show ?case using 2(1,2) by simp
qed simp

lemma id_char_plain: "id_char c \<Longrightarrow> \<not> is_line_end c \<and> \<not> py_space c \<and> c \<noteq> CHR ''#''"
  by (auto simp: id_char_def is_line_end_def py_space_def is_digit_def Let_def)

lemma heading_strip:
  assumes "one_line n" and "n \<noteq> []"
  shows "strip (n @ '' '' @ brace_id cid) = n @ '' '' @ brace_id cid"
  using assms unfolding strip_id_iff one_line_def by (auto simp: brace_id_def py_space_def)

lemma match_heading:
  assumes "one_line n" and "n \<noteq> []" and "cid \<noteq> []" and "list_all id_char cid"
  shows "match_crit_id (n @ '' '' @ brace_id cid) = Some (n, cid)"
proof -
  have r: "rstrip (n @ '' '' @ brace_id cid) = n @ '' '' @ brace_id cid"
    by (rule rstrip_id) (simp add: brace_id_def py_space_def)
  have rv: "rev (n @ '' '' @ brace_id cid) = CHR 0x7D # rev cid @ [CHR ''#'', CHR 0x7B, CHR '' ''] @ rev n"
    by (simp add: brace_id_def)
  have ids: "\<And>c. c \<in> set (rev cid) \<Longrightarrow> id_char c" using assms(4) by (simp add: list_all_iff)
  have nh: "\<not> id_char CHR ''#''" by (simp add: id_char_def is_digit_def)
  have "takeWhile id_char (rev cid @ ys) = rev cid @ takeWhile id_char ys" "dropWhile id_char (rev cid @ ys) = dropWhile id_char ys" for ys
    by (rule takeWhile_append2, rule ids, assumption) (rule dropWhile_append2, rule ids, assumption)
  then have tk: "takeWhile id_char (rev cid @ [CHR ''#'', CHR 0x7B, CHR '' ''] @ rev n) = rev cid"
    "dropWhile id_char (rev cid @ [CHR ''#'', CHR 0x7B, CHR '' ''] @ rev n) = [CHR ''#'', CHR 0x7B, CHR '' ''] @ rev n"
    using nh by simp_all
  have "rev ([CHR ''#'', CHR 0x7B, CHR '' ''] @ rev n) = (n @ '' '') @ [CHR 0x7B, CHR ''#'']" by simp
  moreover have "strip (n @ '' '') = n"
  proof -
    have "\<not> py_space (hd n)" "\<not> py_space (last n)" using assms(1,2) unfolding one_line_def strip_id_iff by auto
    then have "lstrip (n @ '' '') = n @ '' ''" "rstrip n = n" using assms(2) by (auto intro: lstrip_id rstrip_id)
    moreover have "rstrip (n @ '' '') = rstrip n" by (simp add: rstrip_def py_space_def)
    ultimately show ?thesis by (simp add: strip_def)
  qed
  ultimately show ?thesis
    unfolding match_crit_id_def r rv list.case Let_def tk using assms(3) by (simp add: ends_with_def)
qed

lemma body_fold:
  assumes "list_all (\<lambda>l. \<not> starts_with l ''# '' \<and> \<not> starts_with l ''## '' \<and> \<not> starts_with l ''### '') ls"
  shows "foldl prompt_line st ls = st\<lparr>pr_buf := pr_buf st @ ls\<rparr>"
  using assms by (induction ls arbitrary: st) (simp_all add: prompt_line_def)

lemma heading_line:
  assumes "printable c" and "pr_section st = Some Criteria" and "crit_id c \<notin> set (pr_seen st)"
  shows "prompt_line st (''### '' @ crit_name c @ '' '' @ brace_id (crit_id c)) =
    (flush st)\<lparr>pr_cur := Some (crit_id c, crit_name c), pr_seen := crit_id c # pr_seen (flush st)\<rparr>"
proof -
  let ?h = "crit_name c @ '' '' @ brace_id (crit_id c)"
  have h: "strip ?h = ?h" "match_crit_id ?h = Some (crit_name c, crit_id c)"
    using assms(1) by (intro heading_strip match_heading; simp add: printable_def)+
  have seen: "pr_seen (flush st) = pr_seen st" by (cases "pr_cur st") (auto simp: flush_def Let_def)
  have s: "\<not> starts_with (''### '' @ ?h) ''## ''" "starts_with (''### '' @ ?h) ''### ''" "drop 4 (''### '' @ ?h) = ?h"
    by (simp_all add: starts_with_def)
  show ?thesis
    unfolding prompt_line_def s(3) h Let_def option.case prod.case using assms(2,3) s(1,2) seen by simp
qed

lemma flush_criterion:
  assumes "pr_section st = Some Criteria" and "pr_cur st = Some (cid, name)" and "strip (join [CHR 0x0A] (pr_buf st)) = d"
  shows "flush st = st\<lparr>pr_criteria := pr_criteria st @ [\<lparr>crit_id = cid, crit_name = name, crit_desc = d\<rparr>], pr_cur := None, pr_buf := []\<rparr>"
  using assms by (simp add: flush_def Let_def)

lemma criteria_fold:
  assumes "list_all printable cs" and "distinct (map crit_id cs)" and "set (map crit_id cs) \<inter> set (pr_seen st) = {}"
    and "pr_section st = Some Criteria"
  shows "pr_criteria (flush (foldl prompt_line st (concat (map criterion_lines cs)))) = pr_criteria (flush st) @ cs \<and>
    pr_note (flush (foldl prompt_line st (concat (map criterion_lines cs)))) = pr_note (flush st)"
  using assms
proof (induction cs arbitrary: st)
  case (Cons c cs)
  let ?ls = "splitlines (crit_desc c)"
  let ?st1 = "(flush st)\<lparr>pr_cur := Some (crit_id c, crit_name c), pr_seen := crit_id c # pr_seen (flush st)\<rparr>"
  let ?st2 = "?st1\<lparr>pr_buf := ?ls\<rparr>"
  have fl: "pr_section (flush st) = Some Criteria" "pr_seen (flush st) = pr_seen st" "pr_buf (flush st) = []"
    using Cons.prems(4) by (cases "pr_cur st"; auto simp: flush_def Let_def)+
  have pc: "printable c" using Cons.prems by simp
  then have body: "strip (crit_desc c) = crit_desc c" "join [CHR 0x0A] ?ls = crit_desc c"
    "list_all (\<lambda>l. \<not> starts_with l ''# '' \<and> \<not> starts_with l ''## '' \<and> \<not> starts_with l ''### '') ?ls"
    by (simp_all add: printable_def body_ok_def)
  have run: "foldl prompt_line st (criterion_lines c) = ?st2"
    unfolding criterion_lines_def using heading_line [OF pc Cons.prems(4)] Cons.prems(3) body_fold [OF body(3), of ?st1] fl(3) by simp
  have f2: "flush ?st2 = ?st2\<lparr>pr_criteria := pr_criteria (flush st) @ [c], pr_cur := None, pr_buf := []\<rparr>"
    by (subst flush_criterion [where cid = "crit_id c" and name = "crit_name c" and d = "crit_desc c"]) (use fl body in simp_all)
  have "pr_criteria (flush (foldl prompt_line ?st2 (concat (map criterion_lines cs)))) = pr_criteria (flush ?st2) @ cs \<and>
      pr_note (flush (foldl prompt_line ?st2 (concat (map criterion_lines cs)))) = pr_note (flush ?st2)"
    by (rule Cons.IH) (use Cons.prems fl in auto)
  then show ?case using run f2 by simp
qed simp

lemma headings:
  "prompt_line empty_parse ''## Ground Truth Note'' = empty_parse\<lparr>pr_section := Some GroundTruth\<rparr>"
  "pr_cur st = None \<Longrightarrow> pr_section st = Some GroundTruth \<Longrightarrow> pr_note st = [] \<Longrightarrow> prompt_line st ''## Criteria'' =
    st\<lparr>pr_note := strip (join [CHR 0x0A] (pr_buf st)), pr_buf := [], pr_section := Some Criteria\<rparr>"
proof -
  have s: "section_of (lower (strip (drop 3 ''## Ground Truth Note''))) = Some GroundTruth"
    "section_of (lower (strip (drop 3 ''## Criteria''))) = Some Criteria" by code_simp+
  have f: "flush empty_parse = empty_parse" by (simp add: flush_def empty_parse_def strip_def lstrip_def rstrip_def)
  show "prompt_line empty_parse ''## Ground Truth Note'' = empty_parse\<lparr>pr_section := Some GroundTruth\<rparr>"
    unfolding prompt_line_def s f by (simp add: starts_with_def)
  assume "pr_cur st = None" "pr_section st = Some GroundTruth" "pr_note st = []"
  then have "flush st = st\<lparr>pr_note := strip (join [CHR 0x0A] (pr_buf st)), pr_buf := []\<rparr>" by (simp add: flush_def Let_def)
  then show "prompt_line st ''## Criteria'' =
    st\<lparr>pr_note := strip (join [CHR 0x0A] (pr_buf st)), pr_buf := [], pr_section := Some Criteria\<rparr>"
    unfolding prompt_line_def s by (simp add: starts_with_def)
qed

lemma load_printed:
  assumes "list_all printable cs" and "distinct (map crit_id cs)" and "cs \<noteq> []" and "body_ok note"
    and "\<not> contains (prompt_text note cs) ''<!--''"
  shows "load_prompts (prompt_text note cs) = Inr (note, cs)"
proof -
  let ?gt = "empty_parse\<lparr>pr_section := Some GroundTruth, pr_buf := splitlines note\<rparr>"
  let ?st = "?gt\<lparr>pr_note := note, pr_buf := [], pr_section := Some Criteria\<rparr>"
  have plain: "list_all (list_all (\<lambda>c. \<not> is_line_end c)) (prompt_lines note cs)"
  proof -
    have "list_all (\<lambda>c. \<not> is_line_end c) l" if "c \<in> set cs" "l \<in> set (criterion_lines c)" for c l
    proof -
      from that(1) assms(1) have "printable c" by (simp add: list_all_iff)
      then have "list_all (\<lambda>c. \<not> is_line_end c) (''### '' @ crit_name c @ '' '' @ brace_id (crit_id c))"
        using id_char_plain by (auto simp: printable_def one_line_def brace_id_def list_all_iff is_line_end_def)
      with that(2) splitlines_plain show ?thesis by (auto simp: criterion_lines_def)
    qed
    moreover have "list_all (\<lambda>c. \<not> is_line_end c) ''## Ground Truth Note''" "list_all (\<lambda>c. \<not> is_line_end c) ''## Criteria''"
      by code_simp+
    ultimately show ?thesis
      unfolding prompt_lines_def list_all_append using splitlines_plain [where s = "note"] by (auto simp: list_all_iff)
  qed
  have lines: "splitlines (strip_comments (prompt_text note cs)) = prompt_lines note cs"
    using strip_comments_none [OF assms(5)] splitlines_lines [OF plain] by (simp add: prompt_text_def)
  have nt: "strip (join [CHR 0x0A] (splitlines note)) = note"
    "list_all (\<lambda>l. \<not> starts_with l ''# '' \<and> \<not> starts_with l ''## '' \<and> \<not> starts_with l ''### '') (splitlines note)"
    using assms(4) by (simp_all add: body_ok_def)
  have gt: "foldl prompt_line (empty_parse\<lparr>pr_section := Some GroundTruth\<rparr>) (splitlines note) = ?gt"
    using body_fold [OF nt(2)] by (simp add: empty_parse_def)
  have "prompt_line ?gt ''## Criteria'' = ?st"
    by (subst headings(2)) (use nt in \<open>simp_all add: empty_parse_def\<close>)
  then have run: "foldl prompt_line empty_parse (prompt_lines note cs) = foldl prompt_line ?st (concat (map criterion_lines cs))"
    unfolding prompt_lines_def foldl_append foldl_Cons foldl_Nil headings(1) gt by simp
  have "pr_criteria (flush ?st) = []" "pr_note (flush ?st) = note" by (simp_all add: flush_def empty_parse_def)
  then have "pr_criteria (flush (foldl prompt_line empty_parse (prompt_lines note cs))) = cs"
    "pr_note (flush (foldl prompt_line empty_parse (prompt_lines note cs))) = note"
    unfolding run using criteria_fold [OF assms(1,2), of ?st] by (simp_all add: empty_parse_def)
  moreover have "\<not> list_ex (\<lambda>c. crit_desc c = []) cs" using assms(1) by (auto simp: list_ex_iff list_all_iff printable_def)
  ultimately show ?thesis using assms(3) by (simp add: load_prompts_def lines)
qed

section \<open>Properties\<close>

text \<open>
  criteria always come out well formed, however they were given: at least one, with distinct
  identifiers (on which the score cache relies) and no empty instruction.
\<close>

theorem criteria_ids_are_distinct:
  assumes "normalize_criteria other v = Inr cs \<or> (\<exists>content note. load_prompts content = Inr (note, cs))"
  shows "cs \<noteq> [] \<and> distinct (map crit_id cs) \<and> list_all (\<lambda>c. crit_desc c \<noteq> []) cs"
  using assms normalize_criteria_ok load_prompts_ok by (fastforce simp: criterion_ok_def list_all_iff)

theorem criteria_ids_are_distinct_witness:
  "distinct (map crit_id [\<lparr>crit_id = ''a_b'', crit_name = ''A b'', crit_desc = ''x''\<rparr>,
     \<lparr>crit_id = ''a_b_2'', crit_name = ''a-B'', crit_desc = ''y''\<rparr>])"
proof -
  have "normalize_criteria (\<lambda>v. []) (PDict [(''A b'', PStr ''x''), (''a-B'', PStr ''y'')]) =
    Inr [\<lparr>crit_id = ''a_b'', crit_name = ''A b'', crit_desc = ''x''\<rparr>,
      \<lparr>crit_id = ''a_b_2'', crit_name = ''a-B'', crit_desc = ''y''\<rparr>]"
    by code_simp
  from criteria_ids_are_distinct [OF disjI1, OF this] show ?thesis by blast
qed

text \<open>
  C39: the search for a free identifier ends, whatever was used before: it returns the identifier
  itself when it is unused, and otherwise the one with the least number from 2 on that is.
\<close>

theorem dedup_finds_the_first_free_id:
  assumes "dedup_id cid seen = (out, seen')"
  shows "out \<notin> set seen \<and> seen' = out # seen \<and> (if cid \<notin> set seen then out = cid
    else \<exists>m \<ge> 2. out = numbered cid m \<and> (\<forall>k. 2 \<le> k \<and> k < m \<longrightarrow> numbered cid k \<in> set seen))"
proof (cases "cid \<in> set seen")
  case True
  with assms have out: "out = next_id cid seen 1" by (simp add: dedup_id_def Let_def)
  obtain m where "1 < m" "next_id cid seen 1 = numbered cid m" "\<forall>k. 1 < k \<and> k < m \<longrightarrow> numbered cid k \<in> set seen"
    using next_id_least by blast
  then have "\<exists>m \<ge> 2. out = numbered cid m \<and> (\<forall>k. 2 \<le> k \<and> k < m \<longrightarrow> numbered cid k \<in> set seen)"
    unfolding out by (intro exI [of _ m]) auto
  with True dedup_id_fresh [OF assms] show ?thesis by simp
next
  case False
  with assms dedup_id_fresh [OF assms] show ?thesis by (simp add: dedup_id_def)
qed

theorem dedup_finds_the_first_free_id_witness:
  "''x_4'' \<notin> set [''x_2'', ''x_3'', ''x'']"
proof -
  have "dedup_id ''x'' [''x_2'', ''x_3'', ''x''] = (''x_4'', [''x_4'', ''x_2'', ''x_3'', ''x''])" by code_simp
  from dedup_finds_the_first_free_id [OF this] show ?thesis by blast
qed

text \<open>
  C40: a criteria file reads back what it was written from: the parser returns the note and the
  criteria, with their names, identifiers and instructions, of every file printed from criteria
  with distinct explicit identifiers and proper texts.
\<close>

theorem criteria_file_round_trips:
  assumes "list_all printable cs" and "distinct (map crit_id cs)" and "cs \<noteq> []" and "body_ok note"
    and "\<not> contains (prompt_text note cs) ''<!--''"
  shows "load_prompts (prompt_text note cs) = Inr (note, cs)"
  using assms by (rule load_printed)

definition ex_criteria :: "criterion list" where
  "ex_criteria = [\<lparr>crit_id = ''c1'', crit_name = ''Code'', crit_desc = ''is it'' @ [CHR 0x0A] @ ''right''\<rparr>,
     \<lparr>crit_id = ''C-2'', crit_name = ''Tests'', crit_desc = ''run?''\<rparr>]"

theorem criteria_file_round_trips_witness:
  "load_prompts (prompt_text ''Trust output.'' ex_criteria) = Inr (''Trust output.'', ex_criteria)"
proof (rule criteria_file_round_trips)
  show "list_all printable ex_criteria" "\<not> contains (prompt_text ''Trust output.'' ex_criteria) ''<!--''"
    "body_ok ''Trust output.''" by code_simp+
qed (simp_all add: ex_criteria_def)

end
