(* ===== verification/Best_Of_N_Config.thy ===== *)
theory Best_Of_N_Config
  imports Prompts
begin

text \<open>
  The configuration of best-of-N runs in \<^verbatim>\<open>codify/best_of_n.py\<close>: proposers, verifier settings, how
  a block of the YAML configuration is read, merged and written back, and the command and
  environment of a proposal. The default criteria (four paragraphs of prose) and the text of floats
  and containers under \<open>str\<close> are arguments.
\<close>

section \<open>Settings\<close>

definition deepseek_base_url :: string where
  "deepseek_base_url = ''https://api.deepseek.com/v1''"

record proposer_spec =
  po_harness :: string
  po_enabled :: bool
  po_count :: int
  po_model :: "pyval option"
  po_command :: "pyval list option"
  po_env :: "(string, pyval) pydict"

record verifier_settings =
  vs_model :: string
  vs_base_url :: string
  vs_api_key_env :: string
  vs_api_key :: "pyval option"
  vs_n_evaluations :: int
  vs_pivots :: int
  vs_seed :: int
  vs_max_workers :: int
  vs_on_error :: string

record best_of_n_config =
  cf_proposers :: "proposer_spec list"
  cf_proposal_model :: string
  cf_criteria :: "(string, string) pydict"
  cf_verifier :: verifier_settings
  cf_timeout :: real
  cf_keep_branches :: bool

definition plain_proposer :: "string \<Rightarrow> proposer_spec" where
  "plain_proposer harness = \<lparr>po_harness = harness, po_enabled = True, po_count = 1, po_model = None,
     po_command = None, po_env = []\<rparr>"

definition default_verifier :: verifier_settings where
  "default_verifier = \<lparr>vs_model = ''deepseek-v4-flash'', vs_base_url = deepseek_base_url,
     vs_api_key_env = ''DEEPSEEK_API_KEY'', vs_api_key = None, vs_n_evaluations = 4, vs_pivots = 2, vs_seed = 0,
     vs_max_workers = 16, vs_on_error = ''tie''\<rparr>"

definition default_config :: "(string, string) pydict \<Rightarrow> best_of_n_config" where
  "default_config criteria =
     \<lparr>cf_proposers = [plain_proposer ''claude'', plain_proposer ''codex'', plain_proposer ''pi''],
      cf_proposal_model = ''deepseek/deepseek-v4-flash'', cf_criteria = criteria, cf_verifier = default_verifier,
      cf_timeout = 900, cf_keep_branches = False\<rparr>"

section \<open>Reading\<close>

definition get_or :: "(string \<times> pyval) list \<Rightarrow> string \<Rightarrow> pyval \<Rightarrow> pyval" where
  \<comment> \<open>\<open>d.get(k, v)\<close>\<close>
  "get_or d k v = (case dget d k of None \<Rightarrow> v | Some x \<Rightarrow> x)"

definition truthy :: "(string \<times> pyval) list \<Rightarrow> string \<Rightarrow> pyval option" where
  \<comment> \<open>\<open>d.get(k) or None\<close>\<close>
  "truthy d k = (case dget d k of None \<Rightarrow> None | Some v \<Rightarrow> if py_truth v then Some v else None)"

fun pair_of :: "pyval \<Rightarrow> (string \<times> pyval) res" where
  "pair_of (PList [PStr k, v]) = Inr (k, v)"
| "pair_of (PStr [a, b]) = Inr ([a], PStr [b])"
| "pair_of v = Inl (ValueError ''dictionary update sequence element'')"

definition py_dict :: "pyval \<Rightarrow> (string, pyval) pydict res" where
  \<comment> \<open>\<open>dict(v)\<close>, keys that are no strings set apart\<close>
  "py_dict v =
     (case v of
        PDict d \<Rightarrow> Inr d
      | _ \<Rightarrow> bindR (py_list v) (\<lambda>xs. bindR (first_error (map pair_of xs)) (\<lambda>ps. Inr (dupdate [] ps))))"

definition parse_proposer :: "(pyval \<Rightarrow> string) \<Rightarrow> pyval \<Rightarrow> proposer_spec option res" where
  "parse_proposer other entry =
     (case entry of
        PDict d \<Rightarrow>
          (case dget d ''harness'' of
             None \<Rightarrow> Inr None
           | Some hv \<Rightarrow>
               bindR (py_int (get_or d ''count'' (PInt 1))) (\<lambda>n.
               bindR (case truthy d ''command'' of None \<Rightarrow> Inr None | Some v \<Rightarrow> bindR (py_list v) (\<lambda>xs. Inr (Some xs))) (\<lambda>cmd.
               bindR (case truthy d ''env'' of None \<Rightarrow> Inr [] | Some v \<Rightarrow> py_dict v) (\<lambda>env.
               Inr (Some \<lparr>po_harness = py_str other hv, po_enabled = py_truth (get_or d ''enabled'' (PBool True)),
                 po_count = max 1 n, po_model = truthy d ''model'', po_command = cmd, po_env = env\<rparr>)))))
      | _ \<Rightarrow> Inr None)"

fun parse_proposers :: "(pyval \<Rightarrow> string) \<Rightarrow> pyval list \<Rightarrow> proposer_spec list res" where
  "parse_proposers other [] = Inr []"
| "parse_proposers other (entry # rest) =
     bindR (parse_proposer other entry) (\<lambda>p.
     bindR (parse_proposers other rest) (\<lambda>ps.
     Inr (case p of None \<Rightarrow> ps | Some q \<Rightarrow> q # ps)))"

definition failure_mode :: "pyval option \<Rightarrow> string \<Rightarrow> string" where
  "failure_mode given old =
     (case given of Some (PStr s) \<Rightarrow> if s = ''tie'' \<or> s = ''raise'' then s else old | _ \<Rightarrow> old)"

definition parse_verifier :: "(pyval \<Rightarrow> string) \<Rightarrow> (string \<times> pyval) list \<Rightarrow> verifier_settings \<Rightarrow> verifier_settings res" where
  "parse_verifier other d v =
     bindR (py_int (get_or d ''n_evaluations'' (PInt (vs_n_evaluations v)))) (\<lambda>n.
     bindR (py_int (get_or d ''pivots'' (PInt (vs_pivots v)))) (\<lambda>k.
     bindR (py_int (get_or d ''seed'' (PInt (vs_seed v)))) (\<lambda>seed.
     bindR (py_int (get_or d ''max_workers'' (PInt (vs_max_workers v)))) (\<lambda>workers.
     Inr \<lparr>vs_model = py_str other (get_or d ''model'' (PStr (vs_model v))),
          vs_base_url = py_str other (get_or d ''base_url'' (PStr (vs_base_url v))),
          vs_api_key_env = py_str other (get_or d ''api_key_env'' (PStr (vs_api_key_env v))),
          vs_api_key = truthy d ''api_key'', vs_n_evaluations = max 1 n, vs_pivots = max 1 k, vs_seed = seed,
          vs_max_workers = max 1 workers,
          vs_on_error = failure_mode (dget d ''on_error'') (vs_on_error v)\<rparr>))))"

definition to_float :: "pyval \<Rightarrow> real res" where
  \<comment> \<open>\<open>float(v)\<close>\<close>
  "to_float v =
     (case py_float v of
        Some r \<Rightarrow> Inr r
      | None \<Rightarrow> (case v of PStr s \<Rightarrow> Inl (ValueError ''could not convert string to float'')
                 | _ \<Rightarrow> Inl (TypeError ''float() argument'')))"

definition from_dict :: "(pyval \<Rightarrow> string) \<Rightarrow> (string, string) pydict \<Rightarrow> pyval \<Rightarrow> best_of_n_config res" where
  "from_dict other criteria raw =
     (let cfg = default_config criteria
      in case raw of
           PDict d \<Rightarrow>
             bindR (case dget d ''proposers'' of Some (PList ps) \<Rightarrow> parse_proposers other ps | _ \<Rightarrow> Inr []) (\<lambda>parsed.
             bindR (case dget d ''verifier'' of Some (PDict vd) \<Rightarrow> parse_verifier other vd (cf_verifier cfg)
                    | _ \<Rightarrow> Inr (cf_verifier cfg)) (\<lambda>ver.
             bindR (case dget d ''proposal_timeout_s'' of Some v \<Rightarrow> to_float v | None \<Rightarrow> Inr (cf_timeout cfg)) (\<lambda>timeout.
             Inr \<lparr>cf_proposers = (if parsed \<noteq> [] then parsed else cf_proposers cfg),
                  cf_proposal_model = (case dget d ''proposal_model'' of Some (PStr s) \<Rightarrow> s | _ \<Rightarrow> cf_proposal_model cfg),
                  cf_criteria = (case dget d ''criteria'' of
                     Some (PDict cd) \<Rightarrow> if cd \<noteq> [] then map (\<lambda>(k, v). (k, py_str other v)) cd else cf_criteria cfg
                   | _ \<Rightarrow> cf_criteria cfg),
                  cf_verifier = ver, cf_timeout = timeout,
                  cf_keep_branches = (case dget d ''keep_proposal_branches'' of Some v \<Rightarrow> py_truth v | None \<Rightarrow> cf_keep_branches cfg)\<rparr>)))
         | _ \<Rightarrow> Inr cfg)"

definition load_config :: "(pyval \<Rightarrow> string) \<Rightarrow> (string, string) pydict \<Rightarrow> pyval option \<Rightarrow> pyval option \<Rightarrow> best_of_n_config res" where
  \<comment> \<open>the \<open>best_of_n\<close> blocks of the global and of the local configuration, the local one winning per key\<close>
  "load_config other criteria global_block local_block =
     from_dict other criteria (PDict (foldl (\<lambda>merged block. case block of Some (PDict d) \<Rightarrow> dupdate merged d | _ \<Rightarrow> merged)
       [] [global_block, local_block]))"

section \<open>Writing\<close>

definition opt_val :: "pyval option \<Rightarrow> pyval" where
  "opt_val x = (case x of None \<Rightarrow> PNone | Some v \<Rightarrow> v)"

definition proposer_dict :: "proposer_spec \<Rightarrow> pyval" where
  "proposer_dict p = PDict
     [(''harness'', PStr (po_harness p)), (''enabled'', PBool (po_enabled p)), (''count'', PInt (po_count p)),
      (''model'', opt_val (po_model p)), (''command'', opt_val (map_option PList (po_command p))), (''env'', PDict (po_env p))]"

definition verifier_dict :: "verifier_settings \<Rightarrow> pyval" where
  "verifier_dict v = PDict
     [(''model'', PStr (vs_model v)), (''base_url'', PStr (vs_base_url v)), (''api_key_env'', PStr (vs_api_key_env v)),
      (''api_key'', opt_val (vs_api_key v)), (''n_evaluations'', PInt (vs_n_evaluations v)), (''pivots'', PInt (vs_pivots v)),
      (''seed'', PInt (vs_seed v)), (''max_workers'', PInt (vs_max_workers v)), (''on_error'', PStr (vs_on_error v))]"

definition to_dict :: "best_of_n_config \<Rightarrow> pyval" where
  "to_dict c = PDict
     [(''proposers'', PList (map proposer_dict (cf_proposers c))), (''proposal_model'', PStr (cf_proposal_model c)),
      (''criteria'', PDict (map (\<lambda>(k, v). (k, PStr v)) (cf_criteria c))), (''verifier'', verifier_dict (cf_verifier c)),
      (''proposal_timeout_s'', PFloat (cf_timeout c)), (''keep_proposal_branches'', PBool (cf_keep_branches c))]"

definition save_config :: "best_of_n_config \<Rightarrow> (string, pyval) pydict \<Rightarrow> (string, pyval) pydict" where
  \<comment> \<open>the new content of the configuration file\<close>
  "save_config config existing = dset ''best_of_n'' (to_dict config) existing"

section \<open>Commands\<close>

definition prompt_hole :: string where "prompt_hole = [CHR 0x7B] @ ''prompt'' @ [CHR 0x7D]"
definition model_hole :: string where "model_hole = [CHR 0x7B] @ ''model'' @ [CHR 0x7D]"

definition harness_commands :: "(string, string list) pydict" where
  "harness_commands =
     [(''claude'', [''claude'', ''-p'', prompt_hole, ''--dangerously-skip-permissions'', ''--output-format'', ''stream-json'', ''--verbose'']),
      (''codex'', [''codex'', ''exec'', ''--sandbox'', ''workspace-write'', ''--skip-git-repo-check'', prompt_hole]),
      (''pi'', [''pi'', ''-p'', prompt_hole, ''--mode'', ''json''])]"

definition harness_model_args :: "(string, string list) pydict" where
  "harness_model_args =
     [(''claude'', [''--model'', model_hole]), (''codex'', [''-m'', model_hole]), (''pi'', [''--model'', model_hole])]"

definition gateway_model_harnesses :: "string list" where
  "gateway_model_harnesses = [''pi'']"

definition harness_availability :: "(string \<Rightarrow> bool) \<Rightarrow> string \<Rightarrow> bool" where
  \<comment> \<open>\<open>available.get(name, False)\<close>; each harness's binary has its own name\<close>
  "harness_availability which name \<longleftrightarrow> name \<in> {''claude'', ''codex'', ''pi''} \<and> which name"

definition fill_model :: "pyval \<Rightarrow> string \<Rightarrow> string res" where
  \<comment> \<open>\<open>arg.replace("{model}", model)\<close>\<close>
  "fill_model model a =
     (case model of PStr m \<Rightarrow> Inr (replace_all model_hole m a) | _ \<Rightarrow> Inl (TypeError ''replace() argument 2 must be str''))"

definition fill :: "string \<Rightarrow> pyval \<Rightarrow> pyval \<Rightarrow> string res" where
  \<comment> \<open>\<open>arg.replace("{prompt}", prompt).replace("{model}", model)\<close>\<close>
  "fill prompt model arg =
     (case arg of
        PStr a \<Rightarrow> fill_model model (replace_all prompt_hole prompt a)
      | _ \<Rightarrow> Inl (OtherError ''AttributeError''))"

definition proposal_model :: "proposer_spec \<Rightarrow> string \<Rightarrow> pyval" where
  "proposal_model spec default_model =
     (case po_model spec of
        Some m \<Rightarrow>
          if py_truth m then m
          else if po_harness spec \<in> set gateway_model_harnesses \<or> po_command spec \<noteq> None then PStr default_model
          else PStr []
      | None \<Rightarrow>
          if po_harness spec \<in> set gateway_model_harnesses \<or> po_command spec \<noteq> None then PStr default_model
          else PStr [])"

definition build_command :: "proposer_spec \<Rightarrow> string \<Rightarrow> string \<Rightarrow> string list res" where
  "build_command spec prompt default_model =
     (let model = proposal_model spec default_model
      in bindR (case po_command spec of
                  Some (c # cs) \<Rightarrow> Inr (c # cs)
                | _ \<Rightarrow> (case dget harness_commands (po_harness spec) of
                          None \<Rightarrow> Inl (KeyError (po_harness spec))
                        | Some args \<Rightarrow> Inr (map PStr args))) (\<lambda>template.
         bindR (first_error (map (fill prompt model) template)) (\<lambda>argv.
           if po_command spec = None \<and> py_truth model
           then bindR (first_error (map (fill_model model)
                  (case dget harness_model_args (po_harness spec) of None \<Rightarrow> [] | Some args \<Rightarrow> args))) (\<lambda>extra. Inr (argv @ extra))
           else Inr argv)))"

definition proposal_env :: "(string, string) pydict \<Rightarrow> proposer_spec \<Rightarrow> best_of_n_config \<Rightarrow> (string, pyval) pydict" where
  \<comment> \<open>\<open>environ\<close> is the environment of the server\<close>
  "proposal_env environ spec config =
     (let env = dupdate (map (\<lambda>(k, v). (k, PStr v)) environ) (po_env spec);
          key_env = vs_api_key_env (cf_verifier config);
          key = (case truthy env key_env of Some k \<Rightarrow> Some k | None \<Rightarrow> vs_api_key (cf_verifier config))
      in case key of None \<Rightarrow> env | Some k \<Rightarrow> if py_truth k then dset key_env k env else env)"

section \<open>Facts\<close>

definition spec_ok :: "proposer_spec \<Rightarrow> bool" where
  "spec_ok p \<longleftrightarrow> 1 \<le> po_count p \<and> (case po_model p of None \<Rightarrow> True | Some m \<Rightarrow> py_truth m) \<and> po_command p \<noteq> Some []"

definition config_ok :: "best_of_n_config \<Rightarrow> bool" where
  "config_ok c \<longleftrightarrow> cf_proposers c \<noteq> [] \<and> list_all spec_ok (cf_proposers c) \<and> cf_criteria c \<noteq> [] \<and>
     1 \<le> vs_n_evaluations (cf_verifier c) \<and> 1 \<le> vs_pivots (cf_verifier c) \<and> 1 \<le> vs_max_workers (cf_verifier c) \<and>
     vs_on_error (cf_verifier c) \<in> {''tie'', ''raise''} \<and>
     (case vs_api_key (cf_verifier c) of None \<Rightarrow> True | Some k \<Rightarrow> py_truth k)"

lemma truthy_true: "truthy d k = Some v \<Longrightarrow> py_truth v"
  by (auto simp: truthy_def split: option.splits if_splits)

lemma truthy_opt: "(case truthy d k of None \<Rightarrow> True | Some v \<Rightarrow> py_truth v)"
  using truthy_true by (auto split: option.split)

lemma py_list_nonempty: "py_list v = Inr xs \<Longrightarrow> py_truth v \<Longrightarrow> xs \<noteq> []"
  by (cases v) (auto simp: py_list_def)

lemma parse_proposer_Some:
  assumes "parse_proposer other entry = Inr (Some p)"
  obtains d n where "(case truthy d ''command'' of None \<Rightarrow> Inr None | Some v \<Rightarrow> bindR (py_list v) (\<lambda>xs. Inr (Some xs))) = (Inr (po_command p) :: pyval list option res)"
    "po_model p = truthy d ''model''" "po_count p = max 1 n"
proof -
  obtain d where d: "entry = PDict d" using assms by (cases entry) (simp_all add: parse_proposer_def)
  obtain hv where hv: "dget d ''harness'' = Some hv"
    using assms unfolding parse_proposer_def d pyval.case by (cases "dget d ''harness''") simp_all
  obtain n cmd env where n: "(case truthy d ''command'' of None \<Rightarrow> Inr None | Some v \<Rightarrow> bindR (py_list v) (\<lambda>xs. Inr (Some xs))) = (Inr cmd :: pyval list option res)"
    and p: "Inr (Some \<lparr>po_harness = py_str other hv, po_enabled = py_truth (get_or d ''enabled'' (PBool True)),
      po_count = max 1 n, po_model = truthy d ''model'', po_command = cmd, po_env = env\<rparr>) = (Inr (Some p) :: proposer_spec option res)"
    using assms unfolding parse_proposer_def d pyval.case hv option.case bindR_Inr_iff by blast
  from p have "po_command p = cmd" "po_model p = truthy d ''model''" "po_count p = max 1 n" by auto
  with n show thesis using that by blast
qed

lemma parse_proposer_ok:
  assumes "parse_proposer other entry = Inr (Some p)"
  shows "spec_ok p"
proof (rule parse_proposer_Some [OF assms])
  fix d n
  assume cmd: "(case truthy d ''command'' of None \<Rightarrow> Inr None | Some v \<Rightarrow> bindR (py_list v) (\<lambda>xs. Inr (Some xs))) = (Inr (po_command p) :: pyval list option res)"
    and p: "po_model p = truthy d ''model''" "po_count p = max 1 n"
  have "po_command p \<noteq> Some []"
  proof (cases "truthy d ''command''")
    case (Some v)
    with cmd py_list_nonempty truthy_true [OF Some] show ?thesis by (auto simp: bindR_Inr_iff)
  qed (use cmd in auto)
  with p show ?thesis using truthy_opt [of d "''model''"] by (simp add: spec_ok_def)
qed

lemma parse_proposers_ok: "parse_proposers other entries = Inr ps \<Longrightarrow> list_all spec_ok ps"
proof (induction entries arbitrary: ps)
  case (Cons e es)
  then obtain p qs where "parse_proposer other e = Inr p" "parse_proposers other es = Inr qs"
    "ps = (case p of None \<Rightarrow> qs | Some q \<Rightarrow> q # qs)" by (auto simp: bindR_Inr_iff)
  with Cons.IH parse_proposer_ok show ?case by (cases p) auto
qed simp

lemma plain_ok [simp]: "spec_ok (plain_proposer h)"
  by (simp add: spec_ok_def plain_proposer_def)

lemma failure_mode_ok: "old \<in> {''tie'', ''raise''} \<Longrightarrow> failure_mode given old \<in> {''tie'', ''raise''}"
  by (simp add: failure_mode_def split: option.split pyval.split)

lemma parse_verifier_ok:
  assumes "parse_verifier other d v = Inr w" and "vs_on_error v \<in> {''tie'', ''raise''}"
  shows "1 \<le> vs_n_evaluations w \<and> 1 \<le> vs_pivots w \<and> 1 \<le> vs_max_workers w \<and> vs_on_error w \<in> {''tie'', ''raise''} \<and>
    (case vs_api_key w of None \<Rightarrow> True | Some k \<Rightarrow> py_truth k)"
proof -
  obtain n k seed workers model url env where w: "w = \<lparr>vs_model = model, vs_base_url = url, vs_api_key_env = env, vs_api_key = truthy d ''api_key'',
      vs_n_evaluations = max 1 n, vs_pivots = max 1 k, vs_seed = seed, vs_max_workers = max 1 workers,
      vs_on_error = failure_mode (dget d ''on_error'') (vs_on_error v)\<rparr>"
    using assms(1) unfolding parse_verifier_def bindR_Inr_iff by blast
  show ?thesis
    unfolding w verifier_settings.simps
    using truthy_opt [of d "''api_key''"] failure_mode_ok [OF assms(2), of "dget d ''on_error''"] by simp
qed

lemma from_dict_ok:
  assumes "criteria \<noteq> []" and "from_dict other criteria raw = Inr c"
  shows "config_ok c"
proof -
  have dv: "vs_on_error default_verifier \<in> {''tie'', ''raise''}" by (simp add: default_verifier_def)
  have def: "config_ok (default_config criteria)"
    using assms(1) by (simp add: config_ok_def default_config_def default_verifier_def)
  show ?thesis
  proof (cases "\<exists>d. raw = PDict d")
    case False
    with assms(2) def show ?thesis by (cases raw) (auto simp: from_dict_def)
  next
    case True
    then obtain d where raw: "raw = PDict d" by blast
    let ?cfg = "default_config criteria"
    obtain parsed ver timeout where
      p: "(case dget d ''proposers'' of Some (PList ps) \<Rightarrow> parse_proposers other ps | _ \<Rightarrow> Inr []) = Inr parsed"
      and v: "(case dget d ''verifier'' of Some (PDict vd) \<Rightarrow> parse_verifier other vd (cf_verifier ?cfg) | _ \<Rightarrow> Inr (cf_verifier ?cfg)) = Inr ver"
      and c: "c = \<lparr>cf_proposers = (if parsed \<noteq> [] then parsed else cf_proposers ?cfg),
                  cf_proposal_model = (case dget d ''proposal_model'' of Some (PStr s) \<Rightarrow> s | _ \<Rightarrow> cf_proposal_model ?cfg),
                  cf_criteria = (case dget d ''criteria'' of
                     Some (PDict cd) \<Rightarrow> if cd \<noteq> [] then map (\<lambda>(k, v). (k, py_str other v)) cd else cf_criteria ?cfg
                   | _ \<Rightarrow> cf_criteria ?cfg),
                  cf_verifier = ver, cf_timeout = timeout,
                  cf_keep_branches = (case dget d ''keep_proposal_branches'' of Some v \<Rightarrow> py_truth v | None \<Rightarrow> cf_keep_branches ?cfg)\<rparr>"
      using assms(2) unfolding from_dict_def Let_def raw pyval.case bindR_Inr_iff by blast
    have "list_all spec_ok parsed" using p parse_proposers_ok by (auto split: option.splits pyval.splits)
    moreover have "1 \<le> vs_n_evaluations ver \<and> 1 \<le> vs_pivots ver \<and> 1 \<le> vs_max_workers ver \<and> vs_on_error ver \<in> {''tie'', ''raise''} \<and>
        (case vs_api_key ver of None \<Rightarrow> True | Some k \<Rightarrow> py_truth k)"
    proof (cases "\<exists>vd. dget d ''verifier'' = Some (PDict vd)")
      case True
      then obtain vd where "dget d ''verifier'' = Some (PDict vd)" by blast
      with v have "parse_verifier other vd default_verifier = Inr ver" by (simp add: default_config_def)
      from parse_verifier_ok [OF this dv] show ?thesis .
    next
      case False
      with v have "ver = default_verifier" by (auto simp: default_config_def split: option.splits pyval.splits)
      with def show ?thesis by (simp add: config_ok_def default_config_def)
    qed
    moreover have "cf_criteria c \<noteq> []" using assms(1) unfolding c by (auto simp: default_config_def split: option.split pyval.split)
    moreover have "list_all spec_ok (cf_proposers c)" "cf_proposers c \<noteq> []"
      using \<open>list_all spec_ok parsed\<close> unfolding c by (auto simp: default_config_def)
    ultimately show ?thesis unfolding config_ok_def by (simp add: c)
  qed
qed

lemma from_dict_unchecked:
  assumes "from_dict other criteria raw = Inr c"
  shows "\<forall>d. raw = PDict d \<longrightarrow>
    (case dget d ''proposal_timeout_s'' of None \<Rightarrow> cf_timeout c = cf_timeout (default_config criteria) | Some v \<Rightarrow> to_float v = Inr (cf_timeout c)) \<and>
    cf_proposal_model c = (case dget d ''proposal_model'' of Some (PStr s) \<Rightarrow> s | _ \<Rightarrow> cf_proposal_model (default_config criteria)) \<and>
    (\<forall>vd. dget d ''verifier'' = Some (PDict vd) \<longrightarrow>
       vs_model (cf_verifier c) = py_str other (get_or vd ''model'' (PStr (vs_model default_verifier))))"
proof (intro allI impI)
  fix d assume raw: "raw = PDict d"
  let ?cfg = "default_config criteria"
  obtain parsed ver timeout where
    v: "(case dget d ''verifier'' of Some (PDict vd) \<Rightarrow> parse_verifier other vd (cf_verifier ?cfg) | _ \<Rightarrow> Inr (cf_verifier ?cfg)) = Inr ver"
    and t: "(case dget d ''proposal_timeout_s'' of Some v \<Rightarrow> to_float v | None \<Rightarrow> Inr (cf_timeout ?cfg)) = Inr timeout"
    and c: "c = \<lparr>cf_proposers = (if parsed \<noteq> [] then parsed else cf_proposers ?cfg),
                  cf_proposal_model = (case dget d ''proposal_model'' of Some (PStr s) \<Rightarrow> s | _ \<Rightarrow> cf_proposal_model ?cfg),
                  cf_criteria = (case dget d ''criteria'' of
                     Some (PDict cd) \<Rightarrow> if cd \<noteq> [] then map (\<lambda>(k, v). (k, py_str other v)) cd else cf_criteria ?cfg
                   | _ \<Rightarrow> cf_criteria ?cfg),
                  cf_verifier = ver, cf_timeout = timeout,
                  cf_keep_branches = (case dget d ''keep_proposal_branches'' of Some v \<Rightarrow> py_truth v | None \<Rightarrow> cf_keep_branches ?cfg)\<rparr>"
    using assms unfolding from_dict_def Let_def raw pyval.case bindR_Inr_iff by blast
  have "vs_model ver = py_str other (get_or vd ''model'' (PStr (vs_model default_verifier)))" if "dget d ''verifier'' = Some (PDict vd)" for vd
    using v that unfolding parse_verifier_def by (auto simp: bindR_Inr_iff default_config_def)
  then show "(case dget d ''proposal_timeout_s'' of None \<Rightarrow> cf_timeout c = cf_timeout ?cfg | Some v \<Rightarrow> to_float v = Inr (cf_timeout c)) \<and>
    cf_proposal_model c = (case dget d ''proposal_model'' of Some (PStr s) \<Rightarrow> s | _ \<Rightarrow> cf_proposal_model ?cfg) \<and>
    (\<forall>vd. dget d ''verifier'' = Some (PDict vd) \<longrightarrow>
       vs_model (cf_verifier c) = py_str other (get_or vd ''model'' (PStr (vs_model default_verifier))))"
    using t unfolding c by (auto split: option.splits)
qed

lemma parse_proposer_dict: "spec_ok p \<Longrightarrow> parse_proposer other (proposer_dict p) = Inr (Some p)"
proof -
  assume ok: "spec_ok p"
  let ?d = "[(''harness'', PStr (po_harness p)), (''enabled'', PBool (po_enabled p)), (''count'', PInt (po_count p)),
      (''model'', opt_val (po_model p)), (''command'', opt_val (map_option PList (po_command p))), (''env'', PDict (po_env p))]"
  have m: "truthy ?d ''model'' = po_model p"
    using ok by (cases "po_model p") (simp_all add: truthy_def opt_val_def spec_ok_def)
  have c: "truthy ?d ''command'' = map_option PList (po_command p)"
    using ok by (cases "po_command p") (simp_all add: truthy_def opt_val_def spec_ok_def)
  have e: "(case truthy ?d ''env'' of None \<Rightarrow> Inr [] | Some v \<Rightarrow> py_dict v) = (Inr (po_env p) :: (string, pyval) pydict res)"
    by (simp add: truthy_def py_dict_def)
  have n: "py_int (get_or ?d ''count'' (PInt 1)) = Inr (po_count p)" "max 1 (po_count p) = po_count p"
    "py_truth (get_or ?d ''enabled'' (PBool True)) = po_enabled p" "dget ?d ''harness'' = Some (PStr (po_harness p))"
    using ok by (simp_all add: get_or_def spec_ok_def)
  have cmd: "(case map_option PList (po_command p) of None \<Rightarrow> Inr None | Some v \<Rightarrow> bindR (py_list v) (\<lambda>xs. Inr (Some xs))) =
      (Inr (po_command p) :: pyval list option res)"
    by (cases "po_command p") (simp_all add: py_list_def)
  show ?thesis
    unfolding parse_proposer_def proposer_dict_def pyval.case n(4) option.case n(1) bindR_simps m c cmd e n(2,3) py_str.simps by simp
qed

lemma parse_verifier_dict:
  assumes "1 \<le> vs_n_evaluations w" "1 \<le> vs_pivots w" "1 \<le> vs_max_workers w" "vs_on_error w \<in> {''tie'', ''raise''}"
    and "case vs_api_key w of None \<Rightarrow> True | Some k \<Rightarrow> py_truth k" and "verifier_dict w = PDict d"
  shows "parse_verifier other d v = Inr w"
proof -
  have d: "d = [(''model'', PStr (vs_model w)), (''base_url'', PStr (vs_base_url w)), (''api_key_env'', PStr (vs_api_key_env w)),
      (''api_key'', opt_val (vs_api_key w)), (''n_evaluations'', PInt (vs_n_evaluations w)), (''pivots'', PInt (vs_pivots w)),
      (''seed'', PInt (vs_seed w)), (''max_workers'', PInt (vs_max_workers w)), (''on_error'', PStr (vs_on_error w))]"
    using assms(6) by (simp add: verifier_dict_def)
  have k: "truthy d ''api_key'' = vs_api_key w"
    using assms(5) by (cases "vs_api_key w") (simp_all add: d truthy_def opt_val_def)
  have g: "get_or d ''n_evaluations'' x = PInt (vs_n_evaluations w)" "get_or d ''pivots'' x = PInt (vs_pivots w)"
    "get_or d ''seed'' x = PInt (vs_seed w)" "get_or d ''max_workers'' x = PInt (vs_max_workers w)"
    "get_or d ''model'' x = PStr (vs_model w)" "get_or d ''base_url'' x = PStr (vs_base_url w)"
    "get_or d ''api_key_env'' x = PStr (vs_api_key_env w)" "dget d ''on_error'' = Some (PStr (vs_on_error w))" for x
    by (simp_all add: d get_or_def)
  show ?thesis unfolding parse_verifier_def g k using assms(1-4) by (auto simp: failure_mode_def)
qed

lemma parse_proposers_dict: "list_all spec_ok ps \<Longrightarrow> parse_proposers other (map proposer_dict ps) = Inr ps"
  by (induction ps) (simp_all add: parse_proposer_dict)

lemma from_to_dict:
  assumes "config_ok c"
  shows "from_dict other criteria (to_dict c) = Inr c"
proof -
  obtain vd where vd: "verifier_dict (cf_verifier c) = PDict vd" by (simp add: verifier_dict_def)
  let ?d = "[(''proposers'', PList (map proposer_dict (cf_proposers c))), (''proposal_model'', PStr (cf_proposal_model c)),
      (''criteria'', PDict (map (\<lambda>(k, v). (k, PStr v)) (cf_criteria c))), (''verifier'', PDict vd),
      (''proposal_timeout_s'', PFloat (cf_timeout c)), (''keep_proposal_branches'', PBool (cf_keep_branches c))]"
  have td: "to_dict c = PDict ?d" by (simp add: to_dict_def vd)
  have g: "dget ?d ''proposers'' = Some (PList (map proposer_dict (cf_proposers c)))" "dget ?d ''verifier'' = Some (PDict vd)"
    "dget ?d ''proposal_timeout_s'' = Some (PFloat (cf_timeout c))" "dget ?d ''proposal_model'' = Some (PStr (cf_proposal_model c))"
    "dget ?d ''criteria'' = Some (PDict (map (\<lambda>(k, v). (k, PStr v)) (cf_criteria c)))"
    "dget ?d ''keep_proposal_branches'' = Some (PBool (cf_keep_branches c))" by simp_all
  have p: "parse_proposers other (map proposer_dict (cf_proposers c)) = Inr (cf_proposers c)" "cf_proposers c \<noteq> []"
    using assms parse_proposers_dict by (simp_all add: config_ok_def)
  have v: "parse_verifier other vd (cf_verifier (default_config criteria)) = Inr (cf_verifier c)"
    by (rule parse_verifier_dict [OF _ _ _ _ _ vd]) (use assms in \<open>simp_all add: config_ok_def\<close>)
  have t: "to_float (PFloat (cf_timeout c)) = Inr (cf_timeout c)" by (simp add: to_float_def)
  have cr: "map (\<lambda>(k, v). (k, py_str other v)) (map (\<lambda>(k, v). (k, PStr v)) (cf_criteria c)) = cf_criteria c"
    "map (\<lambda>(k, v). (k, PStr v)) (cf_criteria c) \<noteq> []"
    using assms by (auto simp: config_ok_def comp_def split_def)
  show ?thesis
    unfolding from_dict_def Let_def td pyval.case g option.case p(1) v t bindR_simps py_truth.simps cr(1)
    using p(2) cr(2) by simp
qed

section \<open>Properties\<close>

text \<open>
  C38: reading a configuration raises or gives one with these guarantees, whatever the file holds: there
  is a proposer, each with a count of at least one, no empty model and no empty command; there is a
  criterion; the verifier's evaluations, pivots and workers are at least one, its failure mode is \<open>tie\<close> or
  \<open>raise\<close> and its key is absent or not empty. Writing the configuration back and reading it again gives it
  unchanged. Nothing else is checked: the timeout is the file's number, negative ones included, and the
  model names of the block and of the verifier are the file's, an empty one included.
\<close>

theorem configuration_is_valid_and_round_trips:
  assumes "criteria \<noteq> []" and "from_dict other criteria raw = Inr c"
  shows "config_ok c \<and> from_dict other criteria' (to_dict c) = Inr c \<and>
    (\<forall>d. raw = PDict d \<longrightarrow>
      (case dget d ''proposal_timeout_s'' of None \<Rightarrow> cf_timeout c = cf_timeout (default_config criteria) | Some v \<Rightarrow> to_float v = Inr (cf_timeout c)) \<and>
      cf_proposal_model c = (case dget d ''proposal_model'' of Some (PStr s) \<Rightarrow> s | _ \<Rightarrow> cf_proposal_model (default_config criteria)) \<and>
      (\<forall>vd. dget d ''verifier'' = Some (PDict vd) \<longrightarrow>
         vs_model (cf_verifier c) = py_str other (get_or vd ''model'' (PStr (vs_model default_verifier)))))"
  using from_dict_ok [OF assms] from_to_dict from_dict_unchecked [OF assms(2)] by blast

theorem configuration_is_valid_and_round_trips_witness:
  "config_ok ((default_config [(''c'', ''d'')])\<lparr>cf_keep_branches := True, cf_timeout := - 5, cf_proposal_model := [],
     cf_verifier := default_verifier\<lparr>vs_pivots := 1, vs_on_error := ''raise'', vs_model := []\<rparr>\<rparr>)"
proof -
  have "from_dict (\<lambda>v. []) [(''c'', ''d'')] (PDict [(''proposers'', PList [PInt 3]), (''keep_proposal_branches'', PInt 1),
      (''proposal_timeout_s'', PInt (- 5)), (''proposal_model'', PStr []),
      (''verifier'', PDict [(''pivots'', PStr '' -7 ''), (''on_error'', PStr ''raise''), (''model'', PStr [])])]) =
    Inr ((default_config [(''c'', ''d'')])\<lparr>cf_keep_branches := True, cf_timeout := - 5, cf_proposal_model := [],
     cf_verifier := default_verifier\<lparr>vs_pivots := 1, vs_on_error := ''raise'', vs_model := []\<rparr>\<rparr>)"
    by code_simp
  from configuration_is_valid_and_round_trips [OF _ this] show ?thesis by blast
qed

lemma fill_hole: "fill prompt model (PStr prompt_hole) = fill_model model prompt"
  using replace_all_whole [of prompt_hole prompt "[]"] by (simp add: fill_def prompt_hole_def)

lemma first_error_mem:
  assumes "first_error (map f xs) = Inr ys" and "x \<in> set xs"
  shows "\<exists>y \<in> set ys. f x = Inr y"
proof -
  have eq: "map f xs = map Inr ys" using assms(1) by (simp add: first_error_Inr)
  from assms(2) have "f x \<in> set (map f xs)" by simp
  then show ?thesis unfolding eq by auto
qed

lemma prompt_hole_in: "dget harness_commands h = Some args \<Longrightarrow> prompt_hole \<in> set args"
  by (auto simp: harness_commands_def split: if_splits)

text \<open>
  the prompt reaches a built-in harness as one argument, filled in where the template has its
  hole. It arrives as written unless it mentions the model placeholder itself: the holes are filled
  one after the other, so a \<open>{model}\<close> in the user's text is replaced as well.
\<close>

theorem prompt_reaches_the_harness:
  assumes "build_command spec prompt default_model = Inr argv" and "po_command spec = None"
  shows "(\<exists>m. proposal_model spec default_model = PStr m \<and> replace_all model_hole m prompt \<in> set argv) \<and>
    (\<not> contains prompt model_hole \<longrightarrow> prompt \<in> set argv)"
proof -
  let ?m = "proposal_model spec default_model"
  obtain args where args: "dget harness_commands (po_harness spec) = Some args"
    using assms by (cases "dget harness_commands (po_harness spec)") (simp_all add: build_command_def)
  obtain argv1 where a1: "first_error (map (fill prompt ?m) (map PStr args)) = Inr argv1" and sub: "set argv1 \<subseteq> set argv"
    using assms unfolding build_command_def Let_def args option.case assms(2) bindR_simps bindR_Inr_iff
    by (auto simp: bindR_Inr_iff split: if_splits)
  have "PStr prompt_hole \<in> set (map PStr args)" using prompt_hole_in [OF args] by simp
  from first_error_mem [OF a1 this] obtain y where y: "y \<in> set argv1" "fill_model ?m prompt = Inr y"
    unfolding fill_hole by blast
  then obtain m where m: "?m = PStr m" "y = replace_all model_hole m prompt"
    by (cases ?m) (simp_all add: fill_model_def)
  have "replace_all model_hole m prompt \<in> set argv" using y sub m(2) by blast
  with m(1) replace_all_none [where s = "prompt" and old = "model_hole" and new = "m"] show ?thesis by auto
qed

theorem prompt_reaches_the_harness_witness:
  "replace_all model_hole [] (''fix '' @ model_hole @ ''s'') = ''fix s'' \<and>
   (\<exists>argv. build_command (plain_proposer ''claude'') (''fix '' @ model_hole @ ''s'') ''m'' = Inr argv \<and>
      ''fix s'' \<in> set argv)"
proof -
  have run: "build_command (plain_proposer ''claude'') (''fix '' @ model_hole @ ''s'') ''m'' =
    Inr [''claude'', ''-p'', ''fix s'', ''--dangerously-skip-permissions'', ''--output-format'', ''stream-json'', ''--verbose'']"
    by code_simp
  have "po_command (plain_proposer ''claude'') = None" by (simp add: plain_proposer_def)
  from prompt_reaches_the_harness [OF run this] obtain m where m: "proposal_model (plain_proposer ''claude'') ''m'' = PStr m"
    "replace_all model_hole m (''fix '' @ model_hole @ ''s'')
      \<in> set [''claude'', ''-p'', ''fix s'', ''--dangerously-skip-permissions'', ''--output-format'', ''stream-json'', ''--verbose'']" by blast
  have "m = []" using m(1) by (simp add: proposal_model_def plain_proposer_def gateway_model_harnesses_def)
  moreover have "replace_all model_hole [] (''fix '' @ model_hole @ ''s'') = ''fix s''" by code_simp
  ultimately show ?thesis using run m(2) by simp
qed

end
