(* ===== verification/Host_World.thy ===== *)
theory Host_World
  imports Py_Values
begin

text \<open>
  The machine a run executes on, as a parameter: the processes it starts and the questions it asks
  about the file system are functions of a world, which they may change. The code is written in
  state-passing style over that world, with failures as values. A property about what the code does
  to the machine takes for the world the list of everything executed so far, and for the answers
  arbitrary functions of that list.
\<close>

section \<open>Actions\<close>

datatype run_error =
    WorktreeError string
  | BestOfNError string
  | ProcessError string \<comment> \<open>an error of \<open>subprocess\<close> or the operating system that nobody caught\<close>
  | PyError py_exn

type_synonym ('w, 'a) act = "'w \<Rightarrow> (run_error + 'a) \<times> 'w"

definition ret :: "'a \<Rightarrow> ('w, 'a) act" where
  "ret x w = (Inr x, w)"

definition fail :: "run_error \<Rightarrow> ('w, 'a) act" where
  "fail e w = (Inl e, w)"

definition bindS :: "('w, 'a) act \<Rightarrow> ('a \<Rightarrow> ('w, 'b) act) \<Rightarrow> ('w, 'b) act" where
  "bindS m f w = (case m w of (Inl e, w') \<Rightarrow> (Inl e, w') | (Inr x, w') \<Rightarrow> f x w')"

definition liftR :: "run_error + 'a \<Rightarrow> ('w, 'a) act" where
  "liftR r w = (r, w)"

definition asks :: "('w \<Rightarrow> 'a) \<Rightarrow> ('w, 'a) act" where
  "asks f w = (Inr (f w), w)"

lemma act_simps [simp]: "ret x w = (Inr x, w)" "fail e w = (Inl e, w)" "liftR r w = (r, w)" "asks g w = (Inr (g w), w)"
  by (simp_all add: ret_def fail_def liftR_def asks_def)

lemma bindS_eq_Inr: "bindS m f w = (Inr y, w') \<longleftrightarrow> (\<exists>x w1. m w = (Inr x, w1) \<and> f x w1 = (Inr y, w'))"
  by (auto simp: bindS_def split: sum.splits prod.splits)

lemma bindS_eq_Inl: "bindS m f w = (Inl e, w') \<longleftrightarrow> m w = (Inl e, w') \<or> (\<exists>x w1. m w = (Inr x, w1) \<and> f x w1 = (Inl e, w'))"
  by (auto simp: bindS_def split: sum.splits prod.splits)

lemma bindS_run: "m w = (Inr x, w1) \<Longrightarrow> bindS m f w = f x w1" "m w = (Inl e, w1) \<Longrightarrow> bindS m f w = (Inl e, w1)"
  by (simp_all add: bindS_def)

lemma bindS_simps [simp]:
  "bindS (ret x) f = f x" "bindS (fail e) f = fail e" "bindS (asks g) f w = f (g w) w"
  by (simp_all add: bindS_def fun_eq_iff)

section \<open>The machine\<close>

record completed =
  returncode :: int
  stdout :: string
  stderr :: string

datatype launch =
    Completed completed
  | FileMissing \<comment> \<open>\<open>FileNotFoundError\<close>\<close>
  | Expired \<comment> \<open>\<open>TimeoutExpired\<close>\<close>
  | OsError string

record 'w host =
  h_exec :: "string list \<Rightarrow> string \<Rightarrow> 'w \<Rightarrow> launch \<times> 'w" \<comment> \<open>\<open>subprocess.run(argv, cwd=...)\<close>\<close>
  h_is_dir :: "string \<Rightarrow> 'w \<Rightarrow> bool"
  h_exists :: "string \<Rightarrow> 'w \<Rightarrow> bool"
  h_resolve :: "string \<Rightarrow> 'w \<Rightarrow> string"
  h_mkdir :: "string \<Rightarrow> ('w, unit) act"

section \<open>Paths\<close>

text \<open>\<open>pathlib\<close> on POSIX: whether a path is absolute, and its parts.\<close>

type_synonym path = "bool \<times> string list"

definition parse_path :: "string \<Rightarrow> path" where
  "parse_path s = (starts_with s ''/'', filter (\<lambda>p. p \<noteq> [] \<and> p \<noteq> ''.'') (split_on CHR ''/'' s))"

definition path_str :: "path \<Rightarrow> string" where
  "path_str p = (if fst p then ''/'' @ join ''/'' (snd p) else if snd p = [] then ''.'' else join ''/'' (snd p))"

definition path_parent :: "path \<Rightarrow> path" where
  "path_parent p = (fst p, butlast (snd p))"

definition path_name :: "path \<Rightarrow> string" where
  "path_name p = (if snd p = [] then [] else last (snd p))"

definition path_join :: "path \<Rightarrow> string \<Rightarrow> path" where
  \<comment> \<open>\<open>p / s\<close>\<close>
  "path_join p s = (let q = parse_path s in if fst q then q else (fst p, snd p @ snd q))"

lemma path_join_component:
  "s \<noteq> [] \<Longrightarrow> s \<noteq> ''.'' \<Longrightarrow> CHR ''/'' \<notin> set s \<Longrightarrow> path_join p s = (fst p, snd p @ [s])"
  by (cases s) (auto simp: path_join_def parse_path_def split_on_no_sep starts_with_def)

lemma path_parent_component: "path_parent (a, ps @ [s]) = (a, ps)"
  by (simp add: path_parent_def)

section \<open>Recorded runs\<close>

datatype event = Exec "string list" string | Mkdir string

type_synonym history = "event list"

definition recorded :: "(history \<Rightarrow> string list \<Rightarrow> string \<Rightarrow> launch) \<Rightarrow> (history \<Rightarrow> string \<Rightarrow> bool) \<Rightarrow>
    (history \<Rightarrow> string \<Rightarrow> bool) \<Rightarrow> (history \<Rightarrow> string \<Rightarrow> string) \<Rightarrow> (history \<Rightarrow> string \<Rightarrow> bool) \<Rightarrow> history host" where
  \<comment> \<open>the machine whose world is what was executed on it\<close>
  "recorded answer is_dir exists resolve can_mkdir =
     \<lparr>h_exec = \<lambda>argv cwd w. (answer w argv cwd, w @ [Exec argv cwd]),
      h_is_dir = \<lambda>p w. is_dir w p, h_exists = \<lambda>p w. exists w p, h_resolve = \<lambda>p w. resolve w p,
      h_mkdir = \<lambda>p w. (if can_mkdir w p then Inr () else Inl (ProcessError ''OSError''), w @ [Mkdir p])\<rparr>"

lemma recorded_simps [simp]:
  "h_exec (recorded an di ex re mk) argv cwd w = (an w argv cwd, w @ [Exec argv cwd])"
  "h_is_dir (recorded an di ex re mk) p w = di w p"
  "h_exists (recorded an di ex re mk) p w = ex w p"
  "h_resolve (recorded an di ex re mk) p w = re w p"
  "h_mkdir (recorded an di ex re mk) p w = (if mk w p then Inr () else Inl (ProcessError ''OSError''), w @ [Mkdir p])"
  by (simp_all add: recorded_def)

definition only :: "(event \<Rightarrow> bool) \<Rightarrow> (history, 'a) act \<Rightarrow> bool" where
  \<comment> \<open>the action executes nothing but events that satisfy \<open>P\<close>\<close>
  "only P m \<longleftrightarrow> (\<forall>w r w'. m w = (r, w') \<longrightarrow> (\<exists>es. w' = w @ es \<and> list_all P es))"

named_theorems only_rules \<comment> \<open>what an action executes, by its structure\<close>

lemma onlyD: "only P m \<Longrightarrow> m w = (r, w') \<Longrightarrow> \<exists>es. w' = w @ es \<and> list_all P es"
  by (simp add: only_def)

lemma only_pure [only_rules]: "only P (ret x)" "only P (fail e)" "only P (liftR r)" "only P (asks g)"
  by (auto simp: only_def)

lemma only_bindS [only_rules]:
  assumes "only P m" and "\<And>x. only P (f x)"
  shows "only P (bindS m f)"
  unfolding only_def
proof (intro allI impI)
  fix w r w'
  assume run: "bindS m f w = (r, w')"
  obtain r1 w1 where m: "m w = (r1, w1)" by (cases "m w")
  obtain es where es: "w1 = w @ es" "list_all P es" using onlyD [OF assms(1) m] by blast
  show "\<exists>es. w' = w @ es \<and> list_all P es"
  proof (cases r1)
    case (Inl e)
    with run m es show ?thesis by (auto simp: bindS_def)
  next
    case (Inr x)
    with run m have "f x w1 = (r, w')" by (simp add: bindS_def)
    from onlyD [OF assms(2) this] es show ?thesis by (metis append.assoc list_all_append)
  qed
qed

lemma only_if [only_rules]: "(b \<Longrightarrow> only P m) \<Longrightarrow> (\<not> b \<Longrightarrow> only P m') \<Longrightarrow> only P (if b then m else m')"
  by simp

lemma only_option [only_rules]:
  "(x = None \<Longrightarrow> only P m) \<Longrightarrow> (\<And>y. x = Some y \<Longrightarrow> only P (f y)) \<Longrightarrow> only P (case x of None \<Rightarrow> m | Some y \<Rightarrow> f y)"
  by (cases x) simp_all

lemma only_mono: "only P m \<Longrightarrow> (\<And>e. P e \<Longrightarrow> Q e) \<Longrightarrow> only Q m"
  unfolding only_def by (metis list_all_iff)

end
