(* ===== verification/Git_Worktree.thy ===== *)
theory Git_Worktree
  imports Host_World
begin

text \<open>
  The worktree operations of \<^verbatim>\<open>codify/host/git_worktree.py\<close>: the check of branch names, the
  listing, the creation and the removal of worktrees, over the machine of \<open>Host_World\<close>. Git itself
  is what the machine answers.
\<close>

section \<open>Branch names\<close>

definition invalid_branch_char :: "char \<Rightarrow> bool" where
  "invalid_branch_char c \<longleftrightarrow> (of_char c :: nat) \<le> 32 \<or> (of_char c :: nat) = 127 \<or>
     c \<in> {CHR ''~'', CHR ''^'', CHR '':'', CHR ''?'', CHR ''*'', CHR ''['', CHR 0x5C}"

definition validate_branch_name :: "string \<Rightarrow> run_error + unit" where
  "validate_branch_name name =
     (if name = [] then Inl (WorktreeError ''branch name must not be empty'')
      else if starts_with name ''-'' then Inl (WorktreeError (''branch name must not start with '' @ py_repr ''-'' @ '': '' @ py_repr name))
      else if starts_with name ''/'' \<or> ends_with name ''/''
        then Inl (WorktreeError (''branch name must not start or end with '' @ py_repr ''/'' @ '': '' @ py_repr name))
      else if ends_with name ''.'' then Inl (WorktreeError (''branch name must not end with '' @ py_repr ''.'' @ '': '' @ py_repr name))
      else if list_ex (\<lambda>part. ends_with part ''.lock'') (split_on CHR ''/'' name)
        then Inl (WorktreeError (''branch name path components must not end with '' @ py_repr ''.lock'' @ '': '' @ py_repr name))
      else if contains name ''..'' then Inl (WorktreeError (''branch name must not contain '' @ py_repr ''..'' @ '': '' @ py_repr name))
      else if contains name ''//'' then Inl (WorktreeError (''branch name must not contain '' @ py_repr ''//'' @ '': '' @ py_repr name))
      else if contains name [CHR ''@'', CHR 0x7B]
        then Inl (WorktreeError (''branch name must not contain '' @ py_repr [CHR ''@'', CHR 0x7B] @ '': '' @ py_repr name))
      else if name = ''@'' then Inl (WorktreeError (''branch name must not be '' @ py_repr ''@''))
      else if list_ex invalid_branch_char name
        then Inl (WorktreeError (''branch name '' @ py_repr name @ '' contains an invalid character; spaces, '' @
          ''control characters, and any of ~ ^ : ? * [ '' @ [CHR 0x5C] @ '' are not allowed''))
      else if list_ex (\<lambda>part. starts_with part ''.'') (split_on CHR ''/'' name)
        then Inl (WorktreeError (''branch name path components must not start with '' @ py_repr ''.'' @ '': '' @ py_repr name))
      else Inr ())"

definition strip_slashes :: "string \<Rightarrow> string" where
  \<comment> \<open>\<open>s.strip("/")\<close>\<close>
  "strip_slashes s = rev (dropWhile (\<lambda>c. c = CHR ''/'') (rev (dropWhile (\<lambda>c. c = CHR ''/'') s)))"

definition sanitize_dirname :: "string \<Rightarrow> string" where
  "sanitize_dirname branch_name = map (\<lambda>c. if c = CHR ''/'' then CHR ''-'' else c) (strip_slashes branch_name)"

section \<open>Git\<close>

definition run_git :: "'w host \<Rightarrow> string list \<Rightarrow> string \<Rightarrow> ('w, completed) act" where
  "run_git h args cwd w =
     (case h_exec h (''git'' # args) cwd w of
        (Completed c, w') \<Rightarrow> (Inr c, w')
      | (FileMissing, w') \<Rightarrow> (Inl (WorktreeError ''git is not installed on the host''), w')
      | (Expired, w') \<Rightarrow> (Inl (WorktreeError ''git command timed out after 120s''), w')
      | (OsError m, w') \<Rightarrow> (Inl (ProcessError m), w'))"

definition git_error :: "string \<Rightarrow> completed \<Rightarrow> run_error" where
  "git_error label r =
     (let detail = strip (stderr r); suffix = (if detail \<noteq> [] then '': '' @ detail else [])
      in WorktreeError (label @ '' (exit '' @ show_int (returncode r) @ '')'' @ suffix))"

fun first_worktree :: "string list \<Rightarrow> string option" where
  "first_worktree [] = None"
| "first_worktree (line # lines) =
     (if starts_with line ''worktree '' then Some (strip (drop 9 line)) else first_worktree lines)"

definition main_work_tree :: "'w host \<Rightarrow> string \<Rightarrow> ('w, string) act" where
  "main_work_tree h repo_path =
     bindS (asks (h_is_dir h (path_str (parse_path repo_path)))) (\<lambda>is_dir.
       if \<not> is_dir then fail (WorktreeError (''path is not a directory: '' @ repo_path))
       else bindS (run_git h [''worktree'', ''list'', ''--porcelain''] repo_path) (\<lambda>r.
         if returncode r \<noteq> 0 then fail (WorktreeError (''not a git repository: '' @ repo_path))
         else case first_worktree (splitlines (stdout r)) of
                Some p \<Rightarrow> ret p
              | None \<Rightarrow> fail (WorktreeError (''could not resolve main work tree for '' @ repo_path))))"

record worktree_info =
  wi_path :: string
  wi_branch :: "string option"
  wi_is_main :: bool
  wi_detached :: bool

definition ref_branch :: "string \<Rightarrow> string" where
  "ref_branch ref = (if starts_with ref ''refs/heads/'' then drop 11 ref else ref)"

fun worktree_entries :: "string list \<Rightarrow> worktree_info list \<Rightarrow> string option \<Rightarrow> string option \<Rightarrow> bool \<Rightarrow> worktree_info list" where
  \<comment> \<open>the loop over the porcelain lines: the entries so far, the open entry's path, branch and detached flag\<close>
  "worktree_entries [] acc path branch detached =
     (case path of
        None \<Rightarrow> acc
      | Some p \<Rightarrow> acc @ [\<lparr>wi_path = p, wi_branch = branch, wi_is_main = (acc = []), wi_detached = detached\<rparr>])"
| "worktree_entries (line # lines) acc path branch detached =
     (if starts_with line ''worktree '' then worktree_entries lines acc (Some (strip (drop 9 line))) None False
      else if starts_with line ''branch '' then worktree_entries lines acc path (Some (ref_branch (strip (drop 7 line)))) detached
      else if line = ''detached'' then worktree_entries lines acc path branch True
      else if line = [] \<and> path \<noteq> None then
        worktree_entries lines (acc @ [\<lparr>wi_path = the path, wi_branch = branch, wi_is_main = (acc = []), wi_detached = detached\<rparr>])
          None branch detached
      else worktree_entries lines acc path branch detached)"

definition list_worktrees :: "'w host \<Rightarrow> string \<Rightarrow> ('w, worktree_info list) act" where
  "list_worktrees h repo_path =
     bindS (main_work_tree h repo_path) (\<lambda>repo_root.
       bindS (run_git h [''worktree'', ''list'', ''--porcelain''] repo_root) (\<lambda>r.
         if returncode r \<noteq> 0 then fail (git_error ''git worktree list failed'' r)
         else ret (worktree_entries (splitlines (stdout r)) [] None None False)))"

section \<open>Creation\<close>

definition local_branch_exists :: "'w host \<Rightarrow> string \<Rightarrow> string \<Rightarrow> ('w, bool) act" where
  "local_branch_exists h repo_root branch_name =
     bindS (run_git h [''rev-parse'', ''--verify'', ''--quiet'', ''refs/heads/'' @ branch_name] repo_root)
       (\<lambda>r. ret (returncode r = 0))"

definition max_dir_collision_suffix :: nat where
  "max_dir_collision_suffix = 50"

fun free_suffix :: "(string \<Rightarrow> bool) \<Rightarrow> path \<Rightarrow> string \<Rightarrow> nat list \<Rightarrow> path option" where
  \<comment> \<open>the loop over the suffixes\<close>
  "free_suffix exists base_dir dirname [] = None"
| "free_suffix exists base_dir dirname (n # ns) =
     (let candidate = path_join base_dir (dirname @ ''-'' @ show_nat n)
      in if \<not> exists (path_str candidate) then Some candidate else free_suffix exists base_dir dirname ns)"

definition resolve_worktree_path :: "'w host \<Rightarrow> string \<Rightarrow> string \<Rightarrow> ('w, path) act" where
  "resolve_worktree_path h repo_root branch_name =
     (let repo = parse_path repo_root;
          base_dir = path_join (path_parent repo) (path_name repo @ ''-worktrees'');
          dirname = sanitize_dirname branch_name;
          candidate = path_join base_dir dirname
      in bindS (asks (\<lambda>w p. h_exists h p w)) (\<lambda>exists.
           if \<not> exists (path_str candidate) then ret candidate
           else case free_suffix exists base_dir dirname [2..<max_dir_collision_suffix + 1] of
                  Some p \<Rightarrow> ret p
                | None \<Rightarrow> fail (WorktreeError (''could not find a free worktree directory under '' @ path_str base_dir @
                    '' after '' @ show_nat max_dir_collision_suffix @ '' attempts''))))"

definition base_args :: "string \<Rightarrow> string list" where
  "base_args base_branch = [''rev-parse'', ''--verify'', ''--quiet'', ''--end-of-options'', base_branch]"

definition ensure_base_resolvable :: "'w host \<Rightarrow> string \<Rightarrow> string \<Rightarrow> ('w, unit) act" where
  "ensure_base_resolvable h repo_root base_branch =
     bindS (run_git h (base_args base_branch) repo_root) (\<lambda>r.
       if returncode r = 0 then ret ()
       else bindS (run_git h [''fetch''] repo_root) (\<lambda>_.
         bindS (run_git h (base_args base_branch) repo_root) (\<lambda>r2.
           if returncode r2 \<noteq> 0 then fail (WorktreeError (''base branch does not exist: '' @ base_branch))
           else ret ())))"

record created_worktree =
  cw_path :: string
  cw_branch :: string

definition add_args :: "string \<Rightarrow> string \<Rightarrow> string option \<Rightarrow> string list" where
  "add_args branch_name worktree_path base_branch =
     [''worktree'', ''add'', ''-b'', branch_name, worktree_path] @
     (case base_branch of None \<Rightarrow> [] | Some b \<Rightarrow> [''--end-of-options'', b])"

definition create_worktree :: "'w host \<Rightarrow> string \<Rightarrow> string \<Rightarrow> string option \<Rightarrow> ('w, created_worktree) act" where
  "create_worktree h repo_path branch_name base_branch =
     bindS (liftR (validate_branch_name branch_name)) (\<lambda>_.
     bindS (main_work_tree h repo_path) (\<lambda>repo_root.
     bindS (local_branch_exists h repo_root branch_name) (\<lambda>taken.
     if taken then fail (WorktreeError (''a branch named '' @ py_repr branch_name @ '' already exists; choose a different branch name''))
     else
     bindS (case base_branch of None \<Rightarrow> ret () | Some b \<Rightarrow> ensure_base_resolvable h repo_root b) (\<lambda>_.
     bindS (resolve_worktree_path h repo_root branch_name) (\<lambda>worktree_path.
     bindS (h_mkdir h (path_str (path_parent worktree_path))) (\<lambda>_.
     bindS (run_git h (add_args branch_name (path_str worktree_path) base_branch) repo_root) (\<lambda>r.
     if returncode r \<noteq> 0 then fail (git_error ''git worktree add failed'' r)
     else ret \<lparr>cw_path = path_str worktree_path, cw_branch = branch_name\<rparr>)))))))"

section \<open>Removal\<close>

definition main_repo_for_worktree :: "'w host \<Rightarrow> string \<Rightarrow> ('w, string) act" where
  "main_repo_for_worktree h worktree_path =
     bindS (asks (h_exists h (path_str (parse_path worktree_path)))) (\<lambda>exists.
       if \<not> exists then fail (WorktreeError (''worktree path does not exist: '' @ worktree_path))
       else bindS (run_git h [''rev-parse'', ''--git-common-dir''] worktree_path) (\<lambda>r.
         if returncode r \<noteq> 0 then fail (WorktreeError (''not a git worktree: '' @ worktree_path))
         else let common_dir = parse_path (strip (stdout r))
              in if fst common_dir then ret (path_str (path_parent common_dir))
                 else bindS (asks (h_resolve h (path_str (path_join (parse_path worktree_path) (path_str common_dir))))) (\<lambda>p.
                        ret (path_str (path_parent (parse_path p))))))"

definition remove_worktree :: "'w host \<Rightarrow> string \<Rightarrow> string option \<Rightarrow> bool \<Rightarrow> ('w, unit) act" where
  "remove_worktree h worktree_path branch delete_branch =
     bindS (main_repo_for_worktree h worktree_path) (\<lambda>main_repo.
     bindS (run_git h [''worktree'', ''remove'', ''--force'', worktree_path] main_repo) (\<lambda>r.
     if returncode r \<noteq> 0 then fail (git_error ''git worktree remove failed'' r)
     else case (if delete_branch then branch else None) of
            None \<Rightarrow> ret ()
          | Some b \<Rightarrow>
              bindS (run_git h [''branch'', ''-D'', b] main_repo) (\<lambda>r2.
                if returncode r2 \<noteq> 0 then fail (git_error ''git branch -D failed'' r2) else ret ())))"

section \<open>Names\<close>

lemma validate_ok:
  assumes "validate_branch_name name = Inr ()"
  shows "name \<noteq> []" "\<not> starts_with name ''-''" "\<not> starts_with name ''/''" "\<not> ends_with name ''/''" "\<not> ends_with name ''.''"
    "\<not> contains name ''..''" "\<not> list_ex invalid_branch_char name" "\<not> list_ex (\<lambda>part. starts_with part ''.'') (split_on CHR ''/'' name)"
  using assms by (auto simp: validate_branch_name_def split: if_splits)

lemma strip_slashes_valid:
  assumes "\<not> starts_with name ''/''" "\<not> ends_with name ''/''"
  shows "strip_slashes name = name"
proof (cases "name = []")
  case False
  then obtain c cs ys y where c: "name = c # cs" and y: "name = ys @ [y]"
    by (metis append_butlast_last_id neq_Nil_conv)
  have "c \<noteq> CHR ''/''" using assms(1) unfolding c by (simp add: starts_with_def)
  then have "dropWhile (\<lambda>c. c = CHR ''/'') name = name" unfolding c by simp
  moreover have "y \<noteq> CHR ''/''" using assms(2) unfolding y by (simp add: ends_with_def)
  then have "dropWhile (\<lambda>c. c = CHR ''/'') (rev name) = rev name" unfolding y by simp
  ultimately show ?thesis by (simp add: strip_slashes_def)
qed (simp add: strip_slashes_def)

lemma sanitize_valid:
  assumes "validate_branch_name name = Inr ()"
  shows "sanitize_dirname name \<noteq> []" "CHR ''/'' \<notin> set (sanitize_dirname name)"
    "hd (sanitize_dirname name) \<notin> {CHR ''.'', CHR ''-'', CHR ''/''}"
proof -
  note ok = validate_ok [OF assms]
  have san: "sanitize_dirname name = map (\<lambda>c. if c = CHR ''/'' then CHR ''-'' else c) name"
    using ok by (simp add: sanitize_dirname_def strip_slashes_valid)
  show "sanitize_dirname name \<noteq> []" using ok(1) san by simp
  show "CHR ''/'' \<notin> set (sanitize_dirname name)" using san by auto
  obtain c cs where name: "name = c # cs" using ok(1) by (cases name) auto
  have "c \<noteq> CHR ''.''"
  proof
    assume "c = CHR ''.''"
    then have "\<exists>part \<in> set (split_on CHR ''/'' name). starts_with part ''.''"
      unfolding name by (cases "split_on CHR ''/'' cs") (auto simp: starts_with_def)
    with ok(8) show False by (simp add: list_ex_iff)
  qed
  moreover have "c \<noteq> CHR ''-''" "c \<noteq> CHR ''/''" using ok(2,3) name by (auto simp: starts_with_def)
  ultimately show "hd (sanitize_dirname name) \<notin> {CHR ''.'', CHR ''-'', CHR ''/''}" using san name by simp
qed

definition dir_component :: "string \<Rightarrow> bool" where
  \<comment> \<open>one proper name: joining it descends exactly one level\<close>
  "dir_component d \<longleftrightarrow> d \<noteq> [] \<and> CHR ''/'' \<notin> set d \<and> d \<noteq> ''.'' \<and> d \<noteq> ''..''"

lemma digit_not_slash: "is_digit c \<Longrightarrow> c \<noteq> CHR ''/''"
  by (auto simp: is_digit_def)

lemma sanitize_component:
  assumes "validate_branch_name name = Inr ()"
  shows "dir_component (sanitize_dirname name)" "dir_component (sanitize_dirname name @ ''-'' @ show_nat n)"
proof -
  obtain c cs where d: "sanitize_dirname name = c # cs" "c \<noteq> CHR ''.''" "CHR ''/'' \<notin> set (c # cs)"
    using sanitize_valid [OF assms] by (cases "sanitize_dirname name") auto
  moreover have "CHR ''/'' \<notin> set (show_nat n)" using show_nat_digits [of n] digit_not_slash by blast
  ultimately show "dir_component (sanitize_dirname name)" "dir_component (sanitize_dirname name @ ''-'' @ show_nat n)"
    unfolding dir_component_def d(1) by auto
qed

section \<open>What the operations execute\<close>

fun harmless :: "event \<Rightarrow> bool" where
  \<comment> \<open>git commands that leave worktrees, local branches, index and files as they are\<close>
  "harmless (Exec (p # c # args) cwd) \<longleftrightarrow> p = ''git'' \<and>
     (c \<in> {''rev-parse'', ''fetch'', ''status'', ''diff''} \<or> c = ''worktree'' \<and> args = [''list'', ''--porcelain''])"
| "harmless _ \<longleftrightarrow> False"

definition reports_success :: "(history \<Rightarrow> string list \<Rightarrow> string \<Rightarrow> launch) \<Rightarrow> history \<Rightarrow> event \<Rightarrow> bool" where
  "reports_success an w e = (case e of
     Exec argv cwd \<Rightarrow> (case an w argv cwd of Completed c \<Rightarrow> returncode c = 0 | _ \<Rightarrow> False) | Mkdir p \<Rightarrow> False)"

fun effects :: "(history \<Rightarrow> string list \<Rightarrow> string \<Rightarrow> launch) \<Rightarrow> history \<Rightarrow> event list \<Rightarrow> event list" where
  \<comment> \<open>of the events executed after \<open>w\<close>, the git commands that change something and report success\<close>
  "effects an w [] = []"
| "effects an w (e # es) =
     (if \<not> harmless e \<and> reports_success an w e then e # effects an (w @ [e]) es else effects an (w @ [e]) es)"

lemma effects_append: "effects an w (xs @ ys) = effects an w xs @ effects an (w @ xs) ys"
  by (induction xs arbitrary: w) auto

lemma effects_harmless [simp]: "list_all harmless es \<Longrightarrow> effects an w es = []"
  by (induction es arbitrary: w) auto

lemma reports_success_Mkdir [simp]: "\<not> reports_success an w (Mkdir p)"
  by (simp add: reports_success_def)

lemma run_git_recorded:
  "run_git (recorded an di ex re mk) args cwd w = (r, w') \<Longrightarrow>
    w' = w @ [Exec (''git'' # args) cwd] \<and> (\<forall>c. r = Inr c \<longrightarrow> an w (''git'' # args) cwd = Completed c)"
  by (auto simp: run_git_def split: launch.splits)

lemma run_git_only [only_rules]:
  assumes "P (Exec (''git'' # args) cwd)"
  shows "only P (run_git (recorded an di ex re mk) args cwd)"
  unfolding only_def
proof (intro allI impI)
  fix w r w'
  assume "run_git (recorded an di ex re mk) args cwd w = (r, w')"
  from run_git_recorded [OF this] assms show "\<exists>es. w' = w @ es \<and> list_all P es" by simp
qed

lemma main_work_tree_only [only_rules]: "only harmless (main_work_tree (recorded an di ex re mk) repo)"
  unfolding main_work_tree_def by (intro only_rules) simp_all

lemma local_branch_exists_only [only_rules]: "only harmless (local_branch_exists (recorded an di ex re mk) repo b)"
  unfolding local_branch_exists_def by (intro only_rules) simp

lemma ensure_base_only [only_rules]: "only harmless (ensure_base_resolvable (recorded an di ex re mk) repo b)"
  unfolding ensure_base_resolvable_def by (intro only_rules) (simp_all add: base_args_def)

definition base_dir_of :: "string \<Rightarrow> path" where
  "base_dir_of root_dir = path_join (path_parent (parse_path root_dir)) (path_name (parse_path root_dir) @ ''-worktrees'')"

lemma free_suffix_Some:
  "free_suffix exists base dirname ns = Some p \<Longrightarrow>
    \<exists>n. p = path_join base (dirname @ ''-'' @ show_nat n) \<and> \<not> exists (path_str p)"
  by (induction exists base dirname ns rule: free_suffix.induct) (auto simp: Let_def split: if_splits)

lemma option_act_Inr: "(case x of None \<Rightarrow> fail e | Some p \<Rightarrow> ret p) w = (Inr q, w') \<Longrightarrow> x = Some q \<and> w' = w"
  by (cases x) auto

lemma if_act_Inr: "(if \<not> b then ret c else m) w = (Inr q, w') \<Longrightarrow> (q = c \<and> \<not> b \<and> w' = w) \<or> m w = (Inr q, w')"
  by (cases b) auto

lemma resolve_worktree_path_Inr:
  assumes "validate_branch_name name = Inr ()"
    and "resolve_worktree_path (recorded an di ex re mk) root_dir name w = (Inr p, w')"
  shows "w' = w \<and> \<not> ex w (path_str p) \<and> (\<exists>d. dir_component d \<and> starts_with d (sanitize_dirname name) \<and>
    p = (fst (base_dir_of root_dir), snd (base_dir_of root_dir) @ [d]))"
proof -
  have join: "path_join (base_dir_of root_dir) d = (fst (base_dir_of root_dir), snd (base_dir_of root_dir) @ [d])"
    if "dir_component d" for d
    using that path_join_component by (simp add: dir_component_def)
  let ?c = "path_join (base_dir_of root_dir) (sanitize_dirname name)"
  let ?f = "free_suffix (\<lambda>p. ex w p) (base_dir_of root_dir) (sanitize_dirname name) [2..<max_dir_collision_suffix + 1]"
  have run: "(if \<not> ex w (path_str ?c) then ret ?c else case ?f of Some p \<Rightarrow> ret p
      | None \<Rightarrow> fail (WorktreeError (''could not find a free worktree directory under '' @ path_str (base_dir_of root_dir) @
          '' after '' @ show_nat max_dir_collision_suffix @ '' attempts''))) w = (Inr p, w')"
    using assms(2) unfolding resolve_worktree_path_def Let_def base_dir_of_def [symmetric] bindS_simps(3) recorded_simps .
  have "(p = ?c \<and> \<not> ex w (path_str p) \<and> w' = w) \<or> (?f = Some p \<and> w' = w)"
    using if_act_Inr [OF run] by (elim disjE) (simp, drule option_act_Inr, rule disjI2)
  then consider "p = ?c" "\<not> ex w (path_str p)" "w' = w" | "?f = Some p" "w' = w" by blast
  then show ?thesis
  proof cases
    case 1
    then show ?thesis using join sanitize_component(1) [OF assms(1)] by (auto simp: starts_with_def)
  next
    case 2
    from free_suffix_Some [OF 2(1)] obtain n where
      "p = path_join (base_dir_of root_dir) (sanitize_dirname name @ ''-'' @ show_nat n)" "\<not> ex w (path_str p)" by blast
    with 2(2) show ?thesis using join sanitize_component(2) [OF assms(1)] by (metis starts_with_append)
  qed
qed

lemma resolve_worktree_path_only [only_rules]: "only harmless (resolve_worktree_path (recorded an di ex re mk) root_dir name)"
  unfolding resolve_worktree_path_def Let_def by (intro only_rules)

lemma run_git_effect:
  "run_git (recorded an di ex re mk) args cwd w = (r, w') \<Longrightarrow> \<not> harmless (Exec (''git'' # args) cwd) \<Longrightarrow>
    w' = w @ [Exec (''git'' # args) cwd] \<and>
    effects an w [Exec (''git'' # args) cwd] = (case r of Inr c \<Rightarrow> if returncode c = 0 then [Exec (''git'' # args) cwd] else [] | Inl e \<Rightarrow> [])"
  by (auto simp: run_git_def reports_success_def split: launch.splits)

lemma base_only: "only harmless (case base_branch of None \<Rightarrow> ret () | Some b \<Rightarrow> ensure_base_resolvable (recorded an di ex re mk) root_dir b)"
  by (intro only_rules)

definition yields :: "(history \<Rightarrow> string list \<Rightarrow> string \<Rightarrow> launch) \<Rightarrow> (history, 'a) act \<Rightarrow> history \<Rightarrow>
    (event list \<Rightarrow> run_error + 'a \<Rightarrow> bool) \<Rightarrow> bool" where
  \<comment> \<open>run after \<open>w\<close>, the action's effects and its outcome satisfy \<open>Q\<close>\<close>
  "yields an m w Q \<longleftrightarrow> (\<exists>es. snd (m w) = w @ es \<and> Q (effects an w es) (fst (m w)))"

lemma yieldsD: "yields an m w Q \<Longrightarrow> m w = (out, w') \<Longrightarrow> \<exists>es. w' = w @ es \<and> Q (effects an w es) out"
  by (auto simp: yields_def)

lemma yields_ret: "Q [] (Inr x) \<Longrightarrow> yields an (ret x) w Q"
  and yields_fail: "Q [] (Inl e) \<Longrightarrow> yields an (fail e) w Q"
  by (simp_all add: yields_def)

lemma yields_bindS:
  assumes "yields an m w (\<lambda>efs out. case out of Inl e \<Rightarrow> Q efs (Inl e) | Inr x \<Rightarrow> True)"
    and "\<And>x es. m w = (Inr x, w @ es) \<Longrightarrow> yields an (f x) (w @ es) (\<lambda>efs out. Q (effects an w es @ efs) out)"
  shows "yields an (bindS m f) w Q"
proof -
  obtain r w1 where m: "m w = (r, w1)" by (cases "m w")
  obtain es where es: "w1 = w @ es" "case r of Inl e \<Rightarrow> Q (effects an w es) (Inl e) | Inr x \<Rightarrow> True"
    using yieldsD [OF assms(1) m] by blast
  show ?thesis
  proof (cases r)
    case (Inl e)
    with m es show ?thesis by (auto simp: yields_def bindS_def)
  next
    case (Inr x)
    with m es have "yields an (f x) (w @ es) (\<lambda>efs out. Q (effects an w es @ efs) out)" using assms(2) by simp
    then obtain es2 where "snd (f x (w @ es)) = (w @ es) @ es2" "Q (effects an w es @ effects an (w @ es) es2) (fst (f x (w @ es)))"
      by (auto simp: yields_def)
    moreover have "bindS m f w = f x (w @ es)" using m Inr es by (simp add: bindS_def)
    ultimately show ?thesis unfolding yields_def by (intro exI [where x = "es @ es2"]) (simp add: effects_append)
  qed
qed

lemma yields_harmless:
  assumes "only harmless m" and "\<And>e. Q [] (Inl e)"
    and "\<And>x es. m w = (Inr x, w @ es) \<Longrightarrow> yields an (f x) (w @ es) Q"
  shows "yields an (bindS m f) w Q"
proof -
  have none: "effects an w es = []" if "snd (m w) = w @ es" for es
  proof -
    obtain es' where "snd (m w) = w @ es'" "list_all harmless es'"
      using onlyD [OF assms(1), of w "fst (m w)" "snd (m w)"] by auto
    with that show ?thesis by simp
  qed
  show ?thesis
  proof (rule yields_bindS)
    obtain es where "snd (m w) = w @ es" "list_all harmless es"
      using onlyD [OF assms(1), of w "fst (m w)" "snd (m w)"] by auto
    with none assms(2) show "yields an m w (\<lambda>efs out. case out of Inl e \<Rightarrow> Q efs (Inl e) | Inr x \<Rightarrow> True)"
      by (auto simp: yields_def split: sum.split)
  next
    fix x es
    assume run: "m w = (Inr x, w @ es)"
    with none have "effects an w es = []" by simp
    with assms(3) [OF run] show "yields an (f x) (w @ es) (\<lambda>efs out. Q (effects an w es @ efs) out)" by simp
  qed
qed

lemma yields_run_git:
  assumes "\<not> harmless (Exec (''git'' # args) cwd)"
    and "\<And>e. Q [] (Inl e)"
    and "\<And>c. yields an (f c) (w @ [Exec (''git'' # args) cwd])
      (\<lambda>efs. Q ((if returncode c = 0 then [Exec (''git'' # args) cwd] else []) @ efs))"
  shows "yields an (bindS (run_git (recorded an di ex re mk) args cwd) f) w Q"
proof (rule yields_bindS)
  let ?m = "run_git (recorded an di ex re mk) args cwd"
  obtain r w1 where run: "?m w = (r, w1)" by (cases "?m w")
  note eff = run_git_effect [OF run assms(1)]
  show "yields an ?m w (\<lambda>efs out. case out of Inl e \<Rightarrow> Q efs (Inl e) | Inr x \<Rightarrow> True)"
    using run eff assms(2) by (auto simp: yields_def split: sum.split)
next
  fix c es
  assume "run_git (recorded an di ex re mk) args cwd w = (Inr c, w @ es)"
  from run_git_effect [OF this assms(1)] assms(3) [of c]
  show "yields an (f c) (w @ es) (\<lambda>efs out. Q (effects an w es @ efs) out)" by (simp split: if_splits)
qed

lemma yields_mkdir:
  assumes "\<And>e. Q [] (Inl e)" and "yields an (f ()) (w @ [Mkdir d]) Q"
  shows "yields an (bindS (h_mkdir (recorded an di ex re mk) d) f) w Q"
proof (rule yields_bindS)
  show "yields an (h_mkdir (recorded an di ex re mk) d) w (\<lambda>efs out. case out of Inl e \<Rightarrow> Q efs (Inl e) | Inr x \<Rightarrow> True)"
    using assms(1) by (auto simp: yields_def intro!: exI [where x = "[Mkdir d]"])
next
  fix x es
  assume "h_mkdir (recorded an di ex re mk) d w = (Inr x, w @ es)"
  then have "es = [Mkdir d]" by (simp split: if_splits)
  with assms(2) show "yields an (f x) (w @ es) (\<lambda>efs out. Q (effects an w es @ efs) out)" by simp
qed

lemma yields_if: "(b \<Longrightarrow> yields an m w Q) \<Longrightarrow> (\<not> b \<Longrightarrow> yields an m' w Q) \<Longrightarrow> yields an (if b then m else m') w Q"
  by simp

lemma yields_mono: "yields an m w Q \<Longrightarrow> (\<And>efs out. Q efs out \<Longrightarrow> Q' efs out) \<Longrightarrow> yields an m w Q'"
  unfolding yields_def by blast

lemma add_not_harmless: "\<not> harmless (Exec (''git'' # add_args b p base) cwd)"
  by (simp add: add_args_def)

definition created_at :: "string \<Rightarrow> string \<Rightarrow> string \<Rightarrow> bool" where
  \<comment> \<open>a directory of its own, right under the base directory of the repository at \<open>root_dir\<close>\<close>
  "created_at root_dir name p \<longleftrightarrow> (\<exists>d. dir_component d \<and> starts_with d (sanitize_dirname name) \<and>
     p = path_str (fst (base_dir_of root_dir), snd (base_dir_of root_dir) @ [d]))"

definition creation :: "(history \<Rightarrow> string \<Rightarrow> bool) \<Rightarrow> history \<Rightarrow> string \<Rightarrow> string option \<Rightarrow> event list \<Rightarrow> run_error + created_worktree \<Rightarrow> bool" where
  \<comment> \<open>what a creation may have done: nothing, or one worktree in a directory that did not exist\<close>
  "creation ex w name base efs out = (case out of
     Inl e \<Rightarrow> efs = []
   | Inr cw \<Rightarrow> \<exists>root_dir. efs = [Exec (''git'' # add_args name (cw_path cw) base) root_dir] \<and> cw_branch cw = name \<and>
       validate_branch_name name = Inr () \<and> created_at root_dir name (cw_path cw) \<and> (\<exists>seen. \<not> ex (w @ seen) (cw_path cw)))"

lemma creation_done:
  assumes "validate_branch_name name = Inr ()" and "resolve_worktree_path (recorded an di ex re mk) root_dir name (w @ es) = (Inr p, w')"
  shows "creation ex w name base [Exec (''git'' # add_args name (path_str p) base) root_dir]
    (Inr \<lparr>cw_path = path_str p, cw_branch = name\<rparr>)"
  using resolve_worktree_path_Inr [OF assms] assms(1) unfolding creation_def created_at_def
  by (auto intro: exI [where x = es])

lemma liftR_only: "only harmless (liftR r)"
  by (rule only_rules)

lemma create_worktree_creation:
  "yields an (create_worktree (recorded an di ex re mk) repo name base) w (creation ex w name base)"
proof -
  have err: "creation ex w name base [] (Inl e)" for e by (simp add: creation_def)
  show ?thesis
    unfolding create_worktree_def
    apply (rule yields_harmless, rule liftR_only, rule err)
    apply (rule yields_harmless, rule main_work_tree_only, rule err)
    apply (rule yields_harmless, rule local_branch_exists_only, rule err)
    apply (rule yields_if, rule yields_fail, rule err)
    apply (rule yields_harmless, rule base_only, rule err)
    apply (rule yields_harmless, rule resolve_worktree_path_only, rule err)
    apply (rule yields_mkdir, rule err)
    apply (rule yields_run_git, rule add_not_harmless, rule err)
    apply (rule yields_if)
     apply (rule yields_fail)
     apply (simp add: err)
    apply (rule yields_ret)
    apply (simp add: creation_done)
    done
qed

definition removal :: "string \<Rightarrow> string option \<Rightarrow> bool \<Rightarrow> event list \<Rightarrow> run_error + unit \<Rightarrow> bool" where
  \<comment> \<open>what a removal may have done: nothing, the worktree, or the worktree and then its branch\<close>
  "removal p branch delete_branch efs out \<longleftrightarrow>
     (efs = [] \<and> out \<noteq> Inr ()) \<or>
     (\<exists>repo. efs = [Exec [''git'', ''worktree'', ''remove'', ''--force'', p] repo] \<and> (out = Inr () \<longrightarrow> \<not> delete_branch \<or> branch = None)) \<or>
     (\<exists>repo b. efs = [Exec [''git'', ''worktree'', ''remove'', ''--force'', p] repo, Exec [''git'', ''branch'', ''-D'', b] repo] \<and>
        delete_branch \<and> branch = Some b \<and> out = Inr ())"

lemma main_repo_only [only_rules]: "only harmless (main_repo_for_worktree (recorded an di ex re mk) p)"
  unfolding main_repo_for_worktree_def Let_def by (intro only_rules) simp_all

lemma remove_worktree_removal:
  "yields an (remove_worktree (recorded an di ex re mk) p branch delete_branch) w (removal p branch delete_branch)"
proof -
  have err: "removal p branch delete_branch [] (Inl e)" for e by (simp add: removal_def)
  have one: "removal p branch delete_branch [Exec [''git'', ''worktree'', ''remove'', ''--force'', p] repo] (Inl e)"
    "\<not> delete_branch \<or> branch = None \<Longrightarrow>
      removal p branch delete_branch [Exec [''git'', ''worktree'', ''remove'', ''--force'', p] repo] (Inr ())" for repo e
    by (simp_all add: removal_def)
  show ?thesis
    unfolding remove_worktree_def
    apply (rule yields_harmless, rule main_repo_only, rule err)
    apply (rule yields_run_git, simp, rule err)
    apply (rule yields_if)
     apply (rule yields_fail, simp add: err)
    subgoal for repo es c
    proof (cases "if delete_branch then branch else None")
      case None
      assume c: "\<not> returncode c \<noteq> 0"
      have "\<not> delete_branch \<or> branch = None" using None by (auto split: if_splits)
      with c show ?thesis unfolding None option.case by (intro yields_ret) (simp add: one(2))
    next
      case (Some b)
      assume c: "\<not> returncode c \<noteq> 0"
      have b: "delete_branch" "branch = Some b" using Some by (simp_all split: if_splits)
      show ?thesis
        unfolding Some option.case
        apply (rule yields_run_git, simp)
         apply (use c in \<open>simp add: one\<close>)
        apply (rule yields_if)
         apply (rule yields_fail, use c in \<open>simp add: one\<close>)
        apply (rule yields_ret, use c b in \<open>simp add: removal_def\<close>)
        done
    qed
    done
qed

section \<open>The listing\<close>

definition porcelain :: "string \<Rightarrow> worktree_info \<Rightarrow> string" where
  \<comment> \<open>an entry of \<open>git worktree list --porcelain\<close>\<close>
  "porcelain sha i = ''worktree '' @ wi_path i @ [CHR 0x0A] @ ''HEAD '' @ sha @ [CHR 0x0A] @
     (case wi_branch i of
        Some b \<Rightarrow> ''branch refs/heads/'' @ b
      | None \<Rightarrow> if wi_detached i then ''detached'' else ''bare'') @ [CHR 0x0A] @ [CHR 0x0A]"

definition entry_ok :: "worktree_info \<Rightarrow> bool" where
  "entry_ok i \<longleftrightarrow> one_line (wi_path i) \<and>
     (case wi_branch i of None \<Rightarrow> True | Some b \<Rightarrow> one_line (''refs/heads/'' @ b) \<and> \<not> wi_detached i)"

lemma plain_line: "list_all (\<lambda>c. \<not> is_line_end c) ''worktree ''" "list_all (\<lambda>c. \<not> is_line_end c) ''HEAD ''"
  "list_all (\<lambda>c. \<not> is_line_end c) ''branch ''" "list_all (\<lambda>c. \<not> is_line_end c) ''detached''" "list_all (\<lambda>c. \<not> is_line_end c) ''bare''"
  by (simp_all add: is_line_end_def)

lemma porcelain_lines:
  assumes "entry_ok i" and "list_all (\<lambda>c. \<not> is_line_end c) sha"
  shows "splitlines (porcelain sha i @ rest) = (''worktree '' @ wi_path i) # (''HEAD '' @ sha) #
    (case wi_branch i of Some b \<Rightarrow> ''branch '' @ ''refs/heads/'' @ b | None \<Rightarrow> if wi_detached i then ''detached'' else ''bare'') #
    [] # splitlines rest"
proof -
  have p: "list_all (\<lambda>c. \<not> is_line_end c) (''worktree '' @ wi_path i)" "list_all (\<lambda>c. \<not> is_line_end c) (''HEAD '' @ sha)"
    using assms plain_line by (simp_all only: entry_ok_def one_line_def list_all_append)
  let ?b = "case wi_branch i of Some b \<Rightarrow> ''branch '' @ ''refs/heads/'' @ b | None \<Rightarrow> if wi_detached i then ''detached'' else ''bare''"
  have b: "list_all (\<lambda>c. \<not> is_line_end c) ?b"
    using assms(1) plain_line by (cases "wi_branch i") (simp_all add: entry_ok_def one_line_def)
  have "porcelain sha i @ rest = (''worktree '' @ wi_path i) @ CHR 0x0A # (''HEAD '' @ sha) @ CHR 0x0A # ?b @ CHR 0x0A # [] @ CHR 0x0A # rest"
    by (simp add: porcelain_def split: option.split)
  then show ?thesis
    using splitlines_line [OF p(1)] splitlines_line [OF p(2)] splitlines_line [OF b] splitlines_line [of "[]" rest]
    by (simp only: list.pred_inject)
qed

lemma listing_step:
  assumes "entry_ok i"
  shows "worktree_entries ((''worktree '' @ wi_path i) # (''HEAD '' @ sha) #
      (case wi_branch i of Some b \<Rightarrow> ''branch '' @ ''refs/heads/'' @ b | None \<Rightarrow> if wi_detached i then ''detached'' else ''bare'') #
      [] # rest) acc path branch detached =
    worktree_entries rest (acc @ [i\<lparr>wi_is_main := (acc = [])\<rparr>]) None (wi_branch i) (wi_detached i)"
proof (cases "wi_branch i")
  case None
  have p: "strip (wi_path i) = wi_path i" using assms by (simp add: entry_ok_def one_line_def)
  with None show ?thesis by (cases i) (simp add: starts_with_def)
next
  case (Some b)
  have p: "strip (wi_path i) = wi_path i" "strip (''refs/heads/'' @ b) = ''refs/heads/'' @ b" "\<not> wi_detached i"
    using assms Some by (simp_all add: entry_ok_def one_line_def)
  then have "ref_branch (strip (''refs/heads/'' @ b)) = b" by (simp add: ref_branch_def starts_with_def)
  with Some p show ?thesis by (cases i) (simp add: starts_with_def)
qed

lemma listing_parse:
  assumes "list_all entry_ok infos" and "list_all (\<lambda>c. \<not> is_line_end c) sha"
  shows "worktree_entries (splitlines (concat (map (porcelain sha) infos))) acc None branch detached =
    acc @ (case infos of [] \<Rightarrow> [] | i # is \<Rightarrow> i\<lparr>wi_is_main := (acc = [])\<rparr> # map (\<lambda>j. j\<lparr>wi_is_main := False\<rparr>) is)"
  using assms(1)
proof (induction infos arbitrary: acc branch detached)
  case (Cons i infos)
  then have ok: "entry_ok i" by simp
  have "worktree_entries (splitlines (concat (map (porcelain sha) (i # infos)))) acc None branch detached =
      worktree_entries (splitlines (concat (map (porcelain sha) infos))) (acc @ [i\<lparr>wi_is_main := (acc = [])\<rparr>]) None (wi_branch i) (wi_detached i)"
    using porcelain_lines [OF ok assms(2)] listing_step [OF ok] by simp
  with Cons show ?case by (cases infos) simp_all
qed simp

lemma first_worktree_listing:
  assumes "entry_ok i" and "list_all (\<lambda>c. \<not> is_line_end c) sha"
  shows "first_worktree (splitlines (porcelain sha i @ rest)) = Some (wi_path i)"
  using porcelain_lines [OF assms, of rest] assms(1) by (simp add: starts_with_def entry_ok_def one_line_def)

section \<open>Properties\<close>

text \<open>
  creating a worktree is all or nothing: whatever git answers, a creation that fails leaves git
  unchanged, and one that succeeds has executed exactly one changing command, the \<open>worktree add\<close> of
  the validated branch in a directory of its own right under the base directory, seen not to exist.
\<close>

theorem worktree_creation_is_all_or_nothing:
  assumes "create_worktree (recorded an di ex re mk) repo name base w = (out, w')"
  shows "\<exists>es. w' = w @ es \<and> (case out of
      Inl e \<Rightarrow> effects an w es = []
    | Inr cw \<Rightarrow> \<exists>root_dir. effects an w es = [Exec (''git'' # add_args name (cw_path cw) base) root_dir] \<and> cw_branch cw = name \<and>
        validate_branch_name name = Inr () \<and> created_at root_dir name (cw_path cw) \<and> (\<exists>seen. \<not> ex (w @ seen) (cw_path cw)))"
  using yieldsD [OF create_worktree_creation [where an = an] assms] unfolding creation_def .

definition ex_git :: "history \<Rightarrow> string list \<Rightarrow> string \<Rightarrow> launch" where
  \<comment> \<open>a repository at \<open>/r\<close> in which no branch exists yet\<close>
  "ex_git w argv cwd =
     (if argv = [''git'', ''worktree'', ''list'', ''--porcelain'']
      then Completed \<lparr>returncode = 0, stdout = ''worktree /r'' @ [CHR 0x0A], stderr = []\<rparr>
      else if take 3 argv = [''git'', ''rev-parse'', ''--verify''] then Completed \<lparr>returncode = 1, stdout = [], stderr = []\<rparr>
      else Completed \<lparr>returncode = 0, stdout = [], stderr = []\<rparr>)"

definition ex_host :: "history host" where
  "ex_host = recorded ex_git (\<lambda>w p. True) (\<lambda>w p. False) (\<lambda>w p. p) (\<lambda>w p. True)"

theorem worktree_creation_is_all_or_nothing_witness:
  "\<exists>es. snd (create_worktree ex_host ''/r'' ''b/1'' None []) = es \<and>
     effects ex_git [] es = [Exec [''git'', ''worktree'', ''add'', ''-b'', ''b/1'', ''/r-worktrees/b-1''] ''/r'']"
proof -
  have run: "create_worktree ex_host ''/r'' ''b/1'' None [] =
    (Inr \<lparr>cw_path = ''/r-worktrees/b-1'', cw_branch = ''b/1''\<rparr>,
     [Exec [''git'', ''worktree'', ''list'', ''--porcelain''] ''/r'',
      Exec [''git'', ''rev-parse'', ''--verify'', ''--quiet'', ''refs/heads/b/1''] ''/r'', Mkdir ''/r-worktrees'',
      Exec [''git'', ''worktree'', ''add'', ''-b'', ''b/1'', ''/r-worktrees/b-1''] ''/r''])"
    by code_simp
  from worktree_creation_is_all_or_nothing [OF run [unfolded ex_host_def]]
  show ?thesis unfolding run by (auto simp: reports_success_def ex_git_def add_args_def)
qed

text \<open>
  removing a worktree deletes its branch only when asked to and only after git removed the
  worktree; when it returns normally all that was asked for was done, and no other git command that
  changes anything is ever executed.
\<close>

theorem branch_deleted_only_after_its_worktree:
  assumes "remove_worktree (recorded an di ex re mk) p branch delete_branch w = (out, w')"
  shows "\<exists>es. w' = w @ es \<and> removal p branch delete_branch (effects an w es) out"
  using yieldsD [OF remove_worktree_removal [where an = an] assms] .

text \<open>
  the listing reads back what git prints: for every list of worktrees whose paths and branches
  fit on a line, with the main one first, the parsed entries are exactly those worktrees.
\<close>

theorem worktree_listing_round_trip:
  assumes "list_all entry_ok infos" and "list_all (\<lambda>c. \<not> is_line_end c) sha"
    and "map wi_is_main infos = True # replicate (length infos - 1) False"
    and "\<And>w cwd. an w [''git'', ''worktree'', ''list'', ''--porcelain''] cwd =
      Completed \<lparr>returncode = 0, stdout = concat (map (porcelain sha) infos), stderr = []\<rparr>"
    and "di w (path_str (parse_path repo))"
  shows "fst (list_worktrees (recorded an di ex re mk) repo w) = Inr infos"
proof -
  obtain i rest where infos: "infos = i # rest" using assms(3) by (cases infos) auto
  with assms(1) have ok: "entry_ok i" by simp
  have flags: "map wi_is_main rest = replicate (length rest) False" "wi_is_main i" using assms(3) infos by auto
  have "j\<lparr>wi_is_main := False\<rparr> = j" if "j \<in> set rest" for j
  proof -
    from that have "wi_is_main j \<in> set (replicate (length rest) False)" unfolding flags(1) [symmetric] by simp
    then have "\<not> wi_is_main j" by simp
    then show ?thesis by simp
  qed
  then have same: "map (\<lambda>j. j\<lparr>wi_is_main := False\<rparr>) rest = rest" "i\<lparr>wi_is_main := True\<rparr> = i"
    using flags(2) by (simp_all add: map_idI)
  let ?text = "concat (map (porcelain sha) infos)"
  have "worktree_entries (splitlines ?text) [] None None False = infos"
    using listing_parse [OF assms(1,2), of "[]"] same unfolding infos by simp
  moreover have "first_worktree (splitlines ?text) = Some (wi_path i)"
    using first_worktree_listing [OF ok assms(2)] unfolding infos by simp
  ultimately show ?thesis
    using assms(4,5) by (simp add: list_worktrees_def main_work_tree_def bindS_def run_git_def)
qed

definition ex_infos :: "worktree_info list" where
  "ex_infos = [\<lparr>wi_path = ''/r'', wi_branch = Some ''main'', wi_is_main = True, wi_detached = False\<rparr>,
     \<lparr>wi_path = ''/r-worktrees/a b'', wi_branch = None, wi_is_main = False, wi_detached = True\<rparr>]"

theorem worktree_listing_round_trip_witness:
  "fst (list_worktrees (recorded (\<lambda>w argv cwd. Completed \<lparr>returncode = 0,
     stdout = concat (map (porcelain ''4b1d'') ex_infos), stderr = []\<rparr>) (\<lambda>w p. True) (\<lambda>w p. True) (\<lambda>w p. p) (\<lambda>w p. True)) ''/r'' []) =
   Inr ex_infos"
proof (rule worktree_listing_round_trip)
  show "list_all entry_ok ex_infos" by code_simp
  show "list_all (\<lambda>c. \<not> is_line_end c) ''4b1d''" by code_simp
qed (simp_all add: ex_infos_def)

theorem branch_deleted_only_after_its_worktree_witness:
  "removal ''/w'' (Some ''b'') True [Exec [''git'', ''worktree'', ''remove'', ''--force'', ''/w''] ''/'',
     Exec [''git'', ''branch'', ''-D'', ''b''] ''/''] (Inr ())"
proof -
  let ?h = "recorded ex_git (\<lambda>w p. True) (\<lambda>w p. True) (\<lambda>w p. p) (\<lambda>w p. True)"
  have run: "remove_worktree ?h ''/w'' (Some ''b'') True [] =
    (Inr (), [Exec [''git'', ''rev-parse'', ''--git-common-dir''] ''/w'',
      Exec [''git'', ''worktree'', ''remove'', ''--force'', ''/w''] ''/'', Exec [''git'', ''branch'', ''-D'', ''b''] ''/''])"
    by code_simp
  from branch_deleted_only_after_its_worktree [OF run] show ?thesis
    by (simp add: reports_success_def ex_git_def)
qed

end
