(* ===== verification/Pivot_Tournament.thy ===== *)
theory Pivot_Tournament
  imports Py_Prelude
begin

text \<open>
  The Probabilistic Pivot Tournament of \<^verbatim>\<open>llm_verifier/pivot_tournament.py\<close>: the random
  Hamiltonian ring, the soft-win accumulator, the pivot selection, the pivot rounds and the
  selection of the winner. Python floats are exact real numbers here (rounding is not modelled);
  \<open>w\<close> and \<open>c\<close> are the lists of soft wins and of comparison counts that the code mutates in place.
\<close>

section \<open>Definitions\<close>

fun shuffle_from :: "(nat \<Rightarrow> nat) \<Rightarrow> nat \<Rightarrow> 'a list \<Rightarrow> 'a list" where
  "shuffle_from draw 0 xs = xs"
| "shuffle_from draw (Suc i) xs =
     (let j = draw (Suc i) mod Suc (Suc i)
      in shuffle_from draw i (xs[Suc i := xs ! j, j := xs ! Suc i]))"

definition shuffle :: "(nat \<Rightarrow> nat) \<Rightarrow> 'a list \<Rightarrow> 'a list" where
  \<comment> \<open>\<open>rng.shuffle\<close>: for \<open>i\<close> from the last index down to 1, swap \<open>xs[i]\<close> with \<open>xs[randbelow(i + 1)]\<close>;
     \<open>draw i\<close> is the number the generator yields at step \<open>i\<close>\<close>
  "shuffle draw xs = shuffle_from draw (length xs - 1) xs"

definition ring_cycle :: "nat \<Rightarrow> (nat \<Rightarrow> nat) \<Rightarrow> (nat \<times> nat) list" where
  "ring_cycle n draw =
     (if n \<le> 1 then []
      else let perm = shuffle draw [0..<n]
           in map (\<lambda>t. (perm ! t, perm ! ((t + 1) mod n))) [0..<n])"

definition bradley_terry :: "real \<Rightarrow> real \<Rightarrow> real" where
  "bradley_terry ra rb = 1 / (1 + exp (- (ra - rb)))"

type_synonym score_fun = "nat \<Rightarrow> nat \<Rightarrow> real \<times> real"

fun accumulate :: "(nat \<times> nat) list \<Rightarrow> score_fun \<Rightarrow> real list \<times> nat list \<Rightarrow> (real list \<times> nat list) res" where
  "accumulate [] score (w, c) = Inr (w, c)"
| "accumulate ((a, b) # pairs) score (w, c) =
     (let (ra, rb) = score a b;
          p = bradley_terry ra rb
      in if a < length w \<and> a < length c \<and> b < length w \<and> b < length c then
           let w1 = w[a := w ! a + p];
               c1 = c[a := c ! a + 1];
               w2 = w1[b := w1 ! b + (1 - p)];
               c2 = c1[b := c1 ! b + 1]
           in accumulate pairs score (w2, c2)
         else Inl IndexError)"

definition mean_pref :: "real list \<Rightarrow> nat list \<Rightarrow> nat \<Rightarrow> real" where
  \<comment> \<open>\<open>w[i] / c[i] if c[i] else 0.0\<close>\<close>
  "mean_pref w c i = (if c ! i \<noteq> 0 then w ! i / real (c ! i) else 0)"

definition slice_to :: "int \<Rightarrow> 'a list \<Rightarrow> 'a list" where
  \<comment> \<open>\<open>xs[:k]\<close>, a negative \<open>k\<close> counting from the end\<close>
  "slice_to k xs = (if k < 0 then take (nat (int (length xs) + k)) xs else take (nat k) xs)"

definition select_pivots :: "real list \<Rightarrow> nat list \<Rightarrow> int \<Rightarrow> nat list" where
  "select_pivots w c k =
     (let n = length w;
          k' = min k (int n);
          order = sort_key (\<lambda>i. (- mean_pref w c i, i)) [0..<n]
      in slice_to k' order)"

fun combinations2 :: "'a list \<Rightarrow> ('a \<times> 'a) list" where
  \<comment> \<open>\<open>itertools.combinations(xs, 2)\<close>\<close>
  "combinations2 [] = []"
| "combinations2 (x # xs) = map (\<lambda>y. (x, y)) xs @ combinations2 xs"

definition pivot_round_pairs :: "nat \<Rightarrow> nat list \<Rightarrow> (nat \<times> nat) list" where
  "pivot_round_pairs n pivots =
     (let non_pivots = filter (\<lambda>i. i \<notin> set pivots) [0..<n]
      in concat (map (\<lambda>i. map (\<lambda>p. (i, p)) pivots) non_pivots) @ combinations2 (sort pivots))"

definition best_index :: "nat \<Rightarrow> real list \<Rightarrow> nat list \<Rightarrow> nat res" where
  \<comment> \<open>\<open>max(range(n), key=lambda i: (w[i] / c[i] if c[i] else 0.0, -i))\<close>\<close>
  "best_index n w c = py_max (\<lambda>i. (mean_pref w c i, - int i)) [0..<n]"

definition select_best :: "nat \<Rightarrow> (nat \<times> nat) list \<Rightarrow> int \<Rightarrow> score_fun \<Rightarrow> (nat \<times> nat) res" where
  "select_best n ring k score =
     bindR (accumulate ring score (replicate n 0, replicate n 0)) (\<lambda>(w, c).
       let pivots = select_pivots w c k;
           pr_pairs = pivot_round_pairs n pivots
       in bindR (accumulate pr_pairs score (w, c)) (\<lambda>(w', c').
            bindR (best_index n w' c') (\<lambda>best.
              Inr (best, length ring + length pr_pairs))))"

section \<open>The ring\<close>

lemma length_shuffle_from [simp]: "length (shuffle_from draw i xs) = length xs"
  by (induction draw i xs rule: shuffle_from.induct) (auto simp: Let_def)

lemma mset_shuffle_from: "i < length xs \<Longrightarrow> mset (shuffle_from draw i xs) = mset xs"
proof (induction draw i xs rule: shuffle_from.induct)
  case (2 draw i xs)
  let ?j = "draw (Suc i) mod Suc (Suc i)"
  have j: "?j < length xs" using "2.prems" mod_less_divisor [of "Suc (Suc i)" "draw (Suc i)"] by linarith
  have "mset (shuffle_from draw (Suc i) xs) = mset (xs[Suc i := xs ! ?j, ?j := xs ! Suc i])"
    using 2 by (simp add: Let_def)
  also have "\<dots> = mset xs"
    using mset_swap [OF j "2.prems"] by simp
  finally show ?case .
qed simp

lemma mset_shuffle: "mset (shuffle draw xs) = mset xs"
  by (cases xs) (simp_all add: shuffle_def mset_shuffle_from)

lemma shuffle_perm:
  "distinct (shuffle draw [0..<n]) \<and> set (shuffle draw [0..<n]) = {0..<n} \<and> length (shuffle draw [0..<n]) = n"
proof -
  have m: "mset (shuffle draw [0..<n]) = mset [0..<n]" by (rule mset_shuffle)
  then show ?thesis
    by (metis atLeastLessThan_upt diff_zero distinct_upt length_upt mset_eq_imp_distinct_iff mset_eq_length mset_eq_setD)
qed

lemma ring_cycle_zip:
  fixes draw :: "nat \<Rightarrow> nat"
  assumes "2 \<le> n"
  defines "perm \<equiv> shuffle draw [0..<n]"
  shows "ring_cycle n draw = zip perm (rotate1 perm)"
proof (rule nth_equalityI)
  have len: "length perm = n" using shuffle_perm perm_def by blast
  show l: "length (ring_cycle n draw) = length (zip perm (rotate1 perm))"
    using assms len by (simp add: ring_cycle_def Let_def)
  fix t assume "t < length (ring_cycle n draw)"
  with assms have t: "t < n" by (simp add: ring_cycle_def Let_def)
  have "rotate1 perm ! t = perm ! (Suc t mod n)"
    using t len by (simp add: nth_rotate1)
  with t len assms show "ring_cycle n draw ! t = zip perm (rotate1 perm) ! t"
    by (simp add: ring_cycle_def Let_def)
qed

lemma ring_cycle_fst: "2 \<le> n \<Longrightarrow> map fst (ring_cycle n draw) = shuffle draw [0..<n]"
  by (simp add: ring_cycle_zip)

lemma ring_cycle_snd: "2 \<le> n \<Longrightarrow> map snd (ring_cycle n draw) = rotate1 (shuffle draw [0..<n])"
  by (simp add: ring_cycle_zip)

lemma length_ring_cycle: "2 \<le> n \<Longrightarrow> length (ring_cycle n draw) = n"
  by (simp add: ring_cycle_def Let_def)

lemma ring_cycle_range: "(a, b) \<in> set (ring_cycle n draw) \<Longrightarrow> a < n \<and> b < n"
proof -
  assume ab: "(a, b) \<in> set (ring_cycle n draw)"
  show ?thesis
  proof (cases "n \<le> 1")
    case True
    with ab show ?thesis by (simp add: ring_cycle_def)
  next
    case False
    then have "a \<in> set (shuffle draw [0..<n])" "b \<in> set (rotate1 (shuffle draw [0..<n]))"
      using ab ring_cycle_zip [of n draw] by (auto dest: set_zip_leftD set_zip_rightD)
    then show ?thesis using shuffle_perm [of draw n] by simp
  qed
qed

section \<open>The accumulator in closed form\<close>

text \<open>
  \<open>soft_win\<close> is what one comparison adds to candidate \<open>i\<close>; \<open>soft_wins\<close> and \<open>appearances\<close> sum
  over a list of comparisons, so the accumulated state does not depend on their order.
\<close>

definition soft_win :: "score_fun \<Rightarrow> nat \<Rightarrow> nat \<times> nat \<Rightarrow> real" where
  "soft_win score i = (\<lambda>(a, b).
     let p = bradley_terry (fst (score a b)) (snd (score a b))
     in (if a = i then p else 0) + (if b = i then 1 - p else 0))"

definition soft_wins :: "score_fun \<Rightarrow> (nat \<times> nat) list \<Rightarrow> nat \<Rightarrow> real" where
  "soft_wins score pairs i = (\<Sum>ab \<leftarrow> pairs. soft_win score i ab)"

definition appearance :: "nat \<Rightarrow> nat \<times> nat \<Rightarrow> nat" where
  "appearance i = (\<lambda>(a, b). (if a = i then 1 else 0) + (if b = i then 1 else 0))"

definition appearances :: "(nat \<times> nat) list \<Rightarrow> nat \<Rightarrow> nat" where
  "appearances pairs i = (\<Sum>ab \<leftarrow> pairs. appearance i ab)"

definition pairs_within :: "nat \<Rightarrow> (nat \<times> nat) list \<Rightarrow> bool" where
  "pairs_within n pairs \<longleftrightarrow> list_all (\<lambda>(a, b). a < n \<and> b < n) pairs"

lemma pairs_within_simps [simp]:
  "pairs_within n []"
  "pairs_within n ((a, b) # ps) \<longleftrightarrow> a < n \<and> b < n \<and> pairs_within n ps"
  "pairs_within n (ps @ qs) \<longleftrightarrow> pairs_within n ps \<and> pairs_within n qs"
  by (auto simp: pairs_within_def)

lemma soft_wins_simps [simp]:
  "soft_wins score [] i = 0"
  "soft_wins score (ab # ps) i = soft_win score i ab + soft_wins score ps i"
  "soft_wins score (ps @ qs) i = soft_wins score ps i + soft_wins score qs i"
  by (simp_all add: soft_wins_def)

lemma appearances_simps [simp]:
  "appearances [] i = 0"
  "appearances (ab # ps) i = appearance i ab + appearances ps i"
  "appearances (ps @ qs) i = appearances ps i + appearances qs i"
  by (simp_all add: appearances_def)

lemma appearances_count: "appearances pairs i = count_list (map fst pairs) i + count_list (map snd pairs) i"
  by (induction pairs) (auto simp: appearance_def split: prod.splits)

lemma accumulate_closed:
  assumes "length w = n" and "length c = n" and "pairs_within n pairs"
  shows "accumulate pairs score (w, c) =
    Inr (map (\<lambda>i. w ! i + soft_wins score pairs i) [0..<n], map (\<lambda>i. c ! i + appearances pairs i) [0..<n])"
  using assms
proof (induction pairs arbitrary: w c)
  case Nil
  then show ?case by (auto intro: nth_equalityI)
next
  case (Cons ab pairs)
  obtain a b where ab: "ab = (a, b)" by (cases ab)
  obtain ra rb where sc: "score a b = (ra, rb)" by (cases "score a b")
  define p where "p = bradley_terry ra rb"
  from Cons.prems ab have r: "a < n" "b < n" "pairs_within n pairs" by auto
  let ?w = "(w[a := w ! a + p])[b := w[a := w ! a + p] ! b + (1 - p)]"
  let ?c = "(c[a := c ! a + 1])[b := c[a := c ! a + 1] ! b + 1]"
  have "accumulate (ab # pairs) score (w, c) = accumulate pairs score (?w, ?c)"
    using r Cons.prems by (simp add: ab sc p_def Let_def)
  also have "\<dots> = Inr (map (\<lambda>i. ?w ! i + soft_wins score pairs i) [0..<n], map (\<lambda>i. ?c ! i + appearances pairs i) [0..<n])"
    using Cons.prems r by (intro Cons.IH) auto
  also have "\<dots> = Inr (map (\<lambda>i. w ! i + soft_wins score (ab # pairs) i) [0..<n], map (\<lambda>i. c ! i + appearances (ab # pairs) i) [0..<n])"
    using Cons.prems r by (auto simp: ab sc p_def soft_win_def appearance_def nth_list_update)
  finally show ?case .
qed

lemma accumulate_out_of_range:
  "length w = n \<Longrightarrow> length c = n \<Longrightarrow> \<not> pairs_within n pairs \<Longrightarrow> accumulate pairs score (w, c) = Inl IndexError"
proof (induction pairs arbitrary: w c)
  case (Cons ab pairs)
  then show ?case
    by (cases ab) (auto simp: Let_def split: prod.splits)
qed simp

lemma sigmoid_facts:
  fixes y z :: real
  assumes "0 < y"
  shows "0 < 1 / (1 + y)" "1 / (1 + y) < 1" "1 / (1 + inverse y) = 1 - 1 / (1 + y)"
    "1 / 2 < 1 / (1 + y) \<longleftrightarrow> y < 1" "y \<le> z \<Longrightarrow> 1 / (1 + z) \<le> 1 / (1 + y)"
  using assms by (auto simp: field_simps)

lemma bradley_terry_bounds: "0 < bradley_terry ra rb" "bradley_terry ra rb < 1"
  unfolding bradley_terry_def by (rule sigmoid_facts, simp)+

lemma bradley_terry_tie [simp]: "bradley_terry r r = 1 / 2"
  by (simp add: bradley_terry_def)

lemma bradley_terry_swap: "bradley_terry rb ra = 1 - bradley_terry ra rb"
proof -
  have "exp (- (rb - ra)) = inverse (exp (- (ra - rb)))"
    by (simp add: exp_minus [symmetric])
  then show ?thesis
    unfolding bradley_terry_def by (simp only: sigmoid_facts(3) exp_gt_zero)
qed

lemma bradley_terry_half_iff: "1 / 2 < bradley_terry ra rb \<longleftrightarrow> rb < ra"
  unfolding bradley_terry_def by (subst sigmoid_facts(4)) auto

lemma bradley_terry_mono: "ra - rb \<le> ra' - rb' \<Longrightarrow> bradley_terry ra rb \<le> bradley_terry ra' rb'"
  unfolding bradley_terry_def by (rule sigmoid_facts(5)) auto

lemma soft_win_bounds:
  "0 \<le> soft_win score i ab"
  "appearance i ab \<noteq> 0 \<Longrightarrow> 0 < soft_win score i ab"
  "soft_win score i ab \<le> real (appearance i ab)"
  "fst ab \<noteq> snd ab \<Longrightarrow> appearance i ab \<noteq> 0 \<Longrightarrow> soft_win score i ab < real (appearance i ab)"
proof -
  obtain a b where ab: "ab = (a, b)" by (cases ab)
  define p where "p = bradley_terry (fst (score a b)) (snd (score a b))"
  have p: "0 < p" "p < 1" unfolding p_def by (rule bradley_terry_bounds)+
  have sw: "soft_win score i ab = (if a = i then p else 0) + (if b = i then 1 - p else 0)"
    by (simp add: soft_win_def ab p_def Let_def)
  have ap: "appearance i ab = (if a = i then 1 else 0) + (if b = i then 1 else 0)"
    by (simp add: appearance_def ab)
  show "0 \<le> soft_win score i ab" using p by (simp add: sw)
  show "appearance i ab \<noteq> 0 \<Longrightarrow> 0 < soft_win score i ab" using p by (auto simp: sw ap split: if_splits)
  show "soft_win score i ab \<le> real (appearance i ab)" using p by (simp add: sw ap)
  show "fst ab \<noteq> snd ab \<Longrightarrow> appearance i ab \<noteq> 0 \<Longrightarrow> soft_win score i ab < real (appearance i ab)"
    using p unfolding sw ap by (auto simp: ab split: if_splits)
qed

lemma soft_wins_nonneg: "0 \<le> soft_wins score pairs i"
  by (induction pairs) (auto intro: add_nonneg_nonneg soft_win_bounds(1))

lemma soft_wins_le: "soft_wins score pairs i \<le> real (appearances pairs i)"
proof (induction pairs)
  case (Cons ab ps)
  then show ?case using soft_win_bounds(3) [of score i ab] by simp
qed simp

lemma soft_wins_pos: "appearances pairs i \<noteq> 0 \<Longrightarrow> 0 < soft_wins score pairs i"
proof (induction pairs)
  case (Cons ab ps)
  then show ?case
    using soft_win_bounds(1,2) [where score = score and i = i and ab = ab] soft_wins_nonneg [of score ps i]
    by (cases "appearance i ab = 0") auto
qed simp

lemma soft_wins_less:
  "appearances pairs i \<noteq> 0 \<Longrightarrow> list_all (\<lambda>ab. fst ab \<noteq> snd ab) pairs \<Longrightarrow>
   soft_wins score pairs i < real (appearances pairs i)"
proof (induction pairs)
  case (Cons ab ps)
  have le: "soft_win score i ab \<le> real (appearance i ab)" "soft_wins score ps i \<le> real (appearances ps i)"
    by (rule soft_win_bounds(3), rule soft_wins_le)
  show ?case
  proof (cases "appearance i ab = 0")
    case True
    with Cons have "soft_wins score ps i < real (appearances ps i)" by simp
    with le show ?thesis by simp
  next
    case False
    with Cons.prems have "soft_win score i ab < real (appearance i ab)"
      by (intro soft_win_bounds(4)) auto
    with le show ?thesis by simp
  qed
qed simp

section \<open>Pivots\<close>

lemma slice_to_nat [simp]: "slice_to (int k) xs = take k xs"
  by (simp add: slice_to_def)

lemma select_pivots_take:
  "select_pivots w c (int k) = take k (sort_key (\<lambda>i. (- mean_pref w c i, i)) [0..<length w])"
proof -
  have "min (int k) (int (length w)) = int (min k (length w))" by simp
  then show ?thesis
    by (simp add: select_pivots_def Let_def take_all_iff min_def)
qed

lemma select_pivots_perm:
  "distinct (select_pivots w c (int k))"
  "set (select_pivots w c (int k)) \<subseteq> {0..<length w}"
  "length (select_pivots w c (int k)) = min k (length w)"
proof -
  show "set (select_pivots w c (int k)) \<subseteq> {0..<length w}"
    using set_take_subset [of k "sort_key (\<lambda>i. (- mean_pref w c i, i)) [0..<length w]"]
    by (simp add: select_pivots_take)
qed (simp_all add: select_pivots_take distinct_take)

lemma select_pivots_leaders:
  assumes "p \<in> set (select_pivots w c (int k))"
    and "i < length w" and "i \<notin> set (select_pivots w c (int k))"
  shows "mean_pref w c i < mean_pref w c p \<or> (mean_pref w c i = mean_pref w c p \<and> p < i)"
proof -
  let ?f = "\<lambda>i. (- mean_pref w c i, i)"
  let ?xs = "sort_key ?f [0..<length w]"
  have tk: "p \<in> set (take k ?xs)" and "i \<notin> set (take k ?xs)"
    using assms by (simp_all add: select_pivots_take)
  moreover have "i \<in> set ?xs" using assms(2) by simp
  ultimately have dr: "i \<in> set (drop k ?xs)"
    by (metis append_take_drop_id set_append Un_iff)
  have "sorted (map ?f (take k ?xs @ drop k ?xs))" by (simp del: map_append)
  then have "?f p \<le> ?f i" using tk dr by (simp only: map_append sorted_append) auto
  moreover have "p \<noteq> i" using tk \<open>i \<notin> set (take k ?xs)\<close> by auto
  ultimately show ?thesis by (auto simp: less_eq_prod_def)
qed

section \<open>The pivot rounds\<close>

lemma length_combinations2: "length (combinations2 xs) = length xs choose 2"
  by (induction xs) (simp_all add: numeral_2_eq_2)

lemma set_combinations2_sub: "ab \<in> set (combinations2 xs) \<Longrightarrow> fst ab \<in> set xs \<and> snd ab \<in> set xs"
  by (induction xs) auto

lemma combinations2_neq: "distinct xs \<Longrightarrow> ab \<in> set (combinations2 xs) \<Longrightarrow> fst ab \<noteq> snd ab"
  by (induction xs) auto

lemma combinations2_less:
  "sorted xs \<Longrightarrow> distinct xs \<Longrightarrow> ab \<in> set (combinations2 xs) \<Longrightarrow> fst ab < snd ab"
  by (induction xs) (auto simp: order.strict_iff_order)

lemma appearances_map_Pair:
  "appearances (map (\<lambda>y. (x, y)) ys) i = (if x = i then length ys else 0) + count_list ys i"
  by (induction ys) (auto simp: appearance_def)

lemma appearances_combinations2:
  "distinct xs \<Longrightarrow> appearances (combinations2 xs) i = (if i \<in> set xs then length xs - 1 else 0)"
proof (induction xs)
  case (Cons x xs)
  then have IH: "appearances (combinations2 xs) i = (if i \<in> set xs then length xs - 1 else 0)"
    and x: "x \<notin> set xs" by auto
  have "count_list xs i = (if i \<in> set xs then 1 else 0)"
    using Cons.prems by (simp add: count_list_distinct)
  moreover have "i \<in> set xs \<Longrightarrow> Suc (length xs - 1) = length xs"
    by (cases xs) auto
  ultimately show ?case
    using IH x by (auto simp: appearances_map_Pair)
qed simp

definition cross_pairs :: "nat list \<Rightarrow> nat list \<Rightarrow> (nat \<times> nat) list" where
  "cross_pairs is ps = concat (map (\<lambda>i. map (\<lambda>p. (i, p)) ps) is)"

lemma cross_pairs_simps [simp]:
  "cross_pairs [] ps = []"
  "cross_pairs (i # is) ps = map (\<lambda>p. (i, p)) ps @ cross_pairs is ps"
  by (simp_all add: cross_pairs_def)

lemma set_cross_pairs: "set (cross_pairs is ps) = set is \<times> set ps"
  by (induction "is") auto

lemma length_cross_pairs: "length (cross_pairs is ps) = length is * length ps"
  by (induction "is") auto

lemma appearances_cross_pairs:
  "distinct is \<Longrightarrow> distinct ps \<Longrightarrow> set is \<inter> set ps = {} \<Longrightarrow>
   appearances (cross_pairs is ps) i =
     (if i \<in> set is then length ps else if i \<in> set ps then length is else 0)"
  by (induction "is") (auto simp: appearances_map_Pair count_list_distinct)

lemma pivot_round_pairs_cross:
  "pivot_round_pairs n pivots =
     cross_pairs (filter (\<lambda>i. i \<notin> set pivots) [0..<n]) pivots @ combinations2 (sort pivots)"
  by (simp add: pivot_round_pairs_def cross_pairs_def Let_def)

lemma length_non_pivots:
  assumes "distinct pivots" and "set pivots \<subseteq> {0..<n}"
  shows "length (filter (\<lambda>i. i \<notin> set pivots) [0..<n]) = n - length pivots"
proof -
  have "length (filter (\<lambda>i. i \<notin> set pivots) [0..<n]) = card ({0..<n} - set pivots)"
    by (subst distinct_card [symmetric]) (auto intro: arg_cong [where f = card])
  also have "\<dots> = n - length pivots"
    using assms by (simp add: card_Diff_subset distinct_card)
  finally show ?thesis .
qed

lemma length_pivot_round_pairs:
  assumes "distinct pivots" and "set pivots \<subseteq> {0..<n}"
  shows "length (pivot_round_pairs n pivots) =
    (n - length pivots) * length pivots + (length pivots choose 2)"
  using length_non_pivots [OF assms]
  by (simp add: pivot_round_pairs_cross length_cross_pairs length_combinations2)

lemma appearances_pivot_round:
  assumes "distinct pivots" and "set pivots \<subseteq> {0..<n}" and "i < n"
  shows "appearances (pivot_round_pairs n pivots) i =
    (if i \<in> set pivots then n - 1 else length pivots)"
proof -
  have "length pivots \<le> n"
    using assms(1,2) by (metis card_atLeastLessThan card_mono diff_zero distinct_card finite_atLeastLessThan)
  moreover have "i \<in> set pivots \<Longrightarrow> Suc (length pivots - Suc 0) = length pivots"
    by (cases pivots) auto
  moreover have "appearances (cross_pairs (filter (\<lambda>i. i \<notin> set pivots) [0..<n]) pivots) i =
      (if i \<in> set pivots then n - length pivots else length pivots)"
    using assms length_non_pivots [OF assms(1,2)]
    by (subst appearances_cross_pairs) auto
  ultimately show ?thesis
    using assms by (auto simp: pivot_round_pairs_cross appearances_combinations2)
qed

lemma pivot_round_pairs_ok:
  assumes "distinct pivots" and "set pivots \<subseteq> {0..<n}"
  shows "pairs_within n (pivot_round_pairs n pivots)"
    "list_all (\<lambda>ab. fst ab \<noteq> snd ab) (pivot_round_pairs n pivots)"
  using assms set_combinations2_sub [of _ "sort pivots"] combinations2_neq [of "sort pivots"]
  by (fastforce simp: pairs_within_def list_all_iff pivot_round_pairs_cross set_cross_pairs)+

section \<open>The whole tournament\<close>

text \<open>
  The specification of a tournament: the comparisons it runs and the mean preference they give
  each candidate.
\<close>

definition preference :: "score_fun \<Rightarrow> (nat \<times> nat) list \<Rightarrow> nat \<Rightarrow> real" where
  "preference score pairs i =
     (if appearances pairs i \<noteq> 0 then soft_wins score pairs i / real (appearances pairs i) else 0)"

definition ring_pivots :: "nat \<Rightarrow> (nat \<times> nat) list \<Rightarrow> int \<Rightarrow> score_fun \<Rightarrow> nat list" where
  "ring_pivots n ring k score =
     select_pivots (map (soft_wins score ring) [0..<n]) (map (appearances ring) [0..<n]) k"

definition tournament_pairs :: "nat \<Rightarrow> (nat \<times> nat) list \<Rightarrow> int \<Rightarrow> score_fun \<Rightarrow> (nat \<times> nat) list" where
  "tournament_pairs n ring k score = ring @ pivot_round_pairs n (ring_pivots n ring k score)"

lemma mean_pref_closed:
  "i < n \<Longrightarrow> mean_pref (map (soft_wins score pairs) [0..<n]) (map (appearances pairs) [0..<n]) i =
     preference score pairs i"
  by (simp add: mean_pref_def preference_def)

lemma accumulate_zero:
  "pairs_within n pairs \<Longrightarrow> accumulate pairs score (replicate n 0, replicate n 0) =
     Inr (map (soft_wins score pairs) [0..<n], map (appearances pairs) [0..<n])"
  by (subst accumulate_closed [where n = n]) auto

lemma accumulate_more:
  "pairs_within n qs \<Longrightarrow>
   accumulate qs score (map (soft_wins score ps) [0..<n], map (appearances ps) [0..<n]) =
     Inr (map (soft_wins score (ps @ qs)) [0..<n], map (appearances (ps @ qs)) [0..<n])"
  by (subst accumulate_closed [where n = n]) auto

lemma best_index_spec:
  assumes "best_index n w c = Inr b"
  shows "b < n \<and> (\<forall>i<n. mean_pref w c i < mean_pref w c b \<or> (mean_pref w c i = mean_pref w c b \<and> b \<le> i))"
proof -
  have "b \<in> set [0..<n]" and
    *: "\<forall>i \<in> set [0..<n]. (mean_pref w c i, - int i) \<le> (mean_pref w c b, - int b)"
    using py_max_Inr [OF assms [unfolded best_index_def]] by auto
  then show ?thesis by (auto simp: less_eq_prod_def)
qed

lemma best_index_total: "0 < n \<Longrightarrow> \<exists>b. best_index n w c = Inr b"
  unfolding best_index_def by (rule py_max_total) simp

lemma ring_pivots_ok:
  "distinct (ring_pivots n ring (int k) score)"
  "set (ring_pivots n ring (int k) score) \<subseteq> {0..<n}"
  "length (ring_pivots n ring (int k) score) = min k n"
  unfolding ring_pivots_def
  using select_pivots_perm [where w = "map (soft_wins score ring) [0..<n]" and c = "map (appearances ring) [0..<n]" and k = k]
  by auto

lemma tournament_pairs_within:
  "pairs_within n ring \<Longrightarrow> pairs_within n (tournament_pairs n ring (int k) score)"
  unfolding tournament_pairs_def using pivot_round_pairs_ok(1) [OF ring_pivots_ok(1,2)] by simp

lemma select_best_eq:
  fixes score :: score_fun and k :: nat
  assumes "pairs_within n ring"
  defines "P \<equiv> tournament_pairs n ring (int k) score"
  shows "select_best n ring (int k) score =
    bindR (best_index n (map (soft_wins score P) [0..<n]) (map (appearances P) [0..<n]))
      (\<lambda>best. Inr (best, length P))"
proof -
  let ?piv = "ring_pivots n ring (int k) score"
  have "pairs_within n (pivot_round_pairs n ?piv)"
    by (rule pivot_round_pairs_ok(1) [OF ring_pivots_ok(1,2)])
  then have "accumulate (pivot_round_pairs n ?piv) score
      (map (soft_wins score ring) [0..<n], map (appearances ring) [0..<n]) =
      Inr (map (soft_wins score P) [0..<n], map (appearances P) [0..<n])"
    unfolding P_def tournament_pairs_def by (rule accumulate_more)
  then show ?thesis
    using assms(1)
    by (simp add: select_best_def accumulate_zero ring_pivots_def [symmetric] Let_def P_def tournament_pairs_def)
qed

lemma select_best_ok:
  fixes score :: score_fun and k :: nat
  assumes "0 < n" and "pairs_within n ring"
  defines "P \<equiv> tournament_pairs n ring (int k) score"
  obtains b where "select_best n ring (int k) score = Inr (b, length P)" and "b < n"
    and "\<And>i. i < n \<Longrightarrow> preference score P i < preference score P b \<or> (preference score P i = preference score P b \<and> b \<le> i)"
proof -
  obtain b where b: "best_index n (map (soft_wins score P) [0..<n]) (map (appearances P) [0..<n]) = Inr b"
    using best_index_total [OF assms(1)] by blast
  from best_index_spec [OF b] have "b < n"
    and "\<And>i. i < n \<Longrightarrow> preference score P i < preference score P b \<or> (preference score P i = preference score P b \<and> b \<le> i)"
    by (auto simp: mean_pref_closed)
  with that show ?thesis
    using select_best_eq [OF assms(2)] b by (simp add: P_def)
qed

lemma ring_pairs_within: "pairs_within n (ring_cycle n draw)"
  by (auto simp: pairs_within_def list_all_iff dest: ring_cycle_range)

lemma ring_appearances:
  assumes "2 \<le> n" and "i < n"
  shows "appearances (ring_cycle n draw) i = 2"
proof -
  have "distinct (shuffle draw [0..<n])" "i \<in> set (shuffle draw [0..<n])"
    using shuffle_perm [of draw n] assms(2) by auto
  then show ?thesis
    using assms(1) by (simp add: appearances_count ring_cycle_fst ring_cycle_snd count_list_distinct)
qed

lemma ring_no_self:
  assumes "2 \<le> n"
  shows "list_all (\<lambda>ab. fst ab \<noteq> snd ab) (ring_cycle n draw)"
proof -
  let ?p = "shuffle draw [0..<n]"
  have p: "distinct ?p" "length ?p = n" using shuffle_perm [of draw n] by auto
  have "?p ! t \<noteq> ?p ! (Suc t mod n)" if "t < n" for t
  proof -
    have "Suc t mod n \<noteq> t" using that assms by (cases "Suc t = n") auto
    then show ?thesis using p that assms by (simp add: nth_eq_iff_index_eq)
  qed
  then show ?thesis
    using assms by (auto simp: ring_cycle_def Let_def list_all_iff)
qed

lemma length_tournament:
  assumes "2 \<le> n"
  shows "length (tournament_pairs n (ring_cycle n draw) (int k) score) =
    n + (n - min k n) * min k n + (min k n choose 2)"
  using length_pivot_round_pairs [OF ring_pivots_ok(1,2)]
  by (simp add: tournament_pairs_def length_ring_cycle [OF assms] ring_pivots_ok(3))

lemma tournament_appearances:
  assumes "2 \<le> n" and "i < n"
  shows "appearances (tournament_pairs n (ring_cycle n draw) (int k) score) i =
    (if i \<in> set (ring_pivots n (ring_cycle n draw) (int k) score) then n + 1 else 2 + min k n)"
  using assms appearances_pivot_round [OF ring_pivots_ok(1,2) assms(2)]
  by (auto simp: tournament_pairs_def ring_appearances ring_pivots_ok(3))

lemma sum_soft_win: "fst ab < n \<Longrightarrow> snd ab < n \<Longrightarrow> (\<Sum>i<n. soft_win score i ab) = 1"
  by (cases ab) (simp add: soft_win_def Let_def sum.distrib)

lemma sum_soft_wins: "pairs_within n pairs \<Longrightarrow> (\<Sum>i<n. soft_wins score pairs i) = real (length pairs)"
  by (induction pairs) (auto simp: sum.distrib sum_soft_win)

lemma sum_appearance: "fst ab < n \<Longrightarrow> snd ab < n \<Longrightarrow> (\<Sum>i<n. appearance i ab) = 2"
  by (cases ab) (simp add: appearance_def sum.distrib)

lemma sum_appearances: "pairs_within n pairs \<Longrightarrow> (\<Sum>i<n. appearances pairs i) = 2 * length pairs"
  by (induction pairs) (auto simp: sum.distrib sum_appearance)

text \<open>The preferences, weighted by participation, average to one half; so some candidate reaches it.\<close>

lemma some_preference_half:
  assumes "0 < n" and "pairs_within n pairs" and "pairs \<noteq> []"
  shows "\<exists>i<n. 1 / 2 \<le> preference score pairs i"
proof (rule ccontr)
  assume *: "\<not> (\<exists>i<n. 1 / 2 \<le> preference score pairs i)"
  have le: "soft_wins score pairs i \<le> real (appearances pairs i) / 2" if "i < n" for i
    using * that soft_wins_le [of score pairs i]
    by (cases "appearances pairs i = 0") (auto simp: preference_def field_simps not_le)
  have "\<exists>i<n. appearances pairs i \<noteq> 0"
  proof (rule ccontr)
    assume "\<not> (\<exists>i<n. appearances pairs i \<noteq> 0)"
    then have "(\<Sum>i<n. appearances pairs i) = 0" by simp
    with sum_appearances [OF assms(2)] assms(3) show False by simp
  qed
  then obtain j where j: "j < n" "appearances pairs j \<noteq> 0" by blast
  with * have "soft_wins score pairs j < real (appearances pairs j) / 2"
    by (auto simp: preference_def field_simps not_le)
  with le j(1) have "(\<Sum>i<n. soft_wins score pairs i) < (\<Sum>i<n. real (appearances pairs i) / 2)"
    by (intro sum_strict_mono_ex1) auto
  also have "\<dots> = real (\<Sum>i<n. appearances pairs i) / 2"
    by (simp add: sum_divide_distrib)
  also have "\<dots> = real (length pairs)"
    using sum_appearances [OF assms(2)] by simp
  finally show False using sum_soft_wins [OF assms(2), of score] by simp
qed

lemma preference_bounds:
  assumes "appearances pairs i \<noteq> 0" and "list_all (\<lambda>ab. fst ab \<noteq> snd ab) pairs"
  shows "0 < preference score pairs i" "preference score pairs i < 1"
  using assms soft_wins_pos [of pairs i score] soft_wins_less [of pairs i score]
  by (auto simp: preference_def)

lemma tournament_no_self:
  "2 \<le> n \<Longrightarrow> list_all (\<lambda>ab. fst ab \<noteq> snd ab) (tournament_pairs n (ring_cycle n draw) (int k) score)"
  unfolding tournament_pairs_def
  using ring_no_self pivot_round_pairs_ok(2) [OF ring_pivots_ok(1,2)] by simp

lemma soft_wins_const:
  "soft_wins (\<lambda>a b. (ra, rb)) pairs i =
     real (count_list (map fst pairs) i) * bradley_terry ra rb +
     real (count_list (map snd pairs) i) * (1 - bradley_terry ra rb)"
  by (induction pairs) (auto simp: soft_win_def Let_def algebra_simps)

section \<open>Properties\<close>

text \<open>
  C2: the tournament terminates with a winner whose mean preference over all the comparisons it
  ran is the greatest, the lowest index winning a tie; the comparisons are those of the ring and
  of the pivot rounds of the ring's leaders.
\<close>

theorem ppt_winner_optimal:
  assumes "2 \<le> n"
  shows "\<exists>best m. select_best n (ring_cycle n draw) (int k) score = Inr (best, m) \<and> best < n \<and>
    m = length (tournament_pairs n (ring_cycle n draw) (int k) score) \<and>
    (\<forall>i<n. preference score (tournament_pairs n (ring_cycle n draw) (int k) score) i
            < preference score (tournament_pairs n (ring_cycle n draw) (int k) score) best \<or>
          preference score (tournament_pairs n (ring_cycle n draw) (int k) score) i
            = preference score (tournament_pairs n (ring_cycle n draw) (int k) score) best \<and> best \<le> i)"
proof -
  have "0 < n" using assms by simp
  from select_best_ok [OF this ring_pairs_within [of n draw], where k = k and score = score] show ?thesis by blast
qed

theorem ppt_winner_optimal_witness:
  "\<exists>best m. select_best 3 (ring_cycle 3 (\<lambda>i. i)) (int 1) (\<lambda>a b. (1, 0)) = Inr (best, m) \<and> best < 3"
  using ppt_winner_optimal [of 3 "\<lambda>i. i" 1 "\<lambda>a b. (1, 0)"] by auto

text \<open>
  the cost promised by the module, \<open>N + k (N - k) + C(k, 2)\<close> comparisons with \<open>k\<close> clamped to
  \<open>N\<close>, and how they are spread: a pivot takes part in \<open>N + 1\<close> of them, any other candidate in
  \<open>k + 2\<close>.
\<close>

theorem ppt_budget:
  assumes "2 \<le> n"
  shows "\<exists>best. select_best n (ring_cycle n draw) (int k) score =
      Inr (best, n + min k n * (n - min k n) + (min k n choose 2)) \<and>
    (\<forall>i<n. appearances (tournament_pairs n (ring_cycle n draw) (int k) score) i =
      (if i \<in> set (ring_pivots n (ring_cycle n draw) (int k) score) then n + 1 else min k n + 2))"
proof -
  have "0 < n" using assms by simp
  from select_best_ok [OF this ring_pairs_within [of n draw], where k = k and score = score]
  obtain best where "select_best n (ring_cycle n draw) (int k) score =
      Inr (best, length (tournament_pairs n (ring_cycle n draw) (int k) score))" by blast
  then show ?thesis
    using assms by (simp add: length_tournament tournament_appearances mult.commute)
qed

theorem ppt_budget_witness:
  "\<exists>best. select_best 5 (ring_cycle 5 (\<lambda>i. 0)) (int 2) (\<lambda>a b. (1/2, 1/2)) = Inr (best, 12)"
  using ppt_budget [of 5 "\<lambda>i. 0" 2 "\<lambda>a b. (1/2, 1/2)"] by (auto simp: choose_two)

text \<open>
  whatever the generator draws, the ring is one Hamiltonian cycle: it walks a permutation of
  the candidates and returns to its start, so every candidate is in slot A exactly once and in
  slot B exactly once and never meets itself.
\<close>

theorem ppt_ring_hamiltonian:
  assumes "2 \<le> n"
  shows "\<exists>perm. distinct perm \<and> set perm = {0..<n} \<and> ring_cycle n draw = zip perm (rotate1 perm) \<and>
    (\<forall>i<n. count_list (map fst (ring_cycle n draw)) i = 1 \<and> count_list (map snd (ring_cycle n draw)) i = 1) \<and>
    (\<forall>a b. (a, b) \<in> set (ring_cycle n draw) \<longrightarrow> a \<noteq> b)"
proof (intro exI conjI)
  let ?p = "shuffle draw [0..<n]"
  show p: "distinct ?p" "set ?p = {0..<n}" using shuffle_perm by auto
  show "ring_cycle n draw = zip ?p (rotate1 ?p)" using assms by (rule ring_cycle_zip)
  show "\<forall>i<n. count_list (map fst (ring_cycle n draw)) i = 1 \<and> count_list (map snd (ring_cycle n draw)) i = 1"
    using assms p by (simp add: ring_cycle_fst ring_cycle_snd count_list_distinct)
  show "\<forall>a b. (a, b) \<in> set (ring_cycle n draw) \<longrightarrow> a \<noteq> b"
    using ring_no_self [OF assms, of draw] by (force simp: list_all_iff)
qed

theorem ppt_ring_hamiltonian_witness:
  "\<exists>perm. distinct perm \<and> set perm = {0..<4} \<and> ring_cycle 4 (\<lambda>i. 7) = zip perm (rotate1 perm)"
  using ppt_ring_hamiltonian [of 4 "\<lambda>i. 7"] by auto

text \<open>
  a verifier that only prefers a slot (the same two rewards whoever is shown) leaves the ring
  pass undecided: every candidate has mean preference exactly one half, and the pivots are the
  first indices, whatever the bias and the ring.
\<close>

theorem ppt_ring_cancels_slot_bias:
  assumes "2 \<le> n"
  shows "(\<forall>i<n. preference (\<lambda>a b. (ra, rb)) (ring_cycle n draw) i = 1 / 2) \<and>
    ring_pivots n (ring_cycle n draw) (int k) (\<lambda>a b. (ra, rb)) = [0..<min k n]"
proof
  let ?s = "\<lambda>a b. (ra, rb)" and ?R = "ring_cycle n draw"
  have p: "distinct (shuffle draw [0..<n])" "set (shuffle draw [0..<n]) = {0..<n}"
    using shuffle_perm by auto
  have half: "preference ?s ?R i = 1 / 2" if "i < n" for i
    using that assms p
    by (simp add: preference_def ring_appearances soft_wins_const ring_cycle_fst ring_cycle_snd count_list_distinct)
  then show "\<forall>i<n. preference ?s ?R i = 1 / 2" by blast
  have "map (\<lambda>i. (- mean_pref (map (soft_wins ?s ?R) [0..<n]) (map (appearances ?R) [0..<n]) i, i)) [0..<n] =
      map (Pair (- 1 / 2)) [0..<n]"
    by (simp add: mean_pref_closed half)
  moreover have "sorted (map (Pair (- 1 / 2 :: real)) [0..<n])"
    by (auto simp: sorted_iff_nth_mono)
  ultimately have "sort_key (\<lambda>i. (- mean_pref (map (soft_wins ?s ?R) [0..<n]) (map (appearances ?R) [0..<n]) i, i)) [0..<n] = [0..<n]"
    by (intro sort_key_id_if_sorted) (simp only:)
  then show "ring_pivots n ?R (int k) ?s = [0..<min k n]"
    by (simp add: ring_pivots_def select_pivots_take min_def take_all_iff)
qed

theorem ppt_ring_cancels_slot_bias_witness:
  "preference (\<lambda>a b. (1, 0)) (ring_cycle 3 (\<lambda>i. 1)) 2 = 1 / 2 \<and>
   ring_pivots 3 (ring_cycle 3 (\<lambda>i. 1)) (int 2) (\<lambda>a b. (1, 0)) = [0, 1]"
  using ppt_ring_cancels_slot_bias [of 3 1 0 "\<lambda>i. 1" 2] by (auto simp: upt_rec)

text \<open>
  soft wins are conserved: over any tournament the soft wins of all candidates add up to the
  number of comparisons and the participations to twice that number; each mean preference lies
  strictly between 0 and 1, and the winner's is at least one half.
\<close>

theorem ppt_conservation:
  assumes "2 \<le> n" and "P = tournament_pairs n (ring_cycle n draw) (int k) score"
  shows "(\<Sum>i<n. soft_wins score P i) = real (length P) \<and> (\<Sum>i<n. appearances P i) = 2 * length P \<and>
    (\<forall>i<n. 0 < preference score P i \<and> preference score P i < 1) \<and>
    (\<exists>best. select_best n (ring_cycle n draw) (int k) score = Inr (best, length P) \<and> 1 / 2 \<le> preference score P best)"
proof (intro conjI)
  have w: "pairs_within n P" unfolding assms(2) by (rule tournament_pairs_within [OF ring_pairs_within])
  show "(\<Sum>i<n. soft_wins score P i) = real (length P)" by (rule sum_soft_wins [OF w])
  show "(\<Sum>i<n. appearances P i) = 2 * length P" by (rule sum_appearances [OF w])
  have "appearances P i \<noteq> 0" if "i < n" for i
    using tournament_appearances [OF assms(1) that, of draw k score] by (simp add: assms(2))
  moreover have "list_all (\<lambda>ab. fst ab \<noteq> snd ab) P" unfolding assms(2) by (rule tournament_no_self [OF assms(1)])
  ultimately show "\<forall>i<n. 0 < preference score P i \<and> preference score P i < 1"
    using preference_bounds by blast
  have n: "0 < n" using assms(1) by simp
  have "P \<noteq> []" using length_tournament [OF assms(1), of draw k score] assms by auto
  then obtain j where j: "j < n" "1 / 2 \<le> preference score P j"
    using some_preference_half [OF n w] by blast
  from select_best_ok [OF n ring_pairs_within [of n draw], where k = k and score = score] obtain b where
    "select_best n (ring_cycle n draw) (int k) score = Inr (b, length P)"
    and "preference score P j \<le> preference score P b"
    using j(1) assms(2) by (metis order.order_iff_strict)
  with j(2) show "\<exists>best. select_best n (ring_cycle n draw) (int k) score = Inr (best, length P) \<and> 1 / 2 \<le> preference score P best"
    by (meson order.trans)
qed

theorem ppt_conservation_witness:
  "\<exists>best m. select_best 3 (ring_cycle 3 (\<lambda>i. i)) (int 1) (\<lambda>a b. (1, 0)) = Inr (best, m)"
  using ppt_conservation [of 3 "tournament_pairs 3 (ring_cycle 3 (\<lambda>i. i)) (int 1) (\<lambda>a b. (1, 0))" "\<lambda>i. i" 1 "\<lambda>a b. (1, 0)"]
  by auto

end
