(* ===== verification/Verifier_Select.thy ===== *)
theory Verifier_Select
  imports Pivot_Tournament Score_Cache
begin

text \<open>
  The entry points \<open>select\<close> and \<open>compare\<close> of \<^verbatim>\<open>llm_verifier/__init__.py\<close>, composed from the
  tournament and the cached scorer. The criteria are the resolved list of criterion dicts; the
  verifier is an arbitrary function per batch (the two phases may see different answers); \<open>filed\<close>
  says whether a cache path was given and \<open>disk\<close> is that file.
\<close>

section \<open>Definitions\<close>

record verifier_result =
  v_index :: nat
  v_best :: string
  v_scores :: "real list"
  v_n_comparisons :: nat
  v_criteria :: "string list"

definition ranking :: "verifier_result \<Rightarrow> nat list" where
  "ranking r = sort_key (\<lambda>i. (- (v_scores r ! i), i)) [0..<length (v_scores r)]"

definition the_task :: string where
  "the_task = ''task''"

definition trials_of :: "string \<Rightarrow> 'i \<Rightarrow> string list \<Rightarrow> 'i trial list" where
  "trials_of problem images candidates =
     map (\<lambda>t. \<lparr>tr_problem = problem, tr_trace = t, tr_images = images\<rparr>) candidates"

definition directed_for :: "criterion list \<Rightarrow> int \<Rightarrow> scores \<Rightarrow> score_fun" where
  "directed_for crits n_evaluations sc = (\<lambda>a b. directed_reward sc the_task a b (map crit_id crits) n_evaluations)"

definition finish_select ::
  "string list \<Rightarrow> string list \<Rightarrow> (nat \<times> nat) list \<Rightarrow> (nat \<times> nat) list \<Rightarrow> score_fun \<Rightarrow> verifier_result res" where
  \<comment> \<open>the aggregation of both passes at the end of phase B\<close>
  "finish_select candidates ids ring pr_pairs score =
     (let n = length candidates
      in bindR (accumulate ring score (replicate n 0, replicate n 0)) (\<lambda>wc.
           bindR (accumulate pr_pairs score wc) (\<lambda>(w, c).
             bindR (best_index n w c) (\<lambda>best.
               Inr \<lparr>v_index = best, v_best = candidates ! best, v_scores = map (mean_pref w c) [0..<n],
                    v_n_comparisons = length ring + length pr_pairs, v_criteria = ids\<rparr>))))"

definition select ::
  "string \<Rightarrow> string list \<Rightarrow> criterion list \<Rightarrow> 'i \<Rightarrow> int \<Rightarrow> int \<Rightarrow> (nat \<Rightarrow> nat) \<Rightarrow> string \<Rightarrow> unit res \<Rightarrow>
   ('i job \<Rightarrow> (real \<times> real) res) \<Rightarrow> ('i job \<Rightarrow> (real \<times> real) res) \<Rightarrow> ('i job list \<Rightarrow> 'i job list) \<Rightarrow>
   bool \<Rightarrow> scores option \<Rightarrow> verifier_result res \<times> scores option" where
  "select problem candidates crits images n_evaluations pivots draw on_error client call1 call2 completion filed disk =
     (let ids = map crit_id crits; n = length candidates
      in if n = 0 then (Inl (ValueError ''need at least one candidate''), disk)
         else if n = 1 then
           (Inr \<lparr>v_index = 0, v_best = candidates ! 0, v_scores = [1], v_n_comparisons = 0, v_criteria = ids\<rparr>, disk)
         else
           let tasks = [(the_task, trials_of problem images candidates)];
               ring = ring_cycle n draw
           in case score_directed_pairs on_error filed client call1 completion tasks [(the_task, ring)] crits n_evaluations disk of
                (Inl e, disk1) \<Rightarrow> (Inl e, disk1)
              | (Inr scores1, disk1) \<Rightarrow>
                  (case accumulate ring (directed_for crits n_evaluations scores1) (replicate n 0, replicate n 0) of
                     Inl e \<Rightarrow> (Inl e, disk1)
                   | Inr (w, c) \<Rightarrow>
                       let pr_pairs = pivot_round_pairs n (select_pivots w c pivots)
                       in case score_directed_pairs on_error filed client call2 completion tasks [(the_task, pr_pairs)] crits n_evaluations disk1 of
                            (Inl e, disk2) \<Rightarrow> (Inl e, disk2)
                          | (Inr scores2, disk2) \<Rightarrow>
                              (finish_select candidates ids ring pr_pairs (directed_for crits n_evaluations scores2), disk2)))"

definition compare :: "criterion list \<Rightarrow> int \<Rightarrow> int \<Rightarrow> unit res \<Rightarrow> (criterion \<Rightarrow> nat \<Rightarrow> (real \<times> real) res) \<Rightarrow> (real \<times> real) res" where
  \<comment> \<open>\<open>call crit i\<close> is the \<open>i\<close>-th repetition's reward of the directed pair for \<open>crit\<close>;
     \<open>ThreadPoolExecutor\<close> raises for a pool of no worker\<close>
  "compare crits n_evaluations max_workers client call =
     (if n_evaluations < 1 then Inl (ValueError ''n_evaluations must be >= 1'')
      else bindR client (\<lambda>_.
        let jobs = [(crit, i). crit \<leftarrow> crits, i \<leftarrow> [0..<nat n_evaluations]]
        in if length jobs \<noteq> 1 \<and> min max_workers (int (length jobs)) \<le> 0
           then Inl (ValueError ''max_workers must be greater than 0'')
           else bindR (first_error (map (\<lambda>(crit, i). call crit i) jobs)) (\<lambda>results.
             bindR (mean_of (map fst results)) (\<lambda>ra.
               bindR (mean_of (map snd results)) (\<lambda>rb. Inr (ra, rb))))))"

section \<open>The reward a verifier assigns to a directed comparison\<close>

definition final_entry :: "scores \<Rightarrow> ('i job \<Rightarrow> (real \<times> real) res) \<Rightarrow> 'i trial list \<Rightarrow>
    nat \<times> nat \<times> criterion \<times> nat \<Rightarrow> score_entry" where
  \<comment> \<open>the cached entry of a request, or the outcome of its call\<close>
  "final_entry base call trials r =
     (case dget base (request_key the_task r) of Some e \<Rightarrow> e | None \<Rightarrow> outcome call (mk_job trials the_task r))"

definition readings :: "score_entry \<Rightarrow> real \<times> real" where
  "readings e = (entry_or_half (score_A e), entry_or_half (score_B e))"

definition judge :: "scores \<Rightarrow> ('i job \<Rightarrow> (real \<times> real) res) \<Rightarrow> 'i trial list \<Rightarrow> criterion list \<Rightarrow> int \<Rightarrow> score_fun" where
  \<comment> \<open>the specification: the mean of the readings over criteria and repetitions, a tie without any\<close>
  "judge base call trials crits n_reps a b =
     (let rs = pair_requests [(a, b)] crits n_reps
      in if a = b \<or> rs = [] then (1 / 2, 1 / 2)
         else ((\<Sum>r \<leftarrow> rs. fst (readings (final_entry base call trials r))) / real (length rs),
               (\<Sum>r \<leftarrow> rs. snd (readings (final_entry base call trials r))) / real (length rs)))"

lemma reward_keys_requests:
  "reward_keys task a b (map crit_id crits) n_reps = map (request_key task) (pair_requests [(a, b)] crits n_reps)"
  by (simp add: reward_keys_def pair_requests_def request_key_def map_concat comp_def)

lemma directed_reward_judge:
  assumes "\<And>r. r \<in> set (pair_requests [(a, b)] crits n_reps) \<Longrightarrow>
    readings (lookup_entry sc (request_key the_task r)) = readings (final_entry base call trials r)"
  shows "directed_for crits n_reps sc a b = judge base call trials crits n_reps a b"
proof -
  let ?rs = "pair_requests [(a, b)] crits n_reps"
  have "(\<Sum>r \<leftarrow> ?rs. entry_or_half (score_A (lookup_entry sc (request_key the_task r)))) =
      (\<Sum>r \<leftarrow> ?rs. fst (readings (final_entry base call trials r)))"
    using assms by (intro arg_cong [where f = sum_list] map_cong) (auto simp: readings_def)
  moreover have "(\<Sum>r \<leftarrow> ?rs. entry_or_half (score_B (lookup_entry sc (request_key the_task r)))) =
      (\<Sum>r \<leftarrow> ?rs. snd (readings (final_entry base call trials r)))"
    using assms by (intro arg_cong [where f = sum_list] map_cong) (auto simp: readings_def)
  ultimately show ?thesis
    by (simp add: directed_for_def directed_reward_def judge_def reward_keys_requests comp_def Let_def)
qed

lemma directed_reward_missing:
  assumes "\<And>r. r \<in> set (pair_requests [(a, b)] crits n_reps) \<Longrightarrow> dget sc (request_key the_task r) = None"
  shows "directed_for crits n_reps sc a b = (1 / 2, 1 / 2)"
proof -
  let ?rs = "pair_requests [(a, b)] crits n_reps"
  have "map (\<lambda>r. entry_or_half (score_A (lookup_entry sc (request_key the_task r)))) ?rs = replicate (length ?rs) (1 / 2)"
    "map (\<lambda>r. entry_or_half (score_B (lookup_entry sc (request_key the_task r)))) ?rs = replicate (length ?rs) (1 / 2)"
    using assms by (auto simp: lookup_entry_def entry_or_half_def map_replicate_const cong: map_cong)
  then show ?thesis
    by (simp add: directed_for_def directed_reward_def reward_keys_requests comp_def Let_def sum_list_replicate)
qed

section \<open>One batch of a selection\<close>

lemma request_key_inj:
  assumes "distinct (map crit_id crits)"
  shows "inj_on (request_key the_task) (set (pair_requests pairs crits n_reps))"
proof (rule inj_onI)
  fix r r' assume "r \<in> set (pair_requests pairs crits n_reps)" "r' \<in> set (pair_requests pairs crits n_reps)"
    and "request_key the_task r = request_key the_task r'"
  then show "r = r'"
    using assms by (auto simp: pair_requests_def request_key_def distinct_map dest!: cache_key_inj inj_onD)
qed

lemma trials_cover_single:
  "pairs_within (length candidates) pairs \<Longrightarrow>
   trials_cover [(the_task, trials_of problem images candidates)] [(the_task, pairs)]"
  by (simp add: trials_cover_def trials_of_def pairs_within_def)

definition missing_jobs :: "scores \<Rightarrow> 'i trial list \<Rightarrow> (nat \<times> nat) list \<Rightarrow> criterion list \<Rightarrow> int \<Rightarrow> 'i job list" where
  "missing_jobs cached trials pairs crits n_reps =
     map (mk_job trials the_task)
       (filter (\<lambda>r. dget cached (request_key the_task r) = None) (pair_requests pairs crits n_reps))"

lemma jobs_of_tasks_single:
  assumes "pairs_within (length trials) pairs"
  shows "jobs_of_tasks cached [(the_task, trials)] [(the_task, pairs)] crits n_reps =
    Inr (missing_jobs cached trials pairs crits n_reps)"
  using assms by (simp add: missing_jobs_def pairs_within_def jobs_of_requests_eq [OF pair_requests_within])

lemma batch_tie:
  assumes "pairs_within (length trials) pairs" and "\<And>js. mset (completion js) = mset js"
    and js_def: "js = completion (missing_jobs (start_cache filed disk) trials pairs crits n_reps)"
  shows "\<exists>disk'. score_directed_pairs ''tie'' filed (Inr ()) call completion [(the_task, trials)] [(the_task, pairs)] crits n_reps disk =
      (Inr (record_outcomes call js (start_cache filed disk)), disk') \<and>
    (if filed then start_cache filed disk' = record_outcomes call (filter (succeeded call) js) (start_cache filed disk)
     else disk' = disk)"
proof -
  have Nil: "completion [] = []" using assms(2) [of "[]"] by simp
  let ?run = "run_jobs False filed call js (start_cache filed disk) disk"
  have "score_directed_pairs ''tie'' filed (Inr ()) call completion [(the_task, trials)] [(the_task, pairs)] crits n_reps disk =
      (if missing_jobs (start_cache filed disk) trials pairs crits n_reps = []
       then (Inr (start_cache filed disk), disk) else ?run)"
    by (simp add: score_directed_pairs_def jobs_of_tasks_single [OF assms(1)] js_def Let_def del: jobs_of_tasks.simps)
  moreover have "fst ?run = Inr (record_outcomes call js (start_cache filed disk))" by (rule run_jobs_tie)
  moreover have "filed \<Longrightarrow> snd ?run = Some (record_outcomes call (filter (succeeded call) js) (start_cache filed disk))"
    by (rule run_jobs_tie)
  moreover have "\<not> filed \<Longrightarrow> snd ?run = disk" using run_jobs_unfiled by simp
  ultimately show ?thesis
    by (cases ?run; cases "missing_jobs (start_cache filed disk) trials pairs crits n_reps = []")
      (auto simp: js_def Nil record_outcomes_def start_cache_def)
qed

lemma record_outcomes_final:
  assumes inj: "inj_on (request_key the_task) (set rs)"
    and js: "set js = mk_job trials the_task ` {r \<in> set rs. dget base (request_key the_task r) = None \<and> P r}"
    and r: "r \<in> set rs"
  shows "dget (record_outcomes call js base) (request_key the_task r) =
    (case dget base (request_key the_task r) of Some e \<Rightarrow> Some e
     | None \<Rightarrow> if P r then Some (outcome call (mk_job trials the_task r)) else None)"
proof -
  let ?k = "request_key the_task r"
  have keys: "?k \<in> j_key ` set js \<longleftrightarrow> dget base ?k = None \<and> P r"
    using inj r by (auto simp: js image_image dest: inj_onD)
  show ?thesis
  proof (cases "dget base ?k = None \<and> P r")
    case True
    then obtain e where e: "dget (record_outcomes call js base) ?k = Some e"
      using record_outcomes_some [of ?k js base call] keys by auto
    with keys True obtain j where j: "j \<in> set js" "j_key j = ?k" "e = outcome call j"
      using record_outcomes_dget [OF e] by auto
    then obtain r' where "r' \<in> set rs" "j = mk_job trials the_task r'" "request_key the_task r' = ?k"
      by (auto simp: js)
    with inj r have "j = mk_job trials the_task r" by (auto dest: inj_onD)
    with e j True show ?thesis by simp
  next
    case False
    with keys have "dget (record_outcomes call js base) ?k = dget base ?k"
      by (intro record_outcomes_other) simp
    with False show ?thesis by (auto split: option.split)
  qed
qed

lemma readings_tie: "readings tie_entry = (1 / 2, 1 / 2)" "readings \<lparr>score_A = None, score_B = None\<rparr> = (1 / 2, 1 / 2)"
  by (simp_all add: readings_def tie_entry_def entry_or_half_def)

lemma outcome_failed: "\<not> succeeded call j \<Longrightarrow> outcome call j = tie_entry"
  by (cases "call j") (auto simp: outcome_def succeeded_def)

section \<open>Both phases\<close>

lemma accumulate_cong:
  "(\<And>a b. (a, b) \<in> set pairs \<Longrightarrow> s a b = s' a b) \<Longrightarrow> accumulate pairs s wc = accumulate pairs s' wc"
proof (induction pairs arbitrary: wc)
  case (Cons ab pairs)
  then show ?case by (cases ab; cases wc) (auto simp: Let_def split: prod.split)
qed (simp add: split_paired_all)

lemma finish_select_cong:
  "(\<And>a b. (a, b) \<in> set (ring @ pr) \<Longrightarrow> s a b = s' a b) \<Longrightarrow>
   finish_select candidates ids ring pr s = finish_select candidates ids ring pr s'"
  using accumulate_cong [of ring s s'] accumulate_cong [of pr s s']
  by (auto simp: finish_select_def Let_def intro!: arg_cong2 [where f = bindR])

lemma finish_select_closed:
  assumes "length candidates = n" and "0 < n" and "pairs_within n (ring @ pr)"
  shows "\<exists>best. best < n \<and> best_index n (map (soft_wins s (ring @ pr)) [0..<n]) (map (appearances (ring @ pr)) [0..<n]) = Inr best \<and>
    finish_select candidates ids ring pr s = Inr \<lparr>v_index = best, v_best = candidates ! best,
      v_scores = map (preference s (ring @ pr)) [0..<n], v_n_comparisons = length ring + length pr, v_criteria = ids\<rparr>"
proof -
  let ?w = "map (soft_wins s (ring @ pr)) [0..<n]" and ?c = "map (appearances (ring @ pr)) [0..<n]"
  have w: "pairs_within n ring" "pairs_within n pr" using assms(3) by auto
  obtain best where best: "best_index n ?w ?c = Inr best" using best_index_total [OF assms(2)] by blast
  have "map (mean_pref ?w ?c) [0..<n] = map (preference s (ring @ pr)) [0..<n]"
    by (auto simp: mean_pref_closed)
  moreover have "best < n" using best_index_spec [OF best] by simp
  ultimately show ?thesis
    using best assms(1) by (simp add: finish_select_def Let_def accumulate_zero [OF w(1)] accumulate_more [OF w(2)])
qed

definition forget :: "(nat \<times> nat) list \<Rightarrow> score_fun \<Rightarrow> score_fun" where
  \<comment> \<open>a verifier that ties on every comparison outside \<open>pairs\<close>\<close>
  "forget pairs s = (\<lambda>a b. if (a, b) \<in> set pairs then s a b else (1 / 2, 1 / 2))"

lemma mem_pair_requests:
  "r \<in> set (pair_requests pairs crits n_reps) \<longleftrightarrow>
     (fst r, fst (snd r)) \<in> set pairs \<and> fst (snd (snd r)) \<in> set crits \<and> snd (snd (snd r)) < nat n_reps"
proof -
  obtain a b c i where r: "r = (a, b, c, i)" by (cases r)
  have "r \<in> set (pair_requests pairs crits n_reps) \<longleftrightarrow> (a, b) \<in> set pairs \<and> c \<in> set crits \<and> i < nat n_reps"
    unfolding r pair_requests_def by (induction pairs) (auto simp: image_iff)
  then show ?thesis by (simp add: r)
qed

lemma requests_pair:
  "r \<in> set (pair_requests [(a, b)] crits n_reps) \<Longrightarrow> (a, b) \<in> set pairs \<Longrightarrow> r \<in> set (pair_requests pairs crits n_reps)"
  "r \<in> set (pair_requests [(a, b)] crits n_reps) \<Longrightarrow> (a, b) \<notin> set pairs \<Longrightarrow> r \<notin> set (pair_requests pairs crits n_reps)"
  by (auto simp: mem_pair_requests)

lemma requests_append:
  "set (pair_requests (ps @ qs) crits n_reps) = set (pair_requests ps crits n_reps) \<union> set (pair_requests qs crits n_reps)"
  by (simp add: pair_requests_def)

lemma set_missing_jobs:
  "set (missing_jobs cached trials pairs crits n_reps) =
     mk_job trials the_task ` {r \<in> set (pair_requests pairs crits n_reps). dget cached (request_key the_task r) = None}"
  by (auto simp: missing_jobs_def)

lemma phase_A_scores:
  assumes "distinct (map crit_id crits)"
    and "set js = set (missing_jobs base trials ring crits n_reps)"
    and "(a, b) \<in> set ring"
  shows "directed_for crits n_reps (record_outcomes call js base) a b = judge base call trials crits n_reps a b"
proof (rule directed_reward_judge)
  fix r assume "r \<in> set (pair_requests [(a, b)] crits n_reps)"
  then have r: "r \<in> set (pair_requests ring crits n_reps)" using assms(3) by (rule requests_pair)
  have "dget (record_outcomes call js base) (request_key the_task r) = Some (final_entry base call trials r)"
    using record_outcomes_final [OF request_key_inj [OF assms(1)] _ r, of js trials base "\<lambda>_. True" call] assms(2)
    by (simp add: set_missing_jobs final_entry_def split: option.split)
  then show "readings (lookup_entry (record_outcomes call js base) (request_key the_task r)) =
      readings (final_entry base call trials r)"
    by (simp add: lookup_entry_def)
qed

definition both_calls :: "(nat \<times> nat) list \<Rightarrow> (nat \<times> nat) list \<Rightarrow> ('i job \<Rightarrow> (real \<times> real) res) \<Rightarrow> ('i job \<Rightarrow> (real \<times> real) res) \<Rightarrow>
    nat \<Rightarrow> nat \<Rightarrow> 'i job \<Rightarrow> (real \<times> real) res" where
  \<comment> \<open>the call that decides a comparison: the one of the first pass, unless it failed, or was not made, and the second repeats it\<close>
  "both_calls ring pr call1 call2 a b j =
     (if (a, b) \<in> set ring \<and> (succeeded call1 j \<or> (a, b) \<notin> set pr) then call1 j else call2 j)"

definition judge_both :: "scores \<Rightarrow> (nat \<times> nat) list \<Rightarrow> (nat \<times> nat) list \<Rightarrow> ('i job \<Rightarrow> (real \<times> real) res) \<Rightarrow> ('i job \<Rightarrow> (real \<times> real) res) \<Rightarrow>
    'i trial list \<Rightarrow> criterion list \<Rightarrow> int \<Rightarrow> score_fun" where
  \<comment> \<open>the judgement of both passes together\<close>
  "judge_both base ring pr call1 call2 trials crits n_reps a b = judge base (both_calls ring pr call1 call2 a b) trials crits n_reps a b"

lemma judge_both_same: "judge_both base ring pr call call trials crits n_reps = judge base call trials crits n_reps"
proof -
  have "both_calls ring pr call call a b = call" for a b by (rule ext) (simp add: both_calls_def)
  then show ?thesis by (intro ext) (simp add: judge_both_def)
qed

lemma phase_B_scores:
  assumes ids: "distinct (map crit_id crits)"
    and js1: "set js1 = set (missing_jobs base trials ring crits n_reps)"
    and base2: "base2 = record_outcomes call1 (filter (succeeded call1) js1) base"
    and js2: "set js2 = set (missing_jobs base2 trials pr crits n_reps)"
    and ab: "(a, b) \<in> set (ring @ pr)"
  shows "directed_for crits n_reps (record_outcomes call2 js2 base2) a b = judge_both base ring pr call1 call2 trials crits n_reps a b"
  unfolding judge_both_def
proof (rule directed_reward_judge)
  let ?R = "set (pair_requests (ring @ pr) crits n_reps)"
  fix r assume req: "r \<in> set (pair_requests [(a, b)] crits n_reps)"
  then have r: "r \<in> ?R" using ab by (rule requests_pair)
  note inj = request_key_inj [OF ids, of "ring @ pr" n_reps]
  let ?k = "request_key the_task r" and ?j = "mk_job trials the_task r" and ?call = "both_calls ring pr call1 call2 a b"
  let ?ring = "r \<in> set (pair_requests ring crits n_reps)" and ?pr = "r \<in> set (pair_requests pr crits n_reps)"
  have b2: "dget base2 ?k = (case dget base ?k of Some e \<Rightarrow> Some e
      | None \<Rightarrow> if ?ring \<and> succeeded call1 ?j then Some (outcome call1 ?j) else None)"
    unfolding base2
    by (rule record_outcomes_final [OF inj _ r]) (auto simp: js1 set_missing_jobs requests_append)
  have s2: "dget (record_outcomes call2 js2 base2) ?k = (case dget base2 ?k of Some e \<Rightarrow> Some e
      | None \<Rightarrow> if ?pr then Some (outcome call2 ?j) else None)"
    by (rule record_outcomes_final [OF inj _ r]) (auto simp: js2 set_missing_jobs requests_append)
  have mem: "?ring \<longleftrightarrow> (a, b) \<in> set ring" "?pr \<longleftrightarrow> (a, b) \<in> set pr" using requests_pair [OF req] by blast+
  have call: "outcome ?call ?j = (if (a, b) \<in> set ring \<and> (succeeded call1 ?j \<or> (a, b) \<notin> set pr) then outcome call1 ?j else outcome call2 ?j)"
  proof (cases "(a, b) \<in> set ring \<and> (succeeded call1 ?j \<or> (a, b) \<notin> set pr)")
    case True
    show ?thesis unfolding outcome_def both_calls_def if_P [OF True] by (rule refl)
  next
    case False
    show ?thesis unfolding outcome_def both_calls_def if_not_P [OF False] by (rule refl)
  qed
  have failed: "\<not> succeeded call1 ?j \<Longrightarrow> readings (outcome call1 ?j) = (1 / 2, 1 / 2)" by (simp add: outcome_failed readings_tie)
  show "readings (lookup_entry (record_outcomes call2 js2 base2) ?k) = readings (final_entry base ?call trials r)"
    using b2 s2 ab failed unfolding mem final_entry_def call
    by (cases "dget base ?k"; cases "(a, b) \<in> set ring"; cases "succeeded call1 ?j"; cases "(a, b) \<in> set pr")
      (simp_all add: lookup_entry_def readings_tie)
qed

lemma phase_B_scores_uncached:
  assumes ids: "distinct (map crit_id crits)"
    and js2: "set js2 = set (missing_jobs [] trials pr crits n_reps)"
  shows "directed_for crits n_reps (record_outcomes call js2 []) a b = forget pr (judge [] call trials crits n_reps) a b"
proof (cases "(a, b) \<in> set pr")
  case True
  then show ?thesis
    using phase_A_scores [OF ids js2 True, of call] by (simp add: forget_def)
next
  case False
  have "directed_for crits n_reps (record_outcomes call js2 []) a b = (1 / 2, 1 / 2)"
  proof (rule directed_reward_missing)
    fix r assume r: "r \<in> set (pair_requests [(a, b)] crits n_reps)"
    then have "r \<notin> set (pair_requests pr crits n_reps)" using False by (rule requests_pair)
    moreover have "r \<in> set (pair_requests ([(a, b)] @ pr) crits n_reps)" using r by (simp add: mem_pair_requests)
    moreover have "r = r'" if "r' \<in> set (pair_requests pr crits n_reps)" "request_key the_task r = request_key the_task r'"
        and "r \<in> set (pair_requests ([(a, b)] @ pr) crits n_reps)" for r'
      using inj_onD [OF request_key_inj [OF ids, of "[(a, b)] @ pr" n_reps] that(2,3)] that(1)
      by (simp add: mem_pair_requests)
    ultimately have "request_key the_task r \<notin> j_key ` set js2"
      by (auto simp only: js2 set_missing_jobs image_iff j_key_mk_job mem_Collect_eq bex_simps)
    then show "dget (record_outcomes call js2 []) (request_key the_task r) = None"
      by (simp add: record_outcomes_other)
  qed
  with False show ?thesis by (simp add: forget_def)
qed

section \<open>The selection\<close>

lemma select_unfold_both:
  fixes problem :: string and images :: 'i and filed :: bool and disk :: "scores option"
    and call1 call2 :: "'i job \<Rightarrow> (real \<times> real) res" and n_evaluations :: int and draw :: "nat \<Rightarrow> nat" and k :: nat
    and completion :: "'i job list \<Rightarrow> 'i job list"
  assumes n: "2 \<le> length candidates" and perm: "\<And>js. mset (completion js) = mset js"
    and ids: "distinct (map crit_id crits)"
  defines "n \<equiv> length candidates" and "trials \<equiv> trials_of problem images candidates"
  defines "J \<equiv> judge (start_cache filed disk) call1 trials crits n_evaluations"
  defines "ring \<equiv> ring_cycle n draw"
  defines "pr \<equiv> pivot_round_pairs n (ring_pivots n ring (int k) J)"
  shows "fst (select problem candidates crits images n_evaluations (int k) draw ''tie'' (Inr ()) call1 call2 completion filed disk) =
    finish_select candidates (map crit_id crits) ring pr (if filed then judge_both (start_cache filed disk) ring pr call1 call2 trials crits n_evaluations
      else forget pr (judge [] call2 trials crits n_evaluations))"
proof -
  let ?base = "start_cache filed disk"
  have len: "length trials = n" by (simp add: trials_def trials_of_def n_def)
  have ring: "pairs_within n ring" unfolding ring_def by (rule ring_pairs_within)
  have prw: "pairs_within n pr" unfolding pr_def by (rule pivot_round_pairs_ok(1) [OF ring_pivots_ok(1,2)])
  define js1 where "js1 = completion (missing_jobs ?base trials ring crits n_evaluations)"
  have set1: "set js1 = set (missing_jobs ?base trials ring crits n_evaluations)"
    unfolding js1_def using perm by (metis set_mset_mset)
  obtain disk1 where A: "score_directed_pairs ''tie'' filed (Inr ()) call1 completion [(the_task, trials)] [(the_task, ring)] crits n_evaluations disk =
      (Inr (record_outcomes call1 js1 ?base), disk1)"
    and disk1: "if filed then start_cache filed disk1 = record_outcomes call1 (filter (succeeded call1) js1) ?base else disk1 = disk"
    using batch_tie [of trials ring completion js1 filed disk crits n_evaluations call1] ring perm js1_def len by auto
  have acc: "accumulate ring (directed_for crits n_evaluations (record_outcomes call1 js1 ?base)) (replicate n 0, replicate n 0) =
      Inr (map (soft_wins J ring) [0..<n], map (appearances ring) [0..<n])"
  proof -
    have "accumulate ring (directed_for crits n_evaluations (record_outcomes call1 js1 ?base)) (replicate n 0, replicate n 0) =
        accumulate ring J (replicate n 0, replicate n 0)"
      unfolding J_def by (rule accumulate_cong) (rule phase_A_scores [OF ids set1])
    then show ?thesis by (simp only: accumulate_zero [OF ring])
  qed
  define js2 where "js2 = completion (missing_jobs (start_cache filed disk1) trials pr crits n_evaluations)"
  have set2: "set js2 = set (missing_jobs (start_cache filed disk1) trials pr crits n_evaluations)"
    unfolding js2_def using perm by (metis set_mset_mset)
  obtain disk2 where B: "score_directed_pairs ''tie'' filed (Inr ()) call2 completion [(the_task, trials)] [(the_task, pr)] crits n_evaluations disk1 =
      (Inr (record_outcomes call2 js2 (start_cache filed disk1)), disk2)"
    using batch_tie [of trials pr completion js2 filed disk1 crits n_evaluations call2] prw perm js2_def len by auto
  have "fst (select problem candidates crits images n_evaluations (int k) draw ''tie'' (Inr ()) call1 call2 completion filed disk) =
      finish_select candidates (map crit_id crits) ring pr
        (directed_for crits n_evaluations (record_outcomes call2 js2 (start_cache filed disk1)))"
    using n A acc B
    by (simp add: select_def Let_def trials_def [symmetric] n_def [symmetric] ring_def [symmetric] ring_pivots_def [symmetric]
        pr_def [symmetric])
  also have "\<dots> = finish_select candidates (map crit_id crits) ring pr (if filed then judge_both (start_cache filed disk) ring pr call1 call2 trials crits n_evaluations
      else forget pr (judge [] call2 trials crits n_evaluations))"
  proof (rule finish_select_cong)
    fix a b assume ab: "(a, b) \<in> set (ring @ pr)"
    show "directed_for crits n_evaluations (record_outcomes call2 js2 (start_cache filed disk1)) a b =
        (if filed then judge_both (start_cache filed disk) ring pr call1 call2 trials crits n_evaluations
      else forget pr (judge [] call2 trials crits n_evaluations)) a b"
    proof (cases filed)
      case True
      with disk1 have b2: "start_cache filed disk1 = record_outcomes call1 (filter (succeeded call1) js1) ?base" by simp
      show ?thesis using phase_B_scores [OF ids set1 b2 set2 ab] True by simp
    next
      case False
      have nil: "start_cache False d = []" for d by (simp add: start_cache_def)
      show ?thesis
        using phase_B_scores_uncached [OF ids set2 [simplified False nil], of call2 a b] False by (simp add: nil)
    qed
  qed
  finally show ?thesis .
qed

lemma select_unfold:
  fixes problem :: string and images :: 'i and filed :: bool and disk :: "scores option"
    and call :: "'i job \<Rightarrow> (real \<times> real) res" and n_evaluations :: int and draw :: "nat \<Rightarrow> nat" and k :: nat
    and completion :: "'i job list \<Rightarrow> 'i job list"
  assumes n: "2 \<le> length candidates" and perm: "\<And>js. mset (completion js) = mset js"
    and ids: "distinct (map crit_id crits)"
  defines "n \<equiv> length candidates" and "trials \<equiv> trials_of problem images candidates"
  defines "J \<equiv> judge (start_cache filed disk) call trials crits n_evaluations"
  defines "ring \<equiv> ring_cycle n draw"
  defines "pr \<equiv> pivot_round_pairs n (ring_pivots n ring (int k) J)"
  shows "fst (select problem candidates crits images n_evaluations (int k) draw ''tie'' (Inr ()) call call completion filed disk) =
    finish_select candidates (map crit_id crits) ring pr (if filed then J else forget pr J)"
  unfolding select_unfold_both [OF n perm ids] judge_both_same
  by (simp add: J_def ring_def pr_def n_def trials_def start_cache_def)

lemma select_closed:
  fixes problem :: string and images :: 'i and filed :: bool and disk :: "scores option"
    and call :: "'i job \<Rightarrow> (real \<times> real) res" and n_evaluations :: int and draw :: "nat \<Rightarrow> nat" and k :: nat
    and completion :: "'i job list \<Rightarrow> 'i job list"
  assumes n: "2 \<le> length candidates" and perm: "\<And>js. mset (completion js) = mset js"
    and ids: "distinct (map crit_id crits)"
  defines "n \<equiv> length candidates"
  defines "J \<equiv> judge (start_cache filed disk) call (trials_of problem images candidates) crits n_evaluations"
  defines "P \<equiv> tournament_pairs n (ring_cycle n draw) (int k) J"
  defines "S \<equiv> if filed then J else forget (pivot_round_pairs n (ring_pivots n (ring_cycle n draw) (int k) J)) J"
  shows "\<exists>r. fst (select problem candidates crits images n_evaluations (int k) draw ''tie'' (Inr ()) call call completion filed disk) = Inr r \<and>
    best_index n (map (soft_wins S P) [0..<n]) (map (appearances P) [0..<n]) = Inr (v_index r) \<and> v_index r < n \<and>
    v_best r = candidates ! v_index r \<and> v_scores r = map (preference S P) [0..<n] \<and> v_n_comparisons r = length P"
proof -
  let ?ring = "ring_cycle n draw"
  let ?pr = "pivot_round_pairs n (ring_pivots n ?ring (int k) J)"
  have "0 < n" using n unfolding n_def by linarith
  have "pairs_within n (?ring @ ?pr)"
    using ring_pairs_within [of n draw] pivot_round_pairs_ok(1) [OF ring_pivots_ok(1,2)] by simp
  moreover have "length candidates = n" by (simp add: n_def)
  ultimately obtain best where "best < n" "best_index n (map (soft_wins S P) [0..<n]) (map (appearances P) [0..<n]) = Inr best"
    "finish_select candidates (map crit_id crits) ?ring ?pr S = Inr \<lparr>v_index = best, v_best = candidates ! best,
      v_scores = map (preference S P) [0..<n], v_n_comparisons = length ?ring + length ?pr, v_criteria = map crit_id crits\<rparr>"
    using finish_select_closed [of candidates n ?ring ?pr S "map crit_id crits"] \<open>0 < n\<close>
    by (auto simp: P_def tournament_pairs_def)
  moreover have "fst (select problem candidates crits images n_evaluations (int k) draw ''tie'' (Inr ()) call call completion filed disk) =
      finish_select candidates (map crit_id crits) ?ring ?pr S"
    unfolding S_def J_def n_def using n perm ids by (rule select_unfold)
  moreover have "length P = length ?ring + length ?pr" by (simp add: P_def tournament_pairs_def)
  ultimately show ?thesis
    by (intro exI [of _ "\<lparr>v_index = best, v_best = candidates ! best, v_scores = map (preference S P) [0..<n],
      v_n_comparisons = length ?ring + length ?pr, v_criteria = map crit_id crits\<rparr>"]) simp
qed

lemma best_of_closed:
  assumes "best_index n (map (soft_wins s P) [0..<n]) (map (appearances P) [0..<n]) = Inr b"
  shows "b < n \<and> (\<forall>i<n. preference s P i < preference s P b \<or> (preference s P i = preference s P b \<and> b \<le> i))"
  using best_index_spec [OF assms] by (auto simp: mean_pref_closed)

lemma ring_pivots_cong:
  assumes "\<forall>(a, b) \<in> set ring. s a b = s' a b"
  shows "ring_pivots n ring k s = ring_pivots n ring k s'"
proof -
  have "soft_wins s ring = soft_wins s' ring"
    unfolding soft_wins_def using assms by (intro ext arg_cong [where f = sum_list] map_cong) (auto simp: soft_win_def)
  then show ?thesis by (simp add: ring_pivots_def)
qed

lemma select_closed_both:
  fixes problem :: string and images :: 'i and disk :: "scores option"
    and call1 call2 :: "'i job \<Rightarrow> (real \<times> real) res" and n_evaluations :: int and draw :: "nat \<Rightarrow> nat" and k :: nat
    and completion :: "'i job list \<Rightarrow> 'i job list"
  assumes n: "2 \<le> length candidates" and perm: "\<And>js. mset (completion js) = mset js"
    and ids: "distinct (map crit_id crits)"
  defines "n \<equiv> length candidates" and "trials \<equiv> trials_of problem images candidates" and "base \<equiv> start_cache True disk"
  defines "ring \<equiv> ring_cycle n draw"
  defines "J1 \<equiv> judge base call1 trials crits n_evaluations"
  defines "pr \<equiv> pivot_round_pairs n (ring_pivots n ring (int k) J1)"
  defines "J \<equiv> judge_both base ring pr call1 call2 trials crits n_evaluations"
  shows "\<exists>r. fst (select problem candidates crits images n_evaluations (int k) draw ''tie'' (Inr ()) call1 call2 completion True disk) = Inr r \<and>
    v_scores r = map (preference J (ring @ pr)) [0..<n] \<and> v_n_comparisons r = length ring + length pr \<and>
    v_index r < n \<and> v_best r = candidates ! v_index r \<and>
    (\<forall>i<n. preference J (ring @ pr) i < preference J (ring @ pr) (v_index r) \<or>
      preference J (ring @ pr) i = preference J (ring @ pr) (v_index r) \<and> v_index r \<le> i) \<and>
    ((\<forall>(a, b) \<in> set ring. J a b = J1 a b) \<longrightarrow> select_best n ring (int k) J = Inr (v_index r, v_n_comparisons r))"
proof -
  have "0 < n" using n unfolding n_def by linarith
  have within: "pairs_within n ring" "pairs_within n (ring @ pr)"
    using ring_pairs_within [of n draw] pivot_round_pairs_ok(1) [OF ring_pivots_ok(1,2)] by (simp_all add: ring_def pr_def)
  moreover have "length candidates = n" by (simp add: n_def)
  ultimately obtain best where best: "best_index n (map (soft_wins J (ring @ pr)) [0..<n]) (map (appearances (ring @ pr)) [0..<n]) = Inr best"
    and fin: "finish_select candidates (map crit_id crits) ring pr J = Inr \<lparr>v_index = best, v_best = candidates ! best,
      v_scores = map (preference J (ring @ pr)) [0..<n], v_n_comparisons = length ring + length pr, v_criteria = map crit_id crits\<rparr>"
    using finish_select_closed [of candidates n ring pr J "map crit_id crits"] \<open>0 < n\<close> by auto
  have sel: "fst (select problem candidates crits images n_evaluations (int k) draw ''tie'' (Inr ()) call1 call2 completion True disk) =
      finish_select candidates (map crit_id crits) ring pr J"
    using select_unfold_both [OF n perm ids, where filed = True and disk = disk and problem = problem and images = images
        and n_evaluations = n_evaluations and k = k and draw = draw and ?call1.0 = call1 and ?call2.0 = call2]
    unfolding if_True n_def [symmetric] trials_def [symmetric] base_def [symmetric] ring_def [symmetric] J1_def [symmetric]
      pr_def [symmetric] J_def [symmetric] .
  have "select_best n ring (int k) J = Inr (best, length ring + length pr)" if agree: "\<forall>(a, b) \<in> set ring. J a b = J1 a b"
  proof -
    have "pr = pivot_round_pairs n (ring_pivots n ring (int k) J)"
      unfolding pr_def using ring_pivots_cong [OF agree] by simp
    then have "tournament_pairs n ring (int k) J = ring @ pr" by (simp add: tournament_pairs_def)
    with best select_best_eq [OF within(1), of k J] show ?thesis by simp
  qed
  with best_index_spec [OF best] best_of_closed [OF best] sel fin show ?thesis by auto
qed

section \<open>Ranking and comparison\<close>

lemma ranking_perm: "mset (ranking r) = mset [0..<length (v_scores r)]"
  by (simp add: ranking_def)

lemma ranking_sorted: "sorted (map (\<lambda>i. (- (v_scores r ! i), i)) (ranking r))"
  unfolding ranking_def by (rule sorted_sort_key)

lemma ranking_hd:
  assumes "b < length (v_scores r)"
    and "\<And>i. i < length (v_scores r) \<Longrightarrow> v_scores r ! i < v_scores r ! b \<or> (v_scores r ! i = v_scores r ! b \<and> b \<le> i)"
  shows "ranking r \<noteq> [] \<and> hd (ranking r) = b"
proof -
  have set: "set (ranking r) = {0..<length (v_scores r)}"
    by (simp add: ranking_def)
  with assms(1) obtain x xs where xs: "ranking r = x # xs" by (cases "ranking r") auto
  then have x: "x < length (v_scores r)" using set by auto
  have "b \<in> set (ranking r)" using set assms(1) by simp
  then have "(- (v_scores r ! x), x) \<le> (- (v_scores r ! b), b)"
    using ranking_sorted [of r] by (auto simp: xs)
  then have "- (v_scores r ! x) < - (v_scores r ! b) \<or> (- (v_scores r ! x) \<le> - (v_scores r ! b) \<and> x \<le> b)"
    by (simp add: less_eq_prod_def)
  with assms(2) [OF x] have "x = b" by linarith
  with xs show ?thesis by simp
qed

lemma finish_select_Inr:
  assumes "finish_select candidates ids ring pr s = Inr r"
  shows "v_index r < length candidates \<and> length (v_scores r) = length candidates \<and>
    (\<forall>i < length candidates. v_scores r ! i < v_scores r ! v_index r \<or> v_scores r ! i = v_scores r ! v_index r \<and> v_index r \<le> i)"
proof -
  obtain w c best where best: "best_index (length candidates) w c = Inr best"
    and r: "r = \<lparr>v_index = best, v_best = candidates ! best, v_scores = map (mean_pref w c) [0..<length candidates],
      v_n_comparisons = length ring + length pr, v_criteria = ids\<rparr>"
    using assms unfolding finish_select_def Let_def bindR_Inr_iff by (auto split: prod.splits simp: bindR_Inr_iff)
  from best_index_spec [OF best] show ?thesis by (simp add: r)
qed

lemma select_single:
  "fst (select problem [t] crits images n_evaluations pivots draw on_error client call1 call2 completion filed disk) =
    Inr \<lparr>v_index = 0, v_best = t, v_scores = [1], v_n_comparisons = 0, v_criteria = map crit_id crits\<rparr>"
  by (simp add: select_def)

lemma select_Inr:
  assumes "fst (select problem candidates crits images n_evaluations pivots draw on_error client call1 call2 completion filed disk) = Inr r"
  shows "v_index r < length candidates \<and> length (v_scores r) = length candidates \<and>
    (\<forall>i < length candidates. v_scores r ! i < v_scores r ! v_index r \<or> v_scores r ! i = v_scores r ! v_index r \<and> v_index r \<le> i)"
proof -
  consider "length candidates = 0" | "length candidates = 1" | "2 \<le> length candidates" by linarith
  then show ?thesis
  proof cases
    case 3
    then have n: "length candidates \<noteq> 0" "length candidates \<noteq> 1" by linarith+
    have "\<exists>ids ring pr s. finish_select candidates ids ring pr s = Inr r"
      using assms unfolding select_def Let_def if_not_P [OF n(1)] if_not_P [OF n(2)]
      by (simp split: prod.splits sum.splits) blast
    then show ?thesis using finish_select_Inr by blast
  qed (use assms in \<open>auto simp: select_def\<close>)
qed

section \<open>Properties\<close>

lemma score_pair_criterion_Inr:
  assumes "score_pair_criterion ask j = Inr x"
  shows "(\<exists>resp. ask j = Inr resp) \<and> 0 \<le> fst x \<and> fst x \<le> 1 \<and> 0 \<le> snd x \<and> snd x \<le> 1"
  using assms unfolding score_pair_criterion_def bindR_Inr_iff by (auto simp: extract_score_unit)

lemma compare_Inr:
  assumes "compare crits n_evaluations max_workers client call = Inr (ra, rb)"
  obtains results where "results \<noteq> []" "1 \<le> n_evaluations" "crits \<noteq> []"
    and "map (\<lambda>(crit, i). call crit i) [(crit, i). crit \<leftarrow> crits, i \<leftarrow> [0..<nat n_evaluations]] = map Inr results"
    and "ra = sum_list (map fst results) / real (length results)" "rb = sum_list (map snd results) / real (length results)"
proof -
  let ?jobs = "[(crit, i). crit \<leftarrow> crits, i \<leftarrow> [0..<nat n_evaluations]]"
  from assms obtain results where r: "1 \<le> n_evaluations" "first_error (map (\<lambda>(crit, i). call crit i) ?jobs) = Inr results"
    "mean_of (map fst results) = Inr ra" "mean_of (map snd results) = Inr rb"
    unfolding compare_def Let_def by (auto simp: bindR_Inr_iff split: if_splits)
  then have eq: "map (\<lambda>(crit, i). call crit i) ?jobs = map Inr results" and ne: "results \<noteq> []"
    by (auto simp: first_error_Inr mean_of_def split: if_splits)
  then have "crits \<noteq> []" by auto
  with that [OF ne r(1) _ eq] r(3,4) ne show ?thesis by (simp add: mean_of_def)
qed

definition ex_judging :: "unit job \<Rightarrow> (real \<times> real) res" where
  \<comment> \<open>rewards of the directed comparisons of the traces a, b, c\<close>
  "ex_judging j =
     (if (j_trace_a j, j_trace_b j) = (''c'', ''a'') then Inr (0, 1) else Inr (1, 0))"

abbreviation ex_crit :: "criterion list" where
  "ex_crit \<equiv> [\<lparr>crit_id = ''q'', crit_name = ''Q'', crit_desc = ''d''\<rparr>]"

definition ex_job :: "unit job" where
  "ex_job = \<lparr>j_key = [], j_problem = ''p'', j_trace_a = ''a'', j_trace_b = ''b'', j_crit = hd ex_crit, j_images = ()\<rparr>"

text \<open>
  C1: with at least two candidates, distinct criterion identifiers, a cache file and the policy
  that scores a failed comparison as a tie, \<open>select\<close> returns a result, whatever is in the file,
  whatever the verifier answers in each of the two passes (a call may fail in the first and succeed
  in the second, or the other way round) and in whatever order the calls of a batch complete. The
  comparisons made are the ring and the round around the pivots that the ring's own scores select;
  a comparison counts as the file records it, else as the first pass answered it, else, when it
  failed or was not made there, as the second pass answered it, else as a tie. The scores are the mean
  preferences of those comparisons, the winner is the candidate of the highest one, the first of
  equals, and it is the winner \<^verbatim>\<open>pivot_tournament.py\<close> finds on these rewards, with the same number
  of comparisons, whenever the second pass changes no comparison of the ring.
\<close>

theorem select_runs_the_tournament:
  fixes call1 call2 :: "'i job \<Rightarrow> (real \<times> real) res" and k :: nat
  assumes "2 \<le> length candidates" and "\<And>js. mset (completion js) = mset js" and "distinct (map crit_id crits)"
    and "n = length candidates" and "trials = trials_of problem images candidates" and "base = start_cache True disk"
    and "J1 = judge base call1 trials crits n_evaluations" and "ring = ring_cycle n draw"
    and "pr = pivot_round_pairs n (ring_pivots n ring (int k) J1)"
    and "J = judge_both base ring pr call1 call2 trials crits n_evaluations"
  shows "\<exists>r. fst (select problem candidates crits images n_evaluations (int k) draw ''tie'' (Inr ()) call1 call2 completion True disk) = Inr r \<and>
    v_scores r = map (preference J (ring @ pr)) [0..<n] \<and> v_n_comparisons r = length ring + length pr \<and>
    v_index r < n \<and> v_best r = candidates ! v_index r \<and>
    (\<forall>i<n. preference J (ring @ pr) i < preference J (ring @ pr) (v_index r) \<or>
      preference J (ring @ pr) i = preference J (ring @ pr) (v_index r) \<and> v_index r \<le> i) \<and>
    ((\<forall>(a, b) \<in> set ring. J a b = J1 a b) \<longrightarrow> select_best n ring (int k) J = Inr (v_index r, v_n_comparisons r))"
  using select_closed_both [OF assms(1-3), where disk = disk and problem = problem and images = images
      and n_evaluations = n_evaluations and k = k and draw = draw and ?call1.0 = call1 and ?call2.0 = call2]
  unfolding assms(4) [symmetric] assms(5) [symmetric] assms(6) [symmetric] assms(8) [symmetric] assms(7) [symmetric]
    assms(9) [symmetric] assms(10) [symmetric] .

definition ex_flaky :: "unit job \<Rightarrow> (real \<times> real) res" where
  \<comment> \<open>a first pass in which every call fails\<close>
  "ex_flaky j = Inl (OtherError ''RateLimitError'')"

theorem select_runs_the_tournament_witness:
  "\<exists>r. fst (select ''p'' [''a'', ''b'', ''c''] ex_crit () 1 (int 1) (\<lambda>i. i) ''tie'' (Inr ()) ex_flaky ex_judging rev True None) = Inr r \<and>
     length (v_scores r) = 3 \<and> v_index r < 3"
proof -
  have h: "2 \<le> length [''a'', ''b'', ''c'']" "distinct (map crit_id ex_crit)" by simp_all
  have "\<And>js :: unit job list. mset (rev js) = mset js" by simp
  from select_runs_the_tournament [OF h(1) this h(2) refl refl refl refl refl refl refl, where problem = "''p''"
      and images = "()" and n_evaluations = 1 and draw = "\<lambda>i. i" and k = 1 and ?call1.0 = ex_flaky and ?call2.0 = ex_judging and disk = None]
  show ?thesis by (elim exE conjE) (rule exI, intro conjI, assumption, simp_all)
qed

text \<open>
  without a cache file the second phase starts from an empty score table, so the result is the
  tournament's comparisons aggregated with every ring comparison that is not also a pivot-round
  comparison replaced by a tie.
\<close>

theorem select_without_cache_forgets_the_ring:
  fixes call :: "'i job \<Rightarrow> (real \<times> real) res" and k :: nat
  assumes "2 \<le> length candidates" and "\<And>js. mset (completion js) = mset js" and "distinct (map crit_id crits)"
    and "J = judge [] call (trials_of problem images candidates) crits n_evaluations"
    and "pr = pivot_round_pairs (length candidates) (ring_pivots (length candidates) (ring_cycle (length candidates) draw) (int k) J)"
    and "P = ring_cycle (length candidates) draw @ pr"
  shows "\<exists>r. fst (select problem candidates crits images n_evaluations (int k) draw ''tie'' (Inr ()) call call completion False disk) = Inr r \<and>
    v_index r < length candidates \<and> v_n_comparisons r = length P \<and>
    v_scores r = map (preference (forget pr J) P) [0..<length candidates] \<and>
    (\<forall>i<length candidates. v_scores r ! i < v_scores r ! v_index r \<or> v_scores r ! i = v_scores r ! v_index r \<and> v_index r \<le> i)"
proof -
  have J: "judge (start_cache False disk) call (trials_of problem images candidates) crits n_evaluations = J"
    by (simp add: start_cache_def assms(4))
  have P: "tournament_pairs (length candidates) (ring_cycle (length candidates) draw) (int k) J = P"
    by (simp add: tournament_pairs_def assms(5,6))
  obtain r where r: "fst (select problem candidates crits images n_evaluations (int k) draw ''tie'' (Inr ()) call call completion False disk) = Inr r"
      "best_index (length candidates) (map (soft_wins (forget pr J) P) [0..<length candidates])
        (map (appearances P) [0..<length candidates]) = Inr (v_index r)"
      "v_scores r = map (preference (forget pr J) P) [0..<length candidates]" "v_n_comparisons r = length P"
    using select_closed [OF assms(1-3), where filed = False and disk = disk and problem = problem and images = images
      and n_evaluations = n_evaluations and k = k and draw = draw and call = call]
    unfolding if_False J assms(5) [symmetric] P by blast
  with best_of_closed [OF r(2)] show ?thesis by (intro exI [of _ r]) simp
qed

theorem select_without_cache_forgets_the_ring_witness:
  "\<exists>r. fst (select ''p'' [''a'', ''b'', ''c''] ex_crit () 1 (int 1) (\<lambda>i. i) ''tie'' (Inr ()) ex_judging ex_judging rev False None) = Inr r \<and>
     v_index r < 3"
proof -
  have h: "2 \<le> length [''a'', ''b'', ''c'']" "distinct (map crit_id ex_crit)" by simp_all
  have "\<And>js :: unit job list. mset (rev js) = mset js" by simp
  from select_without_cache_forgets_the_ring [OF h(1) this h(2) refl refl refl, where problem = "''p''"
      and images = "()" and n_evaluations = 1 and draw = "\<lambda>i. i" and k = 1 and call = ex_judging and disk = None]
  show ?thesis by (elim exE conjE) (rule exI, rule conjI, assumption, simp)
qed

lemma ex_ring: "ring_cycle 3 (\<lambda>i. i) = [(0, 1), (1, 2), (2, 0)]"
  by code_simp

lemma ex_judge:
  assumes "trials = trials_of ''p'' () [''a'', ''b'', ''c'']"
  shows "judge [] ex_judging trials ex_crit 1 0 1 = (1, 0)" "judge [] ex_judging trials ex_crit 1 1 2 = (1, 0)"
    "judge [] ex_judging trials ex_crit 1 2 0 = (0, 1)" "judge [] ex_judging trials ex_crit 1 1 0 = (1, 0)"
  by (simp_all add: assms judge_def pair_requests_def final_entry_def outcome_def mk_job_def ex_judging_def trials_of_def
      entry_of_def readings_def entry_or_half_def)

lemma ex_combine:
  fixes s :: score_fun
  defines "b \<equiv> \<lambda>i j. bradley_terry (fst (s i j)) (snd (s i j))" and "P \<equiv> [(0, 1), (1, 2), (2, 0), (1, 0), (2, 0)]"
  shows "preference s P 0 = (b 0 1 + 2 * (1 - b 2 0) + (1 - b 1 0)) / 4"
    "preference s P 1 = ((1 - b 0 1) + b 1 2 + b 1 0) / 3" "preference s P 2 = ((1 - b 1 2) + 2 * b 2 0) / 3"
  by (simp_all add: b_def P_def preference_def soft_wins_def soft_win_def appearances_def appearance_def Let_def)

lemma ex_tournament:
  assumes "J = judge [] ex_judging (trials_of ''p'' () [''a'', ''b'', ''c'']) ex_crit 1"
  shows "ring_pivots 3 (ring_cycle 3 (\<lambda>i. i)) (int 1) J = [0]" "pivot_round_pairs 3 [0] = [(1, 0), (2, 0)]"
proof -
  define w c where "w = map (soft_wins J (ring_cycle 3 (\<lambda>i. i))) [0..<3]"
    and "c = map (appearances (ring_cycle 3 (\<lambda>i. i))) [0..<3]"
  have w: "w = [2 * bradley_terry 1 0, 1, 2 - 2 * bradley_terry 1 0]" "c = [2, 2, 2]"
    using bradley_terry_swap [of 0 1]
    by (simp_all add: w_def c_def ex_ring upt_rec soft_wins_def soft_win_def appearances_def appearance_def Let_def
        ex_judge [OF refl, simplified] assms)
  have one: "length (select_pivots w c (int 1)) = 1" "set (select_pivots w c (int 1)) \<subseteq> {0..<3}"
    using select_pivots_perm [of w c 1] w by auto
  then obtain p where p: "select_pivots w c (int 1) = [p]" by (cases "select_pivots w c (int 1)") auto
  have "p = 0"
  proof (rule ccontr)
    assume "p \<noteq> 0"
    moreover have "p \<in> {0, 1, 2}" using one p by auto
    moreover have "mean_pref w c 0 < mean_pref w c p \<or> (mean_pref w c 0 = mean_pref w c p \<and> p < 0)"
      by (rule select_pivots_leaders [where k = 1]) (use p \<open>p \<noteq> 0\<close> w in auto)
    ultimately show False
      using bradley_terry_half_iff [of 1 0] by (auto simp: mean_pref_def w)
  qed
  then show "ring_pivots 3 (ring_cycle 3 (\<lambda>i. i)) (int 1) J = [0]"
    using p by (simp add: ring_pivots_def w_def c_def)
qed code_simp

lemma ex_select:
  fixes filed :: bool
  defines "J \<equiv> judge [] ex_judging (trials_of ''p'' () [''a'', ''b'', ''c'']) ex_crit 1"
  defines "S \<equiv> if filed then J else forget [(1, 0), (2, 0)] J" and "P \<equiv> [(0, 1), (1, 2), (2, 0), (1, 0), (2, 0)]"
  obtains r where "fst (select ''p'' [''a'', ''b'', ''c''] ex_crit () 1 1 (\<lambda>i. i) ''tie'' (Inr ()) ex_judging ex_judging (\<lambda>js. js) filed None) = Inr r"
    and "v_index r < 3" "\<And>i. i < 3 \<Longrightarrow> preference S P i < preference S P (v_index r) \<or>
      (preference S P i = preference S P (v_index r) \<and> v_index r \<le> i)"
proof -
  have h: "2 \<le> length [''a'', ''b'', ''c'']" "distinct (map crit_id ex_crit)" "\<And>js :: unit job list. mset js = mset js" by simp_all
  have len: "length [''a'', ''b'', ''c''] = 3" by simp
  have J: "judge (start_cache filed None) ex_judging (trials_of ''p'' () [''a'', ''b'', ''c'']) ex_crit 1 = J"
    by (simp add: start_cache_def J_def)
  note T = ex_tournament [OF J_def [THEN meta_eq_to_obj_eq]]
  obtain r where r: "fst (select ''p'' [''a'', ''b'', ''c''] ex_crit () 1 (int 1) (\<lambda>i. i) ''tie'' (Inr ()) ex_judging ex_judging (\<lambda>js. js) filed None) = Inr r"
    "best_index 3 (map (soft_wins S P) [0..<3]) (map (appearances P) [0..<3]) = Inr (v_index r)"
    using select_closed [OF h(1) h(3) h(2), where filed = filed and disk = None and problem = "''p''" and images = "()"
      and n_evaluations = 1 and k = 1 and draw = "\<lambda>i. i" and call = ex_judging]
    unfolding len J tournament_pairs_def T unfolding ex_ring S_def P_def by auto
  from r(1) best_of_closed [OF r(2)] show ?thesis by (intro that [of r]) simp_all
qed

lemma ex_select_index:
  obtains r where "fst (select ''p'' [''a'', ''b'', ''c''] ex_crit () 1 1 (\<lambda>i. i) ''tie'' (Inr ()) ex_judging ex_judging (\<lambda>js. js) filed None) = Inr r"
    and "v_index r = (if filed then 0 else 1)"
proof -
  let ?J = "judge [] ex_judging (trials_of ''p'' () [''a'', ''b'', ''c'']) ex_crit 1"
  let ?S = "if filed then ?J else forget [(1, 0), (2, 0)] ?J" and ?P = "[(0, 1), (1, 2), (2, 0), (1, 0), (2, 0)] :: (nat \<times> nat) list"
  have b: "bradley_terry 0 1 = 1 - bradley_terry 1 0" "1 / 2 < bradley_terry 1 0" "bradley_terry 1 0 < 1"
    using bradley_terry_half_iff [of 1 0] bradley_terry_bounds [of 1 0] bradley_terry_swap [of 0 1] by simp_all
  obtain r where r: "fst (select ''p'' [''a'', ''b'', ''c''] ex_crit () 1 1 (\<lambda>i. i) ''tie'' (Inr ()) ex_judging ex_judging (\<lambda>js. js) filed None) = Inr r"
    "v_index r < 3" and best: "\<And>i. i < 3 \<Longrightarrow> preference ?S ?P i < preference ?S ?P (v_index r) \<or>
      (preference ?S ?P i = preference ?S ?P (v_index r) \<and> v_index r \<le> i)"
    by (rule ex_select [of filed]) blast
  have "v_index r = (if filed then 0 else 1)"
  proof (cases filed)
    case True
    have "preference ?S ?P 1 < preference ?S ?P 0" "preference ?S ?P 2 < preference ?S ?P 0"
      unfolding ex_combine using True b by (simp_all add: ex_judge [OF refl] ex_judge [OF refl, simplified])
    with best [of 0] True r(2) show ?thesis by (cases "v_index r") (auto simp: numeral_3_eq_3 less_Suc_eq numeral_2_eq_2)
  next
    case False
    have "preference ?S ?P 0 < preference ?S ?P 1" "preference ?S ?P 2 < preference ?S ?P 1"
      unfolding ex_combine using False b
      by (simp_all add: forget_def ex_judge [OF refl] ex_judge [OF refl, simplified])
    with best [of 1] False r(2) show ?thesis by (cases "v_index r") (auto simp: numeral_3_eq_3 less_Suc_eq numeral_2_eq_2)
  qed
  with r(1) that show ?thesis by blast
qed

text \<open>
  forgetting the ring changes decisions: one verifier, one seed, three candidates, for which
  \<open>select\<close> returns the first candidate with a fresh cache file and the second without one.
\<close>

theorem cache_file_changes_the_winner:
  "\<exists>r r'. fst (select ''p'' [''a'', ''b'', ''c''] ex_crit () 1 1 (\<lambda>i. i) ''tie'' (Inr ()) ex_judging ex_judging (\<lambda>js. js) True None) = Inr r \<and>
     fst (select ''p'' [''a'', ''b'', ''c''] ex_crit () 1 1 (\<lambda>i. i) ''tie'' (Inr ()) ex_judging ex_judging (\<lambda>js. js) False None) = Inr r' \<and>
     v_index r = 0 \<and> v_index r' = 1"
  by (rule ex_select_index [of True], rule ex_select_index [of False]) auto

text \<open>
  the ranking of a selection lists every candidate once, by falling score and then by index,
  and the winner comes first; this holds with and without a cache file.
\<close>

theorem ranking_starts_with_the_winner:
  fixes call :: "'i job \<Rightarrow> (real \<times> real) res" and k :: nat
  assumes "2 \<le> length candidates" and "\<And>js. mset (completion js) = mset js" and "distinct (map crit_id crits)"
  shows "\<exists>r. fst (select problem candidates crits images n_evaluations (int k) draw ''tie'' (Inr ()) call call completion filed disk) = Inr r \<and>
    mset (ranking r) = mset [0..<length candidates] \<and> sorted (map (\<lambda>i. (- (v_scores r ! i), i)) (ranking r)) \<and>
    ranking r \<noteq> [] \<and> hd (ranking r) = v_index r \<and> v_best r = candidates ! v_index r"
proof -
  obtain r s P where r: "fst (select problem candidates crits images n_evaluations (int k) draw ''tie'' (Inr ()) call call completion filed disk) = Inr r"
      "best_index (length candidates) (map (soft_wins s P) [0..<length candidates])
        (map (appearances P) [0..<length candidates]) = Inr (v_index r)"
      "v_scores r = map (preference s P) [0..<length candidates]" "v_best r = candidates ! v_index r"
    using select_closed [OF assms, where filed = filed and disk = disk and problem = problem and images = images
      and n_evaluations = n_evaluations and k = k and draw = draw and call = call] by blast
  note best = best_of_closed [OF r(2)]
  have "ranking r \<noteq> [] \<and> hd (ranking r) = v_index r"
    by (rule ranking_hd) (use best r(3) in auto)
  with r ranking_perm [of r] ranking_sorted [of r] show ?thesis by auto
qed

theorem ranking_starts_with_the_winner_witness:
  "\<exists>r. fst (select ''p'' [''a'', ''b'', ''c''] ex_crit () 1 (int 1) (\<lambda>i. i) ''tie'' (Inr ()) ex_judging ex_judging (\<lambda>js. js) False None) = Inr r \<and>
     hd (ranking r) = v_index r"
  using ranking_starts_with_the_winner [where candidates = "[''a'', ''b'', ''c'']" and crits = ex_crit and problem = "''p''"
      and images = "()" and n_evaluations = 1 and draw = "\<lambda>i. i" and k = 1 and call = ex_judging and disk = None
      and filed = False and completion = "\<lambda>js. js"] by auto

text \<open>
  \<open>compare\<close> on the verifier's own scorer returns two rewards in \<open>[0, 1]\<close>, the means over all
  criteria and repetitions; it returns only if there is a criterion, at least one repetition, and
  every single call succeeded.
\<close>

theorem compare_rewards_in_unit_interval:
  assumes "compare crits n_evaluations max_workers client (\<lambda>crit i. score_pair_criterion (ask i) (job crit)) = Inr (ra, rb)"
  shows "0 \<le> ra \<and> ra \<le> 1 \<and> 0 \<le> rb \<and> rb \<le> 1 \<and> 1 \<le> n_evaluations \<and> crits \<noteq> [] \<and>
    (\<forall>crit \<in> set crits. \<forall>i < nat n_evaluations. \<exists>resp. ask i (job crit) = Inr resp)"
proof -
  let ?call = "\<lambda>crit i. score_pair_criterion (ask i) (job crit)"
  let ?jobs = "[(crit, i). crit \<leftarrow> crits, i \<leftarrow> [0..<nat n_evaluations]]"
  obtain results where r: "results \<noteq> []" "1 \<le> n_evaluations" "crits \<noteq> []"
    "map (\<lambda>(crit, i). ?call crit i) ?jobs = map Inr results"
    "ra = sum_list (map fst results) / real (length results)" "rb = sum_list (map snd results) / real (length results)"
    by (rule compare_Inr [OF assms])
  have unit: "0 \<le> fst x \<and> fst x \<le> 1 \<and> 0 \<le> snd x \<and> snd x \<le> 1" if "x \<in> set results" for x
  proof -
    from that have "Inr x \<in> set (map (\<lambda>(crit, i). ?call crit i) ?jobs)" unfolding r(4) by simp
    then obtain crit i where "?call crit i = Inr x" by force
    from score_pair_criterion_Inr [OF this] show ?thesis by blast
  qed
  have "\<exists>resp. ask i (job crit) = Inr resp" if "crit \<in> set crits" "i < nat n_evaluations" for crit i
  proof -
    from that have "?call crit i \<in> set (map (\<lambda>(crit, i). ?call crit i) ?jobs)" by force
    then obtain x where "?call crit i = Inr x" unfolding r(4) by auto
    from score_pair_criterion_Inr [OF this] show ?thesis by blast
  qed
  moreover have "0 \<le> ra \<and> ra \<le> 1" using mean_unit [of "map fst results"] r(1,5) unit by (simp add: list_all_iff)
  moreover have "0 \<le> rb \<and> rb \<le> 1" using mean_unit [of "map snd results"] r(1,6) unit by (simp add: list_all_iff)
  ultimately show ?thesis using r(2,3) by blast
qed

theorem compare_rewards_in_unit_interval_witness:
  "\<exists>ra rb. compare ex_crit 2 8 (Inr ()) (\<lambda>crit i. score_pair_criterion (\<lambda>j. Inr ([], [], [])) ex_job) = Inr (ra, rb) \<and>
     0 \<le> ra \<and> rb \<le> 1"
proof -
  let ?run = "compare ex_crit 2 8 (Inr ()) (\<lambda>crit i. score_pair_criterion (\<lambda>j. Inr ([], [], [])) ex_job)"
  obtain ra rb where "?run = Inr (ra, rb)"
    by (simp add: compare_def score_pair_criterion_def mean_of_def numeral_2_eq_2)
  with compare_rewards_in_unit_interval [OF this] show ?thesis by blast
qed

end
