(* ===== verification/Best_Of_N.thy ===== *)
theory Best_Of_N
  imports Best_Of_N_Config Git_Worktree Verifier_Select
begin

text \<open>
  A best-of-N run of \<^verbatim>\<open>codify/best_of_n.py\<close>: worktrees are created for the launchable proposers, an
  agent works in each, every proposal is snapshotted, the usable ones are compared by
  \<open>llm_verifier.select\<close>, the winner is merged into the repository and the worktrees are removed.

  The main thread runs on one machine of \<open>Host_World\<close>. Each proposal's thread runs on a machine of
  its own: what it sees of the others is whatever that machine answers, so every interleaving is
  covered. Clocks, the run identifier and texts with binary floats are arguments, and the progress
  messages are left out.
\<close>

section \<open>Transcripts\<close>

definition nl :: string where "nl = [CHR 0x0A]"

definition as_dict :: "pyval \<Rightarrow> (string \<times> pyval) list res" where
  "as_dict v = (case v of PDict d \<Rightarrow> Inr d | _ \<Rightarrow> Inl (OtherError ''AttributeError''))"

definition or_empty_dict :: "(string \<times> pyval) list \<Rightarrow> string \<Rightarrow> pyval" where
  "or_empty_dict d k = (case truthy d k of None \<Rightarrow> PDict [] | Some v \<Rightarrow> v)"

definition blocks_of :: "(string \<times> pyval) list \<Rightarrow> pyval list res" where
  "blocks_of message = (case truthy message ''content'' of None \<Rightarrow> Inr [] | Some v \<Rightarrow> py_list v)"

definition first_truthy :: "(string \<times> pyval) list \<Rightarrow> string list \<Rightarrow> pyval" where
  \<comment> \<open>\<open>d.get(k1) or d.get(k2) or ... or ""\<close>\<close>
  "first_truthy d ks = (case List.map_filter (truthy d) ks of [] \<Rightarrow> PStr [] | v # vs \<Rightarrow> v)"

definition tool_part :: "(pyval \<Rightarrow> string) \<Rightarrow> string \<Rightarrow> (string \<times> pyval) list \<Rightarrow> string \<Rightarrow> string" where
  "tool_part other arrow block detail =
     arrow @ '' '' @ py_str other (get_or block ''name'' (PStr ''tool'')) @ ''('' @ detail @ '')''"

definition pi_part :: "(pyval \<Rightarrow> string) \<Rightarrow> string \<Rightarrow> pyval \<Rightarrow> string option res" where
  "pi_part other arrow blk =
     bindR (as_dict blk) (\<lambda>block.
       case (if dget block ''type'' = Some (PStr ''text'') then truthy block ''text'' else None) of
         Some t \<Rightarrow> Inr (Some (py_str other t))
       | None \<Rightarrow>
           if dget block ''type'' \<in> {Some (PStr ''toolCall''), Some (PStr ''tool_call''), Some (PStr ''tool_use'')} then
             let arguments = (case truthy block ''arguments'' of Some a \<Rightarrow> a | None \<Rightarrow> or_empty_dict block ''input'');
                 detail = (case arguments of
                   PDict a \<Rightarrow> take 120 (py_str other (first_truthy a [''command'', ''file_path'', ''path'']))
                 | _ \<Rightarrow> [])
             in Inr (Some (tool_part other arrow block detail))
           else Inr None)"

definition claude_part :: "(pyval \<Rightarrow> string) \<Rightarrow> string \<Rightarrow> pyval \<Rightarrow> string option res" where
  "claude_part other arrow blk =
     bindR (as_dict blk) (\<lambda>block.
       case (if dget block ''type'' = Some (PStr ''text'') then truthy block ''text'' else None) of
         Some t \<Rightarrow> Inr (Some (py_str other t))
       | None \<Rightarrow>
           if dget block ''type'' = Some (PStr ''tool_use'') then
             bindR (as_dict (or_empty_dict block ''input'')) (\<lambda>tool_input.
               let detail = take 120 (py_str other (first_truthy tool_input [''command'', ''file_path'', ''pattern'']))
               in Inr (Some (tool_part other arrow block detail)))
           else Inr None)"

definition joined_parts :: "(pyval \<Rightarrow> string option res) \<Rightarrow> (string \<times> pyval) list \<Rightarrow> string option res" where
  "joined_parts part message =
     bindR (blocks_of message) (\<lambda>blks.
     bindR (first_error (map part blks)) (\<lambda>ps.
       let parts = List.map_filter (\<lambda>p. p) ps
       in Inr (if parts \<noteq> [] then Some (join nl parts @ nl) else None)))"

definition render_event :: "(pyval \<Rightarrow> string) \<Rightarrow> string \<Rightarrow> string \<Rightarrow> string \<Rightarrow> (string \<times> pyval) list \<Rightarrow> string option res" where
  "render_event other arrow dot harness event =
     (let etype = dget event ''type''
      in if harness = ''pi'' then
           if etype = Some (PStr ''session'') then Inr (Some (''[pi session started]'' @ nl))
           else if etype = Some (PStr ''message_end'') then
             bindR (as_dict (or_empty_dict event ''message'')) (\<lambda>message.
               if dget message ''role'' \<noteq> Some (PStr ''assistant'') then Inr None
               else joined_parts (pi_part other arrow) message)
           else Inr None
         else if etype = Some (PStr ''system'') then
           (case truthy event ''model'' of
              None \<Rightarrow> Inr (Some (''[claude session started]'' @ nl))
            | Some (PStr m) \<Rightarrow> Inr (Some (''[claude session started'' @ '' '' @ dot @ '' '' @ m @ '']'' @ nl))
            | Some _ \<Rightarrow> Inl (TypeError ''can only concatenate str''))
         else if etype = Some (PStr ''assistant'') then
           bindR (as_dict (or_empty_dict event ''message'')) (joined_parts (claude_part other arrow))
         else if etype = Some (PStr ''result'') then
           (case dget event ''result'' of
              Some (PStr r) \<Rightarrow> Inr (Some (nl @ ''[result] '' @ r @ nl))
            | _ \<Rightarrow> Inr None)
         else Inr None)"

record rendering =
  rd_other :: "pyval \<Rightarrow> string"
  rd_arrow :: string \<comment> \<open>the arrow and the middle dot of the texts\<close>
  rd_dot :: string
  rd_loads :: "string \<Rightarrow> pyval option" \<comment> \<open>\<open>json.loads\<close>, \<open>None\<close> for a \<open>ValueError\<close>\<close>

definition render_transcript_line :: "rendering \<Rightarrow> string \<Rightarrow> string \<Rightarrow> string option res" where
  "render_transcript_line rd harness line =
     (if harness \<noteq> ''claude'' \<and> harness \<noteq> ''pi'' then Inr (Some line)
      else let stripped = strip line
      in if \<not> starts_with stripped [CHR 0x7B] then Inr (Some line)
         else case rd_loads rd stripped of
                None \<Rightarrow> Inr (Some line)
              | Some v \<Rightarrow> bindR (as_dict v) (render_event (rd_other rd) (rd_arrow rd) (rd_dot rd) harness))"

definition render_transcript :: "rendering \<Rightarrow> string \<Rightarrow> string \<Rightarrow> string res" where
  "render_transcript rd harness content =
     bindR (first_error (map (\<lambda>line. render_transcript_line rd harness (line @ nl)) (splitlines content))) (\<lambda>chunks.
       Inr (concat (List.map_filter (\<lambda>c. c) chunks)))"

section \<open>Proposals\<close>

record proposal =
  pp_harness :: string
  pp_index :: nat
  pp_branch :: string
  pp_worktree :: string
  pp_model :: pyval
  pp_transcript :: string
  pp_diff :: string
  pp_ok :: bool
  pp_error :: "string option"
  pp_duration :: real

definition max_transcript_chars :: nat where "max_transcript_chars = 30000"
definition max_diff_chars :: nat where "max_diff_chars = 40000"

definition last_chars :: "nat \<Rightarrow> string \<Rightarrow> string" where
  \<comment> \<open>\<open>s[-n:]\<close> for a positive \<open>n\<close>\<close>
  "last_chars n s = drop (length s - n) s"

definition trajectory :: "string \<Rightarrow> proposal \<Rightarrow> string" where
  "trajectory problem p =
     (let transcript = last_chars max_transcript_chars (pp_transcript p);
          cut = take max_diff_chars (pp_diff p);
          diff = (if cut \<noteq> [] then cut else ''(no file changes)'')
      in ''# Task'' @ nl @ problem @ nl @ nl @ ''# Agent transcript ('' @ pp_harness p @ '')'' @ nl @ transcript @ nl @ nl @
         ''# Final diff'' @ nl @ ''```diff'' @ nl @ diff @ nl @ ''```'' @ nl)"

section \<open>The repository\<close>

definition git_raw :: "'w host \<Rightarrow> string list \<Rightarrow> string \<Rightarrow> ('w, completed) act" where
  \<comment> \<open>\<open>_run_git\<close> of this module: nothing is caught\<close>
  "git_raw h args cwd w =
     (case h_exec h (''git'' # args) cwd w of
        (Completed c, w') \<Rightarrow> (Inr c, w')
      | (FileMissing, w') \<Rightarrow> (Inl (ProcessError ''FileNotFoundError''), w')
      | (Expired, w') \<Rightarrow> (Inl (ProcessError ''TimeoutExpired''), w')
      | (OsError m, w') \<Rightarrow> (Inl (ProcessError m), w'))"

definition git_identity :: "string list" where
  "git_identity = [''-c'', ''user.name=codify'', ''-c'', ''user.email=bot@codify.dev'']"

definition baseline_args :: "string list" where
  "baseline_args = git_identity @ [''commit'', ''--allow-empty'', ''-m'', ''Initial commit (codify best-of-n baseline)'']"

definition ensure_repo_ready :: "'w host \<Rightarrow> string \<Rightarrow> ('w, string option) act" where
  "ensure_repo_ready h repo_path =
     bindS (asks (h_is_dir h (path_str (parse_path repo_path)))) (\<lambda>is_dir.
     if \<not> is_dir then fail (BestOfNError (''repository path does not exist: '' @ repo_path))
     else bindS (git_raw h [''rev-parse'', ''--git-dir''] repo_path) (\<lambda>probe.
     bindS (if returncode probe = 0 then ret None
            else bindS (git_raw h [''init'', ''-q''] repo_path) (\<lambda>init.
              if returncode init \<noteq> 0 then fail (BestOfNError (''git init failed: '' @ strip (stderr init)))
              else ret (Some ''initialized a new git repository''))) (\<lambda>msg.
     bindS (git_raw h [''rev-parse'', ''HEAD''] repo_path) (\<lambda>head.
     if returncode head = 0 then ret msg
     else bindS (git_raw h [''add'', ''-A''] repo_path) (\<lambda>_.
     bindS (git_raw h baseline_args repo_path) (\<lambda>commit.
     if returncode commit \<noteq> 0 then fail (BestOfNError (''could not create the baseline commit: '' @ strip (stderr commit)))
     else ret (Some ((case msg of Some m \<Rightarrow> m @ '' and '' | None \<Rightarrow> []) @ ''committed the existing files as the baseline''))))))))"

definition snapshot_args :: "proposal \<Rightarrow> string list" where
  "snapshot_args p = git_identity @ [''commit'', ''-m'', ''best-of-n proposal: '' @ pp_harness p @ '' #'' @ show_nat (pp_index p)]"

definition snapshot_proposal :: "'w host \<Rightarrow> string \<Rightarrow> proposal \<Rightarrow> ('w, proposal) act" where
  "snapshot_proposal h base_commit p =
     bindS (git_raw h [''add'', ''-A''] (pp_worktree p)) (\<lambda>_.
     bindS (git_raw h (snapshot_args p) (pp_worktree p)) (\<lambda>commit.
     let err = (if returncode commit \<noteq> 0 \<and> \<not> contains (stdout commit @ stderr commit) ''nothing to commit''
                then (case pp_error p of Some e \<Rightarrow> if e \<noteq> [] then Some e else Some (''git commit failed: '' @ strip (stderr commit))
                      | None \<Rightarrow> Some (''git commit failed: '' @ strip (stderr commit)))
                else pp_error p)
     in bindS (git_raw h [''diff'', base_commit, ''HEAD''] (pp_worktree p)) (\<lambda>d.
       let diff = (if returncode d = 0 then stdout d else [])
       in ret (p\<lparr>pp_error := err, pp_diff := diff,
            pp_ok := (err = None \<or> diff \<noteq> [] \<or> strip (pp_transcript p) \<noteq> [])\<rparr>))))"

section \<open>A proposal's thread\<close>

datatype agent_outcome = Exited completed | AgentTimeout "string option" | AgentOsError string

record 'v worker =
  wk_host :: "'v host"
  wk_agent :: "string list \<Rightarrow> string \<Rightarrow> (string, pyval) pydict \<Rightarrow> 'v \<Rightarrow> agent_outcome \<times> 'v"
  wk_world :: 'v
  wk_duration :: real

definition lift_py :: "'a res \<Rightarrow> run_error + 'a" where
  "lift_py r = (case r of Inl e \<Rightarrow> Inl (PyError e) | Inr x \<Rightarrow> Inr x)"

definition round_half_even :: "real \<Rightarrow> int" where
  "round_half_even r =
     (let f = \<lfloor>r\<rfloor>; d = r - of_int f
      in if d < 1 / 2 then f else if d > 1 / 2 then f + 1 else if even f then f else f + 1)"

definition str_value :: "pyval \<Rightarrow> bool" where
  "str_value v = (case v of PStr s \<Rightarrow> True | _ \<Rightarrow> False)"

definition agent_result :: "rendering \<Rightarrow> proposer_spec \<Rightarrow> real \<Rightarrow> agent_outcome \<Rightarrow> proposal \<Rightarrow> run_error + proposal" where
  \<comment> \<open>what the three branches of the \<open>try\<close> leave in the proposal\<close>
  "agent_result rd spec timeout out p =
     (case out of
        Exited c \<Rightarrow>
          bindR (lift_py (render_transcript rd (po_harness spec) (stdout c))) (\<lambda>t.
            Inr (p\<lparr>pp_transcript := t @ (if strip (stderr c) \<noteq> [] then nl @ ''[stderr]'' @ nl @ stderr c else []),
              pp_error := (if returncode c \<noteq> 0 then Some (po_harness spec @ '' exited with code '' @ show_int (returncode c))
                           else pp_error p)\<rparr>))
      | AgentTimeout captured \<Rightarrow>
          Inr (p\<lparr>pp_transcript := (case captured of Some s \<Rightarrow> s | None \<Rightarrow> []),
            pp_error := Some (po_harness spec @ '' timed out after '' @ show_int (round_half_even timeout) @ ''s'')\<rparr>)
      | AgentOsError m \<Rightarrow> Inr (p\<lparr>pp_error := Some (''failed to launch '' @ po_harness spec @ '': '' @ m)\<rparr>))"

definition proposal_thread :: "rendering \<Rightarrow> (string, string) pydict \<Rightarrow> best_of_n_config \<Rightarrow> string \<Rightarrow> string \<Rightarrow>
    'v worker \<Rightarrow> proposer_spec \<Rightarrow> proposal \<Rightarrow> (run_error + proposal) \<times> 'v" where
  \<comment> \<open>\<open>_run_proposal\<close>: its outcome and what it leaves of the thread's machine\<close>
  "proposal_thread rd environ config prompt base_commit wk spec p =
     (case lift_py (build_command spec prompt (cf_proposal_model config)) of
        Inl e \<Rightarrow> (Inl e, wk_world wk)
      | Inr argv \<Rightarrow>
          let env = proposal_env environ spec config
          in if \<not> list_all (str_value \<circ> snd) env then (Inl (PyError (TypeError ''expected str, bytes or os.PathLike object'')), wk_world wk)
             else case wk_agent wk argv (pp_worktree p) env (wk_world wk) of
                    (out, v) \<Rightarrow>
                      (case agent_result rd spec (cf_timeout config) out p of
                         Inl e \<Rightarrow> (Inl e, v)
                       | Inr p1 \<Rightarrow> snapshot_proposal (wk_host wk) base_commit (p1\<lparr>pp_duration := wk_duration wk\<rparr>) v))"

definition run_proposal :: "rendering \<Rightarrow> (string, string) pydict \<Rightarrow> best_of_n_config \<Rightarrow> string \<Rightarrow> string \<Rightarrow>
    'v worker \<Rightarrow> proposer_spec \<Rightarrow> proposal \<Rightarrow> run_error + proposal" where
  "run_proposal rd environ config prompt base_commit wk spec p = fst (proposal_thread rd environ config prompt base_commit wk spec p)"

section \<open>The verifier\<close>

datatype endpoint = Endpoint string pyval \<comment> \<open>an OpenAI client: its base URL and key\<close>

datatype verifier_client = Plain endpoint | DeepSeek endpoint endpoint \<comment> \<open>the main and the beta endpoint\<close>

definition removesuffix :: "string \<Rightarrow> string \<Rightarrow> string" where
  "removesuffix s suf = (if starts_with (rev s) (rev suf) \<and> suf \<noteq> [] then take (length s - length suf) s else s)"

definition beta_url :: "string \<Rightarrow> string" where
  "beta_url base = removesuffix (rev (dropWhile (\<lambda>c. c = CHR ''/'') (rev base))) ''/v1'' @ ''/beta''"

definition missing_key :: "verifier_settings \<Rightarrow> run_error" where
  "missing_key v = BestOfNError (''verifier API key not found: set '' @ vs_api_key_env v @
     '' in the environment or best_of_n.verifier.api_key in the config'')"

definition create_verifier_client :: "(string, string) pydict \<Rightarrow> verifier_settings \<Rightarrow> run_error + verifier_client" where
  "create_verifier_client environ v =
     (let api_key = (case dget environ (vs_api_key_env v) of
            Some k \<Rightarrow> if k \<noteq> [] then Some (PStr k) else vs_api_key v
          | None \<Rightarrow> vs_api_key v)
      in case api_key of
           None \<Rightarrow> Inl (missing_key v)
         | Some k \<Rightarrow>
             if \<not> py_truth k then Inl (missing_key v)
             else if \<not> contains (vs_base_url v) ''api.deepseek.com'' then Inr (Plain (Endpoint (vs_base_url v) k))
             else Inr (DeepSeek (Endpoint (vs_base_url v) k) (Endpoint (beta_url (vs_base_url v)) k)))"

datatype prefill_target = MainEndpoint | BetaEndpoint

definition prefill_create :: "(string, pyval) pydict \<Rightarrow> (prefill_target \<times> (string, pyval) pydict) res" where
  \<comment> \<open>\<open>_DeepSeekPrefillCompletions.create\<close>: where the request goes and with which arguments;
     \<open>messages\<close> is a list\<close>
  "prefill_create kwargs0 =
     bindR (case truthy kwargs0 ''extra_body'' of None \<Rightarrow> Inr [] | Some v \<Rightarrow> py_dict v) (\<lambda>extra.
     let kwargs = filter (\<lambda>kv. fst kv \<noteq> ''extra_body'') kwargs0;
         messages = (case dget kwargs ''messages'' of Some (PList ms) \<Rightarrow> ms | _ \<Rightarrow> [])
     in if truthy extra ''continue_final_message'' = None \<or> messages = [] then Inr (MainEndpoint, kwargs)
        else bindR (as_dict (last messages)) (\<lambda>final.
          if dget final ''role'' \<noteq> Some (PStr ''assistant'') then Inr (MainEndpoint, kwargs)
          else bindR (first_error (map py_dict messages)) (\<lambda>ds.
            let rewritten = map PDict (butlast ds @ [dset ''prefix'' (PBool True) (last ds)])
            in Inr (BetaEndpoint, dset ''messages'' (PList rewritten) kwargs))))"

record verification =
  or_environ :: "(string, string) pydict"
  or_other :: "pyval \<Rightarrow> string"
  or_draw :: "int \<Rightarrow> nat \<Rightarrow> nat" \<comment> \<open>the generator seeded with an integer\<close>
  or_ring_call :: "verifier_client \<Rightarrow> unit job \<Rightarrow> (real \<times> real) res" \<comment> \<open>the verifier in the ring and in the pivot phase\<close>
  or_pivot_call :: "verifier_client \<Rightarrow> unit job \<Rightarrow> (real \<times> real) res"
  or_completion :: "unit job list \<Rightarrow> unit job list"

definition select_best_of_n :: "verification \<Rightarrow> string \<Rightarrow> string list \<Rightarrow> best_of_n_config \<Rightarrow> run_error + verifier_result" where
  \<comment> \<open>\<open>select_best\<close>: \<open>llm_verifier.select\<close> without images and without a cache file\<close>
  "select_best_of_n orc problem candidates config =
     (let v = cf_verifier config
      in bindR (create_verifier_client (or_environ orc) v) (\<lambda>client.
         bindR (lift_py (normalize_criteria (or_other orc) (PDict (map (\<lambda>(k, d). (k, PStr d)) (cf_criteria config))))) (\<lambda>crits.
         lift_py (fst (select problem candidates crits () (vs_n_evaluations v) (vs_pivots v) (or_draw orc (vs_seed v))
           (vs_on_error v) (Inr ()) (or_ring_call orc client) (or_pivot_call orc client) (or_completion orc) False None)))))"

section \<open>The run\<close>

definition launchable :: "(string \<Rightarrow> bool) \<Rightarrow> proposer_spec \<Rightarrow> bool" where
  "launchable which spec \<longleftrightarrow> po_enabled spec \<and>
     (po_command spec \<noteq> None \<or> dget harness_commands (po_harness spec) \<noteq> None \<and> harness_availability which (po_harness spec))"

definition slots_of :: "(string \<Rightarrow> bool) \<Rightarrow> best_of_n_config \<Rightarrow> proposer_spec list" where
  "slots_of which config = concat (map (\<lambda>s. replicate (nat (po_count s)) s) (filter (launchable which) (cf_proposers config)))"

definition proposal_branch :: "string \<Rightarrow> string \<Rightarrow> nat \<Rightarrow> string" where
  "proposal_branch run_id harness i = ''best-of-n/'' @ run_id @ ''/'' @ harness @ ''-'' @ show_nat i"

definition new_proposal :: "best_of_n_config \<Rightarrow> proposer_spec \<Rightarrow> nat \<Rightarrow> created_worktree \<Rightarrow> proposal" where
  "new_proposal config spec i cw =
     \<lparr>pp_harness = po_harness spec, pp_index = i, pp_branch = cw_branch cw, pp_worktree = cw_path cw,
      pp_model = (case po_model spec of Some m \<Rightarrow> if py_truth m then m else PStr (cf_proposal_model config)
                  | None \<Rightarrow> PStr (cf_proposal_model config)),
      pp_transcript = [], pp_diff = [], pp_ok = False, pp_error = None, pp_duration = 0\<rparr>"

fun create_proposals :: "'w host \<Rightarrow> string \<Rightarrow> string \<Rightarrow> best_of_n_config \<Rightarrow> nat \<Rightarrow> proposer_spec list \<Rightarrow>
    ('w, proposal list) act" where
  "create_proposals h repo run_id config i [] = ret []"
| "create_proposals h repo run_id config i (spec # specs) =
     bindS (create_worktree h repo (proposal_branch run_id (po_harness spec) i) None) (\<lambda>cw.
     bindS (create_proposals h repo run_id config (Suc i) specs) (\<lambda>ps. ret (new_proposal config spec i cw # ps)))"

definition prepare :: "'w host \<Rightarrow> string \<Rightarrow> ('w, string) act" where
  \<comment> \<open>up to the check that the repository is clean; the result is the base commit\<close>
  "prepare h repo =
     bindS (ensure_repo_ready h repo) (\<lambda>_.
     bindS (git_raw h [''rev-parse'', ''HEAD''] repo) (\<lambda>head.
     if returncode head \<noteq> 0 then fail (BestOfNError (''could not resolve HEAD in '' @ repo @ '': '' @ strip (stderr head)))
     else bindS (git_raw h [''status'', ''--porcelain''] repo) (\<lambda>dirty.
       if strip (stdout dirty) \<noteq> [] then fail (BestOfNError ''the repository has uncommitted changes; commit or stash them first so the winning proposal can be merged cleanly'')
       else ret (strip (stdout head)))))"

definition merge_winner :: "'w host \<Rightarrow> string \<Rightarrow> proposal \<Rightarrow> string \<Rightarrow> ('w, string option) act" where
  "merge_winner h repo winner message =
     (if strip (pp_diff winner) = [] then ret None
      else bindS (git_raw h [''merge'', ''--squash'', pp_branch winner] repo) (\<lambda>merged.
        if returncode merged \<noteq> 0 then fail (BestOfNError (''failed to merge winning branch '' @ pp_branch winner @ '': '' @ stderr merged))
        else bindS (git_raw h (git_identity @ [''commit'', ''-m'', message]) repo) (\<lambda>committed.
          if returncode committed \<noteq> 0 then fail (BestOfNError (''failed to commit winning proposal: '' @ stderr committed))
          else bindS (git_raw h [''rev-parse'', ''HEAD''] repo) (\<lambda>head. ret (Some (strip (stdout head)))))))"

fun cleanup :: "'w host \<Rightarrow> (proposal \<Rightarrow> bool) \<Rightarrow> proposal list \<Rightarrow> ('w, unit) act" where
  "cleanup h keep_branch [] w = (Inr (), w)"
| "cleanup h keep_branch (p # ps) w =
     (case remove_worktree h (pp_worktree p) (Some (pp_branch p)) (\<not> keep_branch p) w of
        (Inl e, w') \<Rightarrow> (case e of WorktreeError m \<Rightarrow> cleanup h keep_branch ps w' | _ \<Rightarrow> (Inl e, w'))
      | (Inr _, w') \<Rightarrow> cleanup h keep_branch ps w')"

definition keeps :: "best_of_n_config \<Rightarrow> proposal option \<Rightarrow> proposal \<Rightarrow> bool" where
  \<comment> \<open>\<open>config.keep_proposal_branches or p is keep_winner\<close>; a proposal is known by its index\<close>
  "keeps config winner p \<longleftrightarrow> cf_keep_branches config \<or> map_option pp_index winner = Some (pp_index p)"

definition try_finally :: "('w, 'a) act \<Rightarrow> ('w, unit) act \<Rightarrow> ('w, 'a) act" where
  "try_finally m final w = (case m w of (r, w1) \<Rightarrow> (case final w1 of (Inl e, w2) \<Rightarrow> (Inl e, w2) | (Inr _, w2) \<Rightarrow> (r, w2)))"

record best_of_n_result =
  br_run_id :: string
  br_winner :: proposal
  br_scores :: "real list"
  br_ranking :: "nat list"
  br_n_comparisons :: nat
  br_proposals :: "proposal list"
  br_merge_commit :: "string option"

fun fill_scores :: "(proposal \<times> real) list \<Rightarrow> real list \<Rightarrow> real list" where
  "fill_scores [] acc = acc"
| "fill_scores ((p, s) # ps) acc = fill_scores ps (acc[pp_index p := s])"

definition no_usable :: "proposal list \<Rightarrow> run_error" where
  "no_usable ps = BestOfNError (''no proposal produced a usable trajectory; errors: '' @
     join ''; '' (map (\<lambda>p. pp_harness p @ ''-'' @ show_nat (pp_index p) @ '': '' @ (case pp_error p of None \<Rightarrow> ''None'' | Some e \<Rightarrow> e)) ps))"

definition settle :: "'w host \<Rightarrow> string \<Rightarrow> string \<Rightarrow> best_of_n_config \<Rightarrow> (proposal \<Rightarrow> verifier_result \<Rightarrow> string) \<Rightarrow>
    proposal list \<Rightarrow> proposal list \<Rightarrow> verifier_result \<Rightarrow> proposal \<Rightarrow> ('w, best_of_n_result) act" where
  \<comment> \<open>the end of the \<open>try\<close>, once the winner is known; \<open>message\<close> is the text of the commit\<close>
  "settle h repo run_id config message proposals usable r winner =
     (if length usable \<noteq> length (v_scores r) then fail (PyError (ValueError ''zip() argument 2''))
      else if \<not> list_all (\<lambda>i. i < length usable) (ranking r) then fail (PyError IndexError)
      else bindS (merge_winner h repo winner (message winner r)) (\<lambda>commit.
        ret \<lparr>br_run_id = run_id, br_winner = winner,
             br_scores = fill_scores (zip usable (v_scores r)) (replicate (length proposals) 0),
             br_ranking = map (\<lambda>i. pp_index (usable ! i)) (ranking r),
             br_n_comparisons = v_n_comparisons r, br_proposals = proposals, br_merge_commit = commit\<rparr>))"

definition conclude :: "'w host \<Rightarrow> verification \<Rightarrow> string \<Rightarrow> string \<Rightarrow> string \<Rightarrow> best_of_n_config \<Rightarrow>
    (proposal \<Rightarrow> verifier_result \<Rightarrow> string) \<Rightarrow> proposal list \<Rightarrow> ('w, best_of_n_result) act" where
  \<comment> \<open>from the end of the agents to the result\<close>
  "conclude h orc problem repo run_id config message proposals =
     (let usable = filter pp_ok proposals
      in if usable = [] then bindS (cleanup h (keeps config None) proposals) (\<lambda>_. fail (no_usable proposals))
         else case select_best_of_n orc problem (map (trajectory problem) usable) config of
                Inl e \<Rightarrow> try_finally (fail e) (cleanup h (keeps config None) proposals)
              | Inr r \<Rightarrow>
                  if length usable \<le> v_index r then try_finally (fail (PyError IndexError)) (cleanup h (keeps config None) proposals)
                  else let winner = usable ! v_index r
                       in try_finally (settle h repo run_id config message proposals usable r winner)
                            (cleanup h (keeps config (Some winner)) proposals))"

definition run_agents :: "rendering \<Rightarrow> (string, string) pydict \<Rightarrow> best_of_n_config \<Rightarrow> string \<Rightarrow> string \<Rightarrow>
    (nat \<Rightarrow> 'v worker) \<Rightarrow> proposal list \<Rightarrow> proposer_spec list \<Rightarrow> run_error + proposal list" where
  \<comment> \<open>every thread runs to its end; the first error in the order of the slots is raised\<close>
  "run_agents rd environ config problem base_commit workers proposals slots =
     first_error (map (\<lambda>(p, spec). run_proposal rd environ config problem base_commit (workers (pp_index p)) spec p) (zip proposals slots))"

definition run_best_of_n :: "'w host \<Rightarrow> (string \<Rightarrow> bool) \<Rightarrow> rendering \<Rightarrow> verification \<Rightarrow> (nat \<Rightarrow> 'v worker) \<Rightarrow>
    (proposal \<Rightarrow> verifier_result \<Rightarrow> string) \<Rightarrow> string \<Rightarrow> string \<Rightarrow> string \<Rightarrow> best_of_n_config \<Rightarrow> ('w, best_of_n_result) act" where
  "run_best_of_n h which rd orc workers message run_id problem repo config =
     bindS (prepare h repo) (\<lambda>base_commit.
     let slots = slots_of which config
     in if slots = [] then fail (BestOfNError ''no enabled proposer harness is launchable on this machine'')
        else bindS (create_proposals h repo run_id config 0 slots) (\<lambda>created.
             bindS (liftR (run_agents rd (or_environ orc) config problem base_commit workers created slots)) (\<lambda>proposals.
             conclude h orc problem repo run_id config message proposals)))"

end
