(* ===== verification/Best_Of_N_Runs.thy ===== *)
theory Best_Of_N_Runs
  imports Best_Of_N Progress
begin

text \<open>
  Background runs of \<^verbatim>\<open>codify/best_of_n_runs.py\<close>. The state of a run is shared by its main thread
  (\<open>_execute\<close>), one thread per proposal that streams the agent's output, and one per proposal that
  scores its progress. The threads are step relations over the run's state and their own local
  state; a step ends at the next critical section or at an outside call, and a run is any
  interleaving of the steps. The machine, the agents, the verifier and the clocks are arbitrary. Starting
  the threads of a run is one step that succeeds: a system that can start no more threads is left out.
\<close>

section \<open>The state of a run\<close>

datatype run_status = Preparing | Proposing | Scoring | Merging | Done | Failed

record run_state =
  rs_id :: string
  rs_prompt :: string
  rs_repo :: string
  rs_config :: best_of_n_config
  rs_status :: run_status
  rs_proposals :: "proposal list"
  rs_proposal_status :: "(nat, string) pydict"
  rs_progress :: "(nat, (real \<times> real) list) pydict" \<comment> \<open>time and score\<close>
  rs_scores :: "real list option"
  rs_ranking :: "nat list option"
  rs_winner :: "nat option"
  rs_n_comparisons :: "nat option"
  rs_merge_commit :: "string option"
  rs_error :: "string option"
  rs_created_at :: real
  rs_finished_at :: "real option"

definition new_run :: "string \<Rightarrow> string \<Rightarrow> string \<Rightarrow> best_of_n_config \<Rightarrow> real \<Rightarrow> run_state" where
  "new_run run_id prompt repo config now =
     \<lparr>rs_id = run_id, rs_prompt = prompt, rs_repo = repo, rs_config = config, rs_status = Preparing, rs_proposals = [],
      rs_proposal_status = [], rs_progress = [], rs_scores = None, rs_ranking = None, rs_winner = None,
      rs_n_comparisons = None, rs_merge_commit = None, rs_error = None, rs_created_at = now, rs_finished_at = None\<rparr>"

record proposal_view =
  pv_harness :: string
  pv_index :: nat
  pv_model :: pyval
  pv_branch :: string
  pv_status :: string
  pv_transcript :: string
  pv_diff :: string
  pv_diff_chars :: nat
  pv_duration :: real
  pv_error :: "string option"
  pv_progress :: "real option"
  pv_progress_history :: "real list"
  pv_score :: "real option"

record run_view =
  rv_id :: string
  rv_status :: run_status
  rv_prompt :: string
  rv_repo :: string
  rv_created_at :: real
  rv_finished_at :: "real option"
  rv_proposals :: "proposal_view list"
  rv_ranking :: "nat list option"
  rv_winner :: "nat option"
  rv_n_comparisons :: "nat option"
  rv_merge_commit :: "string option"
  rv_error :: "string option"

definition snapshot_transcript_chars :: nat where "snapshot_transcript_chars = 20000"

definition status_of :: "run_state \<Rightarrow> nat \<Rightarrow> string \<Rightarrow> string" where
  \<comment> \<open>\<open>proposal_status.get(index, dflt)\<close>\<close>
  "status_of run i dflt = (case dget (rs_proposal_status run) i of Some s \<Rightarrow> s | None \<Rightarrow> dflt)"

definition history_of :: "run_state \<Rightarrow> nat \<Rightarrow> (real \<times> real) list" where
  "history_of run i = (case dget (rs_progress run) i of Some h \<Rightarrow> h | None \<Rightarrow> [])"

definition proposal_snapshot :: "run_state \<Rightarrow> proposal \<Rightarrow> proposal_view" where
  "proposal_snapshot run p =
     \<lparr>pv_harness = pp_harness p, pv_index = pp_index p, pv_model = pp_model p, pv_branch = pp_branch p,
      pv_status = status_of run (pp_index p) ''pending'', pv_transcript = last_chars snapshot_transcript_chars (pp_transcript p),
      pv_diff = pp_diff p, pv_diff_chars = length (pp_diff p), pv_duration = pp_duration p, pv_error = pp_error p,
      pv_progress = (case history_of run (pp_index p) of [] \<Rightarrow> None | h # hs \<Rightarrow> Some (snd (last (h # hs)))),
      pv_progress_history = map snd (history_of run (pp_index p)),
      pv_score = (case rs_scores run of Some sc \<Rightarrow> if pp_index p < length sc then Some (sc ! pp_index p) else None | None \<Rightarrow> None)\<rparr>"

definition snapshot :: "run_state \<Rightarrow> run_view" where
  "snapshot run =
     \<lparr>rv_id = rs_id run, rv_status = rs_status run, rv_prompt = rs_prompt run, rv_repo = rs_repo run,
      rv_created_at = rs_created_at run, rv_finished_at = rs_finished_at run,
      rv_proposals = map (proposal_snapshot run) (rs_proposals run), rv_ranking = rs_ranking run, rv_winner = rs_winner run,
      rv_n_comparisons = rs_n_comparisons run, rv_merge_commit = rs_merge_commit run, rv_error = rs_error run\<rparr>"

section \<open>The manager\<close>

type_synonym runs = "(string, run_state) pydict"

definition max_finished_runs :: nat where "max_finished_runs = 20"

definition finished :: "run_state \<Rightarrow> bool" where
  "finished run \<longleftrightarrow> rs_status run \<in> {Done, Failed} \<and> (case rs_finished_at run of None \<Rightarrow> False | Some t \<Rightarrow> t \<noteq> 0)"

definition finish_time :: "run_state \<Rightarrow> real" where
  "finish_time run = (case rs_finished_at run of None \<Rightarrow> 0 | Some t \<Rightarrow> t)"

fun pop_stale :: "run_state list \<Rightarrow> runs \<Rightarrow> runs" where
  \<comment> \<open>the \<open>while\<close> loop over the sorted list of finished runs\<close>
  "pop_stale [] runs = runs"
| "pop_stale (stale # rest) runs =
     (if Suc (length rest) > max_finished_runs then pop_stale rest (ddel (rs_id stale) runs) else runs)"

definition prune_finished :: "runs \<Rightarrow> runs" where
  "prune_finished runs = pop_stale (sort_key finish_time (filter finished (map snd runs))) runs"

definition launchable_slots :: "(string \<Rightarrow> bool) \<Rightarrow> best_of_n_config \<Rightarrow> proposer_spec list" where
  "launchable_slots which config =
     concat (map (\<lambda>s. replicate (nat (po_count s)) s)
       (filter (\<lambda>s. po_enabled s \<and> (po_command s \<noteq> None \<or> harness_availability which (po_harness s))) (cf_proposers config)))"

definition start_run :: "'w host \<Rightarrow> (string \<Rightarrow> bool) \<Rightarrow> string \<Rightarrow> real \<Rightarrow> string \<Rightarrow> string \<Rightarrow> best_of_n_config \<Rightarrow> runs \<Rightarrow>
    ('w, run_view \<times> runs \<times> string) act" where
  \<comment> \<open>the view, the new table, and the base commit handed to the thread that is started\<close>
  "start_run h which run_id now prompt repo config runs =
     bindS (prepare h repo) (\<lambda>base_commit.
     if launchable_slots which config = [] then fail (BestOfNError ''no enabled proposer harness is launchable on this machine'')
     else let run = new_run run_id prompt repo config now
          in ret (snapshot run, dset run_id run (prune_finished runs), base_commit))"

definition get_run :: "runs \<Rightarrow> string \<Rightarrow> run_view option" where
  "get_run runs run_id = map_option snapshot (dget runs run_id)"

definition without_bodies :: "run_view \<Rightarrow> run_view" where
  "without_bodies v = v\<lparr>rv_proposals := map (\<lambda>p. p\<lparr>pv_transcript := [], pv_diff := []\<rparr>) (rv_proposals v)\<rparr>"

definition list_runs :: "runs \<Rightarrow> run_view list" where
  \<comment> \<open>newest first; \<open>pop\<close> of the two long fields leaves them empty here\<close>
  "list_runs runs = map (without_bodies \<circ> snapshot) (sort_key (\<lambda>r. - rs_created_at r) (map snd runs))"

section \<open>The critical sections\<close>

definition add_proposal :: "proposal \<Rightarrow> run_state \<Rightarrow> run_state" where
  "add_proposal p run = run\<lparr>rs_proposals := rs_proposals run @ [p],
     rs_proposal_status := dset (pp_index p) ''running'' (rs_proposal_status run)\<rparr>"

definition record_selection :: "proposal list \<Rightarrow> verifier_result \<Rightarrow> proposal \<Rightarrow> run_state \<Rightarrow> run_state" where
  "record_selection usable r winner run =
     run\<lparr>rs_scores := Some (fill_scores (zip usable (v_scores r)) (replicate (length (rs_proposals run)) 0)),
         rs_ranking := Some (map (\<lambda>i. pp_index (usable ! i)) (ranking r)), rs_winner := Some (pp_index winner),
         rs_n_comparisons := Some (v_n_comparisons r), rs_status := Merging\<rparr>"

definition error_text :: "run_error \<Rightarrow> string" where
  \<comment> \<open>\<open>str(exc)\<close>\<close>
  "error_text e = (case e of WorktreeError s \<Rightarrow> s | BestOfNError s \<Rightarrow> s | ProcessError s \<Rightarrow> s | PyError x \<Rightarrow> exn_text x)"

definition record_run_failure :: "run_error \<Rightarrow> run_state \<Rightarrow> run_state" where
  "record_run_failure e run = run\<lparr>rs_status := Failed, rs_error := Some (error_text e)\<rparr>"

definition append_transcript :: "nat \<Rightarrow> string option \<Rightarrow> run_state \<Rightarrow> run_state" where
  "append_transcript i rendered run =
     (case rendered of None \<Rightarrow> run
      | Some s \<Rightarrow> run\<lparr>rs_proposals := (rs_proposals run)[i := (rs_proposals run ! i)\<lparr>pp_transcript := pp_transcript (rs_proposals run ! i) @ s\<rparr>]\<rparr>)"

definition set_proposal :: "nat \<Rightarrow> proposal \<Rightarrow> run_state \<Rightarrow> run_state" where
  "set_proposal i p run = run\<lparr>rs_proposals := (rs_proposals run)[i := p]\<rparr>"

definition report_proposal :: "nat \<Rightarrow> run_state \<Rightarrow> run_state" where
  "report_proposal i run = run\<lparr>rs_proposal_status :=
     dset i (if pp_ok (rs_proposals run ! i) then ''ok'' else ''failed'') (rs_proposal_status run)\<rparr>"

definition round4 :: "real \<Rightarrow> real" where
  \<comment> \<open>\<open>round(score, 4)\<close>\<close>
  "round4 r = of_int (round_half_even (r * 10000)) / 10000"

definition append_progress :: "nat \<Rightarrow> real \<Rightarrow> real \<Rightarrow> run_state \<Rightarrow> run_state" where
  "append_progress i now score run = run\<lparr>rs_progress := dset i (history_of run i @ [(now, round4 score)]) (rs_progress run)\<rparr>"

section \<open>The threads\<close>

datatype main_point =
    Starting | Creating | Waiting | Selecting
  | Merge verifier_result proposal \<comment> \<open>with the selection and the winner\<close>
  | Cleaning "proposal option" \<comment> \<open>the \<open>finally\<close>, with the winner if there is one\<close>
  | Over | Died \<comment> \<open>an exception left the \<open>finally\<close>\<close>

datatype stream_point = Idle | Launching | Reading | Stopping | Snapshotting | Reporting | Ended | Crashed

datatype tracker_point =
    Unstarted
  | Tracking nat tracker \<comment> \<open>\<open>consumed\<close> and the tracker\<close>
  | Recording nat tracker bool real \<comment> \<open>and whether the proposal had finished, and the score to append\<close>
  | Stopped

record 'w run_machine =
  mc_run :: run_state
  mc_main :: main_point
  mc_streams :: "nat \<Rightarrow> stream_point"
  mc_trackers :: "nat \<Rightarrow> tracker_point"
  mc_world :: 'w

record ('w, 'v) run_env =
  en_host :: "'w host"
  en_worker_host :: "'v host"
  en_slots :: "proposer_spec list"
  en_base :: string
  en_rendering :: rendering
  en_verification :: verification
  en_message :: "proposal \<Rightarrow> verifier_result \<Rightarrow> string"

definition initial :: "run_state \<Rightarrow> 'w \<Rightarrow> 'w run_machine" where
  "initial run w = \<lparr>mc_run = run, mc_main = Starting, mc_streams = (\<lambda>i. Idle), mc_trackers = (\<lambda>i. Unstarted), mc_world = w\<rparr>"

definition make_progress_tracker :: "('w, 'v) run_env \<Rightarrow> run_state \<Rightarrow> tracker_point" where
  \<comment> \<open>the beginning of \<open>_track_progress\<close>\<close>
  "make_progress_tracker E run =
     (case create_verifier_client (or_environ (en_verification E)) (cf_verifier (rs_config run)) of
        Inl e \<Rightarrow> Stopped
      | Inr client \<Rightarrow> (case make_tracker (rs_prompt run) 0 1 8 (Inr ()) of Inl e \<Rightarrow> Stopped | Inr tk \<Rightarrow> Tracking 0 tk))"


definition main_fails :: "run_error \<Rightarrow> proposal option \<Rightarrow> 'w run_machine \<Rightarrow> 'w run_machine" where
  \<comment> \<open>the \<open>except\<close> branch\<close>
  "main_fails e winner s = s\<lparr>mc_run := record_run_failure e (mc_run s), mc_main := Cleaning winner\<rparr>"

definition stream_over :: "stream_point \<Rightarrow> bool" where
  "stream_over sp \<longleftrightarrow> sp = Ended \<or> sp = Crashed"

inductive main_step :: "('w, 'v) run_env \<Rightarrow> 'w run_machine \<Rightarrow> 'w run_machine \<Rightarrow> bool" for E where
  main_start: "mc_main s = Starting \<Longrightarrow>
    main_step E s (s\<lparr>mc_run := (mc_run s)\<lparr>rs_status := Proposing\<rparr>, mc_main := Creating\<rparr>)"
| main_create: "mc_main s = Creating \<Longrightarrow> i = length (rs_proposals (mc_run s)) \<Longrightarrow> i < length (en_slots E) \<Longrightarrow>
    create_worktree (en_host E) (rs_repo (mc_run s)) (proposal_branch (rs_id (mc_run s)) (po_harness (en_slots E ! i)) i) None (mc_world s) = (Inr cw, w) \<Longrightarrow>
    main_step E s (s\<lparr>mc_run := add_proposal (new_proposal (rs_config (mc_run s)) (en_slots E ! i) i cw) (mc_run s), mc_world := w\<rparr>)"
| main_create_fails: "mc_main s = Creating \<Longrightarrow> i = length (rs_proposals (mc_run s)) \<Longrightarrow> i < length (en_slots E) \<Longrightarrow>
    create_worktree (en_host E) (rs_repo (mc_run s)) (proposal_branch (rs_id (mc_run s)) (po_harness (en_slots E ! i)) i) None (mc_world s) = (Inl e, w) \<Longrightarrow>
    main_step E s (main_fails e None (s\<lparr>mc_world := w\<rparr>))"
| main_spawn: "mc_main s = Creating \<Longrightarrow> length (rs_proposals (mc_run s)) = length (en_slots E) \<Longrightarrow>
    main_step E s (s\<lparr>mc_main := Waiting, mc_streams := (\<lambda>i. if i < length (en_slots E) then Launching else Idle),
      mc_trackers := (\<lambda>i. if i < length (en_slots E) then make_progress_tracker E (mc_run s) else Unstarted)\<rparr>)"
| main_join: "mc_main s = Waiting \<Longrightarrow> \<forall>i < length (en_slots E). stream_over (mc_streams s i) \<Longrightarrow>
    filter pp_ok (rs_proposals (mc_run s)) \<noteq> [] \<Longrightarrow>
    main_step E s (s\<lparr>mc_run := (mc_run s)\<lparr>rs_status := Scoring\<rparr>, mc_main := Selecting\<rparr>)"
| main_no_usable: "mc_main s = Waiting \<Longrightarrow> \<forall>i < length (en_slots E). stream_over (mc_streams s i) \<Longrightarrow>
    filter pp_ok (rs_proposals (mc_run s)) = [] \<Longrightarrow>
    main_step E s (main_fails (no_usable (rs_proposals (mc_run s))) None s)"
| main_select: "mc_main s = Selecting \<Longrightarrow> usable = filter pp_ok (rs_proposals (mc_run s)) \<Longrightarrow>
    select_best_of_n (en_verification E) (rs_prompt (mc_run s)) (map (trajectory (rs_prompt (mc_run s))) usable) (rs_config (mc_run s)) = Inr r \<Longrightarrow>
    winner = usable ! v_index r \<Longrightarrow>
    main_step E s (s\<lparr>mc_run := record_selection usable r winner (mc_run s), mc_main := Merge r winner\<rparr>)"
| main_select_fails: "mc_main s = Selecting \<Longrightarrow> usable = filter pp_ok (rs_proposals (mc_run s)) \<Longrightarrow>
    select_best_of_n (en_verification E) (rs_prompt (mc_run s)) (map (trajectory (rs_prompt (mc_run s))) usable) (rs_config (mc_run s)) = Inl e \<Longrightarrow>
    main_step E s (main_fails e None s)"
| main_merge: "mc_main s = Merge r winner \<Longrightarrow>
    merge_winner (en_host E) (rs_repo (mc_run s)) winner (en_message E winner r) (mc_world s) = (Inr commit, w) \<Longrightarrow>
    main_step E s (s\<lparr>mc_run := (mc_run s)\<lparr>rs_merge_commit := commit, rs_status := Done\<rparr>, mc_main := Cleaning (Some winner), mc_world := w\<rparr>)"
| main_merge_fails: "mc_main s = Merge r winner \<Longrightarrow>
    merge_winner (en_host E) (rs_repo (mc_run s)) winner (en_message E winner r) (mc_world s) = (Inl e, w) \<Longrightarrow>
    main_step E s (main_fails e (Some winner) (s\<lparr>mc_world := w\<rparr>))"
| main_clean: "mc_main s = Cleaning winner \<Longrightarrow>
    cleanup (en_host E) (keeps (rs_config (mc_run s)) winner) (rs_proposals (mc_run s)) (mc_world s) = (Inr u, w) \<Longrightarrow>
    main_step E s (s\<lparr>mc_run := (mc_run s)\<lparr>rs_finished_at := Some now\<rparr>, mc_main := Over, mc_world := w\<rparr>)"
| main_clean_fails: "mc_main s = Cleaning winner \<Longrightarrow>
    cleanup (en_host E) (keeps (rs_config (mc_run s)) winner) (rs_proposals (mc_run s)) (mc_world s) = (Inl e, w) \<Longrightarrow>
    main_step E s (s\<lparr>mc_main := Died, mc_world := w\<rparr>)"

definition at_stream :: "nat \<Rightarrow> stream_point \<Rightarrow> run_state \<Rightarrow> 'w run_machine \<Rightarrow> 'w run_machine" where
  "at_stream i sp run s = s\<lparr>mc_run := run, mc_streams := (mc_streams s)(i := sp)\<rparr>"

definition launchable_command :: "('w, 'v) run_env \<Rightarrow> run_state \<Rightarrow> nat \<Rightarrow> bool" where
  \<comment> \<open>the command and the environment can be built and handed to \<open>Popen\<close>\<close>
  "launchable_command E run i \<longleftrightarrow>
     (case build_command (en_slots E ! i) (rs_prompt run) (cf_proposal_model (rs_config run)) of Inl e \<Rightarrow> False | Inr argv \<Rightarrow> True) \<and>
     list_all (str_value \<circ> snd) (proposal_env (or_environ (en_verification E)) (en_slots E ! i) (rs_config run))"

definition with_error :: "nat \<Rightarrow> string \<Rightarrow> run_state \<Rightarrow> run_state" where
  "with_error i e run = set_proposal i ((rs_proposals run ! i)\<lparr>pp_error := Some e\<rparr>) run"

definition exit_error :: "('w, 'v) run_env \<Rightarrow> nat \<Rightarrow> int \<Rightarrow> run_state \<Rightarrow> run_state" where
  "exit_error E i code run =
     (if code \<noteq> 0 \<and> pp_error (rs_proposals run ! i) = None
      then with_error i (po_harness (en_slots E ! i) @ '' exited with code '' @ show_int code) run else run)"

inductive stream_step :: "('w, 'v) run_env \<Rightarrow> nat \<Rightarrow> 'w run_machine \<Rightarrow> 'w run_machine \<Rightarrow> bool" for E i where
  stream_launch: "mc_streams s i = Launching \<Longrightarrow> launchable_command E (mc_run s) i \<Longrightarrow>
    stream_step E i s (at_stream i Reading (mc_run s) s)"
| stream_launch_raises: "mc_streams s i = Launching \<Longrightarrow> \<not> launchable_command E (mc_run s) i \<Longrightarrow>
    stream_step E i s (at_stream i Crashed (mc_run s) s)"
| stream_os_error: "mc_streams s i \<in> {Launching, Reading} \<Longrightarrow> launchable_command E (mc_run s) i \<Longrightarrow>
    stream_step E i s (at_stream i Snapshotting
      (with_error i (''failed to launch '' @ po_harness (en_slots E ! i) @ '': '' @ m) (mc_run s)) s)"
| stream_line: "mc_streams s i = Reading \<Longrightarrow>
    render_transcript_line (en_rendering E) (po_harness (en_slots E ! i)) line = Inr rendered \<Longrightarrow>
    stream_step E i s (at_stream i Reading (append_transcript i rendered (mc_run s)) s)"
| stream_line_raises: "mc_streams s i = Reading \<Longrightarrow>
    render_transcript_line (en_rendering E) (po_harness (en_slots E ! i)) line = Inl e \<Longrightarrow>
    stream_step E i s (at_stream i Crashed (mc_run s) s)"
| stream_undecodable: "mc_streams s i = Reading \<Longrightarrow>
    stream_step E i s (at_stream i Crashed (mc_run s) s)"
| stream_deadline: "mc_streams s i = Reading \<Longrightarrow>
    render_transcript_line (en_rendering E) (po_harness (en_slots E ! i)) line = Inr rendered \<Longrightarrow>
    stream_step E i s (at_stream i Stopping
      (with_error i (po_harness (en_slots E ! i) @ '' timed out after '' @
        show_int (round_half_even (cf_timeout (rs_config (mc_run s)))) @ ''s'') (append_transcript i rendered (mc_run s))) s)"
| stream_eof: "mc_streams s i = Reading \<Longrightarrow> stream_step E i s (at_stream i Stopping (mc_run s) s)"
| stream_exit: "mc_streams s i = Stopping \<Longrightarrow>
    stream_step E i s (at_stream i Snapshotting (exit_error E i code (mc_run s)) s)"
| stream_no_exit: "mc_streams s i = Stopping \<Longrightarrow>
    stream_step E i s (at_stream i Snapshotting
      (with_error i (po_harness (en_slots E ! i) @ '' did not exit after being killed'') (mc_run s)) s)"
| stream_snapshot: "mc_streams s i = Snapshotting \<Longrightarrow>
    snapshot_proposal (en_worker_host E) (en_base E) ((rs_proposals (mc_run s) ! i)\<lparr>pp_duration := d\<rparr>) v = (Inr q, v') \<Longrightarrow>
    stream_step E i s (at_stream i Reporting (set_proposal i q (mc_run s)) s)"
| stream_snapshot_raises: "mc_streams s i = Snapshotting \<Longrightarrow>
    snapshot_proposal (en_worker_host E) (en_base E) ((rs_proposals (mc_run s) ! i)\<lparr>pp_duration := d\<rparr>) v = (Inl e, v') \<Longrightarrow>
    stream_step E i s (at_stream i Crashed (set_proposal i ((rs_proposals (mc_run s) ! i)\<lparr>pp_duration := d, pp_error := err\<rparr>) (mc_run s)) s)"
| stream_report: "mc_streams s i = Reporting \<Longrightarrow>
    stream_step E i s (at_stream i Ended (report_proposal i (mc_run s)) s)"

definition at_tracker :: "nat \<Rightarrow> tracker_point \<Rightarrow> 'w run_machine \<Rightarrow> 'w run_machine" where
  "at_tracker i tp s = s\<lparr>mc_trackers := (mc_trackers s)(i := tp)\<rparr>"

definition progress_min_new_chars :: nat where "progress_min_new_chars = 200"
definition progress_step_chars :: nat where "progress_step_chars = 6000"

definition tracker_poll :: "(progress_prompt \<Rightarrow> nat \<Rightarrow> response res) \<Rightarrow> bool \<Rightarrow> run_state \<Rightarrow> nat \<Rightarrow> nat \<Rightarrow> tracker \<Rightarrow> tracker_point" where
  \<comment> \<open>one turn of the loop: \<open>late\<close> says whether the interval since the last update has passed\<close>
  "tracker_poll ask late run i consumed tk =
     (let status = status_of run i ''running'';
          txt = pp_transcript (rs_proposals run ! i);
          diff = pp_diff (rs_proposals run ! i);
          over = (status \<noteq> ''running'');
          new = drop consumed txt;
          due = (progress_min_new_chars \<le> length new \<and> late);
          next_point = (\<lambda>c t. if over then Stopped else Tracking c t)
      in if due \<or> over \<and> strip new \<noteq> [] then
           let step = last_chars progress_step_chars new @
                 (if over \<and> diff \<noteq> [] then nl @ ''# Final diff'' @ nl @ take 8000 diff else [])
           in case update step 0 ask tk of
                (Inl e, tk') \<Rightarrow> next_point (length txt) tk'
              | (Inr score, tk') \<Rightarrow>
                  let reps = (if tk_reps tk' \<noteq> [] then last (tk_reps tk') else [])
                  in if list_ex (\<lambda>v. v \<noteq> None) reps then Recording (length txt) tk' over score else next_point (length txt) tk'
         else next_point consumed tk)"

inductive tracker_move :: "nat \<Rightarrow> 'w run_machine \<Rightarrow> 'w run_machine \<Rightarrow> bool" for i where
  track_poll: "mc_trackers s i = Tracking consumed tk \<Longrightarrow>
    tracker_move i s (at_tracker i (tracker_poll ask late (mc_run s) i consumed tk) s)"
| track_record: "mc_trackers s i = Recording consumed tk over score \<Longrightarrow>
    tracker_move i s (at_tracker i (if over then Stopped else Tracking consumed tk)
      (s\<lparr>mc_run := append_progress i now score (mc_run s)\<rparr>))"

inductive run_step :: "('w, 'v) run_env \<Rightarrow> 'w run_machine \<Rightarrow> 'w run_machine \<Rightarrow> bool" for E where
  by_main: "main_step E s s' \<Longrightarrow> run_step E s s'"
| by_stream: "i < length (en_slots E) \<Longrightarrow> stream_step E i s s' \<Longrightarrow> run_step E s s'"
| by_tracker: "i < length (en_slots E) \<Longrightarrow> tracker_move i s s' \<Longrightarrow> run_step E s s'"

inductive_cases main_stepE: "main_step E s s'"
inductive_cases stream_stepE: "stream_step E i s s'"
inductive_cases tracker_moveE: "tracker_move i s s'"
inductive_simps run_step_iff: "run_step E s s'"

definition reachable :: "('w, 'v) run_env \<Rightarrow> 'w run_machine \<Rightarrow> bool" where
  "reachable E s \<longleftrightarrow> (\<exists>run_id prompt repo config created w. (run_step E)\<^sup>*\<^sup>* (initial (new_run run_id prompt repo config created) w) s)"

end
