(* ===== verification/Best_Of_N_Props.thy ===== *)
theory Best_Of_N_Props
  imports Best_Of_N
begin

text \<open>
  What a best-of-N run guarantees: what it returns, which git commands it executes on the repository
  whatever git, the agents and the verifier answer, and what becomes of the worktrees.
\<close>

section \<open>What a run returns\<close>

lemma lift_py_Inr: "lift_py r = Inr x \<longleftrightarrow> r = Inr x"
  by (cases r) (simp_all add: lift_py_def)

lemma select_best_of_n_Inr:
  assumes "select_best_of_n orc problem candidates config = Inr r"
  shows "v_index r < length candidates \<and> length (v_scores r) = length candidates \<and>
    (\<forall>i < length candidates. v_scores r ! i < v_scores r ! v_index r \<or> v_scores r ! i = v_scores r ! v_index r \<and> v_index r \<le> i)"
  using assms unfolding select_best_of_n_def Let_def bindR_Inr_iff lift_py_Inr by (elim exE conjE) (rule select_Inr)

definition identity_of :: "proposal \<Rightarrow> nat \<times> string \<times> string \<times> string" where
  \<comment> \<open>what no thread changes\<close>
  "identity_of p = (pp_index p, pp_harness p, pp_branch p, pp_worktree p)"

lemma snapshot_identity: "fst (snapshot_proposal h base p v) = Inr q \<Longrightarrow> identity_of q = identity_of p"
  by (auto simp: snapshot_proposal_def bindS_def identity_of_def Let_def split: prod.splits sum.splits)

lemma agent_result_identity: "agent_result rd spec timeout out p = Inr q \<Longrightarrow> identity_of q = identity_of p"
  by (auto simp: agent_result_def identity_of_def bindR_Inr_iff split: agent_outcome.splits)

lemma run_proposal_identity:
  "run_proposal rd environ config prompt base wk spec p = Inr q \<Longrightarrow> identity_of q = identity_of p"
  unfolding run_proposal_def proposal_thread_def Let_def
  by (auto split: if_splits prod.splits sum.splits dest!: snapshot_identity agent_result_identity)
     (auto simp: identity_of_def)

lemma run_agents_identity:
  assumes "run_agents rd environ config problem base workers created slots = Inr proposals" and "length created = length slots"
  shows "map identity_of proposals = map identity_of created"
proof (rule nth_equalityI)
  have eq: "map (\<lambda>(p, spec). run_proposal rd environ config problem base (workers (pp_index p)) spec p) (zip created slots) = map Inr proposals"
    using assms(1) unfolding run_agents_def first_error_Inr .
  from arg_cong [OF eq, of length] assms(2) have len: "length proposals = length created" by simp
  then show "length (map identity_of proposals) = length (map identity_of created)" by simp
  fix i assume "i < length (map identity_of proposals)"
  then have i: "i < length proposals" by simp
  with arg_cong [OF eq, of "\<lambda>xs. xs ! i"] len assms(2)
  have "run_proposal rd environ config problem base (workers (pp_index (created ! i))) (slots ! i) (created ! i) = Inr (proposals ! i)" by simp
  from run_proposal_identity [OF this] i len show "map identity_of proposals ! i = map identity_of created ! i" by simp
qed

lemma create_proposals_Inr:
  "create_proposals h repo run_id config i slots w = (Inr created, w') \<Longrightarrow>
    length created = length slots \<and> map pp_index created = [i..<i + length slots]"
proof (induction slots arbitrary: i w created w')
  case (Cons spec slots)
  then obtain cw w1 w2 ps where "create_proposals h repo run_id config (Suc i) slots w1 = (Inr ps, w2)"
    "created = new_proposal config spec i cw # ps"
    by (auto simp: bindS_eq_Inr)
  with Cons.IH [of "Suc i" w1 ps w2] show ?case by (simp add: new_proposal_def upt_conv_Cons del: upt_Suc)
qed simp

lemma fill_scores_length [simp]: "length (fill_scores ps acc) = length acc"
  by (induction ps acc rule: fill_scores.induct) simp_all

lemma fill_scores_other: "i \<notin> pp_index ` fst ` set ps \<Longrightarrow> fill_scores ps acc ! i = acc ! i"
  by (induction ps acc rule: fill_scores.induct) auto

lemma fill_scores_nth:
  "distinct (map (pp_index \<circ> fst) ps) \<Longrightarrow> j < length ps \<Longrightarrow> pp_index (fst (ps ! j)) < length acc \<Longrightarrow>
    fill_scores ps acc ! pp_index (fst (ps ! j)) = snd (ps ! j)"
proof (induction ps acc arbitrary: j rule: fill_scores.induct)
  case (2 p s ps acc)
  show ?case
  proof (cases j)
    case 0
    with 2 show ?thesis by (simp add: fill_scores_other image_image)
  next
    case (Suc k)
    with 2 show ?thesis by simp
  qed
qed simp

lemma try_finally_Inr: "try_finally m fin w = (Inr x, w') \<longleftrightarrow> (\<exists>w1 u. m w = (Inr x, w1) \<and> fin w1 = (Inr u, w'))"
  by (auto simp: try_finally_def split: prod.splits sum.splits)

lemma settle_Inr:
  assumes "settle h repo run_id config message proposals usable r winner w = (Inr res, w')"
  shows "length usable = length (v_scores r) \<and> br_winner res = winner \<and> br_proposals res = proposals \<and> br_run_id res = run_id \<and>
    br_scores res = fill_scores (zip usable (v_scores r)) (replicate (length proposals) 0) \<and>
    br_ranking res = map (\<lambda>i. pp_index (usable ! i)) (ranking r) \<and> br_n_comparisons res = v_n_comparisons r"
  using assms unfolding settle_def by (auto simp: bindS_eq_Inr split: if_splits)

lemma conclude_Inr:
  assumes "conclude h orc problem repo run_id config message proposals w = (Inr res, w')"
  obtains r w1 where "select_best_of_n orc problem (map (trajectory problem) (filter pp_ok proposals)) config = Inr r"
    "settle h repo run_id config message proposals (filter pp_ok proposals) r (filter pp_ok proposals ! v_index r) w = (Inr res, w1)"
proof (cases "select_best_of_n orc problem (map (trajectory problem) (filter pp_ok proposals)) config")
  case (Inl e)
  with assms show thesis
    by (auto simp: conclude_def Let_def try_finally_Inr bindS_eq_Inr split: if_splits)
next
  case (Inr r)
  with assms have "\<exists>w1. settle h repo run_id config message proposals (filter pp_ok proposals) r (filter pp_ok proposals ! v_index r) w = (Inr res, w1)"
    by (auto simp: conclude_def Let_def try_finally_Inr bindS_eq_Inr split: if_splits)
  with Inr that show thesis by blast
qed

lemma run_best_of_n_Inr:
  assumes "run_best_of_n h which rd orc workers message run_id problem repo config w = (Inr res, w')"
  obtains base created proposals w1 w2 where "prepare h repo w = (Inr base, w1)" "slots_of which config \<noteq> []"
    "create_proposals h repo run_id config 0 (slots_of which config) w1 = (Inr created, w2)"
    "run_agents rd (or_environ orc) config problem base workers created (slots_of which config) = Inr proposals"
    "conclude h orc problem repo run_id config message proposals w2 = (Inr res, w')"
  using assms unfolding run_best_of_n_def Let_def bindS_eq_Inr by (auto simp: bindS_eq_Inr split: if_splits)

lemma distinct_usable: "map pp_index proposals = [0..<n] \<Longrightarrow> distinct (map pp_index (filter pp_ok proposals))"
  by (metis distinct_map_filter distinct_upt)

lemma scores_of_result:
  fixes proposals :: "proposal list"
  defines "usable \<equiv> filter pp_ok proposals"
  assumes idx: "map pp_index proposals = [0..<length proposals]" and len: "length usable = length (v_scores r)"
    and scores: "scores = fill_scores (zip usable (v_scores r)) (replicate (length proposals) 0)"
  shows "length scores = length proposals \<and> (\<forall>p \<in> set proposals. \<not> pp_ok p \<longrightarrow> scores ! pp_index p = 0) \<and>
    (\<forall>j < length usable. scores ! pp_index (usable ! j) = v_scores r ! j)"
proof (intro conjI ballI impI allI)
  have lt: "pp_index p < length proposals" if "p \<in> set proposals" for p
    using that arg_cong [OF idx, of set] by auto
  have inj: "inj_on pp_index (set proposals)" using arg_cong [OF idx, of distinct] by (simp add: distinct_map)
  show "length scores = length proposals" by (simp add: scores)
  fix p assume p: "p \<in> set proposals" "\<not> pp_ok p"
  have "pp_index p \<notin> pp_index ` fst ` set (zip usable (v_scores r))"
  proof
    assume "pp_index p \<in> pp_index ` fst ` set (zip usable (v_scores r))"
    then obtain q where q: "q \<in> set usable" "pp_index p = pp_index q" by (auto dest: set_zip_leftD)
    with p inj have "p = q" by (auto simp: usable_def dest: inj_onD)
    with q p show False by (simp add: usable_def)
  qed
  then show "scores ! pp_index p = 0" using lt p by (simp add: scores fill_scores_other)
next
  fix j assume j: "j < length usable"
  then have "usable ! j \<in> set proposals" using nth_mem [OF j] by (simp add: usable_def)
  then have "pp_index (usable ! j) < length proposals" using arg_cong [OF idx, of set] by auto
  moreover have "map (pp_index \<circ> fst) (zip usable (v_scores r)) = map pp_index usable"
    using len by (metis map_fst_zip map_map)
  moreover have "distinct (map pp_index usable)" unfolding usable_def using idx by (rule distinct_usable)
  ultimately show "scores ! pp_index (usable ! j) = v_scores r ! j"
    using fill_scores_nth [of "zip usable (v_scores r)" j "replicate (length proposals) 0"] j len by (simp add: scores)
qed

definition selection_ok :: "proposal list \<Rightarrow> nat \<Rightarrow> real list \<Rightarrow> nat list \<Rightarrow> bool" where
  \<comment> \<open>a winner, the scores and the ranking that belong together\<close>
  "selection_ok proposals k scores rank \<longleftrightarrow>
     k < length proposals \<and> pp_ok (proposals ! k) \<and> length scores = length proposals \<and>
     (\<forall>p \<in> set proposals. if pp_ok p then scores ! pp_index p \<le> scores ! k else scores ! pp_index p = 0) \<and>
     mset rank = mset (map pp_index (filter pp_ok proposals)) \<and> rank \<noteq> [] \<and> hd rank = k"

lemma index_nth: "map pp_index proposals = [0..<n] \<Longrightarrow> i < length proposals \<Longrightarrow> pp_index (proposals ! i) = i"
  by (metis add_0 length_map length_upt minus_nat.diff_0 nth_map nth_upt)

lemma selection_facts:
  fixes proposals :: "proposal list"
  defines "usable \<equiv> filter pp_ok proposals"
  assumes sel: "select_best_of_n orc problem (map (trajectory problem) usable) config = Inr r"
    and idx: "map pp_index proposals = [0..<length proposals]" and winner: "winner = usable ! v_index r"
  shows "winner \<in> set usable"
    and "selection_ok proposals (pp_index winner) (fill_scores (zip usable (v_scores r)) (replicate (length proposals) 0))
      (map (\<lambda>i. pp_index (usable ! i)) (ranking r))"
proof -
  let ?scores = "fill_scores (zip usable (v_scores r)) (replicate (length proposals) 0)"
  let ?rank = "map (\<lambda>i. pp_index (usable ! i)) (ranking r)"
  note best = select_best_of_n_Inr [OF sel, unfolded length_map]
  show w: "winner \<in> set usable" using best nth_mem [of "v_index r" usable] by (simp add: winner)
  have "mset ?rank = image_mset (\<lambda>i. pp_index (usable ! i)) (mset [0..<length usable])"
    using best by (simp add: ranking_perm)
  also have "\<dots> = mset (map pp_index usable)"
    unfolding mset_map [symmetric] by (rule arg_cong [where f = mset], rule nth_equalityI) simp_all
  finally have perm: "mset ?rank = mset (map pp_index usable)" .
  have hd: "ranking r \<noteq> [] \<and> hd (ranking r) = v_index r" by (rule ranking_hd) (use best in auto)
  have sc: "length ?scores = length proposals \<and> (\<forall>p \<in> set proposals. \<not> pp_ok p \<longrightarrow> ?scores ! pp_index p = 0) \<and>
    (\<forall>j < length usable. ?scores ! pp_index (usable ! j) = v_scores r ! j)"
    unfolding usable_def by (rule scores_of_result [OF idx]) (use best in \<open>simp_all add: usable_def\<close>)
  have top: "?scores ! pp_index p \<le> ?scores ! pp_index winner" if p: "p \<in> set proposals" "pp_ok p" for p
  proof -
    have "p \<in> set usable" using p by (simp add: usable_def)
    then obtain j where "j < length usable" "p = usable ! j" unfolding in_set_conv_nth by blast
    then show ?thesis using sc best by (auto simp: winner order.order_iff_strict)
  qed
  obtain i where i: "i < length proposals" "winner = proposals ! i"
    using w unfolding usable_def set_filter mem_Collect_eq in_set_conv_nth by blast
  have "pp_index winner = i" using index_nth [OF idx i(1)] i(2) by simp
  then show "selection_ok proposals (pp_index winner) ?scores ?rank"
    unfolding selection_ok_def using i w sc top perm hd winner by (auto simp: usable_def hd_map)
qed

text \<open>
  C3: what a run returns is the selection of the verifier over the usable proposals: the winner is
  one of them and has the highest score, every proposal keeps its own score under its own index, the
  others score 0, and the ranking lists exactly the usable ones, the winner first.
\<close>

theorem run_delivers_the_selected_proposal:
  assumes "run_best_of_n h which rd orc workers message run_id problem repo config w = (Inr res, w')"
    and "proposals = br_proposals res" and "usable = filter pp_ok proposals"
  shows "\<exists>r. select_best_of_n orc problem (map (trajectory problem) usable) config = Inr r \<and>
    map pp_index proposals = [0..<length (slots_of which config)] \<and>
    br_winner res = usable ! v_index r \<and> br_winner res \<in> set usable \<and>
    br_scores res = fill_scores (zip usable (v_scores r)) (replicate (length proposals) 0) \<and>
    selection_ok proposals (pp_index (br_winner res)) (br_scores res) (br_ranking res)"
proof -
  obtain base created ps w1 w2 where run: "create_proposals h repo run_id config 0 (slots_of which config) w1 = (Inr created, w2)"
    "run_agents rd (or_environ orc) config problem base workers created (slots_of which config) = Inr ps"
    "conclude h orc problem repo run_id config message ps w2 = (Inr res, w')"
    by (rule run_best_of_n_Inr [OF assms(1)])
  obtain r w3 where r: "select_best_of_n orc problem (map (trajectory problem) (filter pp_ok ps)) config = Inr r"
    "settle h repo run_id config message ps (filter pp_ok ps) r (filter pp_ok ps ! v_index r) w2 = (Inr res, w3)"
    by (rule conclude_Inr [OF run(3)])
  note res = settle_Inr [OF r(2)]
  then have ps: "ps = proposals" "filter pp_ok ps = usable" using assms(2,3) by auto
  note created = create_proposals_Inr [OF run(1)]
  have idx: "map pp_index proposals = [0..<length (slots_of which config)]"
    using run_agents_identity [OF run(2)] created unfolding ps(1)
    by (metis (no_types, lifting) add_0 comp_def fst_conv identity_of_def map_map map_eq_conv)
  then have len: "length proposals = length (slots_of which config)" by (metis length_map length_upt minus_nat.diff_0)
  have "br_winner res \<in> set usable"
    "selection_ok proposals (pp_index (br_winner res)) (br_scores res) (br_ranking res)"
    using selection_facts [OF r(1) [unfolded ps(1)], of "br_winner res"] res idx len ps by (simp_all add: assms(3))
  with r(1) idx res show ?thesis unfolding assms(3) [symmetric] ps(2) unfolding ps(1) assms(3) [symmetric]
    by (intro exI [of _ r]) (simp only: simp_thms)
qed

section \<open>What a run executes\<close>

lemma git_raw_recorded:
  "git_raw (recorded an di ex re mk) args cwd w = (r, w') \<Longrightarrow> w' = w @ [Exec (''git'' # args) cwd]"
  by (auto simp: git_raw_def split: launch.splits)

lemma git_raw_only [only_rules]: "P (Exec (''git'' # args) cwd) \<Longrightarrow> only P (git_raw (recorded an di ex re mk) args cwd)"
  by (auto simp: only_def dest: git_raw_recorded)

definition add_event :: "string \<Rightarrow> string \<Rightarrow> string \<Rightarrow> event" where
  "add_event b p d = Exec (''git'' # add_args b p None) d"

definition remove_event :: "string \<Rightarrow> string \<Rightarrow> event" where
  "remove_event p d = Exec [''git'', ''worktree'', ''remove'', ''--force'', p] d"

definition delete_event :: "string \<Rightarrow> string \<Rightarrow> event" where
  "delete_event b d = Exec [''git'', ''branch'', ''-D'', b] d"

definition merge_event :: "string \<Rightarrow> string \<Rightarrow> event" where
  "merge_event b d = Exec [''git'', ''merge'', ''--squash'', b] d"

definition commit_event :: "string \<Rightarrow> string \<Rightarrow> event" where
  "commit_event m d = Exec (''git'' # git_identity @ [''commit'', ''-m'', m]) d"

lemmas event_defs = add_event_def remove_event_def delete_event_def merge_event_def commit_event_def add_args_def git_identity_def

definition setup_event :: "string \<Rightarrow> string \<Rightarrow> event \<Rightarrow> bool" where
  \<comment> \<open>what is executed up to the start of the agents\<close>
  "setup_event run_id repo e \<longleftrightarrow> harmless e \<or> (\<exists>d. e = Mkdir d) \<or>
     e \<in> {Exec [''git'', ''init'', ''-q''] repo, Exec [''git'', ''add'', ''-A''] repo, Exec (''git'' # baseline_args) repo} \<or>
     (\<exists>harness i p d. e = add_event (proposal_branch run_id harness i) p d)"

definition ending_event :: "string \<Rightarrow> (proposal \<Rightarrow> bool) \<Rightarrow> (proposal \<Rightarrow> bool) \<Rightarrow> proposal list \<Rightarrow> event \<Rightarrow> bool" where
  \<comment> \<open>what is executed after the agents, where only a branch in \<open>kept\<close> is merged and none of them is deleted\<close>
  "ending_event repo kept won proposals e \<longleftrightarrow> harmless e \<or> (\<exists>m. e = commit_event m repo) \<or>
     (\<exists>p \<in> set proposals. (\<exists>d. e = remove_event (pp_worktree p) d) \<or> (\<exists>d. e = delete_event (pp_branch p) d \<and> \<not> kept p) \<or>
        (e = merge_event (pp_branch p) repo \<and> won p))"

lemma prepare_only: "only (setup_event run_id repo) (prepare (recorded an di ex re mk) repo)"
  unfolding prepare_def ensure_repo_ready_def by (intro only_rules) (simp_all add: setup_event_def)

lemma harmless_setup: "only harmless m \<Longrightarrow> only (setup_event run_id repo) m"
  by (erule only_mono) (simp add: setup_event_def)

lemma mkdir_only [only_rules]: "P (Mkdir d) \<Longrightarrow> only P (h_mkdir (recorded an di ex re mk) d)"
  by (auto simp: only_def)

lemma create_worktree_only:
  "only (setup_event run_id repo) (create_worktree (recorded an di ex re mk) r (proposal_branch run_id harness i) None)"
  unfolding create_worktree_def
  by (intro only_rules harmless_setup) (auto simp: setup_event_def add_event_def)

lemma create_proposals_only: "only (setup_event run_id repo) (create_proposals (recorded an di ex re mk) r run_id config i slots)"
  by (induction slots arbitrary: i) (auto intro!: only_rules create_worktree_only)

lemma remove_worktree_only:
  "only (\<lambda>e. harmless e \<or> (\<exists>d. e = remove_event p d) \<or> (\<exists>d. e = delete_event b d) \<and> delete)
    (remove_worktree (recorded an di ex re mk) p (Some b) delete)"
  unfolding remove_worktree_def
  by (intro only_rules only_mono [OF main_repo_only]) (auto simp: event_defs split: if_splits)

lemma cleanup_only: "only (ending_event repo kept won ps) (cleanup (recorded an di ex re mk) kept ps)"
proof (induction ps)
  case (Cons p ps)
  show ?case
    unfolding only_def
  proof (intro allI impI)
    fix w r w'
    assume run: "cleanup (recorded an di ex re mk) kept (p # ps) w = (r, w')"
    obtain r1 w1 where rm: "remove_worktree (recorded an di ex re mk) (pp_worktree p) (Some (pp_branch p)) (\<not> kept p) w = (r1, w1)"
      by (metis surj_pair)
    obtain es1 where es1: "w1 = w @ es1" "list_all (ending_event repo kept won (p # ps)) es1"
      using onlyD [OF only_mono [OF remove_worktree_only] rm, of "ending_event repo kept won (p # ps)"] by (auto simp: ending_event_def)
    have "cleanup (recorded an di ex re mk) kept ps w1 = (r, w') \<or> w' = w1"
      using run rm by (auto split: sum.splits run_error.splits)
    then obtain es2 where "w' = w1 @ es2" "list_all (ending_event repo kept won ps) es2"
    proof (elim disjE)
      assume "w' = w1" then show thesis using that [of "[]"] by simp
    qed (use onlyD [OF Cons.IH] that in blast)
    moreover from this(2) have "list_all (ending_event repo kept won (p # ps)) es2"
      by (auto simp: list_all_iff ending_event_def)
    ultimately show "\<exists>es. w' = w @ es \<and> list_all (ending_event repo kept won (p # ps)) es"
      using es1 by (metis append.assoc list_all_append)
  qed
qed (simp add: only_def)

lemma try_finally_only [only_rules]: "only P m \<Longrightarrow> only P fin \<Longrightarrow> only P (try_finally m fin)"
  unfolding only_def try_finally_def
  by (auto split: prod.splits sum.splits) (metis append.assoc list_all_append)+

lemma settle_only:
  "winner \<in> set proposals \<Longrightarrow> won winner \<Longrightarrow>
    only (ending_event repo kept won proposals) (settle (recorded an di ex re mk) repo run_id config message proposals' usable r winner)"
  unfolding settle_def merge_winner_def
  by (intro only_rules) (auto simp: ending_event_def event_defs)

lemma conclude_only:
  "\<exists>kept won. (\<forall>p. won p \<longrightarrow> kept p) \<and> only (ending_event repo kept won proposals)
     (conclude (recorded an di ex re mk) orc problem repo run_id config message proposals)"
proof -
  let ?h = "recorded an di ex re mk" and ?usable = "filter pp_ok proposals"
  let ?select = "select_best_of_n orc problem (map (trajectory problem) ?usable) config"
  show ?thesis
  proof (cases "\<exists>r. ?usable \<noteq> [] \<and> ?select = Inr r")
    case True
    then obtain r where r: "?usable \<noteq> []" "?select = Inr r" by blast
    let ?w = "?usable ! v_index r"
    have lt: "v_index r < length ?usable" using select_best_of_n_Inr [OF r(2)] by simp
    then have w: "?w \<in> set proposals" using nth_mem [OF lt] by (simp only: set_filter mem_Collect_eq)
    have eq: "conclude ?h orc problem repo run_id config message proposals =
        try_finally (settle ?h repo run_id config message proposals ?usable r ?w) (cleanup ?h (keeps config (Some ?w)) proposals)"
      unfolding conclude_def Let_def if_not_P [OF r(1)] r(2) sum.case using lt by (simp only: not_le [symmetric] if_False if_not_P)
    show ?thesis
      unfolding eq
      by (intro exI [of _ "keeps config (Some ?w)"] exI [of _ "\<lambda>p. pp_index p = pp_index ?w"] conjI only_rules cleanup_only settle_only w)
        (simp_all add: keeps_def)
  next
    case False
    have "only (ending_event repo (keeps config None) (\<lambda>p. False) proposals) (conclude ?h orc problem repo run_id config message proposals)"
    proof (cases "?usable = []")
      case True
      then show ?thesis unfolding conclude_def Let_def if_P [OF True] by (intro only_rules cleanup_only)
    next
      case ne: False
      with False obtain e where e: "?select = Inl e" by (cases ?select) auto
      show ?thesis unfolding conclude_def Let_def if_not_P [OF ne] e sum.case by (intro only_rules cleanup_only)
    qed
    then show ?thesis by (intro exI [of _ "keeps config None"] exI [of _ "\<lambda>p. False"] conjI) simp_all
  qed
qed

lemma create_worktree_branch: "create_worktree h r b base w = (Inr cw, w') \<Longrightarrow> cw_branch cw = b"
  unfolding create_worktree_def by (auto simp: bindS_eq_Inr split: if_splits)

definition made :: "(history \<Rightarrow> string list \<Rightarrow> string \<Rightarrow> launch) \<Rightarrow> history \<Rightarrow> event list \<Rightarrow> proposal \<Rightarrow> bool" where
  \<comment> \<open>among what was executed after \<open>w\<close> is the creation of the proposal's worktree and branch, and git answered that it succeeded\<close>
  "made an w es p \<longleftrightarrow> (\<exists>d. add_event (pp_branch p) (pp_worktree p) d \<in> set (effects an w es))"

lemma made_append [simp]: "made an w (xs @ ys) p \<longleftrightarrow> made an w xs p \<or> made an (w @ xs) ys p"
  by (auto simp: made_def effects_append)

lemma made_same: "identity_of p = identity_of q \<Longrightarrow> made an w es p \<longleftrightarrow> made an w es q"
  by (simp add: made_def identity_of_def)

lemma create_proposals_made:
  "create_proposals (recorded an di ex re mk) repo run_id config i slots w = (Inr created, w') \<Longrightarrow>
    \<exists>es. w' = w @ es \<and> (\<forall>p \<in> set created. pp_branch p = proposal_branch run_id (pp_harness p) (pp_index p) \<and> made an w es p)"
proof (induction slots arbitrary: i w created w')
  case (Cons spec slots)
  let ?b = "proposal_branch run_id (po_harness spec) i"
  obtain cw w1 ps where cw: "create_worktree (recorded an di ex re mk) repo ?b None w = (Inr cw, w1)"
    and ps: "create_proposals (recorded an di ex re mk) repo run_id config (Suc i) slots w1 = (Inr ps, w')"
    and created: "created = new_proposal config spec i cw # ps"
    using Cons.prems by (auto simp: bindS_eq_Inr)
  obtain es1 where es1: "w1 = w @ es1" "\<exists>d. effects an w es1 = [add_event ?b (cw_path cw) d]"
    using yieldsD [OF create_worktree_creation [where an = an] cw] unfolding creation_def add_event_def by auto
  obtain es2 where es2: "w' = w1 @ es2" "\<forall>p \<in> set ps. pp_branch p = proposal_branch run_id (pp_harness p) (pp_index p) \<and> made an w1 es2 p"
    using Cons.IH [OF ps] by blast
  have "made an w es1 (new_proposal config spec i cw)"
    using es1(2) create_worktree_branch [OF cw] by (auto simp: made_def new_proposal_def)
  with es1(1) es2 created create_worktree_branch [OF cw] show ?case
    by (intro exI [of _ "es1 @ es2"]) (auto simp: new_proposal_def)
qed simp

lemma proposal_branch_index: "proposal_branch run_id h i = proposal_branch run_id h' j \<Longrightarrow> i = j"
proof -
  assume "proposal_branch run_id h i = proposal_branch run_id h' j"
  then have eq: "h @ ''-'' @ show_nat i = h' @ ''-'' @ show_nat j" by (simp add: proposal_branch_def)
  have "takeWhile (\<lambda>c. c \<noteq> CHR ''-'') (rev (x @ ''-'' @ show_nat n)) = rev (show_nat n)" for x n
  proof -
    have "\<forall>c \<in> set (rev (show_nat n)). c \<noteq> CHR ''-''" using show_nat_digits [of n] by (auto simp: is_digit_def)
    then show ?thesis by (simp del: takeWhile_eq_all_conv) (subst takeWhile_append2, auto)
  qed
  from this [of h i] this [of h' j] eq have "rev (show_nat i) = rev (show_nat j)" by (metis rev.simps(2))
  then show "i = j" by (metis read_show_nat rev_is_rev_conv)
qed

text \<open>
  A run's events: those of the set-up, up to the creation of the worktrees, and those after the
  agents, which concern the proposals only. No agent was started when \<open>created\<close> is empty.
\<close>

lemma run_events:
  assumes "run_best_of_n (recorded an di ex re mk) which rd orc workers message run_id problem repo config w = (out, w')"
  obtains es1 es2 created proposals kept won where "w' = w @ es1 @ es2" "list_all (setup_event run_id repo) es1"
    "list_all (ending_event repo kept won proposals) es2" "\<forall>p. won p \<longrightarrow> kept p" "inj_on pp_branch (set proposals)"
    "\<forall>p \<in> set created. pp_branch p = proposal_branch run_id (pp_harness p) (pp_index p) \<and> made an w es1 p"
    "identity_of ` set proposals \<subseteq> identity_of ` set created"
proof -
  let ?h = "recorded an di ex re mk" and ?slots = "slots_of which config"
  note result = that
  have early: thesis if "w' = w @ es" "list_all (setup_event run_id repo) es"
      "\<forall>p \<in> set created. pp_branch p = proposal_branch run_id (pp_harness p) (pp_index p) \<and> made an w es p" for es created
    by (rule result [where ?es1.0 = es and ?es2.0 = "[]" and kept = "\<lambda>p. True" and won = "\<lambda>p. True" and proposals = "[]" and created = created])
      (use that in simp_all)
  obtain r1 w1 where r1: "prepare ?h repo w = (r1, w1)" by (cases "prepare ?h repo w")
  obtain es1 where es1: "w1 = w @ es1" "list_all (setup_event run_id repo) es1" using onlyD [OF prepare_only r1] by blast
  show thesis
  proof (cases "(\<exists>b. r1 = Inr b) \<and> ?slots \<noteq> []")
    case False
    with assms r1 have "w' = w1" by (cases r1) (auto simp: run_best_of_n_def bindS_def Let_def)
    with es1 early [where created = "[]"] show thesis by simp
  next
    case True
    then obtain base where base: "r1 = Inr base" and slots: "?slots \<noteq> []" by blast
    obtain r2 w2 where r2: "create_proposals ?h repo run_id config 0 ?slots w1 = (r2, w2)"
      by (cases "create_proposals ?h repo run_id config 0 ?slots w1")
    obtain es2 where es2: "w2 = w1 @ es2" "list_all (setup_event run_id repo) es2"
      using onlyD [OF create_proposals_only r2] by blast
    have run: "bindS (create_proposals ?h repo run_id config 0 ?slots) (\<lambda>created.
        bindS (liftR (run_agents rd (or_environ orc) config problem base workers created ?slots))
          (conclude ?h orc problem repo run_id config message)) w1 = (out, w')"
      using assms unfolding run_best_of_n_def bindS_run(1) [where m = "prepare ?h repo", OF r1 [unfolded base]] Let_def if_not_P [OF slots] .
    show thesis
    proof (cases r2)
      case (Inl e)
      with run r2 have "w' = w2" by (auto simp: bindS_def)
      with es1 es2 early [where created = "[]"] show thesis by simp
    next
      case created: (Inr created)
      obtain es2' where "w2 = w1 @ es2'" and mk: "\<forall>p \<in> set created. pp_branch p = proposal_branch run_id (pp_harness p) (pp_index p) \<and> made an w1 es2' p"
        using create_proposals_made [OF r2 [unfolded created]] by blast
      with es2(1) have [simp]: "es2' = es2" by simp
      have mk1: "\<forall>p \<in> set created. pp_branch p = proposal_branch run_id (pp_harness p) (pp_index p) \<and> made an w (es1 @ es2) p"
        using mk es1(1) by simp
      show thesis
      proof (cases "run_agents rd (or_environ orc) config problem base workers created ?slots")
        case (Inl e)
        with run r2 created have "w' = w2" by (auto simp: bindS_def)
        with es1 es2 early [OF _ _ mk1] show thesis by simp
      next
        case agents: (Inr proposals)
        from run r2 created agents have fin: "conclude ?h orc problem repo run_id config message proposals w2 = (out, w')"
          by (simp add: bindS_def)
        obtain kept won where kw: "\<forall>p. won p \<longrightarrow> kept p"
          "only (ending_event repo kept won proposals) (conclude ?h orc problem repo run_id config message proposals)"
          by (rule exE [OF conclude_only], elim exE conjE, rule that)
        obtain es3 where es3: "w' = w2 @ es3" "list_all (ending_event repo kept won proposals) es3"
          using onlyD [OF kw(2) fin] by blast
        note idx = create_proposals_Inr [OF r2 [unfolded created]]
        note ids = run_agents_identity [OF agents conjunct1 [OF idx]]
        have same: "identity_of ` set proposals = identity_of ` set created" using ids by (metis list.set_map)
        have branch: "pp_branch p = proposal_branch run_id (pp_harness p) (pp_index p)" if "p \<in> set proposals" for p
        proof -
          from that same obtain q where "q \<in> set created" "identity_of p = identity_of q" by blast
          with mk1 show ?thesis by (simp add: identity_of_def)
        qed
        have "map pp_index proposals = [0..<length ?slots]"
          using arg_cong [OF ids, of "map fst"] idx by (simp add: identity_of_def comp_def)
        then have "inj_on pp_index (set proposals)" by (metis distinct_map distinct_upt)
        then have "inj_on pp_branch (set proposals)"
          unfolding inj_on_def using branch proposal_branch_index by metis
        then show thesis
          by (intro result [where ?es1.0 = "es1 @ es2" and ?es2.0 = es3 and kept = kept and won = won and proposals = proposals and created = created] mk1)
            (use es1 es2 es3 kw(1) same in simp_all)
      qed
    qed
  qed
qed

text \<open>
  A proposal's thread: the agent's command and the three commands of the snapshot, in this order and
  all in the proposal's worktree, up to the point where the thread fails.
\<close>

definition thread_plan :: "string \<Rightarrow> proposal \<Rightarrow> string list \<Rightarrow> event list" where
  "thread_plan base_commit p argv =
     [Exec argv (pp_worktree p), Exec [''git'', ''add'', ''-A''] (pp_worktree p), Exec (''git'' # snapshot_args p) (pp_worktree p),
      Exec [''git'', ''diff'', base_commit, ''HEAD''] (pp_worktree p)]"

lemma snapshot_events:
  assumes "snapshot_proposal (recorded an di ex re mk) base_commit p v = (r, v')" and "pp_worktree p = pp_worktree q"
    and "snapshot_args p = snapshot_args q"
  shows "\<exists>k. v' = v @ take k (tl (thread_plan base_commit q argv))"
proof -
  let ?e1 = "Exec [''git'', ''add'', ''-A''] (pp_worktree p)" and ?e2 = "Exec (''git'' # snapshot_args p) (pp_worktree p)"
  let ?e3 = "Exec [''git'', ''diff'', base_commit, ''HEAD''] (pp_worktree p)"
  have "v' = v @ [?e1] \<or> v' = v @ [?e1, ?e2] \<or> v' = v @ [?e1, ?e2, ?e3]"
    using assms(1) unfolding snapshot_proposal_def git_raw_def bindS_def Let_def
    by (auto split: launch.splits sum.splits prod.splits if_splits)
  moreover have "tl (thread_plan base_commit q argv) = [?e1, ?e2, ?e3]" using assms(2,3) by (simp add: thread_plan_def)
  ultimately consider "v' = v @ take 1 (tl (thread_plan base_commit q argv))" | "v' = v @ take 2 (tl (thread_plan base_commit q argv))"
    | "v' = v @ take 3 (tl (thread_plan base_commit q argv))" by (auto simp: numeral_eq_Suc)
  then show ?thesis by cases blast+
qed

lemma thread_events:
  assumes host: "wk_host wk = recorded an di ex re mk"
    and agent: "\<And>argv cwd env v. wk_agent wk argv cwd env v = (ag argv cwd env v, v @ [Exec argv cwd])"
  shows "snd (proposal_thread rd environ config prompt base_commit wk spec p) = wk_world wk \<or>
    (\<exists>argv k. build_command spec prompt (cf_proposal_model config) = Inr argv \<and>
      snd (proposal_thread rd environ config prompt base_commit wk spec p) = wk_world wk @ take k (thread_plan base_commit p argv))"
proof (cases "build_command spec prompt (cf_proposal_model config)")
  case (Inl e)
  then show ?thesis by (simp add: proposal_thread_def lift_py_def)
next
  case argv: (Inr argv)
  let ?env = "proposal_env environ spec config" and ?plan = "thread_plan base_commit p argv"
  let ?v = "wk_world wk @ [Exec argv (pp_worktree p)]"
  have plan: "?plan = Exec argv (pp_worktree p) # tl ?plan" by (simp add: thread_plan_def)
  show ?thesis
  proof (cases "list_all (str_value \<circ> snd) ?env")
    case False
    then show ?thesis by (simp add: proposal_thread_def lift_py_def argv Let_def)
  next
    case True
    let ?out = "agent_result rd spec (cf_timeout config) (ag argv (pp_worktree p) ?env (wk_world wk)) p"
    show ?thesis
    proof (cases ?out)
      case (Inl e)
      then have "snd (proposal_thread rd environ config prompt base_commit wk spec p) = wk_world wk @ take 1 ?plan"
        using True argv agent by (simp add: proposal_thread_def lift_py_def Let_def thread_plan_def)
      with argv show ?thesis by blast
    next
      case (Inr p1)
      let ?p2 = "p1\<lparr>pp_duration := wk_duration wk\<rparr>"
      obtain r v' where snap: "snapshot_proposal (recorded an di ex re mk) base_commit ?p2 ?v = (r, v')" by (metis surj_pair)
      have "identity_of p1 = identity_of p" by (rule agent_result_identity [OF Inr])
      then have "pp_worktree ?p2 = pp_worktree p" "snapshot_args ?p2 = snapshot_args p"
        by (simp_all add: identity_of_def snapshot_args_def)
      from snapshot_events [OF snap this] obtain k where k: "v' = ?v @ take k (tl ?plan)" by blast
      have "proposal_thread rd environ config prompt base_commit wk spec p = (r, v')"
        using True argv agent Inr snap by (simp add: proposal_thread_def lift_py_def Let_def host)
      moreover have "v' = wk_world wk @ take (Suc k) ?plan" using k by (subst plan) simp
      ultimately show ?thesis using argv by (metis snd_conv)
    qed
  qed
qed

lemma setup_not: "\<not> setup_event run_id repo (delete_event b d)" "\<not> setup_event run_id repo (merge_event b d)"
  "\<not> setup_event run_id repo (remove_event p d)"
  by (auto simp: setup_event_def event_defs baseline_args_def)

lemma ending_delete: "ending_event repo kept won ps (delete_event b d) \<longleftrightarrow> (\<exists>p \<in> set ps. b = pp_branch p \<and> \<not> kept p)"
  by (auto simp: ending_event_def event_defs)

lemma ending_merge: "ending_event repo kept won ps (merge_event b d) \<longleftrightarrow> (\<exists>p \<in> set ps. b = pp_branch p \<and> d = repo \<and> won p)"
  by (auto simp: ending_event_def event_defs)

lemma ending_remove: "ending_event repo kept won ps (remove_event q d) \<longleftrightarrow> (\<exists>p \<in> set ps. q = pp_worktree p)"
  by (auto simp: ending_event_def event_defs)

lemma ending_identity:
  assumes "identity_of ` set proposals \<subseteq> identity_of ` set created" and "ending_event repo kept won proposals e"
  shows "ending_event repo (\<lambda>p. False) (\<lambda>p. True) created e"
proof -
  have "\<exists>q \<in> set created. pp_worktree p = pp_worktree q \<and> pp_branch p = pp_branch q" if "p \<in> set proposals" for p
  proof -
    have "identity_of p \<in> identity_of ` set created" using that assms(1) by blast
    then show ?thesis by (auto simp: identity_of_def)
  qed
  with assms(2) show ?thesis unfolding ending_event_def by metis
qed

text \<open>
  C4: whatever git, the agents and the verifier answer, and however the run ends, what the run
  executes on the main thread falls into two parts. Up to the start of the agents it only inspects,
  initialises the given repository (\<open>git init\<close>, \<open>git add -A\<close>, the baseline commit), makes
  directories, and adds worktrees with branches under the prefix \<open>best-of-n/<run id>/\<close>; for every
  proposal an agent is started for, git has answered that it created the worktree and the branch. After the agents it
  only inspects, merges branches of these proposals and commits in the given repository, removes
  their worktrees and deletes their branches. Each proposal's thread executes the agent's
  command, \<open>git add -A\<close>, one commit and one \<open>git diff\<close>, in this order, all in the proposal's own
  worktree, and nothing else (what the agent's process itself does is the agent's).
\<close>

theorem run_touches_only_what_it_created:
  assumes "run_best_of_n (recorded an di ex re mk) which rd orc workers message run_id problem repo config w = (out, w')"
    and "\<And>i. wk_host (workers i) = recorded (an' i) (di' i) (ex' i) (re' i) (mk' i)"
    and "\<And>i argv cwd env v. wk_agent (workers i) argv cwd env v = (ag i argv cwd env v, v @ [Exec argv cwd])"
  shows "\<exists>es1 es2 created. w' = w @ es1 @ es2 \<and>
    list_all (setup_event run_id repo) es1 \<and> list_all (ending_event repo (\<lambda>p. False) (\<lambda>p. True) created) es2 \<and>
    (\<forall>p \<in> set created. starts_with (pp_branch p) (''best-of-n/'' @ run_id @ ''/'') \<and>
      (\<exists>d. add_event (pp_branch p) (pp_worktree p) d \<in> set (effects an w es1))) \<and>
    (\<forall>p \<in> set created. \<forall>spec base_commit.
      let thread = proposal_thread rd (or_environ orc) config problem base_commit (workers (pp_index p)) spec p
      in snd thread = wk_world (workers (pp_index p)) \<or>
         (\<exists>argv k. build_command spec problem (cf_proposal_model config) = Inr argv \<and>
           snd thread = wk_world (workers (pp_index p)) @ take k (thread_plan base_commit p argv)))"
proof -
  obtain es1 es2 created proposals kept won where run: "w' = w @ es1 @ es2" "list_all (setup_event run_id repo) es1"
    "list_all (ending_event repo kept won proposals) es2"
    "\<forall>p \<in> set created. pp_branch p = proposal_branch run_id (pp_harness p) (pp_index p) \<and> made an w es1 p"
    "identity_of ` set proposals \<subseteq> identity_of ` set created"
    by (rule run_events [OF assms(1)])
  have "list_all (ending_event repo (\<lambda>p. False) (\<lambda>p. True) created) es2"
    using run(3) by (rule list.pred_mono_strong) (rule ending_identity [OF run(5)])
  moreover have "\<forall>p \<in> set created. starts_with (pp_branch p) (''best-of-n/'' @ run_id @ ''/'') \<and>
      (\<exists>d. add_event (pp_branch p) (pp_worktree p) d \<in> set (effects an w es1))"
  proof
    fix p assume "p \<in> set created"
    with run(4) have b: "pp_branch p = proposal_branch run_id (pp_harness p) (pp_index p)" and m: "made an w es1 p" by blast+
    have "starts_with (pp_branch p) (''best-of-n/'' @ run_id @ ''/'')" unfolding b by (simp add: proposal_branch_def starts_with_def)
    from conjI [OF this m [unfolded made_def]]
    show "starts_with (pp_branch p) (''best-of-n/'' @ run_id @ ''/'') \<and> (\<exists>d. add_event (pp_branch p) (pp_worktree p) d \<in> set (effects an w es1))" .
  qed
  moreover have "\<forall>p \<in> set created. \<forall>spec base_commit.
      let thread = proposal_thread rd (or_environ orc) config problem base_commit (workers (pp_index p)) spec p
      in snd thread = wk_world (workers (pp_index p)) \<or>
         (\<exists>argv k. build_command spec problem (cf_proposal_model config) = Inr argv \<and>
           snd thread = wk_world (workers (pp_index p)) @ take k (thread_plan base_commit p argv))"
    unfolding Let_def by (intro ballI allI thread_events [OF assms(2,3)])
  ultimately show ?thesis
    using run(1,2) by (intro exI [of _ es1] exI [of _ es2] exI [of _ created] conjI)
qed

text \<open>
  C5: a branch the run merged, or tried to merge, is never deleted, whatever happens afterwards: the
  winner's branch survives a successful run and a failed merge alike.
\<close>

theorem merged_branch_is_never_deleted:
  assumes "run_best_of_n (recorded an di ex re mk) which rd orc workers message run_id problem repo config w = (out, w')"
  shows "\<exists>es. w' = w @ es \<and> (\<forall>b d d'. merge_event b d \<in> set es \<longrightarrow> delete_event b d' \<notin> set es)"
proof -
  obtain es1 es2 created proposals kept won where run: "w' = w @ es1 @ es2" "list_all (setup_event run_id repo) es1"
    "list_all (ending_event repo kept won proposals) es2" "\<forall>p. won p \<longrightarrow> kept p" "inj_on pp_branch (set proposals)"
    by (rule run_events [OF assms])
  have "delete_event b d' \<notin> set (es1 @ es2)" if "merge_event b d \<in> set (es1 @ es2)" for b d d'
  proof
    assume del: "delete_event b d' \<in> set (es1 @ es2)"
    have "merge_event b d \<in> set es2" "delete_event b d' \<in> set es2"
      using that del run(2) setup_not by (auto simp: list_all_iff)
    with run(3) have "ending_event repo kept won proposals (merge_event b d)" "ending_event repo kept won proposals (delete_event b d')"
      by (simp_all add: list_all_iff)
    then obtain p q where "p \<in> set proposals" "b = pp_branch p" "won p" "q \<in> set proposals" "b = pp_branch q" "\<not> kept q"
      unfolding ending_delete ending_merge by blast
    with run(4,5) show False by (metis inj_onD)
  qed
  with run(1) show ?thesis by blast
qed

text \<open>
  a run that fails while it creates the worktrees, or in which an agent's thread raises, ends
  with that error and removes nothing: the worktrees created so far stay behind.
\<close>

theorem failed_start_leaks_the_worktrees:
  fixes an di ex re mk repo
  defines "h \<equiv> recorded an di ex re mk"
  assumes "prepare h repo w = (Inr base, w1)" and "slots_of which config \<noteq> []"
    and "create_proposals h repo run_id config 0 (slots_of which config) w1 = (started, w2)"
    and "started = Inl e \<or> (\<exists>created. started = Inr created \<and>
      run_agents rd (or_environ orc) config problem base workers created (slots_of which config) = Inl e)"
  shows "run_best_of_n h which rd orc workers message run_id problem repo config w = (Inl e, w2) \<and>
    (\<exists>es. w2 = w @ es \<and> (\<forall>p d. remove_event p d \<notin> set es))"
proof
  show "run_best_of_n h which rd orc workers message run_id problem repo config w = (Inl e, w2)"
    using assms(2-5) by (auto simp: run_best_of_n_def bindS_def Let_def)
  obtain es1 where es1: "w1 = w @ es1" "list_all (setup_event run_id repo) es1"
    using onlyD [OF prepare_only assms(2) [unfolded h_def]] by blast
  obtain es2 where es2: "w2 = w1 @ es2" "list_all (setup_event run_id repo) es2"
    using onlyD [OF create_proposals_only assms(4) [unfolded h_def]] by blast
  have "remove_event p d \<notin> set (es1 @ es2)" for p d
    using es1(2) es2(2) setup_not(3) by (auto simp: list_all_iff)
  with es1(1) es2(1) show "\<exists>es. w2 = w @ es \<and> (\<forall>p d. remove_event p d \<notin> set es)" by auto
qed

lemma git_error_kind: "\<exists>m. git_error s c = WorktreeError m"
  by (simp add: git_error_def Let_def)

lemma run_git_kind:
  "(\<And>w argv cwd m. an w argv cwd \<noteq> OsError m) \<Longrightarrow> run_git (recorded an di ex re mk) args cwd v = (Inl e, v') \<Longrightarrow> \<exists>m. e = WorktreeError m"
  by (auto simp: run_git_def split: launch.splits)

lemma remove_worktree_kind:
  assumes "\<And>w argv cwd m. an w argv cwd \<noteq> OsError m" and "remove_worktree (recorded an di ex re mk) p b delete w = (Inl e, w')"
  shows "\<exists>m. e = WorktreeError m"
  using assms(2) git_error_kind run_git_kind [OF assms(1)]
  unfolding remove_worktree_def main_repo_for_worktree_def Let_def
  by (auto simp: bindS_eq_Inl split: if_splits option.splits)

lemma remove_worktree_removes:
  assumes "ex w (path_str (parse_path p))"
    and "\<And>w cwd. \<exists>c. an w [''git'', ''rev-parse'', ''--git-common-dir''] cwd = Completed c \<and> returncode c = 0"
    and run: "remove_worktree (recorded an di ex re mk) p (Some b) delete w = (r, w')"
  shows "\<exists>es d. w' = w @ es \<and> remove_event p d \<in> set es"
proof -
  let ?h = "recorded an di ex re mk" and ?w1 = "w @ [Exec [''git'', ''rev-parse'', ''--git-common-dir''] p]"
  obtain c where c: "an w [''git'', ''rev-parse'', ''--git-common-dir''] p = Completed c" "returncode c = 0" using assms(2) by blast
  obtain root where main: "main_repo_for_worktree ?h p w = (Inr root, ?w1)"
    using c assms(1)
    by (cases "fst (parse_path (strip (stdout c)))") (auto simp: main_repo_for_worktree_def run_git_def bindS_def Let_def)
  obtain r1 w2 where rm: "run_git ?h [''worktree'', ''remove'', ''--force'', p] root ?w1 = (r1, w2)" by (metis surj_pair)
  then have w2: "w2 = ?w1 @ [remove_event p root]" by (auto dest: run_git_recorded simp: remove_event_def)
  let ?rest = "\<lambda>c. if returncode c \<noteq> 0 then fail (git_error ''git worktree remove failed'' c)
    else case (if delete then Some b else None) of None \<Rightarrow> ret ()
     | Some b \<Rightarrow> bindS (run_git ?h [''branch'', ''-D'', b] root) (\<lambda>r2. if returncode r2 \<noteq> 0 then fail (git_error ''git branch -D failed'' r2) else ret ())"
  have "only (\<lambda>e. True) (?rest c)" for c by (intro only_rules) simp
  moreover have "r1 = Inl e \<Longrightarrow> w' = w2" "r1 = Inr c \<Longrightarrow> ?rest c w2 = (r, w')" for e c
    using run rm main unfolding remove_worktree_def by (simp_all add: bindS_def)
  ultimately have "\<exists>es. w' = w2 @ es" by (cases r1) (auto dest!: onlyD)
  with w2 show ?thesis by auto
qed

definition knows_worktrees :: "(history \<Rightarrow> string list \<Rightarrow> string \<Rightarrow> launch) \<Rightarrow> (history \<Rightarrow> string \<Rightarrow> bool) \<Rightarrow> history \<Rightarrow> proposal list \<Rightarrow> bool" where
  \<comment> \<open>git can be run and resolves worktrees, and a worktree is there until it is removed\<close>
  "knows_worktrees an ex w ps \<longleftrightarrow> (\<forall>w argv cwd m. an w argv cwd \<noteq> OsError m) \<and>
     (\<forall>w cwd. \<exists>c. an w [''git'', ''rev-parse'', ''--git-common-dir''] cwd = Completed c \<and> returncode c = 0) \<and>
     (\<forall>p \<in> set ps. \<forall>es. (\<forall>d. remove_event (pp_worktree p) d \<notin> set es) \<longrightarrow> ex (w @ es) (path_str (parse_path (pp_worktree p))))"

lemma cleanup_removes:
  assumes "knows_worktrees an ex w ps" and "cleanup (recorded an di ex re mk) keep ps (w @ es) = (r, w')"
  shows "r = Inr () \<and> (\<exists>es'. w' = (w @ es) @ es' \<and> (\<forall>p \<in> set ps. \<exists>d. remove_event (pp_worktree p) d \<in> set (es @ es')))"
  using assms
proof (induction ps arbitrary: es)
  case (Cons p ps)
  have ok: "\<And>w argv cwd m. an w argv cwd \<noteq> OsError m"
    "\<And>w cwd. \<exists>c. an w [''git'', ''rev-parse'', ''--git-common-dir''] cwd = Completed c \<and> returncode c = 0"
    "(\<And>d. remove_event (pp_worktree p) d \<notin> set es) \<Longrightarrow> ex (w @ es) (path_str (parse_path (pp_worktree p)))"
    and IH: "knows_worktrees an ex w ps"
    using Cons.prems(1) by (simp_all add: knows_worktrees_def)
  obtain r1 w1 where rm: "remove_worktree (recorded an di ex re mk) (pp_worktree p) (Some (pp_branch p)) (\<not> keep p) (w @ es) = (r1, w1)"
    by (metis surj_pair)
  obtain es1 where es1: "w1 = w @ (es @ es1)" using onlyD [OF remove_worktree_only rm] by auto
  have gone: "\<exists>d. remove_event (pp_worktree p) d \<in> set (es @ es1)"
    using remove_worktree_removes [OF ok(3) ok(2) rm] es1 by auto
  have "cleanup (recorded an di ex re mk) keep ps w1 = (r, w')"
  proof (cases r1)
    case (Inl e)
    have "\<exists>m. e = WorktreeError m" by (rule remove_worktree_kind [where an = an]) (use ok(1) rm Inl in auto)
    with Cons.prems(2) rm Inl show ?thesis by auto
  qed (use Cons.prems(2) rm in simp)
  from Cons.IH [OF IH this [unfolded es1]] obtain es2 where "r = Inr ()" "w' = (w @ (es @ es1)) @ es2"
    "\<forall>q \<in> set ps. \<exists>d. remove_event (pp_worktree q) d \<in> set ((es @ es1) @ es2)" by blast
  with gone show ?case by (intro conjI exI [of _ "es1 @ es2"]) auto
qed simp

lemma try_finally_cleanup:
  assumes "knows_worktrees an ex w ps"
    and "only (\<lambda>e. True) m" and "try_finally m (cleanup (recorded an di ex re mk) keep ps) w = (out, w')"
  shows "fst (m w) = out \<and> (\<exists>es. w' = w @ es \<and> (\<forall>p \<in> set ps. \<exists>d. remove_event (pp_worktree p) d \<in> set es))"
proof -
  obtain r1 w1 where m: "m w = (r1, w1)" by (cases "m w")
  obtain es1 where es1: "w1 = w @ es1" using onlyD [OF assms(2) m] by blast
  obtain r2 w2 where c: "cleanup (recorded an di ex re mk) keep ps (w @ es1) = (r2, w2)" by (metis surj_pair)
  note rem = cleanup_removes [OF assms(1) c]
  with assms(3) m c es1 have "out = r1 \<and> w' = w2" by (auto simp: try_finally_def)
  moreover obtain es' where "w2 = (w @ es1) @ es'" "\<forall>p \<in> set ps. \<exists>d. remove_event (pp_worktree p) d \<in> set (es1 @ es')"
    using rem by blast
  ultimately show ?thesis using m by (intro conjI exI [of _ "es1 @ es'"]) auto
qed

text \<open>
  once the agents are done every proposal's worktree is removed, however the run ends: without a
  usable proposal, with a failed selection, a failed merge or a result. Git must be runnable and know
  the worktrees.
\<close>

theorem every_worktree_is_removed:
  assumes "knows_worktrees an ex w proposals"
    and "conclude (recorded an di ex re mk) orc problem repo run_id config message proposals w = (out, w')"
  shows "\<exists>es. w' = w @ es \<and> (\<forall>p \<in> set proposals. \<exists>d. remove_event (pp_worktree p) d \<in> set es)"
proof -
  let ?h = "recorded an di ex re mk" and ?usable = "filter pp_ok proposals"
  have settled: "only (\<lambda>e. True) (settle ?h repo run_id config message proposals usable r winner)" for usable r winner
    unfolding settle_def merge_winner_def by (intro only_rules) simp_all
  have "\<exists>m keep. only (\<lambda>e. True) m \<and>
    conclude ?h orc problem repo run_id config message proposals w = try_finally m (cleanup ?h keep proposals) w"
  proof (cases "?usable = []")
    case True
    then have "conclude ?h orc problem repo run_id config message proposals w =
        try_finally (fail (no_usable proposals)) (cleanup ?h (keeps config None) proposals) w"
      by (simp add: conclude_def Let_def try_finally_def bindS_def split: prod.splits sum.splits)
    then show ?thesis using only_pure(2) by blast
  next
    case ne: False
    show ?thesis
    proof (cases "select_best_of_n orc problem (map (trajectory problem) ?usable) config")
      case (Inl e)
      show ?thesis unfolding conclude_def Let_def if_not_P [OF ne] Inl sum.case using only_pure(2) by blast
    next
      case (Inr r)
      show ?thesis
      proof (cases "length ?usable \<le> v_index r")
        case True
        show ?thesis unfolding conclude_def Let_def if_not_P [OF ne] Inr sum.case if_P [OF True] using only_pure(2) by blast
      next
        case False
        show ?thesis unfolding conclude_def Let_def if_not_P [OF ne] Inr sum.case if_not_P [OF False] using settled by blast
      qed
    qed
  qed
  then obtain m keep where "only (\<lambda>e. True) m"
    "conclude ?h orc problem repo run_id config message proposals w = try_finally m (cleanup ?h keep proposals) w" by blast
  with try_finally_cleanup [OF assms(1), of m di re mk keep out w'] assms(2) show ?thesis by simp
qed

section \<open>An example\<close>

definition ex_answers :: "history \<Rightarrow> string list \<Rightarrow> string \<Rightarrow> launch" where
  \<comment> \<open>a clean repository at \<open>/r\<close> with the commit \<open>c0\<close>, in which every command succeeds\<close>
  "ex_answers w argv cwd =
     (let ok = (\<lambda>s. Completed \<lparr>returncode = 0, stdout = s, stderr = []\<rparr>)
      in if argv = [''git'', ''worktree'', ''list'', ''--porcelain''] then ok (''worktree /r'' @ nl)
      else if argv = [''git'', ''rev-parse'', ''HEAD''] then ok ''c0''
      else if argv = [''git'', ''rev-parse'', ''--git-common-dir''] then ok ''/r/.git''
      else if take 3 argv = [''git'', ''rev-parse'', ''--verify''] then Completed \<lparr>returncode = 1, stdout = [], stderr = []\<rparr>
      else ok [])"

fun adds_worktree :: "string \<Rightarrow> event \<Rightarrow> bool" where
  "adds_worktree p (Exec argv cwd) \<longleftrightarrow> take 3 argv = [''git'', ''worktree'', ''add''] \<and> last argv = p"
| "adds_worktree p (Mkdir d) \<longleftrightarrow> False"

fun removes_worktree :: "string \<Rightarrow> event \<Rightarrow> bool" where
  "removes_worktree p (Exec argv cwd) \<longleftrightarrow> argv = [''git'', ''worktree'', ''remove'', ''--force'', p]"
| "removes_worktree p (Mkdir d) \<longleftrightarrow> False"

definition ex_exists :: "history \<Rightarrow> string \<Rightarrow> bool" where
  "ex_exists w p \<longleftrightarrow> list_ex (adds_worktree p) w \<and> \<not> list_ex (removes_worktree p) w"

definition ex_machine :: "(history \<Rightarrow> string list \<Rightarrow> string \<Rightarrow> launch) \<Rightarrow> history host" where
  "ex_machine an = recorded an (\<lambda>w p. True) ex_exists (\<lambda>w p. p) (\<lambda>w p. True)"

definition ex_config :: best_of_n_config where
  "ex_config = (default_config [(''Correct'', ''It works.'')])
     \<lparr>cf_proposers := [plain_proposer ''claude'', (plain_proposer ''mine'')\<lparr>po_command := Some [PStr ''go''], po_count := 2\<rparr>]\<rparr>"

definition ex_worker :: "nat \<Rightarrow> history worker" where
  \<comment> \<open>the first agent changes a file, the second one cannot be started\<close>
  "ex_worker i =
     \<lparr>wk_host = recorded (\<lambda>w argv cwd. Completed \<lparr>returncode = 0,
        stdout = (if i = 0 \<and> argv ! 1 = ''diff'' then ''+ x'' else []), stderr = []\<rparr>)
        (\<lambda>w p. True) (\<lambda>w p. True) (\<lambda>w p. p) (\<lambda>w p. True),
      wk_agent = (\<lambda>argv cwd env w. (if i = 0 then Exited \<lparr>returncode = 0, stdout = ''done'', stderr = []\<rparr> else AgentOsError ''no such file'', w @ [Exec argv cwd])),
      wk_world = [], wk_duration = 1\<rparr>"

definition ex_rendering :: rendering where
  "ex_rendering = \<lparr>rd_other = (\<lambda>v. []), rd_arrow = ''->'', rd_dot = ''-'', rd_loads = (\<lambda>s. None)\<rparr>"

definition ex_verification :: verification where
  "ex_verification = \<lparr>or_environ = [(''DEEPSEEK_API_KEY'', ''k'')], or_other = (\<lambda>v. []), or_draw = (\<lambda>seed i. i),
     or_ring_call = (\<lambda>c j. Inr (1, 0)), or_pivot_call = (\<lambda>c j. Inr (1, 0)), or_completion = (\<lambda>js. js)\<rparr>"

definition ex_run :: "(history \<Rightarrow> string list \<Rightarrow> string \<Rightarrow> launch) \<Rightarrow> (run_error + best_of_n_result) \<times> history" where
  "ex_run an = run_best_of_n (ex_machine an) (\<lambda>b. False) ex_rendering ex_verification ex_worker (\<lambda>p r. ''msg'') ''id'' ''task'' ''/r'' ex_config []"

definition ex_slots :: "proposer_spec list" where
  "ex_slots = slots_of (\<lambda>b. False) ex_config"

definition ex_created :: "proposal list" where
  "ex_created = map (\<lambda>i. \<lparr>pp_harness = ''mine'', pp_index = i, pp_branch = proposal_branch ''id'' ''mine'' i,
     pp_worktree = ''/r-worktrees/best-of-n-id-mine-'' @ show_nat i, pp_model = PStr ''deepseek/deepseek-v4-flash'',
     pp_transcript = [], pp_diff = [], pp_ok = False, pp_error = None, pp_duration = 0\<rparr>) [0, 1]"

definition ex_finished :: "proposal list" where
  "ex_finished = [(ex_created ! 0)\<lparr>pp_transcript := ''done'' @ nl, pp_diff := ''+ x'', pp_ok := True, pp_duration := 1\<rparr>,
     (ex_created ! 1)\<lparr>pp_error := Some ''failed to launch mine: no such file'', pp_duration := 1\<rparr>]"

definition ex_prepared :: history where
  "ex_prepared = [Exec [''git'', ''rev-parse'', ''--git-dir''] ''/r'', Exec [''git'', ''rev-parse'', ''HEAD''] ''/r'',
     Exec [''git'', ''rev-parse'', ''HEAD''] ''/r'', Exec [''git'', ''status'', ''--porcelain''] ''/r'']"

lemma ex_steps:
  "prepare (ex_machine ex_answers) ''/r'' [] = (Inr ''c0'', ex_prepared)"
  "fst (create_proposals (ex_machine ex_answers) ''/r'' ''id'' ex_config 0 ex_slots ex_prepared) = Inr ex_created"
  "run_agents ex_rendering (or_environ ex_verification) ex_config ''task'' ''c0'' ex_worker ex_created ex_slots = Inr ex_finished"
  "ex_slots \<noteq> []"
  by code_simp+

lemma ex_criteria: "normalize_criteria (or_other ex_verification) (PDict (map (\<lambda>(k, d). (k, PStr d)) (cf_criteria ex_config))) =
    Inr [\<lparr>crit_id = ''correct'', crit_name = ''Correct'', crit_desc = ''It works.''\<rparr>]"
  and ex_client: "create_verifier_client (or_environ ex_verification) (cf_verifier ex_config) =
    Inr (DeepSeek (Endpoint deepseek_base_url (PStr ''k'')) (Endpoint ''https://api.deepseek.com/beta'' (PStr ''k'')))"
  by code_simp+

definition ex_result :: verifier_result where
  "ex_result = \<lparr>v_index = 0, v_best = trajectory ''task'' (ex_finished ! 0), v_scores = [1], v_n_comparisons = 0, v_criteria = [''correct'']\<rparr>"

lemma ex_usable: "filter pp_ok ex_finished = [ex_finished ! 0]"
  by (simp add: ex_finished_def ex_created_def)

lemma ex_selection: "select_best_of_n ex_verification ''task'' (map (trajectory ''task'') (filter pp_ok ex_finished)) ex_config = Inr ex_result"
  unfolding select_best_of_n_def Let_def ex_client ex_criteria ex_usable list.map bindR_def sum.case select_single
  by (simp add: lift_py_def ex_result_def)

lemma ex_conclude:
  "conclude (ex_machine ex_answers) ex_verification ''task'' ''/r'' ''id'' ex_config (\<lambda>p r. ''msg'') ex_finished =
    try_finally (settle (ex_machine ex_answers) ''/r'' ''id'' ex_config (\<lambda>p r. ''msg'') ex_finished [ex_finished ! 0] ex_result (ex_finished ! 0))
      (cleanup (ex_machine ex_answers) (keeps ex_config (Some (ex_finished ! 0))) ex_finished)"
  unfolding conclude_def Let_def ex_usable list.map ex_selection [unfolded ex_usable list.map] by (simp add: ex_result_def)

definition ex_started :: history where
  "ex_started = snd (create_proposals (ex_machine ex_answers) ''/r'' ''id'' ex_config 0 ex_slots ex_prepared)"

lemma ex_run_conclude:
  "ex_run ex_answers = conclude (ex_machine ex_answers) ex_verification ''task'' ''/r'' ''id'' ex_config (\<lambda>p r. ''msg'') ex_finished ex_started"
proof -
  have c: "create_proposals (ex_machine ex_answers) ''/r'' ''id'' ex_config 0 ex_slots ex_prepared = (Inr ex_created, ex_started)"
    using ex_steps(2) by (simp add: ex_started_def prod_eq_iff)
  show ?thesis
    unfolding ex_run_def run_best_of_n_def ex_slots_def [symmetric] Let_def
    by (simp add: bindS_def ex_steps(1,3,4) c)
qed

lemma ex_ranking: "ranking ex_result = [0]"
  by (simp add: ranking_def ex_result_def)

lemma ex_settled:
  "\<exists>res w1. settle (ex_machine ex_answers) ''/r'' ''id'' ex_config (\<lambda>p r. ''msg'') ex_finished [ex_finished ! 0] ex_result (ex_finished ! 0) ex_started = (Inr res, w1) \<and>
     fst (cleanup (ex_machine ex_answers) (keeps ex_config (Some (ex_finished ! 0))) ex_finished w1) = Inr () \<and>
     br_proposals res = ex_finished \<and> br_winner res = ex_finished ! 0 \<and> merge_event ''best-of-n/id/mine-0'' ''/r'' \<in> set w1"
proof -
  let ?h = "ex_machine ex_answers"
  obtain r1 w1 where m: "merge_winner ?h ''/r'' (ex_finished ! 0) ''msg'' ex_started = (r1, w1)" by (metis surj_pair)
  have "fst (merge_winner ?h ''/r'' (ex_finished ! 0) ''msg'' ex_started) = Inr (Some ''c0'')" by code_simp
  with m have r1: "r1 = Inr (Some ''c0'')" by simp
  have "fst (cleanup ?h (keeps ex_config (Some (ex_finished ! 0))) ex_finished (snd (merge_winner ?h ''/r'' (ex_finished ! 0) ''msg'' ex_started))) = Inr ()"
    by code_simp
  with m have "fst (cleanup ?h (keeps ex_config (Some (ex_finished ! 0))) ex_finished w1) = Inr ()" by simp
  moreover have "merge_event ''best-of-n/id/mine-0'' ''/r'' \<in> set (snd (merge_winner ?h ''/r'' (ex_finished ! 0) ''msg'' ex_started))"
    by code_simp
  then have "merge_event ''best-of-n/id/mine-0'' ''/r'' \<in> set w1" using m by simp
  moreover have "v_scores ex_result = [1]" by (simp add: ex_result_def)
  ultimately show ?thesis
    by (simp add: settle_def ex_ranking bindS_def m r1)
qed

lemma ex_run_result: "\<exists>res w'. ex_run ex_answers = (Inr res, w') \<and> br_proposals res = ex_finished \<and>
    br_winner res = ex_finished ! 0 \<and> merge_event ''best-of-n/id/mine-0'' ''/r'' \<in> set w'"
proof -
  let ?clean = "cleanup (ex_machine ex_answers) (keeps ex_config (Some (ex_finished ! 0))) ex_finished"
  obtain res w1 where res: "settle (ex_machine ex_answers) ''/r'' ''id'' ex_config (\<lambda>p r. ''msg'') ex_finished [ex_finished ! 0] ex_result (ex_finished ! 0) ex_started = (Inr res, w1)"
    "fst (?clean w1) = Inr ()" "br_proposals res = ex_finished" "br_winner res = ex_finished ! 0"
    "merge_event ''best-of-n/id/mine-0'' ''/r'' \<in> set w1"
    using ex_settled by blast
  obtain w2 where clean: "?clean w1 = (Inr (), w2)" using res(2) by (cases "?clean w1") simp
  obtain es where "w2 = w1 @ es" using onlyD [OF cleanup_only clean [unfolded ex_machine_def]] by blast
  with res clean show ?thesis unfolding ex_run_conclude ex_conclude try_finally_def by simp
qed

theorem run_delivers_the_selected_proposal_witness:
  "\<exists>res w'. ex_run ex_answers = (Inr res, w') \<and> br_scores res = [1, 0] \<and> mset (br_ranking res) = {#0#}"
proof -
  obtain res w' where run: "ex_run ex_answers = (Inr res, w')" "br_proposals res = ex_finished" using ex_run_result by blast
  from run_delivers_the_selected_proposal [OF run(1) [unfolded ex_run_def] refl refl] obtain r where
    r: "select_best_of_n ex_verification ''task'' (map (trajectory ''task'') (filter pp_ok ex_finished)) ex_config = Inr r"
    and facts: "br_scores res = fill_scores (zip (filter pp_ok ex_finished) (v_scores r)) (replicate (length ex_finished) 0)"
      "selection_ok ex_finished (pp_index (br_winner res)) (br_scores res) (br_ranking res)"
    unfolding run(2) by blast
  have "r = ex_result" using r ex_selection by simp
  then have "br_scores res = [1, 0]" "mset (br_ranking res) = {#0#}"
    using facts unfolding ex_usable selection_ok_def by (simp_all add: ex_finished_def ex_created_def ex_result_def)
  then show ?thesis using run(1) by blast
qed

theorem run_touches_only_what_it_created_witness:
  "\<exists>es1 es2 created. snd (ex_run ex_answers) = es1 @ es2 \<and> list_all (setup_event ''id'' ''/r'') es1 \<and>
     list_all (ending_event ''/r'' (\<lambda>p. False) (\<lambda>p. True) created) es2 \<and>
     (\<forall>p \<in> set created. starts_with (pp_branch p) ''best-of-n/id/'')"
proof -
  obtain out w' where run: "ex_run ex_answers = (out, w')" by (metis surj_pair)
  have host: "wk_host (ex_worker i) = recorded (\<lambda>w argv cwd. Completed \<lparr>returncode = 0,
      stdout = (if i = 0 \<and> argv ! 1 = ''diff'' then ''+ x'' else []), stderr = []\<rparr>) (\<lambda>w p. True) (\<lambda>w p. True) (\<lambda>w p. p) (\<lambda>w p. True)" for i
    by (simp add: ex_worker_def)
  have agent: "wk_agent (ex_worker i) argv cwd env v =
      (if i = 0 then Exited \<lparr>returncode = 0, stdout = ''done'', stderr = []\<rparr> else AgentOsError ''no such file'', v @ [Exec argv cwd])" for i argv cwd env v
    by (simp add: ex_worker_def)
  from run_touches_only_what_it_created [OF run [unfolded ex_run_def ex_machine_def] host agent] obtain es1 es2 created where
    "w' = [] @ es1 @ es2" "list_all (setup_event ''id'' ''/r'') es1" "list_all (ending_event ''/r'' (\<lambda>p. False) (\<lambda>p. True) created) es2"
    "\<forall>p \<in> set created. starts_with (pp_branch p) (''best-of-n/'' @ ''id'' @ ''/'')" by blast
  then show ?thesis unfolding run snd_conv by (intro exI [of _ es1] exI [of _ es2] exI [of _ created]) simp
qed

theorem merged_branch_is_never_deleted_witness:
  "merge_event ''best-of-n/id/mine-0'' ''/r'' \<in> set (snd (ex_run ex_answers)) \<and>
   (\<forall>d. delete_event ''best-of-n/id/mine-0'' d \<notin> set (snd (ex_run ex_answers)))"
proof -
  obtain res w' where run: "ex_run ex_answers = (Inr res, w')" and m: "merge_event ''best-of-n/id/mine-0'' ''/r'' \<in> set w'"
    using ex_run_result by blast
  from merged_branch_is_never_deleted [OF run [unfolded ex_run_def ex_machine_def]] m show ?thesis unfolding run by auto
qed

definition ex_second_fails :: "history \<Rightarrow> string list \<Rightarrow> string \<Rightarrow> launch" where
  \<comment> \<open>git refuses a second worktree\<close>
  "ex_second_fails w argv cwd =
     (if take 3 argv = [''git'', ''worktree'', ''add''] \<and> length w > 9 then Completed \<lparr>returncode = 128, stdout = [], stderr = ''no''\<rparr>
      else ex_answers w argv cwd)"

theorem failed_start_leaks_the_worktrees_witness:
  "\<exists>e. fst (ex_run ex_second_fails) = Inl (WorktreeError e) \<and>
     (\<exists>d. add_event ''best-of-n/id/mine-0'' ''/r-worktrees/best-of-n-id-mine-0'' d \<in> set (snd (ex_run ex_second_fails))) \<and>
     (\<forall>p d. remove_event p d \<notin> set (snd (ex_run ex_second_fails)))"
proof -
  let ?started = "create_proposals (ex_machine ex_second_fails) ''/r'' ''id'' ex_config 0 (slots_of (\<lambda>b. False) ex_config) ex_prepared"
  have p: "prepare (ex_machine ex_second_fails) ''/r'' [] = (Inr ''c0'', ex_prepared)" by code_simp
  have s: "slots_of (\<lambda>b. False) ex_config \<noteq> []" by code_simp
  have e: "fst ?started = Inl (WorktreeError ''git worktree add failed (exit 128): no'')" by code_simp
  have a: "add_event ''best-of-n/id/mine-0'' ''/r-worktrees/best-of-n-id-mine-0'' ''/r'' \<in> set (snd ?started)" by code_simp
  have c: "?started = (fst ?started, snd ?started)" by simp
  from failed_start_leaks_the_worktrees [OF p [unfolded ex_machine_def] s c [unfolded ex_machine_def] disjI1 [OF e [unfolded ex_machine_def]],
    of ex_rendering ex_verification ex_worker "\<lambda>p r. ''msg''" "''task''"]
  have run: "ex_run ex_second_fails = (Inl (WorktreeError ''git worktree add failed (exit 128): no''), snd ?started)"
    and "\<exists>es. snd ?started = [] @ es \<and> (\<forall>p d. remove_event p d \<notin> set es)"
    unfolding ex_run_def ex_machine_def by blast+
  with a show ?thesis by auto
qed

theorem every_worktree_is_removed_witness:
  "\<exists>d d'. remove_event ''/r-worktrees/best-of-n-id-mine-0'' d \<in> set (snd (ex_run ex_answers)) \<and>
     remove_event ''/r-worktrees/best-of-n-id-mine-1'' d' \<in> set (snd (ex_run ex_answers))"
proof -
  have there: "list_all (\<lambda>p. path_str (parse_path (pp_worktree p)) = pp_worktree p \<and> list_ex (adds_worktree (pp_worktree p)) ex_started \<and>
      \<not> list_ex (removes_worktree (pp_worktree p)) ex_started) ex_finished" by code_simp
  have plain: "\<not> list_ex (removes_worktree p) es" if "\<And>d. remove_event p d \<notin> set es" for p es
    using that by (auto simp: list_ex_iff remove_event_def elim!: removes_worktree.elims)
  have "knows_worktrees ex_answers ex_exists ex_started ex_finished"
    unfolding knows_worktrees_def
  proof (intro conjI allI ballI impI)
    fix w argv cwd m
    show "ex_answers w argv cwd \<noteq> OsError m" by (simp add: ex_answers_def)
    show "\<exists>c. ex_answers w [''git'', ''rev-parse'', ''--git-common-dir''] cwd = Completed c \<and> returncode c = 0" by (simp add: ex_answers_def)
  next
    fix p es assume "p \<in> set ex_finished" "\<forall>d. remove_event (pp_worktree p) d \<notin> set es"
    with there plain show "ex_exists (ex_started @ es) (path_str (parse_path (pp_worktree p)))"
      by (simp add: ex_exists_def list_all_iff)
  qed
  moreover obtain out w' where run: "ex_run ex_answers = (out, w')" by (metis surj_pair)
  ultimately obtain es where es: "w' = ex_started @ es" "\<forall>p \<in> set ex_finished. \<exists>d. remove_event (pp_worktree p) d \<in> set es"
    using every_worktree_is_removed [OF _ run [unfolded ex_run_conclude ex_machine_def]] by blast
  have "pp_worktree (ex_finished ! 0) = ''/r-worktrees/best-of-n-id-mine-0''" "pp_worktree (ex_finished ! 1) = ''/r-worktrees/best-of-n-id-mine-1''"
    "ex_finished ! 0 \<in> set ex_finished" "ex_finished ! 1 \<in> set ex_finished"
    by code_simp+
  then have "\<exists>d. remove_event ''/r-worktrees/best-of-n-id-mine-0'' d \<in> set es" "\<exists>d. remove_event ''/r-worktrees/best-of-n-id-mine-1'' d \<in> set es"
    using es(2) by metis+
  with es(1) run show ?thesis by auto
qed

end
