(* ===== verification/Best_Of_N_Runs_Props.thy ===== *)
theory Best_Of_N_Runs_Props
  imports Best_Of_N_Runs Best_Of_N_Props
begin

text \<open>
  What every interleaving of a background run keeps: the status tells the truth about the rest of the
  run's state, it follows the documented life cycle, progress values lie in the unit interval, and a
  finished run does not change any more; and what becomes of a proposal whose thread dies.
\<close>

section \<open>The threads of the proposals\<close>

definition streams_ok :: "('w, 'v) run_env \<Rightarrow> 'w run_machine \<Rightarrow> bool" where
  "streams_ok E s \<longleftrightarrow>
     length (rs_proposals (mc_run s)) \<le> length (en_slots E) \<and>
     map pp_index (rs_proposals (mc_run s)) = [0..<length (rs_proposals (mc_run s))] \<and>
     (\<forall>i. mc_streams s i \<noteq> Idle \<longrightarrow> i < length (rs_proposals (mc_run s))) \<and>
     (mc_main s = Waiting \<longrightarrow> length (rs_proposals (mc_run s)) = length (en_slots E)) \<and>
     (mc_main s \<noteq> Waiting \<longrightarrow> (\<forall>i. mc_streams s i = Idle \<or> stream_over (mc_streams s i))) \<and>
     (mc_main s \<in> {Starting, Creating} \<longrightarrow> (\<forall>i. mc_streams s i = Idle)) \<and>
     (\<forall>i < length (rs_proposals (mc_run s)).
        dget (rs_proposal_status (mc_run s)) i = Some (if mc_streams s i = Ended then
          (if pp_ok (rs_proposals (mc_run s) ! i) then ''ok'' else ''failed'') else ''running'') \<and>
        (pp_ok (rs_proposals (mc_run s) ! i) \<longrightarrow> mc_streams s i \<in> {Reporting, Ended}))"

lemma streams_okD:
  assumes "streams_ok E s"
  shows "length (rs_proposals (mc_run s)) \<le> length (en_slots E)"
    "map pp_index (rs_proposals (mc_run s)) = [0..<length (rs_proposals (mc_run s))]"
    "mc_streams s i \<noteq> Idle \<Longrightarrow> i < length (rs_proposals (mc_run s))"
    "mc_main s \<noteq> Waiting \<Longrightarrow> mc_streams s i = Idle \<or> stream_over (mc_streams s i)"
    "i < length (rs_proposals (mc_run s)) \<Longrightarrow> dget (rs_proposal_status (mc_run s)) i = Some (if mc_streams s i = Ended then
          (if pp_ok (rs_proposals (mc_run s) ! i) then ''ok'' else ''failed'') else ''running'')"
    "i < length (rs_proposals (mc_run s)) \<Longrightarrow> pp_ok (rs_proposals (mc_run s) ! i) \<Longrightarrow> mc_streams s i \<in> {Reporting, Ended}"
  using assms by (simp_all add: streams_ok_def)

lemma stream_over_simps [simp]: "stream_over Ended" "stream_over Crashed" "\<not> stream_over Idle" "\<not> stream_over Launching"
  "\<not> stream_over Reading" "\<not> stream_over Stopping" "\<not> stream_over Snapshotting" "\<not> stream_over Reporting"
  by (simp_all add: stream_over_def)

text \<open>Every step of a proposal's thread changes its proposal, keeping its index, and its own status.\<close>

definition touches :: "nat \<Rightarrow> run_state \<Rightarrow> run_state \<Rightarrow> bool" where
  \<comment> \<open>only the proposal \<open>i\<close> differs, and not in its identity\<close>
  "touches i run run' \<longleftrightarrow> (\<exists>p. run' = run\<lparr>rs_proposals := (rs_proposals run)[i := p]\<rparr> \<and>
     (i < length (rs_proposals run) \<longrightarrow> pp_index p = pp_index (rs_proposals run ! i)))"

lemma touches_same: "touches i run run"
  unfolding touches_def by (intro exI [of _ "rs_proposals run ! i"]) simp

lemma touches_set: "pp_index p = pp_index (rs_proposals run ! i) \<Longrightarrow> touches i run (set_proposal i p run)"
  unfolding touches_def set_proposal_def by blast

lemma touches_append: "touches i run (append_transcript i rendered run)"
  by (cases rendered) (auto simp: append_transcript_def touches_same touches_def)

lemma touches_with_error: "touches i run (with_error i e run)"
  unfolding with_error_def by (rule touches_set) simp

lemma touches_trans: "touches i run run' \<Longrightarrow> touches i run' run'' \<Longrightarrow> touches i run run''"
  unfolding touches_def by (auto simp: nth_list_update)

lemma touches_exit: "touches i run (exit_error E i code run)"
  by (simp add: exit_error_def touches_same touches_with_error)

lemma touches_snapshot:
  "snapshot_proposal h base ((rs_proposals run ! i)\<lparr>pp_duration := d\<rparr>) v = (Inr q, v') \<Longrightarrow> touches i run (set_proposal i q run)"
  using snapshot_identity [of h base "(rs_proposals run ! i)\<lparr>pp_duration := d\<rparr>" v q]
  by (intro touches_set) (simp add: identity_of_def)

lemmas touching = touches_same touches_append touches_with_error touches_exit touches_snapshot touches_set
  touches_trans [OF touches_append touches_with_error]

text \<open>A thread that runs has not set \<open>ok\<close> yet, unless it is about to report.\<close>

lemma update_keeps_ok: "pp_ok p = pp_ok (ps ! i) \<Longrightarrow> pp_ok (ps[i := p] ! j) = pp_ok (ps ! j)"
  by (cases "i < length ps") (auto simp: nth_list_update not_less list_update_beyond)

lemma ok_set [simp]: "pp_ok p = pp_ok (rs_proposals run ! i) \<Longrightarrow> pp_ok (rs_proposals (set_proposal i p run) ! j) = pp_ok (rs_proposals run ! j)"
  by (simp add: set_proposal_def update_keeps_ok)

lemma ok_append [simp]: "pp_ok (rs_proposals (append_transcript i rendered run) ! j) = pp_ok (rs_proposals run ! j)"
  by (cases rendered) (auto simp: append_transcript_def update_keeps_ok)

lemma ok_with_error [simp]: "pp_ok (rs_proposals (with_error i e run) ! j) = pp_ok (rs_proposals run ! j)"
  by (simp add: with_error_def)

lemma ok_exit [simp]: "pp_ok (rs_proposals (exit_error E i code run) ! j) = pp_ok (rs_proposals run ! j)"
  by (simp add: exit_error_def)

lemma stream_step_shape:
  assumes "stream_step E i s s'"
  obtains (moves) sp run where "s' = at_stream i sp run s" "touches i (mc_run s) run" "mc_streams s i \<notin> {Idle, Reporting}"
    "\<not> stream_over (mc_streams s i)" "sp \<notin> {Idle, Ended}" "sp = Reporting \<or> pp_ok (rs_proposals run ! i) = pp_ok (rs_proposals (mc_run s) ! i)"
  | (reports) "mc_streams s i = Reporting" "s' = at_stream i Ended (report_proposal i (mc_run s)) s"
  using assms
proof (cases rule: stream_step.cases)
  case (stream_snapshot d v q v')
  then show thesis by (intro moves) (auto intro: touching)
next
  case (stream_snapshot_raises d v e v' err)
  then show thesis
    by (intro moves) (auto intro: touches_set)
qed (auto intro: moves reports touching)


lemma at_stream_simps [simp]: "mc_run (at_stream i sp run s) = run" "mc_main (at_stream i sp run s) = mc_main s"
  "mc_streams (at_stream i sp run s) = (mc_streams s)(i := sp)" "mc_trackers (at_stream i sp run s) = mc_trackers s"
  by (simp_all add: at_stream_def)

lemma at_tracker_simps [simp]: "mc_run (at_tracker i tp s) = mc_run s" "mc_main (at_tracker i tp s) = mc_main s"
  "mc_streams (at_tracker i tp s) = mc_streams s" "mc_trackers (at_tracker i tp s) = (mc_trackers s)(i := tp)"
  by (simp_all add: at_tracker_def)

lemma index_update: "map pp_index ps = [0..<length ps] \<Longrightarrow> (i < length ps \<Longrightarrow> pp_index p = pp_index (ps ! i)) \<Longrightarrow>
    map pp_index (ps[i := p]) = [0..<length ps]"
  by (cases "i < length ps") (simp_all add: map_update list_update_beyond, metis list_update_id nth_map)

lemma streams_stream:
  assumes ok: "streams_ok E s" and step: "stream_step E i s s'"
  shows "streams_ok E s'"
  using step
proof (cases rule: stream_step_shape)
  case (moves sp run)
  obtain p where run: "run = (mc_run s)\<lparr>rs_proposals := (rs_proposals (mc_run s))[i := p]\<rparr>"
    and p: "i < length (rs_proposals (mc_run s)) \<Longrightarrow> pp_index p = pp_index (rs_proposals (mc_run s) ! i)"
    using moves(2) by (auto simp: touches_def)
  have i: "i < length (rs_proposals (mc_run s))" using streams_okD(3) [OF ok] moves(3) by blast
  have w: "mc_main s = Waiting" using streams_okD(4) [OF ok, of i] moves(3,4) by blast
  have "pp_ok p \<Longrightarrow> sp = Reporting" using moves(3,4,6) streams_okD(6) [OF ok i] run i by auto
  with ok moves(1,3-5) i w run index_update [OF streams_okD(2) [OF ok], of i p] p show ?thesis
    unfolding streams_ok_def by (auto simp: nth_list_update)
next
  case reports
  have i: "i < length (rs_proposals (mc_run s))" using streams_okD(3) [OF ok] reports(1) by simp
  have w: "mc_main s = Waiting" using streams_okD(4) [OF ok, of i] reports(1) by auto
  with ok i reports show ?thesis
    unfolding streams_ok_def by (auto simp: report_proposal_def)
qed

lemma streams_tracker: "streams_ok E s \<Longrightarrow> tracker_move i s s' \<Longrightarrow> streams_ok E s'"
  by (erule tracker_move.cases) (auto simp: streams_ok_def append_progress_def)

lemma streams_main:
  assumes "streams_ok E s" and "main_step E s s'"
  shows "streams_ok E s'"
  using assms(2)
proof (cases rule: main_step.cases)
  case (main_create i cw w)
  then show ?thesis using assms(1)
    by (auto simp: streams_ok_def add_proposal_def new_proposal_def nth_append less_Suc_eq)
qed (use assms(1) in \<open>auto simp: streams_ok_def main_fails_def record_run_failure_def record_selection_def\<close>)

lemma streams_step: "streams_ok E s \<Longrightarrow> run_step E s s' \<Longrightarrow> streams_ok E s'"
  by (erule run_step.cases) (auto intro: streams_main streams_stream streams_tracker)

section \<open>The life cycle\<close>

definition untouched :: "run_state \<Rightarrow> bool" where
  \<comment> \<open>no selection yet\<close>
  "untouched run \<longleftrightarrow> rs_scores run = None \<and> rs_ranking run = None \<and> rs_winner run = None \<and> rs_n_comparisons run = None"

definition selected :: "run_state \<Rightarrow> bool" where
  "selected run \<longleftrightarrow> (\<exists>k scores rank n. rs_winner run = Some k \<and> rs_scores run = Some scores \<and> rs_ranking run = Some rank \<and>
     rs_n_comparisons run = Some n \<and> selection_ok (rs_proposals run) k scores rank)"

fun phase_ok :: "run_status \<Rightarrow> run_state \<Rightarrow> bool" where
  \<comment> \<open>what each status says about the other fields\<close>
  "phase_ok Merging run = (selected run \<and> rs_error run = None \<and> rs_merge_commit run = None)"
| "phase_ok Done run = (selected run \<and> rs_error run = None)"
| "phase_ok Failed run = ((selected run \<or> untouched run) \<and> rs_error run \<noteq> None \<and> rs_merge_commit run = None)"
| "phase_ok status run = (untouched run \<and> rs_error run = None \<and> rs_merge_commit run = None)"

fun status_at :: "main_point \<Rightarrow> run_status \<Rightarrow> bool" where
  "status_at Starting status = (status = Preparing)"
| "status_at Creating status = (status = Proposing)"
| "status_at Waiting status = (status = Proposing)"
| "status_at Selecting status = (status = Scoring)"
| "status_at (Merge r winner) status = (status = Merging)"
| "status_at _ status = (status = Done \<or> status = Failed)"

definition truthful :: "'w run_machine \<Rightarrow> bool" where
  "truthful s \<longleftrightarrow> status_at (mc_main s) (rs_status (mc_run s)) \<and> phase_ok (rs_status (mc_run s)) (mc_run s) \<and>
     (rs_finished_at (mc_run s) \<noteq> None \<longleftrightarrow> mc_main s = Over)"

lemma phase_ok_cong:
  assumes "rs_scores run' = rs_scores run" "rs_ranking run' = rs_ranking run" "rs_winner run' = rs_winner run"
    "rs_n_comparisons run' = rs_n_comparisons run" "rs_error run' = rs_error run" "rs_merge_commit run' = rs_merge_commit run"
    and "rs_proposals run' = rs_proposals run \<or> untouched run"
  shows "phase_ok status run' \<longleftrightarrow> phase_ok status run"
  using assms by (cases status) (auto simp: untouched_def selected_def)

lemma phase_ok_early: "phase_ok Proposing run \<Longrightarrow> untouched run"
  by simp

lemma truthful_stream:
  assumes "streams_ok E s" and "truthful s" and step: "stream_step E i s s'"
  shows "truthful s'"
proof -
  have "\<not> stream_over (mc_streams s i) \<and> mc_streams s i \<noteq> Idle"
    using step by (cases rule: stream_step_shape) auto
  then have w: "mc_main s = Waiting" using streams_okD(4) [OF assms(1), of i] by blast
  then have early: "rs_status (mc_run s) = Proposing" "untouched (mc_run s)" using assms(2) by (auto simp: truthful_def)
  from step show ?thesis
  proof (cases rule: stream_step_shape)
    case (moves sp run)
    then obtain p where "run = (mc_run s)\<lparr>rs_proposals := (rs_proposals (mc_run s))[i := p]\<rparr>" by (auto simp: touches_def)
    with moves(1) early assms(2) w show ?thesis by (auto simp: truthful_def untouched_def)
  next
    case reports
    with early assms(2) w show ?thesis by (auto simp: truthful_def untouched_def report_proposal_def)
  qed
qed

lemma truthful_tracker: "truthful s \<Longrightarrow> tracker_move i s s' \<Longrightarrow> truthful s'"
proof (erule tracker_move.cases)
  fix t score consumed tk over now
  assume ok: "truthful s" and eq: "s = t" "s' = at_tracker i (if over then Stopped else Tracking consumed tk) (t\<lparr>mc_run := append_progress i now score (mc_run t)\<rparr>)"
  let ?run = "mc_run t" and ?run' = "append_progress i now score (mc_run t)"
  have "phase_ok (rs_status ?run) ?run' \<longleftrightarrow> phase_ok (rs_status ?run) ?run"
    by (rule phase_ok_cong) (simp_all add: append_progress_def)
  with ok show "truthful s'" unfolding eq truthful_def by (simp add: append_progress_def)
qed (simp add: truthful_def)

lemma truthful_main:
  assumes streams: "streams_ok E s" and ok: "truthful s" and step: "main_step E s s'"
  shows "truthful s'"
  using step
proof (cases rule: main_step.cases)
  case (main_select usable r winner)
  from main_select(3) have "selection_ok (rs_proposals (mc_run s)) (pp_index winner)
      (fill_scores (zip usable (v_scores r)) (replicate (length (rs_proposals (mc_run s))) 0))
      (map (\<lambda>i. pp_index (usable ! i)) (ranking r))"
    unfolding main_select(3) using selection_facts(2) [OF main_select(4) [unfolded main_select(3)] streams_okD(2) [OF streams]] main_select(3,5) by simp
  with ok main_select show ?thesis by (auto simp: truthful_def selected_def record_selection_def)
next
  case (main_merge r winner commit w)
  have "selected ((mc_run s)\<lparr>rs_merge_commit := commit, rs_status := Done\<rparr>) \<longleftrightarrow> selected (mc_run s)" by (simp add: selected_def)
  with ok main_merge show ?thesis by (auto simp: truthful_def)
next
  case (main_clean winner u w now)
  have "phase_ok (rs_status (mc_run s)) ((mc_run s)\<lparr>rs_finished_at := Some now\<rparr>) \<longleftrightarrow> phase_ok (rs_status (mc_run s)) (mc_run s)"
    by (rule phase_ok_cong) simp_all
  with ok main_clean show ?thesis by (auto simp: truthful_def)
qed (use ok in \<open>auto simp: truthful_def main_fails_def record_run_failure_def untouched_def selected_def add_proposal_def\<close>)

lemma truthful_step: "streams_ok E s \<Longrightarrow> truthful s \<Longrightarrow> run_step E s s' \<Longrightarrow> truthful s'"
  by (erule run_step.cases) (auto intro: truthful_main truthful_stream truthful_tracker)


lemma round_half_even_range: "0 \<le> x \<Longrightarrow> x \<le> of_int m \<Longrightarrow> 0 \<le> round_half_even x \<and> round_half_even x \<le> m"
proof -
  assume x: "0 \<le> x" "x \<le> of_int m"
  have f: "0 \<le> \<lfloor>x\<rfloor>" "\<lfloor>x\<rfloor> \<le> m" using x by (simp, linarith)
  have "\<lfloor>x\<rfloor> + 1 \<le> m" if "1 / 2 \<le> x - of_int \<lfloor>x\<rfloor>" using that x(2) by linarith
  with f show ?thesis by (auto simp: round_half_even_def Let_def)
qed

lemma round4_unit: "0 \<le> r \<Longrightarrow> r \<le> 1 \<Longrightarrow> 0 \<le> round4 r \<and> round4 r \<le> 1"
  using round_half_even_range [of "r * 10000" 10000] by (simp add: round4_def)

definition unit_history :: "run_state \<Rightarrow> bool" where
  "unit_history run \<longleftrightarrow> (\<forall>i. \<forall>h \<in> set (history_of run i). 0 \<le> snd h \<and> snd h \<le> 1)"

fun tracker_ok :: "tracker_point \<Rightarrow> bool" where
  "tracker_ok (Tracking c tk) = tracker_inv tk"
| "tracker_ok (Recording c tk over score) = (tracker_inv tk \<and> 0 \<le> score \<and> score \<le> 1)"
| "tracker_ok _ = True"

definition progress_ok :: "'w run_machine \<Rightarrow> bool" where
  "progress_ok s \<longleftrightarrow> unit_history (mc_run s) \<and> (\<forall>i. tracker_ok (mc_trackers s i))"

lemma update_ok:
  assumes "tracker_inv tk" and "update step n ask tk = (out, tk')"
  shows "tracker_inv tk'" "out = Inr score \<Longrightarrow> 0 \<le> score \<and> score \<le> 1"
proof -
  show "tracker_inv tk'" using tracker_inv_step [OF assms(1), of "Update step n ask"] assms(2) by simp
  have "1 \<le> tk_n_evaluations tk" using assms(1) by (simp add: tracker_inv_def)
  from update_cases [OF assms(2) this] show "out = Inr score \<Longrightarrow> 0 \<le> score \<and> score \<le> 1"
    by cases (auto simp: mean_or_half_unit)
qed

lemma tracker_poll_ok: "tracker_inv tk \<Longrightarrow> tracker_ok (tracker_poll ask late run i consumed tk)"
  unfolding tracker_poll_def Let_def by (auto split: prod.split sum.split dest: update_ok)

lemma make_tracker_ok: "tracker_ok (make_progress_tracker E run)"
  by (simp add: make_progress_tracker_def make_tracker_def tracker_inv_def split: sum.split)

lemma history_append: "history_of (append_progress i now score run) j =
    (if i = j then history_of run i @ [(now, round4 score)] else history_of run j)"
  by (simp add: history_of_def append_progress_def)

lemma history_same: "rs_progress run' = rs_progress run \<Longrightarrow> unit_history run' \<longleftrightarrow> unit_history run"
  by (simp add: unit_history_def history_of_def)

lemma touches_progress: "touches i run run' \<Longrightarrow> rs_progress run' = rs_progress run"
  by (auto simp: touches_def)

lemma progress_cong:
  "progress_ok s \<Longrightarrow> rs_progress (mc_run s') = rs_progress (mc_run s) \<Longrightarrow>
    mc_trackers s' = mc_trackers s \<or> (\<forall>i. tracker_ok (mc_trackers s' i)) \<Longrightarrow> progress_ok s'"
  using history_same [of "mc_run s'" "mc_run s"] unfolding progress_ok_def by auto

lemma progress_stream: "progress_ok s \<Longrightarrow> stream_step E i s s' \<Longrightarrow> progress_ok s'"
  by (erule stream_step_shape; erule progress_cong) (simp_all add: report_proposal_def touches_progress)

lemma progress_main: "progress_ok s \<Longrightarrow> main_step E s s' \<Longrightarrow> progress_ok s'"
  by (erule main_step.cases; erule progress_cong)
    (simp_all add: main_fails_def record_run_failure_def add_proposal_def record_selection_def make_tracker_ok)

lemma progress_tracker: "progress_ok s \<Longrightarrow> tracker_move i s s' \<Longrightarrow> progress_ok s'"
proof (erule tracker_move.cases)
  fix t consumed tk ask late
  assume "progress_ok s" "s = t" "s' = at_tracker i (tracker_poll ask late (mc_run t) i consumed tk) t" "mc_trackers t i = Tracking consumed tk"
  moreover from this have "tracker_inv tk" by (auto simp: progress_ok_def dest: spec [of _ i])
  ultimately show "progress_ok s'" using tracker_poll_ok by (simp add: progress_ok_def)
next
  fix t consumed tk over score now
  assume ok: "progress_ok s" "s = t" and s': "s' = at_tracker i (if over then Stopped else Tracking consumed tk) (t\<lparr>mc_run := append_progress i now score (mc_run t)\<rparr>)"
    and r: "mc_trackers t i = Recording consumed tk over score"
  from ok r have "tracker_inv tk" "0 \<le> score" "score \<le> 1" by (auto simp: progress_ok_def dest: spec [of _ i])
  with ok s' round4_unit show "progress_ok s'" by (auto simp: progress_ok_def unit_history_def history_append)
qed

lemma progress_step: "progress_ok s \<Longrightarrow> run_step E s s' \<Longrightarrow> progress_ok s'"
  by (erule run_step.cases) (auto intro: progress_main progress_stream progress_tracker)

section \<open>Every interleaving\<close>

lemma initial_ok: "streams_ok E (initial (new_run run_id prompt repo config now) w)" "truthful (initial (new_run run_id prompt repo config now) w)"
  "progress_ok (initial (new_run run_id prompt repo config now) w)"
  by (simp_all add: streams_ok_def truthful_def progress_ok_def unit_history_def history_of_def initial_def new_run_def untouched_def)

lemma reachable_induct [consumes 1, case_names start step]:
  assumes "reachable E s"
    and "\<And>run_id prompt repo config now w. P (initial (new_run run_id prompt repo config now) w)"
    and "\<And>s s'. reachable E s \<Longrightarrow> P s \<Longrightarrow> run_step E s s' \<Longrightarrow> P s'"
  shows "P s"
proof -
  obtain run_id prompt repo config now w where "(run_step E)\<^sup>*\<^sup>* (initial (new_run run_id prompt repo config now) w) s"
    using assms(1) by (auto simp: reachable_def)
  then show ?thesis
  proof induction
    case (step s s')
    then show ?case using assms(3) [of s s'] unfolding reachable_def by blast
  qed (rule assms(2))
qed

lemma reachable_step: "reachable E s \<Longrightarrow> run_step E s s' \<Longrightarrow> reachable E s'"
  unfolding reachable_def by (metis rtranclp.rtrancl_into_rtrancl)

lemma reachable_ok: "reachable E s \<Longrightarrow> streams_ok E s \<and> truthful s \<and> progress_ok s"
proof (induction rule: reachable_induct)
  case (step s s')
  then show ?case using streams_step truthful_step progress_step by blast
qed (simp add: initial_ok)

text \<open>
  C37: in every interleaving the status of a run tells the truth: before the merge there is no
  selection; from then on the winner, the scores and the ranking belong together and are those of
  usable proposals; a failed run has an error and no commit, a run that is done has no error; and it
  is finished only when it is done or failed.
\<close>

theorem run_status_is_truthful:
  assumes "reachable E s" and "run = mc_run s"
  shows "phase_ok (rs_status run) run \<and> (rs_finished_at run \<noteq> None \<longrightarrow> rs_status run \<in> {Done, Failed}) \<and>
    map pp_index (rs_proposals run) = [0..<length (rs_proposals run)] \<and>
    (\<forall>p \<in> set (rs_proposals run). rs_status run \<notin> {Preparing, Proposing} \<longrightarrow> pp_ok p \<longrightarrow> status_of run (pp_index p) ''pending'' = ''ok'')"
proof -
  note ok = conjunct1 [OF reachable_ok [OF assms(1)]] and tr = conjunct1 [OF conjunct2 [OF reachable_ok [OF assms(1)]]]
  have "rs_finished_at run \<noteq> None \<longrightarrow> rs_status run \<in> {Done, Failed}" using tr assms(2) by (auto simp: truthful_def)
  moreover have "status_of run (pp_index p) ''pending'' = ''ok''"
    if p: "p \<in> set (rs_proposals run)" "pp_ok p" "rs_status run \<notin> {Preparing, Proposing}" for p
  proof -
    obtain i where i: "i < length (rs_proposals run)" "p = rs_proposals run ! i" using p(1) by (auto simp: in_set_conv_nth)
    have idx: "pp_index p = i" using index_nth [OF streams_okD(2) [OF ok]] i assms(2) by simp
    have "mc_main s \<noteq> Waiting" using tr p(3) assms(2) by (auto simp: truthful_def)
    then have "mc_streams s i = Ended"
      using streams_okD(4) [OF ok, of i] streams_okD(6) [OF ok, of i] i p(2) assms(2) by (auto simp: stream_over_def)
    then show ?thesis using streams_okD(5) [OF ok, of i] i p(2) assms(2) idx by (simp add: status_of_def)
  qed
  ultimately show ?thesis using tr streams_okD(2) [OF ok] assms(2) by (auto simp: truthful_def)
qed

fun lifecycle :: "run_status \<Rightarrow> run_status \<Rightarrow> bool" where
  "lifecycle Preparing b \<longleftrightarrow> b = Proposing"
| "lifecycle Proposing b \<longleftrightarrow> b = Scoring \<or> b = Failed"
| "lifecycle Scoring b \<longleftrightarrow> b = Merging \<or> b = Failed"
| "lifecycle Merging b \<longleftrightarrow> b = Done \<or> b = Failed"
| "lifecycle Done b \<longleftrightarrow> False"
| "lifecycle Failed b \<longleftrightarrow> False"

lemma quiet_stream: "stream_step E i s s' \<Longrightarrow> rs_status (mc_run s') = rs_status (mc_run s) \<and>
    rs_winner (mc_run s') = rs_winner (mc_run s) \<and> rs_scores (mc_run s') = rs_scores (mc_run s) \<and> rs_ranking (mc_run s') = rs_ranking (mc_run s)"
  by (erule stream_step_shape) (auto simp: touches_def report_proposal_def)

lemma quiet_tracker: "tracker_move i s s' \<Longrightarrow> \<exists>h. mc_run s' = (mc_run s)\<lparr>rs_progress := h\<rparr>"
proof (erule tracker_move.cases)
  fix t consumed tk ask late
  assume "s = t" "s' = at_tracker i (tracker_poll ask late (mc_run t) i consumed tk) t"
  then show ?thesis by (intro exI [of _ "rs_progress (mc_run t)"]) simp
qed (auto simp: append_progress_def)

lemma lifecycle_main:
  assumes "truthful s" and "main_step E s s'"
  shows "(rs_status (mc_run s') = rs_status (mc_run s) \<or> lifecycle (rs_status (mc_run s)) (rs_status (mc_run s'))) \<and>
    (rs_winner (mc_run s) \<noteq> None \<longrightarrow> rs_winner (mc_run s') = rs_winner (mc_run s) \<and>
      rs_scores (mc_run s') = rs_scores (mc_run s) \<and> rs_ranking (mc_run s') = rs_ranking (mc_run s))"
  using assms(2)
  by (cases rule: main_step.cases)
    (use assms(1) in \<open>auto simp: truthful_def untouched_def main_fails_def record_run_failure_def add_proposal_def record_selection_def\<close>)

text \<open>
  every step of every thread follows the documented life cycle: the status stays, or moves along
  preparing, proposing, scoring, merging, done, or from one of the middle ones to failed; and a
  selection, once made, is never changed.
\<close>

theorem steps_follow_the_life_cycle:
  assumes "reachable E s" and "run_step E s s'"
  shows "(rs_status (mc_run s') = rs_status (mc_run s) \<or> lifecycle (rs_status (mc_run s)) (rs_status (mc_run s'))) \<and>
    (rs_winner (mc_run s) \<noteq> None \<longrightarrow> rs_winner (mc_run s') = rs_winner (mc_run s) \<and>
      rs_scores (mc_run s') = rs_scores (mc_run s) \<and> rs_ranking (mc_run s') = rs_ranking (mc_run s))"
  using assms(2)
proof (cases rule: run_step.cases)
  case by_main
  have "truthful s" using reachable_ok [OF assms(1)] by blast
  then show ?thesis using by_main by (rule lifecycle_main)
next
  case (by_stream i)
  show ?thesis using quiet_stream [OF by_stream(2)] by simp
next
  case (by_tracker i)
  obtain h where "mc_run s' = (mc_run s)\<lparr>rs_progress := h\<rparr>" using quiet_tracker [OF by_tracker(2)] ..
  then show ?thesis by simp
qed

text \<open>
  a finished run is frozen: whatever steps are taken after the main thread is over, the machine
  and everything the run shows but progress values, which late progress threads still append, stay
  as they are.
\<close>

theorem finished_run_is_frozen:
  assumes "reachable E s" and "rs_finished_at (mc_run s) \<noteq> None" and "(run_step E)\<^sup>*\<^sup>* s s'"
  shows "mc_run s' = (mc_run s)\<lparr>rs_progress := rs_progress (mc_run s')\<rparr> \<and> mc_world s' = mc_world s \<and> reachable E s' \<and> mc_main s' = Over"
  using assms(3)
proof induction
  case base
  then show ?case using assms(1,2) reachable_ok [OF assms(1)] by (auto simp: truthful_def)
next
  case (step s1 s2)
  from step.IH have over: "mc_main s1 = Over" and r1: "reachable E s1" by blast+
  have quiet: "mc_streams s1 i = Idle \<or> stream_over (mc_streams s1 i)" for i
    using streams_okD(4) [of E s1 i] reachable_ok [OF r1] over by simp
  have "(\<exists>h. mc_run s2 = (mc_run s1)\<lparr>rs_progress := h\<rparr>) \<and> mc_world s2 = mc_world s1 \<and> mc_main s2 = Over"
    using step.hyps(2)
  proof (cases rule: run_step.cases)
    case by_main
    then show ?thesis using over by (auto elim!: main_step.cases)
  next
    case (by_stream i)
    then show ?thesis using quiet [of i] by (auto elim!: stream_step_shape)
  next
    case (by_tracker i)
    have "mc_world s2 = mc_world s1 \<and> mc_main s2 = mc_main s1" using by_tracker(2) by (cases rule: tracker_move.cases) (simp_all add: at_tracker_def)
    then show ?thesis using over quiet_tracker [OF by_tracker(2)] by simp
  qed
  then obtain h' where "mc_run s2 = (mc_run s1)\<lparr>rs_progress := h'\<rparr>" "mc_world s2 = mc_world s1" "mc_main s2 = Over" by blast
  moreover obtain h where "mc_run s1 = (mc_run s)\<lparr>rs_progress := h\<rparr>" using step.IH by metis
  ultimately show ?case using step.IH reachable_step [OF r1 step.hyps(2)] by simp
qed

definition alive :: "nat \<Rightarrow> 'w run_machine \<Rightarrow> bool" where
  \<comment> \<open>the progress thread of \<open>i\<close> polls or is about to poll again\<close>
  "alive i s \<longleftrightarrow> (\<exists>c tk. mc_trackers s i = Tracking c tk) \<or> (\<exists>c tk sc. mc_trackers s i = Recording c tk False sc)"

lemma poll_alive: "status_of run i ''running'' = ''running'' \<Longrightarrow>
    (\<exists>c tk'. tracker_poll ask late run i consumed tk = Tracking c tk') \<or>
    (\<exists>c tk' sc. tracker_poll ask late run i consumed tk = Recording c tk' False sc)"
  by (auto simp: tracker_poll_def Let_def split: prod.split sum.split)

text \<open>
  when the thread of a proposal dies, the proposal is shown as running for ever, and its progress
  thread never stops.
\<close>

theorem dead_thread_keeps_its_proposal_running:
  assumes "reachable E s" and "mc_streams s i = Crashed" and "alive i s" and "(run_step E)\<^sup>*\<^sup>* s s'"
  shows "status_of (mc_run s') i ''pending'' = ''running'' \<and> alive i s'"
proof -
  have "reachable E s' \<and> mc_streams s' i = Crashed \<and> alive i s' \<and> mc_main s' \<notin> {Starting, Creating}"
    using assms(4)
  proof induction
    case base
    have "mc_main s \<notin> {Starting, Creating}" using reachable_ok [OF assms(1)] assms(2) by (auto simp: streams_ok_def)
    then show ?case using assms(1-3) by blast
  next
    case (step s1 s2)
    then have r1: "reachable E s1" and c1: "mc_streams s1 i = Crashed" and a1: "alive i s1" and m1: "mc_main s1 \<notin> {Starting, Creating}" by blast+
    have ok: "streams_ok E s1" using reachable_ok [OF r1] by blast
    have run: "status_of (mc_run s1) i ''running'' = ''running''"
      using streams_okD(5) [OF ok streams_okD(3) [OF ok, of i]] c1 by (simp add: status_of_def)
    have "mc_streams s2 i = Crashed \<and> alive i s2 \<and> mc_main s2 \<notin> {Starting, Creating}"
      using step.hyps(2)
    proof (cases rule: run_step.cases)
      case by_main
      then show ?thesis using c1 a1 m1 by (auto elim!: main_step.cases simp: alive_def main_fails_def)
    next
      case (by_stream j)
      from by_stream(2) show ?thesis
        by (cases rule: stream_step_shape) (use c1 a1 m1 in \<open>auto simp: alive_def\<close>)
    next
      case (by_tracker j)
      from by_tracker(2) show ?thesis
      proof (cases rule: tracker_move.cases)
        case (track_poll consumed tk ask late)
        then show ?thesis using c1 a1 m1 poll_alive [OF run, of ask late consumed tk] by (auto simp: alive_def)
      next
        case (track_record consumed tk over score now)
        then show ?thesis using c1 a1 m1 by (auto simp: alive_def)
      qed
    qed
    with r1 step.hyps(2) show ?case using reachable_step by blast
  qed
  then have ok: "streams_ok E s'" and c: "mc_streams s' i = Crashed" and a: "alive i s'" using reachable_ok by blast+
  with streams_okD(5) [OF ok streams_okD(3) [OF ok, of i]] show ?thesis by (simp add: status_of_def)
qed

text \<open>
  every progress value a snapshot of a run ever shows lies in the unit interval, and the headline
  value is the last one of the history.
\<close>

theorem shown_progress_in_unit_interval:
  assumes "reachable E s" and "v \<in> set (rv_proposals (snapshot (mc_run s)))"
  shows "list_all (\<lambda>x. 0 \<le> x \<and> x \<le> 1) (pv_progress_history v) \<and>
    pv_progress v = (if pv_progress_history v = [] then None else Some (last (pv_progress_history v)))"
proof -
  have unit: "unit_history (mc_run s)" using reachable_ok [OF assms(1)] by (simp add: progress_ok_def)
  obtain p where v: "v = proposal_snapshot (mc_run s) p" using assms(2) by (auto simp: snapshot_def)
  have "list_all (\<lambda>x. 0 \<le> x \<and> x \<le> 1) (map snd (history_of (mc_run s) (pp_index p)))"
    using unit by (auto simp: unit_history_def list_all_iff)
  moreover have "pv_progress v = (if pv_progress_history v = [] then None else Some (last (pv_progress_history v)))"
    by (cases "history_of (mc_run s) (pp_index p)") (simp_all add: v proposal_snapshot_def last_map)
  ultimately show ?thesis by (simp add: v proposal_snapshot_def)
qed

section \<open>The table of runs\<close>

lemma pop_stale_fold: "pop_stale xs runs = foldl (\<lambda>d r. ddel (rs_id r) d) runs (take (length xs - max_finished_runs) xs)"
proof (induction xs arbitrary: runs)
  case (Cons x xs)
  then show ?case
    by (cases "Suc (length xs) > max_finished_runs") (simp_all add: Suc_diff_le less_Suc_eq_le)
qed simp

lemma fold_ddel: "foldl (\<lambda>d r. ddel (rs_id r) d) runs xs = filter (\<lambda>kv. fst kv \<notin> rs_id ` set xs) runs"
  by (induction xs arbitrary: runs) (auto simp: ddel_filter intro!: filter_cong)

definition table_ok :: "runs \<Rightarrow> bool" where
  "table_ok runs \<longleftrightarrow> dict_ok runs \<and> list_all (\<lambda>(k, r). rs_id r = k) runs"

lemma table_ids: "table_ok runs \<Longrightarrow> map rs_id (map snd runs) = map fst runs"
  by (auto simp: table_ok_def list_all_iff)

lemma filter_front:
  "distinct (map f xs) \<Longrightarrow> filter (\<lambda>x. f x \<notin> f ` set (take m xs)) xs = drop m xs"
proof (induction xs arbitrary: m)
  case (Cons x xs)
  show ?case
  proof (cases m)
    case (Suc k)
    have "filter (\<lambda>y. f y \<notin> f ` set (take m (x # xs))) xs = filter (\<lambda>y. f y \<notin> f ` set (take k xs)) xs"
      by (intro filter_cong refl) (use Cons.prems Suc in \<open>auto simp: image_iff\<close>)
    with Cons Suc show ?thesis by simp
  qed simp
qed simp

lemma prune_facts:
  assumes "table_ok runs"
  defines "xs \<equiv> sort_key finish_time (filter finished (map snd runs))"
  defines "m \<equiv> length xs - max_finished_runs"
  shows "prune_finished runs = filter (\<lambda>kv. fst kv \<notin> rs_id ` set (take m xs)) runs"
    and "mset (filter finished (map snd (prune_finished runs))) = mset (drop m xs)"
proof -
  show eq: "prune_finished runs = filter (\<lambda>kv. fst kv \<notin> rs_id ` set (take m xs)) runs"
    unfolding prune_finished_def xs_def [symmetric] pop_stale_fold fold_ddel m_def ..
  have dist: "distinct (map rs_id (map snd runs))" using assms(1) unfolding table_ids [OF assms(1)] by (simp add: table_ok_def dict_ok_def)
  have perm: "mset (map rs_id xs) = mset (map rs_id (filter finished (map snd runs)))" by (simp add: xs_def)
  have "distinct (map rs_id (filter finished (map snd runs)))" using dist by (rule distinct_map_filter)
  then have dx: "distinct (map rs_id xs)" using mset_eq_imp_distinct_iff [OF perm] by simp
  have "map snd (prune_finished runs) = filter (\<lambda>r. rs_id r \<notin> rs_id ` set (take m xs)) (map snd runs)"
    unfolding eq filter_map comp_def
    by (rule arg_cong [where f = "map snd"], rule filter_cong) (use assms(1) in \<open>auto simp: table_ok_def list_all_iff\<close>)
  then have "filter finished (map snd (prune_finished runs)) =
      filter (\<lambda>r. rs_id r \<notin> rs_id ` set (take m xs)) (filter finished (map snd runs))"
    by (simp add: conj_commute)
  moreover have "mset (filter P (filter finished (map snd runs))) = mset (filter P xs)" for P
    by (simp only: mset_filter xs_def mset_sort)
  ultimately have "mset (filter finished (map snd (prune_finished runs))) = mset (filter (\<lambda>r. rs_id r \<notin> rs_id ` set (take m xs)) xs)"
    by metis
  then show "mset (filter finished (map snd (prune_finished runs))) = mset (drop m xs)"
    unfolding filter_front [OF dx] .
qed

text \<open>
  starting a run drops no run that is still going; of the finished ones it keeps the twenty that
  finished last, or all of them, and adds the new run, whose snapshot it returns.
\<close>

theorem starting_a_run_keeps_the_active_and_the_newest:
  assumes "table_ok runs" and "start_run h which run_id now prompt repo config runs w = (Inr (view, runs', base), w')"
  shows "\<exists>kept. runs' = dset run_id (new_run run_id prompt repo config now) kept \<and> table_ok kept \<and> set kept \<subseteq> set runs \<and>
    (\<forall>kv \<in> set runs. \<not> finished (snd kv) \<longrightarrow> kv \<in> set kept) \<and>
    length (filter finished (map snd kept)) = min max_finished_runs (length (filter finished (map snd runs))) \<and>
    (\<forall>old \<in> set runs - set kept. \<forall>kv \<in> set kept. finished (snd kv) \<longrightarrow> finish_time (snd old) \<le> finish_time (snd kv)) \<and>
    get_run runs' run_id = Some view"
proof -
  define kept where "kept = prune_finished runs"
  define xs where "xs = sort_key finish_time (filter finished (map snd runs))"
  define m where "m = length xs - max_finished_runs"
  have kept: "kept = filter (\<lambda>kv. fst kv \<notin> rs_id ` set (take m xs)) runs"
    "mset (filter finished (map snd kept)) = mset (drop m xs)"
    unfolding kept_def xs_def m_def using prune_facts [OF assms(1)] by simp_all
  have res: "runs' = dset run_id (new_run run_id prompt repo config now) kept" "view = snapshot (new_run run_id prompt repo config now)"
    using assms(2) by (auto simp: start_run_def bindS_eq_Inr Let_def kept_def split: if_splits)
  have key: "rs_id r = k" if "(k, r) \<in> set runs" for k r using assms(1) that by (auto simp: table_ok_def list_all_iff)
  have inj: "r = r'" if "(k, r) \<in> set runs" "(k, r') \<in> set runs" for k r r'
    using that assms(1) by (auto simp: table_ok_def dict_ok_def intro: eq_key_imp_eq_value)
  have stale: "\<exists>r \<in> set (take m xs). kv = (rs_id r, r) \<and> finished r" if "kv \<in> set runs - set kept" for kv
  proof -
    from that kept(1) obtain r where r: "r \<in> set (take m xs)" "fst kv = rs_id r" "kv \<in> set runs" by auto
    then have "r \<in> set xs" by (meson in_set_takeD)
    then obtain k where "(k, r) \<in> set runs" "finished r" by (auto simp: xs_def)
    with key inj r show ?thesis by (metis prod.collapse)
  qed
  have "table_ok kept" using assms(1) unfolding kept(1) by (auto simp: table_ok_def dict_ok_def list_all_iff distinct_map_filter)
  moreover have "set kept \<subseteq> set runs" by (auto simp: kept(1))
  moreover have "\<forall>kv \<in> set runs. \<not> finished (snd kv) \<longrightarrow> kv \<in> set kept" using stale by fastforce
  moreover have "length (filter finished (map snd kept)) = min max_finished_runs (length (filter finished (map snd runs)))"
  proof -
    have "length (filter finished (map snd kept)) = length (drop m xs)" using kept(2) by (metis size_mset)
    then show ?thesis by (simp add: m_def xs_def min_def)
  qed
  moreover have "finish_time (snd old) \<le> finish_time (snd kv)"
    if old: "old \<in> set runs - set kept" and kv: "kv \<in> set kept" "finished (snd kv)" for old kv
  proof -
    obtain i where i: "i < m" "i < length xs" "snd old = xs ! i" using stale [OF old] by (auto simp: in_set_conv_nth)
    have "snd kv \<in> set (filter finished (map snd kept))" using kv by auto
    then have "snd kv \<in> set (drop m xs)" unfolding mset_eq_setD [OF kept(2)] .
    then obtain j where "j < length (drop m xs)" "snd kv = drop m xs ! j" by (metis in_set_conv_nth)
    then have j: "m + j < length xs" "snd kv = xs ! (m + j)" by simp_all
    have "sorted (map finish_time xs)" by (simp add: xs_def)
    from sorted_nth_mono [OF this, of i "m + j"] i j show ?thesis by simp
  qed
  moreover have "get_run runs' run_id = Some view" by (simp add: res get_run_def)
  ultimately show ?thesis using res(1) by (intro exI [of _ kept]) blast
qed

section \<open>Two runs\<close>

definition ex_env :: "(history \<Rightarrow> string list \<Rightarrow> string \<Rightarrow> launch) \<Rightarrow> (history, history) run_env" where
  "ex_env an = \<lparr>en_host = ex_machine an, en_worker_host = wk_host (ex_worker 0), en_slots = take 1 ex_slots, en_base = ''c0'',
     en_rendering = ex_rendering, en_verification = ex_verification, en_message = (\<lambda>p r. ''msg'')\<rparr>"

definition ex_start :: "history run_machine" where
  "ex_start = initial (new_run ''id'' ''task'' ''/r'' ex_config 1) []"

definition ex_creating :: "history run_machine" where
  "ex_creating = ex_start\<lparr>mc_run := (mc_run ex_start)\<lparr>rs_status := Proposing\<rparr>, mc_main := Creating\<rparr>"

definition ex_refused :: "history \<Rightarrow> string list \<Rightarrow> string \<Rightarrow> launch" where
  \<comment> \<open>git refuses to add a worktree\<close>
  "ex_refused w argv cwd =
     (if take 3 argv = [''git'', ''worktree'', ''add''] then Completed \<lparr>returncode = 128, stdout = [], stderr = ''no''\<rparr> else ex_answers w argv cwd)"

lemma ex_slots_length: "length ex_slots = 2"
  by code_simp

lemma ex_first: "run_step (ex_env an) ex_start ex_creating"
  unfolding ex_creating_def by (intro by_main main_start) (simp add: ex_start_def initial_def)

lemma ex_start_reachable: "reachable E ex_start"
  unfolding reachable_def ex_start_def by blast

lemma ex_creating_reachable: "reachable (ex_env an) ex_creating"
  by (rule reachable_step [OF ex_start_reachable ex_first])

lemma ex_fails: "\<exists>s. reachable (ex_env ex_refused) s \<and> rs_finished_at (mc_run s) = Some 2 \<and> rs_status (mc_run s) = Failed"
proof -
  let ?E = "ex_env ex_refused" and ?b = "proposal_branch ''id'' ''mine'' 0"
  let ?c = "create_worktree (ex_machine ex_refused) ''/r'' ?b None []"
  have c: "fst ?c = Inl (WorktreeError ''git worktree add failed (exit 128): no'')" by code_simp
  have h: "po_harness (take 1 ex_slots ! 0) = ''mine''" by code_simp
  let ?s = "main_fails (WorktreeError ''git worktree add failed (exit 128): no'') None (ex_creating\<lparr>mc_world := snd ?c\<rparr>)"
  have "run_step ?E ex_creating ?s"
    by (intro by_main main_create_fails [where i = 0])
      (use c h ex_slots_length in \<open>simp_all add: ex_env_def ex_creating_def ex_start_def initial_def new_run_def prod_eq_iff\<close>)
  moreover have "run_step ?E ?s (?s\<lparr>mc_run := (mc_run ?s)\<lparr>rs_finished_at := Some 2\<rparr>, mc_main := Over, mc_world := mc_world ?s\<rparr>)"
    by (intro by_main main_clean [where winner = None and u = "()"])
      (simp_all add: main_fails_def record_run_failure_def ex_creating_def ex_start_def initial_def new_run_def)
  ultimately have "reachable ?E (?s\<lparr>mc_run := (mc_run ?s)\<lparr>rs_finished_at := Some 2\<rparr>, mc_main := Over, mc_world := mc_world ?s\<rparr>)"
    using ex_creating_reachable reachable_step by blast
  then show ?thesis by (intro exI conjI, assumption) (simp_all add: main_fails_def record_run_failure_def)
qed

lemma ex_dies: "\<exists>s. reachable (ex_env ex_answers) s \<and> mc_streams s 0 = Crashed \<and> alive 0 s \<and> length (rs_proposals (mc_run s)) = 1"
proof -
  let ?E = "ex_env ex_answers" and ?b = "proposal_branch ''id'' ''mine'' 0"
  let ?c = "create_worktree (ex_machine ex_answers) ''/r'' ?b None []"
  obtain cw where c: "fst ?c = Inr cw"
  proof -
    have "fst ?c = Inr \<lparr>cw_path = ''/r-worktrees/best-of-n-id-mine-0'', cw_branch = ''best-of-n/id/mine-0''\<rparr>" by code_simp
    then show thesis by (rule that)
  qed
  have h: "po_harness (take 1 ex_slots ! 0) = ''mine''" by code_simp
  let ?s1 = "ex_creating\<lparr>mc_run := add_proposal (new_proposal (rs_config (mc_run ex_creating)) (take 1 ex_slots ! 0) 0 cw) (mc_run ex_creating), mc_world := snd ?c\<rparr>"
  have "run_step ?E ex_creating ?s1"
    by (rule by_main, rule main_create [where i = 0 and E = ?E and s = ex_creating, unfolded ex_env_def run_env.simps, folded ex_env_def])
      (use c h ex_slots_length in \<open>simp_all add: ex_env_def ex_creating_def ex_start_def initial_def new_run_def prod_eq_iff\<close>)
  moreover define s2 where "s2 = ?s1\<lparr>mc_main := Waiting, mc_streams := (\<lambda>i. if i < length (en_slots ?E) then Launching else Idle),
      mc_trackers := (\<lambda>i. if i < length (en_slots ?E) then make_progress_tracker ?E (mc_run ?s1) else Unstarted)\<rparr>"
  have "run_step ?E ?s1 s2"
    unfolding s2_def
    by (intro by_main main_spawn) (simp_all add: ex_env_def ex_slots_length ex_creating_def ex_start_def initial_def new_run_def add_proposal_def)
  moreover have p: "mc_streams s2 0 = Launching" "length (en_slots ?E) = 1" by (simp_all add: s2_def ex_env_def ex_slots_length)
  have l: "launchable_command ?E (mc_run s2) 0"
  proof -
    have "launchable_command ?E (new_run ''id'' ''task'' ''/r'' ex_config 1) 0" by code_simp
    then show ?thesis by (simp add: launchable_command_def s2_def add_proposal_def ex_creating_def ex_start_def initial_def new_run_def)
  qed
  let ?s3 = "at_stream 0 Reading (mc_run s2) s2"
  have "run_step ?E s2 ?s3" by (rule by_stream [where i = 0]) (use p l in \<open>auto intro: stream_launch\<close>)
  moreover have "run_step ?E ?s3 (at_stream 0 Crashed (mc_run ?s3) ?s3)"
    by (rule by_stream [where i = 0], use p in simp, rule stream_undecodable, simp)
  ultimately have "reachable ?E (at_stream 0 Crashed (mc_run ?s3) ?s3)"
    using ex_creating_reachable reachable_step by blast
  moreover have "alive 0 s2"
    using p ex_client by (simp add: alive_def s2_def make_progress_tracker_def make_tracker_def ex_env_def add_proposal_def
        ex_creating_def ex_start_def initial_def new_run_def)
  then have "alive 0 (at_stream 0 Crashed (mc_run ?s3) ?s3)" by (simp add: alive_def)
  moreover have "length (rs_proposals (mc_run s2)) = 1"
    by (simp add: s2_def add_proposal_def ex_creating_def ex_start_def initial_def new_run_def)
  ultimately show ?thesis by (intro exI [of _ "at_stream 0 Crashed (mc_run ?s3) ?s3"]) simp
qed

theorem run_status_is_truthful_witness:
  "\<exists>s. reachable (ex_env ex_refused) s \<and> rs_status (mc_run s) = Failed \<and> rs_error (mc_run s) \<noteq> None \<and> rs_merge_commit (mc_run s) = None"
proof -
  obtain s where s: "reachable (ex_env ex_refused) s" "rs_status (mc_run s) = Failed" using ex_fails by blast
  with run_status_is_truthful [OF s(1) refl] show ?thesis by auto
qed

theorem steps_follow_the_life_cycle_witness:
  "rs_status (mc_run ex_start) = Preparing \<and> lifecycle (rs_status (mc_run ex_start)) (rs_status (mc_run ex_creating))"
proof -
  have "rs_status (mc_run ex_creating) \<noteq> rs_status (mc_run ex_start)" "rs_status (mc_run ex_start) = Preparing"
    by (simp_all add: ex_creating_def ex_start_def initial_def new_run_def)
  with steps_follow_the_life_cycle [OF ex_start_reachable ex_first] show ?thesis by auto
qed

theorem finished_run_is_frozen_witness:
  "\<exists>s :: history run_machine. rs_finished_at (mc_run s) = Some 2 \<and> mc_main s = Over"
proof -
  obtain s where s: "reachable (ex_env ex_refused) s" "rs_finished_at (mc_run s) = Some 2" using ex_fails by blast
  then have "rs_finished_at (mc_run s) \<noteq> None" by simp
  from conjunct2 [OF finished_run_is_frozen [OF s(1) this rtranclp.rtrancl_refl]] s(2) show ?thesis by blast
qed

theorem dead_thread_keeps_its_proposal_running_witness:
  "\<exists>s. reachable (ex_env ex_answers) s \<and> status_of (mc_run s) 0 ''pending'' = ''running'' \<and> mc_streams s 0 = Crashed"
proof -
  obtain s where s: "reachable (ex_env ex_answers) s" "mc_streams s 0 = Crashed" "alive 0 s" using ex_dies by blast
  from dead_thread_keeps_its_proposal_running [OF s rtranclp.rtrancl_refl] s show ?thesis by blast
qed

theorem shown_progress_in_unit_interval_witness:
  "\<exists>s v. reachable (ex_env ex_answers) s \<and> v \<in> set (rv_proposals (snapshot (mc_run s))) \<and> list_all (\<lambda>x. 0 \<le> x \<and> x \<le> 1) (pv_progress_history v)"
proof -
  obtain s where s: "reachable (ex_env ex_answers) s" "length (rs_proposals (mc_run s)) = 1" using ex_dies by blast
  then obtain v where v: "v \<in> set (rv_proposals (snapshot (mc_run s)))" by (cases "rs_proposals (mc_run s)") (auto simp: snapshot_def)
  from shown_progress_in_unit_interval [OF s(1) v] s(1) v show ?thesis by blast
qed

definition ex_table :: runs where
  "ex_table = map (\<lambda>i. (show_nat i, (new_run (show_nat i) ''task'' ''/r'' ex_config 1)
     \<lparr>rs_status := (if i = 3 then Scoring else Done), rs_finished_at := (if i = 3 then None else Some (real i + 1))\<rparr>)) [0..<23]"

theorem starting_a_run_keeps_the_active_and_the_newest_witness:
  "\<exists>view runs' base w. start_run (ex_machine ex_answers) (\<lambda>b. False) ''id'' 1 ''task'' ''/r'' ex_config ex_table [] = (Inr (view, runs', base), w) \<and>
     get_run runs' ''id'' = Some view"
proof -
  have slots: "launchable_slots (\<lambda>b. False) ex_config \<noteq> []" by code_simp
  obtain view runs' base w where run: "start_run (ex_machine ex_answers) (\<lambda>b. False) ''id'' 1 ''task'' ''/r'' ex_config ex_table [] = (Inr (view, runs', base), w)"
    using slots by (simp add: start_run_def bindS_def ex_steps(1) Let_def)
  have "map fst ex_table = map show_nat [0..<23]" by (simp add: ex_table_def)
  moreover have "distinct (map show_nat [0..<23])" by (simp add: distinct_map inj_on_def show_nat_inj)
  ultimately have "table_ok ex_table" unfolding table_ok_def dict_ok_def by (simp add: list_all_iff) (auto simp: ex_table_def new_run_def)
  from starting_a_run_keeps_the_active_and_the_newest [OF this run] run show ?thesis by blast
qed

end
