(* ===== verification/Spec2Isabelle.thy ===== *)
theory Spec2Isabelle
  imports Session_Stream Scheduler Runner_Gate_Props Session_Usage_Props Shell_Commands_Props Block_Notifier_Props Approval Egress_Rules Pending_Inputs Pending_Elicitations Permissions Progress Best_Of_N_Runs_Props
begin

text \<open>
  Verification of the decision core of Omnigent-Verified (\<^verbatim>\<open>src/codify\<close> and \<^verbatim>\<open>src/llm_verifier\<close>): a server that runs
  coding agents for its users. Sessions form trees, an agent starting sub-agents; what an agent does is put to
  policies, which allow, deny or ask a human; what it costs is accounted for and limited; what it writes is
  streamed to clients; and a task can be given to several agents at once, a verifier comparing their proposals.

  \<^bold>\<open>The parts and how they interact.\<close>

  \<^item> \<^emph>\<open>Selection.\<close> \<open>Fine_Grained_Reward\<close> reads a score out of the token distribution of a verifier response
    (\<^verbatim>\<open>fine_grained_reward.py\<close>), \<open>Score_Cache\<close> scores directed pairs with a cache file (same file),
    \<open>Pivot_Tournament\<close> finds the winner with few comparisons (\<^verbatim>\<open>pivot_tournament.py\<close>), \<open>Verifier_Select\<close> puts them
    together (\<^verbatim>\<open>llm_verifier/__init__.py\<close>). \<open>Prompts\<close> are the criteria files (\<^verbatim>\<open>prompts.py\<close>), \<open>Progress\<close> the progress
    scores (\<^verbatim>\<open>progress.py\<close>).
  \<^item> \<^emph>\<open>Best-of-N runs.\<close> \<open>Best_Of_N_Config\<close> is the configuration, \<open>Best_Of_N\<close> with \<open>Best_Of_N_Props\<close> one run of
    \<^verbatim>\<open>codify/best_of_n.py\<close>, which calls the selection, \<open>Git_Worktree\<close> the worktrees it creates and removes
    (\<^verbatim>\<open>host/git_worktree.py\<close>), \<open>Host_World\<close> the machine all of this runs on, and \<open>Best_Of_N_Runs\<close> with
    \<open>Best_Of_N_Runs_Props\<close> the background runs with their threads (\<^verbatim>\<open>best_of_n_runs.py\<close>).
  \<^item> \<^emph>\<open>Policies.\<close> \<open>Policy_Types\<close> is the data (\<^verbatim>\<open>spec/types.py\<close>, \<^verbatim>\<open>policies/types.py\<close>), \<open>Policy_Engine\<close> the composition of
    policies, their labels and state (\<^verbatim>\<open>runtime/policies/engine.py\<close>), \<open>Approval\<close> the gate that waits for a human
    (\<^verbatim>\<open>runtime/policies/approval.py\<close>), \<open>Function_Policy\<close> policies given by a callable (\<^verbatim>\<open>policies/function.py\<close>),
    \<open>Policy_Session\<close> an engine over a whole session. The callables are those of \<^verbatim>\<open>policies/builtins\<close>:
    \<open>Builtin_Safety\<close> (\<^verbatim>\<open>safety.py\<close>, \<^verbatim>\<open>risk_score.py\<close>), \<open>Builtin_Cost\<close> (\<^verbatim>\<open>cost.py\<close>), \<open>Shell_Commands\<close> (\<^verbatim>\<open>_shell.py\<close>,
    \<^verbatim>\<open>working_dir.py\<close>), each with a theory \<open>..._Props\<close> of what it guarantees in an engine.
    \<open>Engine_Builder\<close> makes the engine of a conversation (\<^verbatim>\<open>runtime/policies/builder.py\<close>), \<open>Runner_Gate\<close> is the
    gate of the runner before an agent starts and the sandbox it forces (\<^verbatim>\<open>runner/policy.py\<close>, \<^verbatim>\<open>runner/app.py\<close>).
  \<^item> \<^emph>\<open>Accounting.\<close> \<open>Session_Usage\<close> records the usage that turns and native agents report and shows it to a session
    and its ancestors (\<^verbatim>\<open>server/routes/_sessions\<close>, \<^verbatim>\<open>stores/conversation_store\<close>); the engine builder reads it back
    for the budgets of \<open>Builtin_Cost\<close>.
  \<^item> \<^emph>\<open>Streams and prompts.\<close> \<open>Inflight_Text\<close> is the text being streamed, \<open>Session_Stream\<close> the fan-out to subscribers
    that updates it, \<open>Pending_Inputs\<close> the messages waiting for their echo, \<open>Pending_Elicitations\<close> the unanswered
    prompts, and \<open>Block_Notifier\<close> wakes the parent of a sub-agent that waits for one (all of \<^verbatim>\<open>codify/runtime\<close>).
  \<^item> \<^emph>\<open>Around them.\<close> \<open>Permissions\<close> decides who may see a session (\<^verbatim>\<open>server/permissions.py\<close> and its store),
    \<open>Egress_Rules\<close> what a sandboxed process may reach (\<^verbatim>\<open>inner/egress/rules.py\<close>), \<open>Scheduler\<close> fires recurring
    tasks (\<^verbatim>\<open>server/scheduled\<close>).

  \<open>Py_Prelude\<close> and \<open>Py_Values\<close> hold what Python gives all of them: exceptions as values, dictionaries in
  insertion order as association lists, strings, dynamic values, and the locales of the development
  (an invariant kept by every operation, an abstract specification simulated by every operation).

  \<^bold>\<open>How code became definitions.\<close> A function of the code is a function of the same name here, a class a record with
  the operations as functions from the state to the state. An exception is an \<open>Inl\<close>; an operation that may raise after
  it has changed something returns its outcome together with the state. Where threads or coroutines meet, a step is
  what happens under one lock or up to the next await, and the theorems hold for every interleaving: \<open>Session_Stream\<close>,
  \<open>Scheduler\<close>, \<open>Best_Of_N_Runs\<close>, \<open>Session_Usage\<close>, \<open>Block_Notifier\<close>. Loops that the code does not bound (walks up the
  parent links, paging through a table) are \<open>partial_function (option)\<close>: not to return is \<open>None\<close>, and they are proved to
  return when the parent links are well-founded and the pages list a table. The nesting of shell interpreters is the bound of the code, five levels.

  \<^bold>\<open>What the lemmas show.\<close>

  \<^item> A selection runs the tournament on the scores, its winner is optimal, and a run delivers it. A run touches only
    what it created, never deletes a merged branch, and the status of a background run is truthful.
  \<^item> The composed decision is the most restrictive one, a failing policy denies, labels stay valid, a gate opens only
    on acceptance. Over a session: tool calls are limited, a risky session needs approval, a checkpoint of a budget is
    approved once unless a later policy denies, an agent is kept in its directories by the commands the parser reads, and
    runs in the sandbox a policy forces until its cached specification is dropped.
  \<^item> The engine of a conversation agrees with the shortcut that skips it, and the gate of a runner with an engine.
  \<^item> Spend reported anywhere in a tree is gated everywhere in it; no completed turn is lost under concurrent posts, the
    breakdown adds up, and every ancestor shows the cost of its subtree.
  \<^item> A subscriber gets exactly the stream, one that connects in the middle of a response its whole text, messages waiting for an echo are queues,
    a task keeps one timer and fires in order, a parent that was woken is told of the resolution.
  \<^item> Access is decided on the root, a host rule admits exactly its domain, configuration and criteria files round-trip.

  Theorems of kind error state what the code gets wrong: overlapping reports lose the higher cost, a switched agent
  skips the start gate, a reset of the caches drops a forced sandbox, a wrapper with an option hides its command, a block requested again is told twice.
  More such behaviour is proved beside the component it belongs to.

  \<^bold>\<open>Limits.\<close> Floats are exact reals, so rounding, infinities and NaN are not represented. Characters have eight bits;
  text beyond them is written in UTF-8. Lists and dictionaries are values, so sharing of one mutable object is not
  represented; where the code copies them that is all there is. Parameters are what the repository does not contain:
  the verifier model and the agents, git and the file system, clocks and fresh identifiers, hashes, JSON and the text
  of floats, recurrence rules, prices and credentials, pages of the database. A theorem names what it needs of them
  as a hypothesis, and its witness shows an instance.

  \<^bold>\<open>Not modelled.\<close> The command line, the terminal interface and onboarding (input and output around these operations);
  the executors, forwarders and bridges of third-party agents, the model adapters and the tools (the behaviour is that of
  programs and protocols outside the repository); the HTTP routes, authentication, migrations and the queries of
  SQLAlchemy beyond the rows above; sandboxes (profiles for kernels and containers); the turn loop around the model;
  the parsing of agent bundles; telemetry; the SDKs, the Slack integration and the web client. Other built-in policies
  are callables like any other and fall under the theorems on engines. Of the modelled modules, log messages,
  progress output, the wording of prompts and of some errors are left out, each where its theory says so.
\<close>

end
